(* ===== verification/Prelude.thy ===== *)
theory Prelude
  imports Complex_Main "HOL-Library.Word" "HOL-Library.Multiset"
begin

text \<open>
  What every component of the development shares: the machine integer types of the
  sources, the error type of \<^verbatim>\<open>core/status.h\<close> with its \<^verbatim>\<open>Result\<close> alias, the
  development's collections of rewrite rules, and generic lemmas on lists and words.
  An error value keeps the error code; the diagnostic message that the code attaches to
  it is text for a log and is not part of the model.
\<close>

unbundle bit_operations_syntax

type_synonym u8 = "8 word"
type_synonym u16 = "16 word"
type_synonym u32 = "32 word"
type_synonym u64 = "64 word"

named_theorems result_simps "rules that evaluate a Result"
named_theorems store_simps "projections of the expert store after an update"
named_theorems ring_simps "the window ring of the KV store"

section \<open>Errors (core/status.h)\<close>

datatype err =
    ErrOk | Unimplemented | InvalidArgument | OutOfRange | NotFound | AlreadyExists
  | ResourceExhausted | FailedPrecondition | Io | Unavailable | Corrupt | Cancelled | Internal

type_synonym 'a result = "err + 'a"

fun err_name :: "err \<Rightarrow> string" where
  "err_name ErrOk = ''ok''"
| "err_name Unimplemented = ''unimplemented''"
| "err_name InvalidArgument = ''invalid-argument''"
| "err_name OutOfRange = ''out-of-range''"
| "err_name NotFound = ''not-found''"
| "err_name AlreadyExists = ''already-exists''"
| "err_name ResourceExhausted = ''resource-exhausted''"
| "err_name FailedPrecondition = ''failed-precondition''"
| "err_name Io = ''io''"
| "err_name Unavailable = ''unavailable''"
| "err_name Corrupt = ''corrupt''"
| "err_name Cancelled = ''cancelled''"
| "err_name Internal = ''internal''"

text \<open>\<^verbatim>\<open>CACHEDMOE_TRY\<close>: the error leaves the function, a value goes on.\<close>

definition rbind :: "'a result \<Rightarrow> ('a \<Rightarrow> 'b result) \<Rightarrow> 'b result" where
  "rbind r f = (case r of Inl e \<Rightarrow> Inl e | Inr v \<Rightarrow> f v)"

lemma rbind_simps [simp, result_simps]:
  "rbind (Inl e) f = Inl e"
  "rbind (Inr v) f = f v"
  by (simp_all add: rbind_def)

lemma rbind_Inr_iff: "rbind r f = Inr y \<longleftrightarrow> (\<exists>x. r = Inr x \<and> f x = Inr y)"
  by (cases r) auto

definition is_ok :: "'a result \<Rightarrow> bool" where
  "is_ok r = (case r of Inl _ \<Rightarrow> False | Inr _ \<Rightarrow> True)"

lemma is_ok_simps [simp, result_simps]: "\<not> is_ok (Inl e)" "is_ok (Inr v)"
  by (simp_all add: is_ok_def)

lemma is_ok_iff: "is_ok r \<longleftrightarrow> (\<exists>v. r = Inr v)"
  by (cases r) auto

section \<open>Lists\<close>

lemma distinct_butlast_last: "distinct xs \<Longrightarrow> xs \<noteq> [] \<Longrightarrow> last xs \<notin> set (butlast xs)"
  by (induction xs) (auto dest: in_set_butlastD)

lemma set_butlast_distinct: "distinct xs \<Longrightarrow> xs \<noteq> [] \<Longrightarrow> set (butlast xs) = set xs - {last xs}"
proof -
  assume d: "distinct xs" and ne: "xs \<noteq> []"
  have "set xs = set (butlast xs @ [last xs])" using ne by simp
  then have "set xs = insert (last xs) (set (butlast xs))" by simp
  with distinct_butlast_last [OF d ne] show ?thesis by auto
qed

lemma nth_upd: "n < length xs \<Longrightarrow> xs[i := y] ! n = (if n = i then y else xs ! n)"
  by (cases "n = i") simp_all

definition count_if :: "('a \<Rightarrow> bool) \<Rightarrow> 'a list \<Rightarrow> nat" where
  "count_if P xs = length (filter P xs)"

lemma count_if_simps [simp]:
  "count_if P [] = 0"
  "count_if P (x # xs) = (if P x then Suc (count_if P xs) else count_if P xs)"
  by (simp_all add: count_if_def)

text \<open>Replacing one element moves the count by what it was and what it becomes.\<close>

lemma count_if_update:
  "i < length xs \<Longrightarrow>
     count_if P (xs[i := y]) + (if P (xs ! i) then 1 else 0)
     = count_if P xs + (if P y then 1 else 0)"
proof (induction xs arbitrary: i)
  case Nil
  then show ?case by simp
next
  case (Cons x xs)
  then show ?case by (cases i) auto
qed

lemma count_if_map_same:
  "(\<And>x. x \<in> set xs \<Longrightarrow> P (f x) = P x) \<Longrightarrow> count_if P (map f xs) = count_if P xs"
  by (induction xs) auto

lemma count_if_le: "count_if P xs \<le> length xs"
  by (simp add: count_if_def)

lemma count_if_pos: "i < length xs \<Longrightarrow> P (xs ! i) \<Longrightarrow> 0 < count_if P xs"
  by (auto simp: count_if_def filter_empty_conv)

lemma count_if_all: "count_if P xs = length xs \<longleftrightarrow> (\<forall>x \<in> set xs. P x)"
proof (induction xs)
  case (Cons x xs)
  then show ?case using count_if_le [of P xs] by auto
qed simp

lemma count_if_replicate: "count_if P (replicate n x) = (if P x then n else 0)"
  by (simp add: count_if_def)

end
