(* ===== verification/Core_Types.thy ===== *)
theory Core_Types
  imports Prelude
begin

text \<open>
  The value types of \<^verbatim>\<open>core/types.h\<close>, the layout constants of \<^verbatim>\<open>model/layout.h\<close> that
  the modelled code uses, and the dtype and part names of \<^verbatim>\<open>model/manifest.cpp\<close>.
\<close>

section \<open>core/types.h\<close>

datatype quant_type = Fp4E2M1 | Fp8E4M3 | E8M0 | Bf16 | Fp32 | Fp16 | UnknownQuant

fun quant_name :: "quant_type \<Rightarrow> string" where
  "quant_name Fp4E2M1 = ''fp4_e2m1''"
| "quant_name Fp8E4M3 = ''fp8_e4m3''"
| "quant_name E8M0 = ''e8m0''"
| "quant_name Bf16 = ''bf16''"
| "quant_name Fp32 = ''f32''"
| "quant_name Fp16 = ''f16''"
| "quant_name UnknownQuant = ''unknown''"

fun quant_bits :: "quant_type \<Rightarrow> u32" where
  "quant_bits Fp4E2M1 = 4"
| "quant_bits Fp8E4M3 = 8"
| "quant_bits E8M0 = 8"
| "quant_bits Bf16 = 16"
| "quant_bits Fp16 = 16"
| "quant_bits Fp32 = 32"
| "quant_bits UnknownQuant = 0"

datatype tier = Pinned | Cached | Cold

datatype slot_state = Free | Filling | Resident

fun slot_state_name :: "slot_state \<Rightarrow> string" where
  "slot_state_name Free = ''free''"
| "slot_state_name Filling = ''filling''"
| "slot_state_name Resident = ''resident''"

text \<open>\<^verbatim>\<open>ExpertKey\<close>: layer below 40 is the main model, 40..42 are the DSpark blocks.\<close>

datatype expert_key = ExpertKey (layer: u16) (expert: u16)

definition packed :: "expert_key \<Rightarrow> u32" where
  "packed k = push_bit 16 (ucast (layer k)) OR ucast (expert k)"

definition unpack :: "u32 \<Rightarrow> expert_key" where
  "unpack v = ExpertKey (ucast (drop_bit 16 v)) (ucast (v AND 0xFFFF))"

text \<open>\<^verbatim>\<open>ExpertKeyHash\<close>: a splitmix-like finaliser over the packed key, in 64 bits.\<close>

definition expert_key_hash :: "expert_key \<Rightarrow> u64" where
  "expert_key_hash k =
     (let x = ucast (packed k) * 0x9E3779B97F4A7C15;
          x = x XOR drop_bit 31 x;
          x = x * 0xBF58476D1CE4E5B9
      in x XOR drop_bit 29 x)"

text \<open>\<^verbatim>\<open>operator<=>\<close> is the defaulted member-wise comparison: layer first, then expert.\<close>

instantiation expert_key :: linorder
begin

definition less_eq_expert_key :: "expert_key \<Rightarrow> expert_key \<Rightarrow> bool" where
  "less_eq_expert_key a b \<longleftrightarrow>
     layer a < layer b \<or> (layer a = layer b \<and> expert a \<le> expert b)"

definition less_expert_key :: "expert_key \<Rightarrow> expert_key \<Rightarrow> bool" where
  "less_expert_key a b \<longleftrightarrow>
     layer a < layer b \<or> (layer a = layer b \<and> expert a < expert b)"

instance
  by standard
    (auto simp: less_eq_expert_key_def less_expert_key_def intro: expert_key.expand)

end

datatype io_priority = BlockingMiss | Lookahead | Engram | Backfill

fun io_priority_name :: "io_priority \<Rightarrow> string" where
  "io_priority_name BlockingMiss = ''p0_blocking''"
| "io_priority_name Lookahead = ''p1_lookahead''"
| "io_priority_name Engram = ''p2_engram''"
| "io_priority_name Backfill = ''p3_backfill''"

fun io_priority_ord :: "io_priority \<Rightarrow> nat" where
  "io_priority_ord BlockingMiss = 0"
| "io_priority_ord Lookahead = 1"
| "io_priority_ord Engram = 2"
| "io_priority_ord Backfill = 3"

section \<open>model/layout.h\<close>

definition kNumLayers :: nat where "kNumLayers = 40"
definition kMtpBlocks :: nat where "kMtpBlocks = 3"
definition kTotalLogicalLayers :: nat where "kTotalLogicalLayers = kNumLayers + kMtpBlocks"
definition kRoutedExperts :: nat where "kRoutedExperts = 384"
definition kExpertWeightBytesPerMat :: u64 where "kExpertWeightBytesPerMat = 5898240"
definition kExpertScaleBytesPerMat :: u64 where "kExpertScaleBytesPerMat = 368640"
definition kExpertMats :: u64 where "kExpertMats = 3"
definition kExpertBytes :: u64 where
  "kExpertBytes = kExpertMats * (kExpertWeightBytesPerMat + kExpertScaleBytesPerMat)"
definition kExpertParts :: nat where "kExpertParts = 6"
definition kExpertSlotBytes :: u64 where "kExpertSlotBytes = 18808832"
definition kMaxExpertRuns :: nat where "kMaxExpertRuns = kExpertParts"
definition kEngramValueRowBytes :: u32 where "kEngramValueRowBytes = 256"
definition kEngramScaleRowBytes :: u32 where "kEngramScaleRowBytes = 8"

section \<open>Names (model/manifest.cpp)\<close>

definition quant_from_string :: "string \<Rightarrow> quant_type" where
  "quant_from_string s =
     (if s \<in> {''fp4_e2m1'', ''fp4'', ''e2m1''} then Fp4E2M1
      else if s \<in> {''fp8_e4m3'', ''fp8'', ''e4m3''} then Fp8E4M3
      else if s \<in> {''e8m0'', ''ue8m0''} then E8M0
      else if s \<in> {''bf16'', ''bfloat16''} then Bf16
      else if s \<in> {''f32'', ''float32'', ''fp32''} then Fp32
      else if s \<in> {''f16'', ''float16'', ''fp16''} then Fp16
      else UnknownQuant)"

fun quant_to_string :: "quant_type \<Rightarrow> string" where
  "quant_to_string Fp4E2M1 = ''fp4_e2m1''"
| "quant_to_string Fp8E4M3 = ''fp8_e4m3''"
| "quant_to_string E8M0 = ''e8m0''"
| "quant_to_string Bf16 = ''bf16''"
| "quant_to_string Fp32 = ''f32''"
| "quant_to_string Fp16 = ''f16''"
| "quant_to_string UnknownQuant = ''unknown''"

datatype expert_part = W1Weight | W1Scale | W2Weight | W2Scale | W3Weight | W3Scale

definition expert_parts :: "expert_part list" where
  "expert_parts = [W1Weight, W1Scale, W2Weight, W2Scale, W3Weight, W3Scale]"

text \<open>The enumerator's value: the index used by every six-entry array.\<close>

fun part_ord :: "expert_part \<Rightarrow> nat" where
  "part_ord W1Weight = 0"
| "part_ord W1Scale = 1"
| "part_ord W2Weight = 2"
| "part_ord W2Scale = 3"
| "part_ord W3Weight = 4"
| "part_ord W3Scale = 5"

fun expert_part_name :: "expert_part \<Rightarrow> string" where
  "expert_part_name W1Weight = ''w1.weight''"
| "expert_part_name W1Scale = ''w1.scale''"
| "expert_part_name W2Weight = ''w2.weight''"
| "expert_part_name W2Scale = ''w2.scale''"
| "expert_part_name W3Weight = ''w3.weight''"
| "expert_part_name W3Scale = ''w3.scale''"

text \<open>The loop of \<^verbatim>\<open>expert_part_from_string\<close> over the six enumerators, first match wins.\<close>

definition expert_part_from_string :: "string \<Rightarrow> expert_part option" where
  "expert_part_from_string s = find (\<lambda>p. s = expert_part_name p) expert_parts"

section \<open>Facts\<close>

lemma bit_low_half: "bit (0xFFFF :: int) n \<longleftrightarrow> n < 16"
proof -
  have eq: "(0xFFFF :: int) = mask 16" by (simp add: mask_eq_exp_minus_1)
  show ?thesis unfolding eq by (auto simp only: bit_mask_iff) simp_all
qed

lemma unpack_packed: "unpack (packed k) = k"
proof (cases k)
  case (ExpertKey l e)
  have "ucast (drop_bit 16 (packed k)) = l"
    by (rule bit_word_eqI)
      (auto simp: packed_def ExpertKey bit_simps dest: bit_imp_le_length)
  moreover have "ucast (packed k AND 0xFFFF) = e"
    by (auto simp: packed_def ExpertKey bit_simps bit_low_half intro!: bit_word_eqI)
  ultimately show ?thesis by (simp add: unpack_def ExpertKey)
qed

lemma packed_unpack: "packed (unpack v) = v"
proof (rule bit_word_eqI)
  fix n assume "n < LENGTH(32)"
  then show "bit (packed (unpack v)) n = bit v n"
    by (cases "n < 16") (simp_all add: packed_def unpack_def bit_simps bit_low_half, auto)
qed

lemma quant_to_string_inverse [simp]: "quant_from_string (quant_to_string q) = q"
  by (cases q) (simp_all add: quant_from_string_def)

lemma expert_part_from_string_name [simp]: "expert_part_from_string (expert_part_name p) = Some p"
  by (cases p) (simp_all add: expert_part_from_string_def expert_parts_def)

lemma part_ord_less [simp]: "part_ord p < kExpertParts"
  by (cases p) (simp_all add: kExpertParts_def)

lemma part_ord_inj: "part_ord p = part_ord q \<Longrightarrow> p = q"
  by (cases p; cases q) simp_all

lemma expert_bytes_value: "kExpertBytes = 18800640" "kExpertSlotBytes - kExpertBytes = 2 * 4096"
  by (simp_all add: kExpertBytes_def kExpertMats_def kExpertWeightBytesPerMat_def
      kExpertScaleBytesPerMat_def kExpertSlotBytes_def)

end
