(* ===== verification/Align.thy ===== *)
theory Align
  imports Prelude
begin

text \<open>
  \<^verbatim>\<open>core/align.h\<close>: the alignment helpers, on 64-bit words with the source's bit tricks,
  and what they compute over the natural numbers. A power of two \<open>2 ^ k\<close> with \<open>k < 64\<close> is
  the only alignment the program passes.
\<close>

definition kPageSize :: u64 where "kPageSize = 4096"

definition is_pow2 :: "u64 \<Rightarrow> bool" where
  "is_pow2 v \<longleftrightarrow> v \<noteq> 0 \<and> (v AND (v - 1)) = 0"

definition align_up :: "u64 \<Rightarrow> u64 \<Rightarrow> u64" where
  "align_up v a = (v + a - 1) AND NOT (a - 1)"

definition align_down :: "u64 \<Rightarrow> u64 \<Rightarrow> u64" where
  "align_down v a = v AND NOT (a - 1)"

definition is_aligned :: "u64 \<Rightarrow> u64 \<Rightarrow> bool" where
  "is_aligned v a \<longleftrightarrow> (v AND (a - 1)) = 0"

definition page_span :: "u64 \<Rightarrow> u64 \<Rightarrow> u64 \<Rightarrow> u64" where
  "page_span off bytes a =
     (if bytes = 0 then 0 else (align_up (off + bytes) a - align_down off a) div a)"

section \<open>Reading the bit tricks as arithmetic\<close>

lemma mask_of_pow: "(2 ^ k :: u64) - 1 = mask k"
  by (simp add: mask_eq_exp_minus_1)

lemma unat_pow_u64 [simp]: "k < 64 \<Longrightarrow> unat (2 ^ k :: u64) = 2 ^ k"
proof -
  assume "k < 64"
  then have "(2::nat) ^ k < 2 ^ 64" by (rule power_strict_increasing) simp
  then have lt: "(2::nat) ^ k < 2 ^ LENGTH(64)" by simp
  have "(2 ^ k :: u64) = of_nat (2 ^ k)" by simp
  then show ?thesis using lt by (metis of_nat_inverse)
qed

lemma and_not_mask: "(v :: u64) AND NOT (mask k) = v - take_bit k v"
proof -
  have "v AND NOT (mask k) = push_bit k (drop_bit k v)"
    by (rule bit_word_eqI) (auto simp: bit_simps)
  moreover have "push_bit k (drop_bit k v) + take_bit k v = v" by (rule bits_ident)
  ultimately show ?thesis by (metis add_diff_cancel_right')
qed

lemma unat_take_bit: "unat (take_bit k (v :: u64)) = unat v mod 2 ^ k"
proof -
  have "unat (take_bit k v) = take_bit k (unat v)" by (rule unsigned_take_bit_eq)
  then show ?thesis by (simp only: take_bit_eq_mod)
qed

lemma take_bit_le: "take_bit k (v :: u64) \<le> v"
  by (simp add: word_le_nat_alt unat_take_bit)

lemma unat_align_down:
  "unat (align_down v (2 ^ k)) = unat v - unat v mod 2 ^ k"
  by (simp add: align_down_def mask_of_pow and_not_mask unat_sub take_bit_le unat_take_bit)

lemma unat_align_down_div: "unat (align_down v (2 ^ k)) = 2 ^ k * (unat v div 2 ^ k)"
  by (simp add: unat_align_down minus_mod_eq_mult_div)

lemma is_aligned_iff: "is_aligned v (2 ^ k) \<longleftrightarrow> 2 ^ k dvd unat v"
proof -
  have "is_aligned v (2 ^ k) \<longleftrightarrow> take_bit k v = 0"
    by (simp add: is_aligned_def mask_of_pow take_bit_eq_mask)
  also have "\<dots> \<longleftrightarrow> unat v mod 2 ^ k = 0"
    by (metis unat_take_bit unat_eq_zero)
  finally show ?thesis by (simp add: mod_eq_0_iff_dvd)
qed

lemma align_up_as_down: "align_up v (2 ^ k) = align_down (v + (2 ^ k - 1)) (2 ^ k)"
  by (simp add: align_up_def align_down_def algebra_simps)

lemma unat_add_mask:
  assumes "k < 64" and "unat v + 2 ^ k \<le> 2 ^ 64"
  shows "unat (v + (2 ^ k - 1) :: u64) = unat v + (2 ^ k - 1)"
proof -
  have m: "unat (2 ^ k - 1 :: u64) = 2 ^ k - 1"
    using assms(1) by (simp add: unat_sub word_le_nat_alt)
  have "(1::nat) \<le> 2 ^ k" by simp
  then have "unat v + unat (2 ^ k - 1 :: u64) < 2 ^ LENGTH(64)"
    using assms(2) m by simp
  with m show ?thesis by (simp add: unat_add_lem [THEN iffD1])
qed

lemma unat_align_up:
  assumes "k < 64" and "unat v + 2 ^ k \<le> 2 ^ 64"
  shows "unat (align_up v (2 ^ k)) = 2 ^ k * ((unat v + (2 ^ k - 1)) div 2 ^ k)"
  by (simp add: align_up_as_down unat_align_down_div unat_add_mask [OF assms])

lemma ceil_div_bounds:
  assumes "0 < (a::nat)"
  shows "v \<le> a * ((v + (a - 1)) div a)" and "a * ((v + (a - 1)) div a) < v + a"
proof -
  have "a * ((v + (a - 1)) div a) + (v + (a - 1)) mod a = v + (a - 1)" by simp
  moreover have "(v + (a - 1)) mod a < a" using assms by simp
  ultimately show "v \<le> a * ((v + (a - 1)) div a)" and "a * ((v + (a - 1)) div a) < v + a"
    using assms by linarith+
qed

text \<open>Both helpers return a multiple of the alignment, at distance below it.\<close>

lemma align_down_bounds:
  "2 ^ k dvd unat (align_down v (2 ^ k))"
  "unat (align_down v (2 ^ k)) \<le> unat v"
  "unat v < unat (align_down v (2 ^ k)) + 2 ^ k"
proof -
  show "2 ^ k dvd unat (align_down v (2 ^ k))" by (simp add: unat_align_down_div)
  show "unat (align_down v (2 ^ k)) \<le> unat v" by (simp add: unat_align_down)
  have "2 ^ k * (unat v div 2 ^ k) + unat v mod 2 ^ k = unat v" by (rule mult_div_mod_eq)
  moreover have "unat v mod 2 ^ k < 2 ^ k" by simp
  ultimately show "unat v < unat (align_down v (2 ^ k)) + 2 ^ k"
    unfolding unat_align_down_div by linarith
qed

lemma align_up_bounds:
  assumes "k < 64" and "unat v + 2 ^ k \<le> 2 ^ 64"
  shows "2 ^ k dvd unat (align_up v (2 ^ k))"
    and "unat v \<le> unat (align_up v (2 ^ k))"
    and "unat (align_up v (2 ^ k)) < unat v + 2 ^ k"
  using ceil_div_bounds [of "2 ^ k" "unat v"] by (simp_all add: unat_align_up [OF assms])

lemma align_up_aligned: "is_aligned (align_up v (2 ^ k)) (2 ^ k)"
  by (simp add: is_aligned_def align_up_def mask_of_pow and.assoc)

lemma align_down_aligned: "is_aligned (align_down v (2 ^ k)) (2 ^ k)"
  by (simp add: is_aligned_def align_down_def mask_of_pow and.assoc)

lemma align_up_id:
  assumes "k < 64" and "unat v + 2 ^ k \<le> 2 ^ 64" and "is_aligned v (2 ^ k)"
  shows "align_up v (2 ^ k) = v"
proof -
  from assms(3) obtain q where q: "unat v = 2 ^ k * q" by (auto simp: is_aligned_iff)
  have "(2 ^ k * q + (2 ^ k - 1)) div (2 ^ k :: nat) = q + (2 ^ k - 1) div 2 ^ k"
    by (rule div_mult_self4) simp
  then have "(2 ^ k * q + (2 ^ k - 1)) div (2 ^ k :: nat) = q" by (simp add: div_less)
  then have "unat (align_up v (2 ^ k)) = unat v" by (simp add: unat_align_up [OF assms(1,2)] q)
  then show ?thesis by (simp only: word_unat_eq_iff)
qed

lemma page_is_pow: "kPageSize = 2 ^ 12"
  by (simp add: kPageSize_def)

lemmas page_aligned_iff = is_aligned_iff [of _ 12, folded page_is_pow]
lemmas page_down_bounds = align_down_bounds [where k = 12, folded page_is_pow]
lemmas page_up_bounds = align_up_bounds [where k = 12, folded page_is_pow]
lemmas page_up_aligned = align_up_aligned [of _ 12, folded page_is_pow]
lemmas page_down_aligned = align_down_aligned [of _ 12, folded page_is_pow]

end
