(* ===== verification/Slab_Pool.thy ===== *)
theory Slab_Pool
  imports Core_Types Align
begin

text \<open>
  \<^verbatim>\<open>store/slab.h\<close> and \<^verbatim>\<open>store/slab.cpp\<close>: the slab pool that gives every expert slot its
  address. A pointer is a 64-bit word and 0 is the null pointer. The backing (\<^verbatim>\<open>SlabBacking\<close>,
  a Vulkan heap or the host heap) is the argument \<open>alloc\<close>: its answer to one request, given
  the slabs it has handed out before. Page prefaulting has no effect on this state and is left
  out, as are the log lines.
\<close>

record slab_memory =
  host_ptr :: u64
  device_address :: u64
  mem_bytes :: u64

record slab_config =
  slots_per_slab :: u32
  slot_bytes :: u64
  budget_bytes :: u64

record slot_address =
  sa_host_ptr :: u64
  sa_dev_addr :: u64

record slab_pool =
  sp_cfg :: slab_config
  sp_slabs :: "slab_memory list"
  sp_slab_bytes :: u64
  sp_slot_count :: u32

type_synonym backing = "slab_memory list \<Rightarrow> u64 \<Rightarrow> slab_memory result"

definition default_slab_config :: slab_config where
  "default_slab_config =
     \<lparr>slots_per_slab = 100, slot_bytes = kExpertSlotBytes, budget_bytes = 2147483648\<rparr>"

definition empty_pool :: slab_pool where
  "empty_pool = \<lparr>sp_cfg = default_slab_config, sp_slabs = [], sp_slab_bytes = 0, sp_slot_count = 0\<rparr>"

text \<open>\<^verbatim>\<open>SlabPool::reset\<close>: every slab goes back, the configuration stays.\<close>

definition pool_reset :: "slab_pool \<Rightarrow> slab_pool" where
  "pool_reset p = p\<lparr>sp_slabs := [], sp_slab_bytes := 0, sp_slot_count := 0\<rparr>"

text \<open>
  The allocation loop of \<^verbatim>\<open>SlabPool::init\<close>: it stops early when the backing refuses, and
  fails only when not even one slab was given.
\<close>

fun alloc_slabs :: "backing \<Rightarrow> nat \<Rightarrow> u64 \<Rightarrow> slab_memory list \<Rightarrow> slab_memory list result" where
  "alloc_slabs alloc 0 b acc = Inr acc"
| "alloc_slabs alloc (Suc n) b acc =
     (case alloc acc b of
        Inl e \<Rightarrow> if acc = [] then Inl e else Inr acc
      | Inr m \<Rightarrow> alloc_slabs alloc n b (acc @ [m]))"

definition pool_init :: "backing \<Rightarrow> slab_config \<Rightarrow> slab_pool \<Rightarrow> unit result \<times> slab_pool" where
  "pool_init alloc cfg p =
     (if slot_bytes cfg = 0 \<or> slots_per_slab cfg = 0 then (Inl InvalidArgument, p)
      else if \<not> is_aligned (slot_bytes cfg) kPageSize then (Inl InvalidArgument, p)
      else
        let sb = slot_bytes cfg * ucast (slots_per_slab cfg);
            q = (pool_reset p)\<lparr>sp_cfg := cfg, sp_slab_bytes := sb\<rparr>
        in if sb > 2147483648 then (Inl InvalidArgument, q)
           else
             let want = (ucast (budget_bytes cfg div sb) :: u32)
             in if want = 0 then (Inl ResourceExhausted, q)
                else (case alloc_slabs alloc (unat want) sb [] of
                        Inl e \<Rightarrow> (Inl e, pool_reset q)
                      | Inr ms \<Rightarrow>
                          (Inr (), q\<lparr>sp_slabs := ms,
                                     sp_slot_count := of_nat (length ms) * slots_per_slab cfg\<rparr>)))"

definition decompose :: "slab_pool \<Rightarrow> u32 \<Rightarrow> u16 \<times> u32" where
  "decompose p slot =
     (ucast (slot div slots_per_slab (sp_cfg p)), slot mod slots_per_slab (sp_cfg p))"

definition pool_address :: "slab_pool \<Rightarrow> u32 \<Rightarrow> slot_address result" where
  "pool_address p slot =
     (if slot \<ge> sp_slot_count p then Inl OutOfRange
      else
        let (slab, idx) = decompose p slot;
            m = sp_slabs p ! unat slab;
            off = ucast idx * slot_bytes (sp_cfg p)
        in Inr \<lparr>sa_host_ptr = (if host_ptr m \<noteq> 0 then host_ptr m + off else 0),
                sa_dev_addr = (if device_address m \<noteq> 0 then device_address m + off else 0)\<rparr>)"

section \<open>The geometry of an initialised pool\<close>

text \<open>What \<^verbatim>\<open>init\<close> leaves behind when it succeeds.\<close>

definition pool_ok :: "slab_pool \<Rightarrow> bool" where
  "pool_ok p \<longleftrightarrow>
     slot_bytes (sp_cfg p) \<noteq> 0 \<and> slots_per_slab (sp_cfg p) \<noteq> 0
     \<and> is_aligned (slot_bytes (sp_cfg p)) kPageSize
     \<and> sp_slab_bytes p = slot_bytes (sp_cfg p) * ucast (slots_per_slab (sp_cfg p))
     \<and> sp_slab_bytes p \<le> 2147483648
     \<and> sp_slabs p \<noteq> []
     \<and> sp_slot_count p = of_nat (length (sp_slabs p)) * slots_per_slab (sp_cfg p)"

lemma alloc_slabs_length:
  "alloc_slabs alloc n b acc = Inr ms \<Longrightarrow> length acc \<le> length ms \<and> length ms \<le> length acc + n"
  by (induction alloc n b acc arbitrary: ms rule: alloc_slabs.induct)
    (force split: sum.splits if_splits)+

lemma alloc_slabs_nonempty:
  "alloc_slabs alloc n b acc = Inr ms \<Longrightarrow> acc \<noteq> [] \<or> 0 < n \<Longrightarrow> ms \<noteq> []"
  by (induction alloc n b acc arbitrary: ms rule: alloc_slabs.induct)
    (force split: sum.splits if_splits)+

text \<open>Every slab is an answer of the backing to a request for one slab, given those before it.\<close>

lemma alloc_slabs_answers:
  assumes "alloc_slabs alloc n b acc = Inr ms"
    and "\<forall>i < length acc. alloc (take i acc) b = Inr (acc ! i)"
  shows "\<forall>i < length ms. alloc (take i ms) b = Inr (ms ! i)"
  using assms
proof (induction alloc n b acc arbitrary: ms rule: alloc_slabs.induct)
  case (1 alloc b acc)
  then show ?case by simp
next
  case (2 alloc n b acc)
  show ?case
  proof (cases "alloc acc b")
    case (Inl e)
    with 2 show ?thesis by (simp split: if_splits)
  next
    case (Inr m)
    have "\<forall>i < length (acc @ [m]). alloc (take i (acc @ [m])) b = Inr ((acc @ [m]) ! i)"
      using "2.prems"(2) Inr by (auto simp: nth_append less_Suc_eq)
    with 2 Inr show ?thesis by simp
  qed
qed

lemma alloc_slabs_from_nil:
  assumes "alloc_slabs alloc (unat (w :: u32)) b [] = Inr ms" and "w \<noteq> 0"
  shows "ms \<noteq> []" and "\<forall>i < length ms. alloc (take i ms) b = Inr (ms ! i)"
proof -
  have "0 < unat w" using assms(2) by (simp add: unat_gt_0)
  with assms(1) show "ms \<noteq> []" using alloc_slabs_nonempty by blast
  show "\<forall>i < length ms. alloc (take i ms) b = Inr (ms ! i)"
    using alloc_slabs_answers [OF assms(1)] by simp
qed

lemma pool_init_ok:
  assumes "pool_init alloc cfg p = (Inr (), q)"
  shows "pool_ok q" and "sp_cfg q = cfg"
    and "\<forall>i < length (sp_slabs q). alloc (take i (sp_slabs q)) (sp_slab_bytes q) = Inr (sp_slabs q ! i)"
proof -
  show "pool_ok q"
    using assms alloc_slabs_from_nil(1) [of alloc "ucast (budget_bytes cfg div (slot_bytes cfg * ucast (slots_per_slab cfg)))"]
    by (auto simp: pool_init_def pool_ok_def pool_reset_def Let_def split: if_splits sum.splits)
  show "sp_cfg q = cfg"
    using assms by (auto simp: pool_init_def Let_def split: if_splits sum.splits)
  show "\<forall>i < length (sp_slabs q). alloc (take i (sp_slabs q)) (sp_slab_bytes q) = Inr (sp_slabs q ! i)"
    using assms alloc_slabs_from_nil(2) [of alloc "ucast (budget_bytes cfg div (slot_bytes cfg * ucast (slots_per_slab cfg)))"]
    by (auto simp: pool_init_def Let_def split: if_splits sum.splits)
qed

text \<open>An init that fails leaves no slab behind, and so no slot.\<close>

lemma pool_init_failed:
  assumes "pool_init alloc cfg empty_pool = (Inl e, q)"
  shows "sp_slabs q = []" and "pool_address q s = Inl OutOfRange"
  using assms
  by (auto simp: pool_init_def empty_pool_def pool_reset_def pool_address_def Let_def
      split: if_splits sum.splits)

section \<open>Slots do not overlap\<close>

text \<open>
  What the pool relies on of the backing: each slab lies below the end of the address space,
  and two slabs share no byte.
\<close>

definition range_disjoint :: "u64 \<Rightarrow> u64 \<Rightarrow> u64 \<Rightarrow> bool" where
  "range_disjoint a b n \<longleftrightarrow> unat a + unat n \<le> unat b \<or> unat b + unat n \<le> unat a"

definition slabs_disjoint :: "(slab_memory \<Rightarrow> u64) \<Rightarrow> slab_pool \<Rightarrow> bool" where
  "slabs_disjoint f p \<longleftrightarrow>
     (\<forall>i < length (sp_slabs p). f (sp_slabs p ! i) \<noteq> 0
        \<and> unat (f (sp_slabs p ! i)) + unat (sp_slab_bytes p) < 2 ^ 64)
     \<and> (\<forall>i < length (sp_slabs p). \<forall>j < length (sp_slabs p). i \<noteq> j \<longrightarrow>
          range_disjoint (f (sp_slabs p ! i)) (f (sp_slabs p ! j)) (sp_slab_bytes p))"

text \<open>The slot numbering fits the integer types it is kept in: \<open>uint16_t\<close> for the slab index and
  \<open>uint32_t\<close> for the slot.\<close>

definition pool_fits :: "slab_pool \<Rightarrow> bool" where
  "pool_fits p \<longleftrightarrow> length (sp_slabs p) \<le> 65536
     \<and> length (sp_slabs p) * unat (slots_per_slab (sp_cfg p)) < 2 ^ 32
     \<and> unat (slot_bytes (sp_cfg p)) * unat (slots_per_slab (sp_cfg p)) < 2 ^ 64"

lemma pool_slot_count_nat:
  assumes "pool_ok p" "pool_fits p"
  shows "unat (sp_slot_count p) = length (sp_slabs p) * unat (slots_per_slab (sp_cfg p))"
proof -
  have "sp_slot_count p = of_nat (length (sp_slabs p) * unat (slots_per_slab (sp_cfg p)))"
    using assms(1) by (simp add: pool_ok_def)
  moreover have "length (sp_slabs p) * unat (slots_per_slab (sp_cfg p)) < 2 ^ LENGTH(32)"
    using assms(2) by (simp add: pool_fits_def)
  ultimately show ?thesis by (metis of_nat_inverse)
qed

lemma pool_slab_bytes_nat:
  assumes "pool_ok p" "pool_fits p"
  shows "unat (sp_slab_bytes p) = unat (slot_bytes (sp_cfg p)) * unat (slots_per_slab (sp_cfg p))"
proof -
  have "sp_slab_bytes p = of_nat (unat (slot_bytes (sp_cfg p)) * unat (slots_per_slab (sp_cfg p)))"
    using assms(1) by (simp add: pool_ok_def)
  moreover have "unat (slot_bytes (sp_cfg p)) * unat (slots_per_slab (sp_cfg p)) < 2 ^ LENGTH(64)"
    using assms(2) by (simp add: pool_fits_def)
  ultimately show ?thesis by (metis of_nat_inverse)
qed


text \<open>The slab index and the index within the slab, as natural numbers.\<close>

lemma decompose_nat:
  assumes "pool_ok p" "pool_fits p" "s < sp_slot_count p"
  defines "n \<equiv> unat (slots_per_slab (sp_cfg p))"
  shows "unat (fst (decompose p s)) = unat s div n" and "unat (snd (decompose p s)) = unat s mod n"
    and "unat s div n < length (sp_slabs p)" and "0 < n"
proof -
  show n0: "0 < n" using assms(1) by (simp add: n_def pool_ok_def unat_gt_0)
  have "unat s < length (sp_slabs p) * n"
    using assms(3) pool_slot_count_nat [OF assms(1,2)] by (simp add: n_def word_less_nat_alt)
  then show lt: "unat s div n < length (sp_slabs p)" by (simp add: less_mult_imp_div_less)
  have "unat (s div slots_per_slab (sp_cfg p)) = unat s div n"
    by (simp add: n_def unat_div_distrib)
  moreover have "unat s div n < 2 ^ LENGTH(16)"
    using lt assms(2) by (simp add: pool_fits_def)
  ultimately show "unat (fst (decompose p s)) = unat s div n"
    by (simp add: decompose_def unsigned_ucast_eq take_bit_nat_eq_self)
  show "unat (snd (decompose p s)) = unat s mod n"
    by (simp add: decompose_def n_def unat_mod_distrib)
qed

text \<open>The address of a slot, given that its slab neither is null nor wraps.\<close>

lemma slot_offset_nat:
  assumes "pool_ok p" "pool_fits p" "s < sp_slot_count p" and "slabs_disjoint f p"
  defines "n \<equiv> unat (slots_per_slab (sp_cfg p))" and "b \<equiv> unat (slot_bytes (sp_cfg p))"
  defines "m \<equiv> sp_slabs p ! (unat s div n)"
  shows "unat (f m + ucast (snd (decompose p s)) * slot_bytes (sp_cfg p)) = unat (f m) + unat s mod n * b"
    and "unat s mod n * b + b \<le> unat (sp_slab_bytes p)"
proof -
  note d = decompose_nat [OF assms(1-3), folded n_def]
  have "Suc (unat s mod n) \<le> n" using d(4) by (simp add: Suc_leI)
  then have "Suc (unat s mod n) * b \<le> n * b" by (rule mult_le_mono1)
  then show le: "unat s mod n * b + b \<le> unat (sp_slab_bytes p)"
    using pool_slab_bytes_nat [OF assms(1,2)] by (simp add: n_def b_def mult.commute add.commute)
  have b0: "0 < b" using assms(1) by (simp add: b_def pool_ok_def unat_gt_0)
  have "unat (f m) + unat (sp_slab_bytes p) < 2 ^ 64"
    using assms(4) d(3) by (simp add: slabs_disjoint_def m_def)
  with le b0 have lt: "unat (f m) + unat s mod n * b < 2 ^ LENGTH(64)" by simp
  have "ucast (snd (decompose p s)) = (of_nat (unat s mod n) :: u64)"
    by (simp add: d(2) [symmetric])
  then have "f m + ucast (snd (decompose p s)) * slot_bytes (sp_cfg p)
      = of_nat (unat (f m) + unat s mod n * b)" by (simp add: b_def)
  with lt show "unat (f m + ucast (snd (decompose p s)) * slot_bytes (sp_cfg p))
      = unat (f m) + unat s mod n * b" by (metis of_nat_inverse)
qed

lemma slots_disjoint_gen:
  assumes "pool_ok p" "pool_fits p" "slabs_disjoint f p"
    and "s < sp_slot_count p" "t < sp_slot_count p" "s \<noteq> t"
  shows "range_disjoint
     (f (sp_slabs p ! unat (fst (decompose p s))) + ucast (snd (decompose p s)) * slot_bytes (sp_cfg p))
     (f (sp_slabs p ! unat (fst (decompose p t))) + ucast (snd (decompose p t)) * slot_bytes (sp_cfg p))
     (slot_bytes (sp_cfg p))"
proof -
  define n where "n = unat (slots_per_slab (sp_cfg p))"
  define b where "b = unat (slot_bytes (sp_cfg p))"
  note ds = decompose_nat [OF assms(1,2,4), folded n_def] slot_offset_nat [OF assms(1,2,4,3), folded n_def b_def]
  note dt = decompose_nat [OF assms(1,2,5), folded n_def] slot_offset_nat [OF assms(1,2,5,3), folded n_def b_def]
  show ?thesis
  proof (cases "unat s div n = unat t div n")
    case True
    have "unat s mod n \<noteq> unat t mod n"
      using assms(6) True by (metis div_mult_mod_eq word_unat_eq_iff)
    then consider "Suc (unat s mod n) \<le> unat t mod n" | "Suc (unat t mod n) \<le> unat s mod n" by linarith
    then show ?thesis
    proof cases
      case 1
      then have "Suc (unat s mod n) * b \<le> unat t mod n * b" by (rule mult_le_mono1)
      then show ?thesis by (simp add: range_disjoint_def ds(1,5) dt(1,5) flip: b_def) (simp add: True)
    next
      case 2
      then have "Suc (unat t mod n) * b \<le> unat s mod n * b" by (rule mult_le_mono1)
      then show ?thesis by (simp add: range_disjoint_def ds(1,5) dt(1,5) flip: b_def) (simp add: True)
    qed
  next
    case False
    then have "range_disjoint (f (sp_slabs p ! (unat s div n))) (f (sp_slabs p ! (unat t div n))) (sp_slab_bytes p)"
      using assms(3) ds(3) dt(3) by (simp add: slabs_disjoint_def)
    then have "unat (f (sp_slabs p ! (unat s div n))) + unat (sp_slab_bytes p) \<le> unat (f (sp_slabs p ! (unat t div n)))
        \<or> unat (f (sp_slabs p ! (unat t div n))) + unat (sp_slab_bytes p) \<le> unat (f (sp_slabs p ! (unat s div n)))"
      by (simp add: range_disjoint_def)
    then show ?thesis
      unfolding range_disjoint_def ds(1,5) dt(1,5) b_def [symmetric] using ds(6) dt(6) by linarith
  qed
qed

end
