(* ===== verification/Manifest.thy ===== *)
theory Manifest
  imports Core_Types Align
begin

text \<open>
  \<^verbatim>\<open>model/manifest.h\<close> and the queries and checks of \<^verbatim>\<open>model/manifest.cpp\<close>: the address
  book of the checkpoint. Offsets and lengths are 64-bit words and every sum wraps as it does
  in the code. The unordered tensor map is an association list. \<^verbatim>\<open>validate\<close> collects one value
  per complaint where the code appends one line of text.
\<close>

record file_entry =
  fe_path :: string
  fe_bytes :: u64
  fe_data_start :: u64
  fe_sha256 :: string

record scale_entry =
  sc_file :: u32
  sc_offset :: u64
  sc_bytes :: u64
  sc_dtype :: quant_type
  sc_shape :: "u64 list"
  sc_block_m :: u32
  sc_block_k :: u32

definition scale_present :: "scale_entry \<Rightarrow> bool" where
  "scale_present s \<longleftrightarrow> sc_bytes s \<noteq> 0"

record tensor_entry =
  te_name :: string
  te_file :: u32
  te_offset :: u64
  te_bytes :: u64
  te_dtype :: quant_type
  te_shape :: "u64 list"
  te_scale :: scale_entry

record run_part =
  rp_part :: expert_part
  rp_skew :: u32
  rp_bytes :: u64
  rp_slot_offset :: u64

record run =
  run_file :: u32
  run_aligned_off :: u64
  run_aligned_bytes :: u64
  run_slot_offset :: u64
  run_parts :: "run_part list"

record expert_entry =
  ee_runs :: "run list"
  ee_slot_bytes :: u64
  ee_part_offset :: "u64 list"
  ee_part_bytes :: "u64 list"

definition empty_expert_entry :: expert_entry where
  "empty_expert_entry = \<lparr>ee_runs = [], ee_slot_bytes = 0,
     ee_part_offset = replicate kExpertParts 0, ee_part_bytes = replicate kExpertParts 0\<rparr>"

record engram_plane =
  ep_file :: u32
  ep_offset :: u64
  ep_bytes :: u64
  ep_row_bytes :: u32
  ep_dtype :: quant_type

record engram_entry =
  eg_layer :: u32
  eg_rows :: u64
  eg_value :: engram_plane
  eg_scale :: engram_plane

record aligned_read =
  ar_file :: u32
  ar_aligned_off :: u64
  ar_aligned_bytes :: u64
  ar_skew :: u32
  ar_bytes :: u64

record engram_row_plan =
  erp_value :: aligned_read
  erp_scale :: aligned_read

record manifest =
  mf_version :: u32
  mf_alignment :: u32
  mf_expert_slot_bytes :: u64
  mf_model :: string
  mf_files :: "file_entry list"
  mf_tensors :: "(string \<times> tensor_entry) list"
  mf_experts :: "expert_entry list list"
  mf_engram :: "engram_entry list"

section \<open>Queries\<close>

definition align_read :: "u32 \<Rightarrow> u64 \<Rightarrow> u64 \<Rightarrow> aligned_read" where
  "align_read f off bytes =
     (let lo = align_down off kPageSize
      in \<lparr>ar_file = f, ar_aligned_off = lo,
          ar_aligned_bytes = align_up (off + bytes) kPageSize - lo,
          ar_skew = ucast (off - lo), ar_bytes = bytes\<rparr>)"

definition tensor_elements :: "tensor_entry \<Rightarrow> u64" where
  "tensor_elements t = fold (\<lambda>d n. n * d) (te_shape t) (if te_shape t = [] then 0 else 1)"

definition manifest_file :: "manifest \<Rightarrow> u32 \<Rightarrow> file_entry option" where
  "manifest_file m i = (if unat i < length (mf_files m) then Some (mf_files m ! unat i) else None)"

fun file_index_from :: "nat \<Rightarrow> file_entry list \<Rightarrow> string \<Rightarrow> nat option" where
  "file_index_from i [] p = None"
| "file_index_from i (f # fs) p = (if fe_path f = p then Some i else file_index_from (Suc i) fs p)"

definition file_index :: "manifest \<Rightarrow> string \<Rightarrow> nat option" where
  "file_index m p = file_index_from 0 (mf_files m) p"

definition manifest_tensor :: "manifest \<Rightarrow> string \<Rightarrow> tensor_entry option" where
  "manifest_tensor m n = map_of (mf_tensors m) n"

definition require_tensor :: "manifest \<Rightarrow> string \<Rightarrow> tensor_entry result" where
  "require_tensor m n = (case manifest_tensor m n of Some t \<Rightarrow> Inr t | None \<Rightarrow> Inl NotFound)"

definition tensor_read :: "manifest \<Rightarrow> string \<Rightarrow> aligned_read result" where
  "tensor_read m n =
     rbind (require_tensor m n) (\<lambda>t. Inr (align_read (te_file t) (te_offset t) (te_bytes t)))"

definition tensor_scale_read :: "manifest \<Rightarrow> string \<Rightarrow> aligned_read result" where
  "tensor_scale_read m n =
     rbind (require_tensor m n) (\<lambda>t.
       if \<not> scale_present (te_scale t) then Inl NotFound
       else Inr (align_read (sc_file (te_scale t)) (sc_offset (te_scale t)) (sc_bytes (te_scale t))))"

definition experts_in_layer :: "manifest \<Rightarrow> nat \<Rightarrow> nat" where
  "experts_in_layer m l = (if l < length (mf_experts m) then length (mf_experts m ! l) else 0)"

definition manifest_expert :: "manifest \<Rightarrow> expert_key \<Rightarrow> expert_entry option" where
  "manifest_expert m k =
     (if unat (layer k) \<ge> length (mf_experts m) then None
      else let row = mf_experts m ! unat (layer k)
           in if unat (expert k) < length row then Some (row ! unat (expert k)) else None)"

definition require_expert :: "manifest \<Rightarrow> expert_key \<Rightarrow> expert_entry result" where
  "require_expert m k = (case manifest_expert m k of Some e \<Rightarrow> Inr e | None \<Rightarrow> Inl OutOfRange)"

definition engram_for_layer :: "manifest \<Rightarrow> u32 \<Rightarrow> engram_entry option" where
  "engram_for_layer m l = find (\<lambda>e. eg_layer e = l) (mf_engram m)"

definition plane_row_read :: "engram_plane \<Rightarrow> u64 \<Rightarrow> aligned_read" where
  "plane_row_read p row =
     align_read (ep_file p) (ep_offset p + row * ucast (ep_row_bytes p)) (ucast (ep_row_bytes p))"

definition engram_row :: "manifest \<Rightarrow> u32 \<Rightarrow> u64 \<Rightarrow> engram_row_plan result" where
  "engram_row m l row =
     (case engram_for_layer m l of
        None \<Rightarrow> Inl NotFound
      | Some e \<Rightarrow>
          if row \<ge> eg_rows e then Inl OutOfRange
          else Inr \<lparr>erp_value = plane_row_read (eg_value e) row,
                    erp_scale = plane_row_read (eg_scale e) row\<rparr>)"

definition total_bytes :: "manifest \<Rightarrow> u64" where
  "total_bytes m =
     sum_list (map (\<lambda>(n, t). te_bytes t + sc_bytes (te_scale t)) (mf_tensors m))
     + sum_list (map (\<lambda>row. sum_list (map (\<lambda>e. sum_list (ee_part_bytes e)) row)) (mf_experts m))"

definition file_bytes :: "manifest \<Rightarrow> u64" where
  "file_bytes m = sum_list (map fe_bytes (mf_files m))"

section \<open>validate\<close>

datatype complaint =
    BadAlignment | NoSuchFile | PastEnd | UnknownDtype | UnreadableTensor
  | StartsPastEnd | OvershootsSector
  | SlotBytesMissing | SlotBytesUnaligned | SlotBytesMismatch
  | NoRuns | TooManyRuns | SlotTooSmall | RunUnaligned | RunMisplaced | RunSlotUnaligned
  | PartSpills | PartMisplaced | SlotSumMismatch | PayloadMismatch | MissingPart
  | EngramValueRow | EngramScaleRow

definition complain :: "bool \<Rightarrow> complaint \<Rightarrow> complaint list" where
  "complain b c = (if b then [c] else [])"

definition check_range :: "manifest \<Rightarrow> u32 \<Rightarrow> u64 \<Rightarrow> u64 \<Rightarrow> complaint list" where
  "check_range m fi off bytes =
     (case manifest_file m fi of
        None \<Rightarrow> [NoSuchFile]
      | Some f \<Rightarrow> complain (fe_bytes f \<noteq> 0 \<and> off + bytes > fe_bytes f) PastEnd)"

definition check_read :: "manifest \<Rightarrow> u32 \<Rightarrow> u64 \<Rightarrow> u64 \<Rightarrow> complaint list" where
  "check_read m fi aoff abytes =
     (case manifest_file m fi of
        None \<Rightarrow> [NoSuchFile]
      | Some f \<Rightarrow>
          if fe_bytes f = 0 then []
          else if aoff \<ge> fe_bytes f then [StartsPastEnd]
          else complain (aoff + abytes > align_up (fe_bytes f) kPageSize) OvershootsSector)"

definition check_tensor :: "manifest \<Rightarrow> tensor_entry \<Rightarrow> complaint list" where
  "check_tensor m t =
     check_range m (te_file t) (te_offset t) (te_bytes t)
     @ complain (te_dtype t = UnknownQuant) UnknownDtype
     @ (if scale_present (te_scale t)
        then check_range m (sc_file (te_scale t)) (sc_offset (te_scale t)) (sc_bytes (te_scale t))
        else [])
     @ (let r = align_read (te_file t) (te_offset t) (te_bytes t)
        in case manifest_file m (te_file t) of
             None \<Rightarrow> []
           | Some f \<Rightarrow>
               complain (fe_bytes f \<noteq> 0 \<and> ar_aligned_off r + ar_aligned_bytes r > align_up (fe_bytes f) kPageSize)
                 UnreadableTensor)"

definition check_part :: "manifest \<Rightarrow> run \<Rightarrow> run_part \<Rightarrow> complaint list" where
  "check_part m r p =
     check_range m (run_file r) (run_aligned_off r + ucast (rp_skew p)) (rp_bytes p)
     @ complain (ucast (rp_skew p) + rp_bytes p > run_aligned_bytes r) PartSpills
     @ complain (rp_slot_offset p \<noteq> run_slot_offset r + ucast (rp_skew p)) PartMisplaced"

definition check_run :: "manifest \<Rightarrow> u64 \<Rightarrow> run \<Rightarrow> complaint list" where
  "check_run m cursor r =
     complain (\<not> is_aligned (run_aligned_off r) kPageSize \<or> \<not> is_aligned (run_aligned_bytes r) kPageSize)
       RunUnaligned
     @ complain (run_slot_offset r \<noteq> cursor) RunMisplaced
     @ complain (\<not> is_aligned (run_slot_offset r) kPageSize) RunSlotUnaligned
     @ check_read m (run_file r) (run_aligned_off r) (run_aligned_bytes r)
     @ concat (map (check_part m r) (run_parts r))"

text \<open>The loop over the runs of one expert: the complaints, the cursor and the payload.\<close>

fun check_runs :: "manifest \<Rightarrow> run list \<Rightarrow> u64 \<Rightarrow> u64 \<Rightarrow> complaint list \<times> u64 \<times> u64" where
  "check_runs m [] cursor payload = ([], cursor, payload)"
| "check_runs m (r # rs) cursor payload =
     (let (bad, c, p) = check_runs m rs (cursor + run_aligned_bytes r)
                          (payload + sum_list (map rp_bytes (run_parts r)))
      in (check_run m cursor r @ bad, c, p))"

definition check_expert :: "manifest \<Rightarrow> expert_entry \<Rightarrow> complaint list" where
  "check_expert m e =
     (if ee_runs e = [] then [NoRuns]
      else complain (length (ee_runs e) > kMaxExpertRuns) TooManyRuns
         @ complain (ee_slot_bytes e > mf_expert_slot_bytes m) SlotTooSmall
         @ (let (bad, cursor, payload) = check_runs m (ee_runs e) 0 0
            in bad
             @ complain (cursor \<noteq> ee_slot_bytes e) SlotSumMismatch
             @ complain (payload \<noteq> kExpertBytes) PayloadMismatch
             @ concat (map (\<lambda>b. complain (b = 0) MissingPart) (ee_part_bytes e))))"

definition check_engram :: "manifest \<Rightarrow> engram_entry \<Rightarrow> complaint list" where
  "check_engram m e =
     complain (ep_row_bytes (eg_value e) \<noteq> kEngramValueRowBytes) EngramValueRow
     @ complain (ep_row_bytes (eg_scale e) \<noteq> kEngramScaleRowBytes) EngramScaleRow
     @ check_range m (ep_file (eg_value e)) (ep_offset (eg_value e)) (eg_rows e * ucast (ep_row_bytes (eg_value e)))
     @ check_range m (ep_file (eg_scale e)) (ep_offset (eg_scale e)) (eg_rows e * ucast (ep_row_bytes (eg_scale e)))"

definition complaints :: "manifest \<Rightarrow> complaint list" where
  "complaints m =
     complain ((if mf_alignment m \<noteq> 0 then ucast (mf_alignment m) else kPageSize) \<noteq> kPageSize) BadAlignment
     @ concat (map (\<lambda>(n, t). check_tensor m t) (mf_tensors m))
     @ complain (mf_expert_slot_bytes m = 0 \<and> mf_experts m \<noteq> []) SlotBytesMissing
     @ complain (mf_expert_slot_bytes m \<noteq> 0 \<and> mf_expert_slot_bytes m mod kPageSize \<noteq> 0) SlotBytesUnaligned
     @ complain (mf_expert_slot_bytes m \<noteq> 0 \<and> mf_expert_slot_bytes m \<noteq> kExpertSlotBytes) SlotBytesMismatch
     @ concat (map (\<lambda>row. concat (map (check_expert m) row)) (mf_experts m))
     @ concat (map (check_engram m) (mf_engram m))"

definition validate :: "manifest \<Rightarrow> unit result" where
  "validate m = (if complaints m \<noteq> [] then Inl Corrupt else Inr ())"

section \<open>The aligned read\<close>

lemma align_read_covers:
  fixes f :: u32
  assumes "unat off + unat bytes + 4096 \<le> 2 ^ 64"
  and r: "r = align_read f off bytes"
  shows "is_aligned (ar_aligned_off r) kPageSize"
    and "4096 dvd unat (ar_aligned_bytes r)"
    and "unat (ar_aligned_off r) + unat (ar_skew r) = unat off"
    and "unat (ar_skew r) < 4096"
    and "unat (ar_skew r) + unat bytes \<le> unat (ar_aligned_bytes r)"
    and "unat (ar_aligned_bytes r) < unat (ar_skew r) + unat bytes + 4096"
proof -
  have lo: "4096 dvd unat (align_down off kPageSize)" "unat (align_down off kPageSize) \<le> unat off"
    "unat off < unat (align_down off kPageSize) + 4096"
    using page_down_bounds [where v = off] by simp_all
  have sum: "unat (off + bytes) = unat off + unat bytes"
    using assms(1) by (intro unat_add_lem [THEN iffD1]) simp
  have hi: "4096 dvd unat (align_up (off + bytes) kPageSize)"
    "unat off + unat bytes \<le> unat (align_up (off + bytes) kPageSize)"
    "unat (align_up (off + bytes) kPageSize) < unat off + unat bytes + 4096"
    using page_up_bounds [where v = "off + bytes"] assms(1) by (simp_all add: sum)
  have le: "align_down off kPageSize \<le> align_up (off + bytes) kPageSize"
    using lo hi by (simp add: word_le_nat_alt)
  have diff: "unat (off - align_down off kPageSize) = unat off - unat (align_down off kPageSize)"
    using lo(2) by (simp add: unat_sub word_le_nat_alt)
  have skew: "unat (ar_skew r) = unat off - unat (align_down off kPageSize)"
    using lo(3) by (simp add: r align_read_def Let_def unsigned_ucast_eq diff take_bit_nat_eq_self)
  have len: "unat (ar_aligned_bytes r)
      = unat (align_up (off + bytes) kPageSize) - unat (align_down off kPageSize)"
    using le by (simp add: r align_read_def Let_def unat_sub)
  show "is_aligned (ar_aligned_off r) kPageSize"
    by (simp add: r align_read_def Let_def page_down_aligned)
  show "4096 dvd unat (ar_aligned_bytes r)" using lo(1) hi(1) by (simp add: len dvd_diff_nat)
  show "unat (ar_aligned_off r) + unat (ar_skew r) = unat off"
    using lo(2) unfolding skew by (simp add: r align_read_def Let_def)
  show "unat (ar_skew r) < 4096" using lo(3) skew by simp
  show "unat (ar_skew r) + unat bytes \<le> unat (ar_aligned_bytes r)"
    using lo hi unfolding skew len by linarith
  show "unat (ar_aligned_bytes r) < unat (ar_skew r) + unat bytes + 4096"
    using lo hi unfolding skew len by linarith
qed

section \<open>What a validated manifest guarantees\<close>

lemma complain_Nil [simp]: "complain b c = [] \<longleftrightarrow> \<not> b"
  by (simp add: complain_def)

lemma manifest_expert_in:
  "manifest_expert m k = Some e \<Longrightarrow> \<exists>row \<in> set (mf_experts m). e \<in> set row"
  by (auto simp: manifest_expert_def Let_def not_le split: if_splits intro!: bexI [of _ "mf_experts m ! unat (layer k)"])

lemma validate_expert:
  assumes "validate m = Inr ()" and "manifest_expert m k = Some e"
  shows "check_expert m e = []" and "mf_expert_slot_bytes m = kExpertSlotBytes"
proof -
  from manifest_expert_in [OF assms(2)] obtain row where
    row: "row \<in> set (mf_experts m)" "e \<in> set row" by blast
  have none: "complaints m = []" using assms(1) by (simp add: validate_def split: if_splits)
  then show "check_expert m e = []" using row by (simp add: complaints_def)
  from row have "mf_experts m \<noteq> []" by auto
  with none show "mf_expert_slot_bytes m = kExpertSlotBytes" by (auto simp: complaints_def)
qed

definition run_bytes :: "run list \<Rightarrow> nat" where
  "run_bytes rs = sum_list (map (\<lambda>r. unat (run_aligned_bytes r)) rs)"

lemma run_bytes_simps [simp]:
  "run_bytes [] = 0" "run_bytes (r # rs) = unat (run_aligned_bytes r) + run_bytes rs"
  by (simp_all add: run_bytes_def)

lemma run_bytes_take_le: "run_bytes (take i rs) \<le> run_bytes rs"
proof -
  have "run_bytes (take i rs @ drop i rs) = run_bytes (take i rs) + run_bytes (drop i rs)"
    by (simp only: run_bytes_def map_append sum_list.append)
  then show ?thesis by simp
qed

lemma run_bytes_take_Suc:
  "i < length rs \<Longrightarrow> run_bytes (take (Suc i) rs) = run_bytes (take i rs) + unat (run_aligned_bytes (rs ! i))"
  by (simp add: take_Suc_conv_app_nth run_bytes_def)

lemma run_bytes_take_mono: "i \<le> j \<Longrightarrow> run_bytes (take i rs) \<le> run_bytes (take j rs)"
  using run_bytes_take_le [of i "take j rs"] by (simp add: min_absorb1)

text \<open>The cursor is a running total, and every run sits at it.\<close>

lemma check_runs_tile:
  assumes "check_runs m rs c p = ([], c', p')" and "unat c + run_bytes rs < 2 ^ 64"
  shows "unat c' = unat c + run_bytes rs"
    and "i < length rs \<Longrightarrow> unat (run_slot_offset (rs ! i)) = unat c + run_bytes (take i rs)"
    and "i < length rs \<Longrightarrow> \<exists>c''. check_run m c'' (rs ! i) = []"
proof -
  have "unat c' = unat c + run_bytes rs
    \<and> (\<forall>i < length rs. unat (run_slot_offset (rs ! i)) = unat c + run_bytes (take i rs)
         \<and> (\<exists>c''. check_run m c'' (rs ! i) = []))"
    using assms
  proof (induction m rs c p arbitrary: c' p' rule: check_runs.induct)
    case (1 m c p)
    then show ?case by simp
  next
    case (2 m r rs c p)
    obtain p2 where rest: "check_runs m rs (c + run_aligned_bytes r)
        (p + sum_list (map rp_bytes (run_parts r))) = ([], c', p2)"
      and here: "check_run m c r = []"
      using "2.prems"(1) by (auto simp: Let_def split: prod.splits)
    have add: "unat (c + run_aligned_bytes r) = unat c + unat (run_aligned_bytes r)"
      using "2.prems"(2) by (intro unat_add_lem [THEN iffD1]) simp
    have at: "run_slot_offset r = c" using here by (simp add: check_run_def)
    have "unat (c + run_aligned_bytes r) + run_bytes rs < 2 ^ 64" using "2.prems"(2) add by simp
    from "2.IH" [OF rest this] show ?case
      using here at by (auto simp: add nth_Cons split: nat.splits)
  qed
  then show "unat c' = unat c + run_bytes rs"
    and "i < length rs \<Longrightarrow> unat (run_slot_offset (rs ! i)) = unat c + run_bytes (take i rs)"
    and "i < length rs \<Longrightarrow> \<exists>c''. check_run m c'' (rs ! i) = []"
    by blast+
qed

text \<open>The runs of a validated expert tile the head of its slot, in order.\<close>

lemma validated_runs_tile:
  assumes "validate m = Inr ()" and "manifest_expert m k = Some e" and "run_bytes (ee_runs e) < 2 ^ 64"
  shows "ee_runs e \<noteq> []" and "length (ee_runs e) \<le> kMaxExpertRuns"
    and "unat (ee_slot_bytes e) = run_bytes (ee_runs e)" and "ee_slot_bytes e \<le> kExpertSlotBytes"
    and "i < length (ee_runs e) \<Longrightarrow> unat (run_slot_offset (ee_runs e ! i)) = run_bytes (take i (ee_runs e))"
    and "i < length (ee_runs e) \<Longrightarrow> \<exists>c. check_run m c (ee_runs e ! i) = []"
proof -
  note v = validate_expert [OF assms(1,2)]
  show ne: "ee_runs e \<noteq> []" using v(1) by (auto simp: check_expert_def)
  obtain p where cr: "check_runs m (ee_runs e) 0 0 = ([], ee_slot_bytes e, p)"
    using v(1) ne by (auto simp: check_expert_def Let_def split: prod.splits)
  show "length (ee_runs e) \<le> kMaxExpertRuns" "ee_slot_bytes e \<le> kExpertSlotBytes"
    using v ne by (auto simp: check_expert_def not_less)
  have small: "unat (0::u64) + run_bytes (ee_runs e) < 2 ^ 64" using assms(3) by simp
  note t = check_runs_tile [OF cr small]
  show "unat (ee_slot_bytes e) = run_bytes (ee_runs e)" using t(1) by simp
  show "i < length (ee_runs e) \<Longrightarrow> unat (run_slot_offset (ee_runs e ! i)) = run_bytes (take i (ee_runs e))"
    using t(2) [of i] by simp
  show "i < length (ee_runs e) \<Longrightarrow> \<exists>c. check_run m c (ee_runs e ! i) = []" using t(3) [of i] .
qed

end
