(* ===== verification/Expert_Store.thy ===== *)
theory Expert_Store
  imports Slab_Pool Manifest "HOL-Library.Product_Lexorder"
begin

text \<open>
  \<^verbatim>\<open>store/expert_store.h\<close> and \<^verbatim>\<open>store/expert_store.cpp\<close>: the slots of the slab pool, their
  Free, Filling and Resident states, the key index, the free list, the pointer table that the
  GPU reads, and the counters. Each public method holds the one mutex from start to end, so it
  is one function from a store to its result and the next store; \<^verbatim>\<open>evict_key\<close>, which locks
  twice, is the composition of its two locked parts. A C++ pointer is a 64-bit word with 0 for
  null. Token stamps, timeline values and counters are natural numbers: the store only compares
  and increments them. \<open>heat\<close> is a real number where the code has a \<open>float\<close>.
\<close>

section \<open>State\<close>

record fill_run =
  fr_file :: u32
  fr_file_off :: u64
  fr_bytes :: u64
  fr_dst :: u64
  fr_dev_dst :: u64

record expert_slot =
  es_key :: expert_key
  es_state :: slot_state
  es_tier :: tier
  es_slab :: u16
  es_slot :: nat
  es_host_ptr :: u64
  es_dev_addr :: u64
  es_last_use_token :: nat
  es_heat :: real
  es_guard_timeline :: nat
  es_runs_total :: nat
  es_runs_done :: nat
  es_run_failed :: bool
  es_part_offset :: "u64 list"
  es_part_bytes :: "u64 list"

definition default_slot :: expert_slot where
  "default_slot =
     \<lparr>es_key = ExpertKey 0 0, es_state = Free, es_tier = Cached, es_slab = 0, es_slot = 0,
      es_host_ptr = 0, es_dev_addr = 0, es_last_use_token = 0, es_heat = 0, es_guard_timeline = 0,
      es_runs_total = 0, es_runs_done = 0, es_run_failed = False,
      es_part_offset = replicate kExpertParts 0, es_part_bytes = replicate kExpertParts 0\<rparr>"

record store_stats =
  ss_lookups :: nat
  ss_hits :: nat
  ss_misses :: nat
  ss_fills_started :: nat
  ss_fills_ok :: nat
  ss_fills_failed :: nat
  ss_runs_started :: nat
  ss_runs_done :: nat
  ss_evictions :: nat
  ss_eviction_blocked_by_guard :: nat
  ss_resident :: nat
  ss_filling :: nat
  ss_free :: nat
  ss_pinned :: nat
  ss_hits_path_a :: nat
  ss_hits_path_b :: nat
  ss_fills_path_a :: nat
  ss_fills_path_b :: nat

definition zero_stats :: store_stats where
  "zero_stats = \<lparr>ss_lookups = 0, ss_hits = 0, ss_misses = 0, ss_fills_started = 0, ss_fills_ok = 0,
     ss_fills_failed = 0, ss_runs_started = 0, ss_runs_done = 0, ss_evictions = 0,
     ss_eviction_blocked_by_guard = 0, ss_resident = 0, ss_filling = 0, ss_free = 0, ss_pinned = 0,
     ss_hits_path_a = 0, ss_hits_path_b = 0, ss_fills_path_a = 0, ss_fills_path_b = 0\<rparr>"

definition hit_rate :: "store_stats \<Rightarrow> real" where
  "hit_rate s = (if ss_lookups s \<noteq> 0 then real (ss_hits s) / real (ss_lookups s) else 0)"

definition path_a_hit_share :: "store_stats \<Rightarrow> real" where
  "path_a_hit_share s =
     (let n = ss_hits_path_a s + ss_hits_path_b s
      in if n \<noteq> 0 then real (ss_hits_path_a s) / real n else 0)"

datatype evict_path = PathOff | PreferA | PreferB

record cache_config =
  cc_slots_per_slab :: u32
  cc_budget_bytes :: u64

record store =
  st_pool :: slab_pool
  st_cache :: cache_config
  st_layers :: nat
  st_experts_per_layer :: nat
  st_path_b_first_slab :: nat
  st_evict_path :: evict_path
  st_slots :: "expert_slot list"
  st_free_list :: "nat list"
  st_index :: "expert_key \<rightharpoonup> nat"
  st_table :: "u64 list"
  st_completed :: nat
  st_fixed_cache :: bool
  st_cache_frozen :: bool
  st_stats :: store_stats

definition empty_store :: store where
  "empty_store = \<lparr>st_pool = empty_pool, st_cache = \<lparr>cc_slots_per_slab = 100, cc_budget_bytes = 2147483648\<rparr>,
     st_layers = 0, st_experts_per_layer = 0, st_path_b_first_slab = 4294967295, st_evict_path = PathOff,
     st_slots = [], st_free_list = [], st_index = Map.empty, st_table = [], st_completed = 0,
     st_fixed_cache = False, st_cache_frozen = False, st_stats = zero_stats\<rparr>"

record reservation =
  rv_slot :: nat
  rv_addr :: slot_address
  rv_run_count :: nat
  rv_runs :: "fill_run list"

section \<open>Helpers\<close>

definition table_index :: "store \<Rightarrow> expert_key \<Rightarrow> nat \<Rightarrow> nat" where
  "table_index st k p =
     (unat (layer k) * st_experts_per_layer st + unat (expert k)) * kExpertParts + p"

definition key_in_range :: "store \<Rightarrow> expert_key \<Rightarrow> bool" where
  "key_in_range st k \<longleftrightarrow> unat (layer k) < st_layers st \<and> unat (expert k) < st_experts_per_layer st"

definition upd_slot :: "nat \<Rightarrow> (expert_slot \<Rightarrow> expert_slot) \<Rightarrow> store \<Rightarrow> store" where
  "upd_slot i f st = st\<lparr>st_slots := (st_slots st)[i := f (st_slots st ! i)]\<rparr>"

definition upd_stats :: "(store_stats \<Rightarrow> store_stats) \<Rightarrow> store \<Rightarrow> store" where
  "upd_stats f st = st\<lparr>st_stats := f (st_stats st)\<rparr>"

definition on_path_b :: "store \<Rightarrow> expert_slot \<Rightarrow> bool" where
  "on_path_b st s \<longleftrightarrow> unat (es_slab s) \<ge> st_path_b_first_slab st"

definition slot_on_path_b :: "store \<Rightarrow> nat \<Rightarrow> bool" where
  "slot_on_path_b st i \<longleftrightarrow> i < length (st_slots st) \<and> on_path_b st (st_slots st ! i)"

section \<open>Construction\<close>

text \<open>The loop of \<^verbatim>\<open>init\<close>: address every slot and push it on the free list, highest first.\<close>

fun init_slots ::
  "slab_pool \<Rightarrow> nat \<Rightarrow> nat list \<Rightarrow> expert_slot list \<Rightarrow> nat list \<Rightarrow> err option \<times> expert_slot list \<times> nat list"
where
  "init_slots p n [] slots fl = (None, slots, fl)"
| "init_slots p n (i # is) slots fl =
     (case pool_address p (of_nat i) of
        Inl e \<Rightarrow> (Some e, slots, fl)
      | Inr a \<Rightarrow>
          init_slots p n is
            (slots[i := (slots ! i)\<lparr>es_slot := i, es_slab := fst (decompose p (of_nat i)),
                          es_host_ptr := sa_host_ptr a, es_dev_addr := sa_dev_addr a,
                          es_state := Free\<rparr>])
            (fl @ [n - 1 - i]))"

definition store_init ::
  "backing \<Rightarrow> cache_config \<Rightarrow> nat \<Rightarrow> nat \<Rightarrow> store \<Rightarrow> unit result \<times> store"
where
  "store_init alloc cache nlayers nexperts st =
     (if nlayers = 0 \<or> nexperts = 0 then (Inl InvalidArgument, st)
      else
        let sc = \<lparr>slots_per_slab = cc_slots_per_slab cache, slot_bytes = kExpertSlotBytes,
                  budget_bytes = cc_budget_bytes cache\<rparr>;
            (r, p) = pool_init alloc sc (st_pool st);
            st = st\<lparr>st_pool := p\<rparr>
        in case r of
             Inl e \<Rightarrow> (Inl e, st)
           | Inr _ \<Rightarrow>
               let n = unat (sp_slot_count p);
                   (e, slots, fl) = init_slots p n [0..<n] (replicate n default_slot) [];
                   st = st\<lparr>st_cache := cache, st_layers := nlayers, st_experts_per_layer := nexperts,
                           st_slots := slots, st_free_list := fl\<rparr>
               in case e of
                    Some e \<Rightarrow> (Inl e, st)
                  | None \<Rightarrow>
                      (Inr (), st\<lparr>st_index := Map.empty,
                                  st_table := replicate (nlayers * nexperts * kExpertParts) 0,
                                  st_stats := zero_stats\<lparr>ss_free := n\<rparr>,
                                  st_fixed_cache := False, st_cache_frozen := False\<rparr>))"

definition store_reset :: "store \<Rightarrow> store" where
  "store_reset st =
     st\<lparr>st_slots := [], st_free_list := [], st_index := Map.empty, st_table := [], st_layers := 0,
        st_experts_per_layer := 0, st_completed := 0, st_stats := zero_stats,
        st_fixed_cache := False, st_cache_frozen := False, st_pool := pool_reset (st_pool st)\<rparr>"

definition set_path_b_first_slab :: "nat \<Rightarrow> store \<Rightarrow> store" where
  "set_path_b_first_slab s st = st\<lparr>st_path_b_first_slab := s\<rparr>"

definition set_evict_path :: "evict_path \<Rightarrow> store \<Rightarrow> store" where
  "set_evict_path p st = st\<lparr>st_evict_path := p\<rparr>"

definition set_fixed_cache :: "bool \<Rightarrow> store \<Rightarrow> store" where
  "set_fixed_cache enabled st =
     st\<lparr>st_fixed_cache := enabled,
        st_cache_frozen := enabled \<and> st_slots st \<noteq> [] \<and> ss_resident (st_stats st) = length (st_slots st)\<rparr>"

type_synonym identity_row = "nat \<times> u16 \<times> u16 \<times> nat"

fun identity_rows :: "expert_slot list \<Rightarrow> identity_row list result" where
  "identity_rows [] = Inr []"
| "identity_rows (s # ss) =
     (if es_state s \<noteq> Resident then Inl FailedPrecondition
      else rbind (identity_rows ss) (\<lambda>rows.
        Inr ((es_slot s, layer (es_key s), expert (es_key s), if es_tier s = Pinned then 1 else 0) # rows)))"

definition frozen_cache_identity :: "store \<Rightarrow> identity_row list result" where
  "frozen_cache_identity st =
     (if \<not> st_fixed_cache st \<or> \<not> st_cache_frozen st \<or> st_slots st = []
         \<or> ss_filling (st_stats st) \<noteq> 0 \<or> ss_free (st_stats st) \<noteq> 0
      then Inl FailedPrecondition
      else identity_rows (st_slots st))"

section \<open>The pointer table\<close>

definition slot_base :: "expert_slot \<Rightarrow> u64" where
  "slot_base s = (if es_dev_addr s \<noteq> 0 then es_dev_addr s else es_host_ptr s)"

definition part_address :: "expert_slot \<Rightarrow> nat \<Rightarrow> u64" where
  "part_address s p = (if slot_base s \<noteq> 0 then slot_base s + es_part_offset s ! p else 0)"

text \<open>The six assignments \<^verbatim>\<open>table_[table_index(key, p)] = f(p)\<close>.\<close>

definition write_row :: "store \<Rightarrow> expert_key \<Rightarrow> (nat \<Rightarrow> u64) \<Rightarrow> u64 list" where
  "write_row st k f = fold (\<lambda>p t. t[table_index st k p := f p]) [0..<kExpertParts] (st_table st)"

definition publish_locked :: "nat \<Rightarrow> store \<Rightarrow> store" where
  "publish_locked i st =
     (let s = st_slots st ! i in st\<lparr>st_table := write_row st (es_key s) (part_address s)\<rparr>)"

definition unpublish_locked :: "nat \<Rightarrow> store \<Rightarrow> store" where
  "unpublish_locked i st =
     (let s = st_slots st ! i in st\<lparr>st_table := write_row st (es_key s) (\<lambda>p. 0)\<rparr>)"

section \<open>Lookups\<close>

definition state_of :: "store \<Rightarrow> expert_key \<Rightarrow> slot_state option" where
  "state_of st k = map_option (\<lambda>i. es_state (st_slots st ! i)) (st_index st k)"

definition slot_addr :: "expert_slot \<Rightarrow> slot_address" where
  "slot_addr s = \<lparr>sa_host_ptr = es_host_ptr s, sa_dev_addr = es_dev_addr s\<rparr>"

definition lookup :: "expert_key \<Rightarrow> nat \<Rightarrow> nat \<Rightarrow> store \<Rightarrow> slot_address option \<times> store" where
  "lookup k token guard st =
     (let st = upd_stats (\<lambda>s. s\<lparr>ss_lookups := ss_lookups s + 1\<rparr>) st
      in case st_index st k of
           None \<Rightarrow> (None, upd_stats (\<lambda>s. s\<lparr>ss_misses := ss_misses s + 1\<rparr>) st)
         | Some i \<Rightarrow>
             if es_state (st_slots st ! i) \<noteq> Resident
             then (None, upd_stats (\<lambda>s. s\<lparr>ss_misses := ss_misses s + 1\<rparr>) st)
             else
               let st = upd_slot i (\<lambda>s. s\<lparr>es_last_use_token := if st_fixed_cache st then es_last_use_token s else token,
                                         es_guard_timeline := max (es_guard_timeline s) guard\<rparr>) st;
                   st = upd_stats (\<lambda>s. s\<lparr>ss_hits := ss_hits s + 1\<rparr>) st;
                   st = (if on_path_b st (st_slots st ! i)
                         then upd_stats (\<lambda>s. s\<lparr>ss_hits_path_b := ss_hits_path_b s + 1\<rparr>) st
                         else upd_stats (\<lambda>s. s\<lparr>ss_hits_path_a := ss_hits_path_a s + 1\<rparr>) st)
               in (Some (slot_addr (st_slots st ! i)), st))"

definition resident :: "store \<Rightarrow> expert_key \<Rightarrow> bool" where
  "resident st k \<longleftrightarrow> state_of st k = Some Resident"

section \<open>Fills\<close>

definition reserve_locked :: "expert_key \<Rightarrow> tier \<Rightarrow> store \<Rightarrow> reservation result \<times> store" where
  "reserve_locked k t st =
     (if st_cache_frozen st then (Inl ResourceExhausted, st)
      else if \<not> key_in_range st k then (Inl OutOfRange, st)
      else if st_index st k \<noteq> None then (Inl AlreadyExists, st)
      else if st_free_list st = [] then (Inl ResourceExhausted, st)
      else
        let i = last (st_free_list st);
            st = st\<lparr>st_free_list := butlast (st_free_list st)\<rparr>;
            st = upd_slot i (\<lambda>s. s\<lparr>es_key := k, es_state := Filling, es_last_use_token := 0, es_tier := t,
                                   es_guard_timeline := 0, es_runs_done := 0, es_run_failed := False\<rparr>) st;
            st = st\<lparr>st_index := (st_index st)(k \<mapsto> i)\<rparr>;
            st = upd_stats (\<lambda>s. s\<lparr>ss_free := ss_free s - 1, ss_filling := ss_filling s + 1,
                                  ss_fills_started := ss_fills_started s + 1\<rparr>) st
        in (Inr \<lparr>rv_slot = i, rv_addr = slot_addr (st_slots st ! i), rv_run_count = 0, rv_runs = []\<rparr>, st))"

definition fill_run_of :: "expert_slot \<Rightarrow> run \<Rightarrow> fill_run" where
  "fill_run_of s r =
     \<lparr>fr_file = run_file r, fr_file_off = run_aligned_off r, fr_bytes = run_aligned_bytes r,
      fr_dst = (if es_host_ptr s \<noteq> 0 then es_host_ptr s + run_slot_offset r else 0),
      fr_dev_dst = (if es_dev_addr s \<noteq> 0 then es_dev_addr s + run_slot_offset r else 0)\<rparr>"

definition begin_fill ::
  "expert_key \<Rightarrow> expert_entry \<Rightarrow> tier \<Rightarrow> store \<Rightarrow> reservation result \<times> store"
where
  "begin_fill k e t st =
     (if ee_runs e = [] then (Inl InvalidArgument, st)
      else if length (ee_runs e) > kMaxExpertRuns then (Inl InvalidArgument, st)
      else if ee_slot_bytes e > slot_bytes (sp_cfg (st_pool st)) then (Inl InvalidArgument, st)
      else case reserve_locked k t st of
             (Inl err, st) \<Rightarrow> (Inl err, st)
           | (Inr r, st) \<Rightarrow>
               let i = rv_slot r;
                   st = upd_slot i (\<lambda>s. s\<lparr>es_runs_total := length (ee_runs e),
                                          es_part_offset := ee_part_offset e,
                                          es_part_bytes := ee_part_bytes e\<rparr>) st;
                   s = st_slots st ! i
               in (Inr (r\<lparr>rv_run_count := length (ee_runs e), rv_runs := map (fill_run_of s) (ee_runs e)\<rparr>),
                   upd_stats (\<lambda>x. x\<lparr>ss_runs_started := ss_runs_started x + length (ee_runs e)\<rparr>) st))"

text \<open>The planar layout of a synthetic fill: the running offset over the six part sizes.\<close>

definition planar_bytes :: "u64 list" where
  "planar_bytes = map (\<lambda>p. if odd p then kExpertScaleBytesPerMat else kExpertWeightBytesPerMat)
                    [0..<kExpertParts]"

fun running_offsets :: "u64 \<Rightarrow> u64 list \<Rightarrow> u64 list" where
  "running_offsets off [] = []"
| "running_offsets off (b # bs) = off # running_offsets (off + b) bs"

definition begin_fill_synthetic ::
  "expert_key \<Rightarrow> tier \<Rightarrow> store \<Rightarrow> reservation result \<times> store"
where
  "begin_fill_synthetic k t st =
     (case reserve_locked k t st of
        (Inl err, st) \<Rightarrow> (Inl err, st)
      | (Inr r, st) \<Rightarrow>
          let i = rv_slot r;
              st = upd_slot i (\<lambda>s. s\<lparr>es_runs_total := 1,
                                     es_part_offset := running_offsets 0 planar_bytes,
                                     es_part_bytes := planar_bytes\<rparr>) st;
              s = st_slots st ! i
          in (Inr (r\<lparr>rv_run_count := 1,
                     rv_runs := [\<lparr>fr_file = 0, fr_file_off = 0,
                                  fr_bytes = slot_bytes (sp_cfg (st_pool st)),
                                  fr_dst = es_host_ptr s, fr_dev_dst = es_dev_addr s\<rparr>]\<rparr>),
              upd_stats (\<lambda>x. x\<lparr>ss_runs_started := ss_runs_started x + 1\<rparr>) st))"

definition release_locked :: "nat \<Rightarrow> store \<Rightarrow> store" where
  "release_locked i st =
     (let k = es_key (st_slots st ! i);
          st = st\<lparr>st_index := (st_index st)(k := None)\<rparr>;
          st = upd_slot i (\<lambda>s. s\<lparr>es_key := ExpertKey 0 0, es_state := Free, es_heat := 0,
                 es_guard_timeline := 0, es_runs_total := 0, es_runs_done := 0, es_run_failed := False,
                 es_part_offset := replicate kExpertParts 0, es_part_bytes := replicate kExpertParts 0\<rparr>) st;
          st = st\<lparr>st_free_list := st_free_list st @ [i]\<rparr>
      in upd_stats (\<lambda>x. x\<lparr>ss_free := ss_free x + 1\<rparr>) st)"

definition settle_locked :: "nat \<Rightarrow> bool \<Rightarrow> nat \<Rightarrow> store \<Rightarrow> store" where
  "settle_locked i ok token st =
     (let st = upd_stats (\<lambda>x. x\<lparr>ss_filling := ss_filling x - 1\<rparr>) st
      in if ok then
           let st = upd_slot i (\<lambda>s. s\<lparr>es_state := Resident,
                                      es_last_use_token := max (es_last_use_token s) token\<rparr>) st;
               st = publish_locked i st;
               st = upd_stats (\<lambda>x. x\<lparr>ss_resident := ss_resident x + 1, ss_fills_ok := ss_fills_ok x + 1\<rparr>) st;
               st = (if st_fixed_cache st \<and> ss_resident (st_stats st) = length (st_slots st)
                     then st\<lparr>st_cache_frozen := True\<rparr> else st);
               st = (if on_path_b st (st_slots st ! i)
                     then upd_stats (\<lambda>x. x\<lparr>ss_fills_path_b := ss_fills_path_b x + 1\<rparr>) st
                     else upd_stats (\<lambda>x. x\<lparr>ss_fills_path_a := ss_fills_path_a x + 1\<rparr>) st)
           in if es_tier (st_slots st ! i) = Pinned
              then upd_stats (\<lambda>x. x\<lparr>ss_pinned := ss_pinned x + 1\<rparr>) st else st
         else upd_stats (\<lambda>x. x\<lparr>ss_fills_failed := ss_fills_failed x + 1\<rparr>) (release_locked i st))"

definition finish_run :: "nat \<Rightarrow> bool \<Rightarrow> nat \<Rightarrow> store \<Rightarrow> bool result \<times> store" where
  "finish_run i ok token st =
     (if i \<ge> length (st_slots st) then (Inl OutOfRange, st)
      else if es_state (st_slots st ! i) \<noteq> Filling then (Inl FailedPrecondition, st)
      else if es_runs_done (st_slots st ! i) \<ge> es_runs_total (st_slots st ! i) then (Inl FailedPrecondition, st)
      else
        let st = upd_slot i (\<lambda>s. s\<lparr>es_runs_done := es_runs_done s + 1,
                                   es_run_failed := es_run_failed s \<or> \<not> ok\<rparr>) st;
            st = upd_stats (\<lambda>x. x\<lparr>ss_runs_done := ss_runs_done x + 1\<rparr>) st;
            s = st_slots st ! i
        in if es_runs_done s < es_runs_total s then (Inr False, st)
           else (Inr True, settle_locked i (\<not> es_run_failed s) token st))"

definition finish_fill :: "nat \<Rightarrow> bool \<Rightarrow> nat \<Rightarrow> store \<Rightarrow> unit result \<times> store" where
  "finish_fill i ok token st =
     (if i \<ge> length (st_slots st) then (Inl OutOfRange, st)
      else if es_state (st_slots st ! i) \<noteq> Filling then (Inl FailedPrecondition, st)
      else
        let s = st_slots st ! i;
            st = upd_stats (\<lambda>x. x\<lparr>ss_runs_done := ss_runs_done x + (es_runs_total s - es_runs_done s)\<rparr>) st;
            st = upd_slot i (\<lambda>s. s\<lparr>es_runs_done := es_runs_total s\<rparr>) st
        in (Inr (), settle_locked i (ok \<and> \<not> es_run_failed s) token st))"

section \<open>Eviction and guards\<close>

text \<open>The tail that \<^verbatim>\<open>evict\<close> and \<^verbatim>\<open>evict_lru\<close> share.\<close>

definition recycle :: "nat \<Rightarrow> store \<Rightarrow> store" where
  "recycle i st =
     upd_stats (\<lambda>x. x\<lparr>ss_resident := ss_resident x - 1, ss_evictions := ss_evictions x + 1\<rparr>)
       (release_locked i (unpublish_locked i st))"

definition evict :: "nat \<Rightarrow> store \<Rightarrow> unit result \<times> store" where
  "evict i st =
     (if st_fixed_cache st then (Inl FailedPrecondition, st)
      else if i \<ge> length (st_slots st) then (Inl OutOfRange, st)
      else
        let s = st_slots st ! i
        in if es_state s \<noteq> Resident then (Inl FailedPrecondition, st)
           else if es_tier s = Pinned then (Inl FailedPrecondition, st)
           else if es_guard_timeline s > st_completed st
           then (Inl FailedPrecondition,
                 upd_stats (\<lambda>x. x\<lparr>ss_eviction_blocked_by_guard := ss_eviction_blocked_by_guard x + 1\<rparr>) st)
           else (Inr (), recycle i st))"

definition evict_key :: "expert_key \<Rightarrow> store \<Rightarrow> unit result \<times> store" where
  "evict_key k st = (case st_index st k of None \<Rightarrow> (Inl NotFound, st) | Some i \<Rightarrow> evict i st)"

definition set_completed_timeline :: "nat \<Rightarrow> store \<Rightarrow> store" where
  "set_completed_timeline v st = (if v > st_completed st then st\<lparr>st_completed := v\<rparr> else st)"

definition guarded_snapshot :: "nat \<Rightarrow> store \<Rightarrow> u64 list result \<times> store" where
  "guarded_snapshot guard st =
     (if guard \<le> st_completed st then (Inl InvalidArgument, st)
      else (Inr (st_table st),
            st\<lparr>st_slots := map (\<lambda>s. if es_state s = Resident
                                    then s\<lparr>es_guard_timeline := max (es_guard_timeline s) guard\<rparr>
                                    else s) (st_slots st)\<rparr>))"

definition set_guard :: "nat \<Rightarrow> nat \<Rightarrow> store \<Rightarrow> unit result \<times> store" where
  "set_guard i v st =
     (if i \<ge> length (st_slots st) then (Inl OutOfRange, st)
      else (Inr (), upd_slot i (\<lambda>s. if v > es_guard_timeline s then s\<lparr>es_guard_timeline := v\<rparr> else s) st))"

section \<open>Metadata\<close>

definition note_heat :: "expert_key \<Rightarrow> real \<Rightarrow> real \<Rightarrow> store \<Rightarrow> store" where
  "note_heat k score alpha st =
     (if st_fixed_cache st then st
      else case st_index st k of
             None \<Rightarrow> st
           | Some i \<Rightarrow> upd_slot i (\<lambda>s. s\<lparr>es_heat := (1 - alpha) * es_heat s + alpha * score\<rparr>) st)"

text \<open>The loop that both \<^verbatim>\<open>decay_heat\<close> and \<^verbatim>\<open>heat_max\<close> run over the slots.\<close>

definition heat_max :: "store \<Rightarrow> real" where
  "heat_max st = fold (\<lambda>s top. if es_heat s > top then es_heat s else top) (st_slots st) 0"

definition decay_heat :: "real \<Rightarrow> store \<Rightarrow> store" where
  "decay_heat factor st =
     (if factor \<ge> 1 then st
      else let top = heat_max st
           in if top \<le> 0 then st
              else st\<lparr>st_slots := map (\<lambda>s. s\<lparr>es_heat := es_heat s * (1 / top)\<rparr>) (st_slots st)\<rparr>)"

definition live :: "expert_slot \<Rightarrow> bool" where
  "live s \<longleftrightarrow> es_state s = Resident \<and> es_tier s \<noteq> Pinned"

definition heat_order :: "store \<Rightarrow> expert_key list" where
  "heat_order st = map es_key (sort_key (\<lambda>s. (- es_heat s, es_key s)) (filter live (st_slots st)))"

definition heat_slots :: "store \<Rightarrow> nat" where
  "heat_slots st = count_if live (st_slots st)"

definition slot_info :: "store \<Rightarrow> nat \<Rightarrow> expert_slot option" where
  "slot_info st i = (if i \<ge> length (st_slots st) then None else Some (st_slots st ! i))"

definition pin :: "expert_key \<Rightarrow> store \<Rightarrow> unit result \<times> store" where
  "pin k st =
     (case st_index st k of
        None \<Rightarrow> (Inl NotFound, st)
      | Some i \<Rightarrow>
          if es_state (st_slots st ! i) \<noteq> Resident then (Inl FailedPrecondition, st)
          else if es_tier (st_slots st ! i) \<noteq> Pinned
          then (Inr (), upd_stats (\<lambda>x. x\<lparr>ss_pinned := ss_pinned x + 1\<rparr>)
                          (upd_slot i (\<lambda>s. s\<lparr>es_tier := Pinned\<rparr>) st))
          else (Inr (), st))"

definition slot_for :: "store \<Rightarrow> expert_key \<Rightarrow> expert_slot option" where
  "slot_for st k = map_option (\<lambda>i. st_slots st ! i) (st_index st k)"

definition is_evictable :: "store \<Rightarrow> expert_slot \<Rightarrow> bool" where
  "is_evictable st s \<longleftrightarrow> live s \<and> es_guard_timeline s \<le> st_completed st"

definition evictable :: "store \<Rightarrow> expert_slot list" where
  "evictable st = (if st_fixed_cache st then [] else filter (is_evictable st) (st_slots st))"

text \<open>
  The scan of \<^verbatim>\<open>evict_lru\<close>: \<open>restrict\<close> is the lambda's argument, None for both paths and
  \<open>Some b\<close> for path B or A alone. The accumulator is the best index with its stamp, None for
  \<^verbatim>\<open>UINT32_MAX\<close>.
\<close>

definition scan_admits :: "store \<Rightarrow> bool option \<Rightarrow> expert_slot \<Rightarrow> bool" where
  "scan_admits st restrict s \<longleftrightarrow>
     is_evictable st s \<and> (case restrict of None \<Rightarrow> True | Some b \<Rightarrow> on_path_b st s = b)"

definition scan_step :: "store \<Rightarrow> bool option \<Rightarrow> nat \<Rightarrow> (nat \<times> nat) option \<Rightarrow> (nat \<times> nat) option" where
  "scan_step st restrict i best =
     (let s = st_slots st ! i
      in if \<not> scan_admits st restrict s then best
         else case best of
                None \<Rightarrow> Some (i, es_last_use_token s)
              | Some (_, oldest) \<Rightarrow>
                  if es_last_use_token s < oldest then Some (i, es_last_use_token s) else best)"

definition lru_scan :: "store \<Rightarrow> bool option \<Rightarrow> nat option" where
  "lru_scan st restrict =
     map_option fst (fold (scan_step st restrict) [0..<length (st_slots st)] None)"

definition lru_victim :: "store \<Rightarrow> nat option" where
  "lru_victim st =
     (let first = (case st_evict_path st of
                     PathOff \<Rightarrow> None
                   | PreferA \<Rightarrow> lru_scan st (Some False)
                   | PreferB \<Rightarrow> lru_scan st (Some True))
      in case first of Some i \<Rightarrow> Some i | None \<Rightarrow> lru_scan st None)"

definition evict_lru :: "store \<Rightarrow> nat result \<times> store" where
  "evict_lru st =
     (if st_fixed_cache st then (Inl FailedPrecondition, st)
      else case lru_victim st of
             None \<Rightarrow> (Inl NotFound, st)
           | Some i \<Rightarrow> (Inr i, recycle i st))"

definition touch :: "expert_key \<Rightarrow> nat \<Rightarrow> bool \<Rightarrow> store \<Rightarrow> bool \<times> store" where
  "touch k stamp include_filling st =
     (case st_index st k of
        None \<Rightarrow> (False, st)
      | Some i \<Rightarrow>
          let s = st_slots st ! i
          in if es_state s \<noteq> Resident \<and> \<not> (include_filling \<and> es_state s = Filling) then (False, st)
             else if \<not> st_fixed_cache st \<and> stamp > es_last_use_token s
             then (True, upd_slot i (\<lambda>s. s\<lparr>es_last_use_token := stamp\<rparr>) st)
             else (True, st))"

definition oldest_evictable_stamp :: "store \<Rightarrow> nat option" where
  "oldest_evictable_stamp st =
     (if st_fixed_cache st then None
      else fold (\<lambda>s best. if \<not> is_evictable st s then best
                          else case best of
                                 None \<Rightarrow> Some (es_last_use_token s)
                               | Some b \<Rightarrow> if es_last_use_token s < b then Some (es_last_use_token s) else best)
             (st_slots st) None)"

text \<open>
  \<^verbatim>\<open>wait_settled\<close> blocks while the key is Filling; what other threads do meanwhile is a
  sequence of the other operations. \<open>st\<close> is the store at the moment the wait ends.
\<close>

definition wait_settled_result :: "expert_key \<Rightarrow> store \<Rightarrow> bool" where
  "wait_settled_result k st \<longleftrightarrow> resident st k"

definition wait_settled_blocks :: "expert_key \<Rightarrow> store \<Rightarrow> bool" where
  "wait_settled_blocks k st \<longleftrightarrow> state_of st k = Some Filling"

definition slot_of :: "store \<Rightarrow> expert_key \<Rightarrow> nat option" where
  "slot_of st k = st_index st k"

definition free_slots :: "store \<Rightarrow> nat" where
  "free_slots st = length (st_free_list st)"

definition table_entry :: "store \<Rightarrow> expert_key \<Rightarrow> expert_part \<Rightarrow> u64 result" where
  "table_entry st k p =
     (if \<not> key_in_range st k then Inl OutOfRange else Inr (st_table st ! table_index st k (part_ord p)))"

definition table_row :: "store \<Rightarrow> expert_key \<Rightarrow> u64 list result" where
  "table_row st k =
     (if \<not> key_in_range st k then Inl OutOfRange
      else if \<not> resident st k then Inl FailedPrecondition
      else Inr (map (\<lambda>p. st_table st ! table_index st k p) [0..<kExpertParts]))"

definition stats :: "store \<Rightarrow> store_stats" where
  "stats st = (st_stats st)\<lparr>ss_free := length (st_free_list st)\<rparr>"

definition reset_stats :: "store \<Rightarrow> store" where
  "reset_stats st =
     st\<lparr>st_stats := zero_stats\<lparr>ss_resident := ss_resident (st_stats st), ss_filling := ss_filling (st_stats st),
                             ss_pinned := ss_pinned (st_stats st), ss_free := length (st_free_list st)\<rparr>\<rparr>"

section \<open>Interleavings\<close>

text \<open>
  The state-changing methods as one alphabet. Any thread may call any of them at any moment; a
  run of the store is a sequence of such calls, each of them atomic under the mutex.
\<close>

datatype store_op =
    OpLookup expert_key nat nat
  | OpBeginFill expert_key expert_entry tier
  | OpBeginSynthetic expert_key tier
  | OpFinishRun nat bool nat
  | OpFinishFill nat bool nat
  | OpEvict nat
  | OpEvictKey expert_key
  | OpEvictLru
  | OpSetCompleted nat
  | OpSnapshot nat
  | OpSetGuard nat nat
  | OpNoteHeat expert_key real real
  | OpDecayHeat real
  | OpPin expert_key
  | OpTouch expert_key nat bool
  | OpSetFixed bool
  | OpResetStats
  | OpSetPathB nat
  | OpSetEvictPath evict_path

fun run_op :: "store_op \<Rightarrow> store \<Rightarrow> store" where
  "run_op (OpLookup k t g) st = snd (lookup k t g st)"
| "run_op (OpBeginFill k e t) st = snd (begin_fill k e t st)"
| "run_op (OpBeginSynthetic k t) st = snd (begin_fill_synthetic k t st)"
| "run_op (OpFinishRun i ok t) st = snd (finish_run i ok t st)"
| "run_op (OpFinishFill i ok t) st = snd (finish_fill i ok t st)"
| "run_op (OpEvict i) st = snd (evict i st)"
| "run_op (OpEvictKey k) st = snd (evict_key k st)"
| "run_op OpEvictLru st = snd (evict_lru st)"
| "run_op (OpSetCompleted v) st = set_completed_timeline v st"
| "run_op (OpSnapshot g) st = snd (guarded_snapshot g st)"
| "run_op (OpSetGuard i v) st = snd (set_guard i v st)"
| "run_op (OpNoteHeat k s a) st = note_heat k s a st"
| "run_op (OpDecayHeat f) st = decay_heat f st"
| "run_op (OpPin k) st = snd (pin k st)"
| "run_op (OpTouch k t f) st = snd (touch k t f st)"
| "run_op (OpSetFixed b) st = set_fixed_cache b st"
| "run_op OpResetStats st = reset_stats st"
| "run_op (OpSetPathB s) st = set_path_b_first_slab s st"
| "run_op (OpSetEvictPath p) st = set_evict_path p st"

text \<open>An entry's part arrays are C arrays of six elements.\<close>

fun op_shaped :: "store_op \<Rightarrow> bool" where
  "op_shaped (OpBeginFill k e t) \<longleftrightarrow>
     length (ee_part_offset e) = kExpertParts \<and> length (ee_part_bytes e) = kExpertParts"
| "op_shaped _ \<longleftrightarrow> True"

inductive store_steps :: "store \<Rightarrow> store_op list \<Rightarrow> store \<Rightarrow> bool" where
  steps_refl: "store_steps st [] st"
| steps_step: "store_steps st ops st' \<Longrightarrow> op_shaped op \<Longrightarrow> store_steps st (ops @ [op]) (run_op op st')"

text \<open>A store in service: initialised, then used. A new \<^verbatim>\<open>init\<close> or a \<^verbatim>\<open>reset\<close> starts over.\<close>

inductive reachable :: "store \<Rightarrow> bool" where
  reach_empty: "reachable empty_store"
| reach_init: "reachable st \<Longrightarrow> store_init alloc cache l e st = (r, st') \<Longrightarrow> reachable st'"
| reach_reset: "reachable st \<Longrightarrow> reachable (store_reset st)"
| reach_op: "reachable st \<Longrightarrow> op_shaped op \<Longrightarrow> reachable (run_op op st)"

end
