(* ===== verification/Expert_Store_Inv.thy ===== *)
theory Expert_Store_Inv
  imports Expert_Store
begin

text \<open>
  The invariant of the expert store and that every operation keeps it: the index and the slots
  name each other, the free list holds exactly the Free slots, the pointer table shows exactly
  the Resident ones, the counters count, a fill in progress still waits for a run, and a frozen
  cache is full.
\<close>

section \<open>Projections\<close>

lemma upd_slot_simps [simp, store_simps]:
  "st_slots (upd_slot i f st) = (st_slots st)[i := f (st_slots st ! i)]"
  "st_pool (upd_slot i f st) = st_pool st"
  "st_layers (upd_slot i f st) = st_layers st"
  "st_experts_per_layer (upd_slot i f st) = st_experts_per_layer st"
  "st_path_b_first_slab (upd_slot i f st) = st_path_b_first_slab st"
  "st_evict_path (upd_slot i f st) = st_evict_path st"
  "st_free_list (upd_slot i f st) = st_free_list st"
  "st_index (upd_slot i f st) = st_index st"
  "st_table (upd_slot i f st) = st_table st"
  "st_completed (upd_slot i f st) = st_completed st"
  "st_fixed_cache (upd_slot i f st) = st_fixed_cache st"
  "st_cache_frozen (upd_slot i f st) = st_cache_frozen st"
  "st_stats (upd_slot i f st) = st_stats st"
  by (simp_all add: upd_slot_def)

lemma upd_stats_simps [simp, store_simps]:
  "st_slots (upd_stats g st) = st_slots st"
  "st_pool (upd_stats g st) = st_pool st"
  "st_layers (upd_stats g st) = st_layers st"
  "st_experts_per_layer (upd_stats g st) = st_experts_per_layer st"
  "st_path_b_first_slab (upd_stats g st) = st_path_b_first_slab st"
  "st_evict_path (upd_stats g st) = st_evict_path st"
  "st_free_list (upd_stats g st) = st_free_list st"
  "st_index (upd_stats g st) = st_index st"
  "st_table (upd_stats g st) = st_table st"
  "st_completed (upd_stats g st) = st_completed st"
  "st_fixed_cache (upd_stats g st) = st_fixed_cache st"
  "st_cache_frozen (upd_stats g st) = st_cache_frozen st"
  "st_stats (upd_stats g st) = g (st_stats st)"
  by (simp_all add: upd_stats_def)

lemma upd_slot_upd_stats: "upd_slot i f (upd_stats g st) = upd_stats g (upd_slot i f st)"
  by (cases st) (simp add: upd_slot_def upd_stats_def)

section \<open>The table's geometry\<close>

lemma table_index_less:
  assumes "key_in_range st k" "p < kExpertParts"
  shows "table_index st k p < st_layers st * st_experts_per_layer st * kExpertParts"
proof -
  let ?E = "st_experts_per_layer st" and ?l = "unat (layer k)" and ?e = "unat (expert k)"
  have "Suc ?l * ?E \<le> st_layers st * ?E" using assms(1) by (intro mult_le_mono1) (simp add: key_in_range_def)
  then have "?l * ?E + ?e < st_layers st * ?E" using assms(1) by (simp add: key_in_range_def)
  then have "Suc (?l * ?E + ?e) * kExpertParts \<le> st_layers st * ?E * kExpertParts"
    by (intro mult_le_mono1) simp
  then show ?thesis using assms(2) by (simp add: table_index_def)
qed

lemma mult_add_inj:
  assumes "a * n + b = c * n + d" "b < n" "d < (n::nat)"
  shows "a = c \<and> b = d"
proof -
  have "(a * n + b) div n = a" "(a * n + b) mod n = b" using assms(2) by simp_all
  moreover have "(c * n + d) div n = c" "(c * n + d) mod n = d" using assms(3) by simp_all
  ultimately show ?thesis using assms(1) by simp
qed

lemma table_index_inj:
  assumes "key_in_range st k" "key_in_range st k'" "p < kExpertParts" "p' < kExpertParts"
    and "table_index st k p = table_index st k' p'"
  shows "k = k' \<and> p = p'"
proof -
  have a: "unat (layer k) * st_experts_per_layer st + unat (expert k)
      = unat (layer k') * st_experts_per_layer st + unat (expert k') \<and> p = p'"
    using assms(3-5) by (intro mult_add_inj [of _ kExpertParts]) (simp_all add: table_index_def)
  then have "unat (layer k) = unat (layer k') \<and> unat (expert k) = unat (expert k')"
    using assms(1,2) by (intro mult_add_inj [of _ "st_experts_per_layer st"]) (simp_all add: key_in_range_def)
  then have "layer k = layer k' \<and> expert k = expert k'" by (simp only: word_unat_eq_iff)
  with a show ?thesis by (auto intro: expert_key.expand)
qed

lemma fold_row_length:
  "length (fold (\<lambda>p t. t[ix p := f p]) ps t) = length t"
  by (induction ps arbitrary: t) simp_all

lemma fold_row_other:
  "(\<And>p. p \<in> set ps \<Longrightarrow> ix p \<noteq> j) \<Longrightarrow> fold (\<lambda>p t. t[ix p := f p]) ps t ! j = t ! j"
  by (induction ps arbitrary: t) simp_all

lemma fold_row_same:
  "q \<in> set ps \<Longrightarrow> inj_on ix (set ps) \<Longrightarrow> ix q < length t \<Longrightarrow>
     fold (\<lambda>p t. t[ix p := f p]) ps t ! ix q = f q"
proof (induction ps arbitrary: t)
  case (Cons a ps)
  show ?case
  proof (cases "q \<in> set ps")
    case True
    with Cons show ?thesis by simp
  next
    case False
    with Cons.prems have "q = a" "\<And>p. p \<in> set ps \<Longrightarrow> ix p \<noteq> ix q" by (auto simp: inj_on_def)
    with Cons.prems show ?thesis by (simp add: fold_row_other)
  qed
qed simp

lemma write_row_length [simp]: "length (write_row st k f) = length (st_table st)"
  by (simp add: write_row_def fold_row_length)

lemma write_row_nth:
  assumes "length (st_table st) = st_layers st * st_experts_per_layer st * kExpertParts"
    and "key_in_range st k" "key_in_range st k'" "p < kExpertParts"
  shows "write_row st k f ! table_index st k' p
       = (if k' = k then f p else st_table st ! table_index st k' p)"
proof (cases "k' = k")
  case True
  have "inj_on (table_index st k) (set [0..<kExpertParts])"
    using table_index_inj [OF assms(2,2)] by (auto simp: inj_on_def)
  then show ?thesis
    using True assms table_index_less [OF assms(2,4)] by (simp add: write_row_def fold_row_same)
next
  case False
  then have "table_index st k q \<noteq> table_index st k' p" if "q \<in> set [0..<kExpertParts]" for q
    using table_index_inj [OF assms(2,3) _ assms(4)] that by auto
  from fold_row_other [of "[0..<kExpertParts]" "table_index st k" "table_index st k' p", OF this]
  show ?thesis using False by (simp add: write_row_def)
qed

section \<open>The invariant\<close>

definition index_ok :: "store \<Rightarrow> bool" where
  "index_ok st \<longleftrightarrow>
     (\<forall>k i. st_index st k = Some i \<longrightarrow>
        i < length (st_slots st) \<and> es_key (st_slots st ! i) = k
        \<and> es_state (st_slots st ! i) \<noteq> Free \<and> key_in_range st k)
     \<and> (\<forall>i < length (st_slots st). es_state (st_slots st ! i) \<noteq> Free \<longrightarrow>
          st_index st (es_key (st_slots st ! i)) = Some i)"

definition free_ok :: "store \<Rightarrow> bool" where
  "free_ok st \<longleftrightarrow> distinct (st_free_list st)
     \<and> set (st_free_list st) = {i. i < length (st_slots st) \<and> es_state (st_slots st ! i) = Free}"

definition row_value :: "store \<Rightarrow> expert_key \<Rightarrow> nat \<Rightarrow> u64" where
  "row_value st k p =
     (case st_index st k of
        None \<Rightarrow> 0
      | Some i \<Rightarrow> if es_state (st_slots st ! i) = Resident then part_address (st_slots st ! i) p else 0)"

definition table_ok :: "store \<Rightarrow> bool" where
  "table_ok st \<longleftrightarrow>
     length (st_table st) = st_layers st * st_experts_per_layer st * kExpertParts
     \<and> (\<forall>k p. key_in_range st k \<longrightarrow> p < kExpertParts \<longrightarrow>
          st_table st ! table_index st k p = row_value st k p)"

definition count_ok :: "store \<Rightarrow> bool" where
  "count_ok st \<longleftrightarrow>
     ss_resident (st_stats st) = count_if (\<lambda>s. es_state s = Resident) (st_slots st)
     \<and> ss_filling (st_stats st) = count_if (\<lambda>s. es_state s = Filling) (st_slots st)
     \<and> ss_free (st_stats st) = count_if (\<lambda>s. es_state s = Free) (st_slots st)
     \<and> ss_pinned (st_stats st) = count_if (\<lambda>s. es_state s = Resident \<and> es_tier s = Pinned) (st_slots st)"

definition slot_ok :: "nat \<Rightarrow> expert_slot \<Rightarrow> bool" where
  "slot_ok i s \<longleftrightarrow> es_slot s = i \<and> length (es_part_offset s) = kExpertParts
     \<and> length (es_part_bytes s) = kExpertParts
     \<and> (es_state s = Filling \<longrightarrow> es_runs_done s < es_runs_total s)
     \<and> (es_state s = Resident \<longrightarrow> es_runs_done s = es_runs_total s \<and> \<not> es_run_failed s)"

definition slots_ok :: "store \<Rightarrow> bool" where
  "slots_ok st \<longleftrightarrow> (\<forall>i < length (st_slots st). slot_ok i (st_slots st ! i))"

definition frozen_ok :: "store \<Rightarrow> bool" where
  "frozen_ok st \<longleftrightarrow>
     (st_cache_frozen st \<longleftrightarrow> st_fixed_cache st \<and> st_slots st \<noteq> []
        \<and> (\<forall>s \<in> set (st_slots st). es_state s = Resident))"

definition store_inv :: "store \<Rightarrow> bool" where
  "store_inv st \<longleftrightarrow>
     index_ok st \<and> free_ok st \<and> table_ok st \<and> count_ok st \<and> slots_ok st \<and> frozen_ok st"

lemma key_in_range_cong:
  "st_layers st' = st_layers st \<Longrightarrow> st_experts_per_layer st' = st_experts_per_layer st \<Longrightarrow>
     key_in_range st' k = key_in_range st k"
  by (simp add: key_in_range_def)

lemma table_index_cong:
  "st_experts_per_layer st' = st_experts_per_layer st \<Longrightarrow> table_index st' k p = table_index st k p"
  by (simp add: table_index_def)

lemma write_row_cong:
  "st_experts_per_layer st' = st_experts_per_layer st \<Longrightarrow> st_table st' = st_table st \<Longrightarrow>
     write_row st' k f = write_row st k f"
  by (simp add: write_row_def table_index_def)

section \<open>Operations that touch metadata only\<close>

definition same_core :: "expert_slot \<Rightarrow> expert_slot \<Rightarrow> bool" where
  "same_core s t \<longleftrightarrow>
     es_key t = es_key s \<and> es_state t = es_state s \<and> es_tier t = es_tier s \<and> es_slab t = es_slab s
     \<and> es_slot t = es_slot s \<and> es_host_ptr t = es_host_ptr s \<and> es_dev_addr t = es_dev_addr s
     \<and> es_runs_total t = es_runs_total s \<and> es_runs_done t = es_runs_done s
     \<and> es_run_failed t = es_run_failed s \<and> es_part_offset t = es_part_offset s
     \<and> es_part_bytes t = es_part_bytes s"

lemma same_core_refl [simp]: "same_core s s"
  by (simp add: same_core_def)

lemma same_core_address: "same_core s t \<Longrightarrow> part_address t p = part_address s p"
  by (simp add: same_core_def part_address_def slot_base_def)

text \<open>Two stores that agree on everything but LRU stamps, heat, guards and the tallies.\<close>

definition same_shape :: "store \<Rightarrow> store \<Rightarrow> bool" where
  "same_shape st st' \<longleftrightarrow>
     length (st_slots st') = length (st_slots st)
     \<and> (\<forall>i < length (st_slots st). same_core (st_slots st ! i) (st_slots st' ! i))
     \<and> st_index st' = st_index st \<and> st_free_list st' = st_free_list st \<and> st_table st' = st_table st
     \<and> st_layers st' = st_layers st \<and> st_experts_per_layer st' = st_experts_per_layer st
     \<and> st_fixed_cache st' = st_fixed_cache st \<and> st_cache_frozen st' = st_cache_frozen st
     \<and> ss_resident (st_stats st') = ss_resident (st_stats st)
     \<and> ss_filling (st_stats st') = ss_filling (st_stats st)
     \<and> ss_free (st_stats st') = ss_free (st_stats st)
     \<and> ss_pinned (st_stats st') = ss_pinned (st_stats st)"

lemma same_shape_refl [simp]: "same_shape st st"
  by (simp add: same_shape_def)

lemma same_shape_trans: "same_shape a b \<Longrightarrow> same_shape b c \<Longrightarrow> same_shape a c"
  by (auto simp: same_shape_def same_core_def)

lemma same_shape_upd_slot: "(\<And>s. same_core s (f s)) \<Longrightarrow> same_shape st (upd_slot i f st)"
  by (auto simp: same_shape_def nth_upd)

lemma same_shape_upd_stats:
  "(\<And>s. ss_resident (g s) = ss_resident s \<and> ss_filling (g s) = ss_filling s
      \<and> ss_free (g s) = ss_free s \<and> ss_pinned (g s) = ss_pinned s) \<Longrightarrow> same_shape st (upd_stats g st)"
  by (simp add: same_shape_def)

lemma count_if_map_eq: "map P xs = map P ys \<Longrightarrow> count_if P xs = count_if P ys"
proof -
  have "count_if P zs = count_if id (map P zs)" for zs by (induction zs) simp_all
  then show "map P xs = map P ys \<Longrightarrow> count_if P xs = count_if P ys" by simp
qed

lemma same_shape_count:
  assumes "same_shape st st'" and "\<And>s t. same_core s t \<Longrightarrow> P t = P s"
  shows "count_if P (st_slots st') = count_if P (st_slots st)"
  using assms by (intro count_if_map_eq nth_equalityI) (auto simp: same_shape_def)

lemma store_inv_same_shape:
  assumes inv: "store_inv st" and sh: "same_shape st st'"
  shows "store_inv st'"
proof -
  have len: "length (st_slots st') = length (st_slots st)"
    and core: "\<And>i. i < length (st_slots st) \<Longrightarrow> same_core (st_slots st ! i) (st_slots st' ! i)"
    and eqs: "st_index st' = st_index st" "st_free_list st' = st_free_list st" "st_table st' = st_table st"
      "st_layers st' = st_layers st" "st_experts_per_layer st' = st_experts_per_layer st"
    using sh by (simp_all add: same_shape_def)
  have key: "es_key (st_slots st' ! i) = es_key (st_slots st ! i)"
    and state: "es_state (st_slots st' ! i) = es_state (st_slots st ! i)"
    if "i < length (st_slots st)" for i
    using core [OF that] by (simp_all add: same_core_def)
  note rng = key_in_range_cong [OF eqs(4,5)] table_index_cong [OF eqs(5)]
  have index: "index_ok st'" using inv
    by (auto simp: store_inv_def index_ok_def eqs rng len key state)
  have "{i. i < length (st_slots st') \<and> es_state (st_slots st' ! i) = Free}
      = {i. i < length (st_slots st) \<and> es_state (st_slots st ! i) = Free}"
    using state len by auto
  then have free: "free_ok st'" using inv by (simp add: store_inv_def free_ok_def eqs)
  have row: "row_value st' k p = row_value st k p" for k p
  proof (cases "st_index st k")
    case (Some i)
    then have "i < length (st_slots st)" using inv by (auto simp: store_inv_def index_ok_def)
    then show ?thesis using Some by (simp add: row_value_def eqs state same_core_address [OF core])
  qed (simp add: row_value_def eqs)
  have table: "table_ok st'" using inv
    by (simp add: store_inv_def table_ok_def eqs rng row)
  have count: "count_ok st'"
    using inv sh same_shape_count [OF sh] by (simp add: store_inv_def count_ok_def same_core_def same_shape_def)
  have slots: "slots_ok st'" using inv core
    by (simp add: store_inv_def slots_ok_def slot_ok_def len same_core_def)
  have "(\<forall>s \<in> set (st_slots st'). es_state s = Resident) \<longleftrightarrow> (\<forall>s \<in> set (st_slots st). es_state s = Resident)"
    by (simp add: all_set_conv_all_nth len state)
  moreover have "st_slots st' = [] \<longleftrightarrow> st_slots st = []" using len by (metis length_0_conv)
  ultimately have frozen: "frozen_ok st'" using inv sh
    by (simp add: store_inv_def frozen_ok_def same_shape_def)
  show ?thesis using index free table count slots frozen by (simp add: store_inv_def)
qed

lemma lookup_same_shape: "same_shape st (snd (lookup k t g st))"
  by (auto simp: lookup_def Let_def split: option.splits
      intro!: same_shape_trans [OF _ same_shape_upd_stats] same_shape_trans [OF _ same_shape_upd_slot])
    (simp_all add: same_core_def)

lemma set_guard_same_shape: "same_shape st (snd (set_guard i v st))"
  by (auto simp: set_guard_def intro!: same_shape_upd_slot) (simp add: same_core_def)

lemma snapshot_same_shape: "same_shape st (snd (guarded_snapshot g st))"
  by (auto simp: guarded_snapshot_def same_shape_def same_core_def)

lemma note_heat_same_shape: "same_shape st (note_heat k s a st)"
  by (auto simp: note_heat_def same_core_def split: option.splits intro!: same_shape_upd_slot)

lemma decay_heat_same_shape: "same_shape st (decay_heat f st)"
  by (auto simp: decay_heat_def Let_def same_shape_def same_core_def)

lemma touch_same_shape: "same_shape st (snd (touch k t b st))"
  by (auto simp: touch_def Let_def same_core_def split: option.splits intro!: same_shape_upd_slot)

lemma set_completed_same_shape: "same_shape st (set_completed_timeline v st)"
  by (simp add: set_completed_timeline_def same_shape_def)

lemma setters_same_shape:
  "same_shape st (set_path_b_first_slab n st)" "same_shape st (set_evict_path p st)"
  by (simp_all add: set_path_b_first_slab_def set_evict_path_def same_shape_def)

lemmas same_shape_ops = lookup_same_shape set_guard_same_shape snapshot_same_shape note_heat_same_shape
  decay_heat_same_shape touch_same_shape set_completed_same_shape setters_same_shape

section \<open>Transitions of one slot\<close>

text \<open>What the three transitions share: one slot of a well-formed store is replaced.\<close>

lemma store_inv_dests:
  assumes "store_inv st"
  shows "index_ok st" "free_ok st" "table_ok st" "count_ok st" "slots_ok st" "frozen_ok st"
  using assms by (simp_all add: store_inv_def)

lemma index_okI:
  assumes "\<And>k i. st_index st k = Some i \<Longrightarrow> i < length (st_slots st) \<and> es_key (st_slots st ! i) = k
             \<and> es_state (st_slots st ! i) \<noteq> Free \<and> key_in_range st k"
    and "\<And>i. i < length (st_slots st) \<Longrightarrow> es_state (st_slots st ! i) \<noteq> Free \<Longrightarrow>
           st_index st (es_key (st_slots st ! i)) = Some i"
  shows "index_ok st"
  using assms by (simp add: index_ok_def)

lemma index_okD:
  assumes "index_ok st" "st_index st k = Some i"
  shows "i < length (st_slots st)" "es_key (st_slots st ! i) = k" "es_state (st_slots st ! i) \<noteq> Free"
    "key_in_range st k"
  using assms by (auto simp: index_ok_def)

lemma index_ok_held:
  "index_ok st \<Longrightarrow> i < length (st_slots st) \<Longrightarrow> es_state (st_slots st ! i) \<noteq> Free \<Longrightarrow>
     st_index st (es_key (st_slots st ! i)) = Some i"
  by (simp add: index_ok_def)

lemma slots_ok_upd:
  assumes "slots_ok st" "st_slots st' = (st_slots st)[i := s']" "slot_ok i s'"
  shows "slots_ok st'"
  using assms by (auto simp: slots_ok_def nth_upd)

lemma not_all_resident:
  assumes "st_slots st' = (st_slots st)[i := s']" "i < length (st_slots st)" "es_state s' \<noteq> Resident"
    and "\<not> st_cache_frozen st'"
  shows "frozen_ok st'"
  using assms by (auto simp: frozen_ok_def all_set_conv_all_nth)

text \<open>The four counters after slot \<open>i\<close> became \<open>s'\<close>, as balance equations.\<close>

lemma count_ok_upd:
  assumes "count_ok st" "st_slots st' = (st_slots st)[i := s']" "i < length (st_slots st)"
    and "s = st_slots st ! i"
    and "ss_resident (st_stats st') + of_bool (es_state s = Resident)
         = ss_resident (st_stats st) + of_bool (es_state s' = Resident)"
    and "ss_filling (st_stats st') + of_bool (es_state s = Filling)
         = ss_filling (st_stats st) + of_bool (es_state s' = Filling)"
    and "ss_free (st_stats st') + of_bool (es_state s = Free)
         = ss_free (st_stats st) + of_bool (es_state s' = Free)"
    and "ss_pinned (st_stats st') + of_bool (es_state s = Resident \<and> es_tier s = Pinned)
         = ss_pinned (st_stats st) + of_bool (es_state s' = Resident \<and> es_tier s' = Pinned)"
  shows "count_ok st'"
proof -
  have upd: "count_if P (st_slots st') + of_bool (P s) = count_if P (st_slots st) + of_bool (P s')" for P
    using count_if_update [OF assms(3), of P s'] by (simp add: assms(2,4) of_bool_def)
  show ?thesis
    using assms(1,5-8) upd [of "\<lambda>s. es_state s = Resident"] upd [of "\<lambda>s. es_state s = Filling"]
      upd [of "\<lambda>s. es_state s = Free"] upd [of "\<lambda>s. es_state s = Resident \<and> es_tier s = Pinned"]
    unfolding count_ok_def by linarith
qed

lemma count_ok_pos:
  assumes "count_ok st" "i < length (st_slots st)"
  shows "es_state (st_slots st ! i) = Resident \<Longrightarrow> 0 < ss_resident (st_stats st)"
    and "es_state (st_slots st ! i) = Filling \<Longrightarrow> 0 < ss_filling (st_stats st)"
    and "es_state (st_slots st ! i) = Free \<Longrightarrow> 0 < ss_free (st_stats st)"
  using assms count_if_pos [OF assms(2)] by (auto simp: count_ok_def)

lemma row_value_other:
  assumes "st_slots st' = (st_slots st)[i := s']" "st_index st' k = st_index st k" "st_index st k \<noteq> Some i"
  shows "row_value st' k p = row_value st k p"
proof (cases "st_index st k")
  case (Some j)
  with assms(3) have "i \<noteq> j" by simp
  with Some show ?thesis by (simp add: row_value_def assms(1,2))
qed (simp add: row_value_def assms(2))

subsection \<open>Free to Filling\<close>

lemma inv_to_filling:
  assumes inv: "store_inv st" and fl: "st_free_list st \<noteq> []" "i = last (st_free_list st)"
    and k: "key_in_range st k" "st_index st k = None" "\<not> st_cache_frozen st"
    and s': "es_key s' = k" "es_state s' = Filling" "slot_ok i s'"
    and st': "st_slots st' = (st_slots st)[i := s']" "st_index st' = (st_index st)(k \<mapsto> i)"
      "st_free_list st' = butlast (st_free_list st)" "st_table st' = st_table st"
      "st_layers st' = st_layers st" "st_experts_per_layer st' = st_experts_per_layer st"
      "\<not> st_cache_frozen st'"
      "ss_resident (st_stats st') = ss_resident (st_stats st)" "ss_pinned (st_stats st') = ss_pinned (st_stats st)"
      "ss_filling (st_stats st') = ss_filling (st_stats st) + 1" "ss_free (st_stats st') = ss_free (st_stats st) - 1"
  shows "store_inv st'"
proof -
  note d = store_inv_dests [OF inv]
  have "i \<in> set (st_free_list st)" using fl by simp
  then have i: "i < length (st_slots st)" "es_state (st_slots st ! i) = Free" using d(2) by (auto simp: free_ok_def)
  note rng = key_in_range_cong [OF st'(5,6)] table_index_cong [OF st'(6)]
  have no_i: "st_index st k' \<noteq> Some i" for k' using index_okD [OF d(1), of k' i] i(2) by auto
  have "index_ok st'"
  proof (rule index_okI)
    fix k' j assume "st_index st' k' = Some j"
    then consider "k' = k" "j = i" | "k' \<noteq> k" "st_index st k' = Some j" "j \<noteq> i"
      using no_i by (auto simp: st'(2) split: if_splits)
    then show "j < length (st_slots st') \<and> es_key (st_slots st' ! j) = k'
        \<and> es_state (st_slots st' ! j) \<noteq> Free \<and> key_in_range st' k'"
      using i k s' index_okD [OF d(1), of k' j] by cases (simp_all add: st'(1) rng)
  next
    fix j assume j: "j < length (st_slots st')" "es_state (st_slots st' ! j) \<noteq> Free"
    show "st_index st' (es_key (st_slots st' ! j)) = Some j"
    proof (cases "j = i")
      case False
      with j have "st_index st (es_key (st_slots st ! j)) = Some j"
        by (intro index_ok_held [OF d(1)]) (simp_all add: st'(1))
      with False k(2) show ?thesis by (auto simp: st'(1,2))
    qed (simp add: st'(1,2) s' i)
  qed
  moreover have "{j. j < length (st_slots st') \<and> es_state (st_slots st' ! j) = Free}
      = {j. j < length (st_slots st) \<and> es_state (st_slots st ! j) = Free} - {i}"
    using s'(2) by (auto simp: st'(1) nth_upd split: if_splits)
  then have "free_ok st'"
    using d(2) fl by (simp add: free_ok_def st'(3) set_butlast_distinct distinct_butlast)
  moreover have "row_value st' k' p = row_value st k' p" for k' p
  proof (cases "k' = k")
    case False
    then show ?thesis using no_i by (simp add: row_value_other [OF st'(1)] st'(2))
  qed (use s'(2) i(1) k(2) in \<open>simp add: row_value_def st'(1,2)\<close>)
  then have "table_ok st'" using d(3) by (simp add: table_ok_def st' rng)
  moreover have "count_ok st'"
    using d(4) st'(1) i(1) refl by (rule count_ok_upd)
      (use count_ok_pos(3) [OF d(4) i(1,2)] i s' in \<open>simp_all add: st'\<close>)
  moreover have "slots_ok st'" using d(5) st'(1) s'(3) by (rule slots_ok_upd)
  moreover have "frozen_ok st'" by (rule not_all_resident [OF st'(1) i(1)]) (simp_all add: s' st')
  ultimately show ?thesis by (simp add: store_inv_def)
qed

subsection \<open>A slot that keeps its key and stays held\<close>

lemma index_ok_held_upd:
  assumes ok: "index_ok st" and i: "i < length (st_slots st)" "es_state (st_slots st ! i) \<noteq> Free"
    and s': "es_key s' = es_key (st_slots st ! i)" "es_state s' \<noteq> Free"
    and st': "st_slots st' = (st_slots st)[i := s']" "st_index st' = st_index st"
      "st_layers st' = st_layers st" "st_experts_per_layer st' = st_experts_per_layer st"
  shows "index_ok st'"
proof (rule index_okI)
  fix k j assume "st_index st' k = Some j"
  then show "j < length (st_slots st') \<and> es_key (st_slots st' ! j) = k
      \<and> es_state (st_slots st' ! j) \<noteq> Free \<and> key_in_range st' k"
    using index_okD [OF ok, of k j] s' by (auto simp: st' nth_upd key_in_range_cong [OF st'(3,4)])
next
  fix j assume "j < length (st_slots st')" "es_state (st_slots st' ! j) \<noteq> Free"
  then show "st_index st' (es_key (st_slots st' ! j)) = Some j"
    using index_ok_held [OF ok i] index_ok_held [OF ok, of j] s' by (cases "j = i") (simp_all add: st')
qed

lemma free_ok_held_upd:
  assumes ok: "free_ok st" and i: "i < length (st_slots st)" "es_state (st_slots st ! i) \<noteq> Free"
    and st': "es_state s' \<noteq> Free" "st_slots st' = (st_slots st)[i := s']" "st_free_list st' = st_free_list st"
  shows "free_ok st'"
proof -
  have "{j. j < length (st_slots st') \<and> es_state (st_slots st' ! j) = Free}
      = {j. j < length (st_slots st) \<and> es_state (st_slots st ! j) = Free}"
    using i st'(1) by (auto simp: st'(2) nth_upd split: if_splits)
  then show ?thesis using ok by (simp add: free_ok_def st'(3))
qed

lemma inv_in_place:
  assumes inv: "store_inv st" and i: "i < length (st_slots st)" "es_state (st_slots st ! i) \<noteq> Free"
    and s': "es_key s' = es_key (st_slots st ! i)" "es_state s' = es_state (st_slots st ! i)"
      "\<And>p. part_address s' p = part_address (st_slots st ! i) p" "slot_ok i s'"
    and st': "st_slots st' = (st_slots st)[i := s']" "st_index st' = st_index st"
      "st_free_list st' = st_free_list st" "st_table st' = st_table st"
      "st_layers st' = st_layers st" "st_experts_per_layer st' = st_experts_per_layer st"
      "st_cache_frozen st' = st_cache_frozen st" "st_fixed_cache st' = st_fixed_cache st"
      "ss_resident (st_stats st') = ss_resident (st_stats st)"
      "ss_filling (st_stats st') = ss_filling (st_stats st)" "ss_free (st_stats st') = ss_free (st_stats st)"
    and pin: "ss_pinned (st_stats st') + of_bool (es_state s' = Resident \<and> es_tier (st_slots st ! i) = Pinned)
         = ss_pinned (st_stats st) + of_bool (es_state s' = Resident \<and> es_tier s' = Pinned)"
  shows "store_inv st'"
proof -
  note d = store_inv_dests [OF inv]
  note rng = key_in_range_cong [OF st'(5,6)] table_index_cong [OF st'(6)]
  have nf: "es_state s' \<noteq> Free" using i(2) s'(2) by simp
  have "index_ok st'" by (rule index_ok_held_upd [OF d(1) i s'(1) nf st'(1,2,5,6)])
  moreover have "free_ok st'" by (rule free_ok_held_upd [OF d(2) i nf st'(1,3)])
  moreover have "row_value st' k p = row_value st k p" for k p
    using i s'(2,3) by (simp add: row_value_def st'(1,2) nth_list_update split: option.split)
  then have "table_ok st'" using d(3) by (simp add: table_ok_def st' rng)
  moreover have "count_ok st'"
    using d(4) st'(1) i(1) refl by (rule count_ok_upd) (use pin s'(2) in \<open>simp_all add: st'\<close>)
  moreover have "slots_ok st'" using d(5) st'(1) s'(4) by (rule slots_ok_upd)
  moreover have "frozen_ok st'"
  proof -
    have "(\<forall>s \<in> set (st_slots st'). es_state s = Resident) \<longleftrightarrow> (\<forall>s \<in> set (st_slots st). es_state s = Resident)"
      using i s'(2) by (auto simp: all_set_conv_all_nth st'(1) nth_upd split: if_splits)
    then show ?thesis using d(6) by (simp add: frozen_ok_def st')
  qed
  ultimately show ?thesis by (simp add: store_inv_def)
qed

subsection \<open>Filling to Resident\<close>

lemma inv_to_resident:
  assumes inv: "store_inv st" and i: "i < length (st_slots st)" "es_state (st_slots st ! i) = Filling"
    and s': "es_key s' = es_key (st_slots st ! i)" "es_state s' = Resident" "slot_ok i s'"
    and st': "st_slots st' = (st_slots st)[i := s']" "st_index st' = st_index st"
      "st_free_list st' = st_free_list st" "st_table st' = write_row st (es_key s') (part_address s')"
      "st_layers st' = st_layers st" "st_experts_per_layer st' = st_experts_per_layer st"
      "st_fixed_cache st' = st_fixed_cache st"
      "ss_resident (st_stats st') = ss_resident (st_stats st) + 1"
      "ss_filling (st_stats st') = ss_filling (st_stats st) - 1" "ss_free (st_stats st') = ss_free (st_stats st)"
      "ss_pinned (st_stats st') = ss_pinned (st_stats st) + of_bool (es_tier s' = Pinned)"
    and frz: "st_cache_frozen st' \<longleftrightarrow> st_cache_frozen st
       \<or> st_fixed_cache st \<and> ss_resident (st_stats st') = length (st_slots st)"
  shows "store_inv st'"
proof -
  note d = store_inv_dests [OF inv]
  note rng = key_in_range_cong [OF st'(5,6)] table_index_cong [OF st'(6)]
  have held: "es_state (st_slots st ! i) \<noteq> Free" "es_state s' \<noteq> Free" using i(2) s'(2) by simp_all
  have ik: "st_index st (es_key s') = Some i" using index_ok_held [OF d(1) i(1) held(1)] s'(1) by simp
  have only: "k = es_key s'" if "st_index st k = Some i" for k using index_okD(2) [OF d(1) that] s'(1) by simp
  have "index_ok st'" by (rule index_ok_held_upd [OF d(1) i(1) held(1) s'(1) held(2) st'(1,2,5,6)])
  moreover have "free_ok st'" by (rule free_ok_held_upd [OF d(2) i(1) held st'(1,3)])
  moreover have "row_value st' k p = (if k = es_key s' then part_address s' p else row_value st k p)" for k p
  proof (cases "k = es_key s'")
    case True
    then show ?thesis using ik s'(2) i(1) by (simp add: row_value_def st'(1,2))
  next
    case False
    then have "st_index st k \<noteq> Some i" using only by blast
    with False show ?thesis by (simp add: row_value_other [OF st'(1)] st'(2))
  qed
  then have "table_ok st'"
    using d(3) index_okD(4) [OF d(1) ik] by (simp add: table_ok_def st' rng write_row_nth)
  moreover have cnt: "count_ok st'"
    using d(4) st'(1) i(1) refl by (rule count_ok_upd)
      (use count_ok_pos(2) [OF d(4) i] i(2) s'(2) in \<open>simp_all add: st'\<close>)
  moreover have "slots_ok st'" using d(5) st'(1) s'(3) by (rule slots_ok_upd)
  moreover have "frozen_ok st'"
  proof -
    have "\<not> st_cache_frozen st" using d(6) i by (auto simp: frozen_ok_def)
    moreover have "ss_resident (st_stats st') = length (st_slots st) \<longleftrightarrow> (\<forall>s \<in> set (st_slots st'). es_state s = Resident)"
      using cnt count_if_all [of "\<lambda>s. es_state s = Resident" "st_slots st'"] by (simp add: count_ok_def st'(1))
    moreover have "st_slots st' \<noteq> []" using i(1) by (auto simp: st'(1))
    ultimately show ?thesis using frz by (simp add: frozen_ok_def st'(7))
  qed
  ultimately show ?thesis by (simp add: store_inv_def)
qed

subsection \<open>Back to Free\<close>

lemma inv_to_free:
  assumes inv: "store_inv st" and i: "i < length (st_slots st)" "es_state (st_slots st ! i) \<noteq> Free"
    and unfrozen: "\<not> st_cache_frozen st'"
    and s': "es_state s' = Free" "slot_ok i s'"
    and tab: "st_table st' = write_row st (es_key (st_slots st ! i)) (\<lambda>p. 0)
        \<or> es_state (st_slots st ! i) = Filling \<and> st_table st' = st_table st"
    and st': "st_slots st' = (st_slots st)[i := s']"
      "st_index st' = (st_index st)(es_key (st_slots st ! i) := None)"
      "st_free_list st' = st_free_list st @ [i]"
      "st_layers st' = st_layers st" "st_experts_per_layer st' = st_experts_per_layer st"
      "ss_resident (st_stats st') = ss_resident (st_stats st) - of_bool (es_state (st_slots st ! i) = Resident)"
      "ss_filling (st_stats st') = ss_filling (st_stats st) - of_bool (es_state (st_slots st ! i) = Filling)"
      "ss_free (st_stats st') = ss_free (st_stats st) + 1"
      "ss_pinned (st_stats st') = ss_pinned (st_stats st)"
    and unpinned: "es_state (st_slots st ! i) = Resident \<Longrightarrow> es_tier (st_slots st ! i) \<noteq> Pinned"
  shows "store_inv st'"
proof -
  define k where "k = es_key (st_slots st ! i)"
  note d = store_inv_dests [OF inv]
  note rng = key_in_range_cong [OF st'(4,5)] table_index_cong [OF st'(5)]
  have ik: "st_index st k = Some i" using index_ok_held [OF d(1) i] by (simp add: k_def)
  have only: "k' = k" if "st_index st k' = Some i" for k' using index_okD(2) [OF d(1) that] by (simp add: k_def)
  have "index_ok st'"
  proof (rule index_okI)
    fix k' j assume "st_index st' k' = Some j"
    then have "st_index st k' = Some j" "k' \<noteq> k" "j \<noteq> i"
      using only by (auto simp: st'(2) k_def split: if_splits)
    then show "j < length (st_slots st') \<and> es_key (st_slots st' ! j) = k'
        \<and> es_state (st_slots st' ! j) \<noteq> Free \<and> key_in_range st' k'"
      using index_okD [OF d(1), of k' j] by (simp add: st'(1) rng)
  next
    fix j assume j: "j < length (st_slots st')" "es_state (st_slots st' ! j) \<noteq> Free"
    then have "j \<noteq> i" using s'(1) i(1) by (auto simp: st'(1))
    with j have "st_index st (es_key (st_slots st ! j)) = Some j"
      by (intro index_ok_held [OF d(1)]) (simp_all add: st'(1))
    with \<open>j \<noteq> i\<close> ik show "st_index st' (es_key (st_slots st' ! j)) = Some j"
      by (auto simp: st'(1,2) k_def)
  qed
  moreover have "{j. j < length (st_slots st') \<and> es_state (st_slots st' ! j) = Free}
      = insert i {j. j < length (st_slots st) \<and> es_state (st_slots st ! j) = Free}"
    using i(1) s'(1) by (auto simp: st'(1) nth_upd split: if_splits)
  then have "free_ok st'" using d(2) i(2) by (auto simp: free_ok_def st'(3))
  moreover have "row_value st' k' p = (if k' = k then 0 else row_value st k' p)" for k' p
  proof (cases "k' = k")
    case False
    then have "st_index st k' \<noteq> Some i" using only by blast
    with False show ?thesis by (simp add: row_value_other [OF st'(1)] st'(2) k_def)
  qed (simp add: row_value_def st'(2) k_def)
  moreover have "row_value st k p = 0" if "es_state (st_slots st ! i) = Filling" for p
    using that by (simp add: row_value_def ik)
  ultimately have "table_ok st'"
    using d(3) tab index_okD(4) [OF d(1) ik]
    by (auto simp: table_ok_def rng st'(4,5) write_row_nth k_def)
  moreover have "count_ok st'"
    using d(4) st'(1) i(1) refl by (rule count_ok_upd)
      (use count_ok_pos(1,2) [OF d(4) i(1)] unpinned i(2) s'(1) in \<open>auto simp: st' of_bool_def\<close>)
  moreover have "slots_ok st'" using d(5) st'(1) s'(2) by (rule slots_ok_upd)
  moreover have "frozen_ok st'" by (rule not_all_resident [OF st'(1) i(1)]) (simp_all add: s' unfrozen)
  ultimately show ?thesis using \<open>index_ok st'\<close> \<open>free_ok st'\<close> by (simp add: store_inv_def)
qed

section \<open>Every operation keeps the invariant\<close>

lemma reserve_locked_cases:
  obtains (refused) e where "reserve_locked k t st = (Inl e, st)"
  | (taken) r st' where "reserve_locked k t st = (Inr r, st')"
      "\<not> st_cache_frozen st" "key_in_range st k" "st_index st k = None" "st_free_list st \<noteq> []"
      "rv_slot r = last (st_free_list st)"
      "st_slots st' = (st_slots st)[last (st_free_list st) :=
         (st_slots st ! last (st_free_list st))\<lparr>es_key := k, es_state := Filling, es_last_use_token := 0,
            es_tier := t, es_guard_timeline := 0, es_runs_done := 0, es_run_failed := False\<rparr>]"
      "st_index st' = (st_index st)(k \<mapsto> last (st_free_list st))"
      "st_free_list st' = butlast (st_free_list st)" "st_table st' = st_table st" "st_pool st' = st_pool st"
      "st_layers st' = st_layers st" "st_experts_per_layer st' = st_experts_per_layer st"
      "\<not> st_cache_frozen st'" "st_completed st' = st_completed st" "st_fixed_cache st' = st_fixed_cache st"
      "ss_resident (st_stats st') = ss_resident (st_stats st)" "ss_pinned (st_stats st') = ss_pinned (st_stats st)"
      "ss_filling (st_stats st') = ss_filling (st_stats st) + 1" "ss_free (st_stats st') = ss_free (st_stats st) - 1"
  unfolding reserve_locked_def Let_def
  by (cases "st_cache_frozen st"; cases "key_in_range st k"; cases "st_index st k"; cases "st_free_list st = []") simp_all

lemma slot_okD:
  "slots_ok st \<Longrightarrow> i < length (st_slots st) \<Longrightarrow> slot_ok i (st_slots st ! i)"
  by (simp add: slots_ok_def)

lemma free_ok_last:
  assumes "free_ok st" "st_free_list st \<noteq> []"
  shows "last (st_free_list st) < length (st_slots st)" "es_state (st_slots st ! last (st_free_list st)) = Free"
  using assms last_in_set [OF assms(2)] by (auto simp: free_ok_def)

lemma running_offsets_length [simp]: "length (running_offsets off bs) = length bs"
  by (induction bs arbitrary: off) simp_all

lemma begin_fill_inv:
  assumes inv: "store_inv st" and shape: "length (ee_part_offset e) = kExpertParts" "length (ee_part_bytes e) = kExpertParts"
  shows "store_inv (snd (begin_fill k e t st))"
proof (cases rule: reserve_locked_cases [of k t st])
  case (refused err)
  then show ?thesis using inv by (simp add: begin_fill_def)
next
  case (taken r st')
  note d = store_inv_dests [OF inv]
  note last = free_ok_last [OF d(2) taken(5)]
  show ?thesis
  proof (cases "ee_runs e = [] \<or> length (ee_runs e) > kMaxExpertRuns
      \<or> ee_slot_bytes e > slot_bytes (sp_cfg (st_pool st))")
    case True
    then show ?thesis using inv by (auto simp: begin_fill_def)
  next
    case False
    show ?thesis
      by (rule inv_to_filling [OF inv taken(5) refl taken(3,4,2)])
        (use False last taken slot_okD [OF d(5) last(1)] shape
         in \<open>simp_all add: begin_fill_def Let_def slot_ok_def\<close>)
  qed
qed

lemma begin_fill_synthetic_inv:
  assumes inv: "store_inv st"
  shows "store_inv (snd (begin_fill_synthetic k t st))"
proof (cases rule: reserve_locked_cases [of k t st])
  case (refused err)
  then show ?thesis using inv by (simp add: begin_fill_synthetic_def)
next
  case (taken r st')
  note d = store_inv_dests [OF inv]
  note last = free_ok_last [OF d(2) taken(5)]
  show ?thesis
    by (rule inv_to_filling [OF inv taken(5) refl taken(3,4,2)])
      (use last taken slot_okD [OF d(5) last(1)]
       in \<open>simp_all add: begin_fill_synthetic_def Let_def slot_ok_def planar_bytes_def\<close>)
qed

text \<open>A fill settles out of the state in which its last run has just been counted.\<close>

definition all_reported :: "expert_slot \<Rightarrow> expert_slot \<Rightarrow> bool" where
  "all_reported s s1 \<longleftrightarrow>
     es_key s1 = es_key s \<and> es_state s1 = Filling \<and> es_slot s1 = es_slot s
     \<and> es_part_offset s1 = es_part_offset s \<and> es_part_bytes s1 = es_part_bytes s
     \<and> es_runs_done s1 = es_runs_total s1"

lemma settle_locked_fields [simp]:
  "st_layers (settle_locked i ok t st) = st_layers st"
  "st_experts_per_layer (settle_locked i ok t st) = st_experts_per_layer st"
  "st_fixed_cache (settle_locked i ok t st) = st_fixed_cache st"
  "st_completed (settle_locked i ok t st) = st_completed st"
  by (simp_all add: settle_locked_def release_locked_def publish_locked_def Let_def)

lemma settle_inv:
  assumes inv: "store_inv st" and i: "i < length (st_slots st)" "es_state (st_slots st ! i) = Filling"
    and s1: "all_reported (st_slots st ! i) s1" "ok \<Longrightarrow> \<not> es_run_failed s1"
    and st1: "st1 = upd_stats (\<lambda>x. x\<lparr>ss_runs_done := n\<rparr>) (st\<lparr>st_slots := (st_slots st)[i := s1]\<rparr>)"
  shows "store_inv (settle_locked i ok t st1)"
proof -
  note d = store_inv_dests [OF inv]
  have ok_i: "slot_ok i (st_slots st ! i)" by (rule slot_okD [OF d(5) i(1)])
  have unfrozen: "\<not> st_cache_frozen st" using d(6) i by (auto simp: frozen_ok_def)
  show ?thesis
  proof (cases ok)
    case True
    let ?s = "s1\<lparr>es_state := Resident, es_last_use_token := max (es_last_use_token s1) t\<rparr>"
    show ?thesis
      by (rule inv_to_resident [OF inv i, where s' = ?s])
        (use s1 ok_i i True unfrozen in \<open>simp_all add: st1 settle_locked_def publish_locked_def
           write_row_def table_index_def Let_def all_reported_def slot_ok_def\<close>)
  next
    case False
    have nf: "es_state (st_slots st ! i) \<noteq> Free" using i(2) by simp
    let ?s = "s1\<lparr>es_key := ExpertKey 0 0, es_state := Free, es_heat := 0, es_guard_timeline := 0,
       es_runs_total := 0, es_runs_done := 0, es_run_failed := False,
       es_part_offset := replicate kExpertParts 0, es_part_bytes := replicate kExpertParts 0\<rparr>"
    show ?thesis
      by (rule inv_to_free [OF inv i(1) nf, where s' = ?s])
        (use s1 ok_i i False unfrozen in \<open>simp_all add: st1 settle_locked_def release_locked_def
           Let_def all_reported_def slot_ok_def\<close>)
  qed
qed

lemma finish_run_inv:
  assumes inv: "store_inv st"
  shows "store_inv (snd (finish_run i ok t st))"
proof (cases "i < length (st_slots st) \<and> es_state (st_slots st ! i) = Filling
    \<and> es_runs_done (st_slots st ! i) < es_runs_total (st_slots st ! i)")
  case False
  then show ?thesis using inv by (auto simp: finish_run_def)
next
  case True
  then have i: "i < length (st_slots st)" "es_state (st_slots st ! i) = Filling"
    and less: "es_runs_done (st_slots st ! i) < es_runs_total (st_slots st ! i)" by simp_all
  note d = store_inv_dests [OF inv]
  have ok_i: "slot_ok i (st_slots st ! i)" by (rule slot_okD [OF d(5) i(1)])
  let ?s = "(st_slots st ! i)\<lparr>es_runs_done := es_runs_done (st_slots st ! i) + 1,
      es_run_failed := es_run_failed (st_slots st ! i) \<or> \<not> ok\<rparr>"
  show ?thesis
  proof (cases "es_runs_done (st_slots st ! i) + 1 < es_runs_total (st_slots st ! i)")
    case True
    have nf: "es_state (st_slots st ! i) \<noteq> Free" using i(2) by simp
    show ?thesis
      by (rule inv_in_place [OF inv i(1) nf, where s' = ?s])
        (use True less i ok_i in \<open>simp_all add: finish_run_def Let_def slot_ok_def part_address_def slot_base_def\<close>)
  next
    case False
    have "store_inv (settle_locked i (\<not> es_run_failed ?s) t
        (upd_stats (\<lambda>x. x\<lparr>ss_runs_done := ss_runs_done (st_stats st) + 1\<rparr>)
          (st\<lparr>st_slots := (st_slots st)[i := ?s]\<rparr>)))"
      by (rule settle_inv [OF inv i _ _ refl]) (use False less i in \<open>simp_all add: all_reported_def\<close>)
    then show ?thesis using False less i
      by (simp add: finish_run_def Let_def upd_slot_def upd_stats_def)
  qed
qed

lemma finish_fill_inv:
  assumes inv: "store_inv st"
  shows "store_inv (snd (finish_fill i ok t st))"
proof (cases "i < length (st_slots st) \<and> es_state (st_slots st ! i) = Filling")
  case False
  then show ?thesis using inv by (auto simp: finish_fill_def)
next
  case True
  then have i: "i < length (st_slots st)" "es_state (st_slots st ! i) = Filling" by simp_all
  let ?s = "(st_slots st ! i)\<lparr>es_runs_done := es_runs_total (st_slots st ! i)\<rparr>"
  let ?n = "ss_runs_done (st_stats st) + (es_runs_total (st_slots st ! i) - es_runs_done (st_slots st ! i))"
  have "store_inv (settle_locked i (ok \<and> \<not> es_run_failed (st_slots st ! i)) t
      (upd_stats (\<lambda>x. x\<lparr>ss_runs_done := ?n\<rparr>) (st\<lparr>st_slots := (st_slots st)[i := ?s]\<rparr>)))"
    by (rule settle_inv [OF inv i _ _ refl]) (use i in \<open>simp_all add: all_reported_def\<close>)
  then show ?thesis using i
    by (simp add: finish_fill_def Let_def upd_slot_upd_stats) (simp add: upd_slot_def upd_stats_def)
qed

lemma recycle_inv:
  assumes inv: "store_inv st" and i: "i < length (st_slots st)" "live (st_slots st ! i)" and fx: "\<not> st_fixed_cache st"
  shows "store_inv (recycle i st)"
proof -
  note d = store_inv_dests [OF inv]
  have held: "es_state (st_slots st ! i) \<noteq> Free" using i(2) by (simp add: live_def)
  have ok_i: "slot_ok i (st_slots st ! i)" by (rule slot_okD [OF d(5) i(1)])
  let ?s = "(st_slots st ! i)\<lparr>es_key := ExpertKey 0 0, es_state := Free, es_heat := 0, es_guard_timeline := 0,
     es_runs_total := 0, es_runs_done := 0, es_run_failed := False,
     es_part_offset := replicate kExpertParts 0, es_part_bytes := replicate kExpertParts 0\<rparr>"
  have "\<not> st_cache_frozen st" using fx d(6) by (simp add: frozen_ok_def)
  then show ?thesis
    by (intro inv_to_free [OF inv i(1) held, where s' = ?s])
      (use ok_i i in \<open>simp_all add: recycle_def release_locked_def unpublish_locked_def live_def Let_def slot_ok_def\<close>)
qed

lemma evict_inv: "store_inv st \<Longrightarrow> store_inv (snd (evict i st))"
proof -
  assume inv: "store_inv st"
  have "same_shape st (upd_stats (\<lambda>x. x\<lparr>ss_eviction_blocked_by_guard := ss_eviction_blocked_by_guard x + 1\<rparr>) st)"
    by (rule same_shape_upd_stats) simp
  with inv show ?thesis
    by (auto simp: evict_def Let_def live_def intro: recycle_inv store_inv_same_shape)
qed

lemma evict_key_inv: "store_inv st \<Longrightarrow> store_inv (snd (evict_key k st))"
  by (simp add: evict_key_def evict_inv split: option.splits)

lemma pin_inv:
  assumes inv: "store_inv st"
  shows "store_inv (snd (pin k st))"
proof (cases "st_index st k")
  case None
  then show ?thesis using inv by (simp add: pin_def)
next
  case (Some i)
  note d = store_inv_dests [OF inv]
  note i = index_okD [OF d(1) Some]
  have ok_i: "slot_ok i (st_slots st ! i)" by (rule slot_okD [OF d(5) i(1)])
  show ?thesis
  proof (cases "es_state (st_slots st ! i) = Resident \<and> es_tier (st_slots st ! i) \<noteq> Pinned")
    case True
    show ?thesis
      by (rule inv_in_place [OF inv i(1,3), where s' = "(st_slots st ! i)\<lparr>es_tier := Pinned\<rparr>"])
        (use True Some ok_i in \<open>simp_all add: pin_def slot_ok_def part_address_def slot_base_def\<close>)
  next
    case False
    then show ?thesis using inv Some by (auto simp: pin_def)
  qed
qed

lemma set_fixed_cache_inv:
  assumes inv: "store_inv st"
  shows "store_inv (set_fixed_cache b st)"
proof -
  note d = store_inv_dests [OF inv]
  have "ss_resident (st_stats st) = length (st_slots st) \<longleftrightarrow> (\<forall>s \<in> set (st_slots st). es_state s = Resident)"
    using d(4) count_if_all [of "\<lambda>s. es_state s = Resident" "st_slots st"] by (simp add: count_ok_def)
  moreover have "row_value (set_fixed_cache b st) k p = row_value st k p" for k p
    by (simp add: row_value_def set_fixed_cache_def split: option.split)
  ultimately show ?thesis using inv
    by (simp add: set_fixed_cache_def store_inv_def index_ok_def free_ok_def table_ok_def count_ok_def
        slots_ok_def frozen_ok_def key_in_range_def table_index_def)
qed

lemma free_list_count:
  assumes "free_ok st"
  shows "length (st_free_list st) = count_if (\<lambda>s. es_state s = Free) (st_slots st)"
proof -
  have "length (st_free_list st) = card {i. i < length (st_slots st) \<and> es_state (st_slots st ! i) = Free}"
    using assms by (metis distinct_card free_ok_def)
  then show ?thesis by (simp add: count_if_def length_filter_conv_card)
qed

lemma reset_stats_inv: "store_inv st \<Longrightarrow> store_inv (reset_stats st)"
proof -
  assume inv: "store_inv st"
  have "same_shape st (reset_stats st)"
    using free_list_count [OF store_inv_dests(2) [OF inv]] store_inv_dests(4) [OF inv]
    by (simp add: same_shape_def reset_stats_def count_ok_def)
  with inv show ?thesis by (rule store_inv_same_shape)
qed

section \<open>The LRU scan\<close>

definition slot_stamp :: "store \<Rightarrow> nat \<Rightarrow> nat" where
  "slot_stamp st i = es_last_use_token (st_slots st ! i)"

text \<open>The victim has the oldest stamp among the admitted slots and the lowest index among those.\<close>

definition is_oldest :: "store \<Rightarrow> bool option \<Rightarrow> nat \<Rightarrow> nat \<Rightarrow> bool" where
  "is_oldest st r n b \<longleftrightarrow> b < n \<and> scan_admits st r (st_slots st ! b)
     \<and> (\<forall>j < n. scan_admits st r (st_slots st ! j) \<longrightarrow>
          slot_stamp st b < slot_stamp st j \<or> slot_stamp st b = slot_stamp st j \<and> b \<le> j)"

definition scan_good :: "store \<Rightarrow> bool option \<Rightarrow> nat \<Rightarrow> (nat \<times> nat) option \<Rightarrow> bool" where
  "scan_good st r n acc =
     (case acc of
        None \<Rightarrow> \<forall>j < n. \<not> scan_admits st r (st_slots st ! j)
      | Some (b, oldest) \<Rightarrow> oldest = slot_stamp st b \<and> is_oldest st r n b)"

lemma scan_good_step:
  assumes "scan_good st r n acc"
  shows "scan_good st r (Suc n) (scan_step st r n acc)"
proof (cases acc)
  case None
  with assms show ?thesis
    by (auto simp: scan_good_def scan_step_def Let_def slot_stamp_def is_oldest_def less_Suc_eq)
next
  case (Some x)
  with assms show ?thesis
    by (cases x) (auto simp: scan_good_def scan_step_def Let_def slot_stamp_def is_oldest_def less_Suc_eq)
qed

lemma lru_fold: "scan_good st r n (fold (scan_step st r) [0..<n] None)"
proof (induction n)
  case (Suc n)
  then show ?case by (simp add: scan_good_step)
qed (simp add: scan_good_def)

lemma lru_scan_None: "lru_scan st r = None \<longleftrightarrow> (\<forall>s \<in> set (st_slots st). \<not> scan_admits st r s)"
  using lru_fold [where st = st and r = r and n = "length (st_slots st)"]
  by (auto simp: lru_scan_def scan_good_def is_oldest_def all_set_conv_all_nth split: option.splits)

lemma lru_scan_Some: "lru_scan st r = Some b \<Longrightarrow> is_oldest st r (length (st_slots st)) b"
  using lru_fold [where st = st and r = r and n = "length (st_slots st)"] by (auto simp: lru_scan_def scan_good_def split: option.splits)

lemma lru_victim_evictable:
  assumes "lru_victim st = Some i"
  shows "i < length (st_slots st)" "is_evictable st (st_slots st ! i)"
  using assms by (auto simp: lru_victim_def Let_def is_oldest_def scan_admits_def
      dest!: lru_scan_Some split: option.splits evict_path.splits)

lemma evict_lru_inv: "store_inv st \<Longrightarrow> store_inv (snd (evict_lru st))"
  by (auto simp: evict_lru_def is_evictable_def split: option.splits
      intro!: recycle_inv dest: lru_victim_evictable)

section \<open>Construction\<close>

definition fresh_slot :: "slab_pool \<Rightarrow> nat \<Rightarrow> expert_slot \<Rightarrow> bool" where
  "fresh_slot p i s \<longleftrightarrow> es_slot s = i \<and> es_state s = Free
     \<and> pool_address p (of_nat i) = Inr (slot_addr s) \<and> es_slab s = fst (decompose p (of_nat i))
     \<and> length (es_part_offset s) = kExpertParts \<and> length (es_part_bytes s) = kExpertParts"

lemma pool_address_ok: "i < unat (sp_slot_count p) \<Longrightarrow> \<exists>a. pool_address p (of_nat i) = Inr a"
proof -
  assume i: "i < unat (sp_slot_count p)"
  then have "i < 2 ^ LENGTH(32)" using unsigned_less [of "sp_slot_count p"] by (rule less_trans)
  then have "unat (of_nat i :: u32) = i" by (metis of_nat_inverse)
  with i have "\<not> sp_slot_count p \<le> of_nat i" by (simp add: word_le_nat_alt)
  then show ?thesis by (auto simp: pool_address_def Let_def split: prod.splits)
qed

lemma init_slots_ok:
  assumes "\<forall>i \<in> set is. i < unat (sp_slot_count p) \<and> i < length slots" "distinct is"
    and "\<forall>i < length slots. length (es_part_offset (slots ! i)) = kExpertParts
           \<and> length (es_part_bytes (slots ! i)) = kExpertParts \<and> (i \<in> set is \<or> fresh_slot p i (slots ! i))"
  shows "\<exists>slots'. init_slots p n is slots fl = (None, slots', fl @ map (\<lambda>i. n - 1 - i) is)
     \<and> length slots' = length slots \<and> (\<forall>i < length slots. fresh_slot p i (slots' ! i))"
  using assms
proof (induction "is" arbitrary: slots fl)
  case (Cons i "is")
  from Cons.prems(1) have "i < unat (sp_slot_count p)" by simp
  then obtain a where a: "pool_address p (of_nat i) = Inr a" using pool_address_ok by blast
  let ?slots = "slots[i := (slots ! i)\<lparr>es_slot := i, es_slab := fst (decompose p (of_nat i)),
     es_host_ptr := sa_host_ptr a, es_dev_addr := sa_dev_addr a, es_state := Free\<rparr>]"
  have "\<forall>j < length ?slots. length (es_part_offset (?slots ! j)) = kExpertParts
      \<and> length (es_part_bytes (?slots ! j)) = kExpertParts \<and> (j \<in> set is \<or> fresh_slot p j (?slots ! j))"
    using Cons.prems(3) a by (auto simp: nth_upd fresh_slot_def slot_addr_def)
  with Cons.IH [of ?slots "fl @ [n - 1 - i]"] Cons.prems(1,2) show ?case by (simp add: a)
qed (auto simp: fresh_slot_def)

lemma map_diff_upt: "map (\<lambda>i. n - 1 - i) [0..<n] = rev [0..<n]"
  by (rule nth_equalityI) (simp_all add: rev_nth)

lemma store_init_cases:
  obtains (failed) e p where "store_init alloc cache l x st = (Inl e, st\<lparr>st_pool := p\<rparr>)"
  | (ready) p slots where "pool_init alloc \<lparr>slots_per_slab = cc_slots_per_slab cache, slot_bytes = kExpertSlotBytes,
                  budget_bytes = cc_budget_bytes cache\<rparr> (st_pool st) = (Inr (), p)"
      "length slots = unat (sp_slot_count p)" "\<forall>i < length slots. fresh_slot p i (slots ! i)"
      "store_init alloc cache l x st = (Inr (), st\<lparr>st_pool := p, st_cache := cache, st_layers := l,
         st_experts_per_layer := x, st_slots := slots, st_free_list := rev [0..<length slots],
         st_index := Map.empty, st_table := replicate (l * x * kExpertParts) 0,
         st_stats := zero_stats\<lparr>ss_free := length slots\<rparr>, st_fixed_cache := False, st_cache_frozen := False\<rparr>)"
proof (cases "l = 0 \<or> x = 0")
  case True
  have "st = st\<lparr>st_pool := st_pool st\<rparr>" by simp
  with True show thesis using failed [of InvalidArgument "st_pool st"] by (simp add: store_init_def)
next
  case False
  let ?sc = "\<lparr>slots_per_slab = cc_slots_per_slab cache, slot_bytes = kExpertSlotBytes,
                  budget_bytes = cc_budget_bytes cache\<rparr>"
  obtain r p where rp: "pool_init alloc ?sc (st_pool st) = (r, p)" by fastforce
  show thesis
  proof (cases r)
    case (Inl e)
    then show thesis using failed [of e p] False rp by (simp add: store_init_def)
  next
    case (Inr u)
    let ?n = "unat (sp_slot_count p)"
    have "\<exists>slots. init_slots p ?n [0..<?n] (replicate ?n default_slot) [] = (None, slots, [] @ map (\<lambda>i. ?n - 1 - i) [0..<?n])
        \<and> length slots = length (replicate ?n default_slot)
        \<and> (\<forall>i < length (replicate ?n default_slot). fresh_slot p i (slots ! i))"
      by (rule init_slots_ok) (simp_all add: default_slot_def)
    then obtain slots where sl: "init_slots p ?n [0..<?n] (replicate ?n default_slot) [] = (None, slots, rev [0..<?n])"
      "length slots = ?n" "\<forall>i < ?n. fresh_slot p i (slots ! i)"
      unfolding map_diff_upt by auto
    show thesis
      by (rule ready [of p slots]) (use False rp Inr sl in \<open>simp_all add: store_init_def Let_def\<close>)
  qed
qed

lemma store_init_inv:
  assumes inv: "store_inv st" and st': "store_init alloc cache l x st = (r, st')"
  shows "store_inv st'"
proof (cases rule: store_init_cases [of alloc cache l x st])
  case (failed e p)
  have "same_shape st (st\<lparr>st_pool := p\<rparr>)" by (simp add: same_shape_def)
  then have "store_inv (st\<lparr>st_pool := p\<rparr>)" by (rule store_inv_same_shape [OF inv])
  then show ?thesis using st' failed by simp
next
  case (ready p slots)
  have all: "\<forall>s \<in> set slots. es_state s = Free" using ready(3) by (auto simp: in_set_conv_nth fresh_slot_def)
  then have none: "count_if (\<lambda>s. es_state s = Resident) slots = 0" "count_if (\<lambda>s. es_state s = Filling) slots = 0"
    "count_if (\<lambda>s. es_state s = Resident \<and> es_tier s = Pinned) slots = 0"
    "count_if (\<lambda>s. es_state s = Free) slots = length slots"
    by (simp_all add: count_if_def filter_False)
  have free: "es_state (slots ! i) = Free" if "i < length slots" for i
    using ready(3) that by (simp add: fresh_slot_def)
  have zero: "replicate (l * x * kExpertParts) (0::u64) ! table_index st' k p = 0"
    if "key_in_range st' k" "p < kExpertParts" for k p
    using table_index_less [OF that] st' ready(4) by auto
  show ?thesis
    using st' ready(3,4) none free zero
    by (auto simp: store_inv_def index_ok_def free_ok_def table_ok_def count_ok_def slots_ok_def slot_ok_def
        frozen_ok_def row_value_def zero_stats_def fresh_slot_def)
qed

lemma store_reset_inv: "store_inv (store_reset st)"
  by (simp add: store_reset_def store_inv_def index_ok_def free_ok_def table_ok_def count_ok_def slots_ok_def
      frozen_ok_def key_in_range_def zero_stats_def)

lemma empty_store_inv: "store_inv empty_store"
  by (simp add: empty_store_def store_inv_def index_ok_def free_ok_def table_ok_def count_ok_def slots_ok_def
      frozen_ok_def key_in_range_def zero_stats_def)

lemma run_op_inv: "store_inv st \<Longrightarrow> op_shaped op \<Longrightarrow> store_inv (run_op op st)"
  by (cases op)
    (auto intro: begin_fill_inv begin_fill_synthetic_inv finish_run_inv finish_fill_inv evict_inv evict_key_inv
      evict_lru_inv pin_inv set_fixed_cache_inv reset_stats_inv store_inv_same_shape same_shape_ops)

end
