(* ===== verification/Expert_Store_Props.thy ===== *)
theory Expert_Store_Props
  imports Expert_Store_Inv
begin

text \<open>
  What the expert store promises to its callers, over every interleaving of its operations:
  the pointer table shows exactly the resident experts, a snapshot handed to the GPU stays valid
  until the timeline it was taken for has passed, pinned and frozen experts stay, fills settle
  when and only when their last run reports, and the LRU victim is the oldest evictable slot.
\<close>

section \<open>What a step leaves alone\<close>

text \<open>Slot \<open>i\<close> still serves the expert it served, at the same address, at least as well guarded.\<close>

definition keeps :: "nat \<Rightarrow> store \<Rightarrow> store \<Rightarrow> bool" where
  "keeps i st st' \<longleftrightarrow>
     length (st_slots st') = length (st_slots st)
     \<and> es_state (st_slots st' ! i) = Resident
     \<and> es_key (st_slots st' ! i) = es_key (st_slots st ! i)
     \<and> es_host_ptr (st_slots st' ! i) = es_host_ptr (st_slots st ! i)
     \<and> es_dev_addr (st_slots st' ! i) = es_dev_addr (st_slots st ! i)
     \<and> es_part_offset (st_slots st' ! i) = es_part_offset (st_slots st ! i)
     \<and> es_guard_timeline (st_slots st ! i) \<le> es_guard_timeline (st_slots st' ! i)
     \<and> (es_tier (st_slots st ! i) = Pinned \<longrightarrow> es_tier (st_slots st' ! i) = Pinned)"

definition protected :: "store \<Rightarrow> nat \<Rightarrow> bool" where
  "protected st i \<longleftrightarrow> es_guard_timeline (st_slots st ! i) > st_completed st \<or> es_tier (st_slots st ! i) = Pinned"

lemma keeps_refl: "es_state (st_slots st ! i) = Resident \<Longrightarrow> keeps i st st"
  by (simp add: keeps_def)

lemma keeps_trans: "keeps i a b \<Longrightarrow> keeps i b c \<Longrightarrow> keeps i a c"
  by (auto simp: keeps_def)

lemma keeps_other:
  assumes "es_state (st_slots st ! i) = Resident" "st_slots st' = (st_slots st)[j := s']" "j \<noteq> i"
  shows "keeps i st st'"
  using assms by (simp add: keeps_def)

lemma keeps_same_slots:
  assumes "es_state (st_slots st ! i) = Resident" "st_slots st' = st_slots st"
  shows "keeps i st st'"
  using assms by (simp add: keeps_def)

lemma keeps_upd:
  assumes "es_state (st_slots st ! i) = Resident" "i < length (st_slots st)" "st_slots st' = (st_slots st)[j := f (st_slots st ! j)]"
    and "\<And>s. es_state (f s) = es_state s \<and> es_key (f s) = es_key s \<and> es_host_ptr (f s) = es_host_ptr s
          \<and> es_dev_addr (f s) = es_dev_addr s \<and> es_part_offset (f s) = es_part_offset s
          \<and> es_guard_timeline s \<le> es_guard_timeline (f s) \<and> (es_tier s = Pinned \<longrightarrow> es_tier (f s) = Pinned)"
  shows "keeps i st st'"
  using assms by (cases "j = i") (simp_all add: keeps_def)

lemma fills_keep:
  assumes inv: "store_inv st" and r: "es_state (st_slots st ! i) = Resident"
  shows "keeps i st (snd (begin_fill k e t st))" "keeps i st (snd (begin_fill_synthetic k t st))"
proof -
  have "last (st_free_list st) \<noteq> i" if "st_free_list st \<noteq> []"
    using free_ok_last(2) [OF store_inv_dests(2) [OF inv] that] r by auto
  then show "keeps i st (snd (begin_fill k e t st))" "keeps i st (snd (begin_fill_synthetic k t st))"
    using keeps_refl [OF r] r
    by (cases rule: reserve_locked_cases [of k t st];
        simp add: begin_fill_def begin_fill_synthetic_def Let_def keeps_def)+
qed

lemma settle_locked_slots:
  "\<exists>s'. st_slots (settle_locked j ok t st) = (st_slots st)[j := s']"
  by (auto simp: settle_locked_def release_locked_def publish_locked_def Let_def)

lemma finish_slots:
  "st_slots (snd (finish_run j ok t st)) = st_slots st
     \<or> es_state (st_slots st ! j) = Filling \<and> (\<exists>s'. st_slots (snd (finish_run j ok t st)) = (st_slots st)[j := s'])"
  "st_slots (snd (finish_fill j ok t st)) = st_slots st
     \<or> es_state (st_slots st ! j) = Filling \<and> (\<exists>s'. st_slots (snd (finish_fill j ok t st)) = (st_slots st)[j := s'])"
proof -
  have settle: "\<exists>s'. st_slots (settle_locked j ok' t st1) = (st_slots st)[j := s']"
    if "st_slots st1 = (st_slots st)[j := s]" for ok' st1 s
    using settle_locked_slots [of j ok' t st1] that by auto
  show "st_slots (snd (finish_run j ok t st)) = st_slots st
     \<or> es_state (st_slots st ! j) = Filling \<and> (\<exists>s'. st_slots (snd (finish_run j ok t st)) = (st_slots st)[j := s'])"
    unfolding finish_run_def Let_def by (auto intro!: settle)
  show "st_slots (snd (finish_fill j ok t st)) = st_slots st
     \<or> es_state (st_slots st ! j) = Filling \<and> (\<exists>s'. st_slots (snd (finish_fill j ok t st)) = (st_slots st)[j := s'])"
    unfolding finish_fill_def Let_def by (auto intro!: settle)
qed

lemma finishes_keep:
  assumes r: "es_state (st_slots st ! i) = Resident"
  shows "keeps i st (snd (finish_run j ok t st))" "keeps i st (snd (finish_fill j ok t st))"
proof -
  have "keeps i st st'" if "st_slots st' = st_slots st
     \<or> es_state (st_slots st ! j) = Filling \<and> (\<exists>s'. st_slots st' = (st_slots st)[j := s'])" for st'
    using that keeps_same_slots [OF r] keeps_other [OF r] r by (metis slot_state.distinct(5))
  then show "keeps i st (snd (finish_run j ok t st))" "keeps i st (snd (finish_fill j ok t st))"
    using finish_slots by blast+
qed

lemma recycle_slots: "\<exists>s'. st_slots (recycle j st) = (st_slots st)[j := s']"
  by (auto simp: recycle_def release_locked_def unpublish_locked_def Let_def)

lemma evictions_keep:
  assumes r: "es_state (st_slots st ! i) = Resident" and p: "protected st i"
  shows "keeps i st (snd (evict j st))" "keeps i st (snd (evict_key k st))" "keeps i st (snd (evict_lru st))"
proof -
  have rec: "keeps i st (recycle j st)" if "j \<noteq> i" for j
    using recycle_slots [of j st] keeps_other [OF r _ that] by blast
  show e: "keeps i st (snd (evict j st))" for j
  proof (cases "j = i")
    case True
    then show ?thesis using p r by (auto simp: evict_def Let_def protected_def keeps_def)
  next
    case False
    then show ?thesis using rec r by (auto simp: evict_def Let_def intro: keeps_refl keeps_same_slots)
  qed
  show "keeps i st (snd (evict_key k st))"
    using e keeps_refl [OF r] by (simp add: evict_key_def split: option.splits)
  have "j \<noteq> i" if "lru_victim st = Some j" for j
    using lru_victim_evictable(2) [OF that] p by (auto simp: is_evictable_def live_def protected_def)
  then show "keeps i st (snd (evict_lru st))"
    using rec keeps_refl [OF r] by (simp add: evict_lru_def split: option.splits)
qed

lemma lookup_slots:
  "st_slots (snd (lookup k t g st)) = st_slots st
   \<or> (\<exists>j. st_slots (snd (lookup k t g st)) = (st_slots st)[j := (st_slots st ! j)\<lparr>
          es_last_use_token := if st_fixed_cache st then es_last_use_token (st_slots st ! j) else t,
          es_guard_timeline := max (es_guard_timeline (st_slots st ! j)) g\<rparr>])"
  by (auto simp: lookup_def Let_def split: option.splits)

lemma metadata_keeps:
  assumes r: "es_state (st_slots st ! i) = Resident" "i < length (st_slots st)"
  shows "keeps i st (snd (lookup k t g st))" "keeps i st (snd (guarded_snapshot g st))"
    "keeps i st (snd (set_guard j v st))" "keeps i st (note_heat k x a st)" "keeps i st (decay_heat x st)"
    "keeps i st (snd (pin k st))" "keeps i st (snd (touch k t b st))"
proof -
  show "keeps i st (snd (lookup k t g st))"
    using lookup_slots [of k t g st] by (auto intro: keeps_same_slots [OF r(1)] keeps_upd [OF r])
  show "keeps i st (snd (guarded_snapshot g st))" using r by (auto simp: guarded_snapshot_def keeps_def)
  show "keeps i st (snd (set_guard j v st))"
    by (auto simp: set_guard_def intro!: keeps_refl keeps_upd [OF r] r)
  show "keeps i st (note_heat k x a st)"
    by (auto simp: note_heat_def split: option.splits intro!: keeps_refl keeps_upd [OF r] r)
  show "keeps i st (decay_heat x st)" using r by (auto simp: decay_heat_def Let_def keeps_def)
  show "keeps i st (snd (pin k st))"
    by (auto simp: pin_def split: option.splits intro!: keeps_refl keeps_upd [OF r] r)
  show "keeps i st (snd (touch k t b st))"
    by (auto simp: touch_def Let_def split: option.splits intro!: keeps_refl keeps_upd [OF r] r)
qed

lemma run_op_keeps:
  assumes "store_inv st" "i < length (st_slots st)" "es_state (st_slots st ! i) = Resident" "protected st i"
  shows "keeps i st (run_op op st)"
  using fills_keep [OF assms(1,3)] finishes_keep [OF assms(3)] evictions_keep [OF assms(3,4)]
    metadata_keeps [OF assms(3,2)] assms(3)
  by (cases op) (auto simp: set_completed_timeline_def set_fixed_cache_def reset_stats_def
      set_path_b_first_slab_def set_evict_path_def intro: keeps_same_slots keeps_refl)

section \<open>Where the slots are\<close>

definition place :: "expert_slot \<Rightarrow> nat \<times> u16 \<times> u64 \<times> u64" where
  "place s = (es_slot s, es_slab s, es_host_ptr s, es_dev_addr s)"

text \<open>No operation moves a slot or changes the geometry.\<close>

definition same_frame :: "store \<Rightarrow> store \<Rightarrow> bool" where
  "same_frame st st' \<longleftrightarrow> map place (st_slots st') = map place (st_slots st) \<and> st_pool st' = st_pool st
     \<and> st_layers st' = st_layers st \<and> st_experts_per_layer st' = st_experts_per_layer st"

lemma same_frame_refl [simp]: "same_frame st st"
  by (simp add: same_frame_def)

lemma same_frame_trans: "same_frame a b \<Longrightarrow> same_frame b c \<Longrightarrow> same_frame a c"
  by (simp add: same_frame_def)

lemma map_place_upd: "place s' = place (xs ! j) \<Longrightarrow> map place (xs[j := s']) = map place xs"
  by (cases "j < length xs") (simp_all add: map_update list_update_same_conv list_update_beyond)

lemma same_frame_upd_slot: "same_frame a b \<Longrightarrow> (\<And>s. place (f s) = place s) \<Longrightarrow> same_frame a (upd_slot j f b)"
  by (simp add: same_frame_def map_place_upd)

lemma same_frame_upd_stats: "same_frame a b \<Longrightarrow> same_frame a (upd_stats g b)"
  by (simp add: same_frame_def)

lemmas same_frame_intros = same_frame_upd_slot same_frame_upd_stats

lemma same_frame_reserve: "same_frame st (snd (reserve_locked k t st))"
  by (simp add: reserve_locked_def Let_def same_frame_def map_place_upd place_def)

lemma same_frame_fills:
  "same_frame st (snd (begin_fill k e t st))" "same_frame st (snd (begin_fill_synthetic k t st))"
  using same_frame_reserve [of st k t]
  by (auto simp: begin_fill_def begin_fill_synthetic_def Let_def place_def split: prod.splits sum.splits
      intro!: same_frame_intros)

lemma same_frame_settle: "same_frame a st \<Longrightarrow> same_frame a (settle_locked i ok t st)"
  by (simp add: settle_locked_def release_locked_def publish_locked_def Let_def same_frame_def map_place_upd place_def)

lemma same_frame_finishes:
  "same_frame st (snd (finish_run i ok t st))" "same_frame st (snd (finish_fill i ok t st))"
  by (simp_all add: finish_run_def finish_fill_def Let_def same_frame_settle same_frame_intros place_def)

lemma same_frame_recycle: "same_frame st (recycle i st)"
  by (simp add: recycle_def release_locked_def unpublish_locked_def Let_def same_frame_def map_place_upd place_def)

lemma same_frame_evictions:
  "same_frame st (snd (evict i st))" "same_frame st (snd (evict_key k st))" "same_frame st (snd (evict_lru st))"
  by (simp_all add: evict_def evict_key_def evict_lru_def Let_def same_frame_recycle same_frame_intros split: option.splits)

lemma same_frame_metadata:
  "same_frame st (snd (lookup k t g st))" "same_frame st (snd (guarded_snapshot g st))"
  "same_frame st (snd (set_guard i g st))" "same_frame st (note_heat k x a st)" "same_frame st (decay_heat x st)"
  "same_frame st (snd (pin k st))" "same_frame st (snd (touch k t b st))"
        apply (simp add: lookup_def Let_def same_frame_intros place_def split: option.splits)
       apply (simp add: guarded_snapshot_def same_frame_def place_def)
      apply (simp add: set_guard_def same_frame_intros place_def)
     apply (simp add: note_heat_def same_frame_intros place_def split: option.splits)
    apply (simp add: decay_heat_def Let_def same_frame_def place_def)
   apply (simp add: pin_def same_frame_intros place_def split: option.splits)
  apply (simp add: touch_def Let_def same_frame_intros place_def split: option.splits)
  done

lemma run_op_frame: "same_frame st (run_op op st)"
  by (cases op) (simp_all add: same_frame_fills same_frame_finishes same_frame_evictions same_frame_metadata,
      simp_all add: set_completed_timeline_def set_fixed_cache_def reset_stats_def
        set_path_b_first_slab_def set_evict_path_def same_frame_def)

lemma steps_frame: "store_steps st ops st' \<Longrightarrow> same_frame st st'"
proof (induction rule: store_steps.induct)
  case (steps_step st ops st' op)
  show ?case by (rule same_frame_trans [OF steps_step.IH run_op_frame])
qed simp

lemma store_steps_append:
  "store_steps b ops2 c \<Longrightarrow> store_steps a ops1 b \<Longrightarrow> store_steps a (ops1 @ ops2) c"
proof (induction arbitrary: ops1 rule: store_steps.induct)
  case (steps_step st ops st' op)
  then show ?case by (metis append_assoc store_steps.steps_step)
qed simp

section \<open>A concrete store\<close>

text \<open>Two slots in one host slab, one layer of two experts, and expert 1 read into slot 0.\<close>

definition demo_backing :: backing where
  "demo_backing given b =
     Inr \<lparr>host_ptr = 65536 + of_nat (length given) * b, device_address = 0, mem_bytes = b\<rparr>"

definition demo_cache :: cache_config where
  "demo_cache = \<lparr>cc_slots_per_slab = 2, cc_budget_bytes = 37617664\<rparr>"

definition demo_store :: store where
  "demo_store = snd (store_init demo_backing demo_cache 1 2 empty_store)"

definition demo_key :: expert_key where "demo_key = ExpertKey 0 1"

definition demo_filling :: store where
  "demo_filling = run_op (OpBeginSynthetic demo_key Cached) demo_store"

definition demo_resident :: store where
  "demo_resident = run_op (OpFinishFill 0 True 5) demo_filling"

definition demo_slot :: "nat \<Rightarrow> u64 \<Rightarrow> expert_slot" where
  "demo_slot i a = default_slot\<lparr>es_slot := i, es_host_ptr := a\<rparr>"

lemma demo_pool:
  "pool_init demo_backing \<lparr>slots_per_slab = 2, slot_bytes = kExpertSlotBytes, budget_bytes = 37617664\<rparr> empty_pool
   = (Inr (), \<lparr>sp_cfg = \<lparr>slots_per_slab = 2, slot_bytes = 18808832, budget_bytes = 37617664\<rparr>,
       sp_slabs = [\<lparr>host_ptr = 65536, device_address = 0, mem_bytes = 37617664\<rparr>],
       sp_slab_bytes = 37617664, sp_slot_count = 2\<rparr>)"
  by (simp add: pool_init_def kExpertSlotBytes_def is_aligned_def kPageSize_def Let_def pool_reset_def
      empty_pool_def demo_backing_def)

lemma two_facts: "[0..<2] = [0, 1::nat]" "replicate 2 x = [x, x]"
  by (simp_all add: upt_rec numeral_2_eq_2)

lemma two_not_le_one: "\<not> (2::u32) \<le> 1"
  by (simp add: word_le_nat_alt)

lemma demo_store_facts:
  "st_slots demo_store = [demo_slot 0 65536, demo_slot 1 18874368]"
  "st_free_list demo_store = [1, 0]" "st_index demo_store = Map.empty"
  "st_layers demo_store = 1" "st_experts_per_layer demo_store = 2" "st_completed demo_store = 0"
  "\<not> st_cache_frozen demo_store" "\<not> st_fixed_cache demo_store"
  "st_table demo_store = replicate (2 * kExpertParts) 0"
  "sp_cfg (st_pool demo_store) = \<lparr>slots_per_slab = 2, slot_bytes = 18808832, budget_bytes = 37617664\<rparr>"
  "st_evict_path demo_store = PathOff"
  by (simp_all add: demo_store_def store_init_def demo_cache_def empty_store_def demo_pool two_facts two_not_le_one
      pool_address_def decompose_def Let_def zero_stats_def default_slot_def demo_slot_def)

lemma demo_filling_facts:
  "st_slots demo_filling = [(demo_slot 0 65536)\<lparr>es_key := demo_key, es_state := Filling, es_runs_total := 1,
      es_part_offset := running_offsets 0 planar_bytes, es_part_bytes := planar_bytes\<rparr>, demo_slot 1 18874368]"
  "st_free_list demo_filling = [1]" "st_index demo_filling = [demo_key \<mapsto> 0]"
  "st_layers demo_filling = 1" "st_experts_per_layer demo_filling = 2" "st_completed demo_filling = 0"
  "st_evict_path demo_filling = PathOff"
  by (simp_all add: demo_filling_def demo_store_facts begin_fill_synthetic_def reserve_locked_def Let_def
      key_in_range_def demo_key_def demo_slot_def default_slot_def)

lemma demo_resident_facts:
  "st_slots demo_resident = [(demo_slot 0 65536)\<lparr>es_key := demo_key, es_state := Resident, es_runs_total := 1,
      es_runs_done := 1, es_last_use_token := 5,
      es_part_offset := running_offsets 0 planar_bytes, es_part_bytes := planar_bytes\<rparr>, demo_slot 1 18874368]"
  "st_free_list demo_resident = [1]" "st_index demo_resident = [demo_key \<mapsto> 0]"
  "st_layers demo_resident = 1" "st_experts_per_layer demo_resident = 2" "st_completed demo_resident = 0"
  "st_evict_path demo_resident = PathOff"
  by (simp_all add: demo_resident_def finish_fill_def demo_filling_facts settle_locked_def publish_locked_def
      Let_def demo_slot_def default_slot_def)

lemma demo_reachable: "reachable demo_store" "reachable demo_filling" "reachable demo_resident"
proof -
  show a: "reachable demo_store"
    unfolding demo_store_def by (rule reach_init [OF reach_empty]) (rule prod.collapse [symmetric])
  show b: "reachable demo_filling" unfolding demo_filling_def by (rule reach_op [OF a]) simp
  show "reachable demo_resident" unfolding demo_resident_def by (rule reach_op [OF b]) simp
qed

section \<open>Properties\<close>

lemma reachable_store_inv: "reachable st \<Longrightarrow> store_inv st"
  by (induction rule: reachable.induct) (auto intro: empty_store_inv store_init_inv store_reset_inv run_op_inv)

lemma steps_inv: "store_steps st ops st' \<Longrightarrow> store_inv st \<Longrightarrow> store_inv st'"
  by (induction rule: store_steps.induct) (auto intro: run_op_inv)

lemma steps_reachable: "store_steps st ops st' \<Longrightarrow> reachable st \<Longrightarrow> reachable st'"
  by (induction rule: store_steps.induct) (auto intro: reach_op)

lemma fill_completed [simp]:
  "st_completed (snd (begin_fill k e ti st)) = st_completed st"
  "st_completed (snd (begin_fill_synthetic k ti st)) = st_completed st"
  by (cases rule: reserve_locked_cases [of k ti st];
      simp add: begin_fill_def begin_fill_synthetic_def Let_def)+

lemma completed_same [simp]:
  "st_completed (snd (lookup k t g st)) = st_completed st"
  "st_completed (snd (finish_run i ok t st)) = st_completed st"
  "st_completed (snd (finish_fill i ok t st)) = st_completed st"
  "st_completed (recycle i st) = st_completed st"
     apply (simp add: lookup_def Let_def split: option.splits)
    apply (simp add: finish_run_def Let_def)
   apply (simp add: finish_fill_def Let_def)
  apply (simp add: recycle_def release_locked_def unpublish_locked_def Let_def)
  done

lemma eviction_completed [simp]:
  "st_completed (snd (evict i st)) = st_completed st"
  "st_completed (snd (evict_key k st)) = st_completed st"
  "st_completed (snd (evict_lru st)) = st_completed st"
  by (simp_all add: evict_def evict_key_def evict_lru_def Let_def split: option.splits)

lemma metadata_completed [simp]:
  "st_completed (snd (guarded_snapshot g st)) = st_completed st"
  "st_completed (snd (set_guard i g st)) = st_completed st"
  "st_completed (note_heat k x a st) = st_completed st"
  "st_completed (decay_heat x st) = st_completed st"
  "st_completed (snd (pin k st)) = st_completed st"
  "st_completed (snd (touch k t b st)) = st_completed st"
  by (simp_all add: guarded_snapshot_def set_guard_def note_heat_def decay_heat_def pin_def touch_def Let_def
      split: option.splits)

lemma run_op_completed: "st_completed st \<le> st_completed (run_op op st)"
proof (cases "\<exists>v. op = OpSetCompleted v")
  case True
  then show ?thesis by (auto simp: set_completed_timeline_def)
next
  case False
  then have "st_completed (run_op op st) = st_completed st"
    by (cases op) (simp_all add: set_fixed_cache_def reset_stats_def
        set_path_b_first_slab_def set_evict_path_def)
  then show ?thesis by simp
qed

lemma steps_completed: "store_steps st ops st' \<Longrightarrow> st_completed st \<le> st_completed st'"
proof (induction rule: store_steps.induct)
  case (steps_step st ops st' op)
  show ?case by (rule order_trans [OF steps_step.IH run_op_completed])
qed simp

text \<open>
  A resident slot survives every sequence of steps throughout which it is protected, by a guard
  above the final completed value or by its tier.
\<close>

lemma steps_keep:
  assumes "store_steps st ops st'" "store_inv st" "i < length (st_slots st)"
    "es_state (st_slots st ! i) = Resident"
    and "es_guard_timeline (st_slots st ! i) > st_completed st' \<or> es_tier (st_slots st ! i) = Pinned"
  shows "keeps i st st'"
  using assms
proof (induction rule: store_steps.induct)
  case (steps_refl st)
  then show ?case by (simp add: keeps_refl)
next
  case (steps_step st ops st' op)
  have "st_completed st' \<le> st_completed (run_op op st')" by (rule run_op_completed)
  then have k: "keeps i st st'" using steps_step by fastforce
  then have "protected st' i"
    using steps_step.prems(4) run_op_completed [of st' op] by (auto simp: keeps_def protected_def)
  moreover have "store_inv st'" using steps_step.hyps(1) steps_step.prems(1) by (rule steps_inv)
  moreover have "i < length (st_slots st')" "es_state (st_slots st' ! i) = Resident"
    using k steps_step.prems(2) by (simp_all add: keeps_def)
  ultimately have "keeps i st' (run_op op st')" by (intro run_op_keeps)
  with k show ?case by (rule keeps_trans)
qed

text \<open>
  C3. In every store that init, reset and any interleaving of the operations can produce, the
  index and the slots name each other, the free list holds exactly the Free slots, the pointer
  table shows exactly the Resident ones, the four state counters are exact, a fill in progress
  still waits for a run, and the cache is frozen just when it is fixed and full.
\<close>

theorem store_invariant: "reachable st \<Longrightarrow> store_inv st"
  by (rule reachable_store_inv)

theorem store_invariant_witness: "reachable demo_resident \<and> store_inv demo_resident"
  using store_invariant [OF demo_reachable(3)] demo_reachable(3) by simp

lemma resident_slot:
  assumes "store_inv st" "resident st k"
  obtains i where "st_index st k = Some i" "i < length (st_slots st)" "es_state (st_slots st ! i) = Resident"
    "es_key (st_slots st ! i) = k" "key_in_range st k"
  using assms index_okD [OF store_inv_dests(1) [OF assms(1)]]
  by (auto simp: resident_def state_of_def)

lemma table_value:
  assumes "store_inv st" "key_in_range st k" "p < kExpertParts"
  shows "st_table st ! table_index st k p = row_value st k p"
  using store_inv_dests(3) [OF assms(1)] assms(2,3) by (simp add: table_ok_def)

lemma row_value_slot:
  "row_value st k p = (case slot_for st k of
     Some s \<Rightarrow> if es_state s = Resident then part_address s p else 0 | None \<Rightarrow> 0)"
  by (simp add: row_value_def slot_for_def split: option.splits)

lemma pointer_table_exact_parts:
  assumes "reachable st" and "key_in_range st k"
  shows "table_entry st k p = Inr (case slot_for st k of
           Some s \<Rightarrow> if es_state s = Resident then part_address s (part_ord p) else 0 | None \<Rightarrow> 0)"
    and "table_row st k = (case slot_for st k of
           Some s \<Rightarrow> if es_state s = Resident then Inr (map (part_address s) [0..<kExpertParts])
                      else Inl FailedPrecondition
         | None \<Rightarrow> Inl FailedPrecondition)"
proof -
  note inv = reachable_store_inv [OF assms(1)]
  show "table_entry st k p = Inr (case slot_for st k of
           Some s \<Rightarrow> if es_state s = Resident then part_address s (part_ord p) else 0 | None \<Rightarrow> 0)"
    using table_value [OF inv assms(2) part_ord_less] assms(2)
    by (simp add: table_entry_def row_value_slot)
  have "map (\<lambda>p. st_table st ! table_index st k p) [0..<kExpertParts] = map (row_value st k) [0..<kExpertParts]"
    using table_value [OF inv assms(2)] by simp
  then show "table_row st k = (case slot_for st k of
           Some s \<Rightarrow> if es_state s = Resident then Inr (map (part_address s) [0..<kExpertParts])
                      else Inl FailedPrecondition
         | None \<Rightarrow> Inl FailedPrecondition)"
    using assms(2)
    by (auto simp: table_row_def resident_def state_of_def slot_for_def row_value_def split: option.splits)
qed

text \<open>
  C2. The pointer table the kernels read is exact: the entry of a part is the slot's base plus
  the part's offset while the expert is resident, and the null address otherwise (absent, or
  still filling), and \<^verbatim>\<open>table_row\<close> returns the six entries of a resident expert and refuses any
  other.
\<close>

theorem pointer_table_exact:
  assumes "reachable st" and "key_in_range st k"
  shows "(table_entry st k p = Inr (case slot_for st k of
           Some s \<Rightarrow> if es_state s = Resident then part_address s (part_ord p) else 0 | None \<Rightarrow> 0))
   \<and> (table_row st k = (case slot_for st k of
           Some s \<Rightarrow> if es_state s = Resident then Inr (map (part_address s) [0..<kExpertParts])
                      else Inl FailedPrecondition
         | None \<Rightarrow> Inl FailedPrecondition))"
  by (intro pointer_table_exact_parts [OF assms] conjI)

theorem pointer_table_exact_witness:
  "table_entry demo_resident demo_key W1Scale = Inr (65536 + 5898240)
   \<and> table_entry demo_filling demo_key W1Scale = Inr 0"
proof -
  have r: "key_in_range demo_resident demo_key" "key_in_range demo_filling demo_key"
    by (simp_all add: key_in_range_def demo_resident_facts demo_filling_facts demo_key_def)
  show ?thesis
    using pointer_table_exact [OF demo_reachable(3) r(1), of W1Scale]
      pointer_table_exact [OF demo_reachable(2) r(2), of W1Scale]
    by (simp add: slot_for_def demo_resident_facts demo_filling_facts part_address_def slot_base_def demo_slot_def
        default_slot_def planar_bytes_def kExpertParts_def kExpertWeightBytesPerMat_def upt_rec)
qed

lemma snapshot_stays_valid_parts:
  assumes "reachable st" and snap: "guarded_snapshot g st = (Inr tab, st1)"
    and "store_steps st1 ops st2" and "st_completed st2 < g"
    and k: "key_in_range st k" and p: "p < kExpertParts"
    and "tab ! table_index st k p \<noteq> 0"
  shows "resident st2 k" and "slot_of st2 k = slot_of st k"
    and "st_table st2 ! table_index st k p = tab ! table_index st k p"
proof -
  note inv = reachable_store_inv [OF assms(1)]
  have st1: "st1 = snd (guarded_snapshot g st)" and tab: "tab = st_table st"
    using snap by (auto simp: guarded_snapshot_def split: if_splits)
  have inv1: "store_inv st1" unfolding st1 by (rule store_inv_same_shape [OF inv snapshot_same_shape])
  have inv2: "store_inv st2" by (rule steps_inv [OF assms(3) inv1])
  from assms(7) obtain i where ix: "st_index st k = Some i" and res: "es_state (st_slots st ! i) = Resident"
    by (auto simp: tab table_value [OF inv k p] row_value_def split: option.splits if_splits)
  note i = index_okD [OF store_inv_dests(1) [OF inv] ix]
  have slot1: "st_slots st1 ! i = (st_slots st ! i)\<lparr>es_guard_timeline := max (es_guard_timeline (st_slots st ! i)) g\<rparr>"
    and len1: "length (st_slots st1) = length (st_slots st)"
    using snap i(1) res by (auto simp: guarded_snapshot_def split: if_splits)
  have keep: "keeps i st1 st2"
    by (rule steps_keep [OF assms(3) inv1]) (use i(1) res assms(4) in \<open>simp_all add: slot1 len1 less_max_iff_disj\<close>)
  then have s2: "es_state (st_slots st2 ! i) = Resident" "es_key (st_slots st2 ! i) = k" "i < length (st_slots st2)"
    "part_address (st_slots st2 ! i) p = part_address (st_slots st ! i) p"
    using i slot1 len1 by (simp_all add: keeps_def part_address_def slot_base_def)
  have ix2: "st_index st2 k = Some i"
    using index_ok_held [OF store_inv_dests(1) [OF inv2] s2(3)] s2(1,2) by simp
  then show "resident st2 k" "slot_of st2 k = slot_of st k"
    using s2(1) ix by (simp_all add: resident_def state_of_def slot_of_def)
  have k2: "key_in_range st2 k" using index_okD(4) [OF store_inv_dests(1) [OF inv2] ix2] .
  have "st_experts_per_layer st2 = st_experts_per_layer st"
    using steps_frame [OF assms(3)] st1 snapshot_same_shape [of st g] by (simp add: same_frame_def same_shape_def)
  then have "table_index st k p = table_index st2 k p" by (simp add: table_index_def)
  then show "st_table st2 ! table_index st k p = tab ! table_index st k p"
    using table_value [OF inv2 k2 p] table_value [OF inv k p] s2(1,4) res
    by (simp add: tab row_value_def ix ix2)
qed

text \<open>
  C1. The eviction guard of the GPU timeline: once \<^verbatim>\<open>guarded_snapshot\<close> has handed out a copy of
  the pointer table for a submission that signals \<open>g\<close>, then whatever operations follow in
  whatever order, as long as the completed timeline stays below \<open>g\<close> every address of the
  snapshot still is that expert's address: the expert is resident, in the same slot, and the
  live table shows the same entry.
\<close>

theorem snapshot_stays_valid:
  assumes "reachable st" and snap: "guarded_snapshot g st = (Inr tab, st1)"
    and "store_steps st1 ops st2" and "st_completed st2 < g"
    and k: "key_in_range st k" and p: "p < kExpertParts"
    and "tab ! table_index st k p \<noteq> 0"
  shows "(resident st2 k)
   \<and> (slot_of st2 k = slot_of st k)
   \<and> (st_table st2 ! table_index st k p = tab ! table_index st k p)"
  by (intro snapshot_stays_valid_parts [OF assms] conjI)

lemma demo_in_range: "key_in_range demo_resident demo_key" "key_in_range demo_filling demo_key"
  by (simp_all add: key_in_range_def demo_resident_facts demo_filling_facts demo_key_def)

lemma demo_table: "st_table demo_resident ! table_index demo_resident demo_key 1 = 65536 + 5898240"
  by (simp add: table_value [OF reachable_store_inv [OF demo_reachable(3)] demo_in_range(1)] kExpertParts_def
      row_value_def demo_resident_facts part_address_def slot_base_def demo_slot_def default_slot_def
      planar_bytes_def kExpertWeightBytesPerMat_def upt_rec)

theorem snapshot_stays_valid_witness:
  "resident (run_op OpEvictLru (snd (guarded_snapshot 3 demo_resident))) demo_key"
proof -
  let ?st1 = "snd (guarded_snapshot 3 demo_resident)"
  have snap: "guarded_snapshot 3 demo_resident = (Inr (st_table demo_resident), ?st1)"
    by (simp add: guarded_snapshot_def demo_resident_facts)
  have "store_steps ?st1 ([] @ [OpEvictLru]) (run_op OpEvictLru ?st1)"
    by (intro steps_step steps_refl) simp
  then show ?thesis
    by (rule snapshot_stays_valid [OF demo_reachable(3) snap _ _ demo_in_range(1), where p = 1, THEN conjunct1])
      (simp_all add: demo_resident_facts(6) demo_table [unfolded One_nat_def] kExpertParts_def)
qed

text \<open>
  C8. A pinned resident expert is never evicted: after any sequence of operations it is still
  resident, in the same slot, and still pinned.
\<close>

theorem pinned_experts_stay:
  assumes "reachable st" "resident st k" "slot_for st k = Some s" "es_tier s = Pinned"
    and "store_steps st ops st'"
  shows "resident st' k \<and> slot_of st' k = slot_of st k \<and> (\<exists>s'. slot_for st' k = Some s' \<and> es_tier s' = Pinned)"
proof -
  note inv = reachable_store_inv [OF assms(1)]
  obtain i where i: "st_index st k = Some i" "i < length (st_slots st)" "es_state (st_slots st ! i) = Resident"
    "es_key (st_slots st ! i) = k" by (rule resident_slot [OF inv assms(2)])
  have pin: "es_tier (st_slots st ! i) = Pinned" using assms(3,4) i(1) by (simp add: slot_for_def)
  then have keep: "keeps i st st'" by (intro steps_keep [OF assms(5) inv i(2,3)]) simp
  then have "st_index st' k = Some i"
    using index_ok_held [OF store_inv_dests(1) [OF steps_inv [OF assms(5) inv]], of i] i by (simp add: keeps_def)
  then show ?thesis using keep pin i(1) by (simp add: resident_def state_of_def slot_of_def slot_for_def keeps_def)
qed

theorem pinned_experts_stay_witness:
  "resident (run_op (OpEvict 0) (run_op (OpPin demo_key) demo_resident)) demo_key"
proof -
  let ?st = "run_op (OpPin demo_key) demo_resident"
  have r: "reachable ?st" by (rule reach_op [OF demo_reachable(3)]) simp
  have res: "resident ?st demo_key"
    by (simp add: resident_def state_of_def pin_def demo_resident_facts demo_slot_def default_slot_def)
  have "store_steps ?st ([] @ [OpEvict 0]) (run_op (OpEvict 0) ?st)" by (intro steps_step steps_refl) simp
  then show ?thesis
    using pinned_experts_stay [OF r res, of "st_slots ?st ! 0" "[] @ [OpEvict 0]"]
    by (simp add: slot_for_def pin_def demo_resident_facts demo_slot_def default_slot_def)
qed

section \<open>The frozen cache\<close>

definition frozen_same :: "store \<Rightarrow> store \<Rightarrow> bool" where
  "frozen_same st st' \<longleftrightarrow>
     map es_key (st_slots st') = map es_key (st_slots st) \<and> map es_state (st_slots st') = map es_state (st_slots st)
     \<and> st_index st' = st_index st \<and> st_table st' = st_table st \<and> st_free_list st' = st_free_list st
     \<and> st_cache_frozen st' = st_cache_frozen st"

lemma frozen_same_refl [simp]: "frozen_same st st"
  by (simp add: frozen_same_def)

lemma frozen_same_shape: "same_shape st st' \<Longrightarrow> frozen_same st st'"
  by (auto simp: frozen_same_def same_shape_def same_core_def intro!: nth_equalityI)

lemma frozen_refuses:
  assumes inv: "store_inv st" and fz: "st_cache_frozen st"
  shows "reserve_locked k t st = (Inl ResourceExhausted, st)"
    "snd (evict i st) = st" "snd (evict_key k st) = st" "snd (evict_lru st) = st"
    "snd (finish_run i ok tok st) = st" "snd (finish_fill i ok tok st) = st"
proof -
  have fx: "st_fixed_cache st" and all: "\<And>i. i < length (st_slots st) \<Longrightarrow> es_state (st_slots st ! i) \<noteq> Filling"
    using store_inv_dests(6) [OF inv] fz by (auto simp: frozen_ok_def)
  show "reserve_locked k t st = (Inl ResourceExhausted, st)" using fz by (simp add: reserve_locked_def)
  show "snd (evict i st) = st" "snd (evict_key k st) = st" "snd (evict_lru st) = st"
    using fx by (simp_all add: evict_def evict_key_def evict_lru_def split: option.splits)
  show "snd (finish_run i ok tok st) = st" "snd (finish_fill i ok tok st) = st"
    using all [of i] by (simp_all add: finish_run_def finish_fill_def)
qed

lemma frozen_pin: "frozen_same st (snd (pin k st))"
proof (cases "st_index st k")
  case (Some i)
  then show ?thesis
    by (cases "i < length (st_slots st)") (simp_all add: pin_def frozen_same_def map_update list_update_same_conv list_update_beyond)
qed (simp add: pin_def)

text \<open>Switching the mode on again finds every slot Resident.\<close>

lemma frozen_set_fixed:
  assumes "store_inv st" "st_cache_frozen st"
  shows "frozen_same st (set_fixed_cache True st)"
proof -
  have "store_steps st ([] @ [OpSetFixed True]) (run_op (OpSetFixed True) st)" by (intro steps_step steps_refl) simp
  then have "store_inv (set_fixed_cache True st)" using steps_inv assms(1) by fastforce
  then have "st_cache_frozen (set_fixed_cache True st) \<longleftrightarrow> st_slots st \<noteq> [] \<and> (\<forall>s \<in> set (st_slots st). es_state s = Resident)"
    using store_inv_dests(6) [of "set_fixed_cache True st"] by (simp add: frozen_ok_def set_fixed_cache_def)
  moreover have "st_slots st \<noteq> [] \<and> (\<forall>s \<in> set (st_slots st). es_state s = Resident)"
    using store_inv_dests(6) [OF assms(1)] assms(2) by (simp add: frozen_ok_def)
  ultimately show ?thesis using assms(2) by (simp add: frozen_same_def set_fixed_cache_def)
qed

lemma frozen_step:
  assumes "store_inv st" "st_cache_frozen st" "op \<noteq> OpSetFixed False"
  shows "frozen_same st (run_op op st)"
proof (cases op)
  case (OpSetFixed b)
  then show ?thesis using frozen_set_fixed [OF assms(1,2)] assms(3) by (cases b) simp_all
qed (use frozen_refuses [OF assms(1,2)] in \<open>simp_all add: frozen_same_shape same_shape_ops frozen_pin begin_fill_def
  begin_fill_synthetic_def reset_stats_def frozen_same_def [of st "st\<lparr>st_stats := x\<rparr>" for x]\<close>)

lemma frozen_steps:
  assumes "store_steps st ops st'" "store_inv st" "st_cache_frozen st" "OpSetFixed False \<notin> set ops"
  shows "frozen_same st st'"
  using assms
proof (induction rule: store_steps.induct)
  case (steps_step st ops st' op)
  then have a: "frozen_same st st'" by simp
  have "frozen_same st' (run_op op st')"
    using steps_inv [OF steps_step.hyps(1) steps_step.prems(1)] a steps_step.prems(2,3)
    by (intro frozen_step) (auto simp: frozen_same_def)
  with a show ?case by (simp add: frozen_same_def)
qed simp

lemma frozen_cache_immutable_parts:
  assumes "reachable st" "st_cache_frozen st" "store_steps st ops st'" "OpSetFixed False \<notin> set ops"
  shows "map es_key (st_slots st') = map es_key (st_slots st)" "map es_state (st_slots st') = map es_state (st_slots st)"
    "st_index st' = st_index st" "st_table st' = st_table st" "st_cache_frozen st'"
  using frozen_steps [OF assms(3) reachable_store_inv [OF assms(1)] assms(2,4)] assms(2)
  by (simp_all add: frozen_same_def)

text \<open>
  C9. Once the fixed cache is full it is immutable: every sequence of operations that does not switch
  the mode off leaves the key and state of every slot, the key index and the pointer table as they
  were, and the cache stays frozen. (A pin still changes the tier of its slot.)
\<close>

theorem frozen_cache_immutable:
  assumes "reachable st" "st_cache_frozen st" "store_steps st ops st'" "OpSetFixed False \<notin> set ops"
  shows "(map es_key (st_slots st') = map es_key (st_slots st))
   \<and> (map es_state (st_slots st') = map es_state (st_slots st))
   \<and> (st_index st' = st_index st)
   \<and> (st_table st' = st_table st)
   \<and> (st_cache_frozen st')"
  by (intro frozen_cache_immutable_parts [OF assms] conjI)

definition demo_full :: store where
  "demo_full = run_op (OpSetFixed True) (run_op (OpFinishFill 1 True 6)
     (run_op (OpBeginSynthetic (ExpertKey 0 0) Cached) demo_resident))"

lemma demo_resident_unfrozen: "\<not> st_cache_frozen demo_resident" "\<not> st_fixed_cache demo_resident"
  using reachable_store_inv [OF demo_reachable(3)]
  by (simp_all add: store_inv_def frozen_ok_def demo_resident_facts demo_slot_def default_slot_def)
    (simp add: demo_resident_def demo_filling_def finish_fill_def begin_fill_synthetic_def reserve_locked_def
      demo_store_facts Let_def)

lemma demo_full_facts: "reachable demo_full" "st_cache_frozen demo_full"
proof -
  show r: "reachable demo_full" unfolding demo_full_def by (intro reach_op demo_reachable) simp_all
  have "st_fixed_cache demo_full" "\<forall>s \<in> set (st_slots demo_full). es_state s = Resident" "st_slots demo_full \<noteq> []"
    by (simp_all add: demo_full_def set_fixed_cache_def finish_fill_def begin_fill_synthetic_def reserve_locked_def
        settle_locked_def publish_locked_def demo_resident_facts demo_resident_unfrozen Let_def key_in_range_def
        demo_slot_def default_slot_def demo_key_def)
  then show "st_cache_frozen demo_full"
    using store_inv_dests(6) [OF reachable_store_inv [OF r]] by (simp add: frozen_ok_def)
qed

theorem frozen_cache_immutable_witness:
  "st_table (run_op OpEvictLru demo_full) = st_table demo_full \<and> st_cache_frozen (run_op OpEvictLru demo_full)"
proof -
  have "store_steps demo_full ([] @ [OpEvictLru]) (run_op OpEvictLru demo_full)" by (intro steps_step steps_refl) simp
  note f = frozen_cache_immutable [OF demo_full_facts this]
  show ?thesis using f by simp
qed

section \<open>Fills\<close>

text \<open>The completions of the runs of one fill, in the order in which they arrive.\<close>

fun finish_runs :: "nat \<Rightarrow> bool list \<Rightarrow> nat \<Rightarrow> store \<Rightarrow> bool result list \<times> store" where
  "finish_runs i [] t st = ([], st)"
| "finish_runs i (ok # oks) t st =
     (let (r, st) = finish_run i ok t st; (rs, st) = finish_runs i oks t st in (r # rs, st))"

lemma finish_runs_Cons:
  "fst (finish_runs i (ok # oks) t st) = fst (finish_run i ok t st) # fst (finish_runs i oks t (snd (finish_run i ok t st)))"
  "snd (finish_runs i (ok # oks) t st) = snd (finish_runs i oks t (snd (finish_run i ok t st)))"
  by (simp_all split: prod.splits)

lemma settle_ok_state:
  assumes "i < length (st_slots st)"
  shows "es_state (st_slots (settle_locked i True t st) ! i) = Resident"
    "es_key (st_slots (settle_locked i True t st) ! i) = es_key (st_slots st ! i)"
    "st_index (settle_locked i True t st) = st_index st"
  using assms by (simp_all add: settle_locked_def publish_locked_def Let_def)

lemma settle_failed_state:
  assumes "i < length (st_slots st)"
  shows "es_state (st_slots (settle_locked i False t st) ! i) = Free"
    "st_index (settle_locked i False t st) = (st_index st)(es_key (st_slots st ! i) := None)"
  using assms by (simp_all add: settle_locked_def release_locked_def Let_def)

lemma finish_run_more:
  assumes "i < length (st_slots st)" "es_state (st_slots st ! i) = Filling"
    "es_runs_done (st_slots st ! i) + 1 < es_runs_total (st_slots st ! i)"
  shows "fst (finish_run i ok t st) = Inr False"
    "st_slots (snd (finish_run i ok t st)) ! i = (st_slots st ! i)\<lparr>es_runs_done := es_runs_done (st_slots st ! i) + 1,
       es_run_failed := es_run_failed (st_slots st ! i) \<or> \<not> ok\<rparr>"
    "length (st_slots (snd (finish_run i ok t st))) = length (st_slots st)"
    "st_index (snd (finish_run i ok t st)) = st_index st"
  using assms by (simp_all add: finish_run_def Let_def)

lemma finish_run_last:
  assumes "i < length (st_slots st)" "es_state (st_slots st ! i) = Filling"
    "es_runs_done (st_slots st ! i) + 1 = es_runs_total (st_slots st ! i)"
    and good_def: "good \<longleftrightarrow> ok \<and> \<not> es_run_failed (st_slots st ! i)"
  shows "fst (finish_run i ok t st) = Inr True"
    "es_state (st_slots (snd (finish_run i ok t st)) ! i) = (if good then Resident else Free)"
    "st_index (snd (finish_run i ok t st)) =
       (if good then st_index st else (st_index st)(es_key (st_slots st ! i) := None))"
proof -
  show "fst (finish_run i ok t st) = Inr True" using assms(1-3) by (simp add: finish_run_def Let_def)
  show "es_state (st_slots (snd (finish_run i ok t st)) ! i) = (if good then Resident else Free)"
    "st_index (snd (finish_run i ok t st)) =
       (if good then st_index st else (st_index st)(es_key (st_slots st ! i) := None))"
    using assms(1-3)
    by (cases good; auto simp: good_def finish_run_def Let_def settle_ok_state settle_failed_state)+
qed

lemma finish_runs_settle:
  assumes "i < length (st_slots st)" "es_state (st_slots st ! i) = Filling" "oks \<noteq> []"
    "es_runs_done (st_slots st ! i) + length oks = es_runs_total (st_slots st ! i)"
  defines "good \<equiv> (\<forall>ok \<in> set oks. ok) \<and> \<not> es_run_failed (st_slots st ! i)"
  shows "fst (finish_runs i oks t st) = replicate (length oks - 1) (Inr False) @ [Inr True]
     \<and> es_state (st_slots (snd (finish_runs i oks t st)) ! i) = (if good then Resident else Free)
     \<and> st_index (snd (finish_runs i oks t st)) =
         (if good then st_index st else (st_index st)(es_key (st_slots st ! i) := None))"
  using assms(1-4) unfolding good_def
proof (induction oks arbitrary: st)
  case (Cons ok oks)
  show ?case
  proof (cases "oks = []")
    case True
    then have "es_runs_done (st_slots st ! i) + 1 = es_runs_total (st_slots st ! i)" using Cons.prems(4) by simp
    note l = finish_run_last [OF Cons.prems(1,2) this refl, of ok t]
    show ?thesis unfolding finish_runs_Cons True using l by simp
  next
    case False
    then have "0 < length oks" by simp
    then have "es_runs_done (st_slots st ! i) + 1 < es_runs_total (st_slots st ! i)"
      using Cons.prems(4) unfolding list.size by linarith
    note m = finish_run_more [OF Cons.prems(1,2) this, of ok t]
    have "Suc (length oks - 1) = length oks" using \<open>0 < length oks\<close> by simp
    then have rep: "Inr False # replicate (length oks - 1) (Inr False :: bool result) = replicate (length oks) (Inr False)"
      by (metis replicate_Suc)
    define st1 where "st1 = snd (finish_run i ok t st)"
    note m = m [folded st1_def]
    have ih: "fst (finish_runs i oks t st1) = replicate (length oks - 1) (Inr False) @ [Inr True]
     \<and> es_state (st_slots (snd (finish_runs i oks t st1)) ! i)
         = (if (\<forall>ok \<in> set oks. ok) \<and> \<not> es_run_failed (st_slots st1 ! i) then Resident else Free)
     \<and> st_index (snd (finish_runs i oks t st1)) =
         (if (\<forall>ok \<in> set oks. ok) \<and> \<not> es_run_failed (st_slots st1 ! i) then st_index st1
          else (st_index st1)(es_key (st_slots st1 ! i) := None))"
      by (rule Cons.IH) (use False Cons.prems m in simp_all)
    have same: "((\<forall>ok \<in> set (ok # oks). ok) \<and> \<not> es_run_failed (st_slots st ! i))
        = ((\<forall>ok \<in> set oks. ok) \<and> \<not> es_run_failed (st_slots st1 ! i))"
      using m(2) by auto
    define G where "G \<longleftrightarrow> (\<forall>ok \<in> set oks. ok) \<and> \<not> es_run_failed (st_slots st1 ! i)"
    have key: "es_key (st_slots st1 ! i) = es_key (st_slots st ! i)" using m(2) by simp
    show ?thesis
      unfolding finish_runs_Cons same st1_def [symmetric] m(1) G_def [symmetric]
      using ih [folded G_def] m(4) rep key by simp
  qed
qed simp

lemma fill_settles_on_last_run_parts:
  assumes "reachable st" "i < length (st_slots st)" "es_state (st_slots st ! i) = Filling"
    "length oks = es_runs_total (st_slots st ! i) - es_runs_done (st_slots st ! i)"
    "k = es_key (st_slots st ! i)"
  shows "fst (finish_runs i oks t st) = replicate (length oks - 1) (Inr False) @ [Inr True]"
    "(\<forall>ok \<in> set oks. ok) \<and> \<not> es_run_failed (st_slots st ! i) \<longrightarrow> resident (snd (finish_runs i oks t st)) k"
    "\<not> ((\<forall>ok \<in> set oks. ok) \<and> \<not> es_run_failed (st_slots st ! i)) \<longrightarrow>
       slot_of (snd (finish_runs i oks t st)) k = None
       \<and> es_state (st_slots (snd (finish_runs i oks t st)) ! i) = Free"
proof -
  note inv = store_inv_dests [OF reachable_store_inv [OF assms(1)]]
  have less: "es_runs_done (st_slots st ! i) < es_runs_total (st_slots st ! i)"
    using slot_okD [OF inv(5) assms(2)] assms(3) by (simp add: slot_ok_def)
  have ix: "st_index st k = Some i" using index_ok_held [OF inv(1) assms(2)] assms(3,5) by simp
  have ne: "oks \<noteq> []" using less assms(4) by auto
  have "es_runs_done (st_slots st ! i) + length oks = es_runs_total (st_slots st ! i)" using less assms(4) by simp
  note f = finish_runs_settle [OF assms(2,3) ne this, of t]
  show "fst (finish_runs i oks t st) = replicate (length oks - 1) (Inr False) @ [Inr True]" using f by simp
  show "(\<forall>ok \<in> set oks. ok) \<and> \<not> es_run_failed (st_slots st ! i) \<longrightarrow> resident (snd (finish_runs i oks t st)) k"
    using f ix by (simp add: resident_def state_of_def)
  show "\<not> ((\<forall>ok \<in> set oks. ok) \<and> \<not> es_run_failed (st_slots st ! i)) \<longrightarrow>
       slot_of (snd (finish_runs i oks t st)) k = None
       \<and> es_state (st_slots (snd (finish_runs i oks t st)) ! i) = Free"
    using f assms(5) by (auto simp: slot_of_def)
qed

text \<open>
  C10. A fill settles exactly when its last outstanding run reports, and one failed run poisons
  it: the completions return false up to the last and then true, the slot ends Resident under its
  key when every run succeeded, and otherwise it is Free again and the key is absent.
\<close>

theorem fill_settles_on_last_run:
  assumes "reachable st" "i < length (st_slots st)" "es_state (st_slots st ! i) = Filling"
    "length oks = es_runs_total (st_slots st ! i) - es_runs_done (st_slots st ! i)"
    "k = es_key (st_slots st ! i)"
  shows "(fst (finish_runs i oks t st) = replicate (length oks - 1) (Inr False) @ [Inr True])
   \<and> ((\<forall>ok \<in> set oks. ok) \<and> \<not> es_run_failed (st_slots st ! i) \<longrightarrow> resident (snd (finish_runs i oks t st)) k)
   \<and> (\<not> ((\<forall>ok \<in> set oks. ok) \<and> \<not> es_run_failed (st_slots st ! i)) \<longrightarrow>
       slot_of (snd (finish_runs i oks t st)) k = None
       \<and> es_state (st_slots (snd (finish_runs i oks t st)) ! i) = Free)"
  by (intro fill_settles_on_last_run_parts [OF assms] conjI)

theorem fill_settles_on_last_run_witness:
  "fst (finish_runs 0 [False] 4 demo_filling) = [Inr True]
   \<and> slot_of (snd (finish_runs 0 [False] 4 demo_filling)) demo_key = None"
proof -
  have s: "es_state (st_slots demo_filling ! 0) = Filling" "es_key (st_slots demo_filling ! 0) = demo_key"
    "es_runs_total (st_slots demo_filling ! 0) = 1" "es_runs_done (st_slots demo_filling ! 0) = 0"
    "0 < length (st_slots demo_filling)"
    by (simp_all add: demo_filling_facts demo_slot_def default_slot_def)
  note f = fill_settles_on_last_run [OF demo_reachable(2) s(5,1), of "[False]" demo_key 4]
  show ?thesis using f s by simp
qed

end
