(* ===== verification/Expert_Store_Spec.thy ===== *)
theory Expert_Store_Spec
  imports Expert_Store_Props
begin

text \<open>
  The contract of the expert store as an abstract machine, a finite map from keys to a phase and
  a tier with six kinds of step, and the simulation that shows every operation of the store
  implements it. Then the LRU victim, and where a fill's reads land.
\<close>

section \<open>The abstract cache\<close>

type_synonym abs_cache = "expert_key \<rightharpoonup> slot_state \<times> tier"

inductive abs_step :: "nat \<Rightarrow> abs_cache \<Rightarrow> abs_cache \<Rightarrow> bool" for n :: nat where
  abs_stutter: "abs_step n A A"
| abs_admit: "A k = None \<Longrightarrow> card (dom A) < n \<Longrightarrow> abs_step n A (A(k \<mapsto> (Filling, t)))"
| abs_publish: "A k = Some (Filling, t) \<Longrightarrow> abs_step n A (A(k \<mapsto> (Resident, t)))"
| abs_abort: "A k = Some (Filling, t) \<Longrightarrow> abs_step n A (A(k := None))"
| abs_evict: "A k = Some (Resident, t) \<Longrightarrow> t \<noteq> Pinned \<Longrightarrow> abs_step n A (A(k := None))"
| abs_pin: "A k = Some (Resident, t) \<Longrightarrow> abs_step n A (A(k \<mapsto> (Resident, Pinned)))"

definition phase :: "expert_slot \<Rightarrow> slot_state \<times> tier" where
  "phase s = (es_state s, es_tier s)"

definition abs_store :: "store \<Rightarrow> abs_cache" where
  "abs_store st k = map_option (\<lambda>i. phase (st_slots st ! i)) (st_index st k)"

lemma abs_store_same_shape:
  assumes "store_inv st" "same_shape st st'"
  shows "abs_store st' = abs_store st"
proof
  fix k show "abs_store st' k = abs_store st k"
  proof (cases "st_index st k")
    case (Some i)
    then have "i < length (st_slots st)" using index_okD(1) [OF store_inv_dests(1) [OF assms(1)]] by blast
    then show ?thesis using assms(2) Some by (simp add: abs_store_def same_shape_def same_core_def phase_def)
  qed (use assms(2) in \<open>simp add: abs_store_def same_shape_def\<close>)
qed

text \<open>One slot changes and with it one key.\<close>

lemma abs_store_upd:
  assumes "st_slots st' = (st_slots st)[i := s']" "i < length (st_slots st)"
    and only: "\<And>k'. st_index st k' = Some i \<Longrightarrow> k' = k"
    and ix: "\<And>k'. k' \<noteq> k \<Longrightarrow> st_index st' k' = st_index st k'"
  shows "st_index st' k = Some i \<Longrightarrow> abs_store st' = (abs_store st)(k \<mapsto> phase s')"
    and "st_index st' k = None \<Longrightarrow> abs_store st' = (abs_store st)(k := None)"
proof -
  have other: "abs_store st' k' = abs_store st k'" if "k' \<noteq> k" for k'
  proof (cases "st_index st k'")
    case (Some j)
    then have "j \<noteq> i" using only that by auto
    with Some that show ?thesis by (simp add: abs_store_def ix assms(1))
  qed (use that in \<open>simp add: abs_store_def ix\<close>)
  show "st_index st' k = Some i \<Longrightarrow> abs_store st' = (abs_store st)(k \<mapsto> phase s')"
    using other assms(1,2) by (intro ext) (simp add: abs_store_def)
  show "st_index st' k = None \<Longrightarrow> abs_store st' = (abs_store st)(k := None)"
    using other by (intro ext) (simp add: abs_store_def)
qed

lemma abs_store_fill:
  assumes inv: "store_inv st" and fl: "st_free_list st \<noteq> []" and k: "st_index st k = None"
    and st': "st_slots st' = (st_slots st)[last (st_free_list st) := s']"
      "st_index st' = (st_index st)(k \<mapsto> last (st_free_list st))" "es_state s' = Filling"
  shows "abs_step (length (st_slots st)) (abs_store st) (abs_store st')"
proof -
  note d = store_inv_dests [OF inv]
  note last = free_ok_last [OF d(2) fl]
  have no: "st_index st k' \<noteq> Some (last (st_free_list st))" for k'
    using index_okD(3) [OF d(1)] last(2) by blast
  have "abs_store st' = (abs_store st)(k \<mapsto> phase s')"
    by (rule abs_store_upd(1) [OF st'(1) last(1)]) (use no in \<open>simp_all add: st'(2)\<close>)
  moreover have "phase s' = (Filling, es_tier s')" by (simp add: phase_def st'(3))
  moreover have "abs_store st k = None" by (simp add: abs_store_def k)
  moreover have "card (dom (abs_store st)) < length (st_slots st)"
  proof -
    have dom: "dom (abs_store st) = dom (st_index st)" by (auto simp: abs_store_def dom_def)
    have inj: "inj_on (\<lambda>k. the (st_index st k)) (dom (st_index st))"
      by (rule inj_onI) (metis d(1) domD index_okD(2) option.sel)
    have sub: "(\<lambda>k. the (st_index st k)) ` dom (st_index st) \<subseteq> {..<length (st_slots st)} - {last (st_free_list st)}"
      using index_okD(1) [OF d(1)] no by force
    have "card (dom (st_index st)) \<le> card ({..<length (st_slots st)} - {last (st_free_list st)})"
      by (rule card_inj_on_le [OF inj sub]) simp
    also have "\<dots> < length (st_slots st)" using last(1) by simp
    finally show ?thesis by (simp add: dom)
  qed
  ultimately show ?thesis by (metis abs_admit)
qed

lemma begin_fill_simulates:
  assumes inv: "store_inv st"
  shows "abs_step (length (st_slots st)) (abs_store st) (abs_store (snd (begin_fill k e t st)))"
    and "abs_step (length (st_slots st)) (abs_store st) (abs_store (snd (begin_fill_synthetic k t st)))"
proof -
  have "abs_step (length (st_slots st)) (abs_store st) (abs_store (snd (begin_fill k e t st)))
    \<and> abs_step (length (st_slots st)) (abs_store st) (abs_store (snd (begin_fill_synthetic k t st)))"
  proof (cases rule: reserve_locked_cases [of k t st])
    case (refused err)
    then show ?thesis by (simp add: begin_fill_def begin_fill_synthetic_def abs_stutter)
  next
    case (taken r st')
    have filled: "abs_step (length (st_slots st)) (abs_store st) (abs_store st'')"
      if "st_slots st'' = (st_slots st')[last (st_free_list st) := f (st_slots st' ! last (st_free_list st))]"
        "st_index st'' = st_index st'" "\<And>s. es_state (f s) = es_state s" for f st''
    proof (rule abs_store_fill [OF inv taken(5,4)])
      let ?s = "st_slots st' ! last (st_free_list st)"
      show "st_slots st'' = (st_slots st)[last (st_free_list st) := f ?s]" by (simp add: that(1) taken(7))
      show "st_index st'' = (st_index st)(k \<mapsto> last (st_free_list st))" by (simp add: that(2) taken(8))
      have "es_state ?s = Filling" using free_ok_last(1) [OF store_inv_dests(2) [OF inv] taken(5)] by (simp add: taken(7))
      then show "es_state (f ?s) = Filling" using that(3) [of ?s] by simp
    qed
    show ?thesis
      using taken(1,6) by (auto simp: begin_fill_def begin_fill_synthetic_def Let_def intro: abs_stutter filled)
  qed
  then show "abs_step (length (st_slots st)) (abs_store st) (abs_store (snd (begin_fill k e t st)))"
    and "abs_step (length (st_slots st)) (abs_store st) (abs_store (snd (begin_fill_synthetic k t st)))" by simp_all
qed

lemma only_key:
  "store_inv st \<Longrightarrow> st_index st k' = Some i \<Longrightarrow> k' = es_key (st_slots st ! i)"
  using index_okD(2) [OF store_inv_dests(1)] by blast

lemma settle_simulates:
  assumes inv: "store_inv st" and i: "i < length (st_slots st)" "es_state (st_slots st ! i) = Filling"
    and st1: "st_slots st1 = (st_slots st)[i := s1]" "st_index st1 = st_index st"
      "es_key s1 = es_key (st_slots st ! i)" "es_tier s1 = es_tier (st_slots st ! i)"
  shows "abs_step n (abs_store st) (abs_store (settle_locked i ok t st1))"
proof -
  define k where "k = es_key (st_slots st ! i)"
  have ix: "st_index st k = Some i"
    unfolding k_def by (rule index_ok_held [OF store_inv_dests(1) [OF inv] i(1)]) (simp add: i(2))
  have A: "abs_store st k = Some (Filling, es_tier (st_slots st ! i))"
    by (simp add: abs_store_def ix phase_def i(2))
  have only: "\<And>k'. st_index st k' = Some i \<Longrightarrow> k' = k" using only_key [OF inv] by (simp add: k_def)
  show ?thesis
  proof (cases ok)
    case True
    let ?s = "s1\<lparr>es_state := Resident, es_last_use_token := max (es_last_use_token s1) t\<rparr>"
    have "abs_store (settle_locked i ok t st1) = (abs_store st)(k \<mapsto> phase ?s)"
      by (rule abs_store_upd(1) [OF _ i(1) only])
        (use True i(1) st1 ix in \<open>simp_all add: settle_locked_def publish_locked_def Let_def\<close>)
    then show ?thesis using abs_publish [of "abs_store st" k, OF A] by (simp add: phase_def st1(4))
  next
    case False
    obtain s' where s': "st_slots (settle_locked i ok t st1) = (st_slots st)[i := s']"
      using settle_locked_slots [of i ok t st1] st1(1) by auto
    have "abs_store (settle_locked i ok t st1) = (abs_store st)(k := None)"
      by (rule abs_store_upd(2) [OF s' i(1) only])
        (use False i(1) st1 in \<open>simp_all add: settle_locked_def release_locked_def Let_def k_def\<close>)
    then show ?thesis using abs_abort [of "abs_store st" k, OF A] by simp
  qed
qed

lemma finish_simulates:
  assumes inv: "store_inv st"
  shows "abs_step n (abs_store st) (abs_store (snd (finish_run i ok t st)))"
    and "abs_step n (abs_store st) (abs_store (snd (finish_fill i ok t st)))"
proof -
  let ?s1 = "(st_slots st ! i)\<lparr>es_runs_done := es_runs_done (st_slots st ! i) + 1,
     es_run_failed := es_run_failed (st_slots st ! i) \<or> \<not> ok\<rparr>"
  show "abs_step n (abs_store st) (abs_store (snd (finish_run i ok t st)))"
  proof (cases "i < length (st_slots st) \<and> es_state (st_slots st ! i) = Filling
      \<and> es_runs_done (st_slots st ! i) + 1 = es_runs_total (st_slots st ! i)")
    case True
    then have i: "i < length (st_slots st)" "es_state (st_slots st ! i) = Filling" by simp_all
    show ?thesis
      using True by (auto simp: finish_run_def Let_def intro!: settle_simulates [OF inv i, where ?s1.0 = ?s1])
  next
    case False
    then have "abs_store (snd (finish_run i ok t st)) = abs_store st"
      by (auto simp: finish_run_def Let_def abs_store_def phase_def nth_list_update map_option_case
          intro!: ext split: option.splits)
    then show ?thesis by (simp add: abs_stutter)
  qed
  show "abs_step n (abs_store st) (abs_store (snd (finish_fill i ok t st)))"
  proof (cases "i < length (st_slots st) \<and> es_state (st_slots st ! i) = Filling")
    case True
    then have i: "i < length (st_slots st)" "es_state (st_slots st ! i) = Filling" by simp_all
    show ?thesis
      using i by (auto simp: finish_fill_def Let_def intro!: settle_simulates [OF inv i,
          where ?s1.0 = "(st_slots st ! i)\<lparr>es_runs_done := es_runs_total (st_slots st ! i)\<rparr>"])
  qed (auto simp: finish_fill_def abs_stutter)
qed

lemma recycle_simulates:
  assumes inv: "store_inv st" and i: "i < length (st_slots st)" "live (st_slots st ! i)"
  shows "abs_step n (abs_store st) (abs_store (recycle i st))"
proof -
  define k where "k = es_key (st_slots st ! i)"
  have res: "es_state (st_slots st ! i) = Resident" "es_tier (st_slots st ! i) \<noteq> Pinned"
    using i(2) by (simp_all add: live_def)
  have ix: "st_index st k = Some i"
    unfolding k_def by (rule index_ok_held [OF store_inv_dests(1) [OF inv] i(1)]) (simp add: res)
  obtain s' where s': "st_slots (recycle i st) = (st_slots st)[i := s']" using recycle_slots by blast
  have "abs_store (recycle i st) = (abs_store st)(k := None)"
    by (rule abs_store_upd(2) [OF s' i(1)])
      (use only_key [OF inv] in \<open>auto simp: recycle_def release_locked_def unpublish_locked_def Let_def k_def\<close>)
  moreover have "abs_store st k = Some (Resident, es_tier (st_slots st ! i))"
    by (simp add: abs_store_def ix phase_def res)
  ultimately show ?thesis using abs_evict [OF _ res(2)] by metis
qed

lemma evictions_simulate:
  assumes inv: "store_inv st"
  shows "abs_step n (abs_store st) (abs_store (snd (evict i st)))"
    "abs_step n (abs_store st) (abs_store (snd (evict_key k st)))"
    "abs_step n (abs_store st) (abs_store (snd (evict_lru st)))"
proof -
  have blocked: "abs_store (upd_stats g st) = abs_store st" for g by (simp add: abs_store_def fun_eq_iff)
  show e: "abs_step n (abs_store st) (abs_store (snd (evict i st)))" for i
    by (auto simp: evict_def Let_def live_def blocked intro!: abs_stutter recycle_simulates [OF inv])
  show "abs_step n (abs_store st) (abs_store (snd (evict_key k st)))"
    by (simp add: evict_key_def e abs_stutter split: option.splits)
  show "abs_step n (abs_store st) (abs_store (snd (evict_lru st)))"
    using lru_victim_evictable [of st]
    by (auto simp: evict_lru_def is_evictable_def split: option.splits intro!: abs_stutter recycle_simulates [OF inv])
qed

lemma pin_simulates:
  assumes inv: "store_inv st"
  shows "abs_step n (abs_store st) (abs_store (snd (pin k st)))"
proof (cases "st_index st k")
  case (Some i)
  note i = index_okD [OF store_inv_dests(1) [OF inv] Some]
  show ?thesis
  proof (cases "es_state (st_slots st ! i) = Resident \<and> es_tier (st_slots st ! i) \<noteq> Pinned")
    case True
    have "abs_store (snd (pin k st)) = (abs_store st)(k \<mapsto> phase ((st_slots st ! i)\<lparr>es_tier := Pinned\<rparr>))"
      by (rule abs_store_upd(1) [OF _ i(1)]) (use True Some i only_key [OF inv] in \<open>auto simp: pin_def\<close>)
    moreover have "abs_store st k = Some (Resident, es_tier (st_slots st ! i))"
      using True by (simp add: abs_store_def Some phase_def)
    ultimately show ?thesis using abs_pin True by (simp add: phase_def)
  qed (use Some in \<open>auto simp: pin_def abs_stutter\<close>)
qed (simp add: pin_def abs_stutter)

lemma quiet_ops_abs:
  "abs_store (set_fixed_cache b st) = abs_store st" "abs_store (reset_stats st) = abs_store st"
  by (simp_all add: fun_eq_iff abs_store_def set_fixed_cache_def reset_stats_def)

lemma run_op_simulates:
  assumes inv: "store_inv st"
  shows "abs_step (length (st_slots st)) (abs_store st) (abs_store (run_op op st))"
proof -
  have quiet: "abs_step n (abs_store st) (abs_store st')" if "same_shape st st'" for n st'
    by (simp add: abs_store_same_shape [OF inv that] abs_stutter)
  show ?thesis
    by (cases op) (simp_all add: begin_fill_simulates [OF inv] finish_simulates [OF inv] evictions_simulate [OF inv]
        pin_simulates [OF inv] quiet same_shape_ops quiet_ops_abs abs_stutter)
qed

text \<open>
  C4. The store implements the abstract cache: the map from keys to phase and tier that a store
  represents moves, under every operation, by one abstract step (admit into spare capacity,
  publish, abort, evict an unpinned resident expert, pin) or not at all.
\<close>

theorem store_refines_cache:
  assumes "reachable st"
  shows "abs_step (length (st_slots st)) (abs_store st) (abs_store (run_op op st))"
  by (rule run_op_simulates [OF reachable_store_inv [OF assms]])

theorem store_refines_cache_witness:
  "abs_step 2 (abs_store demo_filling) (abs_store demo_resident)"
proof -
  have "length (st_slots demo_filling) = 2" by (simp add: demo_filling_facts)
  then show ?thesis
    using store_refines_cache [OF demo_reachable(2), of "OpFinishFill 0 True 5"] by (metis demo_resident_def)
qed

section \<open>The LRU victim\<close>

definition preferred :: "store \<Rightarrow> bool option" where
  "preferred st =
     (case st_evict_path st of
        PathOff \<Rightarrow> None
      | PreferA \<Rightarrow> if \<exists>s \<in> set (st_slots st). scan_admits st (Some False) s then Some False else None
      | PreferB \<Rightarrow> if \<exists>s \<in> set (st_slots st). scan_admits st (Some True) s then Some True else None)"

lemma lru_victim_preferred: "lru_victim st = lru_scan st (preferred st)"
  using lru_scan_None [of st "Some False"] lru_scan_None [of st "Some True"]
  by (auto simp: lru_victim_def Let_def preferred_def split: evict_path.splits option.splits)

lemma lru_victim_None: "lru_victim st = None \<longleftrightarrow> (\<forall>s \<in> set (st_slots st). \<not> is_evictable st s)"
  unfolding lru_victim_preferred lru_scan_None
  by (auto simp: preferred_def scan_admits_def split: evict_path.splits if_splits)

lemma evict_lru_picks_oldest_parts:
  assumes "\<not> st_fixed_cache st"
  shows "(\<forall>s \<in> set (st_slots st). \<not> is_evictable st s) \<longrightarrow> evict_lru st = (Inl NotFound, st)"
    and "(\<exists>s \<in> set (st_slots st). is_evictable st s) \<longrightarrow>
       (\<exists>i. evict_lru st = (Inr i, recycle i st) \<and> is_oldest st (preferred st) (length (st_slots st)) i)"
proof -
  show "(\<forall>s \<in> set (st_slots st). \<not> is_evictable st s) \<longrightarrow> evict_lru st = (Inl NotFound, st)"
    using assms lru_victim_None [of st] by (auto simp: evict_lru_def)
  show "(\<exists>s \<in> set (st_slots st). is_evictable st s) \<longrightarrow>
       (\<exists>i. evict_lru st = (Inr i, recycle i st) \<and> is_oldest st (preferred st) (length (st_slots st)) i)"
  proof
    assume "\<exists>s \<in> set (st_slots st). is_evictable st s"
    then obtain i where "lru_victim st = Some i" using lru_victim_None [of st] by fastforce
    then show "\<exists>i. evict_lru st = (Inr i, recycle i st) \<and> is_oldest st (preferred st) (length (st_slots st)) i"
      using assms lru_scan_Some [of st "preferred st" i] by (simp add: evict_lru_def lru_victim_preferred)
  qed
qed

text \<open>
  \<^verbatim>\<open>evict_lru\<close> fails only when no slot at all is evictable, whatever memory path is preferred,
  and then changes nothing; otherwise it recycles the slot with the oldest stamp, the lowest
  index among equals, of the preferred path when that path has an evictable slot and of both
  paths when it has none.
\<close>

theorem evict_lru_picks_oldest:
  assumes "\<not> st_fixed_cache st"
  shows "((\<forall>s \<in> set (st_slots st). \<not> is_evictable st s) \<longrightarrow> evict_lru st = (Inl NotFound, st))
   \<and> ((\<exists>s \<in> set (st_slots st). is_evictable st s) \<longrightarrow>
       (\<exists>i. evict_lru st = (Inr i, recycle i st) \<and> is_oldest st (preferred st) (length (st_slots st)) i))"
  by (intro evict_lru_picks_oldest_parts [OF assms] conjI)

theorem evict_lru_picks_oldest_witness:
  "\<exists>i. evict_lru demo_resident = (Inr i, recycle i demo_resident)"
proof -
  have "is_evictable demo_resident (st_slots demo_resident ! 0)" "0 < length (st_slots demo_resident)"
    by (simp_all add: is_evictable_def live_def demo_resident_facts demo_slot_def default_slot_def)
  then have "\<exists>s \<in> set (st_slots demo_resident). is_evictable demo_resident s" by (meson nth_mem)
  then show ?thesis using evict_lru_picks_oldest [OF demo_resident_unfrozen(2)] by blast
qed

section \<open>Where a fill's reads land\<close>

text \<open>After a successful init, and after any operations, slot \<open>i\<close> sits at the pool's address \<open>i\<close>.\<close>

lemma slots_at_pool_addresses:
  assumes init: "store_init alloc cache l x st0 = (Inr (), st1)" and steps: "store_steps st1 ops st"
    and i: "i < length (st_slots st)"
  shows "pool_ok (st_pool st)" "st_pool st = st_pool st1" "sp_cfg (st_pool st) =
      \<lparr>slots_per_slab = cc_slots_per_slab cache, slot_bytes = kExpertSlotBytes, budget_bytes = cc_budget_bytes cache\<rparr>"
    "length (st_slots st) = unat (sp_slot_count (st_pool st))"
    "pool_address (st_pool st) (of_nat i) = Inr (slot_addr (st_slots st ! i))"
proof -
  obtain p slots where r: "pool_init alloc \<lparr>slots_per_slab = cc_slots_per_slab cache, slot_bytes = kExpertSlotBytes,
                  budget_bytes = cc_budget_bytes cache\<rparr> (st_pool st0) = (Inr (), p)"
      "length slots = unat (sp_slot_count p)" "\<forall>i < length slots. fresh_slot p i (slots ! i)"
      "st_pool st1 = p" "st_slots st1 = slots"
    by (rule store_init_cases [of alloc cache l x st0]) (use init in auto)
  have frame: "map place (st_slots st) = map place slots" "st_pool st = p"
    using steps_frame [OF steps] r(4,5) by (simp_all add: same_frame_def)
  have len: "length (st_slots st) = length slots" using frame(1) by (metis length_map)
  then have "place (st_slots st ! i) = place (slots ! i)" using frame(1) i by (metis nth_map)
  then have "slot_addr (st_slots st ! i) = slot_addr (slots ! i)" by (simp add: place_def slot_addr_def)
  then show "pool_address (st_pool st) (of_nat i) = Inr (slot_addr (st_slots st ! i))"
    using r(3) i len frame(2) by (simp add: fresh_slot_def)
  show "pool_ok (st_pool st)" "sp_cfg (st_pool st) =
      \<lparr>slots_per_slab = cc_slots_per_slab cache, slot_bytes = kExpertSlotBytes, budget_bytes = cc_budget_bytes cache\<rparr>"
    using pool_init_ok [OF r(1)] frame(2) by simp_all
  show "st_pool st = st_pool st1" "length (st_slots st) = unat (sp_slot_count (st_pool st))"
    using frame(2) len r(2,4) by simp_all
qed

lemma pool_host_address:
  assumes "pool_ok p" "pool_fits p" "slabs_disjoint host_ptr p" "i < unat (sp_slot_count p)"
    "pool_address p (of_nat i) = Inr a"
  shows "(of_nat i :: u32) < sp_slot_count p"
    "sa_host_ptr a = host_ptr (sp_slabs p ! unat (fst (decompose p (of_nat i))))
        + ucast (snd (decompose p (of_nat i))) * slot_bytes (sp_cfg p)"
    "unat (sa_host_ptr a) + unat (slot_bytes (sp_cfg p)) < 2 ^ 64" "sa_host_ptr a \<noteq> 0"
proof -
  have "i < 2 ^ LENGTH(32)" using assms(4) unsigned_less [of "sp_slot_count p"] by (rule less_trans)
  then have u: "unat (of_nat i :: u32) = i" by (metis of_nat_inverse)
  then show lt: "(of_nat i :: u32) < sp_slot_count p" using assms(4) by (simp add: word_less_nat_alt)
  note d = decompose_nat [OF assms(1,2) lt] and o = slot_offset_nat [OF assms(1,2) lt assms(3)]
  have slab: "host_ptr (sp_slabs p ! unat (fst (decompose p (of_nat i)))) \<noteq> 0"
    "unat (host_ptr (sp_slabs p ! unat (fst (decompose p (of_nat i))))) + unat (sp_slab_bytes p) < 2 ^ 64"
    using assms(3) d(1,3) by (simp_all add: slabs_disjoint_def)
  then show eq: "sa_host_ptr a = host_ptr (sp_slabs p ! unat (fst (decompose p (of_nat i))))
        + ucast (snd (decompose p (of_nat i))) * slot_bytes (sp_cfg p)"
    using assms(5) lt by (auto simp: pool_address_def Let_def not_le split: prod.splits if_splits)
  have n: "unat (sa_host_ptr a) = unat (host_ptr (sp_slabs p ! unat (fst (decompose p (of_nat i)))))
      + unat (of_nat i :: u32) mod unat (slots_per_slab (sp_cfg p)) * unat (slot_bytes (sp_cfg p))"
    using o(1) unfolding eq d(1) by simp
  show le: "unat (sa_host_ptr a) + unat (slot_bytes (sp_cfg p)) < 2 ^ 64" using n slab(2) o(2) by linarith
  show "sa_host_ptr a \<noteq> 0" using n slab(1) by (metis add_is_0 unat_eq_zero)
qed

lemma fill_run_of_cong: "slot_addr s = slot_addr s' \<Longrightarrow> fill_run_of s = fill_run_of s'"
  by (simp add: fun_eq_iff fill_run_of_def slot_addr_def)

lemma begin_fill_runs:
  assumes "store_inv st" "begin_fill k e t st = (Inr r, st')"
  shows "rv_slot r < length (st_slots st)" "rv_addr r = slot_addr (st_slots st ! rv_slot r)"
    "rv_runs r = map (fill_run_of (st_slots st ! rv_slot r)) (ee_runs e)"
    "rv_run_count r = length (ee_runs e)"
proof -
  obtain r0 st0 where res: "reserve_locked k t st = (Inr r0, st0)"
    and r: "r = r0\<lparr>rv_run_count := length (ee_runs e),
       rv_runs := map (fill_run_of ((st_slots st0)[rv_slot r0 := (st_slots st0 ! rv_slot r0)\<lparr>es_runs_total := length (ee_runs e),
           es_part_offset := ee_part_offset e, es_part_bytes := ee_part_bytes e\<rparr>] ! rv_slot r0)) (ee_runs e)\<rparr>"
    using assms(2) by (auto simp: begin_fill_def Let_def split: if_splits prod.splits sum.splits)
  from res have fl: "st_free_list st \<noteq> []" and slot: "rv_slot r0 = last (st_free_list st)"
    and addr: "rv_addr r0 = slot_addr (st_slots st0 ! last (st_free_list st))"
    and s0: "place (st_slots st0 ! last (st_free_list st)) = place (st_slots st ! last (st_free_list st))"
      "length (st_slots st0) = length (st_slots st)"
    using free_ok_last(1) [OF store_inv_dests(2) [OF assms(1)]]
    by (auto simp: reserve_locked_def Let_def place_def split: if_splits)
  note last = free_ok_last(1) [OF store_inv_dests(2) [OF assms(1)] fl]
  show "rv_slot r < length (st_slots st)" "rv_addr r = slot_addr (st_slots st ! rv_slot r)"
    using last slot addr s0 r by (simp_all add: place_def slot_addr_def)
  show "rv_run_count r = length (ee_runs e)" by (simp add: r)
  let ?s = "(st_slots st0 ! rv_slot r0)\<lparr>es_runs_total := length (ee_runs e),
           es_part_offset := ee_part_offset e, es_part_bytes := ee_part_bytes e\<rparr>"
  have "fill_run_of ?s = fill_run_of (st_slots st ! rv_slot r0)"
    using slot s0(1) by (intro fill_run_of_cong) (simp add: place_def slot_addr_def)
  then show "rv_runs r = map (fill_run_of (st_slots st ! rv_slot r)) (ee_runs e)"
    using last slot s0(2) by (simp add: r)
qed

text \<open>The slots of a store in service are disjoint host ranges that do not wrap.\<close>

lemma store_slots_disjoint:
  assumes init: "store_init alloc cache l x st0 = (Inr (), st1)" and steps: "store_steps st1 ops st"
    and pool: "pool_fits (st_pool st1)" "slabs_disjoint host_ptr (st_pool st1)" and i: "i < length (st_slots st)"
  shows "unat (es_host_ptr (st_slots st ! i)) + unat kExpertSlotBytes < 2 ^ 64" "es_host_ptr (st_slots st ! i) \<noteq> 0"
    "j < length (st_slots st) \<Longrightarrow> j \<noteq> i \<Longrightarrow>
       range_disjoint (es_host_ptr (st_slots st ! i)) (es_host_ptr (st_slots st ! j)) kExpertSlotBytes"
proof -
  note at = slots_at_pool_addresses [OF init steps]
  have fits: "pool_fits (st_pool st)" "slabs_disjoint host_ptr (st_pool st)" using pool at(2) [OF i] by simp_all
  have sb: "slot_bytes (sp_cfg (st_pool st)) = kExpertSlotBytes" using at(3) [OF i] by simp
  have n: "i < unat (sp_slot_count (st_pool st))" if "i < length (st_slots st)" for i using that at(4) [OF that] by simp
  note h = pool_host_address [OF at(1) [OF i] fits n at(5), unfolded sb]
  show "unat (es_host_ptr (st_slots st ! i)) + unat kExpertSlotBytes < 2 ^ 64" "es_host_ptr (st_slots st ! i) \<noteq> 0"
    using h(3,4) [OF i i] by (simp_all add: slot_addr_def)
  assume j: "j < length (st_slots st)" "j \<noteq> i"
  have word: "unat (of_nat c :: u32) = c" if "c < length (st_slots st)" for c
    using less_trans [OF n [OF that] unsigned_less] by (metis of_nat_inverse)
  have "(of_nat i :: u32) \<noteq> of_nat j" using word [OF i] word [OF j(1)] j(2) by metis
  from slots_disjoint_gen [OF at(1) [OF i] fits h(1) [OF i i] h(1) [OF j(1) j(1)] this]
  show "range_disjoint (es_host_ptr (st_slots st ! i)) (es_host_ptr (st_slots st ! j)) kExpertSlotBytes"
    using h(2) [OF i i] h(2) [OF j(1) j(1)] by (simp add: slot_addr_def sb)
qed

text \<open>A validated expert's runs, placed from a base that leaves room for a slot.\<close>

lemma fill_run_placement:
  assumes m: "validate m = Inr ()" "manifest_expert m k = Some e" "run_bytes (ee_runs e) < 2 ^ 64"
    and base: "es_host_ptr s \<noteq> 0" "unat (es_host_ptr s) + unat kExpertSlotBytes < 2 ^ 64"
    and a: "a < length (ee_runs e)"
  shows "unat (fr_dst (fill_run_of s (ee_runs e ! a))) = unat (es_host_ptr s) + run_bytes (take a (ee_runs e))"
    "unat (fr_dst (fill_run_of s (ee_runs e ! a))) + unat (fr_bytes (fill_run_of s (ee_runs e ! a)))
       = unat (es_host_ptr s) + run_bytes (take (Suc a) (ee_runs e))"
    "run_bytes (ee_runs e) \<le> unat kExpertSlotBytes"
proof -
  note tile = validated_runs_tile [OF m]
  show slot: "run_bytes (ee_runs e) \<le> unat kExpertSlotBytes" using tile(3,4) by (simp add: word_le_nat_alt)
  have off: "unat (run_slot_offset (ee_runs e ! a)) = run_bytes (take a (ee_runs e))" by (rule tile(5) [OF a])
  have "run_bytes (take a (ee_runs e)) \<le> run_bytes (ee_runs e)" by (rule run_bytes_take_le)
  then have "unat (es_host_ptr s) + unat (run_slot_offset (ee_runs e ! a)) < 2 ^ LENGTH(64)"
    using off slot base(2) by simp
  then have "unat (es_host_ptr s + run_slot_offset (ee_runs e ! a))
      = unat (es_host_ptr s) + unat (run_slot_offset (ee_runs e ! a))"
    by (rule unat_add_lem [THEN iffD1])
  then show d: "unat (fr_dst (fill_run_of s (ee_runs e ! a))) = unat (es_host_ptr s) + run_bytes (take a (ee_runs e))"
    using base(1) off by (simp add: fill_run_of_def)
  show "unat (fr_dst (fill_run_of s (ee_runs e ! a))) + unat (fr_bytes (fill_run_of s (ee_runs e ! a)))
       = unat (es_host_ptr s) + run_bytes (take (Suc a) (ee_runs e))"
    unfolding d using run_bytes_take_Suc [OF a] by (simp add: fill_run_of_def)
qed

lemma fill_runs_stay_in_slot_parts:
  assumes "reachable st0" and init: "store_init alloc cache l x st0 = (Inr (), st1)" and steps: "store_steps st1 ops st"
    and m: "validate m = Inr ()" "manifest_expert m k = Some e" "run_bytes (ee_runs e) < 2 ^ 64"
    and fill: "begin_fill k e t st = (Inr r, st')"
    and pool: "pool_fits (st_pool st1)" "slabs_disjoint host_ptr (st_pool st1)"
  shows "length (rv_runs r) = length (ee_runs e)"
    and "a < length (rv_runs r) \<Longrightarrow>
       unat (fr_dst (rv_runs r ! a)) = unat (sa_host_ptr (rv_addr r)) + run_bytes (take a (ee_runs e))
       \<and> unat (fr_dst (rv_runs r ! a)) + unat (fr_bytes (rv_runs r ! a))
           \<le> unat (sa_host_ptr (rv_addr r)) + unat kExpertSlotBytes"
    and "a < b \<Longrightarrow> b < length (rv_runs r) \<Longrightarrow>
       unat (fr_dst (rv_runs r ! a)) + unat (fr_bytes (rv_runs r ! a)) \<le> unat (fr_dst (rv_runs r ! b))"
    and "j < length (st_slots st) \<Longrightarrow> j \<noteq> rv_slot r \<Longrightarrow>
       range_disjoint (sa_host_ptr (rv_addr r)) (es_host_ptr (st_slots st ! j)) kExpertSlotBytes"
proof -
  have inv: "store_inv st" by (rule steps_inv [OF steps store_init_inv [OF reachable_store_inv [OF assms(1)] init]])
  note f = begin_fill_runs [OF inv fill] and d = store_slots_disjoint [OF init steps pool]
  have base: "sa_host_ptr (rv_addr r) = es_host_ptr (st_slots st ! rv_slot r)" by (simp add: f(2) slot_addr_def)
  note s = f(3) and p = fill_run_placement [OF m d(2) [OF f(1)] d(1) [OF f(1)]]
  show len: "length (rv_runs r) = length (ee_runs e)" by (simp add: s)
  show "unat (fr_dst (rv_runs r ! a)) = unat (sa_host_ptr (rv_addr r)) + run_bytes (take a (ee_runs e))
       \<and> unat (fr_dst (rv_runs r ! a)) + unat (fr_bytes (rv_runs r ! a))
           \<le> unat (sa_host_ptr (rv_addr r)) + unat kExpertSlotBytes" if "a < length (rv_runs r)"
    using p [of a] that run_bytes_take_le [of "Suc a" "ee_runs e"] by (simp add: s base)
  show "unat (fr_dst (rv_runs r ! a)) + unat (fr_bytes (rv_runs r ! a)) \<le> unat (fr_dst (rv_runs r ! b))"
    if "a < b" "b < length (rv_runs r)"
    using p(2) [of a] p(1) [of b] that run_bytes_take_mono [of "Suc a" b "ee_runs e"] by (simp add: s)
  show "range_disjoint (sa_host_ptr (rv_addr r)) (es_host_ptr (st_slots st ! j)) kExpertSlotBytes"
    if "j < length (st_slots st)" "j \<noteq> rv_slot r"
    unfolding base by (rule d(3) [OF f(1) that])
qed

text \<open>
  C7. The reads that fill an expert of a validated manifest never leave its slot or overlap: run
  \<open>a\<close> is read to the slot's base plus the sum of the runs before it, every run ends within the
  slot, and the slot itself shares no byte with any other slot of the store. The backing is
  assumed to hand out disjoint slabs that do not wrap, the slot numbering to fit its integer
  types, and the lengths of the runs not to add up to more than 64 bits.
\<close>

theorem fill_runs_stay_in_slot:
  assumes "reachable st0" and init: "store_init alloc cache l x st0 = (Inr (), st1)" and steps: "store_steps st1 ops st"
    and m: "validate m = Inr ()" "manifest_expert m k = Some e" "run_bytes (ee_runs e) < 2 ^ 64"
    and fill: "begin_fill k e t st = (Inr r, st')"
    and pool: "pool_fits (st_pool st1)" "slabs_disjoint host_ptr (st_pool st1)"
  shows "(length (rv_runs r) = length (ee_runs e))
   \<and> (\<forall>a < length (rv_runs r).
       unat (fr_dst (rv_runs r ! a)) = unat (sa_host_ptr (rv_addr r)) + run_bytes (take a (ee_runs e))
       \<and> unat (fr_dst (rv_runs r ! a)) + unat (fr_bytes (rv_runs r ! a))
           \<le> unat (sa_host_ptr (rv_addr r)) + unat kExpertSlotBytes)
   \<and> (\<forall>b < length (rv_runs r). \<forall>a < b.
       unat (fr_dst (rv_runs r ! a)) + unat (fr_bytes (rv_runs r ! a)) \<le> unat (fr_dst (rv_runs r ! b)))
   \<and> (\<forall>j < length (st_slots st). j \<noteq> rv_slot r \<longrightarrow>
       range_disjoint (sa_host_ptr (rv_addr r)) (es_host_ptr (st_slots st ! j)) kExpertSlotBytes)"
  using fill_runs_stay_in_slot_parts [OF assms] by blast

text \<open>A manifest of one expert in one run, and the concrete store about to read it.\<close>

definition demo_run :: run where
  "demo_run = \<lparr>run_file = 0, run_aligned_off = 8192, run_aligned_bytes = 18800640, run_slot_offset = 0,
     run_parts = [\<lparr>rp_part = W1Weight, rp_skew = 0, rp_bytes = 5898240, rp_slot_offset = 0\<rparr>,
       \<lparr>rp_part = W1Scale, rp_skew = 5898240, rp_bytes = 368640, rp_slot_offset = 5898240\<rparr>,
       \<lparr>rp_part = W2Weight, rp_skew = 6266880, rp_bytes = 5898240, rp_slot_offset = 6266880\<rparr>,
       \<lparr>rp_part = W2Scale, rp_skew = 12165120, rp_bytes = 368640, rp_slot_offset = 12165120\<rparr>,
       \<lparr>rp_part = W3Weight, rp_skew = 12533760, rp_bytes = 5898240, rp_slot_offset = 12533760\<rparr>,
       \<lparr>rp_part = W3Scale, rp_skew = 18432000, rp_bytes = 368640, rp_slot_offset = 18432000\<rparr>]\<rparr>"

definition demo_entry :: expert_entry where
  "demo_entry = \<lparr>ee_runs = [demo_run], ee_slot_bytes = 18800640,
     ee_part_offset = [0, 5898240, 6266880, 12165120, 12533760, 18432000],
     ee_part_bytes = [5898240, 368640, 5898240, 368640, 5898240, 368640]\<rparr>"

definition demo_manifest :: manifest where
  "demo_manifest = \<lparr>mf_version = 2, mf_alignment = 4096, mf_expert_slot_bytes = 18808832, mf_model = ''demo'',
     mf_files = [\<lparr>fe_path = ''shard'', fe_bytes = 18808832, fe_data_start = 0, fe_sha256 = []\<rparr>],
     mf_tensors = [], mf_experts = [[demo_entry]], mf_engram = []\<rparr>"

lemma demo_manifest_valid: "validate demo_manifest = Inr ()" "manifest_expert demo_manifest (ExpertKey 0 0) = Some demo_entry"
  "run_bytes (ee_runs demo_entry) < 2 ^ 64"
  by (simp_all add: validate_def complaints_def demo_manifest_def check_expert_def demo_entry_def check_run_def
      demo_run_def check_part_def check_range_def check_read_def manifest_file_def complain_def is_aligned_def
      kPageSize_def align_up_def expert_bytes_value kExpertSlotBytes_def kMaxExpertRuns_def kExpertParts_def
      manifest_expert_def)

lemma demo_pool_facts: "pool_fits (st_pool demo_store)" "slabs_disjoint host_ptr (st_pool demo_store)"
proof -
  have "st_pool demo_store = \<lparr>sp_cfg = \<lparr>slots_per_slab = 2, slot_bytes = 18808832, budget_bytes = 37617664\<rparr>,
       sp_slabs = [\<lparr>host_ptr = 65536, device_address = 0, mem_bytes = 37617664\<rparr>],
       sp_slab_bytes = 37617664, sp_slot_count = 2\<rparr>"
    by (simp add: demo_store_def store_init_def demo_cache_def empty_store_def demo_pool two_facts two_not_le_one
      pool_address_def decompose_def Let_def)
  then show "pool_fits (st_pool demo_store)" "slabs_disjoint host_ptr (st_pool demo_store)"
    by (simp_all add: pool_fits_def slabs_disjoint_def)
qed

theorem fill_runs_stay_in_slot_witness:
  "\<exists>r st'. begin_fill (ExpertKey 0 0) demo_entry Cached demo_store = (Inr r, st') \<and> length (rv_runs r) = 1
     \<and> unat (fr_dst (rv_runs r ! 0)) + unat (fr_bytes (rv_runs r ! 0))
         \<le> unat (sa_host_ptr (rv_addr r)) + unat kExpertSlotBytes"
proof -
  have init: "store_init demo_backing demo_cache 1 2 empty_store = (Inr (), demo_store)"
    by (simp add: demo_store_def store_init_def demo_cache_def empty_store_def demo_pool two_facts two_not_le_one
      pool_address_def decompose_def Let_def)
  have "is_ok (fst (begin_fill (ExpertKey 0 0) demo_entry Cached demo_store))"
    by (simp add: begin_fill_def demo_entry_def kMaxExpertRuns_def kExpertParts_def demo_store_facts
        reserve_locked_def key_in_range_def Let_def)
  then obtain r st' where fill: "begin_fill (ExpertKey 0 0) demo_entry Cached demo_store = (Inr r, st')"
    by (cases "begin_fill (ExpertKey 0 0) demo_entry Cached demo_store") (auto simp: is_ok_iff)
  note f = fill_runs_stay_in_slot [OF reach_empty init steps_refl demo_manifest_valid fill demo_pool_facts]
  have "length (rv_runs r) = 1" using f by (simp add: demo_entry_def)
  with fill f show ?thesis by auto
qed

end
