(* ===== verification/Planner.thy ===== *)
theory Planner
  imports Expert_Store_Spec
begin

text \<open>
  \<^verbatim>\<open>store/planner.h\<close> and \<^verbatim>\<open>store/planner.cpp\<close>: the eviction policies, the prefill handoff
  (\<^verbatim>\<open>admit_streamed\<close>), demand fetches, the per-layer plan and the background backfill. The I/O
  engine and the shard set are arguments (\<open>io_env\<close>): whether a shard is open and whether a
  request is accepted. A request that was accepted is in flight until \<open>complete_run\<close>, the
  completion callback. \<open>pending\<close> and \<open>inflight\<close> are 32-bit words, as in the code. Times, the
  profiler and log lines are left out.
\<close>

section \<open>Eviction policies\<close>

datatype cache_policy = Lru | ScoreAwareLru | Lfu | StaticPinPlusLru

datatype policy = LruPolicy | ScoreAwarePolicy

fun policy_name :: "policy \<Rightarrow> string" where
  "policy_name LruPolicy = ''lru''"
| "policy_name ScoreAwarePolicy = ''score-aware-lru(fallback:lru)''"

fun make_policy :: "cache_policy \<Rightarrow> policy" where
  "make_policy Lru = LruPolicy"
| "make_policy ScoreAwareLru = ScoreAwarePolicy"
| "make_policy Lfu = LruPolicy"
| "make_policy StaticPinPlusLru = LruPolicy"

text \<open>The first \<open>n\<close> places of the partial sort by stamp and then by slot, a total order.\<close>

definition lru_choose_victims :: "expert_slot list \<Rightarrow> nat \<Rightarrow> nat list" where
  "lru_choose_victims c want =
     map es_slot (take (min want (length c)) (sort_key (\<lambda>s. (es_last_use_token s, es_slot s)) c))"

definition score_aware_choose_victims :: "expert_slot list \<Rightarrow> nat \<Rightarrow> nat list" where
  "score_aware_choose_victims c want = lru_choose_victims c want"

fun choose_victims :: "policy \<Rightarrow> expert_slot list \<Rightarrow> nat \<Rightarrow> nat list" where
  "choose_victims LruPolicy = lru_choose_victims"
| "choose_victims ScoreAwarePolicy = score_aware_choose_victims"

text \<open>The rows of a heat file, once scanned: out-of-range ones dropped, hottest first, stably.\<close>

definition static_heat_rows :: "(nat \<times> nat \<times> nat) list \<Rightarrow> expert_key list" where
  "static_heat_rows rows =
     map (\<lambda>(l, e, c). ExpertKey (of_nat l) (of_nat e))
       (sort_key (\<lambda>(l, e, c). - int c) (filter (\<lambda>(l, e, c). l < 4096 \<and> e < 4096) rows))"

section \<open>The prefill handoff\<close>

datatype stream_kind = StreamDrop | StreamFill | StreamResident

record stream_admit =
  sa_kind :: stream_kind
  sa_slot :: nat
  sa_addr :: slot_address

definition drop_admit :: stream_admit where
  "drop_admit = \<lparr>sa_kind = StreamDrop, sa_slot = 0, sa_addr = \<lparr>sa_host_ptr = 0, sa_dev_addr = 0\<rparr>\<rparr>"

text \<open>The admission of a key that is not resident: a free slot, or the oldest one if it is older.\<close>

definition admit_new ::
  "expert_key \<Rightarrow> nat \<Rightarrow> expert_entry option \<Rightarrow> store \<Rightarrow> stream_admit result \<times> store"
where
  "admit_new k stamp entry st =
     (let fill = (\<lambda>st. case (case entry of Some e \<Rightarrow> begin_fill k e Cached st
                                        | None \<Rightarrow> begin_fill_synthetic k Cached st) of
                        (Inl e, st) \<Rightarrow> (if e = ResourceExhausted then Inr drop_admit else Inl e, st)
                      | (Inr r, st) \<Rightarrow> (Inr \<lparr>sa_kind = StreamFill, sa_slot = rv_slot r, sa_addr = rv_addr r\<rparr>, st))
      in if free_slots st = 0 then
           (case oldest_evictable_stamp st of
              None \<Rightarrow> (Inr drop_admit, st)
            | Some oldest \<Rightarrow>
                if stamp \<le> oldest then (Inr drop_admit, st)
                else case evict_lru st of
                       (Inl e, st) \<Rightarrow> (Inr drop_admit, st)
                     | (Inr v, st) \<Rightarrow> fill st)
         else fill st)"

text \<open>
  \<open>settle\<close> is what other threads do to the store while \<^verbatim>\<open>wait_settled\<close> blocks on a key that is
  being filled; the identity when nothing is waited for.
\<close>

definition admit_streamed ::
  "(store \<Rightarrow> store) \<Rightarrow> expert_key \<Rightarrow> nat \<Rightarrow> expert_entry option \<Rightarrow> nat \<Rightarrow> store
     \<Rightarrow> stream_admit result \<times> store"
where
  "admit_streamed settle k stamp entry guard st =
     (case slot_of st k of
        None \<Rightarrow> admit_new k stamp entry st
      | Some i \<Rightarrow>
          let (touched, st) = touch k stamp False st;
              st = (if touched then st
                    else let st = settle st
                         in if wait_settled_result k st then snd (touch k stamp False st) else st)
          in if resident st k then
               (case set_guard i guard st of
                  (Inl e, st) \<Rightarrow> (Inl e, st)
                | (Inr _, st) \<Rightarrow>
                    (Inr \<lparr>sa_kind = StreamResident, sa_slot = i, sa_addr = slot_addr (st_slots st ! i)\<rparr>, st))
             else admit_new k stamp entry st)"

definition finish_streamed :: "stream_admit \<Rightarrow> bool \<Rightarrow> nat \<Rightarrow> store \<Rightarrow> unit result \<times> store" where
  "finish_streamed a ok stamp st =
     (if sa_kind a \<noteq> StreamFill then (Inr (), st) else finish_fill (sa_slot a) ok stamp st)"

section \<open>The planner's state\<close>

definition kDemandStampBase :: nat where "kDemandStampBase = 2 ^ 32"

record planner_stats =
  ps_layers_planned :: nat
  ps_requests :: nat
  ps_hits :: nat
  ps_misses :: nat
  ps_evictions :: nat
  ps_evict_failures :: nat
  ps_prefetch_issued :: nat
  ps_miss_layers :: nat
  ps_joined_fills :: nat
  ps_backfill_issued :: nat
  ps_backfill_done :: nat
  ps_backfill_failed :: nat
  ps_streamed_resident :: nat
  ps_streamed_filled :: nat
  ps_streamed_dropped :: nat
  ps_p0_reserve_failed :: nat
  ps_p0_submit_failed :: nat
  ps_p0_io_failed :: nat

definition zero_planner_stats :: planner_stats where
  "zero_planner_stats = \<lparr>ps_layers_planned = 0, ps_requests = 0, ps_hits = 0, ps_misses = 0, ps_evictions = 0,
     ps_evict_failures = 0, ps_prefetch_issued = 0, ps_miss_layers = 0, ps_joined_fills = 0,
     ps_backfill_issued = 0, ps_backfill_done = 0, ps_backfill_failed = 0, ps_streamed_resident = 0,
     ps_streamed_filled = 0, ps_streamed_dropped = 0, ps_p0_reserve_failed = 0, ps_p0_submit_failed = 0,
     ps_p0_io_failed = 0\<rparr>"

text \<open>Whose callback a fetch runs when it settles: a layer's group, a backfill, or nobody's.\<close>

datatype fetch_owner = OwnerGroup nat | OwnerBackfill nat | OwnerNone

record flight =
  fl_slot :: nat
  fl_stamp :: nat
  fl_owner :: fetch_owner
  fl_ok :: bool
  fl_left :: nat

record fetch_group =
  fg_pending :: u32
  fg_failed :: bool

record backfill =
  bf_order :: "expert_key list"
  bf_next :: nat
  bf_inflight :: u32
  bf_max_inflight :: u32
  bf_keep :: bool
  bf_active :: bool

record planner =
  pl_store :: store
  pl_manifest :: manifest
  pl_policy :: policy
  pl_clock :: nat
  pl_stats :: planner_stats
  pl_flights :: "flight list"
  pl_groups :: "fetch_group list"
  pl_backfills :: "backfill list"
  pl_current :: "nat option"

record io_env =
  shard_require :: "u32 \<Rightarrow> err option"
  io_submit :: "expert_key \<Rightarrow> fill_run \<Rightarrow> err option"

definition planner_init ::
  "nat \<Rightarrow> store \<Rightarrow> manifest \<Rightarrow> cache_policy \<Rightarrow> planner result"
where
  "planner_init shards st m which =
     (if shards = 0 then Inl InvalidArgument
      else if shards \<noteq> length (mf_files m) then Inl InvalidArgument
      else Inr \<lparr>pl_store = st, pl_manifest = m, pl_policy = make_policy which, pl_clock = kDemandStampBase,
                pl_stats = zero_planner_stats, pl_flights = [], pl_groups = [], pl_backfills = [], pl_current = None\<rparr>)"

definition upd_pstats :: "(planner_stats \<Rightarrow> planner_stats) \<Rightarrow> planner \<Rightarrow> planner" where
  "upd_pstats f pl = pl\<lparr>pl_stats := f (pl_stats pl)\<rparr>"

definition next_stamp :: "planner \<Rightarrow> nat \<times> planner" where
  "next_stamp pl = (pl_clock pl + 1, pl\<lparr>pl_clock := pl_clock pl + 1\<rparr>)"

definition reserve_stamps :: "nat \<Rightarrow> planner \<Rightarrow> nat \<times> planner" where
  "reserve_stamps n pl = (pl_clock pl + 1, pl\<lparr>pl_clock := pl_clock pl + n\<rparr>)"

section \<open>Making room\<close>

text \<open>The loop over the victims: stop once enough slots are free, count the refusals.\<close>

fun evict_victims :: "nat \<Rightarrow> nat list \<Rightarrow> nat \<Rightarrow> nat \<Rightarrow> store \<Rightarrow> nat \<times> nat \<times> store" where
  "evict_victims want [] freed refused st = (freed, refused, st)"
| "evict_victims want (v # vs) freed refused st =
     (if freed \<ge> want then (freed, refused, st)
      else case evict v st of
             (Inr _, st) \<Rightarrow> evict_victims want vs (freed + 1) refused st
           | (Inl _, st) \<Rightarrow> evict_victims want vs freed (refused + 1) st)"

text \<open>\<open>pick\<close> is the policy's \<^verbatim>\<open>choose_victims\<close>.\<close>

definition reclaim_store ::
  "(expert_slot list \<Rightarrow> nat \<Rightarrow> nat list) \<Rightarrow> nat \<Rightarrow> store \<Rightarrow> nat \<times> nat \<times> store"
where
  "reclaim_store pick want st =
     (if want = 0 then (0, 0, st)
      else let candidates = evictable st
           in if candidates = [] then (0, 0, st)
              else evict_victims want (pick candidates (min (length candidates) (want * 2))) 0 0 st)"

definition reclaim :: "nat \<Rightarrow> planner \<Rightarrow> nat \<times> planner" where
  "reclaim want pl =
     (let (freed, refused, st) = reclaim_store (choose_victims (pl_policy pl)) want (pl_store pl)
      in (freed, upd_pstats (\<lambda>s. s\<lparr>ps_evict_failures := ps_evict_failures s + refused,
                                   ps_evictions := ps_evictions s + freed\<rparr>) (pl\<lparr>pl_store := st\<rparr>)))"

section \<open>Fetching\<close>

record fetch_result =
  ft_slot :: nat
  ft_issued :: nat
  ft_bytes :: u64

text \<open>The submit loop: how many runs were accepted, their bytes, and the first error.\<close>

fun submit_runs :: "io_env \<Rightarrow> expert_key \<Rightarrow> fill_run list \<Rightarrow> nat \<Rightarrow> u64 \<Rightarrow> nat \<times> u64 \<times> err option" where
  "submit_runs env k [] n b = (n, b, None)"
| "submit_runs env k (r # rs) n b =
     (case shard_require env (fr_file r) of
        Some e \<Rightarrow> (n, b, Some e)
      | None \<Rightarrow> (case io_submit env k r of
                   Some e \<Rightarrow> (n, b, Some e)
                 | None \<Rightarrow> submit_runs env k rs (n + 1) (b + fr_bytes r)))"

text \<open>\<^verbatim>\<open>begin_fill\<close>, and once more after a reclaim when the cache was full.\<close>

definition fetch_reserve :: "expert_key \<Rightarrow> expert_entry \<Rightarrow> planner \<Rightarrow> reservation result \<times> planner" where
  "fetch_reserve k e pl =
     (case begin_fill k e Cached (pl_store pl) of
        (Inr r, st) \<Rightarrow> (Inr r, pl\<lparr>pl_store := st\<rparr>)
      | (Inl err, st) \<Rightarrow>
          let pl = pl\<lparr>pl_store := st\<rparr>
          in if err \<noteq> ResourceExhausted then (Inl err, pl)
             else case reclaim 1 pl of
                    (freed, pl) \<Rightarrow>
                      if freed = 0 then (Inl ResourceExhausted, pl)
                      else case begin_fill k e Cached (pl_store pl) of
                             (r, st) \<Rightarrow> (r, pl\<lparr>pl_store := st\<rparr>))"

definition finish_unissued :: "nat \<Rightarrow> nat \<Rightarrow> nat \<Rightarrow> store \<Rightarrow> store" where
  "finish_unissued n slot stamp st = ((\<lambda>st. snd (finish_run slot False stamp st)) ^^ n) st"

definition fetch ::
  "io_env \<Rightarrow> expert_key \<Rightarrow> io_priority \<Rightarrow> fetch_owner \<Rightarrow> nat \<Rightarrow> planner \<Rightarrow> fetch_result result \<times> planner"
where
  "fetch env k prio owner stamp_in pl =
     (case require_expert (pl_manifest pl) k of
        Inl e \<Rightarrow> (Inl e, pl)
      | Inr entry \<Rightarrow>
          (case fetch_reserve k entry pl of
             (Inl e, pl) \<Rightarrow> (Inl e, pl)
           | (Inr r, pl) \<Rightarrow>
               let (stamp, pl) = (if stamp_in \<noteq> 0 then (stamp_in, pl) else next_stamp pl);
                   (n, bytes, err) = submit_runs env k (rv_runs r) 0 0;
                   pl = pl\<lparr>pl_flights := pl_flights pl @ [\<lparr>fl_slot = rv_slot r, fl_stamp = stamp, fl_owner = owner,
                                                          fl_ok = (err = None), fl_left = n\<rparr>]\<rparr>
               in case err of
                    Some e \<Rightarrow> (Inl e, pl\<lparr>pl_store := finish_unissued (rv_run_count r - n) (rv_slot r) stamp (pl_store pl)\<rparr>)
                  | None \<Rightarrow>
                      (Inr \<lparr>ft_slot = rv_slot r, ft_issued = n, ft_bytes = bytes\<rparr>,
                       if prio = Lookahead \<or> prio = Backfill
                       then upd_pstats (\<lambda>s. s\<lparr>ps_prefetch_issued := ps_prefetch_issued s + 1\<rparr>) pl else pl)))"

section \<open>The backfill\<close>

definition upd_backfill :: "nat \<Rightarrow> (backfill \<Rightarrow> backfill) \<Rightarrow> planner \<Rightarrow> planner" where
  "upd_backfill b f pl = pl\<lparr>pl_backfills := (pl_backfills pl)[b := f (pl_backfills pl ! b)]\<rparr>"

definition backfill_stamp :: "backfill \<Rightarrow> nat \<Rightarrow> nat" where
  "backfill_stamp bf rank = (if bf_keep bf then kDemandStampBase + rank else kDemandStampBase - 1 - rank)"

text \<open>
  \<^verbatim>\<open>backfill_pump\<close>: \<open>fuel\<close> bounds the turns of its loop. Every turn that does not return takes
  the next key of the order, so \<open>length order + 1\<close> turns are enough.
\<close>

fun pump_loop :: "nat \<Rightarrow> io_env \<Rightarrow> nat \<Rightarrow> planner \<Rightarrow> planner option" where
  "pump_loop 0 env b pl = None"
| "pump_loop (Suc fuel) env b pl =
     (let bf = pl_backfills pl ! b
      in if \<not> bf_active bf \<or> bf_inflight bf \<ge> bf_max_inflight bf then Some pl
         else if free_slots (pl_store pl) = 0 \<or> bf_next bf \<ge> length (bf_order bf)
         then Some (if bf_inflight bf = 0 then upd_backfill b (\<lambda>x. x\<lparr>bf_active := False\<rparr>) pl else pl)
         else
           let rank = bf_next bf; k = bf_order bf ! rank;
               pl = upd_backfill b (\<lambda>x. x\<lparr>bf_next := rank + 1\<rparr>) pl
           in if slot_of (pl_store pl) k \<noteq> None then pump_loop fuel env b pl
              else
                let pl = upd_backfill b (\<lambda>x. x\<lparr>bf_inflight := bf_inflight x + 1\<rparr>) pl
                in case fetch env k Backfill (OwnerBackfill b) (backfill_stamp bf rank) pl of
                     (Inr _, pl) \<Rightarrow>
                       pump_loop fuel env b
                         (upd_pstats (\<lambda>s. s\<lparr>ps_backfill_issued := ps_backfill_issued s + 1\<rparr>) pl)
                   | (Inl e, pl) \<Rightarrow>
                       let pl = upd_backfill b (\<lambda>x. x\<lparr>bf_inflight := bf_inflight x - 1\<rparr>) pl
                       in if e = AlreadyExists then pump_loop fuel env b pl
                          else Some (upd_backfill b (\<lambda>x. x\<lparr>bf_active := False\<rparr>)
                                 (upd_pstats (\<lambda>s. s\<lparr>ps_backfill_failed := ps_backfill_failed s + 1\<rparr>) pl)))"

definition backfill_pump :: "io_env \<Rightarrow> nat \<Rightarrow> planner \<Rightarrow> planner" where
  "backfill_pump env b pl = the (pump_loop (length (bf_order (pl_backfills pl ! b)) + 1) env b pl)"

definition stop_backfill :: "planner \<Rightarrow> planner" where
  "stop_backfill pl =
     (case pl_current pl of None \<Rightarrow> pl | Some b \<Rightarrow> upd_backfill b (\<lambda>x. x\<lparr>bf_active := False\<rparr>) pl)"

definition start_backfill :: "io_env \<Rightarrow> expert_key list \<Rightarrow> u32 \<Rightarrow> bool \<Rightarrow> planner \<Rightarrow> unit result \<times> planner" where
  "start_backfill env order inflight keep pl =
     (let pl = stop_backfill pl
      in if length order \<ge> kDemandStampBase then (Inl InvalidArgument, pl)
         else
           let b = length (pl_backfills pl);
               pl = pl\<lparr>pl_backfills := pl_backfills pl @ [\<lparr>bf_order = order, bf_next = 0, bf_inflight = 0,
                         bf_max_inflight = max 1 inflight, bf_keep = keep, bf_active = True\<rparr>],
                       pl_current := Some b\<rparr>
           in (Inr (), backfill_pump env b pl))"

section \<open>Completions\<close>

definition upd_group :: "nat \<Rightarrow> (fetch_group \<Rightarrow> fetch_group) \<Rightarrow> planner \<Rightarrow> planner" where
  "upd_group g f pl = pl\<lparr>pl_groups := (pl_groups pl)[g := f (pl_groups pl ! g)]\<rparr>"

text \<open>The callback a fetch was given, called once the slot has settled.\<close>

fun run_callback :: "io_env \<Rightarrow> fetch_owner \<Rightarrow> bool \<Rightarrow> planner \<Rightarrow> planner" where
  "run_callback env OwnerNone ok pl = pl"
| "run_callback env (OwnerGroup g) ok pl =
     upd_group g (\<lambda>x. x\<lparr>fg_pending := fg_pending x - 1, fg_failed := fg_failed x \<or> \<not> ok\<rparr>)
       (if ok then pl else upd_pstats (\<lambda>s. s\<lparr>ps_p0_io_failed := ps_p0_io_failed s + 1\<rparr>) pl)"
| "run_callback env (OwnerBackfill b) ok pl =
     backfill_pump env b
       (upd_pstats (\<lambda>s. if ok then s\<lparr>ps_backfill_done := ps_backfill_done s + 1\<rparr>
                        else s\<lparr>ps_backfill_failed := ps_backfill_failed s + 1\<rparr>)
         (upd_backfill b (\<lambda>x. x\<lparr>bf_inflight := bf_inflight x - 1\<rparr>) pl))"

text \<open>One accepted run of flight \<open>f\<close> completes.\<close>

definition complete_run :: "io_env \<Rightarrow> nat \<Rightarrow> bool \<Rightarrow> planner \<Rightarrow> planner" where
  "complete_run env f ok pl =
     (let fl = pl_flights pl ! f;
          fl = fl\<lparr>fl_ok := fl_ok fl \<and> ok, fl_left := fl_left fl - 1\<rparr>;
          pl = pl\<lparr>pl_flights := (pl_flights pl)[f := fl]\<rparr>
      in case finish_run (fl_slot fl) ok (fl_stamp fl) (pl_store pl) of
           (settled, st) \<Rightarrow>
             let pl = pl\<lparr>pl_store := st\<rparr>
             in if settled = Inr True then run_callback env (fl_owner fl) (fl_ok fl) pl else pl)"

section \<open>One layer\<close>

record route_decision =
  rd_layer :: u32
  rd_chosen :: "u16 list"
  rd_near :: "(u16 \<times> real) list"
  rd_guard_hits :: nat

record layer_plan =
  lp_layer :: u32
  lp_hits :: "expert_key list"
  lp_misses :: "expert_key list"
  lp_issued :: nat
  lp_miss_bytes :: u64
  lp_group :: nat
  lp_joined :: "(expert_key \<times> nat) list"

definition with_store :: "(store \<Rightarrow> store) \<Rightarrow> planner \<Rightarrow> planner" where
  "with_store f pl = pl\<lparr>pl_store := f (pl_store pl)\<rparr>"

text \<open>A demand miss that nobody is filling: make room, count it pending, fetch.\<close>

definition plan_fetch :: "io_env \<Rightarrow> expert_key \<Rightarrow> layer_plan \<Rightarrow> planner \<Rightarrow> layer_plan \<times> planner" where
  "plan_fetch env k plan pl =
     (let pl = (if free_slots (pl_store pl) = 0 then
                  (if policy_name (pl_policy pl) = ''lru'' then
                     (case evict_lru (pl_store pl) of
                        (Inr _, st) \<Rightarrow> upd_pstats (\<lambda>s. s\<lparr>ps_evictions := ps_evictions s + 1\<rparr>) (pl\<lparr>pl_store := st\<rparr>)
                      | (Inl _, st) \<Rightarrow> pl\<lparr>pl_store := st\<rparr>)
                   else snd (reclaim 1 pl))
                else pl);
          pl = upd_group (lp_group plan) (\<lambda>g. g\<lparr>fg_pending := fg_pending g + 1\<rparr>) pl
      in case fetch env k BlockingMiss (OwnerGroup (lp_group plan)) 0 pl of
           (Inl e, pl) \<Rightarrow>
             (plan, upd_group (lp_group plan) (\<lambda>g. g\<lparr>fg_pending := fg_pending g - 1\<rparr>)
                (upd_pstats (\<lambda>s. if e = ResourceExhausted then s\<lparr>ps_p0_reserve_failed := ps_p0_reserve_failed s + 1\<rparr>
                                 else s\<lparr>ps_p0_submit_failed := ps_p0_submit_failed s + 1\<rparr>) pl))
         | (Inr f, pl) \<Rightarrow>
             (plan\<lparr>lp_issued := lp_issued plan + ft_issued f, lp_miss_bytes := lp_miss_bytes plan + ft_bytes f\<rparr>, pl))"

definition plan_one :: "io_env \<Rightarrow> bool \<Rightarrow> nat \<Rightarrow> expert_key \<Rightarrow> layer_plan \<times> planner \<Rightarrow> layer_plan \<times> planner" where
  "plan_one env fixed guard k pp =
     (let (plan, pl) = pp;
          (token, pl) = (if fixed then (0, pl) else next_stamp pl);
          (addr, st) = lookup k token guard (pl_store pl);
          pl = pl\<lparr>pl_store := st\<rparr>
      in if addr \<noteq> None then (plan\<lparr>lp_hits := lp_hits plan @ [k]\<rparr>, pl)
         else
           let plan = plan\<lparr>lp_misses := lp_misses plan @ [k]\<rparr>
           in if fixed \<and> free_slots (pl_store pl) = 0 then (plan, pl)
              else if slot_of (pl_store pl) k \<noteq> None then
                let (s, pl) = next_stamp pl
                in (plan\<lparr>lp_joined := lp_joined plan @ [(k, s)]\<rparr>,
                    upd_pstats (\<lambda>x. x\<lparr>ps_joined_fills := ps_joined_fills x + 1\<rparr>) pl)
              else plan_fetch env k plan pl)"

definition plan_layer :: "io_env \<Rightarrow> route_decision \<Rightarrow> planner \<Rightarrow> layer_plan \<times> planner" where
  "plan_layer env rd pl =
     (let key = (\<lambda>id. ExpertKey (ucast (rd_layer rd)) id);
          pl = fold (\<lambda>(id, score). with_store (note_heat (key id) score (1 / 8))) (rd_near rd) pl;
          fixed = st_fixed_cache (pl_store pl);
          g = length (pl_groups pl);
          pl = pl\<lparr>pl_groups := pl_groups pl @ [\<lparr>fg_pending = 0, fg_failed = False\<rparr>]\<rparr>;
          plan = \<lparr>lp_layer = rd_layer rd, lp_hits = [], lp_misses = [], lp_issued = 0, lp_miss_bytes = 0,
                  lp_group = g, lp_joined = []\<rparr>;
          (plan, pl) = fold (\<lambda>id. plan_one env fixed (rd_guard_hits rd) (key id)) (rd_chosen rd) (plan, pl)
      in (plan, upd_pstats (\<lambda>s. s\<lparr>ps_layers_planned := ps_layers_planned s + 1,
                  ps_requests := ps_requests s + length (rd_chosen rd),
                  ps_hits := ps_hits s + length (lp_hits plan),
                  ps_misses := ps_misses s + length (lp_misses plan),
                  ps_miss_layers := ps_miss_layers s + (if lp_misses plan = [] then 0 else 1)\<rparr>) pl))"

text \<open>
  \<^verbatim>\<open>wait_layer\<close> once its waits are over: the group is checked, then each joined fill; \<open>pl\<close> is the
  planner at that moment. None where the wait on the group has not ended.
\<close>

fun wait_joined :: "(expert_key \<times> nat) list \<Rightarrow> planner \<Rightarrow> unit result \<times> planner" where
  "wait_joined [] pl = (Inr (), pl)"
| "wait_joined ((k, s) # js) pl =
     (if \<not> wait_settled_result k (pl_store pl) then (Inl Io, pl)
      else wait_joined js (with_store (\<lambda>st. snd (touch k s False st)) pl))"

definition wait_layer :: "layer_plan \<Rightarrow> planner \<Rightarrow> unit result \<times> planner" where
  "wait_layer plan pl =
     (let g = pl_groups pl ! lp_group plan
      in if fg_pending g \<noteq> 0 then (Inl Io, pl)
         else if fg_failed g then (Inl Io, pl)
         else wait_joined (lp_joined plan) pl)"

definition planner_admit_streamed ::
  "(store \<Rightarrow> store) \<Rightarrow> expert_key \<Rightarrow> nat \<Rightarrow> nat \<Rightarrow> planner \<Rightarrow> stream_admit result \<times> planner"
where
  "planner_admit_streamed settle k stamp guard pl =
     (case require_expert (pl_manifest pl) k of
        Inl e \<Rightarrow> (Inl e, pl)
      | Inr entry \<Rightarrow>
          (case admit_streamed settle k stamp (Some entry) guard (pl_store pl) of
             (Inl e, st) \<Rightarrow> (Inl e, pl\<lparr>pl_store := st\<rparr>)
           | (Inr a, st) \<Rightarrow>
               (Inr a, upd_pstats (\<lambda>s. case sa_kind a of
                    StreamResident \<Rightarrow> s\<lparr>ps_streamed_resident := ps_streamed_resident s + 1\<rparr>
                  | StreamFill \<Rightarrow> s\<lparr>ps_streamed_filled := ps_streamed_filled s + 1\<rparr>
                  | StreamDrop \<Rightarrow> s\<lparr>ps_streamed_dropped := ps_streamed_dropped s + 1\<rparr>) (pl\<lparr>pl_store := st\<rparr>))))"

end
