(* ===== verification/Planner_Props.thy ===== *)
theory Planner_Props
  imports Planner
begin

text \<open>
  What the planner guarantees. Every planner operation changes the store only by a sequence of
  store operations, so the store's invariant and its protections carry over. The eviction policy
  is an interface with two implementations. The backfill loop ends, never evicts and stays below
  its in-flight bound; and two places where the code does not do what it says.
\<close>

section \<open>The planner as a client of the store\<close>

text \<open>The planner never moves the completed timeline and never switches the cache mode.\<close>

fun planner_op :: "store_op \<Rightarrow> bool" where
  "planner_op (OpSetCompleted v) \<longleftrightarrow> False"
| "planner_op (OpSetFixed b) \<longleftrightarrow> False"
| "planner_op op \<longleftrightarrow> op_shaped op"

lemma planner_op_shaped: "planner_op op \<Longrightarrow> op_shaped op"
  by (cases op) simp_all

definition evolves :: "store \<Rightarrow> store \<Rightarrow> bool" where
  "evolves st st' \<longleftrightarrow> (\<exists>ops. store_steps st ops st' \<and> (\<forall>op \<in> set ops. planner_op op))"

lemma evolves_refl [simp, intro]: "evolves st st"
  unfolding evolves_def by (rule exI [of _ "[]"]) (simp add: steps_refl)

lemma evolves_trans [trans]: "evolves a b \<Longrightarrow> evolves b c \<Longrightarrow> evolves a c"
proof -
  assume "evolves a b" "evolves b c"
  then obtain ops1 ops2 where "store_steps a ops1 b" "\<forall>op \<in> set ops1. planner_op op"
    "store_steps b ops2 c" "\<forall>op \<in> set ops2. planner_op op" by (auto simp: evolves_def)
  then have "store_steps a (ops1 @ ops2) c" "\<forall>op \<in> set (ops1 @ ops2). planner_op op"
    using store_steps_append by auto
  then show "evolves a c" unfolding evolves_def by blast
qed

lemma evolves_op: "evolves a b \<Longrightarrow> planner_op op \<Longrightarrow> evolves a (run_op op b)"
proof -
  assume "evolves a b" and op: "planner_op op"
  then obtain ops where "store_steps a ops b" "\<forall>op \<in> set ops. planner_op op" by (auto simp: evolves_def)
  then have "store_steps a (ops @ [op]) (run_op op b)" "\<forall>op \<in> set (ops @ [op]). planner_op op"
    using op steps_step planner_op_shaped by auto
  then show "evolves a (run_op op b)" unfolding evolves_def by blast
qed

lemma evolves_run: "planner_op op \<Longrightarrow> evolves st (run_op op st)"
  by (rule evolves_op [OF evolves_refl])

lemma evolves_inv: "evolves st st' \<Longrightarrow> store_inv st \<Longrightarrow> store_inv st'"
  unfolding evolves_def using steps_inv by blast

lemma evolves_keeps:
  assumes "evolves st st'" "store_inv st" "i < length (st_slots st)" "es_state (st_slots st ! i) = Resident"
    "es_guard_timeline (st_slots st ! i) > st_completed st' \<or> es_tier (st_slots st ! i) = Pinned"
  shows "keeps i st st'"
  using assms steps_keep unfolding evolves_def by blast

lemma planner_op_quiet:
  "planner_op op \<Longrightarrow> st_completed (run_op op st) = st_completed st"
  by (cases op) (simp_all add: reset_stats_def set_path_b_first_slab_def set_evict_path_def)

lemma evolves_completed: "evolves st st' \<Longrightarrow> st_completed st' = st_completed st"
proof -
  have "store_steps st ops st' \<Longrightarrow> \<forall>op \<in> set ops. planner_op op \<Longrightarrow> st_completed st' = st_completed st" for ops
    by (induction rule: store_steps.induct) (simp_all add: planner_op_quiet)
  then show "evolves st st' \<Longrightarrow> st_completed st' = st_completed st" unfolding evolves_def by blast
qed

lemmas evolves_ops =
  evolves_run [of "OpLookup k t g" for k t g, simplified]
  evolves_run [of "OpBeginSynthetic k t" for k t, simplified]
  evolves_run [of "OpFinishRun i ok t" for i ok t, simplified]
  evolves_run [of "OpFinishFill i ok t" for i ok t, simplified]
  evolves_run [of "OpEvict i" for i, simplified]
  evolves_run [of OpEvictLru, simplified]
  evolves_run [of "OpSetGuard i g" for i g, simplified]
  evolves_run [of "OpNoteHeat k s a" for k s a, simplified]
  evolves_run [of "OpTouch k t f" for k t f, simplified]
  evolves_run [of "OpPin k" for k, simplified]

definition entry_shaped :: "expert_entry \<Rightarrow> bool" where
  "entry_shaped e \<longleftrightarrow> length (ee_part_offset e) = kExpertParts \<and> length (ee_part_bytes e) = kExpertParts"

definition manifest_shaped :: "manifest \<Rightarrow> bool" where
  "manifest_shaped m \<longleftrightarrow> (\<forall>row \<in> set (mf_experts m). \<forall>e \<in> set row. entry_shaped e)"

lemma evolves_begin_fill: "entry_shaped e \<Longrightarrow> evolves st (snd (begin_fill k e t st))"
  using evolves_run [of "OpBeginFill k e t" st] by (simp add: entry_shaped_def)

lemma require_expert_shaped:
  "manifest_shaped m \<Longrightarrow> require_expert m k = Inr e \<Longrightarrow> entry_shaped e"
  using manifest_expert_in by (fastforce simp: require_expert_def manifest_shaped_def split: option.splits)

lemma evict_victims_evolves: "evolves st (snd (snd (evict_victims want vs freed refused st)))"
proof (induction want vs freed refused st rule: evict_victims.induct)
  case (2 want v vs freed refused st)
  show ?case
  proof (cases "freed \<ge> want")
    case False
    obtain r st' where e: "evict v st = (r, st')" by fastforce
    then have "evolves st st'" using evolves_ops(5) [of st v] by simp
    then show ?thesis using 2 e False by (cases r) (auto intro: evolves_trans)
  qed simp
qed simp

lemma reclaim_evolves: "evolves (pl_store pl) (pl_store (snd (reclaim n pl)))"
  using evict_victims_evolves
  by (auto simp: reclaim_def reclaim_store_def upd_pstats_def Let_def split: prod.splits) (metis snd_conv)+

lemma pl_store_simps [simp]:
  "pl_store (upd_pstats f pl) = pl_store pl" "pl_store (snd (next_stamp pl)) = pl_store pl"
  "pl_store (upd_group g h pl) = pl_store pl" "pl_store (upd_backfill b h' pl) = pl_store pl"
  "pl_store (with_store f' pl) = f' (pl_store pl)"
  "pl_manifest (upd_pstats f pl) = pl_manifest pl" "pl_manifest (snd (next_stamp pl)) = pl_manifest pl"
  "pl_manifest (upd_group g h pl) = pl_manifest pl" "pl_manifest (upd_backfill b h' pl) = pl_manifest pl"
  "pl_manifest (with_store f' pl) = pl_manifest pl"
  by (simp_all add: upd_pstats_def next_stamp_def upd_group_def upd_backfill_def with_store_def)

lemma reclaim_manifest [simp]: "pl_manifest (snd (reclaim n pl)) = pl_manifest pl"
  by (simp add: reclaim_def split: prod.splits)

lemma fetch_reserve_evolves:
  assumes "entry_shaped e"
  shows "evolves (pl_store pl) (pl_store (snd (fetch_reserve k e pl)))" "pl_manifest (snd (fetch_reserve k e pl)) = pl_manifest pl"
proof -
  obtain r st where b: "begin_fill k e Cached (pl_store pl) = (r, st)" by fastforce
  have st: "evolves (pl_store pl) st" using evolves_begin_fill [OF assms, of "pl_store pl" k Cached] b by simp
  obtain freed pl2 where rc: "reclaim 1 (pl\<lparr>pl_store := st\<rparr>) = (freed, pl2)" by fastforce
  have eq: "pl2 = snd (reclaim 1 (pl\<lparr>pl_store := st\<rparr>))" by (simp only: rc snd_conv)
  have pl2: "evolves st (pl_store pl2)" "pl_manifest pl2 = pl_manifest pl"
    unfolding eq using reclaim_evolves [of "pl\<lparr>pl_store := st\<rparr>" 1] by simp_all
  have again: "evolves (pl_store pl2) (snd (begin_fill k e Cached (pl_store pl2)))" by (rule evolves_begin_fill [OF assms])
  show "evolves (pl_store pl) (pl_store (snd (fetch_reserve k e pl)))"
    using b st rc pl2(1) again evolves_trans [OF st pl2(1)]
    by (cases r) (auto simp: fetch_reserve_def Let_def split: prod.splits intro: evolves_trans)
  show "pl_manifest (snd (fetch_reserve k e pl)) = pl_manifest pl"
    using b rc pl2(2) by (cases r) (auto simp: fetch_reserve_def Let_def split: prod.splits)
qed

lemma finish_unissued_evolves: "evolves st (finish_unissued n slot s st)"
proof (induction n)
  case (Suc n)
  have "evolves (finish_unissued n slot s st) (finish_unissued (Suc n) slot s st)"
    using evolves_ops(3) [of "finish_unissued n slot s st" slot False s] by (simp add: finish_unissued_def)
  with Suc show ?case by (rule evolves_trans)
qed (simp add: finish_unissued_def)

lemma fetch_evolves:
  assumes "manifest_shaped (pl_manifest pl)"
  shows "evolves (pl_store pl) (pl_store (snd (fetch env k prio owner s pl)))"
    "pl_manifest (snd (fetch env k prio owner s pl)) = pl_manifest pl"
proof -
  have "evolves (pl_store pl) (pl_store (snd (fetch env k prio owner s pl)))
      \<and> pl_manifest (snd (fetch env k prio owner s pl)) = pl_manifest pl"
  proof (cases "require_expert (pl_manifest pl) k")
    case (Inl e)
    then show ?thesis by (simp add: fetch_def)
  next
    case (Inr e)
    obtain r pl1 where fr: "fetch_reserve k e pl = (r, pl1)" by fastforce
    have pl1: "evolves (pl_store pl) (pl_store pl1)" "pl_manifest pl1 = pl_manifest pl"
      using fetch_reserve_evolves [OF require_expert_shaped [OF assms Inr], where pl = pl and k = k] fr by simp_all
    show ?thesis
      using Inr fr pl1
      by (cases r) (auto simp: fetch_def Let_def next_stamp_def split: prod.splits option.splits
          intro: evolves_trans [OF _ finish_unissued_evolves])
  qed
  then show "evolves (pl_store pl) (pl_store (snd (fetch env k prio owner s pl)))"
    "pl_manifest (snd (fetch env k prio owner s pl)) = pl_manifest pl" by simp_all
qed

lemma plan_fetch_evolves:
  assumes "manifest_shaped (pl_manifest pl)"
  shows "evolves (pl_store pl) (pl_store (snd (plan_fetch env k plan pl)))"
    "pl_manifest (snd (plan_fetch env k plan pl)) = pl_manifest pl"
    "lp_hits (fst (plan_fetch env k plan pl)) = lp_hits plan"
    "lp_misses (fst (plan_fetch env k plan pl)) = lp_misses plan"
proof -
  define pl1 where "pl1 = (if free_slots (pl_store pl) = 0 then
        (if policy_name (pl_policy pl) = ''lru'' then
           (case evict_lru (pl_store pl) of
              (Inr _, st) \<Rightarrow> upd_pstats (\<lambda>s. s\<lparr>ps_evictions := ps_evictions s + 1\<rparr>) (pl\<lparr>pl_store := st\<rparr>)
            | (Inl _, st) \<Rightarrow> pl\<lparr>pl_store := st\<rparr>)
         else snd (reclaim 1 pl))
      else pl)"
  define pl2 where "pl2 = upd_group (lp_group plan) (\<lambda>g. g\<lparr>fg_pending := fg_pending g + 1\<rparr>) pl1"
  have pl1: "evolves (pl_store pl) (pl_store pl1)" "pl_manifest pl1 = pl_manifest pl"
    using evolves_ops(6) [of "pl_store pl"] reclaim_evolves [of pl 1]
    by (auto simp: pl1_def split: prod.splits sum.splits)
  obtain r pl3 where f: "fetch env k BlockingMiss (OwnerGroup (lp_group plan)) 0 pl2 = (r, pl3)" by fastforce
  have shaped: "manifest_shaped (pl_manifest pl2)" using assms pl1(2) by (simp add: pl2_def)
  have pl3: "evolves (pl_store pl1) (pl_store pl3)" "pl_manifest pl3 = pl_manifest pl"
    using fetch_evolves [OF shaped, of env k BlockingMiss "OwnerGroup (lp_group plan)" 0] f pl1(2)
    by (simp_all add: pl2_def)
  have eq: "plan_fetch env k plan pl = (case r of
      Inl e \<Rightarrow> (plan, upd_group (lp_group plan) (\<lambda>g. g\<lparr>fg_pending := fg_pending g - 1\<rparr>)
                (upd_pstats (\<lambda>s. if e = ResourceExhausted then s\<lparr>ps_p0_reserve_failed := ps_p0_reserve_failed s + 1\<rparr>
                                 else s\<lparr>ps_p0_submit_failed := ps_p0_submit_failed s + 1\<rparr>) pl3))
    | Inr f \<Rightarrow> (plan\<lparr>lp_issued := lp_issued plan + ft_issued f, lp_miss_bytes := lp_miss_bytes plan + ft_bytes f\<rparr>, pl3))"
    unfolding plan_fetch_def Let_def pl1_def [symmetric] pl2_def [symmetric] f by (simp split: sum.splits)
  show "evolves (pl_store pl) (pl_store (snd (plan_fetch env k plan pl)))"
    "pl_manifest (snd (plan_fetch env k plan pl)) = pl_manifest pl"
    "lp_hits (fst (plan_fetch env k plan pl)) = lp_hits plan"
    "lp_misses (fst (plan_fetch env k plan pl)) = lp_misses plan"
    using pl3 evolves_trans [OF pl1(1) pl3(1)] by (simp_all add: eq split: sum.splits)
qed

text \<open>One expert of a layer: a hit is recorded and guarded, a miss is recorded.\<close>

lemma plan_one_effect:
  assumes "manifest_shaped (pl_manifest pl)" "plan_one env fixed guard k (plan, pl) = (plan', pl')"
  shows "\<exists>t. evolves (snd (lookup k t guard (pl_store pl))) (pl_store pl')
       \<and> (if fst (lookup k t guard (pl_store pl)) \<noteq> None
          then lp_hits plan' = lp_hits plan @ [k] \<and> lp_misses plan' = lp_misses plan
          else lp_hits plan' = lp_hits plan \<and> lp_misses plan' = lp_misses plan @ [k])"
    and "pl_manifest pl' = pl_manifest pl"
proof -
  define t where "t = (if fixed then 0 else pl_clock pl + 1)"
  define pl1 where "pl1 = (if fixed then pl else snd (next_stamp pl))\<lparr>pl_store := snd (lookup k t guard (pl_store pl))\<rparr>"
  have pl1: "pl_store pl1 = snd (lookup k t guard (pl_store pl))" "pl_manifest pl1 = pl_manifest pl"
    by (simp_all add: pl1_def)
  let ?plan = "plan\<lparr>lp_misses := lp_misses plan @ [k]\<rparr>"
  have shaped: "manifest_shaped (pl_manifest pl1)" using assms(1) pl1(2) by simp
  note pf = plan_fetch_evolves [OF shaped, of env k ?plan]
  have "plan_one env fixed guard k (plan, pl) =
    (if fst (lookup k t guard (pl_store pl)) \<noteq> None then (plan\<lparr>lp_hits := lp_hits plan @ [k]\<rparr>, pl1)
     else if fixed \<and> free_slots (pl_store pl1) = 0 then (?plan, pl1)
     else if slot_of (pl_store pl1) k \<noteq> None then
       (?plan\<lparr>lp_joined := lp_joined ?plan @ [(k, fst (next_stamp pl1))]\<rparr>,
        upd_pstats (\<lambda>x. x\<lparr>ps_joined_fills := ps_joined_fills x + 1\<rparr>) (snd (next_stamp pl1)))
     else plan_fetch env k ?plan pl1)"
    by (simp add: plan_one_def pl1_def t_def next_stamp_def Let_def split: prod.splits)
  with assms(2) have "(evolves (pl_store pl1) (pl_store pl')
       \<and> (if fst (lookup k t guard (pl_store pl)) \<noteq> None
          then lp_hits plan' = lp_hits plan @ [k] \<and> lp_misses plan' = lp_misses plan
          else lp_hits plan' = lp_hits plan \<and> lp_misses plan' = lp_misses plan @ [k]))
       \<and> pl_manifest pl' = pl_manifest pl"
    using pf pl1(2) by (auto split: if_splits)
  then show "\<exists>t. evolves (snd (lookup k t guard (pl_store pl))) (pl_store pl')
       \<and> (if fst (lookup k t guard (pl_store pl)) \<noteq> None
          then lp_hits plan' = lp_hits plan @ [k] \<and> lp_misses plan' = lp_misses plan
          else lp_hits plan' = lp_hits plan \<and> lp_misses plan' = lp_misses plan @ [k])"
    and "pl_manifest pl' = pl_manifest pl" unfolding pl1(1) by blast+
qed

text \<open>Resident behind a guard of at least \<open>g\<close>.\<close>

definition held :: "nat \<Rightarrow> store \<Rightarrow> expert_key \<Rightarrow> bool" where
  "held g st k \<longleftrightarrow> (\<exists>i. st_index st k = Some i \<and> es_state (st_slots st ! i) = Resident
     \<and> g \<le> es_guard_timeline (st_slots st ! i))"

lemma held_resident: "held g st k \<Longrightarrow> resident st k"
  by (auto simp: held_def resident_def state_of_def)

lemma held_evolves:
  assumes "evolves st st'" "store_inv st" "held g st k" "st_completed st < g"
  shows "held g st' k"
proof -
  obtain i where i: "st_index st k = Some i" "es_state (st_slots st ! i) = Resident"
    "g \<le> es_guard_timeline (st_slots st ! i)" using assms(3) by (auto simp: held_def)
  note d = index_okD [OF store_inv_dests(1) [OF assms(2)] i(1)]
  have keep: "keeps i st st'"
    using evolves_keeps [OF assms(1,2) d(1) i(2)] i(3) assms(4) evolves_completed [OF assms(1)] by simp
  then have "st_index st' (es_key (st_slots st' ! i)) = Some i"
    using d(1) by (intro index_ok_held [OF store_inv_dests(1) [OF evolves_inv [OF assms(1,2)]]]) (simp_all add: keeps_def)
  then show ?thesis using keep d(2) i(3) by (auto simp: held_def keeps_def)
qed

lemma lookup_hit_held:
  assumes "store_inv st" "fst (lookup k t g st) \<noteq> None"
  shows "held g (snd (lookup k t g st)) k"
proof -
  obtain i where i: "st_index st k = Some i" "es_state (st_slots st ! i) = Resident"
    using assms(2) by (auto simp: lookup_def Let_def split: option.splits if_splits)
  have "i < length (st_slots st)" using index_okD(1) [OF store_inv_dests(1) [OF assms(1)] i(1)] .
  then show ?thesis using i by (simp add: held_def lookup_def Let_def)
qed

lemma plan_fold_effect:
  assumes "manifest_shaped (pl_manifest pl)" "store_inv (pl_store pl)"
    and "fold (\<lambda>id. plan_one env fixed guard (key id)) ids (plan, pl) = (plan', pl')"
  shows "evolves (pl_store pl) (pl_store pl')"
    "mset (lp_hits plan') + mset (lp_misses plan') = mset (lp_hits plan) + mset (lp_misses plan) + mset (map key ids)"
    "st_completed (pl_store pl) < guard \<Longrightarrow> \<forall>k \<in> set (lp_hits plan). held guard (pl_store pl) k \<Longrightarrow>
       \<forall>k \<in> set (lp_hits plan'). held guard (pl_store pl') k"
proof -
  have "evolves (pl_store pl) (pl_store pl')
    \<and> mset (lp_hits plan') + mset (lp_misses plan') = mset (lp_hits plan) + mset (lp_misses plan) + mset (map key ids)
    \<and> (st_completed (pl_store pl) < guard \<longrightarrow> (\<forall>k \<in> set (lp_hits plan). held guard (pl_store pl) k) \<longrightarrow>
         (\<forall>k \<in> set (lp_hits plan'). held guard (pl_store pl') k))"
    using assms
  proof (induction ids arbitrary: plan pl)
    case (Cons id ids)
    obtain plan1 pl1 where one: "plan_one env fixed guard (key id) (plan, pl) = (plan1, pl1)" by fastforce
    note e = plan_one_effect [OF Cons.prems(1) one]
    from e(1) obtain t where t: "evolves (snd (lookup (key id) t guard (pl_store pl))) (pl_store pl1)"
      "if fst (lookup (key id) t guard (pl_store pl)) \<noteq> None
          then lp_hits plan1 = lp_hits plan @ [key id] \<and> lp_misses plan1 = lp_misses plan
          else lp_hits plan1 = lp_hits plan \<and> lp_misses plan1 = lp_misses plan @ [key id]" by blast
    let ?st = "snd (lookup (key id) t guard (pl_store pl))"
    have look: "evolves (pl_store pl) ?st" by (rule evolves_ops(1))
    have all: "evolves (pl_store pl) (pl_store pl1)" by (rule evolves_trans [OF look t(1)])
    have inv1: "store_inv (pl_store pl1)" by (rule evolves_inv [OF all Cons.prems(2)])
    have invl: "store_inv ?st" by (rule evolves_inv [OF look Cons.prems(2)])
    have m1: "manifest_shaped (pl_manifest pl1)" using e(2) Cons.prems(1) by simp
    have rest: "fold (\<lambda>id. plan_one env fixed guard (key id)) ids (plan1, pl1) = (plan', pl')"
      using Cons.prems(3) one by simp
    have hits: "\<forall>k \<in> set (lp_hits plan1). held guard (pl_store pl1) k"
      if g: "st_completed (pl_store pl) < guard" and h: "\<forall>k \<in> set (lp_hits plan). held guard (pl_store pl) k"
    proof (cases "fst (lookup (key id) t guard (pl_store pl)) \<noteq> None")
      case True
      have "held guard ?st (key id)" by (rule lookup_hit_held [OF Cons.prems(2) True])
      then have "held guard (pl_store pl1) (key id)"
        using held_evolves [OF t(1) invl] g evolves_completed [OF look] by simp
      then show ?thesis using t(2) True h held_evolves [OF all Cons.prems(2) _ g] by simp
    next
      case False
      then show ?thesis using t(2) h held_evolves [OF all Cons.prems(2) _ g] by simp
    qed
    note ih = Cons.IH [OF m1 inv1 rest]
    show ?case
    proof (intro conjI impI)
      show "evolves (pl_store pl) (pl_store pl')" using ih by (blast intro: evolves_trans [OF all])
      show "mset (lp_hits plan') + mset (lp_misses plan')
          = mset (lp_hits plan) + mset (lp_misses plan) + mset (map key (id # ids))"
        using ih t(2) by (simp split: if_splits)
      show "\<forall>k \<in> set (lp_hits plan'). held guard (pl_store pl') k"
        if "st_completed (pl_store pl) < guard" "\<forall>k \<in> set (lp_hits plan). held guard (pl_store pl) k"
        using ih hits [OF that] that(1) evolves_completed [OF all] by simp
    qed
  qed simp
  then show "evolves (pl_store pl) (pl_store pl')"
    "mset (lp_hits plan') + mset (lp_misses plan') = mset (lp_hits plan) + mset (lp_misses plan) + mset (map key ids)"
    "st_completed (pl_store pl) < guard \<Longrightarrow> \<forall>k \<in> set (lp_hits plan). held guard (pl_store pl) k \<Longrightarrow>
       \<forall>k \<in> set (lp_hits plan'). held guard (pl_store pl') k" by blast+
qed

lemma note_heat_fold:
  "pl_manifest (fold (\<lambda>(id, score). with_store (note_heat (key id) score a)) xs pl) = pl_manifest pl"
  "evolves (pl_store pl) (pl_store (fold (\<lambda>(id, score). with_store (note_heat (key id) score a)) xs pl))"
proof -
  show "pl_manifest (fold (\<lambda>(id, score). with_store (note_heat (key id) score a)) xs pl) = pl_manifest pl"
    by (induction xs arbitrary: pl) auto
  show "evolves (pl_store pl) (pl_store (fold (\<lambda>(id, score). with_store (note_heat (key id) score a)) xs pl))"
  proof (induction xs arbitrary: pl)
    case (Cons x xs)
    obtain id score where x: "x = (id, score)" by fastforce
    have "evolves (pl_store pl) (pl_store (with_store (note_heat (key id) score a) pl))" by (simp add: evolves_ops(8))
    from evolves_trans [OF this Cons] show ?case by (simp only: x fold_simps prod.case)
  qed simp
qed

lemma plan_layer_effect:
  assumes m: "manifest_shaped (pl_manifest pl)" and inv: "store_inv (pl_store pl)" and p: "plan_layer env rd pl = (plan, pl')"
  shows "evolves (pl_store pl) (pl_store pl')"
    "mset (lp_hits plan) + mset (lp_misses plan) = mset (map (\<lambda>id. ExpertKey (ucast (rd_layer rd)) id) (rd_chosen rd))"
    "st_completed (pl_store pl) < rd_guard_hits rd \<Longrightarrow> \<forall>k \<in> set (lp_hits plan). held (rd_guard_hits rd) (pl_store pl') k"
proof -
  let ?key = "\<lambda>id. ExpertKey (ucast (rd_layer rd)) id :: expert_key"
  define pl1 where "pl1 = fold (\<lambda>(id, score). with_store (note_heat (?key id) score (1 / 8))) (rd_near rd) pl"
  define pl2 where "pl2 = pl1\<lparr>pl_groups := pl_groups pl1 @ [\<lparr>fg_pending = 0, fg_failed = False\<rparr>]\<rparr>"
  define plan0 where "plan0 = \<lparr>lp_layer = rd_layer rd, lp_hits = [], lp_misses = [], lp_issued = 0, lp_miss_bytes = 0,
                  lp_group = length (pl_groups pl1), lp_joined = []\<rparr>"
  obtain plan1 pl3 where f: "fold (\<lambda>id. plan_one env (st_fixed_cache (pl_store pl1)) (rd_guard_hits rd) (?key id))
      (rd_chosen rd) (plan0, pl2) = (plan1, pl3)" by fastforce
  have pl1: "evolves (pl_store pl) (pl_store pl1)" "pl_manifest pl1 = pl_manifest pl"
    unfolding pl1_def by (rule note_heat_fold)+
  have pl2: "pl_store pl2 = pl_store pl1" "manifest_shaped (pl_manifest pl2)" "store_inv (pl_store pl2)"
    using m pl1(2) evolves_inv [OF pl1(1) inv] by (simp_all add: pl2_def)
  note e = plan_fold_effect [OF pl2(2,3) f]
  have res: "plan = plan1" "pl_store pl' = pl_store pl3"
    using p unfolding plan_layer_def Let_def pl1_def [symmetric] plan0_def [symmetric] pl2_def [symmetric] f by auto
  show "evolves (pl_store pl) (pl_store pl')" using evolves_trans [OF pl1(1)] e(1) pl2(1) res(2) by simp
  show "mset (lp_hits plan) + mset (lp_misses plan) = mset (map ?key (rd_chosen rd))"
    using e(2) res(1) by (simp add: plan0_def)
  show "\<forall>k \<in> set (lp_hits plan). held (rd_guard_hits rd) (pl_store pl') k" if "st_completed (pl_store pl) < rd_guard_hits rd"
    using e(3) that evolves_completed [OF pl1(1)] pl2(1) res by (simp add: plan0_def)
qed

lemma evolves_reachable: "evolves st st' \<Longrightarrow> reachable st \<Longrightarrow> reachable st'"
  unfolding evolves_def using steps_reachable by blast

lemma plan_layer_hits_stay_parts:
  assumes "reachable (pl_store pl)" "manifest_shaped (pl_manifest pl)" "plan_layer env rd pl = (plan, pl')"
  shows "mset (lp_hits plan) + mset (lp_misses plan) = mset (map (ExpertKey (ucast (rd_layer rd))) (rd_chosen rd))"
    and "st_completed (pl_store pl) < rd_guard_hits rd \<Longrightarrow> \<forall>k \<in> set (lp_hits plan). held (rd_guard_hits rd) (pl_store pl') k"
    and "reachable (pl_store pl')"
proof -
  note e = plan_layer_effect [OF assms(2) reachable_store_inv [OF assms(1)] assms(3)]
  show "mset (lp_hits plan) + mset (lp_misses plan) = mset (map (ExpertKey (ucast (rd_layer rd))) (rd_chosen rd))"
    using e(2) by simp
  show "\<forall>k \<in> set (lp_hits plan). held (rd_guard_hits rd) (pl_store pl') k" if "st_completed (pl_store pl) < rd_guard_hits rd"
    by (rule e(3) [OF that])
  show "reachable (pl_store pl')" by (rule evolves_reachable [OF e(1) assms(1)])
qed

text \<open>
  C6. Planning a layer classifies every chosen expert exactly once, as a hit or as a miss, and
  when the caller's guard is ahead of the completed timeline every hit is still resident when the
  plan is done, in a slot whose guard is at least the caller's: the evictions that later misses of
  the same layer cause never take it. (With a guard that is not ahead, the default 0 included, a hit
  may be evicted again.)
\<close>

theorem plan_layer_hits_stay:
  assumes "reachable (pl_store pl)" "manifest_shaped (pl_manifest pl)" "plan_layer env rd pl = (plan, pl')"
  shows "(mset (lp_hits plan) + mset (lp_misses plan) = mset (map (ExpertKey (ucast (rd_layer rd))) (rd_chosen rd)))
   \<and> (st_completed (pl_store pl) < rd_guard_hits rd \<longrightarrow> (\<forall>k \<in> set (lp_hits plan). resident (pl_store pl') k
       \<and> (\<exists>i. st_index (pl_store pl') k = Some i \<and> rd_guard_hits rd \<le> es_guard_timeline (st_slots (pl_store pl') ! i))))
   \<and> (reachable (pl_store pl'))"
  using plan_layer_hits_stay_parts [OF assms] held_resident [of "rd_guard_hits rd" "pl_store pl'"] by (auto simp: held_def)

definition demo_planner :: planner where
  "demo_planner = \<lparr>pl_store = demo_resident, pl_manifest = demo_manifest, pl_policy = LruPolicy,
     pl_clock = kDemandStampBase, pl_stats = zero_planner_stats, pl_flights = [], pl_groups = [], pl_backfills = [],
     pl_current = None\<rparr>"

definition demo_env :: io_env where
  "demo_env = \<lparr>shard_require = (\<lambda>_. None), io_submit = (\<lambda>_ _. None)\<rparr>"

lemma demo_manifest_shaped: "manifest_shaped demo_manifest"
  by (simp add: manifest_shaped_def demo_manifest_def entry_shaped_def demo_entry_def kExpertParts_def)

theorem plan_layer_hits_stay_witness:
  "\<exists>plan pl'. plan_layer demo_env \<lparr>rd_layer = 0, rd_chosen = [1], rd_near = [], rd_guard_hits = 3\<rparr> demo_planner = (plan, pl')
     \<and> lp_hits plan = [demo_key] \<and> resident (pl_store pl') demo_key"
proof -
  let ?rd = "\<lparr>rd_layer = 0, rd_chosen = [1], rd_near = [], rd_guard_hits = 3\<rparr> :: route_decision"
  obtain plan pl' where p: "plan_layer demo_env ?rd demo_planner = (plan, pl')" by fastforce
  have "lp_hits (fst (plan_layer demo_env ?rd demo_planner)) = [demo_key]"
    by (simp add: plan_layer_def plan_one_def demo_planner_def next_stamp_def lookup_def demo_resident_facts demo_key_def
        demo_slot_def default_slot_def Let_def split: prod.splits)
  then have h: "lp_hits plan = [demo_key]" by (simp add: p)
  have "st_completed (pl_store demo_planner) < rd_guard_hits ?rd" by (simp add: demo_planner_def demo_resident_facts)
  then have "\<forall>k \<in> set (lp_hits plan). resident (pl_store pl') k"
    using plan_layer_hits_stay [OF _ _ p] by (simp add: demo_planner_def demo_reachable demo_manifest_shaped)
  with p h show ?thesis by simp
qed

section \<open>The eviction policy\<close>

text \<open>
  The contract of \<^verbatim>\<open>EvictionPolicy\<close>: as many victims as were asked for, as far as there are
  candidates, each of them a candidate, none twice.
\<close>

locale eviction_policy =
  fixes pick :: "expert_slot list \<Rightarrow> nat \<Rightarrow> nat list"
  assumes pick_length: "length (pick c n) = min n (length c)"
    and pick_subset: "set (pick c n) \<subseteq> es_slot ` set c"
    and pick_distinct: "distinct (map es_slot c) \<Longrightarrow> distinct (pick c n)"

lemma evict_evictable:
  assumes "\<not> st_fixed_cache st" "i < length (st_slots st)" "is_evictable st (st_slots st ! i)"
  shows "evict i st = (Inr (), recycle i st)"
  using assms by (simp add: evict_def Let_def is_evictable_def live_def)

lemma recycle_fields [simp]:
  "st_fixed_cache (recycle i st) = st_fixed_cache st"
  "st_free_list (recycle i st) = st_free_list st @ [i]"
  by (simp_all add: recycle_def release_locked_def unpublish_locked_def Let_def)

lemma recycle_other:
  assumes "j \<noteq> i" "is_evictable st (st_slots st ! j)" "j < length (st_slots st)"
  shows "is_evictable (recycle i st) (st_slots (recycle i st) ! j)" "j < length (st_slots (recycle i st))"
proof -
  obtain s' where "st_slots (recycle i st) = (st_slots st)[i := s']" using recycle_slots by blast
  then show "is_evictable (recycle i st) (st_slots (recycle i st) ! j)" "j < length (st_slots (recycle i st))"
    using assms by (simp_all add: is_evictable_def)
qed

lemma evict_victims_all:
  assumes "\<not> st_fixed_cache st" "distinct vs" "freed \<le> want"
    "\<forall>v \<in> set vs. v < length (st_slots st) \<and> is_evictable st (st_slots st ! v)"
    "evict_victims want vs freed refused st = (f, r, st')"
  shows "f = min want (freed + length vs) \<and> r = refused
     \<and> free_slots st' + freed = free_slots st + f"
  using assms
proof (induction want vs freed refused st rule: evict_victims.induct)
  case (1 want freed refused st)
  then show ?case by simp
next
  case (2 want v vs freed refused st)
  show ?case
  proof (cases "freed \<ge> want")
    case True
    then show ?thesis using "2.prems" by simp
  next
    case False
    have ev: "evict v st = (Inr (), recycle v st)" using "2.prems" by (intro evict_evictable) simp_all
    have vs: "\<forall>w \<in> set vs. w < length (st_slots (recycle v st)) \<and> is_evictable (recycle v st) (st_slots (recycle v st) ! w)"
    proof
      fix w assume w: "w \<in> set vs"
      then have "w \<noteq> v" using "2.prems"(2) by auto
      with w "2.prems"(4) show "w < length (st_slots (recycle v st)) \<and> is_evictable (recycle v st) (st_slots (recycle v st) ! w)"
        by (simp add: recycle_other)
    qed
    have "f = min want ((freed + 1) + length vs) \<and> r = refused
        \<and> free_slots st' + (freed + 1) = free_slots (recycle v st) + f"
      by (rule "2.IH"(2) [OF False ev [symmetric] refl]) (use "2.prems" False vs ev in simp_all)
    then show ?thesis by (simp add: free_slots_def)
  qed
qed

lemma evictable_slots:
  assumes "store_inv st" "s \<in> set (evictable st)"
  shows "es_slot s < length (st_slots st)" "st_slots st ! es_slot s = s" "is_evictable st s"
proof -
  have s: "s \<in> set (st_slots st)" "is_evictable st s" using assms(2) by (auto simp: evictable_def split: if_splits)
  then obtain i where "i < length (st_slots st)" "st_slots st ! i = s" by (auto simp: in_set_conv_nth)
  then show "es_slot s < length (st_slots st)" "st_slots st ! es_slot s = s" "is_evictable st s"
    using slot_okD [OF store_inv_dests(5) [OF assms(1)]] s(2) by (auto simp: slot_ok_def)
qed

lemma slots_distinct:
  assumes "store_inv st"
  shows "distinct (map es_slot (st_slots st))" "distinct (map es_slot (evictable st))"
proof -
  have "map es_slot (st_slots st) = [0..<length (st_slots st)]"
    using slot_okD [OF store_inv_dests(5) [OF assms]] by (intro nth_equalityI) (simp_all add: slot_ok_def)
  then show d: "distinct (map es_slot (st_slots st))" by simp
  then show "distinct (map es_slot (evictable st))" by (simp add: evictable_def distinct_map_filter)
qed

context eviction_policy
begin

lemma reclaim_frees:
  assumes inv: "store_inv st" and r: "reclaim_store pick want st = (freed, refused, st')"
  shows "freed = min want (length (evictable st))" "refused = 0" "free_slots st' = free_slots st + freed"
proof -
  have "freed = min want (length (evictable st)) \<and> refused = 0 \<and> free_slots st' = free_slots st + freed"
  proof (cases "want = 0 \<or> evictable st = []")
    case True
    then show ?thesis using r by (auto simp: reclaim_store_def Let_def split: if_splits)
  next
    case False
    let ?n = "min (length (evictable st)) (want * 2)"
    have fx: "\<not> st_fixed_cache st" using False by (auto simp: evictable_def)
    have run: "evict_victims want (pick (evictable st) ?n) 0 0 st = (freed, refused, st')"
      using r False by (simp add: reclaim_store_def Let_def)
    have all: "\<forall>v \<in> set (pick (evictable st) ?n). v < length (st_slots st) \<and> is_evictable st (st_slots st ! v)"
      using pick_subset [of "evictable st" ?n] evictable_slots [OF inv] by fastforce
    show ?thesis
      using evict_victims_all [OF fx pick_distinct [OF slots_distinct(2) [OF inv]] _ all run]
      by (simp add: pick_length min_def split: if_splits)
  qed
  then show "freed = min want (length (evictable st))" "refused = 0" "free_slots st' = free_slots st + freed" by simp_all
qed

end

interpretation lru: eviction_policy lru_choose_victims
proof
  fix c n
  show "length (lru_choose_victims c n) = min n (length c)" by (simp add: lru_choose_victims_def)
  show "set (lru_choose_victims c n) \<subseteq> es_slot ` set c"
    by (auto simp: lru_choose_victims_def dest!: in_set_takeD)
  show "distinct (lru_choose_victims c n)" if "distinct (map es_slot c)"
  proof -
    have "distinct (map es_slot (sort_key (\<lambda>s. (es_last_use_token s, es_slot s)) c))"
      using that mset_eq_imp_distinct_iff [of "map es_slot (sort_key (\<lambda>s. (es_last_use_token s, es_slot s)) c)" "map es_slot c"]
      by simp
    then show ?thesis by (simp add: lru_choose_victims_def flip: take_map)
  qed
qed

interpretation score_aware: eviction_policy score_aware_choose_victims
  unfolding score_aware_choose_victims_def by (rule lru.eviction_policy_axioms)

lemma reclaim_frees_what_it_can_parts:
  assumes "reachable (pl_store pl)" "reclaim want pl = (freed, pl')"
  shows "freed = min want (length (evictable (pl_store pl)))"
    and "free_slots (pl_store pl') = free_slots (pl_store pl) + freed"
    and "ps_evict_failures (pl_stats pl') = ps_evict_failures (pl_stats pl)"
proof -
  obtain refused st' where r: "reclaim_store (choose_victims (pl_policy pl)) want (pl_store pl) = (freed, refused, st')"
    and pl': "pl_store pl' = st'" "ps_evict_failures (pl_stats pl') = ps_evict_failures (pl_stats pl) + refused"
    using assms(2) by (auto simp: reclaim_def upd_pstats_def Let_def split: prod.splits)
  note inv = reachable_store_inv [OF assms(1)]
  have "freed = min want (length (evictable (pl_store pl))) \<and> refused = 0
      \<and> free_slots st' = free_slots (pl_store pl) + freed"
    using r lru.reclaim_frees [OF inv] score_aware.reclaim_frees [OF inv] by (cases "pl_policy pl") auto
  then show "freed = min want (length (evictable (pl_store pl)))"
    "free_slots (pl_store pl') = free_slots (pl_store pl) + freed"
    "ps_evict_failures (pl_stats pl') = ps_evict_failures (pl_stats pl)" using pl' by simp_all
qed

text \<open>
  Under either policy \<^verbatim>\<open>reclaim\<close> frees as many slots as were asked for, as far as there are
  evictable ones, none of its victims refuses, and the free list grows by that number.
\<close>

theorem reclaim_frees_what_it_can:
  assumes "reachable (pl_store pl)" "reclaim want pl = (freed, pl')"
  shows "(freed = min want (length (evictable (pl_store pl))))
   \<and> (free_slots (pl_store pl') = free_slots (pl_store pl) + freed)
   \<and> (ps_evict_failures (pl_stats pl') = ps_evict_failures (pl_stats pl))"
  by (intro reclaim_frees_what_it_can_parts [OF assms] conjI)

theorem reclaim_frees_what_it_can_witness:
  "\<exists>pl'. reclaim 1 demo_planner = (1, pl') \<and> free_slots (pl_store pl') = 2"
proof -
  have r: "reachable (pl_store demo_planner)" by (simp add: demo_planner_def demo_reachable)
  obtain freed pl' where p: "reclaim 1 demo_planner = (freed, pl')" by fastforce
  have "length (evictable (pl_store demo_planner)) = 1" "free_slots (pl_store demo_planner) = 1"
    by (simp_all add: demo_planner_def evictable_def demo_resident_unfrozen demo_resident_facts is_evictable_def live_def
        demo_slot_def default_slot_def free_slots_def)
  with reclaim_frees_what_it_can [OF r p] p show ?thesis by simp
qed

lemma sort_key_hd:
  assumes "xs \<noteq> []"
  shows "hd (sort_key f xs) \<in> set xs" "x \<in> set xs \<Longrightarrow> f (hd (sort_key f xs)) \<le> f x"
proof -
  have len: "length (sort_key f xs) = length xs" by simp
  with assms have ne: "sort_key f xs \<noteq> []" by (metis length_0_conv)
  then show "hd (sort_key f xs) \<in> set xs" by (metis hd_in_set set_sort)
  have "sorted (map f (sort_key f xs))" by simp
  moreover have "x \<in> set (sort_key f xs)" if "x \<in> set xs" using that by simp
  ultimately show "f (hd (sort_key f xs)) \<le> f x" if "x \<in> set xs"
    using ne that by (cases "sort_key f xs") auto
qed

text \<open>
  The linear scan of \<^verbatim>\<open>evict_lru\<close> and the sort of \<^verbatim>\<open>LruPolicy::choose_victims\<close> name the same
  victim: over the same store the scan evicts exactly the first slot of the policy's order, and
  finds none just when the policy has none.
\<close>

theorem evict_lru_agrees_with_policy:
  assumes "reachable st" "\<not> st_fixed_cache st" "st_evict_path st = PathOff" "evict_lru st = (r, st')"
  shows "lru_choose_victims (evictable st) 1 = (case r of Inr i \<Rightarrow> [i] | Inl _ \<Rightarrow> [])"
proof (cases "evictable st = []")
  case True
  then have "lru_victim st = None" using assms(2) lru_victim_None [of st] by (auto simp: evictable_def filter_empty_conv)
  then show ?thesis using assms(2,4) True by (auto simp: evict_lru_def lru_choose_victims_def)
next
  case False
  note inv = reachable_store_inv [OF assms(1)]
  let ?f = "\<lambda>s. (es_last_use_token s, es_slot s)"
  define x where "x = hd (sort_key ?f (evictable st))"
  note x = sort_key_hd [OF False, where f = ?f, folded x_def]
  obtain i where i: "lru_victim st = Some i"
    using False lru_victim_None [of st] assms(2) by (fastforce simp: evictable_def filter_empty_conv)
  have old: "is_oldest st None (length (st_slots st)) i"
    using lru_scan_Some [of st None i] i assms(3) by (simp add: lru_victim_def)
  define s where "s = st_slots st ! i"
  have len: "i < length (st_slots st)" using old by (simp add: is_oldest_def)
  have si: "es_slot s = i" using slot_okD [OF store_inv_dests(5) [OF inv] len] by (simp add: s_def slot_ok_def)
  have "s \<in> set (evictable st)"
    using old len assms(2) by (auto simp: evictable_def is_oldest_def scan_admits_def s_def)
  then have le: "?f x \<le> ?f s" by (rule x(2))
  note xs = evictable_slots [OF inv x(1)]
  have "es_last_use_token s < es_last_use_token x \<or> es_last_use_token s = es_last_use_token x \<and> i \<le> es_slot x"
    using old xs unfolding is_oldest_def slot_stamp_def s_def scan_admits_def by auto
  then have eq: "es_slot x = i" using le si by (auto simp: less_eq_prod_def)
  have "take 1 (sort_key ?f (evictable st)) = [x]"
    using False by (cases "sort_key ?f (evictable st)") (simp_all add: x_def, metis length_0_conv length_sort)
  then show ?thesis
    using assms(2,4) i eq False by (auto simp: lru_choose_victims_def evict_lru_def min_def Suc_le_eq)
qed

theorem evict_lru_agrees_with_policy_witness:
  "lru_choose_victims (evictable demo_resident) 1 = (case fst (evict_lru demo_resident) of Inr i \<Rightarrow> [i] | Inl _ \<Rightarrow> [])"
proof -
  have "evict_lru demo_resident = (fst (evict_lru demo_resident), snd (evict_lru demo_resident))" by simp
  then show ?thesis
    by (rule evict_lru_agrees_with_policy [OF demo_reachable(3) demo_resident_unfrozen(2) demo_resident_facts(7)])
qed

section \<open>The backfill\<close>

text \<open>Store changes that only begin fills and report runs: they never remove a resident expert.\<close>

fun fill_op :: "store_op \<Rightarrow> bool" where
  "fill_op (OpBeginFill k e t) \<longleftrightarrow> op_shaped (OpBeginFill k e t)"
| "fill_op (OpFinishRun i ok t) \<longleftrightarrow> True"
| "fill_op _ \<longleftrightarrow> False"

inductive refills :: "store \<Rightarrow> store \<Rightarrow> bool" where
  refills_refl: "refills st st"
| refills_step: "refills st st' \<Longrightarrow> fill_op op \<Longrightarrow> refills st (run_op op st')"

lemma refills_trans: "refills b c \<Longrightarrow> refills a b \<Longrightarrow> refills a c"
  by (induction rule: refills.induct) (auto intro: refills.intros)

lemma fill_op_shaped: "fill_op op \<Longrightarrow> op_shaped op"
  by (cases op) simp_all

lemma refills_inv: "refills st st' \<Longrightarrow> store_inv st \<Longrightarrow> store_inv st'"
  by (induction rule: refills.induct) (auto intro: run_op_inv fill_op_shaped)

lemma refills_keeps:
  assumes "refills st st'" "store_inv st" "es_state (st_slots st ! i) = Resident"
  shows "keeps i st st'"
  using assms
proof (induction rule: refills.induct)
  case (refills_step st st' op)
  then have k: "keeps i st st'" by simp
  then have r: "es_state (st_slots st' ! i) = Resident" by (simp add: keeps_def)
  have "store_inv st'" by (rule refills_inv [OF refills_step.hyps(1) refills_step.prems(1)])
  then have "keeps i st' (run_op op st')"
    using fills_keep(1) [OF _ r] finishes_keep(1) [OF r] refills_step.hyps(2) by (cases op) auto
  with k show ?case by (rule keeps_trans)
qed (simp add: keeps_refl)

lemma refills_resident:
  assumes "refills st st'" "store_inv st" "resident st k"
  shows "resident st' k"
proof -
  obtain i where i: "st_index st k = Some i" "i < length (st_slots st)" "es_state (st_slots st ! i) = Resident"
    "es_key (st_slots st ! i) = k" by (rule resident_slot [OF assms(2,3)])
  have keep: "keeps i st st'" by (rule refills_keeps [OF assms(1,2) i(3)])
  then have "st_index st' (es_key (st_slots st' ! i)) = Some i"
    using i(2) by (intro index_ok_held [OF store_inv_dests(1) [OF refills_inv [OF assms(1,2)]]]) (simp_all add: keeps_def)
  then show ?thesis using keep i(4) by (auto simp: resident_def state_of_def keeps_def)
qed

lemma finish_unissued_refills: "refills st (finish_unissued n slot s st)"
proof (induction n)
  case (Suc n)
  have "refills st (run_op (OpFinishRun slot False s) (finish_unissued n slot s st))"
    by (rule refills_step [OF Suc]) simp
  then show ?case by (simp add: finish_unissued_def)
qed (simp add: finish_unissued_def refills_refl)

text \<open>With a free slot and an absent key, a fetch needs no eviction.\<close>

lemma begin_fill_not_exhausted:
  assumes "store_inv st" "free_slots st \<noteq> 0"
  shows "fst (begin_fill k e t st) \<noteq> Inl ResourceExhausted"
proof -
  note d = store_inv_dests [OF assms(1)]
  have fl: "st_free_list st \<noteq> []" using assms(2) by (simp add: free_slots_def)
  then have "\<not> st_cache_frozen st" using free_ok_last [OF d(2)] d(6) by (auto simp: frozen_ok_def)
  then show ?thesis using fl by (auto simp: begin_fill_def reserve_locked_def Let_def)
qed

lemma fetch_refills:
  assumes "manifest_shaped (pl_manifest pl)" "store_inv (pl_store pl)" "free_slots (pl_store pl) \<noteq> 0"
  shows "refills (pl_store pl) (pl_store (snd (fetch env k prio owner s pl)))"
    "pl_backfills (snd (fetch env k prio owner s pl)) = pl_backfills pl"
proof -
  have "refills (pl_store pl) (pl_store (snd (fetch env k prio owner s pl)))
    \<and> pl_backfills (snd (fetch env k prio owner s pl)) = pl_backfills pl"
  proof (cases "require_expert (pl_manifest pl) k")
    case (Inl e)
    then show ?thesis by (simp add: fetch_def refills_refl)
  next
    case (Inr e)
    have sh: "op_shaped (OpBeginFill k e Cached)"
      using require_expert_shaped [OF assms(1) Inr] by (simp add: entry_shaped_def)
    obtain r st where b: "begin_fill k e Cached (pl_store pl) = (r, st)" by fastforce
    have "r \<noteq> Inl ResourceExhausted" using begin_fill_not_exhausted [OF assms(2,3), of k e Cached] b by simp
    then have fr: "fetch_reserve k e pl = (r, pl\<lparr>pl_store := st\<rparr>)" by (cases r) (auto simp: fetch_reserve_def b)
    have st: "refills (pl_store pl) st"
      using refills_step [OF refills_refl, of "OpBeginFill k e Cached" "pl_store pl"] sh b by simp
    show ?thesis
      using Inr fr st
      by (cases r) (auto simp: fetch_def Let_def next_stamp_def upd_pstats_def split: prod.splits option.splits
          intro: refills_trans [OF finish_unissued_refills])
  qed
  then show "refills (pl_store pl) (pl_store (snd (fetch env k prio owner s pl)))"
    "pl_backfills (snd (fetch env k prio owner s pl)) = pl_backfills pl" by simp_all
qed

lemma upd_backfill_simps [simp]:
  "pl_backfills (upd_backfill b f pl) = (pl_backfills pl)[b := f (pl_backfills pl ! b)]"
  "pl_backfills (upd_pstats g pl) = pl_backfills pl"
  by (simp_all add: upd_backfill_def upd_pstats_def)

text \<open>One turn of the loop either ends it or moves on to the next key, and only fills slots.\<close>

definition pump_next :: "nat \<Rightarrow> planner \<Rightarrow> planner \<Rightarrow> bool" where
  "pump_next b pl pl' \<longleftrightarrow>
     refills (pl_store pl) (pl_store pl') \<and> pl_manifest pl' = pl_manifest pl
     \<and> length (pl_backfills pl') = length (pl_backfills pl)
     \<and> bf_order (pl_backfills pl' ! b) = bf_order (pl_backfills pl ! b)"

lemma pump_turn:
  assumes m: "manifest_shaped (pl_manifest pl)" and inv: "store_inv (pl_store pl)" and b: "b < length (pl_backfills pl)"
  shows "(\<exists>pl'. pump_loop (Suc fuel) env b pl = Some pl' \<and> pump_next b pl pl')
    \<or> bf_next (pl_backfills pl ! b) < length (bf_order (pl_backfills pl ! b))
      \<and> (\<exists>pl'. pump_loop (Suc fuel) env b pl = pump_loop fuel env b pl' \<and> pump_next b pl pl'
            \<and> bf_next (pl_backfills pl' ! b) = bf_next (pl_backfills pl ! b) + 1)"
proof -
  define bf where "bf = pl_backfills pl ! b"
  define rank where "rank = bf_next bf"
  define k where "k = bf_order bf ! rank"
  define pl1 where "pl1 = upd_backfill b (\<lambda>x. x\<lparr>bf_next := rank + 1\<rparr>) pl"
  define pl2 where "pl2 = upd_backfill b (\<lambda>x. x\<lparr>bf_inflight := bf_inflight x + 1\<rparr>) pl1"
  obtain r pl3 where f: "fetch env k Backfill (OwnerBackfill b) (backfill_stamp bf rank) pl2 = (r, pl3)" by fastforce
  show ?thesis
  proof (cases "bf_active bf \<and> bf_inflight bf < bf_max_inflight bf \<and> free_slots (pl_store pl) \<noteq> 0
      \<and> rank < length (bf_order bf)")
    case False
    then show ?thesis
      using b by (auto simp: bf_def rank_def pump_next_def Let_def not_le not_less refills_refl)
  next
    case True
    have pl2: "pl_store pl2 = pl_store pl" "pl_manifest pl2 = pl_manifest pl" by (simp_all add: pl1_def pl2_def)
    have bf2: "pl_backfills pl2 ! b = bf\<lparr>bf_next := rank + 1, bf_inflight := bf_inflight bf + 1\<rparr>"
      "length (pl_backfills pl2) = length (pl_backfills pl)" using b by (simp_all add: pl1_def pl2_def bf_def)
    note ff = fetch_refills [of pl2, unfolded pl2, OF m inv] fetch_evolves(2) [of pl2, unfolded pl2, OF m]
    have pl3: "refills (pl_store pl) (pl_store pl3)" "pl_backfills pl3 = pl_backfills pl2" "pl_manifest pl3 = pl_manifest pl"
      using ff [of env k Backfill "OwnerBackfill b" "backfill_stamp bf rank"] True f by simp_all
    have unfold: "pump_loop (Suc fuel) env b pl =
      (if slot_of (pl_store pl1) k \<noteq> None then pump_loop fuel env b pl1
       else case r of
              Inr _ \<Rightarrow> pump_loop fuel env b (upd_pstats (\<lambda>s. s\<lparr>ps_backfill_issued := ps_backfill_issued s + 1\<rparr>) pl3)
            | Inl e \<Rightarrow> if e = AlreadyExists then pump_loop fuel env b (upd_backfill b (\<lambda>x. x\<lparr>bf_inflight := bf_inflight x - 1\<rparr>) pl3)
                else Some (upd_backfill b (\<lambda>x. x\<lparr>bf_active := False\<rparr>)
                  (upd_pstats (\<lambda>s. s\<lparr>ps_backfill_failed := ps_backfill_failed s + 1\<rparr>)
                    (upd_backfill b (\<lambda>x. x\<lparr>bf_inflight := bf_inflight x - 1\<rparr>) pl3))))"
    proof -
      have c: "\<not> (\<not> bf_active bf \<or> bf_inflight bf \<ge> bf_max_inflight bf)"
        "\<not> (free_slots (pl_store pl) = 0 \<or> rank \<ge> length (bf_order bf))" using True by auto
      show ?thesis
        unfolding pump_loop.simps(2) Let_def bf_def [symmetric] unfolding rank_def [symmetric]
        unfolding k_def [symmetric] pl1_def [symmetric] unfolding pl2_def [symmetric] f if_not_P [OF c(1)] if_not_P [OF c(2)]
        by (simp split: sum.splits)
    qed
    have next1: "pump_next b pl pl1" "bf_next (pl_backfills pl1 ! b) = rank + 1"
      using b by (simp_all add: pump_next_def pl1_def refills_refl bf_def)
    show ?thesis
      unfolding unfold using True next1 pl3 bf2 b
      by (cases r) (auto simp: pump_next_def bf_def rank_def)
  qed
qed

lemma pump_next_trans: "pump_next b x y \<Longrightarrow> pump_next b y z \<Longrightarrow> pump_next b x z"
  by (auto simp: pump_next_def intro: refills_trans)

lemma pump_terminates:
  assumes "manifest_shaped (pl_manifest pl)" "store_inv (pl_store pl)" "b < length (pl_backfills pl)"
    "length (bf_order (pl_backfills pl ! b)) - bf_next (pl_backfills pl ! b) < fuel"
  shows "\<exists>pl'. pump_loop fuel env b pl = Some pl' \<and> pump_next b pl pl'"
  using assms
proof (induction fuel arbitrary: pl)
  case (Suc fuel)
  from pump_turn [OF Suc.prems(1-3), of fuel env] show ?case
  proof (elim disjE conjE exE)
    fix pl1 assume t: "pump_loop (Suc fuel) env b pl = pump_loop fuel env b pl1" "pump_next b pl pl1"
      "bf_next (pl_backfills pl1 ! b) = bf_next (pl_backfills pl ! b) + 1"
      "bf_next (pl_backfills pl ! b) < length (bf_order (pl_backfills pl ! b))"
    have "\<exists>pl'. pump_loop fuel env b pl1 = Some pl' \<and> pump_next b pl1 pl'"
      by (rule Suc.IH) (use Suc.prems t refills_inv in \<open>auto simp: pump_next_def\<close>)
    then show ?case using t(1,2) pump_next_trans by metis
  qed blast
qed simp

lemma backfill_never_evicts_parts:
  assumes "reachable (pl_store pl)" "manifest_shaped (pl_manifest pl)" "b < length (pl_backfills pl)"
  shows "pump_loop (length (bf_order (pl_backfills pl ! b)) + 1) env b pl = Some (backfill_pump env b pl)"
    and "resident (pl_store pl) k \<Longrightarrow> resident (pl_store (backfill_pump env b pl)) k"
proof -
  note inv = reachable_store_inv [OF assms(1)]
  obtain pl' where pl': "pump_loop (length (bf_order (pl_backfills pl ! b)) + 1) env b pl = Some pl'" "pump_next b pl pl'"
    using pump_terminates [OF assms(2) inv assms(3)] by (metis add.commute less_Suc_eq_le plus_1_eq_Suc diff_le_self)
  then show "pump_loop (length (bf_order (pl_backfills pl ! b)) + 1) env b pl = Some (backfill_pump env b pl)"
    by (simp add: backfill_pump_def)
  have "backfill_pump env b pl = pl'" using pl'(1) by (simp add: backfill_pump_def)
  then show "resident (pl_store pl) k \<Longrightarrow> resident (pl_store (backfill_pump env b pl)) k"
    using pl'(2) refills_resident [OF _ inv] by (simp add: pump_next_def)
qed

text \<open>
  The backfill loop returns, and it never evicts for a guess: an expert that is resident
  before the pump runs is resident after it, whatever the order, the shards and the I/O engine
  answer.
\<close>

theorem backfill_never_evicts:
  assumes "reachable (pl_store pl)" "manifest_shaped (pl_manifest pl)" "b < length (pl_backfills pl)"
  shows "(pump_loop (length (bf_order (pl_backfills pl ! b)) + 1) env b pl = Some (backfill_pump env b pl))
   \<and> (\<forall>k. resident (pl_store pl) k \<longrightarrow> resident (pl_store (backfill_pump env b pl)) k)"
  using backfill_never_evicts_parts [OF assms] by blast

theorem backfill_never_evicts_witness:
  "resident (pl_store (backfill_pump demo_env 0 (demo_planner\<lparr>pl_backfills := [\<lparr>bf_order = [ExpertKey 0 0], bf_next = 0,
     bf_inflight = 0, bf_max_inflight = 2, bf_keep = False, bf_active = True\<rparr>]\<rparr>))) demo_key"
proof -
  have "resident demo_resident demo_key"
    by (simp add: resident_def state_of_def demo_resident_facts demo_slot_def default_slot_def)
  then show ?thesis
    by (intro backfill_never_evicts [THEN conjunct2, rule_format]) (simp_all add: demo_planner_def demo_reachable demo_manifest_shaped)
qed

lemma backfill_stamps_below_demand_parts:
  assumes "\<not> bf_keep bf" "rank < length (bf_order bf)" "length (bf_order bf) < kDemandStampBase"
    and "kDemandStampBase \<le> pl_clock pl"
  shows "backfill_stamp bf rank < fst (next_stamp pl)" "kDemandStampBase \<le> pl_clock (snd (next_stamp pl))"
    "0 < backfill_stamp bf rank"
  using assms by (auto simp: backfill_stamp_def next_stamp_def)

text \<open>
  The LRU clock separates demand from startup guesses: every stamp that the planner hands to
  a demand access is above every stamp of a backfill that is not a reheat, so the LRU recycles
  the guesses first.
\<close>

theorem backfill_stamps_below_demand:
  assumes "\<not> bf_keep bf" "rank < length (bf_order bf)" "length (bf_order bf) < kDemandStampBase"
    and "kDemandStampBase \<le> pl_clock pl"
  shows "(backfill_stamp bf rank < fst (next_stamp pl))
   \<and> (kDemandStampBase \<le> pl_clock (snd (next_stamp pl)))
   \<and> (0 < backfill_stamp bf rank)"
  by (intro backfill_stamps_below_demand_parts [OF assms] conjI)

theorem backfill_stamps_below_demand_witness:
  "backfill_stamp \<lparr>bf_order = [ExpertKey 0 0], bf_next = 0, bf_inflight = 0, bf_max_inflight = 2, bf_keep = False,
     bf_active = True\<rparr> 0 < fst (next_stamp demo_planner)"
  by (rule backfill_stamps_below_demand [THEN conjunct1]) (simp_all add: demo_planner_def kDemandStampBase_def)

text \<open>
  In a reheat pass the order is hottest first, and the code's stamps make the hotter of two
  experts the older one, so the LRU evicts it first.
\<close>

lemma reheat_stamps_reversed:
  "bf_keep bf \<Longrightarrow> hotter < colder \<Longrightarrow> backfill_stamp bf hotter < backfill_stamp bf colder"
  by (simp add: backfill_stamp_def)

section \<open>A fetch that is refused half way\<close>

text \<open>
  A layer misses one expert of two runs; the first run is accepted and the second refused. The
  fetch counts the refused run in and fails, the plan takes the expert off its group, and when
  the accepted run completes and settles the slot, the callback takes it off the group again: the
  32-bit count of pending fills wraps, and \<^verbatim>\<open>wait_layer\<close> does not see it at zero.
\<close>

definition split_run :: "u32 \<Rightarrow> u64 \<Rightarrow> run" where
  "split_run f off = \<lparr>run_file = f, run_aligned_off = 0, run_aligned_bytes = 4096, run_slot_offset = off, run_parts = []\<rparr>"

definition split_entry :: expert_entry where
  "split_entry = \<lparr>ee_runs = [split_run 0 0, split_run 1 4096], ee_slot_bytes = 8192,
     ee_part_offset = replicate kExpertParts 0, ee_part_bytes = replicate kExpertParts 1\<rparr>"

definition split_planner :: planner where
  "split_planner = demo_planner\<lparr>pl_store := demo_store, pl_manifest := demo_manifest\<lparr>mf_experts := [[split_entry]]\<rparr>\<rparr>"

definition split_env :: io_env where
  "split_env = \<lparr>shard_require = (\<lambda>_. None), io_submit = (\<lambda>_ r. if fr_file r = 1 then Some Unavailable else None)\<rparr>"

definition split_planned :: planner where
  "split_planned = snd (plan_layer split_env \<lparr>rd_layer = 0, rd_chosen = [0], rd_near = [], rd_guard_hits = 0\<rparr> split_planner)"

lemma split_fetch:
  assumes "pl_store pl = st" "pl_manifest pl = demo_manifest\<lparr>mf_experts := [[split_entry]]\<rparr>" "pl_flights pl = []"
    and b: "begin_fill (ExpertKey 0 0) split_entry Cached st = (Inr r, st')" "rv_slot r = 0"
      "rv_run_count r = 2" "rv_runs r = map (fill_run_of s) (ee_runs split_entry)"
  shows "\<exists>pl'. fetch split_env (ExpertKey 0 0) BlockingMiss owner 0 pl = (Inl Unavailable, pl')
     \<and> pl_store pl' = snd (finish_run 0 False (pl_clock pl + 1) st') \<and> pl_groups pl' = pl_groups pl
     \<and> pl_flights pl' = [\<lparr>fl_slot = 0, fl_stamp = pl_clock pl + 1, fl_owner = owner, fl_ok = False, fl_left = 1\<rparr>]"
proof -
  have "require_expert (pl_manifest pl) (ExpertKey 0 0) = Inr split_entry"
    by (simp add: assms(2) require_expert_def manifest_expert_def)
  moreover have "fetch_reserve (ExpertKey 0 0) split_entry pl = (Inr r, pl\<lparr>pl_store := st'\<rparr>)"
    by (simp add: fetch_reserve_def assms(1) b(1))
  moreover have "submit_runs split_env (ExpertKey 0 0) (rv_runs r) 0 0 = (1, 4096, Some Unavailable)"
    by (simp add: b(4) split_entry_def split_run_def fill_run_of_def split_env_def)
  ultimately show ?thesis
    using b(2,3) assms(3) by (simp add: fetch_def next_stamp_def Let_def finish_unissued_def)
qed

lemma split_begin:
  "\<exists>r st' s. begin_fill (ExpertKey 0 0) split_entry Cached (snd (lookup (ExpertKey 0 0) t g demo_store)) = (Inr r, st')
     \<and> rv_slot r = 0 \<and> rv_run_count r = 2 \<and> rv_runs r = map (fill_run_of s) (ee_runs split_entry)
     \<and> st_slots st' = [(demo_slot 0 65536)\<lparr>es_state := Filling, es_runs_total := 2,
          es_part_offset := ee_part_offset split_entry, es_part_bytes := ee_part_bytes split_entry\<rparr>, demo_slot 1 18874368]"
proof -
  let ?st = "snd (lookup (ExpertKey 0 0) t g demo_store)"
  have f: "st_slots ?st = st_slots demo_store" "st_free_list ?st = [1, 0]" "st_index ?st = Map.empty"
    "st_layers ?st = 1" "st_experts_per_layer ?st = 2" "\<not> st_cache_frozen ?st" "st_pool ?st = st_pool demo_store"
    by (simp_all add: lookup_def demo_store_facts Let_def)
  then show ?thesis
    by (simp add: begin_fill_def reserve_locked_def split_entry_def kMaxExpertRuns_def kExpertParts_def key_in_range_def
        demo_store_facts Let_def demo_slot_def default_slot_def) blast
qed

lemma split_planned_facts:
  "fg_pending (pl_groups split_planned ! 0) = 0" "length (pl_groups split_planned) = 1"
  "\<exists>s. pl_flights split_planned = [\<lparr>fl_slot = 0, fl_stamp = s, fl_owner = OwnerGroup 0, fl_ok = False, fl_left = 1\<rparr>]"
  "st_slots (pl_store split_planned) = [(demo_slot 0 65536)\<lparr>es_state := Filling, es_runs_total := 2, es_runs_done := 1,
     es_run_failed := True, es_part_offset := ee_part_offset split_entry,
     es_part_bytes := ee_part_bytes split_entry\<rparr>, demo_slot 1 18874368]"
proof -
  let ?k = "ExpertKey 0 0"
  define g0 where "g0 = split_planner\<lparr>pl_groups := [\<lparr>fg_pending = 0, fg_failed = False\<rparr>]\<rparr>"
  define pl1 where "pl1 = (snd (next_stamp g0))\<lparr>pl_store := snd (lookup ?k (kDemandStampBase + 1) 0 demo_store)\<rparr>"
  define plan where "plan = \<lparr>lp_layer = 0, lp_hits = [], lp_misses = [?k], lp_issued = 0, lp_miss_bytes = 0,
                  lp_group = 0, lp_joined = []\<rparr>"
  define pl2 where "pl2 = upd_group 0 (\<lambda>g. g\<lparr>fg_pending := fg_pending g + 1\<rparr>) pl1"
  obtain r st' s where b: "begin_fill ?k split_entry Cached (pl_store pl2) = (Inr r, st')"
     "rv_slot r = 0" "rv_run_count r = 2" "rv_runs r = map (fill_run_of s) (ee_runs split_entry)"
     "st_slots st' = [(demo_slot 0 65536)\<lparr>es_state := Filling, es_runs_total := 2,
          es_part_offset := ee_part_offset split_entry, es_part_bytes := ee_part_bytes split_entry\<rparr>, demo_slot 1 18874368]"
    using split_begin [of "kDemandStampBase + 1" 0] by (auto simp: pl2_def pl1_def)
  have "pl_manifest pl2 = demo_manifest\<lparr>mf_experts := [[split_entry]]\<rparr>" "pl_flights pl2 = []"
    by (simp_all add: pl2_def pl1_def g0_def split_planner_def demo_planner_def upd_group_def next_stamp_def)
  from split_fetch [OF refl this b(1-4), of "OwnerGroup 0"] obtain pl3 where
    f: "fetch split_env ?k BlockingMiss (OwnerGroup 0) 0 pl2 = (Inl Unavailable, pl3)"
      "pl_store pl3 = snd (finish_run 0 False (pl_clock pl2 + 1) st')" "pl_groups pl3 = pl_groups pl2"
      "pl_flights pl3 = [\<lparr>fl_slot = 0, fl_stamp = pl_clock pl2 + 1, fl_owner = OwnerGroup 0, fl_ok = False, fl_left = 1\<rparr>]"
    by blast
  have one: "plan_one split_env False 0 ?k (plan\<lparr>lp_misses := []\<rparr>, g0) = plan_fetch split_env ?k plan pl1"
    by (simp add: plan_one_def pl1_def g0_def plan_def split_planner_def demo_planner_def next_stamp_def lookup_def
        demo_store_facts slot_of_def Let_def)
  have pf: "snd (plan_fetch split_env ?k plan pl1)
      = upd_group 0 (\<lambda>g. g\<lparr>fg_pending := fg_pending g - 1\<rparr>)
          (upd_pstats (\<lambda>s. s\<lparr>ps_p0_submit_failed := ps_p0_submit_failed s + 1\<rparr>) pl3)"
    using f(1)
    by (simp add: plan_fetch_def plan_def Let_def pl2_def [symmetric])
       (simp add: pl2_def pl1_def free_slots_def lookup_def demo_store_facts Let_def)
  have layer: "\<exists>h. split_planned = upd_pstats h (snd (plan_fetch split_env ?k plan pl1))"
    using one
    by (simp add: split_planned_def plan_layer_def Let_def split_planner_def demo_planner_def demo_store_facts plan_def
        g0_def split: prod.splits) blast
  then obtain h where l: "split_planned = upd_pstats h (upd_group 0 (\<lambda>g. g\<lparr>fg_pending := fg_pending g - 1\<rparr>)
          (upd_pstats (\<lambda>s. s\<lparr>ps_p0_submit_failed := ps_p0_submit_failed s + 1\<rparr>) pl3))" unfolding pf by blast
  show "fg_pending (pl_groups split_planned ! 0) = 0" "length (pl_groups split_planned) = 1"
    "\<exists>s. pl_flights split_planned = [\<lparr>fl_slot = 0, fl_stamp = s, fl_owner = OwnerGroup 0, fl_ok = False, fl_left = 1\<rparr>]"
    by (simp_all add: l upd_pstats_def upd_group_def f(3,4) pl2_def pl1_def g0_def next_stamp_def)
  show "st_slots (pl_store split_planned) = [(demo_slot 0 65536)\<lparr>es_state := Filling, es_runs_total := 2, es_runs_done := 1,
     es_run_failed := True, es_part_offset := ee_part_offset split_entry,
     es_part_bytes := ee_part_bytes split_entry\<rparr>, demo_slot 1 18874368]"
    by (simp add: l f(2) finish_run_def b(5) Let_def demo_slot_def default_slot_def)
qed

lemma refused_submit_wraps_pending:
  "fg_pending (pl_groups (complete_run split_env 0 True split_planned) ! 0) = 2 ^ 32 - 1"
proof -
  obtain s where s: "pl_flights split_planned = [\<lparr>fl_slot = 0, fl_stamp = s, fl_owner = OwnerGroup 0, fl_ok = False, fl_left = 1\<rparr>]"
    using split_planned_facts(3) by blast
  have "fst (finish_run 0 True s (pl_store split_planned)) = Inr True"
    by (simp add: finish_run_def split_planned_facts(4) Let_def demo_slot_def default_slot_def)
  then show ?thesis
    using split_planned_facts(1,2)
    by (auto simp: complete_run_def s Let_def upd_group_def upd_pstats_def split: prod.splits)
qed

end
