(* ===== verification/Stream_Handoff.thy ===== *)
theory Stream_Handoff
  imports Planner_Props
begin

text \<open>
  The prefill handoff as a streaming selection. The locale states what one admission does to the
  map from cached keys to stamps; its theorem is that a whole stream leaves exactly the newest
  keys, in whatever order they arrive. The expert store under \<^verbatim>\<open>admit_streamed\<close> and
  \<^verbatim>\<open>finish_streamed\<close> is an instance.
\<close>

section \<open>Selecting the newest\<close>

type_synonym stamps = "expert_key \<rightharpoonup> nat"

definition put_newer :: "expert_key \<times> nat \<Rightarrow> stamps \<Rightarrow> stamps" where
  "put_newer x T = (case x of (k, s) \<Rightarrow> T(k \<mapsto> (case T k of None \<Rightarrow> s | Some t \<Rightarrow> max t s)))"

text \<open>The newest access of every key that was cached or streamed.\<close>

definition merged :: "stamps \<Rightarrow> (expert_key \<times> nat) list \<Rightarrow> stamps" where
  "merged T xs = fold put_newer xs T"

text \<open>\<open>M\<close> is the \<open>n\<close> newest of \<open>T\<close>: a part of it, all of it when there is room, and newer than the rest.\<close>

definition newest :: "nat \<Rightarrow> stamps \<Rightarrow> stamps \<Rightarrow> bool" where
  "newest n T M \<longleftrightarrow> finite (dom T) \<and> M \<subseteq>\<^sub>m T \<and> card (dom M) \<le> n
     \<and> (card (dom M) < n \<longrightarrow> dom M = dom T)
     \<and> (\<forall>k \<in> dom M. \<forall>k' \<in> dom T - dom M. the (T k') < the (T k))"

definition owned :: "(nat \<Rightarrow> expert_key) \<Rightarrow> stamps \<Rightarrow> bool" where
  "owned own T \<longleftrightarrow> (\<forall>k t. T k = Some t \<longrightarrow> own t = k)"

lemma owned_put: "owned own T \<Longrightarrow> own s = k \<Longrightarrow> owned own (put_newer (k, s) T)"
  by (auto simp: owned_def put_newer_def max_def split: option.splits)

lemma newestD:
  assumes "newest n T M"
  shows newest_fin: "finite (dom T)" and newest_sub: "dom M \<subseteq> dom T" and newest_card: "card (dom M) \<le> n"
    and newest_val: "M k = Some t \<Longrightarrow> T k = Some t"
    and newest_full: "card (dom M) < n \<Longrightarrow> dom M = dom T"
    and newest_less: "k \<in> dom M \<Longrightarrow> k' \<in> dom T \<Longrightarrow> k' \<notin> dom M \<Longrightarrow> the (T k') < the (T k)"
proof -
  have le: "M \<subseteq>\<^sub>m T" using assms unfolding newest_def by blast
  then show "dom M \<subseteq> dom T" by (rule map_le_implies_dom_le)
  show "M k = Some t \<Longrightarrow> T k = Some t" using le unfolding map_le_def by (metis domI)
  show "finite (dom T)" "card (dom M) \<le> n" "card (dom M) < n \<Longrightarrow> dom M = dom T"
    "k \<in> dom M \<Longrightarrow> k' \<in> dom T \<Longrightarrow> k' \<notin> dom M \<Longrightarrow> the (T k') < the (T k)"
    using assms unfolding newest_def by blast+
qed

lemma newestI:
  assumes "finite (dom T)" "card (dom M) \<le> n" "\<And>k t. M k = Some t \<Longrightarrow> T k = Some t"
    "card (dom M) < n \<Longrightarrow> dom M = dom T"
    "\<And>k k'. k \<in> dom M \<Longrightarrow> k' \<in> dom T \<Longrightarrow> k' \<notin> dom M \<Longrightarrow> the (T k') < the (T k)"
  shows "newest n T M"
proof -
  have "M \<subseteq>\<^sub>m T" unfolding map_le_def using assms(3) by (metis domD)
  with assms(1,2,4,5) show ?thesis unfolding newest_def by blast
qed

lemma newest_unique:
  assumes "newest n T M1" "newest n T M2"
  shows "M1 = M2"
proof -
  have sub: "dom A \<subseteq> dom B" if A: "newest n T A" and B: "newest n T B" for A B
  proof (rule ccontr)
    assume "\<not> dom A \<subseteq> dom B"
    then obtain k where k: "k \<in> dom A" "k \<notin> dom B" by blast
    have kT: "k \<in> dom T" using newestD(2) [OF A] k(1) by blast
    have "card (dom B) = n" using newestD(3,5) [OF B] k(2) kT by (metis le_neq_implies_less)
    then have "card (dom A) \<le> card (dom B)" using newestD(3) [OF A] by simp
    moreover have "finite (dom A)" using newestD(1,2) [OF A] finite_subset by blast
    ultimately obtain k' where k': "k' \<in> dom B" "k' \<notin> dom A"
      using k by (metis card_seteq subsetI)
    have "k' \<in> dom T" using newestD(2) [OF B] k'(1) by blast
    then have "the (T k') < the (T k)" by (rule newestD(6) [OF A k(1) _ k'(2)])
    moreover have "the (T k) < the (T k')" by (rule newestD(6) [OF B k'(1) kT k(2)])
    ultimately show False by simp
  qed
  have d: "dom M1 = dom M2" using sub assms by blast
  show ?thesis
  proof
    fix k show "M1 k = M2 k"
      using d newest_val [OF assms(1), of k] newest_val [OF assms(2), of k] by (metis domIff not_None_eq)
  qed
qed

lemma put_newer_commute: "put_newer x \<circ> put_newer y = put_newer y \<circ> put_newer x"
  by (cases x; cases y) (auto simp: put_newer_def fun_eq_iff max.commute max.left_commute max.assoc split: option.splits)

lemma merged_permute: "mset xs = mset ys \<Longrightarrow> merged T xs = merged T ys"
  unfolding merged_def by (rule fold_multiset_equiv [THEN fun_cong]) (simp_all add: put_newer_commute)

text \<open>What one arrival does, in its four cases.\<close>

lemma newest_held:
  assumes "newest n T M" "M k = Some t"
  shows "newest n (put_newer (k, s) T) (M(k \<mapsto> max t s))"
proof -
  note d = newestD [OF assms(1)]
  have T: "T k = Some t" by (rule d(4) [OF assms(2)])
  then have put: "put_newer (k, s) T = T(k \<mapsto> max t s)" by (simp add: put_newer_def)
  have doms: "dom (M(k \<mapsto> max t s)) = dom M" "dom (T(k \<mapsto> max t s)) = dom T" using assms(2) T by auto
  show ?thesis
  proof (rule newestI, unfold put doms)
    fix a b assume ab: "a \<in> dom M" "b \<in> dom T" "b \<notin> dom M"
    then have "the (T b) < the (T a)" "b \<noteq> k" using d(6) assms(2) by auto
    then show "the ((T(k \<mapsto> max t s)) b) < the ((T(k \<mapsto> max t s)) a)" using T by auto
  qed (use d in \<open>auto split: if_splits\<close>)
qed

lemma newest_room:
  assumes "newest n T M" "M k = None" "card (dom M) < n"
  shows "newest n (put_newer (k, s) T) (M(k \<mapsto> s))"
proof -
  note d = newestD [OF assms(1)]
  have eq: "dom M = dom T" by (rule d(5) [OF assms(3)])
  then have "T k = None" using assms(2) by blast
  then have put: "put_newer (k, s) T = T(k \<mapsto> s)" by (simp add: put_newer_def)
  have "k \<notin> dom M" "finite (dom M)" using assms(2) d(1) eq by auto
  then have card: "card (dom (M(k \<mapsto> s))) \<le> n" using assms(3) by simp
  show ?thesis
    by (rule newestI) (use d(1,4) eq card in \<open>auto simp: put split: if_splits\<close>)
qed

lemma newest_drop:
  assumes N: "newest n T M" and k: "M k = None" and full: "card (dom M) = n" and own: "owned own T" "own s = k"
    and old: "\<And>k' t. M k' = Some t \<Longrightarrow> s \<le> t"
  shows "newest n (put_newer (k, s) T) M"
proof -
  note d = newestD [OF N]
  let ?T = "put_newer (k, s) T"
  have dom: "dom ?T = insert k (dom T)" by (auto simp: put_newer_def)
  have put: "?T k' = T k'" if "k' \<noteq> k" for k' using that by (simp add: put_newer_def)
  have less: "the (?T k) < t" if t: "M k' = Some t" for k' t
  proof -
    have "s \<noteq> t" using own d(4) [OF t] k t by (auto simp: owned_def)
    then have "s < t" using old [OF t] by simp
    moreover have "u < t" if "T k = Some u" for u using d(6) [of k' k] d(4) [OF t] t that k by auto
    ultimately show ?thesis by (auto simp: put_newer_def split: option.splits)
  qed
  show ?thesis
  proof (rule newestI, unfold dom)
    fix a t assume "M a = Some t"
    then show "?T a = Some t" using d(4) put k by (metis option.distinct(1))
  next
    fix a b assume ab: "a \<in> dom M" "b \<in> insert k (dom T)" "b \<notin> dom M"
    then obtain t where t: "M a = Some t" by blast
    have a: "?T a = Some t" using t d(4) put k by (metis option.distinct(1))
    show "the (?T b) < the (?T a)"
      using less [OF t] d(6) [OF ab(1) _ ab(3)] ab(2) a put [of b] d(4) [OF t] by (cases "b = k") auto
  qed (use d(1) full in auto)
qed

lemma newest_replace:
  assumes N: "newest n T M" and k: "M k = None" and full: "card (dom M) = n" and own: "owned own T"
    and v: "M v = Some m" "m < s" "\<And>k' t. M k' = Some t \<Longrightarrow> m \<le> t"
  shows "newest n (put_newer (k, s) T) (M(v := None, k \<mapsto> s))"
proof -
  note d = newestD [OF N]
  let ?T = "put_newer (k, s) T" and ?D = "insert k (dom M - {v})"
  have vk: "v \<noteq> k" using v(1) k by auto
  have dom: "dom ?T = insert k (dom T)" by (auto simp: put_newer_def)
  have domM: "dom (M(v := None, k \<mapsto> s)) = ?D" using vk by auto
  have put: "?T k' = T k'" if "k' \<noteq> k" for k' using that by (simp add: put_newer_def)
  have Tk: "?T k = Some s"
  proof (cases "T k")
    case (Some u)
    then have "u < m" using d(6) [of v k] v(1) k d(4) [OF v(1)] by auto
    then show ?thesis using Some v(2) by (simp add: put_newer_def)
  qed (simp add: put_newer_def)
  have kept: "m < the (?T a)" if "a \<in> ?D" for a
  proof (cases "a = k")
    case False
    with that obtain t where t: "M a = Some t" "a \<noteq> v" by auto
    have "m \<noteq> t" using own d(4) [OF t(1)] d(4) [OF v(1)] t(2) by (auto simp: owned_def)
    then have "m < t" using v(3) [OF t(1)] by simp
    then show ?thesis using put [OF False] d(4) [OF t(1)] by simp
  qed (simp add: Tk v(2))
  have "v \<in> dom M" "k \<notin> dom M" "finite (dom M)" using v(1) k d(1,2) finite_subset by blast+
  then have card: "card ?D = n" using full by (metis Diff_iff card.insert card.remove finite_Diff)
  show ?thesis
  proof (rule newestI, unfold domM dom card)
    fix a t assume "(M(v := None, k \<mapsto> s)) a = Some t"
    then show "?T a = Some t" using Tk d(4) put by (auto split: if_splits)
  next
    fix a b assume ab: "a \<in> ?D" "b \<in> insert k (dom T)" "b \<notin> ?D"
    then have b: "b \<noteq> k" "b \<in> dom T" "b = v \<or> b \<notin> dom M" by auto
    have "the (T v) = m" using d(4) [OF v(1)] by simp
    then have "the (T b) \<le> m" using b(3) newest_less [OF N _ b(2), of v] v(1) by (metis domI less_imp_le order_refl)
    then show "the (?T b) < the (?T a)" using kept [OF ab(1)] put [OF b(1)] by simp
  qed (use d(1) in auto)
qed

section \<open>A cache that admits a stream\<close>

text \<open>
  What a client needs from the cache: \<open>view\<close> is the stamp of every cached key, and one
  admission keeps a held key at its newest stamp, takes a new key while there is room, and
  when full drops it or lets it replace the key with the oldest stamp.
\<close>

locale stream_cache =
  fixes view :: "'s \<Rightarrow> stamps" and admit :: "expert_key \<times> nat \<Rightarrow> 's \<Rightarrow> 's"
    and ok :: "'s \<Rightarrow> bool" and valid :: "expert_key \<Rightarrow> bool" and N :: nat
  assumes small: "ok s \<Longrightarrow> card (dom (view s)) \<le> N" "ok s \<Longrightarrow> finite (dom (view s))"
    and kept: "ok s \<Longrightarrow> valid k \<Longrightarrow> ok (admit (k, t) s)"
    and held: "ok s \<Longrightarrow> valid k \<Longrightarrow> view s k = Some u \<Longrightarrow> view (admit (k, t) s) = (view s)(k \<mapsto> max u t)"
    and room: "ok s \<Longrightarrow> valid k \<Longrightarrow> view s k = None \<Longrightarrow> card (dom (view s)) < N \<Longrightarrow>
        view (admit (k, t) s) = (view s)(k \<mapsto> t)"
    and old: "ok s \<Longrightarrow> valid k \<Longrightarrow> view s k = None \<Longrightarrow> card (dom (view s)) = N \<Longrightarrow>
        (\<And>k' u. view s k' = Some u \<Longrightarrow> t \<le> u) \<Longrightarrow> view (admit (k, t) s) = view s"
    and new: "ok s \<Longrightarrow> valid k \<Longrightarrow> view s k = None \<Longrightarrow> card (dom (view s)) = N \<Longrightarrow> view s k0 = Some u0 \<Longrightarrow> u0 < t \<Longrightarrow>
        \<exists>v m. view s v = Some m \<and> m < t \<and> (\<forall>k' u. view s k' = Some u \<longrightarrow> m \<le> u)
          \<and> view (admit (k, t) s) = (view s)(v := None, k \<mapsto> t)"
begin

lemma admit_one:
  assumes s: "ok s" and k: "valid k" and N: "newest N T (view s)" and own: "owned own T" "own t = k"
  shows "newest N (put_newer (k, t) T) (view (admit (k, t) s))"
proof (cases "view s k")
  case (Some u)
  then show ?thesis using newest_held [OF N Some] held [OF s k Some] by simp
next
  case None
  show ?thesis
  proof (cases "card (dom (view s)) < N")
    case True
    then show ?thesis using newest_room [OF N None True] room [OF s k None True] by simp
  next
    case False
    then have full: "card (dom (view s)) = N" using small(1) [OF s] by simp
    show ?thesis
    proof (cases "\<exists>k' u. view s k' = Some u \<and> u < t")
      case True
      then obtain k0 u0 where "view s k0 = Some u0" "u0 < t" by blast
      from new [OF s k None full this] obtain v m where v: "view s v = Some m" "m < t"
        "\<forall>k' u. view s k' = Some u \<longrightarrow> m \<le> u" "view (admit (k, t) s) = (view s)(v := None, k \<mapsto> t)" by blast
      show ?thesis unfolding v(4) by (rule newest_replace [OF N None full own(1) v(1,2)]) (use v(3) in blast)
    next
      case False
      then have le: "\<And>k' u. view s k' = Some u \<Longrightarrow> t \<le> u" by (metis not_le)
      have "view (admit (k, t) s) = view s" by (rule old [OF s k None full]) (rule le)
      moreover have "newest N (put_newer (k, t) T) (view s)" by (rule newest_drop [OF N None full own]) (rule le)
      ultimately show ?thesis by simp
    qed
  qed
qed

text \<open>A stamp belongs to one access, so two keys never share one.\<close>

lemma stream_newest:
  assumes "ok s" "\<forall>(k, t) \<in> set xs. valid k \<and> own t = k" "newest N T (view s)" "owned own T"
  shows "newest N (merged T xs) (view (fold admit xs s))"
  using assms
proof (induction xs arbitrary: s T)
  case (Cons x xs)
  obtain k t where x: "x = (k, t)" by (cases x)
  with Cons.prems(2) have k: "valid k" "own t = k" by auto
  have "newest N (put_newer x T) (view (admit x s))" unfolding x
    by (rule admit_one [OF Cons.prems(1) k(1) Cons.prems(3,4) k(2)])
  then have "newest N (merged (put_newer x T) xs) (view (fold admit xs (admit x s)))"
    by (intro Cons.IH) (use Cons.prems k x owned_put in auto, simp add: kept)
  then show ?case by (simp add: merged_def)
qed (simp add: merged_def)

lemma view_newest: "ok s \<Longrightarrow> newest N (view s) (view s)"
  by (rule newestI) (use small in auto)

lemma stream_permute:
  assumes "ok s" "\<forall>(k, t) \<in> set xs. valid k \<and> own t = k" "owned own (view s)" "mset xs = mset ys"
  shows "view (fold admit xs s) = view (fold admit ys s)"
proof (rule newest_unique)
  show "newest N (merged (view s) xs) (view (fold admit xs s))"
    by (rule stream_newest [OF assms(1,2) view_newest [OF assms(1)] assms(3)])
  have "set ys = set xs" using assms(4) by (metis set_mset_mset)
  then have "newest N (merged (view s) ys) (view (fold admit ys s))"
    by (intro stream_newest [OF assms(1) _ view_newest [OF assms(1)] assms(3)]) (use assms(2) in simp)
  then show "newest N (merged (view s) xs) (view (fold admit ys s))"
    using merged_permute [OF assms(4)] by simp
qed

end

section \<open>The expert store admits a stream\<close>

definition stamp_view :: "store \<Rightarrow> stamps" where
  "stamp_view st k = map_option (slot_stamp st) (st_index st k)"

text \<open>
  The transfer of one streamed expert, as the engine's prefill sink does it: \<^verbatim>\<open>sink.reserve\<close> takes the
  next value of \<^verbatim>\<open>guard_clock_\<close> and admits the expert, \<^verbatim>\<open>sink.release\<close> settles it and, no other
  reservation being open, retires every guard so far. The state is the clock and the store.
\<close>

definition stream_one :: "(expert_key \<Rightarrow> expert_entry) \<Rightarrow> expert_key \<times> nat \<Rightarrow> nat \<times> store \<Rightarrow> nat \<times> store" where
  "stream_one ent x = (\<lambda>(clock, st).
     case x of (k, s) \<Rightarrow>
       let guard = clock + 1 in
       case admit_streamed id k s (Some (ent k)) guard st of
         (Inl e, st) \<Rightarrow> (guard, st)
       | (Inr a, st) \<Rightarrow>
           if sa_kind a = StreamDrop then (guard, st)
           else (guard, set_completed_timeline guard (snd (finish_streamed a True s st))))"

text \<open>
  The store as a handoff finds it: nothing in flight, nothing pinned, every reader done. The
  frame is the number of slots, the table's two dimensions, and the slot size.
\<close>

type_synonym frame = "nat \<times> nat \<times> nat \<times> u64"

definition frame_of :: "store \<Rightarrow> frame" where
  "frame_of st = (length (st_slots st), st_layers st, st_experts_per_layer st, slot_bytes (sp_cfg (st_pool st)))"

definition calm :: "frame \<Rightarrow> store \<Rightarrow> bool" where
  "calm fr st \<longleftrightarrow> store_inv st \<and> \<not> st_fixed_cache st \<and> st_evict_path st = PathOff
     \<and> frame_of st = fr
     \<and> (\<forall>s \<in> set (st_slots st). es_state s = Free \<or> is_evictable st s)"

definition streamable :: "(expert_key \<Rightarrow> expert_entry) \<Rightarrow> frame \<Rightarrow> expert_key \<Rightarrow> bool" where
  "streamable ent fr k =
     (case fr of (n, layers, experts, bytes) \<Rightarrow>
        unat (layer k) < layers \<and> unat (expert k) < experts \<and> entry_shaped (ent k)
        \<and> ee_runs (ent k) \<noteq> [] \<and> length (ee_runs (ent k)) \<le> kMaxExpertRuns \<and> ee_slot_bytes (ent k) \<le> bytes)"

lemma calmD:
  assumes "calm fr st"
  shows "store_inv st" "\<not> st_fixed_cache st" "st_evict_path st = PathOff" "frame_of st = fr"
    "\<And>i. i < length (st_slots st) \<Longrightarrow> es_state (st_slots st ! i) \<noteq> Free \<Longrightarrow> is_evictable st (st_slots st ! i)"
    "\<not> st_cache_frozen st"
  using assms by (auto simp: calm_def store_inv_def frozen_ok_def)

lemma calm_slot:
  assumes "calm fr st" "st_index st k = Some i"
  shows "i < length (st_slots st)" "es_key (st_slots st ! i) = k" "is_evictable st (st_slots st ! i)"
    "es_state (st_slots st ! i) = Resident"
proof -
  have "index_ok st" using calmD(1) [OF assms(1)] by (simp add: store_inv_def)
  note d = index_okD [OF this assms(2)]
  show "i < length (st_slots st)" "es_key (st_slots st ! i) = k" by (rule d)+
  show "is_evictable st (st_slots st ! i)" by (rule calmD(5) [OF assms(1) d(1,3)])
  then show "es_state (st_slots st ! i) = Resident" by (simp add: is_evictable_def live_def)
qed

lemma index_card:
  assumes "store_inv st"
  shows "finite (dom (st_index st))" "card (dom (st_index st)) + length (st_free_list st) = length (st_slots st)"
proof -
  have ix: "index_ok st" and fr: "free_ok st" using assms by (simp_all add: store_inv_def)
  let ?H = "{i. i < length (st_slots st) \<and> es_state (st_slots st ! i) \<noteq> Free}"
  let ?F = "{i. i < length (st_slots st) \<and> es_state (st_slots st ! i) = Free}"
  have "bij_betw (\<lambda>i. es_key (st_slots st ! i)) ?H (dom (st_index st))"
    by (rule bij_betw_byWitness [where f' = "\<lambda>k. the (st_index st k)"])
      (use ix in \<open>auto simp: index_ok_def\<close>)
  then have "card ?H = card (dom (st_index st))" and fin: "finite (dom (st_index st))"
    by (auto intro: bij_betw_same_card simp: bij_betw_finite [symmetric])
  moreover have "length (st_free_list st) = card ?F"
    using fr distinct_card [of "st_free_list st"] by (simp add: free_ok_def)
  moreover have "card ?H + card ?F = card (?H \<union> ?F)" by (rule card_Un_disjoint [symmetric]) auto
  moreover have "?H \<union> ?F = {..<length (st_slots st)}" by auto
  ultimately show "card (dom (st_index st)) + length (st_free_list st) = length (st_slots st)" by simp
  show "finite (dom (st_index st))" by (rule fin)
qed

lemma dom_stamp_view [simp]: "dom (stamp_view st) = dom (st_index st)"
  by (auto simp: stamp_view_def dom_def)

lemma oldest_stamp_fold:
  fixes f :: "nat \<Rightarrow> nat option \<Rightarrow> nat option"
  assumes "\<And>i a. map_option snd (scan_step st None i a) = f i (map_option snd a)"
  shows "map_option snd (fold (scan_step st None) xs a) = fold f xs (map_option snd a)"
  using assms by (induction xs arbitrary: a) simp_all

text \<open>With no path preferred, the reported stamp is the victim's.\<close>

lemma oldest_evictable_stamp_scan:
  assumes "\<not> st_fixed_cache st"
  shows "oldest_evictable_stamp st = map_option (slot_stamp st) (lru_scan st None)"
proof -
  let ?n = "length (st_slots st)"
  let ?g = "\<lambda>s best. if \<not> is_evictable st s then best
                          else case best of
                                 None \<Rightarrow> Some (es_last_use_token s)
                               | Some b \<Rightarrow> if es_last_use_token s < b then Some (es_last_use_token s) else best"
  let ?r = "fold (scan_step st None) [0..<?n] None"
  have "oldest_evictable_stamp st = fold ?g (map ((!) (st_slots st)) [0..<?n]) None"
    using assms unfolding oldest_evictable_stamp_def by (simp only: map_nth if_False)
  also have "\<dots> = fold (?g \<circ> (!) (st_slots st)) [0..<?n] None" by (simp only: fold_map)
  also have "\<dots> = map_option snd ?r"
    by (subst oldest_stamp_fold [where f = "?g \<circ> (!) (st_slots st)"])
      (auto simp: scan_step_def scan_admits_def Let_def split: option.splits)
  also have "\<dots> = map_option (slot_stamp st) (map_option fst ?r)"
    using lru_fold [where st = st and r = None and n = ?n] by (auto simp: scan_good_def split: option.splits)
  finally show ?thesis by (simp add: lru_scan_def)
qed

lemma calm_upd:
  assumes calm: "calm fr st" and inv: "store_inv st'" and slots: "st_slots st' = (st_slots st)[i := s]"
    and s: "es_state s = Free \<or> is_evictable st' s"
    and rest: "st_pool st' = st_pool st" "st_layers st' = st_layers st"
      "st_experts_per_layer st' = st_experts_per_layer st" "st_evict_path st' = st_evict_path st"
      "st_completed st \<le> st_completed st'" "st_fixed_cache st' = st_fixed_cache st"
  shows "calm fr st'"
proof -
  have ev: "is_evictable st x \<Longrightarrow> is_evictable st' x" for x using rest(5) by (auto simp: is_evictable_def)
  have "set (st_slots st') \<subseteq> insert s (set (st_slots st))" unfolding slots by (rule set_update_subset_insert)
  then have "\<forall>x \<in> set (st_slots st'). es_state x = Free \<or> is_evictable st' x"
    using calm s ev by (auto simp: calm_def)
  with calm inv show ?thesis by (simp add: calm_def frame_of_def rest slots)
qed

text \<open>Retiring guards changes nothing that is cached.\<close>

lemma set_completed_fields:
  "st_slots (set_completed_timeline v st) = st_slots st" "st_index (set_completed_timeline v st) = st_index st"
  "st_completed (set_completed_timeline v st) = max (st_completed st) v" "st_pool (set_completed_timeline v st) = st_pool st"
  "st_layers (set_completed_timeline v st) = st_layers st" "st_evict_path (set_completed_timeline v st) = st_evict_path st"
  "st_experts_per_layer (set_completed_timeline v st) = st_experts_per_layer st"
  "st_fixed_cache (set_completed_timeline v st) = st_fixed_cache st"
  by (simp_all add: set_completed_timeline_def)

lemma stamp_view_completed: "stamp_view (set_completed_timeline v st) = stamp_view st"
  by (simp add: stamp_view_def fun_eq_iff slot_stamp_def [abs_def] set_completed_fields)

lemma calm_completed:
  assumes "calm fr st"
  shows "calm fr (set_completed_timeline v st)"
proof -
  have "is_evictable st x \<Longrightarrow> is_evictable (set_completed_timeline v st) x" for x
    by (auto simp: is_evictable_def set_completed_fields)
  moreover have "store_inv (set_completed_timeline v st)"
    by (rule store_inv_same_shape [OF calmD(1) [OF assms] set_completed_same_shape])
  ultimately show ?thesis using assms by (auto simp: calm_def frame_of_def set_completed_fields)
qed

lemma settle_ok_fields:
  assumes "ok" "i < length (st_slots st)"
  shows "st_slots (settle_locked i ok t st) = (st_slots st)[i := (st_slots st ! i)\<lparr>es_state := Resident,
             es_last_use_token := max (es_last_use_token (st_slots st ! i)) t\<rparr>]"
    "st_index (settle_locked i ok t st) = st_index st" "st_pool (settle_locked i ok t st) = st_pool st"
    "st_evict_path (settle_locked i ok t st) = st_evict_path st"
  using assms by (simp_all add: settle_locked_def publish_locked_def Let_def)

text \<open>A fill that is begun and settled: the key is Resident in the slot the free list gave.\<close>

lemma fill_settled:
  assumes calm: "calm fr st" and k: "streamable ent fr k" "st_index st k = None" and free: "st_free_list st \<noteq> []"
  obtains r st1 st2 where "begin_fill k (ent k) Cached st = (Inr r, st1)"
    "finish_fill (rv_slot r) True t st1 = (Inr (), st2)" "calm fr st2"
    "stamp_view st2 = (stamp_view st)(k \<mapsto> t)"
proof -
  note c = calmD [OF calm]
  have inv: "index_ok st" "free_ok st" using c(1) by (simp_all add: store_inv_def)
  define i where "i = last (st_free_list st)"
  have i: "i < length (st_slots st)" "es_state (st_slots st ! i) = Free"
    using free_ok_last [OF inv(2) free] by (simp_all add: i_def)
  have range: "key_in_range st k" and size: "\<not> slot_bytes (sp_cfg (st_pool st)) < ee_slot_bytes (ent k)"
    and runs: "ee_runs (ent k) \<noteq> []" "\<not> kMaxExpertRuns < length (ee_runs (ent k))" and sh: "entry_shaped (ent k)"
    using k(1) c(4) by (auto simp: streamable_def frame_of_def key_in_range_def not_less)
  define s1 where "s1 = (st_slots st ! i)\<lparr>es_key := k, es_state := Filling, es_last_use_token := 0, es_tier := Cached,
    es_guard_timeline := 0, es_runs_done := 0, es_run_failed := False, es_runs_total := length (ee_runs (ent k)),
    es_part_offset := ee_part_offset (ent k), es_part_bytes := ee_part_bytes (ent k)\<rparr>"
  obtain r st1 where b: "begin_fill k (ent k) Cached st = (Inr r, st1)" and r: "rv_slot r = i"
    and st1: "st_index st1 = (st_index st)(k \<mapsto> i)" "st_pool st1 = st_pool st" "st_layers st1 = st_layers st"
      "st_experts_per_layer st1 = st_experts_per_layer st" "st_evict_path st1 = st_evict_path st"
      "st_completed st1 = st_completed st" "st_fixed_cache st1 = st_fixed_cache st"
    and slots1: "st_slots st1 = (st_slots st)[i := s1]"
    using c(6) range k(2) free size runs i
    by (simp add: begin_fill_def reserve_locked_def Let_def i_def s1_def)
  have s1: "st_slots st1 = (st_slots st)[i := s1]" "es_state s1 = Filling" "es_tier s1 = Cached"
    "es_guard_timeline s1 = 0" "es_last_use_token s1 = 0" "\<not> es_run_failed s1"
    by (simp_all add: slots1) (simp_all add: s1_def)
  have inv1: "store_inv st1" using begin_fill_inv [OF c(1), of "ent k" k Cached] sh b by (simp add: entry_shaped_def)
  define st2 where "st2 = snd (finish_fill i True t st1)"
  define s2 where "s2 = s1\<lparr>es_runs_done := es_runs_total s1, es_state := Resident, es_last_use_token := t\<rparr>"
  have inv2: "store_inv st2" unfolding st2_def by (rule finish_fill_inv [OF inv1])
  have f: "finish_fill (rv_slot r) True t st1 = (Inr (), st2)"
    using i s1 r by (simp add: st2_def finish_fill_def Let_def)
  have slots: "st_slots st2 = (st_slots st)[i := s2]" and ix: "st_index st2 = (st_index st)(k \<mapsto> i)"
    and rest: "st_pool st2 = st_pool st" "st_layers st2 = st_layers st"
      "st_experts_per_layer st2 = st_experts_per_layer st" "st_evict_path st2 = st_evict_path st"
      "st_completed st2 = st_completed st" "st_fixed_cache st2 = st_fixed_cache st"
    using i s1 st1 by (simp_all add: st2_def finish_fill_def Let_def settle_ok_fields s2_def)
  have "is_evictable st2 s2" using s1 by (simp add: is_evictable_def live_def s2_def)
  then have "calm fr st2" using calm_upd [OF calm inv2 slots] rest by simp
  moreover have "stamp_view st2 k' = ((stamp_view st)(k \<mapsto> t)) k'" for k'
  proof (cases "k' = k")
    case False
    have "j \<noteq> i" if "st_index st k' = Some j" for j using index_okD(3) [OF inv(1) that] i(2) by auto
    then show ?thesis using False by (cases "st_index st k'") (simp_all add: stamp_view_def ix slots slot_stamp_def)
  qed (use i in \<open>simp add: stamp_view_def ix slots slot_stamp_def s2_def\<close>)
  ultimately show ?thesis using that [OF b f] by (simp add: fun_eq_iff)
qed

text \<open>An eviction in a calm store: the key with the oldest stamp goes, the others stay.\<close>

lemma lru_evicted:
  assumes calm: "calm fr st" and b: "lru_scan st None = Some b"
  obtains k where "st_index st k = Some b" "evict_lru st = (Inr b, recycle b st)" "calm fr (recycle b st)"
    "st_index (recycle b st) = (st_index st)(k := None)"
    "stamp_view (recycle b st) = (stamp_view st)(k := None)" "st_free_list (recycle b st) \<noteq> []"
    "\<And>k' t. stamp_view st k' = Some t \<Longrightarrow> slot_stamp st b \<le> t"
proof -
  note c = calmD [OF calm]
  have inv: "index_ok st" using c(1) by (simp add: store_inv_def)
  have o: "is_oldest st None (length (st_slots st)) b" by (rule lru_scan_Some [OF b])
  then have lt: "b < length (st_slots st)" and live: "live (st_slots st ! b)"
    by (simp_all add: is_oldest_def scan_admits_def is_evictable_def)
  define k where "k = es_key (st_slots st ! b)"
  have kb: "st_index st k = Some b" using index_ok_held [OF inv lt] live by (simp add: k_def live_def)
  have v: "evict_lru st = (Inr b, recycle b st)" using c(2,3) b by (simp add: evict_lru_def lru_victim_def)
  have inv': "store_inv (recycle b st)" by (rule recycle_inv [OF c(1) lt live c(2)])
  have ix: "st_index (recycle b st) = (st_index st)(k := None)"
    and rest: "st_pool (recycle b st) = st_pool st" "st_layers (recycle b st) = st_layers st"
      "st_experts_per_layer (recycle b st) = st_experts_per_layer st" "st_evict_path (recycle b st) = st_evict_path st"
      "st_completed (recycle b st) = st_completed st"
    by (simp_all add: recycle_def release_locked_def unpublish_locked_def Let_def k_def)
  have "\<exists>s'. st_slots (recycle b st) = (st_slots st)[b := s'] \<and> es_state s' = Free"
    by (simp add: recycle_def release_locked_def unpublish_locked_def Let_def) (rule exI, rule conjI, rule refl, simp)
  then obtain s' where slots: "st_slots (recycle b st) = (st_slots st)[b := s']" "es_state s' = Free" by blast
  have calm': "calm fr (recycle b st)" using calm_upd [OF calm inv' slots(1)] slots(2) rest by simp
  have "stamp_view (recycle b st) k' = ((stamp_view st)(k := None)) k'" for k'
  proof (cases "k' = k")
    case False
    have "j \<noteq> b" if "st_index st k' = Some j" for j using index_okD(2) [OF inv that] False by (auto simp: k_def)
    then show ?thesis using False by (cases "st_index st k'") (simp_all add: stamp_view_def ix slots slot_stamp_def)
  qed (simp add: stamp_view_def ix)
  moreover have "slot_stamp st b \<le> t" if w: "stamp_view st k' = Some t" for k' t
  proof -
    obtain j where j: "st_index st k' = Some j" "t = slot_stamp st j" using w by (auto simp: stamp_view_def)
    then show ?thesis using o calm_slot [OF calm j(1)] by (auto simp: is_oldest_def scan_admits_def)
  qed
  ultimately show ?thesis using that [OF kb v calm' ix] by (simp add: fun_eq_iff)
qed

text \<open>The four cases of one streamed transfer.\<close>

lemma stream_held:
  assumes calm: "calm fr st" and k: "stamp_view st k = Some u"
  shows "calm fr (snd (stream_one ent (k, t) (g, st)))" "stamp_view (snd (stream_one ent (k, t) (g, st))) = (stamp_view st)(k \<mapsto> max u t)"
proof -
  note c = calmD [OF calm]
  obtain i where i: "st_index st k = Some i" and u: "u = slot_stamp st i" using k by (auto simp: stamp_view_def)
  note s = calm_slot [OF calm i]
  define st1 where "st1 = snd (touch k t False st)"
  define st0 where "st0 = snd (set_guard i (g + 1) st1)"
  define st' where "st' = set_completed_timeline (g + 1) st0"
  have t1: "touch k t False st = (True, st1)" using s i by (simp add: st1_def touch_def Let_def)
  have st1: "st_slots st1 = (st_slots st)[i := (st_slots st ! i)\<lparr>es_last_use_token := max u t\<rparr>]"
    "st_index st1 = st_index st" "st_pool st1 = st_pool st" "st_layers st1 = st_layers st" "st_completed st1 = st_completed st"
    "st_experts_per_layer st1 = st_experts_per_layer st" "st_evict_path st1 = st_evict_path st" "st_fixed_cache st1 = st_fixed_cache st"
    using s i c(2) by (auto simp: st1_def touch_def Let_def u slot_stamp_def max_def)
  define s' where "s' = (st_slots st ! i)\<lparr>es_last_use_token := max u t, es_guard_timeline := max (es_guard_timeline (st_slots st ! i)) (g + 1)\<rparr>"
  have sg: "set_guard i (g + 1) st1 = (Inr (), st0)" using s st1 by (simp add: st0_def set_guard_def)
  have st': "st_slots st' = (st_slots st)[i := s']"
    "st_index st' = st_index st" "st_pool st' = st_pool st" "st_layers st' = st_layers st" "st_completed st' = max (st_completed st) (g + 1)"
    "st_experts_per_layer st' = st_experts_per_layer st" "st_evict_path st' = st_evict_path st" "st_fixed_cache st' = st_fixed_cache st"
    using s st1 by (auto simp: st'_def st0_def set_completed_fields set_guard_def s'_def max_def)
  have inv: "store_inv st'" unfolding st'_def st0_def st1_def
    by (intro store_inv_same_shape [OF _ set_completed_same_shape] store_inv_same_shape [OF _ set_guard_same_shape] store_inv_same_shape [OF c(1) touch_same_shape])
  have one: "snd (stream_one ent (k, t) (g, st)) = st'"
    using i s t1 sg st1
    by (simp add: stream_one_def admit_streamed_def slot_of_def resident_def state_of_def finish_streamed_def st'_def)
  have ev: "es_state s' = Free \<or> is_evictable st' s'" using s(3) st' by (auto simp: is_evictable_def live_def s'_def)
  show "calm fr (snd (stream_one ent (k, t) (g, st)))" unfolding one by (rule calm_upd [OF calm inv st'(1) ev]) (simp_all add: st')
  have "stamp_view st' k' = ((stamp_view st)(k \<mapsto> max u t)) k'" for k'
  proof (cases "k' = k")
    case False
    have "j \<noteq> i" if "st_index st k' = Some j" for j using calm_slot(2) [OF calm that] s(2) False by auto
    then show ?thesis using False by (cases "st_index st k'") (simp_all add: stamp_view_def st' slot_stamp_def)
  qed (use i s in \<open>simp add: stamp_view_def st' slot_stamp_def s'_def\<close>)
  then show "stamp_view (snd (stream_one ent (k, t) (g, st))) = (stamp_view st)(k \<mapsto> max u t)" unfolding one by blast
qed

lemma stream_room:
  assumes calm: "calm fr st" and k: "streamable ent fr k" "stamp_view st k = None" and free: "st_free_list st \<noteq> []"
  shows "calm fr (snd (stream_one ent (k, t) (g, st)))" "stamp_view (snd (stream_one ent (k, t) (g, st))) = (stamp_view st)(k \<mapsto> t)"
proof -
  have ix: "st_index st k = None" using k(2) by (simp add: stamp_view_def)
  obtain r st1 st2 where f: "begin_fill k (ent k) Cached st = (Inr r, st1)"
    "finish_fill (rv_slot r) True t st1 = (Inr (), st2)" "calm fr st2" "stamp_view st2 = (stamp_view st)(k \<mapsto> t)"
    by (rule fill_settled [OF calm k(1) ix free])
  have "snd (stream_one ent (k, t) (g, st)) = set_completed_timeline (g + 1) st2"
    using ix free f(1,2) by (simp add: stream_one_def admit_streamed_def slot_of_def admit_new_def free_slots_def finish_streamed_def)
  then show "calm fr (snd (stream_one ent (k, t) (g, st)))" "stamp_view (snd (stream_one ent (k, t) (g, st))) = (stamp_view st)(k \<mapsto> t)"
    using calm_completed [OF f(3)] f(4) by (simp_all add: stamp_view_completed)
qed

lemma stream_full:
  assumes calm: "calm fr st" and k: "streamable ent fr k" "stamp_view st k = None" and full: "st_free_list st = []"
  shows "calm fr (snd (stream_one ent (k, t) (g, st)))"
    and "(\<And>k' u. stamp_view st k' = Some u \<Longrightarrow> t \<le> u) \<Longrightarrow> stamp_view (snd (stream_one ent (k, t) (g, st))) = stamp_view st"
    and "stamp_view st k0 = Some u0 \<Longrightarrow> u0 < t \<Longrightarrow>
        \<exists>v m. stamp_view st v = Some m \<and> m < t \<and> (\<forall>k' u. stamp_view st k' = Some u \<longrightarrow> m \<le> u)
          \<and> stamp_view (snd (stream_one ent (k, t) (g, st))) = (stamp_view st)(v := None, k \<mapsto> t)"
proof -
  have ix: "st_index st k = None" using k(2) by (simp add: stamp_view_def)
  note c = calmD [OF calm]
  note one = stream_one_def admit_streamed_def slot_of_def admit_new_def free_slots_def finish_streamed_def
  have drop: "snd (stream_one ent (k, t) (g, st)) = st"
    if "lru_scan st None = None \<or> t \<le> slot_stamp st (the (lru_scan st None))"
    using that ix full by (auto simp: one oldest_evictable_stamp_scan [OF c(2)] drop_admit_def split: option.splits)
  have repl: "calm fr (snd (stream_one ent (k, t) (g, st))) \<and> (\<exists>v. stamp_view st v = Some (slot_stamp st b)
      \<and> (\<forall>k' u. stamp_view st k' = Some u \<longrightarrow> slot_stamp st b \<le> u)
      \<and> stamp_view (snd (stream_one ent (k, t) (g, st))) = (stamp_view st)(v := None, k \<mapsto> t))"
    if b: "lru_scan st None = Some b" "\<not> t \<le> slot_stamp st b" for b
  proof -
    obtain v where v: "st_index st v = Some b" "evict_lru st = (Inr b, recycle b st)" "calm fr (recycle b st)"
      "st_index (recycle b st) = (st_index st)(v := None)"
      "stamp_view (recycle b st) = (stamp_view st)(v := None)" "st_free_list (recycle b st) \<noteq> []"
      "\<And>k' t. stamp_view st k' = Some t \<Longrightarrow> slot_stamp st b \<le> t"
      using lru_evicted [OF calm b(1)] by blast
    have "st_index (recycle b st) k = None" using ix by (simp add: v(4))
    then obtain r st1 st2 where f: "begin_fill k (ent k) Cached (recycle b st) = (Inr r, st1)"
      "finish_fill (rv_slot r) True t st1 = (Inr (), st2)" "calm fr st2"
      "stamp_view st2 = (stamp_view (recycle b st))(k \<mapsto> t)"
      by (rule fill_settled [OF v(3) k(1) _ v(6)])
    have "snd (stream_one ent (k, t) (g, st)) = set_completed_timeline (g + 1) st2"
      using ix full b v(2) f(1,2) by (simp add: one oldest_evictable_stamp_scan [OF c(2)])
    moreover have "stamp_view st v = Some (slot_stamp st b)" using v(1) by (simp add: stamp_view_def)
    ultimately show ?thesis using calm_completed [OF f(3)] f(4) v(5,7) by (auto simp: stamp_view_completed)
  qed
  show "calm fr (snd (stream_one ent (k, t) (g, st)))"
    using drop repl calm by (cases "lru_scan st None") (auto, metis)
  show "stamp_view (snd (stream_one ent (k, t) (g, st))) = stamp_view st"
    if le: "\<And>k' u. stamp_view st k' = Some u \<Longrightarrow> t \<le> u"
  proof (cases "lru_scan st None")
    case (Some b)
    obtain v where "st_index st v = Some b" by (rule lru_evicted [OF calm Some]) (rule that)
    then have "t \<le> slot_stamp st b" using le [of v] by (simp add: stamp_view_def)
    then show ?thesis using drop Some by simp
  qed (simp add: drop)
  show "\<exists>v m. stamp_view st v = Some m \<and> m < t \<and> (\<forall>k' u. stamp_view st k' = Some u \<longrightarrow> m \<le> u)
      \<and> stamp_view (snd (stream_one ent (k, t) (g, st))) = (stamp_view st)(v := None, k \<mapsto> t)"
    if k0: "stamp_view st k0 = Some u0" "u0 < t"
  proof -
    obtain i where i: "st_index st k0 = Some i" "u0 = slot_stamp st i" using k0(1) by (auto simp: stamp_view_def)
    then have "lru_scan st None \<noteq> None" using calm_slot [OF calm i(1)] by (auto simp: lru_scan_None scan_admits_def)
    then obtain b where b: "lru_scan st None = Some b" by blast
    then have "slot_stamp st b \<le> u0" using lru_evicted [OF calm b] k0(1) by metis
    then have "slot_stamp st b < t" using k0(2) by simp
    then show ?thesis using repl [OF b] by (metis not_le)
  qed
qed

interpretation streaming: stream_cache "stamp_view \<circ> snd" "stream_one ent" "calm fr \<circ> snd" "streamable ent fr" "fst fr"
proof (unfold_locales, unfold comp_apply)
  fix gst :: "nat \<times> store" and k t u k0 u0
  assume "calm fr (snd gst)"
  then obtain g st where gst: "gst = (g, st)" and calm: "calm fr st" by (cases gst) simp
  note c = calmD [OF calm]
  note card = index_card [OF c(1)]
  have N: "fst fr = length (st_slots st)" using c(4) by (auto simp: frame_of_def)
  show "card (dom (stamp_view (snd gst))) \<le> fst fr" "finite (dom (stamp_view (snd gst)))" using card N by (simp_all add: gst)
  assume k: "streamable ent fr k"
  show "calm fr (snd (stream_one ent (k, t) gst))"
    using stream_held(1) [OF calm] stream_room(1) [OF calm k] stream_full(1) [OF calm k]
    by (cases "stamp_view (snd gst) k"; cases "st_free_list st = []") (simp_all add: gst)
  show "stamp_view (snd gst) k = Some u \<Longrightarrow> stamp_view (snd (stream_one ent (k, t) gst)) = (stamp_view (snd gst))(k \<mapsto> max u t)"
    unfolding gst snd_conv by (rule stream_held(2) [OF calm])
  assume "stamp_view (snd gst) k = None"
  then have none: "stamp_view st k = None" by (simp add: gst)
  show "card (dom (stamp_view (snd gst))) < fst fr \<Longrightarrow> stamp_view (snd (stream_one ent (k, t) gst)) = (stamp_view (snd gst))(k \<mapsto> t)"
    unfolding gst snd_conv using card N by (intro stream_room(2) [OF calm k none]) auto
  assume "card (dom (stamp_view (snd gst))) = fst fr"
  then have full: "st_free_list st = []" using card N by (simp add: gst)
  show "(\<And>k' u. stamp_view (snd gst) k' = Some u \<Longrightarrow> t \<le> u) \<Longrightarrow> stamp_view (snd (stream_one ent (k, t) gst)) = stamp_view (snd gst)"
    unfolding gst snd_conv by (rule stream_full(2) [OF calm k none full])
  show "stamp_view (snd gst) k0 = Some u0 \<Longrightarrow> u0 < t \<Longrightarrow>
        \<exists>v m. stamp_view (snd gst) v = Some m \<and> m < t \<and> (\<forall>k' u. stamp_view (snd gst) k' = Some u \<longrightarrow> m \<le> u)
          \<and> stamp_view (snd (stream_one ent (k, t) gst)) = (stamp_view (snd gst))(v := None, k \<mapsto> t)"
    unfolding gst snd_conv by (rule stream_full(3) [OF calm k none full])
qed

lemma handoff_keeps_newest_parts:
  assumes "calm (frame_of st) st"
    and "\<forall>(k, t) \<in> set xs. streamable ent (frame_of st) k \<and> own t = k"
    and "owned own (stamp_view st)"
  shows "newest (length (st_slots st)) (merged (stamp_view st) xs) (stamp_view (snd (fold (stream_one ent) xs (clock, st))))"
    and "mset ys = mset xs \<Longrightarrow>
      stamp_view (snd (fold (stream_one ent) ys (clock, st))) = stamp_view (snd (fold (stream_one ent) xs (clock, st)))"
proof -
  have ok: "(calm (frame_of st) \<circ> snd) (clock, st)" using assms(1) by simp
  have "fst (frame_of st) = length (st_slots st)" by (simp add: frame_of_def)
  then show "newest (length (st_slots st)) (merged (stamp_view st) xs) (stamp_view (snd (fold (stream_one ent) xs (clock, st))))"
    using streaming.stream_newest [OF ok assms(2) streaming.view_newest [OF ok]] assms(3) by simp
  assume "mset ys = mset xs"
  then show "stamp_view (snd (fold (stream_one ent) ys (clock, st))) = stamp_view (snd (fold (stream_one ent) xs (clock, st)))"
    using streaming.stream_permute [OF ok assms(2), of ys] assms(3) by auto
qed

text \<open>
  C5. A prefill streams expert transfers, each with the stamp of its last use, into a store of
  n slots that is calm: not in fixed mode, no path preferred for eviction, and every slot either free or
  evictable, so that nothing is being filled, pinned or still read. When the transfers are made one
  at a time, each settled with success before the next is admitted, and no two keys share a stamp,
  then, whatever the order of the stream, the store ends with exactly the n newest keys of
  everything it held or was offered, each at its newest stamp. The guards the engine raises on the way
  do not matter: each is retired when its transfer is released. (Transfers that overlap are not covered: a
  reservation still open can not be replaced by a newer key.)
\<close>

theorem handoff_keeps_newest:
  assumes "calm (frame_of st) st"
    and "\<forall>(k, t) \<in> set xs. streamable ent (frame_of st) k \<and> own t = k"
    and "owned own (stamp_view st)"
  shows "(newest (length (st_slots st)) (merged (stamp_view st) xs) (stamp_view (snd (fold (stream_one ent) xs (clock, st)))))
   \<and> (\<forall>ys. mset ys = mset xs \<longrightarrow>
      stamp_view (snd (fold (stream_one ent) ys (clock, st))) = stamp_view (snd (fold (stream_one ent) xs (clock, st))))"
  using handoff_keeps_newest_parts [OF assms] by blast

definition wide_store :: store where
  "wide_store = snd (store_init demo_backing demo_cache 1 3 empty_store)"

lemma wide_store_facts:
  "st_slots wide_store = [demo_slot 0 65536, demo_slot 1 18874368]" "st_index wide_store = Map.empty"
  "st_layers wide_store = 1" "st_experts_per_layer wide_store = 3" "st_evict_path wide_store = PathOff"
  "\<not> st_fixed_cache wide_store" "slot_bytes (sp_cfg (st_pool wide_store)) = 18808832"
  by (simp_all add: wide_store_def store_init_def demo_cache_def empty_store_def demo_pool two_facts two_not_le_one
      pool_address_def decompose_def Let_def zero_stats_def default_slot_def demo_slot_def)

lemma wide_store_calm: "calm (frame_of wide_store) wide_store"
proof -
  have "reachable wide_store"
    unfolding wide_store_def by (rule reach_init [OF reach_empty]) (rule prod.collapse [symmetric])
  then have "store_inv wide_store" by (rule reachable_store_inv)
  then show ?thesis by (simp add: calm_def wide_store_facts demo_slot_def default_slot_def)
qed

theorem handoff_keeps_newest_witness:
  "stamp_view (snd (fold (stream_one (\<lambda>k. demo_entry)) [(ExpertKey 0 2, 12), (ExpertKey 0 0, 10), (ExpertKey 0 1, 11)] (0, wide_store)))
     = [ExpertKey 0 2 \<mapsto> 12, ExpertKey 0 1 \<mapsto> 11]"
proof -
  let ?own = "\<lambda>t :: nat. if t = 10 then ExpertKey 0 0 else if t = 11 then ExpertKey 0 1 else ExpertKey 0 2"
  let ?xs = "[(ExpertKey 0 2, 12), (ExpertKey 0 0, 10), (ExpertKey 0 1, 11)]"
  have v: "stamp_view wide_store = Map.empty" by (simp add: stamp_view_def wide_store_facts fun_eq_iff)
  have m: "merged Map.empty ?xs = [ExpertKey 0 2 \<mapsto> 12, ExpertKey 0 0 \<mapsto> 10, ExpertKey 0 1 \<mapsto> 11]"
    by (simp add: merged_def put_newer_def fun_eq_iff)
  have "newest (Suc (Suc 0)) (merged Map.empty ?xs) (stamp_view (snd (fold (stream_one (\<lambda>k. demo_entry)) ?xs (0, wide_store))))"
    using handoff_keeps_newest [OF wide_store_calm, of ?xs "\<lambda>k. demo_entry" ?own 0]
    by (simp add: v wide_store_facts streamable_def frame_of_def entry_shaped_def demo_entry_def kExpertParts_def
        kMaxExpertRuns_def owned_def)
  moreover have "newest (Suc (Suc 0)) (merged Map.empty ?xs) [ExpertKey 0 2 \<mapsto> 12, ExpertKey 0 1 \<mapsto> 11]"
    unfolding m by (rule newestI) (auto split: if_splits)
  ultimately show ?thesis by (rule newest_unique)
qed

end
