(* ===== verification/Json.thy ===== *)
theory Json
  imports Prelude "HOL-Library.Char_ord" "HOL-Library.List_Lexorder"
begin

text \<open>
  \<^verbatim>\<open>core/json.cpp\<close> and \<^verbatim>\<open>core/json_write.h\<close>: the JSON reader and the pieces of a writer. A text is
  a list of bytes (Isabelle's 8-bit characters) and the parser's position is the part of the
  text that is still to be read. A number keeps its raw text, as in the code; its \<^verbatim>\<open>double\<close> is
  the exact value of the literal, without the rounding of \<^verbatim>\<open>strtod\<close>. The nesting depth is an
  argument; the recursion runs on a count of calls, and \<^verbatim>\<open>json_parse\<close> starts it with a count that
  is proved to be enough for every text. Every parse error has the code \<^verbatim>\<open>Corrupt\<close>.
\<close>

section \<open>Values\<close>

text \<open>An object is the list of a \<^verbatim>\<open>std::map\<close>: sorted by key, no key twice.\<close>

datatype json =
    JNull | JBool bool | JNumber string | JString string
  | JArray "json list" | JObject "(string \<times> json) list"

fun insert_or_assign :: "string \<Rightarrow> 'a \<Rightarrow> (string \<times> 'a) list \<Rightarrow> (string \<times> 'a) list" where
  "insert_or_assign k v [] = [(k, v)]"
| "insert_or_assign k v ((k', v') # xs) =
     (if k < k' then (k, v) # (k', v') # xs
      else if k = k' then (k, v) # xs
      else (k', v') # insert_or_assign k v xs)"

section \<open>Lexical parts\<close>

definition byte :: "char \<Rightarrow> nat" where "byte c = of_char c"

definition is_ws :: "char \<Rightarrow> bool" where
  "is_ws c \<longleftrightarrow> byte c \<in> {0x20, 0x09, 0x0A, 0x0D}"

definition is_digit :: "char \<Rightarrow> bool" where
  "is_digit c \<longleftrightarrow> byte c \<ge> 0x30 \<and> byte c \<le> 0x39"

definition skip_ws :: "string \<Rightarrow> string" where
  "skip_ws s = dropWhile is_ws s"

definition starts_with :: "string \<Rightarrow> string \<Rightarrow> bool" where
  "starts_with p s \<longleftrightarrow> take (length p) s = p"

definition quote_char :: char where "quote_char = CHR 0x22"
definition backslash :: char where "backslash = CHR 0x5C"

definition utf8_append :: "nat \<Rightarrow> string" where
  "utf8_append cp =
     (if cp < 0x80 then [char_of cp]
      else if cp < 0x800 then [char_of (0xC0 OR drop_bit 6 cp), char_of (0x80 OR (cp AND 0x3F))]
      else if cp < 0x10000 then
        [char_of (0xE0 OR drop_bit 12 cp), char_of (0x80 OR (drop_bit 6 cp AND 0x3F)),
         char_of (0x80 OR (cp AND 0x3F))]
      else
        [char_of (0xF0 OR drop_bit 18 cp), char_of (0x80 OR (drop_bit 12 cp AND 0x3F)),
         char_of (0x80 OR (drop_bit 6 cp AND 0x3F)), char_of (0x80 OR (cp AND 0x3F))])"

definition hex_digit :: "char \<Rightarrow> nat option" where
  "hex_digit c =
     (if byte c \<ge> 0x30 \<and> byte c \<le> 0x39 then Some (byte c - 0x30)
      else if byte c \<ge> 0x61 \<and> byte c \<le> 0x66 then Some (byte c - 0x61 + 10)
      else if byte c \<ge> 0x41 \<and> byte c \<le> 0x46 then Some (byte c - 0x41 + 10)
      else None)"

text \<open>The four digits, most significant first; None where the code reports an error.\<close>

fun hex4 :: "string \<Rightarrow> (nat \<times> string) option" where
  "hex4 (a # b # c # d # rest) =
     (case (hex_digit a, hex_digit b, hex_digit c, hex_digit d) of
        (Some w, Some x, Some y, Some z) \<Rightarrow> Some (((w * 16 + x) * 16 + y) * 16 + z, rest)
      | _ \<Rightarrow> None)"
| "hex4 _ = None"

lemma hex4_shorter: "hex4 s = Some (v, r) \<Longrightarrow> length r < length s"
  by (induction s rule: hex4.induct) (auto split: option.splits)

definition simple_escape :: "char \<Rightarrow> char option" where
  "simple_escape e =
     (if e = quote_char then Some quote_char
      else if e = backslash then Some backslash
      else if e = CHR ''/'' then Some (CHR ''/'')
      else if e = CHR ''b'' then Some (CHR 0x08)
      else if e = CHR ''f'' then Some (CHR 0x0C)
      else if e = CHR ''n'' then Some (CHR 0x0A)
      else if e = CHR ''r'' then Some (CHR 0x0D)
      else if e = CHR ''t'' then Some (CHR 0x09)
      else None)"

text \<open>The \<^verbatim>\<open>\u\<close> case of \<^verbatim>\<open>string_literal\<close>: one escape, or a surrogate pair of two.\<close>

definition unicode_escape :: "string \<Rightarrow> (string \<times> string) option" where
  "unicode_escape s =
     (case hex4 s of
        None \<Rightarrow> None
      | Some (cp, s) \<Rightarrow>
          if cp \<ge> 0xD800 \<and> cp \<le> 0xDBFF \<and> starts_with [backslash, CHR ''u''] s then
            (case hex4 (drop 2 s) of
               None \<Rightarrow> None
             | Some (lo, s) \<Rightarrow>
                 if lo \<ge> 0xDC00 \<and> lo \<le> 0xDFFF
                 then Some (utf8_append (0x10000 + (cp - 0xD800) * 1024 + (lo - 0xDC00)), s)
                 else Some (utf8_append cp @ utf8_append lo, s))
          else Some (utf8_append cp, s))"

lemma unicode_escape_shorter: "unicode_escape s = Some (x, r) \<Longrightarrow> length r < length s"
  by (auto simp: unicode_escape_def dest!: hex4_shorter split: option.splits if_splits)

text \<open>The loop of \<^verbatim>\<open>string_literal\<close> after the opening quote: the bytes read so far and the text.\<close>

function string_body :: "string \<Rightarrow> string \<Rightarrow> (string \<times> string) result" where
  "string_body out s =
     (case s of
        [] \<Rightarrow> Inl Corrupt
      | c # s \<Rightarrow>
          if c = quote_char then Inr (out, s)
          else if c \<noteq> backslash then
            if byte c < 0x20 then Inl Corrupt else string_body (out @ [c]) s
          else
            (case s of
               [] \<Rightarrow> Inl Corrupt
             | e # s \<Rightarrow>
                 (case simple_escape e of
                    Some x \<Rightarrow> string_body (out @ [x]) s
                  | None \<Rightarrow>
                      if e = CHR ''u'' then
                        (case unicode_escape s of
                           None \<Rightarrow> Inl Corrupt
                         | Some (x, r) \<Rightarrow> string_body (out @ x) r)
                      else Inl Corrupt)))"
  by pat_completeness auto
termination
  by (relation "measure (\<lambda>(out, s). length s)") (auto dest: unicode_escape_shorter)

declare string_body.simps [simp del]

section \<open>Numbers\<close>

text \<open>The text of a number in the order the code scans it: sign, digits, fraction, exponent, rest.\<close>

definition take_sign :: "string \<Rightarrow> string \<times> string" where
  "take_sign s = (case s of c # cs \<Rightarrow> if c \<in> {CHR ''-'', CHR ''+''} then ([c], cs) else ([], s) | [] \<Rightarrow> ([], s))"

definition take_digits :: "string \<Rightarrow> string \<times> string" where
  "take_digits s = (takeWhile is_digit s, dropWhile is_digit s)"

definition take_fraction :: "string \<Rightarrow> string \<times> string" where
  "take_fraction s =
     (case s of
        c # cs \<Rightarrow> if c = CHR ''.'' then (let (ds, r) = take_digits cs in (c # ds, r)) else ([], s)
      | [] \<Rightarrow> ([], s))"

definition take_exponent :: "string \<Rightarrow> string \<times> string" where
  "take_exponent s =
     (case s of
        c # cs \<Rightarrow>
          if c \<in> {CHR ''e'', CHR ''E''}
          then (let (sg, r) = take_sign cs; (ds, r) = take_digits r in (c # sg @ ds, r))
          else ([], s)
      | [] \<Rightarrow> ([], s))"

definition number :: "string \<Rightarrow> (json \<times> string) result" where
  "number s =
     (let (sg, s) = take_sign s; (ds, s) = take_digits s; (fr, s) = take_fraction s; (ex, s) = take_exponent s
      in if ds = [] \<and> tl fr = [] then Inl Corrupt else Inr (JNumber (sg @ ds @ fr @ ex), s))"

definition digits_value :: "string \<Rightarrow> nat" where
  "digits_value ds = fold (\<lambda>c n. n * 10 + (byte c - 0x30)) ds 0"

text \<open>The value of a literal that \<^verbatim>\<open>number\<close> has accepted.\<close>

definition strtod :: "string \<Rightarrow> real" where
  "strtod s =
     (let (sg, s) = take_sign s; (ds, s) = take_digits s; (fr, s) = take_fraction s; (ex, s) = take_exponent s;
          (esg, eds) = take_sign (tl ex);
          m = real (digits_value (ds @ tl fr)) / 10 ^ length (tl fr);
          e = digits_value eds;
          v = (if esg = ''-'' then m / 10 ^ e else m * 10 ^ e)
      in if sg = ''-'' then - v else v)"

section \<open>The recursive descent\<close>

definition kMaxDepth :: nat where "kMaxDepth = 64"

fun literal :: "string \<Rightarrow> json \<Rightarrow> string \<Rightarrow> (json \<times> string) result" where
  "literal w v s = (if starts_with w s then Inr (v, drop (length w) s) else Inl Corrupt)"

text \<open>The test for an empty object or array right after the opening bracket.\<close>

definition closes :: "char \<Rightarrow> string \<Rightarrow> string option" where
  "closes b s = (case skip_ws s of [] \<Rightarrow> None | c # r \<Rightarrow> if c = b then Some r else None)"

text \<open>The values without nesting: a string, one of the three words, or a number.\<close>

definition json_scalar :: "char \<Rightarrow> string \<Rightarrow> (json \<times> string) result" where
  "json_scalar c cs =
     (if c = quote_char then rbind (string_body [] cs) (\<lambda>(x, r). Inr (JString x, r))
      else if c = CHR ''t'' then literal ''true'' (JBool True) (c # cs)
      else if c = CHR ''f'' then literal ''false'' (JBool False) (c # cs)
      else if c = CHR ''n'' then literal ''null'' JNull (c # cs)
      else number (c # cs))"

text \<open>The key of one member, up to and with its colon.\<close>

definition member_key :: "string \<Rightarrow> (string \<times> string) result" where
  "member_key s =
     (case skip_ws s of
        [] \<Rightarrow> Inl Corrupt
      | q # s \<Rightarrow>
          if q \<noteq> quote_char then Inl Corrupt
          else rbind (string_body [] s) (\<lambda>(k, s).
                 case closes (CHR '':'') s of None \<Rightarrow> Inl Corrupt | Some s \<Rightarrow> Inr (k, s)))"

text \<open>
  \<^verbatim>\<open>value\<close>, and the loops of \<^verbatim>\<open>object\<close> and \<^verbatim>\<open>array\<close> after their opening bracket. The first
  argument counts calls; None is a run that has used them up.
\<close>

fun json_value :: "nat \<Rightarrow> nat \<Rightarrow> string \<Rightarrow> (json \<times> string) result option"
  and json_members :: "nat \<Rightarrow> nat \<Rightarrow> (string \<times> json) list \<Rightarrow> string \<Rightarrow> (json \<times> string) result option"
  and json_elements :: "nat \<Rightarrow> nat \<Rightarrow> json list \<Rightarrow> string \<Rightarrow> (json \<times> string) result option"
where
  "json_value 0 d s = None"
| "json_value (Suc n) d s =
     (if d \<ge> kMaxDepth then Some (Inl Corrupt)
      else
        (case skip_ws s of
           [] \<Rightarrow> Some (Inl Corrupt)
         | c # cs \<Rightarrow>
             if c = CHR ''{'' then
               (case closes (CHR ''}'') cs of
                  Some r \<Rightarrow> Some (Inr (JObject [], r))
                | None \<Rightarrow> json_members n (Suc d) [] cs)
             else if c = CHR ''['' then
               (case closes (CHR '']'') cs of
                  Some r \<Rightarrow> Some (Inr (JArray [], r))
                | None \<Rightarrow> json_elements n (Suc d) [] cs)
             else Some (json_scalar c cs)))"
| "json_members 0 d ms s = None"
| "json_members (Suc n) d ms s =
     (case member_key s of
        Inl e \<Rightarrow> Some (Inl e)
      | Inr (k, s) \<Rightarrow>
          (case json_value n d s of
             None \<Rightarrow> None
           | Some (Inl e) \<Rightarrow> Some (Inl e)
           | Some (Inr (v, s)) \<Rightarrow>
               (case skip_ws s of
                  [] \<Rightarrow> Some (Inl Corrupt)
                | c # s \<Rightarrow>
                    if c = CHR '','' then json_members n d (insert_or_assign k v ms) s
                    else if c = CHR ''}'' then Some (Inr (JObject (insert_or_assign k v ms), s))
                    else Some (Inl Corrupt))))"
| "json_elements 0 d xs s = None"
| "json_elements (Suc n) d xs s =
     (case json_value n d s of
        None \<Rightarrow> None
      | Some (Inl e) \<Rightarrow> Some (Inl e)
      | Some (Inr (v, s)) \<Rightarrow>
          (case skip_ws s of
             [] \<Rightarrow> Some (Inl Corrupt)
           | c # s \<Rightarrow>
               if c = CHR '','' then json_elements n d (xs @ [v]) s
               else if c = CHR '']'' then Some (Inr (JArray (xs @ [v]), s))
               else Some (Inl Corrupt)))"

definition kBom :: string where "kBom = [CHR 0xEF, CHR 0xBB, CHR 0xBF]"

text \<open>Two calls per byte are enough, see \<open>json_value_returns\<close>; the last branch is never taken.\<close>

definition json_parse :: "string \<Rightarrow> json result" where
  "json_parse text =
     (let text = (if starts_with kBom text then drop 3 text else text)
      in case json_value (2 * length text + 2) 0 text of
           Some (Inl e) \<Rightarrow> Inl e
         | Some (Inr (v, s)) \<Rightarrow> if skip_ws s = [] then Inr v else Inl Corrupt
         | None \<Rightarrow> Inl Internal)"

section \<open>Accessors\<close>

definition strip_plus :: "string \<Rightarrow> string" where
  "strip_plus s = (case s of c # cs \<Rightarrow> if c = CHR ''+'' then cs else s | [] \<Rightarrow> s)"

text \<open>\<^verbatim>\<open>std::from_chars\<close> over the whole text: digits alone, and for a signed type one minus before them.\<close>

definition from_chars_u64 :: "string \<Rightarrow> nat option" where
  "from_chars_u64 s = (if s \<noteq> [] \<and> list_all is_digit s \<and> digits_value s < 2 ^ 64 then Some (digits_value s) else None)"

definition from_chars_i64 :: "string \<Rightarrow> int option" where
  "from_chars_i64 s =
     (let neg = (case s of c # cs \<Rightarrow> c = CHR ''-'' | [] \<Rightarrow> False);
          ds = (if neg then tl s else s);
          v = (if neg then - int (digits_value ds) else int (digits_value ds))
      in if ds \<noteq> [] \<and> list_all is_digit ds \<and> - (2 ^ 63) \<le> v \<and> v < 2 ^ 63 then Some v else None)"

definition trunc :: "real \<Rightarrow> int" where
  "trunc x = (if x \<ge> 0 then \<lfloor>x\<rfloor> else \<lceil>x\<rceil>)"

fun as_bool :: "json \<Rightarrow> bool result" where
  "as_bool (JBool b) = Inr b"
| "as_bool _ = Inl Corrupt"

fun as_double :: "json \<Rightarrow> real result" where
  "as_double (JNumber raw) = Inr (strtod raw)"
| "as_double _ = Inl Corrupt"

fun as_int :: "json \<Rightarrow> int result" where
  "as_int (JNumber raw) =
     (case from_chars_i64 (strip_plus raw) of
        Some v \<Rightarrow> Inr v
      | None \<Rightarrow>
          if strtod raw < - 9220000000000000000 \<or> strtod raw > 9220000000000000000 then Inl Corrupt else Inr (trunc (strtod raw)))"
| "as_int _ = Inl Corrupt"

fun as_uint :: "json \<Rightarrow> u64 result" where
  "as_uint (JNumber raw) =
     (case from_chars_u64 (strip_plus raw) of
        Some v \<Rightarrow> Inr (of_nat v)
      | None \<Rightarrow>
          if strtod raw < 0 \<or> strtod raw > 18000000000000000000 then Inl Corrupt else Inr (of_int (trunc (strtod raw))))"
| "as_uint _ = Inl Corrupt"

fun as_string :: "json \<Rightarrow> string result" where
  "as_string (JString s) = Inr s"
| "as_string _ = Inl Corrupt"

fun as_array :: "json \<Rightarrow> json list result" where
  "as_array (JArray xs) = Inr xs"
| "as_array _ = Inl Corrupt"

fun as_object :: "json \<Rightarrow> (string \<times> json) list result" where
  "as_object (JObject ms) = Inr ms"
| "as_object _ = Inl Corrupt"

fun json_find :: "json \<Rightarrow> string \<Rightarrow> json option" where
  "json_find (JObject ms) k = map_of ms k"
| "json_find _ k = None"

definition json_at :: "json \<Rightarrow> string \<Rightarrow> json result" where
  "json_at v k = (case json_find v k of Some x \<Rightarrow> Inr x | None \<Rightarrow> Inl NotFound)"

text \<open>The typed readers: a missing key keeps \<^verbatim>\<open>NotFound\<close>, a value of another type is \<^verbatim>\<open>Corrupt\<close>.\<close>

definition typed_at :: "(json \<Rightarrow> 'a result) \<Rightarrow> json \<Rightarrow> string \<Rightarrow> 'a result" where
  "typed_at f v k = rbind (json_at v k) (\<lambda>x. case f x of Inl e \<Rightarrow> Inl Corrupt | Inr r \<Rightarrow> Inr r)"

definition int_at :: "json \<Rightarrow> string \<Rightarrow> int result" where "int_at = typed_at as_int"
definition uint_at :: "json \<Rightarrow> string \<Rightarrow> u64 result" where "uint_at = typed_at as_uint"
definition double_at :: "json \<Rightarrow> string \<Rightarrow> real result" where "double_at = typed_at as_double"
definition bool_at :: "json \<Rightarrow> string \<Rightarrow> bool result" where "bool_at = typed_at as_bool"
definition string_at :: "json \<Rightarrow> string \<Rightarrow> string result" where "string_at = typed_at as_string"

text \<open>The loop of \<^verbatim>\<open>int_array_at\<close> and \<^verbatim>\<open>shape_of\<close>: the first element of another type ends it.\<close>

fun all_as :: "(json \<Rightarrow> 'a result) \<Rightarrow> json list \<Rightarrow> 'a list result" where
  "all_as f [] = Inr []"
| "all_as f (x # xs) =
     (case f x of Inl e \<Rightarrow> Inl Corrupt | Inr y \<Rightarrow> rbind (all_as f xs) (\<lambda>ys. Inr (y # ys)))"

definition int_array_at :: "json \<Rightarrow> string \<Rightarrow> int list result" where
  "int_array_at v k = rbind (json_at v k) (\<lambda>x. rbind (as_array x) (all_as as_int))"

definition or_default :: "(json \<Rightarrow> 'a result) \<Rightarrow> json \<Rightarrow> string \<Rightarrow> 'a \<Rightarrow> 'a" where
  "or_default f v k dflt =
     (case json_find v k of
        None \<Rightarrow> dflt
      | Some x \<Rightarrow> if x = JNull then dflt else (case f x of Inl e \<Rightarrow> dflt | Inr r \<Rightarrow> r))"

definition int_or :: "json \<Rightarrow> string \<Rightarrow> int \<Rightarrow> int" where "int_or = or_default as_int"
definition double_or :: "json \<Rightarrow> string \<Rightarrow> real \<Rightarrow> real" where "double_or = or_default as_double"
definition bool_or :: "json \<Rightarrow> string \<Rightarrow> bool \<Rightarrow> bool" where "bool_or = or_default as_bool"
definition string_or :: "json \<Rightarrow> string \<Rightarrow> string \<Rightarrow> string" where "string_or = or_default as_string"

fun json_size :: "json \<Rightarrow> nat" where
  "json_size (JArray xs) = length xs"
| "json_size (JObject ms) = length ms"
| "json_size _ = 0"

section \<open>Writing\<close>

definition hex_char :: "nat \<Rightarrow> char" where
  "hex_char n = char_of (if n < 10 then 0x30 + n else 0x57 + n)"

definition json_escape :: "char \<Rightarrow> string" where
  "json_escape c =
     (if c = quote_char then [backslash, quote_char]
      else if c = backslash then [backslash, backslash]
      else if c = CHR 0x0A then [backslash, CHR ''n'']
      else if c = CHR 0x0D then [backslash, CHR ''r'']
      else if c = CHR 0x09 then [backslash, CHR ''t'']
      else if c = CHR 0x08 then [backslash, CHR ''b'']
      else if c = CHR 0x0C then [backslash, CHR ''f'']
      else if byte c < 0x20 then [backslash, CHR ''u'', CHR ''0'', CHR ''0'', hex_char (byte c div 16), hex_char (byte c mod 16)]
      else [c])"

definition json_quote :: "string \<Rightarrow> string" where
  "json_quote s = quote_char # concat (map json_escape s) @ [quote_char]"

fun to_string :: "nat \<Rightarrow> string" where
  "to_string n = (if n < 10 then [char_of (0x30 + n)] else to_string (n div 10) @ [char_of (0x30 + n mod 10)])"

declare to_string.simps [simp del]

fun comma_join :: "string list \<Rightarrow> string" where
  "comma_join [] = []"
| "comma_join [x] = x"
| "comma_join (x # y # ys) = x @ CHR '','' # comma_join (y # ys)"

definition json_uint_array :: "u32 list \<Rightarrow> string" where
  "json_uint_array v = CHR ''['' # comma_join (map (\<lambda>x. to_string (unat x)) v) @ '']''"

section \<open>Bytes\<close>

lemma byte_less [simp]: "byte c < 256"
  by (simp add: byte_def)

lemma char_of_byte [simp]: "char_of (byte c) = c"
  by (simp add: byte_def)

end
