(* ===== verification/Json_Props.thy ===== *)
theory Json_Props
  imports Json
begin

text \<open>
  The parser consumes what it returns from, the count of calls that \<^verbatim>\<open>json_parse\<close> starts with is
  enough, and reading inverts writing: for quoted strings, for arrays of integers, and for the
  plain rendering of every value.
\<close>

section \<open>Every call consumes text\<close>

lemma skip_ws_length: "length (skip_ws s) \<le> length s"
  by (simp add: skip_ws_def length_dropWhile_le)

lemma skip_ws_Cons: "skip_ws s = c # r \<Longrightarrow> length r < length s"
  using skip_ws_length [of s] by simp

lemma closes_shorter: "closes b s = Some r \<Longrightarrow> length r < length s"
  by (auto simp: closes_def dest: skip_ws_Cons split: list.splits if_splits)

lemma string_body_shorter: "string_body out s = Inr (x, r) \<Longrightarrow> length r < length s"
proof (induction s arbitrary: out rule: length_induct)
  case (1 s)
  have IH: "length r < length t" if "string_body o' t = Inr (x, r)" "length t < length s" for o' t
    using 1(1) that by blast
  have uni: "length r < Suc (Suc (length t))"
    if "unicode_escape t = Some (y, t')" "string_body o' t' = Inr (x, r)" "length t < length s" for o' t y t'
    using IH [OF that(2)] unicode_escape_shorter [OF that(1)] that(3) by simp
  show ?case using 1(2)
    by (subst (asm) string_body.simps)
      (auto split: list.splits if_splits option.splits dest: uni IH)
qed

lemma take_lengths:
  "length (snd (take_sign s)) \<le> length s" "length (snd (take_digits s)) \<le> length s"
  "length (snd (take_fraction s)) \<le> length s" "length (snd (take_exponent s)) \<le> length s"
proof -
  show a: "length (snd (take_sign s)) \<le> length s" for s
    by (auto simp: take_sign_def split: list.splits)
  show b: "length (snd (take_digits s)) \<le> length s" for s
    by (simp add: take_digits_def length_dropWhile_le)
  show "length (snd (take_fraction s)) \<le> length s"
    using b [of "tl s"] by (auto simp: take_fraction_def split: list.splits prod.splits)
  show "length (snd (take_exponent s)) \<le> length s"
    using a [of "tl s"] b [of "snd (take_sign (tl s))"] by (auto simp: take_exponent_def split: list.splits prod.splits)
qed

lemma take_digits_parts: "fst (take_digits s) @ snd (take_digits s) = s"
  by (simp add: take_digits_def)

lemma take_parts:
  "fst (take_sign s) @ snd (take_sign s) = s" "fst (take_fraction s) @ snd (take_fraction s) = s"
  "fst (take_exponent s) @ snd (take_exponent s) = s"
proof -
  show a: "fst (take_sign s) @ snd (take_sign s) = s" for s
    by (auto simp: take_sign_def split: list.splits)
  show "fst (take_fraction s) @ snd (take_fraction s) = s"
    by (auto simp: take_fraction_def take_digits_def split: list.splits)
  show "fst (take_exponent s) @ snd (take_exponent s) = s"
    using a [of "tl s"] by (auto simp: take_exponent_def take_digits_def split: list.splits prod.splits)
qed

lemma number_parts:
  assumes "number s = Inr (v, r)"
  obtains raw where "v = JNumber raw" "raw \<noteq> []" "s = raw @ r"
proof -
  obtain sg s1 where 1: "take_sign s = (sg, s1)" by (cases "take_sign s")
  obtain ds s2 where 2: "take_digits s1 = (ds, s2)" by (cases "take_digits s1")
  obtain fr s3 where 3: "take_fraction s2 = (fr, s3)" by (cases "take_fraction s2")
  obtain ex s4 where 4: "take_exponent s3 = (ex, s4)" by (cases "take_exponent s3")
  have "s = sg @ ds @ fr @ ex @ s4"
    using take_parts(1) [of s] take_digits_parts [of s1] take_parts(2) [of s2] take_parts(3) [of s3] 1 2 3 4 by simp
  moreover have "v = JNumber (sg @ ds @ fr @ ex)" "r = s4" "\<not> (ds = [] \<and> tl fr = [])"
    using assms 1 2 3 4 by (auto simp: number_def split: if_splits)
  ultimately show ?thesis using that by (cases fr) auto
qed

lemma json_scalar_shorter:
  assumes "json_scalar c cs = Inr (v, r)"
  shows "length r < Suc (length cs)"
proof -
  have "length r \<le> length cs" if "string_body [] cs = Inr (x, r)" for x
    using string_body_shorter [OF that] by simp
  moreover have "length r < Suc (length cs)" if "number (c # cs) = Inr (v, r)"
    using number_parts [OF that] by (metis length_Cons length_append length_greater_0_conv less_add_same_cancel2)
  ultimately show ?thesis using assms
    by (auto simp: json_scalar_def rbind_Inr_iff less_Suc_eq_le split: if_splits)
qed

lemma member_key_shorter: "member_key s = Inr (k, r) \<Longrightarrow> length r < length s"
proof -
  assume "member_key s = Inr (k, r)"
  then obtain q s1 s2 where "skip_ws s = q # s1" "string_body [] s1 = Inr (k, s2)" "closes (CHR '':'') s2 = Some r"
    by (auto simp: member_key_def rbind_Inr_iff split: list.splits if_splits option.splits)
  then show ?thesis using skip_ws_Cons [of s q s1] string_body_shorter [of "[]" s1 k s2] closes_shorter [of "CHR '':''" s2 r] by simp
qed

lemma json_shorter:
  "json_value n d s = Some (Inr (v, r)) \<Longrightarrow> length r < length s"
  "json_members n d ms s = Some (Inr (v, r)) \<Longrightarrow> length r < length s"
  "json_elements n d xs s = Some (Inr (v, r)) \<Longrightarrow> length r < length s"
proof (induction n d s and n d ms s and n d xs s arbitrary: v r and v r and v r
    rule: json_value_json_members_json_elements.induct)
  case (2 n d s)
  then obtain c cs where c: "skip_ws s = c # cs" by (auto split: if_splits list.splits)
  have "length r < Suc (length cs)" using 2 c json_scalar_shorter closes_shorter
    by (fastforce split: if_splits option.splits)
  then show ?case using skip_ws_length [of s] c by simp
next
  case (4 n d ms s)
  from 4(3) obtain k s1 where k: "member_key s = Inr (k, s1)" by (auto split: sum.splits)
  with 4(3) obtain x s2 where v: "json_value n d s1 = Some (Inr (x, s2))" by (auto split: option.splits sum.splits)
  with 4(3) k obtain c s3 where c: "skip_ws s2 = c # s3" by (auto split: list.splits)
  have "length s1 < length s" "length s2 < length s1" "length s3 < length s2"
    using member_key_shorter [OF k] 4(1) [OF k _ v] skip_ws_Cons [OF c] by auto
  then show ?case using 4(3) k v c 4(2) by (fastforce split: if_splits)
next
  case (6 n d xs s)
  from 6(3) obtain x s2 where v: "json_value n d s = Some (Inr (x, s2))" by (auto split: option.splits sum.splits)
  with 6(3) obtain c s3 where c: "skip_ws s2 = c # s3" by (auto split: list.splits)
  have "length s2 < length s" "length s3 < length s2"
    using 6(1) [OF v] skip_ws_Cons [OF c] by auto
  then show ?case using 6(3) v c 6(2) by (fastforce split: if_splits)
qed simp_all

section \<open>The parser returns\<close>

lemma json_enough:
  "2 * length s < n \<Longrightarrow> json_value n d s \<noteq> None"
  "2 * length s + 1 < n \<Longrightarrow> json_members n d ms s \<noteq> None"
  "2 * length s + 1 < n \<Longrightarrow> json_elements n d xs s \<noteq> None"
proof (induction n d s and n d ms s and n d xs s rule: json_value_json_members_json_elements.induct)
  case (2 n d s)
  show ?case
  proof (cases "skip_ws s")
    case (Cons c cs)
    then have "2 * length cs + 1 < n" using skip_ws_Cons [OF Cons] 2(3) by simp
    then show ?thesis using 2(1,2) Cons by (auto split: option.splits)
  qed simp
next
  case (4 n d ms s)
  show ?case
  proof (cases "member_key s")
    case (Inr p)
    obtain k s1 where k: "member_key s = Inr (k, s1)" using Inr by (cases p) auto
    have "2 * length s1 < n" using member_key_shorter [OF k] 4(3) by simp
    then have ne: "json_value n d s1 \<noteq> None" by (rule 4(1) [OF k refl])
    have next_ok: "json_members n d (insert_or_assign k v ms) r \<noteq> None"
      if v: "json_value n d s1 = Some (Inr (v, s2))" and c: "skip_ws s2 = CHR '','' # r" for v s2 r
    proof -
      have "2 * length r + 1 < n"
        using member_key_shorter [OF k] json_shorter(1) [OF v] skip_ws_Cons [OF c] 4(3) by simp
      then show ?thesis using 4(2) [OF k refl v refl refl c] by simp
    qed
    show ?thesis using ne next_ok by (auto simp: k split: option.splits sum.splits list.splits)
  qed simp
next
  case (6 n d xs s)
  have ne: "json_value n d s \<noteq> None" using 6(1,3) by simp
  have next_ok: "json_elements n d (xs @ [v]) r \<noteq> None"
    if v: "json_value n d s = Some (Inr (v, s2))" and c: "skip_ws s2 = CHR '','' # r" for v s2 r
  proof -
    have "2 * length r + 1 < n" using json_shorter(1) [OF v] skip_ws_Cons [OF c] 6(3) by simp
    then show ?thesis using 6(2) [OF v refl refl c] by simp
  qed
  show ?case using ne next_ok by (auto split: option.splits sum.splits list.splits)
qed simp_all

lemma members_step:
  "member_key s = Inr (k, s1) \<Longrightarrow> json_value n d s1 = Some (Inr (v, s2)) \<Longrightarrow> skip_ws s2 = c # r \<Longrightarrow>
     json_members (Suc n) d ms s =
       (if c = CHR '','' then json_members n d (insert_or_assign k v ms) r
        else if c = CHR ''}'' then Some (Inr (JObject (insert_or_assign k v ms), r)) else Some (Inl Corrupt))"
  by simp

lemma elements_step:
  "json_value n d s = Some (Inr (v, s2)) \<Longrightarrow> skip_ws s2 = c # r \<Longrightarrow>
     json_elements (Suc n) d xs s =
       (if c = CHR '','' then json_elements n d (xs @ [v]) r
        else if c = CHR '']'' then Some (Inr (JArray (xs @ [v]), r)) else Some (Inl Corrupt))"
  by simp

text \<open>A larger count changes nothing.\<close>

lemma json_more:
  "json_value n d s = Some x \<Longrightarrow> json_value (Suc n) d s = Some x"
  "json_members n d ms s = Some x \<Longrightarrow> json_members (Suc n) d ms s = Some x"
  "json_elements n d xs s = Some x \<Longrightarrow> json_elements (Suc n) d xs s = Some x"
proof (induction n d s and n d ms s and n d xs s arbitrary: x and x and x
    rule: json_value_json_members_json_elements.induct)
  case (2 n d s)
  have m: "json_members (Suc n) (Suc d) [] cs = Some x" if "json_members n (Suc d) [] cs = Some x"
    "d < kMaxDepth" "skip_ws s = CHR ''{'' # cs" "closes (CHR ''}'') cs = None" for cs x
    using 2(1) that by simp
  have e: "json_elements (Suc n) (Suc d) [] cs = Some x" if "json_elements n (Suc d) [] cs = Some x"
    "d < kMaxDepth" "skip_ws s = CHR ''['' # cs" "closes (CHR '']'') cs = None" for cs x
    using 2(2) that by simp
  show ?case using 2(3) m e
    by (auto split: if_splits list.splits option.splits simp del: json_members.simps json_elements.simps)
next
  case (4 n d ms s)
  show ?case
  proof (cases "member_key s")
    case (Inr p)
    obtain k s1 where k: "member_key s = Inr (k, s1)" using Inr by (cases p) auto
    obtain y where y: "json_value n d s1 = Some y" using 4(3) k by (cases "json_value n d s1") simp_all
    have y': "json_value (Suc n) d s1 = Some y" by (rule 4(1) [OF k refl y])
    show ?thesis
    proof (cases y)
      case (Inr q)
      obtain v s2 where v: "y = Inr (v, s2)" using Inr by (cases q) auto
      show ?thesis
      proof (cases "skip_ws s2")
        case (Cons c r)
        have "json_members (Suc n) d (insert_or_assign k v ms) r = Some x'"
          if "c = CHR '',''" "json_members n d (insert_or_assign k v ms) r = Some x'" for x'
          by (rule 4(2) [OF k refl y v refl Cons that])
        then show ?thesis using 4(3) members_step [OF k y [unfolded v] Cons] members_step [OF k y' [unfolded v] Cons]
          by (simp split: if_splits del: json_value.simps json_members.simps)
      qed (use 4(3) y' in \<open>simp add: k y v del: json_value.simps\<close>)
    qed (use 4(3) y' in \<open>auto simp: k y simp del: json_value.simps\<close>)
  qed (use 4(3) in simp)
next
  case (6 n d xs s)
  obtain y where y: "json_value n d s = Some y" using 6(3) by (cases "json_value n d s") simp_all
  have y': "json_value (Suc n) d s = Some y" by (rule 6(1) [OF y])
  show ?case
  proof (cases y)
    case (Inr q)
    obtain v s2 where v: "y = Inr (v, s2)" using Inr by (cases q) auto
    show ?thesis
    proof (cases "skip_ws s2")
      case (Cons c r)
      have "json_elements (Suc n) d (xs @ [v]) r = Some x'"
        if "c = CHR '',''" "json_elements n d (xs @ [v]) r = Some x'" for x'
        by (rule 6(2) [OF y v refl Cons that])
      then show ?thesis using 6(3) elements_step [OF y [unfolded v] Cons] elements_step [OF y' [unfolded v] Cons]
        by (simp split: if_splits del: json_value.simps json_elements.simps)
    qed (use 6(3) y' in \<open>simp add: y v del: json_value.simps\<close>)
  qed (use 6(3) y' in \<open>auto simp: y simp del: json_value.simps\<close>)
qed simp_all

lemma json_value_mono: "json_value n d s = Some x \<Longrightarrow> n \<le> m \<Longrightarrow> json_value m d s = Some x"
  by (induction m) (auto simp: le_Suc_eq simp del: json_value.simps dest: json_more(1))

declare json_value.simps [simp del] json_members.simps [simp del] json_elements.simps [simp del]

section \<open>Reading a quoted string\<close>

lemma byte_char_of [simp]: "n < 256 \<Longrightarrow> byte (char_of n) = n"
  by (simp add: byte_def)

lemma byte_inject: "byte c = byte c' \<Longrightarrow> c = c'"
  by (metis char_of_byte)

lemma byte_values [simp]: "byte quote_char = 0x22" "byte backslash = 0x5C"
  by (simp_all add: byte_def quote_char_def backslash_def)

lemma string_body_quote [simp]: "string_body out (quote_char # s) = Inr (out, s)"
  by (subst string_body.simps) simp

lemma quote_not_backslash [simp]: "quote_char \<noteq> backslash" "backslash \<noteq> quote_char"
  by (simp_all add: quote_char_def backslash_def)

lemma string_body_plain:
  "c \<noteq> quote_char \<Longrightarrow> c \<noteq> backslash \<Longrightarrow> \<not> byte c < 0x20 \<Longrightarrow> string_body out (c # s) = string_body (out @ [c]) s"
  by (subst string_body.simps) simp

lemma string_body_simple:
  "simple_escape e = Some x \<Longrightarrow> string_body out (backslash # e # s) = string_body (out @ [x]) s"
  by (subst string_body.simps) simp

lemma string_body_unicode:
  "unicode_escape s = Some (x, r) \<Longrightarrow> string_body out (backslash # CHR ''u'' # s) = string_body (out @ x) r"
  by (subst string_body.simps) (simp add: simple_escape_def quote_char_def backslash_def)

lemma hex_digit_hex_char: "n < 16 \<Longrightarrow> hex_digit (hex_char n) = Some n"
  by (simp add: hex_digit_def hex_char_def)

lemma unicode_escape_control:
  assumes "byte c < 0x20"
  shows "unicode_escape (CHR ''0'' # CHR ''0'' # hex_char (byte c div 16) # hex_char (byte c mod 16) # s) = Some ([c], s)"
proof -
  have z: "hex_digit (CHR ''0'') = Some 0" by (simp add: hex_digit_def byte_def)
  have "byte c div 16 < 16" "byte c mod 16 < 16" using assms by auto
  note h = this [THEN hex_digit_hex_char]
  have "hex4 (CHR ''0'' # CHR ''0'' # hex_char (byte c div 16) # hex_char (byte c mod 16) # s) = Some (byte c, s)"
    by (simp add: z h)
  then show ?thesis using assms by (simp add: unicode_escape_def utf8_append_def)
qed

text \<open>What the quoter writes for one byte, the reader turns back into that byte.\<close>

lemma string_body_escape: "string_body out (json_escape c @ s) = string_body (out @ [c]) s"
proof -
  consider (simple) e where "json_escape c = [backslash, e]" "simple_escape e = Some c"
    | (control) "byte c < 0x20" "json_escape c = [backslash, CHR ''u'', CHR ''0'', CHR ''0'', hex_char (byte c div 16), hex_char (byte c mod 16)]"
    | (plain) "json_escape c = [c]" "c \<noteq> quote_char" "c \<noteq> backslash" "\<not> byte c < 0x20"
  proof -
    have simple: "c = quote_char \<or> c = backslash \<or> c \<in> {CHR 0x0A, CHR 0x0D, CHR 0x09, CHR 0x08, CHR 0x0C} \<Longrightarrow>
        \<exists>e. json_escape c = [backslash, e] \<and> simple_escape e = Some c"
      by (auto simp: json_escape_def simple_escape_def quote_char_def backslash_def)
    show thesis
      using that simple by (cases "c = quote_char \<or> c = backslash \<or> c \<in> {CHR 0x0A, CHR 0x0D, CHR 0x09, CHR 0x08, CHR 0x0C}";
          cases "byte c < 0x20") (auto simp: json_escape_def)
  qed
  then show ?thesis
  proof cases
    case simple
    then show ?thesis by (simp add: string_body_simple)
  next
    case control
    then show ?thesis by (simp add: string_body_unicode unicode_escape_control)
  next
    case plain
    then show ?thesis by (simp add: string_body_plain)
  qed
qed

lemma string_body_quoted: "string_body out (concat (map json_escape s) @ quote_char # r) = Inr (out @ s, r)"
  by (induction s arbitrary: out) (simp_all add: string_body_escape)

lemma skip_ws_nonspace [simp]: "\<not> is_ws c \<Longrightarrow> skip_ws (c # s) = c # s"
  by (simp add: skip_ws_def)

section \<open>Reading a number\<close>

text \<open>A byte that cannot continue a number.\<close>

definition ends_number :: "string \<Rightarrow> bool" where
  "ends_number r \<longleftrightarrow> (case r of [] \<Rightarrow> True
     | c # _ \<Rightarrow> \<not> is_digit c \<and> c \<notin> {CHR ''.'', CHR ''e'', CHR ''E'', CHR ''-'', CHR ''+''})"

definition is_number :: "string \<Rightarrow> bool" where
  "is_number raw \<longleftrightarrow> number raw = Inr (JNumber raw, [])"

lemma take_append:
  assumes "ends_number r"
  shows "take_sign (a @ r) = (fst (take_sign a), snd (take_sign a) @ r)"
    and "take_digits (a @ r) = (fst (take_digits a), snd (take_digits a) @ r)"
    and "take_fraction (a @ r) = (fst (take_fraction a), snd (take_fraction a) @ r)"
    and "take_exponent (a @ r) = (fst (take_exponent a), snd (take_exponent a) @ r)"
proof -
  show s: "take_sign (a @ r) = (fst (take_sign a), snd (take_sign a) @ r)" for a
    using assms by (cases a; cases r) (auto simp: take_sign_def ends_number_def)
  have "takeWhile is_digit r = []" "dropWhile is_digit r = r"
    using assms by (auto simp: ends_number_def split: list.splits)
  then show d: "take_digits (a @ r) = (fst (take_digits a), snd (take_digits a) @ r)" for a
    by (induction a) (auto simp: take_digits_def)
  show "take_fraction (a @ r) = (fst (take_fraction a), snd (take_fraction a) @ r)"
  proof (cases a)
    case Nil
    then show ?thesis using assms by (cases r) (auto simp: take_fraction_def ends_number_def)
  qed (simp add: take_fraction_def d split: prod.splits)
  show "take_exponent (a @ r) = (fst (take_exponent a), snd (take_exponent a) @ r)"
  proof (cases a)
    case Nil
    then show ?thesis using assms by (cases r) (auto simp: take_exponent_def ends_number_def)
  qed (simp add: take_exponent_def s d split: prod.splits)
qed

lemma number_append:
  assumes "is_number raw" "ends_number r"
  shows "number (raw @ r) = Inr (JNumber raw, r)"
  using assms(1) by (auto simp: is_number_def number_def take_append [OF assms(2)] split: prod.splits if_splits)

lemma number_head:
  assumes "is_number raw"
  obtains c cs where "raw = c # cs" "is_digit c \<or> c \<in> {CHR ''-'', CHR ''+'', CHR ''.''}"
proof -
  obtain c cs where c: "raw = c # cs"
    using assms by (cases raw) (auto simp: is_number_def number_def take_sign_def take_digits_def take_fraction_def take_exponent_def)
  have "is_digit c \<or> c \<in> {CHR ''-'', CHR ''+'', CHR ''.''}"
    using assms by (auto simp: c is_number_def number_def take_sign_def take_digits_def take_fraction_def split: if_splits prod.splits)
  then show ?thesis using c that by blast
qed

section \<open>Rendering and reading a value\<close>

text \<open>
  The plain rendering of a value, without spaces, how many nested calls of \<^verbatim>\<open>value\<close> it takes to
  read it, and the values that a text can denote.
\<close>

fun show_json :: "json \<Rightarrow> string" and show_member :: "string \<times> json \<Rightarrow> string" where
  "show_json JNull = ''null''"
| "show_json (JBool b) = (if b then ''true'' else ''false'')"
| "show_json (JNumber raw) = raw"
| "show_json (JString s) = json_quote s"
| "show_json (JArray xs) = CHR ''['' # comma_join (map show_json xs) @ '']''"
| "show_json (JObject ms) = CHR ''{'' # comma_join (map show_member ms) @ ''}''"
| "show_member (k, v) = json_quote k @ CHR '':'' # show_json v"

fun depth :: "json \<Rightarrow> nat" where
  "depth (JArray xs) = Suc (Max (insert 0 (depth ` set xs)))"
| "depth (JObject ms) = Suc (Max (insert 0 ((depth \<circ> snd) ` set ms)))"
| "depth _ = 1"

fun wf_json :: "json \<Rightarrow> bool" where
  "wf_json (JNumber raw) \<longleftrightarrow> is_number raw"
| "wf_json (JArray xs) \<longleftrightarrow> (\<forall>x \<in> set xs. wf_json x)"
| "wf_json (JObject ms) \<longleftrightarrow> sorted_wrt (<) (map fst ms) \<and> (\<forall>m \<in> set ms. wf_json (snd m))"
| "wf_json _ \<longleftrightarrow> True"

lemma json_loops_mono:
  "json_members n d ms s = Some x \<Longrightarrow> n \<le> m \<Longrightarrow> json_members m d ms s = Some x"
  "json_elements n d xs s = Some x \<Longrightarrow> n \<le> m \<Longrightarrow> json_elements m d xs s = Some x"
  by (induction m) (auto simp: le_Suc_eq dest: json_more)

lemma insert_at_end:
  "\<forall>k' \<in> fst ` set ms. k' < k \<Longrightarrow> insert_or_assign k v ms = ms @ [(k, v)]"
  by (induction k v ms rule: insert_or_assign.induct) auto

text \<open>Where a rendered value starts: at a byte that is no space and closes nothing.\<close>

definition opens :: "string \<Rightarrow> bool" where
  "opens s \<longleftrightarrow> (case s of [] \<Rightarrow> False | c # _ \<Rightarrow> \<not> is_ws c \<and> c \<noteq> CHR '']'' \<and> c \<noteq> CHR ''}'' \<and> c \<noteq> CHR 0xEF)"

lemma opens_append [simp]: "opens s \<Longrightarrow> opens (s @ r)"
  by (cases s) (simp_all add: opens_def)

lemma opens_json_quote [simp]: "opens (json_quote k)"
  by (simp add: json_quote_def opens_def is_ws_def quote_char_def byte_def)

lemma opens_show_json: "wf_json v \<Longrightarrow> opens (show_json v)"
proof (induction v rule: wf_json.induct)
  case (1 raw)
  then obtain c cs where "raw = c # cs" "is_digit c \<or> c \<in> {CHR ''-'', CHR ''+'', CHR ''.''}"
    by (auto elim: number_head)
  then show ?case by (auto simp: opens_def is_ws_def is_digit_def byte_def)
qed (simp_all add: opens_def is_ws_def byte_def opens_json_quote [unfolded opens_def])

lemma opens_comma_join: "opens x \<Longrightarrow> opens (comma_join (x # xs))"
  by (cases xs) simp_all

lemma skip_ws_opens [simp]: "opens s \<Longrightarrow> skip_ws s = s"
  by (cases s) (simp_all add: opens_def)

lemma closes_opens [simp]: "opens s \<Longrightarrow> closes (CHR '']'') s = None" "opens s \<Longrightarrow> closes (CHR ''}'') s = None"
  by (simp_all add: closes_def) (auto simp: opens_def split: list.splits)

definition reads :: "nat \<Rightarrow> json \<Rightarrow> bool" where
  "reads d v \<longleftrightarrow> (\<forall>r. ends_number r \<longrightarrow> (\<exists>n. json_value n d (show_json v @ r) = Some (Inr (v, r))))"

lemma ends_number_separators [simp]:
  "ends_number []" "ends_number (CHR '','' # r)" "ends_number (CHR '']'' # r)" "ends_number (CHR ''}'' # r)"
  by (simp_all add: ends_number_def is_digit_def byte_def)

lemma separators_not_ws [simp]:
  "\<not> is_ws (CHR '','')" "\<not> is_ws (CHR '']'')" "\<not> is_ws (CHR ''}'')" "\<not> is_ws (CHR '':'')"
  "\<not> is_ws (CHR ''['')" "\<not> is_ws (CHR ''{'')" "\<not> is_ws quote_char"
  by (simp_all add: is_ws_def byte_def quote_char_def)

lemma readsD: "reads d v \<Longrightarrow> ends_number r \<Longrightarrow> \<exists>n. json_value n d (show_json v @ r) = Some (Inr (v, r))"
  by (simp add: reads_def)

lemma reads_elements:
  assumes "\<forall>x \<in> set xs. reads d x" "xs \<noteq> []"
  shows "\<exists>n. json_elements n d acc (comma_join (map show_json xs) @ CHR '']'' # r) = Some (Inr (JArray (acc @ xs), r))"
  using assms
proof (induction xs arbitrary: acc)
  case (Cons x xs)
  show ?case
  proof (cases xs)
    case Nil
    obtain n where "json_value n d (show_json x @ CHR '']'' # r) = Some (Inr (x, CHR '']'' # r))"
      using readsD [of d x "CHR '']'' # r"] Cons.prems(1) by auto
    from elements_step [OF this, of "CHR '']''" r] show ?thesis by (auto simp: Nil intro!: exI [of _ "Suc n"])
  next
    case (Cons y ys)
    let ?t = "comma_join (map show_json xs) @ CHR '']'' # r"
    obtain n where n: "json_value n d (show_json x @ CHR '','' # ?t) = Some (Inr (x, CHR '','' # ?t))"
      using readsD [of d x "CHR '','' # ?t"] Cons.prems(1) by auto
    obtain m where m: "json_elements m d (acc @ [x]) ?t = Some (Inr (JArray (acc @ [x] @ xs), r))"
      using Cons.IH [of "acc @ [x]"] Cons.prems(1) Cons by auto
    have "json_elements (Suc (max n m)) d acc (show_json x @ CHR '','' # ?t) = Some (Inr (JArray (acc @ x # xs), r))"
      using elements_step [OF json_value_mono [OF n max.cobounded1 [of n m]], of "CHR '',''" ?t]
        json_loops_mono(2) [OF m max.cobounded2 [of m n]] by simp
    then show ?thesis using Cons by auto
  qed
qed simp

lemma member_key_shown: "member_key (json_quote k @ CHR '':'' # s) = Inr (k, s)"
  using string_body_quoted [of "[]" k "CHR '':'' # s"] by (simp add: member_key_def json_quote_def closes_def)

lemma reads_members:
  assumes "\<forall>m \<in> set ms. reads d (snd m)" "ms \<noteq> []" "sorted_wrt (<) (map fst (acc @ ms))"
  shows "\<exists>n. json_members n d acc (comma_join (map show_member ms) @ CHR ''}'' # r) = Some (Inr (JObject (acc @ ms), r))"
  using assms
proof (induction ms arbitrary: acc)
  case (Cons m ms)
  obtain k v where m: "m = (k, v)" by (cases m)
  have ins: "insert_or_assign k v acc = acc @ [m]"
    unfolding m by (rule insert_at_end) (use Cons.prems(3) m in \<open>auto simp: sorted_wrt_append\<close>)
  show ?case
  proof (cases ms)
    case Nil
    obtain n where "json_value n d (show_json v @ CHR ''}'' # r) = Some (Inr (v, CHR ''}'' # r))"
      using readsD [of d v "CHR ''}'' # r"] Cons.prems(1) m by auto
    from members_step [OF member_key_shown this, of "CHR ''}''" r] show ?thesis
      by (auto simp: Nil m ins [unfolded m] intro!: exI [of _ "Suc n"])
  next
    case (Cons y ys)
    let ?t = "comma_join (map show_member ms) @ CHR ''}'' # r"
    obtain n where n: "json_value n d (show_json v @ CHR '','' # ?t) = Some (Inr (v, CHR '','' # ?t))"
      using readsD [of d v "CHR '','' # ?t"] Cons.prems(1) m by auto
    obtain l where l: "json_members l d (acc @ [m]) ?t = Some (Inr (JObject (acc @ [m] @ ms), r))"
      using Cons.IH [of "acc @ [m]"] Cons.prems(1,3) Cons by auto
    have "json_members (Suc (max n l)) d acc (json_quote k @ CHR '':'' # show_json v @ CHR '','' # ?t) = Some (Inr (JObject (acc @ m # ms), r))"
      using members_step [OF member_key_shown json_value_mono [OF n max.cobounded1 [of n l]], of "CHR '',''" ?t]
        json_loops_mono(1) [OF l max.cobounded2 [of l n]] ins by simp
    then show ?thesis using Cons m by auto
  qed
qed simp

lemma value_scalar:
  assumes "d < kMaxDepth" "\<not> is_ws c" "c \<noteq> CHR ''{''" "c \<noteq> CHR ''[''"
  shows "json_value (Suc 0) d (c # cs) = Some (json_scalar c cs)"
  using assms by (simp add: json_value.simps)

lemma depth_child:
  "x \<in> set xs \<Longrightarrow> depth x < depth (JArray xs)" "m \<in> set ms \<Longrightarrow> depth (snd m) < depth (JObject ms)"
  by (auto simp: less_Suc_eq_le intro!: Max_ge)

lemma reads_scalars:
  assumes "d < kMaxDepth"
  shows "reads d JNull" "reads d (JBool b)" "reads d (JString s)"
proof -
  show "reads d JNull" using assms by (auto simp: reads_def intro!: exI [of _ "Suc 0"])
    (simp add: json_value.simps is_ws_def byte_def json_scalar_def quote_char_def starts_with_def)
  show "reads d (JBool b)" using assms by (cases b) (auto simp: reads_def intro!: exI [of _ "Suc 0"],
    simp_all add: json_value.simps is_ws_def byte_def json_scalar_def quote_char_def starts_with_def)
  have "json_scalar quote_char (concat (map json_escape s) @ quote_char # r) = Inr (JString s, r)" for r
    using string_body_quoted [of "[]" s r] by (simp add: json_scalar_def)
  then show "reads d (JString s)" using assms value_scalar [of d quote_char]
    by (auto simp: reads_def json_quote_def quote_char_def [symmetric] intro!: exI [of _ "Suc 0"])
      (simp_all add: quote_char_def)
qed

lemma reads_show: "wf_json v \<Longrightarrow> depth v + d \<le> kMaxDepth \<Longrightarrow> reads d v"
proof (induction v arbitrary: d rule: wf_json.induct)
  case (1 raw)
  show ?case unfolding reads_def
  proof (intro allI impI)
    fix r assume r: "ends_number r"
    obtain c cs where c: "raw = c # cs" "is_digit c \<or> c \<in> {CHR ''-'', CHR ''+'', CHR ''.''}"
      using 1(1) by (auto elim: number_head)
    then have ne: "\<not> is_ws c" "c \<noteq> CHR ''{''" "c \<noteq> CHR ''[''" "c \<noteq> quote_char" "c \<noteq> CHR ''t''" "c \<noteq> CHR ''f''" "c \<noteq> CHR ''n''"
      by (auto simp: is_ws_def is_digit_def byte_def quote_char_def)
    have "json_scalar c (cs @ r) = Inr (JNumber raw, r)"
      using number_append [of raw r] 1(1) r ne by (simp add: json_scalar_def c(1))
    then show "\<exists>n. json_value n d (show_json (JNumber raw) @ r) = Some (Inr (JNumber raw, r))"
      using value_scalar [of d c "cs @ r"] 1(2) ne by (auto simp: c(1))
  qed
next
  case (2 xs)
  show ?case unfolding reads_def
  proof (intro allI impI)
    fix r assume "ends_number r"
    show "\<exists>n. json_value n d (show_json (JArray xs) @ r) = Some (Inr (JArray xs, r))"
    proof (cases xs)
      case Nil
      then show ?thesis using 2(3) by (auto intro!: exI [of _ "Suc 0"] simp: json_value.simps closes_def)
    next
      case (Cons x ys)
      have "\<forall>x \<in> set xs. reads (Suc d) x" using 2 depth_child(1) [of _ xs] by fastforce
      then obtain n where n: "json_elements n (Suc d) [] (comma_join (map show_json xs) @ CHR '']'' # r) = Some (Inr (JArray xs, r))"
        using reads_elements [of xs "Suc d" "[]" r] Cons by auto
      have "opens (comma_join (map show_json xs))"
        using 2(2) Cons by (simp add: opens_comma_join opens_show_json)
      then show ?thesis using n 2(3) by (auto intro!: exI [of _ "Suc n"] simp: json_value.simps)
    qed
  qed
next
  case (3 ms)
  show ?case unfolding reads_def
  proof (intro allI impI)
    fix r assume "ends_number r"
    show "\<exists>n. json_value n d (show_json (JObject ms) @ r) = Some (Inr (JObject ms, r))"
    proof (cases ms)
      case Nil
      then show ?thesis using 3(3) by (auto intro!: exI [of _ "Suc 0"] simp: json_value.simps closes_def)
    next
      case (Cons m ys)
      have "\<forall>m \<in> set ms. reads (Suc d) (snd m)" using 3 depth_child(2) [of _ ms] by fastforce
      then obtain n where n: "json_members n (Suc d) [] (comma_join (map show_member ms) @ CHR ''}'' # r) = Some (Inr (JObject ms, r))"
        using reads_members [of ms "Suc d" "[]" r] Cons 3(2) by auto
      have "opens (show_member m)" by (cases m) simp
      then have "opens (comma_join (map show_member ms))" using Cons by (simp add: opens_comma_join)
      then show ?thesis using n 3(3) by (auto intro!: exI [of _ "Suc n"] simp: json_value.simps)
    qed
  qed
qed (simp_all add: reads_scalars)

section \<open>Properties\<close>

lemma json_value_at:
  assumes "json_value n 0 s = Some x"
  shows "json_value (2 * length s + 2) 0 s = Some x"
proof -
  obtain y where y: "json_value (2 * length s + 2) 0 s = Some y"
    using json_enough(1) [of s "2 * length s + 2" 0] by auto
  have "json_value (max n (2 * length s + 2)) 0 s = Some x" by (rule json_value_mono [OF assms]) simp
  moreover have "json_value (max n (2 * length s + 2)) 0 s = Some y" by (rule json_value_mono [OF y]) simp
  ultimately have "x = y" by simp
  then show ?thesis using y by simp
qed

lemma string_body_errors: "string_body out s = Inl e \<Longrightarrow> e = Corrupt"
proof (induction s arbitrary: out rule: length_induct)
  case (1 s)
  have IH: "e = Corrupt" if "string_body o' t = Inl e" "length t < length s" for o' t
    using 1(1) that by blast
  have uni: "e = Corrupt"
    if "unicode_escape t = Some (y, t')" "string_body o' t' = Inl e" "length t < length s" for o' t y t'
    using IH [OF that(2)] unicode_escape_shorter [OF that(1)] that(3) by simp
  show ?case using 1(2)
    by (subst (asm) string_body.simps)
      (auto split: list.splits if_splits option.splits dest: uni IH)
qed

lemma rbind_Inl_iff: "rbind r f = Inl e \<longleftrightarrow> r = Inl e \<or> (\<exists>x. r = Inr x \<and> f x = Inl e)"
  by (cases r) auto

lemma part_errors:
  "number s = Inl e \<Longrightarrow> e = Corrupt" "json_scalar c cs = Inl e \<Longrightarrow> e = Corrupt" "member_key s = Inl e \<Longrightarrow> e = Corrupt"
proof -
  show n: "number s = Inl e \<Longrightarrow> e = Corrupt" for s by (auto simp: number_def split: prod.splits if_splits)
  show "json_scalar c cs = Inl e \<Longrightarrow> e = Corrupt"
    by (auto simp: json_scalar_def rbind_Inl_iff split: if_splits dest: n string_body_errors)
  show "member_key s = Inl e \<Longrightarrow> e = Corrupt"
    by (auto simp: member_key_def rbind_Inl_iff split: if_splits list.splits option.splits dest: string_body_errors)
qed

text \<open>What a successful or failed run says of its result, by one induction over the descent.\<close>

definition good :: "nat \<Rightarrow> json \<Rightarrow> bool" where
  "good d v \<longleftrightarrow> wf_json v \<and> depth v + d \<le> kMaxDepth"

definition answer :: "nat \<Rightarrow> (json \<times> string) result option \<Rightarrow> bool" where
  "answer d x = (case x of None \<Rightarrow> True | Some (Inl e) \<Rightarrow> e = Corrupt | Some (Inr (v, r)) \<Rightarrow> good d v)"

lemma answer_simps [simp]:
  "answer d None" "answer d (Some (Inl e)) \<longleftrightarrow> e = Corrupt" "answer d (Some (Inr (v, r))) \<longleftrightarrow> good d v"
  by (simp_all add: answer_def)

definition starts_in :: "char set \<Rightarrow> string \<Rightarrow> bool" where
  "starts_in C s \<longleftrightarrow> s = [] \<or> hd s \<in> C"

abbreviation "digit_set \<equiv> Collect is_digit"
abbreviation "exponent_set \<equiv> {CHR ''e'', CHR ''E''}"

lemma digit_chars:
  "is_digit c \<Longrightarrow> c \<noteq> CHR ''-''" "is_digit c \<Longrightarrow> c \<noteq> CHR ''+''"
  "\<not> is_digit (CHR ''.'')" "\<not> is_digit (CHR ''e'')" "\<not> is_digit (CHR ''E'')"
  by (auto simp: is_digit_def byte_def)

lemma take_digits_again:
  assumes "take_digits s = (ds, r)" "t = [] \<or> \<not> is_digit (hd t)"
  shows "take_digits (ds @ t) = (ds, t)" "starts_in digit_set ds"
proof -
  have ds: "ds = takeWhile is_digit s" using assms(1) by (simp add: take_digits_def)
  then have all: "\<forall>c \<in> set ds. is_digit c" by (auto dest: set_takeWhileD)
  have t: "takeWhile is_digit t = []" "dropWhile is_digit t = t" using assms(2) by (cases t; auto)+
  show "take_digits (ds @ t) = (ds, t)" using all t by (simp add: take_digits_def takeWhile_append2 dropWhile_append2)
  show "starts_in digit_set ds" using all by (cases ds) (auto simp: starts_in_def)
qed

lemma take_sign_again:
  assumes "take_sign s = (sg, r)" "starts_in (digit_set \<union> {CHR ''.''} \<union> exponent_set) t"
  shows "take_sign (sg @ t) = (sg, t)"
proof -
  have "take_sign t = ([], t)"
    using assms(2) by (cases t) (auto simp: take_sign_def starts_in_def dest: digit_chars(1,2))
  moreover have "sg = [] \<or> (\<exists>c. sg = [c] \<and> c \<in> {CHR ''-'', CHR ''+''})"
    using assms(1) by (auto simp: take_sign_def split: list.splits if_splits)
  ultimately show ?thesis by (elim disjE exE) (simp_all, simp add: take_sign_def)
qed

lemma take_exponent_again:
  assumes "take_exponent s = (ex, r)"
  shows "take_exponent ex = (ex, [])" "starts_in exponent_set ex"
proof -
  have "take_exponent ex = (ex, []) \<and> starts_in exponent_set ex"
  proof (cases "s \<noteq> [] \<and> hd s \<in> exponent_set")
    case True
    then obtain c cs where s: "s = c # cs" "c \<in> exponent_set" by (cases s) auto
    obtain sg r1 where 1: "take_sign cs = (sg, r1)" by (cases "take_sign cs")
    obtain ds r2 where 2: "take_digits r1 = (ds, r2)" by (cases "take_digits r1")
    have ex: "ex = c # sg @ ds" using assms s 1 2 by (auto simp: take_exponent_def)
    note d = take_digits_again [OF 2, of "[]"]
    have "take_sign (sg @ ds) = (sg, ds)"
      by (rule take_sign_again [OF 1]) (use d(2) in \<open>auto simp: starts_in_def\<close>)
    then show ?thesis using s(2) d(1) by (auto simp: ex take_exponent_def starts_in_def)
  next
    case False
    then have "ex = []" using assms by (cases s) (auto simp: take_exponent_def)
    then show ?thesis by (simp add: take_exponent_def starts_in_def)
  qed
  then show "take_exponent ex = (ex, [])" "starts_in exponent_set ex" by simp_all
qed

lemma take_fraction_again:
  assumes "take_fraction s = (fr, r)" "starts_in exponent_set t"
  shows "take_fraction (fr @ t) = (fr, t)" "starts_in {CHR ''.''} fr"
proof -
  have t: "t = [] \<or> \<not> is_digit (hd t)" using assms(2) by (auto simp: starts_in_def digit_chars)
  have "take_fraction (fr @ t) = (fr, t) \<and> starts_in {CHR ''.''} fr"
  proof (cases "s \<noteq> [] \<and> hd s = CHR ''.''")
    case True
    then obtain cs where s: "s = CHR ''.'' # cs" by (cases s) auto
    obtain ds r1 where 1: "take_digits cs = (ds, r1)" by (cases "take_digits cs")
    have "fr = CHR ''.'' # ds" using assms(1) s 1 by (simp add: take_fraction_def)
    then show ?thesis using take_digits_again(1) [OF 1 t] by (simp add: take_fraction_def starts_in_def)
  next
    case False
    then have "fr = []" using assms(1) by (cases s) (auto simp: take_fraction_def split: if_splits)
    then show ?thesis using assms(2) by (cases t) (auto simp: take_fraction_def starts_in_def)
  qed
  then show "take_fraction (fr @ t) = (fr, t)" "starts_in {CHR ''.''} fr" by simp_all
qed

lemma starts_in_append: "starts_in A s \<Longrightarrow> starts_in B t \<Longrightarrow> starts_in (A \<union> B) (s @ t)"
  by (cases s) (auto simp: starts_in_def)

text \<open>The raw text of a number reads as that number again.\<close>

lemma number_idem:
  assumes "number s = Inr (v, r)"
  shows "wf_json v" "depth v = 1"
proof -
  obtain sg s1 where 1: "take_sign s = (sg, s1)" by (cases "take_sign s")
  obtain ds s2 where 2: "take_digits s1 = (ds, s2)" by (cases "take_digits s1")
  obtain fr s3 where 3: "take_fraction s2 = (fr, s3)" by (cases "take_fraction s2")
  obtain ex s4 where 4: "take_exponent s3 = (ex, s4)" by (cases "take_exponent s3")
  have v: "v = JNumber (sg @ ds @ fr @ ex)" "\<not> (ds = [] \<and> tl fr = [])"
    using assms 1 2 3 4 by (auto simp: number_def split: if_splits)
  note e = take_exponent_again [OF 4]
  note f = take_fraction_again [OF 3 e(2)]
  have fe: "starts_in ({CHR ''.''} \<union> exponent_set) (fr @ ex)" by (rule starts_in_append [OF f(2) e(2)])
  then have "fr @ ex = [] \<or> \<not> is_digit (hd (fr @ ex))" by (auto simp: starts_in_def digit_chars)
  note d = take_digits_again [OF 2 this]
  have "starts_in (digit_set \<union> {CHR ''.''} \<union> exponent_set) (ds @ fr @ ex)"
    using starts_in_append [OF d(2) fe] by (simp add: Un_assoc)
  note g = take_sign_again [OF 1 this]
  show "wf_json v" "depth v = 1" using v g d(1) f(1) e(1) by (auto simp: is_number_def number_def)
qed

lemma scalar_good:
  assumes "json_scalar c cs = Inr (v, r)" "d < kMaxDepth"
  shows "good d v"
  using assms by (auto simp: json_scalar_def good_def rbind_Inr_iff number_idem split: if_splits)

lemma insert_or_assign_keys: "fst ` set (insert_or_assign k v ms) = insert k (fst ` set ms)"
  by (induction k v ms rule: insert_or_assign.induct) auto

lemma insert_or_assign_sorted:
  "sorted_wrt (<) (map fst ms) \<Longrightarrow> sorted_wrt (<) (map fst (insert_or_assign k v ms))"
proof (induction k v ms rule: insert_or_assign.induct)
  case (2 k v k' v' xs)
  have "\<forall>y \<in> fst ` set (insert_or_assign k v xs). k' < y" if "\<not> k < k'" "k \<noteq> k'"
    using 2(2) that by (auto simp: insert_or_assign_keys)
  then show ?case using 2 by (auto dest: order.strict_trans)
qed simp

lemma insert_or_assign_values: "set (insert_or_assign k v ms) \<subseteq> insert (k, v) (set ms)"
  by (induction k v ms rule: insert_or_assign.induct) auto

definition good_members :: "nat \<Rightarrow> (string \<times> json) list \<Rightarrow> bool" where
  "good_members d ms \<longleftrightarrow> sorted_wrt (<) (map fst ms) \<and> (\<forall>m \<in> set ms. good d (snd m))"

lemma good_members_insert: "good_members d ms \<Longrightarrow> good d v \<Longrightarrow> good_members d (insert_or_assign k v ms)"
  using insert_or_assign_values [of k v ms] by (auto simp: good_members_def insert_or_assign_sorted)

lemma Max_room:
  assumes "finite S" "\<forall>x \<in> S. x + Suc d \<le> K" "d < (K :: nat)"
  shows "Suc (Max (insert 0 S)) + d \<le> K"
proof -
  have "Max (insert 0 S) \<in> insert 0 S" by (rule Max_in) (use assms(1) in auto)
  then show ?thesis using assms(2,3) by auto
qed

lemma good_object: "good_members (Suc d) ms \<Longrightarrow> d < kMaxDepth \<Longrightarrow> good d (JObject ms)"
  unfolding good_def good_members_def depth.simps wf_json.simps by (intro conjI Max_room) auto

lemma good_array: "\<forall>x \<in> set xs. good (Suc d) x \<Longrightarrow> d < kMaxDepth \<Longrightarrow> good d (JArray xs)"
  unfolding good_def depth.simps wf_json.simps by (intro conjI Max_room) auto

lemma json_answers:
  "answer d (json_value n d s)"
  "good_members d ms \<Longrightarrow> d = Suc d' \<Longrightarrow> d' < kMaxDepth \<Longrightarrow> answer d' (json_members n d ms s)"
  "\<forall>x \<in> set xs. good d x \<Longrightarrow> d = Suc d' \<Longrightarrow> d' < kMaxDepth \<Longrightarrow> answer d' (json_elements n d xs s)"
proof (induction n d s and n d ms s and n d xs s arbitrary: and d' and d'
    rule: json_value_json_members_json_elements.induct)
  case (2 n d s)
  show ?case
  proof (cases "d < kMaxDepth \<and> skip_ws s \<noteq> []")
    case True
    then obtain c cs where c: "skip_ws s = c # cs" by (cases "skip_ws s") auto
    have dd: "d < kMaxDepth" "\<not> kMaxDepth \<le> d" using True by simp_all
    have empty: "good d (JObject [])" "good d (JArray [])" using dd by (auto simp: good_def)
    have sc: "answer d (Some (json_scalar c cs))"
      using scalar_good [OF _ dd(1)] part_errors(2) [of c cs]
      by (cases "json_scalar c cs") (auto simp: answer_def)
    show ?thesis using 2 c dd empty sc
      by (auto simp: json_value.simps good_members_def split: option.splits)
  qed (auto simp: json_value.simps)
next
  case (4 n d ms s)
  show ?case
  proof (cases "member_key s")
    case (Inl e)
    then show ?thesis using part_errors(3) [OF Inl] by (simp add: json_members.simps)
  next
    case (Inr p)
    obtain k s1 where k: "member_key s = Inr (k, s1)" using Inr by (cases p) auto
    have v: "answer d (json_value n d s1)" by (rule 4(1) [OF k refl])
    show ?thesis
    proof (cases "json_value n d s1")
      case (Some y)
      show ?thesis
      proof (cases y)
        case (Inr q)
        obtain v s2 where q: "y = Inr (v, s2)" using Inr by (cases q) auto
        have g: "good_members d (insert_or_assign k v ms)"
          using v 4(3) by (simp add: Some q good_members_insert)
        have more: "answer d' (json_members n d (insert_or_assign k v ms) r)" if "skip_ws s2 = CHR '','' # r" for r
          using 4(2) [OF k refl Some q refl that refl g 4(4,5)] .
        have S: "json_value n (Suc d') s1 = Some (Inr (v, s2))" using Some q 4(4) by simp
        show ?thesis using g more good_object [OF _ 4(5)] 4(4)
          by (cases "skip_ws s2") (auto simp: json_members.simps k S)
      qed (use v in \<open>simp add: json_members.simps k Some\<close>)
    qed (simp add: json_members.simps k)
  qed
next
  case (6 n d xs s)
  have v: "answer d (json_value n d s)" by (rule 6(1))
  show ?case
  proof (cases "json_value n d s")
    case (Some y)
    show ?thesis
    proof (cases y)
      case (Inr q)
      obtain v s2 where q: "y = Inr (v, s2)" using Inr by (cases q) auto
      have g: "\<forall>x \<in> set (xs @ [v]). good d x" using v 6(3) by (simp add: Some q)
      have more: "answer d' (json_elements n d (xs @ [v]) r)" if "skip_ws s2 = CHR '','' # r" for r
        using 6(2) [OF Some q refl that refl g 6(4,5)] .
      have S: "json_value n (Suc d') s = Some (Inr (v, s2))" using Some q 6(4) by simp
      show ?thesis using g more good_array [OF _ 6(5)] 6(4)
        by (cases "skip_ws s2") (auto simp: json_elements.simps S)
    qed (use v in \<open>simp add: json_elements.simps Some\<close>)
  qed (simp add: json_elements.simps)
qed (simp_all add: json_value.simps json_members.simps json_elements.simps)

lemma starts_with_opens: "opens s \<Longrightarrow> \<not> starts_with kBom s"
  by (cases s) (auto simp: opens_def starts_with_def kBom_def)

lemma parse_show:
  assumes "wf_json v" "depth v \<le> kMaxDepth"
  shows "json_parse (show_json v) = Inr v"
proof -
  obtain n where "json_value n 0 (show_json v) = Some (Inr (v, []))"
    using readsD [OF reads_show [OF assms(1), of 0], of "[]"] assms(2) by auto
  from json_value_at [OF this] show ?thesis
    using starts_with_opens [OF opens_show_json [OF assms(1)]] by (simp add: json_parse_def Let_def skip_ws_def)
qed

text \<open>
  C25. \<^verbatim>\<open>json_parse\<close> returns on every text: the descent never runs out of calls, more calls would
  not change the answer, and the answer is a value or the error \<^verbatim>\<open>Corrupt\<close>.\<close>

theorem json_parse_returns:
  "json_value (2 * length s + 2) d s \<noteq> None
   \<and> json_value (2 * length s + 2 + k) d s = json_value (2 * length s + 2) d s
   \<and> (json_parse s = Inl Corrupt \<or> (\<exists>v. json_parse s = Inr v))"
proof -
  have run: "\<exists>x. json_value (2 * length s + 2) d s = Some x" for d s
    using json_enough(1) [of s "2 * length s + 2" d] by auto
  have "json_value (2 * length s + 2 + k) d s = json_value (2 * length s + 2) d s"
  proof -
    obtain x where x: "json_value (2 * length s + 2) d s = Some x" using run by blast
    have "json_value (2 * length s + 2 + k) d s = Some x" by (rule json_value_mono [OF x]) simp
    then show ?thesis using x by simp
  qed
  moreover have "json_parse s = Inl Corrupt \<or> (\<exists>v. json_parse s = Inr v)"
  proof -
    define t where "t = (if starts_with kBom s then drop 3 s else s)"
    obtain x where x: "json_value (2 * length t + 2) 0 t = Some x" using run by blast
    have "answer 0 (Some x)" using json_answers(1) [of 0 "2 * length t + 2" t] by (simp only: x)
    then show ?thesis using x
      by (cases x) (auto simp: json_parse_def Let_def t_def [symmetric])
  qed
  ultimately show ?thesis using run [of s d] by simp
qed

text \<open>
  C27. The values that some text denotes are exactly the well-formed ones (keys sorted and
  distinct, numbers that scan) that nest at most 64 calls deep, and the plain rendering of such a
  value reads back as that value: a deeper text, or any other, is rejected.\<close>

theorem json_parse_exact:
  "((\<exists>s. json_parse s = Inr v) \<longleftrightarrow> wf_json v \<and> depth v \<le> kMaxDepth)
   \<and> (json_parse (show_json v) = Inr v \<longleftrightarrow> wf_json v \<and> depth v \<le> kMaxDepth)"
proof -
  have "wf_json v \<and> depth v \<le> kMaxDepth" if s: "json_parse s = Inr v" for s
  proof -
    define t where "t = (if starts_with kBom s then drop 3 s else s)"
    obtain r where "json_value (2 * length t + 2) 0 t = Some (Inr (v, r))"
      using s by (auto simp: json_parse_def Let_def t_def [symmetric] split: option.splits sum.splits if_splits)
    with json_answers(1) [of 0 "2 * length t + 2" t] have "good 0 v" by simp
    then show ?thesis by (simp add: good_def)
  qed
  with parse_show show ?thesis by blast
qed

section \<open>The writer\<close>

lemma digits_value_append: "digits_value (xs @ [c]) = digits_value xs * 10 + (byte c - 0x30)"
  by (simp add: digits_value_def)

lemma to_string_facts: "to_string n \<noteq> []" "list_all is_digit (to_string n)" "digits_value (to_string n) = n"
proof (induction n rule: to_string.induct)
  case (1 n)
  have d: "is_digit (char_of (0x30 + m))" "byte (char_of (0x30 + m)) = 0x30 + m" if "m < 10" for m :: nat
    using that by (simp_all add: is_digit_def)
  {
    case 1 show ?case by (subst to_string.simps) simp
  next
    case 2 show ?case using d [of n] d [of "n mod 10"] 1(2) by (subst to_string.simps) simp
  next
    case 3 show ?case using d [of n] d [of "n mod 10"] 1(3)
      by (subst to_string.simps) (simp add: digits_value_append, simp add: digits_value_def)
  }
qed

lemma is_number_digits:
  assumes "s \<noteq> []" "list_all is_digit s"
  shows "is_number s"
proof -
  have "take_digits s = (s, [])" using assms(2) by (auto simp: take_digits_def list_all_iff takeWhile_eq_all_conv dropWhile_eq_Nil_conv)
  moreover have "take_sign s = ([], s)"
    using assms by (cases s) (auto simp: take_sign_def dest: digit_chars(1,2))
  ultimately show ?thesis using assms(1)
    by (simp add: is_number_def number_def take_fraction_def take_exponent_def)
qed

lemma as_uint_to_string: "n < 2 ^ 64 \<Longrightarrow> as_uint (JNumber (to_string n)) = Inr (of_nat n)"
proof -
  assume n: "n < 2 ^ 64"
  have "strip_plus (to_string n) = to_string n"
    using to_string_facts(1,2) [of n] by (cases "to_string n") (auto simp: strip_plus_def dest: digit_chars(2))
  then show ?thesis using n to_string_facts [of n] by (simp add: from_chars_u64_def)
qed

lemma all_as_map: "(\<And>x. x \<in> set xs \<Longrightarrow> f (g x) = Inr (h x)) \<Longrightarrow> all_as f (map g xs) = Inr (map h xs)"
  by (induction xs) auto

text \<open>
  C26. What \<^verbatim>\<open>core/json_write.h\<close> writes, \<^verbatim>\<open>core/json.cpp\<close> reads back: every byte string through
  \<^verbatim>\<open>json_quote\<close>, control bytes included, and every list of 32-bit integers through
  \<^verbatim>\<open>json_uint_array\<close> and \<^verbatim>\<open>as_uint\<close>.\<close>

theorem json_writer_reads_back:
  "json_parse (json_quote s) = Inr (JString s)
   \<and> (\<exists>xs. json_parse (json_uint_array v) = Inr (JArray xs) \<and> all_as as_uint xs = Inr (map ucast v))"
proof -
  let ?g = "\<lambda>x :: u32. JNumber (to_string (unat x))"
  have "json_parse (show_json (JString s)) = Inr (JString s)" by (rule parse_show) (simp_all add: kMaxDepth_def)
  moreover have "show_json (JArray (map ?g v)) = json_uint_array v" by (simp add: json_uint_array_def comp_def)
  moreover have "json_parse (show_json (JArray (map ?g v))) = Inr (JArray (map ?g v))"
    by (rule parse_show) (auto simp: is_number_digits to_string_facts kMaxDepth_def)
  moreover have "all_as as_uint (map ?g v) = Inr (map ucast v)"
  proof (rule all_as_map)
    fix x :: u32
    have "unat x < 2 ^ LENGTH(32)" by (rule unsigned_less)
    then have "unat x < 2 ^ 64" by simp
    then show "as_uint (?g x) = Inr (ucast x)" by (simp only: as_uint_to_string) simp
  qed
  ultimately show ?thesis by auto
qed

end
