(* ===== verification/Manifest_Parse.thy ===== *)
theory Manifest_Parse
  imports Manifest Json_Props
begin

text \<open>
  \<^verbatim>\<open>Manifest::parse\<close> of \<^verbatim>\<open>model/manifest.cpp\<close>: from the text of the manifest to its records, with the
  defaults, the casts between signed and unsigned, and every error branch. An expert layer of
  2^32 - 1, the cast of -1, wraps the new size of the table to zero and the code then indexes past
  its end; the model ends such a parse with \<^verbatim>\<open>Internal\<close>.
\<close>

section \<open>Pieces\<close>

fun rmap :: "('a \<Rightarrow> 'b result) \<Rightarrow> 'a list \<Rightarrow> 'b list result" where
  "rmap f [] = Inr []"
| "rmap f (x # xs) = rbind (f x) (\<lambda>y. rbind (rmap f xs) (\<lambda>ys. Inr (y # ys)))"

text \<open>An inner error is reported again as \<^verbatim>\<open>Corrupt\<close>, with the place in its message.\<close>

definition corrupt :: "'a result \<Rightarrow> 'a result" where
  "corrupt r = (case r of Inl e \<Rightarrow> Inl Corrupt | Inr v \<Rightarrow> Inr v)"

definition shape_of :: "json \<Rightarrow> string \<Rightarrow> u64 list result" where
  "shape_of n k =
     (case json_find n k of
        None \<Rightarrow> Inr []
      | Some v \<Rightarrow> (case as_array v of Inl e \<Rightarrow> Inl Corrupt | Inr a \<Rightarrow> all_as as_uint a))"

definition empty_scale :: scale_entry where
  "empty_scale = \<lparr>sc_file = 0, sc_offset = 0, sc_bytes = 0, sc_dtype = UnknownQuant, sc_shape = [],
     sc_block_m = 0, sc_block_k = 0\<rparr>"

definition is_object :: "json \<Rightarrow> bool" where
  "is_object v = (case v of JObject ms \<Rightarrow> True | _ \<Rightarrow> False)"

definition parse_scale :: "json \<Rightarrow> scale_entry result" where
  "parse_scale t =
     (case json_find t ''scale'' of
        None \<Rightarrow> Inr empty_scale
      | Some n \<Rightarrow>
          if n = JNull then Inr empty_scale
          else if \<not> is_object n then Inl Corrupt
          else
            rbind (uint_at n ''offset'') (\<lambda>off.
            rbind (uint_at n ''bytes'') (\<lambda>by.
            rbind (shape_of n ''shape'') (\<lambda>sh.
              let s = \<lparr>sc_file = of_int (int_or n ''file'' 0), sc_offset = off, sc_bytes = by,
                       sc_dtype = quant_from_string (string_or n ''dtype'' ''e8m0''), sc_shape = sh,
                       sc_block_m = 0, sc_block_k = 0\<rparr>
              in case int_array_at n ''block'' of
                   Inr [m, k] \<Rightarrow> Inr (s\<lparr>sc_block_m := of_int m, sc_block_k := of_int k\<rparr>)
                 | _ \<Rightarrow> Inr s))))"

definition parse_part :: "u64 \<Rightarrow> json \<Rightarrow> run_part result" where
  "parse_part run_off v =
     rbind (string_at v ''tensor'') (\<lambda>name.
       case expert_part_from_string name of
         None \<Rightarrow> Inl Corrupt
       | Some p \<Rightarrow>
           let skew = of_int (int_or v ''skew'' 0)
           in Inr \<lparr>rp_part = p, rp_skew = skew, rp_bytes = of_int (int_or v ''bytes'' 0),
                   rp_slot_offset = of_int (int_or v ''slot_offset'' (sint (run_off + ucast skew)))\<rparr>)"

definition parse_run :: "json \<Rightarrow> run result" where
  "parse_run v =
     (if \<not> is_object v then Inl Corrupt
      else
        rbind (uint_at v ''aligned_off'') (\<lambda>off.
        rbind (uint_at v ''aligned_bytes'') (\<lambda>by.
          let pos = of_int (int_or v ''slot_offset'' 0)
          in case json_find v ''parts'' of
               None \<Rightarrow> Inl Corrupt
             | Some ps \<Rightarrow>
                 (case as_array ps of
                    Inl e \<Rightarrow> Inl Corrupt
                  | Inr arr \<Rightarrow>
                      rbind (rmap (parse_part pos) arr) (\<lambda>parts.
                        Inr \<lparr>run_file = of_int (int_or v ''file'' 0), run_aligned_off = off,
                             run_aligned_bytes = by, run_slot_offset = pos, run_parts = parts\<rparr>)))))"

section \<open>The four sections\<close>

definition parse_file :: "json \<Rightarrow> file_entry result" where
  "parse_file v =
     (let f = \<lparr>fe_path = string_or v ''path'' [], fe_bytes = of_int (int_or v ''bytes'' 0),
               fe_data_start = of_int (int_or v ''data_start'' 0), fe_sha256 = string_or v ''sha256'' []\<rparr>
      in if fe_path f = [] then Inl Corrupt else Inr f)"

definition parse_tensor :: "string \<times> json \<Rightarrow> (string \<times> tensor_entry) result" where
  "parse_tensor x =
     (case x of (name, v) \<Rightarrow>
        rbind (corrupt (uint_at v ''offset'')) (\<lambda>off.
        rbind (corrupt (uint_at v ''bytes'')) (\<lambda>by.
        rbind (corrupt (shape_of v ''shape'')) (\<lambda>sh.
        rbind (corrupt (parse_scale v)) (\<lambda>sc.
          Inr (name, \<lparr>te_name = name, te_file = of_int (int_or v ''file'' 0), te_offset = off, te_bytes = by,
                      te_dtype = quant_from_string (string_or v ''dtype'' ''unknown''), te_shape = sh,
                      te_scale = sc\<rparr>))))))"

text \<open>One run added to the expert that is being read: its parts, its bytes, the run itself.\<close>

definition add_part :: "run_part \<Rightarrow> expert_entry \<Rightarrow> expert_entry" where
  "add_part p e =
     e\<lparr>ee_part_offset := (ee_part_offset e)[part_ord (rp_part p) := rp_slot_offset p],
       ee_part_bytes := (ee_part_bytes e)[part_ord (rp_part p) := rp_bytes p]\<rparr>"

definition add_run :: "run \<Rightarrow> expert_entry \<Rightarrow> expert_entry" where
  "add_run r e =
     (let e = fold add_part (run_parts r) e
      in e\<lparr>ee_slot_bytes := ee_slot_bytes e + run_aligned_bytes r, ee_runs := ee_runs e @ [r]\<rparr>)"

definition parse_expert :: "json \<Rightarrow> expert_entry result" where
  "parse_expert x =
     (case as_array x of
        Inl e \<Rightarrow> Inl Corrupt
      | Inr runs \<Rightarrow>
          rbind (rmap (\<lambda>v. corrupt (parse_run v)) runs) (\<lambda>rs. Inr (fold add_run rs empty_expert_entry)))"

text \<open>\<^verbatim>\<open>experts_.resize(layer + 1)\<close>, in 32 bits, when the table is not longer already, then the row.\<close>

definition set_row :: "u32 \<Rightarrow> expert_entry list \<Rightarrow> expert_entry list list \<Rightarrow> expert_entry list list result" where
  "set_row l row t =
     (let n = unat (l + 1);
          t = (if length t \<le> unat l then take n t @ replicate (n - length t) [] else t)
      in if unat l < length t then Inr (t[unat l := row]) else Inl Internal)"

definition parse_layer :: "json \<Rightarrow> expert_entry list list \<Rightarrow> expert_entry list list result" where
  "parse_layer lv t =
     (case json_find lv ''experts'' of
        None \<Rightarrow> Inl Corrupt
      | Some ev \<Rightarrow>
          (case as_array ev of
             Inl e \<Rightarrow> Inl Corrupt
           | Inr earr \<Rightarrow>
               rbind (rmap parse_expert earr) (\<lambda>row. set_row (of_int (int_or lv ''layer'' 0)) row t)))"

fun parse_layers :: "json list \<Rightarrow> expert_entry list list \<Rightarrow> expert_entry list list result" where
  "parse_layers [] t = Inr t"
| "parse_layers (v # vs) t = rbind (parse_layer v t) (parse_layers vs)"

definition parse_plane :: "json option \<Rightarrow> engram_plane" where
  "parse_plane field =
     (case field of
        None \<Rightarrow> \<lparr>ep_file = 0, ep_offset = 0, ep_bytes = 0, ep_row_bytes = 0, ep_dtype = UnknownQuant\<rparr>
      | Some v \<Rightarrow> \<lparr>ep_file = of_int (int_or v ''file'' 0), ep_offset = of_int (int_or v ''offset'' 0),
                   ep_bytes = of_int (int_or v ''bytes'' 0), ep_row_bytes = of_int (int_or v ''row_bytes'' 0),
                   ep_dtype = quant_from_string (string_or v ''dtype'' ''unknown'')\<rparr>)"

definition parse_engram :: "json \<Rightarrow> engram_entry" where
  "parse_engram v =
     \<lparr>eg_layer = of_int (int_or v ''layer'' 0), eg_rows = of_int (int_or v ''rows'' 0),
      eg_value = parse_plane (json_find v ''value''), eg_scale = parse_plane (json_find v ''scale'')\<rparr>"

text \<open>A section that may be absent: its default, or what its elements give.\<close>

definition section_of :: "json \<Rightarrow> string \<Rightarrow> 'a \<Rightarrow> (json \<Rightarrow> 'b result) \<Rightarrow> ('b \<Rightarrow> 'a result) \<Rightarrow> 'a result" where
  "section_of doc k dflt get f =
     (case json_find doc k of
        None \<Rightarrow> Inr dflt
      | Some v \<Rightarrow> (case get v of Inl e \<Rightarrow> Inl Corrupt | Inr x \<Rightarrow> f x))"

definition manifest_of :: "json \<Rightarrow> manifest result" where
  "manifest_of doc =
     (if \<not> is_object doc then Inl Corrupt
      else
        let version = of_int (int_or doc ''version'' 0)
        in if version \<noteq> 2 then Inl Corrupt
           else
             rbind (section_of doc ''files'' [] as_array (rmap parse_file)) (\<lambda>fs.
             if fs = [] then Inl Corrupt
             else if json_find doc ''tensors'' = None then Inl Corrupt
             else
               rbind (section_of doc ''tensors'' [] as_object (rmap parse_tensor)) (\<lambda>ts.
               rbind (section_of doc ''experts'' [] as_array (\<lambda>ls. parse_layers ls [])) (\<lambda>xs.
               rbind (section_of doc ''engram'' [] as_array (\<lambda>gs. Inr (map parse_engram gs))) (\<lambda>gs.
                 Inr \<lparr>mf_version = version, mf_alignment = of_int (int_or doc ''alignment'' (uint kPageSize)),
                      mf_expert_slot_bytes = of_int (int_or doc ''expert_slot_bytes'' 0),
                      mf_model = string_or doc ''model'' [], mf_files = fs, mf_tensors = ts,
                      mf_experts = xs, mf_engram = gs\<rparr>)))))"

definition manifest_parse :: "string \<Rightarrow> manifest result" where
  "manifest_parse text = rbind (json_parse text) manifest_of"

section \<open>Rendering a manifest\<close>

text \<open>
  The document of a manifest, with the keys that the generator of manifests writes. What is not
  stored as an unsigned 64-bit read passes through a signed one, so it must stay below 2^63.
\<close>

definition num :: "nat \<Rightarrow> json" where "num n = JNumber (to_string n)"

definition part_json :: "run_part \<Rightarrow> json" where
  "part_json p = JObject [(''bytes'', num (unat (rp_bytes p))), (''skew'', num (unat (rp_skew p))),
     (''slot_offset'', num (unat (rp_slot_offset p))), (''tensor'', JString (expert_part_name (rp_part p)))]"

definition run_json :: "run \<Rightarrow> json" where
  "run_json r = JObject [(''aligned_bytes'', num (unat (run_aligned_bytes r))), (''aligned_off'', num (unat (run_aligned_off r))),
     (''file'', num (unat (run_file r))), (''parts'', JArray (map part_json (run_parts r))),
     (''slot_offset'', num (unat (run_slot_offset r)))]"

definition file_json :: "file_entry \<Rightarrow> json" where
  "file_json f = JObject [(''bytes'', num (unat (fe_bytes f))), (''data_start'', num (unat (fe_data_start f))),
     (''path'', JString (fe_path f)), (''sha256'', JString (fe_sha256 f))]"

definition shape_json :: "u64 list \<Rightarrow> json" where
  "shape_json sh = JArray (map (\<lambda>d. num (unat d)) sh)"

definition scale_json :: "scale_entry \<Rightarrow> json" where
  "scale_json s =
     (if s = empty_scale then JNull
      else JObject [(''block'', JArray [num (unat (sc_block_m s)), num (unat (sc_block_k s))]),
        (''bytes'', num (unat (sc_bytes s))), (''dtype'', JString (quant_to_string (sc_dtype s))),
        (''file'', num (unat (sc_file s))), (''offset'', num (unat (sc_offset s))), (''shape'', shape_json (sc_shape s))])"

definition tensor_json :: "tensor_entry \<Rightarrow> json" where
  "tensor_json t = JObject [(''bytes'', num (unat (te_bytes t))), (''dtype'', JString (quant_to_string (te_dtype t))),
     (''file'', num (unat (te_file t))), (''offset'', num (unat (te_offset t))), (''scale'', scale_json (te_scale t)),
     (''shape'', shape_json (te_shape t))]"

definition layer_json :: "nat \<times> expert_entry list \<Rightarrow> json" where
  "layer_json x = JObject [(''experts'', JArray (map (\<lambda>e. JArray (map run_json (ee_runs e))) (snd x))), (''layer'', num (fst x))]"

definition plane_json :: "engram_plane \<Rightarrow> json" where
  "plane_json p = JObject [(''bytes'', num (unat (ep_bytes p))), (''dtype'', JString (quant_to_string (ep_dtype p))),
     (''file'', num (unat (ep_file p))), (''offset'', num (unat (ep_offset p))), (''row_bytes'', num (unat (ep_row_bytes p)))]"

definition engram_json :: "engram_entry \<Rightarrow> json" where
  "engram_json e = JObject [(''layer'', num (unat (eg_layer e))), (''rows'', num (unat (eg_rows e))),
     (''scale'', plane_json (eg_scale e)), (''value'', plane_json (eg_value e))]"

definition manifest_json :: "manifest \<Rightarrow> json" where
  "manifest_json m = JObject [(''alignment'', num (unat (mf_alignment m))), (''engram'', JArray (map engram_json (mf_engram m))),
     (''expert_slot_bytes'', num (unat (mf_expert_slot_bytes m))),
     (''experts'', JArray (map layer_json (enumerate 0 (mf_experts m)))), (''files'', JArray (map file_json (mf_files m))),
     (''model'', JString (mf_model m)), (''tensors'', JObject (map (\<lambda>(n, t). (n, tensor_json t)) (mf_tensors m))),
     (''version'', num (unat (mf_version m)))]"

definition i64 :: "u64 \<Rightarrow> bool" where "i64 x \<longleftrightarrow> unat x < 2 ^ 63"

definition plane_ok :: "engram_plane \<Rightarrow> bool" where
  "plane_ok p \<longleftrightarrow> i64 (ep_bytes p) \<and> i64 (ep_offset p)"

definition run_ok :: "run \<Rightarrow> bool" where
  "run_ok r \<longleftrightarrow> i64 (run_slot_offset r) \<and> (\<forall>p \<in> set (run_parts r). i64 (rp_bytes p) \<and> i64 (rp_slot_offset p))"

definition expert_ok :: "expert_entry \<Rightarrow> bool" where
  "expert_ok e \<longleftrightarrow> e = fold add_run (ee_runs e) empty_expert_entry \<and> (\<forall>r \<in> set (ee_runs e). run_ok r)"

definition renderable :: "manifest \<Rightarrow> bool" where
  "renderable m \<longleftrightarrow> mf_version m = 2 \<and> i64 (mf_expert_slot_bytes m) \<and> mf_files m \<noteq> []
     \<and> (\<forall>f \<in> set (mf_files m). fe_path f \<noteq> [] \<and> i64 (fe_bytes f) \<and> i64 (fe_data_start f))
     \<and> sorted_wrt (<) (map fst (mf_tensors m)) \<and> (\<forall>(n, t) \<in> set (mf_tensors m). te_name t = n)
     \<and> length (mf_experts m) < 2 ^ 32 \<and> (\<forall>row \<in> set (mf_experts m). \<forall>e \<in> set row. expert_ok e)
     \<and> (\<forall>e \<in> set (mf_engram m). i64 (eg_rows e) \<and> plane_ok (eg_value e) \<and> plane_ok (eg_scale e))"

section \<open>Reading the pieces back\<close>

lemma unat32_less: "unat (x :: u32) < 2 ^ 32"
proof -
  have "unat x < 2 ^ LENGTH(32)" by (rule unsigned_less)
  then show ?thesis by simp
qed

lemma unat64_less: "unat (x :: u64) < 2 ^ 64"
proof -
  have "unat x < 2 ^ LENGTH(64)" by (rule unsigned_less)
  then show ?thesis by simp
qed

lemma to_string_no_sign: "strip_plus (to_string n) = to_string n" "hd (to_string n) \<noteq> CHR ''-''"
  using to_string_facts(1,2) [of n] by (cases "to_string n"; auto simp: strip_plus_def dest: digit_chars(1,2))+

lemma as_int_num: "n < 2 ^ 63 \<Longrightarrow> as_int (num n) = Inr (int n)"
proof -
  assume n: "n < 2 ^ 63"
  obtain c cs where c: "to_string n = c # cs" using to_string_facts(1) [of n] by (cases "to_string n") auto
  then have "c \<noteq> CHR ''-''" using to_string_no_sign(2) [of n] by simp
  then have "from_chars_i64 (to_string n) = Some (int n)"
    using n to_string_facts(2,3) [of n] by (simp add: from_chars_i64_def c)
  then show ?thesis by (simp add: num_def to_string_no_sign)
qed

lemma as_int_num32 [simp]: "as_int (num (unat (x :: u32))) = Inr (int (unat x))"
  using unat32_less [of x] by (intro as_int_num) simp

lemma as_int_num64 [simp]: "i64 x \<Longrightarrow> as_int (num (unat x)) = Inr (int (unat x))"
  by (intro as_int_num) (simp add: i64_def)

lemma as_uint_num [simp]: "as_uint (num (unat (x :: u64))) = Inr x"
  using as_uint_to_string [OF unat64_less [of x]] by (simp add: num_def)

lemma num_not_null [simp]: "num n \<noteq> JNull"
  by (simp add: num_def)

lemma rmap_map: "(\<And>x. x \<in> set xs \<Longrightarrow> f (g x) = Inr x) \<Longrightarrow> rmap f (map g xs) = Inr xs"
  by (induction xs) auto

lemmas readers = or_default_def int_or_def string_or_def uint_at_def string_at_def typed_at_def json_at_def

lemma shape_of_shape_json: "json_find n k = Some (shape_json sh) \<Longrightarrow> shape_of n k = Inr sh"
  using all_as_map [of sh as_uint "\<lambda>d. num (unat d)" "\<lambda>d. d"] by (simp add: shape_of_def shape_json_def)

lemma parse_part_json: "i64 (rp_bytes p) \<Longrightarrow> i64 (rp_slot_offset p) \<Longrightarrow> parse_part off (part_json p) = Inr p"
  by (simp add: parse_part_def part_json_def readers)

lemma parse_run_json: "run_ok r \<Longrightarrow> parse_run (run_json r) = Inr r"
proof -
  assume r: "run_ok r"
  then have "rmap (parse_part (run_slot_offset r)) (map part_json (run_parts r)) = Inr (run_parts r)"
    by (intro rmap_map parse_part_json) (auto simp: run_ok_def)
  then show ?thesis using r by (simp add: parse_run_def run_json_def readers is_object_def run_ok_def)
qed

lemma parse_file_json: "fe_path f \<noteq> [] \<Longrightarrow> i64 (fe_bytes f) \<Longrightarrow> i64 (fe_data_start f) \<Longrightarrow> parse_file (file_json f) = Inr f"
  by (simp add: parse_file_def file_json_def readers)

lemma parse_scale_json: "json_find t ''scale'' = Some (scale_json s) \<Longrightarrow> parse_scale t = Inr s"
  by (simp add: parse_scale_def scale_json_def)
    (auto simp: is_object_def readers int_array_at_def shape_of_shape_json)

lemma parse_tensor_json: "te_name t = n \<Longrightarrow> parse_tensor (n, tensor_json t) = Inr (n, t)"
proof -
  assume n: "te_name t = n"
  have f: "json_find (tensor_json t) ''scale'' = Some (scale_json (te_scale t))"
    "json_find (tensor_json t) ''shape'' = Some (shape_json (te_shape t))" by (simp_all add: tensor_json_def)
  show ?thesis
    using n parse_scale_json [OF f(1)] shape_of_shape_json [OF f(2)]
    by (simp add: parse_tensor_def corrupt_def) (simp add: tensor_json_def readers)
qed

lemma parse_expert_json: "expert_ok e \<Longrightarrow> parse_expert (JArray (map run_json (ee_runs e))) = Inr e"
proof -
  assume e: "expert_ok e"
  have "rmap (\<lambda>v. corrupt (parse_run v)) (map run_json (ee_runs e)) = Inr (ee_runs e)"
    by (rule rmap_map) (use e in \<open>simp add: expert_ok_def parse_run_json corrupt_def\<close>)
  then show ?thesis using e by (simp add: parse_expert_def expert_ok_def)
qed

lemma set_row_next:
  assumes "length t + 1 < 2 ^ 32"
  shows "set_row (of_nat (length t)) row t = Inr (t @ [row])"
proof -
  have u: "unat (of_nat n :: u32) = n" if "n < 2 ^ 32" for n
    using that by (simp add: unsigned_of_nat take_bit_nat_eq_self)
  have "of_nat (length t) + 1 = (of_nat (length t + 1) :: u32)" by simp
  then have "unat (of_nat (length t) + 1 :: u32) = length t + 1" using u [of "length t + 1"] assms by (simp add: add.commute)
  moreover have "unat (of_nat (length t) :: u32) = length t" using u [of "length t"] assms by simp
  ultimately show ?thesis by (simp add: set_row_def)
qed

lemma parse_layers_json:
  assumes "length t + length rows < 2 ^ 32" "\<forall>row \<in> set rows. \<forall>e \<in> set row. expert_ok e"
  shows "parse_layers (map layer_json (enumerate (length t) rows)) t = Inr (t @ rows)"
  using assms
proof (induction rows arbitrary: t)
  case (Cons row rows)
  have r: "rmap parse_expert (map (\<lambda>e. JArray (map run_json (ee_runs e))) row) = Inr row"
    by (rule rmap_map) (use Cons.prems(2) in \<open>simp add: parse_expert_json\<close>)
  have n: "as_int (num (length t)) = Inr (int (length t))" by (rule as_int_num) (use Cons.prems(1) in simp)
  have "parse_layer (layer_json (length t, row)) t = set_row (of_nat (length t)) row t"
    using r n by (simp add: parse_layer_def layer_json_def readers)
  then have "parse_layer (layer_json (length t, row)) t = Inr (t @ [row])"
    using set_row_next Cons.prems(1) by simp
  then show ?case using Cons.IH [of "t @ [row]"] Cons.prems by simp
qed simp

lemma parse_plane_json: "plane_ok p \<Longrightarrow> parse_plane (Some (plane_json p)) = p"
  by (simp add: parse_plane_def plane_json_def readers plane_ok_def)

lemma parse_engram_json:
  "i64 (eg_rows e) \<Longrightarrow> plane_ok (eg_value e) \<Longrightarrow> plane_ok (eg_scale e) \<Longrightarrow> parse_engram (engram_json e) = e"
  using parse_plane_json [of "eg_value e"] parse_plane_json [of "eg_scale e"]
  by (simp add: parse_engram_def engram_json_def readers)

lemma manifest_of_json:
  assumes "renderable m"
  shows "manifest_of (manifest_json m) = Inr m"
proof -
  note r = assms [unfolded renderable_def]
  have fs: "rmap parse_file (map file_json (mf_files m)) = Inr (mf_files m)"
    by (rule rmap_map) (use r in \<open>simp add: parse_file_json\<close>)
  have ts: "rmap parse_tensor (map (\<lambda>(n, t). (n, tensor_json t)) (mf_tensors m)) = Inr (mf_tensors m)"
    by (rule rmap_map) (use r in \<open>auto simp: parse_tensor_json\<close>)
  have xs: "parse_layers (map layer_json (enumerate 0 (mf_experts m))) [] = Inr (mf_experts m)"
    using parse_layers_json [of "[]" "mf_experts m"] r by simp
  have gs: "map parse_engram (map engram_json (mf_engram m)) = mf_engram m"
    by (simp add: map_idI r parse_engram_json)
  have v: "as_int (num 2) = Inr 2" using as_int_num [of 2] by simp
  show ?thesis using r fs ts xs gs v
    by (simp add: manifest_of_def section_of_def is_object_def manifest_json_def readers Let_def)
qed

section \<open>The rendering is a JSON text\<close>

lemma wf_num [simp]: "wf_json (num n)" "depth (num n) = 1"
  by (simp_all add: num_def is_number_digits to_string_facts)

definition fits :: "nat \<Rightarrow> json \<Rightarrow> bool" where
  "fits n v \<longleftrightarrow> wf_json v \<and> depth v \<le> n"

lemma fits_num: "1 \<le> n \<Longrightarrow> fits n (num x)"
  by (simp add: fits_def)

lemma fits_string: "1 \<le> n \<Longrightarrow> fits n (JString x)" "1 \<le> n \<Longrightarrow> fits n JNull"
  by (simp_all add: fits_def)

lemma fits_array: "(\<And>x. x \<in> set xs \<Longrightarrow> fits n x) \<Longrightarrow> fits (Suc n) (JArray xs)"
  unfolding fits_def wf_json.simps depth.simps by auto

lemma fits_object:
  "sorted_wrt (<) (map fst ms) \<Longrightarrow> (\<And>m. m \<in> set ms \<Longrightarrow> fits n (snd m)) \<Longrightarrow> fits (Suc n) (JObject ms)"
  unfolding fits_def wf_json.simps depth.simps by auto

lemma fits_mono: "fits n v \<Longrightarrow> n \<le> m \<Longrightarrow> fits m v"
  by (auto simp: fits_def)

lemmas fits_leaf = fits_num fits_string

lemma fits_pieces:
  "fits 2 (part_json p)" "fits 2 (file_json f)" "fits 2 (plane_json q)" "fits 2 (shape_json sh)"
proof -
  have two: "(2 :: nat) = Suc 1" by simp
  show "fits 2 (part_json p)" "fits 2 (file_json f)" "fits 2 (plane_json q)"
    unfolding part_json_def file_json_def plane_json_def two
    by (rule fits_object; auto simp: fits_leaf less_char_def)+
  show "fits 2 (shape_json sh)" unfolding shape_json_def two by (rule fits_array) (auto simp: fits_leaf)
qed

lemma fits_runs: "fits 4 (run_json r)"
proof -
  have parts: "fits 3 (JArray (map part_json ps))" for ps
    using fits_array [of "map part_json ps" 2] fits_pieces(1) by auto
  have four: "(4 :: nat) = Suc 3" by simp
  show ?thesis unfolding run_json_def four
    by (rule fits_object) (auto simp: fits_leaf less_char_def parts)
qed

lemma fits_layers: "fits 7 (layer_json x)"
proof -
  have e: "fits 5 (JArray (map run_json rs))" for rs using fits_array [of "map run_json rs" 4] fits_runs by auto
  have "fits 6 (JArray (map (\<lambda>e. JArray (map run_json (ee_runs e))) es))" for es
    using fits_array [of "map (\<lambda>e. JArray (map run_json (ee_runs e))) es" 5] e by auto
  note six = this
  have seven: "(7 :: nat) = Suc 6" by simp
  show ?thesis unfolding layer_json_def seven by (rule fits_object) (auto simp: fits_leaf less_char_def six)
qed

lemma fits_tensors: "fits 4 (tensor_json t)"
proof -
  have two: "(2 :: nat) = Suc 1" and three: "(3 :: nat) = Suc 2" and four: "(4 :: nat) = Suc 3" by simp_all
  have block: "fits 2 (JArray [num a, num b])" for a b
    unfolding two by (rule fits_array) (auto simp: fits_leaf)
  have sc: "fits 3 (scale_json s)" for s
  proof (cases "s = empty_scale")
    case False
    then show ?thesis unfolding scale_json_def three
      by (simp only: if_False) (rule fits_object, auto simp: fits_leaf less_char_def block fits_pieces)
  qed (simp add: scale_json_def fits_leaf)
  have sh: "fits 3 (shape_json sh)" for sh by (rule fits_mono [OF fits_pieces(4)]) simp
  show ?thesis unfolding tensor_json_def four by (rule fits_object) (auto simp: fits_leaf less_char_def sc sh)
qed

lemma fits_manifest:
  assumes "sorted_wrt (<) (map fst (mf_tensors m))"
  shows "fits 9 (manifest_json m)"
proof -
  have le: "n \<le> 7 \<Longrightarrow> (\<And>x. x \<in> set xs \<Longrightarrow> fits n x) \<Longrightarrow> fits 8 (JArray xs)" for n xs
    using fits_array [of xs 7] fits_mono by auto
  have three: "(3 :: nat) = Suc 2" and five: "(5 :: nat) = Suc 4" by simp_all
  have "fits 3 (engram_json e)" for e
    unfolding engram_json_def three by (rule fits_object) (auto simp: fits_leaf less_char_def fits_pieces)
  then have g: "fits 8 (JArray (map engram_json (mf_engram m)))" by (intro le [of 3]) auto
  have x: "fits 8 (JArray (map layer_json (enumerate 0 (mf_experts m))))" by (rule le [of 7]) (auto simp: fits_layers)
  have f: "fits 8 (JArray (map file_json (mf_files m)))" by (rule le [of 2]) (auto simp: fits_pieces)
  have keys: "map fst (map (\<lambda>(n, t). (n, tensor_json t)) xs) = map fst xs" for xs by auto
  have "fits 5 (JObject (map (\<lambda>(n, t). (n, tensor_json t)) (mf_tensors m)))"
    unfolding five by (rule fits_object) (use assms in \<open>auto simp only: keys, auto simp: fits_tensors\<close>)
  then have t: "fits 8 (JObject (map (\<lambda>(n, t). (n, tensor_json t)) (mf_tensors m)))" by (rule fits_mono) simp
  have nine: "(9 :: nat) = Suc 8" by simp
  show ?thesis unfolding manifest_json_def nine
    by (rule fits_object) (auto simp: fits_leaf less_char_def g x f t)
qed

lemma manifest_text:
  assumes "renderable m"
  shows "manifest_parse (show_json (manifest_json m)) = Inr m"
proof -
  have "fits 9 (manifest_json m)" by (rule fits_manifest) (use assms in \<open>simp add: renderable_def\<close>)
  then have "json_parse (show_json (manifest_json m)) = Inr (manifest_json m)"
    by (intro parse_show) (auto simp: fits_def kMaxDepth_def)
  then show ?thesis using manifest_of_json [OF assms] by (simp add: manifest_parse_def)
qed

text \<open>
  C11. \<^verbatim>\<open>Manifest::parse\<close> reads back every manifest: the JSON text of a manifest, with the keys that
  the generator writes, parses to exactly that manifest. The manifest must be one that the format
  can carry: version 2, at least one file, sorted tensor names, experts whose summary fields
  follow from their runs, and byte counts below 2^63 where the parser reads them as signed.\<close>

theorem manifest_round_trip:
  assumes "renderable m"
  shows "manifest_parse (show_json (manifest_json m)) = Inr m"
  by (rule manifest_text [OF assms])

definition small_run :: run where
  "small_run = \<lparr>run_file = 0, run_aligned_off = 4096, run_aligned_bytes = 8192, run_slot_offset = 0,
     run_parts = [\<lparr>rp_part = W2Scale, rp_skew = 7, rp_bytes = 100, rp_slot_offset = 7\<rparr>]\<rparr>"

definition small_manifest :: manifest where
  "small_manifest = \<lparr>mf_version = 2, mf_alignment = 4096, mf_expert_slot_bytes = 18808832, mf_model = ''m'',
     mf_files = [\<lparr>fe_path = ''a.safetensors'', fe_bytes = 18446744073709 , fe_data_start = 8, fe_sha256 = []\<rparr>],
     mf_tensors = [(''embed'', \<lparr>te_name = ''embed'', te_file = 0, te_offset = 8, te_bytes = 16, te_dtype = Bf16,
        te_shape = [2, 4], te_scale = empty_scale\<rparr>)],
     mf_experts = [[], [fold add_run [small_run] empty_expert_entry]],
     mf_engram = []\<rparr>"

theorem manifest_round_trip_witness:
  "renderable small_manifest \<and> manifest_parse (show_json (manifest_json small_manifest)) = Inr small_manifest"
proof -
  have "ee_runs (fold add_run [small_run] empty_expert_entry) = [small_run]"
    by (simp add: add_run_def add_part_def small_run_def empty_expert_entry_def Let_def)
  then have "expert_ok (fold add_run [small_run] empty_expert_entry)"
    by (simp only: expert_ok_def) (simp add: run_ok_def small_run_def i64_def)
  then have "renderable small_manifest" by (simp add: renderable_def small_manifest_def i64_def)
  then show ?thesis using manifest_round_trip [of small_manifest] by simp
qed

section \<open>What a parsed manifest satisfies\<close>

lemma rmap_all: "rmap f xs = Inr ys \<Longrightarrow> (\<And>x y. x \<in> set xs \<Longrightarrow> f x = Inr y \<Longrightarrow> P y) \<Longrightarrow> \<forall>y \<in> set ys. P y"
proof (induction xs arbitrary: ys)
  case (Cons x xs)
  then obtain y zs where "f x = Inr y" "rmap f xs = Inr zs" "ys = y # zs" by (auto simp: rbind_Inr_iff)
  moreover have "\<forall>z \<in> set zs. P z" by (rule Cons.IH [OF \<open>rmap f xs = Inr zs\<close>]) (use Cons.prems(2) in auto)
  ultimately show ?case using Cons.prems(2) [of x y] by simp
qed simp

definition summed :: "expert_entry \<Rightarrow> bool" where
  "summed e \<longleftrightarrow> length (ee_part_offset e) = kExpertParts \<and> length (ee_part_bytes e) = kExpertParts
     \<and> ee_slot_bytes e = sum_list (map run_aligned_bytes (ee_runs e))"

lemma add_parts_fields: "ee_runs (fold add_part ps e) = ee_runs e" "ee_slot_bytes (fold add_part ps e) = ee_slot_bytes e"
  "length (ee_part_offset (fold add_part ps e)) = length (ee_part_offset e)"
  "length (ee_part_bytes (fold add_part ps e)) = length (ee_part_bytes e)"
  by (induction ps arbitrary: e) (simp_all add: add_part_def)

lemma summed_add_run: "summed e \<Longrightarrow> summed (add_run r e)"
  by (simp add: summed_def add_run_def Let_def add_parts_fields)

lemma summed_runs: "summed e \<Longrightarrow> summed (fold add_run rs e)"
  by (induction rs arbitrary: e) (simp_all add: summed_add_run)

lemma parse_expert_summed: "parse_expert x = Inr e \<Longrightarrow> summed e"
proof -
  assume "parse_expert x = Inr e"
  then obtain rs where "e = fold add_run rs empty_expert_entry"
    by (auto simp: parse_expert_def rbind_Inr_iff split: sum.splits)
  moreover have "summed empty_expert_entry" by (simp add: summed_def empty_expert_entry_def)
  ultimately show ?thesis by (simp add: summed_runs)
qed

definition rows_summed :: "expert_entry list list \<Rightarrow> bool" where
  "rows_summed t \<longleftrightarrow> (\<forall>row \<in> set t. \<forall>e \<in> set row. summed e)"

lemma set_row_summed: "set_row l row t = Inr t' \<Longrightarrow> rows_summed t \<Longrightarrow> \<forall>e \<in> set row. summed e \<Longrightarrow> rows_summed t'"
  by (auto simp: set_row_def rows_summed_def Let_def split: if_splits
      dest!: set_update_subset_insert [THEN subsetD] in_set_takeD)

lemma parse_layer_summed: "parse_layer v t = Inr t' \<Longrightarrow> rows_summed t \<Longrightarrow> rows_summed t'"
  by (auto simp: parse_layer_def rbind_Inr_iff split: option.splits sum.splits
      intro: set_row_summed dest: rmap_all [where P = summed] parse_expert_summed)

lemma parse_layers_summed: "parse_layers vs t = Inr t' \<Longrightarrow> rows_summed t \<Longrightarrow> rows_summed t'"
  by (induction vs t rule: parse_layers.induct) (auto simp: rbind_Inr_iff dest: parse_layer_summed)

end
