(* ===== verification/Manifest_Load.thy ===== *)
theory Manifest_Load
  imports Manifest_Parse Planner_Props
begin

text \<open>
  The manifest's contract with the store and the planner: what \<^verbatim>\<open>parse\<close> and \<^verbatim>\<open>validate\<close> accept is
  what \<^verbatim>\<open>begin_fill\<close> and \<^verbatim>\<open>plan_layer\<close> rely on.
\<close>

lemma manifest_of_summed: "manifest_of doc = Inr m \<Longrightarrow> rows_summed (mf_experts m)"
  by (auto simp: manifest_of_def section_of_def rbind_Inr_iff Let_def rows_summed_def [of "[]"]
      split: if_splits option.splits sum.splits dest!: parse_layers_summed)

lemma manifest_of_fields:
  assumes "manifest_of doc = Inr m"
  shows "mf_version m = 2" "mf_files m \<noteq> []" "\<forall>f \<in> set (mf_files m). fe_path f \<noteq> []"
proof -
  have "\<forall>f \<in> set fs. fe_path f \<noteq> []" if "rmap parse_file xs = Inr fs" for xs fs
    using that by (rule rmap_all) (auto simp: parse_file_def Let_def split: if_splits)
  then show "mf_version m = 2" "mf_files m \<noteq> []" "\<forall>f \<in> set (mf_files m). fe_path f \<noteq> []"
    using assms by (auto simp: manifest_of_def section_of_def rbind_Inr_iff Let_def split: if_splits option.splits sum.splits)
qed

lemma rows_summed_shaped: "rows_summed (mf_experts m) \<Longrightarrow> manifest_shaped m"
  by (auto simp: rows_summed_def manifest_shaped_def entry_shaped_def summed_def)

lemma loaded_experts_fill_parts:
  assumes "manifest_parse text = Inr m" "validate m = Inr ()" "manifest_expert m k = Some e"
    and "slot_bytes (sp_cfg (st_pool st)) = kExpertSlotBytes"
  shows "manifest_shaped m \<and> mf_version m = 2 \<and> mf_files m \<noteq> []"
    and "ee_slot_bytes e = sum_list (map run_aligned_bytes (ee_runs e))"
    and "(\<exists>r st'. begin_fill k e t st = (Inr r, st') \<and> length (rv_runs r) = length (ee_runs e))
       \<or> begin_fill k e t st \<in> {(Inl ResourceExhausted, st), (Inl OutOfRange, st), (Inl AlreadyExists, st)}"
proof -
  obtain doc where doc: "manifest_of doc = Inr m" using assms(1) by (auto simp: manifest_parse_def rbind_Inr_iff)
  note rows = manifest_of_summed [OF doc] and fields = manifest_of_fields [OF doc]
  show "manifest_shaped m \<and> mf_version m = 2 \<and> mf_files m \<noteq> []" using rows_summed_shaped [OF rows] fields by simp
  show "ee_slot_bytes e = sum_list (map run_aligned_bytes (ee_runs e))"
    using rows manifest_expert_in [OF assms(3)] by (auto simp: rows_summed_def summed_def)
  note v = validate_expert [OF assms(2,3)]
  then have "ee_runs e \<noteq> []" "length (ee_runs e) \<le> kMaxExpertRuns" "ee_slot_bytes e \<le> kExpertSlotBytes"
    by (auto simp: check_expert_def not_less split: if_splits)
  then show "(\<exists>r st'. begin_fill k e t st = (Inr r, st') \<and> length (rv_runs r) = length (ee_runs e))
       \<or> begin_fill k e t st \<in> {(Inl ResourceExhausted, st), (Inl OutOfRange, st), (Inl AlreadyExists, st)}"
    using assms(4) by (auto simp: begin_fill_def reserve_locked_def Let_def not_less)
qed

text \<open>
  C12. A manifest that parses and validates never makes a fill fail by its own shape: every entry
  has its six-element part arrays and a slot size that is the sum of its runs, and \<^verbatim>\<open>begin_fill\<close>
  of any of its experts either reserves a slot with one read per run or reports what only the
  store decides (no free slot, frozen cache, key out of range, key already held).\<close>

theorem loaded_experts_fill:
  assumes "manifest_parse text = Inr m" "validate m = Inr ()" "manifest_expert m k = Some e"
    and "slot_bytes (sp_cfg (st_pool st)) = kExpertSlotBytes"
  shows "(manifest_shaped m \<and> mf_version m = 2 \<and> mf_files m \<noteq> [])
   \<and> (ee_slot_bytes e = sum_list (map run_aligned_bytes (ee_runs e)))
   \<and> ((\<exists>r st'. begin_fill k e t st = (Inr r, st') \<and> length (rv_runs r) = length (ee_runs e))
       \<or> begin_fill k e t st \<in> {(Inl ResourceExhausted, st), (Inl OutOfRange, st), (Inl AlreadyExists, st)})"
  by (intro loaded_experts_fill_parts [OF assms] conjI)

lemma demo_manifest_renderable: "renderable demo_manifest"
proof -
  have "demo_entry = fold add_run [demo_run] empty_expert_entry"
    by (simp add: demo_entry_def demo_run_def add_run_def add_part_def empty_expert_entry_def Let_def kExpertParts_def
        numeral_eq_Suc)
  then have "expert_ok demo_entry"
    by (simp add: expert_ok_def demo_entry_def [THEN arg_cong [where f = ee_runs]] run_ok_def demo_run_def i64_def)
  then show ?thesis by (simp add: renderable_def demo_manifest_def i64_def)
qed

theorem loaded_experts_fill_witness:
  "\<exists>r st'. begin_fill (ExpertKey 0 0) demo_entry Cached demo_store = (Inr r, st') \<and> length (rv_runs r) = 1"
proof -
  have t: "manifest_parse (show_json (manifest_json demo_manifest)) = Inr demo_manifest"
    by (rule manifest_text [OF demo_manifest_renderable])
  have "begin_fill (ExpertKey 0 0) demo_entry Cached demo_store \<notin>
      {(Inl ResourceExhausted, demo_store), (Inl OutOfRange, demo_store), (Inl AlreadyExists, demo_store)}"
    by (simp add: begin_fill_def reserve_locked_def demo_store_facts key_in_range_def Let_def demo_entry_def kMaxExpertRuns_def kExpertParts_def)
  then show ?thesis
    using loaded_experts_fill [OF t demo_manifest_valid(1,2), of demo_store Cached]
    by (simp add: demo_store_facts kExpertSlotBytes_def) (simp add: demo_entry_def)
qed

end
