(* ===== verification/Io_Config.thy ===== *)
theory Io_Config
  imports Align Core_Types
begin

text \<open>
  The pure part of \<^verbatim>\<open>storage/io_engine.cpp\<close>: how a read is cut into chunks, and how the queue
  depths and byte ceilings of the priority classes are derived from the configuration and the
  environment. All values keep their width, so the narrowing casts of the sources are visible.
\<close>

section \<open>plan_chunks\<close>

record chunk =
  ch_off :: u64
  ch_bytes :: u32

definition chunk_step :: "u32 \<Rightarrow> u32 \<Rightarrow> u32" where
  "chunk_step max_chunk alignment =
     (let step = (if alignment \<noteq> 0 then ucast (align_down (ucast max_chunk) (ucast alignment)) else max_chunk)
      in if step = 0 then (if alignment \<noteq> 0 then alignment else max_chunk) else step)"

text \<open>The loop of \<^verbatim>\<open>plan_chunks\<close>; the step is never zero (\<^verbatim>\<open>chunk_step_pos\<close> below).\<close>

function plan_loop :: "u32 \<Rightarrow> u64 \<Rightarrow> u64 \<Rightarrow> chunk list" where
  "plan_loop step cur rem =
     (if rem = 0 \<or> step = 0 then []
      else let n = min (ucast step) rem in
           \<lparr>ch_off = cur, ch_bytes = ucast n\<rparr> # plan_loop step (cur + n) (rem - n))"
  by pat_completeness auto

definition plan_chunks :: "u64 \<Rightarrow> u64 \<Rightarrow> u32 \<Rightarrow> u32 \<Rightarrow> chunk list" where
  "plan_chunks off bytes max_chunk alignment =
     (if bytes = 0 \<or> max_chunk = 0 then [] else plan_loop (chunk_step max_chunk alignment) off bytes)"

lemma unat_step [simp]: "unat (ucast (step :: u32) :: u64) = unat step"
proof -
  have "unat step < 2 ^ LENGTH(32)" by (rule unsigned_less)
  then show ?thesis by (simp add: unsigned_ucast_eq take_bit_nat_eq_self)
qed

termination plan_loop
proof (relation "measure (\<lambda>(step, cur, rem). unat rem)")
  fix step :: u32 and cur rem n :: u64
  assume a: "\<not> (rem = 0 \<or> step = 0)" and n: "n = min (ucast step) rem"
  have "(ucast step :: u64) \<noteq> 0" using a by (metis unat_step unat_eq_zero)
  then have "0 < unat n" "unat n \<le> unat rem" using a n by (auto simp: min_def word_le_nat_alt unat_gt_0)
  then show "((step, cur + n, rem - n), step, cur, rem) \<in> measure (\<lambda>(step, cur, rem). unat rem)"
    by (simp add: unat_sub word_le_nat_alt)
qed simp

declare plan_loop.simps [simp del]

section \<open>IoConfig, IoOverrides, Tuning\<close>

text \<open>\<^verbatim>\<open>IoConfig\<close> of \<^verbatim>\<open>core/config.h\<close>: the fields that the engine reads.\<close>

record io_config =
  ic_chunk_bytes :: u32
  ic_max_inflight_bytes :: u32
  ic_max_inflight_ops :: u32
  ic_p0_chunk_bytes :: u32
  ic_p0_qd :: u32
  ic_engram_qd :: u32

definition default_io_config :: io_config where
  "default_io_config = \<lparr>ic_chunk_bytes = push_bit 20 4, ic_max_inflight_bytes = push_bit 20 32, ic_max_inflight_ops = 8,
     ic_p0_chunk_bytes = 0, ic_p0_qd = 0, ic_engram_qd = 0\<rparr>"

record io_overrides =
  ov_bg_cap_busy :: "u32 option"
  ov_bg_qd :: "u32 option"
  ov_p0_qd :: "u32 option"
  ov_p0_inflight_mb :: "u32 option"
  ov_p0_chunk_mb :: "u32 option"
  ov_engram_qd :: "u32 option"
  ov_submit_threads :: "u32 option"
  ov_throttle_engram :: bool
  ov_source_error_budget :: nat
  ov_keepalive_ms :: int
  ov_static_split :: real
  ov_stripe :: bool
  ov_route_classes :: "u32 option"
  ov_mirror_hot_c :: int

record tuning =
  tn_bg_cap_busy :: u32
  tn_throttle_engram :: bool
  tn_p0_qd :: u32
  tn_p0_inflight_bytes :: u64
  tn_p0_chunk_bytes :: u32
  tn_bg_qd :: u32
  tn_bg_inflight_bytes :: u64
  tn_engram_qd :: u32
  tn_submit_threads :: u32

definition kBackgroundOpsWhileBusy :: u32 where "kBackgroundOpsWhileBusy = 1"
definition kEngramWaitChunks :: u32 where "kEngramWaitChunks = 96"
definition kBackgroundQuiet :: int where "kBackgroundQuiet = 100000000"

text \<open>\<^verbatim>\<open>kDefaultSubmitThreads\<close> on Linux.\<close>

definition kDefaultSubmitThreads :: u32 where "kDefaultSubmitThreads = 1"

definition value_or :: "'a option \<Rightarrow> 'a \<Rightarrow> 'a" where
  "value_or x d = (case x of Some v \<Rightarrow> v | None \<Rightarrow> d)"

definition resolve_tuning :: "io_config \<Rightarrow> io_overrides \<Rightarrow> tuning" where
  "resolve_tuning cfg ov =
     (let p0_qd = value_or (ov_p0_qd ov) (if ic_p0_qd cfg \<noteq> 0 then ic_p0_qd cfg else ic_max_inflight_ops cfg);
          inflight_mb = value_or (ov_p0_inflight_mb ov) 0;
          p0_inflight = (if inflight_mb \<noteq> 0 then push_bit 20 (ucast inflight_mb) else ucast (ic_max_inflight_bytes cfg));
          chunk_mb = value_or (ov_p0_chunk_mb ov) 0;
          p0_chunk = (if chunk_mb \<noteq> 0 then ucast (push_bit 20 (ucast chunk_mb :: u64))
                      else if ic_p0_chunk_bytes cfg \<noteq> 0 then ic_p0_chunk_bytes cfg else ic_chunk_bytes cfg);
          bg_qd = (if ic_max_inflight_ops cfg > ic_max_inflight_ops default_io_config
                   then ic_max_inflight_ops default_io_config else ic_max_inflight_ops cfg);
          bg_inflight = (if ic_max_inflight_bytes cfg > ic_max_inflight_bytes default_io_config
                         then ic_max_inflight_bytes default_io_config else ic_max_inflight_bytes cfg);
          bg_qd = value_or (ov_bg_qd ov) bg_qd;
          engram_qd = value_or (ov_engram_qd ov) (if ic_engram_qd cfg \<noteq> 0 then ic_engram_qd cfg else bg_qd);
          threads = value_or (ov_submit_threads ov) kDefaultSubmitThreads;
          threads = (if threads = 0 then 1 else threads);
          threads = (if threads > 16 then 16 else threads)
      in \<lparr>tn_bg_cap_busy = value_or (ov_bg_cap_busy ov) kBackgroundOpsWhileBusy,
          tn_throttle_engram = ov_throttle_engram ov,
          tn_p0_qd = p0_qd, tn_p0_inflight_bytes = p0_inflight, tn_p0_chunk_bytes = p0_chunk,
          tn_bg_qd = bg_qd, tn_bg_inflight_bytes = ucast bg_inflight,
          tn_engram_qd = engram_qd, tn_submit_threads = threads\<rparr>)"

definition widen_for_env :: "io_overrides \<Rightarrow> io_config \<Rightarrow> io_config" where
  "widen_for_env ov cfg =
     (let t = resolve_tuning cfg ov;
          cfg = (if tn_engram_qd t > ic_max_inflight_ops cfg
                 then (if ic_p0_qd cfg = 0 then cfg\<lparr>ic_p0_qd := ic_max_inflight_ops cfg\<rparr> else cfg)
                        \<lparr>ic_max_inflight_ops := tn_engram_qd t\<rparr>
                 else cfg);
          cfg = (if tn_p0_qd t > ic_max_inflight_ops cfg then cfg\<lparr>ic_max_inflight_ops := tn_p0_qd t\<rparr> else cfg);
          cfg = (if tn_p0_inflight_bytes t > ucast (ic_max_inflight_bytes cfg)
                 then cfg\<lparr>ic_max_inflight_bytes := ucast (tn_p0_inflight_bytes t)\<rparr> else cfg)
      in if tn_p0_chunk_bytes t > ic_chunk_bytes cfg then cfg\<lparr>ic_chunk_bytes := tn_p0_chunk_bytes t\<rparr> else cfg)"

text \<open>\<^verbatim>\<open>runtime_shape\<close> on Linux.\<close>

definition runtime_shape :: "io_overrides \<Rightarrow> io_config \<Rightarrow> io_config" where
  "runtime_shape ov cfg =
     (let cfg = cfg\<lparr>ic_max_inflight_ops := max (ic_max_inflight_ops cfg) 24,
                    ic_max_inflight_bytes := max (ic_max_inflight_bytes cfg) (push_bit 20 96)\<rparr>;
          cfg = (if ic_p0_chunk_bytes cfg = 0 then cfg\<lparr>ic_p0_chunk_bytes := push_bit 20 1\<rparr> else cfg);
          cfg = (if ic_p0_qd cfg = 0 then cfg\<lparr>ic_p0_qd := 8\<rparr> else cfg);
          cfg = (if ic_engram_qd cfg = 0 then cfg\<lparr>ic_engram_qd := 512\<rparr> else cfg)
      in widen_for_env ov cfg)"

section \<open>Properties\<close>

lemma chunk_step_pos: "max_chunk \<noteq> 0 \<Longrightarrow> chunk_step max_chunk alignment \<noteq> 0"
  by (simp add: chunk_step_def Let_def)

lemma unat_pow_u32: "k < 32 \<Longrightarrow> unat (2 ^ k :: u32) = 2 ^ k"
proof -
  assume "k < 32"
  then have "(2::nat) ^ k < 2 ^ 32" by (rule power_strict_increasing) simp
  then have "(2::nat) ^ k < 2 ^ LENGTH(32)" by simp
  moreover have "(2 ^ k :: u32) = of_nat (2 ^ k)" by simp
  ultimately show ?thesis by (metis of_nat_inverse)
qed

lemma ucast_pow: "k < 32 \<Longrightarrow> ucast (2 ^ k :: u32) = (2 ^ k :: u64)"
  by (simp add: word_unat_eq_iff unat_pow_u32)

lemma chunk_step_aligned:
  assumes "k < 32" "max_chunk \<noteq> 0"
  shows "2 ^ k dvd unat (chunk_step max_chunk (2 ^ k))"
proof -
  have u: "ucast (2 ^ k :: u32) = (2 ^ k :: u64)" using assms(1) by (rule ucast_pow)
  have p: "unat (2 ^ k :: u32) = 2 ^ k" by (rule unat_pow_u32 [OF assms(1)])
  then have a: "(2 ^ k :: u32) \<noteq> 0" by (metis power_not_zero unat_0 zero_neq_numeral)
  define d where "d = align_down (ucast max_chunk) (2 ^ k)"
  have d: "2 ^ k dvd unat d" "unat d \<le> unat max_chunk"
    using align_down_bounds(1,2) [where k = k and v = "ucast max_chunk"] by (simp_all add: d_def)
  have "unat max_chunk < 2 ^ LENGTH(32)" by (rule unsigned_less)
  then have "unat (ucast d :: u32) = unat d" using d(2) by (simp add: unsigned_ucast_eq take_bit_nat_eq_self)
  then show ?thesis using a u p d(1) by (simp add: chunk_step_def d_def [symmetric] Let_def)
qed

lemma chunk_step_le:
  assumes "k < 32"
  shows "unat (chunk_step max_chunk (2 ^ k)) \<le> max (unat max_chunk) (2 ^ k)"
proof -
  define d where "d = align_down (ucast max_chunk) (ucast (2 ^ k :: u32))"
  have u: "ucast (2 ^ k :: u32) = (2 ^ k :: u64)" using assms by (rule ucast_pow)
  have "unat (ucast d :: u32) \<le> unat d" by (simp add: unsigned_ucast_eq take_bit_nat_less_eq_self)
  also have "\<dots> \<le> unat max_chunk" using align_down_bounds(2) [where k = k and v = "ucast max_chunk"] by (simp add: d_def u)
  finally have "unat (ucast d :: u32) \<le> unat max_chunk" .
  moreover have "unat (2 ^ k :: u32) = 2 ^ k" by (rule unat_pow_u32 [OF assms])
  ultimately show ?thesis by (auto simp: chunk_step_def Let_def d_def [symmetric])
qed

text \<open>What a list of chunks covers: the bytes from \<open>off\<close> on, one chunk after the other.\<close>

fun tiles :: "nat \<Rightarrow> chunk list \<Rightarrow> nat \<Rightarrow> bool" where
  "tiles off [] bytes \<longleftrightarrow> bytes = 0"
| "tiles off (c # cs) bytes \<longleftrightarrow> unat (ch_off c) = off \<and> 0 < unat (ch_bytes c) \<and> unat (ch_bytes c) \<le> bytes
     \<and> tiles (off + unat (ch_bytes c)) cs (bytes - unat (ch_bytes c))"

lemma plan_loop_tiles:
  assumes "step \<noteq> 0" "unat cur + unat rem < 2 ^ 64"
  shows "tiles (unat cur) (plan_loop step cur rem) (unat rem)
    \<and> (\<forall>c \<in> set (plan_loop step cur rem). unat (ch_bytes c) \<le> unat step)
    \<and> (\<forall>c \<in> set (butlast (plan_loop step cur rem)). ch_bytes c = step)"
  using assms
proof (induction step cur rem rule: plan_loop.induct)
  case (1 step cur rem)
  show ?case
  proof (cases "rem = 0")
    case True
    then show ?thesis by (simp add: plan_loop.simps [of step])
  next
    case False
    define n where "n = min (ucast step) rem"
    have n: "unat n = min (unat step) (unat rem)" by (auto simp: n_def min_def word_le_nat_alt)
    have s: "0 < unat step" using "1.prems"(1) by (simp add: unat_gt_0)
    have r: "0 < unat rem" using False by (simp add: unat_gt_0)
    have "unat step < 2 ^ LENGTH(32)" by (rule unsigned_less)
    then have b: "unat (ucast n :: u32) = unat n" using n by (simp add: unsigned_ucast_eq take_bit_nat_eq_self)
    have cur: "unat (cur + n) = unat cur + unat n" using "1.prems"(2) n by (intro unat_add_lem [THEN iffD1]) simp
    have rem: "unat (rem - n) = unat rem - unat n" using n by (simp add: unat_sub word_le_nat_alt)
    have IH: "tiles (unat cur + unat n) (plan_loop step (cur + n) (rem - n)) (unat rem - unat n)
      \<and> (\<forall>c \<in> set (plan_loop step (cur + n) (rem - n)). unat (ch_bytes c) \<le> unat step)
      \<and> (\<forall>c \<in> set (butlast (plan_loop step (cur + n) (rem - n))). ch_bytes c = step)"
      using "1.IH" [OF _ n_def] False "1.prems" cur rem n by simp
    have e: "plan_loop step cur rem = \<lparr>ch_off = cur, ch_bytes = ucast n\<rparr> # plan_loop step (cur + n) (rem - n)"
      using False "1.prems"(1) by (simp add: plan_loop.simps [of step cur] n_def Let_def)
    have last: "ucast n = step" if "plan_loop step (cur + n) (rem - n) \<noteq> []"
    proof -
      have "rem - n \<noteq> 0" using that by (auto simp: plan_loop.simps [of step "cur + n"])
      then have "n \<noteq> rem" by auto
      then have "unat n \<noteq> unat rem" by (simp add: word_unat_eq_iff)
      then have "unat (ucast n :: u32) = unat step" using n b by (simp add: min_def split: if_splits)
      then show ?thesis by (simp add: word_unat_eq_iff)
    qed
    show ?thesis using IH n s r b last by (auto simp: e)
  qed
qed

lemma tiles_aligned:
  assumes "tiles off cs bytes" "a dvd off" "\<forall>c \<in> set (butlast cs). a dvd unat (ch_bytes c)"
  shows "(\<forall>c \<in> set cs. a dvd unat (ch_off c)) \<and> (a dvd bytes \<longrightarrow> (\<forall>c \<in> set cs. a dvd unat (ch_bytes c)))"
  using assms
proof (induction cs arbitrary: off bytes)
  case (Cons c cs)
  show ?case
  proof (cases cs)
    case Nil
    then show ?thesis using Cons.prems by auto
  next
    case (Cons c' cs')
    then have c: "a dvd unat (ch_bytes c)" and rest: "\<forall>c \<in> set (butlast cs). a dvd unat (ch_bytes c)"
      using Cons.prems(3) by auto
    have "(\<forall>c \<in> set cs. a dvd unat (ch_off c))
      \<and> (a dvd bytes - unat (ch_bytes c) \<longrightarrow> (\<forall>c \<in> set cs. a dvd unat (ch_bytes c)))"
      using Cons.prems(1,2) c by (intro Cons.IH [of "off + unat (ch_bytes c)", OF _ _ rest]) auto
    then show ?thesis using Cons.prems(1,2) c by (auto intro: dvd_diff_nat)
  qed
qed simp

text \<open>
  \<^verbatim>\<open>plan_chunks\<close> cuts a read into chunks that follow each other without gap or overlap and cover
  exactly its bytes; none is longer than the rounded chunk size, and on an alignment that is a
  power of two every chunk of an aligned read starts on the alignment and, when the length is a
  multiple of it, ends there too.
\<close>

theorem plan_chunks_tile:
  assumes "max_chunk \<noteq> 0" "unat off + unat bytes < 2 ^ 64" "k < 32"
  shows "tiles (unat off) (plan_chunks off bytes max_chunk (2 ^ k)) (unat bytes)
    \<and> (\<forall>c \<in> set (plan_chunks off bytes max_chunk (2 ^ k)). unat (ch_bytes c) \<le> max (unat max_chunk) (2 ^ k))
    \<and> (is_aligned off (2 ^ k) \<longrightarrow>
         (\<forall>c \<in> set (plan_chunks off bytes max_chunk (2 ^ k)). is_aligned (ch_off c) (2 ^ k)
            \<and> (is_aligned bytes (2 ^ k) \<longrightarrow> 2 ^ k dvd unat (ch_bytes c))))"
proof -
  let ?s = "chunk_step max_chunk (2 ^ k)" and ?cs = "plan_chunks off bytes max_chunk (2 ^ k)"
  have cs: "?cs = plan_loop ?s off bytes" using assms(1) by (auto simp: plan_chunks_def plan_loop.simps [of _ _ 0])
  note t = plan_loop_tiles [OF chunk_step_pos [OF assms(1), of "2 ^ k"] assms(2), folded cs]
  have "unat ?s \<le> max (unat max_chunk) (2 ^ k)" by (rule chunk_step_le [OF assms(3)])
  moreover have "\<forall>c \<in> set (butlast ?cs). 2 ^ k dvd unat (ch_bytes c)"
    using t chunk_step_aligned [OF assms(3,1)] by auto
  ultimately show ?thesis using t tiles_aligned [of "unat off" ?cs "unat bytes" "2 ^ k"]
    by (auto simp: is_aligned_iff intro: order_trans)
qed

theorem plan_chunks_tile_witness:
  "plan_chunks 4096 20480 8192 (2 ^ 12) = [\<lparr>ch_off = 4096, ch_bytes = 8192\<rparr>, \<lparr>ch_off = 12288, ch_bytes = 8192\<rparr>,
     \<lparr>ch_off = 20480, ch_bytes = 4096\<rparr>]
   \<and> tiles 4096 (plan_chunks 4096 20480 8192 (2 ^ 12)) 20480"
  using plan_chunks_tile [of 8192 4096 20480 12]
  by (simp add: plan_chunks_def chunk_step_def align_down_def plan_loop.simps Let_def min_def)

end
