(* ===== verification/Source_Router.thy ===== *)
theory Source_Router
  imports Core_Types
begin

text \<open>
  \<^verbatim>\<open>storage/source_router.h\<close>: which drive a read goes to. The router picks the source with the
  least estimated finishing time among those a candidate mask allows; two filters take sources
  out of the mask, \<^verbatim>\<open>SourceHealth\<close> after a run of consecutive errors and \<^verbatim>\<open>ThermalGate\<close> while a drive
  is hot; and \<^verbatim>\<open>keepalive_due\<close> decides when an idle mirror gets a 4 KiB read. The arrays indexed by
  a source are functions, the masks are 32-bit words, and the \<^verbatim>\<open>double\<close> weights and estimates are
  real numbers.
\<close>

definition kMaxIoSources :: nat where "kMaxIoSources = 4"

text \<open>\<^verbatim>\<open>mask & (1u << s)\<close>, \<^verbatim>\<open>mask |= 1u << s\<close> and \<^verbatim>\<open>mask &= ~(1u << s)\<close>.\<close>

definition has_bit :: "u32 \<Rightarrow> nat \<Rightarrow> bool" where
  "has_bit m s \<longleftrightarrow> m AND push_bit s 1 \<noteq> 0"

definition with_bit :: "u32 \<Rightarrow> nat \<Rightarrow> u32" where
  "with_bit m s = m OR push_bit s 1"

definition without_bit :: "u32 \<Rightarrow> nat \<Rightarrow> u32" where
  "without_bit m s = m AND NOT (push_bit s 1)"

section \<open>The router\<close>

definition eta :: "real list \<Rightarrow> nat list \<Rightarrow> nat \<Rightarrow> nat \<Rightarrow> real" where
  "eta weights outstanding bytes s =
     (real (outstanding ! s) + real bytes) / (if weights ! s > 0 then weights ! s else 1 / 10 ^ 9)"

definition pick_step :: "real list \<Rightarrow> nat list \<Rightarrow> u32 \<Rightarrow> nat \<Rightarrow> nat \<Rightarrow> nat \<times> real \<Rightarrow> nat \<times> real" where
  "pick_step weights outstanding candidate_mask bytes s = (\<lambda>(best, best_eta).
     if \<not> has_bit candidate_mask s then (best, best_eta)
     else let e = eta weights outstanding bytes s in
          if best = kMaxIoSources \<or> e < best_eta then (s, e) else (best, best_eta))"

definition pick_source :: "real list \<Rightarrow> nat list \<Rightarrow> u32 \<Rightarrow> nat \<Rightarrow> nat" where
  "pick_source weights outstanding candidate_mask bytes =
     (let n = if length weights < length outstanding then length weights else length outstanding in
      fst (fold (pick_step weights outstanding candidate_mask bytes) [0..<n] (kMaxIoSources, 0)))"

section \<open>SourceHealth\<close>

record source_health =
  sh_budget :: nat
  sh_consecutive :: "nat \<Rightarrow> nat"
  sh_dropped :: u32

definition source_health_new :: "nat \<Rightarrow> source_health" where
  "source_health_new budget =
     \<lparr>sh_budget = (if budget \<noteq> 0 then budget else 1), sh_consecutive = (\<lambda>_. 0), sh_dropped = 0\<rparr>"

definition note_error :: "nat \<Rightarrow> source_health \<Rightarrow> bool \<times> source_health" where
  "note_error s h =
     (if s = 0 \<or> s \<ge> kMaxIoSources then (False, h)
      else if has_bit (sh_dropped h) s then (False, h)
      else let h1 = h\<lparr>sh_consecutive := (sh_consecutive h)(s := sh_consecutive h s + 1)\<rparr> in
        if sh_consecutive h1 s \<ge> sh_budget h
        then (True, h1\<lparr>sh_dropped := with_bit (sh_dropped h) s\<rparr>)
        else (False, h1))"

definition note_success :: "nat \<Rightarrow> source_health \<Rightarrow> source_health" where
  "note_success s h =
     (if s > 0 \<and> s < kMaxIoSources then h\<lparr>sh_consecutive := (sh_consecutive h)(s := 0)\<rparr> else h)"

definition health_drop :: "nat \<Rightarrow> source_health \<Rightarrow> source_health" where
  "health_drop s h =
     (if s > 0 \<and> s < kMaxIoSources then h\<lparr>sh_dropped := with_bit (sh_dropped h) s\<rparr> else h)"

definition health_readmit :: "nat \<Rightarrow> source_health \<Rightarrow> source_health" where
  "health_readmit s h =
     (if s > 0 \<and> s < kMaxIoSources
      then h\<lparr>sh_dropped := without_bit (sh_dropped h) s, sh_consecutive := (sh_consecutive h)(s := 0)\<rparr>
      else h)"

definition is_dropped :: "source_health \<Rightarrow> nat \<Rightarrow> bool" where
  "is_dropped h s \<longleftrightarrow> s < kMaxIoSources \<and> has_bit (sh_dropped h) s"

definition consecutive_errors :: "source_health \<Rightarrow> nat \<Rightarrow> nat" where
  "consecutive_errors h s = (if s < kMaxIoSources then sh_consecutive h s else 0)"

definition health_live_mask :: "source_health \<Rightarrow> u32 \<Rightarrow> u32" where
  "health_live_mask h candidates = candidates AND NOT (sh_dropped h)"

definition health_reset :: "source_health \<Rightarrow> source_health" where
  "health_reset h = h\<lparr>sh_dropped := 0, sh_consecutive := (\<lambda>_. 0)\<rparr>"

section \<open>ThermalGate\<close>

definition kDefaultMirrorHotC :: int where "kDefaultMirrorHotC = 80"
definition kMirrorCoolDropC :: int where "kMirrorCoolDropC = 8"

record thermal_gate =
  tg_hot_c :: int
  tg_cool_c :: int
  tg_resting :: u32

definition default_thermal :: thermal_gate where
  "default_thermal = \<lparr>tg_hot_c = kDefaultMirrorHotC, tg_cool_c = kDefaultMirrorHotC - kMirrorCoolDropC, tg_resting = 0\<rparr>"

definition thermal_update :: "nat \<Rightarrow> int \<Rightarrow> thermal_gate \<Rightarrow> bool \<times> thermal_gate" where
  "thermal_update s temp_c g =
     (if s = 0 \<or> s \<ge> kMaxIoSources then (False, g)
      else let was = has_bit (tg_resting g) s;
               g' = (if \<not> was \<and> temp_c \<ge> tg_hot_c g then g\<lparr>tg_resting := with_bit (tg_resting g) s\<rparr>
                     else if was \<and> temp_c \<le> tg_cool_c g then g\<lparr>tg_resting := without_bit (tg_resting g) s\<rparr>
                     else g)
           in (was \<noteq> has_bit (tg_resting g') s, g'))"

definition thermal_live_mask :: "thermal_gate \<Rightarrow> u32 \<Rightarrow> u32" where
  "thermal_live_mask g candidates = candidates AND NOT (tg_resting g)"

section \<open>Keep-alive\<close>

definition kDefaultKeepAliveMs :: nat where "kDefaultKeepAliveMs = 15"

record keepalive_state =
  ks_has_file :: bool
  ks_dropped :: bool
  ks_probe_inflight :: bool
  ks_real_inflight :: nat
  ks_last_activity_ns :: int

definition keepalive_due :: "keepalive_state \<Rightarrow> int \<Rightarrow> int \<Rightarrow> bool" where
  "keepalive_due s now_ns idle_ns =
     (if idle_ns \<le> 0 then False
      else if \<not> ks_has_file s \<or> ks_dropped s then False
      else if ks_probe_inflight s then False
      else if ks_real_inflight s \<noteq> 0 then False
      else now_ns - ks_last_activity_ns s \<ge> idle_ns)"

section \<open>Per-source counters\<close>

text \<open>\<^verbatim>\<open>SourceStats\<close> without the latency sums, which only a report reads.\<close>

record source_stats =
  ss_requests :: nat
  ss_bytes :: nat
  ss_errors :: nat
  ss_dropped :: bool
  ss_readmits :: nat
  ss_failovers :: nat
  ss_stripe_chunks :: nat
  ss_p0_requests :: nat
  ss_p0_bytes :: nat
  ss_idle_gaps :: nat
  ss_idle_gap_ns_sum :: int
  ss_idle_gap_ns_max :: int
  ss_keepalive_reads :: nat
  ss_keepalive_done :: nat
  ss_keepalive_refused :: nat
  ss_temp_c :: int
  ss_temp_max_c :: int
  ss_rests :: nat
  ss_resting :: bool

definition source_stats_zero :: source_stats where
  "source_stats_zero = \<lparr>ss_requests = 0, ss_bytes = 0, ss_errors = 0, ss_dropped = False, ss_readmits = 0, ss_failovers = 0,
     ss_stripe_chunks = 0, ss_p0_requests = 0, ss_p0_bytes = 0, ss_idle_gaps = 0, ss_idle_gap_ns_sum = 0,
     ss_idle_gap_ns_max = 0, ss_keepalive_reads = 0, ss_keepalive_done = 0, ss_keepalive_refused = 0,
     ss_temp_c = - 1, ss_temp_max_c = - 1, ss_rests = 0, ss_resting = False\<rparr>"

section \<open>Masks\<close>

lemma has_bit_iff: "s < 32 \<Longrightarrow> has_bit m s \<longleftrightarrow> bit m s"
proof -
  assume s: "s < 32"
  have "m AND push_bit s 1 = (if bit m s then push_bit s 1 else 0)"
    by (rule bit_word_eqI) (auto simp: bit_simps bit_1_iff)
  moreover have "bit (push_bit s 1 :: u32) s" using s by (simp add: bit_simps bit_1_iff)
  then have "(push_bit s 1 :: u32) \<noteq> 0" by (metis (full_types) bit_0_eq bot_apply bot_bool_def)
  ultimately show ?thesis by (simp add: has_bit_def)
qed

lemma has_bit_zero [simp]: "\<not> has_bit 0 s"
  by (simp add: has_bit_def)

lemma mask_bit_simps:
  assumes "s < 32" "t < 32"
  shows "has_bit (with_bit m s) t \<longleftrightarrow> t = s \<or> has_bit m t"
    and "has_bit (without_bit m s) t \<longleftrightarrow> t \<noteq> s \<and> has_bit m t"
    and "has_bit (m AND NOT k) t \<longleftrightarrow> has_bit m t \<and> \<not> has_bit k t"
  using assms by (auto simp: has_bit_iff with_bit_def without_bit_def bit_simps bit_1_iff)

lemma source_lt [simp]: "s < kMaxIoSources \<Longrightarrow> s < 32"
  by (simp add: kMaxIoSources_def)

section \<open>Properties\<close>

definition least_eta :: "real list \<Rightarrow> nat list \<Rightarrow> u32 \<Rightarrow> nat \<Rightarrow> nat \<Rightarrow> nat \<Rightarrow> bool" where
  "least_eta weights outstanding cand bytes n r \<longleftrightarrow> r < n \<and> has_bit cand r
     \<and> (\<forall>s < n. has_bit cand s \<longrightarrow> eta weights outstanding bytes r \<le> eta weights outstanding bytes s
         \<and> (s < r \<longrightarrow> eta weights outstanding bytes r < eta weights outstanding bytes s))"

lemma pick_fold:
  assumes "n \<le> kMaxIoSources"
  shows "(\<exists>s < n. has_bit cand s) \<and>
        least_eta w out cand b n (fst (fold (pick_step w out cand b) [0..<n] (kMaxIoSources, 0)))
        \<and> snd (fold (pick_step w out cand b) [0..<n] (kMaxIoSources, 0))
          = eta w out b (fst (fold (pick_step w out cand b) [0..<n] (kMaxIoSources, 0)))
    \<or> (\<forall>s < n. \<not> has_bit cand s) \<and> fold (pick_step w out cand b) [0..<n] (kMaxIoSources, 0) = (kMaxIoSources, 0)"
  using assms
proof (induction n)
  case (Suc n)
  obtain r e where f: "fold (pick_step w out cand b) [0..<n] (kMaxIoSources, 0) = (r, e)" by fastforce
  have IH: "least_eta w out cand b n r \<and> e = eta w out b r \<or> (\<forall>s < n. \<not> has_bit cand s) \<and> r = kMaxIoSources \<and> e = 0"
    using Suc by (auto simp: f)
  have old: "least_eta w out cand b n r \<Longrightarrow> r < n" by (simp add: least_eta_def)
  show ?case
  proof (cases "has_bit cand n")
    case False
    then have "fold (pick_step w out cand b) [0..<Suc n] (kMaxIoSources, 0) = (r, e)" by (simp add: f pick_step_def)
    with IH False show ?thesis by (auto simp: least_eta_def less_Suc_eq)
  next
    case True
    then have step: "fold (pick_step w out cand b) [0..<Suc n] (kMaxIoSources, 0)
      = (if r = kMaxIoSources \<or> eta w out b n < e then (n, eta w out b n) else (r, e))"
      by (simp add: f pick_step_def Let_def)
    from IH show ?thesis
    proof
      assume l: "least_eta w out cand b n r \<and> e = eta w out b r"
      with old Suc.prems have "r \<noteq> kMaxIoSources" by simp
      with l True step show ?thesis by (fastforce simp: least_eta_def less_Suc_eq)
    next
      assume "(\<forall>s < n. \<not> has_bit cand s) \<and> r = kMaxIoSources \<and> e = 0"
      with True step show ?thesis by (auto simp: least_eta_def less_Suc_eq)
    qed
  qed
qed simp

text \<open>
  The router sends a request to the candidate source with the least estimated finishing time
  \<open>(outstanding + bytes) / weight\<close>, the lowest index among equals, never to a source outside the
  mask, and answers \<^verbatim>\<open>kMaxIoSources\<close> exactly when no source is a candidate.
\<close>

theorem pick_source_least_eta:
  assumes "length weights \<le> kMaxIoSources" "length outstanding = length weights"
  shows "(if \<exists>s < length weights. has_bit cand s
          then least_eta weights outstanding cand bytes (length weights) (pick_source weights outstanding cand bytes)
          else pick_source weights outstanding cand bytes = kMaxIoSources)"
  using pick_fold [OF assms(1), of cand weights outstanding bytes] assms(2) by (auto simp: pick_source_def)

theorem pick_source_least_eta_witness:
  "pick_source [4.6, 1] [9000000, 0] 3 4000000 = 0
   \<and> least_eta [4.6, 1] [9000000, 0] 3 4000000 2 (pick_source [4.6, 1] [9000000, 0] 3 4000000)"
proof -
  have b: "has_bit 3 0" "has_bit 3 1" by (simp_all add: has_bit_def)
  have "\<exists>s < length [4.6, 1 :: real]. has_bit 3 s" using b(1) by (intro exI [of _ 0]) simp
  then show ?thesis
    using pick_source_least_eta [of "[4.6, 1]" "[9000000, 0]" 3 4000000] b
    by (simp add: kMaxIoSources_def numeral_2_eq_2 pick_source_def pick_step_def eta_def upt_rec)
qed

text \<open>The outcomes of the reads of one source, in order: \<open>True\<close> is a success.\<close>

definition note_outcome :: "nat \<Rightarrow> bool \<Rightarrow> source_health \<Rightarrow> source_health" where
  "note_outcome s ok h = (if ok then note_success s h else snd (note_error s h))"

lemma note_outcome_fields:
  assumes "0 < s" "s < kMaxIoSources"
  shows "sh_budget (note_outcome s ok h) = sh_budget h"
    "is_dropped (note_outcome s ok h) s \<longleftrightarrow> is_dropped h s \<or> \<not> ok \<and> sh_budget h \<le> Suc (sh_consecutive h s)"
    "\<not> is_dropped h s \<Longrightarrow> sh_consecutive (note_outcome s ok h) s = (if ok then 0 else Suc (sh_consecutive h s))"
  using assms
  by (auto simp: note_outcome_def note_success_def note_error_def is_dropped_def Let_def mask_bit_simps)

fun trailing :: "bool list \<Rightarrow> nat" where
  "trailing [] = 0"
| "trailing (ok # oks) = (if (\<exists>x \<in> set oks. x) then trailing oks else if ok then length oks else Suc (length oks))"

lemma trailing_append: "trailing (oks @ [ok]) = (if ok then 0 else Suc (trailing oks))"
  by (induction oks) auto

lemma trailing_run: "k \<le> trailing oks \<longleftrightarrow> (\<exists>xs. oks = xs @ replicate k False)"
proof (induction oks arbitrary: k rule: rev_induct)
  case (snoc ok oks)
  show ?case
  proof (cases k)
    case (Suc j)
    have "(\<exists>xs. oks @ [ok] = xs @ replicate k False) \<longleftrightarrow> \<not> ok \<and> (\<exists>xs. oks = xs @ replicate j False)"
      by (auto simp: Suc replicate_append_same [symmetric])
    then show ?thesis using snoc [of j] by (simp add: trailing_append Suc)
  qed simp
qed auto

text \<open>
  A mirror is taken out of the router exactly when its reads failed \<open>budget\<close> times in a row:
  a success in between puts the whole budget back, and later successes do not bring a dropped
  source back.
\<close>

theorem dropped_after_consecutive_errors:
  assumes "0 < s" "s < kMaxIoSources"
  shows "is_dropped (fold (note_outcome s) oks (source_health_new b)) s
    \<longleftrightarrow> (\<exists>xs ys. oks = xs @ replicate (max b 1) False @ ys)"
proof -
  let ?h = "\<lambda>oks. fold (note_outcome s) oks (source_health_new b)"
  have "sh_budget (?h oks) = max b 1
    \<and> (is_dropped (?h oks) s \<longleftrightarrow> (\<exists>xs ys. oks = xs @ replicate (max b 1) False @ ys))
    \<and> (\<not> is_dropped (?h oks) s \<longrightarrow> sh_consecutive (?h oks) s = trailing oks)"
  proof (induction oks rule: rev_induct)
    case Nil
    show ?case using assms by (auto simp: source_health_new_def is_dropped_def mask_bit_simps)
  next
    case (snoc ok oks)
    note f = note_outcome_fields [OF assms, where ok = ok and h = "?h oks"]
    have last: "(\<exists>xs ys. oks @ [ok] = xs @ replicate (max b 1) False @ ys) \<longleftrightarrow>
        (\<exists>xs ys. oks = xs @ replicate (max b 1) False @ ys) \<or> (\<exists>xs. oks @ [ok] = xs @ replicate (max b 1) False)"
      (is "?L \<longleftrightarrow> ?R")
    proof
      assume ?L
      then obtain xs ys where e: "oks @ [ok] = xs @ replicate (max b 1) False @ ys" by blast
      show ?R
      proof (cases ys rule: rev_cases)
        case Nil
        then show ?thesis using e by auto
      next
        case (snoc zs z)
        then have "oks = xs @ replicate (max b 1) False @ zs" using e by simp
        then show ?thesis by blast
      qed
    next
      assume ?R
      then show ?L
      proof
        assume "\<exists>xs. oks @ [ok] = xs @ replicate (max b 1) False"
        then show ?L by (metis append_Nil2)
      qed (metis append_assoc)
    qed
    have "(\<exists>xs. oks @ [ok] = xs @ replicate (max b 1) False) \<longleftrightarrow> max b 1 \<le> trailing (oks @ [ok])"
      by (simp only: trailing_run)
    then show ?case using snoc f last by (auto simp: trailing_append)
  qed
  then show ?thesis by blast
qed

theorem dropped_after_consecutive_errors_witness:
  "is_dropped (fold (note_outcome 1) [False, False, True, False, False, False, True] (source_health_new 3)) 1"
proof -
  have "[False, False, True, False, False, False, True] = [False, False, True] @ replicate (max 3 1) False @ [True]"
    by (simp add: numeral_3_eq_3)
  then have "\<exists>xs ys. [False, False, True, False, False, False, True] = xs @ replicate (max 3 1) False @ ys" by blast
  then show ?thesis by (rule dropped_after_consecutive_errors [THEN iffD2, rotated 2]) (simp_all add: kMaxIoSources_def)
qed

definition feel :: "nat \<Rightarrow> int \<Rightarrow> thermal_gate \<Rightarrow> thermal_gate" where
  "feel s t g = snd (thermal_update s t g)"

lemma feel_fields:
  assumes "0 < s" "s < kMaxIoSources"
  shows "tg_hot_c (feel s t g) = tg_hot_c g" "tg_cool_c (feel s t g) = tg_cool_c g"
    "has_bit (tg_resting (feel s t g)) s \<longleftrightarrow>
       (if has_bit (tg_resting g) s then tg_cool_c g < t else tg_hot_c g \<le> t)"
  using assms by (auto simp: feel_def thermal_update_def Let_def mask_bit_simps)

definition hot_since :: "int \<Rightarrow> int \<Rightarrow> int list \<Rightarrow> bool" where
  "hot_since hot cool ts \<longleftrightarrow> (\<exists>xs t ys. ts = xs @ t # ys \<and> hot \<le> t \<and> (\<forall>y \<in> set ys. cool < y))"

lemma hot_since_snoc: "hot_since hot cool (ts @ [u]) \<longleftrightarrow> hot \<le> u \<or> cool < u \<and> hot_since hot cool ts"
proof
  assume "hot_since hot cool (ts @ [u])"
  then obtain xs t ys where e: "ts @ [u] = xs @ t # ys" "hot \<le> t" "\<forall>y \<in> set ys. cool < y" by (auto simp: hot_since_def)
  show "hot \<le> u \<or> cool < u \<and> hot_since hot cool ts"
  proof (cases ys rule: rev_cases)
    case Nil
    then show ?thesis using e by auto
  next
    case (snoc zs z)
    then have "ts = xs @ t # zs" "z = u" using e(1) by simp_all
    then show ?thesis using e(2,3) snoc by (auto simp: hot_since_def)
  qed
next
  assume "hot \<le> u \<or> cool < u \<and> hot_since hot cool ts"
  then show "hot_since hot cool (ts @ [u])"
  proof
    assume "hot \<le> u"
    then show ?thesis unfolding hot_since_def by (intro exI [of _ ts] exI [of _ u] exI [of _ "[]"]) simp
  next
    assume "cool < u \<and> hot_since hot cool ts"
    then obtain xs t ys where "cool < u" "ts = xs @ t # ys" "hot \<le> t" "\<forall>y \<in> set ys. cool < y" by (auto simp: hot_since_def)
    then show ?thesis unfolding hot_since_def by (intro exI [of _ xs] exI [of _ t] exI [of _ "ys @ [u]"]) simp
  qed
qed

text \<open>
  The thermal gate has hysteresis: after any sequence of readings a mirror rests exactly when
  some reading reached \<^verbatim>\<open>hot_c\<close> and every reading since stayed above \<^verbatim>\<open>cool_c\<close>.
\<close>

theorem rests_until_cool:
  assumes "0 < s" "s < kMaxIoSources" "tg_cool_c g < tg_hot_c g" "\<not> has_bit (tg_resting g) s"
  shows "has_bit (tg_resting (fold (feel s) ts g)) s \<longleftrightarrow> hot_since (tg_hot_c g) (tg_cool_c g) ts"
proof -
  have "tg_hot_c (fold (feel s) ts g) = tg_hot_c g \<and> tg_cool_c (fold (feel s) ts g) = tg_cool_c g \<and>
    (has_bit (tg_resting (fold (feel s) ts g)) s \<longleftrightarrow> hot_since (tg_hot_c g) (tg_cool_c g) ts)"
  proof (induction ts rule: rev_induct)
    case (snoc u ts)
    then show ?case using feel_fields [OF assms(1,2), of u "fold (feel s) ts g"] assms(3)
      by (simp add: hot_since_snoc) linarith
  qed (use assms(4) in \<open>simp add: hot_since_def\<close>)
  then show ?thesis by blast
qed

theorem rests_until_cool_witness:
  "has_bit (tg_resting (fold (feel 1) [63, 81, 75] default_thermal)) 1"
proof -
  have "hot_since 80 72 ([] @ [63, 81] @ [75])" by (simp only: hot_since_snoc append_assoc [symmetric]) (simp add: hot_since_snoc [of _ _ "[63]", simplified])
  then show ?thesis
    using rests_until_cool [of 1 default_thermal "[63, 81, 75]"]
    by (simp add: kMaxIoSources_def default_thermal_def kMirrorCoolDropC_def kDefaultMirrorHotC_def)
qed

end
