(* ===== verification/Io_Engine.thy ===== *)
theory Io_Engine
  imports Io_Config Source_Router
begin

text \<open>
  \<^verbatim>\<open>storage/io_engine.cpp\<close>: the asynchronous read engine. A request is cut into chunks and queued by
  priority class; the dispatcher hands chunks to the backend within depth and byte ceilings, folds
  completions back into their request, and answers the request through its callback when its last
  chunk is done. With mirrors, a request is routed to one drive or striped over several, and one
  that fails on a mirror is read again from the primary.

  The state follows \<^verbatim>\<open>IoEngine\<close>. A \<^verbatim>\<open>shared_ptr<Pending>\<close> is an id into \<open>io_pendings\<close>; a \<^verbatim>\<open>File*\<close> is a
  handle looked up in the parameter \<open>fs\<close>; the clock is the parameter \<open>now\<close>, one value for the clock
  readings of one call; a call of \<^verbatim>\<open>Backend::submit\<close> and what \<^verbatim>\<open>Backend::poll\<close> returns are
  parameters. Byte and request counters are natural numbers. A call of a callback is recorded in
  \<open>io_callbacks\<close>; \<open>io_at_backend\<close> records the chunk ids that the backend has accepted and not yet
  completed. The latency sums, the sampled latencies and the profiler hooks, which nothing in the
  engine reads, are left out.
\<close>

type_synonym file_handle = nat

record file_info =
  fi_open :: bool
  fi_size :: u64
  fi_unbuffered :: bool

record io_request =
  rq_key :: expert_key
  rq_priority :: io_priority
  rq_file :: "file_handle option"
  rq_file_off :: u64
  rq_bytes :: u64
  rq_dst :: u64

record io_result =
  rs_id :: nat
  rs_key :: expert_key
  rs_bytes_moved :: nat
  rs_status :: err

record chunk_request =
  cr_chunk_id :: nat
  cr_file :: "file_handle option"
  cr_file_off :: u64
  cr_bytes :: u32
  cr_min_bytes :: u32
  cr_dst :: u64

record chunk_completion =
  cc_chunk_id :: nat
  cc_bytes_moved :: u32
  cc_status :: err

record backend_caps =
  bc_alignment :: u32
  bc_max_queue_depth :: u32
  bc_max_chunk_bytes :: u32

section \<open>The state\<close>

record pending =
  pn_req :: io_request
  pn_chunks :: "chunk list"
  pn_required :: nat
  pn_next :: nat
  pn_issued :: nat
  pn_done :: nat
  pn_moved :: nat
  pn_source :: nat
  pn_routed :: bool
  pn_primary :: "file_handle option"
  pn_chunk_src :: "nat list"
  pn_src_file :: "nat \<Rightarrow> file_handle option"
  pn_src_charged :: "nat \<Rightarrow> nat"
  pn_src_moved :: "nat \<Rightarrow> nat"
  pn_src_used :: u32
  pn_src_err :: u32
  pn_status :: err
  pn_failed :: bool

text \<open>\<open>fc_src = None\<close> is \<^verbatim>\<open>kNoStripeSource\<close>.\<close>

record inflight_chunk =
  fc_owner :: nat
  fc_bytes :: u32
  fc_src :: "nat option"

record keepalive_slot =
  ka_file :: "file_handle option"
  ka_chunk_id :: nat
  ka_cursor :: nat

text \<open>What \<^verbatim>\<open>src_mutex_\<close> guards.\<close>

record sources =
  sr_roots :: "string list"
  sr_weights :: "real list"
  sr_alts :: "(file_handle \<times> (nat \<Rightarrow> file_handle option)) list"
  sr_mirrors_on :: bool
  sr_stripe :: bool
  sr_static_split :: real
  sr_static_bytes :: "nat \<Rightarrow> nat"
  sr_route_classes :: u32
  sr_health :: source_health
  sr_thermal :: thermal_gate
  sr_sensor :: "nat \<Rightarrow> bool"
  sr_outstanding :: "nat \<Rightarrow> nat"
  sr_inflight :: "nat \<Rightarrow> nat"
  sr_stats :: "nat \<Rightarrow> source_stats"
  sr_last_activity :: "nat \<Rightarrow> int"
  sr_idle_since :: "nat \<Rightarrow> int"
  sr_ka_idle_ns :: int
  sr_ka :: "nat \<Rightarrow> keepalive_slot"
  sr_ka_inflight :: nat

record io_stats =
  is_submitted :: nat
  is_completed :: nat
  is_failed :: nat
  is_cancelled :: nat
  is_chunks_submitted :: nat
  is_chunks_completed :: nat
  is_bytes_requested :: nat
  is_bytes_completed :: nat
  is_class_requests :: "io_priority \<Rightarrow> nat"
  is_class_bytes :: "io_priority \<Rightarrow> nat"
  is_p0_requests :: nat
  is_p0_bytes :: nat
  is_p2_requests :: nat
  is_p2_deadline_chunks :: nat
  is_p0_chunks_issued :: nat
  is_p0_qd_at_issue_sum :: nat
  is_peak_ops :: nat
  is_peak_bytes :: nat
  is_peak_class :: "io_priority \<Rightarrow> nat"

record io_engine =
  io_running :: bool
  io_caps :: backend_caps
  io_tune :: tuning
  io_bg_chunk_bytes :: u32
  io_p0_qd_tuned :: u32
  io_p0_inflight_tuned :: u64
  io_pendings :: "nat \<Rightarrow> pending option"
  io_queues :: "io_priority \<Rightarrow> nat list"
  io_chunk_owner :: "nat \<Rightarrow> inflight_chunk option"
  io_next_request :: nat
  io_next_chunk :: nat
  io_outstanding :: nat
  io_p0_outstanding :: nat
  io_inflight_ops :: nat
  io_inflight_bytes :: nat
  io_inflight_class :: "io_priority \<Rightarrow> nat"
  io_engram_wait_priority :: bool
  io_engram_waiters :: nat
  io_last_p0_ns :: int
  io_src :: sources
  io_submit_q :: "chunk_request list"
  io_failed_q :: "chunk_completion list"
  io_at_backend :: "nat list"
  io_stat :: io_stats
  io_callbacks :: "io_result list"

definition io_stats_zero :: io_stats where
  "io_stats_zero = \<lparr>is_submitted = 0, is_completed = 0, is_failed = 0, is_cancelled = 0, is_chunks_submitted = 0,
     is_chunks_completed = 0, is_bytes_requested = 0, is_bytes_completed = 0, is_class_requests = (\<lambda>_. 0),
     is_class_bytes = (\<lambda>_. 0), is_p0_requests = 0, is_p0_bytes = 0, is_p2_requests = 0, is_p2_deadline_chunks = 0,
     is_p0_chunks_issued = 0, is_p0_qd_at_issue_sum = 0, is_peak_ops = 0, is_peak_bytes = 0, is_peak_class = (\<lambda>_. 0)\<rparr>"

definition upd_src :: "(sources \<Rightarrow> sources) \<Rightarrow> io_engine \<Rightarrow> io_engine" where
  "upd_src f e = e\<lparr>io_src := f (io_src e)\<rparr>"

definition upd_stat :: "(io_stats \<Rightarrow> io_stats) \<Rightarrow> io_engine \<Rightarrow> io_engine" where
  "upd_stat f e = e\<lparr>io_stat := f (io_stat e)\<rparr>"

definition upd_source_stats :: "nat \<Rightarrow> (source_stats \<Rightarrow> source_stats) \<Rightarrow> sources \<Rightarrow> sources" where
  "upd_source_stats s f src = src\<lparr>sr_stats := (sr_stats src)(s := f (sr_stats src s))\<rparr>"

section \<open>Sources\<close>

definition note_source_start :: "nat \<Rightarrow> int \<Rightarrow> sources \<Rightarrow> sources" where
  "note_source_start s now src =
     (let src1 = src\<lparr>sr_inflight := (sr_inflight src)(s := sr_inflight src s + 1)\<rparr>;
          gap = now - sr_idle_since src s
      in if sr_idle_since src s \<noteq> 0
         then (if gap \<ge> int kDefaultKeepAliveMs * 1000000
               then upd_source_stats s (\<lambda>t. t\<lparr>ss_idle_gaps := ss_idle_gaps t + 1,
                      ss_idle_gap_ns_sum := ss_idle_gap_ns_sum t + gap,
                      ss_idle_gap_ns_max := max gap (ss_idle_gap_ns_max t)\<rparr>) src1
               else src1)\<lparr>sr_idle_since := (sr_idle_since src)(s := 0)\<rparr>
         else src1)"

definition note_source_result :: "nat \<Rightarrow> bool \<Rightarrow> sources \<Rightarrow> sources" where
  "note_source_result s ok src =
     (if ok then src\<lparr>sr_health := note_success s (sr_health src)\<rparr>
      else let src1 = upd_source_stats s (\<lambda>t. t\<lparr>ss_errors := ss_errors t + 1\<rparr>) src;
               (out, h) = note_error s (sr_health src)
           in (if out then upd_source_stats s (\<lambda>t. t\<lparr>ss_dropped := True\<rparr>) src1 else src1)\<lparr>sr_health := h\<rparr>)"

text \<open>One request on \<open>s\<close> ends: its bytes stop counting, and the source may become idle.\<close>

definition source_done :: "nat \<Rightarrow> nat \<Rightarrow> int \<Rightarrow> sources \<Rightarrow> sources" where
  "source_done s bytes now src =
     src\<lparr>sr_outstanding := (sr_outstanding src)(s := sr_outstanding src s - bytes),
         sr_inflight := (sr_inflight src)(s := sr_inflight src s - 1),
         sr_idle_since := (if sr_inflight src s - 1 = 0 then (sr_idle_since src)(s := now) else sr_idle_since src)\<rparr>"

definition static_target :: "sources \<Rightarrow> nat \<Rightarrow> real" where
  "static_target src s =
     (let n = length (sr_roots src); mirrors = (if n > 1 then n - 1 else 1) in
      if s = 0 then 1 - sr_static_split src else sr_static_split src / real mirrors)"

definition pick_static :: "sources \<Rightarrow> u32 \<Rightarrow> nat \<Rightarrow> nat" where
  "pick_static src cand bytes =
     (let best = fst (fold (\<lambda>s (best, best_score).
            if \<not> has_bit cand s then (best, best_score)
            else if \<not> static_target src s > 0 then (best, best_score)
            else let score = (real (sr_static_bytes src s) + real bytes) / static_target src s in
                 if best = kMaxIoSources \<or> score < best_score then (s, score) else (best, best_score))
          [0..<min (length (sr_roots src)) kMaxIoSources] (kMaxIoSources, 0))
      in if best = kMaxIoSources \<and> cand \<noteq> 0
         then (case find (has_bit cand) [0..<kMaxIoSources] of Some s \<Rightarrow> s | None \<Rightarrow> best) else best)"

definition outstanding_span :: "sources \<Rightarrow> nat list" where
  "outstanding_span src = map (sr_outstanding src) [0..<length (sr_weights src)]"

definition open_mask :: "(file_handle \<Rightarrow> file_info) \<Rightarrow> (nat \<Rightarrow> file_handle option) \<Rightarrow> u32" where
  "open_mask fs row = fold (\<lambda>i m. case row i of Some f \<Rightarrow> if fi_open (fs f) then with_bit m i else m | None \<Rightarrow> m)
     [0..<kMaxIoSources] 0"

definition pop_count :: "u32 \<Rightarrow> nat" where
  "pop_count m = length (filter (bit m) [0..<32])"

section \<open>submit\<close>

record route =
  rt_file :: file_handle
  rt_source :: nat
  rt_routed :: bool
  rt_stripe_mask :: u32
  rt_row :: "nat \<Rightarrow> file_handle option"

definition unrouted :: "file_handle \<Rightarrow> route" where
  "unrouted f = \<lparr>rt_file = f, rt_source = 0, rt_routed = False, rt_stripe_mask = 0, rt_row = (\<lambda>_. None)\<rparr>"

definition route_request :: "(file_handle \<Rightarrow> file_info) \<Rightarrow> io_request \<Rightarrow> file_handle \<Rightarrow> int \<Rightarrow> sources \<Rightarrow> route \<times> sources" where
  "route_request fs req f now src =
     (if sr_mirrors_on src \<and> has_bit (sr_route_classes src) (io_priority_ord (rq_priority req))
      then case map_of (sr_alts src) f of
             None \<Rightarrow> (unrouted f, src)
           | Some row \<Rightarrow>
               let cand = thermal_live_mask (sr_thermal src) (health_live_mask (sr_health src) (open_mask fs row));
                   statik = sr_static_split src > 0 \<and> rq_priority req = BlockingMiss
               in if sr_stripe src \<and> rq_priority req = BlockingMiss \<and> pop_count cand > 1
                  then ((unrouted f)\<lparr>rt_stripe_mask := cand, rt_row := row\<rparr>, src)
                  else let pick = (if statik then pick_static src cand (unat (rq_bytes req))
                                   else pick_source (sr_weights src) (outstanding_span src) cand (unat (rq_bytes req)))
                       in case (if pick < kMaxIoSources then row pick else None) of
                            None \<Rightarrow> (unrouted f, src)
                          | Some g \<Rightarrow>
                              ((unrouted f)\<lparr>rt_file := g, rt_source := pick, rt_routed := True\<rparr>,
                               note_source_start pick now
                                 (src\<lparr>sr_outstanding := (sr_outstanding src)(pick := sr_outstanding src pick + unat (rq_bytes req)),
                                      sr_static_bytes := (sr_static_bytes src)(pick := sr_static_bytes src pick + unat (rq_bytes req))\<rparr>))
      else (unrouted f, src))"

text \<open>\<^verbatim>\<open>RouteGuard\<close>: a refused request gives its routed bytes back.\<close>

definition route_guard :: "route \<Rightarrow> nat \<Rightarrow> int \<Rightarrow> sources \<Rightarrow> sources" where
  "route_guard rt bytes now src = (if rt_routed rt then source_done (rt_source rt) bytes now src else src)"

text \<open>One chunk of a striped request: routed on its own, charged to its source.\<close>

definition stripe_chunk :: "u32 \<Rightarrow> (nat \<Rightarrow> file_handle option) \<Rightarrow> int \<Rightarrow> chunk \<Rightarrow> pending \<times> sources \<Rightarrow> pending \<times> sources" where
  "stripe_chunk cand row now c = (\<lambda>(p, src).
     let b = unat (ch_bytes c);
         s = pick_source (sr_weights src) (outstanding_span src) cand b;
         s = (if s \<ge> kMaxIoSources \<or> row s = None then 0 else s);
         src = upd_source_stats s (\<lambda>t. t\<lparr>ss_stripe_chunks := ss_stripe_chunks t + 1\<rparr>)
                 (src\<lparr>sr_outstanding := (sr_outstanding src)(s := sr_outstanding src s + b)\<rparr>);
         src = (if has_bit (pn_src_used p) s then src else note_source_start s now src)
     in (p\<lparr>pn_chunk_src := pn_chunk_src p @ [s],
           pn_src_charged := (pn_src_charged p)(s := pn_src_charged p s + b),
           pn_src_used := with_bit (pn_src_used p) s\<rparr>, src))"

definition stripe_request :: "route \<Rightarrow> file_handle \<Rightarrow> int \<Rightarrow> pending \<Rightarrow> sources \<Rightarrow> pending \<times> sources" where
  "stripe_request rt f now p src =
     (if rt_stripe_mask rt \<noteq> 0
      then let (p, src) = fold (stripe_chunk (rt_stripe_mask rt) (rt_row rt) now) (pn_chunks p)
                            (p\<lparr>pn_src_file := rt_row rt\<rparr>, src)
           in (if pn_src_used p AND NOT 1 \<noteq> 0 then p\<lparr>pn_primary := Some f\<rparr> else p, src)
      else (p, src))"

definition new_pending :: "io_engine \<Rightarrow> io_request \<Rightarrow> file_handle \<Rightarrow> route \<Rightarrow> nat \<Rightarrow> pending" where
  "new_pending e req f rt required =
     \<lparr>pn_req = req\<lparr>rq_file := Some (rt_file rt)\<rparr>,
      pn_chunks = plan_chunks (rq_file_off req) (rq_bytes req)
        (if rq_priority req = BlockingMiss then tn_p0_chunk_bytes (io_tune e) else io_bg_chunk_bytes e)
        (bc_alignment (io_caps e)),
      pn_required = required, pn_next = 0, pn_issued = 0, pn_done = 0, pn_moved = 0,
      pn_source = rt_source rt, pn_routed = rt_routed rt,
      pn_primary = (if rt_routed rt \<and> rt_source rt \<noteq> 0 then Some f else None),
      pn_chunk_src = [], pn_src_file = (\<lambda>_. None), pn_src_charged = (\<lambda>_. 0), pn_src_moved = (\<lambda>_. 0),
      pn_src_used = 0, pn_src_err = 0, pn_status = ErrOk, pn_failed = False\<rparr>"

definition enqueue :: "pending \<Rightarrow> int \<Rightarrow> io_engine \<Rightarrow> io_engine" where
  "enqueue p now e =
     (let rid = io_next_request e; pr = rq_priority (pn_req p) in
      upd_stat (\<lambda>t. t\<lparr>is_submitted := is_submitted t + 1,
          is_bytes_requested := is_bytes_requested t + unat (rq_bytes (pn_req p)),
          is_class_requests := (is_class_requests t)(pr := is_class_requests t pr + 1),
          is_class_bytes := (is_class_bytes t)(pr := is_class_bytes t pr + unat (rq_bytes (pn_req p)))\<rparr>)
        (e\<lparr>io_last_p0_ns := (if pr = BlockingMiss then now else io_last_p0_ns e),
           io_next_request := rid + 1,
           io_pendings := (io_pendings e)(rid \<mapsto> p),
           io_p0_outstanding := (if pr = BlockingMiss then io_p0_outstanding e + 1 else io_p0_outstanding e),
           io_queues := (io_queues e)(pr := io_queues e pr @ [rid]),
           io_outstanding := io_outstanding e + 1\<rparr>))"

definition misaligned :: "io_engine \<Rightarrow> io_request \<Rightarrow> bool" where
  "misaligned e req \<longleftrightarrow> (let a = ucast (bc_alignment (io_caps e)) in
     \<not> is_aligned (rq_file_off req) a \<or> \<not> is_aligned (rq_dst req) a \<or> \<not> is_aligned (rq_bytes req) a)"

definition submit :: "(file_handle \<Rightarrow> file_info) \<Rightarrow> io_request \<Rightarrow> int \<Rightarrow> io_engine \<Rightarrow> nat result \<times> io_engine" where
  "submit fs req now e =
     (if \<not> io_running e then (Inl FailedPrecondition, e)
      else case rq_file req of
        None \<Rightarrow> (Inl InvalidArgument, e)
      | Some f \<Rightarrow>
          if \<not> fi_open (fs f) then (Inl InvalidArgument, e)
          else let (rt, src) = route_request fs req f now (io_src e); e = e\<lparr>io_src := src\<rparr> in
            if rq_dst req = 0 then (Inl InvalidArgument, e)
            else if rq_bytes req = 0 then (Inl InvalidArgument, e)
            else let refuse = upd_src (route_guard rt (unat (rq_bytes req)) now) e in
              if fi_unbuffered (fs (rt_file rt)) \<and> misaligned e req then (Inl InvalidArgument, refuse)
              else let size = fi_size (fs (rt_file rt));
                       in_file = (if size > rq_file_off req then size - rq_file_off req else 0);
                       required = min (unat (rq_bytes req)) (unat in_file)
                   in if required = 0 then (Inl OutOfRange, refuse)
                      else let (p, src) = stripe_request rt f now (new_pending e req f rt required) (io_src e)
                           in (Inr (io_next_request e), enqueue p now (e\<lparr>io_src := src\<rparr>)))"

section \<open>cancel\<close>

definition all_classes :: "io_priority list" where
  "all_classes = [BlockingMiss, Lookahead, Engram, Backfill]"

text \<open>Every source that carried a share of a striped request gives back what is still charged.\<close>

definition release_shares :: "pending \<Rightarrow> int \<Rightarrow> sources \<Rightarrow> sources" where
  "release_shares p now src =
     fold (\<lambda>s src. if has_bit (pn_src_used p) s then source_done s (pn_src_charged p s) now src else src)
       [0..<kMaxIoSources] src"

definition answer :: "io_result \<Rightarrow> io_engine \<Rightarrow> io_engine" where
  "answer r e = e\<lparr>io_callbacks := io_callbacks e @ [r]\<rparr>"

definition cancel :: "nat \<Rightarrow> int \<Rightarrow> io_engine \<Rightarrow> unit result \<times> io_engine" where
  "cancel rid now e =
     (case find (\<lambda>pr. rid \<in> set (io_queues e pr)) all_classes of
        None \<Rightarrow> (Inl NotFound, e)
      | Some pr \<Rightarrow>
          (case io_pendings e rid of
             None \<Rightarrow> (Inl NotFound, e)
           | Some p \<Rightarrow>
               if pn_next p \<noteq> 0 then (Inl FailedPrecondition, e)
               else (Inr (),
                 answer \<lparr>rs_id = rid, rs_key = rq_key (pn_req p), rs_bytes_moved = 0, rs_status = Cancelled\<rparr>
                  (upd_stat (\<lambda>t. t\<lparr>is_cancelled := is_cancelled t + 1\<rparr>)
                    (upd_src (if pn_src_used p \<noteq> 0 then release_shares p now else (\<lambda>src. src))
                      (e\<lparr>io_queues := (io_queues e)(pr := remove1 rid (io_queues e pr)),
                         io_pendings := (io_pendings e)(rid := None),
                         io_outstanding := io_outstanding e - 1\<rparr>))))))"

section \<open>Issuing chunks\<close>

definition fully_issued :: "io_engine \<Rightarrow> nat \<Rightarrow> bool" where
  "fully_issued e rid \<longleftrightarrow> (case io_pendings e rid of None \<Rightarrow> True | Some p \<Rightarrow> pn_next p \<ge> length (pn_chunks p))"

definition pop_issued :: "io_engine \<Rightarrow> io_engine" where
  "pop_issued e = e\<lparr>io_queues := (\<lambda>pr. dropWhile (fully_issued e) (io_queues e pr))\<rparr>"

definition rescue_qd :: "tuning \<Rightarrow> nat" where
  "rescue_qd t = min (unat (tn_engram_qd t)) (unat (tn_p0_qd t) + unat kEngramWaitChunks)"

definition rescue :: "io_engine \<Rightarrow> bool" where
  "rescue e \<longleftrightarrow> io_engram_waiters e \<noteq> 0 \<and> io_queues e BlockingMiss \<noteq> [] \<and> io_queues e Engram \<noteq> []
     \<and> (case io_pendings e (hd (io_queues e Engram)) of None \<Rightarrow> False
        | Some p \<Rightarrow> rq_bytes (pn_req p) \<le> 2 * kPageSize)
     \<and> io_inflight_ops e < rescue_qd (io_tune e)
     \<and> io_inflight_class e Engram < unat kEngramWaitChunks
     \<and> io_inflight_bytes e < unat (tn_bg_inflight_bytes (io_tune e))"

definition head_class :: "io_engine \<Rightarrow> io_priority option" where
  "head_class e = (if rescue e then Some Engram else find (\<lambda>pr. io_queues e pr \<noteq> []) all_classes)"

definition throttled :: "io_engine \<Rightarrow> int \<Rightarrow> io_priority \<Rightarrow> bool" where
  "throttled e now cls \<longleftrightarrow>
     (cls = Lookahead \<or> cls = Backfill \<or> tn_throttle_engram (io_tune e) \<and> cls = Engram)
     \<and> now - io_last_p0_ns e < kBackgroundQuiet
     \<and> io_inflight_class e Lookahead + io_inflight_class e Backfill
         + (if tn_throttle_engram (io_tune e) then io_inflight_class e Engram else 0) \<ge> unat (tn_bg_cap_busy (io_tune e))"

definition qd_cap :: "io_engine \<Rightarrow> io_priority \<Rightarrow> nat" where
  "qd_cap e cls = (if rescue e then rescue_qd (io_tune e)
     else if cls = BlockingMiss then unat (tn_p0_qd (io_tune e))
     else if cls = Engram then unat (tn_engram_qd (io_tune e)) else unat (tn_bg_qd (io_tune e)))"

definition byte_cap :: "io_engine \<Rightarrow> io_priority \<Rightarrow> nat" where
  "byte_cap e cls =
     unat (if cls = BlockingMiss then tn_p0_inflight_bytes (io_tune e) else tn_bg_inflight_bytes (io_tune e))"

definition chunk_request_of :: "(file_handle \<Rightarrow> file_info) \<Rightarrow> nat \<Rightarrow> pending \<Rightarrow> nat \<Rightarrow> chunk_request" where
  "chunk_request_of fs cid p idx =
     (let ch = pn_chunks p ! idx;
          csrc = (if pn_chunk_src p \<noteq> [] then Some (pn_chunk_src p ! idx) else None);
          fsize = (case rq_file (pn_req p) of Some f \<Rightarrow> fi_size (fs f) | None \<Rightarrow> 0)
      in \<lparr>cr_chunk_id = cid,
          cr_file = (case csrc of None \<Rightarrow> rq_file (pn_req p) | Some s \<Rightarrow> pn_src_file p s),
          cr_file_off = ch_off ch, cr_bytes = ch_bytes ch,
          cr_min_bytes = ucast (min (ucast (ch_bytes ch)) (if fsize > ch_off ch then fsize - ch_off ch else 0)),
          cr_dst = rq_dst (pn_req p) + (ch_off ch - rq_file_off (pn_req p))\<rparr>)"

text \<open>
  One round of the loop of \<^verbatim>\<open>issue_ready_chunks\<close> up to the call of the backend: the next chunk of
  the head request is charged and handed to the submitter queue.
\<close>

definition issue_chunk :: "(file_handle \<Rightarrow> file_info) \<Rightarrow> nat \<Rightarrow> pending \<Rightarrow> io_engine \<Rightarrow> io_engine" where
  "issue_chunk fs rid p e =
     (let idx = pn_next p; ch = pn_chunks p ! idx; cid = io_next_chunk e; pr = rq_priority (pn_req p);
          csrc = (if pn_chunk_src p \<noteq> [] then Some (pn_chunk_src p ! idx) else None);
          ops = io_inflight_ops e + 1; class_ops = io_inflight_class e pr + 1;
          bytes = io_inflight_bytes e + unat (ch_bytes ch)
      in upd_stat (\<lambda>t. t\<lparr>is_chunks_submitted := is_chunks_submitted t + 1,
             is_p0_chunks_issued := (if pr = BlockingMiss then is_p0_chunks_issued t + 1 else is_p0_chunks_issued t),
             is_p0_qd_at_issue_sum := (if pr = BlockingMiss then is_p0_qd_at_issue_sum t + io_inflight_ops e
                                       else is_p0_qd_at_issue_sum t),
             is_p2_deadline_chunks := (if rescue e then is_p2_deadline_chunks t + 1 else is_p2_deadline_chunks t),
             is_peak_class := (is_peak_class t)(pr := max (is_peak_class t pr) class_ops),
             is_peak_ops := max (is_peak_ops t) ops, is_peak_bytes := max (is_peak_bytes t) bytes\<rparr>)
          (e\<lparr>io_pendings := (io_pendings e)(rid \<mapsto> p\<lparr>pn_next := idx + 1, pn_issued := pn_issued p + 1\<rparr>),
             io_next_chunk := cid + 1,
             io_chunk_owner := (io_chunk_owner e)(cid \<mapsto> \<lparr>fc_owner = rid, fc_bytes = ch_bytes ch, fc_src = csrc\<rparr>),
             io_inflight_class := (io_inflight_class e)(pr := class_ops),
             io_inflight_ops := ops, io_inflight_bytes := bytes,
             io_submit_q := io_submit_q e @ [chunk_request_of fs cid p idx]\<rparr>))"

definition pick_chunk :: "(file_handle \<Rightarrow> file_info) \<Rightarrow> int \<Rightarrow> io_engine \<Rightarrow> bool \<times> io_engine" where
  "pick_chunk fs now e0 =
     (let e = pop_issued e0 in
      case head_class e of
        None \<Rightarrow> (False, e)
      | Some cls \<Rightarrow>
          (case io_pendings e (hd (io_queues e cls)) of
             None \<Rightarrow> (False, e)
           | Some p \<Rightarrow>
               if io_inflight_ops e \<ge> qd_cap e cls then (False, e)
               else if io_inflight_bytes e \<ge> byte_cap e cls then (False, e)
               else if throttled e now cls then (False, e)
               else (True, issue_chunk fs (hd (io_queues e cls)) p e)))"

text \<open>\<^verbatim>\<open>do_submit\<close> on the head of the submitter queue; \<open>be\<close> is the backend's answer, an error or none.\<close>

definition do_submit :: "(chunk_request \<Rightarrow> err option) \<Rightarrow> io_engine \<Rightarrow> io_engine" where
  "do_submit be e =
     (case io_submit_q e of
        [] \<Rightarrow> e
      | cr # q \<Rightarrow>
          (case be cr of
             None \<Rightarrow> e\<lparr>io_submit_q := q, io_at_backend := cr_chunk_id cr # io_at_backend e\<rparr>
           | Some er \<Rightarrow> e\<lparr>io_submit_q := q,
               io_failed_q := io_failed_q e @ [\<lparr>cc_chunk_id = cr_chunk_id cr, cc_bytes_moved = 0, cc_status = er\<rparr>]\<rparr>))"

text \<open>The whole loop when the dispatcher submits inline, with a bound on its rounds.\<close>

fun issue_loop :: "nat \<Rightarrow> (file_handle \<Rightarrow> file_info) \<Rightarrow> (chunk_request \<Rightarrow> err option) \<Rightarrow> int \<Rightarrow> nat \<Rightarrow> io_engine \<Rightarrow> (nat \<times> io_engine) option" where
  "issue_loop 0 fs be now issued e = None"
| "issue_loop (Suc n) fs be now issued e =
     (case pick_chunk fs now e of
        (False, e') \<Rightarrow> Some (issued, e')
      | (True, e') \<Rightarrow> issue_loop n fs be now (issued + 1) (do_submit be e'))"

section \<open>Completions\<close>

definition kKeepAliveChunkBase :: nat where "kKeepAliveChunkBase = 2 ^ 62"
definition kKeepAliveBytes :: nat where "kKeepAliveBytes = 4096"

definition finish_keepalive :: "chunk_completion \<Rightarrow> int \<Rightarrow> io_engine \<Rightarrow> io_engine option" where
  "finish_keepalive c now e =
     (if cc_chunk_id c < kKeepAliveChunkBase then None
      else Some (upd_src (\<lambda>src.
        (case find (\<lambda>s. ka_chunk_id (sr_ka src s) = cc_chunk_id c) [0..<kMaxIoSources] of
           None \<Rightarrow> src
         | Some s \<Rightarrow> upd_source_stats s (\<lambda>t. if cc_status c = ErrOk then t\<lparr>ss_keepalive_done := ss_keepalive_done t + 1\<rparr>
                        else t\<lparr>ss_keepalive_refused := ss_keepalive_refused t + 1\<rparr>)
                      (src\<lparr>sr_ka := (sr_ka src)(s := (sr_ka src s)\<lparr>ka_chunk_id := 0\<rparr>),
                           sr_last_activity := (sr_last_activity src)(s := now)\<rparr>))
        \<lparr>sr_ka_inflight := sr_ka_inflight src - 1\<rparr>) e))"

text \<open>The bookkeeping of \<^verbatim>\<open>finish\<close> for the sources that served the request.\<close>

definition finish_routed :: "pending \<Rightarrow> nat \<Rightarrow> bool \<Rightarrow> int \<Rightarrow> sources \<Rightarrow> sources" where
  "finish_routed p moved ok now src =
     (let s = pn_source p; p0 = (rq_priority (pn_req p) = BlockingMiss);
          src = source_done s (unat (rq_bytes (pn_req p))) now src;
          src = upd_source_stats s (\<lambda>t. t\<lparr>ss_requests := ss_requests t + 1, ss_bytes := ss_bytes t + moved,
                  ss_p0_requests := (if p0 then ss_p0_requests t + 1 else ss_p0_requests t),
                  ss_p0_bytes := (if p0 then ss_p0_bytes t + moved else ss_p0_bytes t)\<rparr>) src
      in note_source_result s ok (src\<lparr>sr_last_activity := (sr_last_activity src)(s := now)\<rparr>))"

definition finish_share :: "pending \<Rightarrow> int \<Rightarrow> nat \<Rightarrow> sources \<Rightarrow> sources" where
  "finish_share p now s src =
     (if \<not> has_bit (pn_src_used p) s then src
      else let p0 = (rq_priority (pn_req p) = BlockingMiss); moved = pn_src_moved p s;
               src = source_done s (pn_src_charged p s) now src;
               src = upd_source_stats s (\<lambda>t. t\<lparr>ss_requests := ss_requests t + 1, ss_bytes := ss_bytes t + moved,
                       ss_p0_requests := (if p0 then ss_p0_requests t + 1 else ss_p0_requests t),
                       ss_p0_bytes := (if p0 then ss_p0_bytes t + moved else ss_p0_bytes t)\<rparr>) src
           in note_source_result s (\<not> has_bit (pn_src_err p) s) (src\<lparr>sr_last_activity := (sr_last_activity src)(s := now)\<rparr>))"

definition finish_sources :: "pending \<Rightarrow> nat \<Rightarrow> bool \<Rightarrow> int \<Rightarrow> sources \<Rightarrow> sources" where
  "finish_sources p moved ok now src =
     (if pn_routed p then finish_routed p moved ok now src
      else if pn_src_used p \<noteq> 0 then fold (finish_share p now) [0..<kMaxIoSources] src
      else src)"

definition count_failovers :: "pending \<Rightarrow> sources \<Rightarrow> sources" where
  "count_failovers p src =
     (let bump = (\<lambda>s. upd_source_stats s (\<lambda>t. t\<lparr>ss_failovers := ss_failovers t + 1\<rparr>)) in
      if pn_chunk_src p = [] then bump (pn_source p) src
      else fold (\<lambda>s src. if has_bit (pn_src_err p) s then bump s src else src) [1..<kMaxIoSources] src)"

text \<open>The request as it goes back to the queue against the primary.\<close>

definition failed_over :: "pending \<Rightarrow> pending" where
  "failed_over p = p\<lparr>pn_chunk_src := [], pn_src_used := 0, pn_src_err := 0, pn_src_moved := (\<lambda>_. 0),
     pn_src_charged := (if pn_routed p then pn_src_charged p
                        else (\<lambda>s. if has_bit (pn_src_used p) s \<and> s < kMaxIoSources then 0 else pn_src_charged p s)),
     pn_req := (pn_req p)\<lparr>rq_file := pn_primary p\<rparr>, pn_primary := None, pn_source := 0, pn_routed := False,
     pn_next := 0, pn_issued := 0, pn_done := 0, pn_moved := 0, pn_failed := False, pn_status := ErrOk\<rparr>"

definition finish :: "nat \<Rightarrow> pending \<Rightarrow> int \<Rightarrow> io_engine \<Rightarrow> io_engine" where
  "finish rid p now e =
     (let status = (if \<not> pn_failed p \<and> pn_moved p < pn_required p then Io else pn_status p);
          ok = (status = ErrOk);
          pr = rq_priority (pn_req p);
          e = upd_src (finish_sources p (pn_moved p) ok now) e;
          striped = pn_chunk_src p \<noteq> []
      in if pn_primary p \<noteq> None \<and> \<not> ok \<and> (\<not> striped \<or> pn_src_err p AND NOT 1 \<noteq> 0)
         then upd_src (count_failovers p)
                (e\<lparr>io_pendings := (io_pendings e)(rid \<mapsto> failed_over p),
                   io_queues := (io_queues e)(pr := rid # removeAll rid (io_queues e pr))\<rparr>)
         else let e = upd_stat (\<lambda>t. t\<lparr>is_completed := (if ok then is_completed t + 1 else is_completed t),
                    is_failed := (if ok then is_failed t else is_failed t + 1),
                    is_p2_requests := (if pr = Engram then is_p2_requests t + 1 else is_p2_requests t),
                    is_p0_requests := (if pr = BlockingMiss then is_p0_requests t + 1 else is_p0_requests t),
                    is_p0_bytes := (if pr = BlockingMiss then is_p0_bytes t + pn_moved p else is_p0_bytes t)\<rparr>) e;
                  e = answer \<lparr>rs_id = rid, rs_key = rq_key (pn_req p), rs_bytes_moved = pn_moved p, rs_status = status\<rparr> e
              in e\<lparr>io_outstanding := io_outstanding e - 1,
                   io_p0_outstanding := (if pr = BlockingMiss then io_p0_outstanding e - 1 else io_p0_outstanding e)\<rparr>)"

text \<open>A completed chunk folded into its request.\<close>

definition land_chunk :: "chunk_completion \<Rightarrow> inflight_chunk \<Rightarrow> pending \<Rightarrow> pending" where
  "land_chunk c fc p =
     (let ok = (cc_status c = ErrOk);
          p = p\<lparr>pn_done := pn_done p + 1, pn_moved := pn_moved p + unat (cc_bytes_moved c)\<rparr>;
          p = (if \<not> ok \<and> \<not> pn_failed p
               then p\<lparr>pn_failed := True, pn_status := cc_status c, pn_next := length (pn_chunks p)\<rparr> else p)
      in case fc_src fc of
           None \<Rightarrow> p
         | Some s \<Rightarrow> p\<lparr>pn_src_charged := (pn_src_charged p)(s := pn_src_charged p s - unat (fc_bytes fc)),
                       pn_src_moved := (pn_src_moved p)(s := pn_src_moved p s + unat (cc_bytes_moved c)),
                       pn_src_err := (if ok then pn_src_err p else with_bit (pn_src_err p) s)\<rparr>)"

definition land_source :: "inflight_chunk \<Rightarrow> pending \<Rightarrow> int \<Rightarrow> sources \<Rightarrow> sources" where
  "land_source fc p now src =
     (case fc_src fc of
        None \<Rightarrow> src
      | Some s \<Rightarrow> src\<lparr>sr_outstanding := (sr_outstanding src)(s := sr_outstanding src s - min (unat (fc_bytes fc)) (pn_src_charged p s)),
                      sr_last_activity := (sr_last_activity src)(s := now)\<rparr>)"

definition finished :: "pending \<Rightarrow> bool" where
  "finished p \<longleftrightarrow> pn_done p = pn_issued p \<and> pn_next p = length (pn_chunks p)"

definition handle_completion :: "chunk_completion \<Rightarrow> int \<Rightarrow> io_engine \<Rightarrow> io_engine" where
  "handle_completion c now e =
     (case finish_keepalive c now e of
        Some e' \<Rightarrow> e'
      | None \<Rightarrow>
          (case io_chunk_owner e (cc_chunk_id c) of
             None \<Rightarrow> e
           | Some fc \<Rightarrow>
               (case io_pendings e (fc_owner fc) of
                  None \<Rightarrow> e
                | Some p \<Rightarrow>
                    let pr = rq_priority (pn_req p); p' = land_chunk c fc p;
                        e = upd_src (land_source fc p now)
                          (e\<lparr>io_chunk_owner := (io_chunk_owner e)(cc_chunk_id c := None),
                             io_pendings := (io_pendings e)(fc_owner fc \<mapsto> p'),
                             io_inflight_ops := io_inflight_ops e - 1,
                             io_inflight_bytes := io_inflight_bytes e - unat (fc_bytes fc),
                             io_inflight_class := (io_inflight_class e)(pr := io_inflight_class e pr - 1)\<rparr>);
                        e = upd_stat (\<lambda>t. t\<lparr>is_chunks_completed := is_chunks_completed t + 1,
                              is_bytes_completed := is_bytes_completed t + unat (cc_bytes_moved c)\<rparr>) e
                    in if finished p' then finish (fc_owner fc) p' now e else e)))"

section \<open>Keep-alive reads\<close>

text \<open>One source of the loop of \<^verbatim>\<open>tick_keepalive\<close>.\<close>

definition keepalive_offset :: "file_info \<Rightarrow> nat \<Rightarrow> nat" where
  "keepalive_offset fi cursor =
     (let span = unat (fi_size fi) - kKeepAliveBytes; x = (cursor * 2 ^ 20) mod (if span \<noteq> 0 then span else 1)
      in x - x mod unat kPageSize)"

definition poke_source :: "(file_handle \<Rightarrow> file_info) \<Rightarrow> (chunk_request \<Rightarrow> err option) \<Rightarrow> int \<Rightarrow> nat \<Rightarrow> sources \<Rightarrow> sources" where
  "poke_source fs be now s src =
     (let k = sr_ka src s;
          st = \<lparr>ks_has_file = (case ka_file k of None \<Rightarrow> False | Some f \<Rightarrow> fi_open (fs f)),
                ks_dropped = is_dropped (sr_health src) s,
                ks_probe_inflight = (ka_chunk_id k \<noteq> 0),
                ks_real_inflight = sr_inflight src s,
                ks_last_activity_ns = sr_last_activity src s\<rparr>
      in case ka_file k of
           None \<Rightarrow> src
         | Some f \<Rightarrow>
             if \<not> keepalive_due st now (sr_ka_idle_ns src) then src
             else let cid = kKeepAliveChunkBase OR (s * 2 ^ 56) OR (ka_cursor k + 1);
                      cr = \<lparr>cr_chunk_id = cid, cr_file = Some f, cr_file_off = of_nat (keepalive_offset (fs f) (ka_cursor k)),
                            cr_bytes = of_nat kKeepAliveBytes, cr_min_bytes = of_nat kKeepAliveBytes, cr_dst = 0\<rparr>;
                      src1 = src\<lparr>sr_ka := (sr_ka src)(s := k\<lparr>ka_cursor := ka_cursor k + 1, ka_chunk_id := cid\<rparr>)\<rparr>
                  in (case be cr of
                        None \<Rightarrow> upd_source_stats s (\<lambda>t. t\<lparr>ss_keepalive_reads := ss_keepalive_reads t + 1\<rparr>)
                                  (src1\<lparr>sr_ka_inflight := sr_ka_inflight src + 1\<rparr>)
                      | Some _ \<Rightarrow> upd_source_stats s (\<lambda>t. t\<lparr>ss_keepalive_refused := ss_keepalive_refused t + 1\<rparr>)
                                    (src1\<lparr>sr_ka := (sr_ka src1)(s := (sr_ka src1 s)\<lparr>ka_chunk_id := 0\<rparr>)\<rparr>)))"

definition tick_keepalive :: "(file_handle \<Rightarrow> file_info) \<Rightarrow> (chunk_request \<Rightarrow> err option) \<Rightarrow> int \<Rightarrow> sources \<Rightarrow> sources" where
  "tick_keepalive fs be now src =
     (if sr_ka_idle_ns src \<le> 0 \<or> \<not> sr_mirrors_on src then src
      else fold (poke_source fs be now) [1..<min kMaxIoSources (length (sr_roots src))] src)"

section \<open>The set of sources\<close>

definition kDefaultRouteClasses :: u32 where
  "kDefaultRouteClasses = push_bit (io_priority_ord BlockingMiss) 1 OR push_bit (io_priority_ord Backfill) 1"

text \<open>\<open>sensor root\<close> is the reading of the drive's temperature sensor, if it has one.\<close>

definition set_sources :: "(string \<Rightarrow> int option) \<Rightarrow> io_overrides \<Rightarrow> string list \<Rightarrow> real list \<Rightarrow> int \<Rightarrow> sources \<Rightarrow> sources" where
  "set_sources sensor ov roots weights now src =
     (let rs = take kMaxIoSources roots;
          on = (length rs > 1);
          hot = ov_mirror_hot_c ov;
          watched = (\<lambda>i. i \<noteq> 0 \<and> i < length rs \<and> on \<and> hot > 0);
          sensed = (\<lambda>i. if watched i then sensor (rs ! i) else None)
      in src\<lparr>sr_roots := rs,
             sr_weights := map (\<lambda>i. if i < length weights \<and> weights ! i > 0 then weights ! i else 1) [0..<length rs],
             sr_health := source_health_new (ov_source_error_budget ov),
             sr_outstanding := (\<lambda>_. 0), sr_inflight := (\<lambda>_. 0),
             sr_stats := (\<lambda>i. case sensed i of None \<Rightarrow> source_stats_zero
                                | Some t \<Rightarrow> source_stats_zero\<lparr>ss_temp_c := t, ss_temp_max_c := t\<rparr>),
             sr_mirrors_on := on,
             sr_ka_idle_ns := (if on then ov_keepalive_ms ov * 1000000 else 0),
             sr_static_split := ov_static_split ov,
             sr_stripe := (on \<and> ov_stripe ov),
             sr_ka := (\<lambda>_. \<lparr>ka_file = None, ka_chunk_id = 0, ka_cursor = 0\<rparr>),
             sr_static_bytes := (\<lambda>_. 0),
             sr_last_activity := (\<lambda>_. now), sr_idle_since := (\<lambda>_. now),
             sr_route_classes := value_or (ov_route_classes ov) kDefaultRouteClasses,
             sr_thermal := \<lparr>tg_hot_c = hot, tg_cool_c = hot - kMirrorCoolDropC, tg_resting = 0\<rparr>,
             sr_sensor := (\<lambda>i. sensed i \<noteq> None)\<rparr>)"

definition set_stripe :: "bool \<Rightarrow> sources \<Rightarrow> sources" where
  "set_stripe on src = src\<lparr>sr_stripe := (on \<and> sr_mirrors_on src)\<rparr>"

fun row_set :: "(file_handle \<times> (nat \<Rightarrow> file_handle option)) list \<Rightarrow> file_handle \<Rightarrow> nat \<Rightarrow> file_handle
    \<Rightarrow> (file_handle \<times> (nat \<Rightarrow> file_handle option)) list" where
  "row_set [] primary s alt = [(primary, (\<lambda>_. None)(0 := Some primary, s := Some alt))]"
| "row_set ((f, row) # rows) primary s alt =
     (if f = primary then (f, row(0 := Some primary, s := Some alt)) # rows else (f, row) # row_set rows primary s alt)"

definition add_mirror :: "(file_handle \<Rightarrow> file_info) \<Rightarrow> file_handle option \<Rightarrow> nat \<Rightarrow> file_handle option \<Rightarrow> sources \<Rightarrow> unit result \<times> sources" where
  "add_mirror fs primary s alt src =
     (case (primary, alt) of
        (Some p, Some a) \<Rightarrow>
          if s = 0 \<or> s \<ge> kMaxIoSources then (Inl OutOfRange, src)
          else if \<not> fi_open (fs a) then (Inl InvalidArgument, src)
          else if fi_size (fs a) \<noteq> fi_size (fs p) then (Inl Corrupt, src)
          else if fi_unbuffered (fs a) \<noteq> fi_unbuffered (fs p) then (Inl FailedPrecondition, src)
          else let src = (if ka_file (sr_ka src s) = None \<and> unat (fi_size (fs a)) > kKeepAliveBytes
                          then src\<lparr>sr_ka := (sr_ka src)(s := (sr_ka src s)\<lparr>ka_file := Some a\<rparr>)\<rparr> else src)
               in (Inr (), src\<lparr>sr_alts := row_set (sr_alts src) p s a\<rparr>)
      | _ \<Rightarrow> (Inl InvalidArgument, src))"

definition drop_source :: "nat \<Rightarrow> sources \<Rightarrow> sources" where
  "drop_source s src =
     (if s = 0 \<or> s \<ge> kMaxIoSources \<or> is_dropped (sr_health src) s then src
      else upd_source_stats s (\<lambda>t. t\<lparr>ss_dropped := True\<rparr>) (src\<lparr>sr_health := health_drop s (sr_health src)\<rparr>))"

definition live_source_count :: "sources \<Rightarrow> nat" where
  "live_source_count src =
     (let n = length (filter (\<lambda>i. \<not> is_dropped (sr_health src) i) [0..<length (sr_roots src)]) in if n \<noteq> 0 then n else 1)"

definition source_resting :: "sources \<Rightarrow> nat \<Rightarrow> bool" where
  "source_resting src s \<longleftrightarrow> s < kMaxIoSources \<and> has_bit (tg_resting (sr_thermal src)) s"

text \<open>
  \<open>probe primary mirror\<close> stands for reopening the mirror's handle and comparing a page in the middle
  of the file with the primary's.
\<close>

fun probe_all :: "(file_handle \<Rightarrow> file_handle \<Rightarrow> unit result) \<Rightarrow> (file_handle \<times> file_handle) list \<Rightarrow> unit result" where
  "probe_all probe [] = Inr ()"
| "probe_all probe ((p, f) # shards) = rbind (probe p f) (\<lambda>_. probe_all probe shards)"

definition mirrored_shards :: "nat \<Rightarrow> sources \<Rightarrow> (file_handle \<times> file_handle) list" where
  "mirrored_shards s src = concat (map (\<lambda>(p, row). case row s of None \<Rightarrow> [] | Some f \<Rightarrow> [(p, f)]) (sr_alts src))"

definition readmit_source :: "(file_handle \<Rightarrow> file_handle \<Rightarrow> unit result) \<Rightarrow> nat \<Rightarrow> sources \<Rightarrow> unit result \<times> sources" where
  "readmit_source probe s src =
     (if s = 0 \<or> s \<ge> length (sr_roots src) \<or> \<not> is_dropped (sr_health src) s then (Inl FailedPrecondition, src)
      else if sr_inflight src s \<noteq> 0 then (Inl FailedPrecondition, src)
      else if mirrored_shards s src = [] then (Inl NotFound, src)
      else case probe_all probe (mirrored_shards s src) of
             Inl er \<Rightarrow> (Inl er, src)
           | Inr _ \<Rightarrow> (Inr (), upd_source_stats s (\<lambda>t. t\<lparr>ss_dropped := False, ss_readmits := ss_readmits t + 1\<rparr>)
                                 (src\<lparr>sr_health := health_readmit s (sr_health src)\<rparr>)))"

definition kReadmitFirstNs :: int where "kReadmitFirstNs = 10000000000"
definition kReadmitMaxNs :: int where "kReadmitMaxNs = 600000000000"

record mirror_watch_state =
  mw_retry_at :: "nat \<Rightarrow> int"
  mw_backoff :: "nat \<Rightarrow> int"

definition next_backoff :: "int \<Rightarrow> int" where
  "next_backoff b = (if b \<noteq> 0 then min (b * 2) kReadmitMaxNs else kReadmitFirstNs)"

definition feel_source :: "int option \<Rightarrow> nat \<Rightarrow> sources \<Rightarrow> sources" where
  "feel_source reading s src =
     (case reading of
        None \<Rightarrow> src
      | Some t \<Rightarrow>
          if \<not> sr_sensor src s \<or> t < 0 then src
          else let (changed, g) = thermal_update s t (sr_thermal src); resting = has_bit (tg_resting g) s in
               upd_source_stats s (\<lambda>st. st\<lparr>ss_temp_c := t, ss_temp_max_c := max (ss_temp_max_c st) t, ss_resting := resting,
                   ss_rests := (if changed \<and> resting then ss_rests st + 1 else ss_rests st)\<rparr>)
                 (src\<lparr>sr_thermal := g\<rparr>))"

text \<open>One source of one turn of \<^verbatim>\<open>mirror_watch\<close>; \<open>reading\<close> is what the sensor says, if it is there.\<close>

definition watch_source :: "(file_handle \<Rightarrow> file_handle \<Rightarrow> unit result) \<Rightarrow> (string \<Rightarrow> int option) \<Rightarrow> int \<Rightarrow> nat
    \<Rightarrow> mirror_watch_state \<times> sources \<Rightarrow> mirror_watch_state \<times> sources" where
  "watch_source probe sensor now s = (\<lambda>(w, src).
     let wait = (\<lambda>w. w\<lparr>mw_backoff := (mw_backoff w)(s := next_backoff (mw_backoff w s)),
                       mw_retry_at := (mw_retry_at w)(s := now + next_backoff (mw_backoff w s))\<rparr>)
     in if is_dropped (sr_health src) s
        then if mw_retry_at w s \<noteq> 0 \<and> now < mw_retry_at w s then (w, src)
             else if mw_retry_at w s \<noteq> 0
             then (case readmit_source probe s src of
                     (Inr _, src') \<Rightarrow>
                       (w\<lparr>mw_retry_at := (mw_retry_at w)(s := 0)\<rparr>,
                        if tg_hot_c (sr_thermal src') > 0
                        then src'\<lparr>sr_sensor := (sr_sensor src')(s := sensor (sr_roots src' ! s) \<noteq> None)\<rparr> else src')
                   | (Inl _, src') \<Rightarrow> (wait w, src'))
             else (wait w, src)
        else (w\<lparr>mw_retry_at := (mw_retry_at w)(s := 0)\<rparr>, feel_source (sensor (sr_roots src ! s)) s src))"

section \<open>Starting, stopping, tuning\<close>

definition clamp :: "u32 \<Rightarrow> u32 \<Rightarrow> u32" where
  "clamp v hi = (if v > hi then hi else v)"

definition io_start :: "backend_caps option \<Rightarrow> io_config \<Rightarrow> io_overrides \<Rightarrow> io_engine \<Rightarrow> unit result \<times> io_engine" where
  "io_start backend cfg ov e =
     (if io_running e then (Inl FailedPrecondition, e)
      else case backend of
        None \<Rightarrow> (Inl InvalidArgument, e)
      | Some caps \<Rightarrow>
          let cfg = cfg\<lparr>ic_chunk_bytes := clamp (ic_chunk_bytes cfg) (bc_max_chunk_bytes caps),
                        ic_max_inflight_ops := clamp (ic_max_inflight_ops cfg) (bc_max_queue_depth caps)\<rparr>;
              t = resolve_tuning cfg ov;
              bg_chunk = (if tn_p0_chunk_bytes t > ic_chunk_bytes default_io_config
                             \<and> ic_chunk_bytes cfg > ic_chunk_bytes default_io_config
                          then ic_chunk_bytes default_io_config else ic_chunk_bytes cfg);
              t = t\<lparr>tn_p0_qd := clamp (tn_p0_qd t) (bc_max_queue_depth caps),
                    tn_engram_qd := clamp (tn_engram_qd t) (bc_max_queue_depth caps),
                    tn_p0_chunk_bytes := clamp (tn_p0_chunk_bytes t) (bc_max_chunk_bytes caps)\<rparr>
          in (Inr (), e\<lparr>io_running := True, io_caps := caps, io_tune := t, io_bg_chunk_bytes := bg_chunk,
                       io_p0_qd_tuned := tn_p0_qd t, io_p0_inflight_tuned := tn_p0_inflight_bytes t\<rparr>))"

text \<open>\<^verbatim>\<open>stop\<close> up to the join of the dispatcher, which runs until nothing is outstanding.\<close>

definition io_stop :: "io_engine \<Rightarrow> io_engine" where
  "io_stop e = (if \<not> io_running e then e else upd_src (\<lambda>src. src\<lparr>sr_ka_idle_ns := 0\<rparr>) (e\<lparr>io_running := False\<rparr>))"

definition set_p0_depth :: "u32 \<Rightarrow> u64 \<Rightarrow> io_engine \<Rightarrow> io_engine" where
  "set_p0_depth qd bytes e =
     e\<lparr>io_tune := (io_tune e)\<lparr>tn_p0_qd := clamp (if qd \<noteq> 0 then qd else io_p0_qd_tuned e) (bc_max_queue_depth (io_caps e)),
         tn_p0_inflight_bytes := (if bytes \<noteq> 0 then bytes else io_p0_inflight_tuned e)\<rparr>\<rparr>"

definition set_engram_wait_priority :: "bool \<Rightarrow> io_engine \<Rightarrow> io_engine" where
  "set_engram_wait_priority enabled e = e\<lparr>io_engram_wait_priority := enabled\<rparr>"

text \<open>The scope \<^verbatim>\<open>EngramWait\<close>: its constructor, which says whether it counts, and its destructor.\<close>

definition engram_wait :: "io_engine \<Rightarrow> bool \<times> io_engine" where
  "engram_wait e = (if io_engram_wait_priority e then (True, e\<lparr>io_engram_waiters := io_engram_waiters e + 1\<rparr>) else (False, e))"

definition engram_wait_over :: "bool \<Rightarrow> io_engine \<Rightarrow> io_engine" where
  "engram_wait_over counted e = (if counted then e\<lparr>io_engram_waiters := io_engram_waiters e - 1\<rparr> else e)"

text \<open>The condition \<^verbatim>\<open>drain\<close> waits for.\<close>

definition drained :: "io_engine \<Rightarrow> bool" where
  "drained e \<longleftrightarrow> io_outstanding e = 0 \<or> \<not> io_running e"

definition reset_source_stats :: "source_stats \<Rightarrow> source_stats" where
  "reset_source_stats t = source_stats_zero\<lparr>ss_errors := ss_errors t, ss_dropped := ss_dropped t, ss_readmits := ss_readmits t,
     ss_failovers := ss_failovers t, ss_temp_c := ss_temp_c t, ss_temp_max_c := ss_temp_c t, ss_resting := ss_resting t\<rparr>"

definition io_reset_stats :: "io_engine \<Rightarrow> io_engine" where
  "io_reset_stats e =
     upd_src (\<lambda>src. src\<lparr>sr_stats := (\<lambda>i. if i < length (sr_roots src) then reset_source_stats (sr_stats src i) else sr_stats src i)\<rparr>)
       (e\<lparr>io_stat := io_stats_zero\<rparr>)"

section \<open>The dispatcher\<close>

definition remaining :: "io_engine \<Rightarrow> nat \<Rightarrow> nat" where
  "remaining e rid = (case io_pendings e rid of None \<Rightarrow> 0 | Some p \<Rightarrow> length (pn_chunks p) - pn_next p)"

text \<open>The loop cannot issue more chunks than the queued requests have left.\<close>

definition issue_bound :: "io_engine \<Rightarrow> nat" where
  "issue_bound e = Suc (sum_list (map (remaining e) (concat (map (io_queues e) all_classes))))"

definition issue_ready_chunks :: "(file_handle \<Rightarrow> file_info) \<Rightarrow> (chunk_request \<Rightarrow> err option) \<Rightarrow> int \<Rightarrow> io_engine \<Rightarrow> nat \<times> io_engine" where
  "issue_ready_chunks fs be now e = (case issue_loop (issue_bound e) fs be now 0 e of Some r \<Rightarrow> r | None \<Rightarrow> (0, e))"

definition drain_failed :: "int \<Rightarrow> io_engine \<Rightarrow> io_engine" where
  "drain_failed now e = fold (\<lambda>c. handle_completion c now) (io_failed_q e) (e\<lparr>io_failed_q := []\<rparr>)"

text \<open>One completion that \<^verbatim>\<open>poll\<close> returned: the backend is done with the chunk.\<close>

definition reap :: "chunk_completion \<Rightarrow> int \<Rightarrow> io_engine \<Rightarrow> io_engine" where
  "reap c now e = handle_completion c now (e\<lparr>io_at_backend := remove1 (cc_chunk_id c) (io_at_backend e)\<rparr>)"

text \<open>
  One turn of \<^verbatim>\<open>dispatcher\<close>, \<open>comps\<close> being what \<^verbatim>\<open>poll\<close> returns, nothing if it fails. It is called
  only while something is at the backend.
\<close>

definition dispatcher_turn :: "(file_handle \<Rightarrow> file_info) \<Rightarrow> (chunk_request \<Rightarrow> err option) \<Rightarrow> int \<Rightarrow> chunk_completion list
    \<Rightarrow> io_engine \<Rightarrow> io_engine" where
  "dispatcher_turn fs be now comps e =
     (let e = snd (issue_ready_chunks fs be now e);
          e = drain_failed now e;
          e = upd_src (tick_keepalive fs be now) e
      in if io_inflight_ops e > 0 \<or> sr_ka_inflight (io_src e) > 0 then fold (\<lambda>c. reap c now) comps e else e)"

text \<open>\<^verbatim>\<open>dispatcher\<close> leaves its loop: it was asked to stop and nothing is outstanding.\<close>

definition dispatcher_exits :: "io_engine \<Rightarrow> bool" where
  "dispatcher_exits e \<longleftrightarrow> \<not> io_running e \<and> io_outstanding e = 0 \<and> sr_ka_inflight (io_src e) = 0"

end
