(* ===== verification/Io_Engine_Inv.thy ===== *)
theory Io_Engine_Inv
  imports Io_Engine
begin

text \<open>
  The invariant of the read engine, over the components of its state: every queued request has its
  chunks accounted for, the in-flight counters count the chunks that were handed out, each of those
  chunks is in exactly one place, and every request that was accepted is either still live or has
  been answered once. Each part is a predicate on the components it reads, so that an operation is
  checked against the parts it touches.
\<close>

section \<open>The parts of the invariant\<close>

definition chunks_of :: "(nat \<Rightarrow> inflight_chunk option) \<Rightarrow> nat \<Rightarrow> nat set" where
  "chunks_of own rid = {cid. \<exists>fc. own cid = Some fc \<and> fc_owner fc = rid}"

definition req_ok :: "pending \<Rightarrow> nat \<Rightarrow> bool" where
  "req_ok p k \<longleftrightarrow> pn_chunks p \<noteq> [] \<and> pn_done p + k = pn_issued p \<and> pn_issued p \<le> pn_next p
     \<and> pn_next p \<le> length (pn_chunks p)
     \<and> (if pn_failed p then pn_next p = length (pn_chunks p) else pn_issued p = pn_next p)"

definition reqs_ok :: "(nat \<Rightarrow> pending option) \<Rightarrow> (nat \<Rightarrow> inflight_chunk option) \<Rightarrow> nat \<Rightarrow> bool" where
  "reqs_ok pend own n \<longleftrightarrow> finite (dom pend) \<and> 1 \<le> n
     \<and> (\<forall>rid p. pend rid = Some p \<longrightarrow> 1 \<le> rid \<and> rid < n \<and> req_ok p (card (chunks_of own rid)))"

definition class_of :: "pending \<Rightarrow> io_priority" where
  "class_of p = rq_priority (pn_req p)"

definition queues_ok :: "(nat \<Rightarrow> pending option) \<Rightarrow> (io_priority \<Rightarrow> nat list) \<Rightarrow> bool" where
  "queues_ok pend qs \<longleftrightarrow>
     (\<forall>pr. distinct (qs pr) \<and> (\<forall>rid \<in> set (qs pr). \<exists>p. pend rid = Some p \<and> class_of p = pr))
     \<and> (\<forall>rid p. pend rid = Some p \<and> pn_next p < length (pn_chunks p) \<longrightarrow> rid \<in> set (qs (class_of p)))"

definition owners_ok :: "(nat \<Rightarrow> pending option) \<Rightarrow> (nat \<Rightarrow> inflight_chunk option) \<Rightarrow> nat \<Rightarrow> bool" where
  "owners_ok pend own m \<longleftrightarrow> finite (dom own) \<and> m \<le> kKeepAliveChunkBase
     \<and> (\<forall>cid fc. own cid = Some fc \<longrightarrow> cid < m \<and> pend (fc_owner fc) \<noteq> None)"

definition chunk_class :: "(nat \<Rightarrow> pending option) \<Rightarrow> inflight_chunk option \<Rightarrow> io_priority option" where
  "chunk_class pend c = (case c of None \<Rightarrow> None | Some fc \<Rightarrow> map_option class_of (pend (fc_owner fc)))"

definition counts_ok :: "(nat \<Rightarrow> pending option) \<Rightarrow> (nat \<Rightarrow> inflight_chunk option) \<Rightarrow> nat \<Rightarrow> nat \<Rightarrow> (io_priority \<Rightarrow> nat) \<Rightarrow> bool" where
  "counts_ok pend own ops bytes cls \<longleftrightarrow> ops = card (dom own)
     \<and> bytes = (\<Sum>cid \<in> dom own. unat (fc_bytes (the (own cid))))
     \<and> (\<forall>pr. cls pr = card {cid. chunk_class pend (own cid) = Some pr})"

definition places_ok :: "(nat \<Rightarrow> inflight_chunk option) \<Rightarrow> chunk_request list \<Rightarrow> chunk_completion list \<Rightarrow> nat list \<Rightarrow> bool" where
  "places_ok own sq fq ab \<longleftrightarrow> mset (map cr_chunk_id sq) + mset (map cc_chunk_id fq) + mset ab = mset_set (dom own)"

definition live :: "(nat \<Rightarrow> pending option) \<Rightarrow> nat set" where
  "live pend = {rid. \<exists>p. pend rid = Some p \<and> \<not> finished p}"

text \<open>The requests in \<open>L\<close> wait for their answer; every other accepted one has been answered once.\<close>

definition accounts_ok :: "nat \<Rightarrow> nat \<Rightarrow> io_result list \<Rightarrow> nat set \<Rightarrow> bool" where
  "accounts_ok n outst cbs L \<longleftrightarrow> L \<subseteq> {1..<n} \<and> outst = card L
     \<and> distinct (map rs_id cbs) \<and> set (map rs_id cbs) = {1..<n} - L"

definition io_core :: "io_engine \<Rightarrow> bool" where
  "io_core e \<longleftrightarrow> reqs_ok (io_pendings e) (io_chunk_owner e) (io_next_request e)
     \<and> queues_ok (io_pendings e) (io_queues e)
     \<and> owners_ok (io_pendings e) (io_chunk_owner e) (io_next_chunk e)
     \<and> counts_ok (io_pendings e) (io_chunk_owner e) (io_inflight_ops e) (io_inflight_bytes e) (io_inflight_class e)"

definition io_inv :: "io_engine \<Rightarrow> bool" where
  "io_inv e \<longleftrightarrow> io_core e
     \<and> places_ok (io_chunk_owner e) (io_submit_q e) (io_failed_q e) (io_at_backend e)
     \<and> accounts_ok (io_next_request e) (io_outstanding e) (io_callbacks e) (live (io_pendings e))
     \<and> tn_p0_chunk_bytes (io_tune e) \<noteq> 0 \<and> io_bg_chunk_bytes e \<noteq> 0"

lemma io_invD:
  assumes "io_inv e"
  shows "reqs_ok (io_pendings e) (io_chunk_owner e) (io_next_request e)"
    "queues_ok (io_pendings e) (io_queues e)"
    "owners_ok (io_pendings e) (io_chunk_owner e) (io_next_chunk e)"
    "counts_ok (io_pendings e) (io_chunk_owner e) (io_inflight_ops e) (io_inflight_bytes e) (io_inflight_class e)"
    "places_ok (io_chunk_owner e) (io_submit_q e) (io_failed_q e) (io_at_backend e)"
    "accounts_ok (io_next_request e) (io_outstanding e) (io_callbacks e) (live (io_pendings e))"
    "tn_p0_chunk_bytes (io_tune e) \<noteq> 0" "io_bg_chunk_bytes e \<noteq> 0"
  using assms by (simp_all add: io_inv_def io_core_def)

lemma upd_simps [simp]:
  "io_pendings (upd_src f e) = io_pendings e" "io_queues (upd_src f e) = io_queues e"
  "io_chunk_owner (upd_src f e) = io_chunk_owner e" "io_next_request (upd_src f e) = io_next_request e"
  "io_next_chunk (upd_src f e) = io_next_chunk e" "io_outstanding (upd_src f e) = io_outstanding e"
  "io_inflight_ops (upd_src f e) = io_inflight_ops e" "io_inflight_bytes (upd_src f e) = io_inflight_bytes e"
  "io_inflight_class (upd_src f e) = io_inflight_class e" "io_submit_q (upd_src f e) = io_submit_q e"
  "io_failed_q (upd_src f e) = io_failed_q e" "io_at_backend (upd_src f e) = io_at_backend e"
  "io_callbacks (upd_src f e) = io_callbacks e" "io_tune (upd_src f e) = io_tune e"
  "io_bg_chunk_bytes (upd_src f e) = io_bg_chunk_bytes e" "io_src (upd_src f e) = f (io_src e)"
  "io_caps (upd_src f e) = io_caps e" "io_running (upd_src f e) = io_running e"
  "io_pendings (upd_stat g e) = io_pendings e" "io_queues (upd_stat g e) = io_queues e"
  "io_chunk_owner (upd_stat g e) = io_chunk_owner e" "io_next_request (upd_stat g e) = io_next_request e"
  "io_next_chunk (upd_stat g e) = io_next_chunk e" "io_outstanding (upd_stat g e) = io_outstanding e"
  "io_inflight_ops (upd_stat g e) = io_inflight_ops e" "io_inflight_bytes (upd_stat g e) = io_inflight_bytes e"
  "io_inflight_class (upd_stat g e) = io_inflight_class e" "io_submit_q (upd_stat g e) = io_submit_q e"
  "io_failed_q (upd_stat g e) = io_failed_q e" "io_at_backend (upd_stat g e) = io_at_backend e"
  "io_callbacks (upd_stat g e) = io_callbacks e" "io_tune (upd_stat g e) = io_tune e"
  "io_bg_chunk_bytes (upd_stat g e) = io_bg_chunk_bytes e" "io_src (upd_stat g e) = io_src e"
  "io_caps (upd_stat g e) = io_caps e" "io_running (upd_stat g e) = io_running e"
  by (simp_all add: upd_src_def upd_stat_def)

lemma queue_class: "queues_ok pend qs \<Longrightarrow> rid \<in> set (qs pr) \<Longrightarrow> pend rid = Some p \<Longrightarrow> class_of p = pr"
  by (fastforce simp: queues_ok_def)

section \<open>Accepting a request\<close>

definition fresh_pending :: "pending \<Rightarrow> bool" where
  "fresh_pending p \<longleftrightarrow> pn_chunks p \<noteq> [] \<and> pn_next p = 0 \<and> pn_issued p = 0 \<and> pn_done p = 0 \<and> \<not> pn_failed p"

lemma no_chunks_of_new: "owners_ok pend own m \<Longrightarrow> pend rid = None \<Longrightarrow> chunks_of own rid = {}"
  by (fastforce simp: owners_ok_def chunks_of_def)

lemma fresh_id: "reqs_ok pend own n \<Longrightarrow> pend n = None"
  unfolding reqs_ok_def by (cases "pend n") auto

lemma enqueue_reqs:
  assumes "reqs_ok pend own n" "owners_ok pend own m" "fresh_pending p"
  shows "reqs_ok (pend(n \<mapsto> p)) own (n + 1)"
  using assms no_chunks_of_new [OF assms(2) fresh_id [OF assms(1)]]
  by (fastforce simp: reqs_ok_def fresh_pending_def req_ok_def)

lemma enqueue_queues:
  assumes "queues_ok pend qs" "pend n = None"
  shows "queues_ok (pend(n \<mapsto> p)) (qs(class_of p := qs (class_of p) @ [n]))"
proof -
  have "n \<notin> set (qs pr)" for pr using assms by (fastforce simp: queues_ok_def)
  then show ?thesis using assms by (fastforce simp: queues_ok_def)
qed

lemma chunk_class_upd:
  assumes "owners_ok pend own m" "pend n = None \<or> (\<exists>q. pend n = Some q \<and> class_of q = class_of p)"
  shows "chunk_class (pend(n \<mapsto> p)) (own cid) = chunk_class pend (own cid)"
proof (cases "own cid")
  case (Some fc)
  then have "pend (fc_owner fc) \<noteq> None" using assms(1) by (simp add: owners_ok_def)
  then show ?thesis using Some assms(2) by (auto simp: chunk_class_def)
qed (simp add: chunk_class_def)

lemma counts_upd:
  assumes "counts_ok pend own ops bytes cls" "owners_ok pend own m"
    "pend n = None \<or> (\<exists>q. pend n = Some q \<and> class_of q = class_of p)"
  shows "counts_ok (pend(n \<mapsto> p)) own ops bytes cls"
  using assms(1) by (simp add: counts_ok_def chunk_class_upd [OF assms(2,3)])

lemma owners_upd: "owners_ok pend own m \<Longrightarrow> owners_ok (pend(n \<mapsto> p)) own m"
  by (simp add: owners_ok_def)

lemma live_enqueue: "pend n = None \<Longrightarrow> fresh_pending p \<Longrightarrow> live (pend(n \<mapsto> p)) = insert n (live pend)"
  by (auto simp: live_def finished_def fresh_pending_def)

lemma accounts_enqueue:
  assumes "accounts_ok n outst cbs L" "1 \<le> n"
  shows "accounts_ok (n + 1) (outst + 1) cbs (insert n L)"
proof -
  have L: "L \<subseteq> {1..<n}" "finite L" using assms by (auto simp: accounts_ok_def intro: finite_subset)
  have "n \<notin> L" using L by auto
  moreover have "{1..<n + 1} - insert n L = {1..<n} - L" using assms(2) by auto
  ultimately show ?thesis using assms L by (auto simp: accounts_ok_def)
qed

lemma enqueue_inv:
  assumes "io_inv e" "fresh_pending p"
  shows "io_inv (enqueue p now e)"
proof -
  note i = io_invD [OF assms(1)]
  define n where "n = io_next_request e"
  have n: "io_pendings e n = None" unfolding n_def by (rule fresh_id [OF i(1)])
  have one: "1 \<le> n" using i(1) by (simp add: reqs_ok_def n_def)
  let ?e = "enqueue p now e"
  have f: "io_pendings ?e = (io_pendings e)(n \<mapsto> p)" "io_next_request ?e = n + 1"
    "io_queues ?e = (io_queues e)(class_of p := io_queues e (class_of p) @ [n])"
    "io_outstanding ?e = io_outstanding e + 1" "io_chunk_owner ?e = io_chunk_owner e" "io_next_chunk ?e = io_next_chunk e"
    "io_inflight_ops ?e = io_inflight_ops e" "io_inflight_bytes ?e = io_inflight_bytes e"
    "io_inflight_class ?e = io_inflight_class e" "io_submit_q ?e = io_submit_q e" "io_failed_q ?e = io_failed_q e"
    "io_at_backend ?e = io_at_backend e" "io_callbacks ?e = io_callbacks e" "io_tune ?e = io_tune e"
    "io_bg_chunk_bytes ?e = io_bg_chunk_bytes e"
    by (simp_all add: enqueue_def Let_def n_def class_of_def)
  show ?thesis
    unfolding io_inv_def io_core_def f
    using enqueue_reqs [OF i(1,3) assms(2)] enqueue_queues [OF i(2) n] owners_upd [OF i(3)]
      counts_upd [OF i(4,3) disjI1 [OF n]] i(5,7,8) accounts_enqueue [OF i(6)] one live_enqueue [of "io_pendings e" n p, OF n assms(2)]
    by (simp add: n_def)
qed

lemma plan_chunks_nonempty: "bytes \<noteq> 0 \<Longrightarrow> max_chunk \<noteq> 0 \<Longrightarrow> plan_chunks off bytes max_chunk a \<noteq> []"
  by (simp add: plan_chunks_def plan_loop.simps [of "chunk_step max_chunk a"] chunk_step_pos Let_def)

lemma stripe_fold_fresh:
  "fresh_pending p \<Longrightarrow> fresh_pending (fst (fold (stripe_chunk cand row now) cs (p, src)))
     \<and> pn_req (fst (fold (stripe_chunk cand row now) cs (p, src))) = pn_req p
     \<and> pn_chunks (fst (fold (stripe_chunk cand row now) cs (p, src))) = pn_chunks p
     \<and> pn_routed (fst (fold (stripe_chunk cand row now) cs (p, src))) = pn_routed p"
  by (induction cs arbitrary: p src) (simp_all add: stripe_chunk_def Let_def fresh_pending_def)

lemma stripe_request_fresh:
  assumes "fresh_pending p"
  shows "fresh_pending (fst (stripe_request rt f now p src))"
proof -
  define q where "q = fold (stripe_chunk (rt_stripe_mask rt) (rt_row rt) now) (pn_chunks p) (p\<lparr>pn_src_file := rt_row rt\<rparr>, src)"
  have "fresh_pending (p\<lparr>pn_src_file := rt_row rt\<rparr>)" using assms by (simp add: fresh_pending_def)
  then have "fresh_pending (fst q)" unfolding q_def by (rule stripe_fold_fresh [THEN conjunct1])
  then show ?thesis using assms
    by (cases q) (simp add: stripe_request_def q_def [symmetric] fresh_pending_def)
qed

lemma io_inv_src: "io_inv e \<Longrightarrow> io_inv (upd_src f e)" "io_inv (e\<lparr>io_src := src\<rparr>) \<longleftrightarrow> io_inv e"
  by (simp_all add: io_inv_def io_core_def)

text \<open>A refused request changes the sources at most; an accepted one is routed and queued.\<close>

lemma submit_cases:
  assumes "submit fs req now e = (r, e')"
  obtains (refused) er src where "r = Inl er" "e' = e\<lparr>io_src := src\<rparr>"
  | (accepted) f rt src0 required p src1 where "rq_file req = Some f" "route_request fs req f now (io_src e) = (rt, src0)"
      "rq_bytes req \<noteq> 0" "stripe_request rt f now (new_pending e req f rt required) src0 = (p, src1)"
      "r = Inr (io_next_request e)" "e' = enqueue p now (e\<lparr>io_src := src1\<rparr>)" "0 < required"
proof (cases "rq_file req")
  case None
  then show ?thesis using assms refused [of _ "io_src e"] by (auto simp: submit_def split: if_splits)
next
  case (Some f)
  obtain rt src0 where rt: "route_request fs req f now (io_src e) = (rt, src0)" by fastforce
  define required where "required = min (unat (rq_bytes req)) (unat (if fi_size (fs (rt_file rt)) > rq_file_off req
    then fi_size (fs (rt_file rt)) - rq_file_off req else 0))"
  obtain p src1 where st: "stripe_request rt f now (new_pending e req f rt required) src0 = (p, src1)" by fastforce
  have np: "new_pending (e\<lparr>io_src := src0\<rparr>) = new_pending e" by (simp add: new_pending_def fun_eq_iff)
  show ?thesis
  proof (cases "io_running e \<and> fi_open (fs f) \<and> rq_dst req \<noteq> 0 \<and> rq_bytes req \<noteq> 0
      \<and> \<not> (fi_unbuffered (fs (rt_file rt)) \<and> misaligned (e\<lparr>io_src := src0\<rparr>) req) \<and> required \<noteq> 0")
    case True
    then have "submit fs req now e = (Inr (io_next_request e), enqueue p now (e\<lparr>io_src := src1\<rparr>))"
      using st by (simp add: submit_def Some rt Let_def required_def [symmetric] np)
    then show ?thesis using assms True by (intro accepted [OF Some rt _ st]) auto
  next
    case False
    have e0: "e\<lparr>io_src := io_src e\<rparr> = e" by simp
    have "\<exists>er src. submit fs req now e = (Inl er, e\<lparr>io_src := src\<rparr>)"
    proof (cases "io_running e \<and> fi_open (fs f)")
      case False
      then have "\<exists>er. submit fs req now e = (Inl er, e\<lparr>io_src := io_src e\<rparr>)" unfolding e0 by (auto simp: submit_def Some)
      then show ?thesis by blast
    next
      case ok: True
      show ?thesis
      proof (cases "rq_dst req = 0 \<or> rq_bytes req = 0")
        case True
        then have "submit fs req now e = (Inl InvalidArgument, e\<lparr>io_src := src0\<rparr>)"
          using ok by (auto simp: submit_def Some rt Let_def)
        then show ?thesis by blast
      next
        case sized: False
        then have "\<exists>er. submit fs req now e = (Inl er, upd_src (route_guard rt (unat (rq_bytes req)) now) (e\<lparr>io_src := src0\<rparr>))"
          using ok False by (simp add: submit_def Some rt Let_def required_def [symmetric]) auto
        then show ?thesis by (auto simp: upd_src_def)
      qed
    qed
    then show ?thesis using assms refused by auto
  qed
qed

lemma submit_inv:
  assumes "io_inv e" "submit fs req now e = (r, e')"
  shows "io_inv e'"
  using assms(2)
proof (cases rule: submit_cases)
  case (accepted f rt src0 required p src1)
  have "fresh_pending (new_pending e req f rt required)"
    using accepted(3) io_invD(7,8) [OF assms(1)] by (simp add: new_pending_def fresh_pending_def plan_chunks_nonempty)
  then have "fresh_pending p" using stripe_request_fresh [of _ rt f now src0] accepted(4) by (metis fst_conv)
  then show ?thesis using assms(1) accepted(6) by (simp add: enqueue_inv io_inv_src)
qed (simp add: assms(1) io_inv_src)

section \<open>Cancelling\<close>

lemma live_delete: "live (pend(rid := None)) = live pend - {rid}"
  by (auto simp: live_def)

lemma accounts_answer:
  assumes "accounts_ok n outst cbs L" "rid \<in> L" "rs_id r = rid"
  shows "accounts_ok n (outst - 1) (cbs @ [r]) (L - {rid})"
proof -
  have "finite L" using assms(1) by (auto simp: accounts_ok_def intro: finite_subset)
  then show ?thesis using assms by (auto simp: accounts_ok_def)
qed

lemma cancel_core:
  assumes "reqs_ok pend own n" "queues_ok pend qs" "owners_ok pend own m" "counts_ok pend own ops bytes cls"
    "pend rid = Some p" "pn_next p = 0"
  shows "reqs_ok (pend(rid := None)) own n" "queues_ok (pend(rid := None)) (qs(class_of p := remove1 rid (qs (class_of p))))"
    "owners_ok (pend(rid := None)) own m" "counts_ok (pend(rid := None)) own ops bytes cls" "rid \<in> live pend"
proof -
  have p: "req_ok p (card (chunks_of own rid))" using assms(1,5) by (simp add: reqs_ok_def)
  have "finite (chunks_of own rid)"
    using assms(3) by (auto simp: owners_ok_def chunks_of_def dom_def elim: finite_subset [rotated])
  then have none: "chunks_of own rid = {}" using p assms(6) by (auto simp: req_ok_def)
  show "reqs_ok (pend(rid := None)) own n" using assms(1) by (simp add: reqs_ok_def)
  show "queues_ok (pend(rid := None)) (qs(class_of p := remove1 rid (qs (class_of p))))"
    using assms(2,5) unfolding queues_ok_def by (auto simp: distinct_remove1) (metis option.inject)+
  show own: "owners_ok (pend(rid := None)) own m" using assms(3) none by (auto simp: owners_ok_def chunks_of_def)
  have "chunk_class (pend(rid := None)) (own cid) = chunk_class pend (own cid)" for cid
    using none by (auto simp: chunk_class_def chunks_of_def split: option.split)
  then show "counts_ok (pend(rid := None)) own ops bytes cls" using assms(4) by (simp add: counts_ok_def)
  show "rid \<in> live pend" using assms(5,6) p by (simp add: live_def finished_def req_ok_def)
qed

lemma cancel_cases:
  assumes "queues_ok (io_pendings e) (io_queues e)"
  obtains (refused) er where "cancel rid now e = (Inl er, e)"
  | (found) p where "io_pendings e rid = Some p" "pn_next p = 0"
      "cancel rid now e = (Inr (),
         answer \<lparr>rs_id = rid, rs_key = rq_key (pn_req p), rs_bytes_moved = 0, rs_status = Cancelled\<rparr>
          (upd_stat (\<lambda>t. t\<lparr>is_cancelled := is_cancelled t + 1\<rparr>)
            (upd_src (if pn_src_used p \<noteq> 0 then release_shares p now else (\<lambda>src. src))
              (e\<lparr>io_queues := (io_queues e)(class_of p := remove1 rid (io_queues e (class_of p))),
                 io_pendings := (io_pendings e)(rid := None),
                 io_outstanding := io_outstanding e - 1\<rparr>))))"
proof (cases "find (\<lambda>pr. rid \<in> set (io_queues e pr)) all_classes")
  case None
  then show ?thesis by (intro refused) (simp add: cancel_def)
next
  case (Some pr)
  then have "rid \<in> set (io_queues e pr)" by (auto simp: find_Some_iff)
  then obtain p where p: "io_pendings e rid = Some p" "class_of p = pr" using assms by (fastforce simp: queues_ok_def)
  show ?thesis
  proof (cases "pn_next p = 0")
    case True
    then show ?thesis by (intro found [OF p(1)]) (simp_all add: cancel_def Some p)
  next
    case False
    then show ?thesis by (intro refused) (simp add: cancel_def Some p)
  qed
qed

lemma cancel_inv:
  assumes "io_inv e"
  shows "io_inv (snd (cancel rid now e))"
  using io_invD(2) [OF assms]
proof (cases rule: cancel_cases [where rid = rid and now = now])
  case (found p)
  note i = io_invD [OF assms]
  note c = cancel_core [OF i(1-4) found(1,2)]
  show ?thesis using c i accounts_answer [OF i(6) c(5)]
    by (simp add: found(3) io_inv_def io_core_def answer_def live_delete)
qed (simp add: assms)

section \<open>Issuing\<close>

lemma pop_issued_simps [simp]:
  "io_pendings (pop_issued e) = io_pendings e" "io_chunk_owner (pop_issued e) = io_chunk_owner e"
  "io_inflight_ops (pop_issued e) = io_inflight_ops e" "io_inflight_bytes (pop_issued e) = io_inflight_bytes e"
  "io_inflight_class (pop_issued e) = io_inflight_class e" "io_tune (pop_issued e) = io_tune e"
  "io_src (pop_issued e) = io_src e" "io_next_chunk (pop_issued e) = io_next_chunk e"
  "io_next_request (pop_issued e) = io_next_request e" "io_outstanding (pop_issued e) = io_outstanding e"
  "io_submit_q (pop_issued e) = io_submit_q e" "io_failed_q (pop_issued e) = io_failed_q e"
  "io_at_backend (pop_issued e) = io_at_backend e" "io_callbacks (pop_issued e) = io_callbacks e"
  "io_caps (pop_issued e) = io_caps e" "io_bg_chunk_bytes (pop_issued e) = io_bg_chunk_bytes e"
  by (simp_all add: pop_issued_def)

lemma pop_issued_inv:
  assumes "io_inv e"
  shows "io_inv (pop_issued e)"
proof -
  have "queues_ok (io_pendings e) (\<lambda>pr. dropWhile (fully_issued e) (io_queues e pr))"
  proof -
    have "rid \<in> set (dropWhile (fully_issued e) xs)" if "rid \<in> set xs" "\<not> fully_issued e rid" for rid xs
      using that by (induction xs) auto
    then show ?thesis using io_invD(2) [OF assms]
      by (auto simp: queues_ok_def fully_issued_def dest: set_dropWhileD)
  qed
  then show ?thesis using assms by (simp add: io_inv_def io_core_def) (simp add: pop_issued_def)
qed

lemma fresh_chunk: "owners_ok pend own m \<Longrightarrow> own m = None"
  unfolding owners_ok_def by (cases "own m") auto

lemma finite_chunks_of: "owners_ok pend own m \<Longrightarrow> finite (chunks_of own rid)"
  by (auto simp: owners_ok_def chunks_of_def dom_def elim: finite_subset [rotated])

lemma issue_core:
  assumes "reqs_ok pend own n" "queues_ok pend qs" "owners_ok pend own m" "counts_ok pend own ops bytes cls"
    and p: "pend rid = Some p" "pn_next p < length (pn_chunks p)"
    and fc: "fc_owner fc = rid" and m: "m < kKeepAliveChunkBase"
    and p': "p' = p\<lparr>pn_next := pn_next p + 1, pn_issued := pn_issued p + 1\<rparr>"
  shows "reqs_ok (pend(rid \<mapsto> p')) (own(m \<mapsto> fc)) n" "queues_ok (pend(rid \<mapsto> p')) qs"
    "owners_ok (pend(rid \<mapsto> p')) (own(m \<mapsto> fc)) (m + 1)"
    "counts_ok (pend(rid \<mapsto> p')) (own(m \<mapsto> fc)) (ops + 1) (bytes + unat (fc_bytes fc)) (cls(class_of p := cls (class_of p) + 1))"
    "live (pend(rid \<mapsto> p')) = live pend"
proof -
  have new: "own m = None" by (rule fresh_chunk [OF assms(3)])
  have cl: "class_of p' = class_of p" by (simp add: p' class_of_def)
  have co: "chunks_of (own(m \<mapsto> fc)) r = (if r = rid then insert m (chunks_of own rid) else chunks_of own r)" for r
    using new fc by (auto simp: chunks_of_def)
  have "m \<notin> chunks_of own rid" using new by (simp add: chunks_of_def)
  then have card: "card (insert m (chunks_of own rid)) = card (chunks_of own rid) + 1"
    using finite_chunks_of [OF assms(3)] by simp
  have ok: "req_ok p (card (chunks_of own rid))" using assms(1) p by (simp add: reqs_ok_def)
  then have ok': "req_ok p' (card (chunks_of own rid) + 1)" using p(2) by (auto simp: req_ok_def p' split: if_splits)
  then show "reqs_ok (pend(rid \<mapsto> p')) (own(m \<mapsto> fc)) n"
    using assms(1) p card by (simp add: reqs_ok_def co)
  show "queues_ok (pend(rid \<mapsto> p')) qs"
    using assms(2) p cl queue_class [OF assms(2) _ p(1)] by (auto simp: queues_ok_def p')
  show "owners_ok (pend(rid \<mapsto> p')) (own(m \<mapsto> fc)) (m + 1)"
    using assms(3) fc m by (auto simp: owners_ok_def less_Suc_eq)
  have fin: "finite (dom own)" "m \<notin> dom own" using assms(3) new by (auto simp: owners_ok_def)
  have cc: "chunk_class (pend(rid \<mapsto> p')) ((own(m \<mapsto> fc)) cid) = (if cid = m then Some (class_of p) else chunk_class pend (own cid))" for cid
    using chunk_class_upd [OF assms(3), of rid p' cid] p(1) cl fc by (auto simp: chunk_class_def)
  have "{cid. chunk_class (pend(rid \<mapsto> p')) ((own(m \<mapsto> fc)) cid) = Some pr}
      = (if pr = class_of p then insert m {cid. chunk_class pend (own cid) = Some pr} else {cid. chunk_class pend (own cid) = Some pr})" for pr
    unfolding cc using new by (auto simp: chunk_class_def)
  moreover have "finite {cid. chunk_class pend (own cid) = Some pr}" "m \<notin> {cid. chunk_class pend (own cid) = Some pr}" for pr
    using fin new by (auto simp: chunk_class_def split: option.splits elim!: finite_subset [rotated])
  moreover have "(\<Sum>cid \<in> dom own. unat (fc_bytes (the ((own(m \<mapsto> fc)) cid)))) = (\<Sum>cid \<in> dom own. unat (fc_bytes (the (own cid))))"
    using fin(2) by (intro sum.cong) auto
  ultimately show "counts_ok (pend(rid \<mapsto> p')) (own(m \<mapsto> fc)) (ops + 1) (bytes + unat (fc_bytes fc)) (cls(class_of p := cls (class_of p) + 1))"
    using assms(4) fin by (simp add: counts_ok_def)
  have "finished p' = finished p" using ok ok' p(2) by (auto simp: finished_def req_ok_def p' split: if_splits)
  then show "live (pend(rid \<mapsto> p')) = live pend" using p(1) by (auto simp: live_def)
qed

lemma pick_chunk_cases:
  assumes "queues_ok (io_pendings e) (io_queues e)"
  obtains (none) "pick_chunk fs now e = (False, pop_issued e)"
  | (some) rid p where "io_pendings e rid = Some p" "pn_next p < length (pn_chunks p)"
      "pick_chunk fs now e = (True, issue_chunk fs rid p (pop_issued e))"
      "head_class (pop_issued e) = Some (class_of p)" "rid = hd (io_queues (pop_issued e) (class_of p))"
      "io_inflight_ops e < qd_cap (pop_issued e) (class_of p)"
      "io_inflight_bytes e < byte_cap (pop_issued e) (class_of p)" "\<not> throttled (pop_issued e) now (class_of p)"
proof (cases "head_class (pop_issued e)")
  case None
  then show ?thesis by (intro none) (simp add: pick_chunk_def)
next
  case (Some cls)
  let ?q = "io_queues (pop_issued e) cls"
  have q: "?q = dropWhile (fully_issued e) (io_queues e cls)" by (simp add: pop_issued_def)
  have ne: "?q \<noteq> []"
    using Some by (auto simp: head_class_def rescue_def find_Some_iff split: if_splits)
  then have hd: "hd ?q \<in> set (io_queues e cls)" "\<not> fully_issued e (hd ?q)"
    unfolding q by (rule set_dropWhileD [OF hd_in_set], rule hd_dropWhile)
  then obtain p where p: "io_pendings e (hd ?q) = Some p" "class_of p = cls" using assms by (fastforce simp: queues_ok_def)
  then have n: "pn_next p < length (pn_chunks p)" using hd(2) by (simp add: fully_issued_def)
  show ?thesis
  proof (cases "io_inflight_ops e < qd_cap (pop_issued e) cls \<and> io_inflight_bytes e < byte_cap (pop_issued e) cls
      \<and> \<not> throttled (pop_issued e) now cls")
    case True
    then show ?thesis using Some p n
      by (intro some [of "hd ?q" p]) (simp_all add: pick_chunk_def Let_def)
  next
    case False
    then show ?thesis using Some p by (intro none) (auto simp: pick_chunk_def Let_def)
  qed
qed

lemma issue_chunk_inv:
  assumes "io_inv e" "io_pendings e rid = Some p" "pn_next p < length (pn_chunks p)" "io_next_chunk e < kKeepAliveChunkBase"
  shows "io_inv (issue_chunk fs rid p e)"
proof -
  note i = io_invD [OF assms(1)]
  define fc where "fc = \<lparr>fc_owner = rid, fc_bytes = ch_bytes (pn_chunks p ! pn_next p),
    fc_src = (if pn_chunk_src p \<noteq> [] then Some (pn_chunk_src p ! pn_next p) else None)\<rparr>"
  note c = issue_core [OF i(1-4) assms(2,3) _ assms(4) refl, of fc]
  have "places_ok ((io_chunk_owner e)(io_next_chunk e \<mapsto> fc)) (io_submit_q e @ [chunk_request_of fs (io_next_chunk e) p (pn_next p)])
      (io_failed_q e) (io_at_backend e)"
    using i(3,5) fresh_chunk [OF i(3)] by (simp add: places_ok_def chunk_request_of_def Let_def owners_ok_def domIff)
  then show ?thesis using c i
    by (simp add: io_inv_def io_core_def issue_chunk_def Let_def fc_def class_of_def)
qed

lemma pick_chunk_inv:
  assumes "io_inv e" "io_next_chunk e < kKeepAliveChunkBase"
  shows "io_inv (snd (pick_chunk fs now e))"
  using io_invD(2) [OF assms(1)]
proof (cases rule: pick_chunk_cases [where fs = fs and now = now])
  case (some rid p)
  then show ?thesis using assms by (simp add: issue_chunk_inv pop_issued_inv)
qed (simp add: assms pop_issued_inv)

lemma do_submit_inv:
  assumes "io_inv e"
  shows "io_inv (do_submit be e)"
  using assms
  by (auto simp: io_inv_def io_core_def do_submit_def places_ok_def split: list.split option.split)

section \<open>Completions\<close>

lemma land_chunk_fields [simp]:
  "pn_req (land_chunk c fc p) = pn_req p" "pn_chunks (land_chunk c fc p) = pn_chunks p"
  "pn_issued (land_chunk c fc p) = pn_issued p" "pn_done (land_chunk c fc p) = pn_done p + 1"
  "pn_next (land_chunk c fc p) = (if cc_status c \<noteq> ErrOk \<and> \<not> pn_failed p then length (pn_chunks p) else pn_next p)"
  "pn_failed (land_chunk c fc p) \<longleftrightarrow> pn_failed p \<or> cc_status c \<noteq> ErrOk"
  "pn_primary (land_chunk c fc p) = pn_primary p" "pn_routed (land_chunk c fc p) = pn_routed p"
  "pn_source (land_chunk c fc p) = pn_source p" "pn_src_used (land_chunk c fc p) = pn_src_used p"
  "pn_chunk_src (land_chunk c fc p) = pn_chunk_src p" "pn_required (land_chunk c fc p) = pn_required p"
  "pn_src_file (land_chunk c fc p) = pn_src_file p"
  "class_of (land_chunk c fc p) = class_of p"
  by (simp_all add: land_chunk_def Let_def class_of_def split: option.split)

lemma land_core:
  assumes "reqs_ok pend own n" "queues_ok pend qs" "owners_ok pend own m" "counts_ok pend own ops bytes cls"
    and fc: "own cid = Some fc" and p: "pend (fc_owner fc) = Some p" and p': "p' = land_chunk c fc p"
  shows "reqs_ok (pend(fc_owner fc \<mapsto> p')) (own(cid := None)) n" "queues_ok (pend(fc_owner fc \<mapsto> p')) qs"
    "owners_ok (pend(fc_owner fc \<mapsto> p')) (own(cid := None)) m"
    "counts_ok (pend(fc_owner fc \<mapsto> p')) (own(cid := None)) (ops - 1) (bytes - unat (fc_bytes fc)) (cls(class_of p := cls (class_of p) - 1))"
    "fc_owner fc \<in> live pend"
proof -
  have cl: "class_of p' = class_of p" by (simp add: p')
  have fin: "finite (dom own)" "cid \<in> dom own" using assms(3) fc by (auto simp: owners_ok_def)
  have co: "chunks_of (own(cid := None)) r = (if r = fc_owner fc then chunks_of own r - {cid} else chunks_of own r)" for r
    using fc by (auto simp: chunks_of_def)
  have mem: "cid \<in> chunks_of own (fc_owner fc)" using fc by (simp add: chunks_of_def)
  have card: "card (chunks_of own (fc_owner fc)) = card (chunks_of own (fc_owner fc) - {cid}) + 1"
    using card_Suc_Diff1 [OF finite_chunks_of [OF assms(3)] mem] by simp
  have ok: "req_ok p (card (chunks_of own (fc_owner fc)))" using assms(1) p by (simp add: reqs_ok_def)
  then have ok': "req_ok p' (card (chunks_of own (fc_owner fc) - {cid}))"
    using card by (auto simp: req_ok_def p' split: if_splits)
  then show "reqs_ok (pend(fc_owner fc \<mapsto> p')) (own(cid := None)) n"
    using assms(1) p by (simp add: reqs_ok_def co)
  have "pn_next p < length (pn_chunks p)" if "pn_next p' < length (pn_chunks p')" using that by (auto simp: p' split: if_splits)
  then show "queues_ok (pend(fc_owner fc \<mapsto> p')) qs"
    using assms(2) p cl queue_class [OF assms(2) _ p] by (auto simp: queues_ok_def)
  show "owners_ok (pend(fc_owner fc \<mapsto> p')) (own(cid := None)) m" using assms(3) by (auto simp: owners_ok_def)
  have cc: "chunk_class (pend(fc_owner fc \<mapsto> p')) ((own(cid := None)) d) = (if d = cid then None else chunk_class pend (own d))" for d
    using chunk_class_upd [OF assms(3), of "fc_owner fc" p' d] p cl by (auto simp: chunk_class_def)
  have set: "{d. chunk_class (pend(fc_owner fc \<mapsto> p')) ((own(cid := None)) d) = Some pr} = {d. chunk_class pend (own d) = Some pr} - {cid}" for pr
    unfolding cc by auto
  have mine: "cid \<in> {d. chunk_class pend (own d) = Some pr} \<longleftrightarrow> pr = class_of p" for pr
    using fc p by (auto simp: chunk_class_def)
  have fins: "finite {d. chunk_class pend (own d) = Some pr}" for pr
    using fin by (auto simp: chunk_class_def split: option.splits elim!: finite_subset [rotated])
  have cardc: "card ({d. chunk_class pend (own d) = Some pr} - {cid})
      = (if pr = class_of p then card {d. chunk_class pend (own d) = Some pr} - 1 else card {d. chunk_class pend (own d) = Some pr})" for pr
    using mine [of pr] fins [of pr] by (simp only: card_Diff_singleton_if)
  have bytes: "(\<Sum>d \<in> dom own. unat (fc_bytes (the (own d)))) = unat (fc_bytes fc) + (\<Sum>d \<in> dom own - {cid}. unat (fc_bytes (the (own d))))"
    using sum.remove [OF fin, of "\<lambda>d. unat (fc_bytes (the (own d)))"] fc by simp
  have "(\<Sum>d \<in> dom own - {cid}. unat (fc_bytes (the ((own(cid := None)) d)))) = (\<Sum>d \<in> dom own - {cid}. unat (fc_bytes (the (own d))))"
    by (intro sum.cong) auto
  then show "counts_ok (pend(fc_owner fc \<mapsto> p')) (own(cid := None)) (ops - 1) (bytes - unat (fc_bytes fc)) (cls(class_of p := cls (class_of p) - 1))"
    using assms(4) fin bytes cardc unfolding counts_ok_def set dom_fun_upd by simp
  have "\<not> finished p" using ok card by (auto simp: finished_def req_ok_def)
  then show "fc_owner fc \<in> live pend" using p by (auto simp: live_def)
qed

lemma places_land:
  assumes "finite (dom own)" "cid \<in> dom own"
  shows "mset_set (dom (own(cid := None))) = mset_set (dom own) - {#cid#}"
  using assms by (simp add: mset_set.remove)

lemma failed_over_fields [simp]:
  "pn_chunks (failed_over p) = pn_chunks p" "class_of (failed_over p) = class_of p" "pn_next (failed_over p) = 0"
  "pn_issued (failed_over p) = 0" "pn_done (failed_over p) = 0" "\<not> pn_failed (failed_over p)" "pn_primary (failed_over p) = None"
  "\<not> pn_routed (failed_over p)" "pn_src_used (failed_over p) = 0" "pn_chunk_src (failed_over p) = []"
  "pn_required (failed_over p) = pn_required p" "rq_bytes (pn_req (failed_over p)) = rq_bytes (pn_req p)"
  "rq_file (pn_req (failed_over p)) = pn_primary p"
  by (simp_all add: failed_over_def class_of_def)

text \<open>Whether \<^verbatim>\<open>finish\<close> sends the request back to the queue, against the primary.\<close>

definition result_status :: "pending \<Rightarrow> err" where
  "result_status p = (if \<not> pn_failed p \<and> pn_moved p < pn_required p then Io else pn_status p)"

definition goes_back :: "pending \<Rightarrow> bool" where
  "goes_back p \<longleftrightarrow> pn_primary p \<noteq> None \<and> result_status p \<noteq> ErrOk \<and> (pn_chunk_src p = [] \<or> pn_src_err p AND NOT 1 \<noteq> 0)"

lemma finish_fields:
  fixes rid :: nat and p :: pending and now :: int and e :: io_engine
  defines "k \<equiv> finish rid p now e"
  shows "io_pendings k = (if goes_back p then (io_pendings e)(rid \<mapsto> failed_over p) else io_pendings e)"
    "io_queues k = (if goes_back p then (io_queues e)(class_of p := rid # removeAll rid (io_queues e (class_of p))) else io_queues e)"
    "io_outstanding k = (if goes_back p then io_outstanding e else io_outstanding e - 1)"
    "io_callbacks k = (if goes_back p then io_callbacks e else io_callbacks e @ [\<lparr>rs_id = rid, rs_key = rq_key (pn_req p),
       rs_bytes_moved = pn_moved p, rs_status = result_status p\<rparr>])"
    "io_chunk_owner k = io_chunk_owner e" "io_next_chunk k = io_next_chunk e" "io_next_request k = io_next_request e"
    "io_inflight_ops k = io_inflight_ops e" "io_inflight_bytes k = io_inflight_bytes e"
    "io_inflight_class k = io_inflight_class e" "io_submit_q k = io_submit_q e" "io_failed_q k = io_failed_q e"
    "io_at_backend k = io_at_backend e" "io_tune k = io_tune e" "io_bg_chunk_bytes k = io_bg_chunk_bytes e"
    "io_caps k = io_caps e" "io_running k = io_running e"
    "io_src k = (let src = finish_sources p (pn_moved p) (result_status p = ErrOk) now (io_src e)
       in if goes_back p then count_failovers p src else src)"
  by (auto simp: k_def finish_def Let_def goes_back_def result_status_def class_of_def answer_def)

lemma finish_inv:
  assumes "io_core e" "places_ok (io_chunk_owner e) (io_submit_q e) (io_failed_q e) (io_at_backend e)"
    "accounts_ok (io_next_request e) (io_outstanding e) (io_callbacks e) (insert rid (live (io_pendings e)))"
    "tn_p0_chunk_bytes (io_tune e) \<noteq> 0" "io_bg_chunk_bytes e \<noteq> 0"
    and p: "io_pendings e rid = Some p" "finished p"
  shows "io_inv (finish rid p now e)"
proof -
  have core: "reqs_ok (io_pendings e) (io_chunk_owner e) (io_next_request e)" "queues_ok (io_pendings e) (io_queues e)"
    "owners_ok (io_pendings e) (io_chunk_owner e) (io_next_chunk e)"
    "counts_ok (io_pendings e) (io_chunk_owner e) (io_inflight_ops e) (io_inflight_bytes e) (io_inflight_class e)"
    using assms(1) by (simp_all add: io_core_def)
  have dead: "rid \<notin> live (io_pendings e)" using p by (simp add: live_def)
  show ?thesis
  proof (cases "goes_back p")
    case True
    let ?p = "failed_over p" and ?q = "(io_queues e)(class_of p := rid # removeAll rid (io_queues e (class_of p)))"
    have r: "req_ok p (card (chunks_of (io_chunk_owner e) rid))" using core(1) p by (simp add: reqs_ok_def)
    then have k: "card (chunks_of (io_chunk_owner e) rid) = 0" "pn_chunks p \<noteq> []" using p(2) by (auto simp: finished_def req_ok_def)
    then have "req_ok ?p (card (chunks_of (io_chunk_owner e) rid))" by (simp add: req_ok_def)
    then have reqs: "reqs_ok ((io_pendings e)(rid \<mapsto> ?p)) (io_chunk_owner e) (io_next_request e)"
      using core(1) p(1) by (auto simp: reqs_ok_def)
    have queues: "queues_ok ((io_pendings e)(rid \<mapsto> ?p)) ?q"
      using core(2) p(1) queue_class [OF core(2) _ p(1)] unfolding queues_ok_def
      by (auto simp: distinct_removeAll) metis
    have "live ((io_pendings e)(rid \<mapsto> ?p)) = insert rid (live (io_pendings e))"
      using k(2) by (auto simp: live_def finished_def)
    then show ?thesis using True reqs queues owners_upd [OF core(3)] counts_upd [OF core(4,3), of rid ?p] assms p(1)
      by (simp add: io_inv_def io_core_def finish_fields)
  next
    case False
    have "insert rid (live (io_pendings e)) - {rid} = live (io_pendings e)" using dead by auto
    with accounts_answer [OF assms(3) insertI1, of "\<lparr>rs_id = rid, rs_key = rq_key (pn_req p), rs_bytes_moved = pn_moved p,
        rs_status = result_status p\<rparr>"]
    show ?thesis using False assms by (simp add: io_inv_def io_core_def finish_fields)
  qed
qed

text \<open>
  \<^verbatim>\<open>handle_completion\<close> for a chunk that was in one of the places: the dispatcher has taken it off
  that place, so the places of the state given to it lack the chunk.
\<close>

lemma handle_completion_inv:
  assumes "io_core e" "mset (map cr_chunk_id (io_submit_q e)) + mset (map cc_chunk_id (io_failed_q e)) + mset (io_at_backend e)
      = mset_set (dom (io_chunk_owner e)) - {#cc_chunk_id c#}"
    "accounts_ok (io_next_request e) (io_outstanding e) (io_callbacks e) (live (io_pendings e))"
    "tn_p0_chunk_bytes (io_tune e) \<noteq> 0" "io_bg_chunk_bytes e \<noteq> 0"
    and "cc_chunk_id c \<in> dom (io_chunk_owner e)"
  shows "io_inv (handle_completion c now e)"
proof -
  have core: "reqs_ok (io_pendings e) (io_chunk_owner e) (io_next_request e)" "queues_ok (io_pendings e) (io_queues e)"
    "owners_ok (io_pendings e) (io_chunk_owner e) (io_next_chunk e)"
    "counts_ok (io_pendings e) (io_chunk_owner e) (io_inflight_ops e) (io_inflight_bytes e) (io_inflight_class e)"
    using assms(1) by (simp_all add: io_core_def)
  define cid where "cid = cc_chunk_id c"
  obtain fc where fc: "io_chunk_owner e cid = Some fc" using assms(6) by (auto simp: cid_def)
  then obtain p where p: "io_pendings e (fc_owner fc) = Some p" and cid: "cid < kKeepAliveChunkBase"
    using core(3) by (fastforce simp: owners_ok_def)
  define p' where "p' = land_chunk c fc p"
  note l = land_core [OF core fc p p'_def]
  let ?pend = "(io_pendings e)(fc_owner fc \<mapsto> p')"
  define k where "k = upd_stat (\<lambda>t. t\<lparr>is_chunks_completed := is_chunks_completed t + 1,
        is_bytes_completed := is_bytes_completed t + unat (cc_bytes_moved c)\<rparr>)
      (upd_src (land_source fc p now)
        (e\<lparr>io_chunk_owner := (io_chunk_owner e)(cid := None), io_pendings := ?pend,
           io_inflight_ops := io_inflight_ops e - 1, io_inflight_bytes := io_inflight_bytes e - unat (fc_bytes fc),
           io_inflight_class := (io_inflight_class e)(class_of p := io_inflight_class e (class_of p) - 1)\<rparr>))"
  have k: "io_pendings k = ?pend" "io_queues k = io_queues e" "io_chunk_owner k = (io_chunk_owner e)(cid := None)"
    "io_next_request k = io_next_request e" "io_next_chunk k = io_next_chunk e" "io_outstanding k = io_outstanding e"
    "io_callbacks k = io_callbacks e" "io_submit_q k = io_submit_q e" "io_failed_q k = io_failed_q e"
    "io_at_backend k = io_at_backend e" "io_tune k = io_tune e" "io_bg_chunk_bytes k = io_bg_chunk_bytes e"
    by (simp_all add: k_def)
  have h: "handle_completion c now e = (if finished p' then finish (fc_owner fc) p' now k else k)"
    using cid fc p by (simp add: handle_completion_def finish_keepalive_def cid_def Let_def k_def p'_def class_of_def)
  have kcore: "io_core k" using l by (simp add: io_core_def k) (simp add: k_def)
  have kplaces: "places_ok (io_chunk_owner k) (io_submit_q k) (io_failed_q k) (io_at_backend k)"
    using assms(2,6) places_land [of "io_chunk_owner e" cid] core(3) by (simp add: places_ok_def k owners_ok_def cid_def)
  have live: "live ?pend = (if finished p' then live (io_pendings e) - {fc_owner fc} else live (io_pendings e))"
    using l(5) by (auto simp: live_def)
  show ?thesis
  proof (cases "finished p'")
    case True
    have "insert (fc_owner fc) (live ?pend) = live (io_pendings e)" using live l(5) True by auto
    then have "accounts_ok (io_next_request k) (io_outstanding k) (io_callbacks k) (insert (fc_owner fc) (live (io_pendings k)))"
      using assms(3) by (simp add: k)
    from finish_inv [OF kcore kplaces this] show ?thesis using True assms(4,5) by (simp add: h k)
  next
    case False
    then show ?thesis using h kcore kplaces live assms(3-5) by (simp add: io_inv_def k)
  qed
qed

end
