(* ===== verification/Io_Engine_Props.thy ===== *)
theory Io_Engine_Props
  imports Io_Engine_Inv
begin

text \<open>
  The runs of the read engine: the calls of other threads and the dispatcher's steps in any
  interleaving, the invariant in every state a run reaches, and what follows from it: requests are
  answered exactly once, nothing is lost, and the queue depths hold.
\<close>

section \<open>Runs\<close>

text \<open>
  The dispatcher's loop appears as its steps: picking one chunk, handing one chunk to the backend,
  unwinding one refused chunk, reaping one completion, poking an idle mirror. \<open>OpReap\<close> is a
  completion of a chunk the backend holds, \<open>OpPoked\<close> one of a keep-alive read.
\<close>

datatype io_op =
    OpSubmit io_request int
  | OpCancel nat int
  | OpPick int
  | OpDoSubmit "err option"
  | OpRefused int
  | OpReap chunk_completion int
  | OpTick "err option" int
  | OpPoked chunk_completion int
  | OpDropSource nat
  | OpReadmit "file_handle \<Rightarrow> file_handle \<Rightarrow> unit result" nat
  | OpFeel "int option" nat
  | OpSetSources "string \<Rightarrow> int option" io_overrides "string list" "real list" int
  | OpAddMirror "file_handle option" nat "file_handle option"
  | OpSetStripe bool
  | OpSetP0Depth u32 u64
  | OpSetEngramWait bool
  | OpEngramWait
  | OpEngramWaitOver bool
  | OpResetStats
  | OpStop

definition handle_refused :: "int \<Rightarrow> io_engine \<Rightarrow> io_engine" where
  "handle_refused now e = (case io_failed_q e of [] \<Rightarrow> e | c # q \<Rightarrow> handle_completion c now (e\<lparr>io_failed_q := q\<rparr>))"

fun run_io_op :: "(file_handle \<Rightarrow> file_info) \<Rightarrow> io_op \<Rightarrow> io_engine \<Rightarrow> io_engine" where
  "run_io_op fs (OpSubmit req now) e = snd (submit fs req now e)"
| "run_io_op fs (OpCancel rid now) e = snd (cancel rid now e)"
| "run_io_op fs (OpPick now) e = snd (pick_chunk fs now e)"
| "run_io_op fs (OpDoSubmit er) e = do_submit (\<lambda>_. er) e"
| "run_io_op fs (OpRefused now) e = handle_refused now e"
| "run_io_op fs (OpReap c now) e = reap c now e"
| "run_io_op fs (OpTick er now) e = upd_src (tick_keepalive fs (\<lambda>_. er) now) e"
| "run_io_op fs (OpPoked c now) e = handle_completion c now e"
| "run_io_op fs (OpDropSource s) e = upd_src (drop_source s) e"
| "run_io_op fs (OpReadmit probe s) e = upd_src (\<lambda>src. snd (readmit_source probe s src)) e"
| "run_io_op fs (OpFeel reading s) e = upd_src (feel_source reading s) e"
| "run_io_op fs (OpSetSources sensor ov roots weights now) e = upd_src (set_sources sensor ov roots weights now) e"
| "run_io_op fs (OpAddMirror primary s alt) e = upd_src (\<lambda>src. snd (add_mirror fs primary s alt src)) e"
| "run_io_op fs (OpSetStripe on) e = upd_src (set_stripe on) e"
| "run_io_op fs (OpSetP0Depth qd bytes) e = set_p0_depth qd bytes e"
| "run_io_op fs (OpSetEngramWait enabled) e = set_engram_wait_priority enabled e"
| "run_io_op fs OpEngramWait e = snd (engram_wait e)"
| "run_io_op fs (OpEngramWaitOver counted) e = engram_wait_over counted e"
| "run_io_op fs OpResetStats e = io_reset_stats e"
| "run_io_op fs OpStop e = io_stop e"

text \<open>
  When a step can happen: chunk ids stay below the range of the keep-alive reads, the backend
  completes what it holds, keep-alive completions carry keep-alive ids, and the sources are
  declared before the first request.
\<close>

fun io_op_ok :: "io_op \<Rightarrow> io_engine \<Rightarrow> bool" where
  "io_op_ok (OpPick now) e \<longleftrightarrow> io_next_chunk e < kKeepAliveChunkBase"
| "io_op_ok (OpReap c now) e \<longleftrightarrow> cc_chunk_id c \<in> set (io_at_backend e)"
| "io_op_ok (OpPoked c now) e \<longleftrightarrow> kKeepAliveChunkBase \<le> cc_chunk_id c"
| "io_op_ok (OpSetSources sensor ov roots weights now) e \<longleftrightarrow> io_next_request e = 1"
| "io_op_ok (OpAddMirror primary s alt) e \<longleftrightarrow> io_next_request e = 1"
| "io_op_ok (OpSetStripe on) e \<longleftrightarrow> io_next_request e = 1"
| "io_op_ok _ e \<longleftrightarrow> True"

definition no_sources :: sources where
  "no_sources = \<lparr>sr_roots = [], sr_weights = [], sr_alts = [], sr_mirrors_on = False, sr_stripe = False, sr_static_split = 0,
     sr_static_bytes = (\<lambda>_. 0), sr_route_classes = kDefaultRouteClasses, sr_health = source_health_new 3,
     sr_thermal = default_thermal, sr_sensor = (\<lambda>_. False), sr_outstanding = (\<lambda>_. 0), sr_inflight = (\<lambda>_. 0),
     sr_stats = (\<lambda>_. source_stats_zero), sr_last_activity = (\<lambda>_. 0), sr_idle_since = (\<lambda>_. 0), sr_ka_idle_ns = 0,
     sr_ka = (\<lambda>_. \<lparr>ka_file = None, ka_chunk_id = 0, ka_cursor = 0\<rparr>), sr_ka_inflight = 0\<rparr>"

definition zero_tuning :: tuning where
  "zero_tuning = \<lparr>tn_bg_cap_busy = kBackgroundOpsWhileBusy, tn_throttle_engram = False, tn_p0_qd = 0, tn_p0_inflight_bytes = 0,
     tn_p0_chunk_bytes = 0, tn_bg_qd = 0, tn_bg_inflight_bytes = 0, tn_engram_qd = 0, tn_submit_threads = kDefaultSubmitThreads\<rparr>"

text \<open>A default-constructed \<^verbatim>\<open>IoEngine\<close>; \<open>INT64_MIN / 2\<close> is far in the past.\<close>

definition idle_engine :: io_engine where
  "idle_engine = \<lparr>io_running = False, io_caps = \<lparr>bc_alignment = 4096, bc_max_queue_depth = 64, bc_max_chunk_bytes = push_bit 20 32\<rparr>,
     io_tune = zero_tuning, io_bg_chunk_bytes = 0, io_p0_qd_tuned = 0, io_p0_inflight_tuned = 0,
     io_pendings = Map.empty, io_queues = (\<lambda>_. []), io_chunk_owner = Map.empty, io_next_request = 1, io_next_chunk = 1,
     io_outstanding = 0, io_p0_outstanding = 0, io_inflight_ops = 0, io_inflight_bytes = 0, io_inflight_class = (\<lambda>_. 0),
     io_engram_wait_priority = False, io_engram_waiters = 0, io_last_p0_ns = - (2 ^ 62), io_src = no_sources, io_submit_q = [], io_failed_q = [],
     io_at_backend = [], io_stat = io_stats_zero, io_callbacks = []\<rparr>"

text \<open>
  The reachable states: the engine is started on a configuration that leaves both chunk sizes
  positive, and then runs.
\<close>

inductive io_reachable :: "(file_handle \<Rightarrow> file_info) \<Rightarrow> io_engine \<Rightarrow> bool" for fs where
  boot: "io_start (Some caps) cfg ov idle_engine = (Inr (), e) \<Longrightarrow> tn_p0_chunk_bytes (io_tune e) \<noteq> 0
    \<Longrightarrow> io_bg_chunk_bytes e \<noteq> 0 \<Longrightarrow> io_reachable fs e"
| step: "io_reachable fs e \<Longrightarrow> io_op_ok op e \<Longrightarrow> io_reachable fs (run_io_op fs op e)"

lemma io_start_inv:
  assumes "io_start (Some caps) cfg ov idle_engine = (Inr (), e)" "tn_p0_chunk_bytes (io_tune e) \<noteq> 0" "io_bg_chunk_bytes e \<noteq> 0"
  shows "io_inv e"
proof -
  have "io_pendings e = Map.empty \<and> io_queues e = (\<lambda>_. []) \<and> io_chunk_owner e = Map.empty \<and> io_next_request e = 1
    \<and> io_next_chunk e = 1 \<and> io_outstanding e = 0 \<and> io_inflight_ops e = 0 \<and> io_inflight_bytes e = 0
    \<and> io_inflight_class e = (\<lambda>_. 0) \<and> io_submit_q e = [] \<and> io_failed_q e = [] \<and> io_at_backend e = [] \<and> io_callbacks e = []"
    using assms(1) by (auto simp: io_start_def idle_engine_def Let_def)
  then show ?thesis using assms(2,3)
    by (simp add: io_inv_def io_core_def reqs_ok_def queues_ok_def owners_ok_def counts_ok_def places_ok_def accounts_ok_def
        live_def chunk_class_def kKeepAliveChunkBase_def)
qed

lemma placed_owner:
  assumes "places_ok own sq fq ab" "finite (dom own)"
  shows "c \<in> set fq \<Longrightarrow> cc_chunk_id c \<in> dom own" "cid \<in> set ab \<Longrightarrow> cid \<in> dom own" "cr \<in> set sq \<Longrightarrow> cr_chunk_id cr \<in> dom own"
proof -
  have "set_mset (mset (map cr_chunk_id sq) + mset (map cc_chunk_id fq) + mset ab) = dom own"
    using assms by (simp add: places_ok_def)
  then show "c \<in> set fq \<Longrightarrow> cc_chunk_id c \<in> dom own" "cid \<in> set ab \<Longrightarrow> cid \<in> dom own" "cr \<in> set sq \<Longrightarrow> cr_chunk_id cr \<in> dom own"
    by auto
qed

lemma reap_inv:
  assumes "io_inv e" "cc_chunk_id c \<in> set (io_at_backend e)"
  shows "io_inv (reap c now e)"
proof -
  note i = io_invD [OF assms(1)]
  have fin: "finite (dom (io_chunk_owner e))" using i(3) by (simp add: owners_ok_def)
  show ?thesis unfolding reap_def
    using assms(1) i(5) placed_owner(2) [OF i(5) fin assms(2)] assms(2)
    by (intro handle_completion_inv) (auto simp: io_inv_def io_core_def places_ok_def simp flip: diff_union_single_conv)
qed

lemma handle_refused_inv:
  assumes "io_inv e"
  shows "io_inv (handle_refused now e)"
proof (cases "io_failed_q e")
  case (Cons c q)
  note i = io_invD [OF assms]
  have fin: "finite (dom (io_chunk_owner e))" using i(3) by (simp add: owners_ok_def)
  have "mset_set (dom (io_chunk_owner e)) =
      add_mset (cc_chunk_id c) (mset (map cr_chunk_id (io_submit_q e)) + mset (map cc_chunk_id q) + mset (io_at_backend e))"
    using i(5) by (simp add: places_ok_def Cons)
  then have "io_inv (handle_completion c now (e\<lparr>io_failed_q := q\<rparr>))"
    using assms placed_owner(1) [OF i(5) fin, of c] Cons by (intro handle_completion_inv) (auto simp: io_inv_def io_core_def)
  then show ?thesis by (simp add: handle_refused_def Cons)
qed (simp add: assms handle_refused_def)

lemma poked_inv:
  assumes "io_inv e" "kKeepAliveChunkBase \<le> cc_chunk_id c"
  shows "io_inv (handle_completion c now e)"
  using assms by (simp add: handle_completion_def finish_keepalive_def io_inv_src)

lemma run_io_op_inv: "io_inv e \<Longrightarrow> io_op_ok op e \<Longrightarrow> io_inv (run_io_op fs op e)"
proof (cases op)
  case (OpSubmit req now)
  assume "io_inv e"
  then show ?thesis using submit_inv [of e fs req now] by (simp add: OpSubmit split: prod.splits) (metis surj_pair snd_conv)
next
  case (OpSetP0Depth qd bytes)
  assume "io_inv e"
  then show ?thesis by (simp add: OpSetP0Depth set_p0_depth_def io_inv_def io_core_def)
next
  case OpStop
  assume "io_inv e"
  then show ?thesis by (simp add: OpStop io_stop_def io_inv_def io_core_def)
next
  case OpResetStats
  assume "io_inv e"
  then show ?thesis by (simp add: OpResetStats io_reset_stats_def io_inv_def io_core_def)
next
  case OpEngramWait
  assume "io_inv e"
  then show ?thesis by (simp add: OpEngramWait engram_wait_def io_inv_def io_core_def)
next
  case (OpEngramWaitOver counted)
  assume "io_inv e"
  then show ?thesis by (simp add: OpEngramWaitOver engram_wait_over_def io_inv_def io_core_def)
next
  case (OpSetEngramWait enabled)
  assume "io_inv e"
  then show ?thesis by (simp add: OpSetEngramWait set_engram_wait_priority_def io_inv_def io_core_def)
qed (simp_all add: cancel_inv pick_chunk_inv do_submit_inv handle_refused_inv reap_inv poked_inv io_inv_src)

lemma reachable_io_inv: "io_reachable fs e \<Longrightarrow> io_inv e"
  by (induction rule: io_reachable.induct) (auto intro: io_start_inv run_io_op_inv)

section \<open>Every accepted request is answered exactly once\<close>

text \<open>
  C35. In every state the engine reaches, a request that \<^verbatim>\<open>submit\<close> accepted has been answered through
  its callback exactly once, or not at all if it is still live (not all of its chunks are done);
  nothing else is ever answered, and \<^verbatim>\<open>queued_requests\<close> is the number of live requests. This covers
  cancelled, failed, refused and failed-over requests alike.
\<close>

theorem answered_exactly_once:
  assumes "io_reachable fs e"
  shows "count_list (map rs_id (io_callbacks e)) rid
      = (if 1 \<le> rid \<and> rid < io_next_request e \<and> rid \<notin> live (io_pendings e) then 1 else 0)
    \<and> io_outstanding e = card (live (io_pendings e))"
proof -
  note a = io_invD(6) [OF reachable_io_inv [OF assms], unfolded accounts_ok_def]
  have "count_list xs x = (if x \<in> set xs then 1 else 0)" if "distinct xs" for xs :: "nat list" and x
    using that by (induction xs) auto
  then show ?thesis using a by simp
qed

section \<open>The in-flight counters\<close>

text \<open>
  C37. The counters that throttle the dispatcher are exact in every reachable state: the number of
  chunks in flight, their bytes, and their number per priority class are those of the chunks that
  were handed out and not yet completed, and each such chunk is in exactly one place: waiting for a
  submitter, refused, or at the backend.
\<close>

theorem inflight_counters_exact:
  assumes "io_reachable fs e"
  shows "io_inflight_ops e = card (dom (io_chunk_owner e))
    \<and> io_inflight_bytes e = (\<Sum>cid \<in> dom (io_chunk_owner e). unat (fc_bytes (the (io_chunk_owner e cid))))
    \<and> io_inflight_class e pr = card {cid. chunk_class (io_pendings e) (io_chunk_owner e cid) = Some pr}
    \<and> mset (map cr_chunk_id (io_submit_q e)) + mset (map cc_chunk_id (io_failed_q e)) + mset (io_at_backend e)
        = mset_set (dom (io_chunk_owner e))"
  using io_invD(4,5) [OF reachable_io_inv [OF assms]] by (simp add: counts_ok_def places_ok_def)

section \<open>The engine drains\<close>

text \<open>The steps of the dispatcher and its submitters that move work forward.\<close>

inductive io_work :: "(file_handle \<Rightarrow> file_info) \<Rightarrow> io_engine \<Rightarrow> io_engine \<Rightarrow> bool" for fs where
  work_pick: "io_next_chunk e < kKeepAliveChunkBase \<Longrightarrow> pick_chunk fs now e = (True, e') \<Longrightarrow> io_work fs e e'"
| work_submit: "io_submit_q e \<noteq> [] \<Longrightarrow> io_work fs e (do_submit be e)"
| work_refused: "io_failed_q e \<noteq> [] \<Longrightarrow> io_work fs e (handle_refused now e)"
| work_reap: "cc_chunk_id c \<in> set (io_at_backend e) \<Longrightarrow> io_work fs e (reap c now e)"

text \<open>The work a request can still cause: each chunk three steps, and all again after a failover.\<close>

definition req_load :: "pending \<Rightarrow> nat" where
  "req_load p = 3 * (length (pn_chunks p) - pn_next p) + (if pn_primary p \<noteq> None then 3 * length (pn_chunks p) + 1 else 0)"

definition heap_load :: "(nat \<Rightarrow> pending option) \<Rightarrow> nat" where
  "heap_load pend = (\<Sum>rid \<in> dom pend. req_load (the (pend rid)))"

definition io_load :: "io_engine \<Rightarrow> nat" where
  "io_load e = heap_load (io_pendings e) + 2 * length (io_submit_q e) + length (io_failed_q e) + length (io_at_backend e)"

lemma heap_load_upd:
  assumes "finite (dom pend)" "pend rid = Some p"
  shows "heap_load (pend(rid \<mapsto> q)) + req_load p = heap_load pend + req_load q"
proof -
  have d: "dom (pend(rid \<mapsto> q)) = dom pend" using assms(2) by auto
  have m: "rid \<in> dom pend" using assms(2) by auto
  have "(\<Sum>r \<in> dom pend - {rid}. req_load (the ((pend(rid \<mapsto> q)) r))) = (\<Sum>r \<in> dom pend - {rid}. req_load (the (pend r)))"
    by (intro sum.cong) auto
  then show ?thesis
    using sum.remove [OF assms(1) m, of "\<lambda>r. req_load (the ((pend(rid \<mapsto> q)) r))"]
      sum.remove [OF assms(1) m, of "\<lambda>r. req_load (the (pend r))"] assms(2)
    unfolding heap_load_def d by simp
qed

lemma pick_load:
  assumes "io_inv e" "pick_chunk fs now e = (True, e')"
  shows "io_load e' + 1 = io_load e \<and> io_next_chunk e' = io_next_chunk e + 1 \<and> io_tune e' = io_tune e"
  using io_invD(2) [OF assms(1)]
proof (cases rule: pick_chunk_cases [where fs = fs and now = now])
  case (some rid p)
  have fin: "finite (dom (io_pendings e))" using io_invD(1) [OF assms(1)] by (simp add: reqs_ok_def)
  let ?p = "p\<lparr>pn_next := pn_next p + 1, pn_issued := pn_issued p + 1\<rparr>"
  have "req_load ?p + 3 = req_load p" using some(2) unfolding req_load_def by (simp split: if_splits) linarith
  then show ?thesis using heap_load_upd [OF fin some(1), of ?p] some(3) assms(2)
    by (auto simp: io_load_def issue_chunk_def Let_def)
qed (use assms(2) in simp)

lemma land_load: "req_load (land_chunk c fc p) \<le> req_load p"
  by (simp add: req_load_def)

lemma finish_load:
  assumes "finite (dom (io_pendings e))" "io_pendings e rid = Some p" "finished p"
  shows "heap_load (io_pendings (finish rid p now e)) \<le> heap_load (io_pendings e)"
proof (cases "goes_back p")
  case True
  then have "req_load (failed_over p) \<le> req_load p" by (simp add: req_load_def goes_back_def)
  then show ?thesis using heap_load_upd [OF assms(1,2), of "failed_over p"] True by (simp add: finish_fields)
qed (simp add: finish_fields)

lemma completion_load:
  assumes "finite (dom (io_pendings e))"
  shows "heap_load (io_pendings (handle_completion c now e)) \<le> heap_load (io_pendings e)"
proof (cases "finish_keepalive c now e")
  case None
  show ?thesis
  proof (cases "io_chunk_owner e (cc_chunk_id c)")
    case fc: (Some fc)
    show ?thesis
    proof (cases "io_pendings e (fc_owner fc)")
      case (Some p)
      let ?p = "land_chunk c fc p"
      have le: "heap_load ((io_pendings e)(fc_owner fc \<mapsto> ?p)) \<le> heap_load (io_pendings e)"
        using heap_load_upd [OF assms Some, of ?p] land_load [of c fc p] by simp
      have fin: "finite (dom ((io_pendings e)(fc_owner fc \<mapsto> ?p)))" using assms by simp
      have "heap_load (io_pendings (finish (fc_owner fc) ?p now k)) \<le> heap_load (io_pendings e)"
        if "io_pendings k = (io_pendings e)(fc_owner fc \<mapsto> ?p)" "finished ?p" for k
        using finish_load [of k "fc_owner fc" ?p now] that fin le by simp
      then show ?thesis using le by (simp add: handle_completion_def None fc Some Let_def)
    qed (simp add: handle_completion_def None fc)
  qed (simp add: handle_completion_def None)
next
  case (Some k)
  then show ?thesis by (auto simp: handle_completion_def finish_keepalive_def split: if_splits)
qed

lemma completion_fields:
  "io_submit_q (handle_completion c now e) = io_submit_q e" "io_failed_q (handle_completion c now e) = io_failed_q e"
  "io_at_backend (handle_completion c now e) = io_at_backend e" "io_next_chunk (handle_completion c now e) = io_next_chunk e"
  "io_tune (handle_completion c now e) = io_tune e"
  by (auto simp: handle_completion_def finish_keepalive_def Let_def finish_fields split: option.split)

lemma work_load:
  assumes "io_inv e" "io_work fs e e'"
  shows "io_load e' < io_load e \<and> io_next_chunk e' + io_load e' \<le> io_next_chunk e + io_load e \<and> io_tune e' = io_tune e \<and> io_inv e'"
  using assms(2)
proof (cases rule: io_work.cases)
  case (work_pick now)
  then show ?thesis using pick_load [OF assms(1) work_pick(2)] pick_chunk_inv [OF assms(1) work_pick(1), of fs now] by simp
next
  case (work_submit be)
  then show ?thesis using do_submit_inv [OF assms(1), of be]
    by (auto simp: do_submit_def io_load_def neq_Nil_conv split: option.splits)
next
  case (work_refused now)
  have fin: "finite (dom (io_pendings e))" using io_invD(1) [OF assms(1)] by (simp add: reqs_ok_def)
  obtain c q where q: "io_failed_q e = c # q" using work_refused by (auto simp: neq_Nil_conv)
  show ?thesis using handle_refused_inv [OF assms(1), of now] completion_load [of "e\<lparr>io_failed_q := q\<rparr>" c now] fin
    by (simp add: work_refused(1) handle_refused_def q io_load_def completion_fields)
next
  case (work_reap c now)
  have fin: "finite (dom (io_pendings e))" using io_invD(1) [OF assms(1)] by (simp add: reqs_ok_def)
  have "length (remove1 (cc_chunk_id c) (io_at_backend e)) < length (io_at_backend e)"
    using work_reap(2) length_pos_if_in_set [OF work_reap(2)] by (simp add: length_remove1)
  then show ?thesis using reap_inv [OF assms(1) work_reap(2), of now]
      completion_load [of "e\<lparr>io_at_backend := remove1 (cc_chunk_id c) (io_at_backend e)\<rparr>" c now] fin
    by (simp add: work_reap(1) reap_def io_load_def completion_fields)
qed

definition caps_positive :: "tuning \<Rightarrow> bool" where
  "caps_positive t \<longleftrightarrow> tn_p0_qd t \<noteq> 0 \<and> tn_bg_qd t \<noteq> 0 \<and> tn_engram_qd t \<noteq> 0 \<and> tn_p0_inflight_bytes t \<noteq> 0 \<and> tn_bg_inflight_bytes t \<noteq> 0"

lemma class_in_all: "pr \<in> set all_classes"
  by (cases pr) (simp_all add: all_classes_def)

text \<open>With nothing in flight and a request queued, the dispatcher picks a chunk once P0 has been quiet.\<close>

lemma idle_picks:
  assumes "io_inv e" "dom (io_chunk_owner e) = {}" "live (io_pendings e) \<noteq> {}" "caps_positive (io_tune e)"
  shows "\<exists>e'. pick_chunk fs (io_last_p0_ns e + kBackgroundQuiet) e = (True, e')"
proof -
  note i = io_invD [OF assms(1)]
  let ?e = "pop_issued e"
  have zero: "io_inflight_ops e = 0" "io_inflight_bytes e = 0"
    using i(4) assms(2) by (simp_all add: counts_ok_def)
  obtain rid p where p: "io_pendings e rid = Some p" "\<not> finished p" using assms(3) by (auto simp: live_def)
  have "req_ok p (card (chunks_of (io_chunk_owner e) rid))" using i(1) p by (simp add: reqs_ok_def)
  moreover have "chunks_of (io_chunk_owner e) rid = {}" using assms(2) by (auto simp: chunks_of_def)
  ultimately have nx: "pn_next p < length (pn_chunks p)" using p(2) by (auto simp: req_ok_def finished_def split: if_splits)
  then have "rid \<in> set (io_queues e (class_of p))" "\<not> fully_issued e rid"
    using i(2) p(1) by (auto simp: queues_ok_def fully_issued_def)
  then have "io_queues ?e (class_of p) \<noteq> []" by (auto simp: pop_issued_def)
  then have "find (\<lambda>pr. io_queues ?e pr \<noteq> []) all_classes \<noteq> None"
    using class_in_all [of "class_of p"] by (auto simp: find_None_iff)
  then obtain cls where cls: "head_class ?e = Some cls" by (cases "rescue ?e") (auto simp: head_class_def)
  then have ne: "io_queues ?e cls \<noteq> []" by (auto simp: head_class_def rescue_def find_Some_iff split: if_splits)
  have q: "io_queues ?e cls = dropWhile (fully_issued e) (io_queues e cls)" by (simp add: pop_issued_def)
  have "hd (io_queues ?e cls) \<in> set (io_queues e cls)" using ne unfolding q by (rule set_dropWhileD [OF hd_in_set])
  then obtain q where q: "io_pendings e (hd (io_queues ?e cls)) = Some q" using i(2) by (fastforce simp: queues_ok_def)
  have "0 < qd_cap ?e cls" "0 < byte_cap ?e cls"
    using assms(4) by (auto simp: caps_positive_def qd_cap_def byte_cap_def unat_gt_0 rescue_def)
  moreover have "\<not> throttled ?e (io_last_p0_ns e + kBackgroundQuiet) cls"
    by (simp add: throttled_def pop_issued_def)
  ultimately show ?thesis using cls q zero by (simp add: pick_chunk_def Let_def)
qed

lemma work_enabled:
  assumes "io_inv e" "io_outstanding e \<noteq> 0" "caps_positive (io_tune e)" "io_next_chunk e < kKeepAliveChunkBase"
  shows "\<exists>e'. io_work fs e e'"
proof (cases "dom (io_chunk_owner e) = {}")
  case True
  have "live (io_pendings e) \<noteq> {}" using io_invD(6) [OF assms(1)] assms(2) by (auto simp: accounts_ok_def)
  then show ?thesis using idle_picks [OF assms(1) True _ assms(3)] work_pick [OF assms(4)] by blast
next
  case False
  note i = io_invD [OF assms(1)]
  have "finite (dom (io_chunk_owner e))" using i(3) by (simp add: owners_ok_def)
  then have "mset_set (dom (io_chunk_owner e)) \<noteq> {#}" using False by (simp add: mset_set_empty_iff)
  then have "io_submit_q e \<noteq> [] \<or> io_failed_q e \<noteq> [] \<or> io_at_backend e \<noteq> []" using i(5) by (auto simp: places_ok_def)
  then show ?thesis
  proof (elim disjE)
    assume "io_at_backend e \<noteq> []"
    then have "cc_chunk_id \<lparr>cc_chunk_id = hd (io_at_backend e), cc_bytes_moved = 0, cc_status = ErrOk\<rparr> \<in> set (io_at_backend e)" by simp
    then show ?thesis by (blast intro: work_reap)
  qed (blast intro: work_submit work_refused)+
qed

lemma work_run:
  assumes "(io_work fs ^^ n) e e'" "io_inv e"
  shows "n + io_load e' \<le> io_load e \<and> io_next_chunk e' + io_load e' \<le> io_next_chunk e + io_load e \<and> io_tune e' = io_tune e \<and> io_inv e'"
  using assms
proof (induction n arbitrary: e')
  case (Suc n)
  then obtain k where "(io_work fs ^^ n) e k" "io_work fs k e'" by auto
  then show ?case using Suc.IH [of k] Suc.prems(2) work_load [of k fs e'] by fastforce
qed simp

text \<open>
  C36. The engine drains: whatever the backend answers, chunk by chunk, the steps of the dispatcher
  and the submitters cannot go on for longer than the work that is queued allows (three steps for
  each chunk, and the same again for a request that may fail over to the primary), and as long as a
  request is outstanding one of these steps is possible. So \<^verbatim>\<open>drain\<close> returns, and when no step is
  left every accepted request has been answered. Depths and byte ceilings must be positive, and the
  chunk ids must not run into the range reserved for keep-alive reads.
\<close>

theorem engine_drains:
  assumes "io_reachable fs e" "caps_positive (io_tune e)" "io_next_chunk e + io_load e < kKeepAliveChunkBase"
    and "(io_work fs ^^ n) e e'"
  shows "n \<le> io_load e
    \<and> (io_outstanding e' \<noteq> 0 \<longrightarrow> (\<exists>e''. io_work fs e' e''))
    \<and> ((\<nexists>e''. io_work fs e' e'') \<longrightarrow> set (map rs_id (io_callbacks e')) = {1..<io_next_request e'})"
proof -
  note w = work_run [OF assms(4) reachable_io_inv [OF assms(1)]]
  have en: "io_outstanding e' \<noteq> 0 \<longrightarrow> (\<exists>e''. io_work fs e' e'')"
    using w assms(2,3) work_enabled [of e' fs] by simp
  have "set (map rs_id (io_callbacks e')) = {1..<io_next_request e'}" if "io_outstanding e' = 0"
  proof -
    have a: "accounts_ok (io_next_request e') (io_outstanding e') (io_callbacks e') (live (io_pendings e'))"
      using w io_invD(6) by blast
    then have "finite (live (io_pendings e'))" by (auto simp: accounts_ok_def intro: finite_subset)
    then show ?thesis using a that by (auto simp: accounts_ok_def)
  qed
  then show ?thesis using w en by auto
qed

section \<open>A small run\<close>

text \<open>One P0 read of two pages through an engine with default settings: queued, picked, submitted, reaped.\<close>

definition demo_files :: "file_handle \<Rightarrow> file_info" where
  "demo_files f = \<lparr>fi_open = True, fi_size = 1048576, fi_unbuffered = True\<rparr>"

definition no_overrides :: io_overrides where
  "no_overrides = \<lparr>ov_bg_cap_busy = None, ov_bg_qd = None, ov_p0_qd = None, ov_p0_inflight_mb = None, ov_p0_chunk_mb = None,
     ov_engram_qd = None, ov_submit_threads = None, ov_throttle_engram = False, ov_source_error_budget = 3, ov_keepalive_ms = 0,
     ov_static_split = 0, ov_stripe = True, ov_route_classes = None, ov_mirror_hot_c = 80\<rparr>"

definition demo_caps :: backend_caps where
  "demo_caps = \<lparr>bc_alignment = 4096, bc_max_queue_depth = 64, bc_max_chunk_bytes = 33554432\<rparr>"

definition demo_started :: io_engine where
  "demo_started = snd (io_start (Some demo_caps) default_io_config no_overrides idle_engine)"

definition demo_request :: io_request where
  "demo_request = \<lparr>rq_key = ExpertKey 0 0, rq_priority = BlockingMiss, rq_file = Some 1, rq_file_off = 4096, rq_bytes = 8192, rq_dst = 65536\<rparr>"

definition demo_pending :: pending where
  "demo_pending = \<lparr>pn_req = demo_request, pn_chunks = [\<lparr>ch_off = 4096, ch_bytes = 8192\<rparr>], pn_required = 8192,
     pn_next = 0, pn_issued = 0, pn_done = 0, pn_moved = 0, pn_source = 0, pn_routed = False, pn_primary = None, pn_chunk_src = [],
     pn_src_file = (\<lambda>_. None), pn_src_charged = (\<lambda>_. 0), pn_src_moved = (\<lambda>_. 0), pn_src_used = 0, pn_src_err = 0,
     pn_status = ErrOk, pn_failed = False\<rparr>"

definition demo_queued :: io_engine where
  "demo_queued = run_io_op demo_files (OpSubmit demo_request 0) demo_started"

definition demo_picked :: io_engine where
  "demo_picked = run_io_op demo_files (OpPick 0) demo_queued"

definition demo_sent :: io_engine where
  "demo_sent = run_io_op demo_files (OpDoSubmit None) demo_picked"

definition demo_done :: io_engine where
  "demo_done = run_io_op demo_files (OpReap \<lparr>cc_chunk_id = 1, cc_bytes_moved = 8192, cc_status = ErrOk\<rparr> 0) demo_sent"

lemma demo_started_facts:
  "io_start (Some demo_caps) default_io_config no_overrides idle_engine = (Inr (), demo_started)"
  "io_tune demo_started = \<lparr>tn_bg_cap_busy = 1, tn_throttle_engram = False, tn_p0_qd = 8, tn_p0_inflight_bytes = 33554432,
     tn_p0_chunk_bytes = 4194304, tn_bg_qd = 8, tn_bg_inflight_bytes = 33554432, tn_engram_qd = 8, tn_submit_threads = 1\<rparr>"
  "io_bg_chunk_bytes demo_started = 4194304" "io_caps demo_started = demo_caps" "io_running demo_started"
  "io_src demo_started = no_sources" "io_pendings demo_started = Map.empty" "io_queues demo_started = (\<lambda>_. [])"
  "io_chunk_owner demo_started = Map.empty" "io_next_request demo_started = 1" "io_next_chunk demo_started = 1"
  "io_outstanding demo_started = 0" "io_inflight_ops demo_started = 0" "io_inflight_bytes demo_started = 0"
  "io_inflight_class demo_started = (\<lambda>_. 0)" "io_engram_waiters demo_started = 0" "io_submit_q demo_started = []"
  "io_failed_q demo_started = []" "io_at_backend demo_started = []" "io_callbacks demo_started = []"
  by (simp_all add: demo_started_def io_start_def idle_engine_def Let_def demo_caps_def clamp_def resolve_tuning_def
      default_io_config_def no_overrides_def value_or_def kBackgroundOpsWhileBusy_def kDefaultSubmitThreads_def)

lemma demo_chunks: "plan_chunks 4096 8192 4194304 4096 = [\<lparr>ch_off = 4096, ch_bytes = 8192\<rparr>]"
  by (simp add: plan_chunks_def chunk_step_def align_down_def plan_loop.simps Let_def min_def)

lemma demo_queued_is: "demo_queued = enqueue demo_pending 0 demo_started"
proof -
  have r: "route_request demo_files demo_request 1 0 no_sources = (unrouted 1, no_sources)"
    by (simp add: route_request_def no_sources_def)
  have m: "\<not> misaligned (demo_started\<lparr>io_src := no_sources\<rparr>) demo_request"
    by (simp add: misaligned_def demo_started_facts demo_caps_def demo_request_def is_aligned_def)
  have p: "new_pending (demo_started\<lparr>io_src := no_sources\<rparr>) demo_request 1 (unrouted 1) 8192 = demo_pending"
    by (simp add: new_pending_def demo_pending_def unrouted_def demo_request_def demo_started_facts demo_caps_def demo_chunks)
  have s: "stripe_request (unrouted 1) 1 0 demo_pending no_sources = (demo_pending, no_sources)"
    by (simp add: stripe_request_def unrouted_def)
  have e: "demo_started\<lparr>io_src := no_sources\<rparr> = demo_started"
    by (simp flip: demo_started_facts(6))
  have "snd (submit demo_files demo_request 0 demo_started) = enqueue demo_pending 0 (demo_started\<lparr>io_src := no_sources\<rparr>)"
    using r m p s by (simp add: submit_def demo_started_facts demo_request_def demo_files_def Let_def unrouted_def)
  then show ?thesis by (simp add: demo_queued_def e)
qed

lemma demo_queued_facts:
  "io_tune demo_queued = io_tune demo_started" "io_pendings demo_queued = [1 \<mapsto> demo_pending]"
  "io_queues demo_queued = (\<lambda>_. [])(BlockingMiss := [1])" "io_chunk_owner demo_queued = Map.empty"
  "io_next_chunk demo_queued = 1" "io_next_request demo_queued = 2" "io_outstanding demo_queued = 1"
  "io_inflight_ops demo_queued = 0" "io_inflight_bytes demo_queued = 0" "io_inflight_class demo_queued = (\<lambda>_. 0)"
  "io_engram_waiters demo_queued = 0" "io_submit_q demo_queued = []" "io_failed_q demo_queued = []" "io_at_backend demo_queued = []"
  "io_callbacks demo_queued = []" "io_src demo_queued = no_sources" "io_caps demo_queued = demo_caps"
  by (simp_all add: demo_queued_is enqueue_def Let_def demo_started_facts demo_pending_def demo_request_def upd_stat_def)

lemma demo_pop: "pop_issued demo_queued = demo_queued"
proof -
  have "dropWhile (fully_issued demo_queued) (io_queues demo_queued pr) = io_queues demo_queued pr" for pr
    by (simp add: demo_queued_facts fully_issued_def demo_pending_def)
  then show ?thesis by (simp add: pop_issued_def)
qed

lemma demo_picks: "pick_chunk demo_files 0 demo_queued = (True, demo_picked)"
proof -
  have r: "\<not> rescue demo_queued" by (simp add: rescue_def demo_queued_facts)
  have h: "head_class demo_queued = Some BlockingMiss"
    using r by (simp add: head_class_def all_classes_def demo_queued_facts)
  have "\<not> throttled demo_queued 0 BlockingMiss" by (simp add: throttled_def)
  moreover have "qd_cap demo_queued BlockingMiss = 8" "byte_cap demo_queued BlockingMiss = 33554432"
    using r by (simp_all add: qd_cap_def byte_cap_def demo_queued_facts demo_started_facts)
  ultimately have "fst (pick_chunk demo_files 0 demo_queued)"
    using h by (simp add: pick_chunk_def demo_pop Let_def demo_queued_facts)
  then show ?thesis by (simp add: demo_picked_def prod_eq_iff)
qed

lemma demo_io_reachable: "io_reachable demo_files demo_started" "io_reachable demo_files demo_queued"
  "io_reachable demo_files demo_picked" "io_reachable demo_files demo_sent"
proof -
  show s: "io_reachable demo_files demo_started"
    by (rule io_reachable.boot [OF demo_started_facts(1)]) (simp_all add: demo_started_facts)
  show q: "io_reachable demo_files demo_queued" unfolding demo_queued_def by (rule io_reachable.step [OF s]) simp
  show p: "io_reachable demo_files demo_picked" unfolding demo_picked_def
    by (rule io_reachable.step [OF q]) (simp add: demo_queued_facts kKeepAliveChunkBase_def)
  show "io_reachable demo_files demo_sent" unfolding demo_sent_def by (rule io_reachable.step [OF p]) simp
qed

text \<open>The same run from the dispatcher's view: three steps of work and the request is answered.\<close>

lemma demo_picked_is: "demo_picked = issue_chunk demo_files 1 demo_pending demo_queued"
proof -
  have "head_class demo_queued = Some BlockingMiss"
    by (simp add: head_class_def all_classes_def demo_queued_facts rescue_def)
  then show ?thesis using demo_picks
    by (simp add: pick_chunk_def demo_pop Let_def demo_queued_facts split: if_splits)
qed

lemma demo_picked_facts:
  "io_tune demo_picked = io_tune demo_started"
  "io_pendings demo_picked = [1 \<mapsto> demo_pending\<lparr>pn_next := 1, pn_issued := 1\<rparr>]"
  "io_chunk_owner demo_picked = [1 \<mapsto> \<lparr>fc_owner = 1, fc_bytes = 8192, fc_src = None\<rparr>]" "io_outstanding demo_picked = 1"
  "map cr_chunk_id (io_submit_q demo_picked) = [1]" "io_failed_q demo_picked = []" "io_at_backend demo_picked = []"
  "io_callbacks demo_picked = []" "io_next_request demo_picked = 2"
  by (simp_all add: demo_picked_is issue_chunk_def Let_def demo_queued_facts demo_pending_def demo_request_def chunk_request_of_def)

lemma demo_sent_facts:
  "io_pendings demo_sent = [1 \<mapsto> demo_pending\<lparr>pn_next := 1, pn_issued := 1\<rparr>]"
  "io_chunk_owner demo_sent = [1 \<mapsto> \<lparr>fc_owner = 1, fc_bytes = 8192, fc_src = None\<rparr>]" "io_outstanding demo_sent = 1"
  "io_at_backend demo_sent = [1]" "io_callbacks demo_sent = []" "io_next_request demo_sent = 2"
  using demo_picked_facts by (auto simp: demo_sent_def do_submit_def split: list.splits)

lemma demo_done_facts:
  "map rs_id (io_callbacks demo_done) = [1]" "io_outstanding demo_done = 0" "map rs_status (io_callbacks demo_done) = [ErrOk]"
proof -
  let ?c = "\<lparr>cc_chunk_id = 1, cc_bytes_moved = 8192, cc_status = ErrOk\<rparr> :: chunk_completion"
  let ?fc = "\<lparr>fc_owner = 1, fc_bytes = 8192, fc_src = None\<rparr> :: inflight_chunk"
  let ?p = "land_chunk ?c ?fc (demo_pending\<lparr>pn_next := 1, pn_issued := 1\<rparr>)"
  have f: "finished ?p" "\<not> goes_back ?p" "result_status ?p = ErrOk"
    by (simp_all add: finished_def goes_back_def result_status_def demo_pending_def land_chunk_def)
  show "map rs_id (io_callbacks demo_done) = [1]" "io_outstanding demo_done = 0" "map rs_status (io_callbacks demo_done) = [ErrOk]"
    using f by (simp_all add: demo_done_def reap_def handle_completion_def finish_keepalive_def kKeepAliveChunkBase_def
        demo_sent_facts Let_def finish_fields)
qed

lemma demo_done_reachable: "io_reachable demo_files demo_done"
  unfolding demo_done_def by (rule io_reachable.step [OF demo_io_reachable(4)]) (simp add: demo_sent_facts)

theorem answered_exactly_once_witness:
  "count_list (map rs_id (io_callbacks demo_done)) 1 = 1 \<and> 0 = card (live (io_pendings demo_done))"
  using answered_exactly_once [OF demo_done_reachable, of 1] by (simp add: demo_done_facts)

theorem inflight_counters_exact_witness: "io_inflight_ops demo_sent = 1"
  using inflight_counters_exact [OF demo_io_reachable(4), of BlockingMiss] by (simp add: demo_sent_facts)

theorem engine_drains_witness:
  "io_load demo_queued = 3 \<and> (io_work demo_files ^^ 1) demo_queued demo_picked \<and> (\<exists>e''. io_work demo_files demo_picked e'')"
proof -
  have l: "io_load demo_queued = 3"
    by (simp add: io_load_def heap_load_def demo_queued_facts req_load_def demo_pending_def)
  have "io_work demo_files demo_queued demo_picked"
    by (rule work_pick [OF _ demo_picks]) (simp add: demo_queued_facts kKeepAliveChunkBase_def)
  then have "(io_work demo_files ^^ 1) demo_queued demo_picked" by (simp add: relcompp_apply)
  moreover have "caps_positive (io_tune demo_queued)" by (simp add: caps_positive_def demo_queued_facts demo_started_facts)
  ultimately show ?thesis
    using engine_drains [OF demo_io_reachable(2), of 1 demo_picked] l
    by (simp add: demo_queued_facts demo_picked_facts kKeepAliveChunkBase_def)
qed

end
