(* ===== verification/Io_Engine_Sched.thy ===== *)
theory Io_Engine_Sched
  imports Io_Engine_Props
begin

text \<open>
  The policy of the dispatcher: queue depths, strict priority of P0, where a chunk lands, and that
  the issue loop ends.
\<close>

section \<open>Queue depths\<close>

text \<open>
  What bounds the in-flight chunks: the depths of P0 and of the engram class are clamped to the
  backend's queue, and the background depth is within it unless it was overridden.
\<close>

definition depth_ok :: "io_engine \<Rightarrow> bool" where
  "depth_ok e \<longleftrightarrow> tn_p0_qd (io_tune e) \<le> bc_max_queue_depth (io_caps e)
     \<and> tn_engram_qd (io_tune e) \<le> bc_max_queue_depth (io_caps e)
     \<and> (tn_bg_qd (io_tune e) \<le> bc_max_queue_depth (io_caps e) \<longrightarrow> io_inflight_ops e \<le> unat (bc_max_queue_depth (io_caps e)))"

lemma depth_ok_less:
  "depth_ok e \<Longrightarrow> io_tune e' = io_tune e \<Longrightarrow> io_caps e' = io_caps e \<Longrightarrow> io_inflight_ops e' \<le> io_inflight_ops e \<Longrightarrow> depth_ok e'"
  by (auto simp: depth_ok_def)

lemma clamp_le: "clamp v hi \<le> hi"
  by (auto simp: clamp_def not_less)

lemma pick_depth:
  assumes "io_inv e" "depth_ok e"
  shows "depth_ok (snd (pick_chunk fs now e))"
  using io_invD(2) [OF assms(1)]
proof (cases rule: pick_chunk_cases [where fs = fs and now = now])
  case none
  then show ?thesis using assms(2) by (simp add: depth_ok_def)
next
  case (some rid p)
  have le: "qd_cap (pop_issued e) cls \<le> unat (bc_max_queue_depth (io_caps e))"
    if "tn_bg_qd (io_tune e) \<le> bc_max_queue_depth (io_caps e)" for cls
    using that assms(2) by (simp add: depth_ok_def qd_cap_def rescue_qd_def word_le_nat_alt min.coboundedI1)
  have "io_inflight_ops (issue_chunk fs rid p (pop_issued e)) = io_inflight_ops e + 1"
    "io_tune (issue_chunk fs rid p (pop_issued e)) = io_tune e" "io_caps (issue_chunk fs rid p (pop_issued e)) = io_caps e"
    by (simp_all add: issue_chunk_def Let_def)
  then show ?thesis using some(6) assms(2) le [of "class_of p"] by (auto simp: some(3) depth_ok_def)
qed

lemma completion_ops:
  "io_inflight_ops (handle_completion c now e) \<le> io_inflight_ops e" "io_caps (handle_completion c now e) = io_caps e"
  by (auto simp: handle_completion_def finish_keepalive_def Let_def finish_fields split: option.split)

lemma submit_ops:
  "io_inflight_ops (snd (submit fs req now e)) = io_inflight_ops e" "io_tune (snd (submit fs req now e)) = io_tune e"
  "io_caps (snd (submit fs req now e)) = io_caps e"
proof -
  obtain r e' where s: "submit fs req now e = (r, e')" by fastforce
  then have "io_inflight_ops e' = io_inflight_ops e \<and> io_tune e' = io_tune e \<and> io_caps e' = io_caps e"
    by (cases rule: submit_cases) (simp_all add: enqueue_def Let_def)
  then show "io_inflight_ops (snd (submit fs req now e)) = io_inflight_ops e" "io_tune (snd (submit fs req now e)) = io_tune e"
    "io_caps (snd (submit fs req now e)) = io_caps e" using s by simp_all
qed

lemma cancel_ops:
  "io_inflight_ops (snd (cancel rid now e)) = io_inflight_ops e" "io_tune (snd (cancel rid now e)) = io_tune e"
  "io_caps (snd (cancel rid now e)) = io_caps e"
  by (simp_all add: cancel_def answer_def split: option.split)

lemma run_io_op_depth:
  assumes "io_inv e" "depth_ok e"
  shows "depth_ok (run_io_op fs op e)"
proof (cases op)
  case (OpSetP0Depth qd bytes)
  then show ?thesis using assms(2) clamp_le by (simp add: set_p0_depth_def depth_ok_def)
next
  case (OpDoSubmit er)
  then show ?thesis using depth_ok_less [OF assms(2)] by (auto simp: do_submit_def split: list.split option.split)
next
  case (OpRefused now)
  show ?thesis
  proof (cases "io_failed_q e")
    case (Cons c q)
    show ?thesis using completion_ops(1) [of c now "e\<lparr>io_failed_q := q\<rparr>"]
      by (intro depth_ok_less [OF assms(2)]) (simp_all add: OpRefused handle_refused_def Cons completion_fields completion_ops(2))
  qed (simp add: OpRefused handle_refused_def assms(2))
next
  case (OpReap c now)
  show ?thesis using completion_ops(1) [of c now "e\<lparr>io_at_backend := remove1 (cc_chunk_id c) (io_at_backend e)\<rparr>"]
    by (intro depth_ok_less [OF assms(2)]) (simp_all add: OpReap reap_def completion_fields completion_ops(2))
next
  case (OpPoked c now)
  then show ?thesis using completion_ops [of c now e] by (intro depth_ok_less [OF assms(2)]) (simp_all add: completion_fields)
next
  case (OpPick now)
  then show ?thesis by (simp add: pick_depth [OF assms])
qed (rule depth_ok_less [OF assms(2)]; simp add: submit_ops cancel_ops io_stop_def io_reset_stats_def engram_wait_def engram_wait_over_def set_engram_wait_priority_def)+

lemma reachable_depth_ok: "io_reachable fs e \<Longrightarrow> depth_ok e"
proof (induction rule: io_reachable.induct)
  case (boot caps cfg ov e)
  then show ?case by (auto simp: io_start_def Let_def idle_engine_def depth_ok_def clamp_le)
next
  case (step e op)
  then show ?case by (intro run_io_op_depth reachable_io_inv) auto
qed

text \<open>
  The engine never has more chunks in flight than the backend's queue holds, whatever is
  submitted, cancelled, retried or retuned with \<^verbatim>\<open>set_p0_depth\<close> meanwhile, as long as the background
  depth was not overridden beyond that queue.
\<close>

theorem queue_depth_bounded:
  assumes "io_reachable fs e" "tn_bg_qd (io_tune e) \<le> bc_max_queue_depth (io_caps e)"
  shows "io_inflight_ops e \<le> unat (bc_max_queue_depth (io_caps e))
    \<and> tn_p0_qd (io_tune e) \<le> bc_max_queue_depth (io_caps e) \<and> tn_engram_qd (io_tune e) \<le> bc_max_queue_depth (io_caps e)"
  using reachable_depth_ok [OF assms(1)] assms(2) by (simp add: depth_ok_def)

theorem queue_depth_bounded_witness: "io_inflight_ops demo_queued \<le> 64"
  using queue_depth_bounded [OF demo_io_reachable(2)] by (simp add: demo_queued_facts demo_started_facts demo_caps_def)

section \<open>Priority\<close>

text \<open>
  P0 goes first: when the dispatcher picks a chunk while a P0 request still has chunks to issue
  and no one waits for engram rows, the chunk is a P0 chunk, so the chunks in flight of every other
  class stay as they are. The same holds one level down for each class and those above it.
\<close>

theorem strict_priority:
  assumes "io_reachable fs e" "pick_chunk fs now e = (True, e')" "io_engram_waiters e = 0"
    and "io_pendings e rid = Some p" "pn_next p < length (pn_chunks p)"
    and "io_priority_ord (class_of p) < io_priority_ord pr"
  shows "io_inflight_class e' pr = io_inflight_class e pr"
proof -
  have q: "queues_ok (io_pendings e) (io_queues e)" by (rule io_invD(2) [OF reachable_io_inv [OF assms(1)]])
  then show ?thesis
  proof (cases rule: pick_chunk_cases [where fs = fs and now = now])
    case (some r x)
    have "rid \<in> set (io_queues e (class_of p))" "\<not> fully_issued e rid"
      using q assms(4,5) by (auto simp: queues_ok_def fully_issued_def)
    then have ne: "io_queues (pop_issued e) (class_of p) \<noteq> []" by (auto simp: pop_issued_def)
    have "\<not> rescue (pop_issued e)" using assms(3) by (simp add: rescue_def pop_issued_def)
    then have f: "find (\<lambda>pr. io_queues (pop_issued e) pr \<noteq> []) all_classes = Some (class_of x)"
      using some(4) by (simp add: head_class_def)
    have "io_priority_ord (class_of x) \<le> io_priority_ord (class_of p)"
      using f ne by (cases "class_of p"; cases "class_of x") (auto simp: all_classes_def split: if_splits)
    then have "class_of x \<noteq> pr" using assms(6) by auto
    then show ?thesis using some(3) assms(2) by (auto simp: issue_chunk_def Let_def class_of_def)
  qed (use assms(2) in simp)
qed

theorem strict_priority_witness: "io_inflight_class demo_picked Backfill = io_inflight_class demo_queued Backfill"
  by (rule strict_priority [OF demo_io_reachable(2) demo_picks, of 1 demo_pending])
    (simp_all add: demo_queued_facts demo_pending_def class_of_def demo_request_def)

section \<open>Where chunks land\<close>

text \<open>What a request asks for, which no step changes, and what a request is cut into.\<close>

definition same_read :: "pending \<Rightarrow> pending \<Rightarrow> bool" where
  "same_read p q \<longleftrightarrow> pn_chunks q = pn_chunks p \<and> rq_file_off (pn_req q) = rq_file_off (pn_req p)
     \<and> rq_bytes (pn_req q) = rq_bytes (pn_req p) \<and> rq_dst (pn_req q) = rq_dst (pn_req p) \<and> class_of q = class_of p"

definition planned :: "pending \<Rightarrow> bool" where
  "planned p \<longleftrightarrow> (\<exists>c a. c \<noteq> 0 \<and> pn_chunks p = plan_chunks (rq_file_off (pn_req p)) (rq_bytes (pn_req p)) c a)"

lemma same_read_refl [simp]: "same_read p p"
  by (simp add: same_read_def)

lemma same_read_trans: "same_read p q \<Longrightarrow> same_read q r \<Longrightarrow> same_read p r"
  by (simp add: same_read_def)

lemma planned_same_read: "planned p \<Longrightarrow> same_read p q \<Longrightarrow> planned q"
  by (simp add: planned_def same_read_def)

lemma same_read_land [simp]: "same_read p (land_chunk c fc p)"
  by (simp add: same_read_def)

lemma same_read_failed_over: "same_read p (failed_over p)"
  by (simp add: same_read_def failed_over_def class_of_def)

definition all_planned :: "io_engine \<Rightarrow> bool" where
  "all_planned e \<longleftrightarrow> (\<forall>rid p. io_pendings e rid = Some p \<longrightarrow> planned p)"

lemma all_plannedI:
  assumes "all_planned e" "\<And>rid q. io_pendings e' rid = Some q \<Longrightarrow> planned q \<or> (\<exists>r p. io_pendings e r = Some p \<and> same_read p q)"
  shows "all_planned e'"
  using assms planned_same_read unfolding all_planned_def by blast

lemma completion_planned:
  assumes "all_planned e"
  shows "all_planned (handle_completion c now e)"
proof (cases "finish_keepalive c now e")
  case None
  show ?thesis
  proof (cases "io_chunk_owner e (cc_chunk_id c)")
    case fc: (Some fc)
    show ?thesis
    proof (cases "io_pendings e (fc_owner fc)")
      case (Some p)
      have p: "planned p" using assms Some by (simp add: all_planned_def)
      then have "planned (land_chunk c fc p)" "planned (failed_over (land_chunk c fc p))"
        using planned_same_read same_read_land same_read_failed_over by blast+
      then show ?thesis using assms
        by (simp add: handle_completion_def None fc Some Let_def all_planned_def finish_fields)
    qed (simp add: handle_completion_def None fc assms)
  qed (simp add: handle_completion_def None assms)
next
  case (Some k)
  then show ?thesis using assms by (auto simp: handle_completion_def finish_keepalive_def all_planned_def split: if_splits)
qed

lemma submit_planned:
  assumes "io_inv e" "all_planned e"
  shows "all_planned (snd (submit fs req now e))"
proof -
  obtain r e' where s: "submit fs req now e = (r, e')" by fastforce
  then have "all_planned e'"
  proof (cases rule: submit_cases)
    case (accepted f rt src0 required p src1)
    let ?c = "if rq_priority req = BlockingMiss then tn_p0_chunk_bytes (io_tune e) else io_bg_chunk_bytes e"
    have c: "?c \<noteq> 0" using io_invD(7,8) [OF assms(1)] by simp
    define q where "q = new_pending e req f rt required"
    have fresh: "fresh_pending q" using accepted(3) c by (simp add: q_def new_pending_def fresh_pending_def plan_chunks_nonempty)
    have "pn_chunks p = pn_chunks q \<and> pn_req p = pn_req q"
    proof -
      have "fresh_pending (q\<lparr>pn_src_file := rt_row rt\<rparr>)" using fresh by (simp add: fresh_pending_def)
      from stripe_fold_fresh [OF this] show ?thesis using accepted(4)
        by (auto simp: stripe_request_def q_def [symmetric] split: if_splits prod.splits) (metis fst_conv pending.select_convs(1,2) pending.simps)+
    qed
    then have "planned p" using c unfolding planned_def
      by (intro exI [of _ ?c] exI [of _ "bc_alignment (io_caps e)"]) (simp add: q_def new_pending_def)
    then show ?thesis using assms(2) accepted(6) by (simp add: all_planned_def enqueue_def Let_def)
  qed (use assms(2) in \<open>simp add: all_planned_def\<close>)
  then show ?thesis by (simp add: s)
qed

lemma run_io_op_planned:
  assumes "io_inv e" "all_planned e"
  shows "all_planned (run_io_op fs op e)"
proof (cases op)
  case (OpSubmit req now)
  then show ?thesis by (simp add: submit_planned [OF assms])
next
  case (OpCancel rid now)
  show ?thesis using assms(2) by (simp add: OpCancel cancel_def answer_def all_planned_def split: option.split)
next
  case (OpPick now)
  show ?thesis using io_invD(2) [OF assms(1)]
  proof (cases rule: pick_chunk_cases [where fs = fs and now = now])
    case (some rid p)
    have "same_read p (p\<lparr>pn_next := pn_next p + 1, pn_issued := pn_issued p + 1\<rparr>)" by (simp add: same_read_def class_of_def)
    then have "planned (p\<lparr>pn_next := pn_next p + 1, pn_issued := pn_issued p + 1\<rparr>)"
      using assms(2) some(1) planned_same_read by (auto simp: all_planned_def)
    then show ?thesis using assms(2) by (simp add: OpPick some(3) issue_chunk_def Let_def all_planned_def)
  qed (use assms(2) in \<open>simp add: OpPick all_planned_def\<close>)
next
  case (OpDoSubmit er)
  then show ?thesis using assms(2) by (simp add: do_submit_def all_planned_def split: list.split option.split)
next
  case (OpRefused now)
  show ?thesis
  proof (cases "io_failed_q e")
    case (Cons c q)
    have "all_planned (e\<lparr>io_failed_q := q\<rparr>)" using assms(2) by (simp add: all_planned_def)
    then show ?thesis by (simp add: OpRefused handle_refused_def Cons completion_planned)
  qed (simp add: OpRefused handle_refused_def assms(2))
next
  case (OpReap c now)
  have "all_planned (e\<lparr>io_at_backend := remove1 (cc_chunk_id c) (io_at_backend e)\<rparr>)" using assms(2) by (simp add: all_planned_def)
  then show ?thesis by (simp add: OpReap reap_def completion_planned)
next
  case (OpPoked c now)
  then show ?thesis using assms(2) by (simp add: completion_planned)
qed (use assms(2) in \<open>simp_all add: io_stop_def io_reset_stats_def
      engram_wait_def engram_wait_over_def set_engram_wait_priority_def set_p0_depth_def all_planned_def\<close>)

lemma reachable_planned: "io_reachable fs e \<Longrightarrow> all_planned e"
proof (induction rule: io_reachable.induct)
  case (boot caps cfg ov e)
  then show ?case by (auto simp: io_start_def Let_def idle_engine_def all_planned_def)
next
  case (step e op)
  then show ?case by (intro run_io_op_planned reachable_io_inv) auto
qed

lemma tiles_within: "tiles off cs bytes \<Longrightarrow> c \<in> set cs \<Longrightarrow> off \<le> unat (ch_off c) \<and> unat (ch_off c) + unat (ch_bytes c) \<le> off + bytes"
proof (induction cs arbitrary: off bytes)
  case (Cons d cs)
  show ?case
  proof (cases "c \<in> set cs")
    case True
    then have "off + unat (ch_bytes d) \<le> unat (ch_off c)
        \<and> unat (ch_off c) + unat (ch_bytes c) \<le> off + unat (ch_bytes d) + (bytes - unat (ch_bytes d))"
      using Cons.prems(1) by (intro Cons.IH) simp_all
    then show ?thesis using Cons.prems(1) by simp
  next
    case False
    then show ?thesis using Cons.prems by simp
  qed
qed simp

text \<open>
  A chunk the dispatcher picks belongs to a request in the engine, asks for bytes inside the
  range that the request asked for, and is placed in the destination buffer at the same distance
  from its start, so the transfer never leaves the caller's buffer; the part that has to arrive is
  at most the chunk. The request's range must not wrap around the end of the 64-bit offsets.
\<close>

theorem picked_chunk_stays_in_read:
  assumes "io_reachable fs e" "pick_chunk fs now e = (True, e')"
  shows "\<exists>rid p cr. io_pendings e rid = Some p \<and> io_submit_q e' = io_submit_q e @ [cr]
    \<and> map_option fc_owner (io_chunk_owner e' (cr_chunk_id cr)) = Some rid
    \<and> cr_dst cr = rq_dst (pn_req p) + (cr_file_off cr - rq_file_off (pn_req p))
    \<and> unat (cr_min_bytes cr) \<le> unat (cr_bytes cr)
    \<and> (unat (rq_file_off (pn_req p)) + unat (rq_bytes (pn_req p)) < 2 ^ 64 \<longrightarrow>
        unat (rq_file_off (pn_req p)) \<le> unat (cr_file_off cr)
        \<and> unat (cr_file_off cr) + unat (cr_bytes cr) \<le> unat (rq_file_off (pn_req p)) + unat (rq_bytes (pn_req p)))"
proof -
  have "queues_ok (io_pendings e) (io_queues e)" by (rule io_invD(2) [OF reachable_io_inv [OF assms(1)]])
  then show ?thesis
  proof (cases rule: pick_chunk_cases [where fs = fs and now = now])
    case (some rid p)
    define cr where "cr = chunk_request_of fs (io_next_chunk e) p (pn_next p)"
    define ch where "ch = pn_chunks p ! pn_next p"
    have e': "e' = issue_chunk fs rid p (pop_issued e)" using some(3) assms(2) by simp
    have c: "cr_chunk_id cr = io_next_chunk e" "cr_file_off cr = ch_off ch" "cr_bytes cr = ch_bytes ch"
      "cr_dst cr = rq_dst (pn_req p) + (ch_off ch - rq_file_off (pn_req p))"
      by (simp_all add: cr_def chunk_request_of_def Let_def ch_def)
    have q: "io_submit_q e' = io_submit_q e @ [cr]" "map_option fc_owner (io_chunk_owner e' (cr_chunk_id cr)) = Some rid"
      using c(1) by (simp_all add: e' issue_chunk_def Let_def cr_def)
    define m where "m = min (ucast (ch_bytes ch) :: u64) (case rq_file (pn_req p) of Some f \<Rightarrow>
       if fi_size (fs f) > ch_off ch then fi_size (fs f) - ch_off ch else 0 | None \<Rightarrow> 0)"
    have "cr_min_bytes cr = ucast m" by (simp add: cr_def chunk_request_of_def Let_def ch_def m_def split: option.split)
    moreover have "unat (ucast m :: u32) \<le> unat m" by (simp add: unsigned_ucast_eq take_bit_nat_less_eq_self)
    moreover have "unat m \<le> unat (ch_bytes ch)" using min.cobounded1 [of "ucast (ch_bytes ch) :: u64"]
      by (simp add: m_def word_le_nat_alt)
    ultimately have min: "unat (cr_min_bytes cr) \<le> unat (cr_bytes cr)" using c(3) by simp
    have "planned p" using reachable_planned [OF assms(1)] some(1) by (simp add: all_planned_def)
    then obtain k a where k: "k \<noteq> 0" "pn_chunks p = plan_chunks (rq_file_off (pn_req p)) (rq_bytes (pn_req p)) k a"
      by (auto simp: planned_def)
    have mem: "ch \<in> set (pn_chunks p)" using some(2) by (simp add: ch_def)
    have "unat (rq_file_off (pn_req p)) \<le> unat (ch_off ch)
        \<and> unat (ch_off ch) + unat (ch_bytes ch) \<le> unat (rq_file_off (pn_req p)) + unat (rq_bytes (pn_req p))"
      if "unat (rq_file_off (pn_req p)) + unat (rq_bytes (pn_req p)) < 2 ^ 64"
    proof (rule tiles_within [OF _ mem])
      have "rq_bytes (pn_req p) \<noteq> 0" using mem k by (auto simp: plan_chunks_def)
      then show "tiles (unat (rq_file_off (pn_req p))) (pn_chunks p) (unat (rq_bytes (pn_req p)))"
        using plan_loop_tiles [OF chunk_step_pos [OF k(1), of a] that] k by (simp add: plan_chunks_def)
    qed
    then show ?thesis using some(1) q c min by (intro exI [of _ rid] exI [of _ p] exI [of _ cr]) simp
  qed (use assms(2) in simp)
qed

theorem picked_chunk_stays_in_read_witness:
  "\<exists>cr. io_submit_q demo_picked = [cr] \<and> unat (cr_min_bytes cr) \<le> unat (cr_bytes cr)"
  using picked_chunk_stays_in_read [OF demo_io_reachable(2) demo_picks] by (auto simp: demo_queued_facts)

section \<open>The issue loop ends\<close>

definition queue_ids :: "io_engine \<Rightarrow> nat list" where
  "queue_ids e = concat (map (io_queues e) all_classes)"

lemma issue_bound_ids: "issue_bound e = Suc (sum_list (map (remaining e) (queue_ids e)))"
  by (simp add: issue_bound_def queue_ids_def)

lemma queue_ids_distinct:
  assumes "queues_ok (io_pendings e) (io_queues e)"
  shows "distinct (queue_ids e)"
proof -
  have d: "distinct (io_queues e pr)" for pr using assms by (simp add: queues_ok_def)
  have "set (io_queues e a) \<inter> set (io_queues e b) = {}" if "a \<noteq> b" for a b
  proof -
    have "\<exists>p. io_pendings e x = Some p \<and> class_of p = pr" if "x \<in> set (io_queues e pr)" for x pr
      using assms that by (simp add: queues_ok_def)
    then show ?thesis using \<open>a \<noteq> b\<close> by (metis (no_types, lifting) disjoint_iff option.inject)
  qed
  then show ?thesis using d by (simp add: queue_ids_def all_classes_def Int_Un_distrib)
qed

lemma sum_dropWhile_zero: "(\<And>x. P x \<Longrightarrow> f x = (0 :: nat)) \<Longrightarrow> sum_list (map f (dropWhile P xs)) = sum_list (map f xs)"
  by (induction xs) auto

lemma pop_issued_load: "sum_list (map (remaining e) (queue_ids (pop_issued e))) = sum_list (map (remaining e) (queue_ids e))"
proof -
  have "remaining e rid = 0" if "fully_issued e rid" for rid
    using that by (auto simp: fully_issued_def remaining_def split: option.splits)
  then show ?thesis
    by (simp add: queue_ids_def all_classes_def pop_issued_def sum_dropWhile_zero)
qed

lemma sum_list_upd:
  assumes "distinct xs" "x \<in> set xs" "f x = g x + (1 :: nat)" "\<And>y. y \<noteq> x \<Longrightarrow> f y = g y"
  shows "sum_list (map f xs) = sum_list (map g xs) + 1"
  using assms(1,2)
proof (induction xs)
  case (Cons y ys)
  show ?case
  proof (cases "y = x")
    case True
    then have "f z = g z" if "z \<in> set ys" for z using Cons.prems(1) that by (intro assms(4)) auto
    then have "sum_list (map f ys) = sum_list (map g ys)" by (intro arg_cong [where f = sum_list] map_cong) auto
    then show ?thesis using True assms(3) by simp
  next
    case False
    then show ?thesis using Cons assms(4) [OF False] by simp
  qed
qed simp

lemma pick_issue_load:
  assumes "io_inv e" "pick_chunk fs now e = (True, e')"
  shows "sum_list (map (remaining e) (queue_ids e)) = sum_list (map (remaining e') (queue_ids e')) + 1 \<and> io_inv (pop_issued e)"
  using io_invD(2) [OF assms(1)]
proof (cases rule: pick_chunk_cases [where fs = fs and now = now])
  case (some rid p)
  let ?e = "pop_issued e"
  have inv: "io_inv ?e" by (rule pop_issued_inv [OF assms(1)])
  have e': "e' = issue_chunk fs rid p ?e" using some(3) assms(2) by simp
  have ids: "queue_ids e' = queue_ids ?e" by (simp add: e' issue_chunk_def Let_def queue_ids_def)
  have "rid \<in> set (io_queues ?e (class_of p))" using io_invD(2) [OF inv] some(1,2) by (simp add: queues_ok_def)
  then have mem: "rid \<in> set (queue_ids ?e)" using class_in_all by (auto simp: queue_ids_def)
  have up: "remaining ?e rid = remaining e' rid + 1" using some(1,2) by (simp add: remaining_def e' issue_chunk_def Let_def)
  have other: "remaining ?e r = remaining e' r" if "r \<noteq> rid" for r using that by (simp add: remaining_def e' issue_chunk_def Let_def)
  have "remaining ?e = remaining e" by (simp add: remaining_def fun_eq_iff)
  then show ?thesis
    using sum_list_upd [where f = "remaining ?e" and g = "remaining e'",
        OF queue_ids_distinct [OF io_invD(2) [OF inv]] mem up other] pop_issued_load [of e] inv
    by (simp add: ids)
qed (use assms(2) in simp)

lemma issue_loop_returns:
  assumes "io_inv e" "io_next_chunk e + sum_list (map (remaining e) (queue_ids e)) < kKeepAliveChunkBase"
    "sum_list (map (remaining e) (queue_ids e)) < n"
  shows "\<exists>k e'. issue_loop n fs be now issued e = Some (issued + k, e') \<and> k \<le> sum_list (map (remaining e) (queue_ids e)) \<and> io_inv e'"
  using assms
proof (induction n arbitrary: e issued)
  case (Suc n)
  obtain b e1 where p: "pick_chunk fs now e = (b, e1)" by fastforce
  show ?case
  proof (cases b)
    case False
    then show ?thesis using p pick_chunk_inv [OF Suc.prems(1), of fs now] Suc.prems(2) by auto
  next
    case True
    note pick = p [unfolded True [THEN eqTrueI]]
    have s: "queue_ids (do_submit be e1) = queue_ids e1" "remaining (do_submit be e1) = remaining e1"
      "io_next_chunk (do_submit be e1) = io_next_chunk e1"
      by (auto simp: do_submit_def queue_ids_def remaining_def fun_eq_iff split: list.split option.split)
    note l = pick_issue_load [OF Suc.prems(1) pick] pick_load [OF Suc.prems(1) pick]
    have i: "io_inv (do_submit be e1)" using pick_chunk_inv [OF Suc.prems(1), of fs now] Suc.prems(2) pick by (simp add: do_submit_inv)
    obtain k e' where "issue_loop n fs be now (issued + 1) (do_submit be e1) = Some (issued + 1 + k, e')"
      "k \<le> sum_list (map (remaining e1) (queue_ids e1))" "io_inv e'"
      using Suc.IH [OF i, of "issued + 1"] Suc.prems(2,3) l s by auto
    then show ?thesis using pick l by (intro exI [of _ "k + 1"] exI [of _ e']) simp
  qed
qed simp

text \<open>
  One call of \<^verbatim>\<open>issue_ready_chunks\<close> ends: the loop makes at most as many rounds as the queued
  requests have chunks left, so the model's bound on the rounds never cuts it short, and it keeps
  the invariant.
\<close>

theorem issue_ready_chunks_returns:
  assumes "io_reachable fs e" "io_next_chunk e + issue_bound e \<le> kKeepAliveChunkBase"
  shows "issue_loop (issue_bound e) fs be now 0 e = Some (issue_ready_chunks fs be now e)
    \<and> fst (issue_ready_chunks fs be now e) < issue_bound e \<and> io_inv (snd (issue_ready_chunks fs be now e))"
  using issue_loop_returns [OF reachable_io_inv [OF assms(1)], of "issue_bound e" fs be now 0] assms(2)
  by (auto simp: issue_bound_ids issue_ready_chunks_def)

theorem issue_ready_chunks_returns_witness: "fst (issue_ready_chunks demo_files (\<lambda>_. None) 0 demo_queued) < 2"
proof -
  have "issue_bound demo_queued = 2"
    by (simp add: issue_bound_def all_classes_def demo_queued_facts remaining_def demo_pending_def)
  then show ?thesis using issue_ready_chunks_returns [OF demo_io_reachable(2), of "\<lambda>_. None" 0]
    by (simp add: demo_queued_facts kKeepAliveChunkBase_def)
qed

end
