(* ===== verification/Io_Sources.thy ===== *)
theory Io_Sources
  imports Io_Engine_Sched
begin

text \<open>
  The sources of the read engine: how many requests each carries, that a mirror is poked or taken
  back only while it carries none, that the primary is never taken out of the router, and how the
  charges of a routed request are given back.
\<close>

section \<open>What each source carries\<close>

text \<open>Whether a request was charged to source \<open>s\<close>, whole or as a share of its stripes.\<close>

definition uses :: "nat \<Rightarrow> pending \<Rightarrow> bool" where
  "uses s p \<longleftrightarrow> (if pn_routed p then pn_source p = s else has_bit (pn_src_used p) s)"

definition carried :: "(nat \<Rightarrow> pending option) \<Rightarrow> nat \<Rightarrow> nat set" where
  "carried pend s = {rid. \<exists>p. pend rid = Some p \<and> \<not> finished p \<and> uses s p}"

definition sources_ok :: "io_engine \<Rightarrow> bool" where
  "sources_ok e \<longleftrightarrow> (\<forall>s < kMaxIoSources. card (carried (io_pendings e) s) \<le> sr_inflight (io_src e) s)
     \<and> (\<forall>rid p. io_pendings e rid = Some p \<and> pn_routed p \<longrightarrow> pn_src_used p = 0)"

lemma sr_inflight_simps [simp]:
  "sr_inflight (upd_source_stats s f src) = sr_inflight src"
  "sr_inflight (note_source_result s ok src) = sr_inflight src"
  by (simp_all add: upd_source_stats_def note_source_result_def Let_def split: prod.split)

lemma sr_inflight_start: "sr_inflight (note_source_start s now src) = (sr_inflight src)(s := sr_inflight src s + 1)"
  by (simp add: note_source_start_def Let_def)

lemma sr_inflight_done: "sr_inflight (source_done s b now src) = (sr_inflight src)(s := sr_inflight src s - 1)"
  by (simp add: source_done_def)

text \<open>A fold over the sources that works on each of them once.\<close>

lemma fold_each:
  assumes "\<And>s src. sr_inflight (f s src) = (if P s then (sr_inflight src)(s := h (sr_inflight src s)) else sr_inflight src)"
    and "distinct xs"
  shows "sr_inflight (fold f xs src) s = (if s \<in> set xs \<and> P s then h (sr_inflight src s) else sr_inflight src s)"
  using assms(2) by (induction xs arbitrary: src) (auto simp: assms(1))

lemma sr_inflight_release:
  "s < kMaxIoSources \<Longrightarrow> sr_inflight (release_shares p now src) s = (if has_bit (pn_src_used p) s then sr_inflight src s - 1 else sr_inflight src s)"
  unfolding release_shares_def
  by (subst fold_each [where P = "has_bit (pn_src_used p)" and h = "\<lambda>x. x - 1"]) (auto simp: sr_inflight_done)

lemma sr_inflight_finish:
  assumes "s < kMaxIoSources"
  shows "sr_inflight (finish_sources p moved ok now src) s = (if uses s p then sr_inflight src s - 1 else sr_inflight src s)"
proof -
  have "sr_inflight (finish_share p now t src) = (if has_bit (pn_src_used p) t then (sr_inflight src)(t := sr_inflight src t - 1) else sr_inflight src)"
    for t src by (simp add: finish_share_def Let_def sr_inflight_done)
  then show ?thesis using assms
    by (auto simp: finish_sources_def finish_routed_def Let_def sr_inflight_done uses_def
        fold_each [where P = "has_bit (pn_src_used p)" and h = "\<lambda>x. x - 1"])
qed

lemma sr_inflight_failovers: "sr_inflight (count_failovers p src) = sr_inflight src"
proof -
  have "sr_inflight (fold (\<lambda>s src. if has_bit (pn_src_err p) s then upd_source_stats s f src else src) xs src) = sr_inflight src" for f xs src
    by (induction xs arbitrary: src) auto
  then show ?thesis by (simp add: count_failovers_def Let_def)
qed

lemma carried_finite: "finite (dom pend) \<Longrightarrow> finite (carried pend s)"
  by (auto simp: carried_def dom_def elim: finite_subset [rotated])

lemma carried_same:
  assumes "pend rid = Some p" "finished q = finished p" "uses s q = uses s p"
  shows "carried (pend(rid \<mapsto> q)) s = carried pend s"
proof (rule set_eqI)
  show "r \<in> carried (pend(rid \<mapsto> q)) s \<longleftrightarrow> r \<in> carried pend s" for r
    using assms by (cases "r = rid") (simp_all add: carried_def)
qed

lemma carried_gone:
  assumes "finished q \<or> \<not> uses s q"
  shows "carried (pend(rid \<mapsto> q)) s = carried pend s - {rid}"
proof (rule set_eqI)
  show "r \<in> carried (pend(rid \<mapsto> q)) s \<longleftrightarrow> r \<in> carried pend s - {rid}" for r
    using assms by (cases "r = rid") (auto simp: carried_def)
qed

lemma carried_mem: "pend rid = Some p \<Longrightarrow> rid \<in> carried pend s \<longleftrightarrow> \<not> finished p \<and> uses s p"
  by (simp add: carried_def)

lemma sources_ok_src:
  "sources_ok e \<Longrightarrow> io_pendings e' = io_pendings e \<Longrightarrow> sr_inflight (io_src e') = sr_inflight (io_src e) \<Longrightarrow> sources_ok e'"
  by (auto simp: sources_ok_def)

section \<open>Submitting and cancelling\<close>

lemma stripe_fold_inflight:
  assumes "s < kMaxIoSources" "fold (stripe_chunk cand row now) cs (p, src) = (q, src')"
  shows "pn_routed q = pn_routed p \<and> (if has_bit (pn_src_used q) s then 1 else 0) + sr_inflight src s
       = (if has_bit (pn_src_used p) s then 1 else 0) + sr_inflight src' s"
  using assms(2)
proof (induction cs arbitrary: p src)
  case (Cons c cs)
  obtain p1 src1 where st: "stripe_chunk cand row now c (p, src) = (p1, src1)" by fastforce
  define t where "t = (let t = pick_source (sr_weights src) (outstanding_span src) cand (unat (ch_bytes c)) in
     if t \<ge> kMaxIoSources \<or> row t = None then 0 else t)"
  have t: "t < kMaxIoSources" by (auto simp: t_def Let_def kMaxIoSources_def)
  have p1: "pn_routed p1 = pn_routed p" "pn_src_used p1 = with_bit (pn_src_used p) t"
    "sr_inflight src1 = (if has_bit (pn_src_used p) t then sr_inflight src else (sr_inflight src)(t := sr_inflight src t + 1))"
    using st by (auto simp: stripe_chunk_def Let_def t_def sr_inflight_start split: if_splits)
  have "fold (stripe_chunk cand row now) cs (p1, src1) = (q, src')" using Cons.prems st by simp
  from Cons.IH [OF this] show ?case using p1 t assms(1) by (auto simp: mask_bit_simps split: if_splits)
qed auto

lemma carried_enqueue:
  assumes "pend n = None" "finite (dom pend)"
  shows "card (carried (pend(n \<mapsto> p)) s) \<le> card (carried pend s) + (if uses s p then 1 else 0)"
proof -
  have "carried (pend(n \<mapsto> p)) s \<subseteq> (if uses s p then insert n (carried pend s) else carried pend s)"
    using assms(1) by (auto simp: carried_def)
  then have "card (carried (pend(n \<mapsto> p)) s) \<le> card (if uses s p then insert n (carried pend s) else carried pend s)"
    by (rule card_mono [rotated]) (simp add: carried_finite [OF assms(2)])
  also have "\<dots> \<le> card (carried pend s) + (if uses s p then 1 else 0)"
    by (simp add: card_insert_if carried_finite [OF assms(2)])
  finally show ?thesis .
qed

lemma route_inflight:
  assumes "route_request fs req f now src = (rt, src')"
  shows "sr_inflight src' = (if rt_routed rt then (sr_inflight src)(rt_source rt := sr_inflight src (rt_source rt) + 1) else sr_inflight src)"
    and "rt_routed rt \<Longrightarrow> rt_stripe_mask rt = 0 \<and> rt_source rt < kMaxIoSources"
  using assms by (auto simp: route_request_def Let_def unrouted_def sr_inflight_start split: if_splits option.splits)

lemma submit_sources:
  assumes "io_inv e" "sources_ok e"
  shows "sources_ok (snd (submit fs req now e))"
proof -
  obtain r e' where s: "submit fs req now e = (r, e')" by fastforce
  have "sources_ok e'"
  proof (cases r)
    case (Inl er)
    have "io_pendings e' = io_pendings e \<and> (\<forall>t. sr_inflight (io_src e) t \<le> sr_inflight (io_src e') t)"
    proof (cases "rq_file req")
      case (Some f)
      obtain rt src0 where rt: "route_request fs req f now (io_src e) = (rt, src0)" by fastforce
      have "sr_inflight (io_src e) t \<le> sr_inflight src0 t"
        "sr_inflight (io_src e) t \<le> sr_inflight (route_guard rt b now src0) t" for t b
        using route_inflight(1) [OF rt] by (auto simp: route_guard_def sr_inflight_done)
      then show ?thesis using s Inl
        by (auto simp: submit_def Some rt Let_def upd_src_def split: if_splits prod.splits)
    qed (use s in \<open>auto simp: submit_def split: if_splits\<close>)
    then show ?thesis using assms(2) by (fastforce simp: sources_ok_def intro: order_trans)
  next
    case (Inr rid)
    from s show ?thesis
    proof (cases rule: submit_cases)
      case (accepted f rt src0 required p src1)
      have n: "io_pendings e (io_next_request e) = None" by (rule fresh_id [OF io_invD(1) [OF assms(1)]])
      have fin: "finite (dom (io_pendings e))" using io_invD(1) [OF assms(1)] by (simp add: reqs_ok_def)
      define p0 where "p0 = new_pending e req f rt required"
      have p0: "pn_routed p0 = rt_routed rt" "pn_source p0 = rt_source rt" "pn_src_used p0 = 0" by (simp_all add: p0_def new_pending_def)
      have "sr_inflight (io_src e) t + (if uses t p then 1 else 0) = sr_inflight src1 t \<and> (pn_routed p \<longrightarrow> pn_src_used p = 0)"
        if t: "t < kMaxIoSources" for t
      proof (cases "rt_stripe_mask rt = 0")
        case True
        then have "p = p0" "src1 = src0" using accepted(4) by (simp_all add: stripe_request_def p0_def)
        then show ?thesis using route_inflight(1) [OF accepted(2)] p0 by (auto simp: uses_def)
      next
        case False
        then have nr: "\<not> rt_routed rt" using route_inflight(2) [OF accepted(2)] by auto
        obtain q src' where q: "fold (stripe_chunk (rt_stripe_mask rt) (rt_row rt) now) (pn_chunks p0) (p0\<lparr>pn_src_file := rt_row rt\<rparr>, src0) = (q, src')"
          by fastforce
        have "src1 = src'" "pn_src_used p = pn_src_used q" "pn_routed p = pn_routed q"
          using accepted(4) False q by (auto simp: stripe_request_def p0_def [symmetric] split: if_splits)
        then show ?thesis using stripe_fold_inflight [OF t q] route_inflight(1) [OF accepted(2)] nr p0 by (auto simp: uses_def)
      qed
      moreover have "0 < kMaxIoSources" by (simp add: kMaxIoSources_def)
      ultimately have up: "pn_routed p \<longrightarrow> pn_src_used p = 0"
        "\<And>t. t < kMaxIoSources \<Longrightarrow> sr_inflight (io_src e) t + (if uses t p then 1 else 0) = sr_inflight src1 t" by blast+
      have "card (carried ((io_pendings e)(io_next_request e \<mapsto> p)) t) \<le> sr_inflight src1 t" if t: "t < kMaxIoSources" for t
      proof -
        have "card (carried (io_pendings e) t) \<le> sr_inflight (io_src e) t" using assms(2) t by (simp add: sources_ok_def)
        then show ?thesis using carried_enqueue [OF n fin, of p t] up(2) [OF t] by linarith
      qed
      then show ?thesis using assms(2) up(1) by (auto simp: sources_ok_def accepted(6) enqueue_def Let_def)
    qed (use Inr in simp)
  qed
  then show ?thesis by (simp add: s)
qed

lemma carried_delete:
  assumes "finite (dom pend)" "pend rid = Some p" "\<not> finished p"
  shows "card (carried (pend(rid := None)) s) = card (carried pend s) - (if uses s p then 1 else 0)"
proof -
  have "carried (pend(rid := None)) s = carried pend s - {rid}" by (auto simp: carried_def)
  moreover have "rid \<in> carried pend s \<longleftrightarrow> uses s p" using assms by (simp add: carried_def)
  ultimately show ?thesis using carried_finite [OF assms(1)] by (simp add: card_Diff_singleton_if)
qed

lemma cancel_sources:
  assumes "io_inv e" "sources_ok e"
  shows "sources_ok (snd (cancel rid now e))"
  using io_invD(2) [OF assms(1)]
proof (cases rule: cancel_cases [where rid = rid and now = now])
  case (found p)
  have fin: "finite (dom (io_pendings e))" using io_invD(1) [OF assms(1)] by (simp add: reqs_ok_def)
  have "pn_chunks p \<noteq> []" using io_invD(1) [OF assms(1)] found(1) by (auto simp: reqs_ok_def req_ok_def)
  then have nf: "\<not> finished p" using found(2) by (simp add: finished_def)
  have "card (carried ((io_pendings e)(rid := None)) s)
      \<le> sr_inflight ((if pn_src_used p \<noteq> 0 then release_shares p now else (\<lambda>src. src)) (io_src e)) s" if s: "s < kMaxIoSources" for s
  proof -
    have "card (carried (io_pendings e) s) \<le> sr_inflight (io_src e) s" using assms(2) s by (simp add: sources_ok_def)
    moreover have "pn_routed p \<longrightarrow> pn_src_used p = 0" using assms(2) found(1) by (auto simp: sources_ok_def)
    ultimately show ?thesis using carried_delete [OF fin found(1) nf, of s] sr_inflight_release [OF s, of p now "io_src e"]
      by (cases "pn_routed p") (auto simp: uses_def)
  qed
  then show ?thesis using assms(2) by (auto simp: found(3) sources_ok_def answer_def)
qed (simp add: assms)

section \<open>Completions\<close>

lemma land_source_inflight: "sr_inflight (land_source fc p now src) = sr_inflight src"
  by (simp add: land_source_def split: option.split)

lemma keepalive_done_inflight:
  assumes "finish_keepalive c now e = Some k"
  shows "io_pendings k = io_pendings e \<and> sr_inflight (io_src k) = sr_inflight (io_src e)"
  using assms by (auto simp: finish_keepalive_def split: if_splits option.split)

lemma completion_sources:
  assumes "io_core e" "sources_ok e"
  shows "sources_ok (handle_completion c now e)"
proof (cases "finish_keepalive c now e")
  case (Some k)
  then show ?thesis using keepalive_done_inflight [OF Some] sources_ok_src [OF assms(2), of k] by (simp add: handle_completion_def)
next
  case None
  show ?thesis
  proof (cases "io_chunk_owner e (cc_chunk_id c)")
    case fc: (Some fc)
    show ?thesis
    proof (cases "io_pendings e (fc_owner fc)")
      case (Some p)
      have core: "reqs_ok (io_pendings e) (io_chunk_owner e) (io_next_request e)" "queues_ok (io_pendings e) (io_queues e)"
        "owners_ok (io_pendings e) (io_chunk_owner e) (io_next_chunk e)"
        "counts_ok (io_pendings e) (io_chunk_owner e) (io_inflight_ops e) (io_inflight_bytes e) (io_inflight_class e)"
        using assms(1) by (simp_all add: io_core_def)
      have fin: "finite (dom (io_pendings e))" using core(1) by (simp add: reqs_ok_def)
      let ?rid = "fc_owner fc" and ?p = "land_chunk c fc p"
      have "?rid \<in> live (io_pendings e)" by (rule land_core(5) [OF core fc Some refl])
      then have nf: "\<not> finished p" using Some by (auto simp: live_def)
      have u: "uses s ?p \<longleftrightarrow> uses s p" for s by (simp add: uses_def)
      have mem: "?rid \<in> carried (io_pendings e) s \<longleftrightarrow> uses s p" for s using carried_mem [of "io_pendings e", OF Some] nf by simp
      have stay: "carried ((io_pendings e)(?rid \<mapsto> ?p)) s = (if finished ?p then carried (io_pendings e) s - {?rid} else carried (io_pendings e) s)" for s
        using carried_same [of "io_pendings e", OF Some _ u] carried_gone [of ?p s] nf by simp
      have "\<not> uses s (failed_over ?p)" for s by (simp add: uses_def)
      then have retry: "carried ((io_pendings e)(?rid \<mapsto> failed_over ?p)) s = carried (io_pendings e) s - {?rid}" for s
        by (intro carried_gone disjI2)
      have less: "card (carried (io_pendings e) s - {?rid}) \<le> sr_inflight (io_src e) s - (if uses s p then 1 else 0)" if "s < kMaxIoSources" for s
        using mem [of s] carried_finite [OF fin, of s] assms(2) that by (auto simp: sources_ok_def card_Diff_singleton_if)
      have one: "pn_routed q \<longrightarrow> pn_src_used q = 0" if "io_pendings e r = Some q" for q r
        using assms(2) that by (auto simp: sources_ok_def)
      have fs: "sr_inflight (finish_sources ?p m ok now src) s = sr_inflight src s - (if uses s p then 1 else 0)" if "s < kMaxIoSources" for m ok src s
        using sr_inflight_finish [OF that, of ?p m ok now src] u by simp
      show ?thesis
      proof (cases "finished ?p")
        case True
        have "sr_inflight (io_src (handle_completion c now e)) s = sr_inflight (io_src e) s - (if uses s p then 1 else 0)" if "s < kMaxIoSources" for s
          by (simp add: handle_completion_def None fc Some Let_def True finish_fields sr_inflight_failovers fs [OF that] land_source_inflight)
        moreover have "io_pendings (handle_completion c now e) = (io_pendings e)(?rid \<mapsto> (if goes_back ?p then failed_over ?p else ?p))"
          by (simp add: handle_completion_def None fc Some Let_def True finish_fields)
        ultimately show ?thesis using less stay retry True one [OF Some] one by (auto simp: sources_ok_def)
      next
        case False
        then have "io_pendings (handle_completion c now e) = (io_pendings e)(?rid \<mapsto> ?p)"
          "sr_inflight (io_src (handle_completion c now e)) = sr_inflight (io_src e)"
          by (simp_all add: handle_completion_def None fc Some Let_def land_source_inflight)
        then show ?thesis using assms(2) stay False one [OF Some] by (auto simp: sources_ok_def)
      qed
    qed (simp add: handle_completion_def None fc assms)
  qed (simp add: handle_completion_def None assms)
qed

section \<open>The primary stays in the router\<close>

definition primary_ok :: "sources \<Rightarrow> bool" where
  "primary_ok src \<longleftrightarrow> \<not> has_bit (sh_dropped (sr_health src)) 0 \<and> \<not> has_bit (tg_resting (sr_thermal src)) 0"

lemma primary_health:
  "\<not> has_bit (sh_dropped h) 0 \<Longrightarrow> \<not> has_bit (sh_dropped (snd (note_error s h))) 0"
  "\<not> has_bit (sh_dropped h) 0 \<Longrightarrow> \<not> has_bit (sh_dropped (note_success s h)) 0"
  "\<not> has_bit (sh_dropped h) 0 \<Longrightarrow> \<not> has_bit (sh_dropped (health_drop s h)) 0"
  "\<not> has_bit (sh_dropped h) 0 \<Longrightarrow> \<not> has_bit (sh_dropped (health_readmit s h)) 0"
  by (auto simp: note_error_def note_success_def health_drop_def health_readmit_def Let_def mask_bit_simps)

lemma primary_thermal: "\<not> has_bit (tg_resting g) 0 \<Longrightarrow> \<not> has_bit (tg_resting (snd (thermal_update s t g))) 0"
  by (auto simp: thermal_update_def Let_def mask_bit_simps)

lemma health_thermal_simps [simp]:
  "sr_health (upd_source_stats s f src) = sr_health src" "sr_thermal (upd_source_stats s f src) = sr_thermal src"
  "sr_health (note_source_start s now src) = sr_health src" "sr_thermal (note_source_start s now src) = sr_thermal src"
  "sr_health (source_done s b now src) = sr_health src" "sr_thermal (source_done s b now src) = sr_thermal src"
  "sr_thermal (note_source_result s ok src) = sr_thermal src"
  by (simp_all add: upd_source_stats_def note_source_start_def source_done_def note_source_result_def Let_def split: prod.split)

lemma primary_result: "primary_ok src \<Longrightarrow> primary_ok (note_source_result s ok src)"
  using primary_health [of "sr_health src" s] by (auto simp: primary_ok_def note_source_result_def Let_def split: prod.split)

lemma primary_ok_same: "primary_ok src \<Longrightarrow> sr_health src' = sr_health src \<Longrightarrow> sr_thermal src' = sr_thermal src \<Longrightarrow> primary_ok src'"
  by (simp add: primary_ok_def)

lemma primary_fold: "(\<And>s src. primary_ok src \<Longrightarrow> primary_ok (f s src)) \<Longrightarrow> primary_ok src \<Longrightarrow> primary_ok (fold f xs src)"
  by (induction xs arbitrary: src) auto

lemma primary_finish:
  assumes "primary_ok src"
  shows "primary_ok (finish_sources p moved ok now src)"
proof -
  have share: "primary_ok (finish_share p now s src)" if "primary_ok src" for s src
    unfolding finish_share_def Let_def using that
    by (simp, intro impI primary_result) (auto elim: primary_ok_same)
  have routed: "primary_ok (finish_routed p moved ok now src)"
    unfolding finish_routed_def Let_def using assms by (intro primary_result) (auto elim: primary_ok_same)
  show ?thesis using routed assms by (simp add: finish_sources_def primary_fold share)
qed

lemma primary_failovers: "primary_ok src \<Longrightarrow> primary_ok (count_failovers p src)"
  unfolding count_failovers_def Let_def by (auto intro!: primary_fold elim: primary_ok_same)

lemma primary_release: "primary_ok src \<Longrightarrow> primary_ok (release_shares p now src)"
  unfolding release_shares_def by (rule primary_fold) (auto elim: primary_ok_same)

lemma primary_completion: "primary_ok (io_src e) \<Longrightarrow> primary_ok (io_src (handle_completion c now e))"
proof -
  assume p: "primary_ok (io_src e)"
  have land: "primary_ok (land_source fc q now (io_src e))" for fc q
    using p by (auto simp: land_source_def elim: primary_ok_same split: option.split)
  have poke: "primary_ok (io_src k)" if "finish_keepalive c now e = Some k" for k
    using that p by (auto simp: finish_keepalive_def primary_ok_def split: if_splits option.splits)
  show ?thesis using p land poke
    by (auto simp: handle_completion_def Let_def finish_fields primary_finish primary_failovers split: option.split)
qed

lemma stripe_fold_health:
  "sr_health (snd (fold (stripe_chunk cand row now) cs ps)) = sr_health (snd ps)
   \<and> sr_thermal (snd (fold (stripe_chunk cand row now) cs ps)) = sr_thermal (snd ps)"
  by (induction cs arbitrary: ps) (auto simp: stripe_chunk_def Let_def split: prod.split)

lemma primary_submit: "primary_ok (io_src e) \<Longrightarrow> primary_ok (io_src (snd (submit fs req now e)))"
proof -
  assume p: "primary_ok (io_src e)"
  have route: "primary_ok (snd (route_request fs req f now (io_src e)))" for f
    using p by (auto simp: route_request_def Let_def split: option.split elim: primary_ok_same)
  have guard: "primary_ok src \<Longrightarrow> primary_ok (route_guard rt b now src)" for rt b src
    by (auto simp: route_guard_def elim: primary_ok_same)
  have stripe: "primary_ok src \<Longrightarrow> primary_ok (snd (stripe_request rt f now q src))" for rt f q src
    using stripe_fold_health [of "rt_stripe_mask rt" "rt_row rt" now "pn_chunks q" "(q\<lparr>pn_src_file := rt_row rt\<rparr>, src)"]
    by (auto simp: stripe_request_def split: prod.split elim: primary_ok_same)
  obtain r e' where s: "submit fs req now e = (r, e')" by fastforce
  have "primary_ok (io_src e')"
  proof (cases "rq_file req")
    case (Some f)
    obtain rt src0 where rt: "route_request fs req f now (io_src e) = (rt, src0)" by fastforce
    then have src0: "primary_ok src0" using route [of f] by simp
    show ?thesis using s p src0 guard [OF src0] stripe [OF src0]
      by (auto simp: submit_def Some rt Let_def enqueue_def split: if_splits prod.splits) (metis snd_conv)+
  qed (use s p in \<open>auto simp: submit_def split: if_splits\<close>)
  then show ?thesis by (simp add: s)
qed

section \<open>Runs\<close>

lemma poke_simps:
  "sr_inflight (poke_source fs be now s src) = sr_inflight src" "sr_health (poke_source fs be now s src) = sr_health src"
  "sr_thermal (poke_source fs be now s src) = sr_thermal src"
  by (auto simp: poke_source_def Let_def upd_source_stats_def split: option.split)

lemma tick_simps:
  "sr_inflight (tick_keepalive fs be now src) = sr_inflight src" "sr_health (tick_keepalive fs be now src) = sr_health src"
  "sr_thermal (tick_keepalive fs be now src) = sr_thermal src"
proof -
  have "sr_inflight (fold (poke_source fs be now) xs src) = sr_inflight src \<and> sr_health (fold (poke_source fs be now) xs src) = sr_health src
    \<and> sr_thermal (fold (poke_source fs be now) xs src) = sr_thermal src" for xs
    by (induction xs arbitrary: src) (simp_all add: poke_simps)
  then show "sr_inflight (tick_keepalive fs be now src) = sr_inflight src" "sr_health (tick_keepalive fs be now src) = sr_health src"
    "sr_thermal (tick_keepalive fs be now src) = sr_thermal src" by (simp_all add: tick_keepalive_def)
qed

lemma source_ops_inflight:
  "sr_inflight (drop_source s src) = sr_inflight src" "sr_inflight (snd (readmit_source probe s src)) = sr_inflight src"
  "sr_inflight (feel_source reading s src) = sr_inflight src" "sr_inflight (snd (add_mirror fs pri s alt src)) = sr_inflight src"
  "sr_inflight (set_stripe on src) = sr_inflight src"
  by (auto simp: drop_source_def readmit_source_def feel_source_def add_mirror_def set_stripe_def Let_def
      split: option.split sum.split prod.split)

lemma source_ops_primary:
  assumes "primary_ok src"
  shows "primary_ok (drop_source s src)" "primary_ok (snd (readmit_source probe s src))" "primary_ok (feel_source reading s src)"
    "primary_ok (snd (add_mirror fs pri s alt src))" "primary_ok (set_stripe on src)"
    "primary_ok (set_sources sensor ov roots weights now src)"
  using assms primary_health [of "sr_health src" s] primary_thermal [of "sr_thermal src" s]
  by (auto simp: primary_ok_def drop_source_def readmit_source_def feel_source_def add_mirror_def set_stripe_def set_sources_def
      source_health_new_def Let_def split: option.split sum.split prod.split) (metis snd_conv)?

lemma no_requests:
  assumes "io_inv e" "io_next_request e = 1"
  shows "io_pendings e rid = None"
  using io_invD(1) [OF assms(1)] assms(2) by (cases "io_pendings e rid") (auto simp: reqs_ok_def)

definition src_inv :: "io_engine \<Rightarrow> bool" where
  "src_inv e \<longleftrightarrow> sources_ok e \<and> primary_ok (io_src e)"

lemma src_inv_same:
  "src_inv e \<Longrightarrow> io_pendings e' = io_pendings e \<Longrightarrow> sr_inflight (io_src e') = sr_inflight (io_src e) \<Longrightarrow> primary_ok (io_src e') \<Longrightarrow> src_inv e'"
  using sources_ok_src [of e e'] by (simp add: src_inv_def)

lemma pick_src_inv:
  assumes "io_inv e" "src_inv e"
  shows "src_inv (snd (pick_chunk fs now e))"
  using io_invD(2) [OF assms(1)]
proof (cases rule: pick_chunk_cases [where fs = fs and now = now])
  case none
  then show ?thesis using assms(2) by (intro src_inv_same [OF assms(2)]) (simp_all add: src_inv_def)
next
  case (some rid p)
  let ?p = "p\<lparr>pn_next := pn_next p + 1, pn_issued := pn_issued p + 1\<rparr>"
  have r: "req_ok p (card (chunks_of (io_chunk_owner e) rid))" using io_invD(1) [OF assms(1)] some(1) by (simp add: reqs_ok_def)
  then have f: "finished ?p = finished p" using some(2) by (auto simp: finished_def req_ok_def split: if_splits)
  have "carried ((io_pendings e)(rid \<mapsto> ?p)) s = carried (io_pendings e) s" for s
    by (rule carried_same [of "io_pendings e", OF some(1) f]) (simp add: uses_def)
  then show ?thesis using assms(2) some(1)
    by (auto simp: some(3) src_inv_def sources_ok_def issue_chunk_def Let_def)
qed

lemma run_io_op_src:
  assumes "io_inv e" "src_inv e" "io_op_ok op e"
  shows "src_inv (run_io_op fs op e)"
proof -
  have core: "io_core e" using assms(1) by (simp add: io_inv_def)
  have s: "sources_ok e" and p: "primary_ok (io_src e)" using assms(2) by (simp_all add: src_inv_def)
  note same = src_inv_same [OF assms(2)]
  show ?thesis
  proof (cases op)
    case (OpSubmit req now)
    then show ?thesis using submit_sources [OF assms(1) s] primary_submit [OF p] by (simp add: src_inv_def)
  next
    case (OpCancel rid now)
    have "primary_ok (io_src (snd (cancel rid now e)))" using p
      by (auto simp: cancel_def answer_def primary_release split: option.split)
    then show ?thesis using cancel_sources [OF assms(1) s] OpCancel by (simp add: src_inv_def)
  next
    case (OpPick now)
    then show ?thesis using pick_src_inv [OF assms(1,2)] by simp
  next
    case (OpDoSubmit er)
    then show ?thesis using p by (auto intro!: same simp: do_submit_def split: list.split option.split)
  next
    case (OpRefused now)
    show ?thesis
    proof (cases "io_failed_q e")
      case (Cons c q)
      have "io_core (e\<lparr>io_failed_q := q\<rparr>)" "sources_ok (e\<lparr>io_failed_q := q\<rparr>)" using core s by (auto simp: io_core_def sources_ok_def)
      then show ?thesis using completion_sources [of "e\<lparr>io_failed_q := q\<rparr>" c now] primary_completion [of "e\<lparr>io_failed_q := q\<rparr>" c now] p
        by (simp add: OpRefused handle_refused_def Cons src_inv_def)
    qed (simp add: OpRefused handle_refused_def assms(2))
  next
    case (OpReap c now)
    let ?e = "e\<lparr>io_at_backend := remove1 (cc_chunk_id c) (io_at_backend e)\<rparr>"
    have "io_core ?e" "sources_ok ?e" using core s by (auto simp: io_core_def sources_ok_def)
    then show ?thesis using completion_sources [of ?e c now] primary_completion [of ?e c now] p
      by (simp add: OpReap reap_def src_inv_def)
  next
    case (OpPoked c now)
    then show ?thesis using completion_sources [OF core s] primary_completion [OF p] by (simp add: src_inv_def)
  next
    case (OpSetSources sensor ov roots weights now)
    then have "io_pendings e rid = None" for rid using no_requests [OF assms(1)] assms(3) by simp
    then show ?thesis using source_ops_primary(6) [OF p] OpSetSources by (simp add: src_inv_def sources_ok_def carried_def)
  next
    case (OpTick er now)
    then show ?thesis using p by (intro same) (simp_all add: tick_simps primary_ok_def)
  next
    case OpStop
    then show ?thesis using p by (intro same) (simp_all add: io_stop_def primary_ok_def)
  next
    case OpResetStats
    then show ?thesis using p by (intro same) (simp_all add: io_reset_stats_def primary_ok_def)
  qed (use p in \<open>auto intro!: same simp: source_ops_inflight source_ops_primary set_p0_depth_def engram_wait_def engram_wait_over_def set_engram_wait_priority_def\<close>)
qed

lemma reachable_src_inv: "io_reachable fs e \<Longrightarrow> src_inv e"
proof (induction rule: io_reachable.induct)
  case (boot caps cfg ov e)
  then show ?case by (auto simp: io_start_def Let_def idle_engine_def src_inv_def sources_ok_def carried_def primary_ok_def
      no_sources_def source_health_new_def default_thermal_def)
next
  case (step e op)
  then show ?case by (intro run_io_op_src reachable_io_inv) auto
qed

section \<open>Properties\<close>

text \<open>
  A mirror is touched behind the router's back only while it carries nothing: when
  \<^verbatim>\<open>readmit_source\<close> takes a dropped mirror back, and when the keep-alive pokes a mirror, no live
  request is charged to that mirror, neither whole nor as a share of its stripes. So reads from
  before a drop never spend the budget of the new admission, and a poke never races a real read.
\<close>

theorem idle_mirror_carries_nothing:
  assumes "io_reachable fs e" "s < kMaxIoSources"
    and "fst (readmit_source probe s (io_src e)) = Inr () \<or> sr_ka (poke_source fs be now s (io_src e)) s \<noteq> sr_ka (io_src e) s"
    and "io_pendings e rid = Some p" "\<not> finished p"
  shows "\<not> uses s p"
proof -
  have "sr_inflight (io_src e) s = 0" using assms(3)
  proof
    assume "fst (readmit_source probe s (io_src e)) = Inr ()"
    then show ?thesis by (auto simp: readmit_source_def split: if_splits)
  next
    assume "sr_ka (poke_source fs be now s (io_src e)) s \<noteq> sr_ka (io_src e) s"
    then show ?thesis by (auto simp: poke_source_def Let_def keepalive_due_def split: option.splits if_splits)
  qed
  moreover have "card (carried (io_pendings e) s) \<le> sr_inflight (io_src e) s"
    using reachable_src_inv [OF assms(1)] assms(2) by (simp add: src_inv_def sources_ok_def)
  moreover have "finite (carried (io_pendings e) s)"
    using io_invD(1) [OF reachable_io_inv [OF assms(1)]] by (auto simp: reqs_ok_def intro: carried_finite)
  ultimately have "carried (io_pendings e) s = {}" by simp
  then show ?thesis using carried_mem [of "io_pendings e" rid p s] assms(4,5) by auto
qed

text \<open>
  The primary is never taken out of the router: whatever fails, whatever is dropped by hand and
  however hot a drive runs, in every reachable state source 0 is neither dropped nor resting, so
  every routed file keeps it as a candidate and \<^verbatim>\<open>live_source_count\<close> counts it.
\<close>

theorem primary_always_live:
  assumes "io_reachable fs e"
  shows "\<not> is_dropped (sr_health (io_src e)) 0 \<and> \<not> source_resting (io_src e) 0
    \<and> (has_bit (thermal_live_mask (sr_thermal (io_src e)) (health_live_mask (sr_health (io_src e)) cand)) 0 \<longleftrightarrow> has_bit cand 0)"
  using reachable_src_inv [OF assms]
  by (simp add: src_inv_def primary_ok_def is_dropped_def source_resting_def thermal_live_mask_def health_live_mask_def
      mask_bit_simps(3) [where s = 0 and t = 0])

theorem primary_always_live_witness: "\<not> is_dropped (sr_health (io_src demo_sent)) 0"
  using primary_always_live [OF demo_io_reachable(4), of 1] by simp

section \<open>A run with a mirror\<close>

text \<open>Two roots, the mirror four times as fast, whole-request routing: the read goes to the mirror.\<close>

definition mirror_src :: sources where
  "mirror_src = snd (add_mirror demo_files (Some 1) 1 (Some 2)
     (set_sources (\<lambda>_. None) (no_overrides\<lparr>ov_stripe := False\<rparr>) [''D'', ''E''] [1, 4] 0 no_sources))"

definition mirror_ready :: io_engine where
  "mirror_ready = demo_started\<lparr>io_src := mirror_src\<rparr>"

definition mirror_queued :: io_engine where
  "mirror_queued = snd (submit demo_files demo_request 0 mirror_ready)"

lemma mirror_ready_reachable: "io_reachable demo_files mirror_ready"
proof -
  let ?e = "run_io_op demo_files (OpSetSources (\<lambda>_. None) (no_overrides\<lparr>ov_stripe := False\<rparr>) [''D'', ''E''] [1, 4] 0) demo_started"
  have "io_reachable demo_files ?e"
    by (rule io_reachable.step [OF demo_io_reachable(1)]) (simp add: demo_started_facts)
  then have "io_reachable demo_files (run_io_op demo_files (OpAddMirror (Some 1) 1 (Some 2)) ?e)"
    by (rule io_reachable.step) (simp add: demo_started_facts)
  then show ?thesis by (simp add: mirror_ready_def mirror_src_def upd_src_def demo_started_facts)
qed

lemma mirror_src_facts:
  "sr_mirrors_on mirror_src" "sr_stripe mirror_src = False" "sr_static_split mirror_src = 0" "sr_weights mirror_src = [1, 4]"
  "map_of (sr_alts mirror_src) 1 = Some ((\<lambda>_. None)(0 := Some 1, 1 := Some 2))" "sr_outstanding mirror_src = (\<lambda>_. 0)"
  "sr_inflight mirror_src = (\<lambda>_. 0)" "sr_health mirror_src = source_health_new 3"
  "sr_thermal mirror_src = \<lparr>tg_hot_c = 80, tg_cool_c = 72, tg_resting = 0\<rparr>" "sr_route_classes mirror_src = kDefaultRouteClasses"
  "sr_roots mirror_src = [''D'', ''E'']"
  by (simp_all add: mirror_src_def add_mirror_def set_sources_def demo_files_def kMaxIoSources_def kKeepAliveBytes_def no_overrides_def
      no_sources_def value_or_def kMirrorCoolDropC_def Let_def upt_rec numeral_2_eq_2)

definition mirror_route :: route where
  "mirror_route = \<lparr>rt_file = 2, rt_source = 1, rt_routed = True, rt_stripe_mask = 0, rt_row = (\<lambda>_. None)\<rparr>"

lemma mirror_routes:
  "\<exists>src. route_request demo_files (demo_request\<lparr>rq_dst := d\<rparr>) 1 0 mirror_src = (mirror_route, src) \<and> sr_inflight src = (\<lambda>_. 0)(1 := 1)
     \<and> sr_outstanding src = (\<lambda>_. 0)(1 := 8192) \<and> sr_health src = source_health_new 3 \<and> sr_thermal src = sr_thermal mirror_src"
proof -
  let ?row = "(\<lambda>_. None)(0 := Some 1, 1 := Some 2) :: nat \<Rightarrow> file_handle option"
  have m: "open_mask demo_files ?row = 3"
    by (simp add: open_mask_def demo_files_def kMaxIoSources_def with_bit_def upt_rec)
  have b: "has_bit 3 0" "has_bit 3 1" "has_bit kDefaultRouteClasses 0"
    by (simp_all add: has_bit_def kDefaultRouteClasses_def)
  have p: "pick_source [1, 4] [0, 0] 3 8192 = 1"
    using b by (simp add: pick_source_def pick_step_def eta_def upt_rec kMaxIoSources_def)
  have o: "outstanding_span mirror_src = [0, 0]"
    by (simp add: outstanding_span_def mirror_src_facts upt_rec del: One_nat_def)
  let ?src = "note_source_start 1 0 (mirror_src\<lparr>sr_outstanding := (\<lambda>_. 0)(1 := 8192),
    sr_static_bytes := (sr_static_bytes mirror_src)(1 := sr_static_bytes mirror_src 1 + 8192)\<rparr>)"
  have "route_request demo_files (demo_request\<lparr>rq_dst := d\<rparr>) 1 0 mirror_src = (mirror_route, ?src)"
    using m b p o by (simp add: route_request_def mirror_src_facts thermal_live_mask_def health_live_mask_def source_health_new_def
        demo_request_def unrouted_def mirror_route_def kMaxIoSources_def Let_def del: One_nat_def fun_upd_apply)
      (simp add: mirror_src_facts unrouted_def)
  moreover have "sr_inflight ?src = (\<lambda>_. 0)(1 := 1)" by (simp add: sr_inflight_start mirror_src_facts del: One_nat_def)
  moreover have "sr_outstanding ?src = (\<lambda>_. 0)(1 := 8192)"
    by (simp add: note_source_start_def Let_def upd_source_stats_def del: One_nat_def)
  ultimately show ?thesis by (simp add: mirror_src_facts del: One_nat_def)
qed

definition mirror_pending :: pending where
  "mirror_pending = demo_pending\<lparr>pn_req := demo_request\<lparr>rq_file := Some 2\<rparr>, pn_source := 1, pn_routed := True, pn_primary := Some 1\<rparr>"

lemma mirror_queued_is:
  "\<exists>src. mirror_queued = enqueue mirror_pending 0 (mirror_ready\<lparr>io_src := src\<rparr>) \<and> sr_inflight src = (\<lambda>_. 0)(1 := 1)
     \<and> sr_outstanding src = (\<lambda>_. 0)(1 := 8192) \<and> sr_health src = source_health_new 3 \<and> sr_thermal src = sr_thermal mirror_src"
proof -
  have d: "demo_request\<lparr>rq_dst := 65536\<rparr> = demo_request" by (simp add: demo_request_def)
  obtain src where r: "route_request demo_files demo_request 1 0 mirror_src = (mirror_route, src)"
    and s: "sr_inflight src = (\<lambda>_. 0)(1 := 1)" "sr_outstanding src = (\<lambda>_. 0)(1 := 8192)" "sr_health src = source_health_new 3"
      "sr_thermal src = sr_thermal mirror_src"
    using mirror_routes [of 65536] unfolding d by blast
  have m: "\<not> misaligned (mirror_ready\<lparr>io_src := src\<rparr>) demo_request"
    by (simp add: misaligned_def mirror_ready_def demo_started_facts demo_caps_def demo_request_def is_aligned_def)
  have p: "new_pending (mirror_ready\<lparr>io_src := src\<rparr>) demo_request 1 mirror_route 8192 = mirror_pending"
    by (simp add: new_pending_def mirror_pending_def demo_pending_def mirror_route_def demo_request_def mirror_ready_def
        demo_started_facts demo_caps_def demo_chunks)
  have st: "stripe_request mirror_route 1 0 mirror_pending src = (mirror_pending, src)"
    by (simp add: stripe_request_def mirror_route_def)
  have "mirror_queued = enqueue mirror_pending 0 (mirror_ready\<lparr>io_src := src\<rparr>)"
    using r m p st unfolding mirror_queued_def
    by (simp add: submit_def mirror_ready_def demo_started_facts demo_request_def demo_files_def Let_def mirror_route_def)
  then show ?thesis using s by blast
qed

lemma mirror_queued_facts:
  "io_pendings mirror_queued = [1 \<mapsto> mirror_pending]" "io_queues mirror_queued = (\<lambda>_. [])(BlockingMiss := [1])"
  "io_chunk_owner mirror_queued = Map.empty" "io_callbacks mirror_queued = []" "io_next_chunk mirror_queued = 1"
  "sr_inflight (io_src mirror_queued) = (\<lambda>_. 0)(1 := 1)" "sr_outstanding (io_src mirror_queued) = (\<lambda>_. 0)(1 := 8192)"
  "io_tune mirror_queued = io_tune demo_started" "io_inflight_ops mirror_queued = 0" "io_inflight_bytes mirror_queued = 0"
  "io_engram_waiters mirror_queued = 0" "io_submit_q mirror_queued = []" "io_at_backend mirror_queued = []"
proof -
  obtain src where q: "mirror_queued = enqueue mirror_pending 0 (mirror_ready\<lparr>io_src := src\<rparr>)"
    and s: "sr_inflight src = (\<lambda>_. 0)(1 := 1)" "sr_outstanding src = (\<lambda>_. 0)(1 := 8192)"
    using mirror_queued_is by blast
  have "rq_priority (pn_req mirror_pending) = BlockingMiss" by (simp add: mirror_pending_def demo_request_def)
  then show "io_pendings mirror_queued = [1 \<mapsto> mirror_pending]" "io_queues mirror_queued = (\<lambda>_. [])(BlockingMiss := [1])"
    "io_chunk_owner mirror_queued = Map.empty" "io_callbacks mirror_queued = []" "io_next_chunk mirror_queued = 1"
    "sr_inflight (io_src mirror_queued) = (\<lambda>_. 0)(1 := 1)" "sr_outstanding (io_src mirror_queued) = (\<lambda>_. 0)(1 := 8192)"
    "io_tune mirror_queued = io_tune demo_started" "io_inflight_ops mirror_queued = 0" "io_inflight_bytes mirror_queued = 0"
    "io_engram_waiters mirror_queued = 0" "io_submit_q mirror_queued = []" "io_at_backend mirror_queued = []"
    unfolding q using s by (simp_all add: enqueue_def Let_def mirror_ready_def demo_started_facts upd_stat_def)
qed

lemma mirror_queued_reachable: "io_reachable demo_files mirror_queued"
proof -
  have "io_reachable demo_files (run_io_op demo_files (OpSubmit demo_request 0) mirror_ready)"
    by (rule io_reachable.step [OF mirror_ready_reachable]) simp
  then show ?thesis by (simp add: mirror_queued_def)
qed

definition mirror_picked :: io_engine where
  "mirror_picked = issue_chunk demo_files 1 mirror_pending mirror_queued"

lemma mirror_picked_facts:
  "io_pendings mirror_picked = [1 \<mapsto> mirror_pending\<lparr>pn_next := 1, pn_issued := 1\<rparr>]"
  "io_chunk_owner mirror_picked = [1 \<mapsto> \<lparr>fc_owner = 1, fc_bytes = 8192, fc_src = None\<rparr>]" "io_callbacks mirror_picked = []"
  by (simp_all add: mirror_picked_def issue_chunk_def Let_def mirror_queued_facts mirror_pending_def demo_pending_def demo_request_def)

lemma mirror_picks: "pick_chunk demo_files 0 mirror_queued = (True, mirror_picked)"
proof -
  have "dropWhile (fully_issued mirror_queued) (io_queues mirror_queued pr) = io_queues mirror_queued pr" for pr
    by (simp add: mirror_queued_facts fully_issued_def mirror_pending_def demo_pending_def)
  then have pop: "pop_issued mirror_queued = mirror_queued" by (simp add: pop_issued_def)
  have r: "\<not> rescue mirror_queued" by (simp add: rescue_def mirror_queued_facts)
  then have h: "head_class mirror_queued = Some BlockingMiss" by (simp add: head_class_def all_classes_def mirror_queued_facts)
  have c: "qd_cap mirror_queued BlockingMiss = 8" "byte_cap mirror_queued BlockingMiss = 33554432" "\<not> throttled mirror_queued 0 BlockingMiss"
    using r by (simp_all add: qd_cap_def byte_cap_def mirror_queued_facts demo_started_facts throttled_def)
  show ?thesis using h c by (simp add: pick_chunk_def pop Let_def mirror_queued_facts mirror_picked_def)
qed

section \<open>Charges that are not given back\<close>

text \<open>
  Cancelling a request that was routed whole to a source succeeds, answers the request and
  removes it, but leaves everything that was charged to the source where it was: its bytes stay
  outstanding and its request stays in flight. (A striped request gives its shares back.)
\<close>

theorem cancel_keeps_route_charge:
  assumes "io_reachable fs e" "io_pendings e rid = Some p" "pn_routed p" "pn_next p = 0"
  shows "fst (cancel rid now e) = Inr () \<and> io_pendings (snd (cancel rid now e)) rid = None
    \<and> io_src (snd (cancel rid now e)) = io_src e"
proof -
  note i = io_invD [OF reachable_io_inv [OF assms(1)]]
  have u: "pn_src_used p = 0" using reachable_src_inv [OF assms(1)] assms(2,3) by (auto simp: src_inv_def sources_ok_def)
  have "pn_chunks p \<noteq> []" using i(1) assms(2) by (auto simp: reqs_ok_def req_ok_def)
  then have mem: "rid \<in> set (io_queues e (class_of p))" using i(2) assms(2,4) by (simp add: queues_ok_def)
  have "find (\<lambda>pr. rid \<in> set (io_queues e pr)) all_classes \<noteq> None"
    using mem class_in_all by (auto simp: find_None_iff)
  then obtain pr where "find (\<lambda>pr. rid \<in> set (io_queues e pr)) all_classes = Some pr" by auto
  then show ?thesis using assms(2,4) u by (simp add: cancel_def answer_def)
qed

theorem cancel_keeps_route_charge_witness:
  "fst (cancel 1 0 mirror_queued) = Inr () \<and> sr_inflight (io_src (snd (cancel 1 0 mirror_queued))) 1 = 1
   \<and> sr_outstanding (io_src (snd (cancel 1 0 mirror_queued))) 1 = 8192"
  using cancel_keeps_route_charge [OF mirror_queued_reachable, of 1 mirror_pending 0]
  by (simp add: mirror_queued_facts mirror_pending_def demo_pending_def)

text \<open>
  A request that the router has already charged to a source and that is then refused for a
  missing destination or a zero length leaves that charge behind: \<^verbatim>\<open>submit\<close> answers
  \<^verbatim>\<open>InvalidArgument\<close>, but the source counts one request more in flight for good, so
  \<^verbatim>\<open>readmit_source\<close> refuses it from then on.
\<close>

theorem refused_request_keeps_charge:
  assumes "io_running e" "rq_file req = Some f" "fi_open (fs f)" "route_request fs req f now (io_src e) = (rt, src0)"
    and "rt_routed rt" "rq_dst req = 0 \<or> rq_bytes req = 0"
  shows "fst (submit fs req now e) = Inl InvalidArgument
    \<and> sr_inflight (io_src (snd (submit fs req now e))) (rt_source rt) = sr_inflight (io_src e) (rt_source rt) + 1
    \<and> fst (readmit_source probe (rt_source rt) (io_src (snd (submit fs req now e)))) = Inl FailedPrecondition"
proof -
  have s: "submit fs req now e = (Inl InvalidArgument, e\<lparr>io_src := src0\<rparr>)"
    using assms(1-4,6) by (auto simp: submit_def Let_def)
  have "sr_inflight src0 (rt_source rt) = sr_inflight (io_src e) (rt_source rt) + 1"
    using route_inflight(1) [OF assms(4)] assms(5) by simp
  then show ?thesis by (simp add: s readmit_source_def)
qed

theorem refused_request_keeps_charge_witness:
  "fst (submit demo_files (demo_request\<lparr>rq_dst := 0\<rparr>) 0 mirror_ready) = Inl InvalidArgument
   \<and> sr_inflight (io_src (snd (submit demo_files (demo_request\<lparr>rq_dst := 0\<rparr>) 0 mirror_ready))) 1 = 1"
proof -
  obtain src where r: "route_request demo_files (demo_request\<lparr>rq_dst := 0\<rparr>) 1 0 mirror_src = (mirror_route, src)"
    using mirror_routes [of 0] by blast
  have e: "io_src mirror_ready = mirror_src" "io_running mirror_ready" by (simp_all add: mirror_ready_def demo_started_facts)
  show ?thesis
    using refused_request_keeps_charge [of mirror_ready "demo_request\<lparr>rq_dst := 0\<rparr>" 1 demo_files 0 mirror_route src] r e
    by (simp add: demo_files_def mirror_route_def mirror_src_facts) (simp add: demo_request_def)
qed

text \<open>A lookahead read, which is not routed, while the mirror is dropped.\<close>

definition ahead_request :: io_request where
  "ahead_request = demo_request\<lparr>rq_priority := Lookahead\<rparr>"

definition dropped_ready :: io_engine where
  "dropped_ready = mirror_ready\<lparr>io_src := drop_source 1 mirror_src\<rparr>"

lemma dropped_facts:
  "is_dropped (sr_health (drop_source 1 mirror_src)) 1" "sr_roots (drop_source 1 mirror_src) = [''D'', ''E'']"
  "sr_inflight (drop_source 1 mirror_src) 1 = 0" "sr_alts (drop_source 1 mirror_src) = [(1, (\<lambda>_. None)(0 := Some 1, 1 := Some 2))]"
  "sr_route_classes (drop_source 1 mirror_src) = kDefaultRouteClasses"
proof -
  have "sr_alts mirror_src = [(1, (\<lambda>_. None)(0 := Some 1, 1 := Some 2))]"
    by (simp add: mirror_src_def add_mirror_def set_sources_def demo_files_def kMaxIoSources_def no_sources_def Let_def no_overrides_def)
  then show "is_dropped (sr_health (drop_source 1 mirror_src)) 1" "sr_roots (drop_source 1 mirror_src) = [''D'', ''E'']"
    "sr_inflight (drop_source 1 mirror_src) 1 = 0" "sr_alts (drop_source 1 mirror_src) = [(1, (\<lambda>_. None)(0 := Some 1, 1 := Some 2))]"
    "sr_route_classes (drop_source 1 mirror_src) = kDefaultRouteClasses"
    by (auto simp: drop_source_def is_dropped_def mirror_src_facts source_health_new_def health_drop_def kMaxIoSources_def
        mask_bit_simps upd_source_stats_def)
qed

lemma dropped_submit:
  "submit demo_files ahead_request 0 dropped_ready = (Inr 1, enqueue (demo_pending\<lparr>pn_req := ahead_request\<rparr>) 0 dropped_ready)"
proof -
  let ?src = "drop_source 1 mirror_src"
  have "\<not> has_bit kDefaultRouteClasses 1" by (simp add: has_bit_def kDefaultRouteClasses_def)
  then have r: "route_request demo_files ahead_request 1 0 ?src = (unrouted 1, ?src)"
    by (simp add: route_request_def ahead_request_def dropped_facts del: One_nat_def)
  have e: "dropped_ready\<lparr>io_src := ?src\<rparr> = dropped_ready" "io_src dropped_ready = ?src" by (simp_all add: dropped_ready_def)
  have m: "\<not> misaligned dropped_ready ahead_request"
    by (simp add: misaligned_def dropped_ready_def mirror_ready_def demo_started_facts demo_caps_def ahead_request_def demo_request_def is_aligned_def)
  have p: "new_pending dropped_ready ahead_request 1 (unrouted 1) 8192 = demo_pending\<lparr>pn_req := ahead_request\<rparr>"
    by (simp add: new_pending_def demo_pending_def unrouted_def ahead_request_def demo_request_def dropped_ready_def mirror_ready_def
        demo_started_facts demo_caps_def demo_chunks)
  have st: "stripe_request (unrouted 1) 1 0 q ?src = (q, ?src)" for q by (simp add: stripe_request_def unrouted_def)
  have f: "io_running dropped_ready" "io_next_request dropped_ready = 1" by (simp_all add: dropped_ready_def mirror_ready_def demo_started_facts)
  have q: "rq_file ahead_request = Some 1" "rq_dst ahead_request = 65536" "rq_bytes ahead_request = 8192" "rq_file_off ahead_request = 4096"
    by (simp_all add: ahead_request_def demo_request_def)
  show ?thesis unfolding submit_def e(2) q using r m p st f
    by (simp add: demo_files_def Let_def e unrouted_def del: One_nat_def)
qed

theorem idle_mirror_carries_nothing_witness:
  "fst (readmit_source (\<lambda>_ _. Inr ()) 1 (io_src (snd (submit demo_files ahead_request 0 dropped_ready)))) = Inr ()
   \<and> \<not> uses 1 (demo_pending\<lparr>pn_req := ahead_request\<rparr>)"
proof -
  let ?e = "snd (submit demo_files ahead_request 0 dropped_ready)"
  have "io_reachable demo_files (run_io_op demo_files (OpDropSource 1) mirror_ready)"
    by (rule io_reachable.step [OF mirror_ready_reachable]) simp
  then have "io_reachable demo_files dropped_ready" by (simp add: upd_src_def mirror_ready_def dropped_ready_def)
  then have "io_reachable demo_files (run_io_op demo_files (OpSubmit ahead_request 0) dropped_ready)" by (rule io_reachable.step) simp
  then have reach: "io_reachable demo_files ?e" by simp
  have src: "io_src ?e = drop_source 1 mirror_src" unfolding dropped_submit by (simp add: enqueue_def Let_def dropped_ready_def)
  have ok: "fst (readmit_source (\<lambda>_ _. Inr ()) 1 (io_src ?e)) = Inr ()"
    unfolding src using dropped_facts by (simp add: readmit_source_def mirrored_shards_def)
  have "io_pendings ?e 1 = Some (demo_pending\<lparr>pn_req := ahead_request\<rparr>)"
    unfolding dropped_submit by (simp add: enqueue_def Let_def dropped_ready_def mirror_ready_def demo_started_facts demo_pending_def)
  moreover have "\<not> finished (demo_pending\<lparr>pn_req := ahead_request\<rparr>)" by (simp add: finished_def demo_pending_def)
  ultimately have "\<not> uses 1 (demo_pending\<lparr>pn_req := ahead_request\<rparr>)"
    using idle_mirror_carries_nothing [OF reach, of 1 "\<lambda>_ _. Inr ()"] ok by (simp add: kMaxIoSources_def)
  with ok show ?thesis by simp
qed

end
