(* ===== verification/Io_Failover.thy ===== *)
theory Io_Failover
  imports Io_Sources
begin

text \<open>
  The failover of the read engine, followed from the caller's \<^verbatim>\<open>submit\<close>: the router may serve a request
  from a mirror, whole or in stripes, and \<^verbatim>\<open>finish\<close> reads it again from the caller's own file when the
  mirror fails. What a pending request remembers of the caller's file is an invariant of every run.
\<close>

section \<open>The rows of the mirror table\<close>

text \<open>A row of the table starts with the file it belongs to.\<close>

definition rows_ok :: "sources \<Rightarrow> bool" where
  "rows_ok src \<longleftrightarrow> (\<forall>(f, row) \<in> set (sr_alts src). row 0 = Some f)"

lemma row_set_rows:
  "\<forall>(f, row) \<in> set rows. row 0 = Some f \<Longrightarrow> s \<noteq> 0 \<Longrightarrow> \<forall>(f, row) \<in> set (row_set rows p s a). row 0 = Some f"
  by (induction rows p s a rule: row_set.induct) auto

lemma rows_ok_same: "rows_ok src \<Longrightarrow> sr_alts src' = sr_alts src \<Longrightarrow> rows_ok src'"
  by (simp add: rows_ok_def)

lemma rows_okD: "rows_ok src \<Longrightarrow> map_of (sr_alts src) f = Some row \<Longrightarrow> row 0 = Some f"
  by (auto simp: rows_ok_def dest: map_of_SomeD)

lemma add_mirror_rows:
  assumes "rows_ok src"
  shows "rows_ok (snd (add_mirror fs p s a src))"
proof -
  have "s \<noteq> 0 \<Longrightarrow> rows_ok (src1\<lparr>sr_alts := row_set (sr_alts src) f s g\<rparr>)" for src1 f g
    using row_set_rows [of "sr_alts src"] assms by (simp add: rows_ok_def)
  moreover have "rows_ok (src\<lparr>sr_ka := x\<rparr>)" for x using assms by (simp add: rows_ok_def)
  ultimately show ?thesis using assms by (simp add: add_mirror_def Let_def split: option.split)
qed

lemma sr_alts_simps [simp]:
  "sr_alts (upd_source_stats s f src) = sr_alts src" "sr_alts (note_source_start s now src) = sr_alts src"
  "sr_alts (source_done s b now src) = sr_alts src" "sr_alts (note_source_result s ok src) = sr_alts src"
  "sr_alts (drop_source s src) = sr_alts src" "sr_alts (snd (readmit_source probe s src)) = sr_alts src"
  "sr_alts (feel_source reading s src) = sr_alts src" "sr_alts (set_stripe on src) = sr_alts src"
  "sr_alts (set_sources sensor ov roots weights now src) = sr_alts src" "sr_alts (poke_source fs be now s src) = sr_alts src"
  "sr_alts (land_source fc p now src) = sr_alts src" "sr_alts (finish_share p now s src) = sr_alts src"
  "sr_alts (finish_routed p moved ok now src) = sr_alts src"
  by (simp_all add: upd_source_stats_def note_source_start_def source_done_def note_source_result_def drop_source_def
      readmit_source_def feel_source_def set_stripe_def set_sources_def poke_source_def land_source_def finish_share_def
      finish_routed_def Let_def split: option.split sum.split prod.split)

lemma sr_alts_fold: "(\<And>s src. sr_alts (f s src) = sr_alts src) \<Longrightarrow> sr_alts (fold f xs src) = sr_alts src"
  by (induction xs arbitrary: src) simp_all

lemma sr_alts_folds [simp]:
  "sr_alts (finish_sources p moved ok now src) = sr_alts src" "sr_alts (count_failovers p src) = sr_alts src"
  "sr_alts (release_shares p now src) = sr_alts src" "sr_alts (tick_keepalive fs be now src) = sr_alts src"
  by (simp_all add: finish_sources_def count_failovers_def release_shares_def tick_keepalive_def Let_def sr_alts_fold)

lemma sr_alts_stripe: "sr_alts (snd (fold (stripe_chunk cand row now) cs ps)) = sr_alts (snd ps)"
  by (induction cs arbitrary: ps) (simp_all add: stripe_chunk_def Let_def split: prod.split)

lemma completion_alts: "sr_alts (io_src (handle_completion c now e)) = sr_alts (io_src e)"
  by (auto simp: handle_completion_def finish_keepalive_def Let_def finish_fields split: option.split)

lemma submit_alts: "sr_alts (io_src (snd (submit fs req now e))) = sr_alts (io_src e)"
proof -
  have r: "sr_alts (snd (route_request fs req f now (io_src e))) = sr_alts (io_src e)" for f
    by (auto simp: route_request_def Let_def split: option.split)
  have s: "sr_alts (snd (stripe_request rt f now p src)) = sr_alts src" for rt f p src
    using sr_alts_stripe [of "rt_stripe_mask rt" "rt_row rt" now "pn_chunks p" "(p\<lparr>pn_src_file := rt_row rt\<rparr>, src)"]
    by (auto simp: stripe_request_def split: prod.split)
  show ?thesis
  proof (cases "rq_file req")
    case (Some f)
    obtain rt src0 where rt: "route_request fs req f now (io_src e) = (rt, src0)" by fastforce
    then have a: "sr_alts src0 = sr_alts (io_src e)" using r [of f] by simp
    obtain r' e' where sub: "submit fs req now e = (r', e')" by fastforce
    then show ?thesis using a s
      by (auto simp: submit_def Some rt Let_def enqueue_def route_guard_def split: if_splits prod.splits) (metis snd_conv)+
  qed (simp add: submit_def)
qed

lemma run_io_op_rows:
  assumes "rows_ok (io_src e)"
  shows "rows_ok (io_src (run_io_op fs op e))"
proof (cases op)
  case (OpAddMirror p s a)
  then show ?thesis using add_mirror_rows [OF assms] by simp
next
  case (OpRefused now)
  then show ?thesis using assms by (auto intro: rows_ok_same simp: handle_refused_def completion_alts split: list.split)
next
  case (OpCancel rid now)
  then show ?thesis using assms by (auto intro: rows_ok_same simp: cancel_def answer_def split: option.split)
next
  case (OpPick now)
  have "io_src (snd (pick_chunk fs now e)) = io_src e"
    by (auto simp: pick_chunk_def pop_issued_def issue_chunk_def Let_def split: option.split)
  then show ?thesis using assms OpPick by simp
qed (use assms in \<open>auto intro: rows_ok_same simp: submit_alts completion_alts reap_def do_submit_def io_stop_def io_reset_stats_def
  set_p0_depth_def engram_wait_def engram_wait_over_def set_engram_wait_priority_def split: list.split option.split\<close>)

lemma reachable_rows: "io_reachable fs e \<Longrightarrow> rows_ok (io_src e)"
proof (induction rule: io_reachable.induct)
  case (boot caps cfg ov e)
  then show ?case by (auto simp: io_start_def Let_def idle_engine_def rows_ok_def no_sources_def)
next
  case (step e op)
  then show ?case by (intro run_io_op_rows)
qed

section \<open>What a request remembers of its caller\<close>

text \<open>
  \<open>f\<close> is the file of the caller. A request keeps it in \<^verbatim>\<open>primary\<close> exactly while a mirror serves it, whole or
  a chunk of it; a request that no mirror serves reads \<open>f\<close> itself; and source 0 of a striped one is \<open>f\<close>.
\<close>

definition by_mirror :: "pending \<Rightarrow> bool" where
  "by_mirror p \<longleftrightarrow> (if pn_chunk_src p = [] then pn_source p \<noteq> 0 else \<not> set (pn_chunk_src p) \<subseteq> {0})"

definition of_caller :: "file_handle \<Rightarrow> pending \<Rightarrow> bool" where
  "of_caller f p \<longleftrightarrow> pn_primary p = (if by_mirror p then Some f else None)
     \<and> (pn_chunk_src p = [] \<and> pn_source p = 0 \<longrightarrow> rq_file (pn_req p) = Some f)
     \<and> (pn_chunk_src p \<noteq> [] \<longrightarrow> pn_src_file p 0 = Some f \<and> length (pn_chunk_src p) = length (pn_chunks p))
     \<and> (\<forall>s < 32. has_bit (pn_src_err p) s \<longrightarrow> s \<in> set (pn_chunk_src p)) \<and> set (pn_chunk_src p) \<subseteq> {..<32}"

definition tracks :: "file_handle \<Rightarrow> nat \<Rightarrow> io_engine \<Rightarrow> bool" where
  "tracks f rid e \<longleftrightarrow> rid < io_next_request e \<and> (\<forall>p. io_pendings e rid = Some p \<longrightarrow> of_caller f p
     \<and> (\<forall>cid fc s. io_chunk_owner e cid = Some fc \<longrightarrow> fc_owner fc = rid \<longrightarrow> fc_src fc = Some s \<longrightarrow> s \<in> set (pn_chunk_src p)))"

lemma tracks_same:
  "tracks f rid e \<Longrightarrow> io_next_request e \<le> io_next_request e' \<Longrightarrow> io_pendings e' rid = io_pendings e rid \<Longrightarrow>
     io_chunk_owner e' = io_chunk_owner e \<Longrightarrow> tracks f rid e'"
  by (auto simp: tracks_def)

lemma stripe_fold_src:
  assumes "fold (stripe_chunk cand row now) cs (p, src) = (q, src')" "set (pn_chunk_src p) \<subseteq> {..<kMaxIoSources}"
    and "\<forall>s < 32. has_bit (pn_src_used p) s \<longleftrightarrow> s \<in> set (pn_chunk_src p)"
  shows "set (pn_chunk_src q) \<subseteq> {..<kMaxIoSources} \<and> (\<forall>s < 32. has_bit (pn_src_used q) s \<longleftrightarrow> s \<in> set (pn_chunk_src q))
    \<and> pn_src_file q = pn_src_file p \<and> pn_src_err q = pn_src_err p \<and> pn_req q = pn_req p \<and> pn_source q = pn_source p
    \<and> pn_primary q = pn_primary p \<and> pn_chunks q = pn_chunks p \<and> length (pn_chunk_src q) = length (pn_chunk_src p) + length cs"
  using assms
proof (induction cs arbitrary: p src)
  case (Cons c cs)
  obtain p1 src1 where st: "stripe_chunk cand row now c (p, src) = (p1, src1)" by fastforce
  define t where "t = (let t = pick_source (sr_weights src) (outstanding_span src) cand (unat (ch_bytes c)) in
     if t \<ge> kMaxIoSources \<or> row t = None then 0 else t)"
  have t: "t < kMaxIoSources" by (auto simp: t_def Let_def kMaxIoSources_def)
  have p1: "pn_chunk_src p1 = pn_chunk_src p @ [t]" "pn_src_used p1 = with_bit (pn_src_used p) t" "pn_src_file p1 = pn_src_file p"
    "pn_src_err p1 = pn_src_err p" "pn_req p1 = pn_req p" "pn_source p1 = pn_source p" "pn_primary p1 = pn_primary p"
    "pn_chunks p1 = pn_chunks p"
    using st by (auto simp: stripe_chunk_def Let_def t_def)
  have "fold (stripe_chunk cand row now) cs (p1, src1) = (q, src')" using Cons.prems(1) st by simp
  from Cons.IH [OF this] show ?case using p1 t Cons.prems(2,3) by (simp add: mask_bit_simps)
qed auto

lemma mask_above: "(m :: u32) AND NOT 1 \<noteq> 0 \<longleftrightarrow> (\<exists>s < 32. 0 < s \<and> has_bit m s)"
proof
  assume "m AND NOT 1 \<noteq> 0"
  then obtain s where s: "bit (m AND NOT 1) s" by (metis bit_eq_iff bit_0_eq bot_apply bot_bool_def)
  then have "bit m s" "s \<noteq> 0" by (auto simp: bit_simps)
  moreover have "s < 32" using bit_imp_le_length [OF s] by simp
  ultimately show "\<exists>s < 32. 0 < s \<and> has_bit m s" by (auto simp: has_bit_iff)
next
  assume "\<exists>s < 32. 0 < s \<and> has_bit m s"
  then obtain s where "s < 32" "0 < s" "bit m s" by (auto simp: has_bit_iff)
  then have "bit (m AND NOT 1) s" by (simp add: bit_simps)
  then show "m AND NOT 1 \<noteq> 0" by force
qed

text \<open>An accepted request.\<close>

lemma submit_tracks:
  assumes "io_inv e" "rows_ok (io_src e)" "submit fs req now e = (Inr rid, e')" "rq_file req = Some f"
  shows "tracks f rid e'"
  using assms(3)
proof (cases rule: submit_cases)
  case (accepted g rt src0 required p src1)
  have g: "g = f" using accepted(1) assms(4) by simp
  define p0 where "p0 = new_pending e req f rt required"
  have p0: "pn_chunk_src p0 = []" "pn_src_used p0 = 0" "pn_src_err p0 = 0" "pn_source p0 = rt_source rt"
    "rq_file (pn_req p0) = Some (rt_file rt)" "pn_primary p0 = (if rt_routed rt \<and> rt_source rt \<noteq> 0 then Some f else None)"
    by (simp_all add: p0_def new_pending_def)
  have rt: "\<not> rt_routed rt \<longrightarrow> rt_file rt = f \<and> rt_source rt = 0" "rt_source rt = 0 \<longrightarrow> rt_file rt = f"
    "rt_stripe_mask rt \<noteq> 0 \<longrightarrow> rt_row rt 0 = Some f \<and> \<not> rt_routed rt"
  proof -
    show "\<not> rt_routed rt \<longrightarrow> rt_file rt = f \<and> rt_source rt = 0"
      using accepted(2) unfolding g route_request_def Let_def by (auto simp: unrouted_def split: if_splits option.splits)
    show "rt_source rt = 0 \<longrightarrow> rt_file rt = f"
      using accepted(2) unfolding g route_request_def Let_def
      by (auto simp: unrouted_def dest: rows_okD [OF assms(2)] split: if_splits option.splits)
    show "rt_stripe_mask rt \<noteq> 0 \<longrightarrow> rt_row rt 0 = Some f \<and> \<not> rt_routed rt"
      using accepted(2) unfolding g route_request_def Let_def
      by (auto simp: unrouted_def dest: rows_okD [OF assms(2)] split: if_splits option.splits)
  qed
  have "of_caller f p"
  proof (cases "rt_stripe_mask rt = 0")
    case True
    then have "p = p0" using accepted(4) by (simp add: stripe_request_def p0_def g)
    then show ?thesis using p0 rt by (auto simp: of_caller_def by_mirror_def)
  next
    case False
    obtain q src' where q: "fold (stripe_chunk (rt_stripe_mask rt) (rt_row rt) now) (pn_chunks p0) (p0\<lparr>pn_src_file := rt_row rt\<rparr>, src0) = (q, src')"
      by fastforce
    have p: "p = (if pn_src_used q AND NOT 1 \<noteq> 0 then q\<lparr>pn_primary := Some f\<rparr> else q)"
      using accepted(4) False q by (auto simp: stripe_request_def p0_def [symmetric] g split: if_splits)
    have k: "set (pn_chunk_src q) \<subseteq> {..<kMaxIoSources}" "\<And>s. s < 32 \<Longrightarrow> has_bit (pn_src_used q) s \<longleftrightarrow> s \<in> set (pn_chunk_src q)"
      "pn_src_file q 0 = Some f" "pn_src_err q = 0" "rq_file (pn_req q) = Some f" "pn_source q = 0" "pn_primary q = None"
      "length (pn_chunk_src q) = length (pn_chunks q)"
      using stripe_fold_src [OF q] p0 rt False by auto
    have lt: "set (pn_chunk_src q) \<subseteq> {..<32}" using k(1) source_lt by (auto simp: lessThan_def)
    have "pn_src_used q AND NOT 1 \<noteq> 0 \<longleftrightarrow> (\<exists>s \<in> set (pn_chunk_src q). s \<noteq> 0)"
      unfolding mask_above using k(2) lt by (auto simp: subset_iff)
    also have "\<dots> \<longleftrightarrow> by_mirror q" using k(6) by (auto simp: by_mirror_def)
    finally have "pn_src_used q AND NOT 1 \<noteq> 0 \<longleftrightarrow> by_mirror q" .
    moreover have "by_mirror p = by_mirror q" by (simp add: p by_mirror_def)
    ultimately show ?thesis using k lt by (auto simp: of_caller_def p)
  qed
  moreover have "io_chunk_owner e cid = Some fc \<Longrightarrow> fc_owner fc \<noteq> io_next_request e" for cid fc
    using io_invD(1,3) [OF assms(1)] by (fastforce simp: owners_ok_def reqs_ok_def)
  ultimately show ?thesis using accepted(5) by (auto simp: tracks_def accepted(6) enqueue_def Let_def)
qed simp


text \<open>A chunk that lands marks only its own source; a request that goes back reads the caller's file.\<close>

lemma land_caller:
  assumes "of_caller f p" "\<And>s. fc_src fc = Some s \<Longrightarrow> s \<in> set (pn_chunk_src p)"
  shows "of_caller f (land_chunk c fc p)"
proof -
  have "by_mirror (land_chunk c fc p) = by_mirror p" by (simp add: by_mirror_def)
  moreover have "s \<in> set (pn_chunk_src p)" if "s < 32" "has_bit (pn_src_err (land_chunk c fc p)) s" for s
  proof -
    have "has_bit (pn_src_err p) s \<or> fc_src fc = Some s"
      using that assms by (auto simp: land_chunk_def Let_def mask_bit_simps of_caller_def subset_iff split: option.splits if_splits)
    then show ?thesis using assms that(1) by (auto simp: of_caller_def)
  qed
  ultimately show ?thesis using assms(1) by (auto simp: of_caller_def)
qed

lemma failed_over_caller:
  assumes "of_caller f p" "goes_back p"
  shows "of_caller f (failed_over p)"
proof -
  have "pn_primary p = Some f" using assms by (auto simp: of_caller_def goes_back_def split: if_splits)
  then show ?thesis by (simp add: of_caller_def by_mirror_def failed_over_def has_bit_iff)
qed

lemma finished_unowned:
  assumes "reqs_ok pend own n" "pend rid = Some p" "finished p" "finite (dom own)"
  shows "own cid = Some fc \<Longrightarrow> fc_owner fc \<noteq> rid"
proof -
  have "req_ok p (card (chunks_of own rid))" using assms(1,2) by (auto simp: reqs_ok_def)
  then have "card (chunks_of own rid) = 0" using assms(3) by (auto simp: req_ok_def finished_def)
  moreover have "finite (chunks_of own rid)" using assms(4) by (auto simp: chunks_of_def dom_def elim: finite_subset [rotated])
  ultimately show "own cid = Some fc \<Longrightarrow> fc_owner fc \<noteq> rid" by (auto simp: chunks_of_def)
qed

lemma tracksD:
  assumes "tracks f rid e" "io_pendings e rid = Some p"
  shows "of_caller f p" "io_chunk_owner e cid = Some fc \<Longrightarrow> fc_owner fc = rid \<Longrightarrow> fc_src fc = Some s \<Longrightarrow> s \<in> set (pn_chunk_src p)"
  using assms by (auto simp: tracks_def)

lemma completion_tracks:
  assumes "io_core e" "tracks f rid e"
  shows "tracks f rid (handle_completion c now e)"
proof (cases "finish_keepalive c now e")
  case (Some k)
  then have "io_pendings k = io_pendings e \<and> io_chunk_owner k = io_chunk_owner e \<and> io_next_request k = io_next_request e"
    by (auto simp: finish_keepalive_def split: if_splits option.split)
  then show ?thesis using Some tracks_same [OF assms(2), of k] by (simp add: handle_completion_def)
next
  case None
  show ?thesis
  proof (cases "io_chunk_owner e (cc_chunk_id c)")
    case fc: (Some fc)
    show ?thesis
    proof (cases "io_pendings e (fc_owner fc)")
      case (Some p)
      let ?p = "land_chunk c fc p" and ?own = "(io_chunk_owner e)(cc_chunk_id c := None)"
      define k where "k = handle_completion c now e"
      have k: "io_pendings k = (io_pendings e)(fc_owner fc \<mapsto> (if finished ?p \<and> goes_back ?p then failed_over ?p else ?p))"
        "io_chunk_owner k = ?own" "io_next_request k = io_next_request e"
        by (auto simp: k_def handle_completion_def None fc Some Let_def finish_fields fun_upd_def)
      have lt: "rid < io_next_request e" using assms(2) by (simp add: tracks_def)
      show ?thesis
      proof (cases "fc_owner fc = rid")
        case True
        have core: "reqs_ok (io_pendings e) (io_chunk_owner e) (io_next_request e)" "queues_ok (io_pendings e) (io_queues e)"
          "owners_ok (io_pendings e) (io_chunk_owner e) (io_next_chunk e)"
          "counts_ok (io_pendings e) (io_chunk_owner e) (io_inflight_ops e) (io_inflight_bytes e) (io_inflight_class e)"
          using assms(1) by (simp_all add: io_core_def)
        have pend: "io_pendings e rid = Some p" using Some True by simp
        note t = tracksD [OF assms(2) pend]
        have l: "of_caller f ?p" by (rule land_caller [OF t(1) t(2) [OF fc True]])
        have own: "finished ?p \<Longrightarrow> ?own cid = Some fc' \<Longrightarrow> fc_owner fc' \<noteq> rid" for cid fc'
          using finished_unowned [OF land_core(1) [OF core fc Some refl, of c], of rid ?p cid fc'] True core(3)
          by (auto simp: owners_ok_def)
        have "s \<in> set (pn_chunk_src ?p)" if "?own cid = Some fc'" "fc_owner fc' = rid" "fc_src fc' = Some s" for cid fc' s
          using t(2) [of cid fc' s] that by (auto split: if_splits)
        then have "tracks f rid k" using l failed_over_caller [OF l] own lt True by (auto simp: tracks_def k)
        then show ?thesis by (simp add: k_def)
      next
        case False
        then have "tracks f rid k" using assms(2) by (auto simp: tracks_def k)
        then show ?thesis by (simp add: k_def)
      qed
    qed (use assms(2) in \<open>simp add: handle_completion_def None fc\<close>)
  qed (use assms(2) in \<open>simp add: handle_completion_def None\<close>)
qed

lemma run_io_op_tracks:
  assumes "io_inv e" "tracks f rid e"
  shows "tracks f rid (run_io_op fs op e)"
proof (cases op)
  case (OpSubmit req now)
  obtain r e' where s: "submit fs req now e = (r, e')" by fastforce
  have lt: "rid < io_next_request e" using assms(2) by (simp add: tracks_def)
  from s have "tracks f rid e'"
  proof (cases rule: submit_cases)
    case (accepted g rt src0 required p src1)
    show ?thesis using lt by (intro tracks_same [OF assms(2)]) (simp_all add: accepted(6) enqueue_def Let_def)
  qed (auto intro: tracks_same [OF assms(2)])
  then show ?thesis by (simp add: OpSubmit s)
next
  case (OpCancel r now)
  have "tracks f rid (snd (cancel r now e))"
    using io_invD(2) [OF assms(1)]
  proof (cases rule: cancel_cases [where rid = r and now = now])
    case (found p)
    then show ?thesis using assms(2) by (auto simp: tracks_def answer_def)
  qed (simp add: assms(2))
  then show ?thesis by (simp add: OpCancel)
next
  case (OpPick now)
  have "tracks f rid (snd (pick_chunk fs now e))"
    using io_invD(2) [OF assms(1)]
  proof (cases rule: pick_chunk_cases [where fs = fs and now = now])
    case none
    then show ?thesis by (auto intro: tracks_same [OF assms(2)])
  next
    case (some r p)
    let ?p = "p\<lparr>pn_next := pn_next p + 1, pn_issued := pn_issued p + 1\<rparr>"
    have c: "of_caller f p \<Longrightarrow> of_caller f ?p" by (simp add: of_caller_def by_mirror_def)
    have "of_caller f p \<Longrightarrow> pn_chunk_src p \<noteq> [] \<Longrightarrow> pn_chunk_src p ! pn_next p \<in> set (pn_chunk_src p)"
      using some(2) by (simp add: of_caller_def)
    then show ?thesis using assms(2) c some(1)
      by (simp add: some(3) issue_chunk_def Let_def tracks_def) (metis empty_iff list.set(1) option.exhaust)
  qed
  then show ?thesis by (simp add: OpPick)
next
  case (OpRefused now)
  have "tracks f rid (e\<lparr>io_failed_q := q\<rparr>)" for q using assms(2) by (rule tracks_same) simp_all
  moreover have "io_core (e\<lparr>io_failed_q := q\<rparr>)" for q using assms(1) by (simp add: io_inv_def io_core_def)
  ultimately show ?thesis using assms(2) OpRefused by (simp add: handle_refused_def completion_tracks split: list.split)
next
  case (OpReap c now)
  have "tracks f rid (e\<lparr>io_at_backend := q\<rparr>)" for q using assms(2) by (rule tracks_same) simp_all
  moreover have "io_core (e\<lparr>io_at_backend := q\<rparr>)" for q using assms(1) by (simp add: io_inv_def io_core_def)
  ultimately show ?thesis using OpReap by (simp add: reap_def completion_tracks)
next
  case (OpPoked c now)
  then show ?thesis using assms by (simp add: completion_tracks io_inv_def)
qed (use assms(2) in \<open>auto intro!: tracks_same [OF assms(2)] simp: do_submit_def io_stop_def io_reset_stats_def
  set_p0_depth_def engram_wait_def engram_wait_over_def set_engram_wait_priority_def split: list.split option.split\<close>)

text \<open>Any run of the engine, from one state to a later one.\<close>

inductive io_run :: "(file_handle \<Rightarrow> file_info) \<Rightarrow> io_engine \<Rightarrow> io_engine \<Rightarrow> bool" for fs where
  here: "io_run fs e e"
| later: "io_run fs e e' \<Longrightarrow> io_op_ok op e' \<Longrightarrow> io_run fs e (run_io_op fs op e')"

lemma io_run_reachable: "io_run fs e e' \<Longrightarrow> io_reachable fs e \<Longrightarrow> io_reachable fs e'"
  by (induction rule: io_run.induct) (auto intro: io_reachable.step)

lemma io_run_tracks: "io_run fs e e' \<Longrightarrow> io_reachable fs e \<Longrightarrow> tracks f rid e \<Longrightarrow> tracks f rid e'"
  by (induction rule: io_run.induct) (auto intro: run_io_op_tracks reachable_io_inv io_run_reachable)

lemma submitted_tracks:
  assumes "io_reachable fs e0" "submit fs req t0 e0 = (Inr rid, e1)" "rq_file req = Some f" "io_run fs e1 e"
  shows "io_reachable fs e" "tracks f rid e"
proof -
  have "io_reachable fs (run_io_op fs (OpSubmit req t0) e0)" by (rule io_reachable.step [OF assms(1)]) simp
  then have r: "io_reachable fs e1" using assms(2) by simp
  show "io_reachable fs e" by (rule io_run_reachable [OF assms(4) r])
  show "tracks f rid e"
    by (rule io_run_tracks [OF assms(4) r submit_tracks [OF reachable_io_inv [OF assms(1)] reachable_rows [OF assms(1)] assms(2,3)]])
qed


section \<open>Failover\<close>

text \<open>
  C38. A mirror's failure is not the caller's failure. Follow a request from the \<^verbatim>\<open>submit\<close> that
  accepted it, through any run of the engine, to the completion of its last chunk with a failed
  status. When the router had given the whole request to a mirror, or when a chunk of a striped
  request came back with an error from a mirror, the caller is told nothing: the request is back at the head of its
  queue, to be read whole from the very file the caller named, by no mirror. Otherwise the caller gets
  exactly one answer with that status, and then the request was being read from the file the caller
  named; of a striped one, no mirror reported an error (a mirror that reads short without an error
  is not told apart from the primary).
\<close>

theorem mirror_failure_not_reported:
  assumes "io_reachable fs e0" "submit fs req t0 e0 = (Inr rid, e1)" "io_run fs e1 e"
    and "io_pendings e rid = Some p" "io_chunk_owner e (cc_chunk_id c) = Some fc" "fc_owner fc = rid"
    and "finished (land_chunk c fc p)" "result_status (land_chunk c fc p) \<noteq> ErrOk"
  shows "if (if pn_chunk_src p = [] then pn_source p \<noteq> 0 else \<exists>s < 32. 0 < s \<and> has_bit (pn_src_err (land_chunk c fc p)) s)
    then io_callbacks (handle_completion c now e) = io_callbacks e
       \<and> hd (io_queues (handle_completion c now e) (class_of p)) = rid
       \<and> (\<exists>q. io_pendings (handle_completion c now e) rid = Some q \<and> rq_file (pn_req q) = rq_file req
            \<and> pn_next q = 0 \<and> pn_chunk_src q = [] \<and> pn_source q = 0 \<and> \<not> pn_routed q)
    else (\<exists>r. io_callbacks (handle_completion c now e) = io_callbacks e @ [r] \<and> rs_id r = rid
            \<and> rs_status r = result_status (land_chunk c fc p))
       \<and> (if pn_chunk_src p = [] then rq_file (pn_req p) = rq_file req else pn_src_file p 0 = rq_file req)"
proof -
  obtain f where f: "rq_file req = Some f" using assms(2) by (cases rule: submit_cases) auto
  note t = submitted_tracks [OF assms(1,2) f assms(3)]
  let ?p = "land_chunk c fc p"
  have "cc_chunk_id c < kKeepAliveChunkBase"
    using io_invD(3) [OF reachable_io_inv [OF t(1)]] assms(5) by (fastforce simp: owners_ok_def)
  then have k: "finish_keepalive c now e = None" by (simp add: finish_keepalive_def)
  have c: "of_caller f ?p" using land_caller tracksD [OF t(2) assms(4)] assms(5,6) by blast
  then have o: "pn_primary p = (if by_mirror p then Some f else None)" "pn_chunk_src p = [] \<and> pn_source p = 0 \<longrightarrow> rq_file (pn_req p) = Some f"
    "pn_chunk_src p \<noteq> [] \<longrightarrow> pn_src_file p 0 = Some f" "\<And>s. s < 32 \<Longrightarrow> has_bit (pn_src_err ?p) s \<Longrightarrow> s \<in> set (pn_chunk_src p)"
    by (auto simp: of_caller_def by_mirror_def)
  have g: "goes_back ?p \<longleftrightarrow> (if pn_chunk_src p = [] then pn_source p \<noteq> 0 else \<exists>s < 32. 0 < s \<and> has_bit (pn_src_err ?p) s)"
    unfolding goes_back_def mask_above using assms(8) o(1,4) by (auto simp: by_mirror_def)
  then have "goes_back ?p \<Longrightarrow> pn_primary p = Some f" using o(1) by (auto simp: goes_back_def split: if_splits)
  moreover have "pn_source (failed_over ?p) = 0" by (simp add: failed_over_def)
  ultimately show ?thesis unfolding g [symmetric]
    using o(2,3) g f by (simp add: handle_completion_def k assms(4-7) Let_def finish_fields)
qed

lemma mirror_accepts: "submit demo_files demo_request 0 mirror_ready = (Inr 1, mirror_queued)"
proof -
  obtain r where s: "submit demo_files demo_request 0 mirror_ready = (r, mirror_queued)"
    by (cases "submit demo_files demo_request 0 mirror_ready") (simp add: mirror_queued_def)
  have n: "io_pendings mirror_ready = Map.empty" "io_next_request mirror_ready = 1"
    by (simp_all add: mirror_ready_def demo_started_facts)
  from s show ?thesis
  proof (cases rule: submit_cases)
    case (refused er src)
    have "io_pendings mirror_queued = io_pendings mirror_ready" by (subst refused(2)) simp
    then show ?thesis by (simp add: n mirror_queued_facts)
  next
    case (accepted f rt src0 required p src1)
    then show ?thesis using s n by simp
  qed
qed

theorem mirror_failure_not_reported_witness:
  "io_callbacks (handle_completion \<lparr>cc_chunk_id = 1, cc_bytes_moved = 0, cc_status = Io\<rparr> 0 mirror_picked) = []
   \<and> hd (io_queues (handle_completion \<lparr>cc_chunk_id = 1, cc_bytes_moved = 0, cc_status = Io\<rparr> 0 mirror_picked) BlockingMiss) = 1"
proof -
  let ?c = "\<lparr>cc_chunk_id = 1, cc_bytes_moved = 0, cc_status = Io\<rparr> :: chunk_completion"
  let ?fc = "\<lparr>fc_owner = 1, fc_bytes = 8192, fc_src = None\<rparr> :: inflight_chunk"
  let ?p = "mirror_pending\<lparr>pn_next := 1, pn_issued := 1\<rparr>"
  have "io_run demo_files mirror_queued (run_io_op demo_files (OpPick 0) mirror_queued)"
    by (rule io_run.later [OF io_run.here]) (simp add: mirror_queued_facts kKeepAliveChunkBase_def)
  then have run: "io_run demo_files mirror_queued mirror_picked" by (simp add: mirror_picks)
  have "finished (land_chunk ?c ?fc ?p)" "result_status (land_chunk ?c ?fc ?p) \<noteq> ErrOk" "class_of ?p = BlockingMiss"
    "pn_source ?p = 1" "pn_chunk_src ?p = []"
    by (simp_all add: finished_def result_status_def land_chunk_def mirror_pending_def demo_pending_def class_of_def demo_request_def)
  then show ?thesis using mirror_failure_not_reported [OF mirror_ready_reachable mirror_accepts run, of ?p ?c ?fc 0]
    by (simp add: mirror_picked_facts)
qed

end
