(* ===== verification/Dspark_Tree.thy ===== *)
theory Dspark_Tree
  imports Prelude
begin

text \<open>
  \<^verbatim>\<open>cpu/dspark_tree.cpp\<close>: the draft lattice of speculative decoding, the three ways to choose one
  path through it, and the rules that accept a prefix of the path against the verify rows.

  Floats and doubles are real numbers: rounding is not modelled, and the two series \<open>dm_exp\<close> and
  \<open>dm_log\<close> are the truncated ones of the source, evaluated exactly. Minus infinity, which only the
  tail mass of a lattice row can be, is \<open>None\<close>. The flat arrays are lists with the source's indexing.
\<close>

definition kPositions :: nat where "kPositions = 5"
definition kRank :: nat where "kRank = 256"
definition kHidden :: nat where "kHidden = 5120"
definition kMaxK :: nat where "kMaxK = 64"

section \<open>The arithmetic\<close>

definition kLn2 :: real where "kLn2 = 0.6931471805599453"
definition kSqrtHalf :: real where "kSqrtHalf = 0.7071067811865476"
definition kExpTerms :: nat where "kExpTerms = 16"
definition kLogTerms :: nat where "kLogTerms = 14"
definition kExpLo :: real where "kExpLo = - 745"

definition ldexp :: "real \<Rightarrow> int \<Rightarrow> real" where
  "ldexp p k = (if k \<ge> 0 then p * 2 ^ nat k else p / 2 ^ nat (- k))"

definition dm_exp :: "real \<Rightarrow> real" where
  "dm_exp x =
     (if \<not> x \<ge> kExpLo then 0
      else let k = \<lfloor>x / kLn2 + 1 / 2\<rfloor>; r = x - of_int k * kLn2;
               p = fold (\<lambda>n p. 1 + (p * r) * (1 / real n)) (rev [1..<kExpTerms + 1]) 1
           in ldexp p k)"

text \<open>The mantissa in \<open>[1/2, 1)\<close> and the exponent of a positive number.\<close>

definition frexp :: "real \<Rightarrow> real \<times> int" where
  "frexp y = (let e = \<lfloor>log 2 y\<rfloor> + 1 in (ldexp y (- e), e))"

definition dm_log :: "real \<Rightarrow> real option" where
  "dm_log y =
     (if \<not> y > 0 then None
      else let (m, e) = frexp y;
               (m, e) = (if m < kSqrtHalf then (m * 2, e - 1) else (m, e));
               f = (m - 1) / (m + 1); f2 = f * f;
               s = fold (\<lambda>n s. 2 / real (2 * n + 1) + f2 * s) (rev [0..<kLogTerms]) (2 / real (2 * kLogTerms + 1))
           in Some (f * s + of_int e * kLn2))"

text \<open>\<^verbatim>\<open>dot16\<close>: sixteen lanes, each summed over the rows of sixteen, then the lanes in order.\<close>

definition dot_lane :: "real list \<Rightarrow> real list \<Rightarrow> nat \<Rightarrow> nat \<Rightarrow> real" where
  "dot_lane a b n l = fold (\<lambda>r acc. acc + a ! (16 * r + l) * b ! (16 * r + l)) [0..<n div 16] 0"

definition dot16 :: "real list \<Rightarrow> real list \<Rightarrow> nat \<Rightarrow> real" where
  "dot16 a b n = fold (\<lambda>l s. s + dot_lane a b n l) [0..<16] 0"

definition argmax_step :: "real list \<Rightarrow> nat \<Rightarrow> real \<times> nat \<Rightarrow> real \<times> nat" where
  "argmax_step v i = (\<lambda>(best, arg). if v ! i > best then (v ! i, i) else (best, arg))"

definition first_argmax :: "real list \<Rightarrow> nat" where
  "first_argmax v = snd (fold (argmax_step v) [1..<length v] (v ! 0, 0))"

text \<open>The scan of \<^verbatim>\<open>sample_index\<close>: the first index whose running sum exceeds \<open>t\<close>, or the last positive one.\<close>

fun scan_index :: "real \<Rightarrow> nat \<Rightarrow> nat \<Rightarrow> real \<Rightarrow> real list \<Rightarrow> nat" where
  "scan_index t i lst cum [] = lst"
| "scan_index t i lst cum (x # xs) =
     (let lst = (if x > 0 then i else lst); cum = cum + x
      in if cum > t then i else scan_index t (i + 1) lst cum xs)"

definition sample_index :: "real list \<Rightarrow> real \<Rightarrow> nat" where
  "sample_index w u = scan_index (u * fold (\<lambda>x s. s + x) w 0) 0 0 0 w"

definition lse_seq :: "real list \<Rightarrow> real option \<Rightarrow> real" where
  "lse_seq x extra =
     (let m = fold (\<lambda>y m. if y > m then y else m) (tl x) (hd x);
          m = (case extra of Some y \<Rightarrow> if y > m then y else m | None \<Rightarrow> m);
          s = fold (\<lambda>y s. s + dm_exp (y - m)) x 0;
          s = (case extra of Some y \<Rightarrow> s + dm_exp (y - m) | None \<Rightarrow> s)
      in case dm_log s of Some l \<Rightarrow> m + l | None \<Rightarrow> m)"

section \<open>The lattice\<close>

record lattice_input =
  li_K :: nat
  li_cand_ids :: "int list"
  li_cand_logit :: "real list"
  li_e_in :: "real list"
  li_e_cand :: "real list"
  li_h_cand :: "real list"
  li_lse_anchor :: "real list"

record lattice =
  lt_K :: nat
  lt_ids :: "int list"
  lt_e_in :: "real list"
  lt_e_cand :: "real list"
  lt_bias :: "real list"
  lt_logq :: "real list"

definition row_at :: "nat \<Rightarrow> nat \<Rightarrow> nat \<Rightarrow> nat" where
  "row_at K i prev = (i * K + (if i = 0 then 0 else prev)) * K"

definition logq :: "lattice \<Rightarrow> nat \<Rightarrow> nat \<Rightarrow> nat \<Rightarrow> real" where
  "logq L i prev c = lt_logq L ! (row_at (lt_K L) i prev + c)"

definition bias :: "lattice \<Rightarrow> nat \<Rightarrow> nat \<Rightarrow> nat \<Rightarrow> real" where
  "bias L i prev c = lt_bias L ! (row_at (lt_K L) i prev + c)"

definition token :: "lattice \<Rightarrow> nat \<Rightarrow> nat \<Rightarrow> int" where
  "token L i c = lt_ids L ! (i * lt_K L + c)"

definition n_prev :: "nat \<Rightarrow> nat \<Rightarrow> nat" where
  "n_prev K i = (if i = 0 then 1 else K)"

definition rank_row :: "real list \<Rightarrow> nat \<Rightarrow> real list" where
  "rank_row xs r = take kRank (drop (r * kRank) xs)"

text \<open>Row \<open>(i, p)\<close> of the bias table; the rows \<open>p \<ge> 1\<close> of position 0 stay zero.\<close>

definition bias_row :: "lattice_input \<Rightarrow> nat \<Rightarrow> nat \<Rightarrow> real list" where
  "bias_row li i p =
     (let K = li_K li in
      if p < n_prev K i
      then map (\<lambda>c. dot16 (if i = 0 then take kRank (li_e_in li) else rank_row (li_e_cand li) ((i - 1) * K + p))
                      (rank_row (li_h_cand li) (i * K + c)) kRank) [0..<K]
      else replicate K 0)"

definition tail_mass :: "lattice_input \<Rightarrow> nat \<Rightarrow> real option" where
  "tail_mass li i =
     (if li_lse_anchor li = [] then None
      else let la = li_lse_anchor li ! i;
               s = fold (\<lambda>c s. s + dm_exp (li_cand_logit li ! (i * li_K li + c) + bias_row li i 0 ! c - la)) [0..<li_K li] 0;
               rest = 1 - s
           in if rest > 0 then map_option (\<lambda>l. la + l) (dm_log rest) else None)"

definition logq_row :: "lattice_input \<Rightarrow> nat \<Rightarrow> nat \<Rightarrow> real list" where
  "logq_row li i p =
     (let K = li_K li; score = map (\<lambda>c. li_cand_logit li ! (i * K + c) + bias_row li i p ! c) [0..<K];
          lse = lse_seq score (tail_mass li i)
      in if p < n_prev K i then map (\<lambda>x. x - lse) score else replicate K 0)"

definition table_of :: "nat \<Rightarrow> (nat \<Rightarrow> nat \<Rightarrow> real list) \<Rightarrow> real list" where
  "table_of K row = concat (map (\<lambda>i. concat (map (row i) [0..<K])) [0..<kPositions])"

definition build :: "lattice_input \<Rightarrow> lattice result" where
  "build li =
     (let K = li_K li; P = kPositions in
      if K = 0 \<or> K > kMaxK then Inl InvalidArgument
      else if length (li_cand_ids li) < P * K \<or> length (li_cand_logit li) < P * K then Inl InvalidArgument
      else if length (li_e_in li) < kRank \<or> length (li_e_cand li) < (P - 1) * K * kRank \<or> length (li_h_cand li) < P * K * kRank
      then Inl InvalidArgument
      else if li_lse_anchor li \<noteq> [] \<and> length (li_lse_anchor li) < P then Inl InvalidArgument
      else Inr \<lparr>lt_K = K, lt_ids = take (P * K) (li_cand_ids li), lt_e_in = take kRank (li_e_in li),
                lt_e_cand = take ((P - 1) * K * kRank) (li_e_cand li),
                lt_bias = table_of K (bias_row li), lt_logq = table_of K (logq_row li)\<rparr>)"

definition prev_embed :: "lattice \<Rightarrow> nat list \<Rightarrow> nat \<Rightarrow> real list" where
  "prev_embed L path i =
     (if i = 0 then lt_e_in L else rank_row (lt_e_cand L) ((i - 1) * lt_K L + path ! (i - 1)))"

section \<open>Choosing a path\<close>

datatype objective = Viterbi | Eal | Chain

definition logq_of :: "lattice \<Rightarrow> nat \<Rightarrow> nat \<Rightarrow> real list" where
  "logq_of L i prev = map (logq L i prev) [0..<lt_K L]"

fun chain_path :: "lattice \<Rightarrow> nat \<Rightarrow> nat \<Rightarrow> nat \<Rightarrow> nat list" where
  "chain_path L i 0 prev = []"
| "chain_path L i (Suc n) prev = (let a = first_argmax (logq_of L i prev) in a # chain_path L (i + 1) n a)"

text \<open>
  One column of the forward pass: the best predecessor of candidate \<open>c\<close> and its score, a later
  predecessor winning only with a strictly better one.
\<close>

definition viterbi_cell :: "lattice \<Rightarrow> nat \<Rightarrow> real list \<Rightarrow> nat \<Rightarrow> real \<times> nat" where
  "viterbi_cell L i v c =
     fold (\<lambda>p (best, back). let t = v ! p + logq L i p c in if t > best then (t, p) else (best, back))
       [1..<lt_K L] (v ! 0 + logq L i 0 c, 0)"

fun viterbi_pass :: "lattice \<Rightarrow> nat \<Rightarrow> nat \<Rightarrow> real list \<Rightarrow> nat list list \<Rightarrow> real list \<times> nat list list" where
  "viterbi_pass L i 0 v backs = (v, backs)"
| "viterbi_pass L i (Suc n) v backs =
     (let cells = map (viterbi_cell L i v) [0..<lt_K L]
      in viterbi_pass L (i + 1) n (map fst cells) (map snd cells # backs))"

text \<open>The back pointers of the last position come first.\<close>

fun walk_back :: "nat list list \<Rightarrow> nat \<Rightarrow> nat list \<Rightarrow> nat list" where
  "walk_back [] c out = c # out"
| "walk_back (b # bs) c out = walk_back bs (b ! c) (c # out)"

definition viterbi_path :: "lattice \<Rightarrow> nat list" where
  "viterbi_path L =
     (let (v, backs) = viterbi_pass L 1 (kPositions - 1) (logq_of L 0 0) []
      in walk_back backs (first_argmax v) [])"

definition eal_cell :: "lattice \<Rightarrow> nat \<Rightarrow> real list \<Rightarrow> nat \<Rightarrow> nat \<times> real" where
  "eal_cell L i g p =
     (let val = map (\<lambda>c. dm_exp (logq L i p c) * (1 + g ! c)) [0..<lt_K L]; a = first_argmax val in (a, val ! a))"

fun eal_pass :: "lattice \<Rightarrow> nat \<Rightarrow> real list \<Rightarrow> nat list list \<Rightarrow> nat list list" where
  "eal_pass L 0 g choice = choice"
| "eal_pass L (Suc i) g choice =
     (let cells = map (eal_cell L i g) [0..<n_prev (lt_K L) i] in eal_pass L i (map snd cells) (map fst cells # choice))"

fun walk_choice :: "nat list list \<Rightarrow> nat \<Rightarrow> nat list" where
  "walk_choice [] prev = []"
| "walk_choice (ch # chs) prev = ch ! prev # walk_choice chs (ch ! prev)"

definition eal_path :: "lattice \<Rightarrow> nat list" where
  "eal_path L = walk_choice (eal_pass L kPositions (replicate (lt_K L) 0) []) 0"

fun lattice_path :: "objective \<Rightarrow> lattice \<Rightarrow> nat list" where
  "lattice_path Chain L = chain_path L 0 kPositions 0"
| "lattice_path Viterbi L = viterbi_path L"
| "lattice_path Eal L = eal_path L"

fun sample_from :: "lattice \<Rightarrow> nat \<Rightarrow> nat \<Rightarrow> real list \<Rightarrow> nat list" where
  "sample_from L i prev [] = []"
| "sample_from L i prev (u # us) =
     (let a = sample_index (map dm_exp (logq_of L i prev)) u in a # sample_from L (i + 1) a us)"

definition lattice_sample :: "lattice \<Rightarrow> real list \<Rightarrow> nat list" where
  "lattice_sample L u = sample_from L 0 0 u"

definition eal_step :: "lattice \<Rightarrow> nat list \<Rightarrow> nat \<Rightarrow> real \<times> real \<times> nat \<Rightarrow> real \<times> real \<times> nat" where
  "eal_step L path i = (\<lambda>(tot, run, prev).
     let run = run * dm_exp (logq L i prev (path ! i)) in (tot + run, run, path ! i))"

definition eal_value :: "lattice \<Rightarrow> nat list \<Rightarrow> nat \<Rightarrow> real" where
  "eal_value L path k = fst (fold (eal_step L path) [0..<k] (0, 1, 0))"

definition path_tokens :: "lattice \<Rightarrow> nat list \<Rightarrow> int list" where
  "path_tokens L path = map (\<lambda>i. token L i (path ! i)) [0..<kPositions]"

section \<open>How many positions to verify\<close>

definition confidence :: "real list \<Rightarrow> real list \<Rightarrow> real list \<Rightarrow> real \<Rightarrow> real" where
  "confidence x e w b =
     (let lane = (\<lambda>l. fold (\<lambda>r acc. acc + e ! (16 * r + l) * w ! (kHidden + 16 * r + l)) [0..<kRank div 16]
                       (fold (\<lambda>r acc. acc + x ! (16 * r + l) * w ! (16 * r + l)) [0..<kHidden div 16] 0))
      in fold (\<lambda>l s. s + lane l) [0..<16] 0 + b)"

definition sigmoid :: "real \<Rightarrow> real" where
  "sigmoid c = 1 / (1 + dm_exp (- c))"

fun confident_prefix :: "real \<Rightarrow> real \<Rightarrow> nat \<Rightarrow> real list \<Rightarrow> nat" where
  "confident_prefix theta run k [] = k"
| "confident_prefix theta run k (c # cs) =
     (let run = run * sigmoid c in if run < theta then k else confident_prefix theta run (k + 1) cs)"

definition k_from_confidence :: "real list \<Rightarrow> real \<Rightarrow> nat" where
  "k_from_confidence conf theta = confident_prefix theta 1 0 (take kPositions conf)"

section \<open>Acceptance\<close>

text \<open>The first \<^verbatim>\<open>n_emitted\<close> tokens of \<^verbatim>\<open>Accept\<close>; \<^verbatim>\<open>n_emitted\<close> is their number.\<close>

record accept =
  ac_accepted :: nat
  ac_tokens :: "int list"

definition accept_greedy :: "int list \<Rightarrow> int list \<Rightarrow> nat \<Rightarrow> accept" where
  "accept_greedy path amax k =
     (let a = length (takeWhile (\<lambda>j. path ! j = amax ! j) [0..<k])
      in \<lparr>ac_accepted = a, ac_tokens = take a path @ [amax ! a]\<rparr>)"

text \<open>
  One position of \<^verbatim>\<open>accept_sampling_exact\<close>: \<open>q\<close> is the draft's row, \<open>p\<close> the model's probabilities of
  the same candidates, \<open>c\<close> the drafted one. A rejected candidate is replaced by another candidate or
  by the token drawn from the rest of the row.
\<close>

datatype choice = Kept nat | Redrawn nat | FromRest

definition leftover :: "real list \<Rightarrow> real list \<Rightarrow> real list" where
  "leftover p q = map (\<lambda>(x, y). if x - y > 0 then x - y else 0) (zip p q)"

definition exact_choice :: "real list \<Rightarrow> real list \<Rightarrow> nat \<Rightarrow> real \<Rightarrow> real \<Rightarrow> choice" where
  "exact_choice p q c u_acc u_res =
     (if u_acc * (q ! c) < p ! c then Kept c
      else let w = leftover p q; sw = fold (\<lambda>x s. s + x) w 0; sp = fold (\<lambda>x s. s + x) p 0;
               rest = (if 1 - sp > 0 then 1 - sp else 0); t = u_res * (sw + rest)
           in if t < sw then Redrawn (scan_index t 0 0 0 w) else FromRest)"

definition target_row :: "nat \<Rightarrow> real list \<Rightarrow> nat \<Rightarrow> real list \<Rightarrow> nat \<Rightarrow> real list" where
  "target_row K cand_logit stride lse j = map (\<lambda>c. dm_exp (cand_logit ! (j * stride + c) - lse ! j)) [0..<K]"

definition draft_row :: "lattice \<Rightarrow> nat list \<Rightarrow> nat \<Rightarrow> real list" where
  "draft_row L path j = map dm_exp (logq_of L j (if j = 0 then 0 else path ! (j - 1)))"

fun exact_loop :: "lattice \<Rightarrow> nat list \<Rightarrow> real list \<Rightarrow> nat \<Rightarrow> real list \<Rightarrow> int list \<Rightarrow> int list \<Rightarrow> real list \<Rightarrow> real list
    \<Rightarrow> nat \<Rightarrow> nat \<Rightarrow> int list \<Rightarrow> accept" where
  "exact_loop L path cand_logit stride lse masked full u_acc u_res j 0 out = \<lparr>ac_accepted = j, ac_tokens = out @ [full ! j]\<rparr>"
| "exact_loop L path cand_logit stride lse masked full u_acc u_res j (Suc n) out =
     (case exact_choice (target_row (lt_K L) cand_logit stride lse j) (draft_row L path j) (path ! j) (u_acc ! j) (u_res ! j) of
        Kept c \<Rightarrow> exact_loop L path cand_logit stride lse masked full u_acc u_res (j + 1) n (out @ [token L j c])
      | Redrawn c \<Rightarrow> \<lparr>ac_accepted = j, ac_tokens = out @ [token L j c]\<rparr>
      | FromRest \<Rightarrow> \<lparr>ac_accepted = j, ac_tokens = out @ [masked ! j]\<rparr>)"

definition accept_sampling_exact :: "lattice \<Rightarrow> nat list \<Rightarrow> nat \<Rightarrow> real list \<Rightarrow> nat \<Rightarrow> real list \<Rightarrow> int list \<Rightarrow> int list
    \<Rightarrow> real list \<Rightarrow> real list \<Rightarrow> accept" where
  "accept_sampling_exact L path k cand_logit stride lse masked full u_acc u_res =
     exact_loop L path cand_logit stride lse masked full u_acc u_res 0 k []"

text \<open>\<^verbatim>\<open>accept_sampling\<close>, against rows truncated to their \<open>Kv\<close> best tokens.\<close>

definition row_of :: "'a list \<Rightarrow> nat \<Rightarrow> nat \<Rightarrow> 'a list" where
  "row_of xs n j = map (\<lambda>v. xs ! (j * n + v)) [0..<n]"

definition truncated_row :: "real list \<Rightarrow> nat \<Rightarrow> nat \<Rightarrow> real list" where
  "truncated_row ver_logit Kv j =
     (let pl = row_of ver_logit Kv j; lse = lse_seq pl None in map (\<lambda>x. dm_exp (x - lse)) pl)"

definition weight_of :: "'a list \<Rightarrow> real list \<Rightarrow> 'a \<Rightarrow> real" where
  "weight_of ids w x = (case find (\<lambda>v. ids ! v = x) [0..<length ids] of Some v \<Rightarrow> w ! v | None \<Rightarrow> 0)"

fun sampling_loop :: "lattice \<Rightarrow> nat list \<Rightarrow> int list \<Rightarrow> real list \<Rightarrow> nat \<Rightarrow> real list \<Rightarrow> real list \<Rightarrow> nat \<Rightarrow> nat \<Rightarrow> int list \<Rightarrow> accept" where
  "sampling_loop L path ver_ids ver_logit Kv u_acc u_res j 0 out =
     \<lparr>ac_accepted = j, ac_tokens = out @ [row_of ver_ids Kv j ! sample_index (truncated_row ver_logit Kv j) (u_res ! j)]\<rparr>"
| "sampling_loop L path ver_ids ver_logit Kv u_acc u_res j (Suc n) out =
     (let pv = truncated_row ver_logit Kv j; ids = row_of ver_ids Kv j; q = draft_row L path j;
          x = token L j (path ! j); draft_ids = map (token L j) [0..<lt_K L]
      in if u_acc ! j * (q ! (path ! j)) < weight_of ids pv x
         then sampling_loop L path ver_ids ver_logit Kv u_acc u_res (j + 1) n (out @ [x])
         else let res = map (\<lambda>v. let d = pv ! v - weight_of draft_ids q (ids ! v) in if d > 0 then d else 0) [0..<Kv];
                  total = fold (\<lambda>y s. s + y) res 0
              in \<lparr>ac_accepted = j,
                  ac_tokens = out @ [ids ! (if total > 0 then sample_index res (u_res ! j) else first_argmax pv)]\<rparr>)"

definition accept_sampling :: "lattice \<Rightarrow> nat list \<Rightarrow> nat \<Rightarrow> int list \<Rightarrow> real list \<Rightarrow> nat \<Rightarrow> real list \<Rightarrow> real list \<Rightarrow> accept" where
  "accept_sampling L path k ver_ids ver_logit Kv u_acc u_res = sampling_loop L path ver_ids ver_logit Kv u_acc u_res 0 k []"

end
