(* ===== verification/Speculate.thy ===== *)
theory Speculate
  imports Dspark_Tree
begin

text \<open>
  \<^verbatim>\<open>runtime/speculate.cpp\<close>: the cycle of speculative decoding and the two rules of the runtime that cut
  a draft. The virtual class \<^verbatim>\<open>SpecModel\<close> is a record of functions over a state of any type; each
  returns what the method returns and the state after it. Tokens are 32-bit words, read as signed
  numbers where the source casts them to \<^verbatim>\<open>int32_t\<close>. Times are left out. A logit or a confidence that
  is not finite is \<open>None\<close>.
\<close>

definition kDsVerifyMaxCand :: nat where "kDsVerifyMaxCand = 64"

section \<open>Cutting a draft\<close>

definition draft_prefix_from_confidence :: "real option list \<Rightarrow> real option \<Rightarrow> nat result" where
  "draft_prefix_from_confidence conf minimum =
     (case minimum of
        None \<Rightarrow> Inl InvalidArgument
      | Some lo \<Rightarrow>
          if length conf > 5 then Inl InvalidArgument
          else if None \<in> set conf then Inl InvalidArgument
          else Inr (length (takeWhile (\<lambda>c. case c of Some x \<Rightarrow> x \<ge> lo | None \<Rightarrow> False) conf)))"

text \<open>How many tokens of a row beat the drafted one; an equal logit counts for the lower id.\<close>

definition row_logit :: "real option list \<Rightarrow> nat \<Rightarrow> nat \<Rightarrow> nat \<Rightarrow> real option" where
  "row_logit matrix vocab j v = matrix ! (j * vocab + v)"

definition better_than :: "real option list \<Rightarrow> nat \<Rightarrow> nat \<Rightarrow> nat \<Rightarrow> real \<Rightarrow> nat \<Rightarrow> nat option" where
  "better_than matrix vocab j d x n =
     fold (\<lambda>v acc. case (acc, row_logit matrix vocab j v) of
         (Some b, Some y) \<Rightarrow> Some (b + (if y > x \<or> y = x \<and> v < d then 1 else 0))
       | _ \<Rightarrow> None) [0..<n] (Some 0)"

fun topk_loop :: "real option list \<Rightarrow> nat \<Rightarrow> nat \<Rightarrow> nat \<Rightarrow> nat list \<Rightarrow> nat result" where
  "topk_loop matrix vocab topk j [] = Inr j"
| "topk_loop matrix vocab topk j (d # ds) =
     (if d \<ge> vocab then Inl OutOfRange
      else case row_logit matrix vocab j d of
        None \<Rightarrow> Inl InvalidArgument
      | Some x \<Rightarrow>
          (case better_than matrix vocab j d x vocab of
             None \<Rightarrow> Inl InvalidArgument
           | Some better \<Rightarrow> if better \<ge> topk then Inr j else topk_loop matrix vocab topk (j + 1) ds))"

definition accept_topk_prefix :: "nat list \<Rightarrow> real option list \<Rightarrow> nat \<Rightarrow> nat \<Rightarrow> nat result" where
  "accept_topk_prefix draft matrix vocab topk =
     (if vocab = 0 \<or> topk = 0 \<or> topk > vocab \<or> length matrix \<noteq> (length draft + 1) * vocab then Inl InvalidArgument
      else topk_loop matrix vocab topk 0 draft)"

section \<open>Configuration and accounting\<close>

datatype spec_mode = SpecOff | SpecGreedy | SpecSample

fun spec_mode_name :: "spec_mode \<Rightarrow> string" where
  "spec_mode_name SpecOff = ''off''"
| "spec_mode_name SpecGreedy = ''greedy''"
| "spec_mode_name SpecSample = ''sample''"

definition parse_spec_mode :: "string \<Rightarrow> spec_mode result" where
  "parse_spec_mode s = (if s = ''off'' then Inr SpecOff else if s = ''greedy'' then Inr SpecGreedy
     else if s = ''sample'' then Inr SpecSample else Inl InvalidArgument)"

record spec_config =
  cf_mode :: spec_mode
  cf_k :: nat
  cf_theta :: real
  cf_lattice_k :: nat
  cf_objective :: objective
  cf_seed :: u64

definition default_spec_config :: spec_config where
  "default_spec_config = \<lparr>cf_mode = SpecOff, cf_k = 0, cf_theta = 1 / 2, cf_lattice_k = 16, cf_objective = Eal, cf_seed = 0x5DEECE66D\<rparr>"

record spec_cycle =
  cy_k :: nat
  cy_accepted :: nat
  cy_emitted :: nat
  cy_union_experts :: nat
  cy_miss_bytes :: nat

record spec_stats =
  ss_cycles :: nat
  ss_tokens :: nat
  ss_accepted :: nat
  ss_verified :: nat
  ss_union_experts :: nat
  ss_miss_bytes :: nat

definition add_cycle :: "spec_cycle \<Rightarrow> spec_stats \<Rightarrow> spec_stats" where
  "add_cycle c s = \<lparr>ss_cycles = ss_cycles s + 1, ss_tokens = ss_tokens s + cy_emitted c, ss_accepted = ss_accepted s + cy_accepted c,
     ss_verified = ss_verified s + cy_k c, ss_union_experts = ss_union_experts s + cy_union_experts c,
     ss_miss_bytes = ss_miss_bytes s + cy_miss_bytes c\<rparr>"

section \<open>The model's interface\<close>

record verify_row =
  vr_argmax :: u32
  vr_lse :: real
  vr_masked_token :: u32
  vr_full_token :: u32
  vr_cand_logit :: "real list"

record 's spec_model =
  sm_draft_forward :: "nat \<Rightarrow> u32 \<Rightarrow> nat \<Rightarrow> 's \<Rightarrow> (lattice \<times> real list) result \<times> 's"
  sm_verify_forward :: "nat \<Rightarrow> u32 list \<Rightarrow> int list \<Rightarrow> nat \<Rightarrow> bool \<Rightarrow> 's \<Rightarrow> verify_row list result \<times> 's"
  sm_snapshot_ring :: "nat \<Rightarrow> nat \<Rightarrow> 's \<Rightarrow> unit result \<times> 's"
  sm_restore_ring :: "nat \<Rightarrow> nat \<Rightarrow> nat \<Rightarrow> 's \<Rightarrow> unit result \<times> 's"
  sm_commit :: "nat \<Rightarrow> u32 list \<Rightarrow> 's \<Rightarrow> unit result \<times> 's"
  sm_last_union_experts :: "'s \<Rightarrow> nat"
  sm_last_miss_bytes :: "'s \<Rightarrow> nat"

record speculator =
  sp_cfg :: spec_config
  sp_stats :: spec_stats
  sp_last_k :: nat
  sp_rng :: u64

section \<open>The cycle\<close>

definition splitmix :: "u64 \<Rightarrow> u64" where
  "splitmix z0 =
     (let z = (z0 XOR drop_bit 30 z0) * 0xBF58476D1CE4E5B9;
          z = (z XOR drop_bit 27 z) * 0x94D049BB133111EB
      in z XOR drop_bit 31 z)"

definition next_u :: "u64 \<Rightarrow> real \<times> u64" where
  "next_u rng =
     (let rng = rng + 0x9E3779B97F4A7C15
      in ((real (unat (drop_bit 11 (splitmix rng))) + 1 / 2) * (1 / 9007199254740992), rng))"

fun draws :: "nat \<Rightarrow> u64 \<Rightarrow> real list \<times> u64" where
  "draws 0 rng = ([], rng)"
| "draws (Suc n) rng = (let (u, rng) = next_u rng; (us, rng) = draws n rng in (u # us, rng))"

definition choose_k :: "spec_config \<Rightarrow> real list \<Rightarrow> nat" where
  "choose_k cfg conf =
     (let k = (if cf_k cfg \<noteq> 0 then min (cf_k cfg) kPositions else k_from_confidence conf (cf_theta cfg))
      in if k = 0 then 1 else k)"

definition choose_path :: "spec_config \<Rightarrow> lattice \<Rightarrow> u64 \<Rightarrow> nat list \<times> u64" where
  "choose_path cfg L rng =
     (if cf_mode cfg = SpecSample then let (us, rng) = draws kPositions rng in (lattice_sample L us, rng)
      else (lattice_path (cf_objective cfg) L, rng))"

text \<open>The candidate ids of the verify rows, one row of \<open>kDsVerifyMaxCand\<close> a row, \<open>-1\<close> where there is none.\<close>

definition verify_cands :: "spec_config \<Rightarrow> lattice \<Rightarrow> nat \<Rightarrow> int list" where
  "verify_cands cfg L M =
     (if cf_mode cfg = SpecSample
      then concat (map (\<lambda>j. map (\<lambda>c. if j < kPositions \<and> c < cf_lattice_k cfg then token L j c else - 1) [0..<kDsVerifyMaxCand]) [0..<M])
      else [])"

definition accept_rows :: "spec_config \<Rightarrow> lattice \<Rightarrow> nat list \<Rightarrow> nat \<Rightarrow> verify_row list \<Rightarrow> u64 \<Rightarrow> accept \<times> u64" where
  "accept_rows cfg L path k rows rng =
     (if cf_mode cfg = SpecGreedy
      then (accept_greedy (take k (path_tokens L path)) (map (\<lambda>r. sint (vr_argmax r)) rows) k, rng)
      else let (u_acc, rng) = draws kPositions rng; (u_res, rng) = draws (kPositions + 1) rng;
               cand_logit = concat (map (\<lambda>j. map (\<lambda>c. if j < length rows \<and> c < cf_lattice_k cfg then vr_cand_logit (rows ! j) ! c else 0)
                                      [0..<kDsVerifyMaxCand]) [0..<kPositions])
           in (accept_sampling_exact L path k cand_logit kDsVerifyMaxCand (map vr_lse rows)
                 (map (\<lambda>r. sint (vr_masked_token r)) (take k rows)) (map (\<lambda>r. sint (vr_full_token r)) rows) u_acc u_res, rng))"

text \<open>Steps 5 and 6: acceptance, rollback of the rejected positions, commit.\<close>

definition settle_cycle :: "'s spec_model \<Rightarrow> nat \<Rightarrow> lattice \<Rightarrow> nat list \<Rightarrow> nat \<Rightarrow> verify_row list \<Rightarrow> u32 list \<Rightarrow> speculator \<Rightarrow> 's
    \<Rightarrow> spec_cycle result \<times> u32 list \<times> speculator \<times> 's" where
  "settle_cycle m p0 L path k rows out sp s =
     (let (acc, rng) = accept_rows (sp_cfg sp) L path k rows (sp_rng sp); sp = sp\<lparr>sp_rng := rng\<rparr>;
          c = \<lparr>cy_k = k, cy_accepted = ac_accepted acc, cy_emitted = length (ac_tokens acc),
               cy_union_experts = sm_last_union_experts m s, cy_miss_bytes = sm_last_miss_bytes m s\<rparr>;
          (restored, s) = (if ac_accepted acc < k then sm_restore_ring m p0 (ac_accepted acc) (k + 1) s else (Inr (), s))
      in case restored of
           Inl er \<Rightarrow> (Inl er, out, sp, s)
         | Inr _ \<Rightarrow>
             let emitted = map word_of_int (ac_tokens acc); (committed, s) = sm_commit m p0 emitted s
             in (case committed of
                   Inl er \<Rightarrow> (Inl er, out, sp, s)
                 | Inr _ \<Rightarrow> (Inr c, out @ emitted, sp\<lparr>sp_stats := add_cycle c (sp_stats sp)\<rparr>, s)))"

text \<open>Steps 2 to 4, given the draft.\<close>

definition verify_cycle :: "'s spec_model \<Rightarrow> nat \<Rightarrow> u32 \<Rightarrow> lattice \<Rightarrow> real list \<Rightarrow> u32 list \<Rightarrow> speculator \<Rightarrow> 's
    \<Rightarrow> spec_cycle result \<times> u32 list \<times> speculator \<times> 's" where
  "verify_cycle m p0 last_token L conf out sp s =
     (let k = choose_k (sp_cfg sp) conf; M = k + 1;
          (path, rng) = choose_path (sp_cfg sp) L (sp_rng sp);
          sp = sp\<lparr>sp_last_k := k, sp_rng := rng\<rparr>;
          batch = last_token # map word_of_int (take k (path_tokens L path));
          (snapped, s) = sm_snapshot_ring m p0 M s
      in case snapped of
           Inl er \<Rightarrow> (Inl er, out, sp, s)
         | Inr _ \<Rightarrow>
             (case sm_verify_forward m p0 batch (verify_cands (sp_cfg sp) L M) kDsVerifyMaxCand (cf_mode (sp_cfg sp) = SpecSample) s of
                (Inl er, s) \<Rightarrow> (Inl er, out, sp, s)
              | (Inr rows, s) \<Rightarrow> settle_cycle m p0 L path k rows out sp s))"

definition cycle :: "'s spec_model \<Rightarrow> nat \<Rightarrow> u32 \<Rightarrow> u32 list \<Rightarrow> speculator \<Rightarrow> 's
    \<Rightarrow> spec_cycle result \<times> u32 list \<times> speculator \<times> 's" where
  "cycle m p0 last_token out sp s =
     (if cf_mode (sp_cfg sp) = SpecOff then (Inl FailedPrecondition, out, sp, s)
      else if cf_lattice_k (sp_cfg sp) = 0 \<or> cf_lattice_k (sp_cfg sp) > kDsVerifyMaxCand then (Inl InvalidArgument, out, sp, s)
      else let sp = (if sp_rng sp = 0 then sp\<lparr>sp_rng := cf_seed (sp_cfg sp)\<rparr> else sp) in
        (case sm_draft_forward m p0 last_token (cf_lattice_k (sp_cfg sp)) s of
           (Inl er, s) \<Rightarrow> (Inl er, out, sp, s)
         | (Inr (L, conf), s) \<Rightarrow> verify_cycle m p0 last_token L conf out sp s))"

section \<open>The verify row\<close>

definition mix32 :: "u32 \<Rightarrow> u32" where
  "mix32 z =
     (let z = (z XOR drop_bit 16 z) * 0x7FEB352D; z = (z XOR drop_bit 15 z) * 0x846CA68B in z XOR drop_bit 16 z)"

definition verify_hash3 :: "u32 \<Rightarrow> u32 \<Rightarrow> u32 \<Rightarrow> u32" where
  "verify_hash3 a b c = mix32 (mix32 (a XOR 0x9E3779B9) XOR mix32 (b + 0x85EBCA6B) XOR (c * 0xC2B2AE35))"

definition verify_u01 :: "u32 \<Rightarrow> real" where
  "verify_u01 h = (real (unat (drop_bit 8 h)) + 1 / 2) * (1 / 16777216)"

end
