(* ===== verification/Dspark_Props.thy ===== *)
theory Dspark_Props
  imports Dspark_Tree
begin

text \<open>
  What the draft lattice promises: its tables have the shape the paths index, the two dynamic
  programs find optimal paths, and the sampling rule emits every token with the model's own
  probability.
\<close>

section \<open>Arithmetic\<close>

lemma horner_bounds:
  fixes r :: real
  assumes "\<bar>r\<bar> \<le> 7 / 20" "0 < p" "p \<le> 2" "\<forall>n \<in> set ns. 1 \<le> n"
  shows "0 < fold (\<lambda>n p. 1 + (p * r) * (1 / real n)) ns p \<and> fold (\<lambda>n p. 1 + (p * r) * (1 / real n)) ns p \<le> 2"
  using assms(2-4)
proof (induction ns arbitrary: p)
  case (Cons n ns)
  have "\<bar>p * r * (1 / real n)\<bar> \<le> 2 * (7 / 20) * 1"
    unfolding abs_mult using Cons.prems assms(1) by (intro mult_mono) auto
  then have "\<bar>p * r * (1 / real n)\<bar> \<le> 7 / 10" by simp
  then have "0 < 1 + p * r * (1 / real n)" "1 + p * r * (1 / real n) \<le> 2" by linarith+
  then show ?case using Cons.IH [of "1 + p * r * (1 / real n)"] Cons.prems by simp
qed simp

lemma ldexp_pos: "0 < p \<Longrightarrow> 0 < ldexp p k"
  by (simp add: ldexp_def)

lemma reduced_argument: "\<bar>x - of_int \<lfloor>x / kLn2 + 1 / 2\<rfloor> * kLn2\<bar> \<le> 7 / 20"
proof -
  have pos: "0 < kLn2" by (simp add: kLn2_def)
  have "\<bar>x / kLn2 - of_int \<lfloor>x / kLn2 + 1 / 2\<rfloor>\<bar> \<le> 1 / 2" by linarith
  then have "\<bar>x / kLn2 - of_int \<lfloor>x / kLn2 + 1 / 2\<rfloor>\<bar> * kLn2 \<le> 1 / 2 * kLn2" using pos by simp
  moreover have "\<bar>x / kLn2 - of_int \<lfloor>x / kLn2 + 1 / 2\<rfloor>\<bar> * kLn2 = \<bar>x - of_int \<lfloor>x / kLn2 + 1 / 2\<rfloor> * kLn2\<bar>"
    using pos by (simp add: abs_mult_pos' [symmetric] field_simps abs_mult_pos)
  ultimately show ?thesis by (simp add: kLn2_def)
qed

lemma dm_exp_pos: "kExpLo \<le> x \<Longrightarrow> 0 < dm_exp x"
  using horner_bounds [OF reduced_argument [of x], of 1 "rev [1..<kExpTerms + 1]"]
  by (simp add: dm_exp_def Let_def ldexp_pos del: upt_Suc)

lemma dm_exp_nonneg [simp]: "0 \<le> dm_exp x"
  using dm_exp_pos [of x] by (cases "kExpLo \<le> x") (auto simp: dm_exp_def)

lemma fold_add_sum: "fold (\<lambda>x s. s + f x) xs (a::real) = a + sum_list (map f xs)"
  by (induction xs arbitrary: a) simp_all

lemma fold_plus_sum: "fold (\<lambda>x s. s + x) xs (a::real) = a + sum_list xs"
  using fold_add_sum [of "\<lambda>x. x"] by simp

text \<open>The sixteen lanes of \<^verbatim>\<open>dot16\<close> add up to the inner product.\<close>

lemma dot16_inner: "dot16 a b (16 * m) = (\<Sum>i<16 * m. a ! i * b ! i)"
proof -
  have "dot16 a b (16 * m) = (\<Sum>l<16. \<Sum>r<m. a ! (16 * r + l) * b ! (16 * r + l))"
    by (simp add: dot16_def dot_lane_def fold_add_sum interv_sum_list_conv_sum_set_nat atLeast0LessThan del: upt_rec_numeral)
  also have "\<dots> = (\<Sum>r<m. \<Sum>l<16. a ! (16 * r + l) * b ! (16 * r + l))" by (rule sum.swap)
  also have "\<dots> = (\<Sum>i<16 * m. a ! i * b ! i)"
    using sum.nat_group [of "\<lambda>i. a ! i * b ! i" 16 m] sum.shift_bounds_nat_ivl [of "\<lambda>i. a ! i * b ! i" 0 _ 16]
    by (simp add: atLeast0LessThan [symmetric] add.commute mult.commute sum.shift_bounds_nat_ivl [of _ 0, simplified])
  finally show ?thesis .
qed

section \<open>Argmax\<close>

lemma argmax_fold:
  assumes "1 \<le> n" "fold (argmax_step v) [1..<n] (v ! 0, 0) = (best, a)"
  shows "a < n \<and> best = v ! a \<and> (\<forall>i<n. v ! i \<le> v ! a) \<and> (\<forall>i<a. v ! i < v ! a)"
  using assms
proof (induction n arbitrary: best a rule: nat_induct_at_least)
  case (Suc n)
  obtain b' a' where f: "fold (argmax_step v) [1..<n] (v ! 0, 0) = (b', a')" by fastforce
  note ih = Suc.IH [OF f]
  have "(best, a) = (if v ! n > b' then (v ! n, n) else (b', a'))"
    using Suc.prems Suc.hyps by (simp add: f del: One_nat_def) (auto simp: argmax_step_def split: if_splits)
  then show ?case using ih by (cases "v ! n > b'") (auto simp: less_Suc_eq intro: less_imp_le order.strict_trans1)
qed simp

lemma first_argmax:
  assumes "v \<noteq> []"
  shows first_argmax_less: "first_argmax v < length v"
    and first_argmax_max: "i < length v \<Longrightarrow> v ! i \<le> v ! first_argmax v"
    and first_argmax_first: "i < first_argmax v \<Longrightarrow> v ! i < v ! first_argmax v"
proof -
  obtain best a where f: "fold (argmax_step v) [1..<length v] (v ! 0, 0) = (best, a)" by fastforce
  have "1 \<le> length v" using assms by (simp add: Suc_leI)
  note a = argmax_fold [OF this f]
  show "first_argmax v < length v" "i < length v \<Longrightarrow> v ! i \<le> v ! first_argmax v"
    "i < first_argmax v \<Longrightarrow> v ! i < v ! first_argmax v"
    using a by (simp_all add: first_argmax_def f del: One_nat_def)
qed

section \<open>The expected accepted length\<close>

text \<open>The value of the rest of a path, read from the front.\<close>

fun eal_from :: "lattice \<Rightarrow> nat \<Rightarrow> nat \<Rightarrow> nat list \<Rightarrow> real" where
  "eal_from L i prev [] = 0"
| "eal_from L i prev (c # cs) = dm_exp (logq L i prev c) * (1 + eal_from L (i + 1) c cs)"

lemma eal_from_nonneg [simp]: "0 \<le> eal_from L i prev cs"
  by (induction cs arbitrary: i prev) (auto intro!: mult_nonneg_nonneg add_nonneg_nonneg)

lemma eal_step_fold:
  "length cs = n \<Longrightarrow> (\<And>j. j < n \<Longrightarrow> path ! (i + j) = cs ! j) \<Longrightarrow>
   fst (fold (eal_step L path) [i..<i + n] (tot, run, prev)) = tot + run * eal_from L i prev cs"
proof (induction cs arbitrary: i n tot run prev)
  case (Cons c cs)
  obtain n' where n: "n = Suc n'" using Cons.prems(1) by (cases n) simp_all
  have u: "[i..<i + n] = i # [Suc i..<Suc i + n']" by (simp add: n upt_rec)
  have p: "path ! i = c" using Cons.prems(2) [of 0] n by simp
  have "fst (fold (eal_step L path) [Suc i..<Suc i + n'] (tot + run * dm_exp (logq L i prev c), run * dm_exp (logq L i prev c), c))
     = tot + run * dm_exp (logq L i prev c) + run * dm_exp (logq L i prev c) * eal_from L (Suc i) c cs"
    using Cons.prems(1) n Cons.prems(2) [of "Suc _"] by (intro Cons.IH) auto
  moreover have "eal_step L path i (tot, run, prev) = (tot + run * dm_exp (logq L i prev c), run * dm_exp (logq L i prev c), c)"
    by (simp add: eal_step_def p Let_def)
  ultimately show ?case by (simp add: u algebra_simps del: upt_Suc)
qed simp

lemma eal_value_from: "length path = k \<Longrightarrow> eal_value L path k = eal_from L 0 0 path"
  using eal_step_fold [of path k path 0 L 0 1 0] by (simp add: eal_value_def)

definition valid_path :: "lattice \<Rightarrow> nat list \<Rightarrow> bool" where
  "valid_path L path \<longleftrightarrow> set path \<subseteq> {..<lt_K L}"

lemma valid_path_simps [simp]:
  "valid_path L []" "valid_path L (c # cs) \<longleftrightarrow> c < lt_K L \<and> valid_path L cs"
  "valid_path L (cs @ ds) \<longleftrightarrow> valid_path L cs \<and> valid_path L ds"
  by (auto simp: valid_path_def)

text \<open>What the backward pass knows when it has filled the choices of the positions from \<open>i\<close> on.\<close>

definition eal_filled :: "lattice \<Rightarrow> nat \<Rightarrow> real list \<Rightarrow> nat list list \<Rightarrow> bool" where
  "eal_filled L i g choice \<longleftrightarrow>
     (\<forall>p<n_prev (lt_K L) i. length (walk_choice choice p) + i = kPositions \<and> valid_path L (walk_choice choice p)
        \<and> eal_from L i p (walk_choice choice p) = g ! p
        \<and> (\<forall>cs. length cs + i = kPositions \<longrightarrow> valid_path L cs \<longrightarrow> eal_from L i p cs \<le> g ! p))"

lemma eal_filled_step:
  assumes "0 < lt_K L" "eal_filled L (Suc i) g choice"
    and "cells = map (eal_cell L i g) [0..<n_prev (lt_K L) i]"
  shows "eal_filled L i (map snd cells) (map fst cells # choice)"
  unfolding eal_filled_def
proof (intro allI impI)
  fix p assume p: "p < n_prev (lt_K L) i"
  let ?val = "map (\<lambda>c. dm_exp (logq L i p c) * (1 + g ! c)) [0..<lt_K L]" and ?w = "walk_choice choice"
  define a where "a = first_argmax ?val"
  have ne: "?val \<noteq> []" using assms(1) by simp
  have a: "a < lt_K L" using first_argmax_less [OF ne] by (simp add: a_def)
  have amax: "dm_exp (logq L i p c) * (1 + g ! c) \<le> dm_exp (logq L i p a) * (1 + g ! a)" if "c < lt_K L" for c
    using first_argmax_max [OF ne, of c] that a by (simp add: a_def [symmetric])
  have nxt: "length (?w c) + Suc i = kPositions \<and> valid_path L (?w c) \<and> eal_from L (Suc i) c (?w c) = g ! c
      \<and> (\<forall>cs. length cs + Suc i = kPositions \<longrightarrow> valid_path L cs \<longrightarrow> eal_from L (Suc i) c cs \<le> g ! c)" if "c < lt_K L" for c
    using assms(2) that by (simp add: eal_filled_def n_prev_def)
  have cell: "map fst cells ! p = a" "map snd cells ! p = dm_exp (logq L i p a) * (1 + g ! a)"
    using p a by (simp_all add: assms(3) eal_cell_def Let_def a_def [symmetric])
  have best: "eal_from L i p cs \<le> map snd cells ! p" if cs: "length cs + i = kPositions" "valid_path L cs" for cs
  proof (cases cs)
    case Nil
    then show ?thesis using nxt [OF a] cs(1) by simp
  next
    case (Cons c ds)
    then have c: "c < lt_K L" "valid_path L ds" "length ds + Suc i = kPositions" using cs by simp_all
    then have "eal_from L (Suc i) c ds \<le> g ! c" using nxt [OF c(1)] by blast
    then have "dm_exp (logq L i p c) * (1 + eal_from L (Suc i) c ds) \<le> dm_exp (logq L i p c) * (1 + g ! c)"
      by (intro mult_left_mono) simp_all
    also have "\<dots> \<le> map snd cells ! p" using amax [OF c(1)] cell(2) by simp
    finally show ?thesis using Cons by simp
  qed
  show "length (walk_choice (map fst cells # choice) p) + i = kPositions \<and> valid_path L (walk_choice (map fst cells # choice) p)
      \<and> eal_from L i p (walk_choice (map fst cells # choice) p) = map snd cells ! p
      \<and> (\<forall>cs. length cs + i = kPositions \<longrightarrow> valid_path L cs \<longrightarrow> eal_from L i p cs \<le> map snd cells ! p)"
    using nxt [OF a] a best by (simp add: cell)
qed

lemma eal_pass_filled:
  "0 < lt_K L \<Longrightarrow> eal_filled L i g choice \<Longrightarrow> \<exists>g'. eal_filled L 0 g' (eal_pass L i g choice)"
proof (induction i arbitrary: g choice)
  case (Suc i)
  then show ?case using eal_filled_step [OF Suc.prems refl] by (simp add: Let_def)
qed auto

text \<open>
  C30. The path that \<^verbatim>\<open>Objective::Eal\<close> picks has the largest expected accepted length: no path through
  the lattice has a larger \<^verbatim>\<open>eal_value\<close>.
\<close>

theorem eal_path_optimal:
  assumes "0 < lt_K L" "length path = kPositions" "\<forall>c \<in> set path. c < lt_K L"
  shows "length (lattice_path Eal L) = kPositions \<and> (\<forall>c \<in> set (lattice_path Eal L). c < lt_K L)
    \<and> eal_value L path kPositions \<le> eal_value L (lattice_path Eal L) kPositions"
proof -
  have "eal_filled L kPositions (replicate (lt_K L) 0) []" by (simp add: eal_filled_def n_prev_def kPositions_def)
  then obtain g where "eal_filled L 0 g (eal_pass L kPositions (replicate (lt_K L) 0) [])"
    using eal_pass_filled [OF assms(1)] by blast
  then have w: "length (eal_path L) = kPositions" "valid_path L (eal_path L)" "eal_from L 0 0 (eal_path L) = g ! 0"
      "length cs = kPositions \<Longrightarrow> valid_path L cs \<Longrightarrow> eal_from L 0 0 cs \<le> g ! 0" for cs
    by (simp_all add: eal_filled_def n_prev_def eal_path_def)
  have "valid_path L path" using assms(3) by (auto simp: valid_path_def)
  then show ?thesis using w assms(2) by (auto simp: eal_value_from valid_path_def)
qed

section \<open>The joint probability\<close>

fun logp_from :: "lattice \<Rightarrow> nat \<Rightarrow> nat \<Rightarrow> nat list \<Rightarrow> real" where
  "logp_from L i prev [] = 0"
| "logp_from L i prev (c # cs) = logq L i prev c + logp_from L (i + 1) c cs"

definition logp :: "lattice \<Rightarrow> nat list \<Rightarrow> real" where
  "logp L path = logp_from L 0 0 path"

lemma logp_from_snoc:
  "logp_from L i prev (cs @ [c]) = logp_from L i prev cs + logq L (i + length cs) (last (prev # cs)) c"
  by (induction cs arbitrary: i prev) simp_all

lemma viterbi_cell_argmax:
  assumes "0 < lt_K L" "viterbi_cell L i v c = (best, b)"
  shows "b < lt_K L \<and> best = v ! b + logq L i b c \<and> (\<forall>p<lt_K L. v ! p + logq L i p c \<le> best)"
proof -
  let ?xs = "map (\<lambda>p. v ! p + logq L i p c) [0..<lt_K L]"
  have "viterbi_cell L i v c = fold (argmax_step ?xs) [1..<lt_K L] (?xs ! 0, 0)"
    unfolding viterbi_cell_def using assms(1) by (intro fold_cong) (auto simp: argmax_step_def Let_def fun_eq_iff)
  then have "fold (argmax_step ?xs) [1..<lt_K L] (?xs ! 0, 0) = (best, b)" using assms(2) by simp
  from argmax_fold [OF _ this] have r: "b < lt_K L" "best = ?xs ! b" "\<forall>i<lt_K L. ?xs ! i \<le> ?xs ! b"
    using assms(1) by (simp_all only: Suc_le_eq One_nat_def, blast+)
  have nth: "?xs ! p = v ! p + logq L i p c" if "p < lt_K L" for p using that by simp
  have "v ! p + logq L i p c \<le> ?xs ! b" if "p < lt_K L" for p using r(3) nth [OF that] that by metis
  then show ?thesis using r(1,2) nth [OF r(1)] by metis
qed

lemma walk_back_append: "walk_back bs c out = walk_back bs c [] @ out"
proof (induction bs arbitrary: c out)
  case (Cons b bs)
  show ?case using Cons.IH [of "b ! c" "c # out"] Cons.IH [of "b ! c" "[c]"] by simp
qed simp

definition viterbi_filled :: "lattice \<Rightarrow> nat \<Rightarrow> real list \<Rightarrow> nat list list \<Rightarrow> bool" where
  "viterbi_filled L i v backs \<longleftrightarrow> length v = lt_K L \<and>
     (\<forall>c<lt_K L. length (walk_back backs c []) = i \<and> valid_path L (walk_back backs c []) \<and> last (walk_back backs c []) = c
        \<and> logp L (walk_back backs c []) = v ! c
        \<and> (\<forall>cs. length cs = i \<longrightarrow> valid_path L cs \<longrightarrow> last cs = c \<longrightarrow> logp L cs \<le> v ! c))"

lemma viterbi_filled_step:
  assumes "0 < lt_K L" "1 \<le> i" "viterbi_filled L i v backs"
    and "cells = map (viterbi_cell L i v) [0..<lt_K L]"
  shows "viterbi_filled L (Suc i) (map fst cells) (map snd cells # backs)"
  unfolding viterbi_filled_def
proof (intro conjI allI impI)
  show "length (map fst cells) = lt_K L" by (simp add: assms(4))
next
  fix c assume c: "c < lt_K L"
  obtain best b where cell: "viterbi_cell L i v c = (best, b)" by fastforce
  note b = viterbi_cell_argmax [OF assms(1) cell]
  have at: "map fst cells ! c = best" "map snd cells ! c = b" using c cell by (simp_all add: assms(4))
  let ?w = "walk_back backs b []"
  have w: "length ?w = i" "valid_path L ?w" "last ?w = b" "logp L ?w = v ! b"
    using assms(3) b by (simp_all add: viterbi_filled_def)
  have walk: "walk_back (map snd cells # backs) c [] = ?w @ [c]" by (simp add: at walk_back_append [of _ _ "[c]"])
  show "length (walk_back (map snd cells # backs) c []) = Suc i" "valid_path L (walk_back (map snd cells # backs) c [])"
    "last (walk_back (map snd cells # backs) c []) = c"
    using w c by (simp_all only: walk) simp_all
  have "?w \<noteq> []" using w(1) assms(2) by auto
  then show "logp L (walk_back (map snd cells # backs) c []) = map fst cells ! c"
    unfolding walk using w b by (simp add: at logp_def logp_from_snoc)
  fix cs assume cs: "length cs = Suc i" "valid_path L cs" "last cs = c"
  obtain ds d where ds: "cs = ds @ [d]" using cs(1) by (cases cs rule: rev_cases) auto
  have "d = c" "length ds = i" "valid_path L ds" "ds \<noteq> []" using cs ds assms(2) by auto
  moreover from this have "last ds < lt_K L" by (cases ds rule: rev_cases) auto
  ultimately have "logp L ds \<le> v ! last ds" "v ! last ds + logq L i (last ds) c \<le> best"
    using assms(3) b by (simp add: viterbi_filled_def, blast)
  then show "logp L cs \<le> map fst cells ! c"
    using \<open>d = c\<close> \<open>length ds = i\<close> \<open>ds \<noteq> []\<close> by (simp add: at ds logp_def logp_from_snoc)
qed

lemma viterbi_pass_filled:
  "0 < lt_K L \<Longrightarrow> 1 \<le> i \<Longrightarrow> viterbi_filled L i v backs \<Longrightarrow> viterbi_pass L i n v backs = (v', backs') \<Longrightarrow>
   viterbi_filled L (i + n) v' backs'"
proof (induction n arbitrary: i v backs)
  case (Suc n)
  then show ?case using viterbi_filled_step [OF Suc.prems(1-3) refl] Suc.IH [of "Suc i"] by (simp add: Let_def)
qed simp

text \<open>
  The path that \<^verbatim>\<open>Objective::Viterbi\<close> picks is the most probable one: no path through the lattice
  has a larger sum of log probabilities.
\<close>

theorem viterbi_path_optimal:
  assumes "0 < lt_K L" "length path = kPositions" "\<forall>c \<in> set path. c < lt_K L"
  shows "length (lattice_path Viterbi L) = kPositions \<and> (\<forall>c \<in> set (lattice_path Viterbi L). c < lt_K L)
    \<and> logp L path \<le> logp L (lattice_path Viterbi L)"
proof -
  have base: "viterbi_filled L 1 (logq_of L 0 0) []"
  proof -
    have "logp L cs \<le> logq L 0 0 c" if "length cs = Suc 0" "last cs = c" for cs c
      using that by (cases cs) (auto simp: logp_def)
    then show ?thesis by (auto simp: viterbi_filled_def logq_of_def logp_def)
  qed
  obtain v backs where pass: "viterbi_pass L 1 (kPositions - 1) (logq_of L 0 0) [] = (v, backs)" by fastforce
  have f: "viterbi_filled L kPositions v backs"
    using viterbi_pass_filled [OF assms(1) _ base pass] by (simp add: kPositions_def)
  then have v: "length v = lt_K L" "v \<noteq> []" using assms(1) by (auto simp: viterbi_filled_def)
  define a where "a = first_argmax v"
  have a: "a < lt_K L" "\<And>c. c < lt_K L \<Longrightarrow> v ! c \<le> v ! a"
    using first_argmax_less [OF v(2)] first_argmax_max [OF v(2)] v(1) by (simp_all add: a_def)
  have p: "lattice_path Viterbi L = walk_back backs a []" by (simp add: viterbi_path_def pass a_def del: One_nat_def)
  have "valid_path L path" "path \<noteq> []" using assms by (auto simp: valid_path_def kPositions_def)
  then have "last path < lt_K L" by (cases path rule: rev_cases) auto
  then have "logp L path \<le> v ! last path" using f assms(2) \<open>valid_path L path\<close> by (simp add: viterbi_filled_def)
  also have "\<dots> \<le> v ! a" using a(2) \<open>last path < lt_K L\<close> by blast
  finally have "logp L path \<le> v ! a" .
  moreover have "length (walk_back backs a []) = kPositions" "valid_path L (walk_back backs a [])"
      "logp L (walk_back backs a []) = v ! a"
    using f a(1) by (simp_all add: viterbi_filled_def)
  ultimately show ?thesis unfolding p by (auto simp: valid_path_def)
qed

section \<open>Lossless sampling\<close>

lemma scan_index_ge:
  "t < cum + sum_list xs \<Longrightarrow> \<not> cum > t \<Longrightarrow> i \<le> scan_index t i lst cum xs"
proof (induction xs arbitrary: i lst cum)
  case (Cons x xs)
  then show ?case using Cons.IH [of "cum + x" "i + 1"] by (auto simp: Let_def algebra_simps intro: Suc_leD)
qed simp

lemma scan_index_iff:
  assumes "\<forall>x \<in> set xs. 0 \<le> x" "cum \<le> t" "t < cum + sum_list xs"
  shows "scan_index t i lst cum xs = i + j \<longleftrightarrow>
    j < length xs \<and> cum + sum_list (take j xs) \<le> t \<and> t < cum + sum_list (take (Suc j) xs)"
  using assms
proof (induction xs arbitrary: i lst cum j)
  case (Cons x xs)
  show ?case
  proof (cases "cum + x > t")
    case True
    have "cum + x + sum_list (take k xs) > t" for k
      using True Cons.prems(1) sum_list_nonneg [of "take k xs"] by (force dest: in_set_takeD)
    then show ?thesis using True Cons.prems by (cases j) (auto simp: Let_def not_le add.assoc)
  next
    case False
    let ?l = "if x > 0 then i else lst"
    have ih: "scan_index t (i + 1) ?l (cum + x) xs = i + 1 + k \<longleftrightarrow>
        k < length xs \<and> cum + x + sum_list (take k xs) \<le> t \<and> t < cum + x + sum_list (take (Suc k) xs)" for k
      using Cons.prems False by (intro Cons.IH) auto
    have "scan_index t (i + 1) ?l (cum + x) xs \<noteq> i"
    proof -
      obtain k where "scan_index t (i + 1) ?l (cum + x) xs = i + 1 + k"
        using scan_index_ge [of t "cum + x" xs "i + 1" ?l] False Cons.prems by (auto simp: le_iff_add)
      then show ?thesis by simp
    qed
    then show ?thesis using False ih [of "j - 1"] by (cases j) (auto simp: Let_def add.assoc)
  qed
qed simp

text \<open>How likely candidate \<open>c\<close> is kept, and the part of the unit interval that redraws candidate \<open>i\<close>.\<close>

definition keep_mass :: "real list \<Rightarrow> real list \<Rightarrow> nat \<Rightarrow> real" where
  "keep_mass p q c = (if q ! c = 0 then if p ! c > 0 then 1 else 0 else min 1 (p ! c / q ! c))"

definition redraw_total :: "real list \<Rightarrow> real list \<Rightarrow> real" where
  "redraw_total p q = sum_list (leftover p q) + (1 - sum_list p)"

definition redraw_lo :: "real list \<Rightarrow> real list \<Rightarrow> nat \<Rightarrow> real" where
  "redraw_lo p q i = sum_list (take i (leftover p q)) / redraw_total p q"

lemma leftover_nth: "length p = length q \<Longrightarrow> i < length q \<Longrightarrow> leftover p q ! i = max 0 (p ! i - q ! i)"
  by (simp add: leftover_def)

lemma leftover_length [simp]: "length p = length q \<Longrightarrow> length (leftover p q) = length q"
  by (simp add: leftover_def)

lemma leftover_nonneg: "\<forall>x \<in> set (leftover p q). 0 \<le> x"
  by (auto simp: leftover_def)

lemma keep_mass_region:
  assumes "0 \<le> q ! c" "0 \<le> p ! c" "0 \<le> u" "u < 1"
  shows "u * (q ! c) < p ! c \<longleftrightarrow> u < keep_mass p q c"
proof -
  have less: "u * (q ! c) < q ! c" if "q ! c \<noteq> 0" using that assms by simp
  show ?thesis using assms by (auto simp: keep_mass_def field_simps min_def not_le intro: less_le_trans [OF less])
qed

lemma keep_mass_times: "0 \<le> q ! c \<Longrightarrow> 0 \<le> p ! c \<Longrightarrow> q ! c * keep_mass p q c = min (q ! c) (p ! c)"
  by (auto simp: keep_mass_def min_def field_simps)

lemma keep_mass_unit: "0 \<le> q ! c \<Longrightarrow> 0 \<le> p ! c \<Longrightarrow> 0 \<le> keep_mass p q c \<and> keep_mass p q c \<le> 1"
  by (auto simp: keep_mass_def)

lemma sum_list_nth: "sum_list (xs :: real list) = (\<Sum>i<length xs. xs ! i)"
  by (simp add: sum_list_sum_nth atLeast0LessThan)

text \<open>The rejected mass is exactly what the redraw spreads.\<close>

lemma rejected_mass:
  assumes "length p = length q" "\<forall>x \<in> set q. 0 \<le> x" "\<forall>x \<in> set p. 0 \<le> x" "sum_list q = 1"
  shows "(\<Sum>c<length q. q ! c * (1 - keep_mass p q c)) = redraw_total p q"
proof -
  have "q ! c * (1 - keep_mass p q c) = leftover p q ! c - p ! c + q ! c" if "c < length q" for c
    using keep_mass_times [of q c p] assms that by (simp add: leftover_nth algebra_simps min_def max_def)
  then have "(\<Sum>c<length q. q ! c * (1 - keep_mass p q c)) = (\<Sum>c<length q. leftover p q ! c - p ! c + q ! c)"
    by (intro sum.cong) simp_all
  also have "\<dots> = sum_list (leftover p q) - sum_list p + sum_list q"
    using assms(1) by (simp add: sum_list_nth sum.distrib sum_subtractf)
  finally show ?thesis using assms(4) by (simp add: redraw_total_def)
qed

lemma redraw_interval:
  assumes "length p = length q" "i < length q"
  shows "redraw_lo p q (Suc i) - redraw_lo p q i = leftover p q ! i / redraw_total p q"
  using assms by (simp add: redraw_lo_def take_Suc_conv_app_nth diff_divide_distrib [symmetric])

lemma redraw_lo_mono:
  assumes "sum_list p \<le> 1"
  shows "0 \<le> redraw_lo p q i \<and> redraw_lo p q i \<le> redraw_lo p q (i + k) \<and> redraw_lo p q i \<le> 1"
proof -
  let ?w = "leftover p q"
  have nonneg: "0 \<le> sum_list (take m (drop n ?w))" for m n
    by (intro sum_list_nonneg) (meson in_set_dropD in_set_takeD leftover_nonneg)
  have T: "sum_list ?w \<le> redraw_total p q" using assms by (simp add: redraw_total_def)
  have le: "sum_list (take i ?w) \<le> sum_list (take (i + k) ?w)" for i k using nonneg [of k i] by (simp add: take_add)
  moreover have "sum_list (take i ?w) \<le> redraw_total p q" using le [of i "length ?w"] T by simp
  ultimately show ?thesis
    using nonneg [of _ 0] T order.trans [OF nonneg [of "length ?w" 0, simplified] T]
    by (auto simp: redraw_lo_def divide_right_mono divide_le_eq_1)
qed

lemma exact_choice_regions:
  assumes "length p = length q" "\<forall>x \<in> set q. 0 \<le> x" "\<forall>x \<in> set p. 0 \<le> x" "sum_list p \<le> 1"
    and "c < length q" "0 \<le> ua" "ua < 1" "0 \<le> ur" "ur < 1"
  shows "exact_choice p q c ua ur = Kept c \<longleftrightarrow> ua < keep_mass p q c"
    and "i < length q \<Longrightarrow> exact_choice p q c ua ur = Redrawn i \<longleftrightarrow>
      keep_mass p q c \<le> ua \<and> redraw_lo p q i \<le> ur \<and> ur < redraw_lo p q (Suc i)"
    and "exact_choice p q c ua ur = FromRest \<longleftrightarrow>
      keep_mass p q c \<le> ua \<and> redraw_lo p q (length q) \<le> ur"
proof -
  let ?w = "leftover p q" and ?T = "redraw_total p q"
  have keep: "ua * (q ! c) < p ! c \<longleftrightarrow> ua < keep_mass p q c"
    using assms by (intro keep_mass_region) auto
  have rest: "(if 1 - sum_list p > 0 then 1 - sum_list p else 0) = 1 - sum_list p" using assms(4) by simp
  have choice: "exact_choice p q c ua ur = (if ua < keep_mass p q c then Kept c
      else if ur * ?T < sum_list ?w then Redrawn (scan_index (ur * ?T) 0 0 0 ?w) else FromRest)"
    unfolding exact_choice_def Let_def fold_plus_sum keep add_0 rest redraw_total_def ..
  have w: "0 \<le> sum_list ?w" using leftover_nonneg by (intro sum_list_nonneg) blast
  have T: "sum_list ?w \<le> ?T" using assms(4) by (simp add: redraw_total_def)
  have frac: "x / ?T \<le> ur \<longleftrightarrow> x \<le> ur * ?T" "ur < x / ?T \<longleftrightarrow> ur * ?T < x" if "0 \<le> x" "x \<le> ?T" for x
    using that assms(8) by (cases "?T = 0"; auto simp: field_simps)+
  have part: "0 \<le> sum_list (take k ?w)" "sum_list (take k ?w) \<le> ?T" for k
  proof -
    show "0 \<le> sum_list (take k ?w)" using leftover_nonneg by (intro sum_list_nonneg) (auto dest: in_set_takeD)
    have "0 \<le> sum_list (drop k ?w)" using leftover_nonneg by (intro sum_list_nonneg) (auto dest: in_set_dropD)
    then have "sum_list (take k ?w) \<le> sum_list ?w"
      using sum_list.append [of "take k ?w" "drop k ?w"] by simp
    then show "sum_list (take k ?w) \<le> ?T" using T by simp
  qed
  have le: "0 \<le> ur * ?T" using assms(8) w T by simp
  show "exact_choice p q c ua ur = Kept c \<longleftrightarrow> ua < keep_mass p q c" by (simp add: choice)
  show "exact_choice p q c ua ur = FromRest \<longleftrightarrow> keep_mass p q c \<le> ua \<and> redraw_lo p q (length q) \<le> ur"
    using frac(1) [OF w T] assms(1) by (auto simp: choice redraw_lo_def)
  assume i: "i < length q"
  have scan: "scan_index (ur * ?T) 0 0 0 ?w = i \<longleftrightarrow> sum_list (take i ?w) \<le> ur * ?T \<and> ur * ?T < sum_list (take (Suc i) ?w)"
    if "ur * ?T < sum_list ?w"
    using scan_index_iff [OF leftover_nonneg le, of p q 0 0 i] that i assms(1) by simp
  have "sum_list (take (Suc i) ?w) \<le> sum_list ?w"
    using sum_list.append [of "take (Suc i) ?w" "drop (Suc i) ?w"] leftover_nonneg [of p q]
      sum_list_nonneg [of "drop (Suc i) ?w"] by (auto dest: in_set_dropD)
  then show "exact_choice p q c ua ur = Redrawn i \<longleftrightarrow>
      keep_mass p q c \<le> ua \<and> redraw_lo p q i \<le> ur \<and> ur < redraw_lo p q (Suc i)"
    using scan frac [OF part, of i] frac [OF part, of "Suc i"] by (auto simp: choice redraw_lo_def)
qed

text \<open>
  C29. Speculative sampling is lossless. Draw a candidate from the draft's row \<open>q\<close>, apply the acceptance
  rule with two uniform numbers, and candidate \<open>i\<close> comes out with exactly the model's probability
  \<open>p ! i\<close>: it is kept for the first number below \<open>A i\<close>, and after a rejection it is redrawn when the
  second number falls in \<open>[lo i, hi i)\<close>; the draw from the rest of the row gets the mass the
  candidates do not have.
\<close>

theorem exact_sampling_lossless:
  assumes "length p = length q" "\<forall>x \<in> set q. 0 \<le> x" "\<forall>x \<in> set p. 0 \<le> x" "sum_list q = 1" "sum_list p \<le> 1"
  shows "\<exists>A lo hi r.
     (\<forall>c ua ur. c < length q \<and> 0 \<le> ua \<and> ua < 1 \<and> 0 \<le> ur \<and> ur < 1 \<longrightarrow>
        (exact_choice p q c ua ur = Kept c \<longleftrightarrow> ua < A c)
        \<and> (\<forall>i<length q. exact_choice p q c ua ur = Redrawn i \<longleftrightarrow> A c \<le> ua \<and> lo i \<le> ur \<and> ur < hi i)
        \<and> (exact_choice p q c ua ur = FromRest \<longleftrightarrow> A c \<le> ua \<and> r \<le> ur))
     \<and> (\<forall>c<length q. 0 \<le> A c \<and> A c \<le> 1 \<and> 0 \<le> lo c \<and> lo c \<le> hi c \<and> hi c \<le> r) \<and> r \<le> 1
     \<and> (\<forall>i<length q. q ! i * A i + (\<Sum>c<length q. q ! c * (1 - A c)) * (hi i - lo i) = p ! i)
     \<and> (\<Sum>c<length q. q ! c * (1 - A c)) * (1 - r) = 1 - sum_list p"
proof -
  let ?w = "leftover p q" and ?T = "redraw_total p q"
  have R: "(\<Sum>c<length q. q ! c * (1 - keep_mass p q c)) = ?T" by (rule rejected_mass [OF assms(1-4)])
  have zero: "leftover p q ! i = 0" if "?T = 0" "i < length q" for i
  proof -
    have "sum_list ?w = 0"
      using that(1) assms(5) sum_list_nonneg [of ?w] leftover_nonneg [of p q] by (auto simp: redraw_total_def)
    then show ?thesis using leftover_nonneg [of p q] that(2) assms(1) sum_list_nonneg_eq_0_iff [of ?w] by auto
  qed
  have i: "q ! i * keep_mass p q i + ?T * (redraw_lo p q (Suc i) - redraw_lo p q i) = p ! i" if "i < length q" for i
  proof -
    have "?T * (redraw_lo p q (Suc i) - redraw_lo p q i) = ?w ! i"
      using redraw_interval [OF assms(1) that] zero [OF _ that] by simp
    then show ?thesis using keep_mass_times [of q i p] that assms(1-3) by (simp add: leftover_nth min_def max_def)
  qed
  have "?T * (1 - redraw_lo p q (length q)) = 1 - sum_list p"
  proof (cases "?T = 0")
    case True
    then show ?thesis
      using assms(5) sum_list_nonneg [of ?w] leftover_nonneg [of p q] by (auto simp: redraw_total_def)
  next
    case False
    then show ?thesis using assms(1) by (simp add: redraw_lo_def right_diff_distrib) (simp add: redraw_total_def)
  qed
  moreover have "0 \<le> keep_mass p q c \<and> keep_mass p q c \<le> 1" if "c < length q" for c
    using assms(1-3) that by (intro keep_mass_unit) auto
  moreover have "0 \<le> redraw_lo p q c \<and> redraw_lo p q c \<le> redraw_lo p q (Suc c) \<and> redraw_lo p q (Suc c) \<le> redraw_lo p q (length q)"
    if "c < length q" for c
    using redraw_lo_mono [OF assms(5), of q c 1] redraw_lo_mono [OF assms(5), of q "Suc c" "length q - Suc c"]
    unfolding le_add_diff_inverse [OF Suc_leI [OF that]] by simp
  moreover have "redraw_lo p q (length q) \<le> 1" using redraw_lo_mono [OF assms(5)] by blast
  ultimately show ?thesis
    using exact_choice_regions [OF assms(1-3,5)] i R
    by (intro exI [of _ "keep_mass p q"] exI [of _ "redraw_lo p q"] exI [of _ "\<lambda>i. redraw_lo p q (Suc i)"]
        exI [of _ "redraw_lo p q (length q)"]) auto
qed

theorem exact_sampling_lossless_witness:
  "\<exists>(A :: nat \<Rightarrow> real) (lo :: nat \<Rightarrow> real) (hi :: nat \<Rightarrow> real). (exact_choice [1 / 2, 1 / 4] [1 / 4, 3 / 4] 1 (1 / 2) 0 = Redrawn 0 \<longleftrightarrow> A 1 \<le> 1 / 2 \<and> lo 0 \<le> 0 \<and> 0 < hi 0)
     \<and> 1 / 4 * A 0 + (1 / 4 * (1 - A 0) + 3 / 4 * (1 - A 1)) * (hi 0 - lo 0) = 1 / 2"
proof -
  let ?p = "[1 / 2, 1 / 4] :: real list" and ?q = "[1 / 4, 3 / 4] :: real list"
  have "length ?p = length ?q" "\<forall>x \<in> set ?q. 0 \<le> x" "\<forall>x \<in> set ?p. 0 \<le> x" "sum_list ?q = 1" "sum_list ?p \<le> 1" by simp_all
  from exact_sampling_lossless [OF this] obtain A lo hi r where
    c: "\<forall>c ua ur. c < length ?q \<and> 0 \<le> ua \<and> ua < 1 \<and> 0 \<le> ur \<and> ur < 1 \<longrightarrow>
        (exact_choice ?p ?q c ua ur = Kept c \<longleftrightarrow> ua < A c)
        \<and> (\<forall>i<length ?q. exact_choice ?p ?q c ua ur = Redrawn i \<longleftrightarrow> A c \<le> ua \<and> lo i \<le> ur \<and> ur < hi i)
        \<and> (exact_choice ?p ?q c ua ur = FromRest \<longleftrightarrow> A c \<le> ua \<and> r \<le> ur)"
    and m: "\<forall>i<length ?q. ?q ! i * A i + (\<Sum>c<length ?q. ?q ! c * (1 - A c)) * (hi i - lo i) = ?p ! i"
    by blast
  have s: "{..<length ?q} = {0, 1}" by auto
  have "exact_choice ?p ?q 1 (1 / 2) 0 = Redrawn 0 \<longleftrightarrow> A 1 \<le> 1 / 2 \<and> lo 0 \<le> 0 \<and> 0 < hi 0"
    using c [rule_format, of 1 "1 / 2" 0] by (auto simp del: One_nat_def)
  moreover have "1 / 4 * A 0 + (1 / 4 * (1 - A 0) + 3 / 4 * (1 - A 1)) * (hi 0 - lo 0) = 1 / 2"
    using m [rule_format, of 0] unfolding s by simp
  ultimately show ?thesis by blast
qed

section \<open>A lattice\<close>

definition demo_lattice :: lattice where
  "demo_lattice = \<lparr>lt_K = 2, lt_ids = [10, 11, 20, 21, 30, 31, 40, 41, 50, 51], lt_e_in = [], lt_e_cand = [], lt_bias = replicate 20 0,
     lt_logq = concat (replicate 5 [0, - 1, - 2, 0])\<rparr>"

theorem eal_path_optimal_witness:
  "length (lattice_path Eal demo_lattice) = 5
   \<and> eal_value demo_lattice [1, 1, 1, 1, 1] kPositions \<le> eal_value demo_lattice (lattice_path Eal demo_lattice) kPositions"
  using eal_path_optimal [of demo_lattice "[1, 1, 1, 1, 1]"] by (simp add: demo_lattice_def kPositions_def)

theorem viterbi_path_optimal_witness:
  "logp demo_lattice [1, 1, 1, 1, 1] \<le> logp demo_lattice (lattice_path Viterbi demo_lattice)"
  using viterbi_path_optimal [of demo_lattice "[1, 1, 1, 1, 1]"] by (simp add: demo_lattice_def kPositions_def)

end
