(* ===== verification/Speculate_Props.thy ===== *)
theory Speculate_Props
  imports Speculate Dspark_Props
begin

text \<open>
  The invariant of speculative decoding: at temperature 0 the stream with speculation is the stream
  without it, whatever is drafted. Also, the runtime's top-K rule with \<open>K = 1\<close> is the greedy rule.
\<close>

section \<open>What the cycle relies on\<close>

text \<open>Plain decoding: \<open>nxt\<close> is the model's token after a history.\<close>

fun decode :: "(u32 list \<Rightarrow> u32) \<Rightarrow> u32 list \<Rightarrow> nat \<Rightarrow> u32 list" where
  "decode nxt h 0 = h"
| "decode nxt h (Suc n) = decode nxt h n @ [nxt (decode nxt h n)]"

text \<open>
  What \<^verbatim>\<open>SpecModel\<close> documents, \<open>hist\<close> being the committed tokens. Row \<open>j\<close> of the verify forward answers
  the token after the history and the first \<open>j\<close> drafted tokens; a commit appends; nothing else
  changes the history.
\<close>

definition decodes_as :: "'s spec_model \<Rightarrow> ('s \<Rightarrow> u32 list) \<Rightarrow> (u32 list \<Rightarrow> u32) \<Rightarrow> bool" where
  "decodes_as m hist nxt \<longleftrightarrow>
     (\<forall>p0 t K s. hist (snd (sm_draft_forward m p0 t K s)) = hist s)
     \<and> (\<forall>p0 M s. hist (snd (sm_snapshot_ring m p0 M s)) = hist s)
     \<and> (\<forall>p0 a M s. hist (snd (sm_restore_ring m p0 a M s)) = hist s)
     \<and> (\<forall>p0 ts cand st ex s. hist (snd (sm_verify_forward m p0 ts cand st ex s)) = hist s)
     \<and> (\<forall>p0 t ds cand st ex s rows. fst (sm_verify_forward m p0 (t # ds) cand st ex s) = Inr rows
          \<longrightarrow> hist s \<noteq> [] \<longrightarrow> p0 + 1 = length (hist s) \<longrightarrow> t = last (hist s)
          \<longrightarrow> length rows = Suc (length ds) \<and> (\<forall>j\<le>length ds. vr_argmax (rows ! j) = nxt (hist s @ take j ds)))
     \<and> (\<forall>p0 ts s. fst (sm_commit m p0 ts s) = Inr () \<longrightarrow> p0 + 1 = length (hist s) \<longrightarrow> hist (snd (sm_commit m p0 ts s)) = hist s @ ts)"

lemma decodes_asD:
  assumes "decodes_as m hist nxt"
  shows draft_keeps: "sm_draft_forward m p0 t K s = (r, s1) \<Longrightarrow> hist s1 = hist s"
    and snapshot_keeps: "sm_snapshot_ring m p0 M s = (r', s1) \<Longrightarrow> hist s1 = hist s"
    and restore_keeps: "sm_restore_ring m p0 a M s = (r', s1) \<Longrightarrow> hist s1 = hist s"
    and verify_keeps: "sm_verify_forward m p0 ts cand st ex s = (r'', s1) \<Longrightarrow> hist s1 = hist s"
    and verify_rows: "sm_verify_forward m p0 (t # ds) cand st ex s = (Inr rows, s1) \<Longrightarrow> hist s \<noteq> [] \<Longrightarrow> p0 + 1 = length (hist s)
      \<Longrightarrow> t = last (hist s) \<Longrightarrow> length rows = Suc (length ds) \<and> (\<forall>j\<le>length ds. vr_argmax (rows ! j) = nxt (hist s @ take j ds))"
    and commit_appends: "sm_commit m p0 ts s = (Inr (), s1) \<Longrightarrow> p0 + 1 = length (hist s) \<Longrightarrow> hist s1 = hist s @ ts"
  using assms unfolding decodes_as_def by (metis fst_conv snd_conv)+

section \<open>Greedy acceptance\<close>

lemma length_decode [simp]: "length (decode nxt h n) = length h + n"
  by (induction n) simp_all

lemma decode_add: "decode nxt (decode nxt h a) b = decode nxt h (a + b)"
  by (induction b) simp_all

lemma decode_take:
  "n \<le> length p \<Longrightarrow> (\<And>j. j < n \<Longrightarrow> p ! j = nxt (h @ take j p)) \<Longrightarrow> decode nxt h n = h @ take n p"
proof (induction n)
  case (Suc n)
  then show ?case by (simp add: take_Suc_conv_app_nth)
qed simp

lemma matched_prefix:
  assumes "a = length (takeWhile P [0..<k])"
  shows "a \<le> k \<and> (\<forall>j<a. P j) \<and> (a < k \<longrightarrow> \<not> P a)"
proof -
  have "a \<le> length [0..<k]" unfolding assms by (rule length_takeWhile_le)
  moreover have "P j" if "j < a" for j
    using nth_mem [of j "takeWhile P [0..<k]"] that assms takeWhile_nth [of j P "[0..<k]"] calculation
    by (auto dest!: set_takeWhileD)
  moreover have "\<not> P a" if "a < k"
    using nth_length_takeWhile [of P "[0..<k]"] that by (simp add: assms [symmetric])
  ultimately show ?thesis by simp
qed

text \<open>The accepted prefix with its correction is the plain stream.\<close>

lemma accept_greedy_decodes:
  fixes toks :: "int list" and rows :: "verify_row list"
  assumes "length toks = k" "length rows = Suc k"
    and "\<forall>j\<le>k. vr_argmax (rows ! j) = nxt (h @ take j (map word_of_int toks))"
    and "acc = accept_greedy toks (map (\<lambda>r. sint (vr_argmax r)) rows) k"
  shows "ac_accepted acc \<le> k \<and> length (ac_tokens acc) = Suc (ac_accepted acc)
    \<and> h @ map word_of_int (ac_tokens acc) = decode nxt h (Suc (ac_accepted acc))"
proof -
  define a where "a = length (takeWhile (\<lambda>j. toks ! j = map (\<lambda>r. sint (vr_argmax r)) rows ! j) [0..<k])"
  have a: "a \<le> k" "\<And>j. j < a \<Longrightarrow> toks ! j = sint (vr_argmax (rows ! j))"
    using matched_prefix [OF a_def] assms(2) by auto
  have acc: "acc = \<lparr>ac_accepted = a, ac_tokens = take a toks @ [sint (vr_argmax (rows ! a))]\<rparr>"
    using a(1) assms(2) by (simp add: assms(4) accept_greedy_def a_def [symmetric])
  have "decode nxt h a = h @ take a (map word_of_int toks)"
    using a assms(1,3) by (intro decode_take) simp_all
  then show ?thesis using a(1) assms(1,3) by (simp add: acc take_map)
qed

lemma confident_prefix_le: "confident_prefix theta run k cs \<le> k + length cs"
proof (induction cs arbitrary: run k)
  case (Cons c cs)
  then show ?case using Cons.IH [of "run * sigmoid c" "Suc k"] by (simp add: Let_def)
qed simp

lemma choose_k_bounds: "1 \<le> choose_k cfg conf \<and> choose_k cfg conf \<le> kPositions"
  using confident_prefix_le [of "cf_theta cfg" 1 0 "take kPositions conf"]
  by (auto simp: choose_k_def k_from_confidence_def Let_def kPositions_def)

section \<open>One cycle\<close>

lemma settle_cycle_decodes:
  assumes "decodes_as m hist nxt" "cf_mode (sp_cfg sp) = SpecGreedy" "p0 + 1 = length (hist s)" "k \<le> kPositions"
    and "length rows = Suc k" "\<forall>j\<le>k. vr_argmax (rows ! j) = nxt (hist s @ take j (map word_of_int (take k (path_tokens L path))))"
    and "settle_cycle m p0 L path k rows out sp s = (r, out', sp', s')"
  shows "(case r of Inl _ \<Rightarrow> out' = out
    | Inr c \<Rightarrow> \<exists>ts. out' = out @ ts \<and> hist s' = hist s @ ts \<and> hist s @ ts = decode nxt (hist s) (length ts)
        \<and> length ts = cy_emitted c \<and> cy_emitted c = cy_accepted c + 1 \<and> cy_accepted c \<le> cy_k c \<and> cy_k c = k)
    \<and> sp_cfg sp' = sp_cfg sp"
proof -
  define acc where "acc = accept_greedy (take k (path_tokens L path)) (map (\<lambda>r. sint (vr_argmax r)) rows) k"
  have k: "length (take k (path_tokens L path)) = k" using assms(4) by (simp add: path_tokens_def)
  note g = accept_greedy_decodes [OF k assms(5,6) acc_def]
  have rows: "accept_rows (sp_cfg sp) L path k rows (sp_rng sp) = (acc, sp_rng sp)"
    by (simp add: accept_rows_def assms(2) acc_def)
  obtain rr s1 where re: "(if ac_accepted acc < k then sm_restore_ring m p0 (ac_accepted acc) (k + 1) s else (Inr (), s)) = (rr, s1)"
    by fastforce
  have h1: "hist s1 = hist s" using re restore_keeps [OF assms(1)] by (auto split: if_splits)
  obtain cc s2 where co: "sm_commit m p0 (map word_of_int (ac_tokens acc)) s1 = (cc, s2)" by fastforce
  have "hist s2 = hist s @ map word_of_int (ac_tokens acc)" if "cc = Inr ()"
    using commit_appends [OF assms(1), of p0 _ s1] co that h1 assms(3) by simp
  then show ?thesis using assms(7) g
    by (auto simp: settle_cycle_def Let_def rows re co split: sum.splits)
qed

lemma verify_cycle_decodes:
  assumes "decodes_as m hist nxt" "cf_mode (sp_cfg sp) = SpecGreedy" "hist s \<noteq> []" "p0 + 1 = length (hist s)" "t = last (hist s)"
    and "verify_cycle m p0 t L conf out sp s = (r, out', sp', s')"
  shows "(case r of Inl _ \<Rightarrow> out' = out
    | Inr c \<Rightarrow> \<exists>ts. out' = out @ ts \<and> hist s' = hist s @ ts \<and> hist s @ ts = decode nxt (hist s) (length ts)
        \<and> length ts = cy_emitted c \<and> cy_emitted c = cy_accepted c + 1 \<and> cy_accepted c \<le> kPositions)
    \<and> sp_cfg sp' = sp_cfg sp"
proof -
  define k where "k = choose_k (sp_cfg sp) conf"
  have k: "k \<le> kPositions" using choose_k_bounds by (simp add: k_def)
  obtain path rng where path: "choose_path (sp_cfg sp) L (sp_rng sp) = (path, rng)" by fastforce
  let ?sp = "sp\<lparr>sp_last_k := k, sp_rng := rng\<rparr>" and ?ds = "map word_of_int (take k (path_tokens L path)) :: u32 list"
  obtain sn s1 where sn: "sm_snapshot_ring m p0 (Suc k) s = (sn, s1)" by fastforce
  obtain ve s2 where ve: "sm_verify_forward m p0 (t # ?ds) (verify_cands (sp_cfg sp) L (Suc k)) kDsVerifyMaxCand False s1 = (ve, s2)" by fastforce
  have h: "hist s1 = hist s" "hist s2 = hist s"
    using snapshot_keeps [OF assms(1) sn] verify_keeps [OF assms(1) ve] by simp_all
  have len: "length ?ds = k" using k by (simp add: path_tokens_def)
  show ?thesis
  proof (cases "\<exists>rows. sn = Inr () \<and> ve = Inr rows")
    case True
    then obtain rows where rows: "sn = Inr ()" "ve = Inr rows" by blast
    have "length rows = Suc k \<and> (\<forall>j\<le>k. vr_argmax (rows ! j) = nxt (hist s2 @ take j ?ds))"
      using verify_rows [OF assms(1) ve [unfolded rows]] assms(3-5) h len by simp
    moreover have "settle_cycle m p0 L path k rows out ?sp s2 = (r, out', sp', s')"
      using assms(6) rows by (simp add: verify_cycle_def Let_def k_def [symmetric] path sn ve assms(2) del: take_map)
    ultimately show ?thesis
      using settle_cycle_decodes [of m hist nxt ?sp p0 s2 k rows L path out] assms h k by (fastforce split: sum.splits)
  next
    case False
    then have "(\<exists>er. r = Inl er) \<and> out' = out \<and> sp' = ?sp"
      using assms(6) by (cases sn; cases ve) (auto simp: verify_cycle_def Let_def k_def [symmetric] path sn ve assms(2))
    then show ?thesis by auto
  qed
qed

lemma cycle_decodes:
  assumes "decodes_as m hist nxt" "cf_mode (sp_cfg sp) = SpecGreedy" "hist s \<noteq> []" "p0 + 1 = length (hist s)" "t = last (hist s)"
    and "cycle m p0 t out sp s = (r, out', sp', s')"
  shows "(case r of Inl _ \<Rightarrow> out' = out
    | Inr c \<Rightarrow> \<exists>ts. out' = out @ ts \<and> hist s' = hist s @ ts \<and> hist s @ ts = decode nxt (hist s) (length ts)
        \<and> length ts = cy_emitted c \<and> cy_emitted c = cy_accepted c + 1 \<and> cy_accepted c \<le> kPositions)
    \<and> sp_cfg sp' = sp_cfg sp"
proof -
  define sp0 where "sp0 = (if sp_rng sp = 0 then sp\<lparr>sp_rng := cf_seed (sp_cfg sp)\<rparr> else sp)"
  have cfg: "sp_cfg sp0 = sp_cfg sp" by (simp add: sp0_def)
  obtain d s1 where d: "sm_draft_forward m p0 t (cf_lattice_k (sp_cfg sp)) s = (d, s1)" by fastforce
  have h: "hist s1 = hist s" by (rule draft_keeps [OF assms(1) d])
  show ?thesis
  proof (cases "(cf_lattice_k (sp_cfg sp) = 0 \<or> cf_lattice_k (sp_cfg sp) > kDsVerifyMaxCand) \<or> (\<exists>er. d = Inl er)")
    case True
    then show ?thesis using assms(2,6) d cfg by (auto simp: cycle_def Let_def sp0_def [symmetric] split: if_splits)
  next
    case False
    then obtain L conf where "d = Inr (L, conf)" by (cases d) auto
    then have "verify_cycle m p0 t L conf out sp0 s1 = (r, out', sp', s')"
      using assms(2,6) d False by (auto simp: cycle_def Let_def sp0_def [symmetric] cfg split: if_splits)
    then show ?thesis
      using verify_cycle_decodes [OF assms(1), of sp0 s1 p0 t L conf out r out' sp' s'] assms(2-5) unfolding h cfg by blast
  qed
qed

section \<open>A run of cycles\<close>

text \<open>The caller's loop: the next cycle starts at the last emitted token.\<close>

fun run_cycles :: "nat \<Rightarrow> 's spec_model \<Rightarrow> nat \<Rightarrow> u32 \<Rightarrow> u32 list \<Rightarrow> speculator \<Rightarrow> 's \<Rightarrow> unit result \<times> u32 list \<times> speculator \<times> 's" where
  "run_cycles 0 m p0 t out sp s = (Inr (), out, sp, s)"
| "run_cycles (Suc n) m p0 t out sp s =
     (case cycle m p0 t out sp s of
        (Inl er, out, sp, s) \<Rightarrow> (Inl er, out, sp, s)
      | (Inr c, out, sp, s) \<Rightarrow> run_cycles n m (p0 + cy_emitted c) (last out) out sp s)"

lemma run_cycles_decode:
  assumes "decodes_as m hist nxt" "cf_mode (sp_cfg sp) = SpecGreedy" "hist s \<noteq> []" "p0 + 1 = length (hist s)" "t = last (hist s)"
    and "run_cycles n m p0 t out sp s = (r, out', sp', s')"
  shows "\<exists>ts. out' = out @ ts \<and> hist s @ ts = decode nxt (hist s) (length ts) \<and> length ts \<le> n * (kPositions + 1)
    \<and> (r = Inr () \<longrightarrow> n \<le> length ts \<and> hist s' = hist s @ ts)"
  using assms(2-)
proof (induction n arbitrary: p0 t out sp s)
  case (Suc n)
  obtain r1 out1 sp1 s1 where c: "cycle m p0 t out sp s = (r1, out1, sp1, s1)" by (metis prod_cases4)
  note cyc = cycle_decodes [OF assms(1) Suc.prems(1-4) c]
  show ?case
  proof (cases r1)
    case (Inl er)
    then show ?thesis using Suc.prems(5) c cyc by (intro exI [of _ "[]"]) auto
  next
    case (Inr cy)
    then obtain ts where ts: "out1 = out @ ts" "hist s1 = hist s @ ts" "hist s @ ts = decode nxt (hist s) (length ts)"
        "length ts = cy_emitted cy" "1 \<le> length ts" "length ts \<le> kPositions + 1" "sp_cfg sp1 = sp_cfg sp"
      using cyc by auto
    then have ne: "ts \<noteq> []" by auto
    have run: "run_cycles n m (p0 + cy_emitted cy) (last out1) out1 sp1 s1 = (r, out', sp', s')"
      using Suc.prems(5) c Inr by simp
    have "\<exists>us. out' = out1 @ us \<and> hist s1 @ us = decode nxt (hist s1) (length us) \<and> length us \<le> n * (kPositions + 1)
        \<and> (r = Inr () \<longrightarrow> n \<le> length us \<and> hist s' = hist s1 @ us)"
      by (rule Suc.IH [OF _ _ _ _ run]) (use Suc.prems(1-4) ts(1,2,4-7) ne in simp_all)
    then obtain us where us: "out' = out1 @ us" "hist s1 @ us = decode nxt (hist s1) (length us)" "length us \<le> n * (kPositions + 1)"
        "r = Inr () \<longrightarrow> n \<le> length us \<and> hist s' = hist s1 @ us" by blast
    have "hist s @ ts @ us = decode nxt (hist s) (length (ts @ us))"
      using us(2) ts(2,3) by (simp add: decode_add flip: append_assoc)
    then show ?thesis using us ts by (intro exI [of _ "ts @ us"]) (auto simp: decode_add)
  qed
qed simp

text \<open>
  C28. Speculation at temperature 0 is invisible. Whatever the lattice, the path and the number of
  verified positions, the tokens that a run of cycles emits are exactly the next tokens of plain
  decoding; when no call fails, every cycle emits at least one token and at most one more than the
  draft has positions, and the committed history is the one plain decoding has.
\<close>

theorem greedy_speculation_exact:
  assumes "decodes_as m hist nxt" "cf_mode (sp_cfg sp) = SpecGreedy" "hist s \<noteq> []"
    and "run_cycles n m (length (hist s) - 1) (last (hist s)) [] sp s = (r, out, sp', s')"
  shows "hist s @ out = decode nxt (hist s) (length out) \<and> length out \<le> n * (kPositions + 1)
    \<and> (r = Inr () \<longrightarrow> n \<le> length out \<and> hist s' = hist s @ out)"
proof -
  have "length (hist s) - 1 + 1 = length (hist s)" using assms(3) by (cases "hist s") simp_all
  then show ?thesis using run_cycles_decode [OF assms(1-3) _ refl assms(4)] by simp
qed

text \<open>A model that answers with the length of the history.\<close>

definition demo_next :: "u32 list \<Rightarrow> u32" where
  "demo_next h = of_nat (length h)"

definition demo_row :: "u32 \<Rightarrow> verify_row" where
  "demo_row t = \<lparr>vr_argmax = t, vr_lse = 0, vr_masked_token = 0, vr_full_token = 0, vr_cand_logit = []\<rparr>"

definition demo_model :: "u32 list spec_model" where
  "demo_model = \<lparr>sm_draft_forward = (\<lambda>p0 t K s. (Inr (demo_lattice, [1, 1, 1, 1, 1]), s)),
     sm_verify_forward = (\<lambda>p0 ts cand st ex s. (Inr (map (\<lambda>j. demo_row (demo_next (s @ take j (tl ts)))) [0..<length ts]), s)),
     sm_snapshot_ring = (\<lambda>p0 M s. (Inr (), s)), sm_restore_ring = (\<lambda>p0 a M s. (Inr (), s)),
     sm_commit = (\<lambda>p0 ts s. (Inr (), s @ ts)), sm_last_union_experts = (\<lambda>s. 0), sm_last_miss_bytes = (\<lambda>s. 0)\<rparr>"

definition demo_spec :: speculator where
  "demo_spec = \<lparr>sp_cfg = default_spec_config\<lparr>cf_mode := SpecGreedy\<rparr>, sp_stats = \<lparr>ss_cycles = 0, ss_tokens = 0, ss_accepted = 0,
     ss_verified = 0, ss_union_experts = 0, ss_miss_bytes = 0\<rparr>, sp_last_k = 0, sp_rng = 0\<rparr>"

lemma demo_model_decodes: "decodes_as demo_model (\<lambda>s. s) demo_next"
  by (auto simp: decodes_as_def demo_model_def demo_row_def simp del: upt_Suc)

lemma demo_cycle_ok: "cf_mode (sp_cfg sp) = SpecGreedy \<Longrightarrow> cf_lattice_k (sp_cfg sp) = 16 \<Longrightarrow>
   (\<exists>c. fst (cycle demo_model p0 t out sp s) = Inr c)"
  by (auto simp: cycle_def verify_cycle_def settle_cycle_def demo_model_def Let_def kDsVerifyMaxCand_def split: prod.splits)

theorem greedy_speculation_exact_witness:
  "[7] @ fst (snd (run_cycles 1 demo_model 0 7 [] demo_spec [7]))
     = decode demo_next [7] (length (fst (snd (run_cycles 1 demo_model 0 7 [] demo_spec [7]))))
   \<and> 1 \<le> length (fst (snd (run_cycles 1 demo_model 0 7 [] demo_spec [7])))"
proof -
  obtain r out sp s where run: "run_cycles 1 demo_model 0 7 [] demo_spec [7] = (r, out, sp, s)" by (metis prod_cases4)
  have mode: "cf_mode (sp_cfg demo_spec) = SpecGreedy" "cf_lattice_k (sp_cfg demo_spec) = 16"
    by (simp_all add: demo_spec_def default_spec_config_def)
  have "r = Inr ()"
    using demo_cycle_ok [OF mode, of 0 7 "[]" "[7]"] run by (auto split: prod.splits sum.splits)
  then show ?thesis
    using greedy_speculation_exact [OF demo_model_decodes mode(1), of "[7]" 1 r out sp s] run by simp
qed

section \<open>The top-K rule\<close>

text \<open>The rank of token \<open>d\<close> in a row: how many tokens come before it.\<close>

definition rank_in :: "real list \<Rightarrow> nat \<Rightarrow> nat" where
  "rank_in row d = card {v. v < length row \<and> (row ! v > row ! d \<or> row ! v = row ! d \<and> v < d)}"

lemma better_than_count:
  assumes "matrix = map Some xs" "j * vocab + n \<le> length xs"
  shows "better_than matrix vocab j d x n
    = Some (card {v. v < n \<and> (xs ! (j * vocab + v) > x \<or> xs ! (j * vocab + v) = x \<and> v < d)})"
  using assms(2)
proof (induction n)
  case (Suc n)
  let ?P = "\<lambda>v. xs ! (j * vocab + v) > x \<or> xs ! (j * vocab + v) = x \<and> v < d"
  have "{v. v < Suc n \<and> ?P v} = (if ?P n then insert n {v. v < n \<and> ?P v} else {v. v < n \<and> ?P v})"
    by (auto simp: less_Suc_eq)
  then show ?case using Suc by (simp add: better_than_def row_logit_def assms(1))
qed (simp add: better_than_def)

lemma topk_loop_ranks:
  assumes "matrix = map Some xs" "(j + length ds) * vocab \<le> length xs" "\<forall>d \<in> set ds. d < vocab"
  shows "topk_loop matrix vocab topk j ds
    = Inr (j + length (takeWhile (\<lambda>i. rank_in (row_of xs vocab (j + i)) (ds ! i) < topk) [0..<length ds]))"
  using assms(2,3)
proof (induction ds arbitrary: j)
  case (Cons d ds)
  have le: "j * vocab + vocab \<le> length xs" using Cons.prems(1) by (simp add: algebra_simps)
  have b: "better_than matrix vocab j d (xs ! (j * vocab + d)) vocab = Some (rank_in (row_of xs vocab j) d)"
    using better_than_count [OF assms(1) le] Cons.prems(2)
    by (auto simp: rank_in_def row_of_def intro!: arg_cong [where f = card])
  have x: "row_logit matrix vocab j d = Some (xs ! (j * vocab + d))"
    using le Cons.prems(2) by (simp add: row_logit_def assms(1))
  have t: "takeWhile P [0..<Suc (length ds)] = (if P 0 then 0 # map Suc (takeWhile (\<lambda>i. P (Suc i)) [0..<length ds]) else [])" for P
    by (simp add: upt_conv_Cons map_Suc_upt [symmetric] takeWhile_map comp_def del: upt_Suc)
  have ih: "topk_loop matrix vocab topk (j + 1) ds
      = Inr (j + 1 + length (takeWhile (\<lambda>i. rank_in (row_of xs vocab (j + 1 + i)) (ds ! i) < topk) [0..<length ds]))"
    using Cons.prems by (intro Cons.IH) simp_all
  show ?case using Cons.prems(2) ih by (simp add: x b t del: upt_Suc)
qed simp

lemma rank_zero_iff:
  assumes "d < length row"
  shows "rank_in row d < 1 \<longleftrightarrow> d = first_argmax row"
proof -
  have ne: "row \<noteq> []" using assms by auto
  let ?S = "{v. v < length row \<and> (row ! v > row ! d \<or> row ! v = row ! d \<and> v < d)}" and ?a = "first_argmax row"
  have "finite ?S" by simp
  then have "rank_in row d < 1 \<longleftrightarrow> ?S = {}" by (simp add: rank_in_def)
  also have "\<dots> \<longleftrightarrow> d = ?a"
  proof
    assume e: "?S = {}"
    have "row ! ?a = row ! d \<and> \<not> ?a < d" using e first_argmax_less [OF ne] first_argmax_max [OF ne assms] by force
    then show "d = ?a" using first_argmax_first [OF ne, of d] by (cases d ?a rule: linorder_cases) auto
  next
    assume "d = ?a"
    then show "?S = {}" using first_argmax_max [OF ne] first_argmax_first [OF ne] by (force simp: not_less)
  qed
  finally show ?thesis .
qed

text \<open>
  The runtime's acceptance rule with \<open>K = 1\<close> is the greedy rule: on finite logits,
  \<^verbatim>\<open>accept_topk_prefix\<close> keeps exactly the drafted tokens that \<^verbatim>\<open>accept_greedy\<close> keeps against the rows'
  best tokens, the lowest id winning a tie.
\<close>

theorem topk_one_is_greedy:
  assumes "0 < vocab" "length xs = (length draft + 1) * vocab" "\<forall>d \<in> set draft. d < vocab"
  shows "accept_topk_prefix draft (map Some xs) vocab 1
    = Inr (ac_accepted (accept_greedy (map int draft)
        (map (\<lambda>j. int (first_argmax (row_of xs vocab j))) [0..<length draft + 1]) (length draft)))"
proof -
  have "(rank_in (row_of xs vocab j) (draft ! j) < 1) = (draft ! j = first_argmax (row_of xs vocab j))" if "j < length draft" for j
    using that assms(3) by (intro rank_zero_iff) (simp add: row_of_def)
  then have "takeWhile (\<lambda>i. rank_in (row_of xs vocab i) (draft ! i) < 1) [0..<length draft]
      = takeWhile (\<lambda>j. map int draft ! j = map (\<lambda>j. int (first_argmax (row_of xs vocab j))) [0..<length draft + 1] ! j) [0..<length draft]"
    by (intro takeWhile_cong refl) (simp del: upt_Suc)
  moreover have "topk_loop (map Some xs) vocab 1 0 draft
      = Inr (length (takeWhile (\<lambda>i. rank_in (row_of xs vocab i) (draft ! i) < 1) [0..<length draft]))"
    using topk_loop_ranks [OF refl, of 0 draft vocab xs 1] assms by simp
  ultimately show ?thesis using assms(1,2) by (simp add: accept_topk_prefix_def accept_greedy_def Let_def del: upt_Suc)
qed

theorem topk_one_is_greedy_witness:
  "accept_topk_prefix [1, 0] (map Some [0, 5, 2, 7, 1, 1 :: real]) 2 1 = Inr 1"
proof -
  have "accept_topk_prefix [1, 0] (map Some [0, 5, 2, 7, 1, 1 :: real]) 2 1
      = Inr (ac_accepted (accept_greedy (map int [1, 0])
          (map (\<lambda>j. int (first_argmax (row_of [0, 5, 2, 7, 1, 1 :: real] 2 j))) [0..<length [1 :: nat, 0] + 1]) (length [1 :: nat, 0])))"
    by (rule topk_one_is_greedy) simp_all
  then show ?thesis by (simp add: accept_greedy_def row_of_def first_argmax_def argmax_step_def upt_rec eval_nat_numeral)
qed

end
