(* ===== verification/Codec.thy ===== *)
theory Codec
  imports Prelude
begin

text \<open>
  Words as bytes, little endian, and lists of them: what the files of the program and the memory that
  the GPU shares hold. The locale \<open>fixed_codec\<close> is an encoding of fixed width; the words of 16, 32
  and 64 bits are its instances.
\<close>

section \<open>Bytes\<close>

definition le_bytes :: "nat \<Rightarrow> 'a::len word \<Rightarrow> u8 list" where
  "le_bytes n w = map (\<lambda>i. ucast (drop_bit (8 * i) w)) [0..<n]"

fun of_le :: "u8 list \<Rightarrow> 'a::len word" where
  "of_le [] = 0"
| "of_le (b # bs) = ucast b OR push_bit 8 (of_le bs)"

definition encode_list :: "('a \<Rightarrow> u8 list) \<Rightarrow> 'a list \<Rightarrow> u8 list" where
  "encode_list enc xs = concat (map enc xs)"

definition decode_list :: "nat \<Rightarrow> (u8 list \<Rightarrow> 'a) \<Rightarrow> nat \<Rightarrow> u8 list \<Rightarrow> 'a list" where
  "decode_list n dec m bs = map (\<lambda>i. dec (take n (drop (n * i) bs))) [0..<m]"

section \<open>Codecs\<close>

text \<open>An encoding of fixed width whose encoder and decoder are inverse to each other.\<close>

locale fixed_codec =
  fixes n :: nat and enc :: "'a \<Rightarrow> u8 list" and dec :: "u8 list \<Rightarrow> 'a"
  assumes enc_length: "length (enc x) = n"
    and dec_enc: "dec (enc x) = x"
    and enc_dec: "length bs = n \<Longrightarrow> enc (dec bs) = bs"
begin

lemma length_encode_list: "length (encode_list enc xs) = n * length xs"
  by (induction xs) (simp_all add: encode_list_def enc_length)

lemma block_of_encoding: "i < length xs \<Longrightarrow> take n (drop (n * i) (encode_list enc xs @ ys)) = enc (xs ! i)"
proof (induction xs arbitrary: i)
  case (Cons x xs)
  then show ?case by (cases i) (simp_all add: encode_list_def enc_length)
qed simp

lemma decode_encode_list: "decode_list n dec (length xs) (encode_list enc xs @ ys) = xs"
  by (rule nth_equalityI) (simp_all add: decode_list_def block_of_encoding dec_enc del: take_append drop_append)

lemma encode_decode_list: "n * m \<le> length bs \<Longrightarrow> encode_list enc (decode_list n dec m bs) = take (n * m) bs"
proof (induction m)
  case (Suc m)
  have "length (take n (drop (n * m) bs)) = n" using Suc.prems by simp
  then have "encode_list enc (decode_list n dec (Suc m) bs) = take (n * m) bs @ take n (drop (n * m) bs)"
    using Suc by (simp add: encode_list_def decode_list_def enc_dec)
  also have "\<dots> = take (n * Suc m) bs" using take_add [of "n * m" n bs] by (simp add: add.commute)
  finally show ?case .
qed (simp add: encode_list_def decode_list_def)

end

lemma bit_of_le:
  "bit (of_le bs :: 'a::len word) i \<longleftrightarrow> i < LENGTH('a) \<and> i div 8 < length bs \<and> bit (bs ! (i div 8)) (i mod 8)"
proof (induction bs arbitrary: i)
  case (Cons b bs)
  show ?case
  proof (cases "i < 8")
    case True
    then show ?thesis using Cons by (auto simp: bit_simps dest: bit_imp_le_length)
  next
    case False
    then have "i div 8 = Suc ((i - 8) div 8)" "(i - 8) mod 8 = i mod 8" by (simp_all add: le_div_geq le_mod_geq)
    then show ?thesis using False Cons.IH [of "i - 8"] by (auto simp: bit_simps dest: bit_imp_le_length)
  qed
qed simp

lemma le_codec:
  assumes "LENGTH('a::len) = 8 * n"
  shows "fixed_codec n (le_bytes n :: 'a word \<Rightarrow> u8 list) of_le"
proof
  fix w :: "'a word"
  show "length (le_bytes n w) = n" by (simp add: le_bytes_def)
  show "of_le (le_bytes n w) = w"
  proof (rule bit_word_eqI)
    fix i assume "i < LENGTH('a)"
    then have "i div 8 < n" using assms by linarith
    then show "bit (of_le (le_bytes n w) :: 'a word) i = bit w i"
      using \<open>i < LENGTH('a)\<close> by (auto simp: bit_of_le le_bytes_def bit_simps)
  qed
next
  fix bs :: "u8 list"
  assume len: "length bs = n"
  show "le_bytes n (of_le bs :: 'a word) = bs"
  proof (rule nth_equalityI)
    fix j assume "j < length (le_bytes n (of_le bs :: 'a word))"
    then have j: "j < n" by (simp add: le_bytes_def)
    have "bit (ucast (drop_bit (8 * j) (of_le bs :: 'a word)) :: u8) i = bit (bs ! j) i" if "i < 8" for i
    proof -
      have "(8 * j + i) div 8 = j" "(8 * j + i) mod 8 = i" "8 * j + i < 8 * n" using that j by auto
      then show ?thesis using that j len assms by (simp add: bit_simps bit_of_le)
    qed
    then show "le_bytes n (of_le bs :: 'a word) ! j = bs ! j"
      using j by (intro bit_word_eqI) (simp add: le_bytes_def)
  qed (simp add: le_bytes_def len)
qed

interpretation le4: fixed_codec 4 "le_bytes 4 :: u32 \<Rightarrow> u8 list" of_le
  by (rule le_codec) simp

interpretation le8: fixed_codec 8 "le_bytes 8 :: u64 \<Rightarrow> u8 list" of_le
  by (rule le_codec) simp

interpretation le2: fixed_codec 2 "le_bytes 2 :: u16 \<Rightarrow> u8 list" of_le
  by (rule le_codec) simp

end
