(* ===== verification/Cache_State.thy ===== *)
theory Cache_State
  imports Expert_Store_Spec Codec "HOL-Library.Sublist"
begin

text \<open>
  \<^verbatim>\<open>runtime/expert_cache_state.cpp\<close>: the restart hints, a file of the resident expert ids in newest-first
  order. A file is a list of bytes, the file system a map from paths to files, and what the operating
  system answers (can the directory be made, the file be opened, written, closed, renamed) a
  parameter of the writer. Words are stored in the byte order of the machine, little endian.
\<close>

section \<open>The file\<close>

definition kMagic :: u64 where "kMagic = 0x31444952454d4343"
definition kVersion :: u64 where "kVersion = 1"
definition kMaxKeys :: nat where "kMaxKeys = kNumLayers * kRoutedExperts"

definition hash_bytes :: "u8 list \<Rightarrow> u64" where
  "hash_bytes bs = fold (\<lambda>b h. (h XOR ucast b) * 1099511628211) bs 1469598103934665603"

definition checksum :: "u32 list \<Rightarrow> u64" where
  "checksum keys = hash_bytes (encode_list (le_bytes 4) keys)"

definition key_slot :: "expert_key \<Rightarrow> nat" where
  "key_slot k = unat (layer k) * kRoutedExperts + unat (expert k)"

fun keys_ok :: "nat list \<Rightarrow> expert_key list \<Rightarrow> bool" where
  "keys_ok seen [] = True"
| "keys_ok seen (k # ks) =
     (if unat (layer k) \<ge> kNumLayers \<or> unat (expert k) \<ge> kRoutedExperts then False
      else if key_slot k \<in> set seen then False else keys_ok (key_slot k # seen) ks)"

definition valid_keys :: "expert_key list \<Rightarrow> u32 \<Rightarrow> bool" where
  "valid_keys keys capacity \<longleftrightarrow>
     \<not> (keys = [] \<or> length keys > unat capacity \<or> length keys > kMaxKeys) \<and> keys_ok [] keys"

definition file_header :: "u64 \<Rightarrow> u32 \<Rightarrow> u32 list \<Rightarrow> u64 list" where
  "file_header identity capacity ks = [kMagic, kVersion, identity, ucast capacity, of_nat (length ks), checksum ks]"

definition cache_file_bytes :: "u64 \<Rightarrow> u32 \<Rightarrow> expert_key list \<Rightarrow> u8 list" where
  "cache_file_bytes identity capacity keys =
     (let ks = map packed keys in encode_list (le_bytes 8) (file_header identity capacity ks) @ encode_list (le_bytes 4) ks)"

record os_answers =
  os_mkdir :: bool
  os_open :: bool
  os_write :: bool
  os_close :: bool
  os_rename :: bool

text \<open>
  Every failure after the temporary file was created removes it; the destructor of \<^verbatim>\<open>TempFile\<close> ignores
  whether that works, and the model takes it to work.
\<close>

definition write_expert_cache_state :: "os_answers \<Rightarrow> string \<Rightarrow> u64 \<Rightarrow> u32 \<Rightarrow> expert_key list \<Rightarrow> (string \<rightharpoonup> u8 list)
    \<Rightarrow> unit result \<times> (string \<rightharpoonup> u8 list)" where
  "write_expert_cache_state os path identity capacity keys fs =
     (if \<not> valid_keys keys capacity then (Inl InvalidArgument, fs)
      else if \<not> os_mkdir os then (Inl Io, fs)
      else let tmp = path @ ''.tmp'' in
        if fs tmp \<noteq> None \<or> \<not> os_open os then (Inl Io, fs)
        else if \<not> os_write os then (Inl Io, fs(tmp := None))
        else if \<not> os_close os then (Inl Io, fs(tmp := None))
        else if \<not> os_rename os then (Inl Io, fs(tmp := None))
        else (Inr (), fs(tmp := None, path \<mapsto> cache_file_bytes identity capacity keys)))"

definition header_ok :: "u64 \<Rightarrow> u32 \<Rightarrow> u64 list \<Rightarrow> bool" where
  "header_ok identity capacity h \<longleftrightarrow>
     \<not> (h ! 0 \<noteq> kMagic \<or> h ! 1 \<noteq> kVersion \<or> h ! 2 \<noteq> identity \<or> h ! 3 \<noteq> ucast capacity \<or> h ! 4 = 0
        \<or> unat (h ! 4) > unat capacity \<or> unat (h ! 4) > kMaxKeys)"

definition read_expert_cache_state :: "string \<Rightarrow> u64 \<Rightarrow> u32 \<Rightarrow> (string \<rightharpoonup> u8 list) \<Rightarrow> expert_key list result" where
  "read_expert_cache_state path identity capacity fs =
     (case fs path of
        None \<Rightarrow> Inl NotFound
      | Some bs \<Rightarrow>
          let h = decode_list 8 of_le 6 bs; body = drop 48 bs; n = unat (h ! 4) in
          if length bs < 48 \<or> \<not> header_ok identity capacity h then Inl Corrupt
          else let ks = decode_list 4 of_le n body in
            if length body < 4 * n \<or> length body > 4 * n \<or> checksum ks \<noteq> h ! 5 then Inl Corrupt
            else let keys = map unpack ks in if \<not> valid_keys keys capacity then Inl Corrupt else Inr keys)"

text \<open>
  What \<^verbatim>\<open>Engine::save_expert_cache\<close> writes once the engine is drained: the ids of the resident,
  unpinned slots that \<^verbatim>\<open>slot_info\<close> gives, most recently used first. Nothing is written when there is none.
\<close>

definition newest_first :: "store \<Rightarrow> expert_key list" where
  "newest_first st =
     map es_key (rev (sort_key (\<lambda>s. (es_last_use_token s, es_slot s))
       (filter (\<lambda>s. es_state s = Resident \<and> es_tier s \<noteq> Pinned)
         (List.map_filter (slot_info st) [0..<unat (sp_slot_count (st_pool st))]))))"

definition save_resident_ids :: "os_answers \<Rightarrow> string \<Rightarrow> u64 \<Rightarrow> store \<Rightarrow> (string \<rightharpoonup> u8 list) \<Rightarrow> unit result \<times> (string \<rightharpoonup> u8 list)" where
  "save_resident_ids os path identity st fs =
     (if newest_first st = [] then (Inr (), fs)
      else write_expert_cache_state os path identity (sp_slot_count (st_pool st)) (newest_first st) fs)"

text \<open>
  \<^verbatim>\<open>Engine::save_expert_cache\<close>: what it asks of the engine and of the file system is a record, the
  destination and the checkpoint directories as canonical paths, lists of components, if they could
  be had. A destination below a checkpoint is one of which the checkpoint is a prefix. \<open>settle\<close> is what
  stopping the backfill and draining the read engine do to the store.
\<close>

record save_context =
  sv_gpu_ready :: bool
  sv_produce_ced :: bool
  sv_resident_only :: bool
  sv_speculation :: bool
  sv_streams :: nat
  sv_destination :: "string list option"
  sv_roots :: "string list option list"
  sv_identity :: "u64 result"

fun outside_roots :: "string list \<Rightarrow> string list option list \<Rightarrow> unit result" where
  "outside_roots dest [] = Inr ()"
| "outside_roots dest (None # roots) = Inl Io"
| "outside_roots dest (Some dir # roots) = (if prefix dir dest then Inl InvalidArgument else outside_roots dest roots)"

definition save_expert_cache :: "os_answers \<Rightarrow> save_context \<Rightarrow> (store \<Rightarrow> store) \<Rightarrow> string \<Rightarrow> store \<Rightarrow> (string \<rightharpoonup> u8 list)
    \<Rightarrow> unit result \<times> store \<times> (string \<rightharpoonup> u8 list)" where
  "save_expert_cache os ctx settle path st fs =
     (if \<not> sv_gpu_ready ctx \<or> \<not> sv_produce_ced ctx \<or> sv_resident_only ctx \<or> sv_speculation ctx
         \<or> sv_streams ctx \<noteq> 1 \<or> st_fixed_cache st
      then (Inl FailedPrecondition, st, fs)
      else case sv_destination ctx of
        None \<Rightarrow> (Inl Io, st, fs)
      | Some dest \<Rightarrow>
          (case outside_roots dest (sv_roots ctx) of
             Inl x \<Rightarrow> (Inl x, st, fs)
           | Inr _ \<Rightarrow>
               (case sv_identity ctx of
                  Inl x \<Rightarrow> (Inl x, st, fs)
                | Inr identity \<Rightarrow>
                    let st = settle st in case save_resident_ids os path identity st fs of (r, fs) \<Rightarrow> (r, st, fs))))"

section \<open>What a file holds\<close>

definition key_in_model :: "expert_key \<Rightarrow> bool" where
  "key_in_model k \<longleftrightarrow> unat (layer k) < kNumLayers \<and> unat (expert k) < kRoutedExperts"

lemma keys_ok_iff:
  "keys_ok seen ks \<longleftrightarrow> list_all key_in_model ks \<and> distinct (map key_slot ks) \<and> set (map key_slot ks) \<inter> set seen = {}"
proof (induction ks arbitrary: seen)
  case (Cons k ks)
  have "keys_ok seen (k # ks) \<longleftrightarrow> key_in_model k \<and> key_slot k \<notin> set seen \<and> keys_ok (key_slot k # seen) ks"
    by (auto simp: key_in_model_def not_le)
  then show ?case unfolding Cons.IH by auto
qed simp

lemma header_length [simp]: "length (file_header identity capacity ks) = 6"
  by (simp add: file_header_def)

lemma cache_file_bytes_parts:
  assumes "bs = cache_file_bytes identity capacity keys" "ks = map packed keys"
  shows "decode_list 8 of_le 6 bs = file_header identity capacity ks" "drop 48 bs = encode_list (le_bytes 4) ks" "48 \<le> length bs"
proof -
  let ?h = "encode_list (le_bytes 8) (file_header identity capacity ks)"
  have bs: "bs = ?h @ encode_list (le_bytes 4) ks" by (simp add: assms cache_file_bytes_def Let_def)
  have len: "length ?h = 48" by (simp add: le8.length_encode_list)
  show "decode_list 8 of_le 6 bs = file_header identity capacity ks"
    using le8.decode_encode_list [of "file_header identity capacity ks"] by (simp add: bs)
  show "drop 48 bs = encode_list (le_bytes 4) ks" "48 \<le> length bs" using len by (simp_all add: bs)
qed

lemma kMaxKeys_small: "kMaxKeys < 2 ^ 64"
  by (simp add: kMaxKeys_def kNumLayers_def kRoutedExperts_def)

lemma read_written:
  assumes "valid_keys keys capacity" "fs path = Some (cache_file_bytes identity capacity keys)"
  shows "read_expert_cache_state path identity capacity fs = Inr keys"
proof -
  define ks where "ks = map packed keys"
  note f = cache_file_bytes_parts [OF refl ks_def, of identity capacity]
  have n: "length ks = length keys" "map unpack ks = keys" by (simp_all add: ks_def unpack_packed comp_def)
  have v: "keys \<noteq> []" "length keys \<le> unat capacity" "length keys \<le> kMaxKeys" using assms(1) by (simp_all add: valid_keys_def)
  have u: "unat (of_nat (length keys) :: u64) = length keys"
    using v(3) kMaxKeys_small by (simp add: unat_of_nat take_bit_nat_eq_self)
  have "(of_nat (length keys) :: u64) \<noteq> 0" using u v(1) by (metis length_0_conv unat_0)
  then have h: "header_ok identity capacity (file_header identity capacity ks)"
    using u v n(1) by (simp add: header_ok_def file_header_def eval_nat_numeral)
  have h45: "file_header identity capacity ks ! 4 = of_nat (length keys)" "file_header identity capacity ks ! 5 = checksum ks"
    by (simp_all add: file_header_def n(1) eval_nat_numeral)
  have d: "decode_list 4 of_le (length keys) (encode_list (le_bytes 4) ks) = ks"
    using le4.decode_encode_list [of ks "[]"] by (simp add: n(1))
  show ?thesis using assms(1) f(3)
    by (simp add: read_expert_cache_state_def assms(2) f(1,2) h h45 u d n Let_def le4.length_encode_list)
qed

lemma list6: "length xs = 6 \<Longrightarrow> xs = [xs ! 0, xs ! 1, xs ! 2, xs ! 3, xs ! 4, xs ! 5]"
  by (rule nth_equalityI) (auto simp: less_Suc_eq eval_nat_numeral)

lemma read_accepts:
  assumes "fs path = Some bs" "read_expert_cache_state path identity capacity fs = Inr keys"
  shows "valid_keys keys capacity" "bs = cache_file_bytes identity capacity keys"
proof -
  define h :: "u64 list" where "h = decode_list 8 of_le 6 bs"
  define ks :: "u32 list" where "ks = decode_list 4 of_le (unat (h ! 4)) (drop 48 bs)"
  have r: "48 \<le> length bs" "header_ok identity capacity h" "length (drop 48 bs) = 4 * unat (h ! 4)" "checksum ks = h ! 5"
    "keys = map unpack ks" "valid_keys keys capacity"
    using assms by (auto simp: read_expert_cache_state_def Let_def h_def [symmetric] ks_def [symmetric] not_less split: if_splits)
  then show "valid_keys keys capacity" by blast
  have len: "length ks = unat (h ! 4)" by (simp add: ks_def decode_list_def)
  have ks: "map packed keys = ks" by (simp add: r(5) packed_unpack comp_def)
  have "encode_list (le_bytes 4) ks = drop 48 bs"
    using le4.encode_decode_list [of "unat (h ! 4)" "drop 48 bs"] r(3) by (simp add: ks_def)
  moreover have "encode_list (le_bytes 8) h = take 48 bs"
    using le8.encode_decode_list [of 6 bs] r(1) by (simp add: h_def)
  moreover have "h = file_header identity capacity ks"
  proof -
    have "length h = 6" by (simp add: h_def decode_list_def)
    moreover have "[h ! 0, h ! 1, h ! 2, h ! 3, h ! 4, h ! 5] = file_header identity capacity ks"
      using r(2,4) by (simp add: header_ok_def file_header_def len)
    ultimately show ?thesis using list6 by metis
  qed
  ultimately show "bs = cache_file_bytes identity capacity keys"
    by (simp add: cache_file_bytes_def Let_def ks)
qed

text \<open>
  C40. A restart-hint file is accepted exactly when it is, byte for byte, what the writer produces for the
  keys it is read as, for this checkpoint and this capacity: the keys are valid, the header matches
  and the checksum holds. So what is written is read back, and nothing else is.
\<close>

theorem cache_file_exact:
  "read_expert_cache_state path identity capacity (fs(path \<mapsto> bs)) = Inr keys
    \<longleftrightarrow> valid_keys keys capacity \<and> bs = cache_file_bytes identity capacity keys"
proof
  assume "read_expert_cache_state path identity capacity (fs(path \<mapsto> bs)) = Inr keys"
  from read_accepts [OF _ this] show "valid_keys keys capacity \<and> bs = cache_file_bytes identity capacity keys" by simp
next
  assume "valid_keys keys capacity \<and> bs = cache_file_bytes identity capacity keys"
  then show "read_expert_cache_state path identity capacity (fs(path \<mapsto> bs)) = Inr keys"
    by (intro read_written) simp_all
qed

text \<open>
  Writing the hints is atomic: whatever the operating system answers, a failing call leaves every file
  as it was, and a successful one changes only the file it names.
\<close>

lemma cache_write_atomic:
  "snd (write_expert_cache_state os path identity capacity keys fs)
     = (case fst (write_expert_cache_state os path identity capacity keys fs) of
          Inl _ \<Rightarrow> fs | Inr _ \<Rightarrow> fs(path \<mapsto> cache_file_bytes identity capacity keys))"
  by (auto simp: write_expert_cache_state_def Let_def fun_upd_idem)

section \<open>Saving the store\<close>

definition saved_slots :: "store \<Rightarrow> expert_slot list" where
  "saved_slots st = filter (\<lambda>s. es_state s = Resident \<and> es_tier s \<noteq> Pinned) (take (unat (sp_slot_count (st_pool st))) (st_slots st))"

lemma map_filter_slot_info: "List.map_filter (slot_info st) [0..<n] = take n (st_slots st)"
proof (induction n)
  case (Suc n)
  have "List.map_filter (slot_info st) [0..<Suc n] = List.map_filter (slot_info st) [0..<n] @ (case slot_info st n of None \<Rightarrow> [] | Some s \<Rightarrow> [s])"
    by (simp add: List.map_filter_def split: option.split)
  also have "\<dots> = take (Suc n) (st_slots st)"
    unfolding Suc by (simp add: slot_info_def take_Suc_conv_app_nth)
  finally show ?case .
qed (simp add: List.map_filter_def)

lemma newest_first_slots:
  "newest_first st = map es_key (rev (sort_key (\<lambda>s. (es_last_use_token s, es_slot s)) (saved_slots st)))"
  by (simp add: newest_first_def saved_slots_def map_filter_slot_info)

lemma set_take_nth: "set (take n xs) = {xs ! i |i. i < n \<and> i < length xs}"
proof -
  have "set (take n xs) = (!) xs ` {0..<min n (length xs)}"
    using nth_image [of "min n (length xs)" xs] by (simp add: min_def split: if_splits)
  then show ?thesis by auto
qed

lemma saved_keys_distinct:
  assumes "store_inv st"
  shows "distinct (map es_key (saved_slots st))" "\<forall>s \<in> set (saved_slots st). key_in_range st (es_key s)"
proof -
  have ix: "st_index st (es_key (st_slots st ! i)) = Some i" if "i < length (st_slots st)" "es_state (st_slots st ! i) = Resident" for i
    using assms that by (auto simp: store_inv_def index_ok_def)
  have "\<forall>k i. st_index st k = Some i \<longrightarrow> key_in_range st k" using assms by (auto simp: store_inv_def index_ok_def)
  then show "\<forall>s \<in> set (saved_slots st). key_in_range st (es_key s)"
    using ix by (fastforce simp: saved_slots_def in_set_conv_nth)
  have "distinct (map es_key (filter P (take n (st_slots st))))" if "\<And>s. P s \<Longrightarrow> es_state s = Resident" for P n
  proof (induction n)
    case (Suc n)
    show ?case
    proof (cases "n < length (st_slots st) \<and> P (st_slots st ! n)")
      case True
      have "es_key (st_slots st ! n) \<noteq> es_key (st_slots st ! i)" if "i < n" "P (st_slots st ! i)" for i
        using ix [of i] ix [of n] True that \<open>\<And>s. P s \<Longrightarrow> es_state s = Resident\<close> by fastforce
      then have "es_key (st_slots st ! n) \<notin> es_key ` set (filter P (take n (st_slots st)))"
        by (fastforce simp: set_take_nth)
      then show ?thesis using Suc True by (simp add: take_Suc_conv_app_nth)
    next
      case False
      then show ?thesis using Suc by (cases "n < length (st_slots st)") (simp_all add: take_Suc_conv_app_nth)
    qed
  qed simp
  note r = this
  show "distinct (map es_key (saved_slots st))" unfolding saved_slots_def by (rule r) simp
qed

lemma key_slot_inj:
  assumes "unat (expert k) < kRoutedExperts" "unat (expert k') < kRoutedExperts" "key_slot k = key_slot k'"
  shows "k = k'"
proof -
  have "unat (layer k) = unat (layer k')" "unat (expert k) = unat (expert k')"
    using mult_add_inj [OF assms(3) [unfolded key_slot_def] assms(1,2)] by simp_all
  then show ?thesis by (cases k; cases k') (simp add: word_unat_eq_iff)
qed

lemma saved_keys_in_model:
  assumes "store_inv st" "st_layers st \<le> kNumLayers" "st_experts_per_layer st \<le> kRoutedExperts" "s \<in> set (saved_slots st)"
  shows "key_in_model (es_key s)"
  using saved_keys_distinct(2) [OF assms(1)] assms(2-4) by (auto simp: key_in_range_def key_in_model_def)

lemma set_newest_first: "set (newest_first st) = es_key ` set (saved_slots st)"
  by (simp add: newest_first_slots)

lemma distinct_newest_first: "store_inv st \<Longrightarrow> distinct (newest_first st)"
  using saved_keys_distinct(1) [of st] by (simp add: newest_first_slots distinct_map flip: rev_map)

lemma distinct_key_slots:
  assumes "list_all key_in_model ks" "distinct ks"
  shows "distinct (map key_slot ks)"
proof -
  have "inj_on key_slot (set ks)"
    using assms(1) by (intro inj_onI key_slot_inj) (auto simp: list_all_iff key_in_model_def)
  then show ?thesis using assms(2) by (simp add: distinct_map)
qed

lemma few_key_slots:
  assumes "list_all key_in_model ks" "distinct (map key_slot ks)"
  shows "length ks \<le> kMaxKeys"
proof -
  have "key_slot k < kMaxKeys" if "key_in_model k" for k
  proof -
    have "Suc (unat (layer k)) * kRoutedExperts \<le> kMaxKeys"
      unfolding kMaxKeys_def using that by (intro mult_le_mono1) (simp add: key_in_model_def)
    then show ?thesis using that by (simp add: key_slot_def key_in_model_def)
  qed
  then have "set (map key_slot ks) \<subseteq> {..<kMaxKeys}" using assms(1) by (auto simp: list_all_iff)
  then have "card (set (map key_slot ks)) \<le> kMaxKeys" by (metis card_lessThan card_mono finite_lessThan)
  then show ?thesis unfolding distinct_card [OF assms(2)] by simp
qed

text \<open>The keys that are saved are always keys the writer accepts.\<close>

lemma newest_first_valid:
  assumes "store_inv st" "st_layers st \<le> kNumLayers" "st_experts_per_layer st \<le> kRoutedExperts" "newest_first st \<noteq> []"
  shows "valid_keys (newest_first st) (sp_slot_count (st_pool st))"
proof -
  have m: "list_all key_in_model (newest_first st)"
    using saved_keys_in_model [OF assms(1-3)] by (auto simp: list_all_iff set_newest_first)
  have d: "distinct (map key_slot (newest_first st))" by (rule distinct_key_slots [OF m distinct_newest_first [OF assms(1)]])
  have "length (newest_first st) \<le> unat (sp_slot_count (st_pool st))"
    by (simp add: newest_first_slots saved_slots_def) (rule order_trans [OF length_filter_le], simp)
  then show ?thesis using assms(4) m d few_key_slots [OF m d] by (simp add: valid_keys_def keys_ok_iff)
qed

definition os_fine :: os_answers where
  "os_fine = \<lparr>os_mkdir = True, os_open = True, os_write = True, os_close = True, os_rename = True\<rparr>"

lemma save_then_read:
  assumes "valid_keys (newest_first st) (sp_slot_count (st_pool st))" "fs (path @ ''.tmp'') = None"
  shows "save_resident_ids os_fine path identity st fs
      = (Inr (), fs(path \<mapsto> cache_file_bytes identity (sp_slot_count (st_pool st)) (newest_first st)))"
  using assms by (auto simp: save_resident_ids_def write_expert_cache_state_def os_fine_def valid_keys_def Let_def fun_upd_idem)

lemma saved_slots_all:
  "length (st_slots st) = unat (sp_slot_count (st_pool st)) \<Longrightarrow>
     set (saved_slots st) = {s \<in> set (st_slots st). es_state s = Resident \<and> es_tier s \<noteq> Pinned}"
  by (auto simp: saved_slots_def)

text \<open>When nothing stands in the way of a save: a plain session and a destination outside every checkpoint.\<close>

definition may_save :: "save_context \<Rightarrow> u64 \<Rightarrow> store \<Rightarrow> bool" where
  "may_save ctx identity st \<longleftrightarrow>
     sv_gpu_ready ctx \<and> sv_produce_ced ctx \<and> \<not> sv_resident_only ctx \<and> \<not> sv_speculation ctx \<and> sv_streams ctx = 1
     \<and> \<not> st_fixed_cache st \<and> (\<exists>dest. sv_destination ctx = Some dest \<and> (\<forall>r \<in> set (sv_roots ctx). \<exists>dir. r = Some dir \<and> \<not> prefix dir dest))
     \<and> sv_identity ctx = Inr identity"

lemma outside_roots_iff: "outside_roots dest rs = Inr () \<longleftrightarrow> (\<forall>r \<in> set rs. \<exists>dir. r = Some dir \<and> \<not> prefix dir dest)"
  by (induction dest rs rule: outside_roots.induct) auto

lemma may_save_saves:
  assumes "may_save ctx identity st" "save_resident_ids os path identity (settle st) fs = (r, fs')"
  shows "save_expert_cache os ctx settle path st fs = (r, settle st, fs')"
proof -
  obtain dest where "sv_destination ctx = Some dest" "outside_roots dest (sv_roots ctx) = Inr ()"
    using assms(1) unfolding may_save_def outside_roots_iff by blast
  then show ?thesis using assms by (simp add: may_save_def save_expert_cache_def)
qed

lemma saved_ids_exact:
  assumes "reachable st0" "store_init alloc cache l x st0 = (Inr (), st1)" "store_steps st1 ops st"
    and "st_layers st \<le> kNumLayers" "st_experts_per_layer st \<le> kRoutedExperts"
    and "\<exists>s \<in> set (st_slots st). es_state s = Resident \<and> es_tier s \<noteq> Pinned" "fs (path @ ''.tmp'') = None"
  shows "\<exists>bs keys. save_resident_ids os_fine path identity st fs = (Inr (), fs(path \<mapsto> bs))
     \<and> read_expert_cache_state path identity (sp_slot_count (st_pool st)) (fs(path \<mapsto> bs)) = Inr keys \<and> distinct keys
     \<and> set keys = {es_key s |s. s \<in> set (st_slots st) \<and> es_state s = Resident \<and> es_tier s \<noteq> Pinned}"
proof -
  have "reachable st1" by (rule reach_init [OF assms(1,2)])
  then have inv: "store_inv st" using steps_reachable [OF assms(3)] by (blast intro: reachable_store_inv)
  have "length (st_slots st) = unat (sp_slot_count (st_pool st))"
    using slots_at_pool_addresses(4) [OF assms(2,3), of 0] assms(6) by force
  then have keys: "set (newest_first st) = {es_key s |s. s \<in> set (st_slots st) \<and> es_state s = Resident \<and> es_tier s \<noteq> Pinned}"
    by (auto simp: set_newest_first saved_slots_all)
  have "newest_first st \<noteq> []" using assms(6) keys by force
  then have v: "valid_keys (newest_first st) (sp_slot_count (st_pool st))" by (rule newest_first_valid [OF inv assms(4,5)])
  let ?bs = "cache_file_bytes identity (sp_slot_count (st_pool st)) (newest_first st)"
  have "read_expert_cache_state path identity (sp_slot_count (st_pool st)) (fs(path \<mapsto> ?bs)) = Inr (newest_first st)"
    by (rule read_written [OF v]) simp
  moreover have "save_resident_ids os_fine path identity st fs = (Inr (), fs(path \<mapsto> ?bs))" by (rule save_then_read) (use v assms(7) in auto)
  ultimately show ?thesis using distinct_newest_first [OF inv] keys by blast
qed

lemma nothing_to_save:
  assumes "\<not> (\<exists>s \<in> set (st_slots st). es_state s = Resident \<and> es_tier s \<noteq> Pinned)"
  shows "save_resident_ids os path identity st fs = (Inr (), fs)"
proof -
  have "saved_slots st = []" using assms by (auto simp: saved_slots_def filter_empty_conv dest: in_set_takeD)
  then show ?thesis by (simp add: save_resident_ids_def newest_first_slots)
qed

text \<open>
  C39. The hints of a restart. In fixed mode the save is refused and nothing changes. In a plain session
  with a destination outside every checkpoint, after a successful init and any store operations, and
  when the operating system refuses nothing: if no unpinned expert is resident once the engine is
  drained, the save succeeds and leaves the old file; otherwise it succeeds, changes no other file,
  and its file is read back as a list without repetitions of exactly the resident, unpinned experts.
\<close>

theorem restart_hints_exact:
  assumes "reachable st0" "store_init alloc cache l x st0 = (Inr (), st1)" "store_steps st1 ops st" "store_steps st drained (settle st)"
    and "st_layers (settle st) \<le> kNumLayers" "st_experts_per_layer (settle st) \<le> kRoutedExperts" "fs (path @ ''.tmp'') = None"
  shows "(st_fixed_cache st \<longrightarrow> save_expert_cache os_fine ctx settle path st fs = (Inl FailedPrecondition, st, fs))
    \<and> (may_save ctx identity st \<longrightarrow>
        (if \<exists>s \<in> set (st_slots (settle st)). es_state s = Resident \<and> es_tier s \<noteq> Pinned
         then \<exists>bs keys. save_expert_cache os_fine ctx settle path st fs = (Inr (), settle st, fs(path \<mapsto> bs))
           \<and> read_expert_cache_state path identity (sp_slot_count (st_pool (settle st))) (fs(path \<mapsto> bs)) = Inr keys \<and> distinct keys
           \<and> set keys = {es_key s |s. s \<in> set (st_slots (settle st)) \<and> es_state s = Resident \<and> es_tier s \<noteq> Pinned}
         else save_expert_cache os_fine ctx settle path st fs = (Inr (), settle st, fs)))"
proof (intro conjI impI)
  show "save_expert_cache os_fine ctx settle path st fs = (Inl FailedPrecondition, st, fs)" if "st_fixed_cache st"
    using that by (simp add: save_expert_cache_def)
  assume m: "may_save ctx identity st"
  have "store_steps st1 (ops @ drained) (settle st)" using assms(3,4) store_steps_append by blast
  note x = saved_ids_exact [where fs = fs and path = path and identity = identity, OF assms(1,2) this assms(5,6) _ assms(7)]
  show "if \<exists>s \<in> set (st_slots (settle st)). es_state s = Resident \<and> es_tier s \<noteq> Pinned
         then \<exists>bs keys. save_expert_cache os_fine ctx settle path st fs = (Inr (), settle st, fs(path \<mapsto> bs))
           \<and> read_expert_cache_state path identity (sp_slot_count (st_pool (settle st))) (fs(path \<mapsto> bs)) = Inr keys \<and> distinct keys
           \<and> set keys = {es_key s |s. s \<in> set (st_slots (settle st)) \<and> es_state s = Resident \<and> es_tier s \<noteq> Pinned}
         else save_expert_cache os_fine ctx settle path st fs = (Inr (), settle st, fs)"
  proof (cases "\<exists>s \<in> set (st_slots (settle st)). es_state s = Resident \<and> es_tier s \<noteq> Pinned")
    case True
    then obtain bs keys where "save_resident_ids os_fine path identity (settle st) fs = (Inr (), fs(path \<mapsto> bs))"
        "read_expert_cache_state path identity (sp_slot_count (st_pool (settle st))) (fs(path \<mapsto> bs)) = Inr keys" "distinct keys"
        "set keys = {es_key s |s. s \<in> set (st_slots (settle st)) \<and> es_state s = Resident \<and> es_tier s \<noteq> Pinned}"
      using x by blast
    then show ?thesis using True may_save_saves [OF m] by auto
  next
    case False
    then have "save_expert_cache os_fine ctx settle path st fs = (Inr (), settle st, fs)"
      by (intro may_save_saves [OF m] nothing_to_save)
    with False show ?thesis by (simp only: if_False)
  qed
qed

theorem restart_hints_exact_witness:
  "\<exists>bs keys. save_expert_cache os_fine \<lparr>sv_gpu_ready = True, sv_produce_ced = True, sv_resident_only = False, sv_speculation = False,
       sv_streams = 1, sv_destination = Some [''var'', ''state''], sv_roots = [Some [''models'']], sv_identity = Inr 7\<rparr>
       id ''state'' demo_resident Map.empty = (Inr (), demo_resident, [''state'' \<mapsto> bs])
     \<and> read_expert_cache_state ''state'' 7 (sp_slot_count (st_pool demo_resident)) [''state'' \<mapsto> bs] = Inr keys \<and> distinct keys
     \<and> set keys = {es_key s |s. s \<in> set (st_slots demo_resident) \<and> es_state s = Resident \<and> es_tier s \<noteq> Pinned}"
proof -
  let ?ctx = "\<lparr>sv_gpu_ready = True, sv_produce_ced = True, sv_resident_only = False, sv_speculation = False,
       sv_streams = 1, sv_destination = Some [''var'', ''state''], sv_roots = [Some [''models'']], sv_identity = Inr 7\<rparr> :: save_context"
  have init: "store_init demo_backing demo_cache 1 2 empty_store = (Inr (), demo_store)"
    by (simp add: demo_store_def store_init_def demo_cache_def empty_store_def demo_pool two_facts two_not_le_one
        pool_address_def decompose_def Let_def)
  have steps: "store_steps demo_store (([] @ [OpBeginSynthetic demo_key Cached]) @ [OpFinishFill 0 True 5]) demo_resident"
    unfolding demo_resident_def demo_filling_def by (intro steps_step steps_refl) simp_all
  have m: "may_save ?ctx 7 demo_resident" by (simp add: may_save_def demo_resident_unfrozen)
  have some: "\<exists>s \<in> set (st_slots (id demo_resident)). es_state s = Resident \<and> es_tier s \<noteq> Pinned"
    by (simp add: demo_resident_facts demo_slot_def default_slot_def)
  have dims: "st_layers (id demo_resident) \<le> kNumLayers" "st_experts_per_layer (id demo_resident) \<le> kRoutedExperts"
    by (simp_all add: demo_resident_facts kNumLayers_def kRoutedExperts_def)
  have stay: "store_steps demo_resident [] (id demo_resident)" by (simp add: steps_refl)
  from restart_hints_exact [where settle = id and fs = Map.empty and path = "''state''" and ctx = ?ctx and identity = 7,
      OF reach_empty init steps stay dims] m some
  show ?thesis by simp
qed

end
