(* ===== verification/Utf8.thy ===== *)
theory Utf8
  imports Json
begin

text \<open>
  The UTF-8 helpers of \<^verbatim>\<open>text/tokenizer.cpp\<close>. A position in a text is the part of the text from there
  on. The facts that the tokenizer rests on: reading a code point and writing it again gives the same
  bytes, lossy decoding starts afresh at every byte that is not a continuation byte, and holding back
  an incomplete end loses nothing.
\<close>

section \<open>Reading a code point\<close>

datatype u8_status = U8Ok | U8Invalid | U8Incomplete

text \<open>The lead byte: how many bytes, the bits it carries and the range of the second byte.\<close>

definition utf8_lead :: "nat \<Rightarrow> (nat \<times> nat \<times> nat \<times> nat) option" where
  "utf8_lead b0 =
     (if b0 \<ge> 0xC2 \<and> b0 \<le> 0xDF then Some (2, b0 AND 0x1F, 0x80, 0xBF)
      else if b0 = 0xE0 then Some (3, b0 AND 0x0F, 0xA0, 0xBF)
      else if b0 \<ge> 0xE1 \<and> b0 \<le> 0xEC then Some (3, b0 AND 0x0F, 0x80, 0xBF)
      else if b0 = 0xED then Some (3, b0 AND 0x0F, 0x80, 0x9F)
      else if b0 \<ge> 0xEE \<and> b0 \<le> 0xEF then Some (3, b0 AND 0x0F, 0x80, 0xBF)
      else if b0 = 0xF0 then Some (4, b0 AND 0x07, 0x90, 0xBF)
      else if b0 \<ge> 0xF1 \<and> b0 \<le> 0xF3 then Some (4, b0 AND 0x07, 0x80, 0xBF)
      else if b0 = 0xF4 then Some (4, b0 AND 0x07, 0x80, 0x8F)
      else None)"

fun utf8_rest :: "nat \<Rightarrow> nat \<Rightarrow> nat \<Rightarrow> nat \<Rightarrow> nat \<Rightarrow> string \<Rightarrow> u8_status \<times> nat \<times> nat" where
  "utf8_rest k n lo hi cp s =
     (if k \<ge> n then (U8Ok, cp, n)
      else case s of
             [] \<Rightarrow> (U8Incomplete, cp, k)
           | c # s' \<Rightarrow>
               let b = byte c; l = (if k = 1 then lo else 0x80); h = (if k = 1 then hi else 0xBF) in
               if b < l \<or> b > h then (U8Invalid, cp, k)
               else utf8_rest (k + 1) n lo hi (push_bit 6 cp OR (b AND 0x3F)) s')"

declare utf8_rest.simps [simp del]

definition utf8_next :: "string \<Rightarrow> u8_status \<times> nat \<times> nat" where
  "utf8_next s =
     (let b0 = byte (hd s) in
      if b0 < 0x80 then (U8Ok, b0, 1)
      else case utf8_lead b0 of
             None \<Rightarrow> (U8Invalid, 0, 1)
           | Some (n, cp, lo, hi) \<Rightarrow> utf8_rest 1 n lo hi cp (tl s))"

lemma utf8_rest_len:
  "utf8_rest k n lo hi cp s = (r, c, len) \<Longrightarrow> k \<le> n \<Longrightarrow>
     k \<le> len \<and> len \<le> k + length s \<and> (r = U8Incomplete \<longrightarrow> len = k + length s)"
proof (induction s arbitrary: k cp)
  case Nil
  then show ?case by (auto simp: utf8_rest.simps split: if_splits)
next
  case (Cons b s)
  show ?case
  proof (cases "k < n \<and> utf8_rest k n lo hi cp (b # s) = utf8_rest (k + 1) n lo hi (push_bit 6 cp OR (byte b AND 0x3F)) s")
    case True
    then show ?thesis using Cons.prems(1) Cons.IH [of "k + 1"] by fastforce
  next
    case False
    then show ?thesis using Cons.prems by (auto simp: utf8_rest.simps [of k] Let_def split: if_splits)
  qed
qed

lemma utf8_lead_count: "utf8_lead b0 = Some (n, cp, lo, hi) \<Longrightarrow> 2 \<le> n \<and> n \<le> 4 \<and> 0x80 \<le> lo \<and> hi \<le> 0xBF \<and> 0x80 \<le> b0"
  by (auto simp: utf8_lead_def split: if_splits)

lemma utf8_next_len:
  assumes "utf8_next s = (r, cp, len)"
  shows "1 \<le> len" "s \<noteq> [] \<Longrightarrow> len \<le> length s" "s \<noteq> [] \<Longrightarrow> r = U8Incomplete \<Longrightarrow> len = length s"
proof -
  have "1 \<le> len \<and> (s \<noteq> [] \<longrightarrow> len \<le> length s \<and> (r = U8Incomplete \<longrightarrow> len = length s))"
  proof (cases "byte (hd s) < 0x80 \<or> utf8_lead (byte (hd s)) = None")
    case True
    then show ?thesis using assms by (cases s) (auto simp: utf8_next_def Let_def split: if_splits)
  next
    case False
    then obtain n a lo hi where l: "utf8_lead (byte (hd s)) = Some (n, a, lo, hi)"
      and r: "utf8_rest 1 n lo hi a (tl s) = (r, cp, len)"
      using assms by (auto simp: utf8_next_def)
    show ?thesis using utf8_rest_len [OF r] utf8_lead_count [OF l] by (cases s) auto
  qed
  then show "1 \<le> len" "s \<noteq> [] \<Longrightarrow> len \<le> length s" "s \<noteq> [] \<Longrightarrow> r = U8Incomplete \<Longrightarrow> len = length s" by simp_all
qed

section \<open>Lossy decoding\<close>

definition replacement :: string where
  "replacement = [CHR 0xEF, CHR 0xBF, CHR 0xBD]"

function utf8_lossy :: "bool \<Rightarrow> string \<Rightarrow> string \<times> nat" where
  "utf8_lossy hold s =
     (if s = [] then ([], 0)
      else case utf8_next s of
             (r, cp, len) \<Rightarrow>
               if r = U8Incomplete \<and> hold then ([], length s)
               else let (out, held) = utf8_lossy hold (drop len s)
                    in (if r = U8Ok then (take len s @ out, held) else (replacement @ out, held)))"
  by pat_completeness auto
termination
  by (relation "measure (length \<circ> snd)") (auto dest: utf8_next_len(1) [OF sym])

declare utf8_lossy.simps [simp del]

text \<open>The loop of \<^verbatim>\<open>encode_text\<close> that reads the code points, bad sequences as U+FFFD.\<close>

function code_points :: "string \<Rightarrow> nat list" where
  "code_points s =
     (if s = [] then []
      else case utf8_next s of
             (r, cp, len) \<Rightarrow> (if r = U8Ok then cp else 0xFFFD) # code_points (drop len s))"
  by pat_completeness auto
termination
  by (relation "measure length") (auto dest: utf8_next_len(1) [OF sym])

declare code_points.simps [simp del]

section \<open>Reading and writing\<close>

lemma nat_or_disjoint: "x < 2 ^ n \<Longrightarrow> (a * 2 ^ n) OR x = a * 2 ^ n + (x :: nat)"
proof -
  assume "x < 2 ^ n"
  then have "x = take_bit n x" by (simp add: take_bit_nat_eq_self)
  then have "\<not> bit (push_bit n a) i \<or> \<not> bit x i" for i by (metis bit_push_bit_iff bit_take_bit_iff not_less)
  then have "push_bit n a + x = push_bit n a OR x" by (rule disjunctive_add)
  then show ?thesis by (simp add: push_bit_eq_mult)
qed

lemma nat_and_low:
  "(b :: nat) AND 0x1F = b mod 32" "b AND 0x0F = b mod 16" "b AND 0x07 = b mod 8" "b AND 0x3F = b mod 64"
  using take_bit_eq_mask [of 5 b] take_bit_eq_mask [of 4 b] take_bit_eq_mask [of 3 b] take_bit_eq_mask [of 6 b]
  by (simp_all add: mask_eq_exp_minus_1 take_bit_eq_mod and.commute)

lemma nat_or_lead:
  "x < 32 \<Longrightarrow> 0xC0 OR x = 0xC0 + (x :: nat)" "x < 16 \<Longrightarrow> 0xE0 OR x = 0xE0 + x" "x < 8 \<Longrightarrow> 0xF0 OR x = 0xF0 + x"
  "x < 64 \<Longrightarrow> 0x80 OR x = 0x80 + x"
  using nat_or_disjoint [of x 5 6] nat_or_disjoint [of x 4 14] nat_or_disjoint [of x 3 30] nat_or_disjoint [of x 6 2]
  by simp_all

lemma nat_shift_in: "push_bit 6 cp OR (b mod 64) = cp * 64 + b mod (64 :: nat)"
  using nat_or_disjoint [of "b mod 64" 6 cp] by (simp add: push_bit_eq_mult)

definition continuation :: "char \<Rightarrow> bool" where
  "continuation c \<longleftrightarrow> 0x80 \<le> byte c \<and> byte c \<le> 0xBF"

text \<open>What a successful read has read, and the bytes of a code point by arithmetic.\<close>

lemma utf8_append_arith:
  "cp < 0x80 \<Longrightarrow> utf8_append cp = [char_of cp]"
  "0x80 \<le> cp \<Longrightarrow> cp < 0x800 \<Longrightarrow> utf8_append cp = [char_of (0xC0 + cp div 64), char_of (0x80 + cp mod 64)]"
  "0x800 \<le> cp \<Longrightarrow> cp < 0x10000 \<Longrightarrow>
     utf8_append cp = [char_of (0xE0 + cp div 4096), char_of (0x80 + cp div 64 mod 64), char_of (0x80 + cp mod 64)]"
  "0x10000 \<le> cp \<Longrightarrow> cp < 0x200000 \<Longrightarrow>
     utf8_append cp = [char_of (0xF0 + cp div 262144), char_of (0x80 + cp div 4096 mod 64), char_of (0x80 + cp div 64 mod 64),
                       char_of (0x80 + cp mod 64)]"
  by (simp_all add: utf8_append_def nat_and_low nat_or_lead drop_bit_eq_div less_mult_imp_div_less)

lemma utf8_rest_2:
  "utf8_rest 1 2 lo hi a s = (U8Ok, cp, len) \<longleftrightarrow>
     (\<exists>c s'. s = c # s' \<and> lo \<le> byte c \<and> byte c \<le> hi \<and> cp = a * 64 + byte c mod 64 \<and> len = 2)"
  by (cases s) (auto simp: utf8_rest.simps Let_def nat_and_low nat_shift_in)

lemma utf8_rest_3:
  "utf8_rest 1 3 lo hi a s = (U8Ok, cp, len) \<longleftrightarrow>
     (\<exists>c d s'. s = c # d # s' \<and> lo \<le> byte c \<and> byte c \<le> hi \<and> continuation d
        \<and> cp = (a * 64 + byte c mod 64) * 64 + byte d mod 64 \<and> len = 3)"
  by (cases s; cases "tl s") (auto simp: utf8_rest.simps Let_def nat_and_low nat_shift_in continuation_def)

lemma utf8_rest_4:
  "utf8_rest 1 4 lo hi a s = (U8Ok, cp, len) \<longleftrightarrow>
     (\<exists>c d f s'. s = c # d # f # s' \<and> lo \<le> byte c \<and> byte c \<le> hi \<and> continuation d \<and> continuation f
        \<and> cp = ((a * 64 + byte c mod 64) * 64 + byte d mod 64) * 64 + byte f mod 64 \<and> len = 4)"
  by (cases s; cases "tl s"; cases "tl (tl s)")
    (auto simp: utf8_rest.simps Let_def nat_and_low nat_shift_in continuation_def)

text \<open>Writing what was read gives the bytes that were read.\<close>

lemma digits_64:
  "z < 64 \<Longrightarrow> (a * 64 + z) div 64 = (a :: nat)" "z < 64 \<Longrightarrow> (a * 64 + z) mod 64 = z"
  "z < 64 \<Longrightarrow> (a * 64 + z) div 4096 = a div 64" "z < 64 \<Longrightarrow> (a * 64 + z) div 262144 = a div 64 div 64"
  using div_mult2_eq [of "a * 64 + z" 64 64] div_mult2_eq [of "a * 64 + z" 64 4096] div_mult2_eq [of a 64 64] by simp_all

lemma mod_block: "k * m \<le> x \<Longrightarrow> x < k * m + m \<Longrightarrow> k * m + x mod m = (x :: nat)"
proof -
  assume "k * m \<le> x" "x < k * m + m"
  then have "x div m = k" by (intro div_nat_eqI) (simp_all add: mult.commute)
  then show ?thesis using div_mult_mod_eq [of x m] by simp
qed

lemma continuation_bits: "continuation c \<Longrightarrow> 0x80 + byte c mod 64 = byte c"
  using mod_block [of 2 64 "byte c"] by (simp add: continuation_def)

lemma byte_split: "continuation c \<Longrightarrow> char_of (0x80 + byte c mod 64) = c"
  by (simp add: continuation_bits)

lemma append_read_2:
  assumes "0xC2 \<le> byte b" "byte b \<le> 0xDF" "continuation c"
  shows "utf8_append (byte b mod 32 * 64 + byte c mod 64) = [b, c]"
proof -
  define x y where "x = byte b mod 32" and "y = byte c mod 64"
  have xb: "0xC0 + x = byte b" using mod_block [of 6 32 "byte b"] assms(1,2) by (simp add: x_def)
  have small: "x < 32" "y < 64" by (simp_all add: x_def y_def)
  then have "0x80 \<le> x * 64 + y" "x * 64 + y < 0x800" using xb assms(1) by linarith+
  from utf8_append_arith(2) [OF this] show ?thesis
    using byte_split [OF assms(3)] small xb by (simp add: digits_64 flip: x_def y_def)
qed

lemma append_read_3:
  assumes "0xE0 \<le> byte b" "byte b \<le> 0xEF" "continuation c" "continuation d" "byte b = 0xE0 \<longrightarrow> 0xA0 \<le> byte c"
  shows "utf8_append ((byte b mod 16 * 64 + byte c mod 64) * 64 + byte d mod 64) = [b, c, d]"
proof -
  define x y z where "x = byte b mod 16" and "y = byte c mod 64" and "z = byte d mod 64"
  have xb: "0xE0 + x = byte b" using mod_block [of 14 16 "byte b"] assms(1,2) by (simp add: x_def)
  have small: "x < 16" "y < 64" "z < 64" by (simp_all add: x_def y_def z_def)
  have "x = 0 \<longrightarrow> 32 \<le> y" using assms(5) xb continuation_bits [OF assms(3)] by (auto simp: y_def)
  then have r: "0x800 \<le> (x * 64 + y) * 64 + z" "(x * 64 + y) * 64 + z < 0x10000" using small by (cases "x = 0", auto)+
  have "((x * 64 + y) * 64 + z) div 4096 = x" "((x * 64 + y) * 64 + z) div 64 mod 64 = y" "((x * 64 + y) * 64 + z) mod 64 = z"
    using small by (simp_all only: digits_64)
  then show ?thesis
    using byte_split [OF assms(3)] byte_split [OF assms(4)] utf8_append_arith(3) [OF r] xb
    by (simp flip: x_def y_def z_def)
qed

lemma append_read_4:
  assumes "0xF0 \<le> byte b" "byte b \<le> 0xF4" "continuation c" "continuation d" "continuation f" "byte b = 0xF0 \<longrightarrow> 0x90 \<le> byte c"
  shows "utf8_append (((byte b mod 8 * 64 + byte c mod 64) * 64 + byte d mod 64) * 64 + byte f mod 64) = [b, c, d, f]"
proof -
  define x y z w where "x = byte b mod 8" and "y = byte c mod 64" and "z = byte d mod 64" and "w = byte f mod 64"
  have xb: "0xF0 + x = byte b" using mod_block [of 30 8 "byte b"] assms(1,2) by (simp add: x_def)
  have small: "x < 8" "y < 64" "z < 64" "w < 64" by (simp_all add: x_def y_def z_def w_def)
  have "x = 0 \<longrightarrow> 16 \<le> y" using assms(6) xb continuation_bits [OF assms(3)] by (auto simp: y_def)
  then have r: "0x10000 \<le> ((x * 64 + y) * 64 + z) * 64 + w" "((x * 64 + y) * 64 + z) * 64 + w < 0x200000" using small by (cases "x = 0", auto)+
  have "(((x * 64 + y) * 64 + z) * 64 + w) div 262144 = x" "(((x * 64 + y) * 64 + z) * 64 + w) div 4096 mod 64 = y"
    "(((x * 64 + y) * 64 + z) * 64 + w) div 64 mod 64 = z" "(((x * 64 + y) * 64 + z) * 64 + w) mod 64 = w"
    using small by (simp_all only: digits_64)
  then show ?thesis
    using byte_split [OF assms(3)] byte_split [OF assms(4)] byte_split [OF assms(5)] utf8_append_arith(4) [OF r] xb
    by (simp flip: x_def y_def z_def w_def)
qed

lemma utf8_lead_cases:
  "utf8_lead b = Some (n, a, lo, hi) \<Longrightarrow> 0x80 \<le> lo \<and> hi \<le> 0xBF \<and>
     (n = 2 \<and> 0xC2 \<le> b \<and> b \<le> 0xDF \<and> a = b mod 32
      \<or> n = 3 \<and> 0xE0 \<le> b \<and> b \<le> 0xEF \<and> a = b mod 16 \<and> (b = 0xE0 \<longrightarrow> 0xA0 \<le> lo)
      \<or> n = 4 \<and> 0xF0 \<le> b \<and> b \<le> 0xF4 \<and> a = b mod 8 \<and> (b = 0xF0 \<longrightarrow> 0x90 \<le> lo))"
  by (auto simp: utf8_lead_def nat_and_low split: if_splits)

lemma utf8_next_Ok:
  assumes "s \<noteq> []" "utf8_next s = (U8Ok, cp, len)"
  shows "utf8_append cp = take len s" "len \<le> length s" "\<not> continuation (hd s)"
proof -
  obtain b t where s: "s = b # t" using assms(1) by (cases s) auto
  have "utf8_append cp = take len s \<and> len \<le> length s \<and> \<not> continuation b"
  proof (cases "byte b < 0x80")
    case True
    then have "cp = byte b" "len = 1" using assms(2) by (simp_all add: s utf8_next_def)
    then show ?thesis using True by (simp add: s utf8_append_arith(1) continuation_def)
  next
    case False
    then obtain n a lo hi where l: "utf8_lead (byte b) = Some (n, a, lo, hi)" and r: "utf8_rest 1 n lo hi a t = (U8Ok, cp, len)"
      using assms(2) by (auto simp: s utf8_next_def split: option.splits)
    have b: "\<not> continuation b" using l by (auto simp: utf8_lead_def continuation_def split: if_splits)
    have range: "0x80 \<le> lo" "hi \<le> 0xBF" using utf8_lead_cases [OF l] by simp_all
    consider (two) "n = 2" "0xC2 \<le> byte b" "byte b \<le> 0xDF" "a = byte b mod 32"
      | (three) "n = 3" "0xE0 \<le> byte b" "byte b \<le> 0xEF" "a = byte b mod 16" "byte b = 0xE0 \<longrightarrow> 0xA0 \<le> lo"
      | (four) "n = 4" "0xF0 \<le> byte b" "byte b \<le> 0xF4" "a = byte b mod 8" "byte b = 0xF0 \<longrightarrow> 0x90 \<le> lo"
      using utf8_lead_cases [OF l] by blast
    then show ?thesis
    proof cases
      case two
      obtain c t' where c: "t = c # t'" "lo \<le> byte c" "byte c \<le> hi" "cp = a * 64 + byte c mod 64" "len = 2"
        using r [unfolded two(1) utf8_rest_2] by blast
      have "utf8_append cp = [b, c]"
        unfolding c(4) two(4) using two c range by (intro append_read_2) (simp_all add: continuation_def)
      then show ?thesis using b c by (simp add: s)
    next
      case three
      obtain c d t' where c: "t = c # d # t'" "lo \<le> byte c" "byte c \<le> hi" "continuation d"
        "cp = (a * 64 + byte c mod 64) * 64 + byte d mod 64" "len = 3"
        using r [unfolded three(1) utf8_rest_3] by blast
      have "utf8_append cp = [b, c, d]"
        unfolding c(5) three(4) using three c(2-4) range by (intro append_read_3) (auto simp: continuation_def)
      then show ?thesis using b c by (simp add: s)
    next
      case four
      obtain c d f t' where c: "t = c # d # f # t'" "lo \<le> byte c" "byte c \<le> hi" "continuation d" "continuation f"
        "cp = ((a * 64 + byte c mod 64) * 64 + byte d mod 64) * 64 + byte f mod 64" "len = 4"
        using r [unfolded four(1) utf8_rest_4] by blast
      have "utf8_append cp = [b, c, d, f]"
        unfolding c(6) four(4) using four c(2-5) range by (intro append_read_4) (auto simp: continuation_def)
      then show ?thesis using b c by (simp add: s)
    qed
  qed
  then show "utf8_append cp = take len s" "len \<le> length s" "\<not> continuation (hd s)" by (simp_all add: s)
qed

lemma append_replacement: "utf8_append 0xFFFD = replacement"
  by (subst utf8_append_arith(3)) (simp_all add: replacement_def char_of_def bit_0)

lemma code_points_write: "concat (map utf8_append (code_points s)) = fst (utf8_lossy False s)"
proof (induction s rule: code_points.induct)
  case (1 s)
  show ?case
  proof (cases "s = []")
    case False
    obtain r cp len where u: "utf8_next s = (r, cp, len)" by (metis prod_cases3)
    show ?thesis using 1 [OF False u [symmetric] refl] utf8_next_Ok(1) [OF False] u False
      by (cases "r = U8Ok") (simp_all add: code_points.simps [of s] utf8_lossy.simps [of _ s] append_replacement split_beta Let_def)
  qed (simp add: code_points.simps utf8_lossy.simps)
qed

section \<open>Boundaries\<close>

lemma utf8_rest_done: "n \<le> k \<Longrightarrow> utf8_rest k n lo hi cp s = (U8Ok, cp, n)"
  by (simp add: utf8_rest.simps)

lemma utf8_rest_append:
  "utf8_rest k n lo hi cp s = (r, c, len) \<Longrightarrow> r \<noteq> U8Incomplete \<Longrightarrow> utf8_rest k n lo hi cp (s @ q) = (r, c, len)"
proof (induction s arbitrary: k cp)
  case Nil
  then show ?case by (auto simp: utf8_rest.simps [of k] split: if_splits)
next
  case (Cons b s)
  then show ?case
    by (cases "k < n") (auto simp: utf8_rest.simps [of k] Let_def simp del: utf8_rest.simps split: if_splits)
qed

lemma utf8_rest_cut:
  "utf8_rest k n lo hi cp s = (U8Incomplete, c, len) \<Longrightarrow> k \<le> n \<Longrightarrow> 0x80 \<le> lo \<Longrightarrow> hi \<le> 0xBF \<Longrightarrow> \<not> continuation d \<Longrightarrow>
     \<exists>c'. utf8_rest k n lo hi cp (s @ d # q) = (U8Invalid, c', len)"
proof (induction s arbitrary: k cp)
  case Nil
  then have "k < n" "len = k" by (auto simp: utf8_rest.simps [of k] split: if_splits)
  moreover have "byte d < lo \<or> byte d > hi" "byte d < 0x80 \<or> byte d > 0xBF"
    using Nil.prems(3-5) by (auto simp: continuation_def)
  ultimately show ?case by (auto simp: utf8_rest.simps [of k] Let_def)
next
  case (Cons b s)
  then show ?case
    by (cases "k < n") (auto simp: utf8_rest.simps [of k] Let_def simp del: utf8_rest.simps split: if_splits)
qed

lemma utf8_rest_take:
  "utf8_rest k n lo hi cp s = (U8Ok, c, len) \<Longrightarrow> k \<le> n \<Longrightarrow> utf8_rest k n lo hi cp (take (n - k) s) = (U8Ok, c, len)"
proof (induction s arbitrary: k cp)
  case (Cons b s)
  show ?case
  proof (cases "k < n")
    case True
    then have "n - k = Suc (n - Suc k)" by simp
    then show ?thesis using Cons.prems Cons.IH [of "Suc k"] True by (auto simp: utf8_rest.simps [of k] Let_def split: if_splits)
  next
    case False
    then show ?thesis using Cons.prems by (simp add: utf8_rest_done)
  qed
qed simp

lemma utf8_rest_Ok_len: "utf8_rest k n lo hi cp s = (U8Ok, c, len) \<Longrightarrow> len = n"
proof (induction s arbitrary: k cp)
  case Nil
  then show ?case by (auto simp: utf8_rest.simps [of k] split: if_splits)
next
  case (Cons b s)
  then show ?case by (auto simp: utf8_rest.simps [of k] Let_def split: if_splits)
qed

lemma utf8_next_append:
  assumes "s \<noteq> []" "utf8_next s = (r, cp, len)" "r \<noteq> U8Incomplete"
  shows "utf8_next (s @ q) = (r, cp, len)"
  using assms by (cases s) (auto simp: utf8_next_def Let_def utf8_rest_append split: if_splits option.splits)

lemma utf8_next_cut:
  assumes "s \<noteq> []" "utf8_next s = (U8Incomplete, cp, len)" "\<not> continuation d"
  shows "\<exists>c'. utf8_next (s @ d # q) = (U8Invalid, c', length s)"
proof -
  obtain b t where s: "s = b # t" using assms(1) by (cases s) auto
  obtain n a lo hi where l: "utf8_lead (byte b) = Some (n, a, lo, hi)" and b: "\<not> byte b < 0x80"
    and r: "utf8_rest 1 n lo hi a t = (U8Incomplete, cp, len)"
    using assms(2) by (auto simp: s utf8_next_def Let_def split: if_splits option.splits)
  have "len = length s" using utf8_next_len(3) [OF assms(2,1)] by simp
  then show ?thesis
    using utf8_rest_cut [OF r _ _ _ assms(3), of q] utf8_lead_count [OF l] b l by (simp add: s utf8_next_def)
qed

lemma utf8_next_take:
  assumes "s \<noteq> []" "utf8_next s = (U8Ok, cp, len)"
  shows "utf8_next (take len s) = (U8Ok, cp, len)"
proof -
  obtain b t where s: "s = b # t" using assms(1) by (cases s) auto
  show ?thesis
  proof (cases "byte b < 0x80")
    case True
    then show ?thesis using assms(2) by (auto simp: s utf8_next_def)
  next
    case False
    then obtain n a lo hi where l: "utf8_lead (byte b) = Some (n, a, lo, hi)" and r: "utf8_rest 1 n lo hi a t = (U8Ok, cp, len)"
      using assms(2) by (auto simp: s utf8_next_def split: option.splits)
    have n: "len = n" using r utf8_lead_count [OF l] by (auto simp: utf8_rest_Ok_len)
    show ?thesis using utf8_rest_take [OF r] utf8_lead_count [OF l] False l n
      by (cases n) (simp_all add: s utf8_next_def)
  qed
qed

text \<open>A text all of whose sequences are good.\<close>

function utf8_valid :: "string \<Rightarrow> bool" where
  "utf8_valid s =
     (if s = [] then True
      else case utf8_next s of (r, cp, len) \<Rightarrow> if r = U8Ok then utf8_valid (drop len s) else False)"
  by pat_completeness auto
termination
  by (relation "measure length") (auto dest: utf8_next_len(1) [OF sym])

declare utf8_valid.simps [simp del]

lemma utf8_valid_Nil [simp]: "utf8_valid []" and utf8_lossy_Nil [simp]: "utf8_lossy hold [] = ([], 0)"
  by (simp_all add: utf8_valid.simps [of "[]"] utf8_lossy.simps [of _ "[]"])

abbreviation lossy :: "string \<Rightarrow> string" where "lossy s \<equiv> fst (utf8_lossy False s)"

lemma lossy_step:
  assumes "s \<noteq> []" "utf8_next s = (r, cp, len)"
  shows "lossy s = (if r = U8Ok then take len s else replacement) @ lossy (drop len s)"
  using assms by (simp add: utf8_lossy.simps [of _ s] split_beta Let_def)

lemma valid_step: "s \<noteq> [] \<Longrightarrow> utf8_next s = (r, cp, len) \<Longrightarrow> utf8_valid s \<longleftrightarrow> r = U8Ok \<and> utf8_valid (drop len s)"
  by (simp add: utf8_valid.simps [of s])

lemma lossy_valid_append: "utf8_valid t \<Longrightarrow> lossy (t @ v) = t @ lossy v"
proof (induction t rule: utf8_valid.induct)
  case (1 t)
  show ?case
  proof (cases "t = []")
    case False
    obtain r cp len where u: "utf8_next t = (r, cp, len)" by (metis prod_cases3)
    have r: "r = U8Ok" "utf8_valid (drop len t)" using 1(2) valid_step [OF False u] by simp_all
    have len: "len \<le> length t" using utf8_next_len(2) [OF u False] .
    have "utf8_next (t @ v) = (U8Ok, cp, len)" using utf8_next_append [OF False u] r(1) by simp
    then have "lossy (t @ v) = take len t @ lossy (drop len t @ v)" using lossy_step [of "t @ v"] False len by simp
    also have "\<dots> = take len t @ drop len t @ lossy v" using 1(1) [OF False u [symmetric] refl r(1,2)] by simp
    finally show ?thesis by (simp flip: append_assoc)
  qed simp
qed

lemma lossy_valid [simp]: "utf8_valid t \<Longrightarrow> lossy t = t"
  using lossy_valid_append [of t "[]"] by simp

lemma utf8_valid_append: "utf8_valid t \<Longrightarrow> utf8_valid v \<Longrightarrow> utf8_valid (t @ v)"
proof (induction t rule: utf8_valid.induct)
  case (1 t)
  show ?case
  proof (cases "t = []")
    case False
    obtain r cp len where u: "utf8_next t = (r, cp, len)" by (metis prod_cases3)
    have r: "r = U8Ok" "utf8_valid (drop len t)" using 1(2) valid_step [OF False u] by simp_all
    have len: "len \<le> length t" using utf8_next_len(2) [OF u False] .
    have n: "utf8_next (t @ v) = (U8Ok, cp, len)" using utf8_next_append [OF False u] r(1) by simp
    show ?thesis using valid_step [OF _ n] 1(1) [OF False u [symmetric] refl r(1,2) 1(3)] False len by simp
  qed (use 1 in simp)
qed

lemma utf8_valid_replacement: "utf8_valid replacement"
proof -
  have "utf8_next replacement = (U8Ok, 0xFFFD, 3)"
    by (simp add: replacement_def utf8_next_def utf8_lead_def utf8_rest.simps byte_def Let_def)
  then show ?thesis using valid_step [of replacement] by (simp add: replacement_def)
qed

lemma lossy_is_valid: "utf8_valid (lossy s)"
proof (induction s rule: code_points.induct)
  case (1 s)
  show ?case
  proof (cases "s = []")
    case False
    obtain r cp len where u: "utf8_next s = (r, cp, len)" by (metis prod_cases3)
    have "utf8_valid (take len s)" if "r = U8Ok"
    proof -
      have n: "utf8_next (take len s) = (U8Ok, cp, len)" using utf8_next_take [OF False] u that by simp
      have ne: "take len s \<noteq> []" using utf8_next_len(1) [OF u] False by simp
      show ?thesis using valid_step [OF ne n] utf8_next_len(2) [OF u False] by simp
    qed
    then show ?thesis
      using 1 [OF False u [symmetric] refl] by (simp add: lossy_step [OF False u] utf8_valid_append utf8_valid_replacement)
  qed simp
qed

text \<open>Decoding starts afresh at a byte that does not continue a sequence.\<close>

lemma lossy_boundary: "\<not> continuation d \<Longrightarrow> lossy (s @ d # q) = lossy s @ lossy (d # q)"
proof (induction s rule: code_points.induct)
  case (1 s)
  show ?case
  proof (cases "s = []")
    case False
    obtain r cp len where u: "utf8_next s = (r, cp, len)" by (metis prod_cases3)
    have len: "len \<le> length s" using utf8_next_len(2) [OF u False] .
    have IH: "lossy (drop len s @ d # q) = lossy (drop len s) @ lossy (d # q)" by (rule 1(1) [OF False u [symmetric] refl 1(2)])
    show ?thesis
    proof (cases "r = U8Incomplete")
      case True
      then have l: "len = length s" using utf8_next_len(3) [OF u False] by simp
      obtain c' where n: "utf8_next (s @ d # q) = (U8Invalid, c', length s)" using utf8_next_cut [OF False _ 1(2)] u True by blast
      show ?thesis using lossy_step [OF _ n] lossy_step [OF False u] True l by simp
    next
      case no: False
      have n: "utf8_next (s @ d # q) = (r, cp, len)" by (rule utf8_next_append [OF False u no])
      show ?thesis using lossy_step [OF _ n] lossy_step [OF False u] IH len by simp
    qed
  qed simp
qed

lemma valid_not_continuation: "utf8_valid (d # t) \<Longrightarrow> \<not> continuation d"
  using utf8_next_Ok(3) [of "d # t"] by (auto simp: utf8_valid.simps [of "d # t"] split: if_splits)

text \<open>Good text inside any text is decoded as itself.\<close>

lemma lossy_around_valid:
  assumes "utf8_valid t" "t \<noteq> []"
  shows "lossy (u @ t @ v) = lossy u @ t @ lossy v"
proof -
  obtain d t' where t: "t = d # t'" using assms(2) by (cases t) auto
  have "lossy (u @ t @ v) = lossy u @ lossy (t @ v)"
    using lossy_boundary [OF valid_not_continuation [OF assms(1) [unfolded t]]] by (simp add: t)
  then show ?thesis by (simp add: lossy_valid_append [OF assms(1)])
qed

text \<open>Holding back an incomplete end loses nothing.\<close>

lemma lossy_held:
  "utf8_lossy True p = (out, held) \<Longrightarrow> held \<le> length p \<and> lossy (p @ q) = out @ lossy (drop (length p - held) p @ q)"
proof (induction p arbitrary: out rule: code_points.induct)
  case (1 p)
  show ?case
  proof (cases "p = []")
    case False
    obtain r cp len where u: "utf8_next p = (r, cp, len)" by (metis prod_cases3)
    show ?thesis
    proof (cases "r = U8Incomplete")
      case True
      then show ?thesis using 1(2) False u by (simp add: utf8_lossy.simps [of True p])
    next
      case no: False
      obtain o' where o': "utf8_lossy True (drop len p) = (o', held)" "out = (if r = U8Ok then take len p else replacement) @ o'"
        using 1(2) False u no by (auto simp: utf8_lossy.simps [of True p] split_beta Let_def prod_eq_iff split: if_splits)
      have len: "len \<le> length p" using utf8_next_len(2) [OF u False] .
      note IH = 1(1) [OF False u [symmetric] refl o'(1)]
      have n: "utf8_next (p @ q) = (r, cp, len)" by (rule utf8_next_append [OF False u no])
      have "drop (length p - len - held) (drop len p) = drop (length p - held) p"
        using IH len by (simp add: le_diff_conv2 Nat.le_diff_conv2 add_diff_assoc)
      moreover have "held \<le> length p" by (rule order_trans [OF conjunct1 [OF IH]]) simp
      ultimately show ?thesis using lossy_step [OF _ n] IH len o'(2) False by simp
    qed
  qed (use 1(2) in simp)
qed

end
