(* ===== verification/Bpe.thy ===== *)
theory Bpe
  imports Json "HOL-Library.Product_Lexorder"
begin

text \<open>
  \<^verbatim>\<open>Tokenizer::Impl::bpe\<close> of \<^verbatim>\<open>text/tokenizer.cpp\<close>: the symbols of a word as a linked list inside an
  array, and a priority queue of merge candidates that is never cleaned: a candidate is checked when
  it is popped. The theorem of this theory is that this computes byte-pair encoding as it is
  defined: as long as two neighbours can be merged, merge the pair of the lowest rank, the leftmost
  among equals.
\<close>

section \<open>The code\<close>

type_synonym merges = "u32 \<times> u32 \<Rightarrow> (nat \<times> u32) option"

record bpe_sym =
  sy_c :: u32
  sy_prev :: int
  sy_next :: int
  sy_len :: nat

record merge_cand =
  mc_pos :: nat
  mc_rank :: nat
  mc_id :: u32

definition mc_key :: "merge_cand \<Rightarrow> nat \<times> nat" where
  "mc_key e = (mc_rank e, mc_pos e)"

text \<open>The queue is the list of its elements in the order in which they come out.\<close>

definition push_pair :: "merges \<Rightarrow> nat \<Rightarrow> u32 \<Rightarrow> u32 \<Rightarrow> merge_cand list \<Rightarrow> merge_cand list" where
  "push_pair m pos a b q =
     (case m (a, b) of
        None \<Rightarrow> q
      | Some (r, c) \<Rightarrow> insort_key mc_key \<lparr>mc_pos = pos, mc_rank = r, mc_id = c\<rparr> q)"

definition bpe_syms :: "u32 list \<Rightarrow> bpe_sym list" where
  "bpe_syms ids =
     map (\<lambda>i. \<lparr>sy_c = ids ! i, sy_prev = int i - 1, sy_next = (if i + 1 < length ids then int (i + 1) else -1), sy_len = 1\<rparr>)
       [0..<length ids]"

definition bpe_queue :: "merges \<Rightarrow> u32 list \<Rightarrow> merge_cand list" where
  "bpe_queue m ids = fold (\<lambda>i. push_pair m i (ids ! i) (ids ! (i + 1))) [0..<length ids - 1] []"

text \<open>The updates of a merge, and what it adds to the queue.\<close>

definition join_syms :: "nat \<Rightarrow> nat \<Rightarrow> u32 \<Rightarrow> bpe_sym list \<Rightarrow> bpe_sym list" where
  "join_syms pos next_pos c sy =
     (let cur = sy ! pos; right = sy ! next_pos;
          sy = sy[pos := cur\<lparr>sy_c := c, sy_len := sy_len cur + sy_len right, sy_next := sy_next right\<rparr>];
          sy = sy[next_pos := (sy ! next_pos)\<lparr>sy_len := 0\<rparr>]
      in if sy_next right > -1 \<and> nat (sy_next right) < length sy
         then sy[nat (sy_next right) := (sy ! nat (sy_next right))\<lparr>sy_prev := int pos\<rparr>] else sy)"

definition push_neighbours :: "merges \<Rightarrow> nat \<Rightarrow> bpe_sym list \<Rightarrow> merge_cand list \<Rightarrow> merge_cand list" where
  "push_neighbours m pos sy q =
     (let cur = sy ! pos;
          q = (if sy_prev cur \<ge> 0 then push_pair m (nat (sy_prev cur)) (sy_c (sy ! nat (sy_prev cur))) (sy_c cur) q else q)
      in if sy_next cur > -1 \<and> nat (sy_next cur) < length sy
         then push_pair m pos (sy_c cur) (sy_c (sy ! nat (sy_next cur))) q else q)"

definition bpe_pop :: "merges \<Rightarrow> merge_cand \<Rightarrow> bpe_sym list \<Rightarrow> merge_cand list \<Rightarrow> bpe_sym list \<times> merge_cand list" where
  "bpe_pop m e sy q =
     (let cur = sy ! mc_pos e
      in if sy_len cur = 0 \<or> sy_next cur = -1 then (sy, q)
         else case m (sy_c cur, sy_c (sy ! nat (sy_next cur))) of
                None \<Rightarrow> (sy, q)
              | Some (r, c) \<Rightarrow>
                  if c \<noteq> mc_id e then (sy, q)
                  else let sy = join_syms (mc_pos e) (nat (sy_next cur)) (mc_id e) sy
                       in (sy, push_neighbours m (mc_pos e) sy q))"

fun bpe_loop :: "nat \<Rightarrow> merges \<Rightarrow> bpe_sym list \<Rightarrow> merge_cand list \<Rightarrow> bpe_sym list option" where
  "bpe_loop 0 m sy q = None"
| "bpe_loop (Suc fuel) m sy [] = Some sy"
| "bpe_loop (Suc fuel) m sy (e # q) = (case bpe_pop m e sy q of (sy, q) \<Rightarrow> bpe_loop fuel m sy q)"

text \<open>
  Three iterations for every byte are enough (\<open>bpe_loop_merges\<close> below): every iteration takes a candidate
  out of the queue, and only a merge, after which there is one symbol less, puts in new ones, two at most.
\<close>

definition bpe :: "merges \<Rightarrow> (char \<Rightarrow> u32) \<Rightarrow> string \<Rightarrow> u32 list" where
  "bpe m byte_id word =
     (let n = length word; ids = map byte_id word
      in if n = 0 then []
         else if n = 1 then [byte_id (hd word)]
         else case bpe_loop (3 * n) m (bpe_syms ids) (bpe_queue m ids) of
                None \<Rightarrow> []
              | Some sy \<Rightarrow> map sy_c (filter (\<lambda>s. sy_len s \<noteq> 0) sy))"

section \<open>Byte-pair encoding\<close>

definition pair_ranks :: "merges \<Rightarrow> u32 list \<Rightarrow> (nat \<times> nat) list" where
  "pair_ranks m xs = List.map_filter (\<lambda>i. map_option (\<lambda>(r, _). (r, i)) (m (xs ! i, xs ! (i + 1)))) [0..<length xs - 1]"

definition merge_at :: "merges \<Rightarrow> nat \<Rightarrow> u32 list \<Rightarrow> u32 list" where
  "merge_at m i xs = take i xs @ snd (the (m (xs ! i, xs ! (i + 1)))) # drop (i + 2) xs"

lemma in_pair_ranks:
  "(r, i) \<in> set (pair_ranks m xs) \<longleftrightarrow> i < length xs - 1 \<and> (\<exists>c. m (xs ! i, xs ! (i + 1)) = Some (r, c))"
  by (force simp: pair_ranks_def List.map_filter_def)

function merge_all :: "merges \<Rightarrow> u32 list \<Rightarrow> u32 list" where
  "merge_all m xs =
     (if pair_ranks m xs = [] then xs else merge_all m (merge_at m (snd (Min (set (pair_ranks m xs)))) xs))"
  by pat_completeness auto
termination
proof (relation "measure (length \<circ> snd)")
  fix m xs assume ne: "pair_ranks m xs \<noteq> []"
  then have "Min (set (pair_ranks m xs)) \<in> set (pair_ranks m xs)" by simp
  then have "snd (Min (set (pair_ranks m xs))) < length xs - 1" using in_pair_ranks by (metis prod.collapse)
  then show "((m, merge_at m (snd (Min (set (pair_ranks m xs)))) xs), m, xs) \<in> measure (length \<circ> snd)"
    by (simp add: merge_at_def)
qed simp

declare merge_all.simps [simp del]

section \<open>Blocks\<close>

text \<open>
  The live symbols as a list of blocks, a symbol with the number of bytes it covers. The block that
  starts at byte \<open>pos\<close> is the array entry \<open>pos\<close>.
\<close>

definition block_span :: "(u32 \<times> nat) list \<Rightarrow> nat" where
  "block_span xs = sum_list (map snd xs)"

lemma block_span_simps [simp]: "block_span [] = 0" "block_span (x # xs) = snd x + block_span xs" "block_span (xs @ ys) = block_span xs + block_span ys"
  by (simp_all add: block_span_def)

fun linked :: "nat \<Rightarrow> int \<Rightarrow> (u32 \<times> nat) list \<Rightarrow> bpe_sym list \<Rightarrow> bool" where
  "linked pos prev [] sy \<longleftrightarrow> pos = length sy"
| "linked pos prev ((c, l) # xs) sy \<longleftrightarrow>
     0 < l \<and> pos + l \<le> length sy
     \<and> sy ! pos = \<lparr>sy_c = c, sy_prev = prev, sy_next = (if xs = [] then -1 else int (pos + l)), sy_len = l\<rparr>
     \<and> (\<forall>q. pos < q \<and> q < pos + l \<longrightarrow> sy_len (sy ! q) = 0) \<and> linked (pos + l) (int pos) xs sy"

fun prev_of :: "nat \<Rightarrow> int \<Rightarrow> (u32 \<times> nat) list \<Rightarrow> int" where
  "prev_of pos prev [] = prev"
| "prev_of pos prev ((c, l) # us) = prev_of (pos + l) (int pos) us"

lemma prev_of_snoc [simp]: "prev_of pos prev (us @ [x]) = int (pos + block_span us)"
proof (induction us arbitrary: pos prev)
  case Nil
  then show ?case by (cases x) simp
next
  case (Cons u us)
  then show ?case by (cases u) simp
qed

lemma linked_length: "linked pos prev xs sy \<Longrightarrow> pos + block_span xs = length sy"
  by (induction xs arbitrary: pos prev) (auto simp flip: add.assoc)

lemma linked_pos: "linked pos prev xs sy \<Longrightarrow> x \<in> set xs \<Longrightarrow> 0 < snd x"
  by (induction xs arbitrary: pos prev) auto

lemma linked_tail: "linked pos prev (us @ vs) sy \<Longrightarrow> linked (pos + block_span us) (prev_of pos prev us) vs sy"
proof (induction us arbitrary: pos prev)
  case (Cons u us)
  then show ?case by (cases u) (auto simp flip: add.assoc)
qed simp

lemma linked_frame:
  "linked pos prev xs sy \<Longrightarrow> length sy' = length sy \<Longrightarrow> \<forall>q > pos. sy' ! q = sy ! q \<Longrightarrow>
     xs \<noteq> [] \<longrightarrow> sy' ! pos = (sy ! pos)\<lparr>sy_prev := prev'\<rparr> \<Longrightarrow> linked pos prev' xs sy'"
proof (induction xs arbitrary: pos prev prev')
  case (Cons x xs)
  obtain c l where x: "x = (c, l)" by (cases x)
  have l: "linked (pos + l) (int pos) xs sy" "0 < l" using Cons.prems(1) by (simp_all add: x)
  have "sy ! (pos + l) = (sy ! (pos + l))\<lparr>sy_prev := int pos\<rparr>" if "xs \<noteq> []"
    using l(1) that by (cases xs) auto
  then have "linked (pos + l) (int pos) xs sy'"
    using Cons.IH [OF l(1) Cons.prems(2), of "int pos"] Cons.prems(3) l(2) by simp
  then show ?case using Cons.prems by (simp add: x)
qed simp

lemma live_block:
  "linked pos prev xs sy \<Longrightarrow> pos \<le> p \<Longrightarrow> p < length sy \<Longrightarrow> sy_len (sy ! p) \<noteq> 0 \<Longrightarrow>
     \<exists>us x vs. xs = us @ x # vs \<and> p = pos + block_span us"
proof (induction xs arbitrary: pos prev)
  case (Cons x xs)
  obtain c l where x: "x = (c, l)" by (cases x)
  consider "p = pos" | "pos < p \<and> p < pos + l" | "pos + l \<le> p" using Cons.prems(2) by linarith
  then show ?case
  proof cases
    case 1
    then show ?thesis by (intro exI [of _ "[]"]) auto
  next
    case 2
    then show ?thesis using Cons.prems by (auto simp: x)
  next
    case 3
    then obtain us y vs where "xs = us @ y # vs" "p = pos + l + block_span us"
      using Cons.IH [of "pos + l" "int pos"] Cons.prems by (auto simp: x)
    then show ?thesis by (intro exI [of _ "x # us"]) (simp add: x)
  qed
qed simp

lemma linked_ids: "linked pos prev xs sy \<Longrightarrow> map sy_c (filter (\<lambda>s. sy_len s \<noteq> 0) (drop pos sy)) = map fst xs"
proof (induction xs arbitrary: pos prev)
  case (Cons x xs)
  obtain c l where x: "x = (c, l)" by (cases x)
  have l: "0 < l" "pos + l \<le> length sy" using Cons.prems by (simp_all add: x)
  have "drop pos sy = sy ! pos # drop (Suc pos) sy" using l by (simp add: Cons_nth_drop_Suc)
  also have "drop (Suc pos) sy = take (l - 1) (drop (Suc pos) sy) @ drop (pos + l) sy"
    using append_take_drop_id [of "l - 1" "drop (Suc pos) sy"] l by (simp add: add.commute)
  finally have d: "drop pos sy = sy ! pos # take (l - 1) (drop (Suc pos) sy) @ drop (pos + l) sy" .
  have "filter (\<lambda>s. sy_len s \<noteq> 0) (take (l - 1) (drop (Suc pos) sy)) = []"
    using Cons.prems l by (auto simp: x filter_empty_conv in_set_conv_nth)
  then show ?case using Cons.IH [of "pos + l" "int pos"] Cons.prems by (simp add: x d)
qed simp

lemma join_facts:
  assumes "linked p prev ((c1, l1) # (c2, l2) # vs) sy" "sy' = join_syms p (p + l1) c sy"
  shows "length sy' = length sy"
    and "sy' ! p = \<lparr>sy_c = c, sy_prev = prev, sy_next = (if vs = [] then -1 else int (p + l1 + l2)), sy_len = l1 + l2\<rparr>"
    and "sy_len (sy' ! (p + l1)) = 0"
    and "vs \<noteq> [] \<Longrightarrow> sy' ! (p + l1 + l2) = (sy ! (p + l1 + l2))\<lparr>sy_prev := int p\<rparr>"
    and "q \<noteq> p \<Longrightarrow> q \<noteq> p + l1 \<Longrightarrow> q \<noteq> p + l1 + l2 \<Longrightarrow> sy' ! q = sy ! q"
proof -
  let ?n = "p + l1 + l2"
  have l: "0 < l1" "0 < l2" "p + l1 < length sy" using assms(1) by auto
  have s: "sy ! p = \<lparr>sy_c = c1, sy_prev = prev, sy_next = int (p + l1), sy_len = l1\<rparr>"
    "sy ! (p + l1) = \<lparr>sy_c = c2, sy_prev = int p, sy_next = (if vs = [] then -1 else int ?n), sy_len = l2\<rparr>"
    using assms(1) by simp_all
  have n: "?n < length sy" if "vs \<noteq> []" using assms(1) that by (cases vs) auto
  show "length sy' = length sy" by (simp add: assms(2) join_syms_def Let_def)
  show "sy' ! p = \<lparr>sy_c = c, sy_prev = prev, sy_next = (if vs = [] then -1 else int ?n), sy_len = l1 + l2\<rparr>"
    "sy_len (sy' ! (p + l1)) = 0"
    using l s n by (simp_all add: assms(2) join_syms_def Let_def nth_list_update)
  show "sy' ! ?n = (sy ! ?n)\<lparr>sy_prev := int p\<rparr>" if "vs \<noteq> []"
    using l s n that by (simp add: assms(2) join_syms_def Let_def nth_list_update)
  show "sy' ! q = sy ! q" if "q \<noteq> p" "q \<noteq> p + l1" "q \<noteq> ?n"
    using l s n that by (auto simp: assms(2) join_syms_def Let_def)
qed

lemma linked_join_here:
  assumes "linked p prev ((c1, l1) # (c2, l2) # vs) sy"
  shows "linked p prev ((c, l1 + l2) # vs) (join_syms p (p + l1) c sy)"
proof -
  define sy' where "sy' = join_syms p (p + l1) c sy"
  note f = join_facts [OF assms sy'_def]
  have l: "0 < l1" "0 < l2" "p + l1 + l2 \<le> length sy" using assms by auto
  have "linked (p + l1 + l2) (int p) vs sy'"
    by (rule linked_frame [of _ "int (p + l1)" vs sy]) (use assms f l in auto)
  moreover have "sy_len (sy' ! q) = 0" if "p < q" "q < p + l1 + l2" for q
  proof (cases "q = p + l1")
    case False
    then have "sy' ! q = sy ! q" using f(5) that by simp
    moreover have "sy_len (sy ! q) = 0" using assms that False by (cases "q < p + l1") auto
    ultimately show ?thesis by simp
  qed (simp add: f(3))
  ultimately show ?thesis using f(1,2) l by (simp add: add.assoc flip: sy'_def)
qed

lemma linked_replace:
  "linked pos prev (us @ ws) sy \<Longrightarrow> length sy' = length sy \<Longrightarrow> \<forall>q < pos + block_span us. sy' ! q = sy ! q \<Longrightarrow>
     linked (pos + block_span us) (prev_of pos prev us) ws' sy' \<Longrightarrow> ws = [] \<longleftrightarrow> ws' = [] \<Longrightarrow> linked pos prev (us @ ws') sy'"
proof (induction us arbitrary: pos prev)
  case (Cons u us)
  obtain c l where u: "u = (c, l)" by (cases u)
  have "linked (pos + l) (int pos) (us @ ws') sy'"
    by (rule Cons.IH) (use Cons.prems in \<open>auto simp: u add.assoc\<close>)
  then show ?case using Cons.prems by (auto simp: u)
qed simp

lemma linked_join:
  assumes "linked 0 (-1) (us @ (c1, l1) # (c2, l2) # vs) sy" "p = block_span us"
  shows "linked 0 (-1) (us @ (c, l1 + l2) # vs) (join_syms p (p + l1) c sy)"
proof -
  have t: "linked p (prev_of 0 (-1) us) ((c1, l1) # (c2, l2) # vs) sy" using linked_tail [OF assms(1)] assms(2) by simp
  note f = join_facts [OF t refl [of "join_syms p (p + l1) c sy"]]
  have h: "linked (0 + block_span us) (prev_of 0 (-1) us) ((c, l1 + l2) # vs) (join_syms p (p + l1) c sy)"
    using linked_join_here [OF t, of c] assms(2) by (simp del: linked.simps)
  show ?thesis by (rule linked_replace [OF assms(1) _ _ h]) (use f assms(2) in auto)
qed

lemma linked_at:
  assumes "linked 0 (-1) (us @ (a, la) # vs) sy"
  shows "sy ! block_span us = \<lparr>sy_c = a, sy_prev = prev_of 0 (-1) us,
      sy_next = (if vs = [] then -1 else int (block_span us + la)), sy_len = la\<rparr>"
    and "0 < la" "block_span us < length sy"
  using linked_tail [OF assms] by auto

section \<open>The queue\<close>

lemma split_unique:
  "us @ ws = us' @ ws' \<Longrightarrow> block_span us = block_span us' \<Longrightarrow> \<forall>x \<in> set (us @ ws). 0 < snd x \<Longrightarrow> us = us' \<and> ws = ws'"
proof (induction us arbitrary: us')
  case Nil
  then show ?case by (cases us') auto
next
  case (Cons u us)
  then obtain u' vs' where "us' = u' # vs'" by (cases us') auto
  then show ?case using Cons by auto
qed

text \<open>
  What a candidate remembers: from its position on, the bytes of the token it makes are covered by two
  blocks at most, and while they are two, they are a pair of the candidate's own rank.
\<close>

definition remembers :: "merges \<Rightarrow> (u32 \<Rightarrow> nat) \<Rightarrow> (u32 \<times> nat) list \<Rightarrow> merge_cand \<Rightarrow> bool" where
  "remembers m sz xs e \<longleftrightarrow>
     (\<forall>us ws vs. xs = us @ ws @ vs \<longrightarrow> block_span us = mc_pos e \<longrightarrow> block_span ws = sz (mc_id e) \<longrightarrow>
        length ws \<le> 2 \<and> (\<forall>a b. map fst ws = [a, b] \<longrightarrow> m (a, b) = Some (mc_rank e, mc_id e)))"

text \<open>Every pair that can be merged is in the queue.\<close>

definition queue_complete :: "merges \<Rightarrow> (u32 \<times> nat) list \<Rightarrow> merge_cand list \<Rightarrow> bool" where
  "queue_complete m xs q \<longleftrightarrow>
     (\<forall>us a la b lb vs r c. xs = us @ (a, la) # (b, lb) # vs \<longrightarrow> m (a, b) = Some (r, c) \<longrightarrow>
        \<lparr>mc_pos = block_span us, mc_rank = r, mc_id = c\<rparr> \<in> set q)"

text \<open>
  A merge covers the bytes of its two parts. Tokens that no word ever reaches may have the size 0, and
  nothing is asked of their merges.
\<close>

definition sized :: "merges \<Rightarrow> (u32 \<Rightarrow> nat) \<Rightarrow> bool" where
  "sized m sz \<longleftrightarrow> (\<forall>a b r c. m (a, b) = Some (r, c) \<longrightarrow> 0 < sz a \<longrightarrow> 0 < sz b \<longrightarrow> sz c = sz a + sz b)"

definition bpe_inv :: "merges \<Rightarrow> (u32 \<Rightarrow> nat) \<Rightarrow> (u32 \<times> nat) list \<Rightarrow> bpe_sym list \<Rightarrow> merge_cand list \<Rightarrow> bool" where
  "bpe_inv m sz xs sy q \<longleftrightarrow>
     xs \<noteq> [] \<and> linked 0 (-1) xs sy \<and> (\<forall>(c, l) \<in> set xs. l = sz c) \<and> queue_complete m xs q
     \<and> (\<forall>e \<in> set q. remembers m sz xs e) \<and> sorted (map mc_key q) \<and> (\<forall>e \<in> set q. mc_pos e < length sy)"

definition cands :: "merges \<Rightarrow> nat \<Rightarrow> u32 \<Rightarrow> u32 \<Rightarrow> merge_cand set" where
  "cands m pos a b = {e. mc_pos e = pos \<and> m (a, b) = Some (mc_rank e, mc_id e)}"

lemma cands_cases: "cands m pos a b = (case m (a, b) of None \<Rightarrow> {} | Some (r, c) \<Rightarrow> {\<lparr>mc_pos = pos, mc_rank = r, mc_id = c\<rparr>})"
  by (auto simp: cands_def split: option.split)

lemma push_pair_simps:
  "set (push_pair m pos a b q) = set q \<union> cands m pos a b"
  "sorted (map mc_key q) \<Longrightarrow> sorted (map mc_key (push_pair m pos a b q))"
  "length (push_pair m pos a b q) \<le> Suc (length q)"
  by (auto simp: push_pair_def cands_cases set_insort_key sorted_insort_key split: option.split)

lemma remembers_new:
  assumes "sized m sz" "\<forall>(c, l) \<in> set xs. l = sz c \<and> 0 < l" "xs = us @ (a, la) # (b, lb) # vs" "m (a, b) = Some (r, c)"
  shows "remembers m sz xs \<lparr>mc_pos = block_span us, mc_rank = r, mc_id = c\<rparr>"
  unfolding remembers_def
proof (intro allI impI)
  fix us' ws vs'
  assume x: "xs = us' @ ws @ vs'" and p: "block_span us' = mc_pos \<lparr>mc_pos = block_span us, mc_rank = r, mc_id = c\<rparr>"
    and w: "block_span ws = sz (mc_id \<lparr>mc_pos = block_span us, mc_rank = r, mc_id = c\<rparr>)"
  have pos: "\<forall>x \<in> set xs. 0 < snd x" using assms(2) by auto
  have "sz c = la + lb" using assms(1-4) by (auto simp: sized_def)
  have "us = us' \<and> (a, la) # (b, lb) # vs = ws @ vs'"
    using split_unique [of us "(a, la) # (b, lb) # vs" us' "ws @ vs'"] x assms(3) p pos by simp
  then have "[(a, la), (b, lb)] @ vs = ws @ vs'" by simp
  then have "ws = [(a, la), (b, lb)]"
    using split_unique [of "[(a, la), (b, lb)]" vs ws vs'] w \<open>sz c = la + lb\<close> pos assms(3) by simp
  then show "length ws \<le> 2 \<and> (\<forall>a b. map fst ws = [a, b] \<longrightarrow> m (a, b) =
      Some (mc_rank \<lparr>mc_pos = block_span us, mc_rank = r, mc_id = c\<rparr>, mc_id \<lparr>mc_pos = block_span us, mc_rank = r, mc_id = c\<rparr>))"
    using assms(4) by auto
qed

text \<open>A merge elsewhere does not make a candidate wrong.\<close>

lemma remembers_merge:
  assumes "remembers m sz (us0 @ x # y # vs0) e" "snd z = snd x + snd y"
  shows "remembers m sz (us0 @ z # vs0) e"
  unfolding remembers_def
proof (intro allI impI)
  fix us ws vs
  assume x: "us0 @ z # vs0 = us @ ws @ vs" and p: "block_span us = mc_pos e" and w: "block_span ws = sz (mc_id e)"
  note R = assms(1) [unfolded remembers_def, rule_format]
  consider (left) t where "us = us0 @ z # t" "vs0 = t @ ws @ vs"
    | (inside) t t' where "us0 = us @ t" "ws = t @ z # t'" "vs0 = t' @ vs"
    | (right) t where "us0 = us @ ws @ t" "vs = t @ z # vs0"
    using x by (auto simp: append_eq_append_conv2 append_eq_Cons_conv Cons_eq_append_conv)
  then show "length ws \<le> 2 \<and> (\<forall>a b. map fst ws = [a, b] \<longrightarrow> m (a, b) = Some (mc_rank e, mc_id e))"
  proof cases
    case left
    then show ?thesis using R [of "us0 @ x # y # t" ws vs] p w assms(2) by simp
  next
    case inside
    then have "length (t @ x # y # t') \<le> 2" using R [of us "t @ x # y # t'" vs] p w assms(2) by simp
    then show ?thesis using inside by auto
  next
    case right
    then show ?thesis using R [of us ws "t @ x # y # vs0"] p w by simp
  qed
qed

section \<open>One candidate\<close>

lemma completeD:
  "queue_complete m xs q \<Longrightarrow> xs = us @ (a, la) # (b, lb) # vs \<Longrightarrow> m (a, b) = Some (r, c) \<Longrightarrow>
     \<lparr>mc_pos = block_span us, mc_rank = r, mc_id = c\<rparr> \<in> set q"
  by (auto simp: queue_complete_def)

text \<open>A candidate that the checks of the loop reject was the candidate of no pair.\<close>

lemma stale:
  assumes "bpe_inv m sz xs sy (e # q)"
    and "\<And>us a la b lb vs r. xs = us @ (a, la) # (b, lb) # vs \<Longrightarrow> mc_pos e = block_span us \<Longrightarrow> m (a, b) \<noteq> Some (r, mc_id e)"
  shows "bpe_inv m sz xs sy q"
proof -
  have "queue_complete m xs q"
    unfolding queue_complete_def
  proof (intro allI impI)
    fix us a la b lb vs r c
    assume x: "xs = us @ (a, la) # (b, lb) # vs" and m: "m (a, b) = Some (r, c)"
    have "\<lparr>mc_pos = block_span us, mc_rank = r, mc_id = c\<rparr> \<in> set (e # q)"
      using completeD [of m xs "e # q" us a la b lb vs r c] assms(1) x m unfolding bpe_inv_def by blast
    moreover have "\<lparr>mc_pos = block_span us, mc_rank = r, mc_id = c\<rparr> \<noteq> e" using assms(2) [OF x, of r] m by auto
    ultimately show "\<lparr>mc_pos = block_span us, mc_rank = r, mc_id = c\<rparr> \<in> set q" by simp
  qed
  then show ?thesis using assms(1) by (auto simp: bpe_inv_def)
qed

definition left_cands :: "merges \<Rightarrow> (u32 \<times> nat) list \<Rightarrow> u32 \<Rightarrow> merge_cand set" where
  "left_cands m us c = (if us = [] then {} else cands m (block_span (butlast us)) (fst (last us)) c)"

definition right_cands :: "merges \<Rightarrow> nat \<Rightarrow> u32 \<Rightarrow> (u32 \<times> nat) list \<Rightarrow> merge_cand set" where
  "right_cands m pos c vs = (if vs = [] then {} else cands m pos c (fst (hd vs)))"

lemma push_neighbours_set:
  assumes "linked 0 (-1) (us @ (c, l) # vs) sy" and q'_def: "q' = push_neighbours m (block_span us) sy q"
  shows "set q' = set q \<union> left_cands m us c \<union> right_cands m (block_span us) c vs"
    and "sorted (map mc_key q) \<Longrightarrow> sorted (map mc_key q')" "length q' \<le> length q + 2"
proof -
  note at = linked_at [OF assms(1)]
  define q1 where "q1 = (if us = [] then q else push_pair m (block_span (butlast us)) (fst (last us)) c q)"
  have "sy_prev (sy ! block_span us) = (if us = [] then -1 else int (block_span (butlast us)))"
    unfolding at(1) by (cases us rule: rev_cases) simp_all
  then have left: "sy_prev (sy ! block_span us) \<ge> 0 \<longleftrightarrow> us \<noteq> []"
    "us \<noteq> [] \<Longrightarrow> nat (sy_prev (sy ! block_span us)) = block_span (butlast us)" by simp_all
  have lc: "sy_c (sy ! block_span (butlast us)) = fst (last us)" if "us \<noteq> []"
    using that linked_at(1) [of "butlast us" "fst (last us)" "snd (last us)" "(c, l) # vs" sy] assms(1)
    by (cases us rule: rev_cases) auto
  have q': "q' = (if vs = [] then q1 else push_pair m (block_span us) c (fst (hd vs)) q1)"
  proof (cases vs)
    case Nil
    then show ?thesis using left lc by (simp add: q'_def push_neighbours_def Let_def at q1_def)
  next
    case (Cons y vs')
    obtain b lb where y: "y = (b, lb)" by (cases y)
    have "sy_c (sy ! (block_span us + l)) = b" "block_span us + l < length sy"
      using linked_at(1,3) [of "us @ [(c, l)]" b lb vs' sy] assms(1) Cons y by simp_all
    then show ?thesis using left lc Cons y at
      by (cases "us = []") (simp_all add: q'_def push_neighbours_def Let_def q1_def nat_int_add)
  qed
  show "set q' = set q \<union> left_cands m us c \<union> right_cands m (block_span us) c vs"
    by (simp add: q' q1_def push_pair_simps(1) left_cands_def right_cands_def)
  have s1: "sorted (map mc_key q) \<Longrightarrow> sorted (map mc_key q1)" "length q1 \<le> Suc (length q)"
    by (simp_all add: q1_def push_pair_simps)
  show "sorted (map mc_key q) \<Longrightarrow> sorted (map mc_key q')"
    using s1(1) by (simp add: q' push_pair_simps(2))
  show "length q' \<le> length q + 2"
    using s1(2) push_pair_simps(3) [of m "block_span us" c "fst (hd vs)" q1] by (simp add: q')
qed

lemma merge_complete:
  assumes "queue_complete m (us @ (a, la) # (b, lb) # vs) (e # q)" "mc_pos e = block_span us" "0 < la"
    and "linked 0 (-1) (us @ (c, la + lb) # vs) sy"
  shows "queue_complete m (us @ (c, la + lb) # vs) (push_neighbours m (block_span us) sy q)"
  unfolding queue_complete_def
proof (intro allI impI)
  fix us' a' la' b' lb' vs' r d
  assume x: "us @ (c, la + lb) # vs = us' @ (a', la') # (b', lb') # vs'" and m: "m (a', b') = Some (r, d)"
  let ?e = "\<lparr>mc_pos = block_span us', mc_rank = r, mc_id = d\<rparr>"
  note set_q' = push_neighbours_set(1) [where m = m and q = q, OF assms(4) refl]
  consider (before) t where "us = us' @ (a', la') # (b', lb') # t"
    | (second) "us = us' @ [(a', la')]" "b' = c" | (first) "us = us'" "a' = c" "vs = (b', lb') # vs'"
    | (after) t where "us' = us @ (c, la + lb) # t" "vs = t @ (a', la') # (b', lb') # vs'"
    using x by (auto simp: append_eq_append_conv2 append_eq_Cons_conv Cons_eq_append_conv)
  then show "?e \<in> set (push_neighbours m (block_span us) sy q)"
  proof cases
    case before
    have "?e \<in> set (e # q)"
      using completeD [OF assms(1), of us' a' la' b' lb' "t @ (a, la) # (b, lb) # vs" r d] m before by simp
    moreover have "0 < la'" using linked_at(2) [of us' a' la' "(b', lb') # t @ (c, la + lb) # vs" sy] assms(4) before by simp
    then have "?e \<noteq> e" using before assms(2) by auto
    ultimately show ?thesis using set_q' by simp
  next
    case second
    then have "?e \<in> left_cands m us c" using m by (simp add: left_cands_def cands_def)
    then show ?thesis using set_q' by simp
  next
    case first
    then have "?e \<in> right_cands m (block_span us) c vs" using m by (simp add: right_cands_def cands_def)
    then show ?thesis using set_q' by simp
  next
    case after
    have "\<lparr>mc_pos = block_span (us @ (a, la) # (b, lb) # t), mc_rank = r, mc_id = d\<rparr> \<in> set (e # q)"
      using completeD [OF assms(1), of "us @ (a, la) # (b, lb) # t" a' la' b' lb' vs' r d] m after by simp
    then have "?e \<in> set (e # q)" using after by (simp add: add.assoc)
    moreover have "?e \<noteq> e" using after assms(2,3) by auto
    ultimately show ?thesis using set_q' by simp
  qed
qed

lemma merge_inv:
  assumes inv: "bpe_inv m sz (us @ (a, la) # (b, lb) # vs) sy (e # q)" and sized: "sized m sz"
    and e: "mc_pos e = block_span us" "m (a, b) = Some (mc_rank e, mc_id e)"
    and sy': "sy' = join_syms (block_span us) (block_span us + la) (mc_id e) sy"
  shows "bpe_inv m sz (us @ (mc_id e, la + lb) # vs) sy' (push_neighbours m (block_span us) sy' q)"
proof -
  let ?xs = "us @ (a, la) # (b, lb) # vs" and ?xs' = "us @ (mc_id e, la + lb) # vs"
  have I: "linked 0 (-1) ?xs sy" "\<forall>(c, l) \<in> set ?xs. l = sz c" "queue_complete m ?xs (e # q)"
    "\<forall>d \<in> set q. remembers m sz ?xs d" "sorted (map mc_key q)" "\<forall>d \<in> set q. mc_pos d < length sy"
    using inv by (auto simp: bpe_inv_def)
  have l': "linked 0 (-1) ?xs' sy'" using linked_join [OF I(1) refl] sy' by simp
  have len: "length sy' = length sy" using linked_length [OF I(1)] linked_length [OF l'] by simp
  note q' = push_neighbours_set [where m = m and q = q, OF l' refl]
  have "0 < sz a" "0 < sz b" using linked_pos [OF I(1), of "(a, la)"] linked_pos [OF I(1), of "(b, lb)"] I(2) by auto
  then have sizes: "\<forall>(c, l) \<in> set ?xs'. l = sz c" using I(2) sized e(2) by (auto simp: sized_def)
  have pos: "\<forall>(c, l) \<in> set ?xs'. l = sz c \<and> 0 < l"
  proof
    fix x assume x: "x \<in> set ?xs'"
    show "case x of (c, l) \<Rightarrow> l = sz c \<and> 0 < l" using bspec [OF sizes x] linked_pos [OF l' x] by (cases x) simp
  qed
  have old: "\<forall>d \<in> set q. remembers m sz ?xs' d" using I(4) remembers_merge by fastforce
  have left: "remembers m sz ?xs' d \<and> mc_pos d < length sy'" if "d \<in> left_cands m us (mc_id e)" for d
  proof -
    have "us \<noteq> []" using that by (auto simp: left_cands_def)
    then obtain us' a0 l0 where us: "us = us' @ [(a0, l0)]" by (metis append_butlast_last_id surj_pair)
    have d: "d = \<lparr>mc_pos = block_span us', mc_rank = mc_rank d, mc_id = mc_id d\<rparr>" "m (a0, mc_id e) = Some (mc_rank d, mc_id d)"
      using that by (auto simp: us left_cands_def cands_def)
    have "remembers m sz ?xs' \<lparr>mc_pos = block_span us', mc_rank = mc_rank d, mc_id = mc_id d\<rparr>"
      by (rule remembers_new [OF sized pos _ d(2)]) (simp add: us)
    then show ?thesis using d(1) linked_at(3) [OF l'] by (simp add: us) (metis add_lessD1 d(1) merge_cand.select_convs(1))
  qed
  have right: "remembers m sz ?xs' d \<and> mc_pos d < length sy'" if "d \<in> right_cands m (block_span us) (mc_id e) vs" for d
  proof -
    have "vs \<noteq> []" using that by (auto simp: right_cands_def)
    then obtain b0 l0 vs' where vs: "vs = (b0, l0) # vs'" by (metis neq_Nil_conv surj_pair)
    have d: "d = \<lparr>mc_pos = block_span us, mc_rank = mc_rank d, mc_id = mc_id d\<rparr>" "m (mc_id e, b0) = Some (mc_rank d, mc_id d)"
      using that by (auto simp: vs right_cands_def cands_def)
    have "remembers m sz ?xs' \<lparr>mc_pos = block_span us, mc_rank = mc_rank d, mc_id = mc_id d\<rparr>"
      by (rule remembers_new [OF sized pos _ d(2)]) (simp add: vs)
    then show ?thesis using d(1) linked_at(3) [OF l'] by (metis merge_cand.select_convs(1))
  qed
  have "queue_complete m ?xs' (push_neighbours m (block_span us) sy' q)"
    by (rule merge_complete [OF I(3) e(1) _ l']) (use linked_at(2) [OF I(1)] in simp)
  then show ?thesis
    using l' sizes old left right q'(1) q'(2) [OF I(5)] I(6) len unfolding bpe_inv_def by auto
qed

lemma bpe_pop_cases:
  assumes inv: "bpe_inv m sz xs sy (e # q)" and sized: "sized m sz"
  obtains (drop) "bpe_pop m e sy q = (sy, q)" "bpe_inv m sz xs sy q"
  | (merge) us a la b lb vs sy' q' where "xs = us @ (a, la) # (b, lb) # vs" "mc_pos e = block_span us"
      "m (a, b) = Some (mc_rank e, mc_id e)" "bpe_pop m e sy q = (sy', q')"
      "bpe_inv m sz (us @ (mc_id e, la + lb) # vs) sy' q'" "length q' \<le> length q + 2"
proof -
  have I: "linked 0 (-1) xs sy" "\<forall>(c, l) \<in> set xs. l = sz c" "remembers m sz xs e" "mc_pos e < length sy"
    using inv by (auto simp: bpe_inv_def)
  let ?cur = "sy ! mc_pos e"
  have at: "sy_len ?cur \<noteq> 0" "sy_next ?cur = int (mc_pos e + la)" "sy_c ?cur = a" "sy_c (sy ! (mc_pos e + la)) = b"
    if "xs = us @ (a, la) # (b, lb) # vs" "mc_pos e = block_span us" for us a la b lb vs
    using linked_at [of us a la "(b, lb) # vs" sy] linked_at(1) [of "us @ [(a, la)]" b lb vs sy] I(1) that by simp_all
  show ?thesis
  proof (cases "\<exists>us a la b lb vs r. xs = us @ (a, la) # (b, lb) # vs \<and> mc_pos e = block_span us \<and> m (a, b) = Some (r, mc_id e)")
    case False
    have "bpe_pop m e sy q = (sy, q)"
    proof (rule ccontr)
      assume n: "bpe_pop m e sy q \<noteq> (sy, q)"
      then have live: "sy_len ?cur \<noteq> 0" "sy_next ?cur \<noteq> -1" by (auto simp: bpe_pop_def Let_def split: if_splits)
      then obtain us x ws where x: "xs = us @ x # ws" "mc_pos e = block_span us"
        using live_block [OF I(1) _ I(4)] by auto
      obtain a la where "x = (a, la)" by (cases x)
      moreover have "ws \<noteq> []" using live(2) linked_at(1) [of us "fst x" "snd x" ws sy] I(1) x by auto
      then obtain b lb vs where "ws = (b, lb) # vs" by (cases ws) auto
      ultimately have s: "xs = us @ (a, la) # (b, lb) # vs" using x by simp
      have "m (a, b) \<noteq> Some (r, mc_id e)" for r using False s x(2) by blast
      then show False using n at [OF s x(2)] by (auto simp: bpe_pop_def Let_def nat_int_add split: option.splits if_splits)
    qed
    moreover have "bpe_inv m sz xs sy q" by (rule stale [OF inv]) (use False in blast)
    ultimately show ?thesis using drop by blast
  next
    case True
    then obtain us a la b lb vs r where s: "xs = us @ (a, la) # (b, lb) # vs" "mc_pos e = block_span us" "m (a, b) = Some (r, mc_id e)"
      by blast
    have "0 < la" "0 < lb" using linked_pos [OF I(1), of "(a, la)"] linked_pos [OF I(1), of "(b, lb)"] s(1) by auto
    then have "block_span [(a, la), (b, lb)] = sz (mc_id e)" using s(1,3) I(2) sized by (auto simp: sized_def)
    then have m: "m (a, b) = Some (mc_rank e, mc_id e)"
      using I(3) [unfolded remembers_def, rule_format, of us "[(a, la), (b, lb)]" vs] s(1,2) by simp
    define sy' where "sy' = join_syms (block_span us) (block_span us + la) (mc_id e) sy"
    have "bpe_pop m e sy q = (sy', push_neighbours m (block_span us) sy' q)"
      using at [OF s(1,2)] s(2) m by (simp add: bpe_pop_def Let_def sy'_def nat_int_add)
    moreover note mi = merge_inv [OF inv [unfolded s(1)] sized s(2) m sy'_def]
    moreover have "linked 0 (-1) (us @ (mc_id e, la + lb) # vs) sy'" using mi unfolding bpe_inv_def by blast
    from push_neighbours_set(3) [OF this refl] have "length (push_neighbours m (block_span us) sy' q) \<le> length q + 2" .
    ultimately show ?thesis using merge [OF s(1,2) m] by blast
  qed
qed

section \<open>The loop\<close>

lemma block_span_take_less:
  "i < j \<Longrightarrow> j \<le> length xs \<Longrightarrow> \<forall>x \<in> set xs. 0 < snd x \<Longrightarrow> block_span (take i xs) < block_span (take j xs)"
proof -
  assume a: "i < j" "j \<le> length xs" "\<forall>x \<in> set xs. 0 < snd x"
  have "take j xs = take i xs @ take (j - i) (drop i xs)" using take_add [of i "j - i" xs] a(1) by simp
  moreover have "take (j - i) (drop i xs) = xs ! i # take (j - i - 1) (drop (Suc i) xs)"
    using a by (simp add: Cons_nth_drop_Suc [symmetric] take_Cons')
  ultimately show ?thesis using a by simp
qed

lemma split_at: "Suc i < length xs \<Longrightarrow> xs = take i xs @ xs ! i # xs ! Suc i # drop (i + 2) xs"
  by (simp add: Cons_nth_drop_Suc)

lemma pair_ranksE:
  assumes "ri \<in> set (pair_ranks m (map fst xs))"
  shows "\<exists>r i c. ri = (r, i) \<and> Suc i < length xs \<and> m (fst (xs ! i), fst (xs ! Suc i)) = Some (r, c)"
proof -
  obtain r i where ri: "ri = (r, i)" by (cases ri)
  obtain c where "i < length xs - 1" "m (map fst xs ! i, map fst xs ! (i + 1)) = Some (r, c)"
    using assms by (auto simp: ri in_pair_ranks)
  then show ?thesis using ri by simp
qed

lemma lowest_pair:
  assumes inv: "bpe_inv m sz xs sy (e # q)" and x: "xs = us @ (a, la) # (b, lb) # vs" "mc_pos e = block_span us"
    and m: "m (a, b) = Some (mc_rank e, mc_id e)"
  shows "Min (set (pair_ranks m (map fst xs))) = (mc_rank e, length us)"
proof (rule Min_eqI)
  have pos: "\<forall>x \<in> set xs. 0 < snd x" using inv linked_pos by (auto simp: bpe_inv_def)
  have nth: "xs ! length us = (a, la)" "xs ! Suc (length us) = (b, lb)" by (simp_all add: x nth_append)
  show "(mc_rank e, length us) \<in> set (pair_ranks m (map fst xs))" using m by (simp add: in_pair_ranks x nth_append)
  fix ri assume "ri \<in> set (pair_ranks m (map fst xs))"
  then obtain r i c where ri: "ri = (r, i)" "Suc i < length xs" "m (fst (xs ! i), fst (xs ! Suc i)) = Some (r, c)"
    by (metis pair_ranksE)
  let ?e = "\<lparr>mc_pos = block_span (take i xs), mc_rank = r, mc_id = c\<rparr>"
  have "queue_complete m xs (e # q)" using inv by (simp add: bpe_inv_def)
  moreover have "xs = take i xs @ (fst (xs ! i), snd (xs ! i)) # (fst (xs ! Suc i), snd (xs ! Suc i)) # drop (i + 2) xs"
    using split_at [OF ri(2)] by simp
  ultimately have "?e \<in> set (e # q)" using completeD ri(3) by metis
  then have "mc_key e \<le> mc_key ?e" using inv by (auto simp: bpe_inv_def)
  then have key: "mc_rank e < r \<or> mc_rank e = r \<and> block_span us \<le> block_span (take i xs)" by (auto simp: mc_key_def x(2))
  have "length us \<le> i" if "block_span us \<le> block_span (take i xs)"
  proof (rule ccontr)
    assume "\<not> length us \<le> i"
    then have "block_span (take i xs) < block_span (take (length us) xs)" by (intro block_span_take_less) (use pos x in auto)
    then show False using that by (simp add: x)
  qed
  then show "(mc_rank e, length us) \<le> ri" using key ri(1) by auto
qed simp

lemma merge_all_step:
  assumes "bpe_inv m sz xs sy (e # q)" "xs = us @ (a, la) # (b, lb) # vs" "mc_pos e = block_span us"
    and "m (a, b) = Some (mc_rank e, mc_id e)"
  shows "merge_all m (map fst xs) = merge_all m (map fst (us @ (mc_id e, la + lb) # vs))"
proof -
  have "(mc_rank e, length us) \<in> set (pair_ranks m (map fst xs))" using assms(4) by (simp add: in_pair_ranks assms(2) nth_append)
  then have ne: "pair_ranks m (map fst xs) \<noteq> []" by auto
  show ?thesis
    using ne by (simp add: merge_all.simps [of m "map fst xs"] lowest_pair [OF assms])
      (simp add: merge_at_def assms(2,4) nth_append)
qed

text \<open>With enough fuel the loop ends, and its symbols are those of byte-pair encoding.\<close>

lemma bpe_loop_merges:
  assumes "sized m sz"
  shows "bpe_inv m sz xs sy q \<Longrightarrow> 2 * length xs + length q < fuel + 2 \<Longrightarrow>
     \<exists>sy'. bpe_loop fuel m sy q = Some sy' \<and> map sy_c (filter (\<lambda>s. sy_len s \<noteq> 0) sy') = merge_all m (map fst xs)"
proof (induction fuel arbitrary: xs sy q)
  case 0
  then show ?case by (cases xs) (auto simp: bpe_inv_def)
next
  case (Suc fuel)
  show ?case
  proof (cases q)
    case Nil
    have "pair_ranks m (map fst xs) = []"
    proof (rule ccontr)
      assume "pair_ranks m (map fst xs) \<noteq> []"
      then obtain r i c where ri: "Suc i < length xs" "m (fst (xs ! i), fst (xs ! Suc i)) = Some (r, c)"
        by (metis pair_ranksE list.set_intros(1) neq_Nil_conv)
      moreover have "xs = take i xs @ (fst (xs ! i), snd (xs ! i)) # (fst (xs ! Suc i), snd (xs ! Suc i)) # drop (i + 2) xs"
        using split_at [OF ri(1)] by simp
      moreover have "queue_complete m xs []" using Suc.prems(1) Nil by (simp add: bpe_inv_def)
      ultimately show False using completeD by (metis empty_iff list.set(1))
    qed
    then have "merge_all m (map fst xs) = map fst xs" by (simp add: merge_all.simps)
    then show ?thesis using Nil linked_ids [of 0 "-1" xs sy] Suc.prems(1) by (simp add: bpe_inv_def)
  next
    case (Cons e q')
    from Suc.prems(1) [unfolded Cons] assms show ?thesis
    proof (cases rule: bpe_pop_cases)
      case drop
      then show ?thesis using Suc.IH [OF drop(2)] Suc.prems(2) Cons by simp
    next
      case (merge us a la b lb vs sy' q'')
      then show ?thesis
        using Suc.IH [OF merge(5)] Suc.prems(2) Cons merge_all_step [OF Suc.prems(1) [unfolded Cons] merge(1-3)] by simp
    qed
  qed
qed

section \<open>The start\<close>

lemma linked_start: "pos \<le> length ids \<Longrightarrow> linked pos (int pos - 1) (map (\<lambda>c. (c, 1)) (drop pos ids)) (bpe_syms ids)"
proof (induction "length ids - pos" arbitrary: pos)
  case 0
  then show ?case by (simp add: bpe_syms_def)
next
  case (Suc k)
  then have pos: "pos < length ids" by simp
  have d: "drop pos ids = ids ! pos # drop (Suc pos) ids" using pos by (simp add: Cons_nth_drop_Suc)
  have "linked (Suc pos) (int (Suc pos) - 1) (map (\<lambda>c. (c, 1)) (drop (Suc pos) ids)) (bpe_syms ids)"
    using Suc(1) [of "Suc pos"] Suc(2) pos by simp
  moreover have "bpe_syms ids ! pos = \<lparr>sy_c = ids ! pos, sy_prev = int pos - 1,
      sy_next = (if pos + 1 < length ids then int (pos + 1) else -1), sy_len = 1\<rparr>"
    using pos by (simp add: bpe_syms_def)
  moreover have "length (bpe_syms ids) = length ids" by (simp add: bpe_syms_def)
  ultimately show ?case using pos by (simp add: d)
qed

lemma queue_start:
  "set (fold (\<lambda>i. push_pair m i (ids ! i) (ids ! (i + 1))) is q) = set q \<union> (\<Union>i \<in> set is. cands m i (ids ! i) (ids ! (i + 1)))"
  "sorted (map mc_key q) \<Longrightarrow> sorted (map mc_key (fold (\<lambda>i. push_pair m i (ids ! i) (ids ! (i + 1))) is q))"
  "length (fold (\<lambda>i. push_pair m i (ids ! i) (ids ! (i + 1))) is q) \<le> length is + length q"
proof (induction "is" arbitrary: q)
  case (Cons i "is")
  {
    case 1 show ?case by (auto simp: Cons(1) push_pair_simps(1) simp del: One_nat_def add_Suc_right)
  next
    case 2 show ?case using Cons(2) [OF push_pair_simps(2) [OF 2], of m i "ids ! i" "ids ! (i + 1)"] by simp
  next
    case 3 show ?case
      using push_pair_simps(3) [of m i "ids ! i" "ids ! (i + 1)" q] Cons(3) [of "push_pair m i (ids ! i) (ids ! (i + 1)) q"]
      by simp
  }
qed simp_all

lemma block_span_ones: "block_span (map (\<lambda>c. (c, 1)) ids) = length ids"
  by (induction ids) simp_all

lemma bpe_inv_start:
  assumes "sized m sz" "\<forall>c \<in> set ids. sz c = 1" "ids \<noteq> []"
  shows "bpe_inv m sz (map (\<lambda>c. (c, 1)) ids) (bpe_syms ids) (bpe_queue m ids)"
proof -
  let ?xs = "map (\<lambda>c. (c, 1 :: nat)) ids"
  have q: "set (bpe_queue m ids) = (\<Union>i < length ids - 1. cands m i (ids ! i) (ids ! (i + 1)))"
    unfolding bpe_queue_def queue_start(1) by (simp add: atLeast0LessThan)
  have ones: "\<forall>(c, l) \<in> set ?xs. l = sz c \<and> 0 < l" using assms(2) by auto
  have at: "us = map (\<lambda>c. (c, 1)) (take (length us) ids)" "Suc (length us) < length ids" "a = ids ! length us" "b = ids ! Suc (length us)"
    if "?xs = us @ (a, la) # (b, lb) # vs" for us a la b lb vs
  proof -
    show len: "Suc (length us) < length ids" using arg_cong [OF that, of length] by simp
    show "us = map (\<lambda>c. (c, 1)) (take (length us) ids)" using arg_cong [OF that, of "take (length us)"] by (simp add: take_map)
    show "a = ids ! length us" "b = ids ! Suc (length us)"
      using arg_cong [OF that, of "\<lambda>l. fst (l ! length us)"] arg_cong [OF that, of "\<lambda>l. fst (l ! Suc (length us))"] len
      by (simp_all add: nth_append)
  qed
  have "queue_complete m ?xs (bpe_queue m ids)"
    unfolding queue_complete_def
  proof (intro allI impI)
    fix us a la b lb vs r c
    assume x: "?xs = us @ (a, la) # (b, lb) # vs" and m: "m (a, b) = Some (r, c)"
    have "block_span us = length us" using at(1,2) [OF x] block_span_ones [of "take (length us) ids"] by simp
    then show "\<lparr>mc_pos = block_span us, mc_rank = r, mc_id = c\<rparr> \<in> set (bpe_queue m ids)"
      using at(2-4) [OF x] m by (auto simp: q cands_def intro!: bexI [of _ "length us"])
  qed
  moreover have "remembers m sz ?xs e \<and> mc_pos e < length (bpe_syms ids)" if e: "e \<in> set (bpe_queue m ids)" for e
  proof -
    obtain i where i: "i < length ids - 1" "mc_pos e = i" "m (ids ! i, ids ! (i + 1)) = Some (mc_rank e, mc_id e)"
      using e by (auto simp: q cands_def)
    have x: "?xs = map (\<lambda>c. (c, 1)) (take i ids) @ (ids ! i, 1) # (ids ! (i + 1), 1) # map (\<lambda>c. (c, 1)) (drop (i + 2) ids)"
      using arg_cong [OF split_at [of i ids], of "map (\<lambda>c. (c, 1 :: nat))"] i(1) by simp
    have "remembers m sz ?xs \<lparr>mc_pos = block_span (map (\<lambda>c. (c, 1)) (take i ids)), mc_rank = mc_rank e, mc_id = mc_id e\<rparr>"
      by (rule remembers_new [OF assms(1) ones x i(3)])
    then have "remembers m sz ?xs e" using i(1,2) block_span_ones [of "take i ids"] by (cases e) simp
    then show ?thesis using i(1,2) by (simp add: bpe_syms_def)
  qed
  moreover have "sorted (map mc_key (bpe_queue m ids))" unfolding bpe_queue_def by (rule queue_start(2)) simp
  ultimately show ?thesis using linked_start [of 0 ids] assms(2,3) by (auto simp: bpe_inv_def)
qed

lemma bpe_merge_all:
  assumes "sized m sz" "\<forall>b. sz (byte_id b) = 1"
  shows "bpe m byte_id word = merge_all m (map byte_id word)"
proof (cases "length word \<le> 1")
  case True
  then show ?thesis by (cases word) (auto simp: bpe_def merge_all.simps pair_ranks_def List.map_filter_def)
next
  case False
  let ?ids = "map byte_id word"
  have inv: "bpe_inv m sz (map (\<lambda>c. (c, 1)) ?ids) (bpe_syms ?ids) (bpe_queue m ?ids)"
    by (rule bpe_inv_start) (use assms False in auto)
  have "length (bpe_queue m ?ids) \<le> length word - 1"
    using queue_start(3) [of m ?ids "[0..<length ?ids - 1]" "[]"] by (simp add: bpe_queue_def)
  then have "2 * length (map (\<lambda>c. (c, 1 :: nat)) ?ids) + length (bpe_queue m ?ids) < 3 * length word + 2" by simp
  from bpe_loop_merges [OF assms(1) inv this] obtain sy' where
    r: "bpe_loop (3 * length word) m (bpe_syms ?ids) (bpe_queue m ?ids) = Some sy'"
    "map sy_c (filter (\<lambda>s. sy_len s \<noteq> 0) sy') = merge_all m (map fst (map (\<lambda>c. (c, 1 :: nat)) ?ids))" by blast
  have "map fst (map (\<lambda>c. (c, 1 :: nat)) ?ids) = ?ids" by (simp add: comp_def)
  note r(2) [unfolded this]
  then show ?thesis using False r(1) by (auto simp: bpe_def Let_def)
qed

end
