(* ===== verification/Tokenizer.thy ===== *)
theory Tokenizer
  imports Utf8 Bpe
begin

text \<open>
  \<^verbatim>\<open>text/tokenizer.cpp\<close>: the byte-level tokenizer. A text is split on the added tokens by two tries, the
  rest is cut into words by three hand-compiled regular expressions, and every word goes through
  \<^verbatim>\<open>bpe\<close>. The Unicode tables, which a tool generates, are the parameter \<open>unicode_tables\<close>. A document is the
  value that \<^verbatim>\<open>json_parse\<close> returns. Where the code dereferences a null pointer or the value of a failed
  \<^verbatim>\<open>Result\<close>, the model returns \<^verbatim>\<open>Internal\<close>, a code that nothing else here returns.
\<close>

section \<open>Character classes\<close>

definition kN :: u8 where "kN = 1"
definition kL :: u8 where "kL = 2"
definition kM :: u8 where "kM = 4"
definition kP :: u8 where "kP = 8"
definition kS :: u8 where "kS = 16"
definition kWS :: u8 where "kWS = 32"
definition kCJK :: u8 where "kCJK = 64"

record unicode_tables =
  kClassN :: "(nat \<times> nat) list"
  kClassL :: "(nat \<times> nat) list"
  kClassM :: "(nat \<times> nat) list"
  kClassP :: "(nat \<times> nat) list"
  kClassS :: "(nat \<times> nat) list"
  kClassWS :: "(nat \<times> nat) list"

definition fill_class :: "(nat \<times> nat) list \<Rightarrow> u8 \<Rightarrow> nat \<Rightarrow> u8 \<Rightarrow> u8" where
  "fill_class ranges b c v = (if \<exists>(lo, hi) \<in> set ranges. lo \<le> c \<and> c \<le> hi then v OR b else v)"

definition class_table :: "unicode_tables \<Rightarrow> nat \<Rightarrow> u8" where
  "class_table ut c =
     (let v = fill_class (kClassN ut) kN c 0;
          v = fill_class (kClassL ut) kL c v;
          v = fill_class (kClassM ut) kM c v;
          v = fill_class (kClassP ut) kP c v;
          v = fill_class (kClassS ut) kS c v;
          v = fill_class (kClassWS ut) kWS c v
      in fill_class [(0x4E00, 0x9FA5), (0x3040, 0x309F), (0x30A0, 0x30FF)] kCJK c v)"

section \<open>The byte map\<close>

definition kept_byte :: "nat \<Rightarrow> bool" where
  "kept_byte b \<longleftrightarrow> b \<ge> 33 \<and> b \<le> 126 \<or> b \<ge> 161 \<and> b \<le> 172 \<or> b \<ge> 174"

text \<open>A byte that is not kept gets the next of the characters from 256 on.\<close>

definition to_char :: "nat \<Rightarrow> nat" where
  "to_char b = (if kept_byte b then b else 256 + length (filter (\<lambda>i. \<not> kept_byte i) [0..<b]))"

definition to_byte :: "nat \<Rightarrow> nat option" where
  "to_byte c = find (\<lambda>b. to_char b = c) [0..<256]"

function token_chars :: "string \<Rightarrow> string option" where
  "token_chars s =
     (if s = [] then Some []
      else case utf8_next s of
             (r, cp, len) \<Rightarrow>
               if r \<noteq> U8Ok \<or> cp \<ge> 512 then None
               else case to_byte cp of
                      None \<Rightarrow> None
                    | Some b \<Rightarrow> map_option (\<lambda>out. char_of b # out) (token_chars (drop len s)))"
  by pat_completeness auto
termination
  by (relation "measure length") (auto dest: utf8_next_len(1) [OF sym])

declare token_chars.simps [simp del]

definition bytes_of_token_string :: "string \<Rightarrow> string" where
  "bytes_of_token_string s = (case token_chars s of Some out \<Rightarrow> out | None \<Rightarrow> s)"

section \<open>The trie of the added tokens\<close>

text \<open>Node 0 is the root; a node holds the id of the token that ends there, or -1.\<close>

record trie =
  tr_nodes :: "int list"
  tr_edges :: "nat \<times> char \<Rightarrow> nat option"

definition empty_trie :: trie where
  "empty_trie = \<lparr>tr_nodes = [-1], tr_edges = Map.empty\<rparr>"

fun trie_path :: "string \<Rightarrow> nat \<Rightarrow> trie \<Rightarrow> nat \<times> trie" where
  "trie_path [] n t = (n, t)"
| "trie_path (b # s) n t =
     (case tr_edges t (n, b) of
        Some n' \<Rightarrow> trie_path s n' t
      | None \<Rightarrow> let n' = length (tr_nodes t)
                in trie_path s n' (t\<lparr>tr_nodes := tr_nodes t @ [-1], tr_edges := (tr_edges t)((n, b) \<mapsto> n')\<rparr>))"

definition trie_insert :: "string \<Rightarrow> u32 \<Rightarrow> trie \<Rightarrow> trie" where
  "trie_insert s i t = (case trie_path s 0 t of (n, t) \<Rightarrow> t\<lparr>tr_nodes := (tr_nodes t)[n := sint i]\<rparr>)"

text \<open>\<open>k\<close> bytes have been read to node \<open>n\<close>; \<open>best\<close> is the longest token so far, of length 0 when there is none.\<close>

fun longest_from :: "trie \<Rightarrow> nat \<Rightarrow> nat \<Rightarrow> nat \<times> u32 \<Rightarrow> string \<Rightarrow> nat \<times> u32" where
  "longest_from t n k best [] = best"
| "longest_from t n k best (c # s) =
     (case tr_edges t (n, c) of
        None \<Rightarrow> best
      | Some n' \<Rightarrow>
          longest_from t n' (k + 1) (if tr_nodes t ! n' \<ge> 0 then (k + 1, word_of_int (tr_nodes t ! n')) else best) s)"

definition longest_at :: "trie \<Rightarrow> string \<Rightarrow> nat \<times> u32" where
  "longest_at t s = longest_from t 0 0 (0, 0) s"

definition trie_empty :: "trie \<Rightarrow> bool" where
  "trie_empty t \<longleftrightarrow> length (tr_nodes t) = 1"

section \<open>Splitting on the added tokens\<close>

record segment =
  sg_begin :: nat
  sg_end :: nat
  sg_id :: int

text \<open>The gap that \<^verbatim>\<open>split_on\<close> puts out before a match and at the end, when there is one.\<close>

definition gap :: "nat \<Rightarrow> nat \<Rightarrow> segment list" where
  "gap a b = (if b > a then [\<lparr>sg_begin = a, sg_end = b, sg_id = -1\<rparr>] else [])"

function split_text :: "trie \<Rightarrow> string \<Rightarrow> nat \<Rightarrow> nat \<Rightarrow> nat \<Rightarrow> segment list" where
  "split_text t s la i e =
     (if i \<ge> e then gap la e
      else case longest_at t (drop i (take e s)) of
             (n, d) \<Rightarrow>
               if n = 0 then split_text t s la (i + 1) e
               else gap la i @ \<lparr>sg_begin = i, sg_end = i + n, sg_id = uint d\<rparr> # split_text t s (i + n) (i + n) e)"
  by pat_completeness auto
termination
  by (relation "measure (\<lambda>(t, s, la, i, e). e - i)") auto

declare split_text.simps [simp del]

definition split_on :: "trie \<Rightarrow> string \<Rightarrow> segment list \<Rightarrow> segment list" where
  "split_on t s segs =
     (if trie_empty t then segs
      else concat (map (\<lambda>g. if sg_id g \<ge> 0 then [g] else split_text t s (sg_begin g) (sg_begin g) (sg_end g)) segs))"

section \<open>Cutting a text into words\<close>

type_synonym piece = "nat \<times> nat"

function split_piece :: "(nat \<Rightarrow> nat \<Rightarrow> nat) \<Rightarrow> nat \<Rightarrow> nat \<Rightarrow> nat \<Rightarrow> piece list" where
  "split_piece match la i e =
     (if i \<ge> e then (if e > la then [(la, e)] else [])
      else let n = match i e
           in if n = 0 then split_piece match la (i + 1) e
              else (if i > la then [(la, i)] else []) @ (i, i + n) # split_piece match (i + n) (i + n) e)"
  by pat_completeness auto
termination
  by (relation "measure (\<lambda>(m, la, i, e). e - i)") auto

declare split_piece.simps [simp del]

definition split_isolated :: "(nat \<Rightarrow> nat \<Rightarrow> nat) \<Rightarrow> piece list \<Rightarrow> piece list" where
  "split_isolated match ps = concat (map (\<lambda>(b, e). split_piece match b b e) ps)"

definition is_ascii_punct :: "nat \<Rightarrow> bool" where
  "is_ascii_punct c \<longleftrightarrow> c \<ge> 0x21 \<and> c \<le> 0x2F \<or> c \<ge> 0x3A \<and> c \<le> 0x40 \<or> c \<ge> 0x5B \<and> c \<le> 0x60 \<or> c \<ge> 0x7B \<and> c \<le> 0x7E"

definition is_ascii_alpha :: "nat \<Rightarrow> bool" where
  "is_ascii_alpha c \<longleftrightarrow> c \<ge> 0x41 \<and> c \<le> 0x5A \<or> c \<ge> 0x61 \<and> c \<le> 0x7A"

definition has_class :: "unicode_tables \<Rightarrow> nat list \<Rightarrow> nat \<Rightarrow> u8 \<Rightarrow> bool" where
  "has_class ut cp i bits \<longleftrightarrow> class_table ut (cp ! i) AND bits \<noteq> 0"

definition crlf :: "nat list \<Rightarrow> nat \<Rightarrow> bool" where
  "crlf cp i \<longleftrightarrow> cp ! i = 0x0D \<or> cp ! i = 0x0A"

text \<open>The loops that run while the characters are of a kind: where they stop.\<close>

function run_end :: "(nat \<Rightarrow> bool) \<Rightarrow> nat \<Rightarrow> nat \<Rightarrow> nat" where
  "run_end p j e = (if j < e \<and> p j then run_end p (j + 1) e else j)"
  by pat_completeness auto
termination
  by (relation "measure (\<lambda>(p, j, e). e - j)") auto

declare run_end.simps [simp del]

definition match_numbers :: "unicode_tables \<Rightarrow> nat list \<Rightarrow> nat \<Rightarrow> nat \<Rightarrow> nat" where
  "match_numbers ut cp i e = run_end (\<lambda>j. has_class ut cp j kN) i (min e (i + 3)) - i"

definition match_cjk :: "unicode_tables \<Rightarrow> nat list \<Rightarrow> nat \<Rightarrow> nat \<Rightarrow> nat" where
  "match_cjk ut cp i e = run_end (\<lambda>j. has_class ut cp j kCJK) i e - i"

text \<open>The loop of A4: the last line break before \<open>k\<close>.\<close>

fun last_crlf :: "nat list \<Rightarrow> nat \<Rightarrow> nat \<Rightarrow> nat option" where
  "last_crlf cp i k = (if k \<le> i then None else if crlf cp (k - 1) then Some (k - i) else last_crlf cp i (k - 1))"

declare last_crlf.simps [simp del]

definition match_space :: "unicode_tables \<Rightarrow> nat list \<Rightarrow> nat \<Rightarrow> nat \<Rightarrow> nat" where
  "match_space ut cp i e =
     (if \<not> has_class ut cp i kWS then 0
      else let j = run_end (\<lambda>j. has_class ut cp j kWS) i e
           in case last_crlf cp i j of
                Some n \<Rightarrow> n
              | None \<Rightarrow> if j = e then j - i else if j - i \<ge> 2 then j - 1 - i else j - i)"

definition match_symbols :: "unicode_tables \<Rightarrow> nat list \<Rightarrow> nat \<Rightarrow> nat \<Rightarrow> nat" where
  "match_symbols ut cp i e =
     (let j = (if cp ! i = 0x20 \<and> i + 1 < e \<and> has_class ut cp (i + 1) (kP OR kS) then i + 1 else i)
      in if has_class ut cp j (kP OR kS)
         then run_end (crlf cp) (run_end (\<lambda>j. has_class ut cp j (kP OR kS)) j e) e - i
         else match_space ut cp i e)"

definition match_letters :: "unicode_tables \<Rightarrow> nat list \<Rightarrow> nat \<Rightarrow> nat \<Rightarrow> nat" where
  "match_letters ut cp i e =
     (let opt = \<not> crlf cp i \<and> \<not> has_class ut cp i (kL OR kP OR kS);
          j = (if opt \<and> i + 1 < e \<and> has_class ut cp (i + 1) (kL OR kM) then i + 1 else i)
      in if has_class ut cp j (kL OR kM) then run_end (\<lambda>j. has_class ut cp j (kL OR kM)) j e - i
         else match_symbols ut cp i e)"

definition match_words :: "unicode_tables \<Rightarrow> nat list \<Rightarrow> nat \<Rightarrow> nat \<Rightarrow> nat" where
  "match_words ut cp i e =
     (if is_ascii_punct (cp ! i) \<and> i + 1 < e \<and> is_ascii_alpha (cp ! (i + 1))
      then run_end (\<lambda>j. is_ascii_alpha (cp ! j)) (i + 1) e - i
      else match_letters ut cp i e)"

definition pre_tokenize :: "unicode_tables \<Rightarrow> nat list \<Rightarrow> piece list" where
  "pre_tokenize ut cp =
     (let a = [(0, length cp)];
          b = split_isolated (match_numbers ut cp) a;
          a = split_isolated (match_cjk ut cp) b
      in split_isolated (match_words ut cp) a)"

section \<open>The tokenizer\<close>

record tokenizer =
  tk_vocab_size :: nat
  tk_str :: "string list"
  tk_bytes :: "string list"
  tk_flags :: "u8 list"
  tk_vocab :: "string \<Rightarrow> u32 option"
  tk_added :: "string \<Rightarrow> u32 option"
  tk_merges :: merges
  tk_byte_id :: "char \<Rightarrow> u32"
  tk_raw_trie :: trie
  tk_norm_trie :: trie

definition encode_text :: "unicode_tables \<Rightarrow> tokenizer \<Rightarrow> string \<Rightarrow> u32 list" where
  "encode_text ut t s =
     (let cp = code_points s
      in if cp = [] then []
         else concat (map (\<lambda>(b, e). bpe (tk_merges t) (tk_byte_id t) (concat (map utf8_append (map ((!) cp) [b..<e]))))
                (pre_tokenize ut cp)))"

definition encode :: "unicode_tables \<Rightarrow> tokenizer \<Rightarrow> string \<Rightarrow> u32 list" where
  "encode ut t s =
     (let segs = [\<lparr>sg_begin = 0, sg_end = length s, sg_id = -1\<rparr>];
          segs = split_on (tk_raw_trie t) s segs;
          segs = split_on (tk_norm_trie t) s segs
      in concat (map (\<lambda>g. if sg_id g \<ge> 0 then [word_of_int (sg_id g)]
                          else encode_text ut t (take (sg_end g - sg_begin g) (drop (sg_begin g) s))) segs))"

definition token_bytes :: "tokenizer \<Rightarrow> u32 \<Rightarrow> string" where
  "token_bytes t d = (if unat d \<ge> tk_vocab_size t then [] else tk_bytes t ! unat d)"

definition token_string :: "tokenizer \<Rightarrow> u32 \<Rightarrow> string" where
  "token_string t d = (if unat d \<ge> tk_vocab_size t then [] else tk_str t ! unat d)"

definition token_id :: "tokenizer \<Rightarrow> string \<Rightarrow> u32 option" where
  "token_id t content = (case tk_added t content of Some d \<Rightarrow> Some d | None \<Rightarrow> tk_vocab t content)"

definition is_special :: "tokenizer \<Rightarrow> u32 \<Rightarrow> bool" where
  "is_special t d \<longleftrightarrow> unat d < tk_vocab_size t \<and> tk_flags t ! unat d AND 4 \<noteq> 0"

definition is_added :: "tokenizer \<Rightarrow> u32 \<Rightarrow> bool" where
  "is_added t d \<longleftrightarrow> unat d < tk_vocab_size t \<and> tk_flags t ! unat d AND 2 \<noteq> 0"

definition decode_one :: "tokenizer \<Rightarrow> bool \<Rightarrow> u32 \<Rightarrow> string" where
  "decode_one t skip_special d =
     (if unat d \<ge> tk_vocab_size t \<or> tk_flags t ! unat d AND 1 = 0 then []
      else if skip_special \<and> tk_flags t ! unat d AND 4 \<noteq> 0 then []
      else tk_bytes t ! unat d)"

definition decode :: "tokenizer \<Rightarrow> u32 list \<Rightarrow> bool \<Rightarrow> string" where
  "decode t ids skip_special = fst (utf8_lossy False (concat (map (decode_one t skip_special) ids)))"

text \<open>\<^verbatim>\<open>StreamDecoder\<close>: its state is the pending bytes.\<close>

definition stream_push :: "tokenizer \<Rightarrow> bool \<Rightarrow> u32 \<Rightarrow> string \<Rightarrow> string \<times> string" where
  "stream_push t skip_special d pending =
     (if unat d \<ge> tk_vocab_size t then ([], pending)
      else if skip_special \<and> is_special t d then ([], pending)
      else let pending = pending @ token_bytes t d; (out, held) = utf8_lossy True pending
           in (out, drop (length pending - held) pending))"

definition stream_flush :: "string \<Rightarrow> string \<times> string" where
  "stream_flush pending = (fst (utf8_lossy False pending), [])"

fun stream_decode :: "tokenizer \<Rightarrow> bool \<Rightarrow> u32 list \<Rightarrow> string \<Rightarrow> string" where
  "stream_decode t skip_special [] pending = fst (stream_flush pending)"
| "stream_decode t skip_special (d # ds) pending =
     (case stream_push t skip_special d pending of (out, pending) \<Rightarrow> out @ stream_decode t skip_special ds pending)"

section \<open>Loading\<close>

text \<open>The three patterns that the matchers above stand for, as bytes.\<close>

definition kWant :: "string list" where
  "kWant = [
     map char_of [92 :: nat, 112, 123, 78, 125, 123, 49, 44, 51, 125],
     map char_of [91 :: nat, 228, 184, 128, 45, 233, 190, 165, 227, 129, 128, 45, 227, 130, 159, 227, 130, 160, 45, 227, 131,
                 191, 93, 43],
     map char_of [91 :: nat, 33, 34, 35, 36, 37, 38, 39, 40, 41, 42, 43, 44, 92, 45, 46, 47, 58, 59, 60, 61, 62, 63, 64, 92, 91,
                 92, 92, 92, 93, 94, 95, 96, 123, 124, 125, 126, 93, 91, 65, 45, 90, 97, 45, 122, 93, 43, 124, 91, 94,
                 13, 10, 92, 112, 123, 76, 125, 92, 112, 123, 80, 125, 92, 112, 123, 83, 125, 93, 63, 91, 92, 112, 123,
                 76, 125, 92, 112, 123, 77, 125, 93, 43, 124, 32, 63, 91, 92, 112, 123, 80, 125, 92, 112, 123, 83, 125,
                 93, 43, 91, 13, 10, 93, 42, 124, 92, 115, 42, 91, 13, 10, 93, 43, 124, 92, 115, 43, 40, 63, 33, 92, 83,
                 41, 124, 92, 115, 43]]"

definition split_is :: "json \<Rightarrow> string \<Rightarrow> bool" where
  "split_is s want \<longleftrightarrow>
     (let rx = (case json_find s ''pattern'' of None \<Rightarrow> [] | Some pat \<Rightarrow> string_or pat ''Regex'' [])
      in \<not> (string_or s ''type'' [] \<noteq> ''Split'' \<or> string_or s ''behavior'' [] \<noteq> ''Isolated'' \<or> bool_or s ''invert'' False
            \<or> rx \<noteq> want))"

definition check_pre_tokenizer :: "json \<Rightarrow> unit result" where
  "check_pre_tokenizer doc =
     (let seq = (case json_find doc ''pre_tokenizer'' of None \<Rightarrow> None | Some pt \<Rightarrow> json_find pt ''pretokenizers'')
      in case (case seq of None \<Rightarrow> Inl Corrupt | Some x \<Rightarrow> as_array x) of
           Inl e \<Rightarrow> Inl Corrupt
         | Inr arr \<Rightarrow>
             if length arr \<noteq> 4 then Inl Corrupt
             else if \<not> (\<forall>i < 3. split_is (arr ! i) (kWant ! i)) then Inl Unimplemented
             else if string_or (arr ! 3) ''type'' [] \<noteq> ''ByteLevel'' \<or> bool_or (arr ! 3) ''use_regex'' True
                     \<or> bool_or (arr ! 3) ''add_prefix_space'' True then Inl Unimplemented
             else case json_find doc ''normalizer'' of
                    None \<Rightarrow> Inr ()
                  | Some nz \<Rightarrow>
                      if nz = JNull then Inr ()
                      else case json_find nz ''normalizers'' of
                             None \<Rightarrow> Inl Unimplemented
                           | Some ns \<Rightarrow> if string_or nz ''type'' [] \<noteq> ''Sequence'' \<or> json_size ns \<noteq> 0
                                        then Inl Unimplemented else Inr ())"

definition check_model :: "json \<Rightarrow> json result" where
  "check_model doc =
     (case json_find doc ''model'' of
        None \<Rightarrow> Inl Corrupt
      | Some model \<Rightarrow>
          if string_or model ''type'' [] \<noteq> ''BPE'' then Inl Corrupt
          else if bool_or model ''byte_fallback'' False \<or> bool_or model ''ignore_merges'' False then Inl Unimplemented
          else case json_find model ''dropout'' of
                 None \<Rightarrow> Inl Internal
               | Some d \<Rightarrow> if d \<noteq> JNull then Inl Unimplemented else Inr model)"

fun load_vocab :: "(string \<times> json) list \<Rightarrow> (string \<times> u32) list result" where
  "load_vocab [] = Inr []"
| "load_vocab ((k, v) # ms) =
     rbind (as_uint v) (\<lambda>d. rbind (load_vocab ms) (\<lambda>vs. Inr ((k, ucast d) # vs)))"

definition added_id :: "json \<Rightarrow> u32" where
  "added_id a = word_of_int (int_or a ''id'' 0)"

definition max_id :: "(string \<times> u32) list \<Rightarrow> json list \<Rightarrow> u32" where
  "max_id vs added = fold max (map added_id added) (fold max (map snd vs) 0)"

text \<open>The loop over the vocabulary, in an unspecified order in the code: it matters only when two strings share an id.\<close>

definition name_vocab :: "(string \<times> u32) list \<Rightarrow> tokenizer \<Rightarrow> tokenizer" where
  "name_vocab vs t =
     fold (\<lambda>(k, d) t. t\<lparr>tk_str := (tk_str t)[unat d := k], tk_flags := (tk_flags t)[unat d := tk_flags t ! unat d OR 1]\<rparr>) vs t"

definition add_token :: "json \<Rightarrow> tokenizer \<Rightarrow> tokenizer result" where
  "add_token a t =
     (let d = added_id a; content = string_or a ''content'' []
      in if content = [] then Inl Corrupt
         else if bool_or a ''lstrip'' False \<or> bool_or a ''rstrip'' False \<or> bool_or a ''single_word'' False then Inl Unimplemented
         else let t = t\<lparr>tk_str := (tk_str t)[unat d := content],
                        tk_flags := (tk_flags t)[unat d := tk_flags t ! unat d OR (1 OR 2 OR (if bool_or a ''special'' False then 4 else 0))],
                        tk_added := (tk_added t)(content \<mapsto> d)\<rparr>
              in Inr (if bool_or a ''normalized'' False then t\<lparr>tk_norm_trie := trie_insert content d (tk_norm_trie t)\<rparr>
                      else t\<lparr>tk_raw_trie := trie_insert content d (tk_raw_trie t)\<rparr>))"

fun add_tokens :: "json list \<Rightarrow> tokenizer \<Rightarrow> tokenizer result" where
  "add_tokens [] t = Inr t"
| "add_tokens (a # as) t = rbind (add_token a t) (add_tokens as)"

definition fill_bytes :: "tokenizer \<Rightarrow> tokenizer" where
  "fill_bytes t =
     t\<lparr>tk_bytes := map (\<lambda>i. if tk_flags t ! i AND 1 \<noteq> 0 then bytes_of_token_string (tk_str t ! i) else tk_bytes t ! i)
        [0..<tk_vocab_size t]\<rparr>"

definition load_byte_ids :: "tokenizer \<Rightarrow> tokenizer result" where
  "load_byte_ids t =
     (if \<exists>b < 256. tk_vocab t (utf8_append (to_char b)) = None then Inl Corrupt
      else Inr (t\<lparr>tk_byte_id := \<lambda>c. the (tk_vocab t (utf8_append (to_char (byte c))))\<rparr>))"

text \<open>A merge is the text \<open>a b\<close> with one space, or an array of two texts.\<close>

definition merge_parts :: "json \<Rightarrow> (string \<times> string) result" where
  "merge_parts m =
     (case m of
        JString s \<Rightarrow>
          (let a = takeWhile (\<lambda>c. c \<noteq> CHR 0x20) s; r = drop (length a) s
           in if r = [] \<or> CHR 0x20 \<in> set (tl r) then Inl Corrupt else Inr (a, tl r))
      | JArray [x, y] \<Rightarrow>
          (case (as_string x, as_string y) of (Inr a, Inr b) \<Rightarrow> Inr (a, b) | _ \<Rightarrow> Inl Internal)
      | _ \<Rightarrow> Inl Corrupt)"

fun load_merges :: "(string \<Rightarrow> u32 option) \<Rightarrow> nat \<Rightarrow> json list \<Rightarrow> merges \<Rightarrow> merges result" where
  "load_merges vocab rank [] ms = Inr ms"
| "load_merges vocab rank (m # rest) ms =
     rbind (merge_parts m) (\<lambda>(a, b).
       case (vocab a, vocab b, vocab (a @ b)) of
         (Some x, Some y, Some z) \<Rightarrow>
           load_merges vocab (rank + 1) rest (if ms (x, y) = None then ms((x, y) \<mapsto> (rank, z)) else ms)
       | _ \<Rightarrow> Inl Corrupt)"

definition blank_tokenizer :: "(string \<times> u32) list \<Rightarrow> nat \<Rightarrow> tokenizer" where
  "blank_tokenizer vs n =
     \<lparr>tk_vocab_size = n, tk_str = replicate n [], tk_bytes = replicate n [], tk_flags = replicate n 0,
      tk_vocab = map_of vs, tk_added = Map.empty, tk_merges = Map.empty, tk_byte_id = \<lambda>_. 0,
      tk_raw_trie = empty_trie, tk_norm_trie = empty_trie\<rparr>"

definition tokenizer_load :: "json \<Rightarrow> tokenizer result" where
  "tokenizer_load doc =
     rbind (check_model doc) (\<lambda>model.
     rbind (check_pre_tokenizer doc) (\<lambda>_.
     rbind (json_at model ''vocab'') (\<lambda>vocab.
     rbind (as_object vocab) (\<lambda>vobj.
     rbind (load_vocab vobj) (\<lambda>vs.
     rbind (json_at doc ''added_tokens'') (\<lambda>added.
     rbind (as_array added) (\<lambda>aarr.
     rbind (add_tokens aarr (name_vocab vs (blank_tokenizer vs (unat (max_id vs aarr + 1))))) (\<lambda>t.
     rbind (load_byte_ids (fill_bytes t)) (\<lambda>t.
     rbind (json_at model ''merges'') (\<lambda>merges.
     rbind (as_array merges) (\<lambda>marr.
     rbind (load_merges (tk_vocab t) 0 marr Map.empty) (\<lambda>ms.
     Inr (t\<lparr>tk_merges := ms\<rparr>)))))))))))))"

end
