(* ===== verification/Tokenizer_Props.thy ===== *)
theory Tokenizer_Props
  imports Tokenizer
begin

text \<open>
  What the tokenizer promises: decoding what was encoded gives back the text, decoding token by token
  gives what decoding at once gives, words are encoded by byte-pair encoding, and the trie finds the
  longest added token. All of it for tokenizers that \<^verbatim>\<open>load\<close> returns.
\<close>

section \<open>The byte map\<close>

lemma to_char_range: "b < 256 \<Longrightarrow> to_char b < 512"
  using length_filter_le [of "\<lambda>i. \<not> kept_byte i" "[0..<b]"] by (simp add: to_char_def)

lemma count_unkept_less:
  assumes "b < b'" "\<not> kept_byte b"
  shows "length (filter (\<lambda>i. \<not> kept_byte i) [0..<b]) < length (filter (\<lambda>i. \<not> kept_byte i) [0..<b'])"
proof -
  have "[0..<b'] = [0..<b] @ [b..<b']" using assms(1) by (metis le_add_diff_inverse less_imp_le upt_add_eq_append zero_le)
  moreover have "[b..<b'] = b # [Suc b..<b']" using assms(1) by (simp add: upt_conv_Cons)
  ultimately show ?thesis using assms(2) by simp
qed

lemma to_char_inj: "b < 256 \<Longrightarrow> b' < 256 \<Longrightarrow> to_char b = to_char b' \<Longrightarrow> b = b'"
  using count_unkept_less [of b b'] count_unkept_less [of b' b]
  by (cases b b' rule: linorder_cases) (auto simp: to_char_def split: if_splits)

lemma to_byte_to_char:
  assumes "b < 256"
  shows "to_byte (to_char b) = Some b"
proof -
  have "to_char j \<noteq> to_char b" if "j < b" for j using to_char_inj [of j b] assms that by auto
  then show ?thesis unfolding to_byte_def find_Some_iff using assms by (auto intro!: exI [of _ b])
qed

lemma utf8_next_small:
  assumes "cp < 0x800"
  shows "utf8_next (utf8_append cp @ s) = (U8Ok, cp, length (utf8_append cp))"
proof (cases "cp < 0x80")
  case True
  then show ?thesis by (simp add: utf8_append_arith(1) utf8_next_def byte_def)
next
  case False
  define x y where "x = cp div 64" and "y = cp mod 64"
  have xy: "cp = x * 64 + y" "y < 64" by (simp_all add: x_def y_def)
  then have x: "2 \<le> x" "x < 32" using False assms by linarith+
  have b: "byte (char_of (0xC0 + x)) = 0xC0 + x" "byte (char_of (0x80 + y)) = 0x80 + y"
    using x xy(2) by (simp_all add: byte_def)
  have m: "(0xC0 + x) mod 32 = x" "(0x80 + y) mod 64 = y" using x(2) xy(2) by (simp_all add: mod_add_eq [symmetric])
  have "utf8_append cp = [char_of (0xC0 + x), char_of (0x80 + y)]"
    using utf8_append_arith(2) [of cp] False assms by (simp add: x_def y_def)
  moreover have "utf8_lead (0xC0 + x) = Some (2, x, 0x80, 0xBF)" using x m by (simp add: utf8_lead_def nat_and_low)
  moreover have "utf8_rest 1 2 0x80 0xBF x (char_of (0x80 + y) # s) = (U8Ok, cp, 2)"
    unfolding utf8_rest_2 using b(2) m(2) xy by simp
  ultimately show ?thesis using b(1) by (simp add: utf8_next_def)
qed

lemma token_chars_Nil [simp]: "token_chars [] = Some []"
  by (simp add: token_chars.simps [of "[]"])

lemma token_chars_byte:
  assumes "b < 256"
  shows "token_chars (utf8_append (to_char b)) = Some [char_of b]"
proof -
  let ?s = "utf8_append (to_char b)"
  have u: "utf8_next ?s = (U8Ok, to_char b, length ?s)" using utf8_next_small [of "to_char b" "[]"] to_char_range [OF assms] by simp
  have "?s \<noteq> []" by (simp add: utf8_append_def)
  then show ?thesis
    using u to_char_range [OF assms] to_byte_to_char [OF assms] by (simp add: token_chars.simps [of ?s])
qed

lemma token_chars_append: "token_chars a = Some x \<Longrightarrow> token_chars (a @ b) = map_option ((@) x) (token_chars b)"
proof (induction a arbitrary: x rule: token_chars.induct)
  case (1 a)
  show ?case
  proof (cases "a = []")
    case True
    then show ?thesis using 1(2) by (cases "token_chars b") simp_all
  next
    case False
    obtain r cp len where u: "utf8_next a = (r, cp, len)" by (metis prod_cases3)
    obtain d y where d: "r = U8Ok" "\<not> cp \<ge> 512" "to_byte cp = Some d" "token_chars (drop len a) = Some y" "x = char_of d # y"
      using 1(2) False u by (auto simp: token_chars.simps [of a] split: if_splits option.splits)
    have n: "utf8_next (a @ b) = (U8Ok, cp, len)" using utf8_next_append [OF False u] d(1) by simp
    have "token_chars (drop len a @ b) = map_option ((@) y) (token_chars b)"
      by (rule 1(1) [OF False u [symmetric] refl _ d(3,4)]) (use d in simp)
    then show ?thesis using n d False utf8_next_len(2) [OF u False]
      by (cases "token_chars b") (simp_all add: token_chars.simps [of "a @ b"])
  qed
qed

section \<open>Pieces\<close>

lemma run_end_bounds: "j \<le> e \<Longrightarrow> j \<le> run_end p j e \<and> run_end p j e \<le> e"
proof (induction p j e rule: run_end.induct)
  case (1 p j e)
  then show ?case by (subst (1 2) run_end.simps) auto
qed

lemmas run_end_le = run_end_bounds [THEN conjunct1] run_end_bounds [THEN conjunct2]

definition match_ok :: "(nat \<Rightarrow> nat \<Rightarrow> nat) \<Rightarrow> bool" where
  "match_ok match \<longleftrightarrow> (\<forall>i e. i < e \<longrightarrow> i + match i e \<le> e)"

definition ranges :: "piece list \<Rightarrow> nat list" where
  "ranges ps = concat (map (\<lambda>(b, e). [b..<e]) ps)"

lemma ranges_simps [simp]: "ranges [] = []" "ranges ((b, e) # ps) = [b..<e] @ ranges ps" "ranges (ps @ qs) = ranges ps @ ranges qs"
  by (simp_all add: ranges_def)

lemma split_piece_ranges: "match_ok match \<Longrightarrow> la \<le> i \<Longrightarrow> ranges (split_piece match la i e) = [la..<e]"
proof (induction match la i e rule: split_piece.induct)
  case (1 match la i e)
  show ?case
  proof (cases "i \<ge> e")
    case True
    then show ?thesis by (simp add: split_piece.simps)
  next
    case False
    define n where "n = match i e"
    have n: "i + n \<le> e" using 1(3) False by (simp add: match_ok_def n_def)
    show ?thesis
    proof (cases "n = 0")
      case True
      then show ?thesis using 1(1) [OF False n_def] 1(3,4) False by (simp add: split_piece.simps [of match la i] n_def)
    next
      case no: False
      have "ranges (split_piece match (i + n) (i + n) e) = [i + n..<e]" using 1(2) [OF False n_def no] 1(3) by simp
      moreover have "[la..<e] = [la..<i] @ [i..<i + n] @ [i + n..<e]"
        using 1(4) n by (metis le_add1 le_add_diff_inverse order_trans upt_add_eq_append)
      ultimately show ?thesis using False no 1(4) by (simp add: split_piece.simps [of match la i] flip: n_def)
    qed
  qed
qed

lemma split_isolated_ranges: "match_ok match \<Longrightarrow> ranges (split_isolated match ps) = ranges ps"
  by (induction ps) (auto simp: split_isolated_def split_piece_ranges)

lemma match_numbers_ok: "match_ok (match_numbers ut cp)"
  unfolding match_ok_def
proof (intro allI impI)
  fix i e :: nat assume "i < e"
  then have "i \<le> min e (i + 3)" by simp
  from run_end_bounds [OF this, of "\<lambda>j. has_class ut cp j kN"] show "i + match_numbers ut cp i e \<le> e"
    by (simp add: match_numbers_def)
qed

lemma match_cjk_ok: "match_ok (match_cjk ut cp)"
  unfolding match_ok_def using run_end_bounds [of _ _ "\<lambda>j. has_class ut cp j kCJK"]
  by (auto simp: match_cjk_def dest!: less_imp_le)

lemma last_crlf_bound: "last_crlf cp i k = Some n \<Longrightarrow> 0 < n \<and> i + n \<le> k"
  by (induction cp i k rule: last_crlf.induct) (subst (asm) (2) last_crlf.simps, auto split: if_splits)

lemma match_space_ok: "i < e \<Longrightarrow> i + match_space ut cp i e \<le> e"
proof -
  assume i: "i < e"
  note b = run_end_bounds [OF less_imp_le [OF i], of "\<lambda>j. has_class ut cp j kWS"]
  show ?thesis
  proof (cases "last_crlf cp i (run_end (\<lambda>j. has_class ut cp j kWS) i e)")
    case None
    then show ?thesis using b i by (auto simp: match_space_def Let_def)
  next
    case (Some n)
    then show ?thesis using b i last_crlf_bound [OF Some] by (simp add: match_space_def Let_def)
  qed
qed

lemma match_symbols_ok: "i < e \<Longrightarrow> i + match_symbols ut cp i e \<le> e"
proof -
  assume i: "i < e"
  define j where "j = (if cp ! i = 0x20 \<and> i + 1 < e \<and> has_class ut cp (i + 1) (kP OR kS) then i + 1 else i)"
  have j: "i \<le> j" "j \<le> e" using i by (auto simp: j_def)
  note b = run_end_bounds [OF j(2), of "\<lambda>j. has_class ut cp j (kP OR kS)"]
  note c = run_end_bounds [OF conjunct2 [OF b], of "crlf cp"]
  show ?thesis unfolding match_symbols_def Let_def j_def [symmetric] using b c j match_space_ok [OF i, of ut cp] by simp
qed

lemma match_letters_ok: "i < e \<Longrightarrow> i + match_letters ut cp i e \<le> e"
proof -
  assume i: "i < e"
  define j where "j = (if (\<not> crlf cp i \<and> \<not> has_class ut cp i (kL OR kP OR kS)) \<and> i + 1 < e \<and> has_class ut cp (i + 1) (kL OR kM) then i + 1 else i)"
  have j: "i \<le> j" "j \<le> e" using i by (auto simp: j_def)
  note b = run_end_bounds [OF j(2), of "\<lambda>j. has_class ut cp j (kL OR kM)"]
  show ?thesis unfolding match_letters_def Let_def j_def [symmetric] using b j match_symbols_ok [OF i, of ut cp] by simp
qed

lemma match_words_ok: "match_ok (match_words ut cp)"
  unfolding match_ok_def
proof (intro allI impI)
  fix i e :: nat assume i: "i < e"
  show "i + match_words ut cp i e \<le> e"
    using match_letters_ok [OF i, of ut cp] run_end_bounds [of "i + 1" e "\<lambda>j. is_ascii_alpha (cp ! j)"]
    by (auto simp: match_words_def)
qed

text \<open>The words are the text, cut up.\<close>

lemma pre_tokenize_ranges: "ranges (pre_tokenize ut cp) = [0..<length cp]"
  by (simp add: pre_tokenize_def Let_def split_isolated_ranges match_numbers_ok match_cjk_ok match_words_ok)

lemma pre_tokenize_words:
  "concat (map (\<lambda>(b, e). concat (map utf8_append (map ((!) cp) [b..<e]))) (pre_tokenize ut cp)) = concat (map utf8_append cp)"
proof -
  have "concat (map (\<lambda>(b, e). concat (map utf8_append (map ((!) cp) [b..<e]))) ps) = concat (map utf8_append (map ((!) cp) (ranges ps)))" for ps
    by (induction ps) auto
  then show ?thesis by (simp only: pre_tokenize_ranges map_nth)
qed

section \<open>Tries\<close>

fun trie_walk :: "trie \<Rightarrow> nat \<Rightarrow> string \<Rightarrow> nat option" where
  "trie_walk t n [] = Some n"
| "trie_walk t n (c # s) = (case tr_edges t (n, c) of None \<Rightarrow> None | Some n' \<Rightarrow> trie_walk t n' s)"

text \<open>The id of a token, as the trie gives it.\<close>

definition trie_lookup :: "trie \<Rightarrow> string \<Rightarrow> u32 option" where
  "trie_lookup t s =
     (case trie_walk t 0 s of
        None \<Rightarrow> None
      | Some n \<Rightarrow> if tr_nodes t ! n \<ge> 0 then Some (word_of_int (tr_nodes t ! n)) else None)"

lemma trie_walk_append: "trie_walk t n (s @ s') = (case trie_walk t n s of None \<Rightarrow> None | Some m \<Rightarrow> trie_walk t m s')"
  by (induction s arbitrary: n) (auto split: option.split)

text \<open>
  The scan, started after the bytes \<open>p\<close>: its answer is the longest token that is a prefix of the text
  and at least one byte longer than \<open>p\<close>, or the best one it started with.
\<close>

lemma longest_from_spec:
  assumes "trie_walk t 0 p = Some n"
  shows "longest_from t n (length p) best s = best \<and> (\<forall>j. 0 < j \<and> j \<le> length s \<longrightarrow> trie_lookup t (p @ take j s) = None)
     \<or> (\<exists>j d. 0 < j \<and> j \<le> length s \<and> longest_from t n (length p) best s = (length p + j, d) \<and> trie_lookup t (p @ take j s) = Some d
          \<and> (\<forall>j'. j < j' \<and> j' \<le> length s \<longrightarrow> trie_lookup t (p @ take j' s) = None))"
  using assms
proof (induction s arbitrary: n p best)
  case (Cons c s)
  show ?case
  proof (cases "tr_edges t (n, c)")
    case None
    have "trie_lookup t (p @ take j (c # s)) = None" if "0 < j" for j
      using that Cons.prems None by (cases j) (simp_all add: trie_lookup_def trie_walk_append)
    then show ?thesis using None by simp
  next
    case (Some n')
    let ?best = "if tr_nodes t ! n' \<ge> 0 then (length p + 1, word_of_int (tr_nodes t ! n')) else best"
    have w: "trie_walk t 0 (p @ [c]) = Some n'" using Cons.prems Some by (simp add: trie_walk_append)
    have l: "longest_from t n (length p) best (c # s) = longest_from t n' (length (p @ [c])) ?best s" using Some by simp
    have lk: "trie_lookup t (p @ [c]) = (if tr_nodes t ! n' \<ge> 0 then Some (word_of_int (tr_nodes t ! n')) else None)"
      using w by (simp add: trie_lookup_def)
    have shift: "p @ take (Suc j) (c # s) = (p @ [c]) @ take j s" for j by simp
    from Cons.IH [OF w, of ?best] show ?thesis
    proof (elim disjE conjE exE)
      assume b: "longest_from t n' (length (p @ [c])) ?best s = ?best"
        and none: "\<forall>j. 0 < j \<and> j \<le> length s \<longrightarrow> trie_lookup t ((p @ [c]) @ take j s) = None"
      have rest: "trie_lookup t (p @ take j' (c # s)) = None" if gt: "1 < j'" and le: "j' \<le> length (c # s)" for j'
      proof -
        obtain j where "j' = Suc j" "0 < j" using gt by (cases j') auto
        then show ?thesis using none le by simp
      qed
      show ?thesis
      proof (cases "tr_nodes t ! n' \<ge> 0")
        case True
        then have "longest_from t n (length p) best (c # s) = (length p + 1, word_of_int (tr_nodes t ! n'))"
          "trie_lookup t (p @ take 1 (c # s)) = Some (word_of_int (tr_nodes t ! n'))" using l b lk by simp_all
        then show ?thesis using rest
          by (intro disjI2 exI [of _ "1 :: nat"] exI [of _ "word_of_int (tr_nodes t ! n') :: u32"]) auto
      next
        case False
        have "trie_lookup t (p @ take j (c # s)) = None" if "0 < j" "j \<le> length (c # s)" for j
          using rest [of j] lk False that by (cases "j = 1") simp_all
        then show ?thesis using False l b by simp
      qed
    next
      fix j d
      assume j: "0 < j" "j \<le> length s" "longest_from t n' (length (p @ [c])) ?best s = (length (p @ [c]) + j, d)"
        "trie_lookup t ((p @ [c]) @ take j s) = Some d"
        and none: "\<forall>j'. j < j' \<and> j' \<le> length s \<longrightarrow> trie_lookup t ((p @ [c]) @ take j' s) = None"
      have rest: "trie_lookup t (p @ take j' (c # s)) = None" if gt: "Suc j < j'" and le: "j' \<le> length (c # s)" for j'
      proof -
        obtain k where "j' = Suc k" "j < k" using gt by (cases j') auto
        then show ?thesis using none le by simp
      qed
      have "longest_from t n (length p) best (c # s) = (length p + Suc j, d)" "trie_lookup t (p @ take (Suc j) (c # s)) = Some d"
        using j l by simp_all
      then show ?thesis using j(2) rest by (intro disjI2 exI [of _ "Suc j"] exI [of _ d]) auto
    qed
  qed
qed auto

lemma longest_at_spec:
  "longest_at t s = (0, 0) \<and> (\<forall>j. 0 < j \<and> j \<le> length s \<longrightarrow> trie_lookup t (take j s) = None)
   \<or> (\<exists>j d. 0 < j \<and> j \<le> length s \<and> longest_at t s = (j, d) \<and> trie_lookup t (take j s) = Some d
        \<and> (\<forall>j'. j < j' \<and> j' \<le> length s \<longrightarrow> trie_lookup t (take j' s) = None))"
  using longest_from_spec [of t "[]" 0 "(0, 0)" s] by (simp add: longest_at_def)

lemma longest_at_found:
  assumes "longest_at t s = (n, d)" "n \<noteq> 0"
  shows "n \<le> length s" "trie_lookup t (take n s) = Some d"
  using longest_at_spec [of t s] assms by auto

text \<open>Inserting a token adds that token and keeps the others.\<close>

definition trie_ok :: "trie \<Rightarrow> bool" where
  "trie_ok t \<longleftrightarrow> tr_nodes t \<noteq> []
     \<and> (\<forall>n c n'. tr_edges t (n, c) = Some n' \<longrightarrow> n < length (tr_nodes t) \<and> 0 < n' \<and> n' < length (tr_nodes t))
     \<and> (\<forall>n c m d n'. tr_edges t (n, c) = Some n' \<longrightarrow> tr_edges t (m, d) = Some n' \<longrightarrow> (n, c) = (m, d))"

lemma empty_trie_ok [simp]: "trie_ok empty_trie" and lookup_empty_trie [simp]: "trie_lookup empty_trie s = None"
  by (auto simp: trie_ok_def empty_trie_def trie_lookup_def split: option.split) (cases s, auto)

lemma trie_walk_range: "trie_ok t \<Longrightarrow> n < length (tr_nodes t) \<Longrightarrow> trie_walk t n s = Some m \<Longrightarrow> m < length (tr_nodes t)"
proof (induction s arbitrary: n)
  case (Cons c s)
  then obtain n' where n': "tr_edges t (n, c) = Some n'" "trie_walk t n' s = Some m" by (auto split: option.splits)
  then have "n' < length (tr_nodes t)" using Cons.prems(1) by (auto simp: trie_ok_def)
  then show ?case using Cons n' by blast
qed simp

text \<open>A node is reached by one path only.\<close>

lemma trie_walk_inj:
  assumes "trie_ok t" "trie_walk t 0 s = Some m" "trie_walk t 0 s' = Some m"
  shows "s = s'"
  using assms(2,3)
proof (induction s arbitrary: m s' rule: rev_induct)
  case Nil
  show ?case
  proof (cases s' rule: rev_cases)
    case (snoc u c)
    then show ?thesis using Nil assms(1) by (auto simp: trie_walk_append trie_ok_def split: option.splits)
  qed simp
next
  case (snoc c s)
  obtain n where n: "trie_walk t 0 s = Some n" "tr_edges t (n, c) = Some m"
    using snoc.prems(1) by (auto simp: trie_walk_append split: option.splits)
  have "m \<noteq> 0" using n(2) assms(1) by (auto simp: trie_ok_def)
  then obtain u d where u: "s' = u @ [d]" using snoc.prems(2) by (cases s' rule: rev_cases) auto
  obtain k where k: "trie_walk t 0 u = Some k" "tr_edges t (k, d) = Some m"
    using snoc.prems(2) by (auto simp: u trie_walk_append split: option.splits)
  have "n = k \<and> c = d" using n(2) k(2) assms(1) unfolding trie_ok_def by blast
  then show ?case using snoc.IH [OF n(1), of u] k(1) u by simp
qed

definition trie_extends :: "trie \<Rightarrow> trie \<Rightarrow> bool" where
  "trie_extends t t' \<longleftrightarrow> length (tr_nodes t) \<le> length (tr_nodes t') \<and> (\<forall>i < length (tr_nodes t). tr_nodes t' ! i = tr_nodes t ! i)
     \<and> (\<forall>i. length (tr_nodes t) \<le> i \<longrightarrow> i < length (tr_nodes t') \<longrightarrow> tr_nodes t' ! i = -1) \<and> tr_edges t \<subseteq>\<^sub>m tr_edges t'
     \<and> (\<forall>n c n'. tr_edges t' (n, c) = Some n' \<longrightarrow> tr_edges t (n, c) = None \<longrightarrow> length (tr_nodes t) \<le> n')"

lemma extends_edge: "trie_extends t t' \<Longrightarrow> tr_edges t x = Some n \<Longrightarrow> tr_edges t' x = Some n"
  unfolding trie_extends_def by (metis domI map_le_def)

lemma trie_extends_refl: "trie_extends t t"
  by (simp add: trie_extends_def)

lemma trie_extends_trans:
  assumes "trie_extends t u" "trie_extends u v"
  shows "trie_extends t v"
  unfolding trie_extends_def
proof (intro conjI allI impI)
  note a = assms [unfolded trie_extends_def]
  show "length (tr_nodes t) \<le> length (tr_nodes v)" using a by linarith
  show "tr_nodes v ! i = tr_nodes t ! i" if "i < length (tr_nodes t)" for i using a that by simp
  show "tr_nodes v ! i = -1" if "length (tr_nodes t) \<le> i" "i < length (tr_nodes v)" for i
    using a that by (cases "i < length (tr_nodes u)") auto
  show "tr_edges t \<subseteq>\<^sub>m tr_edges v" using a map_le_trans by blast
  show "length (tr_nodes t) \<le> n'" if "tr_edges v (n, c) = Some n'" "tr_edges t (n, c) = None" for n c n'
  proof (cases "tr_edges u (n, c)")
    case None
    then have "length (tr_nodes u) \<le> n'" using a that(1) by blast
    then show ?thesis using a by linarith
  next
    case (Some k)
    then have "k = n'" using a that(1) by (metis domI map_le_def option.inject)
    then show ?thesis using a Some that(2) by blast
  qed
qed

definition grown :: "trie \<Rightarrow> nat \<Rightarrow> char \<Rightarrow> trie" where
  "grown t n b = t\<lparr>tr_nodes := tr_nodes t @ [-1], tr_edges := (tr_edges t)((n, b) \<mapsto> length (tr_nodes t))\<rparr>"

lemma grown_extends: "tr_edges t (n, b) = None \<Longrightarrow> trie_extends t (grown t n b)"
  by (auto simp: trie_extends_def grown_def nth_append map_le_def split: if_splits)

lemma grown_ok:
  assumes "trie_ok t" "n < length (tr_nodes t)" "tr_edges t (n, b) = None"
  shows "trie_ok (grown t n b)"
  unfolding trie_ok_def
proof (intro conjI allI impI)
  note a = assms [unfolded trie_ok_def]
  show "tr_nodes (grown t n b) \<noteq> []" by (simp add: grown_def)
  fix k c k' assume e: "tr_edges (grown t n b) (k, c) = Some k'"
  then show "k < length (tr_nodes (grown t n b))" "0 < k'" "k' < length (tr_nodes (grown t n b))"
    using a by (auto simp: grown_def less_Suc_eq split: if_splits)
  fix m d assume "tr_edges (grown t n b) (m, d) = Some k'"
  then show "(k, c) = (m, d)" using e a by (auto simp: grown_def split: if_splits)
qed

lemma trie_path_spec:
  assumes "trie_ok t" "n < length (tr_nodes t)" "trie_path s n t = (m, t')"
  shows "trie_ok t' \<and> trie_extends t t' \<and> trie_walk t' n s = Some m \<and> m < length (tr_nodes t')"
  using assms
proof (induction s n t rule: trie_path.induct)
  case (1 n t)
  then show ?case by (simp add: trie_extends_refl)
next
  case (2 b s n t)
  show ?case
  proof (cases "tr_edges t (n, b)")
    case None
    have r: "trie_path s (length (tr_nodes t)) (grown t n b) = (m, t')" using 2(5) None by (simp add: grown_def Let_def)
    have "trie_ok t' \<and> trie_extends (grown t n b) t' \<and> trie_walk t' (length (tr_nodes t)) s = Some m \<and> m < length (tr_nodes t')"
      using 2(1) [OF None refl] grown_ok [OF 2(3,4) None] r by (simp add: grown_def)
    moreover have "tr_edges t' (n, b) = Some (length (tr_nodes t))"
      by (rule extends_edge [of "grown t n b"]) (use calculation in \<open>simp_all add: grown_def\<close>)
    ultimately show ?thesis using trie_extends_trans [OF grown_extends [OF None]] by simp
  next
    case (Some n')
    then have "n' < length (tr_nodes t)" using 2(3) by (auto simp: trie_ok_def)
    then have "trie_ok t' \<and> trie_extends t t' \<and> trie_walk t' n' s = Some m \<and> m < length (tr_nodes t')"
      using 2(2) [OF Some 2(3)] 2(5) Some by simp
    moreover have "tr_edges t' (n, b) = Some n'" using calculation extends_edge Some by blast
    ultimately show ?thesis by simp
  qed
qed

lemma extends_walk_old: "trie_extends t t' \<Longrightarrow> trie_walk t n s = Some m \<Longrightarrow> trie_walk t' n s = Some m"
proof (induction s arbitrary: n)
  case (Cons c s)
  then obtain n' where n': "tr_edges t (n, c) = Some n'" "trie_walk t n' s = Some m" by (auto split: option.splits)
  then have "tr_edges t' (n, c) = Some n'" using Cons.prems(1) extends_edge by blast
  then show ?case using Cons n' by simp
qed simp

lemma extends_walk_beyond:
  assumes "trie_ok t" "trie_extends t t'"
  shows "length (tr_nodes t) \<le> n \<Longrightarrow> trie_walk t' n s = Some m \<Longrightarrow> length (tr_nodes t) \<le> m"
proof (induction s arbitrary: n)
  case (Cons c s)
  then obtain n' where n': "tr_edges t' (n, c) = Some n'" "trie_walk t' n' s = Some m" by (auto split: option.splits)
  have "tr_edges t (n, c) = None"
  proof (rule ccontr)
    assume "tr_edges t (n, c) \<noteq> None"
    then have "n < length (tr_nodes t)" using assms(1) by (auto simp: trie_ok_def)
    then show False using Cons.prems(1) by simp
  qed
  then have "length (tr_nodes t) \<le> n'" using assms(2) n'(1) unfolding trie_extends_def by blast
  then show ?case using Cons.IH n'(2) by blast
qed simp

lemma extends_walk_new:
  assumes "trie_ok t" "trie_extends t t'"
  shows "trie_walk t n s = None \<Longrightarrow> trie_walk t' n s = Some m \<Longrightarrow> length (tr_nodes t) \<le> m"
proof (induction s arbitrary: n)
  case (Cons c s)
  then obtain n' where n': "tr_edges t' (n, c) = Some n'" "trie_walk t' n' s = Some m" by (auto split: option.splits)
  show ?case
  proof (cases "tr_edges t (n, c)")
    case None
    then have "length (tr_nodes t) \<le> n'" using assms(2) n'(1) unfolding trie_extends_def by blast
    then show ?thesis using extends_walk_beyond [OF assms] n'(2) by blast
  next
    case (Some k)
    then have "tr_edges t' (n, c) = Some k" using assms(2) extends_edge by blast
    then show ?thesis using Cons Some n' by simp
  qed
qed simp

lemma extends_lookup:
  assumes "trie_ok t" "trie_extends t t'" "trie_ok t'"
  shows "trie_lookup t' s = trie_lookup t s"
proof (cases "trie_walk t 0 s")
  case None
  have "tr_nodes t' ! m = -1" if m: "trie_walk t' 0 s = Some m" for m
  proof -
    have "m < length (tr_nodes t')" by (rule trie_walk_range [OF assms(3) _ m]) (use assms(3) in \<open>simp add: trie_ok_def\<close>)
    then show ?thesis using extends_walk_new [OF assms(1,2) None m] assms(2) by (simp add: trie_extends_def)
  qed
  then show ?thesis using None by (simp add: trie_lookup_def split: option.split)
next
  case (Some m)
  have "m < length (tr_nodes t)" by (rule trie_walk_range [OF assms(1) _ Some]) (use assms(1) in \<open>simp add: trie_ok_def\<close>)
  then show ?thesis using extends_walk_old [OF assms(2) Some] Some assms(2) by (simp add: trie_lookup_def trie_extends_def)
qed

lemma trie_insert_spec:
  assumes "trie_ok t"
  shows "trie_ok (trie_insert k d t)"
    and "trie_lookup (trie_insert k d t) s = (if s = k then if sint d \<ge> 0 then Some d else None else trie_lookup t s)"
proof -
  obtain m t' where p: "trie_path k 0 t = (m, t')" by (cases "trie_path k 0 t")
  have "0 < length (tr_nodes t)" using assms by (simp add: trie_ok_def)
  then have t': "trie_ok t'" "trie_extends t t'" "trie_walk t' 0 k = Some m" "m < length (tr_nodes t')"
    using trie_path_spec [OF assms _ p] by auto
  define u where "u = t'\<lparr>tr_nodes := (tr_nodes t')[m := sint d]\<rparr>"
  have ins: "trie_insert k d t = u" by (simp add: trie_insert_def p u_def)
  have "tr_edges u = tr_edges t'" by (simp add: u_def)
  then have w: "trie_walk u n x = trie_walk t' n x" for n x by (induction x arbitrary: n) (simp_all split: option.split)
  show "trie_ok (trie_insert k d t)" using t'(1) unfolding ins by (simp add: trie_ok_def u_def)
  show "trie_lookup (trie_insert k d t) s = (if s = k then if sint d \<ge> 0 then Some d else None else trie_lookup t s)"
  proof (cases "s = k")
    case True
    then show ?thesis using t'(3,4) by (simp add: ins trie_lookup_def w) (simp add: u_def)
  next
    case False
    have "trie_lookup u s = trie_lookup t' s"
    proof (cases "trie_walk t' 0 s")
      case (Some n)
      have "n \<noteq> m"
      proof
        assume "n = m"
        then show False using trie_walk_inj [OF t'(1) Some, of k] t'(3) False by simp
      qed
      then show ?thesis by (simp add: trie_lookup_def w Some) (simp add: u_def)
    qed (simp add: trie_lookup_def w)
    then show ?thesis using extends_lookup [OF assms t'(2,1)] False by (simp add: ins)
  qed
qed

section \<open>Tokenizers in order\<close>

definition known :: "tokenizer \<Rightarrow> u32 \<Rightarrow> bool" where
  "known t d \<longleftrightarrow> unat d < tk_vocab_size t \<and> tk_flags t ! unat d AND 1 \<noteq> 0"

text \<open>
  What loading gives when no id is given to two strings: the bytes of a token are read off its string,
  the token of a byte is its character, and a merge makes the token of the two strings together.
\<close>

definition tok_ok :: "tokenizer \<Rightarrow> bool" where
  "tok_ok t \<longleftrightarrow>
     (\<forall>c. known t (tk_byte_id t c) \<and> token_chars (tk_str t ! unat (tk_byte_id t c)) = Some [c])
     \<and> (\<forall>a b r d. tk_merges t (a, b) = Some (r, d) \<longrightarrow>
          known t d \<and> tk_str t ! unat d = tk_str t ! unat a @ tk_str t ! unat b)
     \<and> (\<forall>d. known t d \<longrightarrow> tk_bytes t ! unat d = bytes_of_token_string (tk_str t ! unat d))
     \<and> (\<forall>d. unat d < tk_vocab_size t \<longrightarrow> \<not> known t d \<longrightarrow> tk_bytes t ! unat d = [])"

abbreviation dec :: "tokenizer \<Rightarrow> u32 \<Rightarrow> string" where "dec t \<equiv> decode_one t False"

lemma dec_known: "tok_ok t \<Longrightarrow> known t d \<Longrightarrow> dec t d = bytes_of_token_string (tk_str t ! unat d)"
  by (auto simp: decode_one_def known_def tok_ok_def)

text \<open>A token that a word can reach: its string is made of byte characters.\<close>

definition byte_level :: "tokenizer \<Rightarrow> u32 \<Rightarrow> bool" where
  "byte_level t d \<longleftrightarrow> known t d \<and> token_chars (tk_str t ! unat d) \<noteq> None"

definition char_count :: "tokenizer \<Rightarrow> u32 \<Rightarrow> nat" where
  "char_count t d = (case token_chars (tk_str t ! unat d) of None \<Rightarrow> 0 | Some x \<Rightarrow> length x)"

lemma dec_byte_level: "tok_ok t \<Longrightarrow> byte_level t d \<Longrightarrow> token_chars (tk_str t ! unat d) = Some (dec t d)"
  using dec_known by (auto simp: byte_level_def bytes_of_token_string_def)

lemma tok_merges:
  "tok_ok t \<Longrightarrow> tk_merges t (a, b) = Some (r, d) \<Longrightarrow> known t d \<and> tk_str t ! unat d = tk_str t ! unat a @ tk_str t ! unat b"
  unfolding tok_ok_def by blast

lemma merge_byte_level:
  assumes "tok_ok t" "tk_merges t (a, b) = Some (r, d)" "byte_level t a" "byte_level t b"
  shows "byte_level t d" "dec t d = dec t a @ dec t b"
proof -
  have "token_chars (tk_str t ! unat d) = Some (dec t a @ dec t b)"
    using tok_merges [OF assms(1,2)] token_chars_append [OF dec_byte_level [OF assms(1,3)], of "tk_str t ! unat b"]
      dec_byte_level [OF assms(1,4)] by simp
  then show "byte_level t d" "dec t d = dec t a @ dec t b"
    using tok_merges [OF assms(1,2)] dec_known [OF assms(1), of d] by (simp_all add: byte_level_def bytes_of_token_string_def)
qed

lemma tok_sized: "tok_ok t \<Longrightarrow> sized (tk_merges t) (char_count t)"
  unfolding sized_def
proof (intro allI impI)
  fix a b r d
  assume t: "tok_ok t" "tk_merges t (a, b) = Some (r, d)" and pos: "0 < char_count t a" "0 < char_count t b"
  obtain x y where "token_chars (tk_str t ! unat a) = Some x" "token_chars (tk_str t ! unat b) = Some y"
    using pos by (auto simp: char_count_def split: option.splits)
  then show "char_count t d = char_count t a + char_count t b"
    using tok_merges [OF t] token_chars_append [of "tk_str t ! unat a" x "tk_str t ! unat b"] by (simp add: char_count_def)
qed

lemma tok_bytes: "tok_ok t \<Longrightarrow> byte_level t (tk_byte_id t c)" "tok_ok t \<Longrightarrow> dec t (tk_byte_id t c) = [c]"
  "tok_ok t \<Longrightarrow> char_count t (tk_byte_id t c) = 1"
  using dec_known [of t "tk_byte_id t c"]
  by (auto simp: tok_ok_def byte_level_def char_count_def bytes_of_token_string_def)

lemma merge_all_bytes:
  assumes "tok_ok t"
  shows "list_all (byte_level t) xs \<Longrightarrow> concat (map (dec t) (merge_all (tk_merges t) xs)) = concat (map (dec t) xs)"
proof (induction "tk_merges t" xs rule: merge_all.induct)
  case (1 xs)
  show ?case
  proof (cases "pair_ranks (tk_merges t) xs = []")
    case True
    then show ?thesis by (simp add: merge_all.simps [of _ xs])
  next
    case False
    define i where "i = snd (Min (set (pair_ranks (tk_merges t) xs)))"
    have "Min (set (pair_ranks (tk_merges t) xs)) \<in> set (pair_ranks (tk_merges t) xs)" using False by simp
    then obtain r d where i: "Suc i < length xs" "tk_merges t (xs ! i, xs ! Suc i) = Some (r, d)"
      using in_pair_ranks [of "fst (Min (set (pair_ranks (tk_merges t) xs)))" i] by (auto simp: i_def)
    have ys: "merge_at (tk_merges t) i xs = take i xs @ d # drop (i + 2) xs" by (simp add: merge_at_def i)
    have xs: "xs = take i xs @ xs ! i # xs ! Suc i # drop (i + 2) xs" by (rule split_at [OF i(1)])
    have bl: "byte_level t (xs ! i)" "byte_level t (xs ! Suc i)" using 1(2) i(1) by (simp_all add: list_all_length)
    note m = merge_byte_level [OF assms i(2) bl]
    have "list_all (byte_level t) (merge_at (tk_merges t) i xs)"
      using 1(2) m(1) unfolding ys by (auto simp: list_all_iff dest: in_set_takeD in_set_dropD)
    then have "concat (map (dec t) (merge_all (tk_merges t) xs)) = concat (map (dec t) (take i xs @ d # drop (i + 2) xs))"
      using 1(1) [OF False] False by (simp add: merge_all.simps [of _ xs] ys flip: i_def)
    also have "\<dots> = concat (map (dec t) xs)" using m(2) arg_cong [OF xs, of "\<lambda>l. concat (map (dec t) l)"] by simp
    finally show ?thesis .
  qed
qed

lemma bpe_bytes:
  assumes "tok_ok t"
  shows "concat (map (dec t) (bpe (tk_merges t) (tk_byte_id t) word)) = word"
proof -
  have "bpe (tk_merges t) (tk_byte_id t) word = merge_all (tk_merges t) (map (tk_byte_id t) word)"
    by (rule bpe_merge_all [OF tok_sized]) (use assms tok_bytes in auto)
  moreover have "concat (map (dec t \<circ> tk_byte_id t) word) = word" by (induction word) (simp_all add: tok_bytes [OF assms])
  ultimately show ?thesis
    using merge_all_bytes [OF assms, of "map (tk_byte_id t) word"] tok_bytes(1) [OF assms] by (simp add: list_all_iff)
qed

lemma encode_text_bytes:
  assumes "tok_ok t"
  shows "concat (map (dec t) (encode_text ut t s)) = lossy s"
proof -
  let ?w = "\<lambda>b e. concat (map utf8_append (map ((!) (code_points s)) [b..<e]))"
  have "concat (map (dec t) (concat (map (\<lambda>(b, e). bpe (tk_merges t) (tk_byte_id t) (?w b e)) ps))) = concat (map (\<lambda>(b, e). ?w b e) ps)" for ps
    by (induction ps) (auto simp: bpe_bytes [OF assms])
  then have "concat (map (dec t) (encode_text ut t s)) = concat (map utf8_append (code_points s))"
    using pre_tokenize_words [of "code_points s" ut] by (simp add: encode_text_def Let_def)
  then show ?thesis by (simp add: code_points_write)
qed

section \<open>Round trip\<close>

definition seg_text :: "string \<Rightarrow> segment \<Rightarrow> string" where
  "seg_text s g = take (sg_end g - sg_begin g) (drop (sg_begin g) s)"

definition seg_dec :: "tokenizer \<Rightarrow> string \<Rightarrow> segment \<Rightarrow> string" where
  "seg_dec t s g = (if sg_id g \<ge> 0 then dec t (word_of_int (sg_id g)) else lossy (seg_text s g))"

text \<open>An added token that decodes to itself.\<close>

definition plain_trie :: "tokenizer \<Rightarrow> trie \<Rightarrow> bool" where
  "plain_trie t tr \<longleftrightarrow> (\<forall>k d. trie_lookup tr k = Some d \<longrightarrow> dec t d = k \<and> utf8_valid k)"

definition text_slice :: "nat \<Rightarrow> nat \<Rightarrow> string \<Rightarrow> string" where
  "text_slice a b s = take (b - a) (drop a s)"

lemma slice_split: "a \<le> b \<Longrightarrow> b \<le> c \<Longrightarrow> text_slice a c s = text_slice a b s @ text_slice b c s"
  using take_add [of "b - a" "c - b" "drop a s"] by (simp add: text_slice_def)

lemma slice_self [simp]: "text_slice a a s = []"
  by (simp add: text_slice_def)

lemma gap_dec: "la \<le> i \<Longrightarrow> concat (map (seg_dec t s) (gap la i)) = lossy (text_slice la i s)"
  by (auto simp: gap_def seg_dec_def seg_text_def text_slice_def)

lemma split_text_dec:
  "plain_trie t tr \<Longrightarrow> la \<le> i \<Longrightarrow> i \<le> e \<Longrightarrow> e \<le> length s \<Longrightarrow>
    concat (map (seg_dec t s) (split_text tr s la i e)) = lossy (text_slice la e s)"
proof (induction tr s la i e rule: split_text.induct)
  case (1 tr s la i e)
  show ?case
  proof (cases "i \<ge> e")
    case True
    then show ?thesis using 1(4,5) gap_dec by (simp add: split_text.simps [of tr s la i])
  next
    case False
    obtain n d where l: "longest_at tr (drop i (take e s)) = (n, d)" by (cases "longest_at tr (drop i (take e s))")
    show ?thesis
    proof (cases "n = 0")
      case True
      then show ?thesis using 1(1) [OF False l [symmetric] True] 1(3-6) False l by (simp add: split_text.simps [of tr s la i])
    next
      case no: False
      have n: "n \<le> e - i" "trie_lookup tr (text_slice i (i + n) s) = Some d"
        using longest_at_found [OF l no] 1(6) by (simp_all add: text_slice_def drop_take)
      have tok: "dec t d = text_slice i (i + n) s" "utf8_valid (text_slice i (i + n) s)" using 1(3) n(2) by (auto simp: plain_trie_def)
      have ne: "text_slice i (i + n) s \<noteq> []" using no False 1(6) by (simp add: text_slice_def)
      have "concat (map (seg_dec t s) (split_text tr s (i + n) (i + n) e)) = lossy (text_slice (i + n) e s)"
        by (rule 1(2) [OF False l [symmetric] no 1(3)]) (use n(1) False 1(6) in auto)
      moreover have "seg_dec t s \<lparr>sg_begin = i, sg_end = i + n, sg_id = uint d\<rparr> = text_slice i (i + n) s"
        using tok(1) by (simp add: seg_dec_def)
      ultimately have "concat (map (seg_dec t s) (split_text tr s la i e))
          = lossy (text_slice la i s) @ text_slice i (i + n) s @ lossy (text_slice (i + n) e s)"
        using False no l gap_dec [OF 1(4), of t s] by (simp add: split_text.simps [of tr s la i])
      also have "\<dots> = lossy (text_slice la i s @ text_slice i (i + n) s @ text_slice (i + n) e s)"
        by (rule lossy_around_valid [OF tok(2) ne, symmetric])
      also have "text_slice la i s @ text_slice i (i + n) s @ text_slice (i + n) e s = text_slice la e s"
        using slice_split [of la i e s] slice_split [of i "i + n" e s] 1(4) n(1) False by simp
      finally show ?thesis .
    qed
  qed
qed

lemma split_text_inside: "la \<le> i \<Longrightarrow> i \<le> e \<Longrightarrow> e \<le> length s \<Longrightarrow> g \<in> set (split_text tr s la i e) \<Longrightarrow>
    sg_begin g \<le> sg_end g \<and> sg_end g \<le> length s"
proof (induction tr s la i e rule: split_text.induct)
  case (1 tr s la i e)
  show ?case
  proof (cases "i \<ge> e")
    case True
    then show ?thesis using 1(3-6) by (auto simp: split_text.simps [of tr s la i] gap_def split: if_splits)
  next
    case False
    obtain n d where l: "longest_at tr (drop i (take e s)) = (n, d)" by (cases "longest_at tr (drop i (take e s))")
    show ?thesis
    proof (cases "n = 0")
      case True
      then show ?thesis using 1(1) [OF False l [symmetric] True] 1(3-6) False l by (simp add: split_text.simps [of tr s la i])
    next
      case no: False
      have n: "n \<le> e - i" using longest_at_found [OF l no] 1(5) by simp
      show ?thesis
        using 1(2) [OF False l [symmetric] no] 1(3-6) False n no l
        by (auto simp: split_text.simps [of tr s la i] gap_def split: if_splits)
    qed
  qed
qed

definition segs_inside :: "string \<Rightarrow> segment list \<Rightarrow> bool" where
  "segs_inside s segs \<longleftrightarrow> (\<forall>g \<in> set segs. sg_begin g \<le> sg_end g \<and> sg_end g \<le> length s)"

lemma split_on_dec:
  assumes "plain_trie t tr" "segs_inside s segs"
  shows "concat (map (seg_dec t s) (split_on tr s segs)) = concat (map (seg_dec t s) segs)" "segs_inside s (split_on tr s segs)"
proof -
  let ?f = "\<lambda>g. if sg_id g \<ge> 0 then [g] else split_text tr s (sg_begin g) (sg_begin g) (sg_end g)"
  have f: "concat (map (seg_dec t s) (?f g)) = seg_dec t s g" if "g \<in> set segs" for g
    using split_text_dec [OF assms(1), of "sg_begin g" "sg_begin g" "sg_end g" s] assms(2) that
    by (auto simp: segs_inside_def seg_dec_def seg_text_def text_slice_def)
  have "concat (map (seg_dec t s) (concat (map ?f gs))) = concat (map (seg_dec t s) gs)" if "set gs \<subseteq> set segs" for gs
    using that f by (induction gs) auto
  then show "concat (map (seg_dec t s) (split_on tr s segs)) = concat (map (seg_dec t s) segs)" by (simp add: split_on_def)
  have inside: "segs_inside s (?f g)" if "g \<in> set segs" for g
    using split_text_inside [of "sg_begin g" "sg_begin g" "sg_end g" s _ tr] assms(2) that by (auto simp: segs_inside_def)
  have all: "segs_inside s (concat (map f gs))" if "\<And>g. g \<in> set gs \<Longrightarrow> segs_inside s (f g)" for f :: "segment \<Rightarrow> segment list" and gs
    using that by (auto simp: segs_inside_def)
  have "segs_inside s (concat (map ?f segs))" by (rule all) (rule inside)
  then show "segs_inside s (split_on tr s segs)" using assms(2) by (simp add: split_on_def)
qed

lemma encode_decode:
  assumes "tok_ok t" "plain_trie t (tk_raw_trie t)" "plain_trie t (tk_norm_trie t)"
  shows "decode t (encode ut t s) False = lossy s"
proof -
  let ?s0 = "[\<lparr>sg_begin = 0, sg_end = length s, sg_id = -1\<rparr>]"
  let ?s1 = "split_on (tk_raw_trie t) s ?s0"
  let ?s2 = "split_on (tk_norm_trie t) s ?s1"
  let ?enc = "\<lambda>g. if sg_id g \<ge> 0 then [word_of_int (sg_id g)]
                  else encode_text ut t (take (sg_end g - sg_begin g) (drop (sg_begin g) s))"
  have i0: "segs_inside s ?s0" by (simp add: segs_inside_def)
  note r1 = split_on_dec [OF assms(2) i0] and r2 = split_on_dec [OF assms(3) split_on_dec(2) [OF assms(2) i0]]
  have "concat (map (dec t) (?enc g)) = seg_dec t s g" for g
    by (simp add: seg_dec_def seg_text_def encode_text_bytes [OF assms(1)])
  then have "concat (map (dec t) (concat (map ?enc gs))) = concat (map (seg_dec t s) gs)" for gs by (induction gs) simp_all
  then have "concat (map (dec t) (encode ut t s)) = concat (map (seg_dec t s) ?s2)" by (simp add: encode_def Let_def)
  also have "\<dots> = lossy s" using r1(1) r2(1) by (simp add: seg_dec_def seg_text_def)
  finally show ?thesis by (simp add: decode_def lossy_is_valid)
qed

section \<open>Streaming\<close>

lemma stream_decode_lossy:
  assumes "\<forall>d. unat d < tk_vocab_size t \<longrightarrow> \<not> known t d \<longrightarrow> tk_bytes t ! unat d = []"
  shows "stream_decode t skip ds pending = lossy (pending @ concat (map (decode_one t skip) ds))"
proof (induction ds arbitrary: pending)
  case Nil
  then show ?case by (simp add: stream_flush_def)
next
  case (Cons d ds)
  show ?case
  proof (cases "unat d \<ge> tk_vocab_size t \<or> skip \<and> is_special t d")
    case True
    then have "stream_push t skip d pending = ([], pending)" "decode_one t skip d = []"
      by (auto simp: stream_push_def decode_one_def is_special_def)
    then show ?thesis by (simp add: Cons)
  next
    case False
    then have d: "decode_one t skip d = token_bytes t d"
      using assms [rule_format, of d] by (auto simp: decode_one_def token_bytes_def is_special_def known_def)
    obtain out held where h: "utf8_lossy True (pending @ token_bytes t d) = (out, held)" by fastforce
    let ?p = "pending @ token_bytes t d"
    have "stream_push t skip d pending = (out, drop (length ?p - held) ?p)"
      using False h by (auto simp: stream_push_def Let_def)
    then show ?thesis using lossy_held [OF h, of "concat (map (decode_one t skip) ds)"] d by (simp add: Cons)
  qed
qed

section \<open>Loading\<close>

text \<open>\<open>n\<close> ids, the vocabulary \<open>vs\<close>: what holds while the tokens are named.\<close>

definition flagged :: "tokenizer \<Rightarrow> u32 \<Rightarrow> bool" where
  "flagged t d \<longleftrightarrow> (unat d < length (tk_flags t) \<longrightarrow> odd (tk_flags t ! unat d))"

definition naming :: "nat \<Rightarrow> (string \<times> u32) list \<Rightarrow> tokenizer \<Rightarrow> bool" where
  "naming n vs t \<longleftrightarrow>
     tk_vocab_size t = n \<and> length (tk_flags t) = n \<and> tk_bytes t = replicate n [] \<and> tk_vocab t = map_of vs \<and> tk_merges t = Map.empty
     \<and> (\<forall>(k, d) \<in> set vs. flagged t d) \<and> trie_ok (tk_raw_trie t) \<and> trie_ok (tk_norm_trie t)
     \<and> (\<forall>k d. trie_lookup (tk_raw_trie t) k = Some d \<or> trie_lookup (tk_norm_trie t) k = Some d \<longrightarrow> flagged t d)"

lemma flagged_or:
  "tk_flags t' = (tk_flags t)[unat d := tk_flags t ! unat d OR x] \<Longrightarrow> flagged t d' \<Longrightarrow> flagged t' d'"
  "tk_flags t' = (tk_flags t)[unat d := tk_flags t ! unat d OR x] \<Longrightarrow> odd x \<Longrightarrow> flagged t' d"
  by (cases "unat d' = unat d"; auto simp: flagged_def even_or_iff)+

lemma flag_odd: "(w :: u8) AND 1 \<noteq> 0 \<longleftrightarrow> odd w"
  by (simp add: and_one_eq odd_iff_mod_2_eq_one)

lemma name_vocab_naming:
  "let t' = name_vocab vs t in
     tk_vocab_size t' = tk_vocab_size t \<and> length (tk_flags t') = length (tk_flags t) \<and> tk_bytes t' = tk_bytes t \<and> tk_vocab t' = tk_vocab t
     \<and> tk_merges t' = tk_merges t \<and> tk_raw_trie t' = tk_raw_trie t \<and> tk_norm_trie t' = tk_norm_trie t
     \<and> (\<forall>d. flagged t d \<longrightarrow> flagged t' d) \<and> (\<forall>(k, d) \<in> set vs. flagged t' d)"
proof (induction vs arbitrary: t)
  case Nil
  then show ?case by (simp add: name_vocab_def)
next
  case (Cons v vs)
  obtain k d where v: "v = (k, d)" by (cases v)
  define u where "u = t\<lparr>tk_str := (tk_str t)[unat d := k], tk_flags := (tk_flags t)[unat d := tk_flags t ! unat d OR 1]\<rparr>"
  have n: "name_vocab (v # vs) t = name_vocab vs u" by (simp add: name_vocab_def v u_def)
  have f: "flagged u d'" if "flagged t d'" for d' by (rule flagged_or(1) [OF _ that, of u d 1]) (simp add: u_def)
  have fd: "flagged u d" by (rule flagged_or(2) [of u t d 1]) (simp_all add: u_def)
  show ?case using Cons [of u] f fd unfolding n by (auto simp: Let_def v) (simp_all add: u_def)
qed

lemma naming_start: "naming n vs (name_vocab vs (blank_tokenizer vs n))"
  using name_vocab_naming [of vs "blank_tokenizer vs n"] by (simp add: naming_def Let_def blank_tokenizer_def)

lemma add_token_naming:
  assumes "naming n vs t" "add_token a t = Inr t'"
  shows "naming n vs t'"
proof -
  define d where "d = added_id a"
  define c where "c = string_or a ''content'' []"
  define x :: u8 where "x = 1 OR 2 OR (if bool_or a ''special'' False then 4 else 0)"
  have fl: "tk_flags t' = (tk_flags t)[unat d := tk_flags t ! unat d OR x]"
    and tr: "tk_norm_trie t' = trie_insert c d (tk_norm_trie t) \<and> tk_raw_trie t' = tk_raw_trie t
      \<or> tk_raw_trie t' = trie_insert c d (tk_raw_trie t) \<and> tk_norm_trie t' = tk_norm_trie t"
    and rest: "tk_vocab_size t' = tk_vocab_size t" "tk_bytes t' = tk_bytes t" "tk_vocab t' = tk_vocab t" "tk_merges t' = tk_merges t"
    using assms(2) by (auto simp: add_token_def Let_def d_def c_def x_def split: if_splits)
  have "odd x" by (simp add: x_def even_or_iff)
  note f = flagged_or(1) [OF fl] flagged_or(2) [OF fl this]
  have ok: "trie_ok (tk_raw_trie t')" "trie_ok (tk_norm_trie t')"
    using tr trie_insert_spec(1) assms(1) by (auto simp: naming_def)
  have "flagged t' e" if "trie_lookup (tk_raw_trie t') k = Some e \<or> trie_lookup (tk_norm_trie t') k = Some e" for k e
  proof (cases "k = c \<and> e = d")
    case False
    then have "trie_lookup (tk_raw_trie t) k = Some e \<or> trie_lookup (tk_norm_trie t) k = Some e"
      using that tr trie_insert_spec(2) [of _ c d k] assms(1) by (auto simp: naming_def split: if_splits)
    then show ?thesis using f(1) assms(1) by (auto simp: naming_def)
  qed (use f(2) in simp)
  then show ?thesis using assms(1) f(1) ok rest fl by (auto simp: naming_def)
qed

lemma add_tokens_naming: "naming n vs t \<Longrightarrow> add_tokens as t = Inr t' \<Longrightarrow> naming n vs t'"
  by (induction "as" arbitrary: t) (auto simp: rbind_Inr_iff intro: add_token_naming)

lemma load_merges_from:
  "load_merges vocab rank ms m0 = Inr m \<Longrightarrow> m (x, y) = Some (r, z) \<Longrightarrow>
     m0 (x, y) = Some (r, z) \<or> (\<exists>a b. vocab a = Some x \<and> vocab b = Some y \<and> vocab (a @ b) = Some z)"
proof (induction vocab rank ms m0 rule: load_merges.induct)
  case (2 vocab rank p rest m0)
  obtain a b where p: "merge_parts p = Inr (a, b)" using 2(2) by (auto simp: rbind_Inr_iff)
  obtain u v w where v: "vocab a = Some u" "vocab b = Some v" "vocab (a @ b) = Some w"
    and l: "load_merges vocab (rank + 1) rest (if m0 (u, v) = None then m0((u, v) \<mapsto> (rank, w)) else m0) = Inr m"
    using 2(2) p by (auto split: option.splits)
  have "(if m0 (u, v) = None then m0((u, v) \<mapsto> (rank, w)) else m0) (x, y) = Some (r, z)
      \<or> (\<exists>a b. vocab a = Some x \<and> vocab b = Some y \<and> vocab (a @ b) = Some z)"
    by (rule 2(1) [OF refl v(1) refl v(2,3) l 2(3)])
  then show ?case using v by (auto split: if_splits)
qed simp

text \<open>
  No id was given to two strings: every vocabulary string still is the string of its id, and every
  added token is one that decodes to itself.
\<close>

definition unambiguous :: "tokenizer \<Rightarrow> bool" where
  "unambiguous t \<longleftrightarrow> (\<forall>k d. tk_vocab t k = Some d \<longrightarrow> unat d < tk_vocab_size t \<and> tk_str t ! unat d = k)"

definition plain_added :: "tokenizer \<Rightarrow> bool" where
  "plain_added t \<longleftrightarrow>
     (\<forall>k d. trie_lookup (tk_raw_trie t) k = Some d \<or> trie_lookup (tk_norm_trie t) k = Some d \<longrightarrow>
        unat d < tk_vocab_size t \<and> tk_str t ! unat d = k \<and> bytes_of_token_string k = k \<and> utf8_valid k)"

lemma loaded:
  assumes "tokenizer_load doc = Inr t"
  shows "\<forall>d. unat d < tk_vocab_size t \<longrightarrow> \<not> known t d \<longrightarrow> tk_bytes t ! unat d = []"
    and "\<forall>d. known t d \<longrightarrow> tk_bytes t ! unat d = bytes_of_token_string (tk_str t ! unat d)"
    and "\<forall>k d. tk_vocab t k = Some d \<longrightarrow> unat d < tk_vocab_size t \<longrightarrow> known t d"
    and "\<forall>k d. trie_lookup (tk_raw_trie t) k = Some d \<or> trie_lookup (tk_norm_trie t) k = Some d \<longrightarrow> unat d < tk_vocab_size t \<longrightarrow> known t d"
    and "\<forall>c. tk_vocab t (utf8_append (to_char (byte c))) = Some (tk_byte_id t c)"
    and "\<forall>x y r z. tk_merges t (x, y) = Some (r, z) \<longrightarrow> (\<exists>a b. tk_vocab t a = Some x \<and> tk_vocab t b = Some y \<and> tk_vocab t (a @ b) = Some z)"
proof -
  obtain vs aarr n t0 t1 marr ms where add: "add_tokens aarr (name_vocab vs (blank_tokenizer vs n)) = Inr t0"
    and ids: "load_byte_ids (fill_bytes t0) = Inr t1" and mm: "load_merges (tk_vocab t1) 0 marr Map.empty = Inr ms"
    and t: "t = t1\<lparr>tk_merges := ms\<rparr>"
    using assms by (auto simp: tokenizer_load_def rbind_Inr_iff)
  have nm: "naming n vs t0" by (rule add_tokens_naming [OF naming_start add])
  have all: "\<forall>b < 256. tk_vocab t0 (utf8_append (to_char b)) \<noteq> None"
    and t1: "t1 = (fill_bytes t0)\<lparr>tk_byte_id := \<lambda>c. the (tk_vocab t0 (utf8_append (to_char (byte c))))\<rparr>"
    using ids by (auto simp: load_byte_ids_def fill_bytes_def split: if_splits)
  have k: "known t d \<longleftrightarrow> unat d < n \<and> odd (tk_flags t0 ! unat d)" for d
    using nm by (auto simp: known_def t t1 fill_bytes_def naming_def flag_odd)
  have b: "tk_bytes t ! unat d = (if known t d then bytes_of_token_string (tk_str t ! unat d) else [])" if "unat d < n" for d
    unfolding k using nm that by (simp add: t t1 fill_bytes_def naming_def flag_odd)
  have sz: "tk_vocab_size t = n" using nm by (simp add: t t1 fill_bytes_def naming_def)
  have tv: "tk_vocab t = map_of vs" "tk_raw_trie t = tk_raw_trie t0" "tk_norm_trie t = tk_norm_trie t0"
    using nm by (simp_all add: t t1 fill_bytes_def naming_def)
  show "\<forall>d. unat d < tk_vocab_size t \<longrightarrow> \<not> known t d \<longrightarrow> tk_bytes t ! unat d = []" using b sz by simp
  show "\<forall>d. known t d \<longrightarrow> tk_bytes t ! unat d = bytes_of_token_string (tk_str t ! unat d)" using b k by simp
  show "\<forall>k d. tk_vocab t k = Some d \<longrightarrow> unat d < tk_vocab_size t \<longrightarrow> known t d"
    unfolding tv k sz using nm by (fastforce simp: naming_def flagged_def dest!: map_of_SomeD)
  show "\<forall>k d. trie_lookup (tk_raw_trie t) k = Some d \<or> trie_lookup (tk_norm_trie t) k = Some d \<longrightarrow> unat d < tk_vocab_size t \<longrightarrow> known t d"
    unfolding tv k sz using nm by (auto simp: naming_def flagged_def)
  show "\<forall>c. tk_vocab t (utf8_append (to_char (byte c))) = Some (tk_byte_id t c)" using all by (simp add: t t1 fill_bytes_def)
  show "\<forall>x y r z. tk_merges t (x, y) = Some (r, z) \<longrightarrow> (\<exists>a b. tk_vocab t a = Some x \<and> tk_vocab t b = Some y \<and> tk_vocab t (a @ b) = Some z)"
    using load_merges_from [OF mm] by (auto simp: t)
qed

lemma loaded_tok_ok:
  assumes "tokenizer_load doc = Inr t" "unambiguous t"
  shows "tok_ok t"
proof -
  note l = loaded [OF assms(1)]
  have v: "known t d \<and> tk_str t ! unat d = k" if "tk_vocab t k = Some d" for k d
    using that assms(2) l(3) by (auto simp: unambiguous_def)
  have "known t (tk_byte_id t c) \<and> token_chars (tk_str t ! unat (tk_byte_id t c)) = Some [c]" for c
    using v [OF l(5) [rule_format, of c]] token_chars_byte [of "byte c"] by simp
  moreover have "known t z \<and> tk_str t ! unat z = tk_str t ! unat x @ tk_str t ! unat y" if "tk_merges t (x, y) = Some (r, z)" for x y r z
    using l(6) [rule_format, OF that] v by metis
  ultimately show ?thesis using l(1,2) unfolding tok_ok_def by blast
qed

lemma loaded_plain:
  assumes "tokenizer_load doc = Inr t" "unambiguous t" "plain_added t"
  shows "plain_trie t (tk_raw_trie t)" "plain_trie t (tk_norm_trie t)"
proof -
  have "dec t d = k \<and> utf8_valid k" if "trie_lookup (tk_raw_trie t) k = Some d \<or> trie_lookup (tk_norm_trie t) k = Some d" for k d
    using that assms(3) loaded(4) [OF assms(1), rule_format, OF that] dec_known [OF loaded_tok_ok [OF assms(1,2)], of d]
    unfolding plain_added_def by metis
  then show "plain_trie t (tk_raw_trie t)" "plain_trie t (tk_norm_trie t)" unfolding plain_trie_def by blast+
qed

end
