(* ===== verification/Tokenizer_Spec.thy ===== *)
theory Tokenizer_Spec
  imports Tokenizer_Props Json_Props "HOL-Library.Sublist"
begin

text \<open>
  The properties of the tokenizer, and a small document that shows what they say: the 256 byte tokens,
  one merge and one added token.
\<close>

section \<open>A document\<close>

definition demo_strings :: "(string \<times> nat) list" where
  "demo_strings = map (\<lambda>b. (utf8_append (to_char b), b)) [0..<256] @ [(''ab'', 256)]"

definition demo_doc :: json where
  "demo_doc = JObject
     [(''added_tokens'', JArray [JObject [(''content'', JString ''<s>''), (''id'', JNumber ''257''), (''special'', JBool True)]]),
      (''model'', JObject
        [(''dropout'', JNull), (''merges'', JArray [JString ''a b'']), (''type'', JString ''BPE''),
         (''vocab'', JObject (map (\<lambda>(k, n). (k, JNumber (to_string n))) demo_strings))]),
      (''pre_tokenizer'', JObject [(''pretokenizers'', JArray
        (map (\<lambda>rx. JObject [(''behavior'', JString ''Isolated''), (''pattern'', JObject [(''Regex'', JString rx)]), (''type'', JString ''Split'')]) kWant
         @ [JObject [(''add_prefix_space'', JBool False), (''type'', JString ''ByteLevel''), (''use_regex'', JBool False)]]))])]"

definition demo_vocab :: "(string \<times> u32) list" where
  "demo_vocab = map (\<lambda>(k, n). (k, of_nat n)) demo_strings"

lemma load_vocab_numbers:
  "\<forall>(k, n) \<in> set ks. n < 2 ^ 32 \<Longrightarrow> load_vocab (map (\<lambda>(k, n). (k, JNumber (to_string n))) ks) = Inr (map (\<lambda>(k, n). (k, of_nat n)) ks)"
proof (induction ks)
  case (Cons x ks)
  obtain k n where x: "x = (k, n)" by (cases x)
  have n: "n < 2 ^ 32" using Cons.prems by (simp add: x)
  then have "as_uint (JNumber (to_string n)) = Inr (of_nat n)" by (intro as_uint_to_string) simp
  moreover have "(ucast (of_nat n :: u64) :: u32) = of_nat n" using n by (simp add: unsigned_of_nat take_bit_nat_eq_self)
  ultimately show ?case using Cons by (simp add: x del: as_uint.simps)
qed simp

lemma demo_load_vocab: "load_vocab (map (\<lambda>(k, n). (k, JNumber (to_string n))) demo_strings) = Inr demo_vocab"
  unfolding demo_vocab_def by (rule load_vocab_numbers) (auto simp: demo_strings_def)

lemma demo_checks:
  "check_pre_tokenizer demo_doc = Inr ()"
  "check_model demo_doc = Inr (JObject
        [(''dropout'', JNull), (''merges'', JArray [JString ''a b'']), (''type'', JString ''BPE''),
         (''vocab'', JObject (map (\<lambda>(k, n). (k, JNumber (to_string n))) demo_strings))])"
proof -
  have "length kWant = 3" by (simp add: kWant_def)
  then obtain a b c where k: "kWant = [a, b, c]" by (auto simp: numeral_3_eq_3 length_Suc_conv)
  show "check_pre_tokenizer demo_doc = Inr ()"
    by (simp add: check_pre_tokenizer_def demo_doc_def k All_less_Suc split_is_def string_or_def bool_or_def or_default_def Let_def
        numeral_3_eq_3 numeral_2_eq_2)
  show "check_model demo_doc = Inr (JObject
        [(''dropout'', JNull), (''merges'', JArray [JString ''a b'']), (''type'', JString ''BPE''),
         (''vocab'', JObject (map (\<lambda>(k, n). (k, JNumber (to_string n))) demo_strings))])"
    by (simp add: check_model_def demo_doc_def string_or_def bool_or_def or_default_def)
qed

lemma fold_max_le: "\<forall>x \<in> set xs. x \<le> c \<Longrightarrow> a \<le> c \<Longrightarrow> fold max xs a \<le> (c :: u32)"
  by (induction xs arbitrary: a) simp_all

lemma demo_ids: "(k, d) \<in> set demo_vocab \<Longrightarrow> unat d \<le> 256"
  by (auto simp: demo_vocab_def demo_strings_def unsigned_of_nat take_bit_nat_eq_self)

definition demo_added :: json where
  "demo_added = JObject [(''content'', JString ''<s>''), (''id'', JNumber ''257''), (''special'', JBool True)]"

lemma demo_added_id: "added_id demo_added = 257"
proof -
  have "as_int (JNumber ''257'') = Inr 257" by code_simp
  then show ?thesis by (simp add: added_id_def demo_added_def int_or_def or_default_def)
qed

lemma demo_max_id: "max_id demo_vocab [demo_added] = 257"
proof -
  have "fold max (map snd demo_vocab) 0 \<le> 257"
    by (rule fold_max_le) (use demo_ids in \<open>fastforce simp: word_le_nat_alt\<close>)+
  then show ?thesis by (simp add: max_id_def demo_added_id max_def)
qed

lemma name_vocab_strings:
  "distinct (map (unat \<circ> snd) vs) \<Longrightarrow> \<forall>(k, d) \<in> set vs. unat d < length (tk_str t) \<Longrightarrow>
     length (tk_str (name_vocab vs t)) = length (tk_str t)
     \<and> (\<forall>(k, d) \<in> set vs. tk_str (name_vocab vs t) ! unat d = k)
     \<and> (\<forall>i. i \<notin> unat ` snd ` set vs \<longrightarrow> tk_str (name_vocab vs t) ! i = tk_str t ! i)"
proof (induction vs arbitrary: t)
  case Nil
  then show ?case by (simp add: name_vocab_def)
next
  case (Cons v vs)
  obtain k d where v: "v = (k, d)" by (cases v)
  define u where "u = t\<lparr>tk_str := (tk_str t)[unat d := k], tk_flags := (tk_flags t)[unat d := tk_flags t ! unat d OR 1]\<rparr>"
  have n: "name_vocab (v # vs) t = name_vocab vs u" by (simp add: name_vocab_def v u_def)
  have IH: "length (tk_str (name_vocab vs u)) = length (tk_str u)
     \<and> (\<forall>(k, d) \<in> set vs. tk_str (name_vocab vs u) ! unat d = k)
     \<and> (\<forall>i. i \<notin> unat ` snd ` set vs \<longrightarrow> tk_str (name_vocab vs u) ! i = tk_str u ! i)"
    by (rule Cons.IH) (use Cons.prems in \<open>auto simp: u_def\<close>)
  have d: "unat d \<notin> unat ` snd ` set vs" "unat d < length (tk_str t)" using Cons.prems by (auto simp: v)
  then have "tk_str (name_vocab vs u) ! unat d = k" using IH by (simp add: u_def)
  then show ?case using IH unfolding n by (auto simp: v u_def)
qed

lemma demo_distinct: "distinct (map (unat \<circ> snd) demo_vocab)"
proof -
  have "map (unat \<circ> snd) demo_vocab = map (\<lambda>n. unat (of_nat n :: u32)) (map snd demo_strings)"
    by (simp add: demo_vocab_def split_beta comp_def)
  also have "\<dots> = map (\<lambda>n. n) (map snd demo_strings)"
    by (rule map_cong [OF refl]) (auto simp: demo_strings_def unsigned_of_nat take_bit_nat_eq_self)
  also have "\<dots> = [0..<257]" by (simp add: demo_strings_def comp_def upt_conv_Cons_Cons flip: upt_Suc_append)
  finally show ?thesis by simp
qed

lemma demo_vocab_dom: "b < 256 \<Longrightarrow> map_of demo_vocab (utf8_append (to_char b)) \<noteq> None" "map_of demo_vocab ''ab'' \<noteq> None"
  "map_of demo_vocab ''a'' \<noteq> None" "map_of demo_vocab ''b'' \<noteq> None"
proof -
  have d: "map_of demo_vocab k \<noteq> None \<longleftrightarrow> k \<in> fst ` set demo_strings" for k
    by (force simp: map_of_eq_None_iff demo_vocab_def)
  show b: "map_of demo_vocab (utf8_append (to_char b)) \<noteq> None" if "b < 256" for b
    unfolding d using that by (force simp: demo_strings_def)
  show "map_of demo_vocab ''ab'' \<noteq> None" unfolding d by (simp add: demo_strings_def)
  have "utf8_append (to_char 97) = ''a''" "utf8_append (to_char 98) = ''b''"
    by (simp_all add: to_char_def kept_byte_def utf8_append_def char_of_def bit_0)
  then show "map_of demo_vocab ''a'' \<noteq> None" "map_of demo_vocab ''b'' \<noteq> None" using b [of 97] b [of 98] by simp_all
qed

definition demo_named :: tokenizer where
  "demo_named = name_vocab demo_vocab (blank_tokenizer demo_vocab 258)"

definition demo_tokens :: tokenizer where
  "demo_tokens = demo_named\<lparr>tk_str := (tk_str demo_named)[257 := ''<s>''],
     tk_flags := (tk_flags demo_named)[257 := tk_flags demo_named ! 257 OR 7],
     tk_added := (tk_added demo_named)(''<s>'' \<mapsto> 257), tk_raw_trie := trie_insert ''<s>'' 257 empty_trie\<rparr>"

lemma demo_named_parts:
  "tk_raw_trie demo_named = empty_trie" "tk_norm_trie demo_named = empty_trie" "tk_vocab demo_named = map_of demo_vocab"
  "tk_vocab_size demo_named = 258" "length (tk_str demo_named) = 258"
  "(k, d) \<in> set demo_vocab \<Longrightarrow> tk_str demo_named ! unat d = k"
proof -
  have "\<forall>(k, d) \<in> set demo_vocab. unat d < length (tk_str (blank_tokenizer demo_vocab 258))"
    using demo_ids by (fastforce simp: blank_tokenizer_def)
  note st = name_vocab_strings [OF demo_distinct this]
  show "length (tk_str demo_named) = 258" "(k, d) \<in> set demo_vocab \<Longrightarrow> tk_str demo_named ! unat d = k"
    using st by (auto simp: demo_named_def blank_tokenizer_def)
  have b: "tk_raw_trie (blank_tokenizer demo_vocab 258) = empty_trie" "tk_norm_trie (blank_tokenizer demo_vocab 258) = empty_trie"
    "tk_vocab (blank_tokenizer demo_vocab 258) = map_of demo_vocab" "tk_vocab_size (blank_tokenizer demo_vocab 258) = 258"
    by (simp_all add: blank_tokenizer_def)
  show "tk_raw_trie demo_named = empty_trie" "tk_norm_trie demo_named = empty_trie" "tk_vocab demo_named = map_of demo_vocab"
    "tk_vocab_size demo_named = 258"
    using name_vocab_naming [of demo_vocab "blank_tokenizer demo_vocab 258"] unfolding Let_def demo_named_def b by blast+
qed

lemma demo_add: "add_tokens [demo_added] demo_named = Inr demo_tokens"
proof -
  have "string_or demo_added ''content'' [] = ''<s>''" "bool_or demo_added ''special'' False" "\<not> bool_or demo_added ''lstrip'' False"
    "\<not> bool_or demo_added ''rstrip'' False" "\<not> bool_or demo_added ''single_word'' False" "\<not> bool_or demo_added ''normalized'' False"
    by (simp_all add: demo_added_def string_or_def bool_or_def or_default_def)
  then show ?thesis by (simp add: add_token_def Let_def demo_tokens_def demo_named_parts(1) demo_added_id)
qed

lemma demo_loads:
  "\<exists>t. tokenizer_load demo_doc = Inr t \<and> tk_vocab t = map_of demo_vocab \<and> tk_vocab_size t = 258 \<and> tk_str t = tk_str demo_tokens
     \<and> tk_raw_trie t = trie_insert ''<s>'' 257 empty_trie \<and> tk_norm_trie t = empty_trie"
proof -
  have size: "unat (max_id demo_vocab [demo_added] + 1) = 258" by (simp add: demo_max_id)
  obtain t1 where ids: "load_byte_ids (fill_bytes demo_tokens) = Inr t1" "tk_vocab t1 = map_of demo_vocab" "tk_vocab_size t1 = 258"
    "tk_str t1 = tk_str demo_tokens" "tk_raw_trie t1 = trie_insert ''<s>'' 257 empty_trie" "tk_norm_trie t1 = empty_trie"
    using demo_vocab_dom(1) by (auto simp: load_byte_ids_def fill_bytes_def demo_tokens_def demo_named_parts(1-5))
  have parts: "merge_parts (JString ''a b'') = Inr (''a'', ''b'')" by (simp add: merge_parts_def Let_def)
  obtain x y z where "map_of demo_vocab ''a'' = Some x" "map_of demo_vocab ''b'' = Some y" "map_of demo_vocab ''ab'' = Some z"
    using demo_vocab_dom(2-4) by blast
  then obtain ms where ms: "load_merges (map_of demo_vocab) 0 [JString ''a b''] Map.empty = Inr ms" using parts by simp
  have "tokenizer_load demo_doc = Inr (t1\<lparr>tk_merges := ms\<rparr>)"
    unfolding tokenizer_load_def demo_checks
    using demo_add size ids(1,2) ms demo_load_vocab
    by (simp add: json_at_def demo_named_def del: add_tokens.simps load_merges.simps)
      (simp add: demo_doc_def demo_added_def [symmetric] demo_named_def ids(2) ms del: add_tokens.simps load_merges.simps)
  then show ?thesis using ids by simp
qed

lemma demo_plain: "bytes_of_token_string ''<s>'' = ''<s>''" "utf8_valid ''<s>''"
proof -
  have c: "utf8_append (to_char 60) = ''<''" "utf8_append (to_char 115) = ''s''" "utf8_append (to_char 62) = ''>''"
    by (simp_all add: to_char_def kept_byte_def utf8_append_def char_of_def bit_0)
  have b: "char_of (60 :: nat) = CHR ''<''" "char_of (115 :: nat) = CHR ''s''" "char_of (62 :: nat) = CHR ''>''"
    by (simp_all add: char_of_def bit_0)
  have "token_chars ''s>'' = Some ''s>''"
    using token_chars_append [of "''s''" _ "''>''"] token_chars_byte [of 115] token_chars_byte [of 62] by (simp add: c b)
  then have "token_chars ''<s>'' = Some ''<s>''"
    using token_chars_append [of "''<''" _ "''s>''"] token_chars_byte [of 60] by (simp add: c b)
  then show "bytes_of_token_string ''<s>'' = ''<s>''" by (simp add: bytes_of_token_string_def)
  show "utf8_valid ''<s>''" by (simp add: utf8_valid.simps utf8_next_def byte_def)
qed

lemma demo_tokenizer: "\<exists>t. tokenizer_load demo_doc = Inr t \<and> unambiguous t \<and> plain_added t"
proof -
  obtain t where t: "tokenizer_load demo_doc = Inr t" "tk_vocab t = map_of demo_vocab" "tk_vocab_size t = 258" "tk_str t = tk_str demo_tokens"
    "tk_raw_trie t = trie_insert ''<s>'' 257 empty_trie" "tk_norm_trie t = empty_trie"
    using demo_loads by blast
  have "unat d < 258 \<and> tk_str t ! unat d = k" if "map_of demo_vocab k = Some d" for k d
  proof -
    have m: "(k, d) \<in> set demo_vocab" using that by (rule map_of_SomeD)
    then have "unat d \<noteq> 257" "unat d < 258" using demo_ids [OF m] by simp_all
    then show ?thesis using demo_named_parts(6) [OF m] by (simp add: t(4) demo_tokens_def)
  qed
  then have "unambiguous t" by (simp add: unambiguous_def t(2,3))
  moreover have "tk_str t ! 257 = ''<s>''" by (simp add: t(4) demo_tokens_def demo_named_parts(5))
  then have "plain_added t"
    by (auto simp: plain_added_def t(3,5,6) trie_insert_spec(2) demo_plain split: if_splits)
  ultimately show ?thesis using t(1) by blast
qed

section \<open>Properties\<close>

text \<open>
  C31. Decoding what was encoded gives back the text: for every tokenizer that loads, gives no id to two
  strings and whose added tokens decode to themselves, and for every text, whatever the Unicode
  tables say, the result is the text with every bad UTF-8 sequence replaced, so a valid text itself.
\<close>

theorem tokenizer_round_trip:
  assumes "tokenizer_load doc = Inr t" "unambiguous t" "plain_added t"
  shows "decode t (encode ut t s) False = fst (utf8_lossy False s)"
  by (rule encode_decode [OF loaded_tok_ok [OF assms(1,2)] loaded_plain [OF assms]])

theorem tokenizer_round_trip_witness:
  "\<exists>t. tokenizer_load demo_doc = Inr t \<and> decode t (encode \<lparr>kClassN = [], kClassL = [(97, 122)], kClassM = [], kClassP = [], kClassS = [],
        kClassWS = [(32, 32)]\<rparr> t ''ab <s>'') False = fst (utf8_lossy False ''ab <s>'')"
  using demo_tokenizer tokenizer_round_trip [of demo_doc] by blast

text \<open>
  C32. The words of a text are encoded by byte-pair encoding proper: the priority queue with its stale
  candidates ends, and gives what repeatedly merging the leftmost pair of the lowest rank gives.
\<close>

theorem bpe_is_merge_all:
  assumes "tokenizer_load doc = Inr t" "unambiguous t"
  shows "bpe (tk_merges t) (tk_byte_id t) word = merge_all (tk_merges t) (map (tk_byte_id t) word)"
  by (rule bpe_merge_all [OF tok_sized [OF loaded_tok_ok [OF assms]]]) (use tok_bytes(3) [OF loaded_tok_ok [OF assms]] in simp)

theorem bpe_is_merge_all_witness:
  "\<exists>t. tokenizer_load demo_doc = Inr t \<and>
     bpe (tk_merges t) (tk_byte_id t) ''cabab'' = merge_all (tk_merges t) (map (tk_byte_id t) ''cabab'')"
  using demo_tokenizer bpe_is_merge_all [of demo_doc] by blast

text \<open>
  C34. Streaming loses nothing: pushing the ids one by one through a \<^verbatim>\<open>StreamDecoder\<close> and flushing it gives
  what decoding them at once gives, wherever the tokens cut the UTF-8 sequences.
\<close>

theorem stream_decode_exact:
  assumes "tokenizer_load doc = Inr t"
  shows "stream_decode t skip_special ids [] = decode t ids skip_special"
  using stream_decode_lossy [OF loaded(1) [OF assms], of skip_special ids "[]"] by (simp add: decode_def)

theorem stream_decode_exact_witness:
  "\<exists>t. tokenizer_load demo_doc = Inr t \<and> stream_decode t True [0xE2, 257, 0x82, 0xAC, 999] [] = decode t [0xE2, 257, 0x82, 0xAC, 999] True"
  using demo_tokenizer stream_decode_exact [of demo_doc] by blast

lemma lookup_inserted:
  assumes "\<forall>(k, d) \<in> set kvs. 0 \<le> sint d"
  shows "trie_ok (fold (\<lambda>(k, d). trie_insert k d) kvs empty_trie)
     \<and> trie_lookup (fold (\<lambda>(k, d). trie_insert k d) kvs empty_trie) s = map_of (rev kvs) s"
  using assms
proof (induction kvs arbitrary: s rule: rev_induct)
  case (snoc x kvs)
  obtain k d where x: "x = (k, d)" by (cases x)
  let ?t = "fold (\<lambda>(k, d). trie_insert k d) kvs empty_trie"
  have "trie_ok ?t" "trie_lookup ?t s = map_of (rev kvs) s" using snoc by auto
  then show ?case using snoc.prems trie_insert_spec [of ?t k d] by (simp add: x)
qed simp

text \<open>
  The trie of the added tokens finds the longest one: with any tokens inserted in any order, what
  \<^verbatim>\<open>longest_at\<close> reports is the last id given to the longest inserted token the text starts with, and the
  length 0 when it starts with none.
\<close>

theorem longest_added_token:
  assumes "\<forall>(k, d) \<in> set kvs. k \<noteq> [] \<and> 0 \<le> sint d"
  shows "case longest_at (fold (\<lambda>(k, d). trie_insert k d) kvs empty_trie) s of (n, d) \<Rightarrow>
      (if n = 0 then \<forall>k \<in> fst ` set kvs. \<not> prefix k s
       else map_of (rev kvs) (take n s) = Some d \<and> (\<forall>k \<in> fst ` set kvs. prefix k s \<longrightarrow> length k \<le> n))"
proof -
  let ?t = "fold (\<lambda>(k, d). trie_insert k d) kvs empty_trie"
  have lk: "trie_lookup ?t x = map_of (rev kvs) x" for x using lookup_inserted [of kvs x] assms by fastforce
  have pre: "\<exists>j. 0 < j \<and> j \<le> length s \<and> j = length k \<and> map_of (rev kvs) (take j s) \<noteq> None" if k: "k \<in> fst ` set kvs" "prefix k s" for k
  proof -
    have "take (length k) s = k" "length k \<le> length s" using k(2) by (auto simp: prefix_def)
    moreover have "k \<noteq> []" using k(1) assms by auto
    moreover have "map_of (rev kvs) k \<noteq> None" using k(1) by (simp add: map_of_eq_None_iff)
    ultimately show ?thesis by (intro exI [of _ "length k"]) simp
  qed
  from longest_at_spec [of ?t s] show ?thesis unfolding lk
  proof (elim disjE exE conjE)
    assume z: "longest_at ?t s = (0, 0)" and none: "\<forall>j. 0 < j \<and> j \<le> length s \<longrightarrow> map_of (rev kvs) (take j s) = None"
    have "\<not> prefix k s" if "k \<in> fst ` set kvs" for k using pre [OF that] none by auto
    then show ?thesis using z by simp
  next
    fix j d
    assume j: "0 < j" "longest_at ?t s = (j, d)" "map_of (rev kvs) (take j s) = Some d"
      and none: "\<forall>j'. j < j' \<and> j' \<le> length s \<longrightarrow> map_of (rev kvs) (take j' s) = None"
    have "length k \<le> j" if "k \<in> fst ` set kvs" "prefix k s" for k using pre [OF that] none by (metis linorder_not_le)
    then show ?thesis using j by simp
  qed
qed

theorem longest_added_token_witness:
  "case longest_at (fold (\<lambda>(k, d). trie_insert k d) [(''<s>'', 1), (''<s>x'', 2), (''<s>'', 3)] empty_trie) ''<s>xy'' of (n, d) \<Rightarrow>
      n = 4 \<and> d = 2 \<and> map_of (rev [(''<s>'', 1 :: u32), (''<s>x'', 2), (''<s>'', 3)]) (take n ''<s>xy'') = Some d"
proof -
  have "longest_at (fold (\<lambda>(k, d). trie_insert k d) [(''<s>'', 1), (''<s>x'', 2), (''<s>'', 3)] empty_trie) ''<s>xy'' = (4, 2)"
    by code_simp
  then show ?thesis
    using longest_added_token [of "[(''<s>'', 1 :: u32), (''<s>x'', 2), (''<s>'', 3)]" "''<s>xy''"] by simp
qed

end
