(* ===== verification/Pretokenizer.thy ===== *)
theory Pretokenizer
  imports Tokenizer_Props
begin

text \<open>
  The three regular expressions of the pre-tokenizer and their hand-compiled matchers. A pattern is read
  the way a backtracking engine reads it: the places where a match may end, in the order in which the
  engine tries them, so that the match is the first. The patterns here repeat single characters only,
  and a repetition is greedy: it ends as late as it can first.
\<close>

section \<open>Patterns\<close>

text \<open>A character test reads the code point; the class of a code point comes from the tables.\<close>

datatype regex =
    Rep "nat \<Rightarrow> bool" nat "nat option"
  | Seq regex regex
  | Alt regex regex
  | NotAhead "nat \<Rightarrow> bool"

abbreviation One :: "(nat \<Rightarrow> bool) \<Rightarrow> regex" where "One p \<equiv> Rep p 1 (Some 1)"
abbreviation Opt :: "(nat \<Rightarrow> bool) \<Rightarrow> regex" where "Opt p \<equiv> Rep p 0 (Some 1)"
abbreviation Many :: "(nat \<Rightarrow> bool) \<Rightarrow> regex" where "Many p \<equiv> Rep p 0 None"
abbreviation Many1 :: "(nat \<Rightarrow> bool) \<Rightarrow> regex" where "Many1 p \<equiv> Rep p 1 None"

text \<open>How far a repetition can go, with its bound.\<close>

definition rep_end :: "nat list \<Rightarrow> (nat \<Rightarrow> bool) \<Rightarrow> nat option \<Rightarrow> nat \<Rightarrow> nat \<Rightarrow> nat" where
  "rep_end cp p hi i e = run_end (\<lambda>j. p (cp ! j)) i (case hi of None \<Rightarrow> e | Some m \<Rightarrow> min e (i + m))"

fun ends :: "nat list \<Rightarrow> nat \<Rightarrow> regex \<Rightarrow> nat \<Rightarrow> nat list" where
  "ends cp e (Rep p lo hi) i = rev [i + lo..<Suc (rep_end cp p hi i e)]"
| "ends cp e (Seq r s) i = concat (map (ends cp e s) (ends cp e r i))"
| "ends cp e (Alt r s) i = ends cp e r i @ ends cp e s i"
| "ends cp e (NotAhead p) i = (if i < e \<and> p (cp ! i) then [] else [i])"

text \<open>The length of the match at a position; 0 when there is none. An empty match is not a match for a split.\<close>

definition regex_match :: "nat list \<Rightarrow> regex \<Rightarrow> nat \<Rightarrow> nat \<Rightarrow> nat" where
  "regex_match cp r i e = (case ends cp e r i of [] \<Rightarrow> 0 | j # _ \<Rightarrow> j - i)"

definition in_class :: "unicode_tables \<Rightarrow> u8 \<Rightarrow> nat \<Rightarrow> bool" where
  "in_class ut bits c \<longleftrightarrow> class_table ut c AND bits \<noteq> 0"

definition line_break :: "nat \<Rightarrow> bool" where
  "line_break c \<longleftrightarrow> c = 0x0D \<or> c = 0x0A"

text \<open>The patterns of \<^verbatim>\<open>kWant\<close>, in the order of their text.\<close>

definition numbers_regex :: "unicode_tables \<Rightarrow> regex" where
  "numbers_regex ut = Rep (in_class ut kN) 1 (Some 3)"

definition cjk_regex :: "unicode_tables \<Rightarrow> regex" where
  "cjk_regex ut = Many1 (in_class ut kCJK)"

definition words_regex :: "unicode_tables \<Rightarrow> regex" where
  "words_regex ut =
     Alt (Seq (One is_ascii_punct) (Many1 is_ascii_alpha))
    (Alt (Seq (Opt (\<lambda>c. \<not> (line_break c \<or> in_class ut (kL OR kP OR kS) c))) (Many1 (in_class ut (kL OR kM))))
    (Alt (Seq (Opt (\<lambda>c. c = 0x20)) (Seq (Many1 (in_class ut (kP OR kS))) (Many line_break)))
    (Alt (Seq (Many (in_class ut kWS)) (Many1 line_break))
    (Alt (Seq (Many1 (in_class ut kWS)) (NotAhead (\<lambda>c. \<not> in_class ut kWS c)))
         (Many1 (in_class ut kWS))))))"

section \<open>Runs\<close>

lemma run_end_stop: "j \<le> e \<Longrightarrow> run_end p j e < e \<Longrightarrow> \<not> p (run_end p j e)"
proof (induction p j e rule: run_end.induct)
  case (1 p j e)
  then show ?case by (cases "j < e \<and> p j") (simp_all add: run_end.simps [of p j])
qed

lemma run_end_all: "j \<le> k \<Longrightarrow> k < run_end p j e \<Longrightarrow> p k"
proof (induction p j e rule: run_end.induct)
  case (1 p j e)
  show ?case
  proof (cases "j < e \<and> p j")
    case True
    then show ?thesis using 1 by (cases "k = j") (simp_all add: run_end.simps [of p j])
  next
    case False
    then show ?thesis using 1 by (auto simp: run_end.simps [of p j])
  qed
qed

lemma run_end_gt: "j < e \<Longrightarrow> j < run_end p j e \<longleftrightarrow> p j"
  using run_end_bounds [of "Suc j" e p] by (auto simp: run_end.simps [of p j])

lemma has_class_in [simp]: "has_class ut cp i bits = in_class ut bits (cp ! i)"
  by (simp add: has_class_def in_class_def)

lemma crlf_in [simp]: "crlf cp i = line_break (cp ! i)"
  by (simp add: crlf_def line_break_def)

lemma crlf_fun: "crlf cp = (\<lambda>j. line_break (cp ! j))"
  by (simp add: fun_eq_iff)

abbreviation run :: "nat list \<Rightarrow> (nat \<Rightarrow> bool) \<Rightarrow> nat \<Rightarrow> nat \<Rightarrow> nat" where
  "run cp p i e \<equiv> run_end (\<lambda>j. p (cp ! j)) i e"

lemma rep_end_simps [simp]: "rep_end cp p None i e = run cp p i e"
  "i < e \<Longrightarrow> rep_end cp p (Some (Suc 0)) i e = (if p (cp ! i) then Suc i else i)"
  by (simp_all add: rep_end_def run_end.simps [of _ "i :: nat"] run_end.simps [of _ "Suc i"])

lemma run_end_self [simp]: "run_end p e e = e"
  by (simp add: run_end.simps)

section \<open>First matches\<close>

definition first :: "'a list \<Rightarrow> 'a option" where
  "first xs = (case xs of [] \<Rightarrow> None | x # _ \<Rightarrow> Some x)"

lemma first_simps [simp]:
  "first [] = None" "first (x # xs) = Some x"
  "first (xs @ ys) = (case first xs of None \<Rightarrow> first ys | Some x \<Rightarrow> Some x)"
  by (cases xs; simp add: first_def)+

lemma regex_match_first: "regex_match cp r i e = (case first (ends cp e r i) of None \<Rightarrow> 0 | Some j \<Rightarrow> j - i)"
  by (cases "ends cp e r i") (simp_all add: regex_match_def)

lemma ends_rep: "ends cp e (Rep p lo hi) i =
    (if i + lo \<le> rep_end cp p hi i e then rep_end cp p hi i e # rev [i + lo..<rep_end cp p hi i e] else [])"
  by simp

lemma first_many: "i \<le> e \<Longrightarrow> first (ends cp e (Many p) i) = Some (run cp p i e)"
  using run_end_bounds [of i e] by simp

lemma first_many1: "i \<le> e \<Longrightarrow> first (ends cp e (Many1 p) i) = (if i < e \<and> p (cp ! i) then Some (run cp p i e) else None)"
proof (cases "i < e")
  case True
  then show ?thesis using run_end_gt [OF True, of "\<lambda>j. p (cp ! j)"] by (simp del: upt_Suc) (simp add: Suc_le_eq)
next
  case False
  assume "i \<le> e"
  then show ?thesis using False by (simp add: run_end.simps [of _ i])
qed

lemma ends_opt: "i < e \<Longrightarrow> ends cp e (Opt p) i = (if p (cp ! i) then [i + 1, i] else [i])"
  by simp

lemma ends_one: "i < e \<Longrightarrow> ends cp e (One p) i = (if p (cp ! i) then [i + 1] else [])"
  by simp

declare ends.simps(1) [simp del]

text \<open>An optional character, then something that is there or not.\<close>

lemma first_opt_seq:
  assumes "i < e"
  shows "first (ends cp e (Seq (Opt p) r) i) =
    (if p (cp ! i) \<and> first (ends cp e r (i + 1)) \<noteq> None then first (ends cp e r (i + 1)) else first (ends cp e r i))"
  using ends_opt [OF assms, of cp p] by (auto split: option.split)

lemma first_symbols:
  assumes "i \<le> e"
  shows "first (ends cp e (Seq (Many1 p) (Many q)) i) = (if i < e \<and> p (cp ! i) then Some (run cp q (run cp p i e) e) else None)"
proof (cases "ends cp e (Many1 p) i")
  case Nil
  then show ?thesis using first_many1 [OF assms, of cp p] by (auto split: if_splits)
next
  case (Cons j js)
  then have j: "i < e \<and> p (cp ! i)" "j = run cp p i e" using first_many1 [OF assms, of cp p] by (auto split: if_splits)
  then have "j \<le> e" using run_end_bounds [of i e] assms by simp
  then show ?thesis using Cons j first_many [of j e cp q] by simp
qed

section \<open>Whitespace\<close>

lemma last_crlf_None: "last_crlf cp i k = None \<longleftrightarrow> (\<forall>j. i \<le> j \<and> j < k \<longrightarrow> \<not> crlf cp j)"
proof (induction cp i k rule: last_crlf.induct)
  case (1 cp i k)
  show ?case
  proof (cases "k \<le> i")
    case False
    have less: "j < k \<longleftrightarrow> j < k - 1 \<or> j = k - 1" for j using False by auto
    have "(\<forall>j. i \<le> j \<and> j < k \<longrightarrow> \<not> crlf cp j) \<longleftrightarrow> \<not> crlf cp (k - 1) \<and> (\<forall>j. i \<le> j \<and> j < k - 1 \<longrightarrow> \<not> crlf cp j)"
      unfolding less using False by auto
    then show ?thesis using False 1 by (simp add: last_crlf.simps [of cp i k])
  qed (auto simp: last_crlf.simps)
qed

lemma last_crlf_Some:
  "last_crlf cp i k = Some n \<Longrightarrow>
     0 < n \<and> i + n \<le> k \<and> crlf cp (i + n - 1) \<and> (\<forall>j. i + n \<le> j \<and> j < k \<longrightarrow> \<not> crlf cp j)"
proof (induction cp i k rule: last_crlf.induct)
  case (1 cp i k)
  have k: "\<not> k \<le> i" using 1(2) by (auto simp: last_crlf.simps [of cp i k])
  show ?case
  proof (cases "crlf cp (k - 1)")
    case True
    then show ?thesis using 1(2) k by (auto simp: last_crlf.simps [of cp i k] simp del: crlf_in)
  next
    case False
    then have "last_crlf cp i (k - 1) = Some n" using 1(2) k by (simp add: last_crlf.simps [of cp i k])
    from 1(1) [OF k False this] show ?thesis using False k
      by (metis Suc_pred' diff_le_self gr_zeroI le_trans less_Suc_eq not_less zero_le diff_Suc_1)
  qed
qed

text \<open>Greedy whitespace that must be followed by line breaks ends after the last line break of the run.\<close>

lemma concat_first_skip:
  "(\<And>x. x \<in> set xs \<Longrightarrow> first (f x) = None) \<Longrightarrow> first (concat (map f (xs @ ys))) = first (concat (map f ys))"
  by (induction xs) auto

lemma first_breaks:
  assumes "i < e" "\<And>c. line_break c \<Longrightarrow> ws c" and R_def: "R = run cp ws i e"
  shows "first (ends cp e (Seq (Many ws) (Many1 line_break)) i) = map_option ((+) i) (last_crlf cp i R)"
proof -
  have R: "i \<le> R" "R \<le> e" using run_end_bounds [of i e] assms(1) by (simp_all add: R_def)
  let ?f = "ends cp e (Many1 line_break)"
  have out: "\<not> (R < e \<and> line_break (cp ! R))" using run_end_stop [of i e "\<lambda>j. ws (cp ! j)"] assms(1,2) by (auto simp: R_def)
  have none: "first (?f k) = None" if "k \<le> e" "\<not> (k < e \<and> line_break (cp ! k))" for k
    using first_many1 [OF that(1), of cp line_break] that(2) by simp
  have e1: "ends cp e (Many ws) i = rev [i..<Suc R]" by (simp add: ends.simps(1) R_def)
  show ?thesis
  proof (cases "last_crlf cp i R")
    case None
    then have "\<forall>k \<in> set (rev [i..<Suc R]). first (?f k) = None"
      using none out R by (auto simp: last_crlf_None less_Suc_eq)
    then have "first (concat (map ?f (rev [i..<Suc R] @ []))) = None" by (subst concat_first_skip) auto
    then show ?thesis using None e1 by simp
  next
    case (Some n)
    note l = last_crlf_Some [OF Some]
    define k where "k = i + n - 1"
    have k: "i \<le> k" "k < R" "Suc k = i + n" "line_break (cp ! k)" using l by (auto simp: k_def)
    have up: "[i..<Suc R] = [i..<k] @ k # [Suc k..<Suc R]"
      using k upt_add_eq_append [of i k "Suc R - k"] upt_conv_Cons [of k "Suc R"] by simp
    have skip: "first (?f x) = None" if "x \<in> set (rev [Suc k..<Suc R])" for x
      using none [of x] l out R k(3) that by (cases "x = R") (auto simp: less_Suc_eq)
    have "run cp line_break k e = Suc k"
    proof -
      have "\<not> (Suc k < e \<and> line_break (cp ! Suc k))" using l out k(2,3) by (cases "Suc k = R") auto
      then have "run cp line_break (Suc k) e = Suc k" by (subst run_end.simps) auto
      then show ?thesis using k(2,4) R by (simp add: run_end.simps [of _ k])
    qed
    then have "first (?f k) = Some (Suc k)" using first_many1 [of k e cp line_break] k R by simp
    moreover have "first (concat (map ?f (rev [i..<Suc R]))) = first (concat (map ?f (k # rev [i..<k])))"
      using concat_first_skip [of "rev [Suc k..<Suc R]" ?f "k # rev [i..<k]"] skip unfolding up by simp
    ultimately show ?thesis using Some e1 k(3) by simp
  qed
qed

lemma first_space:
  assumes "i < e" and R_def: "R = run cp ws i e"
  shows "first (ends cp e (Seq (Many1 ws) (NotAhead (\<lambda>c. \<not> ws c))) i) =
    (if \<not> ws (cp ! i) then None else if R = e then Some e else if R - i \<ge> 2 then Some (R - 1) else None)"
proof (cases "ws (cp ! i)")
  case False
  then show ?thesis using first_many1 [of i e cp ws] assms(1) by (cases "ends cp e (Many1 ws) i") simp_all
next
  case True
  have R: "i < R" "R \<le> e" using run_end_bounds [of i e] run_end_gt [OF assms(1), of "\<lambda>j. ws (cp ! j)"] assms(1) True by (simp_all add: R_def)
  have e1: "ends cp e (Many1 ws) i = R # rev [i + 1..<R]" using R by (simp add: ends_rep flip: R_def)
  show ?thesis
  proof (cases "R = e")
    case no: False
    then have stop: "\<not> ws (cp ! R)" using run_end_stop [of i e "\<lambda>j. ws (cp ! j)"] assms(1) R by (simp add: R_def)
    show ?thesis
    proof (cases "R - i \<ge> 2")
      case True
      then have "rev [i + 1..<R] = (R - 1) # rev [i + 1..<R - 1]"
        using upt_Suc_append [of "i + 1" "R - 1"] R(1) by simp
      moreover have "ws (cp ! (R - 1))" using run_end_all [of i "R - 1" "\<lambda>j. ws (cp ! j)" e] R True by (simp add: R_def)
      ultimately show ?thesis using e1 stop no R True \<open>ws (cp ! i)\<close> by simp
    next
      case False
      then have "rev [i + 1..<R] = []" by simp
      then show ?thesis using e1 stop no R False by simp
    qed
  qed (use e1 True in simp)
qed

section \<open>The matchers are the patterns\<close>

definition breaks_are_space :: "unicode_tables \<Rightarrow> bool" where
  "breaks_are_space ut \<longleftrightarrow> in_class ut kWS 0x0D \<and> in_class ut kWS 0x0A"

lemma match_space_first:
  assumes "i < e" "breaks_are_space ut"
  shows "match_space ut cp i e =
    (case first (ends cp e (Alt (Seq (Many (in_class ut kWS)) (Many1 line_break))
        (Alt (Seq (Many1 (in_class ut kWS)) (NotAhead (\<lambda>c. \<not> in_class ut kWS c))) (Many1 (in_class ut kWS)))) i)
     of None \<Rightarrow> 0 | Some j \<Rightarrow> j - i)"
proof -
  define R where "R = run cp (in_class ut kWS) i e"
  have R: "i \<le> R" "R \<le> e" using run_end_bounds [of i e] assms(1) by (simp_all add: R_def)
  have lb: "line_break c \<Longrightarrow> in_class ut kWS c" for c using assms(2) by (auto simp: breaks_are_space_def line_break_def)
  note f = first_breaks [OF assms(1) lb R_def] first_space [OF assms(1) R_def] first_many1 [of i e cp "in_class ut kWS", folded R_def]
  show ?thesis
  proof (cases "in_class ut kWS (cp ! i)")
    case False
    then have "R = i" using run_end_gt [OF assms(1), of "\<lambda>j. in_class ut kWS (cp ! j)"] R by (simp add: R_def)
    then have "last_crlf cp i R = None" by (simp add: last_crlf.simps)
    then show ?thesis using False f assms(1) by (simp add: match_space_def del: ends.simps(2))
  next
    case True
    show ?thesis
    proof (cases "last_crlf cp i R")
      case None
      then show ?thesis using True f R assms(1)
        by (simp add: match_space_def Let_def del: ends.simps(2) flip: R_def)
    next
      case (Some n)
      then show ?thesis using True f(1) by (simp add: match_space_def Let_def del: ends.simps(2) flip: R_def)
    qed
  qed
qed

lemma match_symbols_first:
  assumes "i < e" "breaks_are_space ut"
  shows "match_symbols ut cp i e =
    (case first (ends cp e (Alt (Seq (Opt (\<lambda>c. c = 0x20)) (Seq (Many1 (in_class ut (kP OR kS))) (Many line_break)))
        (Alt (Seq (Many (in_class ut kWS)) (Many1 line_break))
        (Alt (Seq (Many1 (in_class ut kWS)) (NotAhead (\<lambda>c. \<not> in_class ut kWS c))) (Many1 (in_class ut kWS))))) i)
     of None \<Rightarrow> 0 | Some j \<Rightarrow> j - i)"
proof -
  note s = first_opt_seq [OF assms(1), of cp "\<lambda>c. c = 0x20" "Seq (Many1 (in_class ut (kP OR kS))) (Many line_break)"]
    first_symbols [of i e cp "in_class ut (kP OR kS)" line_break] first_symbols [of "i + 1" e cp "in_class ut (kP OR kS)" line_break]
  show ?thesis
    using s assms(1) by (subst ends.simps(3)) (simp add: match_symbols_def Let_def crlf_fun match_space_first [OF assms] del: ends.simps)
qed

lemma match_letters_first:
  assumes "i < e" "breaks_are_space ut"
  shows "match_letters ut cp i e =
    (case first (ends cp e (Alt (Seq (Opt (\<lambda>c. \<not> (line_break c \<or> in_class ut (kL OR kP OR kS) c))) (Many1 (in_class ut (kL OR kM))))
        (Alt (Seq (Opt (\<lambda>c. c = 0x20)) (Seq (Many1 (in_class ut (kP OR kS))) (Many line_break)))
        (Alt (Seq (Many (in_class ut kWS)) (Many1 line_break))
        (Alt (Seq (Many1 (in_class ut kWS)) (NotAhead (\<lambda>c. \<not> in_class ut kWS c))) (Many1 (in_class ut kWS)))))) i)
     of None \<Rightarrow> 0 | Some j \<Rightarrow> j - i)"
proof -
  note s = first_opt_seq [OF assms(1), of cp "\<lambda>c. \<not> (line_break c \<or> in_class ut (kL OR kP OR kS) c)" "Many1 (in_class ut (kL OR kM))"]
    first_many1 [of i e cp "in_class ut (kL OR kM)"] first_many1 [of "i + 1" e cp "in_class ut (kL OR kM)"]
  show ?thesis
    using s assms(1) by (subst ends.simps(3)) (simp add: match_letters_def Let_def match_symbols_first [OF assms] del: ends.simps)
qed

lemma match_words_first:
  assumes "i < e" "breaks_are_space ut"
  shows "match_words ut cp i e = regex_match cp (words_regex ut) i e"
proof -
  have s: "first (ends cp e (Seq (One is_ascii_punct) (Many1 is_ascii_alpha)) i) =
      (if is_ascii_punct (cp ! i) \<and> i + 1 < e \<and> is_ascii_alpha (cp ! (i + 1)) then Some (run cp is_ascii_alpha (i + 1) e) else None)"
    using first_many1 [of "i + 1" e cp is_ascii_alpha] ends_one [OF assms(1), of cp is_ascii_punct] assms(1) by simp
  show ?thesis
    unfolding regex_match_first words_regex_def
    using s by (subst ends.simps(3)) (simp add: match_words_def match_letters_first [OF assms] del: ends.simps)
qed

text \<open>
  C33. The hand-compiled pre-tokenizer is the one of the document: at every position, each of the three
  matchers takes what a backtracking engine takes for its pattern, whatever the Unicode tables say, as
  long as carriage return and line feed count as whitespace.
\<close>

theorem pre_tokenizer_matches_patterns:
  assumes "i < e" "breaks_are_space ut"
  shows "match_numbers ut cp i e = regex_match cp (numbers_regex ut) i e
     \<and> match_cjk ut cp i e = regex_match cp (cjk_regex ut) i e
     \<and> match_words ut cp i e = regex_match cp (words_regex ut) i e"
proof (intro conjI)
  let ?R = "run_end (\<lambda>j. in_class ut kN (cp ! j)) i (min e (i + 3))"
  have "i \<le> ?R" by (rule run_end_le) (use assms(1) in simp)
  then show "match_numbers ut cp i e = regex_match cp (numbers_regex ut) i e"
    by (simp add: regex_match_first numbers_regex_def ends_rep rep_end_def match_numbers_def)
  have "run cp (in_class ut kCJK) i e - i = 0" if "\<not> in_class ut kCJK (cp ! i)"
    by (subst run_end.simps) (use that in simp)
  then show "match_cjk ut cp i e = regex_match cp (cjk_regex ut) i e"
    using first_many1 [of i e cp "in_class ut kCJK"] assms(1)
    by (cases "in_class ut kCJK (cp ! i)") (simp_all add: regex_match_first cjk_regex_def match_cjk_def)
  show "match_words ut cp i e = regex_match cp (words_regex ut) i e" by (rule match_words_first [OF assms])
qed

definition demo_tables :: unicode_tables where
  "demo_tables = \<lparr>kClassN = [(48, 57)], kClassL = [(65, 90), (97, 122)], kClassM = [], kClassP = [(33, 47)], kClassS = [],
     kClassWS = [(9, 13), (32, 32)]\<rparr>"

lemma demo_classes:
  "class_table demo_tables 10 = kWS" "class_table demo_tables 13 = kWS"
  "class_table demo_tables 32 = kWS" "class_table demo_tables 97 = kL"
  by (simp_all add: class_table_def fill_class_def demo_tables_def kWS_def kL_def)

lemma demo_match: "match_words demo_tables [32, 32, 10, 32, 97] 0 5 = 3"
  by (simp add: match_words_def match_letters_def match_symbols_def match_space_def has_class_def in_class_def demo_classes
      kWS_def kL_def kM_def kP_def kS_def is_ascii_punct_def is_ascii_alpha_def run_end.simps last_crlf.simps line_break_def)

theorem pre_tokenizer_matches_patterns_witness:
  "match_words demo_tables [32, 32, 10, 32, 97] 0 5 = 3
   \<and> match_words demo_tables [32, 32, 10, 32, 97] 0 5 = regex_match [32, 32, 10, 32, 97] (words_regex demo_tables) 0 5"
proof -
  have "breaks_are_space demo_tables" by (simp add: breaks_are_space_def in_class_def demo_classes kWS_def)
  then show ?thesis
    using demo_match pre_tokenizer_matches_patterns [of 0 5 demo_tables "[32, 32, 10, 32, 97]"] by simp
qed

end
