(* ===== verification/Fp4.thy ===== *)
theory Fp4
  imports Prelude
begin

text \<open>
  The packed rows of \<^verbatim>\<open>runtime/kvstore.cpp\<close> and the element decoders of \<^verbatim>\<open>cpu/dequant\<close> that they use. A
  \<^verbatim>\<open>float\<close> is its 32 bits, and the operations on it are those of IEEE 754 in the default rounding mode.
  A row packs only if every element comes back with the same bits, which is the theorem of this file;
  nothing in it depends on how a product is rounded.
\<close>

section \<open>Single precision\<close>

type_synonym f32 = "32 word"

definition f_exp :: "f32 \<Rightarrow> nat" where "f_exp x = unat (drop_bit 23 x AND 0xFF)"
definition f_frac :: "f32 \<Rightarrow> nat" where "f_frac x = unat (x AND 0x7FFFFF)"
definition f_nan :: "f32 \<Rightarrow> bool" where "f_nan x \<longleftrightarrow> f_exp x = 255 \<and> f_frac x \<noteq> 0"
definition f_inf :: "f32 \<Rightarrow> bool" where "f_inf x \<longleftrightarrow> f_exp x = 255 \<and> f_frac x = 0"
definition isfinite :: "f32 \<Rightarrow> bool" where "isfinite x \<longleftrightarrow> f_exp x \<noteq> 255"
definition fabs :: "f32 \<Rightarrow> f32" where "fabs x = x AND 0x7FFFFFFF"
definition fneg :: "f32 \<Rightarrow> f32" where "fneg x = x XOR 0x80000000"
definition quiet_NaN :: f32 where "quiet_NaN = 0x7FC00000"

text \<open>A finite float is a whole number of smallest steps, \<open>2\<^sup>-\<^sup>1\<^sup>4\<^sup>9\<close> each; this is how many, without the sign.\<close>

definition f_units :: "f32 \<Rightarrow> nat" where
  "f_units x = (if f_exp x = 0 then f_frac x else (f_frac x + 2 ^ 23) * 2 ^ (f_exp x - 1))"

definition f_negative :: "f32 \<Rightarrow> bool" where "f_negative x \<longleftrightarrow> x AND 0x80000000 \<noteq> 0"

definition f_int :: "f32 \<Rightarrow> int" where
  "f_int x = (if f_negative x then - int (f_units x) else int (f_units x))"

text \<open>The infinities count as more steps than any finite float, so that the comparisons are those of the counts.\<close>

definition feq :: "f32 \<Rightarrow> f32 \<Rightarrow> bool" where
  "feq x y \<longleftrightarrow> \<not> f_nan x \<and> \<not> f_nan y \<and> f_int x = f_int y"

definition fless :: "f32 \<Rightarrow> f32 \<Rightarrow> bool" where
  "fless x y \<longleftrightarrow> \<not> f_nan x \<and> \<not> f_nan y \<and> f_int x < f_int y"

text \<open>The float nearest to \<open>n / d\<close> steps, a tie going to the even one: first the step of its binade, then the rounding.\<close>

function binade :: "nat \<Rightarrow> nat \<Rightarrow> nat \<Rightarrow> nat" where
  "binade n d i = (if i < 254 \<and> n \<ge> 2 ^ 24 * (d * 2 ^ i) then binade n d (i + 1) else i)"
  by pat_completeness auto
termination by (relation "measure (\<lambda>(n, d, i). 254 - i)") auto

declare binade.simps [simp del]

definition round_half_even :: "nat \<Rightarrow> nat \<Rightarrow> nat" where
  "round_half_even n d =
     (let q = n div d; r = n mod d in if 2 * r > d \<or> 2 * r = d \<and> odd q then q + 1 else q)"

definition nearest :: "nat \<Rightarrow> nat \<Rightarrow> f32" where
  "nearest n d =
     (let i = binade n d 0 in of_nat (min (round_half_even n (d * 2 ^ i) + i * 2 ^ 23) 0x7F800000))"

definition fmul :: "f32 \<Rightarrow> f32 \<Rightarrow> f32" where
  "fmul x y =
     (let s = (x XOR y) AND 0x80000000 in
      if f_nan x \<or> f_nan y \<or> f_inf x \<and> f_units y = 0 \<or> f_units x = 0 \<and> f_inf y then quiet_NaN
      else if f_inf x \<or> f_inf y then s OR 0x7F800000
      else s OR nearest (f_units x * f_units y) (2 ^ 149))"

definition fdiv :: "f32 \<Rightarrow> f32 \<Rightarrow> f32" where
  "fdiv x y =
     (let s = (x XOR y) AND 0x80000000 in
      if f_nan x \<or> f_nan y \<or> f_inf x \<and> f_inf y \<or> f_units x = 0 \<and> f_units y = 0 then quiet_NaN
      else if f_inf x \<or> f_units y = 0 then s OR 0x7F800000
      else if f_inf y then s
      else s OR nearest (f_units x * 2 ^ 149) (f_units y))"

definition fadd :: "f32 \<Rightarrow> f32 \<Rightarrow> f32" where
  "fadd x y =
     (if f_nan x \<or> f_nan y \<or> f_inf x \<and> f_inf y \<and> x \<noteq> y then quiet_NaN
      else if f_inf x then x else if f_inf y then y
      else let v = f_int x + f_int y in
        if v = 0 then x AND y AND 0x80000000
        else if v < 0 then 0x80000000 OR nearest (nat (- v)) 1 else nearest (nat v) 1)"

definition f_of_nat :: "nat \<Rightarrow> f32" where "f_of_nat n = nearest (n * 2 ^ 149) 1"

text \<open>\<^verbatim>\<open>std::ldexp(1.0f, e)\<close> for the exponents of a scale, and the exponent that \<^verbatim>\<open>std::frexp\<close> gives.\<close>

definition ldexp_one :: "int \<Rightarrow> f32" where
  "ldexp_one e = (if e < -149 then nearest 1 (2 ^ nat (- (e + 149))) else nearest (2 ^ nat (e + 149)) 1)"

fun bit_count :: "nat \<Rightarrow> nat" where
  "bit_count n = (if n = 0 then 0 else Suc (bit_count (n div 2)))"

declare bit_count.simps [simp del]

definition frexp_exp :: "f32 \<Rightarrow> int" where
  "frexp_exp x = (if f_units x = 0 then 0 else int (bit_count (f_units x)) - 149)"

section \<open>Element decoders (cpu/dequant)\<close>

definition bf16_to_float :: "u16 \<Rightarrow> f32" where
  "bf16_to_float h = push_bit 16 (ucast h)"

definition float_to_bf16 :: "f32 \<Rightarrow> u16" where
  "float_to_bf16 x =
     (if drop_bit 23 x AND 0xFF = 0xFF \<and> x AND 0x7FFFFF \<noteq> 0 then ucast (drop_bit 16 x OR 0x0040)
      else let bias = (drop_bit 16 x AND 1) + 0x7FFF in ucast (drop_bit 16 (x + bias)))"

definition e8m0_to_float :: "u8 \<Rightarrow> f32" where
  "e8m0_to_float e = (if e = 0xFF then quiet_NaN else ldexp_one (int (unat e) - 127))"

definition fp8_e4m3_to_float :: "u8 \<Rightarrow> f32" where
  "fp8_e4m3_to_float b =
     (let e = unat (drop_bit 3 b AND 0x0F); m = unat (b AND 0x07) in
      if e = 0x0F \<and> m = 0x07 then quiet_NaN
      else let v = (if e = 0 then fmul (f_of_nat m) 0x3B000000
                    else let mant = fadd 0x3F800000 (fmul (f_of_nat m) 0x3E000000) in
                      if e \<ge> 7 then fmul mant (f_of_nat (2 ^ (e - 7))) else fdiv mant (f_of_nat (2 ^ (7 - e))))
           in if b AND 0x80 \<noteq> 0 then fneg v else v)"

section \<open>Activation quantisation (cpu/dequant)\<close>

text \<open>\<^verbatim>\<open>fp8_round_scale\<close>: the floor is \<^verbatim>\<open>1e-4f\<close>; the power of two is read off the exponent field.\<close>

definition fp8_round_scale :: "f32 \<Rightarrow> f32" where
  "fp8_round_scale amax =
     (let v = fmul (if fless amax 0x38D1B717 then 0x38D1B717 else amax) (fdiv 0x3F800000 0x43E00000)
      in ldexp_one (int (f_exp v) - 127 + (if f_frac v \<noteq> 0 then 1 else 0)))"

text \<open>\<^verbatim>\<open>fp8_encode_rn\<close>: the nearest E4M3 value, ties to even, clamped at 448.\<close>

definition fp8_small :: "f32 \<Rightarrow> nat" where
  "fp8_small a =
     (let t = fmul a 0x44000000; k = f_units t div 2 ^ 149; d = fadd t (fneg (f_of_nat k))
      in if fless 0x3F000000 d then k + 1 else if fless d 0x3F000000 then k else if even k then k else k + 1)"

definition fp8_normal :: "f32 \<Rightarrow> nat" where
  "fp8_normal a =
     (let e = int (f_exp a); keep = f_frac a div 2 ^ 20; rem = f_frac a mod 2 ^ 20;
          up = (rem > 0x80000 \<or> rem = 0x80000 \<and> odd keep);
          (e, keep) = (if up then (if keep + 1 = 8 then (e + 1, 0) else (e, keep + 1)) else (e, keep));
          ee = e - 127 + 7;
          (ee, keep) = (if ee > 15 \<or> ee = 15 \<and> keep = 7 then (15, 6) else (ee, keep));
          (ee, keep) = (if ee < 0 then (0, 0) else (ee, keep))
      in nat ee * 8 + keep)"

definition fp8_encode_rn :: "f32 \<Rightarrow> u8" where
  "fp8_encode_rn v =
     (let a = fabs v; mag = (if fless a 0x3C800000 then fp8_small a else fp8_normal a)
      in ucast (drop_bit 24 v AND 0x80) OR of_nat mag)"

definition clamp_448 :: "f32 \<Rightarrow> f32" where
  "clamp_448 q = (if fless q 0xC3E00000 then 0xC3E00000 else if fless 0x43E00000 q then 0x43E00000 else q)"

text \<open>The bytes of a block, the values they stand for, and the scale.\<close>

definition act_quant_block :: "f32 list \<Rightarrow> u8 list \<times> f32 list \<times> f32" where
  "act_quant_block vs =
     (let amax = fold (\<lambda>v amax. if fless amax (fabs v) then fabs v else amax) vs 0;
          s = fp8_round_scale amax; inv = fdiv 0x3F800000 s;
          bytes = map (\<lambda>v. fp8_encode_rn (clamp_448 (fmul v inv))) vs
      in (bytes, map (\<lambda>b. fmul (fp8_e4m3_to_float b) s) bytes, s))"

section \<open>Packed rows (runtime/kvstore.cpp)\<close>

definition kMag :: "f32 list" where
  "kMag = [0, 0x3F000000, 0x3F800000, 0x3FC00000, 0x40000000, 0x40400000, 0x40800000, 0x40C00000]"

definition scale_of :: "u8 \<Rightarrow> bool \<Rightarrow> f32" where
  "scale_of code e8m0 = (if e8m0 then e8m0_to_float code else fp8_e4m3_to_float code)"

text \<open>The value a nibble stands for: both directions compute it in the same way.\<close>

definition grid_value :: "u8 \<Rightarrow> f32 \<Rightarrow> f32" where
  "grid_value c sc = (let v = fmul (kMag ! unat (c AND 7)) sc in if c AND 8 \<noteq> 0 then fneg v else v)"

definition pack_elem :: "f32 \<Rightarrow> u16 \<Rightarrow> u8 option" where
  "pack_elem sc b =
     (let a = fabs (bf16_to_float b); sign = (if b AND 0x8000 \<noteq> 0 then 8 else 0) in
      case find (\<lambda>m. feq (fmul (kMag ! m) sc) a) [0..<8] of
        None \<Rightarrow> None
      | Some j \<Rightarrow> let back = (if sign \<noteq> 0 then fneg (fmul (kMag ! j) sc) else fmul (kMag ! j) sc) in
          if float_to_bf16 back \<noteq> b then None else Some (sign OR of_nat j))"

fun pack_block :: "f32 \<Rightarrow> u16 list \<Rightarrow> u8 list option" where
  "pack_block sc [] = Some []"
| "pack_block sc (b # bs) =
     (case pack_elem sc b of
        None \<Rightarrow> None
      | Some c \<Rightarrow> (case pack_block sc bs of None \<Rightarrow> None | Some cs \<Rightarrow> Some (c # cs)))"

text \<open>\<^verbatim>\<open>try_code\<close>: the codes of a block at one scale.\<close>

definition try_code :: "u16 list \<Rightarrow> bool \<Rightarrow> f32 \<Rightarrow> nat \<Rightarrow> u8 list option" where
  "try_code blk e8m0 amax c =
     (if (if e8m0 then c > 254 else c > 127 \<or> \<not> isfinite (fp8_e4m3_to_float (of_nat c))) then None
      else if fless 0 amax \<and> \<not> fless 0 (scale_of (of_nat c) e8m0) \<and> \<not> f_nan (scale_of (of_nat c) e8m0) then None
      else pack_block (scale_of (of_nat c) e8m0) blk)"

text \<open>The scales in the order in which they are tried: the quantiser's own choice, then all of them.\<close>

definition scale_candidates :: "bool \<Rightarrow> f32 \<Rightarrow> nat list" where
  "scale_candidates e8m0 amax =
     (if feq amax 0 then [0]
      else if e8m0 then
        (let e = frexp_exp (fdiv amax 0x40C00000)
         in map nat (filter (\<lambda>c. c \<ge> 0 \<and> c \<le> 254) (map (\<lambda>d. e - 1 + d + 127) [-1, 0, 1, 2])))
      else (let want = fdiv amax 0x40C00000
            in filter (\<lambda>c. feq (fp8_e4m3_to_float (of_nat c)) want) [1..<128]))
     @ [0..<(if e8m0 then 255 else 128)]"

fun first_code :: "(nat \<Rightarrow> u8 list option) \<Rightarrow> nat list \<Rightarrow> (nat \<times> u8 list) option" where
  "first_code f [] = None"
| "first_code f (c # cs) = (case f c of None \<Rightarrow> first_code f cs | Some codes \<Rightarrow> Some (c, codes))"

definition pack_one_block :: "bool \<Rightarrow> u16 list \<Rightarrow> (u8 \<times> u8 list) option" where
  "pack_one_block e8m0 blk =
     (if \<exists>b \<in> set blk. \<not> isfinite (bf16_to_float b) then None
      else let amax = fold (\<lambda>b m. let a = fabs (bf16_to_float b) in if fless m a then a else m) blk 0
           in map_option (\<lambda>(c, codes). (of_nat c, codes)) (first_code (try_code blk e8m0 amax) (scale_candidates e8m0 amax)))"

fun pack_blocks :: "bool \<Rightarrow> u16 list list \<Rightarrow> bool \<times> u8 list \<times> u8 list" where
  "pack_blocks e8m0 [] = (True, [], [])"
| "pack_blocks e8m0 (blk # blks) =
     (case pack_one_block e8m0 blk of
        None \<Rightarrow> (False, [], [])
      | Some (sc, codes) \<Rightarrow>
          (case pack_blocks e8m0 blks of (ok, scs, rest) \<Rightarrow> (ok, sc # scs, codes @ rest)))"

text \<open>Two codes to a byte, the even element in the low nibble.\<close>

definition nibbles_of :: "u8 list \<Rightarrow> u8 list" where
  "nibbles_of codes = map (\<lambda>k. codes ! (2 * k) OR push_bit 4 (codes ! (2 * k + 1))) [0..<length codes div 2]"

text \<open>
  The outputs are zero when the function is called, and when it gives up it has written the blocks
  before the one that does not pack.
\<close>

definition pad :: "nat \<Rightarrow> u8 list \<Rightarrow> u8 list" where
  "pad n xs = xs @ replicate (n - length xs) 0"

definition pack_fp4_row :: "u16 list \<Rightarrow> nat \<Rightarrow> nat \<Rightarrow> bool \<Rightarrow> bool \<times> u8 list \<times> u8 list" where
  "pack_fp4_row bf16 n block e8m0 =
     (if block = 0 \<or> n mod block \<noteq> 0 \<or> n mod 2 \<noteq> 0 \<or> block > 64 then (False, pad (n div 2) [], pad (n div block) [])
      else case pack_blocks e8m0 (map (\<lambda>i. take block (drop (i * block) bf16)) [0..<n div block]) of
             (ok, scales, codes) \<Rightarrow> (ok, nibbles_of (pad n codes), pad (n div block) scales))"

definition nibble :: "u8 list \<Rightarrow> nat \<Rightarrow> u8" where
  "nibble nibbles k = (if odd k then drop_bit 4 (nibbles ! (k div 2)) else nibbles ! (k div 2) AND 0x0F)"

definition unpack_fp4_row :: "u8 list \<Rightarrow> u8 list \<Rightarrow> nat \<Rightarrow> nat \<Rightarrow> bool \<Rightarrow> u16 list" where
  "unpack_fp4_row nibbles scales n block e8m0 =
     map (\<lambda>k. float_to_bf16 (grid_value (nibble nibbles k) (scale_of (scales ! (k div block)) e8m0))) [0..<n]"

section \<open>A packed row comes back\<close>

lemma code_parts:
  assumes "j < 8" "s = 0 \<or> s = 8"
  shows "unat (s OR of_nat j :: u8) < 16" "unat ((s OR of_nat j :: u8) AND 7) = j" "((s OR of_nat j :: u8) AND 8 \<noteq> 0) = (s \<noteq> 0)"
proof -
  have "j \<in> {0, 1, 2, 3, 4, 5, 6, 7}" using assms(1) by auto
  then show "unat (s OR of_nat j :: u8) < 16" "unat ((s OR of_nat j :: u8) AND 7) = j" "((s OR of_nat j :: u8) AND 8 \<noteq> 0) = (s \<noteq> 0)"
    using assms(2) by auto
qed

lemma pack_elem_grid:
  assumes "pack_elem sc b = Some c"
  shows "unat c < 16" "float_to_bf16 (grid_value c sc) = b"
proof -
  define s :: u8 where "s = (if b AND 0x8000 \<noteq> 0 then 8 else 0)"
  from assms obtain j where j: "find (\<lambda>m. feq (fmul (kMag ! m) sc) (fabs (bf16_to_float b))) [0..<8] = Some j"
    and bk: "float_to_bf16 (if s \<noteq> 0 then fneg (fmul (kMag ! j) sc) else fmul (kMag ! j) sc) = b" and c: "c = s OR of_nat j"
    by (auto simp: pack_elem_def Let_def s_def split: option.splits if_splits)
  have "j < 8" using j by (auto simp: find_Some_iff)
  moreover have "s = 0 \<or> s = 8" by (simp add: s_def)
  ultimately have p: "unat c < 16" "unat (c AND 7) = j" "(c AND 8 \<noteq> 0) = (s \<noteq> 0)" using code_parts [of j s] c by blast+
  then show "unat c < 16" "float_to_bf16 (grid_value c sc) = b" using bk by (auto simp: grid_value_def Let_def)
qed

lemma pack_block_grid:
  "pack_block sc bs = Some cs \<Longrightarrow>
     length cs = length bs \<and> (\<forall>i < length bs. unat (cs ! i) < 16 \<and> float_to_bf16 (grid_value (cs ! i) sc) = bs ! i)"
proof (induction bs arbitrary: cs)
  case (Cons b bs)
  then obtain c cs' where "pack_elem sc b = Some c" "pack_block sc bs = Some cs'" "cs = c # cs'"
    by (auto split: option.splits)
  then show ?case using Cons.IH [of cs'] pack_elem_grid [of sc b c] by (auto simp: nth_Cons split: nat.split)
qed simp

lemma first_code_Some: "first_code f cs = Some (c, codes) \<Longrightarrow> f c = Some codes"
  by (induction cs) (auto split: option.splits)

lemma pack_one_block_grid:
  assumes "pack_one_block e8m0 blk = Some (sc, cs)"
  shows "length cs = length blk \<and>
    (\<forall>i < length blk. unat (cs ! i) < 16 \<and> float_to_bf16 (grid_value (cs ! i) (scale_of sc e8m0)) = blk ! i)"
proof -
  obtain amax c where "try_code blk e8m0 amax c = Some cs" "sc = of_nat c"
    using assms by (auto simp: pack_one_block_def Let_def dest: first_code_Some split: if_splits)
  then have "pack_block (scale_of sc e8m0) blk = Some cs" by (auto simp: try_code_def split: if_splits)
  then show ?thesis by (rule pack_block_grid)
qed

lemma pack_blocks_grid:
  "pack_blocks e8m0 blks = (True, scs, cs) \<Longrightarrow> \<forall>blk \<in> set blks. length blk = block \<Longrightarrow> 0 < block \<Longrightarrow>
     length scs = length blks \<and> length cs = length (concat blks)
     \<and> (\<forall>k < length (concat blks). unat (cs ! k) < 16
          \<and> float_to_bf16 (grid_value (cs ! k) (scale_of (scs ! (k div block)) e8m0)) = concat blks ! k)"
proof (induction blks arbitrary: scs cs)
  case (Cons blk blks)
  then obtain sc c1 scs' cs' where one: "pack_one_block e8m0 blk = Some (sc, c1)"
    and rest: "pack_blocks e8m0 blks = (True, scs', cs')" "scs = sc # scs'" "cs = c1 @ cs'"
    by (auto split: option.splits prod.splits)
  have len: "length blk = block" using Cons.prems(2) by simp
  note g = pack_one_block_grid [OF one]
  have IH: "length scs' = length blks \<and> length cs' = length (concat blks)
     \<and> (\<forall>k < length (concat blks). unat (cs' ! k) < 16
          \<and> float_to_bf16 (grid_value (cs' ! k) (scale_of (scs' ! (k div block)) e8m0)) = concat blks ! k)"
    using Cons.IH [OF rest(1)] Cons.prems(2,3) by simp
  have "unat (cs ! k) < 16 \<and> float_to_bf16 (grid_value (cs ! k) (scale_of (scs ! (k div block)) e8m0)) = concat (blk # blks) ! k"
    if k: "k < length (concat (blk # blks))" for k
  proof (cases "k < block")
    case True
    then show ?thesis using g len rest by (simp add: nth_append)
  next
    case False
    then have "k div block = Suc ((k - block) div block)" using Cons.prems(3) by (simp add: le_div_geq)
    then show ?thesis using False IH k g len rest by (simp add: nth_append)
  qed
  then show ?case using g IH rest by simp
qed simp

lemma small_byte: "unat (a :: u8) < 16 \<Longrightarrow> take_bit 4 a = a"
  by (simp add: take_bit_eq_mod word_unat_eq_iff unat_mod)

lemma nibble_low: "unat (a :: u8) < 16 \<Longrightarrow> (a OR push_bit 4 b) AND 0x0F = a"
proof -
  assume "unat a < 16"
  then have "a = take_bit 4 a" by (rule small_byte [symmetric])
  moreover have "(0x0F :: u8) = mask 4" by (simp add: mask_eq_exp_minus_1)
  moreover have "(take_bit 4 a OR push_bit 4 b) AND mask 4 = take_bit 4 a"
    by (rule bit_word_eqI) (auto simp: bit_simps)
  ultimately show ?thesis by simp
qed

lemma nibble_high: "unat (a :: u8) < 16 \<Longrightarrow> unat b < 16 \<Longrightarrow> drop_bit 4 (a OR push_bit 4 b) = b"
proof -
  assume "unat a < 16" "unat b < 16"
  then have "a = take_bit 4 a" "b = take_bit 4 b" by (simp_all add: small_byte)
  moreover have "drop_bit 4 (take_bit 4 a OR push_bit 4 (take_bit 4 b)) = take_bit 4 b"
    by (rule bit_word_eqI) (auto simp: bit_simps)
  ultimately show ?thesis by simp
qed

lemma nibble_of:
  assumes "even (length cs)" "\<forall>k < length cs. unat (cs ! k) < 16" "k < length cs"
  shows "nibble (nibbles_of cs) k = cs ! k"
proof -
  obtain m where m: "length cs = 2 * m" using assms(1) by (rule evenE)
  then have d: "k div 2 < length cs div 2" using assms(3) by simp
  then have both: "2 * (k div 2) < length cs" "2 * (k div 2) + 1 < length cs" using m by simp_all
  note lo = assms(2) [rule_format, OF both(1)] and hi = assms(2) [rule_format, OF both(2)]
  show ?thesis
  proof (cases "odd k")
    case True
    then have "2 * (k div 2) + 1 = k" by simp
    then show ?thesis using True d nibble_high [OF lo hi] by (simp add: nibble_def nibbles_of_def)
  next
    case False
    then show ?thesis using d nibble_low [OF lo] by (simp add: nibble_def nibbles_of_def)
  qed
qed

lemma concat_chunks: "m * b \<le> length xs \<Longrightarrow> concat (map (\<lambda>i. take b (drop (i * b) xs)) [0..<m]) = take (m * b) xs"
proof (induction m)
  case (Suc m)
  have "take (b + m * b) xs = take (m * b) xs @ take b (drop (m * b) xs)" by (metis add.commute take_add)
  then show ?case using Suc by simp
qed simp

lemma pad_full [simp]: "length xs = n \<Longrightarrow> pad n xs = xs"
  by (simp add: pad_def)

lemma pack_blocks_length:
  "pack_blocks e8m0 blks = (ok, scs, cs) \<Longrightarrow> length scs \<le> length blks \<and> length cs \<le> length (concat blks)"
proof (induction blks arbitrary: ok scs cs)
  case (Cons blk blks)
  show ?case
  proof (cases "pack_one_block e8m0 blk")
    case None
    then show ?thesis using Cons.prems by simp
  next
    case (Some p)
    obtain sc codes where p: "p = (sc, codes)" by (cases p)
    obtain ok' scs' rest where r: "pack_blocks e8m0 blks = (ok', scs', rest)" by (cases "pack_blocks e8m0 blks")
    have "length codes = length blk" using pack_one_block_grid [of e8m0 blk sc codes] Some p by simp
    then show ?thesis using Cons.IH [OF r] Cons.prems Some p r by auto
  qed
qed simp

lemma row_blocks:
  assumes "length row = n" "n mod block = 0" "0 < block"
  defines "blks \<equiv> map (\<lambda>i. take block (drop (i * block) row)) [0..<n div block]"
  shows "concat blks = row" "\<forall>blk \<in> set blks. length blk = block" "length blks = n div block"
proof -
  have n: "n div block * block = n" using assms(2) by (metis mod_0_imp_dvd dvd_div_mult_self)
  then show "concat blks = row" using concat_chunks [of "n div block" block row] assms(1) by (simp add: blks_def)
  show "\<forall>blk \<in> set blks. length blk = block"
  proof
    fix blk assume "blk \<in> set blks"
    then obtain i where i: "i < n div block" "blk = take block (drop (i * block) row)" unfolding blks_def by fastforce
    have "Suc i * block \<le> n div block * block" using i(1) by (intro mult_le_mono1) simp
    then show "length blk = block" using i(2) n assms(1) by simp
  qed
  show "length blks = n div block" by (simp add: blks_def)
qed

lemma pack_fp4_row_lengths:
  assumes "pack_fp4_row row n block e8m0 = (ok, nibbles, scales)" "length row = n"
  shows "length nibbles = n div 2" "length scales = n div block"
proof -
  let ?blks = "map (\<lambda>i. take block (drop (i * block) row)) [0..<n div block]"
  show "length nibbles = n div 2" "length scales = n div block"
  proof (atomize(full), cases "block = 0 \<or> n mod block \<noteq> 0 \<or> n mod 2 \<noteq> 0 \<or> block > 64")
    case True
    then show "length nibbles = n div 2 \<and> length scales = n div block" using assms(1) by (auto simp: pack_fp4_row_def pad_def)
  next
    case False
    then have b: "0 < block" "n mod block = 0" by simp_all
    obtain ok' scs cs where p: "pack_blocks e8m0 ?blks = (ok', scs, cs)" by (cases "pack_blocks e8m0 ?blks")
    have "length scs \<le> n div block" "length cs \<le> n"
      using pack_blocks_length [OF p] row_blocks [OF assms(2) b(2,1)] assms(2) by simp_all
    then show "length nibbles = n div 2 \<and> length scales = n div block"
      using False assms(1) p by (auto simp: pack_fp4_row_def pad_def nibbles_of_def)
  qed
qed

lemma fp4_row_round_trip:
  assumes "pack_fp4_row row n block e8m0 = (True, nibbles, scales)" "length row = n"
  shows "unpack_fp4_row nibbles scales n block e8m0 = row"
proof -
  define blks where "blks = map (\<lambda>i. take block (drop (i * block) row)) [0..<n div block]"
  obtain ok scs cs where p': "pack_blocks e8m0 blks = (ok, scs, cs)" by (cases "pack_blocks e8m0 blks")
  from assms(1) p' have b: "0 < block" "n mod block = 0" "even n" "ok"
    and out: "nibbles = nibbles_of (pad n cs)" "scales = pad (n div block) scs"
    by (auto simp: pack_fp4_row_def blks_def even_iff_mod_2_eq_zero split: if_splits)
  note p = p' [unfolded \<open>ok\<close> [THEN eqTrueI]]
  note r = row_blocks [OF assms(2) b(2,1), folded blks_def]
  have g: "length scs = n div block" "length cs = n"
     "\<forall>k < n. unat (cs ! k) < 16 \<and> float_to_bf16 (grid_value (cs ! k) (scale_of (scs ! (k div block)) e8m0)) = row ! k"
    using pack_blocks_grid [OF _ r(2) b(1), of e8m0 scs cs] p b(4) r(1,3) assms(2) by auto
  have "nibble nibbles k = cs ! k" if "k < n" for k
    using nibble_of [of cs k] g b(3) that by (simp add: out)
  then show ?thesis using g assms(2) by (auto simp: unpack_fp4_row_def out intro!: nth_equalityI)
qed

end
