(* ===== verification/Kv_Store.thy ===== *)
theory Kv_Store
  imports Fp4 Codec
begin

text \<open>
  \<^verbatim>\<open>runtime/kvstore\<close>: the memory that holds a context while it is decoded. A store owns some slabs of
  memory shared with the GPU, cut into regions: the window ring of every layer (values and scales),
  the top-k lists, the carried state of the compressors, and for each layer that owns planes its
  compressed rows and index keys. The host keeps beside it how many rows may hold data, what each
  layer may read, and which position each ring slot holds.

  Sizes, positions and counts are natural numbers; where the code computes with 32 bits and the sum
  can pass them, the remainder is written out. Byte offsets are computed with 64 bits in the code,
  which no store in memory exhausts. What the allocator answers is a parameter: the number of the
  call and the size it asks for give a buffer or an error.
\<close>

section \<open>Geometry\<close>

definition kNoPlane :: nat where "kNoPlane = 0xFFFFFFFF"

definition u32_of :: "nat \<Rightarrow> nat" where "u32_of n = n mod 2 ^ 32"

record kv_config =
  kc_layers :: nat
  kc_window :: nat
  kc_latent_dim :: nat
  kc_index_dim :: nat
  kc_max_context :: nat
  kc_scale_block :: nat
  kc_max_ratio :: nat
  kc_index_topk :: nat
  kc_initial_context :: nat
  kc_slab_bytes :: nat
  kc_plane_of :: "nat list"
  kc_ratio :: "nat list"

text \<open>The defaults of the struct.\<close>

definition default_kv_config :: kv_config where
  "default_kv_config =
     \<lparr>kc_layers = 40, kc_window = 128, kc_latent_dim = 512, kc_index_dim = 128, kc_max_context = 1024, kc_scale_block = 32,
      kc_max_ratio = 8, kc_index_topk = 512, kc_initial_context = 0, kc_slab_bytes = 2 ^ 31, kc_plane_of = [], kc_ratio = []\<rparr>"

text \<open>What \<^verbatim>\<open>for_model\<close> reads of the model's configuration.\<close>

record text_config =
  tc_num_hidden_layers :: nat
  tc_sliding_window :: nat
  tc_head_dim :: nat
  tc_index_head_dim :: nat
  tc_index_topk :: nat
  tc_compress_ratios :: "int list"
  tc_kv_source_layer_ids :: "int list"

definition compress_ratio :: "text_config \<Rightarrow> nat \<Rightarrow> nat" where
  "compress_ratio c l =
     (if l \<ge> length (tc_compress_ratios c) then 0
      else let r = tc_compress_ratios c ! l in if r > 0 then unat (word_of_int r :: u32) else 0)"

definition is_kv_source :: "text_config \<Rightarrow> nat \<Rightarrow> bool" where
  "is_kv_source c l \<longleftrightarrow> int l \<in> set (tc_kv_source_layer_ids c)"

text \<open>The loop over the layers: the source that the layers after it read, until the next one.\<close>

fun plane_plan :: "text_config \<Rightarrow> nat \<Rightarrow> nat \<Rightarrow> nat \<Rightarrow> nat list" where
  "plane_plan c cur l 0 = []"
| "plane_plan c cur l (Suc n) =
     (let r = compress_ratio c l; cur = (if is_kv_source c l \<and> r \<noteq> 0 then l else cur)
      in (if r \<noteq> 0 then cur else kNoPlane) # plane_plan c cur (l + 1) n)"

definition for_model :: "text_config \<Rightarrow> nat \<Rightarrow> nat \<Rightarrow> kv_config" where
  "for_model c max_context initial_context =
     default_kv_config\<lparr>kc_layers := tc_num_hidden_layers c, kc_window := tc_sliding_window c, kc_latent_dim := tc_head_dim c,
       kc_index_dim := tc_index_head_dim c, kc_index_topk := tc_index_topk c, kc_max_context := max_context,
       kc_initial_context := initial_context,
       kc_plane_of := plane_plan c kNoPlane 0 (tc_num_hidden_layers c),
       kc_ratio := map (compress_ratio c) [0..<tc_num_hidden_layers c]\<rparr>"

definition per_source :: "kv_config \<Rightarrow> bool" where
  "per_source c \<longleftrightarrow> kc_plane_of c \<noteq> []"

definition owner :: "kv_config \<Rightarrow> nat \<Rightarrow> nat" where
  "owner c l = (if l \<ge> kc_layers c then kNoPlane else if per_source c then kc_plane_of c ! l else l)"

definition plane_ratio :: "kv_config \<Rightarrow> nat \<Rightarrow> nat" where
  "plane_ratio c k = (if \<not> per_source c \<or> k \<ge> length (kc_ratio c) then 1 else max 1 (kc_ratio c ! k))"

definition owners :: "kv_config \<Rightarrow> nat list" where
  "owners c = filter (\<lambda>l. owner c l = l) [0..<kc_layers c]"

definition rows_for :: "kv_config \<Rightarrow> nat \<Rightarrow> nat \<Rightarrow> nat" where
  "rows_for c k positions = (let r = plane_ratio c k in u32_of (positions + r - 1) div r)"

definition topk_rows :: "kv_config \<Rightarrow> nat" where
  "topk_rows c = u32_of (kc_window c + min (kc_index_topk c) (kc_max_context c))"

definition window_scales :: "kv_config \<Rightarrow> nat" where
  "window_scales c = kc_latent_dim c div kc_scale_block c"

definition window_bytes :: "kv_config \<Rightarrow> nat" where
  "window_bytes c = kc_layers c * kc_window c * (kc_latent_dim c + window_scales c)"

definition compressed_bytes :: "kv_config \<Rightarrow> nat \<Rightarrow> nat" where
  "compressed_bytes c positions = (\<Sum>k\<leftarrow>owners c. rows_for c k positions * kc_latent_dim c * 2)"

definition index_key_bytes :: "kv_config \<Rightarrow> nat \<Rightarrow> nat" where
  "index_key_bytes c positions = (\<Sum>k\<leftarrow>owners c. rows_for c k positions * kc_index_dim c * 2)"

definition cmp_state_bytes :: "kv_config \<Rightarrow> nat" where
  "cmp_state_bytes c = length (owners c) * kc_max_ratio c * kc_latent_dim c * 4 * 2"

definition topk_bytes :: "kv_config \<Rightarrow> nat" where
  "topk_bytes c = kc_layers c * topk_rows c * 4"

definition kv_total_bytes :: "kv_config \<Rightarrow> nat \<Rightarrow> nat" where
  "kv_total_bytes c positions =
     window_bytes c + compressed_bytes c positions + index_key_bytes c positions + cmp_state_bytes c + topk_bytes c"

definition min_slabs :: "kv_config \<Rightarrow> nat \<Rightarrow> nat" where
  "min_slabs c positions =
     (if kc_slab_bytes c = 0 then 1 else u32_of ((kv_total_bytes c positions + kc_slab_bytes c - 1) div kc_slab_bytes c))"

definition packed_bytes :: "kv_config \<Rightarrow> nat \<Rightarrow> nat" where
  "packed_bytes c positions =
     (\<Sum>k\<leftarrow>owners c.
        let r = plane_ratio c k in
        positions div r * (kc_latent_dim c div 2 + kc_latent_dim c div 16 + kc_index_dim c div 2 + kc_index_dim c div 32)
        + (if r > 1 then r * kc_latent_dim c * 4 * 2 else 0))"

section \<open>Layout\<close>

record kv_layout =
  ly_cap :: nat
  ly_off_win_val :: nat
  ly_off_win_scale :: nat
  ly_off_top :: nat
  ly_off_state :: nat
  ly_total :: nat
  ly_off_cmp :: "nat list"
  ly_off_idx :: "nat list"
  ly_slab_at :: "nat list"
  ly_slab_size :: "nat list"

definition empty_layout :: kv_layout where
  "empty_layout =
     \<lparr>ly_cap = 0, ly_off_win_val = 0, ly_off_win_scale = 0, ly_off_top = 0, ly_off_state = 0, ly_total = 0,
      ly_off_cmp = [], ly_off_idx = [], ly_slab_at = [], ly_slab_size = []\<rparr>"

definition slab_of :: "kv_layout \<Rightarrow> nat \<Rightarrow> nat" where
  "slab_of l off = (case find (\<lambda>i. ly_slab_at l ! i \<le> off) (rev [0..<length (ly_slab_at l)]) of None \<Rightarrow> 0 | Some i \<Rightarrow> i)"

text \<open>\<^verbatim>\<open>core/align.h\<close> over the natural numbers.\<close>

definition align_to :: "nat \<Rightarrow> nat \<Rightarrow> nat" where
  "align_to v a = (v + a - 1) div a * a"

text \<open>\<^verbatim>\<open>place\<close>: where the next region begins, the end of it, and the slabs so far.\<close>

fun place_region :: "nat \<Rightarrow> nat \<Rightarrow> nat \<times> nat list \<times> nat list \<Rightarrow> nat \<times> nat \<times> nat list \<times> nat list" where
  "place_region limit bytes (off, slab_at, slab_size) =
     (let a = align_to off 256; base = last slab_at in
      if bytes \<noteq> 0 \<and> a + bytes - base > limit \<and> a > base
      then let sz = align_to a 4096 - base; a = base + sz in (a, a + bytes, slab_at @ [a], slab_size @ [sz])
      else (a, a + bytes, slab_at, slab_size))"

fun place_all :: "nat \<Rightarrow> nat list \<Rightarrow> nat \<times> nat list \<times> nat list \<Rightarrow> nat list \<times> nat \<times> nat list \<times> nat list" where
  "place_all limit [] st = ([], st)"
| "place_all limit (bytes # rest) st =
     (case place_region limit bytes st of (a, st) \<Rightarrow> case place_all limit rest st of (offs, st) \<Rightarrow> (a # offs, st))"

text \<open>The sizes of the regions, in the order in which they are placed.\<close>

definition region_sizes :: "kv_config \<Rightarrow> nat list \<Rightarrow> nat \<Rightarrow> nat list" where
  "region_sizes c os cap =
     [kc_layers c * kc_window c * kc_latent_dim c,
      kc_layers c * kc_window c * window_scales c,
      topk_bytes c,
      length os * kc_max_ratio c * kc_latent_dim c * 4 * 2]
     @ map (\<lambda>k. rows_for c k cap * kc_latent_dim c * 2) os
     @ map (\<lambda>k. rows_for c k cap * kc_index_dim c * 2) os"

definition slab_limit :: "kv_config \<Rightarrow> nat" where
  "slab_limit c = (if kc_slab_bytes c \<noteq> 0 then kc_slab_bytes c else 2 ^ 64 - 1)"

definition layout_for :: "kv_config \<Rightarrow> nat list \<Rightarrow> nat \<Rightarrow> kv_layout" where
  "layout_for c os cap =
     (case place_all (slab_limit c) (region_sizes c os cap) (0, [0], []) of
        (offs, off, slab_at, slab_size) \<Rightarrow>
          let total = align_to off 4096; n = length os in
          \<lparr>ly_cap = cap, ly_off_win_val = offs ! 0, ly_off_win_scale = offs ! 1, ly_off_top = offs ! 2, ly_off_state = offs ! 3,
           ly_total = total, ly_off_cmp = take n (drop 4 offs), ly_off_idx = drop (4 + n) offs,
           ly_slab_at = slab_at, ly_slab_size = slab_size @ [total - last slab_at]\<rparr>)"

section \<open>Memory\<close>

record gpu_buffer =
  gb_bytes :: nat
  gb_mapped :: bool
  gb_dev_addr :: u64
  gb_mem :: "nat \<Rightarrow> u8"

type_synonym allocator = "nat \<Rightarrow> nat \<Rightarrow> gpu_buffer result"

text \<open>A host pointer is a slab and an offset in it; reading and writing through one.\<close>

type_synonym host_ptr = "nat \<times> nat"

definition peek :: "gpu_buffer list \<Rightarrow> host_ptr \<Rightarrow> nat \<Rightarrow> u8 list" where
  "peek bufs p n = map (\<lambda>j. gb_mem (bufs ! fst p) (snd p + j)) [0..<n]"

definition mem_write :: "nat \<Rightarrow> u8 list \<Rightarrow> (nat \<Rightarrow> u8) \<Rightarrow> nat \<Rightarrow> u8" where
  "mem_write off bs m = (\<lambda>i. if off \<le> i \<and> i < off + length bs then bs ! (i - off) else m i)"

definition poke :: "host_ptr \<Rightarrow> u8 list \<Rightarrow> gpu_buffer list \<Rightarrow> gpu_buffer list" where
  "poke p bs bufs = bufs[fst p := (bufs ! fst p)\<lparr>gb_mem := mem_write (snd p) bs (gb_mem (bufs ! fst p))\<rparr>]"

definition loc :: "kv_layout \<Rightarrow> nat \<Rightarrow> host_ptr" where
  "loc l off = (let s = slab_of l off in (s, off - ly_slab_at l ! s))"

text \<open>The slabs of a layout, in order; a failure gives back those already allocated. The calls made are counted.\<close>

fun allocate_slabs :: "allocator \<Rightarrow> nat \<Rightarrow> nat list \<Rightarrow> gpu_buffer list result \<times> nat" where
  "allocate_slabs alloc k [] = (Inr [], k)"
| "allocate_slabs alloc k (sz # szs) =
     (case alloc k sz of
        Inl e \<Rightarrow> (Inl e, k + 1)
      | Inr b \<Rightarrow>
          if \<not> gb_mapped b \<or> gb_dev_addr b = 0 then (Inl Internal, k + 1)
          else (case allocate_slabs alloc (k + 1) szs of
                  (Inl e, k) \<Rightarrow> (Inl e, k)
                | (Inr bs, k) \<Rightarrow> (Inr (b # bs), k)))"

definition zero_buffer :: "gpu_buffer \<Rightarrow> gpu_buffer" where
  "zero_buffer b = b\<lparr>gb_mem := mem_write 0 (replicate (gb_bytes b) 0) (gb_mem b)\<rparr>"

section \<open>The store\<close>

definition kSlotEmpty :: int where "kSlotEmpty = -1"
definition kSlotUnknown :: int where "kSlotUnknown = -2"

record ring_snapshot =
  rs_layer :: "nat list"
  rs_slot :: "nat list"
  rs_position :: "int list"
  rs_val :: "u8 list"
  rs_scale :: "u8 list"
  rs_latent_dim :: nat

definition empty_snapshot :: ring_snapshot where
  "empty_snapshot = \<lparr>rs_layer = [], rs_slot = [], rs_position = [], rs_val = [], rs_scale = [], rs_latent_dim = 0\<rparr>"

record kv_store =
  ks_bufs :: "gpu_buffer list"
  ks_cfg :: kv_config
  ks_lay :: kv_layout
  ks_cap :: nat
  ks_owners :: "nat list"
  ks_owner_of :: "nat list"
  ks_rows_hw :: "nat list"
  ks_n_cmp :: "nat list"
  ks_n_kv :: "nat list"
  ks_win_lo :: nat
  ks_slot_pos :: "int list"
  ks_prompt_ring :: ring_snapshot
  ks_prompt_slot_pos :: "int list"

definition kv_valid :: "kv_store \<Rightarrow> bool" where
  "kv_valid st \<longleftrightarrow> ks_bufs st \<noteq> []"

text \<open>Reading and writing memory at an offset of the flat space.\<close>

definition kv_read :: "kv_store \<Rightarrow> nat \<Rightarrow> nat \<Rightarrow> u8 list" where
  "kv_read st off n = peek (ks_bufs st) (loc (ks_lay st) off) n"

definition kv_write :: "nat \<Rightarrow> u8 list \<Rightarrow> kv_store \<Rightarrow> kv_store" where
  "kv_write off bs st = st\<lparr>ks_bufs := poke (loc (ks_lay st) off) bs (ks_bufs st)\<rparr>"

definition kv_dev :: "kv_store \<Rightarrow> nat \<Rightarrow> u64" where
  "kv_dev st off = (let p = loc (ks_lay st) off in gb_dev_addr (ks_bufs st ! fst p) + of_nat (snd p))"

definition kv_bytes :: "kv_store \<Rightarrow> nat" where
  "kv_bytes st = (\<Sum>b\<leftarrow>ks_bufs st. gb_bytes b)"

definition largest_slab :: "kv_store \<Rightarrow> nat" where
  "largest_slab st = fold (\<lambda>b n. max n (gb_bytes b)) (ks_bufs st) 0"

definition owner_index :: "kv_store \<Rightarrow> nat \<Rightarrow> nat" where
  "owner_index st l = (if l < length (ks_owner_of st) then ks_owner_of st ! l else kNoPlane)"

definition destroy :: "kv_store \<Rightarrow> kv_store" where
  "destroy st =
     st\<lparr>ks_prompt_ring := empty_snapshot, ks_prompt_slot_pos := [], ks_bufs := [], ks_lay := empty_layout, ks_cap := 0,
        ks_owners := [], ks_owner_of := [], ks_rows_hw := [], ks_n_cmp := [], ks_n_kv := [], ks_win_lo := 0, ks_slot_pos := []\<rparr>"

text \<open>Minus infinity, as the bytes of a \<^verbatim>\<open>float\<close>.\<close>

definition ninf :: "u8 list" where "ninf = le_bytes 4 (0xFF800000 :: u32)"

definition clear_planes :: "kv_store \<Rightarrow> nat list \<Rightarrow> kv_store" where
  "clear_planes st ois =
     fold (\<lambda>oi st.
       let c = ks_cfg st;
           st = kv_write (ly_off_cmp (ks_lay st) ! oi) (replicate (ks_rows_hw st ! oi * kc_latent_dim c * 2) 0) st;
           st = kv_write (ly_off_idx (ks_lay st) ! oi) (replicate (ks_rows_hw st ! oi * kc_index_dim c * 2) 0) st
       in st\<lparr>ks_rows_hw := (ks_rows_hw st)[oi := 0]\<rparr>) ois st"

definition clear :: "kv_store \<Rightarrow> kv_store" where
  "clear st =
     (let st = st\<lparr>ks_prompt_ring := empty_snapshot, ks_prompt_slot_pos := []\<rparr> in
      if \<not> kv_valid st then st
      else let c = ks_cfg st; l = ks_lay st; n = length (ks_owners st) * kc_max_ratio c * kc_latent_dim c;
               st = kv_write (ly_off_win_val l) (replicate (kc_layers c * kc_window c * kc_latent_dim c) 0) st;
               st = kv_write (ly_off_win_scale l) (replicate (kc_layers c * kc_window c * window_scales c) 0) st;
               st = kv_write (ly_off_top l) (replicate (topk_bytes c) 0) st;
               st = kv_write (ly_off_state l) (replicate (n * 4) 0) st;
               st = kv_write (ly_off_state l + n * 4) (concat (replicate n ninf)) st;
               st = clear_planes st [0..<length (ks_owners st)]
           in st\<lparr>ks_n_cmp := replicate (length (ks_n_cmp st)) 0, ks_n_kv := replicate (length (ks_n_kv st)) 0,
                 ks_win_lo := 0, ks_slot_pos := replicate (kc_window c) kSlotEmpty\<rparr>)"

text \<open>
  The loop over the layers that finds the planes each of them reads. It stops at the first layer that
  reads a plane nobody owns; the entries from there on keep their initial value.
\<close>

fun index_of :: "nat \<Rightarrow> nat list \<Rightarrow> nat option" where
  "index_of x [] = None"
| "index_of x (y # ys) = (if x = y then Some 0 else map_option Suc (index_of x ys))"

definition plane_index :: "kv_config \<Rightarrow> nat \<Rightarrow> nat option" where
  "plane_index c l = (if owner c l = kNoPlane then Some kNoPlane else index_of (owner c l) (owners c))"

definition owner_table :: "kv_config \<Rightarrow> nat list" where
  "owner_table c =
     (let known = length (takeWhile (\<lambda>l. plane_index c l \<noteq> None) [0..<kc_layers c])
      in map (\<lambda>l. if l < known then the (plane_index c l) else kNoPlane) [0..<kc_layers c])"

text \<open>The attempts to allocate, each with slabs of half the size of the one before.\<close>

fun alloc_tries :: "allocator \<Rightarrow> nat \<Rightarrow> nat \<Rightarrow> nat \<Rightarrow> kv_config \<Rightarrow> (gpu_buffer list \<times> kv_layout) result \<times> kv_config" where
  "alloc_tries alloc k 0 cap c = (Inl ErrOk, c)"
| "alloc_tries alloc k (Suc t) cap c =
     (let lay = layout_for c (owners c) cap in
      case allocate_slabs alloc k (ly_slab_size lay) of
        (Inr bs, k) \<Rightarrow> (Inr (bs, lay), c)
      | (Inl e, k) \<Rightarrow>
          if e \<noteq> InvalidArgument \<or> kc_slab_bytes c \<le> 64 * 2 ^ 20 then (Inl e, c)
          else let c = c\<lparr>kc_slab_bytes := kc_slab_bytes c div 2\<rparr>
               in if t = 0 then (Inl e, c) else alloc_tries alloc k t cap c)"

definition initial_cap :: "kv_config \<Rightarrow> nat" where
  "initial_cap c = (if kc_initial_context c \<noteq> 0 then min (kc_initial_context c) (kc_max_context c) else kc_max_context c)"

definition create :: "allocator \<Rightarrow> kv_config \<Rightarrow> kv_store \<Rightarrow> unit result \<times> kv_store" where
  "create alloc cfg st =
     (let st = destroy st in
      if kc_latent_dim cfg mod kc_scale_block cfg \<noteq> 0 \<or> kc_latent_dim cfg mod 16 \<noteq> 0 \<or> kc_index_dim cfg mod 32 \<noteq> 0
      then (Inl InvalidArgument, st)
      else if per_source cfg \<and> (length (kc_plane_of cfg) \<noteq> kc_layers cfg \<or> length (kc_ratio cfg) \<noteq> kc_layers cfg)
      then (Inl InvalidArgument, st)
      else if kc_max_context cfg = 0 then (Inl InvalidArgument, st)
      else let st = st\<lparr>ks_cfg := cfg, ks_owners := owners cfg, ks_owner_of := owner_table cfg\<rparr> in
        if \<exists>l < kc_layers cfg. plane_index cfg l = None then (Inl InvalidArgument, st)
        else let cap = initial_cap cfg
             in case alloc_tries alloc 0 8 cap cfg of
                  (Inl e, c) \<Rightarrow> (Inl e, st\<lparr>ks_cfg := c\<rparr>)
                | (Inr (bs, lay), c) \<Rightarrow>
                    (Inr (), clear (st\<lparr>ks_cfg := c, ks_bufs := map zero_buffer bs, ks_lay := lay, ks_cap := cap,
                       ks_rows_hw := replicate (length (owners cfg)) 0, ks_n_cmp := replicate (kc_layers cfg) 0,
                       ks_n_kv := replicate (kc_layers cfg) 0\<rparr>)))"

section \<open>The ring's bookkeeping\<close>

definition ring_slot_position :: "nat \<Rightarrow> nat \<Rightarrow> nat \<Rightarrow> int" where
  "ring_slot_position s n window =
     (if window = 0 \<or> n \<le> s then -1 else int s + int ((n - 1 - s) div window) * int window)"

definition resolve_ring :: "nat \<Rightarrow> kv_store \<Rightarrow> kv_store" where
  "resolve_ring n st =
     st\<lparr>ks_slot_pos := map (\<lambda>s. if ks_slot_pos st ! s \<noteq> kSlotUnknown then ks_slot_pos st ! s
          else let p = ring_slot_position s n (kc_window (ks_cfg st)) in if p < 0 then kSlotEmpty else p)
        [0..<length (ks_slot_pos st)]\<rparr>"

definition mark_ring_written :: "nat \<Rightarrow> nat \<Rightarrow> kv_store \<Rightarrow> kv_store" where
  "mark_ring_written first cnt st =
     (if ks_slot_pos st = [] then st
      else st\<lparr>ks_slot_pos := fold (\<lambda>j xs. xs[u32_of (first + j) mod kc_window (ks_cfg st) := int first + int j])
                [0..<cnt] (ks_slot_pos st)\<rparr>)"

definition ring_holds :: "kv_store \<Rightarrow> nat \<Rightarrow> bool" where
  "ring_holds st position \<longleftrightarrow>
     \<not> (ks_slot_pos st = [] \<or> position < ks_win_lo st) \<and> ks_slot_pos st ! (position mod kc_window (ks_cfg st)) = int position"

definition set_window_floor :: "nat \<Rightarrow> kv_store \<Rightarrow> kv_store" where
  "set_window_floor position st = st\<lparr>ks_win_lo := position\<rparr>"

section \<open>Growth\<close>

text \<open>Copying a region from one layout to the other.\<close>

definition copy_region :: "kv_store \<Rightarrow> kv_layout \<Rightarrow> nat \<times> nat \<times> nat \<Rightarrow> gpu_buffer list \<Rightarrow> gpu_buffer list" where
  "copy_region st nl = (\<lambda>(src, dst, n) nb. poke (loc nl dst) (kv_read st src n) nb)"

definition live_regions :: "kv_store \<Rightarrow> kv_layout \<Rightarrow> (nat \<times> nat \<times> nat) list" where
  "live_regions st nl =
     (let c = ks_cfg st; l = ks_lay st in
      [(ly_off_win_val l, ly_off_win_val nl, kc_layers c * kc_window c * kc_latent_dim c),
       (ly_off_win_scale l, ly_off_win_scale nl, kc_layers c * kc_window c * window_scales c),
       (ly_off_top l, ly_off_top nl, topk_bytes c),
       (ly_off_state l, ly_off_state nl, length (ks_owners st) * kc_max_ratio c * kc_latent_dim c * 4 * 2)]
      @ concat (map (\<lambda>oi. [(ly_off_cmp l ! oi, ly_off_cmp nl ! oi, ks_rows_hw st ! oi * kc_latent_dim c * 2),
                           (ly_off_idx l ! oi, ly_off_idx nl ! oi, ks_rows_hw st ! oi * kc_index_dim c * 2)])
          [0..<length (ks_owners st)]))"

definition grown_cap :: "kv_store \<Rightarrow> nat \<Rightarrow> nat" where
  "grown_cap st positions =
     (let m = kc_max_context (ks_cfg st);
          doubled = (if ks_cap st > m div 2 then m else ks_cap st * 2)
      in min m (max positions doubled))"

definition reserve :: "allocator \<Rightarrow> nat \<Rightarrow> kv_store \<Rightarrow> unit result \<times> kv_store" where
  "reserve alloc positions st =
     (if \<not> kv_valid st then (Inl FailedPrecondition, st)
      else if positions \<le> ks_cap st then (Inr (), st)
      else if positions > kc_max_context (ks_cfg st) then (Inl ResourceExhausted, st)
      else let nc = grown_cap st positions; nl = layout_for (ks_cfg st) (ks_owners st) nc in
        case fst (allocate_slabs alloc 0 (ly_slab_size nl)) of
          Inl e \<Rightarrow> (Inl e, st)
        | Inr nb \<Rightarrow>
            (Inr (), st\<lparr>ks_bufs := fold (copy_region st nl) (live_regions st nl) (map zero_buffer nb), ks_lay := nl, ks_cap := nc\<rparr>))"

section \<open>What a layer's kernels are given\<close>

record kv_layer_view =
  vw_win_val :: u64
  vw_win_scale :: u64
  vw_cmp_kv :: u64
  vw_top_idx :: u64
  vw_idx_key :: u64
  vw_cmp_state_kv :: u64
  vw_cmp_state_score :: u64
  vw_win_val_host :: host_ptr
  vw_win_scale_host :: host_ptr
  vw_cmp_kv_host :: "host_ptr option"
  vw_top_idx_host :: host_ptr
  vw_idx_key_host :: "host_ptr option"
  vw_cmp_state_kv_host :: "host_ptr option"
  vw_cmp_state_score_host :: "host_ptr option"
  vw_n_cmp :: nat
  vw_n_kv :: nat
  vw_plane_owner :: nat

definition state_stride :: "kv_config \<Rightarrow> nat" where
  "state_stride c = kc_max_ratio c * kc_latent_dim c * 4"

definition score_base :: "kv_store \<Rightarrow> nat" where
  "score_base st = ly_off_state (ks_lay st) + length (ks_owners st) * state_stride (ks_cfg st)"

definition kv_layer :: "nat \<Rightarrow> kv_store \<Rightarrow> kv_layer_view result" where
  "kv_layer l st =
     (if \<not> kv_valid st then Inl FailedPrecondition
      else if l \<ge> kc_layers (ks_cfg st) then Inl OutOfRange
      else let c = ks_cfg st; y = ks_lay st;
               win = kc_window c * kc_latent_dim c; wins = kc_window c * window_scales c; top = topk_rows c * 4;
               stp = state_stride c; oi = owner_index st l; own = oi \<noteq> kNoPlane; oi = (if own then oi else 0);
               some = ks_owners st \<noteq> [];
               dev = (\<lambda>off. if some then kv_dev st off else 0); ptr = (\<lambda>off. if some then Some (loc y off) else None)
           in Inr \<lparr>vw_win_val = kv_dev st (ly_off_win_val y + l * win), vw_win_scale = kv_dev st (ly_off_win_scale y + l * wins),
                vw_cmp_kv = dev (ly_off_cmp y ! oi), vw_top_idx = kv_dev st (ly_off_top y + l * top),
                vw_idx_key = dev (ly_off_idx y ! oi), vw_cmp_state_kv = dev (ly_off_state y + oi * stp),
                vw_cmp_state_score = dev (score_base st + oi * stp),
                vw_win_val_host = loc y (ly_off_win_val y + l * win), vw_win_scale_host = loc y (ly_off_win_scale y + l * wins),
                vw_cmp_kv_host = ptr (ly_off_cmp y ! oi), vw_top_idx_host = loc y (ly_off_top y + l * top),
                vw_idx_key_host = ptr (ly_off_idx y ! oi), vw_cmp_state_kv_host = ptr (ly_off_state y + oi * stp),
                vw_cmp_state_score_host = ptr (score_base st + oi * stp),
                vw_n_cmp = ks_n_cmp st ! l, vw_n_kv = ks_n_kv st ! l,
                vw_plane_owner = (if some \<and> own then ks_owners st ! oi else kNoPlane)\<rparr>)"

definition write_at :: "host_ptr \<Rightarrow> nat \<Rightarrow> u8 list \<Rightarrow> kv_store \<Rightarrow> kv_store" where
  "write_at p k bs st = st\<lparr>ks_bufs := poke (fst p, snd p + k) bs (ks_bufs st)\<rparr>"

section \<open>Seeding\<close>

definition e8m0_encode :: "f32 \<Rightarrow> u8" where
  "e8m0_encode pow2 = ucast (drop_bit 23 pow2 AND 0xFF)"

definition forget_prompt :: "kv_store \<Rightarrow> kv_store" where
  "forget_prompt st = st\<lparr>ks_prompt_ring := empty_snapshot, ks_prompt_slot_pos := []\<rparr>"

definition seed_block :: "kv_layer_view \<Rightarrow> f32 list \<Rightarrow> nat \<times> nat \<Rightarrow> kv_store \<Rightarrow> kv_store" where
  "seed_block v values = (\<lambda>(r, b) st.
     let c = ks_cfg st; blocks = window_scales c; k = r * kc_latent_dim c + b * kc_scale_block c;
         (bytes, back, s) = act_quant_block (take (kc_scale_block c) (drop k values))
     in write_at (vw_win_scale_host v) (r * blocks + b) [e8m0_encode s] (write_at (vw_win_val_host v) k bytes st))"

definition seed_window :: "nat \<Rightarrow> f32 list \<Rightarrow> nat \<Rightarrow> kv_store \<Rightarrow> unit result \<times> kv_store" where
  "seed_window l values rows st =
     (let st = forget_prompt st in
      case kv_layer l st of
        Inl e \<Rightarrow> (Inl e, st)
      | Inr v \<Rightarrow>
          if rows > kc_window (ks_cfg st) then (Inl InvalidArgument, st)
          else let st = st\<lparr>ks_slot_pos := map (\<lambda>s. if s < rows then kSlotUnknown else ks_slot_pos st ! s) [0..<length (ks_slot_pos st)]\<rparr>
               in (Inr (), fold (seed_block v values) (List.product [0..<rows] [0..<window_scales (ks_cfg st)]) st))"

definition owns_plane :: "kv_store \<Rightarrow> nat \<Rightarrow> bool" where
  "owns_plane st l \<longleftrightarrow> owner_index st l \<noteq> kNoPlane \<and> ks_owners st ! owner_index st l = l"

definition raise_hw :: "nat \<Rightarrow> nat \<Rightarrow> kv_store \<Rightarrow> kv_store" where
  "raise_hw oi n st = st\<lparr>ks_rows_hw := (ks_rows_hw st)[oi := max (ks_rows_hw st ! oi) n]\<rparr>"

definition seed_compressed :: "allocator \<Rightarrow> nat \<Rightarrow> f32 list \<Rightarrow> nat \<Rightarrow> kv_store \<Rightarrow> unit result \<times> kv_store" where
  "seed_compressed alloc l values n_cmp st =
     (if l \<ge> kc_layers (ks_cfg st) then (Inl OutOfRange, st)
      else if \<not> owns_plane st l then (Inr (), st\<lparr>ks_n_cmp := (ks_n_cmp st)[l := n_cmp]\<rparr>)
      else let ratio = plane_ratio (ks_cfg st) l in
        if n_cmp * ratio > kc_max_context (ks_cfg st) then (Inl InvalidArgument, st)
        else case reserve alloc (n_cmp * ratio) st of
               (Inl e, st) \<Rightarrow> (Inl e, st)
             | (Inr _, st) \<Rightarrow>
                 (case kv_layer l st of
                    Inl e \<Rightarrow> (Inl e, st)
                  | Inr v \<Rightarrow>
                      let st = write_at (the (vw_cmp_kv_host v)) 0
                                 (encode_list (le_bytes 2) (map float_to_bf16 (take (n_cmp * kc_latent_dim (ks_cfg st)) values))) st;
                          st = raise_hw (owner_index st l) n_cmp st
                      in (Inr (), st\<lparr>ks_n_cmp := (ks_n_cmp st)[l := n_cmp]\<rparr>)))"

definition seed_topk :: "nat \<Rightarrow> u32 list \<Rightarrow> nat \<Rightarrow> kv_store \<Rightarrow> unit result \<times> kv_store" where
  "seed_topk l idx n_kv st =
     (case kv_layer l st of
        Inl e \<Rightarrow> (Inl e, st)
      | Inr v \<Rightarrow>
          if n_kv > topk_rows (ks_cfg st) then (Inl InvalidArgument, st)
          else let st = write_at (vw_top_idx_host v) 0 (encode_list (le_bytes 4) (take n_kv idx)) st
               in (Inr (), st\<lparr>ks_n_kv := (ks_n_kv st)[l := n_kv]\<rparr>))"

definition seed_index_k :: "allocator \<Rightarrow> nat \<Rightarrow> f32 list \<Rightarrow> nat \<Rightarrow> kv_store \<Rightarrow> unit result \<times> kv_store" where
  "seed_index_k alloc l values rows st =
     (if l \<ge> kc_layers (ks_cfg st) then (Inl OutOfRange, st)
      else if \<not> owns_plane st l then (Inr (), st)
      else let ratio = plane_ratio (ks_cfg st) l in
        if rows * ratio > kc_max_context (ks_cfg st) then (Inl InvalidArgument, st)
        else case reserve alloc (rows * ratio) st of
               (Inl e, st) \<Rightarrow> (Inl e, st)
             | (Inr _, st) \<Rightarrow>
                 (case kv_layer l st of
                    Inl e \<Rightarrow> (Inl e, st)
                  | Inr v \<Rightarrow>
                      let st = write_at (the (vw_idx_key_host v)) 0
                                 (encode_list (le_bytes 2) (map float_to_bf16 (take (rows * kc_index_dim (ks_cfg st)) values))) st
                      in (Inr (), raise_hw (owner_index st l) rows st)))"

definition seed_cmp_state :: "nat \<Rightarrow> f32 list \<Rightarrow> f32 list \<Rightarrow> nat \<Rightarrow> kv_store \<Rightarrow> unit result \<times> kv_store" where
  "seed_cmp_state l kv score ratio st =
     (if l \<ge> kc_layers (ks_cfg st) then (Inl OutOfRange, st)
      else if \<not> owns_plane st l then (Inr (), st)
      else if ratio > kc_max_ratio (ks_cfg st) then (Inl InvalidArgument, st)
      else case kv_layer l st of
             Inl e \<Rightarrow> (Inl e, st)
           | Inr v \<Rightarrow>
               let n = ratio * kc_latent_dim (ks_cfg st);
                   st = write_at (the (vw_cmp_state_kv_host v)) 0 (encode_list (le_bytes 4) (take n kv)) st
               in (Inr (), write_at (the (vw_cmp_state_score_host v)) 0 (encode_list (le_bytes 4) (take n score)) st))"

section \<open>The steps of a decode\<close>

definition set_counts :: "allocator \<Rightarrow> nat \<Rightarrow> nat \<Rightarrow> nat \<Rightarrow> kv_store \<Rightarrow> unit result \<times> kv_store" where
  "set_counts alloc l n_cmp n_kv st =
     (if l \<ge> kc_layers (ks_cfg st) then (Inl OutOfRange, st)
      else let oi = owner_index st l;
               ratio = (if oi = kNoPlane then 1 else plane_ratio (ks_cfg st) (ks_owners st ! oi))
           in if n_cmp * ratio > kc_max_context (ks_cfg st) \<or> n_kv > topk_rows (ks_cfg st) then (Inl InvalidArgument, st)
              else let counts = (\<lambda>st. st\<lparr>ks_n_cmp := (ks_n_cmp st)[l := n_cmp], ks_n_kv := (ks_n_kv st)[l := n_kv]\<rparr>)
                   in if oi \<noteq> kNoPlane
                      then (case reserve alloc (n_cmp * ratio) st of
                              (Inl e, st) \<Rightarrow> (Inl e, st)
                            | (Inr _, st) \<Rightarrow> (Inr (), counts (raise_hw oi n_cmp st)))
                      else (Inr (), counts st))"

text \<open>The window half of the top-k list of a step: slot numbers, or -1.\<close>

definition window_entry :: "nat \<Rightarrow> nat \<Rightarrow> nat \<Rightarrow> nat \<Rightarrow> int" where
  "window_entry win win_lo position i =
     (let oldest = position mod win + 1; slot = u32_of (oldest + i) mod win; pos = int position - int (win - 1 - i)
      in if pos < 0 \<or> pos < int win_lo then -1 else int slot)"

definition set_decode_topk :: "allocator \<Rightarrow> nat \<Rightarrow> nat \<Rightarrow> nat \<Rightarrow> nat \<Rightarrow> kv_store \<Rightarrow> unit result \<times> kv_store" where
  "set_decode_topk alloc l position n_cmp n_sel st =
     (if n_sel > n_cmp then (Inl InvalidArgument, st)
      else case reserve alloc (u32_of (position + 1)) st of
        (Inl e, st) \<Rightarrow> (Inl e, st)
      | (Inr _, st) \<Rightarrow>
          (case set_counts alloc l n_cmp (u32_of (kc_window (ks_cfg st) + n_sel)) st of
             (Inl e, st) \<Rightarrow> (Inl e, st)
           | (Inr _, st) \<Rightarrow>
               (case kv_layer l st of
                  Inl e \<Rightarrow> (Inl e, st)
                | Inr v \<Rightarrow>
                    let win = kc_window (ks_cfg st);
                        st = st\<lparr>ks_slot_pos := (ks_slot_pos st)[position mod win := int position]\<rparr>
                    in (Inr (), write_at (vw_top_idx_host v) 0
                          (encode_list (le_bytes 4)
                             (map (\<lambda>i. word_of_int (window_entry win (ks_win_lo st) position i) :: u32) [0..<win])) st))))"

end
