(* ===== verification/Kv_Context.thy ===== *)
theory Kv_Context
  imports Kv_Store
begin

text \<open>
  The operations of \<^verbatim>\<open>runtime/kvstore\<close> that save and restore a context: packing its rows, keeping copies of
  rows while a replay overwrites them, and snapshots of the window ring.
\<close>

section \<open>Packing whole contexts\<close>

record kv_packed_plane =
  kp_layer :: nat
  kp_ratio :: nat
  kp_rows :: nat
  kp_cmp_fp4 :: "u8 list"
  kp_cmp_scale :: "u8 list"
  kp_key_fp4 :: "u8 list"
  kp_key_scale :: "u8 list"
  kp_raw_rows :: "nat list"
  kp_raw_cmp :: "u16 list"
  kp_raw_key :: "u16 list"
  kp_carry_kv :: "f32 list"
  kp_carry_score :: "f32 list"

record kv_packed =
  pk_positions :: nat
  pk_planes :: "kv_packed_plane list"

text \<open>\<^verbatim>\<open>sizeof(*this)\<close> is the size of the record itself, a constant of the platform.\<close>

definition packed_struct_size :: nat where "packed_struct_size = 32"

definition kv_packed_bytes :: "kv_packed \<Rightarrow> nat" where
  "kv_packed_bytes pk =
     packed_struct_size +
     (\<Sum>p\<leftarrow>pk_planes pk.
        length (kp_cmp_fp4 p) + length (kp_cmp_scale p) + length (kp_key_fp4 p) + length (kp_key_scale p)
        + length (kp_raw_rows p) * 4 + (length (kp_raw_cmp p) + length (kp_raw_key p)) * 2
        + (length (kp_carry_kv p) + length (kp_carry_score p)) * 4)"

definition raw_rows :: "kv_packed \<Rightarrow> nat" where
  "raw_rows pk = u32_of (\<Sum>p\<leftarrow>pk_planes pk. length (kp_raw_rows p))"

definition read_u16s :: "kv_store \<Rightarrow> nat \<Rightarrow> nat \<Rightarrow> u16 list" where
  "read_u16s st off n = decode_list 2 of_le n (kv_read st off (2 * n))"

definition read_f32s :: "kv_store \<Rightarrow> nat \<Rightarrow> nat \<Rightarrow> f32 list" where
  "read_f32s st off n = decode_list 4 of_le n (kv_read st off (4 * n))"

definition row_at :: "'a list \<Rightarrow> nat \<Rightarrow> nat \<Rightarrow> 'a list" where
  "row_at xs d r = take d (drop (r * d) xs)"

definition pack_plane :: "kv_store \<Rightarrow> nat \<Rightarrow> nat \<Rightarrow> kv_packed_plane" where
  "pack_plane st positions oi =
     (let c = ks_cfg st; l = ks_owners st ! oi; ratio = plane_ratio c l; rows = positions div ratio;
          cd = kc_latent_dim c; kd = kc_index_dim c;
          cmp = read_u16s st (ly_off_cmp (ks_lay st) ! oi) (rows * cd);
          key = read_u16s st (ly_off_idx (ks_lay st) ! oi) (rows * kd);
          pc = map (\<lambda>r. pack_fp4_row (row_at cmp cd r) cd 16 False) [0..<rows];
          pk = map (\<lambda>r. pack_fp4_row (row_at key kd r) kd 32 True) [0..<rows];
          raw = filter (\<lambda>r. \<not> (fst (pc ! r) \<and> fst (pk ! r))) [0..<rows];
          n = ratio * cd
      in \<lparr>kp_layer = l, kp_ratio = ratio, kp_rows = rows,
          kp_cmp_fp4 = concat (map (\<lambda>(ok, nib, sc). nib) pc), kp_cmp_scale = concat (map (\<lambda>(ok, nib, sc). sc) pc),
          kp_key_fp4 = concat (map (\<lambda>(ok, nib, sc). nib) pk), kp_key_scale = concat (map (\<lambda>(ok, nib, sc). sc) pk),
          kp_raw_rows = raw, kp_raw_cmp = concat (map (row_at cmp cd) raw), kp_raw_key = concat (map (row_at key kd) raw),
          kp_carry_kv = (if ratio > 1 then read_f32s st (ly_off_state (ks_lay st) + oi * state_stride c) n else []),
          kp_carry_score = (if ratio > 1 then read_f32s st (score_base st + oi * state_stride c) n else [])\<rparr>)"

definition kv_pack :: "nat \<Rightarrow> kv_store \<Rightarrow> kv_packed result" where
  "kv_pack positions st =
     (if \<not> kv_valid st then Inl FailedPrecondition
      else if \<exists>oi < length (ks_owners st).
                let l = ks_owners st ! oi; rows = positions div plane_ratio (ks_cfg st) l
                in rows > ks_rows_hw st ! oi \<or> rows > rows_for (ks_cfg st) l (ks_cap st)
      then Inl FailedPrecondition
      else Inr \<lparr>pk_positions = positions, pk_planes = map (pack_plane st positions) [0..<length (ks_owners st)]\<rparr>)"

text \<open>The rows of a packed plane: every row unpacked, then the raw ones put over it.\<close>

definition put_row :: "nat \<Rightarrow> nat \<Rightarrow> 'a list \<Rightarrow> 'a list \<Rightarrow> 'a list" where
  "put_row d r row xs = take (r * d) xs @ row @ drop (r * d + d) xs"

definition unpacked_rows :: "u8 list \<Rightarrow> u8 list \<Rightarrow> nat \<Rightarrow> nat \<Rightarrow> nat \<Rightarrow> bool \<Rightarrow> nat list \<Rightarrow> u16 list \<Rightarrow> u16 list" where
  "unpacked_rows fp4 scale rows d block e8m0 raw raw_vals =
     (let rs = concat (map (\<lambda>r. unpack_fp4_row (drop (r * d div 2) fp4) (drop (r * d div block) scale) d block e8m0) [0..<rows])
      in fold (\<lambda>i. put_row d (raw ! i) (row_at raw_vals d i)) [0..<length raw] rs)"

definition unpack_plane :: "kv_packed_plane \<Rightarrow> kv_store \<Rightarrow> unit result \<times> kv_store" where
  "unpack_plane p st =
     (let c = ks_cfg st; oi = owner_index st (kp_layer p); cd = kc_latent_dim c; kd = kc_index_dim c in
      if oi = kNoPlane \<or> ks_owners st ! oi \<noteq> kp_layer p \<or> plane_ratio c (kp_layer p) \<noteq> kp_ratio p then (Inl InvalidArgument, st)
      else let cmp = unpacked_rows (kp_cmp_fp4 p) (kp_cmp_scale p) (kp_rows p) cd 16 False (kp_raw_rows p) (kp_raw_cmp p);
               key = unpacked_rows (kp_key_fp4 p) (kp_key_scale p) (kp_rows p) kd 32 True (kp_raw_rows p) (kp_raw_key p);
               st = kv_write (ly_off_cmp (ks_lay st) ! oi) (encode_list (le_bytes 2) cmp) st;
               st = kv_write (ly_off_idx (ks_lay st) ! oi) (encode_list (le_bytes 2) key) st;
               st = raise_hw oi (kp_rows p) st
           in (Inr (),
               if kp_ratio p > 1 \<and> length (kp_carry_kv p) = kp_ratio p * cd
               then kv_write (score_base st + oi * state_stride c) (encode_list (le_bytes 4) (kp_carry_score p))
                      (kv_write (ly_off_state (ks_lay st) + oi * state_stride c) (encode_list (le_bytes 4) (kp_carry_kv p)) st)
               else st))"

fun unpack_planes :: "kv_packed_plane list \<Rightarrow> kv_store \<Rightarrow> unit result \<times> kv_store" where
  "unpack_planes [] st = (Inr (), st)"
| "unpack_planes (p # ps) st =
     (case unpack_plane p st of (Inl e, st) \<Rightarrow> (Inl e, st) | (Inr _, st) \<Rightarrow> unpack_planes ps st)"

definition context_counts :: "nat \<Rightarrow> kv_store \<Rightarrow> kv_store" where
  "context_counts positions st =
     st\<lparr>ks_n_cmp := map (\<lambda>l. let oi = owner_index st l in
          if oi = kNoPlane then 0 else positions div plane_ratio (ks_cfg st) (ks_owners st ! oi)) [0..<kc_layers (ks_cfg st)]\<rparr>"

definition kv_unpack :: "allocator \<Rightarrow> kv_packed \<Rightarrow> kv_store \<Rightarrow> unit result \<times> kv_store" where
  "kv_unpack alloc pk st =
     (let st = forget_prompt st in
      if \<not> kv_valid st then (Inl FailedPrecondition, st)
      else case reserve alloc (max (pk_positions pk) 1) st of
        (Inl e, st) \<Rightarrow> (Inl e, st)
      | (Inr _, st) \<Rightarrow>
          (case unpack_planes (pk_planes pk) st of
             (Inl e, st) \<Rightarrow> (Inl e, st)
           | (Inr _, st) \<Rightarrow> (Inr (), context_counts (pk_positions pk) st)))"

section \<open>Copies of rows\<close>

record backup_plane =
  bp_layer :: nat
  bp_ratio :: nat
  bp_first_row :: nat
  bp_rows :: nat
  bp_cmp :: "u16 list"
  bp_key :: "u16 list"
  bp_carry_kv :: "f32 list"
  bp_carry_score :: "f32 list"

record row_backup =
  rb_first_pos :: nat
  rb_end_pos :: nat
  rb_planes :: "backup_plane list"

definition row_backup_bytes :: "row_backup \<Rightarrow> nat" where
  "row_backup_bytes b =
     (\<Sum>p\<leftarrow>rb_planes b. (length (bp_cmp p) + length (bp_key p)) * 2 + (length (bp_carry_kv p) + length (bp_carry_score p)) * 4)"

definition backup_plane_of :: "kv_store \<Rightarrow> nat \<Rightarrow> nat \<Rightarrow> nat \<Rightarrow> backup_plane" where
  "backup_plane_of st first_pos end_pos oi =
     (let c = ks_cfg st; l = ks_owners st ! oi; ratio = plane_ratio c l; first_row = first_pos div ratio;
          end_row = end_pos div ratio; rows = (if end_row > first_row then end_row - first_row else 0);
          n = kc_max_ratio c * kc_latent_dim c
      in \<lparr>bp_layer = l, bp_ratio = ratio, bp_first_row = first_row, bp_rows = rows,
          bp_cmp = read_u16s st (ly_off_cmp (ks_lay st) ! oi + first_row * kc_latent_dim c * 2) (rows * kc_latent_dim c),
          bp_key = read_u16s st (ly_off_idx (ks_lay st) ! oi + first_row * kc_index_dim c * 2) (rows * kc_index_dim c),
          bp_carry_kv = read_f32s st (ly_off_state (ks_lay st) + oi * state_stride c) n,
          bp_carry_score = read_f32s st (score_base st + oi * state_stride c) n\<rparr>)"

definition backup_rows :: "nat \<Rightarrow> nat \<Rightarrow> kv_store \<Rightarrow> row_backup result" where
  "backup_rows first_pos end_pos st =
     (if \<not> kv_valid st then Inl FailedPrecondition
      else if \<exists>oi < length (ks_owners st).
                let p = backup_plane_of st first_pos end_pos oi in bp_first_row p + bp_rows p > ks_rows_hw st ! oi
      then Inl FailedPrecondition
      else Inr \<lparr>rb_first_pos = first_pos, rb_end_pos = end_pos,
                rb_planes = map (backup_plane_of st first_pos end_pos) [0..<length (ks_owners st)]\<rparr>)"

definition restore_row :: "nat \<Rightarrow> backup_plane \<Rightarrow> kv_store \<Rightarrow> unit result \<times> kv_store" where
  "restore_row position p st =
     (let c = ks_cfg st in
      if u32_of (position + 1) mod bp_ratio p \<noteq> 0 then (Inr (), st)
      else let r = u32_of (u32_of (position + 1) div bp_ratio p + 2 ^ 32 - 1) in
        if r < bp_first_row p \<or> r \<ge> u32_of (bp_first_row p + bp_rows p) then (Inr (), st)
        else let oi = owner_index st (bp_layer p); k = r - bp_first_row p in
          if oi = kNoPlane then (Inl InvalidArgument, st)
          else (Inr (),
                kv_write (ly_off_idx (ks_lay st) ! oi + r * kc_index_dim c * 2) (encode_list (le_bytes 2) (row_at (bp_key p) (kc_index_dim c) k))
                  (kv_write (ly_off_cmp (ks_lay st) ! oi + r * kc_latent_dim c * 2)
                     (encode_list (le_bytes 2) (row_at (bp_cmp p) (kc_latent_dim c) k)) st)))"

fun over_planes :: "(backup_plane \<Rightarrow> kv_store \<Rightarrow> unit result \<times> kv_store) \<Rightarrow> backup_plane list \<Rightarrow> kv_store \<Rightarrow> unit result \<times> kv_store" where
  "over_planes f [] st = (Inr (), st)"
| "over_planes f (p # ps) st = (case f p st of (Inl e, st) \<Rightarrow> (Inl e, st) | (Inr _, st) \<Rightarrow> over_planes f ps st)"

definition restore_rows :: "row_backup \<Rightarrow> nat \<Rightarrow> kv_store \<Rightarrow> unit result \<times> kv_store" where
  "restore_rows b position st =
     (if \<not> kv_valid st then (Inl FailedPrecondition, st) else over_planes (restore_row position) (rb_planes b) st)"

definition restore_plane_carry :: "backup_plane \<Rightarrow> kv_store \<Rightarrow> unit result \<times> kv_store" where
  "restore_plane_carry p st =
     (let c = ks_cfg st; oi = owner_index st (bp_layer p) in
      if oi = kNoPlane then (Inl InvalidArgument, st)
      else (Inr (), kv_write (score_base st + oi * state_stride c) (encode_list (le_bytes 4) (bp_carry_score p))
              (kv_write (ly_off_state (ks_lay st) + oi * state_stride c) (encode_list (le_bytes 4) (bp_carry_kv p)) st)))"

definition restore_carry :: "row_backup \<Rightarrow> kv_store \<Rightarrow> unit result \<times> kv_store" where
  "restore_carry b st =
     (if \<not> kv_valid st then (Inl FailedPrecondition, st) else over_planes restore_plane_carry (rb_planes b) st)"

definition baked_plane_ok :: "kv_store \<Rightarrow> nat \<Rightarrow> nat \<Rightarrow> backup_plane \<Rightarrow> bool" where
  "baked_plane_ok st positions i p \<longleftrightarrow>
     (let c = ks_cfg st in
      \<not> (bp_layer p \<noteq> ks_owners st ! i \<or> bp_ratio p \<noteq> plane_ratio c (bp_layer p) \<or> bp_first_row p \<noteq> 0
         \<or> bp_rows p \<noteq> positions div bp_ratio p \<or> length (bp_cmp p) \<noteq> bp_rows p * kc_latent_dim c
         \<or> length (bp_key p) \<noteq> bp_rows p * kc_index_dim c \<or> length (bp_carry_kv p) \<noteq> kc_max_ratio c * kc_latent_dim c
         \<or> length (bp_carry_score p) \<noteq> length (bp_carry_kv p)))"

definition restore_exact_rows :: "allocator \<Rightarrow> row_backup \<Rightarrow> nat \<Rightarrow> kv_store \<Rightarrow> unit result \<times> kv_store" where
  "restore_exact_rows alloc b positions st =
     (let n = length (ks_owners st) in
      if length (rb_planes b) \<noteq> n then (Inl Corrupt, st)
      else if \<exists>i < n. \<not> baked_plane_ok st positions i (rb_planes b ! i) then (Inl Corrupt, st)
      else case reserve alloc positions st of
        (Inl e, st) \<Rightarrow> (Inl e, st)
      | (Inr _, st) \<Rightarrow>
          let st = fold (\<lambda>i st.
                     let p = rb_planes b ! i;
                         st = kv_write (ly_off_cmp (ks_lay st) ! i) (encode_list (le_bytes 2) (bp_cmp p)) st;
                         st = kv_write (ly_off_idx (ks_lay st) ! i) (encode_list (le_bytes 2) (bp_key p)) st
                     in st\<lparr>ks_rows_hw := (ks_rows_hw st)[i := bp_rows p]\<rparr>) [0..<n] st
          in restore_carry b (context_counts positions st))"

section \<open>Snapshots of the ring\<close>

definition ring_val_off :: "kv_store \<Rightarrow> nat \<Rightarrow> nat \<Rightarrow> nat" where
  "ring_val_off st l s = ly_off_win_val (ks_lay st) + (l * kc_window (ks_cfg st) + s) * kc_latent_dim (ks_cfg st)"

definition ring_scale_off :: "kv_store \<Rightarrow> nat \<Rightarrow> nat \<Rightarrow> nat" where
  "ring_scale_off st l s = ly_off_win_scale (ks_lay st) + (l * kc_window (ks_cfg st) + s) * window_scales (ks_cfg st)"

definition snapshot_ring :: "nat list \<Rightarrow> nat list \<Rightarrow> kv_store \<Rightarrow> ring_snapshot result" where
  "snapshot_ring slots layers st =
     (let c = ks_cfg st in
      if \<not> kv_valid st then Inl FailedPrecondition
      else if slots = [] then Inl InvalidArgument
      else if layers = [] then Inl InvalidArgument
      else if \<exists>l \<in> set layers. l \<ge> kc_layers c then Inl OutOfRange
      else if \<exists>s \<in> set slots. s \<ge> kc_window c then Inl OutOfRange
      else Inr \<lparr>rs_layer = layers, rs_slot = slots, rs_position = map ((!) (ks_slot_pos st)) slots,
                rs_val = concat (map (\<lambda>(l, s). kv_read st (ring_val_off st l s) (kc_latent_dim c)) (List.product layers slots)),
                rs_scale = concat (map (\<lambda>(l, s). kv_read st (ring_scale_off st l s) (window_scales c)) (List.product layers slots)),
                rs_latent_dim = kc_latent_dim c\<rparr>)"

definition restore_slot :: "ring_snapshot \<Rightarrow> nat \<times> nat \<times> nat \<Rightarrow> kv_store \<Rightarrow> kv_store" where
  "restore_slot s = (\<lambda>(k, l, sl) st.
     let c = ks_cfg st in
     kv_write (ring_scale_off st l sl) (row_at (rs_scale s) (window_scales c) k)
       (kv_write (ring_val_off st l sl) (row_at (rs_val s) (kc_latent_dim c) k) st))"

definition restore_ring :: "ring_snapshot \<Rightarrow> kv_store \<Rightarrow> unit result \<times> kv_store" where
  "restore_ring s st =
     (let c = ks_cfg st in
      if \<not> kv_valid st then (Inl FailedPrecondition, st)
      else if rs_latent_dim s \<noteq> kc_latent_dim c \<or> rs_position s \<noteq> [] \<and> length (rs_position s) \<noteq> length (rs_slot s)
      then (Inl InvalidArgument, st)
      else if \<exists>l \<in> set (rs_layer s). l \<ge> kc_layers c then (Inl InvalidArgument, st)
      else if \<exists>sl \<in> set (rs_slot s). sl \<ge> kc_window c then (Inl InvalidArgument, st)
      else let cells = List.product (rs_layer s) (rs_slot s);
               st = fold (restore_slot s) (zip [0..<length cells] cells) st
           in if rs_position s = [] then (Inr (), st)
              else let all_layers = (\<forall>l < kc_layers c. l \<in> set (rs_layer s))
                   in (Inr (), st\<lparr>ks_slot_pos := fold (\<lambda>i xs. xs[rs_slot s ! i := (if all_layers then rs_position s ! i else kSlotEmpty)])
                         [0..<length (rs_slot s)] (ks_slot_pos st)\<rparr>))"

section \<open>The prompt's window\<close>

definition retain_prompt_ring :: "nat \<Rightarrow> kv_store \<Rightarrow> unit result \<times> kv_store" where
  "retain_prompt_ring positions st =
     (let st = resolve_ring positions st; c = ks_cfg st in
      case snapshot_ring [0..<kc_window c] [0..<kc_layers c] st of
        Inl e \<Rightarrow> (Inl e, st)
      | Inr s \<Rightarrow> (Inr (), st\<lparr>ks_prompt_ring := s,
                  ks_prompt_slot_pos := map (\<lambda>p. if p \<ge> 0 \<and> p < int (ks_win_lo st) then kSlotEmpty else p) (ks_slot_pos st)\<rparr>))"

definition truncate_prompt_ring :: "nat \<Rightarrow> kv_store \<Rightarrow> kv_store" where
  "truncate_prompt_ring keep st =
     st\<lparr>ks_prompt_slot_pos := map (\<lambda>p. if p \<ge> int keep then kSlotEmpty else p) (ks_prompt_slot_pos st)\<rparr>"

definition has_prompt_ring :: "kv_store \<Rightarrow> bool" where
  "has_prompt_ring st \<longleftrightarrow> length (ks_prompt_slot_pos st) = kc_window (ks_cfg st)"

definition prompt_lo :: "kv_store \<Rightarrow> nat \<Rightarrow> nat" where
  "prompt_lo st keep = (let w = kc_window (ks_cfg st) in if keep \<ge> w then keep - w + 1 else 0)"

definition recover_row :: "nat \<Rightarrow> kv_store \<times> nat \<Rightarrow> kv_store \<times> nat" where
  "recover_row p = (\<lambda>(st, recovered).
     let c = ks_cfg st; s = p mod kc_window c in
     if ks_prompt_slot_pos st ! s \<noteq> int p then (st, recovered)
     else let st = fold (\<lambda>l st.
                    let i = l * kc_window c + s in
                    kv_write (ring_scale_off st l s) (row_at (rs_scale (ks_prompt_ring st)) (window_scales c) i)
                      (kv_write (ring_val_off st l s) (row_at (rs_val (ks_prompt_ring st)) (kc_latent_dim c) i) st))
                  [0..<kc_layers c] st
          in (st\<lparr>ks_slot_pos := (ks_slot_pos st)[s := int p]\<rparr>, recovered + 1))"

definition recover_prompt_ring :: "nat \<Rightarrow> kv_store \<Rightarrow> nat \<times> kv_store" where
  "recover_prompt_ring keep st =
     (if length (ks_prompt_slot_pos st) \<noteq> kc_window (ks_cfg st) then (0, st)
      else let lo = prompt_lo st keep; (st, recovered) = fold recover_row [lo..<keep] (st, 0)
           in (recovered, if recovered \<noteq> 0 then st\<lparr>ks_win_lo := min (ks_win_lo st) lo\<rparr> else st))"

record prompt_ring_diff =
  pd_bytes :: nat
  pd_falsely_present_bytes :: nat
  pd_rows :: nat
  pd_first_position :: nat
  pd_first_layer :: nat

definition count_diff :: "u8 list \<Rightarrow> u8 list \<Rightarrow> nat" where
  "count_diff xs ys = length (filter (\<lambda>(x, y). x \<noteq> y) (zip xs ys))"

definition row_diff :: "kv_store \<Rightarrow> nat \<Rightarrow> nat \<Rightarrow> nat" where
  "row_diff st l s =
     (let c = ks_cfg st; i = l * kc_window c + s in
      count_diff (kv_read st (ring_val_off st l s) (kc_latent_dim c)) (row_at (rs_val (ks_prompt_ring st)) (kc_latent_dim c) i)
      + count_diff (kv_read st (ring_scale_off st l s) (window_scales c)) (row_at (rs_scale (ks_prompt_ring st)) (window_scales c) i))"

definition diff_step :: "kv_store \<Rightarrow> nat \<times> nat \<Rightarrow> prompt_ring_diff \<Rightarrow> prompt_ring_diff" where
  "diff_step st = (\<lambda>(p, l) d.
     let s = p mod kc_window (ks_cfg st); different = row_diff st l s in
     if ks_prompt_slot_pos st ! s \<noteq> int p \<or> different = 0 then d
     else let d = (if pd_rows d = 0 then d\<lparr>pd_first_position := p, pd_first_layer := l\<rparr> else d)
          in d\<lparr>pd_rows := pd_rows d + 1, pd_bytes := pd_bytes d + different,
               pd_falsely_present_bytes := pd_falsely_present_bytes d + (if ring_holds st p then different else 0)\<rparr>)"

definition compare_prompt_ring :: "nat \<Rightarrow> kv_store \<Rightarrow> prompt_ring_diff" where
  "compare_prompt_ring keep st =
     (let out = \<lparr>pd_bytes = 0, pd_falsely_present_bytes = 0, pd_rows = 0, pd_first_position = 2 ^ 32 - 1, pd_first_layer = 2 ^ 32 - 1\<rparr> in
      if \<not> has_prompt_ring st then out
      else fold (diff_step st) (List.product [prompt_lo st keep..<keep] [0..<kc_layers (ks_cfg st)]) out)"

end
