(* ===== verification/Kv_Disk.thy ===== *)
theory Kv_Disk
  imports Kv_Context "HOL-Library.Monad_Syntax" "HOL-Library.Multiset"
begin

text \<open>
  The files of \<^verbatim>\<open>runtime/session.cpp\<close> that keep parked contexts: a context without its window is written as
  one \<^verbatim>\<open>.pkv\<close> file and read back by a reader that takes anything unexpected as a miss. A file is a list of
  bytes, the file system a map from paths to files; what the operating system answers is a parameter.
  The locale \<open>stream_codec\<close> is a writer and a reader that undo each other in front of any other bytes.
\<close>

section \<open>Parked contexts\<close>

record parked_context =
  pc_tokens :: "u32 list"
  pc_kv :: kv_packed

definition parked_bytes :: "parked_context \<Rightarrow> nat" where
  "parked_bytes p = kv_packed_bytes (pc_kv p) + length (pc_tokens p) * 4"

definition common_context_prefix :: "u32 list \<Rightarrow> u32 list \<Rightarrow> nat" where
  "common_context_prefix history prompt = length (takeWhile (\<lambda>(h, p). h = p) (zip history prompt))"

section \<open>Names and tags\<close>

definition fnv1a_tag :: "u8 list \<Rightarrow> u64" where
  "fnv1a_tag s = fold (\<lambda>c h. (h XOR ucast c) * 1099511628211) s 1469598103934665603"

definition name_char_ok :: "char \<Rightarrow> bool" where
  "name_char_ok c \<longleftrightarrow>
     (let n = of_char c :: nat in
      97 \<le> n \<and> n \<le> 122 \<or> 65 \<le> n \<and> n \<le> 90 \<or> 48 \<le> n \<and> n \<le> 57 \<or> c = CHR ''_'' \<or> c = CHR ''-'' \<or> c = CHR ''.'')"

definition session_file_name :: "string \<Rightarrow> string" where
  "session_file_name name =
     (let out = map (\<lambda>c. if name_char_ok c then c else CHR ''_'') name;
          out = (if out = [] then ''default'' else out)
      in take 96 out @ ''.pkv'')"

section \<open>Writing\<close>

definition kKvMagic :: "u8 list" where "kKvMagic = [68, 77, 79, 69, 75, 86, 48, 49]"
definition kKvEnd :: "u8 list" where "kKvEnd = [75, 86, 69, 78, 68, 48, 48, 49]"
definition kKvVersion :: nat where "kKvVersion = 1"
definition kKvVectorCap :: nat where "kKvVectorCap = 2 ^ 34"

definition wr_u32 :: "nat \<Rightarrow> u8 list" where "wr_u32 v = le_bytes 4 (of_nat v :: u32)"
definition wr_u64 :: "u64 \<Rightarrow> u8 list" where "wr_u64 v = le_bytes 8 v"

definition wr_vec :: "nat \<Rightarrow> ('a \<Rightarrow> u8 list) \<Rightarrow> 'a list \<Rightarrow> u8 list" where
  "wr_vec w enc v = wr_u64 (of_nat (length v * w)) @ encode_list enc v"

definition wr_u8s :: "u8 list \<Rightarrow> u8 list" where "wr_u8s = wr_vec 1 (le_bytes 1)"

definition wr_plane :: "kv_packed_plane \<Rightarrow> u8 list" where
  "wr_plane p =
     wr_u32 (kp_layer p) @ wr_u32 (kp_ratio p) @ wr_u32 (kp_rows p)
     @ wr_u8s (kp_cmp_fp4 p) @ wr_u8s (kp_cmp_scale p)
     @ wr_u8s (kp_key_fp4 p) @ wr_u8s (kp_key_scale p)
     @ wr_vec 4 wr_u32 (kp_raw_rows p) @ wr_vec 2 (le_bytes 2) (kp_raw_cmp p) @ wr_vec 2 (le_bytes 2) (kp_raw_key p)
     @ wr_vec 4 (le_bytes 4) (kp_carry_kv p) @ wr_vec 4 (le_bytes 4) (kp_carry_score p)"

definition wr_context :: "parked_context \<Rightarrow> u8 list" where
  "wr_context p =
     wr_u32 (length (pc_tokens p)) @ encode_list (le_bytes 4) (pc_tokens p) @ wr_u32 (pk_positions (pc_kv p))
     @ wr_u32 (length (pk_planes (pc_kv p))) @ concat (map wr_plane (pk_planes (pc_kv p)))"

definition kv_file_bytes :: "u64 \<Rightarrow> parked_context \<Rightarrow> u8 list" where
  "kv_file_bytes tag p = kKvMagic @ wr_u32 kKvVersion @ wr_u64 tag @ wr_context p @ kKvEnd"

section \<open>Reading\<close>

text \<open>A reader takes bytes from the front of what is left of the file, or fails.\<close>

type_synonym 'a reader = "u8 list \<Rightarrow> ('a \<times> u8 list) option"

definition rd_bytes :: "nat \<Rightarrow> u8 list reader" where
  "rd_bytes n bs = (if length bs < n then None else Some (take n bs, drop n bs))"

definition rd_u32 :: "nat reader" where
  "rd_u32 bs = do { (b, bs) \<leftarrow> rd_bytes 4 bs; Some (unat (of_le b :: u32), bs) }"

definition rd_u64 :: "u64 reader" where
  "rd_u64 bs = do { (b, bs) \<leftarrow> rd_bytes 8 bs; Some (of_le b, bs) }"

definition rd_vec :: "nat \<Rightarrow> (u8 list \<Rightarrow> 'a) \<Rightarrow> nat \<Rightarrow> 'a list reader" where
  "rd_vec w dec cap bs =
     do { (bytes, bs) \<leftarrow> rd_u64 bs;
          let n = unat bytes;
          if n > cap \<or> n mod w \<noteq> 0 then None
          else if n div w = 0 then Some ([], bs)
          else do { (b, bs) \<leftarrow> rd_bytes n bs; Some (decode_list w dec (n div w) b, bs) } }"

definition rd_u8s :: "u8 list reader" where "rd_u8s = rd_vec 1 of_le kKvVectorCap"

definition rd_plane :: "kv_packed_plane reader" where
  "rd_plane bs =
     do { (layer, bs) \<leftarrow> rd_u32 bs; (ratio, bs) \<leftarrow> rd_u32 bs; (rows, bs) \<leftarrow> rd_u32 bs;
          (cmp_fp4, bs) \<leftarrow> rd_u8s bs; (cmp_scale, bs) \<leftarrow> rd_u8s bs;
          (key_fp4, bs) \<leftarrow> rd_u8s bs; (key_scale, bs) \<leftarrow> rd_u8s bs;
          (raw_rows, bs) \<leftarrow> rd_vec 4 (\<lambda>b. unat (of_le b :: u32)) kKvVectorCap bs;
          (raw_cmp, bs) \<leftarrow> rd_vec 2 of_le kKvVectorCap bs; (raw_key, bs) \<leftarrow> rd_vec 2 of_le kKvVectorCap bs;
          (carry_kv, bs) \<leftarrow> rd_vec 4 of_le kKvVectorCap bs; (carry_score, bs) \<leftarrow> rd_vec 4 of_le kKvVectorCap bs;
          Some (\<lparr>kp_layer = layer, kp_ratio = ratio, kp_rows = rows, kp_cmp_fp4 = cmp_fp4, kp_cmp_scale = cmp_scale,
                 kp_key_fp4 = key_fp4, kp_key_scale = key_scale, kp_raw_rows = raw_rows, kp_raw_cmp = raw_cmp,
                 kp_raw_key = raw_key, kp_carry_kv = carry_kv, kp_carry_score = carry_score\<rparr>, bs) }"

fun rd_many :: "'a reader \<Rightarrow> nat \<Rightarrow> 'a list reader" where
  "rd_many rd 0 bs = Some ([], bs)"
| "rd_many rd (Suc n) bs = do { (x, bs) \<leftarrow> rd bs; (xs, bs) \<leftarrow> rd_many rd n bs; Some (x # xs, bs) }"

definition rd_context :: "parked_context reader" where
  "rd_context bs =
     do { (nt, bs) \<leftarrow> rd_u32 bs;
          if nt > 2 ^ 24 then None
          else do { (b, bs) \<leftarrow> rd_bytes (nt * 4) bs; (positions, bs) \<leftarrow> rd_u32 bs; (planes, bs) \<leftarrow> rd_u32 bs;
            if planes > 64 then None
            else do { (ps, bs) \<leftarrow> rd_many rd_plane planes bs;
                      Some (\<lparr>pc_tokens = decode_list 4 of_le nt b, pc_kv = \<lparr>pk_positions = positions, pk_planes = ps\<rparr>\<rparr>, bs) } } }"

definition kv_file_context :: "u8 list \<Rightarrow> u8 list \<Rightarrow> parked_context result" where
  "kv_file_context model_tag bs =
     (case rd_bytes 8 bs of
        None \<Rightarrow> Inl Corrupt
      | Some (magic, bs) \<Rightarrow>
          if magic \<noteq> kKvMagic then Inl Corrupt
          else (case rd_u32 bs of
            None \<Rightarrow> Inl Corrupt
          | Some (ver, bs) \<Rightarrow>
              if ver \<noteq> kKvVersion then Inl Corrupt
              else (case rd_u64 bs of
                None \<Rightarrow> Inl Corrupt
              | Some (fp, bs) \<Rightarrow>
                  if model_tag \<noteq> [] \<and> fp \<noteq> fnv1a_tag model_tag then Inl NotFound
                  else (case rd_context bs of
                    None \<Rightarrow> Inl Corrupt
                  | Some (p, bs) \<Rightarrow>
                      (case rd_bytes 8 bs of
                         None \<Rightarrow> Inl Corrupt
                       | Some (e, bs) \<Rightarrow> if e \<noteq> kKvEnd then Inl Corrupt else Inr p)))))"

section \<open>The directory\<close>

record kv_disk_options =
  kd_dir :: string
  kd_model_tag :: "u8 list"
  kd_max_bytes :: nat

text \<open>
  What the operating system answers to one save: whether the directory can be made, the temporary file
  opened and written and the file renamed, the files that are then in the directory in path order (path,
  size and time of the last write), and which of them can be removed.
\<close>

record kv_os =
  ko_mkdir :: bool
  ko_open :: bool
  ko_write :: bool
  ko_rename :: bool
  ko_listing :: "(string \<times> nat \<times> nat) list"
  ko_removes :: "string \<Rightarrow> bool"

type_synonym kv_files = "string \<rightharpoonup> u8 list"

definition ends_with :: "string \<Rightarrow> string \<Rightarrow> bool" where
  "ends_with s suffix \<longleftrightarrow> length suffix \<le> length s \<and> drop (length s - length suffix) s = suffix"

fun evict_files :: "nat \<Rightarrow> (string \<Rightarrow> bool) \<Rightarrow> nat \<Rightarrow> (string \<times> nat \<times> nat) list \<Rightarrow> string list" where
  "evict_files max_bytes removes tot [] = []"
| "evict_files max_bytes removes tot ((p, sz, t) # rest) =
     (if tot \<le> max_bytes then []
      else if removes p then p # evict_files max_bytes removes (tot - sz) rest
      else evict_files max_bytes removes tot rest)"

text \<open>A name that is nothing but the suffix has no extension.\<close>

definition has_extension :: "string \<Rightarrow> string \<Rightarrow> bool" where
  "has_extension p e \<longleftrightarrow> ends_with p e \<and> p \<noteq> e \<and> \<not> ends_with p (CHR ''/'' # e)"

definition kv_listing :: "(string \<times> nat \<times> nat) list \<Rightarrow> (string \<times> nat \<times> nat) list" where
  "kv_listing files = filter (\<lambda>(p, sz, t). has_extension p ''.pkv'' \<or> has_extension p ''.bkv'') files"

definition enforce_disk_budget :: "kv_os \<Rightarrow> kv_disk_options \<Rightarrow> kv_files \<Rightarrow> kv_files" where
  "enforce_disk_budget os opt fs =
     (if kd_max_bytes opt = 0 then fs
      else let files = kv_listing (ko_listing os); tot = (\<Sum>(p, sz, t)\<leftarrow>files. sz) in
        if tot \<le> kd_max_bytes opt then fs
        else fold (\<lambda>p fs. fs(p := None)) (evict_files (kd_max_bytes opt) (ko_removes os) tot (sort_key (\<lambda>(p, sz, t). t) files)) fs)"

definition kv_path :: "kv_disk_options \<Rightarrow> string \<Rightarrow> string" where
  "kv_path opt name = kd_dir opt @ ''/'' @ session_file_name name"

text \<open>The old file goes before the new one is renamed; a file that cannot be renamed is removed.\<close>

definition save_parked_context :: "kv_os \<Rightarrow> kv_disk_options \<Rightarrow> string \<Rightarrow> parked_context \<Rightarrow> kv_files \<Rightarrow> unit result \<times> kv_files" where
  "save_parked_context os opt name p fs =
     (if kd_dir opt = [] then (Inl InvalidArgument, fs)
      else if \<not> ko_mkdir os then (Inl Io, fs)
      else let path = kv_path opt name; tmp = path @ ''.tmp'' in
        if \<not> ko_open os then (Inl Io, fs)
        else if \<not> ko_write os then (Inl Io, fs(tmp := None))
        else if \<not> ko_rename os then (Inl Io, fs(path := None, tmp := None))
        else (Inr (), enforce_disk_budget os opt (fs(tmp := None, path \<mapsto> kv_file_bytes (fnv1a_tag (kd_model_tag opt)) p))))"

definition load_parked_context :: "kv_disk_options \<Rightarrow> string \<Rightarrow> kv_files \<Rightarrow> parked_context result" where
  "load_parked_context opt name fs =
     (if kd_dir opt = [] then Inl InvalidArgument
      else case fs (kv_path opt name) of
        None \<Rightarrow> Inl NotFound
      | Some bs \<Rightarrow> kv_file_context (kd_model_tag opt) bs)"

definition drop_parked_context :: "kv_disk_options \<Rightarrow> string \<Rightarrow> kv_files \<Rightarrow> bool \<times> kv_files" where
  "drop_parked_context opt name fs =
     (if kd_dir opt = [] then (False, fs) else (fs (kv_path opt name) \<noteq> None, fs(kv_path opt name := None)))"

section \<open>Codecs of streams\<close>

text \<open>
  A writer and a reader: in front of any bytes, what was written is read back and the bytes are left; and
  whatever is read, its bytes are the ones the writer gives.
\<close>

locale stream_codec =
  fixes ok :: "'a \<Rightarrow> bool" and enc :: "'a \<Rightarrow> u8 list" and rd :: "'a reader"
  assumes rd_enc: "ok x \<Longrightarrow> rd (enc x @ r) = Some (x, r)"
    and rd_Some: "rd bs = Some (x, r) \<Longrightarrow> ok x \<and> bs = enc x @ r"
begin

text \<open>A proper beginning of what was written is refused.\<close>

lemma rd_prefix:
  assumes "ok x" "enc x = bs @ r" "r \<noteq> []"
  shows "rd bs = None"
proof (cases "rd bs")
  case (Some y)
  then obtain z t where y: "rd bs = Some (z, t)" by (cases y) auto
  then have z: "ok z" "bs = enc z @ t" using rd_Some by auto
  have "rd (enc x) = Some (z, t @ r)" using rd_enc [OF z(1), of "t @ r"] assms(2) z(2) by simp
  moreover have "rd (enc x) = Some (x, [])" using rd_enc [OF assms(1), of "[]"] by simp
  ultimately show ?thesis using assms(3) by simp
qed

lemma many:
  "list_all ok xs \<Longrightarrow> rd_many rd (length xs) (concat (map enc xs) @ r) = Some (xs, r)"
  by (induction xs) (simp_all add: rd_enc)

lemma many_Some:
  "rd_many rd n bs = Some (xs, r) \<Longrightarrow> length xs = n \<and> list_all ok xs \<and> bs = concat (map enc xs) @ r"
proof (induction n arbitrary: bs xs)
  case (Suc n)
  then obtain x bs' xs' where "rd bs = Some (x, bs')" "rd_many rd n bs' = Some (xs', r)" "xs = x # xs'"
    by (auto simp: bind_eq_Some_conv split: prod.splits)
  then show ?case using Suc.IH rd_Some by fastforce
qed simp

end

lemma rd_bytes_append [simp]: "length bs = n \<Longrightarrow> rd_bytes n (bs @ r) = Some (bs, r)"
  by (simp add: rd_bytes_def)

lemma rd_bytes_Some: "rd_bytes n bs = Some (b, r) \<Longrightarrow> bs = b @ r \<and> length b = n"
  by (auto simp: rd_bytes_def split: if_splits)

interpretation le1: fixed_codec 1 "le_bytes 1 :: u8 \<Rightarrow> u8 list" of_le
  by (rule le_codec) simp

text \<open>A number of 32 bits.\<close>

lemma unat_u32: "unat (w :: u32) < 2 ^ 32"
proof -
  have "unat w < 2 ^ LENGTH(32)" by (rule unsigned_less)
  then show ?thesis by simp
qed

interpretation word32: stream_codec "\<lambda>n. n < 2 ^ 32" wr_u32 rd_u32
proof
  show "rd_u32 (wr_u32 x @ r) = Some (x, r)" if "x < 2 ^ 32" for x r
    using that by (simp add: rd_u32_def wr_u32_def le4.enc_length le4.dec_enc unat_of_nat)
  show "x < 2 ^ 32 \<and> bs = wr_u32 x @ r" if rd: "rd_u32 bs = Some (x, r)" for bs x r
  proof -
    obtain b where b: "rd_bytes 4 bs = Some (b, r)" "x = unat (of_le b :: u32)"
      using rd by (auto simp: rd_u32_def bind_eq_Some_conv split: prod.splits)
    then show ?thesis using rd_bytes_Some [OF b(1)] unat_u32 [of "of_le b"] by (simp add: wr_u32_def le4.enc_dec)
  qed
qed

interpretation word64: stream_codec "\<lambda>_. True" wr_u64 rd_u64
proof
  show "rd_u64 (wr_u64 x @ r) = Some (x, r)" for x r by (simp add: rd_u64_def wr_u64_def le8.enc_length le8.dec_enc)
  show "True \<and> bs = wr_u64 x @ r" if "rd_u64 bs = Some (x, r)" for bs x r
    using that rd_bytes_Some by (auto simp: rd_u64_def wr_u64_def bind_eq_Some_conv le8.enc_dec split: prod.splits)
qed

text \<open>A vector: its size in bytes, then its elements.\<close>

lemma vec_codec:
  assumes "fixed_codec w (enc :: 'a \<Rightarrow> u8 list) dec" "0 < w"
  shows "stream_codec (\<lambda>v. length v * w \<le> kKvVectorCap) (wr_vec w enc) (rd_vec w dec kKvVectorCap)"
proof
  note c = fixed_codec.length_encode_list [OF assms(1)] fixed_codec.decode_encode_list [OF assms(1)] fixed_codec.encode_decode_list [OF assms(1)]
  show "rd_vec w dec kKvVectorCap (wr_vec w enc v @ r) = Some (v, r)" if "length v * w \<le> kKvVectorCap" for v r
  proof -
    have "length v * w < 2 ^ 64" using that by (simp add: kKvVectorCap_def)
    then have n: "unat (of_nat (length v * w) :: u64) = length v * w" by (simp add: unat_of_nat del: of_nat_mult)
    have l: "length (encode_list enc v) = length v * w" by (simp add: c(1) mult.commute)
    show ?thesis
    proof (cases v)
      case Nil
      then show ?thesis by (simp add: rd_vec_def wr_vec_def word64.rd_enc encode_list_def Let_def)
    next
      case (Cons x xs)
      then have "length v * w div w \<noteq> 0" using assms(2) by simp
      then show ?thesis using that n l assms(2) c(2) [of v "[]"]
        by (simp add: rd_vec_def wr_vec_def word64.rd_enc Let_def del: of_nat_mult)
    qed
  qed
  show "length v * w \<le> kKvVectorCap \<and> bs = wr_vec w enc v @ r" if rd: "rd_vec w dec kKvVectorCap bs = Some (v, r)" for bs v r
  proof -
    obtain b bs1 where b: "rd_u64 bs = Some (b, bs1)" "unat b \<le> kKvVectorCap" "unat b mod w = 0"
      and v: "unat b div w = 0 \<and> v = [] \<and> r = bs1 \<or> (\<exists>e. rd_bytes (unat b) bs1 = Some (e, r) \<and> v = decode_list w dec (unat b div w) e)"
      using rd by (auto simp: rd_vec_def bind_eq_Some_conv Let_def split: prod.splits if_splits)
    have bw: "unat b = unat b div w * w" using b(3) by (metis add.right_neutral div_mult_mod_eq)
    have "bs = wr_u64 b @ bs1" using word64.rd_Some [OF b(1)] by simp
    from v show ?thesis
    proof
      assume n: "unat b div w = 0 \<and> v = [] \<and> r = bs1"
      then have "b = 0" using bw by (simp add: unat_eq_zero)
      then show ?thesis using n \<open>bs = wr_u64 b @ bs1\<close> by (simp add: wr_vec_def encode_list_def)
    next
      assume "\<exists>e. rd_bytes (unat b) bs1 = Some (e, r) \<and> v = decode_list w dec (unat b div w) e"
      then obtain e where e: "rd_bytes (unat b) bs1 = Some (e, r)" "v = decode_list w dec (unat b div w) e" by blast
      have "bs1 = e @ r" "length e = unat b" using rd_bytes_Some [OF e(1)] by simp_all
      moreover have "length v = unat b div w" by (simp add: e(2) decode_list_def)
      moreover have "encode_list enc v = e" using c(3) [of "unat b div w" e] bw \<open>length e = unat b\<close> by (simp add: e(2) mult.commute)
      moreover have "of_nat (length v * w) = b" using \<open>length v = unat b div w\<close> bw by (metis of_nat_unat ucast_id)
      ultimately show ?thesis using b(2) bw \<open>bs = wr_u64 b @ bs1\<close> by (simp add: wr_vec_def)
    qed
  qed
qed

interpretation bytes: stream_codec "\<lambda>v. length v \<le> kKvVectorCap" wr_u8s rd_u8s
  using vec_codec [OF le1.fixed_codec_axioms] by (simp add: wr_u8s_def rd_u8s_def)

interpretation halves: stream_codec "\<lambda>v. length v * 2 \<le> kKvVectorCap" "wr_vec 2 (le_bytes 2 :: u16 \<Rightarrow> u8 list)" "rd_vec 2 of_le kKvVectorCap"
  by (rule vec_codec [OF le2.fixed_codec_axioms]) simp

interpretation words: stream_codec "\<lambda>v. length v * 4 \<le> kKvVectorCap" "wr_vec 4 (le_bytes 4 :: u32 \<Rightarrow> u8 list)" "rd_vec 4 of_le kKvVectorCap"
  by (rule vec_codec [OF le4.fixed_codec_axioms]) simp

text \<open>A vector of numbers below \<open>2\<^sup>3\<^sup>2\<close>.\<close>

lemma wr_nats: "wr_vec 4 wr_u32 v = wr_vec 4 (le_bytes 4) (map of_nat v :: u32 list)"
  by (simp add: wr_vec_def encode_list_def wr_u32_def [abs_def] comp_def)

lemma rd_nats: "rd_vec 4 (\<lambda>b. unat (of_le b :: u32)) cap bs = map_option (map_prod (map unat) id) (rd_vec 4 (of_le :: u8 list \<Rightarrow> u32) cap bs)"
proof (cases "rd_u64 bs")
  case (Some x)
  obtain b bs1 where x: "x = (b, bs1)" by (cases x)
  show ?thesis
  proof (cases "rd_bytes (unat b) bs1")
    case (Some y)
    then show ?thesis using \<open>rd_u64 bs = Some x\<close> x by (cases y) (simp add: rd_vec_def Let_def decode_list_def comp_def)
  qed (use \<open>rd_u64 bs = Some x\<close> x in \<open>simp add: rd_vec_def Let_def\<close>)
qed (simp add: rd_vec_def)

interpretation nats: stream_codec "\<lambda>v. length v * 4 \<le> kKvVectorCap \<and> list_all (\<lambda>n. n < 2 ^ 32) v" "wr_vec 4 wr_u32"
  "rd_vec 4 (\<lambda>b. unat (of_le b :: u32)) kKvVectorCap"
proof
  fix v :: "nat list" and r assume v: "length v * 4 \<le> kKvVectorCap \<and> list_all (\<lambda>n. n < 2 ^ 32) v"
  have "map (unat \<circ> (of_nat :: nat \<Rightarrow> u32)) v = v" using v by (intro map_idI) (auto simp: list_all_iff unat_of_nat)
  then show "rd_vec 4 (\<lambda>b. unat (of_le b :: u32)) kKvVectorCap (wr_vec 4 wr_u32 v @ r) = Some (v, r)"
    using v by (simp add: rd_nats wr_nats words.rd_enc)
next
  fix bs v r assume "rd_vec 4 (\<lambda>b. unat (of_le b :: u32)) kKvVectorCap bs = Some (v, r)"
  then obtain u :: "u32 list" where u: "rd_vec 4 of_le kKvVectorCap bs = Some (u, r)" "v = map unat u" by (auto simp: rd_nats)
  have "map (of_nat \<circ> unat) u = u" by (intro map_idI) simp
  then show "(length v * 4 \<le> kKvVectorCap \<and> list_all (\<lambda>n. n < 2 ^ 32) v) \<and> bs = wr_vec 4 wr_u32 v @ r"
    using words.rd_Some [OF u(1)] u(2) unat_u32 by (simp add: wr_nats list_all_iff)
qed

section \<open>Planes and contexts\<close>

definition packed_plane_ok :: "kv_packed_plane \<Rightarrow> bool" where
  "packed_plane_ok p \<longleftrightarrow>
     kp_layer p < 2 ^ 32 \<and> kp_ratio p < 2 ^ 32 \<and> kp_rows p < 2 ^ 32
     \<and> length (kp_cmp_fp4 p) \<le> kKvVectorCap \<and> length (kp_cmp_scale p) \<le> kKvVectorCap
     \<and> length (kp_key_fp4 p) \<le> kKvVectorCap \<and> length (kp_key_scale p) \<le> kKvVectorCap
     \<and> (length (kp_raw_rows p) * 4 \<le> kKvVectorCap \<and> list_all (\<lambda>n. n < 2 ^ 32) (kp_raw_rows p))
     \<and> length (kp_raw_cmp p) * 2 \<le> kKvVectorCap \<and> length (kp_raw_key p) * 2 \<le> kKvVectorCap
     \<and> length (kp_carry_kv p) * 4 \<le> kKvVectorCap \<and> length (kp_carry_score p) * 4 \<le> kKvVectorCap"

lemmas codec_reads = word32.rd_enc word64.rd_enc bytes.rd_enc halves.rd_enc words.rd_enc nats.rd_enc

lemmas codec_reads_Some = word32.rd_Some word64.rd_Some bytes.rd_Some halves.rd_Some words.rd_Some nats.rd_Some

interpretation plane: stream_codec packed_plane_ok wr_plane rd_plane
proof
  show "rd_plane (wr_plane p @ r) = Some (p, r)" if "packed_plane_ok p" for p r
    using that unfolding packed_plane_ok_def by (simp add: rd_plane_def wr_plane_def codec_reads)
  show "packed_plane_ok p \<and> bs = wr_plane p @ r" if "rd_plane bs = Some (p, r)" for bs p r
    using that unfolding rd_plane_def packed_plane_ok_def wr_plane_def
    by (auto simp: bind_eq_Some_conv dest!: codec_reads_Some split: prod.splits)
qed

definition context_ok :: "parked_context \<Rightarrow> bool" where
  "context_ok p \<longleftrightarrow>
     length (pc_tokens p) \<le> 2 ^ 24 \<and> pk_positions (pc_kv p) < 2 ^ 32 \<and> length (pk_planes (pc_kv p)) \<le> 64
     \<and> list_all packed_plane_ok (pk_planes (pc_kv p))"

interpretation contexts: stream_codec context_ok wr_context rd_context
proof
  fix p r assume ok: "context_ok p"
  have t: "length (encode_list (le_bytes 4) (pc_tokens p)) = length (pc_tokens p) * 4" by (simp add: le4.length_encode_list mult.commute)
  then show "rd_context (wr_context p @ r) = Some (p, r)"
    using ok le4.decode_encode_list [of "pc_tokens p" "[]"] unfolding context_ok_def
    by (simp add: rd_context_def wr_context_def word32.rd_enc plane.many)
next
  fix bs p r assume "rd_context bs = Some (p, r)"
  then obtain nt bs1 b bs2 pos bs3 k bs4 ps where
    a: "rd_u32 bs = Some (nt, bs1)" "nt \<le> 2 ^ 24" "rd_bytes (nt * 4) bs1 = Some (b, bs2)" "rd_u32 bs2 = Some (pos, bs3)" "rd_u32 bs3 = Some (k, bs4)"
      "k \<le> 64" "rd_many rd_plane k bs4 = Some (ps, r)"
    and p: "p = \<lparr>pc_tokens = decode_list 4 of_le nt b, pc_kv = \<lparr>pk_positions = pos, pk_planes = ps\<rparr>\<rparr>"
    by (auto simp: rd_context_def bind_eq_Some_conv split: prod.splits if_splits)
  have t: "encode_list (le_bytes 4) (decode_list 4 of_le nt b :: u32 list) = b" "length (decode_list 4 of_le nt b :: u32 list) = nt"
    using le4.encode_decode_list [of nt b] rd_bytes_Some [OF a(3)] by (simp_all add: mult.commute decode_list_def)
  show "context_ok p \<and> bs = wr_context p @ r"
    using word32.rd_Some [OF a(1)] word32.rd_Some [OF a(4)] word32.rd_Some [OF a(5)] rd_bytes_Some [OF a(3)] plane.many_Some [OF a(7)] a(2,6) t
    by (simp add: p context_ok_def wr_context_def)
qed

section \<open>Files\<close>

lemma magic_lengths [simp]: "length kKvMagic = 8" "length kKvEnd = 8"
  by (simp_all add: kKvMagic_def kKvEnd_def)

lemma kv_file_context_iff:
  "kv_file_context tag bs = Inr p \<longleftrightarrow>
     context_ok p \<and> (\<exists>fp junk. bs = kv_file_bytes fp p @ junk \<and> (tag = [] \<or> fp = fnv1a_tag tag))"
proof
  assume "kv_file_context tag bs = Inr p"
  then obtain bs1 bs2 bs3 bs4 bs5 fp where
    a: "rd_bytes 8 bs = Some (kKvMagic, bs1)" "rd_u32 bs1 = Some (kKvVersion, bs2)" "rd_u64 bs2 = Some (fp, bs3)"
      "rd_context bs3 = Some (p, bs4)" "rd_bytes 8 bs4 = Some (kKvEnd, bs5)" and t: "tag = [] \<or> fp = fnv1a_tag tag"
    by (auto simp: kv_file_context_def split: option.splits if_splits prod.splits)
  have "bs = kv_file_bytes fp p @ bs5"
    using rd_bytes_Some [OF a(1)] word32.rd_Some [OF a(2)] word64.rd_Some [OF a(3)] contexts.rd_Some [OF a(4)] rd_bytes_Some [OF a(5)]
    by (simp add: kv_file_bytes_def)
  then show "context_ok p \<and> (\<exists>fp junk. bs = kv_file_bytes fp p @ junk \<and> (tag = [] \<or> fp = fnv1a_tag tag))"
    using t contexts.rd_Some [OF a(4)] by blast
next
  assume "context_ok p \<and> (\<exists>fp junk. bs = kv_file_bytes fp p @ junk \<and> (tag = [] \<or> fp = fnv1a_tag tag))"
  then show "kv_file_context tag bs = Inr p"
    by (auto simp: kv_file_context_def kv_file_bytes_def word32.rd_enc word64.rd_enc contexts.rd_enc kKvVersion_def)
qed

lemma kv_file_context_errors: "kv_file_context tag bs = Inl e \<Longrightarrow> e = Corrupt \<or>
    e = NotFound \<and> tag \<noteq> [] \<and> (\<exists>fp r. bs = kKvMagic @ wr_u32 kKvVersion @ wr_u64 fp @ r \<and> fp \<noteq> fnv1a_tag tag)"
  by (auto simp: kv_file_context_def dest!: rd_bytes_Some word32.rd_Some word64.rd_Some split: option.splits if_splits prod.splits)

text \<open>
  C19. What \<^verbatim>\<open>load_parked_context\<close> takes from a file is exactly what \<^verbatim>\<open>save_parked_context\<close> writes: a file is
  accepted if and only if it begins with the bytes the writer gives for a context within the reader's
  limits, of the right model, and then that context is the result; and a file cut short anywhere is
  refused as corrupt.
\<close>

theorem parked_file_exact:
  "(kv_file_context tag bs = Inr p \<longleftrightarrow>
      context_ok p \<and> (\<exists>fp junk. bs = kv_file_bytes fp p @ junk \<and> (tag = [] \<or> fp = fnv1a_tag tag)))
   \<and> (context_ok p \<longrightarrow> kv_file_bytes (fnv1a_tag tag) p = pre @ rest \<longrightarrow> rest \<noteq> [] \<longrightarrow> kv_file_context tag pre = Inl Corrupt)"
proof (intro conjI impI)
  show "kv_file_context tag bs = Inr p \<longleftrightarrow>
      context_ok p \<and> (\<exists>fp junk. bs = kv_file_bytes fp p @ junk \<and> (tag = [] \<or> fp = fnv1a_tag tag))"
    by (rule kv_file_context_iff)
  assume ok: "context_ok p" and cut: "kv_file_bytes (fnv1a_tag tag) p = pre @ rest" and "rest \<noteq> []"
  have full: "kv_file_context tag (pre @ rest) = Inr p"
    unfolding kv_file_context_iff using ok cut [symmetric] by (metis append_Nil2)
  show "kv_file_context tag pre = Inl Corrupt"
  proof (cases "kv_file_context tag pre")
    case (Inr y)
    then obtain fp junk where y: "context_ok y" "pre = kv_file_bytes fp y @ junk" "tag = [] \<or> fp = fnv1a_tag tag"
      unfolding kv_file_context_iff by blast
    have "kv_file_context tag (pre @ rest) = Inr y" unfolding kv_file_context_iff using y by (metis append.assoc)
    then have "y = p" using full by simp
    then have "length (kv_file_bytes (fnv1a_tag tag) p) = length (kv_file_bytes fp p) + length junk + length rest" using y(2) cut by simp
    then show ?thesis using \<open>rest \<noteq> []\<close> by (simp add: kv_file_bytes_def wr_u64_def le8.enc_length)
  next
    case (Inl e)
    have "e \<noteq> NotFound"
    proof
      assume "e = NotFound"
      then obtain fp r where "pre = kKvMagic @ wr_u32 kKvVersion @ wr_u64 fp @ r" "fp \<noteq> fnv1a_tag tag"
        using kv_file_context_errors [OF Inl] by auto
      then have "wr_u64 (fnv1a_tag tag) @ wr_context p @ kKvEnd = wr_u64 fp @ r @ rest" using cut by (simp add: kv_file_bytes_def)
      then have "Some (fnv1a_tag tag, wr_context p @ kKvEnd) = Some (fp, r @ rest)" using word64.rd_enc by metis
      then show False using \<open>fp \<noteq> fnv1a_tag tag\<close> by simp
    qed
    then show ?thesis using kv_file_context_errors [OF Inl] Inl by auto
  qed
qed

theorem parked_file_exact_witness:
  "let p = \<lparr>pc_tokens = [7, 8], pc_kv = \<lparr>pk_positions = 2, pk_planes = []\<rparr>\<rparr>; bs = kv_file_bytes (fnv1a_tag [65]) p in
     kv_file_context [65] bs = Inr p \<and> kv_file_context [65] (butlast bs) = Inl Corrupt"
proof -
  let ?p = "\<lparr>pc_tokens = [7, 8], pc_kv = \<lparr>pk_positions = 2, pk_planes = []\<rparr>\<rparr>" and ?bs = "\<lambda>p. kv_file_bytes (fnv1a_tag [65]) p"
  have ok: "context_ok ?p" by (simp add: context_ok_def)
  have "?bs ?p \<noteq> []" by (simp add: kv_file_bytes_def kKvMagic_def)
  then have "?bs ?p = butlast (?bs ?p) @ [last (?bs ?p)]" by simp
  then have "kv_file_context [65] (butlast (?bs ?p)) = Inl Corrupt" using parked_file_exact ok by blast
  moreover have "kv_file_context [65] (?bs ?p) = Inr ?p" unfolding parked_file_exact [THEN conjunct1] using ok by (metis append_Nil2)
  ultimately show ?thesis by (simp add: Let_def)
qed

section \<open>Saving and loading\<close>

lemma fold_remove: "fold (\<lambda>p fs. fs(p := None)) ps fs x = (if x \<in> set ps then None else fs x)"
  by (induction ps arbitrary: fs) auto

lemma enforce_disk_budget_sub: "enforce_disk_budget os opt fs x = Some bs \<Longrightarrow> fs x = Some bs"
  by (auto simp: enforce_disk_budget_def Let_def fold_remove split: if_splits)

text \<open>
  A context that was saved is loaded back, unless the budget of the directory removed the file at once;
  a save that fails leaves the file of that session as it was, except when the last step, the rename,
  fails: then the old file is gone as well.
\<close>

theorem parked_context_round_trip:
  assumes "context_ok p" "save_parked_context os opt name p fs = (r, fs')"
  shows "(r = Inr () \<longrightarrow> fs' (kv_path opt name) \<noteq> None \<longrightarrow> load_parked_context opt name fs' = Inr p)
    \<and> (r \<noteq> Inr () \<longrightarrow> fs' (kv_path opt name) = (if kd_dir opt \<noteq> [] \<and> ko_mkdir os \<and> ko_open os \<and> ko_write os then None else fs (kv_path opt name)))"
proof -
  let ?path = "kv_path opt name" and ?bs = "kv_file_bytes (fnv1a_tag (kd_model_tag opt)) p"
  have ne: "?path @ ''.tmp'' \<noteq> ?path" by simp
  have "load_parked_context opt name fs' = Inr p" if s0: "r = Inr ()" and s1: "fs' ?path \<noteq> None"
  proof -
    have s: "kd_dir opt \<noteq> []" "fs' = enforce_disk_budget os opt (fs(?path @ ''.tmp'' := None, ?path \<mapsto> ?bs))"
      using assms(2) s0 by (auto simp: save_parked_context_def Let_def split: if_splits)
    obtain bs where bs: "fs' ?path = Some bs" using s1 by auto
    then have "bs = ?bs" using enforce_disk_budget_sub s(2) by fastforce
    moreover have "kv_file_context (kd_model_tag opt) ?bs = Inr p" unfolding kv_file_context_iff using assms(1) by (metis append_Nil2)
    ultimately show ?thesis using s(1) bs by (simp add: load_parked_context_def)
  qed
  moreover have "fs' ?path = (if kd_dir opt \<noteq> [] \<and> ko_mkdir os \<and> ko_open os \<and> ko_write os then None else fs ?path)" if "r \<noteq> Inr ()"
    using assms(2) that ne by (auto simp: save_parked_context_def Let_def split: if_splits)
  ultimately show ?thesis by blast
qed

lemma evict_files_prefix:
  "\<exists>k \<le> length xs. evict_files m (\<lambda>_. True) (\<Sum>(p, sz, t)\<leftarrow>xs. sz) xs = map fst (take k xs)
     \<and> (\<Sum>(p, sz, t)\<leftarrow>drop k xs. sz) \<le> m \<and> (\<forall>j < k. (\<Sum>(p, sz, t)\<leftarrow>drop j xs. sz) > m)"
proof (induction xs)
  case Nil
  show ?case by simp
next
  case (Cons x xs)
  obtain p sz t where x: "x = (p, sz, t)" by (cases x)
  let ?S = "\<lambda>xs :: (string \<times> nat \<times> nat) list. \<Sum>(p, sz, t)\<leftarrow>xs. sz"
  show ?case
  proof (cases "?S (x # xs) \<le> m")
    case True
    then show ?thesis using x by (intro exI [of _ 0]) auto
  next
    case False
    obtain k where k: "k \<le> length xs" "evict_files m (\<lambda>_. True) (?S xs) xs = map fst (take k xs)" "?S (drop k xs) \<le> m" "\<forall>j < k. ?S (drop j xs) > m"
      using Cons.IH by blast
    have "\<forall>j < Suc k. ?S (drop j (x # xs)) > m"
    proof (intro allI impI)
      fix j assume "j < Suc k"
      then show "?S (drop j (x # xs)) > m" using False k(4) by (cases j) auto
    qed
    then show ?thesis using False x k(1-3) by (intro exI [of _ "Suc k"]) auto
  qed
qed

text \<open>
  The budget of the directory: when files can be removed, it keeps the newest parked files, as many as
  fit. What it removes are the oldest ones, up to the first point at which the rest fits the budget;
  without a budget it removes nothing.
\<close>

theorem disk_budget_keeps_newest:
  assumes "kd_max_bytes opt \<noteq> 0" "ko_removes os = (\<lambda>_. True)"
  defines "files \<equiv> sort_key (\<lambda>(p, sz, t). t) (kv_listing (ko_listing os))"
  shows "\<exists>k \<le> length files.
     enforce_disk_budget os opt fs = (\<lambda>x. if x \<in> set (map fst (take k files)) then None else fs x)
     \<and> (\<Sum>(p, sz, t)\<leftarrow>drop k files. sz) \<le> kd_max_bytes opt \<and> (\<forall>j < k. (\<Sum>(p, sz, t)\<leftarrow>drop j files. sz) > kd_max_bytes opt)
     \<and> (\<forall>(p, sz, t) \<in> set (take k files). \<forall>(p', sz', t') \<in> set (drop k files). t \<le> t')"
proof -
  let ?S = "\<lambda>xs :: (string \<times> nat \<times> nat) list. \<Sum>(p, sz, t)\<leftarrow>xs. sz"
  have "mset files = mset (kv_listing (ko_listing os))" by (simp add: files_def)
  then have tot: "?S (kv_listing (ko_listing os)) = ?S files" by (metis mset_map sum_mset_sum_list)
  have sorted: "sorted (map (\<lambda>(p, sz, t). t) files)" by (simp add: files_def)
  have older: "\<forall>(p, sz, t) \<in> set (take k files). \<forall>(p', sz', t') \<in> set (drop k files). t \<le> t'" for k
  proof -
    have "sorted (map (\<lambda>(p, sz, t). t) (take k files) @ map (\<lambda>(p, sz, t). t) (drop k files))" using sorted by (simp add: map_append [symmetric] del: map_append)
    then show ?thesis by (fastforce simp: sorted_append)
  qed
  obtain k where k: "k \<le> length files" "evict_files (kd_max_bytes opt) (\<lambda>_. True) (?S files) files = map fst (take k files)"
     "?S (drop k files) \<le> kd_max_bytes opt" "\<forall>j < k. ?S (drop j files) > kd_max_bytes opt"
    using evict_files_prefix by blast
  have "enforce_disk_budget os opt fs = (\<lambda>x. if x \<in> set (map fst (take k files)) then None else fs x)"
  proof (cases "?S files \<le> kd_max_bytes opt")
    case True
    then have "k = 0" using k(4) by (cases k) auto
    then show ?thesis using True tot assms(1) by (simp add: enforce_disk_budget_def Let_def)
  next
    case False
    then have "enforce_disk_budget os opt fs = fold (\<lambda>p fs. fs(p := None)) (map fst (take k files)) fs"
      using assms(1) k(2) tot unfolding enforce_disk_budget_def assms(2) files_def [symmetric] Let_def by simp
    then show ?thesis by (simp add: fold_remove fun_eq_iff)
  qed
  then show ?thesis using k older by blast
qed

end
