(* ===== verification/Session_Stream.thy ===== *)
theory Session_Stream
  imports Kv_Disk
begin

text \<open>
  What a conversation keeps in the engine and how it is rewound: the stream's history, its key-value store
  and the copies of the prompt's window (\<^verbatim>\<open>runtime/engine.cpp\<close>), and the replay of the window, the rollback,
  the parking and the restoring of a context (\<^verbatim>\<open>runtime/session.cpp\<close>). One decode step, which runs on the
  GPU, is a parameter, and so is the allocator.
\<close>

section \<open>The engine's stream\<close>

definition kMaxIndexPositions :: nat where "kMaxIndexPositions = 1048576"
definition kSlidingWindow :: nat where "kSlidingWindow = 128"
definition kDsparkCaptureWidth :: nat where "kDsparkCaptureWidth = 3 * 5120"

record step_result =
  dr_token :: u32
  dr_position :: nat
  dr_sampled :: bool
  dr_topk_fallback :: bool
  dr_topk_checked :: bool
  dr_topk_mismatch :: bool
  dr_nucleus_size :: nat
  dr_requests :: nat
  dr_hits :: nat
  dr_miss_bytes :: nat

definition empty_result :: step_result where
  "empty_result = \<lparr>dr_token = 0, dr_position = 0, dr_sampled = False, dr_topk_fallback = False, dr_topk_checked = False,
     dr_topk_mismatch = False, dr_nucleus_size = 0, dr_requests = 0, dr_hits = 0, dr_miss_bytes = 0\<rparr>"

record engine =
  en_gpu_ready :: bool
  en_produce_ced :: bool
  en_greedy :: bool
  en_kvs :: kv_store
  en_history :: "u32 list"
  en_draft_hidden :: "f32 list"
  en_draft_position :: "int list"
  en_draft_mask :: "u8 list"
  en_prompt_draft_hidden :: "f32 list"
  en_prompt_draft_position :: "int list"
  en_prompt_draft_mask :: "u8 list"
  en_prompt_tokens :: "u32 list"
  en_prompt_carry :: row_backup
  en_prompt_first :: "step_result option"
  en_prefill_loaded :: bool
  en_sample_step :: bool

text \<open>What the stream's operations get from outside.\<close>

record engine_ops =
  eo_alloc :: allocator
  eo_step :: "u32 \<Rightarrow> nat \<Rightarrow> engine \<Rightarrow> step_result result \<times> engine"

definition context_length :: "engine \<Rightarrow> nat" where "context_length e = length (en_history e)"

definition max_context :: "engine \<Rightarrow> nat" where
  "max_context e = min (kc_max_context (ks_cfg (en_kvs e))) kMaxIndexPositions"

definition set_context_tokens :: "u32 list \<Rightarrow> engine \<Rightarrow> unit result \<times> engine" where
  "set_context_tokens tokens e =
     (if \<not> en_gpu_ready e then (Inl FailedPrecondition, e)
      else if length tokens > max_context e then (Inl ResourceExhausted, e)
      else let common = common_context_prefix tokens (en_history e) in
        (Inr (), e\<lparr>en_kvs := truncate_prompt_ring common (en_kvs e),
                   en_prompt_first := (if common < length (en_prompt_tokens e) then None else en_prompt_first e),
                   en_prompt_draft_position := map (\<lambda>p. if p \<ge> int common then -1 else p) (en_prompt_draft_position e),
                   en_history := tokens\<rparr>))"

definition reset_context :: "engine \<Rightarrow> engine" where
  "reset_context e = e\<lparr>en_prompt_draft_hidden := [], en_prompt_first := None, en_kvs := clear (en_kvs e), en_history := [],
     en_draft_hidden := [], en_draft_position := replicate kSlidingWindow (-1), en_draft_mask := replicate kSlidingWindow 0,
     en_prefill_loaded := False\<rparr>"

fun feed_loop :: "engine_ops \<Rightarrow> u32 list \<Rightarrow> nat \<Rightarrow> (nat \<times> nat \<times> nat) \<Rightarrow> step_result \<Rightarrow> engine
    \<Rightarrow> step_result result \<times> (nat \<times> nat \<times> nat) \<times> engine" where
  "feed_loop ops [] pos acc res e = (Inr res, acc, e)"
| "feed_loop ops (t # ts) pos (req, hit, bytes) res e =
     (case eo_step ops t pos (e\<lparr>en_sample_step := (ts = [])\<rparr>) of
        (Inl x, e) \<Rightarrow> (Inl x, (req, hit, bytes), e\<lparr>en_sample_step := False\<rparr>)
      | (Inr r, e) \<Rightarrow> feed_loop ops ts (pos + 1) (req + dr_requests r, hit + dr_hits r, bytes + dr_miss_bytes r) r (e\<lparr>en_sample_step := False\<rparr>))"

text \<open>The sums are what the callback of \<^verbatim>\<open>turn_prepare\<close> adds up: requests, hits and missed bytes of the steps.\<close>

definition feed :: "engine_ops \<Rightarrow> u32 list \<Rightarrow> engine \<Rightarrow> step_result result \<times> (nat \<times> nat \<times> nat) \<times> engine" where
  "feed ops tokens e =
     (if \<not> en_gpu_ready e then (Inl FailedPrecondition, (0, 0, 0), e)
      else if \<not> en_produce_ced e then (Inl FailedPrecondition, (0, 0, 0), e)
      else if tokens = [] then (Inl InvalidArgument, (0, 0, 0), e)
      else if context_length e + length tokens > max_context e then (Inl ResourceExhausted, (0, 0, 0), e)
      else feed_loop ops tokens (context_length e) (0, 0, 0) empty_result e)"

section \<open>The retained prompt\<close>

definition retain_prompt_state :: "step_result option \<Rightarrow> engine \<Rightarrow> unit result \<times> engine" where
  "retain_prompt_state fst_step e0 =
     (let e = e0\<lparr>en_prompt_first := None\<rparr>; n = context_length e in
      case fst_step of
        None \<Rightarrow> (Inr (), e)
      | Some r \<Rightarrow>
          if \<not> en_greedy e \<or> n > 8192 then (Inr (), e)
          else (case backup_rows n n (en_kvs e) of
            Inl x \<Rightarrow> (Inl x, e)
          | Inr carry \<Rightarrow>
              (case retain_prompt_ring n (en_kvs e) of
                 (Inl x, st) \<Rightarrow> (Inl x, e\<lparr>en_kvs := st\<rparr>)
               | (Inr _, st) \<Rightarrow>
                   (Inr (), e\<lparr>en_kvs := st, en_prompt_draft_hidden := en_draft_hidden e,
                       en_prompt_draft_position := en_draft_position e, en_prompt_draft_mask := en_draft_mask e,
                       en_prompt_carry := carry, en_prompt_tokens := en_history e, en_prompt_first := Some r\<rparr>))))"

definition recover_draft_slot :: "nat \<Rightarrow> nat \<Rightarrow> nat \<Rightarrow> engine \<Rightarrow> engine" where
  "recover_draft_slot lo keep s e =
     (let p = en_prompt_draft_position e ! s in
      if p < int lo \<or> p \<ge> int keep then e
      else e\<lparr>en_draft_hidden := put_row kDsparkCaptureWidth s (row_at (en_prompt_draft_hidden e) kDsparkCaptureWidth s) (en_draft_hidden e),
             en_draft_position := (en_draft_position e)[s := p],
             en_draft_mask := (en_draft_mask e)[s := en_prompt_draft_mask e ! s]\<rparr>)"

definition recover_prompt_state :: "nat \<Rightarrow> engine \<Rightarrow> nat \<times> engine" where
  "recover_prompt_state keep e0 =
     (let e = (if en_prompt_draft_hidden e0 = [] then e0
               else fold (recover_draft_slot (if keep \<ge> kSlidingWindow then keep - kSlidingWindow else 0) keep) [0..<kSlidingWindow] e0)
      in case recover_prompt_ring keep (en_kvs e) of (n, st) \<Rightarrow> (n, e\<lparr>en_kvs := st\<rparr>))"

definition reuse_prompt :: "bool \<Rightarrow> u32 list \<Rightarrow> engine \<Rightarrow> step_result option result \<times> engine" where
  "reuse_prompt greedy tokens e0 =
     (case en_prompt_first e0 of
        None \<Rightarrow> (Inr None, e0)
      | Some r \<Rightarrow>
          if \<not> greedy \<or> \<not> has_prompt_ring (en_kvs e0) \<or> length tokens \<noteq> length (en_prompt_tokens e0)
             \<or> length tokens > length (en_history e0) \<or> tokens \<noteq> en_prompt_tokens e0 \<or> tokens \<noteq> take (length tokens) (en_history e0)
          then (Inr None, e0)
          else let e = snd (recover_prompt_state (length tokens) e0) in
            case restore_carry (en_prompt_carry e) (en_kvs e) of
              (Inl x, st) \<Rightarrow> (Inl x, e\<lparr>en_kvs := st\<rparr>)
            | (Inr _, st) \<Rightarrow>
                (case set_context_tokens tokens (e\<lparr>en_kvs := st\<rparr>) of
                   (Inl x, e) \<Rightarrow> (Inl x, e)
                 | (Inr _, e) \<Rightarrow> (Inr (Some r), e)))"

section \<open>Replaying the window\<close>

record replay_plan =
  rp_keep :: nat
  rp_first :: nat
  rp_end :: nat

definition plan_steps :: "replay_plan \<Rightarrow> nat" where
  "plan_steps p = (if rp_end p > rp_first p then rp_end p - rp_first p else 0)"

record replay_stats =
  rt_plan :: replay_plan
  rt_dropped :: nat
  rt_backup_bytes :: nat
  rt_cold_fallback :: bool
  rt_cold_reason :: "err option"

definition no_plan :: "nat \<Rightarrow> replay_plan" where "no_plan k = \<lparr>rp_keep = k, rp_first = 0, rp_end = 0\<rparr>"

definition stats_of :: "replay_plan \<Rightarrow> replay_stats" where
  "stats_of p = \<lparr>rt_plan = p, rt_dropped = 0, rt_backup_bytes = 0, rt_cold_fallback = False, rt_cold_reason = None\<rparr>"

text \<open>The positions before \<open>k\<close> that a step at \<open>k\<close> reads and the ring does not hold.\<close>

definition need_lo :: "kv_store \<Rightarrow> nat \<Rightarrow> nat" where
  "need_lo st k = (let w = kc_window (ks_cfg st) in if k > w - 1 then k - (w - 1) else 0)"

definition missing_positions :: "kv_store \<Rightarrow> nat \<Rightarrow> nat list" where
  "missing_positions st k = filter (\<lambda>x. \<not> ring_holds st x) [need_lo st k..<k]"

definition plan_ring :: "kv_store \<Rightarrow> nat \<Rightarrow> nat \<Rightarrow> replay_plan" where
  "plan_ring st k replay_max =
     (if k = 0 then no_plan k
      else let missing = missing_positions st k in
        if missing = [] then no_plan k
        else let lo = hd missing; e = last missing + 1;
                 r = max 1 (min replay_max (kc_window (ks_cfg st)));
                 first = (if e - lo > r then e - r else lo)
             in \<lparr>rp_keep = k, rp_first = (if odd first then first - 1 else first), rp_end = e\<rparr>)"

fun replay_loop :: "engine_ops \<Rightarrow> u32 list \<Rightarrow> row_backup \<Rightarrow> nat list \<Rightarrow> engine \<Rightarrow> unit result \<times> engine" where
  "replay_loop ops hist b [] e = (Inr (), e)"
| "replay_loop ops hist b (q # qs) e =
     (case eo_step ops (hist ! q) q e of
        (Inl x, e) \<Rightarrow> (Inl x, e)
      | (Inr _, e) \<Rightarrow>
          (case restore_rows b q (en_kvs e) of
             (Inl x, st) \<Rightarrow> (Inl x, e\<lparr>en_kvs := st\<rparr>)
           | (Inr _, st) \<Rightarrow> replay_loop ops hist b qs (e\<lparr>en_kvs := st\<rparr>)))"

definition run_replay :: "engine_ops \<Rightarrow> replay_plan \<Rightarrow> engine \<Rightarrow> replay_stats result \<times> engine" where
  "run_replay ops plan e =
     (if plan_steps plan = 0 then (Inr (stats_of plan), e)
      else case backup_rows (rp_first plan) (rp_end plan) (en_kvs e) of
        Inl x \<Rightarrow> (Inl x, e)
      | Inr b \<Rightarrow>
          (case replay_loop ops (en_history e) b [rp_first plan..<rp_end plan]
                  (e\<lparr>en_kvs := set_window_floor (rp_first plan) (en_kvs e)\<rparr>) of
             (Inl x, e) \<Rightarrow> (Inl x, e)
           | (Inr _, e) \<Rightarrow>
               (case restore_carry b (en_kvs e) of
                  (Inl x, st) \<Rightarrow> (Inl x, e\<lparr>en_kvs := st\<rparr>)
                | (Inr _, st) \<Rightarrow> (Inr ((stats_of plan)\<lparr>rt_backup_bytes := row_backup_bytes b\<rparr>), e\<lparr>en_kvs := st\<rparr>))))"

section \<open>Rolling back, parking, restoring\<close>

definition plan_rollback :: "nat \<Rightarrow> nat \<Rightarrow> engine \<Rightarrow> replay_plan \<times> engine" where
  "plan_rollback keep replay_max e =
     (let e = e\<lparr>en_kvs := resolve_ring (context_length e) (en_kvs e)\<rparr> in (plan_ring (en_kvs e) keep replay_max, e))"

definition rollback_context :: "engine_ops \<Rightarrow> nat \<Rightarrow> nat \<Rightarrow> engine \<Rightarrow> replay_stats result \<times> engine" where
  "rollback_context ops keep replay_max e =
     (let n = context_length e in
      if keep > n then (Inl InvalidArgument, e)
      else if odd keep then (Inl InvalidArgument, e)
      else if keep = n then (Inr (stats_of (no_plan keep)), e)
      else case plan_rollback keep replay_max e of (plan, e) \<Rightarrow>
        (case set_context_tokens (take keep (en_history e)) e of
           (Inl x, e) \<Rightarrow> (Inl x, e)
         | (Inr _, e) \<Rightarrow>
             (case run_replay ops plan e of
                (Inl x, e) \<Rightarrow> (Inl x, e)
              | (Inr st, e) \<Rightarrow> (Inr (st\<lparr>rt_dropped := n - keep\<rparr>), e))))"

definition park_context :: "engine \<Rightarrow> parked_context result" where
  "park_context e =
     (case kv_pack (context_length e) (en_kvs e) of
        Inl x \<Rightarrow> Inl x
      | Inr kv \<Rightarrow> Inr \<lparr>pc_tokens = en_history e, pc_kv = kv\<rparr>)"

definition restore_context :: "engine_ops \<Rightarrow> parked_context \<Rightarrow> nat \<Rightarrow> engine \<Rightarrow> replay_stats result \<times> engine" where
  "restore_context ops p replay_max e =
     (if pk_positions (pc_kv p) \<noteq> length (pc_tokens p) then (Inl InvalidArgument, e)
      else let e = reset_context e in
        if pc_tokens p = [] then (Inr (stats_of (no_plan 0)), e)
        else case kv_unpack (eo_alloc ops) (pc_kv p) (en_kvs e) of
          (Inl x, st) \<Rightarrow> (Inl x, e\<lparr>en_kvs := st\<rparr>)
        | (Inr _, st) \<Rightarrow>
            (case set_context_tokens (pc_tokens p) (e\<lparr>en_kvs := st\<rparr>) of
               (Inl x, e) \<Rightarrow> (Inl x, e)
             | (Inr _, e) \<Rightarrow> run_replay ops (plan_ring (en_kvs e) (length (pc_tokens p)) replay_max) e))"

definition restore_or_cold :: "(engine \<Rightarrow> replay_stats result \<times> engine) \<Rightarrow> (engine \<Rightarrow> engine) \<Rightarrow> engine \<Rightarrow> replay_stats \<times> engine" where
  "restore_or_cold restore cold e =
     (case restore e of
        (Inr st, e) \<Rightarrow> (st, e)
      | (Inl x, e) \<Rightarrow> ((stats_of (no_plan 0))\<lparr>rt_cold_fallback := True, rt_cold_reason := Some x\<rparr>, cold e))"

end
