(* ===== verification/Kv_Memory.thy ===== *)
theory Kv_Memory
  imports Kv_Context
begin

text \<open>
  What the layout of the KV store promises, and the memory seen through it. The regions are disjoint
  and each lies in one slab, so that the slabs behave like one flat memory as long as a region is not
  left: the locale \<open>byte_memory\<close>, with the buffers under a layout and the store itself as
  instances.
\<close>

section \<open>A flat memory\<close>

locale byte_memory =
  fixes byte_at :: "'s \<Rightarrow> nat \<Rightarrow> u8" and wr :: "nat \<Rightarrow> u8 list \<Rightarrow> 's \<Rightarrow> 's" and ok :: "'s \<Rightarrow> nat \<Rightarrow> nat \<Rightarrow> bool"
  assumes byte_wr: "ok s a (length bs) \<Longrightarrow>
      byte_at (wr a bs s) x = (if a \<le> x \<and> x < a + length bs then bs ! (x - a) else byte_at s x)"
    and ok_wr: "ok (wr a bs s) b n = ok s b n"
    and ok_sub: "ok s a n \<Longrightarrow> b + m \<le> n \<Longrightarrow> ok s (a + b) m"
begin

lemma ok_fold: "ok (fold (\<lambda>(a, bs). wr a bs) ws s) b n = ok s b n"
  by (induction ws arbitrary: s) (simp_all add: ok_wr split_beta)

lemma fold_other:
  "(\<And>a bs. (a, bs) \<in> set ws \<Longrightarrow> ok s a (length bs) \<and> \<not> (a \<le> x \<and> x < a + length bs)) \<Longrightarrow>
     byte_at (fold (\<lambda>(a, bs). wr a bs) ws s) x = byte_at s x"
proof (induction ws arbitrary: s)
  case (Cons w ws)
  obtain a bs where w: "w = (a, bs)" by (cases w)
  have "byte_at (wr a bs s) x = byte_at s x" using Cons.prems [of a bs] w by (auto simp: byte_wr)
  then show ?case using Cons.IH [of "wr a bs s"] Cons.prems w by (simp add: ok_wr)
qed simp

text \<open>Writes to ranges that do not overlap: each of them is found where it was put.\<close>

lemma fold_hit:
  assumes "\<And>a bs. (a, bs) \<in> set ws \<Longrightarrow> ok s a (length bs)"
    and "sorted_wrt (\<lambda>(a, bs) (b, cs). a + length bs \<le> b \<or> b + length cs \<le> a) ws"
    and "(a, bs) \<in> set ws" "j < length bs"
  shows "byte_at (fold (\<lambda>(a, bs). wr a bs) ws s) (a + j) = bs ! j"
  using assms
proof (induction ws arbitrary: s)
  case (Cons w ws)
  obtain b cs where w: "w = (b, cs)" by (cases w)
  show ?case
  proof (cases "(a, bs) = w")
    case True
    have "byte_at (fold (\<lambda>(a, bs). wr a bs) ws (wr a bs s)) (a + j) = byte_at (wr a bs s) (a + j)"
      by (rule fold_other) (use Cons.prems True in \<open>auto simp: ok_wr\<close>)
    then show ?thesis using True [symmetric] Cons.prems by (simp add: byte_wr)
  next
    case False
    then have "(a, bs) \<in> set ws" using Cons.prems(3) w by auto
    then show ?thesis using Cons.IH [of "wr b cs s"] Cons.prems w by (simp add: ok_wr)
  qed
qed simp

lemma read_wr_same: "ok s a (length bs) \<Longrightarrow> map (byte_at (wr a bs s)) [a..<a + length bs] = bs"
  by (rule nth_equalityI) (simp_all add: byte_wr)

lemma read_wr_other:
  "ok s a (length bs) \<Longrightarrow> b + n \<le> a \<or> a + length bs \<le> b \<Longrightarrow> map (byte_at (wr a bs s)) [b..<b + n] = map (byte_at s) [b..<b + n]"
  by (rule nth_equalityI) (auto simp: byte_wr)

end

section \<open>Slabs\<close>

lemma align_to_bounds: "0 < a \<Longrightarrow> v \<le> align_to v a \<and> align_to v a < v + a"
proof -
  assume "0 < a"
  then have "align_to v a + (v + a - 1) mod a = v + a - 1" by (simp add: align_to_def)
  moreover have "(v + a - 1) mod a < a" using \<open>0 < a\<close> by simp
  ultimately show ?thesis using \<open>0 < a\<close> by linarith
qed

lemma align_to_dvd [simp]: "a dvd align_to v a"
  by (simp add: align_to_def)

lemma align_to_mono: "v \<le> w \<Longrightarrow> align_to v a \<le> align_to w a"
  by (simp add: align_to_def div_le_mono mult_le_mono1)

lemma align_to_least: "a dvd w \<Longrightarrow> v \<le> w \<Longrightarrow> 0 < a \<Longrightarrow> align_to v a \<le> w"
proof -
  assume "a dvd w" "v \<le> w" "0 < a"
  then obtain k where "w = a * k" by (auto elim: dvdE)
  have "w + a - 1 = (a - 1) + a * k" using \<open>0 < a\<close> \<open>w = a * k\<close> by simp
  also have "\<dots> div a = k" using \<open>0 < a\<close> by (subst div_mult_self2) simp_all
  finally have "(w + a - 1) div a = k" .
  then have "align_to w a = w" using \<open>w = a * k\<close> by (simp add: align_to_def)
  then show ?thesis using align_to_mono [OF \<open>v \<le> w\<close>, of a] by simp
qed

text \<open>The slabs of a layout tile the flat space from 0 on.\<close>

definition slabs_ok :: "nat list \<Rightarrow> nat list \<Rightarrow> bool" where
  "slabs_ok ats sz \<longleftrightarrow>
     ats \<noteq> [] \<and> ats ! 0 = 0 \<and> length sz = length ats - 1 \<and> (\<forall>a \<in> set ats. 4096 dvd a)
     \<and> (\<forall>i < length sz. 0 < sz ! i \<and> ats ! Suc i = ats ! i + sz ! i)"

lemma slabs_ok_mono: "slabs_ok ats sz \<Longrightarrow> i \<le> j \<Longrightarrow> j < length ats \<Longrightarrow> ats ! i \<le> ats ! j"
proof (induction j)
  case (Suc j)
  then show ?case by (cases "i = Suc j") (auto simp: slabs_ok_def intro: le_trans)
qed simp

lemma slabs_ok_less: "slabs_ok ats sz \<Longrightarrow> i < j \<Longrightarrow> j < length ats \<Longrightarrow> ats ! i + sz ! i \<le> ats ! j"
  using slabs_ok_mono [of ats sz "Suc i" j] by (auto simp: slabs_ok_def)

lemma slabs_ok_snoc:
  assumes "slabs_ok ats sz" "0 < n" "4096 dvd n"
  shows "slabs_ok (ats @ [last ats + n]) (sz @ [n])"
proof -
  have ats: "ats \<noteq> []" "length sz = length ats - 1" "4096 dvd last ats" using assms(1) by (auto simp: slabs_ok_def)
  then have l: "last ats = ats ! length sz" "length ats = Suc (length sz)" by (simp_all add: last_conv_nth)
  have "0 < (sz @ [n]) ! i \<and> (ats @ [last ats + n]) ! Suc i = (ats @ [last ats + n]) ! i + (sz @ [n]) ! i" if "i < Suc (length sz)" for i
  proof (cases "i = length sz")
    case True
    then show ?thesis using l assms(2) by (simp add: nth_append)
  next
    case False
    then show ?thesis using that l assms(1) by (simp add: nth_append slabs_ok_def)
  qed
  moreover have "(ats @ [last ats + n]) ! 0 = 0" using assms(1) ats(1) by (simp add: slabs_ok_def nth_append)
  moreover have "\<forall>a \<in> set (ats @ [last ats + n]). 4096 dvd a" using assms(1,3) ats(3) by (simp add: slabs_ok_def)
  ultimately show ?thesis using l(2) by (simp add: slabs_ok_def)
qed

text \<open>Where placing one region leaves the slabs.\<close>

lemma place_step:
  assumes "slabs_ok ats sz" "last ats \<le> off" "place_region limit n (off, ats, sz) = (a, off', ats', sz')"
  shows "slabs_ok ats' sz' \<and> last ats' \<le> a \<and> off \<le> a \<and> off' = a + n
     \<and> (\<exists>xs ys. ats' = ats @ xs \<and> sz' = sz @ ys) \<and> off \<le> (if length ats' = length ats then off' else ats' ! length ats)
     \<and> (length ats' = length ats \<or> length ats' = Suc (length ats)) \<and> 256 dvd a"
proof -
  let ?a = "align_to off 256" and ?b = "last ats"
  have a: "off \<le> ?a" "256 dvd ?a" using align_to_bounds [of 256 off] by simp_all
  have base: "4096 dvd ?b" using assms(1) by (auto simp: slabs_ok_def)
  show ?thesis
  proof (cases "n \<noteq> 0 \<and> ?a + n - ?b > limit \<and> ?a > ?b")
    case True
    let ?n = "align_to ?a 4096 - ?b"
    have n: "?a \<le> align_to ?a 4096" using align_to_bounds [of 4096 ?a] by simp
    then have pos: "0 < ?n" "?b + ?n = align_to ?a 4096" using True by simp_all
    have d: "4096 dvd ?n" using base by (simp add: dvd_diff_nat)
    have out: "a = align_to ?a 4096" "off' = a + n" "ats' = ats @ [a]" "sz' = sz @ [?n]"
      using assms(3) True pos(2) by (auto simp: Let_def)
    have "(256 :: nat) dvd a" using dvd_trans [of 256 4096 a] out(1) by simp
    then show ?thesis using slabs_ok_snoc [OF assms(1) pos(1) d] pos(2) out a n by simp
  next
    case False
    then have "a = ?a" "off' = a + n" "ats' = ats" "sz' = sz" using assms(3) by (auto simp: Let_def split: if_splits)
    then show ?thesis using assms a by simp
  qed
qed

definition slab_end :: "nat list \<Rightarrow> nat \<Rightarrow> nat \<Rightarrow> nat" where
  "slab_end ats fin s = (if Suc s < length ats then ats ! Suc s else fin)"

text \<open>Every region lies between the beginning of some slab and the beginning of the next.\<close>

lemma place_all_regions:
  assumes "slabs_ok ats sz" "last ats \<le> off" "place_all limit ns (off, ats, sz) = (offs, off', ats', sz')"
  shows "slabs_ok ats' sz' \<and> last ats' \<le> off' \<and> off \<le> off' \<and> (\<exists>xs ys. ats' = ats @ xs \<and> sz' = sz @ ys)
     \<and> off \<le> slab_end ats' off' (length ats - 1) \<and> length offs = length ns
     \<and> (\<forall>i < length ns. off \<le> offs ! i \<and> offs ! i + ns ! i \<le> off' \<and> 256 dvd offs ! i
          \<and> (\<exists>s < length ats'. ats' ! s \<le> offs ! i \<and> offs ! i + ns ! i \<le> slab_end ats' off' s))
     \<and> (\<forall>i j. i < j \<longrightarrow> j < length ns \<longrightarrow> offs ! i + ns ! i \<le> offs ! j)"
  using assms
proof (induction ns arbitrary: off ats sz offs)
  case Nil
  then show ?case by (auto simp: slab_end_def slabs_ok_def)
next
  case (Cons n ns)
  obtain a off1 ats1 sz1 where p: "place_region limit n (off, ats, sz) = (a, off1, ats1, sz1)" by (metis prod_cases4)
  obtain offs2 where q: "place_all limit ns (off1, ats1, sz1) = (offs2, off', ats', sz')" and offs: "offs = a # offs2"
    using Cons.prems(3) p by (auto simp del: place_region.simps split: prod.splits)
  note s = place_step [OF Cons.prems(1,2) p]
  then have ih: "slabs_ok ats' sz' \<and> last ats' \<le> off' \<and> off1 \<le> off' \<and> (\<exists>xs ys. ats' = ats1 @ xs \<and> sz' = sz1 @ ys)
     \<and> off1 \<le> slab_end ats' off' (length ats1 - 1) \<and> length offs2 = length ns
     \<and> (\<forall>i < length ns. off1 \<le> offs2 ! i \<and> offs2 ! i + ns ! i \<le> off' \<and> 256 dvd offs2 ! i
          \<and> (\<exists>s < length ats'. ats' ! s \<le> offs2 ! i \<and> offs2 ! i + ns ! i \<le> slab_end ats' off' s))
     \<and> (\<forall>i j. i < j \<longrightarrow> j < length ns \<longrightarrow> offs2 ! i + ns ! i \<le> offs2 ! j)"
    using Cons.IH [of ats1 sz1 off1 offs2] q by auto
  have ats: "ats \<noteq> []" "ats1 \<noteq> []" using Cons.prems(1) s by (auto simp: slabs_ok_def)
  obtain xs where xs: "ats' = ats1 @ xs" using ih by blast
  have "ats' ! (length ats1 - 1) = last ats1" using ats(2) xs by (simp add: nth_append last_conv_nth)
  then have here: "ats' ! (length ats1 - 1) \<le> a" using s by simp
  have inside: "a + n \<le> slab_end ats' off' (length ats1 - 1)" "length ats1 - 1 < length ats'"
    using s ih by simp (use ats(2) xs in \<open>cases ats1; simp\<close>)
  have start: "off \<le> slab_end ats' off' (length ats - 1)"
  proof (cases "length ats1 = length ats")
    case True
    then show ?thesis using s ih by simp
  next
    case False
    then have "length ats1 = Suc (length ats)" using s by simp
    moreover have "ats1 ! length ats = a \<or> off \<le> ats1 ! length ats" using s False by simp
    ultimately have "ats' ! length ats = ats1 ! length ats" "off \<le> ats1 ! length ats" using xs s False by (auto simp: nth_append)
    then show ?thesis using ats(1) xs \<open>length ats1 = Suc (length ats)\<close> by (simp add: slab_end_def)
  qed
  have ext: "\<exists>zs ys. ats' = ats @ zs \<and> sz' = sz @ ys" using s ih by auto
  have each: "off \<le> offs ! i \<and> offs ! i + (n # ns) ! i \<le> off' \<and> 256 dvd offs ! i
      \<and> (\<exists>s < length ats'. ats' ! s \<le> offs ! i \<and> offs ! i + (n # ns) ! i \<le> slab_end ats' off' s)" if "i < Suc (length ns)" for i
  proof (cases i)
    case 0
    have "off \<le> a" "a + n \<le> off'" "256 dvd a" using s ih by simp_all
    then show ?thesis using 0 offs here inside by auto
  next
    case (Suc k)
    then have k: "k < length ns" using that by simp
    have "off \<le> off1" using s by simp
    moreover have "off1 \<le> offs2 ! k \<and> offs2 ! k + ns ! k \<le> off' \<and> 256 dvd offs2 ! k
        \<and> (\<exists>s < length ats'. ats' ! s \<le> offs2 ! k \<and> offs2 ! k + ns ! k \<le> slab_end ats' off' s)" using ih k by blast
    ultimately show ?thesis using Suc offs by auto
  qed
  have order: "offs ! i + (n # ns) ! i \<le> offs ! j" if ij: "i < j" "j < Suc (length ns)" for i j
  proof -
    obtain k where k: "j = Suc k" "k < length ns" using ij by (cases j) auto
    have "a + n \<le> offs2 ! k" using s ih k(2) by simp
    then show ?thesis using ih k ij offs by (cases i) auto
  qed
  have "off \<le> off'" "length offs = Suc (length ns)" using s ih offs by simp_all
  then show ?case using ih ext start each order by simp
qed

text \<open>No slab passes the limit, when the limit is a whole number of pages and no region passes it alone.\<close>

lemma place_all_limit:
  assumes "slabs_ok ats sz" "last ats \<le> off" "off - last ats \<le> limit" "\<forall>n \<in> set sz. n \<le> limit" "4096 dvd limit"
    "\<forall>n \<in> set ns. n \<le> limit" "place_all limit ns (off, ats, sz) = (offs, off', ats', sz')"
  shows "off' - last ats' \<le> limit \<and> (\<forall>n \<in> set sz'. n \<le> limit)"
  using assms
proof (induction ns arbitrary: off ats sz offs)
  case (Cons n ns)
  obtain a off1 ats1 sz1 where p: "place_region limit n (off, ats, sz) = (a, off1, ats1, sz1)" by (metis prod_cases4)
  obtain offs2 where q: "place_all limit ns (off1, ats1, sz1) = (offs2, off', ats', sz')"
    using Cons.prems(7) p by (auto simp del: place_region.simps split: prod.splits)
  note s = place_step [OF Cons.prems(1,2) p]
  let ?a = "align_to off 256" and ?b = "last ats"
  have base: "4096 dvd ?b" using Cons.prems(1) by (auto simp: slabs_ok_def)
  have cap: "off \<le> ?b + limit" "4096 dvd ?b + limit" using Cons.prems(2,3,5) base by auto
  have "256 dvd ?b + limit" using dvd_trans [of 256 4096 "?b + limit"] cap(2) by simp
  then have "?a \<le> ?b + limit" using align_to_least [of 256 "?b + limit" off] cap by simp
  then have page: "align_to ?a 4096 \<le> ?b + limit" using align_to_least [of 4096 "?b + limit" ?a] cap by simp
  have "off1 - last ats1 \<le> limit \<and> (\<forall>n \<in> set sz1. n \<le> limit)"
  proof (cases "n \<noteq> 0 \<and> ?a + n - ?b > limit \<and> ?a > ?b")
    case True
    then have "last ats1 = a" "off1 = a + n" "sz1 = sz @ [align_to ?a 4096 - ?b]" using p by (auto simp: Let_def)
    then show ?thesis using Cons.prems(4,6) page by auto
  next
    case False
    have "?a \<ge> ?b" using align_to_bounds [of 256 off] Cons.prems(2) by simp
    moreover have "ats1 = ats" "off1 = ?a + n" "sz1 = sz" using p False by (auto simp: Let_def split: if_splits)
    ultimately show ?thesis using False Cons.prems(4,6) \<open>?a \<le> ?b + limit\<close> by auto
  qed
  then show ?case using Cons.IH [of ats1 sz1 off1 offs2] s q Cons.prems(5,6) by auto
qed simp

section \<open>The layout\<close>

definition region_offs :: "kv_layout \<Rightarrow> nat list" where
  "region_offs l = [ly_off_win_val l, ly_off_win_scale l, ly_off_top l, ly_off_state l] @ ly_off_cmp l @ ly_off_idx l"

definition slab_fits :: "kv_layout \<Rightarrow> nat \<Rightarrow> nat \<Rightarrow> bool" where
  "slab_fits l a n \<longleftrightarrow> n = 0 \<or> (\<exists>s < length (ly_slab_at l). ly_slab_at l ! s \<le> a \<and> a + n \<le> ly_slab_at l ! s + ly_slab_size l ! s)"

definition layout_ok :: "kv_layout \<Rightarrow> bool" where
  "layout_ok l \<longleftrightarrow>
     ly_slab_at l \<noteq> [] \<and> ly_slab_at l ! 0 = 0 \<and> length (ly_slab_size l) = length (ly_slab_at l)
     \<and> (\<forall>i j. i < j \<longrightarrow> j < length (ly_slab_at l) \<longrightarrow> ly_slab_at l ! i + ly_slab_size l ! i \<le> ly_slab_at l ! j)"

lemma length_region_sizes [simp]: "length (region_sizes c os cap) = 4 + 2 * length os"
  by (simp add: region_sizes_def)

lemma layout_for_regions:
  assumes "l = layout_for c os cap"
  shows "layout_ok l" "length (region_offs l) = 4 + 2 * length os" "length (ly_off_cmp l) = length os"
    "length (ly_off_idx l) = length os" "ly_cap l = cap"
    "i < 4 + 2 * length os \<Longrightarrow> slab_fits l (region_offs l ! i) (region_sizes c os cap ! i)"
    "i < j \<Longrightarrow> j < 4 + 2 * length os \<Longrightarrow> region_offs l ! i + region_sizes c os cap ! i \<le> region_offs l ! j"
    "i < 4 + 2 * length os \<Longrightarrow> 256 dvd region_offs l ! i"
    "4096 dvd slab_limit c \<Longrightarrow> \<forall>n \<in> set (region_sizes c os cap). n \<le> slab_limit c \<Longrightarrow> \<forall>n \<in> set (ly_slab_size l). n \<le> slab_limit c"
proof -
  let ?ns = "region_sizes c os cap"
  obtain offs off ats sz where p: "place_all (slab_limit c) ?ns (0, [0], []) = (offs, off, ats, sz)" by (metis prod_cases4)
  have start: "slabs_ok [0] []" by (simp add: slabs_ok_def)
  note r = place_all_regions [OF start _ p]
  then have r: "slabs_ok ats sz" "last ats \<le> off" "length offs = 4 + 2 * length os"
    "\<And>i. i < 4 + 2 * length os \<Longrightarrow> 256 dvd offs ! i \<and> (\<exists>s < length ats. ats ! s \<le> offs ! i \<and> offs ! i + ?ns ! i \<le> slab_end ats off s)"
    "\<And>i j. i < j \<Longrightarrow> j < 4 + 2 * length os \<Longrightarrow> offs ! i + ?ns ! i \<le> offs ! j"
    by simp_all
  let ?total = "align_to off 4096"
  have total: "off \<le> ?total" using align_to_bounds [of 4096 off] by simp
  have l: "ly_slab_at l = ats" "ly_slab_size l = sz @ [?total - last ats]" "ly_off_cmp l = take (length os) (drop 4 offs)"
    "ly_off_idx l = drop (4 + length os) offs" "ly_off_win_val l = offs ! 0" "ly_off_win_scale l = offs ! 1"
    "ly_off_top l = offs ! 2" "ly_off_state l = offs ! 3" "ly_cap l = cap"
    using p by (simp_all add: assms layout_for_def Let_def)
  show "length (ly_off_cmp l) = length os" "length (ly_off_idx l) = length os" "ly_cap l = cap" using l r(3) by simp_all
  obtain a b c' d rest where offs: "offs = a # b # c' # d # rest" using r(3)
    by (auto simp: numeral_Bit0 length_Suc_conv dest!: sym [of "length offs"])
  have ro: "region_offs l = offs"
  proof -
    have "drop 4 offs = rest" using offs by simp
    moreover have "drop (4 + length os) offs = drop (length os) (drop 4 offs)" by (simp add: add.commute)
    ultimately show ?thesis unfolding region_offs_def l using offs append_take_drop_id [of "length os" rest] by simp
  qed
  show "length (region_offs l) = 4 + 2 * length os" using ro r(3) by simp
  have lens: "ats \<noteq> []" "length sz = length ats - 1" "last ats = ats ! (length ats - 1)"
    using r(1) by (auto simp: slabs_ok_def last_conv_nth)
  have size_at: "ats ! s + (sz @ [?total - last ats]) ! s = slab_end ats ?total s" if "s < length ats" for s
    using that lens r(1,2) total by (cases "s = length sz") (auto simp: slab_end_def nth_append slabs_ok_def)
  show "layout_ok l"
    using slabs_ok_less [OF r(1)] r(1) lens by (auto simp: layout_ok_def l nth_append slabs_ok_def)
  show "slab_fits l (region_offs l ! i) (?ns ! i)" if i: "i < 4 + 2 * length os"
  proof -
    obtain s where s: "s < length ats" "ats ! s \<le> offs ! i" "offs ! i + ?ns ! i \<le> slab_end ats off s" using r(4) [OF i] by blast
    then have "offs ! i + ?ns ! i \<le> slab_end ats ?total s" using total by (simp add: slab_end_def split: if_splits)
    then show ?thesis using s size_at [of s] by (auto simp: slab_fits_def l ro)
  qed
  show "region_offs l ! i + ?ns ! i \<le> region_offs l ! j" if "i < j" "j < 4 + 2 * length os" using r(5) [OF that] ro by simp
  show "256 dvd region_offs l ! i" if "i < 4 + 2 * length os" using r(4) [OF that] ro by simp
  show "\<forall>n \<in> set (ly_slab_size l). n \<le> slab_limit c" if "4096 dvd slab_limit c" "\<forall>n \<in> set ?ns. n \<le> slab_limit c"
  proof -
    have lim: "off - last ats \<le> slab_limit c \<and> (\<forall>n \<in> set sz. n \<le> slab_limit c)"
      using place_all_limit [OF start _ _ _ that(1) that(2) p] by simp
    have "4096 dvd last ats + slab_limit c" using that(1) r(1) lens(1) by (auto simp: slabs_ok_def)
    then have "?total \<le> last ats + slab_limit c" using lim by (intro align_to_least) auto
    then show ?thesis using lim l by auto
  qed
qed

section \<open>Slabs as a flat memory\<close>

lemma find_append: "find P (xs @ ys) = (case find P xs of None \<Rightarrow> find P ys | Some x \<Rightarrow> Some x)"
  by (induction xs) auto

lemma slab_of_bounds: "layout_ok l \<Longrightarrow> slab_of l x < length (ly_slab_at l) \<and> ly_slab_at l ! slab_of l x \<le> x"
  by (auto simp: slab_of_def layout_ok_def find_Some_iff find_None_iff rev_nth split: option.split)

lemma slab_of_unique:
  assumes "layout_ok l" "s < length (ly_slab_at l)" "ly_slab_at l ! s \<le> x" "x < ly_slab_at l ! s + ly_slab_size l ! s"
  shows "slab_of l x = s"
proof -
  let ?P = "\<lambda>i. ly_slab_at l ! i \<le> x"
  have "[0..<length (ly_slab_at l)] = [0..<s] @ s # [Suc s..<length (ly_slab_at l)]"
    using assms(2) upt_add_eq_append [of 0 s "length (ly_slab_at l) - s"] by (simp add: upt_conv_Cons)
  moreover have "\<not> ?P i" if "i \<in> set (rev [Suc s..<length (ly_slab_at l)])" for i
  proof -
    have "ly_slab_at l ! s + ly_slab_size l ! s \<le> ly_slab_at l ! i" using that assms(1) by (auto simp: layout_ok_def)
    then show ?thesis using assms(4) by simp
  qed
  then have "find ?P (rev [Suc s..<length (ly_slab_at l)]) = None" unfolding find_None_iff by blast
  ultimately show ?thesis using assms(3) by (simp add: slab_of_def find_append)
qed

lemma loc_inside:
  assumes "layout_ok l" "slab_fits l a n" "j < n"
  shows "loc l (a + j) = (fst (loc l a), snd (loc l a) + j)"
proof -
  obtain s where s: "s < length (ly_slab_at l)" "ly_slab_at l ! s \<le> a" "a + n \<le> ly_slab_at l ! s + ly_slab_size l ! s"
    using assms(2,3) by (auto simp: slab_fits_def)
  then have "slab_of l (a + j) = s" "slab_of l a = s" using slab_of_unique [OF assms(1)] assms(3) by simp_all
  then show ?thesis using s by (simp add: loc_def Let_def)
qed

definition flat :: "kv_layout \<Rightarrow> gpu_buffer list \<Rightarrow> nat \<Rightarrow> u8" where
  "flat l bufs x = gb_mem (bufs ! fst (loc l x)) (snd (loc l x))"

definition bufs_ok :: "kv_layout \<Rightarrow> gpu_buffer list \<Rightarrow> nat \<Rightarrow> nat \<Rightarrow> bool" where
  "bufs_ok l bufs a n \<longleftrightarrow> layout_ok l \<and> length bufs = length (ly_slab_at l) \<and> slab_fits l a n"

lemma peek_flat: "bufs_ok l bufs a n \<Longrightarrow> peek bufs (loc l a) n = map (flat l bufs) [a..<a + n]"
  by (rule nth_equalityI) (auto simp: peek_def flat_def bufs_ok_def loc_inside)

lemma poke_flat:
  assumes "bufs_ok l bufs a (length bs)"
  shows "flat l (poke (loc l a) bs bufs) x = (if a \<le> x \<and> x < a + length bs then bs ! (x - a) else flat l bufs x)"
proof -
  have l: "layout_ok l" "length bufs = length (ly_slab_at l)" "slab_fits l a (length bs)" using assms by (simp_all add: bufs_ok_def)
  note la = slab_of_bounds [OF l(1), of a] and lx = slab_of_bounds [OF l(1), of x]
  show ?thesis
  proof (cases "slab_of l x = slab_of l a")
    case True
    then have "snd (loc l a) \<le> snd (loc l x) \<and> snd (loc l x) < snd (loc l a) + length bs \<longleftrightarrow> a \<le> x \<and> x < a + length bs"
      "a \<le> x \<Longrightarrow> snd (loc l x) - snd (loc l a) = x - a"
      using la lx by (auto simp: loc_def Let_def)
    then show ?thesis using True la l(2) by (auto simp: flat_def poke_def mem_write_def loc_def Let_def)
  next
    case False
    have "\<not> (a \<le> x \<and> x < a + length bs)"
    proof
      assume x: "a \<le> x \<and> x < a + length bs"
      then have "loc l (a + (x - a)) = (fst (loc l a), snd (loc l a) + (x - a))" by (intro loc_inside [OF l(1,3)]) auto
      then show False using x False by (simp add: loc_def Let_def)
    qed
    then show ?thesis using False by (auto simp: flat_def poke_def loc_def Let_def)
  qed
qed

lemma length_poke [simp]: "length (poke p bs bufs) = length bufs"
  by (simp add: poke_def)

lemma fits_sub: "slab_fits l a n \<Longrightarrow> b + m \<le> n \<Longrightarrow> slab_fits l (a + b) m"
  by (auto simp: slab_fits_def)

interpretation slabs: byte_memory "flat l" "\<lambda>a bs. poke (loc l a) bs" "bufs_ok l" for l
  by unfold_locales (simp_all add: poke_flat, auto simp: bufs_ok_def intro: fits_sub)

definition kv_byte :: "kv_store \<Rightarrow> nat \<Rightarrow> u8" where
  "kv_byte st = flat (ks_lay st) (ks_bufs st)"

definition kv_ok :: "kv_store \<Rightarrow> nat \<Rightarrow> nat \<Rightarrow> bool" where
  "kv_ok st = bufs_ok (ks_lay st) (ks_bufs st)"

interpretation kvm: byte_memory kv_byte kv_write kv_ok
  by unfold_locales
    (simp_all add: kv_byte_def kv_ok_def kv_write_def poke_flat, auto simp: bufs_ok_def intro: fits_sub)

lemma kv_read_bytes: "kv_ok st a n \<Longrightarrow> kv_read st a n = map (kv_byte st) [a..<a + n]"
  by (simp add: kv_read_def kv_ok_def kv_byte_def peek_flat)

lemma length_kv_read [simp]: "length (kv_read st a n) = n"
  by (simp add: kv_read_def peek_def)

end
