(* ===== verification/Kv_Store_Inv.thy ===== *)
theory Kv_Store_Inv
  imports Kv_Memory
begin

text \<open>
  The shape of a KV store and what every operation keeps of it. Regions are numbered in the order in
  which they are placed: the ring's values and scales, the top-k lists, the carried state, then the
  compressed rows of every owner and the index keys of every owner.
\<close>

section \<open>Shape\<close>

text \<open>The sums of positions and ratios that the code takes with 32 bits stay below them.\<close>

definition kv_config_ok :: "kv_config \<Rightarrow> bool" where
  "kv_config_ok c \<longleftrightarrow> 0 < kc_window c \<and> kc_window c < 2 ^ 31 \<and> (\<forall>k < kc_layers c. kc_max_context c + plane_ratio c k \<le> 2 ^ 32)"

definition kv_frame :: "kv_store \<Rightarrow> bool" where
  "kv_frame st \<longleftrightarrow>
     (let c = ks_cfg st in
      ks_owners st = owners c
      \<and> (\<forall>l < kc_layers c. plane_index c l \<noteq> None) \<and> ks_owner_of st = map (\<lambda>l. the (plane_index c l)) [0..<kc_layers c]
      \<and> ks_lay st = layout_for c (owners c) (ks_cap st)
      \<and> length (ks_bufs st) = length (ly_slab_at (ks_lay st))
      \<and> (\<forall>s < length (ks_bufs st). ly_slab_size (ks_lay st) ! s \<le> gb_bytes (ks_bufs st ! s))
      \<and> ks_cap st \<le> kc_max_context c
      \<and> length (ks_rows_hw st) = length (owners c)
      \<and> (\<forall>oi < length (owners c). ks_rows_hw st ! oi \<le> rows_for c (owners c ! oi) (ks_cap st))
      \<and> length (ks_n_cmp st) = kc_layers c \<and> length (ks_n_kv st) = kc_layers c)"

definition kv_shape :: "kv_store \<Rightarrow> bool" where
  "kv_shape st \<longleftrightarrow> kv_frame st \<and> length (ks_slot_pos st) = kc_window (ks_cfg st)"

definition kv_wf :: "kv_store \<Rightarrow> bool" where
  "kv_wf st \<longleftrightarrow> kv_config_ok (ks_cfg st) \<and> (kv_valid st \<longrightarrow> kv_shape st)"

lemma owners_less: "k \<in> set (owners c) \<Longrightarrow> k < kc_layers c"
  by (simp add: owners_def)

lemma owners_distinct [simp]: "distinct (owners c)"
  by (simp add: owners_def)

lemma plane_ratio_pos [simp]: "0 < plane_ratio c k"
  by (auto simp: plane_ratio_def max_def)

lemma rows_for_exact:
  assumes "kv_config_ok c" "k < kc_layers c" "positions \<le> kc_max_context c"
  shows "rows_for c k positions = (positions + plane_ratio c k - 1) div plane_ratio c k"
proof -
  have "kc_max_context c + plane_ratio c k \<le> 2 ^ 32" using assms(1,2) by (simp add: kv_config_ok_def)
  then have "positions + plane_ratio c k - 1 < 2 ^ 32" using assms(3) plane_ratio_pos [of c k] by linarith
  then show ?thesis by (simp add: rows_for_def u32_of_def Let_def)
qed

lemma rows_for_mono:
  assumes "kv_config_ok c" "k < kc_layers c" "p \<le> q" "q \<le> kc_max_context c"
  shows "rows_for c k p \<le> rows_for c k q"
  using rows_for_exact [OF assms(1,2), of p] rows_for_exact [OF assms(1,2), of q] assms(3,4) by (simp add: div_le_mono)

lemma rows_for_floor:
  assumes "kv_config_ok c" "k < kc_layers c" "p \<le> kc_max_context c" "n * plane_ratio c k \<le> p"
  shows "n \<le> rows_for c k p"
proof -
  have "n * plane_ratio c k div plane_ratio c k \<le> (p + plane_ratio c k - 1) div plane_ratio c k"
    using assms(4) plane_ratio_pos [of c k] by (intro div_le_mono) linarith
  then show ?thesis using rows_for_exact [OF assms(1-3)] by simp
qed

lemma index_of_Some: "index_of x xs = Some i \<Longrightarrow> i < length xs \<and> xs ! i = x"
  by (induction xs arbitrary: i) (auto split: if_splits)

lemma index_of_nth: "distinct xs \<Longrightarrow> i < length xs \<Longrightarrow> index_of (xs ! i) xs = Some i"
proof (induction xs arbitrary: i)
  case (Cons x xs)
  then show ?case by (cases i) auto
qed simp

text \<open>The plane a layer reads belongs to its owner.\<close>

lemma owner_index_plane:
  assumes "kv_shape st" "l < kc_layers (ks_cfg st)" "owner_index st l \<noteq> kNoPlane"
  shows "owner_index st l < length (owners (ks_cfg st))" "owners (ks_cfg st) ! owner_index st l = owner (ks_cfg st) l"
proof -
  let ?c = "ks_cfg st"
  have p: "plane_index ?c l \<noteq> None" "owner_index st l = the (plane_index ?c l)" "length (ks_owner_of st) = kc_layers ?c"
    using assms(1,2) by (auto simp: kv_shape_def kv_frame_def Let_def owner_index_def)
  then obtain i where i: "plane_index ?c l = Some i" by auto
  then have "index_of (owner ?c l) (owners ?c) = Some i" using p assms(3) by (auto simp: plane_index_def split: if_splits)
  then show "owner_index st l < length (owners ?c)" "owners ?c ! owner_index st l = owner ?c l"
    using index_of_Some i p(2) by fastforce+
qed

lemma owner_index_less: "kv_shape st \<Longrightarrow> owner_index st l \<noteq> kNoPlane \<Longrightarrow> owner_index st l < length (owners (ks_cfg st))"
proof (cases "l < kc_layers (ks_cfg st)")
  case False
  assume "kv_shape st" "owner_index st l \<noteq> kNoPlane"
  then show ?thesis using False by (auto simp: kv_shape_def kv_frame_def owner_index_def Let_def)
qed (simp add: owner_index_plane)

lemma owner_index_owner:
  assumes "kv_shape st" "kc_layers (ks_cfg st) \<le> kNoPlane" "oi < length (owners (ks_cfg st))"
  shows "owner_index st (owners (ks_cfg st) ! oi) = oi"
proof -
  let ?c = "ks_cfg st" and ?l = "owners (ks_cfg st) ! oi"
  have l: "?l < kc_layers ?c" "owner ?c ?l = ?l" using nth_mem [OF assms(3)] by (auto simp: owners_def)
  then have "plane_index ?c ?l = Some oi" using assms(2) index_of_nth [OF owners_distinct assms(3)] by (auto simp: plane_index_def)
  then show ?thesis using assms(1) l(1) by (simp add: kv_shape_def kv_frame_def Let_def owner_index_def)
qed

section \<open>Regions\<close>

abbreviation region_off :: "kv_store \<Rightarrow> nat \<Rightarrow> nat" where
  "region_off st i \<equiv> region_offs (ks_lay st) ! i"

abbreviation region_size :: "kv_store \<Rightarrow> nat \<Rightarrow> nat" where
  "region_size st i \<equiv> region_sizes (ks_cfg st) (owners (ks_cfg st)) (ks_cap st) ! i"

abbreviation regions :: "kv_store \<Rightarrow> nat" where
  "regions st \<equiv> 4 + 2 * length (owners (ks_cfg st))"

abbreviation cmp_region :: "nat \<Rightarrow> nat" where "cmp_region oi \<equiv> 4 + oi"
abbreviation key_region :: "kv_store \<Rightarrow> nat \<Rightarrow> nat" where "key_region st oi \<equiv> 4 + length (owners (ks_cfg st)) + oi"

lemma shape_layout:
  assumes "kv_shape st"
  shows "layout_ok (ks_lay st)" "length (ly_off_cmp (ks_lay st)) = length (owners (ks_cfg st))"
    "length (ly_off_idx (ks_lay st)) = length (owners (ks_cfg st))"
    "i < j \<Longrightarrow> j < regions st \<Longrightarrow> region_off st i + region_size st i \<le> region_off st j"
    "i < regions st \<Longrightarrow> kv_ok st (region_off st i) (region_size st i)"
proof -
  have l: "ks_lay st = layout_for (ks_cfg st) (owners (ks_cfg st)) (ks_cap st)" "length (ks_bufs st) = length (ly_slab_at (ks_lay st))"
    using assms by (simp_all add: kv_shape_def kv_frame_def Let_def)
  note r = layout_for_regions [OF l(1)]
  show "layout_ok (ks_lay st)" "length (ly_off_cmp (ks_lay st)) = length (owners (ks_cfg st))"
    "length (ly_off_idx (ks_lay st)) = length (owners (ks_cfg st))" using r by simp_all
  show "region_off st i + region_size st i \<le> region_off st j" if "i < j" "j < regions st" using r(7) that by simp
  show "kv_ok st (region_off st i) (region_size st i)" if "i < regions st" using r(1,6) l(2) that by (simp add: kv_ok_def bufs_ok_def)
qed

lemma region_off_simps [simp]:
  "region_offs l ! 0 = ly_off_win_val l" "region_offs l ! Suc 0 = ly_off_win_scale l" "region_offs l ! 2 = ly_off_top l"
  "region_offs l ! 3 = ly_off_state l"
  by (simp_all add: region_offs_def numeral_2_eq_2 numeral_3_eq_3)

lemma region_size_simps [simp]:
  "region_sizes c os cap ! 0 = kc_layers c * kc_window c * kc_latent_dim c"
  "region_sizes c os cap ! Suc 0 = kc_layers c * kc_window c * window_scales c"
  "region_sizes c os cap ! 2 = topk_bytes c"
  "region_sizes c os cap ! 3 = length os * kc_max_ratio c * kc_latent_dim c * 4 * 2"
  by (simp_all add: region_sizes_def numeral_2_eq_2 numeral_3_eq_3)

lemma nth_after_four: "(a # b # c # d # xs) ! (4 + i) = xs ! i"
  by (simp add: numeral_eq_Suc)

lemma plane_offs:
  assumes "length (ly_off_cmp l) = n" "oi < n"
  shows "region_offs l ! (4 + oi) = ly_off_cmp l ! oi" "region_offs l ! (4 + n + oi) = ly_off_idx l ! oi"
  using assms nth_after_four [of _ _ _ _ "ly_off_cmp l @ ly_off_idx l" oi] nth_after_four [of _ _ _ _ "ly_off_cmp l @ ly_off_idx l" "n + oi"]
  by (simp_all add: region_offs_def nth_append add.assoc)

lemma plane_sizes:
  assumes "oi < length os"
  shows "region_sizes c os cap ! (4 + oi) = rows_for c (os ! oi) cap * kc_latent_dim c * 2"
    "region_sizes c os cap ! (4 + length os + oi) = rows_for c (os ! oi) cap * kc_index_dim c * 2"
proof -
  let ?xs = "map (\<lambda>k. rows_for c k cap * kc_latent_dim c * 2) os @ map (\<lambda>k. rows_for c k cap * kc_index_dim c * 2) os"
  show "region_sizes c os cap ! (4 + oi) = rows_for c (os ! oi) cap * kc_latent_dim c * 2"
    using assms nth_after_four [of _ _ _ _ ?xs oi] by (simp add: region_sizes_def nth_append)
  show "region_sizes c os cap ! (4 + length os + oi) = rows_for c (os ! oi) cap * kc_index_dim c * 2"
    using assms nth_after_four [of _ _ _ _ ?xs "length os + oi"] by (simp add: region_sizes_def nth_append add.assoc)
qed

text \<open>Parts of different regions do not overlap.\<close>

lemma regions_apart:
  assumes "kv_shape st" "i < regions st" "j < regions st" "i \<noteq> j" "a + n \<le> region_size st i" "b + m \<le> region_size st j"
  shows "region_off st i + a + n \<le> region_off st j + b \<or> region_off st j + b + m \<le> region_off st i + a"
proof (cases "i < j")
  case True
  then show ?thesis using shape_layout(4) [OF assms(1) True assms(3)] assms(5) by linarith
next
  case False
  then have "j < i" using assms(4) by simp
  then show ?thesis using shape_layout(4) [OF assms(1) _ assms(2)] assms(6) by fastforce
qed

lemma region_part_ok: "kv_shape st \<Longrightarrow> i < regions st \<Longrightarrow> a + n \<le> region_size st i \<Longrightarrow> kv_ok st (region_off st i + a) n"
  using kvm.ok_sub shape_layout(5) by blast

text \<open>Writing a part of a region changes that part and nothing else.\<close>

lemma write_part_same:
  assumes "kv_shape st" "i < regions st" "a + length bs \<le> region_size st i"
  shows "kv_read (kv_write (region_off st i + a) bs st) (region_off st i + a) (length bs) = bs"
  using region_part_ok [OF assms] kvm.read_wr_same [of st "region_off st i + a" bs] kvm.ok_wr by (simp add: kv_read_bytes)

lemma write_part_other:
  assumes "kv_shape st" "i < regions st" "a + length bs \<le> region_size st i" "j < regions st" "b + n \<le> region_size st j"
    "i \<noteq> j \<or> b + n \<le> a \<or> a + length bs \<le> b"
  shows "kv_read (kv_write (region_off st i + a) bs st) (region_off st j + b) n = kv_read st (region_off st j + b) n"
proof -
  have ok: "kv_ok st (region_off st i + a) (length bs)" "kv_ok st (region_off st j + b) n"
    using region_part_ok assms by blast+
  have "region_off st j + b + n \<le> region_off st i + a \<or> region_off st i + a + length bs \<le> region_off st j + b"
    using regions_apart [OF assms(1,2,4) _ assms(3,5)] assms(6) by (cases "i = j") auto
  then show ?thesis
    using ok kvm.read_wr_other [OF ok(1), of "region_off st j + b" n] kvm.ok_wr by (simp add: kv_read_bytes)
qed

section \<open>Writing keeps the shape\<close>

lemma poke_bytes [simp]: "gb_bytes (poke p bs bufs ! s) = gb_bytes (bufs ! s)"
  by (cases "fst p < length bufs"; cases "s = fst p") (simp_all add: poke_def list_update_beyond)

lemma kv_write_sel [simp]:
  "ks_cfg (kv_write a bs st) = ks_cfg st" "ks_lay (kv_write a bs st) = ks_lay st" "ks_cap (kv_write a bs st) = ks_cap st"
  "ks_owners (kv_write a bs st) = ks_owners st" "ks_owner_of (kv_write a bs st) = ks_owner_of st"
  "ks_rows_hw (kv_write a bs st) = ks_rows_hw st" "ks_n_cmp (kv_write a bs st) = ks_n_cmp st"
  "ks_n_kv (kv_write a bs st) = ks_n_kv st" "ks_win_lo (kv_write a bs st) = ks_win_lo st"
  "ks_slot_pos (kv_write a bs st) = ks_slot_pos st" "ks_prompt_ring (kv_write a bs st) = ks_prompt_ring st"
  "ks_prompt_slot_pos (kv_write a bs st) = ks_prompt_slot_pos st"
  "length (ks_bufs (kv_write a bs st)) = length (ks_bufs st)"
  "gb_bytes (ks_bufs (kv_write a bs st) ! s) = gb_bytes (ks_bufs st ! s)"
  by (simp_all add: kv_write_def)

lemma kv_valid_write [simp]: "kv_valid (kv_write a bs st) = kv_valid st"
  using kv_write_sel(13) [of a bs st] unfolding kv_valid_def by (metis length_0_conv)

lemma kv_shape_write [simp]: "kv_shape (kv_write a bs st) = kv_shape st"
  by (simp add: kv_shape_def kv_frame_def Let_def)

lemma owner_index_write [simp]: "owner_index (kv_write a bs st) l = owner_index st l"
  by (simp add: owner_index_def)

lemma score_base_write [simp]: "score_base (kv_write a bs st) = score_base st"
  by (simp add: score_base_def)

lemma ring_off_write [simp]: "ring_val_off (kv_write a bs st) l s = ring_val_off st l s" "ring_scale_off (kv_write a bs st) l s = ring_scale_off st l s"
  by (simp_all add: ring_val_off_def ring_scale_off_def)

section \<open>Growth\<close>

text \<open>How much of each region is copied when the store grows, and in which order.\<close>

definition live_len :: "kv_store \<Rightarrow> nat \<Rightarrow> nat" where
  "live_len st i =
     (let c = ks_cfg st; n = length (owners c) in
      if i < 4 then region_size st i
      else if i < 4 + n then ks_rows_hw st ! (i - 4) * kc_latent_dim c * 2
      else ks_rows_hw st ! (i - 4 - n) * kc_index_dim c * 2)"

definition copy_order :: "nat \<Rightarrow> nat list" where
  "copy_order n = [0, 1, 2, 3] @ concat (map (\<lambda>oi. [4 + oi, 4 + n + oi]) [0..<n])"

lemma region_cases:
  assumes "i < 4 + 2 * n"
  obtains "i = 0" | "i = Suc 0" | "i = 2" | "i = 3" | (cmp) oi where "oi < n" "i = 4 + oi" | (key) oi where "oi < n" "i = 4 + n + oi"
proof -
  consider "i < 4" | "4 \<le> i" "i < 4 + n" | "4 + n \<le> i" by linarith
  then show thesis
  proof cases
    case 1
    then have "i = 0 \<or> i = Suc 0 \<or> i = 2 \<or> i = 3" by auto
    then show thesis using that(1-4) by blast
  next
    case 2
    then show thesis using that(5) [of "i - 4"] by simp
  next
    case 3
    then show thesis using that(6) [of "i - 4 - n"] assms by simp
  qed
qed

lemma set_copy_order: "set (copy_order n) = {..<4 + 2 * n}"
proof -
  have "i \<in> set (copy_order n)" if i: "i < 4 + 2 * n" for i
    using region_cases [OF i] by (fastforce simp: copy_order_def)
  then show ?thesis by (auto simp: copy_order_def)
qed

lemma distinct_copy_order: "distinct (copy_order n)"
proof -
  have "distinct (concat (map (\<lambda>oi. [4 + oi, 4 + n + oi]) [0..<m]))" if "m \<le> n" for m
    using that by (induction m) auto
  from this [of n] show ?thesis by (auto simp: copy_order_def)
qed

lemma live_regions_order:
  assumes "kv_shape st" "length (ly_off_cmp nl) = length (owners (ks_cfg st))"
  shows "live_regions st nl = map (\<lambda>i. (region_off st i, region_offs nl ! i, live_len st i)) (copy_order (length (owners (ks_cfg st))))"
proof -
  let ?n = "length (owners (ks_cfg st))"
  have o: "ks_owners st = owners (ks_cfg st)" using assms(1) by (simp add: kv_shape_def kv_frame_def Let_def)
  have "map (\<lambda>i. (region_off st i, region_offs nl ! i, live_len st i)) [4 + oi, 4 + ?n + oi]
      = [(ly_off_cmp (ks_lay st) ! oi, ly_off_cmp nl ! oi, ks_rows_hw st ! oi * kc_latent_dim (ks_cfg st) * 2),
         (ly_off_idx (ks_lay st) ! oi, ly_off_idx nl ! oi, ks_rows_hw st ! oi * kc_index_dim (ks_cfg st) * 2)]" if "oi < ?n" for oi
    using that plane_offs [OF shape_layout(2) [OF assms(1)] that] plane_offs [OF assms(2) that]
    by (simp add: live_len_def Let_def)
  then have "map (\<lambda>i. (region_off st i, region_offs nl ! i, live_len st i)) (concat (map (\<lambda>oi. [4 + oi, 4 + ?n + oi]) [0..<?n]))
      = concat (map (\<lambda>oi. [(ly_off_cmp (ks_lay st) ! oi, ly_off_cmp nl ! oi, ks_rows_hw st ! oi * kc_latent_dim (ks_cfg st) * 2),
         (ly_off_idx (ks_lay st) ! oi, ly_off_idx nl ! oi, ks_rows_hw st ! oi * kc_index_dim (ks_cfg st) * 2)]) [0..<?n])"
    unfolding map_concat map_map comp_def by (intro arg_cong [where f = concat] map_cong) auto
  then show ?thesis
    by (simp add: live_regions_def copy_order_def Let_def o live_len_def)
qed

text \<open>What an allocator is trusted with: the buffer it gives is at least as large as what was asked for.\<close>

definition allocator_ok :: "allocator \<Rightarrow> bool" where
  "allocator_ok alloc \<longleftrightarrow> (\<forall>k n b. alloc k n = Inr b \<longrightarrow> n \<le> gb_bytes b)"

lemma allocate_slabs_sizes:
  "allocator_ok alloc \<Longrightarrow> allocate_slabs alloc k szs = (Inr bs, k') \<Longrightarrow>
     length bs = length szs \<and> (\<forall>i < length szs. szs ! i \<le> gb_bytes (bs ! i))"
proof (induction szs arbitrary: k bs k')
  case (Cons n szs)
  from Cons.prems(2) obtain b bs' where b: "alloc k n = Inr b" "bs = b # bs'" and r: "allocate_slabs alloc (k + 1) szs = (Inr bs', k')"
    by (auto split: sum.splits if_splits prod.splits)
  have "n \<le> gb_bytes b" using Cons.prems(1) b(1) by (simp add: allocator_ok_def)
  then show ?case using Cons.IH [OF Cons.prems(1) r] b(2) by (auto simp: nth_Cons split: nat.split)
qed simp

lemma zero_buffer_bytes [simp]: "gb_bytes (zero_buffer b) = gb_bytes b"
  by (simp add: zero_buffer_def)

lemma flat_zero:
  assumes "layout_ok l" "length nb = length (ly_slab_at l)" "\<forall>s < length nb. ly_slab_size l ! s \<le> gb_bytes (nb ! s)" "slab_fits l a n" "j < n"
  shows "flat l (map zero_buffer nb) (a + j) = 0"
proof -
  obtain s where s: "s < length (ly_slab_at l)" "ly_slab_at l ! s \<le> a" "a + n \<le> ly_slab_at l ! s + ly_slab_size l ! s"
    using assms(4,5) by (auto simp: slab_fits_def)
  then have so: "slab_of l (a + j) = s" using slab_of_unique [OF assms(1)] assms(5) by simp
  have "ly_slab_size l ! s \<le> gb_bytes (nb ! s)" using s(1) assms(2,3) by simp
  then have "a + j - ly_slab_at l ! s < gb_bytes (nb ! s)" using s(2,3) assms(5) by linarith
  then show ?thesis using so s assms(2) by (simp add: flat_def loc_def Let_def zero_buffer_def mem_write_def)
qed

text \<open>
  A store that has grown: every byte that was live is where its region now is, the rest of every region is
  zero, and everything the host keeps is as before.
\<close>

definition kv_grown :: "kv_store \<Rightarrow> kv_store \<Rightarrow> bool" where
  "kv_grown st st' \<longleftrightarrow>
     kv_shape st' \<and> kv_valid st' \<and> ks_cap st \<le> ks_cap st'
     \<and> (\<exists>bufs lay cap. st' = st\<lparr>ks_bufs := bufs, ks_lay := lay, ks_cap := cap\<rparr>)
     \<and> (\<forall>i < regions st. \<forall>j < live_len st i. kv_byte st' (region_off st' i + j) = kv_byte st (region_off st i + j))
     \<and> (\<forall>i < regions st. \<forall>j. live_len st i \<le> j \<longrightarrow> j < region_size st' i \<longrightarrow> kv_byte st' (region_off st' i + j) = 0)"

lemma live_len_le:
  assumes "kv_shape st" "kv_config_ok (ks_cfg st)" "i < regions st" "ks_cap st \<le> cap" "cap \<le> kc_max_context (ks_cfg st)"
  shows "live_len st i \<le> region_size st i" "live_len st i \<le> region_sizes (ks_cfg st) (owners (ks_cfg st)) cap ! i"
proof -
  let ?c = "ks_cfg st" and ?os = "owners (ks_cfg st)"
  have hw: "ks_rows_hw st ! oi \<le> rows_for ?c (?os ! oi) (ks_cap st)" "rows_for ?c (?os ! oi) (ks_cap st) \<le> rows_for ?c (?os ! oi) cap"
    if "oi < length ?os" for oi
    using assms that rows_for_mono [OF assms(2) owners_less [OF nth_mem [OF that]] assms(4,5)] by (simp_all add: kv_shape_def kv_frame_def Let_def)
  have "live_len st i \<le> region_size st i \<and> region_size st i \<le> region_sizes ?c ?os cap ! i"
    using assms(3)
  proof (cases rule: region_cases)
    case (cmp oi)
    then show ?thesis using hw [OF cmp(1)] by (simp add: live_len_def plane_sizes mult_le_mono1)
  next
    case (key oi)
    then show ?thesis using hw [OF key(1)] by (simp add: live_len_def plane_sizes mult_le_mono1)
  qed (simp_all add: live_len_def)
  then show "live_len st i \<le> region_size st i" "live_len st i \<le> region_sizes ?c ?os cap ! i" by simp_all
qed

lemma fold_poke_sizes:
  "length (fold (\<lambda>(a, bs). poke (loc l a) bs) ws bufs) = length bufs"
  "gb_bytes (fold (\<lambda>(a, bs). poke (loc l a) bs) ws bufs ! s) = gb_bytes (bufs ! s)"
  by (induction ws arbitrary: bufs) (simp_all add: split_beta)

lemma sorted_wrt_distinct:
  "distinct xs \<Longrightarrow> (\<And>k m. k \<in> set xs \<Longrightarrow> m \<in> set xs \<Longrightarrow> k \<noteq> m \<Longrightarrow> P (f k) (f m)) \<Longrightarrow> sorted_wrt P (map f xs)"
  by (induction xs) auto

lemma copy_all:
  assumes "kv_shape st" "kv_config_ok (ks_cfg st)" "ks_cap st \<le> cap" "cap \<le> kc_max_context (ks_cfg st)"
    and nl: "nl = layout_for (ks_cfg st) (owners (ks_cfg st)) cap"
    and nb: "length nb = length (ly_slab_at nl)" "\<forall>s < length nb. ly_slab_size nl ! s \<le> gb_bytes (nb ! s)"
  defines "bufs \<equiv> fold (copy_region st nl) (live_regions st nl) (map zero_buffer nb)"
  shows "length bufs = length nb" "gb_bytes (bufs ! s) = gb_bytes (map zero_buffer nb ! s)"
    "i < regions st \<Longrightarrow> j < live_len st i \<Longrightarrow> flat nl bufs (region_offs nl ! i + j) = kv_byte st (region_off st i + j)"
    "i < regions st \<Longrightarrow> live_len st i \<le> j \<Longrightarrow> j < region_sizes (ks_cfg st) (owners (ks_cfg st)) cap ! i \<Longrightarrow>
       flat nl bufs (region_offs nl ! i + j) = 0"
proof -
  let ?n = "length (owners (ks_cfg st))" and ?ns = "region_sizes (ks_cfg st) (owners (ks_cfg st)) cap"
  let ?w = "\<lambda>i. (region_offs nl ! i, kv_read st (region_off st i) (live_len st i))"
  let ?z = "map zero_buffer nb" and ?ws = "map ?w (copy_order ?n)"
  note r = layout_for_regions [OF nl]
  note live = live_len_le [OF assms(1,2) _ assms(3,4)]
  have bufs: "bufs = fold (\<lambda>(a, bs). poke (loc nl a) bs) ?ws ?z"
    unfolding bufs_def live_regions_order [OF assms(1) r(3)] by (simp add: fold_map copy_region_def comp_def split_def)
  have zero_ok: "bufs_ok nl ?z (region_offs nl ! k + b) m" if "k < regions st" "b + m \<le> ?ns ! k" for k b m
    using fits_sub [OF r(6) that(2)] that(1) r(1) nb(1) by (simp add: bufs_ok_def)
  have ok: "bufs_ok nl ?z a (length bs)" if "(a, bs) \<in> set ?ws" for a bs
    using that zero_ok [of _ 0] live(2) by (auto simp: set_copy_order)
  have apart: "region_offs nl ! k + live_len st k \<le> region_offs nl ! m \<or> region_offs nl ! m + live_len st m \<le> region_offs nl ! k"
    if "k \<noteq> m" "k < regions st" "m < regions st" for k m
    using that r(7) [of k m] r(7) [of m k] live(2) [of k] live(2) [of m] by (cases "k < m") auto
  have disjoint: "sorted_wrt (\<lambda>(a, bs) (b, cs). a + length bs \<le> b \<or> b + length cs \<le> a) ?ws"
    by (rule sorted_wrt_distinct [OF distinct_copy_order]) (use apart in \<open>simp add: set_copy_order\<close>)
  show "length bufs = length nb" "gb_bytes (bufs ! s) = gb_bytes (?z ! s)" using fold_poke_sizes bufs by simp_all
  show "flat nl bufs (region_offs nl ! i + j) = kv_byte st (region_off st i + j)" if i: "i < regions st" "j < live_len st i"
  proof -
    have "?w i \<in> set ?ws" using i(1) by (simp add: set_copy_order)
    then have "flat nl bufs (region_offs nl ! i + j) = kv_read st (region_off st i) (live_len st i) ! j"
      unfolding bufs using slabs.fold_hit [where ws = ?ws and s = ?z, OF ok disjoint] i(2) by simp
    moreover have "kv_ok st (region_off st i) (live_len st i)" using region_part_ok [OF assms(1) i(1), of 0] live(1) [OF i(1)] by simp
    ultimately show ?thesis using i(2) by (simp add: kv_read_bytes)
  qed
  show "flat nl bufs (region_offs nl ! i + j) = 0" if i: "i < regions st" "live_len st i \<le> j" "j < ?ns ! i"
  proof -
    have "\<not> (a \<le> region_offs nl ! i + j \<and> region_offs nl ! i + j < a + length bs)" if w: "(a, bs) \<in> set ?ws" for a bs
    proof -
      obtain k where k: "k < regions st" "(a, bs) = ?w k" using w by (auto simp: set_copy_order)
      show ?thesis
      proof (cases "k = i")
        case True
        then show ?thesis using k i(2) by simp
      next
        case False
        then show ?thesis using k i(1,3) r(7) [of k i] r(7) [of i k] live(2) [of k] by (cases "k < i") auto
      qed
    qed
    then have "flat nl bufs (region_offs nl ! i + j) = flat nl ?z (region_offs nl ! i + j)"
      unfolding bufs using ok by (intro slabs.fold_other) blast
    then show ?thesis using flat_zero [OF r(1) nb(1,2) r(6) i(3)] i(1) by simp
  qed
qed

lemma reserve_error: "reserve alloc p st = (Inl e, st') \<Longrightarrow> st' = st"
  by (auto simp: reserve_def Let_def split: if_splits sum.splits)

lemma reserve_ok:
  assumes "kv_wf st" "allocator_ok alloc" "reserve alloc p st = (Inr u, st')"
  shows "kv_valid st" "p \<le> ks_cap st'" "st' = st \<or> kv_grown st st'"
proof -
  show v: "kv_valid st" using assms(3) by (auto simp: reserve_def split: if_splits)
  then have sh: "kv_shape st" "kv_config_ok (ks_cfg st)" using assms(1) by (simp_all add: kv_wf_def)
  have "p \<le> ks_cap st' \<and> (st' = st \<or> kv_grown st st')"
  proof (cases "p \<le> ks_cap st")
    case True
    then show ?thesis using assms(3) v by (simp add: reserve_def)
  next
    case False
    define nc where "nc = grown_cap st p"
    define nl where "nl = layout_for (ks_cfg st) (owners (ks_cfg st)) nc"
    have m: "p \<le> kc_max_context (ks_cfg st)" using assms(3) v False by (auto simp: reserve_def split: if_splits)
    have own: "ks_owners st = owners (ks_cfg st)" using sh(1) by (simp add: kv_shape_def kv_frame_def Let_def)
    obtain nb k where nb: "allocate_slabs alloc 0 (ly_slab_size nl) = (Inr nb, k)"
      and st': "st' = st\<lparr>ks_bufs := fold (copy_region st nl) (live_regions st nl) (map zero_buffer nb), ks_lay := nl, ks_cap := nc\<rparr>"
      using assms(3) v False m by (auto simp: reserve_def Let_def nl_def nc_def own split: sum.splits if_splits) (metis prod.exhaust_sel)
    have cap: "p \<le> nc" "ks_cap st \<le> nc" "nc \<le> kc_max_context (ks_cfg st)" using m False by (auto simp: nc_def grown_cap_def Let_def)
    have lo: "layout_ok nl" by (rule layout_for_regions(1) [OF nl_def])
    then have sizes: "length nb = length (ly_slab_at nl)" "\<forall>s < length nb. ly_slab_size nl ! s \<le> gb_bytes (nb ! s)"
      using allocate_slabs_sizes [OF assms(2) nb] by (simp_all add: layout_ok_def)
    note c = copy_all [OF sh cap(2,3) nl_def sizes]
    have "kv_shape st'"
    proof -
      have "ks_rows_hw st ! oi \<le> rows_for (ks_cfg st) (owners (ks_cfg st) ! oi) nc" if "oi < length (owners (ks_cfg st))" for oi
        using that sh rows_for_mono [OF sh(2) owners_less [OF nth_mem [OF that]] cap(2,3)] by (auto simp: kv_shape_def kv_frame_def Let_def intro: le_trans)
      then show ?thesis using sh(1) c(1,2) sizes cap(3) nl_def by (simp add: kv_shape_def kv_frame_def Let_def st')
    qed
    moreover have "kv_valid st'" using c(1) sizes(1) lo by (auto simp: kv_valid_def st' layout_ok_def)
    moreover have "kv_byte st' (region_off st' i + j) = kv_byte st (region_off st i + j)" if "i < regions st" "j < live_len st i" for i j
      using c(3) [OF that] by (simp add: kv_byte_def st')
    moreover have "kv_byte st' (region_off st' i + j) = 0" if "i < regions st" "live_len st i \<le> j" "j < region_size st' i" for i j
      using c(4) [OF that(1,2)] that(3) by (simp add: kv_byte_def st')
    ultimately have "kv_grown st st'" using cap(2) unfolding kv_grown_def by (auto simp: st')
    then show ?thesis using cap(1) st' by simp
  qed
  then show "p \<le> ks_cap st'" "st' = st \<or> kv_grown st st'" by simp_all
qed

lemma grown_sel:
  assumes "kv_grown st st'"
  shows "ks_cfg st' = ks_cfg st" "ks_owners st' = ks_owners st" "ks_owner_of st' = ks_owner_of st" "ks_rows_hw st' = ks_rows_hw st"
    "ks_n_cmp st' = ks_n_cmp st" "ks_n_kv st' = ks_n_kv st" "ks_win_lo st' = ks_win_lo st" "ks_slot_pos st' = ks_slot_pos st"
    "ks_prompt_ring st' = ks_prompt_ring st" "ks_prompt_slot_pos st' = ks_prompt_slot_pos st"
  using assms by (auto simp: kv_grown_def)

lemma reserve_sel:
  assumes "reserve alloc p st = (r, st')"
  shows "ks_cfg st' = ks_cfg st" "ks_owners st' = ks_owners st" "ks_owner_of st' = ks_owner_of st" "ks_rows_hw st' = ks_rows_hw st"
    "ks_n_cmp st' = ks_n_cmp st" "ks_n_kv st' = ks_n_kv st" "ks_win_lo st' = ks_win_lo st" "ks_slot_pos st' = ks_slot_pos st"
    "ks_prompt_ring st' = ks_prompt_ring st" "ks_prompt_slot_pos st' = ks_prompt_slot_pos st"
  using assms by (auto simp: reserve_def Let_def split: if_splits sum.splits)

lemma grown_read:
  assumes "kv_grown st st'" "kv_wf st" "kv_valid st" "i < regions st" "a + n \<le> live_len st i"
  shows "kv_read st' (region_off st' i + a) n = kv_read st (region_off st i + a) n"
proof -
  have sh: "kv_shape st" "kv_config_ok (ks_cfg st)" "kv_shape st'" "ks_cfg st' = ks_cfg st" "ks_cap st \<le> ks_cap st'"
    using assms(1-3) grown_sel(1) [OF assms(1)] by (auto simp: kv_wf_def kv_grown_def)
  then have cap: "ks_cap st' \<le> kc_max_context (ks_cfg st)" by (simp add: kv_shape_def kv_frame_def Let_def)
  note live = live_len_le [OF sh(1,2) assms(4) sh(5) cap]
  have ok: "kv_ok st (region_off st i + a) n" "kv_ok st' (region_off st' i + a) n"
    using region_part_ok [OF sh(1) assms(4), of a n] region_part_ok [OF sh(3), of i a n] live assms(4,5) sh(4) by simp_all
  have "kv_byte st' (region_off st' i + (a + j)) = kv_byte st (region_off st i + (a + j))" if "j < n" for j
    using assms(1,4,5) that by (simp add: kv_grown_def)
  then show ?thesis using ok by (auto simp: kv_read_bytes add.assoc intro!: nth_equalityI)
qed

section \<open>Every operation keeps the store well formed\<close>

lemma kv_frame_write [simp]: "kv_frame (kv_write a bs st) = kv_frame st"
  by (simp add: kv_frame_def Let_def)

lemma kv_frame_host:
  "kv_frame (st\<lparr>ks_win_lo := w\<rparr>) = kv_frame st" "kv_frame (st\<lparr>ks_slot_pos := ps\<rparr>) = kv_frame st"
  "kv_frame (st\<lparr>ks_prompt_ring := r\<rparr>) = kv_frame st" "kv_frame (st\<lparr>ks_prompt_slot_pos := ps\<rparr>) = kv_frame st"
  "length xs = length (ks_n_cmp st) \<Longrightarrow> kv_frame (st\<lparr>ks_n_cmp := xs\<rparr>) = kv_frame st"
  "length xs = length (ks_n_kv st) \<Longrightarrow> kv_frame (st\<lparr>ks_n_kv := xs\<rparr>) = kv_frame st"
  by (simp_all add: kv_frame_def Let_def)

lemma kv_wf_write [simp]: "kv_wf (kv_write a bs st) = kv_wf st"
  by (simp add: kv_wf_def)

lemma write_at_sel [simp]:
  "ks_cfg (write_at p k bs st) = ks_cfg st" "ks_lay (write_at p k bs st) = ks_lay st" "ks_cap (write_at p k bs st) = ks_cap st"
  "ks_owners (write_at p k bs st) = ks_owners st" "ks_owner_of (write_at p k bs st) = ks_owner_of st"
  "ks_rows_hw (write_at p k bs st) = ks_rows_hw st" "ks_n_cmp (write_at p k bs st) = ks_n_cmp st"
  "ks_n_kv (write_at p k bs st) = ks_n_kv st" "ks_win_lo (write_at p k bs st) = ks_win_lo st"
  "ks_slot_pos (write_at p k bs st) = ks_slot_pos st" "ks_prompt_ring (write_at p k bs st) = ks_prompt_ring st"
  "ks_prompt_slot_pos (write_at p k bs st) = ks_prompt_slot_pos st"
  "length (ks_bufs (write_at p k bs st)) = length (ks_bufs st)"
  "gb_bytes (ks_bufs (write_at p k bs st) ! s) = gb_bytes (ks_bufs st ! s)"
  by (simp_all add: write_at_def)

lemma kv_valid_write_at [simp]: "kv_valid (write_at p k bs st) = kv_valid st"
  using write_at_sel(13) [of p k bs st] unfolding kv_valid_def by (metis length_0_conv)

lemma kv_wf_write_at [simp]: "kv_wf (write_at p k bs st) = kv_wf st"
  by (simp add: kv_wf_def kv_shape_def kv_frame_def Let_def)

lemma kv_wf_fold: "(\<And>x st. kv_wf st \<Longrightarrow> kv_wf (f x st)) \<Longrightarrow> kv_wf st \<Longrightarrow> kv_wf (fold f xs st)"
  by (induction xs arbitrary: st) auto

lemma kv_wf_host [simp]:
  "kv_wf (st\<lparr>ks_win_lo := w\<rparr>) = kv_wf st" "kv_wf (st\<lparr>ks_prompt_ring := r\<rparr>) = kv_wf st" "kv_wf (st\<lparr>ks_prompt_slot_pos := ps\<rparr>) = kv_wf st"
  "length xs = length (ks_n_cmp st) \<Longrightarrow> kv_wf (st\<lparr>ks_n_cmp := xs\<rparr>) = kv_wf st"
  "length xs = length (ks_n_kv st) \<Longrightarrow> kv_wf (st\<lparr>ks_n_kv := xs\<rparr>) = kv_wf st"
  "length ps = length (ks_slot_pos st) \<Longrightarrow> kv_wf (st\<lparr>ks_slot_pos := ps\<rparr>) = kv_wf st"
  by (simp_all add: kv_wf_def kv_valid_def kv_shape_def kv_frame_def Let_def)

lemma kv_valid_host [simp]:
  "kv_valid (st\<lparr>ks_win_lo := w\<rparr>) = kv_valid st" "kv_valid (st\<lparr>ks_prompt_ring := r\<rparr>) = kv_valid st"
  "kv_valid (st\<lparr>ks_prompt_slot_pos := ps\<rparr>) = kv_valid st" "kv_valid (st\<lparr>ks_n_cmp := xs\<rparr>) = kv_valid st"
  "kv_valid (st\<lparr>ks_n_kv := xs\<rparr>) = kv_valid st" "kv_valid (st\<lparr>ks_slot_pos := ps\<rparr>) = kv_valid st" "kv_valid (st\<lparr>ks_rows_hw := xs\<rparr>) = kv_valid st"
  by (simp_all add: kv_valid_def)

lemma kv_wf_rows:
  assumes "kv_wf st" "length xs = length (ks_rows_hw st)"
    "\<And>oi. kv_valid st \<Longrightarrow> oi < length (owners (ks_cfg st)) \<Longrightarrow> xs ! oi \<le> rows_for (ks_cfg st) (owners (ks_cfg st) ! oi) (ks_cap st)"
  shows "kv_wf (st\<lparr>ks_rows_hw := xs\<rparr>)"
  using assms by (auto simp: kv_wf_def kv_valid_def kv_shape_def kv_frame_def Let_def)

lemma wf_rows:
  assumes "kv_wf st" "kv_valid st"
  shows "length (ks_rows_hw st) = length (owners (ks_cfg st))"
    "oi < length (owners (ks_cfg st)) \<Longrightarrow> ks_rows_hw st ! oi \<le> rows_for (ks_cfg st) (owners (ks_cfg st) ! oi) (ks_cap st)"
  using assms by (simp_all add: kv_wf_def kv_shape_def kv_frame_def Let_def)

lemma kv_wf_raise:
  assumes "kv_wf st" "kv_valid st \<Longrightarrow> n \<le> rows_for (ks_cfg st) (owners (ks_cfg st) ! oi) (ks_cap st)"
  shows "kv_wf (raise_hw oi n st)"
  unfolding raise_hw_def
  by (rule kv_wf_rows [OF assms(1)]) (use assms wf_rows [OF assms(1)] in \<open>auto simp: nth_upd\<close>)

lemma reserve_wf: "kv_wf st \<Longrightarrow> allocator_ok alloc \<Longrightarrow> reserve alloc p st = (r, st') \<Longrightarrow> kv_wf st'"
proof (cases r)
  case (Inl e)
  assume "kv_wf st" "reserve alloc p st = (r, st')"
  then show ?thesis using Inl reserve_error by blast
next
  case (Inr u)
  assume a: "kv_wf st" "allocator_ok alloc" "reserve alloc p st = (r, st')"
  then consider "st' = st" | "kv_grown st st'" using reserve_ok(3) [OF a(1,2)] Inr by blast
  then show ?thesis
  proof cases
    case 2
    then show ?thesis using a(1) grown_sel(1) [OF 2] by (simp add: kv_wf_def kv_grown_def)
  qed (use a in simp)
qed

lemma clear_planes_frame: "kv_frame st \<Longrightarrow> kv_frame (clear_planes st ois)"
  unfolding clear_planes_def
proof (induction ois arbitrary: st)
  case (Cons oi ois)
  let ?c = "ks_cfg st"
  let ?st = "kv_write (ly_off_idx (ks_lay st) ! oi) (replicate (ks_rows_hw st ! oi * kc_index_dim ?c * 2) 0)
     (kv_write (ly_off_cmp (ks_lay st) ! oi) (replicate (ks_rows_hw st ! oi * kc_latent_dim ?c * 2) 0) st)"
  have "kv_frame (?st\<lparr>ks_rows_hw := (ks_rows_hw st)[oi := 0]\<rparr>)" using Cons.prems by (auto simp: kv_frame_def Let_def nth_upd)
  then show ?case using Cons.IH by (simp add: Let_def)
qed simp

lemma clear_planes_sel [simp]:
  "ks_cfg (clear_planes st ois) = ks_cfg st" "length (ks_n_cmp (clear_planes st ois)) = length (ks_n_cmp st)"
  "length (ks_n_kv (clear_planes st ois)) = length (ks_n_kv st)" "length (ks_slot_pos (clear_planes st ois)) = length (ks_slot_pos st)"
  "kv_valid (clear_planes st ois) = kv_valid st"
  unfolding clear_planes_def by (induction ois arbitrary: st) (simp_all add: Let_def)

end
