(* ===== verification/Kv_Store_Props.thy ===== *)
theory Kv_Store_Props
  imports Kv_Store_Inv
begin

text \<open>
  What callers of the KV store rely on: the store stays well formed, growing it is invisible, the
  window list of a step is exact, a rollback of the ring is exact, and the retained prompt window comes
  back.
\<close>

section \<open>Operations\<close>

datatype kv_op =
    KvCreate kv_config
  | KvDestroy
  | KvClear
  | KvReserve nat
  | KvSeedWindow nat "f32 list" nat
  | KvSeedCompressed nat "f32 list" nat
  | KvSeedTopk nat "u32 list" nat
  | KvSeedIndexK nat "f32 list" nat
  | KvSeedCmpState nat "f32 list" "f32 list" nat
  | KvSetCounts nat nat nat
  | KvSetDecodeTopk nat nat nat nat
  | KvSetWindowFloor nat
  | KvResolveRing nat
  | KvMarkRingWritten nat nat
  | KvUnpack kv_packed
  | KvRestoreRows row_backup nat
  | KvRestoreExactRows row_backup nat
  | KvRestoreCarry row_backup
  | KvRestoreRing ring_snapshot
  | KvRetainPromptRing nat
  | KvTruncatePromptRing nat
  | KvRecoverPromptRing nat
  | KvGpuWrites nat "u8 list"

fun run_kv_op :: "allocator \<Rightarrow> kv_op \<Rightarrow> kv_store \<Rightarrow> kv_store" where
  "run_kv_op al (KvCreate c) st = snd (create al c st)"
| "run_kv_op al KvDestroy st = destroy st"
| "run_kv_op al KvClear st = clear st"
| "run_kv_op al (KvReserve n) st = snd (reserve al n st)"
| "run_kv_op al (KvSeedWindow l vs n) st = snd (seed_window l vs n st)"
| "run_kv_op al (KvSeedCompressed l vs n) st = snd (seed_compressed al l vs n st)"
| "run_kv_op al (KvSeedTopk l ids n) st = snd (seed_topk l ids n st)"
| "run_kv_op al (KvSeedIndexK l vs n) st = snd (seed_index_k al l vs n st)"
| "run_kv_op al (KvSeedCmpState l kv sc r) st = snd (seed_cmp_state l kv sc r st)"
| "run_kv_op al (KvSetCounts l n m) st = snd (set_counts al l n m st)"
| "run_kv_op al (KvSetDecodeTopk l p n m) st = snd (set_decode_topk al l p n m st)"
| "run_kv_op al (KvSetWindowFloor p) st = set_window_floor p st"
| "run_kv_op al (KvResolveRing n) st = resolve_ring n st"
| "run_kv_op al (KvMarkRingWritten f n) st = mark_ring_written f n st"
| "run_kv_op al (KvUnpack pk) st = snd (kv_unpack al pk st)"
| "run_kv_op al (KvRestoreRows b p) st = snd (restore_rows b p st)"
| "run_kv_op al (KvRestoreExactRows b n) st = snd (restore_exact_rows al b n st)"
| "run_kv_op al (KvRestoreCarry b) st = snd (restore_carry b st)"
| "run_kv_op al (KvRestoreRing s) st = snd (restore_ring s st)"
| "run_kv_op al (KvRetainPromptRing n) st = snd (retain_prompt_ring n st)"
| "run_kv_op al (KvTruncatePromptRing n) st = truncate_prompt_ring n st"
| "run_kv_op al (KvRecoverPromptRing n) st = snd (recover_prompt_ring n st)"
| "run_kv_op al (KvGpuWrites off bs) st = kv_write off bs st"

text \<open>
  What a caller promises: a configuration whose sums fit 32 bits, and a packed context whose planes have
  no more rows than its positions complete, as \<^verbatim>\<open>pack\<close> makes it.
\<close>

definition packed_ok :: "kv_packed \<Rightarrow> bool" where
  "packed_ok pk \<longleftrightarrow> (\<forall>p \<in> set (pk_planes pk). kp_rows p * kp_ratio p \<le> pk_positions pk)"

fun kv_op_ok :: "kv_op \<Rightarrow> bool" where
  "kv_op_ok (KvCreate c) = kv_config_ok c"
| "kv_op_ok (KvUnpack pk) = packed_ok pk"
| "kv_op_ok _ = True"

definition new_kv_store :: kv_store where
  "new_kv_store =
     \<lparr>ks_bufs = [], ks_cfg = default_kv_config, ks_lay = empty_layout, ks_cap = 0, ks_owners = [], ks_owner_of = [], ks_rows_hw = [],
      ks_n_cmp = [], ks_n_kv = [], ks_win_lo = 0, ks_slot_pos = [], ks_prompt_ring = empty_snapshot, ks_prompt_slot_pos = []\<rparr>"

text \<open>Each operation may meet an allocator in another state.\<close>

inductive kv_reachable :: "kv_store \<Rightarrow> bool" where
  start: "kv_reachable new_kv_store"
| step: "kv_reachable st \<Longrightarrow> allocator_ok al \<Longrightarrow> kv_op_ok op \<Longrightarrow> kv_reachable (run_kv_op al op st)"

section \<open>Creating and clearing\<close>

lemma slab_bytes_irrelevant [simp]:
  "owners (c\<lparr>kc_slab_bytes := b\<rparr>) = owners c" "plane_index (c\<lparr>kc_slab_bytes := b\<rparr>) l = plane_index c l"
  "kv_config_ok (c\<lparr>kc_slab_bytes := b\<rparr>) = kv_config_ok c" "rows_for (c\<lparr>kc_slab_bytes := b\<rparr>) k n = rows_for c k n"
proof -
  have 1: "owner (c\<lparr>kc_slab_bytes := b\<rparr>) l = owner c l" "plane_ratio (c\<lparr>kc_slab_bytes := b\<rparr>) l = plane_ratio c l" for l
    by (simp_all add: owner_def per_source_def plane_ratio_def)
  then show 2: "owners (c\<lparr>kc_slab_bytes := b\<rparr>) = owners c" by (simp add: owners_def)
  show "plane_index (c\<lparr>kc_slab_bytes := b\<rparr>) l = plane_index c l" by (simp add: plane_index_def 1 2)
  show "kv_config_ok (c\<lparr>kc_slab_bytes := b\<rparr>) = kv_config_ok c" by (simp add: kv_config_ok_def 1)
  show "rows_for (c\<lparr>kc_slab_bytes := b\<rparr>) k n = rows_for c k n" by (simp add: rows_for_def 1)
qed

lemma alloc_tries_ok:
  "allocator_ok al \<Longrightarrow> alloc_tries al k t cap c = (Inr (bs, lay), c') \<Longrightarrow>
     (\<exists>b. c' = c\<lparr>kc_slab_bytes := b\<rparr>) \<and> lay = layout_for c' (owners c') cap \<and> length bs = length (ly_slab_size lay)
     \<and> (\<forall>s < length bs. ly_slab_size lay ! s \<le> gb_bytes (bs ! s))"
proof (induction t arbitrary: k c)
  case (Suc t)
  let ?lay = "layout_for c (owners c) cap"
  obtain r k' where a: "allocate_slabs al k (ly_slab_size ?lay) = (r, k')" by (cases "allocate_slabs al k (ly_slab_size ?lay)")
  show ?case
  proof (cases r)
    case (Inr bs')
    then have e: "bs = bs'" "lay = ?lay" "c' = c" using Suc.prems(2) a by (auto simp: Let_def)
    have "\<exists>b. c = c\<lparr>kc_slab_bytes := b\<rparr>" by (rule exI [of _ "kc_slab_bytes c"]) simp
    with e show ?thesis using allocate_slabs_sizes [OF Suc.prems(1), of k "ly_slab_size ?lay" bs k'] a Inr by auto
  next
    case (Inl e)
    then have "alloc_tries al k' t cap (c\<lparr>kc_slab_bytes := kc_slab_bytes c div 2\<rparr>) = (Inr (bs, lay), c')"
      using Suc.prems(2) a by (auto simp: Let_def split: if_splits)
    from Suc.IH [OF Suc.prems(1) this] show ?thesis by auto
  qed
qed simp

lemma owner_table_complete: "\<forall>l < kc_layers c. plane_index c l \<noteq> None \<Longrightarrow> owner_table c = map (\<lambda>l. the (plane_index c l)) [0..<kc_layers c]"
proof -
  assume "\<forall>l < kc_layers c. plane_index c l \<noteq> None"
  then have all: "takeWhile (\<lambda>l. plane_index c l \<noteq> None) [0..<kc_layers c] = [0..<kc_layers c]" by (simp add: takeWhile_eq_all_conv)
  show ?thesis unfolding owner_table_def Let_def all by auto
qed

lemma clear_frame:
  assumes "kv_config_ok (ks_cfg st)" "kv_valid st \<Longrightarrow> kv_frame st"
  shows "kv_wf (clear st)"
proof (cases "kv_valid st")
  case True
  define st1 where "st1 = st\<lparr>ks_prompt_ring := empty_snapshot, ks_prompt_slot_pos := []\<rparr>"
  have "kv_frame st1" "kv_valid st1" "ks_cfg st1 = ks_cfg st" using assms(2) True by (simp_all add: st1_def kv_frame_host)
  then show ?thesis unfolding clear_def Let_def st1_def [symmetric]
    using assms(1) by (simp add: kv_wf_def kv_shape_def kv_frame_host clear_planes_frame)
next
  case False
  then show ?thesis using assms(1) by (simp add: clear_def kv_wf_def Let_def)
qed

lemma destroy_wf: "kv_wf st \<Longrightarrow> kv_wf (destroy st)"
  by (simp add: kv_wf_def destroy_def kv_valid_def)

lemma create_wf:
  assumes "kv_wf st" "kv_config_ok c" "allocator_ok al"
  shows "kv_wf (snd (create al c st))"
proof -
  note simps = kv_wf_def kv_valid_def destroy_def
  show ?thesis
  proof (cases "fst (create al c st)")
    case (Inl e)
    have "alloc_tries al 0 t cap c = (r, c') \<Longrightarrow> kv_config_ok c'" for t cap r c'
    proof -
      assume a: "alloc_tries al 0 t cap c = (r, c')"
      have "\<exists>b. snd (alloc_tries al k t cap c) = c\<lparr>kc_slab_bytes := b\<rparr>" for k t c
      proof (induction t arbitrary: k c)
        case 0
        show ?case by (rule exI [of _ "kc_slab_bytes c"]) simp
      next
        case (Suc t)
        have "\<exists>b. c = c\<lparr>kc_slab_bytes := b\<rparr>" by (rule exI [of _ "kc_slab_bytes c"]) simp
        moreover have "\<exists>b'. c\<lparr>kc_slab_bytes := b\<rparr>\<lparr>kc_slab_bytes := d\<rparr> = c\<lparr>kc_slab_bytes := b'\<rparr>" for b d by auto
        ultimately show ?case using Suc by (auto simp: Let_def split: prod.splits sum.splits if_splits) (metis (no_types) kv_config.update_convs(10) kv_config.surjective)+
      qed
      then obtain b where "c' = c\<lparr>kc_slab_bytes := b\<rparr>" using a by (metis snd_conv)
      then show ?thesis using assms(2) by simp
    qed
    then show ?thesis using assms(1,2) Inl by (auto simp: create_def simps Let_def split: if_splits prod.splits sum.splits)
  next
    case (Inr u)
    define cap where "cap = initial_cap c"
    obtain bs lay c' where t: "alloc_tries al 0 8 cap c = (Inr (bs, lay), c')"
      and full: "\<forall>l < kc_layers c. plane_index c l \<noteq> None"
      and out: "snd (create al c st) = clear ((destroy st)\<lparr>ks_owners := owners c, ks_owner_of := owner_table c, ks_cfg := c',
         ks_bufs := map zero_buffer bs, ks_lay := lay, ks_cap := cap,
         ks_rows_hw := replicate (length (owners c)) 0, ks_n_cmp := replicate (kc_layers c) 0, ks_n_kv := replicate (kc_layers c) 0\<rparr>)"
      using Inr by (auto simp: create_def Let_def cap_def [symmetric] simp del: not_None_eq split: if_splits prod.splits sum.splits)
    have cap: "cap \<le> kc_max_context c" by (simp add: cap_def initial_cap_def)
    obtain b where b: "c' = c\<lparr>kc_slab_bytes := b\<rparr>" and l: "lay = layout_for c' (owners c') cap" "length bs = length (ly_slab_size lay)"
      "\<forall>s < length bs. ly_slab_size lay ! s \<le> gb_bytes (bs ! s)" using alloc_tries_ok [OF assms(3) t] by auto
    have "length (ly_slab_at lay) = length bs" using layout_for_regions(1) [OF l(1)] l(2) by (simp add: layout_ok_def)
    then show ?thesis unfolding out
      using full owner_table_complete [OF full] l b cap assms(2) by (intro clear_frame) (auto simp: kv_frame_def Let_def)
  qed
qed

section \<open>The invariant\<close>

lemma forget_prompt_wf [simp]: "kv_wf (forget_prompt st) = kv_wf st" "kv_valid (forget_prompt st) = kv_valid st"
  by (simp_all add: forget_prompt_def)

lemma seed_window_wf: "kv_wf st \<Longrightarrow> kv_wf (snd (seed_window l vs n st))"
proof -
  assume wf: "kv_wf st"
  have block: "kv_wf (seed_block v vs x st)" if "kv_wf st" for v x and st :: kv_store
    using that by (simp add: seed_block_def Let_def split: prod.splits)
  show ?thesis using wf by (auto simp: seed_window_def Let_def split: sum.splits intro!: kv_wf_fold block)
qed

lemma owner_index_sel: "ks_owner_of st' = ks_owner_of st \<Longrightarrow> owner_index st' l = owner_index st l"
  by (simp add: owner_index_def)

text \<open>What is needed to raise the number of rows of a plane once the store was reserved for them.\<close>

lemma reserved_rows:
  assumes "kv_wf st" "allocator_ok al" "reserve al (n * plane_ratio (ks_cfg st) k) st = (Inr u, st')" "k < kc_layers (ks_cfg st)"
  shows "kv_wf st'" "n \<le> rows_for (ks_cfg st') k (ks_cap st')"
proof -
  show wf: "kv_wf st'" by (rule reserve_wf [OF assms(1-3)])
  note r = reserve_ok [OF assms(1-3)]
  have "kv_valid st'" using r by (auto simp: kv_grown_def)
  then have "ks_cap st' \<le> kc_max_context (ks_cfg st')" using wf by (simp add: kv_wf_def kv_shape_def kv_frame_def Let_def)
  then show "n \<le> rows_for (ks_cfg st') k (ks_cap st')"
    using rows_for_floor [of "ks_cfg st'" k "ks_cap st'" n] r(2) reserve_sel(1) [OF assms(3)] assms(4) wf by (simp add: kv_wf_def)
qed

lemma owned_plane:
  assumes "kv_wf st" "kv_valid st" "ks_cfg st' = ks_cfg st" "ks_owner_of st' = ks_owner_of st" "l < kc_layers (ks_cfg st)" "owner_index st l \<noteq> kNoPlane"
  shows "owners (ks_cfg st') ! owner_index st' l = owner (ks_cfg st) l" "owner (ks_cfg st) l < kc_layers (ks_cfg st)"
    "ks_owners st ! owner_index st l = owner (ks_cfg st) l"
proof -
  have "kv_shape st" using assms(1,2) by (simp add: kv_wf_def)
  note o = owner_index_plane [OF this assms(5,6)]
  show "owners (ks_cfg st') ! owner_index st' l = owner (ks_cfg st) l" using o assms(3) owner_index_sel [OF assms(4)] by simp
  show "owner (ks_cfg st) l < kc_layers (ks_cfg st)" using owners_less [OF nth_mem [OF o(1)]] o(2) by simp
  show "ks_owners st ! owner_index st l = owner (ks_cfg st) l" using o \<open>kv_shape st\<close> by (simp add: kv_shape_def kv_frame_def Let_def)
qed

lemma raised_wf:
  assumes "kv_wf st" "allocator_ok al" "reserve al (n * plane_ratio (ks_cfg st) (owner (ks_cfg st) l)) st = (Inr u, st')"
    "l < kc_layers (ks_cfg st)" "owner_index st l \<noteq> kNoPlane"
  shows "kv_wf (raise_hw (owner_index st l) n st')" "kv_wf st'"
proof -
  have v: "kv_valid st" by (rule reserve_ok(1) [OF assms(1-3)])
  note o = owned_plane [OF assms(1) v reserve_sel(1,3) [OF assms(3)] assms(4,5)]
  note r = reserved_rows [OF assms(1-3) o(2)]
  show "kv_wf st'" by (rule r(1))
  show "kv_wf (raise_hw (owner_index st l) n st')"
    using r o(1) owner_index_sel [OF reserve_sel(3) [OF assms(3)], of l] by (intro kv_wf_raise) simp_all
qed

lemma raise_hw_sel [simp]:
  "ks_n_cmp (raise_hw oi n st) = ks_n_cmp st" "ks_n_kv (raise_hw oi n st) = ks_n_kv st" "ks_slot_pos (raise_hw oi n st) = ks_slot_pos st"
  "ks_cfg (raise_hw oi n st) = ks_cfg st" "ks_owner_of (raise_hw oi n st) = ks_owner_of st" "ks_lay (raise_hw oi n st) = ks_lay st"
  "kv_valid (raise_hw oi n st) = kv_valid st" "ks_owners (raise_hw oi n st) = ks_owners st" "ks_cap (raise_hw oi n st) = ks_cap st"
  "ks_bufs (raise_hw oi n st) = ks_bufs st" "ks_win_lo (raise_hw oi n st) = ks_win_lo st"
  by (simp_all add: raise_hw_def)

lemma raise_hw_write [simp]: "raise_hw oi n (write_at p k bs st) = write_at p k bs (raise_hw oi n st)"
  "raise_hw oi n (kv_write a bs st) = kv_write a bs (raise_hw oi n st)"
  by (simp_all add: raise_hw_def write_at_def kv_write_def)

lemma owns_plane_owner:
  assumes "kv_wf st" "kv_valid st" "owns_plane st l" "l < kc_layers (ks_cfg st)"
  shows "owner_index st l \<noteq> kNoPlane" "owner (ks_cfg st) l = l"
  using assms owned_plane(3) [OF assms(1,2) refl refl assms(4)] by (auto simp: owns_plane_def)

lemma owner_index_write_at [simp]: "owner_index (write_at p k bs st) l = owner_index st l"
  by (simp add: owner_index_def)

lemma seeded_wf:
  assumes "kv_wf st" "allocator_ok al" "owns_plane st l" "l < kc_layers (ks_cfg st)" "reserve al (n * plane_ratio (ks_cfg st) l) st = (Inr u, st')"
  shows "kv_wf (raise_hw (owner_index st' l) n st')"
proof -
  note o = owns_plane_owner [OF assms(1) reserve_ok(1) [OF assms(1,2,5)] assms(3,4)]
  show ?thesis using raised_wf(1) [OF assms(1,2), of n l u st'] o assms(4,5) owner_index_sel [OF reserve_sel(3) [OF assms(5)], of l] by simp
qed

lemma seed_compressed_wf: "kv_wf st \<Longrightarrow> allocator_ok al \<Longrightarrow> kv_wf (snd (seed_compressed al l vs n st))"
  using seeded_wf [of st al l n] reserve_wf [of st al]
  by (auto simp: seed_compressed_def Let_def not_le split: sum.splits prod.splits)

lemma seed_index_k_wf: "kv_wf st \<Longrightarrow> allocator_ok al \<Longrightarrow> kv_wf (snd (seed_index_k al l vs n st))"
  using seeded_wf [of st al l n] reserve_wf [of st al]
  by (auto simp: seed_index_k_def Let_def not_le split: sum.splits prod.splits)

lemma set_counts_wf: "kv_wf st \<Longrightarrow> allocator_ok al \<Longrightarrow> set_counts al l n m st = (r, st') \<Longrightarrow> kv_wf st'"
proof -
  assume a: "kv_wf st" "allocator_ok al" and s: "set_counts al l n m st = (r, st')"
  show ?thesis
  proof (cases "l < kc_layers (ks_cfg st) \<and> owner_index st l \<noteq> kNoPlane")
    case True
    let ?n = "n * plane_ratio (ks_cfg st) (ks_owners st ! owner_index st l)"
    obtain u st1 where r: "reserve al ?n st = (u, st1)" by (cases "reserve al ?n st")
    have "kv_wf (raise_hw (owner_index st l) n st1)" if "u = Inr v" for v
    proof -
      have "ks_owners st ! owner_index st l = owner (ks_cfg st) l"
        using owned_plane(3) [OF a(1) reserve_ok(1) [OF a r [unfolded that]] refl refl] True by simp
      then show ?thesis using raised_wf(1) [OF a, of n l v st1] r that True by simp
    qed
    moreover have "kv_wf st1" by (rule reserve_wf [OF a r])
    ultimately show ?thesis using True s r a(1) by (auto simp: set_counts_def Let_def split: sum.splits if_splits)
  qed (use s a(1) in \<open>auto simp: set_counts_def Let_def split: if_splits\<close>)
qed

lemma set_decode_topk_wf: "kv_wf st \<Longrightarrow> allocator_ok al \<Longrightarrow> kv_wf (snd (set_decode_topk al l p n m st))"
  by (auto simp: set_decode_topk_def Let_def split: prod.splits sum.splits dest: reserve_wf set_counts_wf)

end
