(* ===== verification/Kv_Context_Props.thy ===== *)
theory Kv_Context_Props
  imports Kv_Store_Props
begin

text \<open>
  The operations that save and restore contexts keep the store well formed, and with them every sequence
  of operations does. Then what each of them restores.
\<close>

section \<open>Restoring keeps the store well formed\<close>

lemma seed_topk_wf: "kv_wf st \<Longrightarrow> kv_wf (snd (seed_topk l ids n st))"
  by (simp add: seed_topk_def Let_def split: sum.splits)

lemma seed_cmp_state_wf: "kv_wf st \<Longrightarrow> kv_wf (snd (seed_cmp_state l kv sc r st))"
  by (simp add: seed_cmp_state_def Let_def split: sum.splits)

lemma resolve_ring_wf: "kv_wf st \<Longrightarrow> kv_wf (resolve_ring n st)"
  by (simp add: resolve_ring_def)

lemma length_fold_update: "length (fold (\<lambda>i xs. xs[f i := g i]) is xs) = length xs"
  by (induction "is" arbitrary: xs) simp_all

lemma mark_ring_written_wf: "kv_wf st \<Longrightarrow> kv_wf (mark_ring_written f n st)"
  by (simp add: mark_ring_written_def length_fold_update)

lemma over_planes_keeps:
  assumes "\<And>p st. I st \<Longrightarrow> I (snd (f p st))" "I st"
  shows "I (snd (over_planes f ps st))"
  using assms(2)
proof (induction ps arbitrary: st)
  case (Cons p ps)
  from assms(1) [OF Cons.prems, of p] show ?case using Cons.IH by (auto split: prod.splits sum.splits)
qed simp

lemma restore_row_wf: "kv_wf st \<Longrightarrow> kv_wf (snd (restore_row n p st))"
  by (simp add: restore_row_def Let_def)

lemma restore_rows_wf: "kv_wf st \<Longrightarrow> kv_wf (snd (restore_rows b p st))"
  by (simp add: restore_rows_def over_planes_keeps restore_row_wf)

lemma restore_plane_carry_wf: "kv_wf st \<Longrightarrow> kv_wf (snd (restore_plane_carry p st))"
  by (simp add: restore_plane_carry_def Let_def)

lemma restore_carry_wf: "kv_wf st \<Longrightarrow> kv_wf (snd (restore_carry b st))"
  by (simp add: restore_carry_def over_planes_keeps restore_plane_carry_wf)

lemma restore_slot_wf: "kv_wf st \<Longrightarrow> kv_wf (restore_slot s x st)"
  by (simp add: restore_slot_def Let_def split: prod.splits)

lemma restore_ring_wf: "kv_wf st \<Longrightarrow> kv_wf (snd (restore_ring s st))"
  by (auto simp: restore_ring_def Let_def length_fold_update intro!: kv_wf_fold restore_slot_wf)

lemma retain_prompt_ring_wf: "kv_wf st \<Longrightarrow> kv_wf (snd (retain_prompt_ring n st))"
  by (simp add: retain_prompt_ring_def Let_def resolve_ring_wf split: sum.splits)

lemma truncate_prompt_ring_wf: "kv_wf st \<Longrightarrow> kv_wf (truncate_prompt_ring n st)"
  by (simp add: truncate_prompt_ring_def)

lemma recover_row_wf: "kv_wf (fst x) \<Longrightarrow> kv_wf (fst (recover_row p x))"
  by (auto simp: recover_row_def Let_def split: prod.splits intro!: kv_wf_fold)

lemma recover_rows_wf: "kv_wf (fst x) \<Longrightarrow> kv_wf (fst (fold recover_row ps x))"
  by (induction ps arbitrary: x) (simp_all add: recover_row_wf)

lemma recover_prompt_ring_wf: "kv_wf st \<Longrightarrow> kv_wf (snd (recover_prompt_ring n st))"
  using recover_rows_wf [of "(st, 0)"] by (simp add: recover_prompt_ring_def Let_def split: prod.splits) (metis fst_conv)

lemma context_counts_wf: "kv_wf st \<Longrightarrow> kv_valid st \<Longrightarrow> kv_wf (context_counts n st)"
  by (auto simp: context_counts_def kv_wf_def kv_shape_def kv_frame_def Let_def)

text \<open>Rows that the capacity covers may be marked as holding data.\<close>

lemma rows_covered:
  assumes "kv_wf st" "kv_valid st" "oi < length (owners (ks_cfg st))" "n * plane_ratio (ks_cfg st) (owners (ks_cfg st) ! oi) \<le> ks_cap st"
  shows "n \<le> rows_for (ks_cfg st) (owners (ks_cfg st) ! oi) (ks_cap st)"
  using assms(1,2) rows_for_floor [OF _ owners_less [OF nth_mem [OF assms(3)]] _ assms(4)]
  by (simp add: kv_wf_def kv_shape_def kv_frame_def Let_def)

lemma unpack_plane_wf:
  assumes "kv_wf st" "kv_valid st" "kp_rows p * kp_ratio p \<le> ks_cap st"
  shows "kv_wf (snd (unpack_plane p st)) \<and> kv_valid (snd (unpack_plane p st)) \<and> ks_cap (snd (unpack_plane p st)) = ks_cap st"
proof (cases "fst (unpack_plane p st)")
  case (Inr u)
  let ?oi = "owner_index st (kp_layer p)"
  have own: "?oi \<noteq> kNoPlane" "ks_owners st ! ?oi = kp_layer p" "plane_ratio (ks_cfg st) (kp_layer p) = kp_ratio p"
    using Inr by (auto simp: unpack_plane_def Let_def split: if_splits)
  have sh: "kv_shape st" using assms(1,2) by (simp add: kv_wf_def)
  have "ks_owners st = owners (ks_cfg st)" using sh by (simp add: kv_shape_def kv_frame_def Let_def)
  then have "kp_rows p \<le> rows_for (ks_cfg st) (owners (ks_cfg st) ! ?oi) (ks_cap st)"
    using rows_covered [OF assms(1,2) owner_index_less [OF sh own(1)]] own(2,3) assms(3) by simp
  then have "kv_wf (raise_hw ?oi (kp_rows p) st)" using assms(1) by (intro kv_wf_raise)
  then show ?thesis using assms(2) own by (simp add: unpack_plane_def Let_def)
qed (use assms in \<open>auto simp: unpack_plane_def Let_def split: if_splits\<close>)

lemma unpack_planes_wf:
  "\<lbrakk>kv_wf st; kv_valid st; \<forall>p \<in> set ps. kp_rows p * kp_ratio p \<le> ks_cap st\<rbrakk>
     \<Longrightarrow> kv_wf (snd (unpack_planes ps st)) \<and> kv_valid (snd (unpack_planes ps st))"
proof (induction ps arbitrary: st)
  case (Cons p ps)
  have "kp_rows p * kp_ratio p \<le> ks_cap st" using Cons.prems by simp
  from unpack_plane_wf [OF Cons.prems(1,2) this] show ?case using Cons.IH Cons.prems(3) by (auto split: prod.splits sum.splits)
qed simp

lemma kv_unpack_wf:
  assumes "kv_wf st" "allocator_ok al" "packed_ok pk"
  shows "kv_wf (snd (kv_unpack al pk st))"
proof (cases "kv_valid st")
  case True
  let ?st = "forget_prompt st"
  obtain r st1 where r: "reserve al (max (pk_positions pk) 1) ?st = (r, st1)" by (cases "reserve al (max (pk_positions pk) 1) ?st")
  have wf: "kv_wf ?st" "kv_wf st1" using assms(1) reserve_wf [OF _ assms(2) r] by simp_all
  have "kv_wf (snd (unpack_planes (pk_planes pk) st1)) \<and> kv_valid (snd (unpack_planes (pk_planes pk) st1))" if u: "r = Inr u" for u
  proof -
    note ok = reserve_ok [OF wf(1) assms(2) r [unfolded u]]
    have "kv_valid st1" using ok by (auto simp: kv_grown_def)
    moreover have "\<forall>p \<in> set (pk_planes pk). kp_rows p * kp_ratio p \<le> ks_cap st1" using ok(2) assms(3) by (fastforce simp: packed_ok_def)
    ultimately show ?thesis by (rule unpack_planes_wf [OF wf(2)])
  qed
  then show ?thesis using True wf r by (auto simp: kv_unpack_def Let_def split: sum.splits prod.splits intro: context_counts_wf)
qed (use assms in \<open>simp add: kv_unpack_def\<close>)

lemma exact_rows_wf:
  assumes "kv_wf st" "kv_valid st" "\<forall>i \<in> set is. i < length (owners (ks_cfg st)) \<and>
      bp_rows (ps ! i) * plane_ratio (ks_cfg st) (owners (ks_cfg st) ! i) \<le> ks_cap st"
  defines "f \<equiv> \<lambda>i st.
     let p = ps ! i;
         st = kv_write (ly_off_cmp (ks_lay st) ! i) (encode_list (le_bytes 2) (bp_cmp p)) st;
         st = kv_write (ly_off_idx (ks_lay st) ! i) (encode_list (le_bytes 2) (bp_key p)) st
     in st\<lparr>ks_rows_hw := (ks_rows_hw st)[i := bp_rows p]\<rparr>"
  shows "kv_wf (fold f is st) \<and> kv_valid (fold f is st)"
  using assms(1-3)
proof (induction "is" arbitrary: st)
  case (Cons i "is")
  note rows = wf_rows [OF Cons.prems(1,2)]
  have "bp_rows (ps ! i) \<le> rows_for (ks_cfg st) (owners (ks_cfg st) ! i) (ks_cap st)"
    using rows_covered [OF Cons.prems(1,2)] Cons.prems(3) by simp
  then have "kv_wf (f i st)" using Cons.prems(1) rows unfolding f_def Let_def
    by (intro kv_wf_rows) (auto simp: nth_upd)
  moreover have "kv_valid (f i st)" "ks_cfg (f i st) = ks_cfg st" "ks_cap (f i st) = ks_cap st"
    using Cons.prems(2) by (simp_all add: f_def Let_def)
  ultimately show ?case using Cons.IH Cons.prems(3) by simp
qed simp

lemma restore_exact_rows_wf:
  assumes "kv_wf st" "allocator_ok al"
  shows "kv_wf (snd (restore_exact_rows al b n st))"
proof (cases "length (rb_planes b) = length (ks_owners st) \<and> (\<forall>i < length (ks_owners st). baked_plane_ok st n i (rb_planes b ! i))")
  case True
  obtain r st1 where r: "reserve al n st = (r, st1)" by (cases "reserve al n st")
  have wf: "kv_wf st1" by (rule reserve_wf [OF assms r])
  show ?thesis
  proof (cases r)
    case (Inr u)
    note ok = reserve_ok [OF assms r [unfolded Inr]] and sel = reserve_sel [OF r]
    have v: "kv_valid st1" using ok by (auto simp: kv_grown_def)
    have o: "ks_owners st = owners (ks_cfg st1)" using assms(1) ok(1) sel(1) by (simp add: kv_wf_def kv_shape_def kv_frame_def Let_def)
    have "bp_rows (rb_planes b ! i) * plane_ratio (ks_cfg st1) (owners (ks_cfg st1) ! i) \<le> ks_cap st1" if "i < length (ks_owners st)" for i
    proof -
      have "baked_plane_ok st n i (rb_planes b ! i)" using True that by blast
      then have "bp_rows (rb_planes b ! i) = n div bp_ratio (rb_planes b ! i)" "bp_ratio (rb_planes b ! i) = plane_ratio (ks_cfg st1) (owners (ks_cfg st1) ! i)"
        using o sel(1) by (auto simp: baked_plane_ok_def Let_def)
      then show ?thesis using ok(2) div_times_less_eq_dividend le_trans by metis
    qed
    then have each: "\<forall>i \<in> set [0..<length (ks_owners st)]. i < length (owners (ks_cfg st1)) \<and>
      bp_rows (rb_planes b ! i) * plane_ratio (ks_cfg st1) (owners (ks_cfg st1) ! i) \<le> ks_cap st1" using o by simp
    show ?thesis using True Inr r exact_rows_wf [OF wf v each]
      by (auto simp: restore_exact_rows_def Let_def intro!: restore_carry_wf context_counts_wf)
  qed (use True r wf in \<open>auto simp: restore_exact_rows_def Let_def\<close>)
qed (use assms in \<open>auto simp: restore_exact_rows_def Let_def\<close>)

lemma run_kv_op_wf:
  assumes "kv_wf st" "allocator_ok al" "kv_op_ok op"
  shows "kv_wf (run_kv_op al op st)"
proof -
  note wfs = create_wf destroy_wf seed_window_wf seed_compressed_wf seed_topk_wf seed_index_k_wf seed_cmp_state_wf
    set_decode_topk_wf resolve_ring_wf mark_ring_written_wf kv_unpack_wf restore_rows_wf restore_exact_rows_wf
    restore_carry_wf restore_ring_wf retain_prompt_ring_wf truncate_prompt_ring_wf recover_prompt_ring_wf
  have "kv_wf (clear st)" using assms(1) by (intro clear_frame) (auto simp: kv_wf_def kv_shape_def)
  moreover have "kv_wf (snd (reserve al n st))" for n by (rule reserve_wf [OF assms(1,2) prod.collapse [symmetric]])
  moreover have "kv_wf (snd (set_counts al l n m st))" for l n m by (rule set_counts_wf [OF assms(1,2) prod.collapse [symmetric]])
  ultimately show ?thesis using assms by (cases op) (simp_all add: wfs set_window_floor_def)
qed

lemma kv_reachable_wf: "kv_reachable st \<Longrightarrow> kv_wf st"
proof (induction rule: kv_reachable.induct)
  case start
  show ?case by (simp add: new_kv_store_def kv_wf_def kv_valid_def kv_config_ok_def default_kv_config_def plane_ratio_def per_source_def)
next
  case (step st al op)
  then show ?case by (intro run_kv_op_wf)
qed

lemma clear_planes_cap [simp]: "ks_cap (clear_planes st ois) = ks_cap st"
  unfolding clear_planes_def by (induction ois arbitrary: st) (simp_all add: Let_def)

section \<open>What every store promises\<close>

text \<open>A region lies inside the memory of the buffer that holds it.\<close>

lemma region_in_buffer:
  assumes "kv_shape st" "i < regions st" "j < region_size st i"
  shows "fst (loc (ks_lay st) (region_off st i + j)) < length (ks_bufs st)"
    "snd (loc (ks_lay st) (region_off st i + j)) < gb_bytes (ks_bufs st ! fst (loc (ks_lay st) (region_off st i + j)))"
proof -
  let ?l = "ks_lay st" and ?a = "region_off st i" and ?n = "region_size st i"
  have ok: "layout_ok ?l" "length (ks_bufs st) = length (ly_slab_at ?l)" "slab_fits ?l ?a ?n"
    using shape_layout(5) [OF assms(1,2)] by (simp_all add: kv_ok_def bufs_ok_def)
  obtain s where s: "s < length (ly_slab_at ?l)" "ly_slab_at ?l ! s \<le> ?a" "?a + ?n \<le> ly_slab_at ?l ! s + ly_slab_size ?l ! s"
    using ok(3) assms(3) by (auto simp: slab_fits_def)
  then have so: "slab_of ?l (?a + j) = s" using slab_of_unique [OF ok(1)] assms(3) by simp
  moreover have "\<forall>s < length (ks_bufs st). ly_slab_size ?l ! s \<le> gb_bytes (ks_bufs st ! s)"
    using assms(1) unfolding kv_shape_def kv_frame_def Let_def by blast
  then have "ly_slab_size ?l ! s \<le> gb_bytes (ks_bufs st ! s)" using s(1) ok(2) by simp
  ultimately show "fst (loc ?l (?a + j)) < length (ks_bufs st)" "snd (loc ?l (?a + j)) < gb_bytes (ks_bufs st ! fst (loc ?l (?a + j)))"
    using s ok(2) assms(3) by (simp_all add: loc_def Let_def)
qed

text \<open>
  C13. A store that is created only with geometries that have a window of at least one slot and less than 2^31
  and whose positions and ratios stay within 32 bits (\<open>kv_config_ok\<close>), and that unpacks only contexts whose
  planes have no more rows than their positions complete (\<open>packed_ok\<close>, as packing makes them; the code checks
  neither). Whatever sequence of operations such a store went through, whatever an allocator answered that
  gives at least the bytes asked for, whatever the kernels wrote and whichever of the calls failed: the capacity stays within the context, every byte of
  every region lies inside the buffer that holds it, no two regions overlap, the rows marked as holding
  data fit their planes, every layer reads an existing plane or none, and the tables of the host have an
  entry per layer, per plane and per ring slot.
\<close>

theorem kv_store_invariant:
  assumes "kv_reachable st" "kv_valid st"
  shows "ks_cap st \<le> kc_max_context (ks_cfg st)
    \<and> (\<forall>i < regions st. \<forall>j < region_size st i.
         fst (loc (ks_lay st) (region_off st i + j)) < length (ks_bufs st)
         \<and> snd (loc (ks_lay st) (region_off st i + j)) < gb_bytes (ks_bufs st ! fst (loc (ks_lay st) (region_off st i + j))))
    \<and> (\<forall>i j. i < j \<longrightarrow> j < regions st \<longrightarrow> region_off st i + region_size st i \<le> region_off st j)
    \<and> (\<forall>oi < length (ks_owners st). ks_rows_hw st ! oi \<le> rows_for (ks_cfg st) (ks_owners st ! oi) (ks_cap st))
    \<and> (\<forall>l < kc_layers (ks_cfg st). owner_index st l = kNoPlane \<or>
         owner_index st l < length (ks_owners st) \<and> ks_owners st ! owner_index st l = owner (ks_cfg st) l)
    \<and> length (ks_rows_hw st) = length (ks_owners st) \<and> length (ks_n_cmp st) = kc_layers (ks_cfg st)
    \<and> length (ks_n_kv st) = kc_layers (ks_cfg st) \<and> length (ks_slot_pos st) = kc_window (ks_cfg st)"
proof -
  have sh: "kv_shape st" using kv_reachable_wf [OF assms(1)] assms(2) by (simp add: kv_wf_def)
  then have f: "ks_owners st = owners (ks_cfg st)" "ks_cap st \<le> kc_max_context (ks_cfg st)" "length (ks_rows_hw st) = length (ks_owners st)"
    "length (ks_n_cmp st) = kc_layers (ks_cfg st)" "length (ks_n_kv st) = kc_layers (ks_cfg st)" "length (ks_slot_pos st) = kc_window (ks_cfg st)"
    "\<forall>oi < length (ks_owners st). ks_rows_hw st ! oi \<le> rows_for (ks_cfg st) (ks_owners st ! oi) (ks_cap st)"
    by (simp_all add: kv_shape_def kv_frame_def Let_def)
  show ?thesis using f region_in_buffer [OF sh] shape_layout(4) [OF sh] owner_index_plane [OF sh] by auto
qed

text \<open>A small store: two layers, of which the second reads the planes of the first, in slabs of 4096 bytes.\<close>

definition small_config :: kv_config where
  "small_config =
     \<lparr>kc_layers = 2, kc_window = 2, kc_latent_dim = 16, kc_index_dim = 32, kc_max_context = 8, kc_scale_block = 16,
      kc_max_ratio = 2, kc_index_topk = 4, kc_initial_context = 2, kc_slab_bytes = 4096, kc_plane_of = [0, 0], kc_ratio = [2, 2]\<rparr>"

definition small_alloc :: allocator where
  "small_alloc k n = Inr \<lparr>gb_bytes = n, gb_mapped = True, gb_dev_addr = 4096, gb_mem = (\<lambda>i. of_nat i)\<rparr>"

definition small_store :: kv_store where
  "small_store = run_kv_op small_alloc (KvCreate small_config) new_kv_store"

lemma small_alloc_ok: "allocator_ok small_alloc"
  by (auto simp: allocator_ok_def small_alloc_def)

lemma small_config_owners: "owner small_config 0 = 0" "owner small_config 1 = 0" "owners small_config = [0]" "kv_config_ok small_config"
  "plane_ratio small_config 0 = 2"
proof -
  show o: "owner small_config 0 = 0" "owner small_config 1 = 0" by (simp_all add: owner_def small_config_def per_source_def)
  have "[0..<kc_layers small_config] = [0, 1]" by (simp add: small_config_def upt_rec)
  then show "owners small_config = [0]" using o by (simp add: owners_def)
  have "plane_ratio small_config k = 2" if "k < 2" for k
    using that by (auto simp: plane_ratio_def small_config_def per_source_def less_2_cases_iff)
  then show "kv_config_ok small_config" "plane_ratio small_config 0 = 2" by (simp_all add: kv_config_ok_def small_config_def)
qed

lemma small_store_reachable: "kv_reachable small_store"
  unfolding small_store_def
  by (rule kv_reachable.step [OF kv_reachable.start]) (simp_all add: small_alloc_ok small_config_owners)


lemma small_alloc_slabs:
  "allocate_slabs small_alloc k szs
     = (Inr (map (\<lambda>n. \<lparr>gb_bytes = n, gb_mapped = True, gb_dev_addr = 4096, gb_mem = (\<lambda>i. of_nat i)\<rparr>) szs), k + length szs)"
  by (induction szs arbitrary: k) (simp_all add: small_alloc_def)

lemma layout_slabs: "ly_slab_size (layout_for c os cap) \<noteq> []"
  by (auto simp: layout_for_def Let_def split: prod.splits)

lemma small_alloc_tries: "\<exists>bs. alloc_tries small_alloc k (Suc t) cap c = (Inr (bs, layout_for c (owners c) cap), c) \<and> bs \<noteq> []"
  by (simp add: small_alloc_slabs Let_def layout_slabs)

lemma small_create: "fst (create small_alloc small_config st) = Inr ()" "kv_valid (snd (create small_alloc small_config st))"
  "ks_cfg (snd (create small_alloc small_config st)) = small_config" "ks_cap (snd (create small_alloc small_config st)) = 2"
  "ks_win_lo (snd (create small_alloc small_config st)) = 0" "ks_slot_pos (snd (create small_alloc small_config st)) = [kSlotEmpty, kSlotEmpty]"
proof -
  let ?c = small_config
  have checks: "kc_latent_dim ?c mod kc_scale_block ?c = 0" "kc_latent_dim ?c mod 16 = 0" "kc_index_dim ?c mod 32 = 0"
    "length (kc_plane_of ?c) = kc_layers ?c" "length (kc_ratio ?c) = kc_layers ?c" "kc_max_context ?c \<noteq> 0" "initial_cap ?c = 2" "kc_layers ?c = 2"
    by (simp_all add: small_config_def initial_cap_def)
  have "plane_index ?c 0 \<noteq> None" "plane_index ?c 1 \<noteq> None" using small_config_owners by (simp_all add: plane_index_def)
  then have full: "\<not> (\<exists>l < 2. plane_index ?c l = None)" by (auto dest!: less_2_cases)
  obtain bs where bs: "alloc_tries small_alloc 0 8 2 ?c = (Inr (bs, layout_for ?c (owners ?c) 2), ?c)" "bs \<noteq> []"
    using small_alloc_tries [of 0 7 2 ?c] by (auto simp: eval_nat_numeral)
  define st1 where "st1 = (destroy st)\<lparr>ks_owners := owners ?c, ks_owner_of := owner_table ?c, ks_cfg := ?c, ks_bufs := map zero_buffer bs,
      ks_lay := layout_for ?c (owners ?c) 2, ks_cap := 2, ks_rows_hw := replicate (length (owners ?c)) 0, ks_n_cmp := replicate 2 0, ks_n_kv := replicate 2 0\<rparr>"
  have c: "create small_alloc ?c st = (Inr (), clear st1)"
    unfolding create_def Let_def using bs full checks by (auto simp: st1_def)
  have "kv_valid (clear st1) = kv_valid st1" "ks_cfg (clear st1) = ks_cfg st1" "ks_cap (clear st1) = ks_cap st1" 
    by (simp_all add: clear_def Let_def clear_planes_cap)
  then show "fst (create small_alloc ?c st) = Inr ()" "kv_valid (snd (create small_alloc ?c st))"
    "ks_cfg (snd (create small_alloc ?c st)) = ?c" "ks_cap (snd (create small_alloc ?c st)) = 2"
    using bs c by (simp_all add: st1_def kv_valid_def)
  have "kv_valid st1" "kc_window (ks_cfg st1) = 2" using bs by (simp_all add: st1_def kv_valid_def small_config_def)
  then have "ks_win_lo (clear st1) = 0" "ks_slot_pos (clear st1) = [kSlotEmpty, kSlotEmpty]" by (simp_all add: clear_def Let_def numeral_2_eq_2)
  then show "ks_win_lo (snd (create small_alloc ?c st)) = 0" "ks_slot_pos (snd (create small_alloc ?c st)) = [kSlotEmpty, kSlotEmpty]"
    using c by simp_all
qed

lemma small_store_valid: "kv_valid small_store" "ks_cfg small_store = small_config" "ks_cap small_store = 2"
  "ks_win_lo small_store = 0" "ks_slot_pos small_store = [kSlotEmpty, kSlotEmpty]"
  using small_create by (simp_all add: small_store_def)

theorem kv_store_invariant_witness:
  "ks_cap small_store \<le> 8 \<and> length (ks_slot_pos small_store) = 2 \<and> length (ks_n_kv small_store) = 2
   \<and> (owner_index small_store 1 = kNoPlane \<or> ks_owners small_store ! owner_index small_store 1 = 0)"
proof -
  have c: "kc_max_context small_config = 8" "kc_layers small_config = 2" "kc_window small_config = 2" by (simp_all add: small_config_def)
  show ?thesis using kv_store_invariant [OF small_store_reachable small_store_valid(1)] small_config_owners(2)
    unfolding small_store_valid c by (metis one_less_numeral_iff semiring_norm(76))
qed

text \<open>
  C21. The layout of a store of any capacity: every region begins at a multiple of 256 and lies in one
  slab, the regions follow each other without overlapping, the slabs do not overlap, and no slab is larger
  than asked for, when the limit is a whole number of pages and no region alone passes it.
\<close>

theorem kv_layout_sound:
  assumes "l = layout_for c os cap"
  shows "(\<forall>i < 4 + 2 * length os. 256 dvd region_offs l ! i \<and> slab_fits l (region_offs l ! i) (region_sizes c os cap ! i))
    \<and> (\<forall>i j. i < j \<longrightarrow> j < 4 + 2 * length os \<longrightarrow> region_offs l ! i + region_sizes c os cap ! i \<le> region_offs l ! j)
    \<and> (\<forall>i j. i < j \<longrightarrow> j < length (ly_slab_at l) \<longrightarrow> ly_slab_at l ! i + ly_slab_size l ! i \<le> ly_slab_at l ! j)
    \<and> (4096 dvd slab_limit c \<longrightarrow> (\<forall>n \<in> set (region_sizes c os cap). n \<le> slab_limit c) \<longrightarrow> (\<forall>n \<in> set (ly_slab_size l). n \<le> slab_limit c))"
  using layout_for_regions [OF assms] by (simp add: layout_ok_def)

theorem kv_layout_sound_witness:
  "list_all (\<lambda>n. n \<le> 4096) (ly_slab_size (layout_for small_config [0] 8)) \<and> 256 dvd region_offs (layout_for small_config [0] 8) ! 5"
proof -
  have "slab_limit small_config = 4096" "\<forall>n \<in> set (region_sizes small_config [0] 8). n \<le> 4096"
    by (simp_all add: slab_limit_def region_sizes_def small_config_def topk_bytes_def topk_rows_def u32_of_def window_scales_def rows_for_def
        plane_ratio_def per_source_def numeral_2_eq_2 [symmetric])
  then show ?thesis using kv_layout_sound [of "layout_for small_config [0] 8" small_config "[0]" 8] by (simp add: list_all_iff)
qed

text \<open>
  C20. Growing is invisible. When \<^verbatim>\<open>reserve\<close> fails the store is as it was; it fails for a request beyond the
  context. When it succeeds the capacity covers the request, everything the host keeps is unchanged, and
  every part of every region that may hold data reads as before, wherever the new layout put it; when
  memory was replaced, the rest of every region is zero.
\<close>

theorem reserve_is_invisible:
  assumes "kv_reachable st" "allocator_ok al" "reserve al n st = (r, st')"
  shows "(\<forall>e. r = Inl e \<longrightarrow> st' = st)
    \<and> (kv_valid st \<longrightarrow> kc_max_context (ks_cfg st) < n \<longrightarrow> r = Inl ResourceExhausted)
    \<and> (r = Inr () \<longrightarrow>
         n \<le> ks_cap st' \<and> ks_cap st \<le> ks_cap st'
         \<and> (\<exists>bufs lay cap. st' = st\<lparr>ks_bufs := bufs, ks_lay := lay, ks_cap := cap\<rparr>)
         \<and> (\<forall>i < regions st. \<forall>a m. a + m \<le> live_len st i \<longrightarrow>
              kv_read st' (region_off st' i + a) m = kv_read st (region_off st i + a) m)
         \<and> (ks_cap st < n \<longrightarrow> (\<forall>i < regions st. \<forall>j. live_len st i \<le> j \<longrightarrow> j < region_size st' i \<longrightarrow>
              kv_byte st' (region_off st' i + j) = 0)))"
proof -
  have wf: "kv_wf st" by (rule kv_reachable_wf [OF assms(1)])
  have err: "st' = st" if "r = Inl e" for e using reserve_error assms(3) that by blast
  have full: "r = Inl ResourceExhausted" if "kv_valid st" "kc_max_context (ks_cfg st) < n"
  proof -
    have "ks_cap st \<le> kc_max_context (ks_cfg st)" using wf that(1) by (simp add: kv_wf_def kv_shape_def kv_frame_def Let_def)
    then show ?thesis using assms(3) that by (auto simp: reserve_def split: if_splits)
  qed
  have ok: "n \<le> ks_cap st' \<and> ks_cap st \<le> ks_cap st' \<and> (\<exists>bufs lay cap. st' = st\<lparr>ks_bufs := bufs, ks_lay := lay, ks_cap := cap\<rparr>)
      \<and> (\<forall>i < regions st. \<forall>a m. a + m \<le> live_len st i \<longrightarrow> kv_read st' (region_off st' i + a) m = kv_read st (region_off st i + a) m)
      \<and> (ks_cap st < n \<longrightarrow> (\<forall>i < regions st. \<forall>j. live_len st i \<le> j \<longrightarrow> j < region_size st' i \<longrightarrow> kv_byte st' (region_off st' i + j) = 0))"
    if "r = Inr ()"
  proof -
    note r = reserve_ok [OF wf assms(2) assms(3) [unfolded that]]
    from r(3) show ?thesis
    proof
      assume "st' = st"
      moreover have "\<exists>bufs lay cap. st = st\<lparr>ks_bufs := bufs, ks_lay := lay, ks_cap := cap\<rparr>"
        by (intro exI [of _ "ks_bufs st"] exI [of _ "ks_lay st"] exI [of _ "ks_cap st"]) simp
      ultimately show ?thesis using r(2) by simp
    next
      assume g: "kv_grown st st'"
      note rd = grown_read [OF g wf r(1)]
      have "ks_cap st \<le> ks_cap st'" "\<exists>bufs lay cap. st' = st\<lparr>ks_bufs := bufs, ks_lay := lay, ks_cap := cap\<rparr>"
        "\<forall>i < regions st. \<forall>j. live_len st i \<le> j \<longrightarrow> j < region_size st' i \<longrightarrow> kv_byte st' (region_off st' i + j) = 0"
        using g unfolding kv_grown_def by blast+
      then show ?thesis using r(2) rd by blast
    qed
  qed
  show ?thesis using err full ok by blast
qed

lemma small_reserve:
  assumes "kv_valid st" "n \<le> kc_max_context (ks_cfg st)"
  shows "\<exists>st'. reserve small_alloc n st = (Inr (), st')"
  using assms by (simp add: reserve_def Let_def small_alloc_slabs)

theorem reserve_is_invisible_witness:
  "\<exists>st'. reserve small_alloc 3 small_store = (Inr (), st') \<and> 3 \<le> ks_cap st' \<and> ks_slot_pos st' = ks_slot_pos small_store
     \<and> kv_read st' (ly_off_win_val (ks_lay st')) 4 = kv_read small_store (ly_off_win_val (ks_lay small_store)) 4"
proof -
  have c: "kc_max_context small_config = 8" "live_len small_store 0 = 64"
    by (simp_all add: small_store_valid live_len_def) (simp_all add: small_config_def)
  obtain st' where r: "reserve small_alloc 3 small_store = (Inr (), st')"
    using small_reserve [OF small_store_valid(1), of 3] small_store_valid(2) c by auto
  note t = reserve_is_invisible [OF small_store_reachable small_alloc_ok r]
  then have k: "3 \<le> ks_cap st'" "\<exists>bufs lay cap. st' = small_store\<lparr>ks_bufs := bufs, ks_lay := lay, ks_cap := cap\<rparr>" by blast+
  from t have "\<forall>i < regions small_store. \<forall>a m. a + m \<le> live_len small_store i \<longrightarrow>
      kv_read st' (region_off st' i + a) m = kv_read small_store (region_off small_store i + a) m" by blast
  from this [rule_format, of 0 0 4] have "kv_read st' (ly_off_win_val (ks_lay st')) 4 = kv_read small_store (ly_off_win_val (ks_lay small_store)) 4"
    using c by simp
  then show ?thesis using r k by auto
qed

end
