(* ===== verification/Kv_Ring.thy ===== *)
theory Kv_Ring
  imports Kv_Context_Props
begin

text \<open>
  The window ring: the list of slots a step reads, the rollback of the ring after rejected tokens, and the
  retained window of the prompt.
\<close>

section \<open>The list of a step\<close>

lemma write_at_loc: "lay = ks_lay st \<Longrightarrow> write_at (loc lay off) 0 bs st = kv_write off bs st"
  by (simp add: write_at_def kv_write_def)

lemma window_entry_exact:
  assumes "0 < win" "win < 2 ^ 31" "i < win"
  shows "window_entry win lo p i = (if p + i + 1 < win + lo then -1 else int ((p + i + 1 - win) mod win))"
proof -
  have "win < 2147483648" using assms(2) by simp
  then have "p mod win + 1 + i < 4294967296" using assms(3) mod_less_divisor [OF assms(1), of p] by linarith
  then have s: "p mod win + 1 + i < 2 ^ 32" by simp
  have pos: "int p - int (win - 1 - i) = int (p + i + 1) - int win" using assms(3) by simp
  show ?thesis
  proof (cases "p + i + 1 < win + lo")
    case True
    then show ?thesis using pos by (auto simp: window_entry_def Let_def)
  next
    case False
    then have "(p mod win + 1 + i) mod win = (p + i + 1) mod win" by (metis add.assoc add.commute mod_add_left_eq)
    also have "\<dots> = (p + i + 1 - win) mod win" using False by (intro le_mod_geq) simp
    finally show ?thesis using False pos s by (simp add: window_entry_def Let_def u32_of_def)
  qed
qed

lemma kv_layer_top:
  assumes "kv_layer l st = Inr v"
  shows "vw_top_idx_host v = loc (ks_lay st) (ly_off_top (ks_lay st) + l * (topk_rows (ks_cfg st) * 4))" "l < kc_layers (ks_cfg st)" "kv_valid st"
  using assms by (auto simp: kv_layer_def Let_def split: if_splits)

lemma set_counts_ok:
  assumes "set_counts al l n m st = (Inr u, st')"
  shows "ks_cfg st' = ks_cfg st" "ks_win_lo st' = ks_win_lo st" "ks_slot_pos st' = ks_slot_pos st"
    "ks_n_cmp st' = (ks_n_cmp st)[l := n]" "ks_n_kv st' = (ks_n_kv st)[l := m]" "m \<le> topk_rows (ks_cfg st)"
  using assms by (auto simp: set_counts_def Let_def dest: reserve_sel(1,5,6,7,8) split: if_splits prod.splits sum.splits)

text \<open>
  C22. When a step's list was written, its window half names, for the window's positions from the oldest
  to the step's own, the slot that holds the position, and -1 for those before the start of the context
  or below the window's floor; the slot of the step's position is recorded as holding it, and the
  counts the kernels get are the ones asked for.
\<close>

theorem decode_window_list_exact:
  assumes "kv_reachable st" "allocator_ok al" "set_decode_topk al l p n_cmp n_sel st = (Inr (), st')"
    and "kc_window (ks_cfg st) + kc_max_context (ks_cfg st) < 2 ^ 32"
  shows "decode_list 4 of_le (kc_window (ks_cfg st'))
        (kv_read st' (ly_off_top (ks_lay st') + l * (topk_rows (ks_cfg st') * 4)) (4 * kc_window (ks_cfg st')))
      = map (\<lambda>i. if p + i + 1 < kc_window (ks_cfg st) + ks_win_lo st then -1
                 else of_nat ((p + i + 1 - kc_window (ks_cfg st)) mod kc_window (ks_cfg st)) :: u32) [0..<kc_window (ks_cfg st)]
    \<and> ks_slot_pos st' = (ks_slot_pos st)[p mod kc_window (ks_cfg st) := int p] \<and> (ks_win_lo st \<le> p \<longrightarrow> ring_holds st' p)
    \<and> ks_n_cmp st' ! l = n_cmp \<and> ks_n_kv st' ! l = u32_of (kc_window (ks_cfg st) + n_sel) \<and> n_sel \<le> n_cmp"
proof -
  have wf: "kv_wf st" by (rule kv_reachable_wf [OF assms(1)])
  obtain st1 st2 v where r: "reserve al (u32_of (p + 1)) st = (Inr (), st1)"
    and s: "set_counts al l n_cmp (u32_of (kc_window (ks_cfg st1) + n_sel)) st1 = (Inr (), st2)" and v: "kv_layer l st2 = Inr v"
    and sel: "n_sel \<le> n_cmp"
    and st': "st' = write_at (vw_top_idx_host v) 0
       (encode_list (le_bytes 4) (map (\<lambda>i. word_of_int (window_entry (kc_window (ks_cfg st2)) (ks_win_lo st2) p i) :: u32) [0..<kc_window (ks_cfg st2)]))
       (st2\<lparr>ks_slot_pos := (ks_slot_pos st2)[p mod kc_window (ks_cfg st2) := int p]\<rparr>)"
    using assms(3) by (auto simp: set_decode_topk_def Let_def split: if_splits prod.splits sum.splits)
  note c1 = reserve_sel [OF r] and c2 = set_counts_ok [OF s] and tv = kv_layer_top [OF v]
  let ?c = "ks_cfg st" and ?es = "map (\<lambda>i. word_of_int (window_entry (kc_window (ks_cfg st)) (ks_win_lo st) p i) :: u32) [0..<kc_window (ks_cfg st)]"
  let ?st = "st2\<lparr>ks_slot_pos := (ks_slot_pos st)[p mod kc_window ?c := int p]\<rparr>"
  have cfg: "ks_cfg st2 = ?c" "ks_win_lo st2 = ks_win_lo st" "ks_slot_pos st2 = ks_slot_pos st" using c1 c2 by simp_all
  have w: "kv_wf st2" by (rule set_counts_wf [OF reserve_wf [OF wf assms(2) r] assms(2) s])
  have c: "0 < kc_window ?c" "kc_window ?c < 2 ^ 31" using wf by (simp_all add: kv_wf_def kv_config_ok_def)
  have sh: "kv_shape ?st" using w tv(3) cfg by (auto simp: kv_wf_def kv_shape_def kv_frame_host)
  let ?top = "l * (topk_rows ?c * 4)"
  have len: "length (encode_list (le_bytes 4) ?es) = 4 * kc_window ?c" by (simp add: le4.length_encode_list)
  have "topk_rows ?c = kc_window ?c + min (kc_index_topk ?c) (kc_max_context ?c)" using assms(4) by (simp add: topk_rows_def u32_of_def)
  then have "?top + 4 * kc_window ?c \<le> Suc l * (topk_rows ?c * 4)" by simp
  also have "\<dots> \<le> kc_layers ?c * (topk_rows ?c * 4)" using tv(2) cfg(1) by (intro mult_le_mono1) simp
  finally have fit: "?top + length (encode_list (le_bytes 4) ?es) \<le> region_size ?st 2" using cfg len by (simp add: topk_bytes_def mult.assoc)
  have st'': "st' = kv_write (region_off ?st 2 + ?top) (encode_list (le_bytes 4) ?es) ?st"
    using st' tv(1) cfg by (simp add: write_at_loc)
  have "kv_read st' (region_off ?st 2 + ?top) (4 * kc_window ?c) = encode_list (le_bytes 4) ?es"
    unfolding st'' using write_part_same [OF sh _ fit] len by simp
  then have "decode_list 4 of_le (kc_window ?c) (kv_read st' (region_off ?st 2 + ?top) (4 * kc_window ?c)) = ?es"
    using le4.decode_encode_list [of ?es "[]"] by simp
  moreover have "?es = map (\<lambda>i. if p + i + 1 < kc_window ?c + ks_win_lo st then -1 else of_nat ((p + i + 1 - kc_window ?c) mod kc_window ?c) :: u32) [0..<kc_window ?c]"
    by (rule map_cong) (use window_entry_exact [OF c] in \<open>simp_all del: of_nat_mod\<close>)
  moreover have "ks_cfg st' = ?c" "ks_lay st' = ks_lay ?st" "ks_slot_pos st' = (ks_slot_pos st)[p mod kc_window ?c := int p]" "ks_win_lo st' = ks_win_lo st"
    using st'' cfg by simp_all
  moreover have "length (ks_slot_pos st) = kc_window ?c" using sh cfg by (simp add: kv_shape_def)
  moreover have "ks_n_cmp st' ! l = n_cmp" "ks_n_kv st' ! l = u32_of (kc_window ?c + n_sel)"
    using st'' c1 c2 wf reserve_ok(1) [OF wf assms(2) r] tv(2) by (simp_all add: kv_wf_def kv_shape_def kv_frame_def Let_def)
  ultimately show ?thesis using sel c(1) by (auto simp: ring_holds_def)
qed

lemma small_geometry [simp]: "kc_window small_config = 2" "kc_layers small_config = 2" "kc_latent_dim small_config = 16" "window_scales small_config = 1"
  by (simp_all add: small_config_def window_scales_def)

lemma small_decode_step: "\<exists>st'. set_decode_topk small_alloc 0 1 0 0 small_store = (Inr (), st')"
proof -
  have c: "kc_layers small_config = 2" "kc_window small_config = 2" "topk_rows small_config = 6"
    by (simp_all add: small_config_def topk_rows_def u32_of_def)
  note v = small_store_valid
  have r: "reserve small_alloc n small_store = (Inr (), small_store)" if "n \<le> 2" for n using that v by (simp add: reserve_def)
  define st' where "st' = (let st = if owner_index small_store 0 = kNoPlane then small_store else raise_hw (owner_index small_store 0) 0 small_store in
     st\<lparr>ks_n_cmp := (ks_n_cmp st)[0 := 0], ks_n_kv := (ks_n_kv st)[0 := 2]\<rparr>)"
  have "set_counts small_alloc 0 0 2 small_store = (Inr (), st')"
    using r [of 0] v c by (simp add: set_counts_def st'_def Let_def)
  moreover have "\<exists>w. kv_layer 0 st' = Inr w" using v c by (simp add: kv_layer_def st'_def Let_def)
  ultimately show ?thesis using r [of 2] c v by (auto simp: set_decode_topk_def u32_of_def Let_def numeral_2_eq_2 [symmetric])
qed

theorem decode_window_list_exact_witness:
  "\<exists>st'. set_decode_topk small_alloc 0 1 0 0 small_store = (Inr (), st') \<and> ring_holds st' 1
     \<and> ks_slot_pos st' = [kSlotEmpty, 1] \<and> ks_n_kv st' ! 0 = 2"
proof -
  obtain st' where s: "set_decode_topk small_alloc 0 1 0 0 small_store = (Inr (), st')" using small_decode_step by blast
  have c: "kc_window (ks_cfg small_store) = 2" "kc_max_context (ks_cfg small_store) = 8" by (simp_all add: small_store_valid small_config_def)
  have "kc_window (ks_cfg small_store) + kc_max_context (ks_cfg small_store) < 2 ^ 32" by (simp add: c)
  from decode_window_list_exact [OF small_store_reachable small_alloc_ok s this]
  have "ks_slot_pos st' = [kSlotEmpty, 1]" "ring_holds st' 1" "ks_n_kv st' ! 0 = 2"
    by (simp_all add: c u32_of_def small_store_valid)
  then show ?thesis using s by auto
qed

section \<open>Cells of the ring\<close>

lemma ring_offs:
  "ring_val_off st l s = region_off st 0 + (l * kc_window (ks_cfg st) + s) * kc_latent_dim (ks_cfg st)"
  "ring_scale_off st l s = region_off st 1 + (l * kc_window (ks_cfg st) + s) * window_scales (ks_cfg st)"
  by (simp_all add: ring_val_off_def ring_scale_off_def)

lemma cell_fits: "l < L \<Longrightarrow> s < W \<Longrightarrow> (l * W + s) * d + d \<le> L * W * (d::nat)"
proof -
  assume a: "l < L" "s < W"
  then have "l * W + s + 1 \<le> Suc l * W" by simp
  moreover have "Suc l * W \<le> L * W" using a(1) by (intro mult_le_mono1) simp
  ultimately have "(l * W + s + 1) * d \<le> L * W * d" by (meson le_trans mult_le_mono1)
  then show ?thesis by (simp add: algebra_simps)
qed

lemma cells_apart:
  assumes "s < W" "s' < W" "(l, s) \<noteq> (l', s')"
  shows "(l * W + s) * d + d \<le> (l' * W + s') * d \<or> (l' * W + s') * d + d \<le> (l * W + s) * (d::nat)"
proof -
  have "l * W + s \<noteq> l' * W + s'"
  proof
    assume e: "l * W + s = l' * W + s'"
    have "(l * W + s) mod W = s" "(l' * W + s') mod W = s'" "(l * W + s) div W = l" "(l' * W + s') div W = l'" using assms by simp_all
    then show False using e assms(3) by metis
  qed
  then consider "Suc (l * W + s) \<le> l' * W + s'" | "Suc (l' * W + s') \<le> l * W + s" by linarith
  then show ?thesis
  proof cases
    case 1
    then have "Suc (l * W + s) * d \<le> (l' * W + s') * d" by (rule mult_le_mono1)
    then show ?thesis by simp
  next
    case 2
    then have "Suc (l' * W + s') * d \<le> (l * W + s) * d" by (rule mult_le_mono1)
    then show ?thesis by simp
  qed
qed

text \<open>Restoring one cell changes that cell and nothing else.\<close>

lemma restore_slot_sel [simp]:
  "ks_cfg (restore_slot s x st) = ks_cfg st" "ks_lay (restore_slot s x st) = ks_lay st" "ks_cap (restore_slot s x st) = ks_cap st"
  "ks_slot_pos (restore_slot s x st) = ks_slot_pos st" "ks_win_lo (restore_slot s x st) = ks_win_lo st"
  "ks_prompt_ring (restore_slot s x st) = ks_prompt_ring st" "ks_prompt_slot_pos (restore_slot s x st) = ks_prompt_slot_pos st"
  "kv_shape (restore_slot s x st) = kv_shape st" "kv_valid (restore_slot s x st) = kv_valid st"
  "ring_val_off (restore_slot s x st) l sl = ring_val_off st l sl" "ring_scale_off (restore_slot s x st) l sl = ring_scale_off st l sl"
  by (simp_all add: restore_slot_def Let_def split: prod.splits)

lemma restore_slot_reads:
  assumes "kv_shape st" "l < kc_layers (ks_cfg st)" "sl < kc_window (ks_cfg st)"
    and rows: "length (row_at (rs_val s) (kc_latent_dim (ks_cfg st)) k) = kc_latent_dim (ks_cfg st)"
      "length (row_at (rs_scale s) (window_scales (ks_cfg st)) k) = window_scales (ks_cfg st)"
  shows "l' < kc_layers (ks_cfg st) \<Longrightarrow> sl' < kc_window (ks_cfg st) \<Longrightarrow>
      kv_read (restore_slot s (k, l, sl) st) (ring_val_off st l' sl') (kc_latent_dim (ks_cfg st))
      = (if (l', sl') = (l, sl) then row_at (rs_val s) (kc_latent_dim (ks_cfg st)) k else kv_read st (ring_val_off st l' sl') (kc_latent_dim (ks_cfg st)))"
    "l' < kc_layers (ks_cfg st) \<Longrightarrow> sl' < kc_window (ks_cfg st) \<Longrightarrow>
      kv_read (restore_slot s (k, l, sl) st) (ring_scale_off st l' sl') (window_scales (ks_cfg st))
      = (if (l', sl') = (l, sl) then row_at (rs_scale s) (window_scales (ks_cfg st)) k else kv_read st (ring_scale_off st l' sl') (window_scales (ks_cfg st)))"
    "2 \<le> i \<Longrightarrow> i < regions st \<Longrightarrow> a + n \<le> region_size st i \<Longrightarrow>
      kv_read (restore_slot s (k, l, sl) st) (region_off st i + a) n = kv_read st (region_off st i + a) n"
proof -
  let ?c = "ks_cfg st" and ?d = "kc_latent_dim (ks_cfg st)" and ?w = "window_scales (ks_cfg st)" and ?W = "kc_window (ks_cfg st)"
  let ?v = "row_at (rs_val s) ?d k" and ?z = "row_at (rs_scale s) ?w k"
  let ?st1 = "kv_write (region_off st 0 + (l * ?W + sl) * ?d) ?v st"
  have r: "restore_slot s (k, l, sl) st = kv_write (region_off ?st1 1 + (l * ?W + sl) * ?w) ?z ?st1"
    by (simp add: restore_slot_def Let_def ring_offs)
  have sh: "kv_shape ?st1" using assms(1) by simp
  note fit = cell_fits [of _ "kc_layers ?c" _ ?W]
  have f0: "(l * ?W + sl) * ?d + length ?v \<le> region_size st 0" "(l * ?W + sl) * ?w + length ?z \<le> region_size ?st1 1"
    using fit [OF assms(2,3)] rows by simp_all
  note same0 = write_part_same [OF assms(1) _ f0(1)] and same1 = write_part_same [OF sh _ f0(2)]
  note other0 = write_part_other [OF assms(1) _ f0(1)] and other1 = write_part_other [OF sh _ f0(2)]
  show "kv_read (restore_slot s (k, l, sl) st) (ring_val_off st l' sl') ?d = (if (l', sl') = (l, sl) then ?v else kv_read st (ring_val_off st l' sl') ?d)"
    if c: "l' < kc_layers ?c" "sl' < ?W"
  proof -
    have f: "(l' * ?W + sl') * ?d + ?d \<le> region_size st 0" using fit [OF c] by simp
    have "kv_read (restore_slot s (k, l, sl) st) (ring_val_off st l' sl') ?d = kv_read ?st1 (ring_val_off st l' sl') ?d"
      unfolding r ring_offs using other1 [of 0 "(l' * ?W + sl') * ?d" ?d] f by simp
    also have "\<dots> = (if (l', sl') = (l, sl) then ?v else kv_read st (ring_val_off st l' sl') ?d)"
      unfolding ring_offs using same0 other0 [of 0 "(l' * ?W + sl') * ?d" ?d] f rows cells_apart [OF c(2) assms(3), of l' l ?d] by auto
    finally show ?thesis .
  qed
  show "kv_read (restore_slot s (k, l, sl) st) (ring_scale_off st l' sl') ?w = (if (l', sl') = (l, sl) then ?z else kv_read st (ring_scale_off st l' sl') ?w)"
    if c: "l' < kc_layers ?c" "sl' < ?W"
  proof -
    have f: "(l' * ?W + sl') * ?w + ?w \<le> region_size st 1" using fit [OF c] by simp
    have "kv_read (restore_slot s (k, l, sl) st) (ring_scale_off st l' sl') ?w = (if (l', sl') = (l, sl) then ?z else kv_read ?st1 (ring_scale_off st l' sl') ?w)"
      unfolding r ring_offs using same1 other1 [of 1 "(l' * ?W + sl') * ?w" ?w] f rows cells_apart [OF c(2) assms(3), of l' l ?w] by auto
    also have "kv_read ?st1 (ring_scale_off st l' sl') ?w = kv_read st (ring_scale_off st l' sl') ?w"
      unfolding ring_offs using other0 [of 1 "(l' * ?W + sl') * ?w" ?w] f by simp
    finally show ?thesis .
  qed
  show "kv_read (restore_slot s (k, l, sl) st) (region_off st i + a) n = kv_read st (region_off st i + a) n"
    if "2 \<le> i" "i < regions st" "a + n \<le> region_size st i"
    unfolding r using other1 [of i a n] other0 [of i a n] that by simp
qed

lemma fold_restore_sel [simp]:
  "ks_cfg (fold (restore_slot s) xs st) = ks_cfg st" "ks_lay (fold (restore_slot s) xs st) = ks_lay st" "ks_cap (fold (restore_slot s) xs st) = ks_cap st"
  "ks_slot_pos (fold (restore_slot s) xs st) = ks_slot_pos st" "ks_win_lo (fold (restore_slot s) xs st) = ks_win_lo st"
  "ks_prompt_ring (fold (restore_slot s) xs st) = ks_prompt_ring st" "ks_prompt_slot_pos (fold (restore_slot s) xs st) = ks_prompt_slot_pos st"
  "kv_shape (fold (restore_slot s) xs st) = kv_shape st" "kv_valid (fold (restore_slot s) xs st) = kv_valid st"
  "ring_val_off (fold (restore_slot s) xs st) l sl = ring_val_off st l sl" "ring_scale_off (fold (restore_slot s) xs st) l sl = ring_scale_off st l sl"
  by (induction xs arbitrary: st) simp_all

text \<open>
  Restoring a list of cells, each with the content a function gives it: the cells in the list have that
  content, the others and every other region are as before.
\<close>

lemma restore_cells:
  assumes "kv_shape st"
    and "\<And>k l sl. (k, l, sl) \<in> set xs \<Longrightarrow> l < kc_layers (ks_cfg st) \<and> sl < kc_window (ks_cfg st)
        \<and> row_at (rs_val s) (kc_latent_dim (ks_cfg st)) k = V l sl \<and> length (V l sl) = kc_latent_dim (ks_cfg st)
        \<and> row_at (rs_scale s) (window_scales (ks_cfg st)) k = Z l sl \<and> length (Z l sl) = window_scales (ks_cfg st)"
  shows "\<lbrakk>l < kc_layers (ks_cfg st); sl < kc_window (ks_cfg st)\<rbrakk> \<Longrightarrow>
      kv_read (fold (restore_slot s) xs st) (ring_val_off st l sl) (kc_latent_dim (ks_cfg st))
      = (if (l, sl) \<in> snd ` set xs then V l sl else kv_read st (ring_val_off st l sl) (kc_latent_dim (ks_cfg st)))"
    "\<lbrakk>l < kc_layers (ks_cfg st); sl < kc_window (ks_cfg st)\<rbrakk> \<Longrightarrow>
      kv_read (fold (restore_slot s) xs st) (ring_scale_off st l sl) (window_scales (ks_cfg st))
      = (if (l, sl) \<in> snd ` set xs then Z l sl else kv_read st (ring_scale_off st l sl) (window_scales (ks_cfg st)))"
    "\<lbrakk>2 \<le> i; i < regions st; a + n \<le> region_size st i\<rbrakk> \<Longrightarrow>
      kv_read (fold (restore_slot s) xs st) (region_off st i + a) n = kv_read st (region_off st i + a) n"
proof -
  let ?d = "kc_latent_dim (ks_cfg st)" and ?w = "window_scales (ks_cfg st)" and ?L = "kc_layers (ks_cfg st)" and ?W = "kc_window (ks_cfg st)"
  let ?Q = "\<lambda>xs. (\<forall>l < ?L. \<forall>sl < ?W.
        kv_read (fold (restore_slot s) xs st) (ring_val_off st l sl) ?d = (if (l, sl) \<in> snd ` set xs then V l sl else kv_read st (ring_val_off st l sl) ?d)
        \<and> kv_read (fold (restore_slot s) xs st) (ring_scale_off st l sl) ?w = (if (l, sl) \<in> snd ` set xs then Z l sl else kv_read st (ring_scale_off st l sl) ?w))
      \<and> (\<forall>i a n. 2 \<le> i \<longrightarrow> i < regions st \<longrightarrow> a + n \<le> region_size st i \<longrightarrow>
           kv_read (fold (restore_slot s) xs st) (region_off st i + a) n = kv_read st (region_off st i + a) n)"
  have "?Q xs" using assms(2)
  proof (induction xs rule: rev_induct)
    case (snoc x xs)
    obtain k l' sl' where x: "x = (k, l', sl')" by (cases x)
    have sh: "kv_shape (fold (restore_slot s) xs st)" using assms(1) by simp
    have p: "l' < ?L" "sl' < ?W" "row_at (rs_val s) ?d k = V l' sl'" "length (V l' sl') = ?d" "row_at (rs_scale s) ?w k = Z l' sl'" "length (Z l' sl') = ?w"
      using snoc.prems [of k l' sl'] x by simp_all
    note one = restore_slot_reads [OF sh, of l' sl' s k, unfolded fold_restore_sel, OF p(1,2)]
    have "?Q xs" by (rule snoc.IH, rule snoc.prems) simp
    then show ?case using one p x by auto
  qed simp
  then show "\<lbrakk>l < ?L; sl < ?W\<rbrakk> \<Longrightarrow> kv_read (fold (restore_slot s) xs st) (ring_val_off st l sl) ?d
      = (if (l, sl) \<in> snd ` set xs then V l sl else kv_read st (ring_val_off st l sl) ?d)"
    "\<lbrakk>l < ?L; sl < ?W\<rbrakk> \<Longrightarrow> kv_read (fold (restore_slot s) xs st) (ring_scale_off st l sl) ?w
      = (if (l, sl) \<in> snd ` set xs then Z l sl else kv_read st (ring_scale_off st l sl) ?w)"
    "\<lbrakk>2 \<le> i; i < regions st; a + n \<le> region_size st i\<rbrakk> \<Longrightarrow>
      kv_read (fold (restore_slot s) xs st) (region_off st i + a) n = kv_read st (region_off st i + a) n"
    by blast+
qed

lemma row_of_concat:
  "\<forall>x \<in> set xs. length (f x) = d \<Longrightarrow> k < length xs \<Longrightarrow> row_at (concat (map f xs)) d k = f (xs ! k)"
proof (induction xs arbitrary: k)
  case (Cons x xs)
  then show ?case by (cases k) (simp_all add: row_at_def)
qed simp

lemma fold_update_nth:
  "fold (\<lambda>i xs. xs[i := v i]) is xs ! k = (if k \<in> set is \<and> k < length xs then v k else xs ! k)"
proof (induction "is" arbitrary: xs)
  case (Cons i "is")
  then show ?case by (cases "i < length xs") (auto simp: nth_list_update list_update_beyond)
qed simp

section \<open>Rolling the ring back\<close>

lemma snapshot_ring_ok:
  assumes "snapshot_ring slots layers st = Inr s"
  shows "kv_valid st" "slots \<noteq> []" "\<forall>l \<in> set layers. l < kc_layers (ks_cfg st)" "\<forall>sl \<in> set slots. sl < kc_window (ks_cfg st)"
    "rs_layer s = layers" "rs_slot s = slots" "rs_position s = map ((!) (ks_slot_pos st)) slots" "rs_latent_dim s = kc_latent_dim (ks_cfg st)"
    "k < length (List.product layers slots) \<Longrightarrow> List.product layers slots ! k = (l, sl) \<Longrightarrow>
      row_at (rs_val s) (kc_latent_dim (ks_cfg st)) k = kv_read st (ring_val_off st l sl) (kc_latent_dim (ks_cfg st))"
    "k < length (List.product layers slots) \<Longrightarrow> List.product layers slots ! k = (l, sl) \<Longrightarrow>
      row_at (rs_scale s) (window_scales (ks_cfg st)) k = kv_read st (ring_scale_off st l sl) (window_scales (ks_cfg st))"
  using assms by (auto simp: snapshot_ring_def Let_def row_of_concat split_beta not_le split: if_splits)

text \<open>
  C23. Rolling the ring back is exact. A snapshot of some slots of some layers, restored into the store as
  it is later, after steps, growth and whatever kernels wrote, gives every one of these cells the bytes it
  had, values and scales, and leaves the other cells, the other regions and the rest of the host's state
  alone; a slot of the snapshot is recorded as holding the position it held then when the snapshot has
  every layer, and as empty otherwise.
\<close>

theorem ring_rollback_exact:
  assumes "kv_reachable st" "snapshot_ring slots layers st = Inr s" "kv_reachable st2" "kv_valid st2" "ks_cfg st2 = ks_cfg st"
  defines "all \<equiv> \<forall>l < kc_layers (ks_cfg st). l \<in> set layers"
  shows "\<exists>st3. restore_ring s st2 = (Inr (), st3)
    \<and> (\<forall>l < kc_layers (ks_cfg st). \<forall>sl < kc_window (ks_cfg st).
         let from = (if l \<in> set layers \<and> sl \<in> set slots then st else st2) in
         kv_read st3 (ring_val_off st3 l sl) (kc_latent_dim (ks_cfg st)) = kv_read from (ring_val_off from l sl) (kc_latent_dim (ks_cfg st))
         \<and> kv_read st3 (ring_scale_off st3 l sl) (window_scales (ks_cfg st)) = kv_read from (ring_scale_off from l sl) (window_scales (ks_cfg st)))
    \<and> (\<forall>i a n. 2 \<le> i \<longrightarrow> i < regions st2 \<longrightarrow> a + n \<le> region_size st2 i \<longrightarrow> kv_read st3 (region_off st3 i + a) n = kv_read st2 (region_off st2 i + a) n)
    \<and> (\<forall>sl < kc_window (ks_cfg st). ks_slot_pos st3 ! sl =
         (if sl \<notin> set slots then ks_slot_pos st2 ! sl else if all then ks_slot_pos st ! sl else kSlotEmpty))
    \<and> (\<exists>bufs ps. st3 = st2\<lparr>ks_bufs := bufs, ks_slot_pos := ps\<rparr>)"
proof -
  note sn = snapshot_ring_ok [OF assms(2)]
  have sh: "kv_shape st" "kv_shape st2" using kv_reachable_wf assms(1,3,4) sn(1) by (auto simp: kv_wf_def)
  let ?cells = "List.product layers slots" and ?c = "ks_cfg st"
  let ?xs = "zip [0..<length ?cells] ?cells"
  define st' where "st' = fold (restore_slot s) ?xs st2"
  define ps where "ps = fold (\<lambda>i xs. xs[i := (if all then ks_slot_pos st ! i else kSlotEmpty)]) slots (ks_slot_pos st2)"
  define st3 where "st3 = st'\<lparr>ks_slot_pos := ps\<rparr>"
  have "fold (\<lambda>i xs. xs[slots ! i := (if all then rs_position s ! i else kSlotEmpty)]) [0..<length slots] (ks_slot_pos st2)
      = fold (\<lambda>i xs. xs[i := (if all then ks_slot_pos st ! i else kSlotEmpty)]) (map ((!) slots) [0..<length slots]) (ks_slot_pos st2)"
    unfolding fold_map comp_def by (rule fold_cong) (simp_all add: sn(7))
  then have "fold (\<lambda>i xs. xs[slots ! i := (if all then rs_position s ! i else kSlotEmpty)]) [0..<length slots] (ks_slot_pos st2) = ps"
    by (simp add: map_nth ps_def)
  then have r: "restore_ring s st2 = (Inr (), st3)"
    using sn assms(4,5) by (auto simp: restore_ring_def Let_def st3_def st'_def all_def)
  have cells: "l < kc_layers (ks_cfg st2) \<and> sl < kc_window (ks_cfg st2)
        \<and> row_at (rs_val s) (kc_latent_dim (ks_cfg st2)) k = kv_read st (ring_val_off st l sl) (kc_latent_dim ?c)
        \<and> length (kv_read st (ring_val_off st l sl) (kc_latent_dim ?c)) = kc_latent_dim (ks_cfg st2)
        \<and> row_at (rs_scale s) (window_scales (ks_cfg st2)) k = kv_read st (ring_scale_off st l sl) (window_scales ?c)
        \<and> length (kv_read st (ring_scale_off st l sl) (window_scales ?c)) = window_scales (ks_cfg st2)" if "(k, l, sl) \<in> set ?xs" for k l sl
  proof -
    have k: "k < length ?cells" "?cells ! k = (l, sl)" using that by (auto simp: set_zip)
    then have "l \<in> set layers" "sl \<in> set slots" using nth_mem [OF k(1)] by auto
    then show ?thesis using sn(3,4) sn(9,10) [OF k] assms(5) by auto
  qed
  note rc = restore_cells [where xs = ?xs, OF sh(2) cells, unfolded assms(5), folded st'_def]
  have hit: "(l, sl) \<in> snd ` set ?xs \<longleftrightarrow> l \<in> set layers \<and> sl \<in> set slots" for l sl
  proof -
    have "snd ` set ?xs = set ?cells" by (metis length_map length_upt list.set_map map_nth map_snd_zip)
    then show ?thesis by simp
  qed
  have offs: "kv_read st3 = kv_read st'" "ring_val_off st3 = ring_val_off st2" "ring_scale_off st3 = ring_scale_off st2" "ks_lay st3 = ks_lay st2"
    by (auto simp: fun_eq_iff st3_def st'_def kv_read_def ring_val_off_def ring_scale_off_def)
  have "length (ks_slot_pos st2) = kc_window ?c" using sh(2) assms(5) by (simp add: kv_shape_def)
  then have pos: "ks_slot_pos st3 ! sl = (if sl \<notin> set slots then ks_slot_pos st2 ! sl else if all then ks_slot_pos st ! sl else kSlotEmpty)"
    if "sl < kc_window ?c" for sl using that by (simp add: st3_def ps_def fold_update_nth)
  have "\<exists>bufs. fold (restore_slot s) xs st2 = st2\<lparr>ks_bufs := bufs\<rparr>" for xs
  proof (induction xs rule: rev_induct)
    case Nil
    show ?case by (rule exI [of _ "ks_bufs st2"]) simp
  next
    case (snoc x xs)
    then show ?case by (auto simp: restore_slot_def Let_def kv_write_def split: prod.splits)
  qed
  then obtain bufs where "st' = st2\<lparr>ks_bufs := bufs\<rparr>" unfolding st'_def by blast
  then have rest: "\<exists>bufs ps. st3 = st2\<lparr>ks_bufs := bufs, ks_slot_pos := ps\<rparr>" by (auto simp: st3_def)
  have read: "let from = (if l \<in> set layers \<and> sl \<in> set slots then st else st2) in
       kv_read st3 (ring_val_off st3 l sl) (kc_latent_dim ?c) = kv_read from (ring_val_off from l sl) (kc_latent_dim ?c)
       \<and> kv_read st3 (ring_scale_off st3 l sl) (window_scales ?c) = kv_read from (ring_scale_off from l sl) (window_scales ?c)"
    if "l < kc_layers ?c" "sl < kc_window ?c" for l sl
    using rc(1,2) [OF _ that, unfolded hit] by (cases "l \<in> set layers \<and> sl \<in> set slots") (auto simp: offs)
  have "kv_read st3 (region_off st3 i + a) n = kv_read st2 (region_off st2 i + a) n"
    if "2 \<le> i" "i < regions st2" "a + n \<le> region_size st2 i" for i a n
    using rc(3) [of i a n] that unfolding offs assms(5) by simp
  then show ?thesis using r rest read pos by blast
qed

text \<open>The small store after a kernel overwrote the beginning of the ring.\<close>

definition scribbled_store :: kv_store where
  "scribbled_store = run_kv_op small_alloc (KvGpuWrites 0 [7, 7, 7]) small_store"

lemma scribbled_store_ok: "kv_reachable scribbled_store" "kv_valid scribbled_store" "ks_cfg scribbled_store = small_config"
  "ks_prompt_ring scribbled_store = ks_prompt_ring small_store"
  using kv_reachable.step [OF small_store_reachable small_alloc_ok, of "KvGpuWrites 0 [7, 7, 7]"] small_store_valid
  by (simp_all add: scribbled_store_def)

theorem ring_rollback_exact_witness:
  "\<exists>s st3. snapshot_ring [0] [0, 1] small_store = Inr s \<and> restore_ring s scribbled_store = (Inr (), st3)
     \<and> kv_read st3 (ring_val_off st3 0 0) 16 = kv_read small_store (ring_val_off small_store 0 0) 16
     \<and> ks_slot_pos st3 ! 0 = ks_slot_pos small_store ! 0"
proof -
  obtain s where s: "snapshot_ring [0] [0, 1] small_store = Inr s" using small_store_valid by (simp add: snapshot_ring_def Let_def)
  have all: "\<forall>l < kc_layers (ks_cfg small_store). l \<in> set [0, 1]" using less_2_cases by (auto simp: small_store_valid)
  have cfg: "ks_cfg scribbled_store = ks_cfg small_store" by (simp add: scribbled_store_ok small_store_valid)
  obtain st3 where r: "restore_ring s scribbled_store = (Inr (), st3)"
    and k: "\<forall>l < kc_layers (ks_cfg small_store). \<forall>sl < kc_window (ks_cfg small_store).
         let from = (if l \<in> set [0, 1] \<and> sl \<in> set [0] then small_store else scribbled_store) in
         kv_read st3 (ring_val_off st3 l sl) (kc_latent_dim (ks_cfg small_store)) = kv_read from (ring_val_off from l sl) (kc_latent_dim (ks_cfg small_store))
         \<and> kv_read st3 (ring_scale_off st3 l sl) (window_scales (ks_cfg small_store)) = kv_read from (ring_scale_off from l sl) (window_scales (ks_cfg small_store))"
      "\<forall>sl < kc_window (ks_cfg small_store). ks_slot_pos st3 ! sl = (if sl \<notin> set [0] then ks_slot_pos scribbled_store ! sl
         else if \<forall>l < kc_layers (ks_cfg small_store). l \<in> set [0, 1] then ks_slot_pos small_store ! sl else kSlotEmpty)"
    using ring_rollback_exact [OF small_store_reachable s scribbled_store_ok(1,2)] cfg by blast
  show ?thesis using s r k(1) [rule_format, of 0 0] k(2) [rule_format, of 0] all by (auto simp: small_store_valid)
qed

section \<open>The window of the prompt\<close>

lemma restore_slot_pos [simp]: "restore_slot s x (st\<lparr>ks_slot_pos := ps\<rparr>) = (restore_slot s x st)\<lparr>ks_slot_pos := ps\<rparr>"
  by (simp add: restore_slot_def Let_def kv_write_def ring_val_off_def ring_scale_off_def split: prod.splits)

lemma fold_restore_pos [simp]: "fold (restore_slot s) xs (st\<lparr>ks_slot_pos := ps\<rparr>) = (fold (restore_slot s) xs st)\<lparr>ks_slot_pos := ps\<rparr>"
  by (induction xs arbitrary: st) simp_all

text \<open>The cells that a list of positions occupies, with their numbers in the retained snapshot.\<close>

definition prompt_cells :: "kv_config \<Rightarrow> nat list \<Rightarrow> (nat \<times> nat \<times> nat) list" where
  "prompt_cells c ps = concat (map (\<lambda>p. map (\<lambda>l. (l * kc_window c + p mod kc_window c, l, p mod kc_window c)) [0..<kc_layers c]) ps)"

lemma recover_row_cells:
  "recover_row p (st, n) =
     (if ks_prompt_slot_pos st ! (p mod kc_window (ks_cfg st)) \<noteq> int p then (st, n)
      else ((fold (restore_slot (ks_prompt_ring st)) (prompt_cells (ks_cfg st) [p]) st)
              \<lparr>ks_slot_pos := (ks_slot_pos st)[p mod kc_window (ks_cfg st) := int p]\<rparr>, n + 1))"
proof -
  let ?c = "ks_cfg st" and ?s = "p mod kc_window (ks_cfg st)"
  have "fold (\<lambda>l st'. kv_write (ring_scale_off st' l ?s) (row_at (rs_scale (ks_prompt_ring st')) (window_scales ?c) (l * kc_window ?c + ?s))
           (kv_write (ring_val_off st' l ?s) (row_at (rs_val (ks_prompt_ring st')) (kc_latent_dim ?c) (l * kc_window ?c + ?s)) st')) ls st'
      = fold (restore_slot (ks_prompt_ring st)) (map (\<lambda>l. (l * kc_window ?c + ?s, l, ?s)) ls) st'"
    if "ks_cfg st' = ?c" "ks_prompt_ring st' = ks_prompt_ring st" for ls st'
    using that by (induction ls arbitrary: st') (simp_all add: restore_slot_def Let_def)
  from this [OF refl refl] show ?thesis by (simp add: recover_row_def Let_def prompt_cells_def)
qed

lemma recover_rows:
  "fold recover_row ps (st, n) =
     (let qs = filter (\<lambda>p. ks_prompt_slot_pos st ! (p mod kc_window (ks_cfg st)) = int p) ps in
      ((fold (restore_slot (ks_prompt_ring st)) (prompt_cells (ks_cfg st) qs) st)
         \<lparr>ks_slot_pos := fold (\<lambda>p xs. xs[p mod kc_window (ks_cfg st) := int p]) qs (ks_slot_pos st)\<rparr>, n + length qs))"
proof (induction ps arbitrary: st n)
  case Nil
  show ?case by (simp add: prompt_cells_def)
next
  case (Cons p ps)
  show ?case by (simp add: recover_row_cells Cons.IH Let_def prompt_cells_def)
qed

lemma fold_update_inj:
  "inj_on f (set ps) \<Longrightarrow> p \<in> set ps \<Longrightarrow> f p < length xs \<Longrightarrow> fold (\<lambda>p xs. xs[f p := v p]) ps xs ! f p = v p"
proof (induction ps rule: rev_induct)
  case (snoc q ps)
  have "length (fold (\<lambda>p xs. xs[f p := v p]) ps xs) = length xs" by (rule length_fold_update)
  then show ?case using snoc by (cases "p = q") (auto simp: nth_list_update inj_on_def)
qed simp

lemma window_slots_distinct:
  fixes lo :: nat
  assumes "keep < lo + w"
  shows "inj_on (\<lambda>p. p mod w) {lo..<keep}"
proof (rule inj_onI)
  have aux: "p = q" if "p mod w = q mod w" "p \<le> q" "lo \<le> p" "q < keep" for p q
  proof (rule ccontr)
    assume "p \<noteq> q"
    moreover have "w dvd q - p" using that(1,2) mod_eq_dvd_iff_nat [of p q w] by simp
    ultimately have "w \<le> q - p" using that(2) by (intro dvd_imp_le) auto
    then show False using assms that by linarith
  qed
  fix p q assume "p \<in> {lo..<keep}" "q \<in> {lo..<keep}" "p mod w = q mod w"
  then show "p = q" using aux [of p q] aux [of q p] by (cases "p \<le> q") auto
qed

lemma retain_prompt_ring_ok:
  assumes "retain_prompt_ring n st = (Inr u, st1)"
  shows "snapshot_ring [0..<kc_window (ks_cfg st1)] [0..<kc_layers (ks_cfg st1)] (resolve_ring n st) = Inr (ks_prompt_ring st1)"
    "ks_cfg (resolve_ring n st) = ks_cfg st1" "ks_bufs st1 = ks_bufs (resolve_ring n st)" "ks_lay st1 = ks_lay (resolve_ring n st)"
  using assms by (auto simp: retain_prompt_ring_def Let_def split: sum.splits)

text \<open>
  C24. The prompt's window comes back. After the window of a prompt was retained, whatever overwrote the
  ring since, recovering the positions below a limit gives every position that the retained window still
  has the bytes it had in every layer, and the ring then holds it; the number returned counts them.
\<close>

theorem prompt_window_recovered:
  assumes "kv_reachable st" "retain_prompt_ring n st = (Inr (), st1)"
    and "kv_reachable st2" "kv_valid st2" "ks_cfg st2 = ks_cfg st1" "ks_prompt_ring st2 = ks_prompt_ring st1" "has_prompt_ring st2"
    and "recover_prompt_ring keep st2 = (found, st3)"
  shows "found = length (filter (\<lambda>p. ks_prompt_slot_pos st2 ! (p mod kc_window (ks_cfg st2)) = int p) [prompt_lo st2 keep..<keep])
    \<and> (\<forall>p. prompt_lo st2 keep \<le> p \<longrightarrow> p < keep \<longrightarrow> ks_prompt_slot_pos st2 ! (p mod kc_window (ks_cfg st2)) = int p \<longrightarrow>
         ring_holds st3 p
         \<and> (\<forall>l < kc_layers (ks_cfg st2).
              kv_read st3 (ring_val_off st3 l (p mod kc_window (ks_cfg st2))) (kc_latent_dim (ks_cfg st2))
                = kv_read st1 (ring_val_off st1 l (p mod kc_window (ks_cfg st2))) (kc_latent_dim (ks_cfg st2))
              \<and> kv_read st3 (ring_scale_off st3 l (p mod kc_window (ks_cfg st2))) (window_scales (ks_cfg st2))
                = kv_read st1 (ring_scale_off st1 l (p mod kc_window (ks_cfg st2))) (window_scales (ks_cfg st2))))"
proof -
  let ?c = "ks_cfg st2" and ?W = "kc_window (ks_cfg st2)" and ?L = "kc_layers (ks_cfg st2)" and ?pr = "ks_prompt_ring st2"
  define qs where "qs = filter (\<lambda>p. ks_prompt_slot_pos st2 ! (p mod ?W) = int p) [prompt_lo st2 keep..<keep]"
  define st' where "st' = fold (restore_slot ?pr) (prompt_cells ?c qs) st2"
  define ps where "ps = fold (\<lambda>p xs. xs[p mod ?W := int p]) qs (ks_slot_pos st2)"
  have wf: "kv_wf st2" by (rule kv_reachable_wf [OF assms(3)])
  then have sh: "kv_shape st2" and W: "0 < ?W" using assms(4) by (auto simp: kv_wf_def kv_config_ok_def)
  have "fold recover_row [prompt_lo st2 keep..<keep] (st2, 0) = (st'\<lparr>ks_slot_pos := ps\<rparr>, length qs)"
    by (simp add: recover_rows Let_def qs_def st'_def ps_def)
  then have f: "found = length qs" and st3: "st3 = (if qs = [] then st'\<lparr>ks_slot_pos := ps\<rparr>
      else (st'\<lparr>ks_slot_pos := ps\<rparr>)\<lparr>ks_win_lo := min (ks_win_lo st') (prompt_lo st2 keep)\<rparr>)"
    using assms(7,8) by (auto simp: recover_prompt_ring_def has_prompt_ring_def Let_def split: if_splits)
  let ?st0 = "resolve_ring n st"
  note rt = retain_prompt_ring_ok [OF assms(2), folded assms(5,6)]
  have sn: "snapshot_ring [0..<?W] [0..<?L] ?st0 = Inr ?pr" and c1: "ks_cfg ?st0 = ?c" "ks_bufs st1 = ks_bufs ?st0" "ks_lay st1 = ks_lay ?st0"
    using rt by simp_all
  have same: "kv_read ?st0 = kv_read st1" "ring_val_off ?st0 = ring_val_off st1" "ring_scale_off ?st0 = ring_scale_off st1"
    using c1 assms(5) by (auto simp: fun_eq_iff kv_read_def ring_val_off_def ring_scale_off_def)
  have cells: "l < ?L \<and> sl < ?W
        \<and> row_at (rs_val ?pr) (kc_latent_dim ?c) k = kv_read st1 (ring_val_off st1 l sl) (kc_latent_dim ?c)
        \<and> length (kv_read st1 (ring_val_off st1 l sl) (kc_latent_dim ?c)) = kc_latent_dim ?c
        \<and> row_at (rs_scale ?pr) (window_scales ?c) k = kv_read st1 (ring_scale_off st1 l sl) (window_scales ?c)
        \<and> length (kv_read st1 (ring_scale_off st1 l sl) (window_scales ?c)) = window_scales ?c" if "(k, l, sl) \<in> set (prompt_cells ?c qs)" for k l sl
  proof -
    have k: "k = l * ?W + sl" "l < ?L" "sl < ?W" using that W by (auto simp: prompt_cells_def)
    have "k < ?L * ?W" using cell_fits [OF k(2,3), of 1] k(1) by simp
    then have "List.product [0..<?L] [0..<?W] ! k = (l, sl)" "k < length (List.product [0..<?L] [0..<?W])"
      using k by (simp_all add: List.product_nth)
    then show ?thesis using snapshot_ring_ok(9,10) [OF sn, of k l sl] k(2,3) unfolding c1 same by simp
  qed
  note rc = restore_cells [where xs = "prompt_cells ?c qs", OF sh cells, folded st'_def]
  have offs: "kv_read st3 = kv_read st'" "ring_val_off st3 = ring_val_off st2" "ring_scale_off st3 = ring_scale_off st2"
    "ks_slot_pos st3 = ps" "ks_cfg st3 = ?c"
    by (auto simp: fun_eq_iff st3 st'_def kv_read_def ring_val_off_def ring_scale_off_def)
  have len: "length ps = ?W" "length (ks_slot_pos st2) = ?W" using sh by (simp_all add: ps_def length_fold_update kv_shape_def)
  have "keep < prompt_lo st2 keep + ?W" using W by (auto simp: prompt_lo_def Let_def)
  then have inj: "inj_on (\<lambda>p. p mod ?W) (set qs)" by (rule inj_on_subset [OF window_slots_distinct]) (auto simp: qs_def)
  have "ring_holds st3 p \<and> (\<forall>l < ?L.
        kv_read st3 (ring_val_off st3 l (p mod ?W)) (kc_latent_dim ?c) = kv_read st1 (ring_val_off st1 l (p mod ?W)) (kc_latent_dim ?c)
        \<and> kv_read st3 (ring_scale_off st3 l (p mod ?W)) (window_scales ?c) = kv_read st1 (ring_scale_off st1 l (p mod ?W)) (window_scales ?c))"
    if "prompt_lo st2 keep \<le> p" "p < keep" "ks_prompt_slot_pos st2 ! (p mod ?W) = int p" for p
  proof -
    have p: "p \<in> set qs" using that by (simp add: qs_def)
    have "ps ! (p mod ?W) = int p" unfolding ps_def using inj p W len by (intro fold_update_inj) auto
    moreover have "ks_win_lo st3 \<le> p" using p that(1) by (auto simp: st3)
    ultimately have "ring_holds st3 p" using len W offs by (auto simp: ring_holds_def)
    moreover have "(l, p mod ?W) \<in> snd ` set (prompt_cells ?c qs)" if "l < ?L" for l
      using that p by (force simp: prompt_cells_def)
    ultimately show ?thesis using rc(1,2) W by (auto simp: offs)
  qed
  then show ?thesis using f by (simp add: qs_def)
qed

definition prompt_store :: kv_store where
  "prompt_store = run_kv_op small_alloc (KvMarkRingWritten 0 2) small_store"

definition retained_store :: kv_store where
  "retained_store = run_kv_op small_alloc (KvRetainPromptRing 2) prompt_store"

definition overwritten_store :: kv_store where
  "overwritten_store = run_kv_op small_alloc (KvGpuWrites 0 [7, 7, 7]) retained_store"

lemma prompt_store_ok: "kv_reachable prompt_store" "kv_valid prompt_store" "ks_cfg prompt_store = small_config"
  "ks_slot_pos prompt_store = [0, 1]" "ks_win_lo prompt_store = 0"
  using kv_reachable.step [OF small_store_reachable small_alloc_ok, of "KvMarkRingWritten 0 2"]
  by (simp_all add: prompt_store_def mark_ring_written_def small_store_valid u32_of_def numeral_2_eq_2)

lemma retained_store_ok:
  "retain_prompt_ring 2 prompt_store = (Inr (), retained_store)" "ks_prompt_slot_pos retained_store = [0, 1]" "ks_cfg retained_store = small_config"
  "kv_valid retained_store" "kv_reachable retained_store"
proof -
  have "[0..<2] = [0, 1]" by (simp add: upt_rec)
  then have r: "resolve_ring 2 prompt_store = prompt_store" by (simp add: resolve_ring_def prompt_store_ok kSlotUnknown_def)
  have b: "[0..<2::nat] \<noteq> []" by simp
  obtain s where s: "snapshot_ring [0..<2] [0..<2] prompt_store = Inr s" using prompt_store_ok(2,3) b by (auto simp: snapshot_ring_def Let_def simp del: upt_eq_Nil_conv)
  show "retain_prompt_ring 2 prompt_store = (Inr (), retained_store)" "ks_prompt_slot_pos retained_store = [0, 1]" "ks_cfg retained_store = small_config"
    "kv_valid retained_store"
    using s r prompt_store_ok(2-5) by (simp_all add: retained_store_def retain_prompt_ring_def Let_def)
  show "kv_reachable retained_store"
    using kv_reachable.step [OF prompt_store_ok(1) small_alloc_ok, of "KvRetainPromptRing 2"] by (simp add: retained_store_def)
qed

theorem prompt_window_recovered_witness:
  "\<exists>st3. recover_prompt_ring 2 overwritten_store = (1, st3) \<and> ring_holds st3 1
     \<and> kv_read st3 (ring_val_off st3 0 1) 16 = kv_read retained_store (ring_val_off retained_store 0 1) 16"
proof -
  have o: "kv_reachable overwritten_store" "kv_valid overwritten_store" "ks_cfg overwritten_store = ks_cfg retained_store"
    "ks_prompt_ring overwritten_store = ks_prompt_ring retained_store" "has_prompt_ring overwritten_store"
    "ks_prompt_slot_pos overwritten_store = [0, 1]" "ks_cfg overwritten_store = small_config"
    using kv_reachable.step [OF retained_store_ok(5) small_alloc_ok, of "KvGpuWrites 0 [7, 7, 7]"] retained_store_ok
    by (simp_all add: overwritten_store_def has_prompt_ring_def)
  have lo: "prompt_lo overwritten_store 2 = 1" "[Suc 0..<2] = [1]" by (simp_all add: prompt_lo_def o(7) upt_rec Let_def)
  obtain n st3 where r: "recover_prompt_ring 2 overwritten_store = (n, st3)" by (cases "recover_prompt_ring 2 overwritten_store")
  note t = prompt_window_recovered [OF prompt_store_ok(1) retained_store_ok(1) o(1-5) r]
  from t have "n = 1" by (simp add: lo o(6,7))
  moreover have "ring_holds st3 1 \<and> kv_read st3 (ring_val_off st3 0 1) 16 = kv_read retained_store (ring_val_off retained_store 0 1) 16"
    using t [THEN conjunct2, rule_format, of 1] by (simp add: lo o(6,7))
  ultimately show ?thesis using r by blast
qed

end
