(* ===== verification/Kv_Pack.thy ===== *)
theory Kv_Pack
  imports Kv_Ring
begin

text \<open>
  A parked context comes back: what \<^verbatim>\<open>unpack\<close> puts into a store is, byte for byte, what \<^verbatim>\<open>pack\<close> read from
  the one it was parked from.
\<close>

section \<open>Rows\<close>

lemma row_of_set_row:
  assumes "length xs = rows * d" "length row = d" "r < rows" "r' < rows"
  shows "row_at (put_row d r row xs) d r' = (if r' = r then row else row_at xs d r')" "length (put_row d r row xs) = length xs"
proof -
  have r: "r * d + d \<le> rows * d" "r' * d + d \<le> rows * d"
    using mult_le_mono1 [of "Suc r" rows d] mult_le_mono1 [of "Suc r'" rows d] assms(3,4) by simp_all
  show "length (put_row d r row xs) = length xs" using r assms by (simp add: put_row_def)
  consider "r' = r" | "r' < r" | "r < r'" by linarith
  then show "row_at (put_row d r row xs) d r' = (if r' = r then row else row_at xs d r')"
  proof cases
    case 1
    then show ?thesis using r assms by (simp add: put_row_def row_at_def)
  next
    case 2
    then have "r' * d + d \<le> r * d" using mult_le_mono1 [of "Suc r'" r d] by simp
    moreover define k where "k = r * d - r' * d"
    ultimately have k: "d \<le> k" "r * d = r' * d + k" by simp_all
    have "length (drop (r' * d) (take (r * d) xs)) = k" using k r assms by simp
    then have "take d (drop (r' * d) (take (r * d) xs) @ zs) = take d (drop (r' * d) (take (r * d) xs))" for zs using k(1) by simp
    moreover have "take d (drop (r' * d) (take (r * d) xs)) = take d (drop (r' * d) xs)" using k by (simp add: drop_take)
    ultimately show ?thesis using 2 k r assms by (simp add: put_row_def row_at_def)
  next
    case 3
    then have "r * d + d \<le> r' * d" using mult_le_mono1 [of "Suc r" r' d] by simp
    then show ?thesis using 3 r assms by (simp add: put_row_def row_at_def)
  qed
qed

lemma rows_eqI:
  assumes "length xs = rows * d" "length ys = rows * d" "\<And>r. r < rows \<Longrightarrow> row_at xs d r = row_at ys d r"
  shows "xs = ys"
proof -
  have split: "zs = concat (map (row_at zs d) [0..<rows])" if "length zs = rows * d" for zs :: "'a list"
    using concat_chunks [of rows d zs] that unfolding row_at_def [abs_def] by simp
  have "concat (map (row_at xs d) [0..<rows]) = concat (map (row_at ys d) [0..<rows])"
    by (intro arg_cong [where f = concat] map_cong) (use assms(3) in auto)
  then show ?thesis using split [OF assms(1)] split [OF assms(2)] by simp
qed

lemma length_row_of: "length xs = rows * d \<Longrightarrow> r < rows \<Longrightarrow> length (row_at xs d r) = d"
proof -
  assume "length xs = rows * d" "r < rows"
  moreover have "Suc r * d \<le> rows * d" using \<open>r < rows\<close> by (intro mult_le_mono1) simp
  ultimately show ?thesis by (simp add: row_at_def)
qed

text \<open>Putting the raw rows over the others.\<close>

lemma fold_set_row:
  assumes "length xs = rows * d" "\<forall>i \<in> set is. f i < rows \<and> length (g i) = d \<and> g i = h (f i)"
  shows "length (fold (\<lambda>i. put_row d (f i) (g i)) is xs) = rows * d"
    "r < rows \<Longrightarrow> row_at (fold (\<lambda>i. put_row d (f i) (g i)) is xs) d r = (if r \<in> f ` set is then h r else row_at xs d r)"
proof -
  let ?F = "\<lambda>is. fold (\<lambda>i. put_row d (f i) (g i)) is xs"
  have "length (?F is) = rows * d \<and> (\<forall>r < rows. row_at (?F is) d r = (if r \<in> f ` set is then h r else row_at xs d r))"
    using assms(2)
  proof (induction "is" rule: rev_induct)
    case (snoc i "is")
    from snoc.prems have i: "f i < rows" "length (g i) = d" "g i = h (f i)" and rest: "\<forall>i \<in> set is. f i < rows \<and> length (g i) = d \<and> g i = h (f i)" by auto
    note ih = snoc.IH [OF rest]
    have "row_at (?F (is @ [i])) d r = (if r \<in> f ` set (is @ [i]) then h r else row_at xs d r)" if "r < rows" for r
      using ih i(3) row_of_set_row(1) [of "?F is" rows d "g i" "f i" r] i that by auto
    then show ?case using ih row_of_set_row(2) [of "?F is" rows d "g i" "f i"] i by auto
  qed (use assms(1) in simp)
  then show "length (?F is) = rows * d" "r < rows \<Longrightarrow> row_at (?F is) d r = (if r \<in> f ` set is then h r else row_at xs d r)" by simp_all
qed

lemma unpack_fp4_row_prefix:
  assumes "length nib = n div 2" "length sc = n div block" "even n" "0 < block" "block dvd n"
  shows "unpack_fp4_row (nib @ xs) (sc @ ys) n block e = unpack_fp4_row nib sc n block e"
proof -
  have "nibble (nib @ xs) k = nibble nib k \<and> (sc @ ys) ! (k div block) = sc ! (k div block)" if "k < n" for k
  proof -
    have "k div 2 < n div 2" using that assms(3) by (auto elim!: evenE)
    moreover have "k div block < n div block" using that assms(4,5) by (auto simp: div_less_iff_less_mult elim!: dvdE)
    ultimately show ?thesis using assms(1,2) by (simp add: nibble_def nth_append)
  qed
  then show ?thesis by (simp add: unpack_fp4_row_def)
qed

lemma drop_concat_uniform:
  assumes "\<And>r. r < rows \<Longrightarrow> length (f r) = m" "r < rows"
  shows "\<exists>ys. drop (r * m) (concat (map f [0..<rows])) = f r @ ys"
proof -
  have "length (concat (map f [0..<r])) = r * m" using assms by (induction r) auto
  moreover have "[0..<rows] = [0..<r] @ r # [Suc r..<rows]"
    using assms(2) upt_add_eq_append [of 0 r "rows - r"] by (simp add: upt_conv_Cons)
  ultimately show ?thesis by simp
qed

lemma unpacked_packed_rows:
  fixes xs :: "u16 list" and e :: bool
  assumes "length xs = rows * d" "even d" "0 < block" "block dvd d" "\<forall>r \<in> set raw. r < rows"
  defines "p \<equiv> \<lambda>r. pack_fp4_row (row_at xs d r) d block e"
  assumes "\<And>r. r < rows \<Longrightarrow> r \<notin> set raw \<Longrightarrow> fst (p r)"
  shows "unpacked_rows (concat (map (\<lambda>(ok, nib, sc). nib) (map p [0..<rows]))) (concat (map (\<lambda>(ok, nib, sc). sc) (map p [0..<rows]))) rows d block e
      raw (concat (map (row_at xs d) raw)) = xs"
proof -
  let ?nib = "\<lambda>r. fst (snd (p r))" and ?sc = "\<lambda>r. snd (snd (p r))"
  let ?N = "concat (map ?nib [0..<rows])" and ?S = "concat (map ?sc [0..<rows])"
  let ?u = "\<lambda>r. unpack_fp4_row (drop (r * d div 2) ?N) (drop (r * d div block) ?S) d block e"
  have lens: "length (?nib r) = d div 2" "length (?sc r) = d div block" if "r < rows" for r
    using pack_fp4_row_lengths [of "row_at xs d r" d block e "fst (p r)" "?nib r" "?sc r"] length_row_of [OF assms(1) that] by (simp_all add: p_def)
  have u: "?u r = unpack_fp4_row (?nib r) (?sc r) d block e" if r: "r < rows" for r
  proof -
    have "r * d div 2 = r * (d div 2)" "r * d div block = r * (d div block)" using assms(2,4) by (simp_all add: div_mult_swap)
    then obtain ys zs where "drop (r * d div 2) ?N = ?nib r @ ys" "drop (r * d div block) ?S = ?sc r @ zs"
      using drop_concat_uniform [of rows ?nib, OF lens(1) r] drop_concat_uniform [of rows ?sc, OF lens(2) r] by auto
    then show ?thesis using unpack_fp4_row_prefix [OF lens(1,2) [OF r] assms(2-4)] r by simp
  qed
  have ok: "?u r = row_at xs d r" if "r < rows" "r \<notin> set raw" for r
  proof -
    have "pack_fp4_row (row_at xs d r) d block e = (True, ?nib r, ?sc r)" using assms(7) [OF that] by (cases "p r") (simp add: p_def)
    then show ?thesis using fp4_row_round_trip length_row_of [OF assms(1) that(1)] u [OF that(1)] by simp
  qed
  let ?us = "concat (map ?u [0..<rows])"
  have us: "length ?us = rows * d" by (simp add: unpack_fp4_row_def length_concat comp_def sum_list_triv)
  have rowu: "row_at ?us d r = ?u r" if "r < rows" for r
    using row_of_concat [of "[0..<rows]" ?u d r] that by (simp add: unpack_fp4_row_def)
  let ?f = "\<lambda>i. put_row d (raw ! i) (row_at (concat (map (row_at xs d) raw)) d i)"
  have each: "\<forall>i \<in> set [0..<length raw]. raw ! i < rows \<and> length (row_at (concat (map (row_at xs d) raw)) d i) = d
      \<and> row_at (concat (map (row_at xs d) raw)) d i = row_at xs d (raw ! i)"
    using row_of_concat [of raw "row_at xs d" d] length_row_of [OF assms(1)] assms(5) by auto
  note f = fold_set_row [OF us, of "[0..<length raw]" "(!) raw" "\<lambda>i. row_at (concat (map (row_at xs d) raw)) d i" "row_at xs d", OF each]
  have "fold ?f [0..<length raw] ?us = xs"
  proof (rule rows_eqI [OF f(1) assms(1)])
    fix r assume r: "r < rows"
    have "(!) raw ` set [0..<length raw] = set raw" by (metis list.set_map map_nth)
    then show "row_at (fold ?f [0..<length raw] ?us) d r = row_at xs d r" using f(2) [OF r] rowu [OF r] ok [OF r] by auto
  qed
  then show ?thesis by (simp add: unpacked_rows_def split_def comp_def)
qed

section \<open>Planes\<close>

text \<open>The parts of the memory that a packed plane carries: where they go, and the bytes they had.\<close>

definition plane_parts :: "kv_store \<Rightarrow> nat \<Rightarrow> kv_layout \<Rightarrow> nat \<Rightarrow> (nat \<times> u8 list) list" where
  "plane_parts st n nl oi =
     (let c = ks_cfg st; ratio = plane_ratio c (owners c ! oi); rows = n div ratio; l = ks_lay st; sb = length (owners c) * state_stride c in
      [(ly_off_cmp nl ! oi, kv_read st (ly_off_cmp l ! oi) (2 * (rows * kc_latent_dim c))),
       (ly_off_idx nl ! oi, kv_read st (ly_off_idx l ! oi) (2 * (rows * kc_index_dim c)))]
      @ (if ratio > 1
         then [(ly_off_state nl + oi * state_stride c, kv_read st (ly_off_state l + oi * state_stride c) (4 * (ratio * kc_latent_dim c))),
               (ly_off_state nl + (sb + oi * state_stride c), kv_read st (ly_off_state l + (sb + oi * state_stride c)) (4 * (ratio * kc_latent_dim c)))]
         else []))"

lemma raise_hw_fold: "raise_hw oi n (fold (\<lambda>(a, bs). kv_write a bs) ws st) = fold (\<lambda>(a, bs). kv_write a bs) ws (raise_hw oi n st)"
  by (induction ws arbitrary: st) (simp_all add: split_beta)

lemma encode_read: "encode_list (le_bytes 2) (read_u16s st a n) = kv_read st a (2 * n)" "encode_list (le_bytes 4) (read_f32s st a n) = kv_read st a (4 * n)"
  using le2.encode_decode_list [of n "kv_read st a (2 * n)"] le4.encode_decode_list [of n "kv_read st a (4 * n)"]
  by (simp_all add: read_u16s_def read_f32s_def)

lemma length_read [simp]: "length (read_u16s st a n) = n" "length (read_f32s st a n) = n"
  by (simp_all add: read_u16s_def read_f32s_def decode_list_def)

lemma unpack_packed_plane:
  assumes "kv_shape st" "ks_owners st2 = owners (ks_cfg st)" "owner_index st2 (owners (ks_cfg st) ! oi) = oi" "ks_cfg st2 = ks_cfg st"
    and "oi < length (owners (ks_cfg st))" "kc_layers (ks_cfg st) \<le> kNoPlane"
    and dims: "16 dvd kc_latent_dim (ks_cfg st)" "32 dvd kc_index_dim (ks_cfg st)"
  shows "unpack_plane (pack_plane st n oi) st2
    = (Inr (), fold (\<lambda>(a, bs). kv_write a bs) (plane_parts st n (ks_lay st2) oi)
        (raise_hw oi (n div plane_ratio (ks_cfg st) (owners (ks_cfg st) ! oi)) st2))"
proof -
  let ?c = "ks_cfg st" and ?l = "owners (ks_cfg st) ! oi" and ?d = "kc_latent_dim (ks_cfg st)" and ?k = "kc_index_dim (ks_cfg st)"
  let ?ratio = "plane_ratio ?c ?l"
  let ?rows = "n div ?ratio"
  have own: "ks_owners st = owners ?c" "ks_owners st2 = owners ?c" using assms(1,2) by (simp_all add: kv_shape_def kv_frame_def Let_def)
  have "oi < kNoPlane"
  proof -
    have "length (owners ?c) \<le> kc_layers ?c" unfolding owners_def by (rule le_trans [OF length_filter_le]) simp
    then show ?thesis using assms(5,6) by simp
  qed
  define xs where "xs = read_u16s st (ly_off_cmp (ks_lay st) ! oi) (?rows * ?d)"
  define ks where "ks = read_u16s st (ly_off_idx (ks_lay st) ! oi) (?rows * ?k)"
  define pc where "pc = (\<lambda>r. pack_fp4_row (row_at xs ?d r) ?d 16 False)"
  define pk where "pk = (\<lambda>r. pack_fp4_row (row_at ks ?k r) ?k 32 True)"
  define raw where "raw = filter (\<lambda>r. \<not> (fst (map pc [0..<?rows] ! r) \<and> fst (map pk [0..<?rows] ! r))) [0..<?rows]"
  have raw: "\<forall>r \<in> set raw. r < ?rows" "r < ?rows \<Longrightarrow> r \<notin> set raw \<Longrightarrow> fst (pc r) \<and> fst (pk r)" for r by (auto simp: raw_def)
  let ?p = "pack_plane st n oi"
  have p: "kp_layer ?p = ?l" "kp_ratio ?p = ?ratio" "kp_rows ?p = ?rows"
    "kp_cmp_fp4 ?p = concat (map (\<lambda>(ok, nib, sc). nib) (map pc [0..<?rows]))" "kp_cmp_scale ?p = concat (map (\<lambda>(ok, nib, sc). sc) (map pc [0..<?rows]))"
    "kp_key_fp4 ?p = concat (map (\<lambda>(ok, nib, sc). nib) (map pk [0..<?rows]))" "kp_key_scale ?p = concat (map (\<lambda>(ok, nib, sc). sc) (map pk [0..<?rows]))"
    "kp_raw_rows ?p = raw" "kp_raw_cmp ?p = concat (map (row_at xs ?d) raw)" "kp_raw_key ?p = concat (map (row_at ks ?k) raw)"
    "kp_carry_kv ?p = (if ?ratio > 1 then read_f32s st (ly_off_state (ks_lay st) + oi * state_stride ?c) (?ratio * ?d) else [])"
    "kp_carry_score ?p = (if ?ratio > 1 then read_f32s st (score_base st + oi * state_stride ?c) (?ratio * ?d) else [])"
    unfolding pack_plane_def Let_def own xs_def [symmetric] ks_def [symmetric] pc_def [symmetric] pk_def [symmetric] raw_def [symmetric] by simp_all
  have even: "even ?d" "even ?k" using dims dvd_trans [of 2 16] dvd_trans [of 2 32] by auto
  have cmp: "unpacked_rows (kp_cmp_fp4 ?p) (kp_cmp_scale ?p) ?rows ?d 16 False raw (kp_raw_cmp ?p) = xs"
    unfolding p pc_def by (rule unpacked_packed_rows) (use raw even dims in \<open>auto simp: xs_def pc_def\<close>)
  have key: "unpacked_rows (kp_key_fp4 ?p) (kp_key_scale ?p) ?rows ?k 32 True raw (kp_raw_key ?p) = ks"
    unfolding p pk_def by (rule unpacked_packed_rows) (use raw even dims in \<open>auto simp: ks_def pk_def\<close>)
  show ?thesis
    using \<open>oi < kNoPlane\<close> cmp key
    by (simp add: unpack_plane_def Let_def assms(3,4) p(1-3,8,11,12) own plane_parts_def encode_read score_base_def xs_def ks_def add.assoc)
qed

lemma fold_write_sel:
  "ks_cfg (fold (\<lambda>(a, bs). kv_write a bs) ws st) = ks_cfg st" "ks_lay (fold (\<lambda>(a, bs). kv_write a bs) ws st) = ks_lay st"
  "ks_owners (fold (\<lambda>(a, bs). kv_write a bs) ws st) = ks_owners st" "ks_owner_of (fold (\<lambda>(a, bs). kv_write a bs) ws st) = ks_owner_of st"
  "ks_rows_hw (fold (\<lambda>(a, bs). kv_write a bs) ws st) = ks_rows_hw st" "ks_cap (fold (\<lambda>(a, bs). kv_write a bs) ws st) = ks_cap st"
  by (induction ws arbitrary: st) (simp_all add: split_beta)

abbreviation plane_rows :: "kv_config \<Rightarrow> nat \<Rightarrow> nat \<Rightarrow> nat" where
  "plane_rows c n oi \<equiv> n div plane_ratio c (owners c ! oi)"

lemma fold_raise_sel:
  "ks_cfg (fold (\<lambda>oi. raise_hw oi (f oi)) ois st) = ks_cfg st" "ks_lay (fold (\<lambda>oi. raise_hw oi (f oi)) ois st) = ks_lay st"
  "ks_bufs (fold (\<lambda>oi. raise_hw oi (f oi)) ois st) = ks_bufs st"
  "ks_cap (fold (\<lambda>oi. raise_hw oi (f oi)) ois st) = ks_cap st" "ks_owners (fold (\<lambda>oi. raise_hw oi (f oi)) ois st) = ks_owners st"
  "ks_owner_of (fold (\<lambda>oi. raise_hw oi (f oi)) ois st) = ks_owner_of st"
  by (induction ois arbitrary: st) simp_all

lemma raise_all_fold:
  "fold (\<lambda>oi. raise_hw oi (f oi)) ois (fold (\<lambda>(a, bs). kv_write a bs) ws st)
     = fold (\<lambda>(a, bs). kv_write a bs) ws (fold (\<lambda>oi. raise_hw oi (f oi)) ois st)"
  by (induction ois arbitrary: st) (simp_all add: raise_hw_fold)

lemma raised_rows:
  "length (ks_rows_hw (fold (\<lambda>oi. raise_hw oi (f oi)) ois st)) = length (ks_rows_hw st)
   \<and> (\<forall>oi \<in> set ois. oi < length (ks_rows_hw st) \<longrightarrow> f oi \<le> ks_rows_hw (fold (\<lambda>oi. raise_hw oi (f oi)) ois st) ! oi)"
proof (induction ois rule: rev_induct)
  case (snoc i ois)
  let ?st = "fold (\<lambda>oi. raise_hw oi (f oi)) ois st"
  have "ks_rows_hw (raise_hw i (f i) ?st) ! j = (if j = i then max (ks_rows_hw ?st ! i) (f i) else ks_rows_hw ?st ! j)" if "j < length (ks_rows_hw ?st)" for j
    using that by (simp add: raise_hw_def nth_list_update)
  moreover have "length (ks_rows_hw (raise_hw i (f i) ?st)) = length (ks_rows_hw ?st)" by (simp add: raise_hw_def)
  ultimately show ?case using snoc by auto
qed simp

lemma unpack_packed_planes:
  assumes "kv_shape st" "kc_layers (ks_cfg st) \<le> kNoPlane" "16 dvd kc_latent_dim (ks_cfg st)" "32 dvd kc_index_dim (ks_cfg st)"
    and "ks_owners st2 = owners (ks_cfg st)" "\<forall>oi \<in> set ois. owner_index st2 (owners (ks_cfg st) ! oi) = oi \<and> oi < length (owners (ks_cfg st))"
      "ks_cfg st2 = ks_cfg st"
  shows "unpack_planes (map (pack_plane st n) ois) st2
    = (Inr (), fold (\<lambda>(a, bs). kv_write a bs) (concat (map (plane_parts st n (ks_lay st2)) ois))
        (fold (\<lambda>oi. raise_hw oi (plane_rows (ks_cfg st) n oi)) ois st2))"
  using assms(5-7)
proof (induction ois arbitrary: st2)
  case (Cons oi ois)
  let ?st = "fold (\<lambda>(a, bs). kv_write a bs) (plane_parts st n (ks_lay st2) oi) (raise_hw oi (plane_rows (ks_cfg st) n oi) st2)"
  have p: "unpack_plane (pack_plane st n oi) st2 = (Inr (), ?st)"
    using unpack_packed_plane [OF assms(1) Cons.prems(1) _ Cons.prems(3) _ assms(2-4)] Cons.prems(2) by simp
  have "owner_index ?st l = owner_index st2 l" for l by (rule owner_index_sel) (simp add: fold_write_sel)
  then show ?case using p Cons.IH [of ?st] Cons.prems by (simp add: fold_write_sel raise_all_fold)
qed simp

section \<open>Parts\<close>

text \<open>
  The parts of a plane, as a region, an offset in it and a length: its rows, its keys, and the two halves
  of its carried state.
\<close>

definition part_at :: "kv_config \<Rightarrow> nat \<Rightarrow> nat \<times> nat \<Rightarrow> nat \<times> nat \<times> nat" where
  "part_at c n = (\<lambda>(oi, k).
     let N = length (owners c); ratio = plane_ratio c (owners c ! oi); rows = n div ratio in
     if k = 0 then (4 + oi, 0, 2 * (rows * kc_latent_dim c))
     else if k = 1 then (4 + N + oi, 0, 2 * (rows * kc_index_dim c))
     else if k = 2 then (3, oi * state_stride c, 4 * (ratio * kc_latent_dim c))
     else (3, (N + oi) * state_stride c, 4 * (ratio * kc_latent_dim c)))"

definition part_keys :: "kv_config \<Rightarrow> nat \<Rightarrow> (nat \<times> nat) list" where
  "part_keys c oi = map (Pair oi) (if plane_ratio c (owners c ! oi) > 1 then [0, 1, 2, 3] else [0, 1])"

definition part_write :: "kv_store \<Rightarrow> kv_layout \<Rightarrow> nat \<times> nat \<times> nat \<Rightarrow> nat \<times> u8 list" where
  "part_write st nl = (\<lambda>(i, a, m). (region_offs nl ! i + a, kv_read st (region_off st i + a) m))"

lemma plane_parts_map:
  assumes "kv_shape st" "length (ly_off_cmp nl) = length (owners (ks_cfg st))" "oi < length (owners (ks_cfg st))"
  shows "plane_parts st n nl oi = map (\<lambda>x. part_write st nl (part_at (ks_cfg st) n x)) (part_keys (ks_cfg st) oi)"
  using plane_offs [OF shape_layout(2) [OF assms(1)] assms(3)] plane_offs [OF assms(2,3)]
  by (simp add: plane_parts_def part_keys_def part_at_def part_write_def Let_def add_mult_distrib)

lemma distinct_part_keys: "distinct (concat (map (part_keys c) [0..<N]))"
  by (induction N) (auto simp: part_keys_def)

lemma part_keys_set: "(oi, k) \<in> set (concat (map (part_keys c) [0..<N])) \<longleftrightarrow> oi < N \<and> (k < 2 \<or> k < 4 \<and> plane_ratio c (owners c ! oi) > 1)"
  by (auto simp: part_keys_def)

lemma part_fits:
  assumes "kv_shape st" "oi < length (owners (ks_cfg st))"
    and "plane_rows (ks_cfg st) n oi \<le> rows_for (ks_cfg st) (owners (ks_cfg st) ! oi) (ks_cap st)"
    and "plane_ratio (ks_cfg st) (owners (ks_cfg st) ! oi) \<le> kc_max_ratio (ks_cfg st)"
    and "part_at (ks_cfg st) n (oi, k) = (i, a, m)"
  shows "i < regions st" "a + m \<le> region_size st i" "i = 3 \<Longrightarrow> m \<le> state_stride (ks_cfg st)"
proof -
  let ?c = "ks_cfg st"
  let ?N = "length (owners ?c)"
  have st: "4 * (plane_ratio ?c (owners ?c ! oi) * kc_latent_dim ?c) \<le> state_stride ?c"
    using assms(4) by (simp add: state_stride_def mult_le_mono1)
  have sz: "region_size st 3 = 2 * ?N * state_stride ?c" by (simp add: state_stride_def)
  have "Suc j * state_stride ?c \<le> 2 * ?N * state_stride ?c" if "j < 2 * ?N" for j using that by (intro mult_le_mono1) simp
  from this [of oi] this [of "?N + oi"]
  have b: "oi * state_stride ?c + state_stride ?c \<le> 2 * ?N * state_stride ?c" "(?N + oi) * state_stride ?c + state_stride ?c \<le> 2 * ?N * state_stride ?c"
    using assms(2) by (simp_all add: algebra_simps)
  have rows: "2 * (plane_rows ?c n oi * x) \<le> rows_for ?c (owners ?c ! oi) (ks_cap st) * x * 2" for x using assms(3) by (simp add: mult_le_mono1)
  have "i < regions st \<and> a + m \<le> region_size st i \<and> (i = 3 \<longrightarrow> m \<le> state_stride ?c)"
  proof (cases "k < 2")
    case True
    then consider "i = 4 + oi" "a = 0" "m = 2 * (plane_rows ?c n oi * kc_latent_dim ?c)"
      | "i = 4 + ?N + oi" "a = 0" "m = 2 * (plane_rows ?c n oi * kc_index_dim ?c)"
      using assms(5) by (auto simp: part_at_def Let_def less_2_cases_iff)
    then show ?thesis
    proof cases
      case 1
      then show ?thesis using assms(2) rows [of "kc_latent_dim ?c"] plane_sizes(1) [OF assms(2)] by simp
    next
      case 2
      then show ?thesis using assms(2) rows [of "kc_index_dim ?c"] plane_sizes(2) [OF assms(2)] by simp
    qed
  next
    case False
    then have "i = 3" "m = 4 * (plane_ratio ?c (owners ?c ! oi) * kc_latent_dim ?c)" "a = oi * state_stride ?c \<or> a = (?N + oi) * state_stride ?c"
      using assms(5) by (auto simp: part_at_def Let_def split: if_splits)
    then have "a + m \<le> region_size st 3" unfolding sz using st b by (elim disjE) linarith+
    then show ?thesis using \<open>i = 3\<close> st \<open>m = _\<close> by simp
  qed
  then show "i < regions st" "a + m \<le> region_size st i" "i = 3 \<Longrightarrow> m \<le> state_stride ?c" by simp_all
qed

lemma parts_apart:
  assumes "(oi, k) \<noteq> (oi', k')" "oi < length (owners c)" "oi' < length (owners c)" "k < 4" "k' < 4"
    and "part_at c n (oi, k) = (i, a, m)" "part_at c n (oi', k') = (i', a', m')"
    and "i = 3 \<Longrightarrow> m \<le> state_stride c" "i' = 3 \<Longrightarrow> m' \<le> state_stride c"
  shows "i \<noteq> i' \<or> a + m \<le> a' \<or> a' + m' \<le> a"
proof (cases "i = 3 \<and> i' = 3")
  case True
  let ?N = "length (owners c)" and ?s = "state_stride c"
  define j j' where "j = (if k = 2 then oi else ?N + oi)" and "j' = (if k' = 2 then oi' else ?N + oi')"
  have k: "k = 2 \<or> k = 3" "k' = 2 \<or> k' = 3" using assms(2-7) True by (auto simp: part_at_def Let_def split: if_splits)
  then have a: "a = j * ?s" "a' = j' * ?s" using assms(6,7) True by (auto simp: part_at_def Let_def j_def j'_def)
  have "j \<noteq> j'" using k assms(1-3) by (auto simp: j_def j'_def)
  then consider "Suc j \<le> j'" | "Suc j' \<le> j" by linarith
  then show ?thesis
  proof cases
    case 1
    then have "Suc j * ?s \<le> j' * ?s" by (rule mult_le_mono1)
    then show ?thesis using a True assms(8) by simp
  next
    case 2
    then have "Suc j' * ?s \<le> j * ?s" by (rule mult_le_mono1)
    then show ?thesis using a True assms(9) by simp
  qed
next
  case False
  have "i = i' \<Longrightarrow> oi = oi' \<and> k = k'" using False assms(2-7) by (auto simp: part_at_def Let_def split: if_splits)
  then show ?thesis using assms(1) by blast
qed

text \<open>Writing all the parts of all the planes: each of them reads as it did in the store they were packed from.\<close>

lemma parts_restored:
  assumes "kv_shape st" "kv_shape st2" "ks_cfg st2 = ks_cfg st"
    and rows: "\<And>oi. oi < length (owners (ks_cfg st)) \<Longrightarrow> plane_rows (ks_cfg st) n oi \<le> rows_for (ks_cfg st) (owners (ks_cfg st) ! oi) (ks_cap st2)"
    and ratio: "\<And>oi. oi < length (owners (ks_cfg st)) \<Longrightarrow> plane_ratio (ks_cfg st) (owners (ks_cfg st) ! oi) \<le> kc_max_ratio (ks_cfg st)"
    and part: "part_at (ks_cfg st) n (oi, k) = (i, a, m)" "oi < length (owners (ks_cfg st))"
      "k < 2 \<or> k < 4 \<and> plane_ratio (ks_cfg st) (owners (ks_cfg st) ! oi) > 1"
  defines "st3 \<equiv> fold (\<lambda>(a, bs). kv_write a bs) (concat (map (plane_parts st n (ks_lay st2)) [0..<length (owners (ks_cfg st))])) st2"
  shows "kv_read st3 (region_off st2 i + a) m = kv_read st (region_off st i + a) m"
proof -
  let ?c = "ks_cfg st" and ?N = "length (owners (ks_cfg st))"
  let ?keys = "concat (map (part_keys ?c) [0..<?N])"
  let ?w = "\<lambda>x. part_write st (ks_lay st2) (part_at ?c n x)"
  have lay: "length (ly_off_cmp (ks_lay st2)) = ?N" using shape_layout(2) [OF assms(2)] assms(3) by simp
  have ws: "concat (map (plane_parts st n (ks_lay st2)) [0..<?N]) = map ?w ?keys"
    unfolding map_concat map_map comp_def by (intro arg_cong [where f = concat] map_cong) (auto simp: plane_parts_map [OF assms(1) lay])
  have fit: "i < regions st2 \<and> a + m \<le> region_size st2 i \<and> (i = 3 \<longrightarrow> m \<le> state_stride ?c)"
    if "oi < ?N" "part_at ?c n (oi, k) = (i, a, m)" for oi k i a m
    unfolding assms(3) using part_fits [OF assms(2), unfolded assms(3), OF that(1) rows ratio that(2)] that(1) by simp
  have ok: "kv_ok st2 b (length bs)" if w: "(b, bs) \<in> set (map ?w ?keys)" for b bs
  proof -
    obtain x where "x \<in> set ?keys" "(b, bs) = ?w x" using w unfolding set_map by blast
    then obtain oi k where x: "(oi, k) \<in> set ?keys" "(b, bs) = ?w (oi, k)" using surj_pair [of x] by metis
    obtain i a m where p: "part_at ?c n (oi, k) = (i, a, m)" by (cases "part_at ?c n (oi, k)")
    have "oi < ?N" using x(1) unfolding part_keys_set by simp
    note f = fit [OF this p]
    show ?thesis using region_part_ok [OF assms(2), of i a m] f x(2) p assms(3) by (simp add: part_write_def)
  qed
  have disjoint: "sorted_wrt (\<lambda>(a, bs) (b, cs). a + length bs \<le> b \<or> b + length cs \<le> a) (map ?w ?keys)"
  proof (rule sorted_wrt_distinct [OF distinct_part_keys])
    fix x y assume xy: "x \<in> set ?keys" "y \<in> set ?keys" "x \<noteq> y"
    obtain oi k oi' k' where e: "x = (oi, k)" "y = (oi', k')" by (cases x; cases y)
    obtain i a m i' a' m' where p: "part_at ?c n x = (i, a, m)" "part_at ?c n y = (i', a', m')" by (cases "part_at ?c n x"; cases "part_at ?c n y")
    have d: "oi < ?N" "k < 4" "oi' < ?N" "k' < 4" using xy(1,2) unfolding e part_keys_set by auto
    have f: "i < regions st2" "a + m \<le> region_size st2 i" "i = 3 \<Longrightarrow> m \<le> state_stride ?c"
        "i' < regions st2" "a' + m' \<le> region_size st2 i'" "i' = 3 \<Longrightarrow> m' \<le> state_stride ?c"
      using fit [OF d(1) p(1) [unfolded e]] fit [OF d(3) p(2) [unfolded e]] by simp_all
    have "i \<noteq> i' \<or> a + m \<le> a' \<or> a' + m' \<le> a"
      using parts_apart [OF _ d(1,3,2,4) p [unfolded e] f(3,6)] xy(3) e by simp
    then have "region_off st2 i + a + m \<le> region_off st2 i' + a' \<or> region_off st2 i' + a' + m' \<le> region_off st2 i + a"
      using regions_apart [OF assms(2) f(1,4) _ f(2,5)] by (cases "i = i'") auto
    then show "(case ?w x of (a, bs) \<Rightarrow> \<lambda>(b, cs). a + length bs \<le> b \<or> b + length cs \<le> a) (?w y)"
      by (simp add: p part_write_def)
  qed
  let ?bs = "kv_read st (region_off st i + a) m"
  have "?w (oi, k) = (region_off st2 i + a, ?bs)" by (simp add: part(1) part_write_def)
  moreover have "(oi, k) \<in> set ?keys" unfolding part_keys_set using part(2,3) by simp
  ultimately have hit: "(region_off st2 i + a, ?bs) \<in> set (map ?w ?keys)" by (metis image_eqI list.set_map)
  have "kv_byte st3 (region_off st2 i + a + j) = ?bs ! j" if "j < m" for j
    unfolding st3_def ws using kvm.fold_hit [OF ok disjoint hit] that by simp
  moreover have "kv_ok st3 (region_off st2 i + a) m"
    unfolding st3_def kvm.ok_fold using region_part_ok [OF assms(2), of i a m] fit [OF part(2,1)] assms(3) by simp
  ultimately show ?thesis by (auto simp: kv_read_bytes intro!: nth_equalityI)
qed

section \<open>Contexts\<close>

lemma forget_prompt_sel [simp]:
  "ks_cfg (forget_prompt st) = ks_cfg st" "fst (reserve al n (forget_prompt st)) = fst (reserve al n st)"
  by (simp_all add: forget_prompt_def reserve_def Let_def kv_valid_def grown_cap_def split: sum.splits)

lemma fold_valid: "kv_valid (fold (\<lambda>(a, bs). kv_write a bs) ws st) = kv_valid st" "kv_valid (fold (\<lambda>oi. raise_hw oi (f oi)) ois st) = kv_valid st"
  by (induction ws arbitrary: st, simp_all add: split_beta) (induction ois arbitrary: st, simp_all add: raise_hw_def)

lemma kv_read_cong: "ks_lay st = ks_lay st' \<Longrightarrow> ks_bufs st = ks_bufs st' \<Longrightarrow> kv_read st = kv_read st'"
  by (auto simp: fun_eq_iff kv_read_def)

lemma unpacked_context:
  assumes "kv_reachable st" "kv_pack n st = Inr pk"
    and "kv_reachable st2" "kv_valid st2" "ks_cfg st2 = ks_cfg st" "allocator_ok al" "kv_unpack al pk st2 = (r, st3)"
    and "kc_layers (ks_cfg st) \<le> kNoPlane" "16 dvd kc_latent_dim (ks_cfg st)" "32 dvd kc_index_dim (ks_cfg st)"
      "\<forall>k \<in> set (owners (ks_cfg st)). plane_ratio (ks_cfg st) k \<le> kc_max_ratio (ks_cfg st)"
  shows "r = fst (reserve al (max n 1) st2) \<and>
    (r = Inr () \<longrightarrow>
      kv_valid st3 \<and> ks_cfg st3 = ks_cfg st \<and> n \<le> ks_cap st3
      \<and> (\<forall>oi < length (owners (ks_cfg st)).
          let c = ks_cfg st; ratio = plane_ratio c (owners c ! oi); rows = n div ratio; carry = 4 * (ratio * kc_latent_dim c) in
          kv_read st3 (ly_off_cmp (ks_lay st3) ! oi) (2 * (rows * kc_latent_dim c)) = kv_read st (ly_off_cmp (ks_lay st) ! oi) (2 * (rows * kc_latent_dim c))
          \<and> kv_read st3 (ly_off_idx (ks_lay st3) ! oi) (2 * (rows * kc_index_dim c)) = kv_read st (ly_off_idx (ks_lay st) ! oi) (2 * (rows * kc_index_dim c))
          \<and> (ratio > 1 \<longrightarrow>
              kv_read st3 (ly_off_state (ks_lay st3) + oi * state_stride c) carry = kv_read st (ly_off_state (ks_lay st) + oi * state_stride c) carry
              \<and> kv_read st3 (score_base st3 + oi * state_stride c) carry = kv_read st (score_base st + oi * state_stride c) carry)
          \<and> rows \<le> ks_rows_hw st3 ! oi)
      \<and> (\<forall>l < kc_layers (ks_cfg st). ks_n_cmp st3 ! l =
           (if owner_index st3 l = kNoPlane then 0 else n div plane_ratio (ks_cfg st) (ks_owners st3 ! owner_index st3 l))))"
proof -
  let ?c = "ks_cfg st" and ?N = "length (owners (ks_cfg st))"
  have wf: "kv_wf st" "kv_wf st2" using kv_reachable_wf assms(1,3) by blast+
  have "kv_valid st" using assms(2) by (auto simp: kv_pack_def split: if_splits)
  then have sh: "kv_shape st" using wf(1) by (simp add: kv_wf_def)
  then have pk: "pk_positions pk = n" "pk_planes pk = map (pack_plane st n) [0..<?N]"
    using assms(2) by (auto simp: kv_pack_def kv_shape_def kv_frame_def Let_def split: if_splits)
  obtain r4 st4 where rv: "reserve al (max n 1) (forget_prompt st2) = (r4, st4)" by (cases "reserve al (max n 1) (forget_prompt st2)")
  have wf2: "kv_wf (forget_prompt st2)" using wf(2) by simp
  show ?thesis
  proof (cases r4)
    case (Inl e)
    then have "r = Inl e" using rv assms(4,7) pk(1) by (auto simp: kv_unpack_def Let_def)
    moreover have "fst (reserve al (max n 1) st2) = Inl e" using rv Inl forget_prompt_sel(2) [of al "max n 1" st2] by simp
    ultimately show ?thesis by simp
  next
    case (Inr u)
    note ok = reserve_ok [OF wf2 assms(6) rv [unfolded Inr]] and sel = reserve_sel [OF rv]
    have wf4: "kv_wf st4" by (rule reserve_wf [OF wf2 assms(6) rv])
    have "kv_valid st4" using ok by (auto simp: kv_grown_def)
    then have sh4: "kv_shape st4" using wf4 by (simp add: kv_wf_def)
    have c4: "ks_cfg st4 = ?c" using sel(1) assms(5) by simp
    have own4: "ks_owners st4 = owners ?c" using sh4 c4 by (simp add: kv_shape_def kv_frame_def Let_def)
    have oi4: "owner_index st4 (owners ?c ! oi) = oi" if "oi < ?N" for oi using owner_index_owner [OF sh4] c4 assms(8) that by simp
    let ?ws = "concat (map (plane_parts st n (ks_lay st4)) [0..<?N])"
    define st5 where "st5 = fold (\<lambda>(a, bs). kv_write a bs) ?ws st4"
    define st6 where "st6 = fold (\<lambda>oi. raise_hw oi (plane_rows ?c n oi)) [0..<?N] st5"
    have "unpack_planes (pk_planes pk) st4 = (Inr (), st6)"
      unfolding pk(2) st6_def st5_def raise_all_fold
      by (rule unpack_packed_planes [OF sh assms(8-10) own4 _ c4]) (use oi4 in simp)
    then have r: "r = Inr ()" "st3 = context_counts n st6" using assms(4,7) rv Inr pk(1) by (simp_all add: kv_unpack_def Let_def)
    have s5: "ks_cfg st5 = ?c" "ks_lay st5 = ks_lay st4" "ks_owners st5 = owners ?c" "ks_owner_of st5 = ks_owner_of st4"
        "ks_rows_hw st5 = ks_rows_hw st4" "ks_cap st5 = ks_cap st4"
      by (simp_all add: st5_def fold_write_sel c4 own4)
    have s3: "ks_cfg st3 = ?c" "ks_lay st3 = ks_lay st4" "ks_owners st3 = owners ?c" "ks_cap st3 = ks_cap st4"
        "kv_read st3 = kv_read st5" "ks_rows_hw st3 = ks_rows_hw st6" "kv_valid st3"
      using \<open>kv_valid st4\<close> s5 by (simp_all add: r(2) st6_def context_counts_def fold_raise_sel kv_read_cong fold_valid st5_def)
    have rows: "plane_rows ?c n oi \<le> rows_for ?c (owners ?c ! oi) (ks_cap st4)" if "oi < ?N" for oi
    proof -
      have "plane_rows ?c n oi * plane_ratio ?c (owners ?c ! oi) \<le> n" by (rule div_times_less_eq_dividend)
      also have "n \<le> ks_cap st4" using ok(2) by simp
      finally show ?thesis using rows_covered [OF wf4 \<open>kv_valid st4\<close>, of oi] that c4 by simp
    qed
    have ratio: "plane_ratio ?c (owners ?c ! oi) \<le> kc_max_ratio ?c" if "oi < ?N" for oi using assms(11) that by simp
    note pr = parts_restored [OF sh sh4 c4 rows ratio, folded st5_def]
    have offs: "region_off st4 (4 + oi) = ly_off_cmp (ks_lay st4) ! oi" "region_off st4 (4 + ?N + oi) = ly_off_idx (ks_lay st4) ! oi"
        "region_off st (4 + oi) = ly_off_cmp (ks_lay st) ! oi" "region_off st (4 + ?N + oi) = ly_off_idx (ks_lay st) ! oi" if "oi < ?N" for oi
      using plane_offs [OF shape_layout(2) [OF sh]] plane_offs [OF shape_layout(2) [OF sh4]] that c4 by simp_all
    have "score_base st3 + oi * state_stride ?c = region_off st4 3 + (?N + oi) * state_stride ?c"
        "score_base st + oi * state_stride ?c = region_off st 3 + (?N + oi) * state_stride ?c" for oi
      using s3 sh by (simp_all add: score_base_def kv_shape_def kv_frame_def Let_def add_mult_distrib)
    note sb = this
    have hw: "plane_rows ?c n oi \<le> ks_rows_hw st3 ! oi" if "oi < ?N" for oi
    proof -
      have "length (ks_rows_hw st5) = ?N" using sh4 c4 s5 by (simp add: kv_shape_def kv_frame_def Let_def)
      then show ?thesis using raised_rows [of "plane_rows ?c n" "[0..<?N]" st5] that s3(6) by (simp add: st6_def)
    qed
    have part: "let ratio = plane_ratio ?c (owners ?c ! oi); rows = n div ratio; carry = 4 * (ratio * kc_latent_dim ?c) in
          kv_read st3 (ly_off_cmp (ks_lay st3) ! oi) (2 * (rows * kc_latent_dim ?c)) = kv_read st (ly_off_cmp (ks_lay st) ! oi) (2 * (rows * kc_latent_dim ?c))
          \<and> kv_read st3 (ly_off_idx (ks_lay st3) ! oi) (2 * (rows * kc_index_dim ?c)) = kv_read st (ly_off_idx (ks_lay st) ! oi) (2 * (rows * kc_index_dim ?c))
          \<and> (ratio > 1 \<longrightarrow>
              kv_read st3 (ly_off_state (ks_lay st3) + oi * state_stride ?c) carry = kv_read st (ly_off_state (ks_lay st) + oi * state_stride ?c) carry
              \<and> kv_read st3 (score_base st3 + oi * state_stride ?c) carry = kv_read st (score_base st + oi * state_stride ?c) carry)
          \<and> rows \<le> ks_rows_hw st3 ! oi" if oi: "oi < ?N" for oi
      unfolding s3(2,5) sb
      using pr [of oi 0] pr [of oi 1] pr [of oi 2] pr [of oi 3] oi hw [OF oi] by (simp add: part_at_def Let_def offs)
    show ?thesis using r rv Inr forget_prompt_sel(2) [of al "max n 1" st2] ok(2) s3 part
      by (auto simp: Let_def) (auto simp: context_counts_def owner_index_def Let_def st6_def fold_raise_sel s5)
  qed
qed

text \<open>
  C14. A parked context comes back exactly. A context of any length packed from one store and unpacked into
  another of the same geometry, whatever that one held, where latent rows are whole groups of 16, index rows
  of 32, and no plane has a ratio above the largest: unpacking fails only when memory for the context
  cannot be had; otherwise every compressed row and every index key that the positions complete, and the
  state that the compressors carry, read byte for byte as in the store the context was packed from, and
  every layer may read the rows its positions complete.
\<close>

theorem kv_context_round_trip:
  assumes "kv_reachable st" "kv_pack n st = Inr pk"
    and "kv_reachable st2" "kv_valid st2" "ks_cfg st2 = ks_cfg st" "allocator_ok al" "kv_unpack al pk st2 = (r, st3)"
    and "kc_layers (ks_cfg st) \<le> kNoPlane" "16 dvd kc_latent_dim (ks_cfg st)" "32 dvd kc_index_dim (ks_cfg st)"
      "\<forall>k \<in> set (owners (ks_cfg st)). plane_ratio (ks_cfg st) k \<le> kc_max_ratio (ks_cfg st)"
  shows "r = fst (reserve al (max n 1) st2) \<and>
    (r = Inr () \<longrightarrow>
      n \<le> ks_cap st3
      \<and> (\<forall>oi < length (owners (ks_cfg st)).
          let c = ks_cfg st; ratio = plane_ratio c (owners c ! oi); rows = n div ratio; carry = 4 * (ratio * kc_latent_dim c) in
          kv_read st3 (ly_off_cmp (ks_lay st3) ! oi) (2 * (rows * kc_latent_dim c)) = kv_read st (ly_off_cmp (ks_lay st) ! oi) (2 * (rows * kc_latent_dim c))
          \<and> kv_read st3 (ly_off_idx (ks_lay st3) ! oi) (2 * (rows * kc_index_dim c)) = kv_read st (ly_off_idx (ks_lay st) ! oi) (2 * (rows * kc_index_dim c))
          \<and> (ratio > 1 \<longrightarrow>
              kv_read st3 (ly_off_state (ks_lay st3) + oi * state_stride c) carry = kv_read st (ly_off_state (ks_lay st) + oi * state_stride c) carry
              \<and> kv_read st3 (score_base st3 + oi * state_stride c) carry = kv_read st (score_base st + oi * state_stride c) carry)
          \<and> rows \<le> ks_rows_hw st3 ! oi)
      \<and> (\<forall>l < kc_layers (ks_cfg st). ks_n_cmp st3 ! l =
           (if owner_index st3 l = kNoPlane then 0 else n div plane_ratio (ks_cfg st) (ks_owners st3 ! owner_index st3 l))))"
  using unpacked_context [OF assms] by blast

text \<open>The small store with one row in its only plane.\<close>

definition one_row_store :: kv_store where
  "one_row_store = run_kv_op small_alloc (KvSetCounts 0 1 0) small_store"

lemma one_row_store_ok: "kv_reachable one_row_store" "kv_valid one_row_store" "ks_cfg one_row_store = small_config"
  "\<exists>pk. kv_pack 2 one_row_store = Inr pk"
proof -
  have sh: "kv_shape small_store" using kv_reachable_wf [OF small_store_reachable] small_store_valid by (simp add: kv_wf_def)
  have own: "ks_owners small_store = [0]" "length (ks_rows_hw small_store) = 1"
    using sh small_store_valid(2) small_config_owners(3) by (simp_all add: kv_shape_def kv_frame_def Let_def)
  have oi: "owner_index small_store 0 = 0"
    using owner_index_owner [OF sh, of 0] small_store_valid(2) small_config_owners(3) by (simp add: kNoPlane_def)
  have c: "topk_rows small_config = 6" "kc_max_context small_config = 8" "plane_ratio small_config 0 = 2"
    using small_config_owners(5) by (simp_all add: small_config_def topk_rows_def u32_of_def)
  have "reserve small_alloc 2 small_store = (Inr (), small_store)" using small_store_valid by (simp add: reserve_def)
  then have e: "one_row_store = (raise_hw 0 1 small_store)\<lparr>ks_n_cmp := (ks_n_cmp small_store)[0 := 1], ks_n_kv := (ks_n_kv small_store)[0 := 0]\<rparr>"
    using oi own c small_store_valid(2) by (simp add: one_row_store_def set_counts_def Let_def kNoPlane_def)
  show "kv_reachable one_row_store"
    using kv_reachable.step [OF small_store_reachable small_alloc_ok, of "KvSetCounts 0 1 0"] by (simp add: one_row_store_def)
  show v: "kv_valid one_row_store" "ks_cfg one_row_store = small_config" by (simp_all add: e small_store_valid)
  have "ks_rows_hw one_row_store ! 0 \<ge> 1" "rows_for small_config 0 2 = 1"
    using own(2) c(3) by (simp_all add: e raise_hw_def rows_for_def u32_of_def Let_def)
  moreover have "ks_owners one_row_store = [0]" "ks_cap one_row_store = 2" by (simp_all add: e own small_store_valid)
  ultimately show "\<exists>pk. kv_pack 2 one_row_store = Inr pk" using v c(3) by (simp add: kv_pack_def Let_def)
qed

theorem kv_context_round_trip_witness:
  "\<exists>pk st3. kv_pack 2 one_row_store = Inr pk \<and> kv_unpack small_alloc pk small_store = (Inr (), st3)
     \<and> kv_read st3 (ly_off_cmp (ks_lay st3) ! 0) 32 = kv_read one_row_store (ly_off_cmp (ks_lay one_row_store) ! 0) 32
     \<and> kv_read st3 (ly_off_state (ks_lay st3)) 128 = kv_read one_row_store (ly_off_state (ks_lay one_row_store)) 128"
proof -
  note o = one_row_store_ok
  obtain pk where pk: "kv_pack 2 one_row_store = Inr pk" using o(4) by blast
  obtain r st3 where u: "kv_unpack small_alloc pk small_store = (r, st3)" by (cases "kv_unpack small_alloc pk small_store")
  have c: "ks_cfg small_store = ks_cfg one_row_store" "kc_layers (ks_cfg one_row_store) \<le> kNoPlane" "16 dvd kc_latent_dim (ks_cfg one_row_store)"
      "32 dvd kc_index_dim (ks_cfg one_row_store)"
      "\<forall>k \<in> set (owners (ks_cfg one_row_store)). plane_ratio (ks_cfg one_row_store) k \<le> kc_max_ratio (ks_cfg one_row_store)"
    using small_config_owners(3,5) by (simp_all add: o(3) small_store_valid kNoPlane_def) (simp_all add: small_config_def)
  note t = kv_context_round_trip [OF o(1) pk small_store_reachable small_store_valid(1) c(1) small_alloc_ok u c(2-5)]
  have "fst (reserve small_alloc 2 small_store) = Inr ()" using small_store_valid by (simp add: reserve_def)
  then have "r = Inr ()" using t by (simp add: numeral_2_eq_2 [symmetric])
  moreover have "kv_read st3 (ly_off_cmp (ks_lay st3) ! 0) 32 = kv_read one_row_store (ly_off_cmp (ks_lay one_row_store) ! 0) 32
     \<and> kv_read st3 (ly_off_state (ks_lay st3)) 128 = kv_read one_row_store (ly_off_state (ks_lay one_row_store)) 128"
    using t \<open>r = Inr ()\<close> small_config_owners(3,5) by (simp add: o(3) Let_def)
  ultimately show ?thesis using pk u by blast
qed

end
