(* ===== verification/Session_Replay.thy ===== *)
theory Session_Replay
  imports Session_Stream Kv_Pack
begin

text \<open>
  The window's replay: which positions it runs again, that it leaves the window complete, and that it leaves
  the context itself as it was.
\<close>

section \<open>The plan\<close>

lemma missing_positions_range: "x \<in> set (missing_positions st k) \<longleftrightarrow> need_lo st k \<le> x \<and> x < k \<and> \<not> ring_holds st x"
  by (auto simp: missing_positions_def)

lemma missing_positions_hd_last:
  assumes "x \<in> set (missing_positions st k)"
  shows "hd (missing_positions st k) \<le> x" "x \<le> last (missing_positions st k)"
    "need_lo st k \<le> hd (missing_positions st k)" "last (missing_positions st k) < k"
proof -
  let ?xs = "missing_positions st k"
  have "sorted ?xs" by (simp add: missing_positions_def sorted_wrt_filter)
  moreover have ne: "?xs \<noteq> []" using assms by (metis empty_iff list.set(1))
  moreover obtain i where "i < length ?xs" "x = ?xs ! i" using assms by (metis in_set_conv_nth)
  ultimately show "hd ?xs \<le> x" "x \<le> last ?xs" by (auto simp: hd_conv_nth last_conv_nth intro!: sorted_nth_mono)
  show "need_lo st k \<le> hd ?xs" "last ?xs < k"
    using hd_in_set [OF ne] last_in_set [OF ne] by (simp_all add: missing_positions_range)
qed

lemma plan_ring_facts:
  assumes "0 < kc_window (ks_cfg st)" "p = plan_ring st k replay_max"
  shows "rp_keep p = k \<and> rp_end p \<le> k \<and> even (rp_first p) \<and> rp_first p \<le> rp_end p
    \<and> plan_steps p \<le> kc_window (ks_cfg st) \<and> plan_steps p \<le> max 1 replay_max + 1
    \<and> (plan_steps p = 0 \<longleftrightarrow> (\<forall>x. need_lo st k \<le> x \<and> x < k \<longrightarrow> ring_holds st x))
    \<and> (kc_window (ks_cfg st) - 1 \<le> replay_max \<longrightarrow>
        (\<forall>x. need_lo st k \<le> x \<and> x < k \<longrightarrow> ring_holds st x \<or> rp_first p \<le> x \<and> x < rp_end p))
    \<and> (\<forall>x. need_lo st k \<le> x \<and> x < k \<longrightarrow> ring_holds st x \<or> x < rp_end p)
    \<and> (plan_steps p \<noteq> 0 \<longrightarrow> need_lo st k \<le> rp_first p + 1)"
proof (cases "missing_positions st k = []")
  case True
  then have "ring_holds st x" if "need_lo st k \<le> x" "x < k" for x using missing_positions_range [of x st k] that by simp
  then show ?thesis using True assms(2) by (simp add: plan_ring_def Let_def no_plan_def plan_steps_def)
next
  case False
  let ?xs = "missing_positions st k" and ?w = "kc_window (ks_cfg st)"
  define lo e r first where "lo = hd ?xs" and "e = last ?xs + 1" and "r = max 1 (min replay_max ?w)" and "first = (if e - lo > r then e - r else lo)"
  have "hd ?xs \<in> set ?xs" using False by simp
  note b = missing_positions_hd_last [OF this]
  have k: "k \<noteq> 0" "need_lo st k \<le> lo" "lo < e" "e \<le> k" using b by (auto simp: lo_def e_def)
  then have w: "e - lo \<le> ?w - 1" by (auto simp: need_lo_def Let_def split: if_splits)
  have f: "lo \<le> first" "first < e" "e - first \<le> r" "e - first \<le> ?w - 1" "?w - 1 \<le> replay_max \<Longrightarrow> first = lo"
    using k w by (auto simp: first_def r_def)
  have p: "p = \<lparr>rp_keep = k, rp_first = (if odd first then first - 1 else first), rp_end = e\<rparr>"
    using False k(1) assms(2) by (simp add: plan_ring_def Let_def lo_def e_def r_def first_def)
  have "\<not> ring_holds st lo" "lo < k" using \<open>hd ?xs \<in> set ?xs\<close> by (simp_all add: missing_positions_range lo_def)
  moreover have "lo \<le> x \<and> x < e" if "need_lo st k \<le> x" "x < k" "\<not> ring_holds st x" for x
    using missing_positions_hd_last [of x st k] missing_positions_range [of x st k] that by (simp add: lo_def e_def less_Suc_eq_le)
  moreover define g where "g = (if odd first then first - 1 else first)"
  have g: "g \<le> first" "first \<le> g + 1" "even g" by (auto simp: g_def)
  have "plan_steps p = e - g" "rp_first p = g" "rp_keep p = k" "rp_end p = e" using f g by (auto simp: p g_def plan_steps_def)
  moreover have "e - g \<le> ?w" "0 < e - g" "e - g \<le> r + 1" "g \<le> e" using f g w k assms(1) by linarith+
  moreover have "r \<le> max 1 replay_max" by (simp add: r_def)
  moreover have "need_lo st k \<le> g + 1" using f(1) g(2) k(2) by simp
  moreover have "g \<le> lo" if "?w - 1 \<le> replay_max" using f(5) [OF that] g(1) by simp
  ultimately show ?thesis using g(3) k by (intro conjI) (auto, fastforce+)
qed

text \<open>
  The plan of a replay. For a step at position \<open>k\<close> it names a range that starts on an even position,
  ends at or before \<open>k\<close>, is no longer than the window and at most one longer than the limit; it is empty
  exactly when the ring holds every position the step reads, and when the limit is the window it covers
  every position that is missing.
\<close>

theorem plan_ring_covers:
  assumes "0 < kc_window (ks_cfg st)" "p = plan_ring st k replay_max"
  shows "rp_keep p = k \<and> rp_end p \<le> k \<and> even (rp_first p) \<and> rp_first p \<le> rp_end p
    \<and> plan_steps p \<le> kc_window (ks_cfg st) \<and> plan_steps p \<le> max 1 replay_max + 1
    \<and> (plan_steps p = 0 \<longleftrightarrow> (\<forall>x. need_lo st k \<le> x \<and> x < k \<longrightarrow> ring_holds st x))
    \<and> (kc_window (ks_cfg st) - 1 \<le> replay_max \<longrightarrow>
        (\<forall>x. need_lo st k \<le> x \<and> x < k \<longrightarrow> ring_holds st x \<or> rp_first p \<le> x \<and> x < rp_end p))"
  using plan_ring_facts [OF assms] by blast

section \<open>Positions of the window\<close>

lemma slot_apart: "(x::nat) \<noteq> q \<Longrightarrow> x < q + w \<Longrightarrow> q < x + w \<Longrightarrow> x mod w \<noteq> q mod w"
proof -
  assume a: "x \<noteq> q" "x < q + w" "q < x + w"
  show "x mod w \<noteq> q mod w"
  proof
    assume "x mod w = q mod w"
    then have "w dvd x - q" "w dvd q - x" using mod_eq_dvd_iff_nat [of q x w] mod_eq_dvd_iff_nat [of x q w] by (cases "q \<le> x"; simp)+
    then show False using a by (cases "q \<le> x") (auto dest: dvd_imp_le)
  qed
qed

section \<open>Bytes of a region\<close>

definition region_byte :: "kv_store \<Rightarrow> nat \<Rightarrow> nat \<Rightarrow> u8" where
  "region_byte st i j = kv_byte st (region_off st i + j)"

lemma region_byte_write:
  assumes "kv_shape st" "i < regions st" "a + length bs \<le> region_size st i" "i' < regions st" "j < region_size st i'"
  shows "region_byte (kv_write (region_off st i + a) bs st) i' j =
    (if i' = i \<and> a \<le> j \<and> j < a + length bs then bs ! (j - a) else region_byte st i' j)"
proof -
  note ok = region_part_ok [OF assms(1-3)]
  show ?thesis
  proof (cases "i' = i")
    case True
    then show ?thesis by (simp add: region_byte_def kvm.byte_wr [OF ok])
  next
    case False
    then have "region_off st i + a + length bs \<le> region_off st i' + j \<or> region_off st i' + j + 1 \<le> region_off st i + a"
      using regions_apart [OF assms(1,2,4) _ assms(3), of j 1] assms(5) by auto
    then show ?thesis using False by (auto simp: region_byte_def kvm.byte_wr [OF ok])
  qed
qed

lemma region_byte_host [simp]: "region_byte (st\<lparr>ks_win_lo := w\<rparr>) = region_byte st"
  by (simp add: region_byte_def kv_byte_def fun_eq_iff)

lemma read_region:
  assumes "kv_shape st" "i < regions st" "a + n \<le> region_size st i"
  shows "kv_read st (region_off st i + a) n = map (\<lambda>j. region_byte st i (a + j)) [0..<n]"
  using region_part_ok [OF assms] by (auto simp: kv_read_bytes region_byte_def add.assoc intro!: nth_equalityI)

lemma encode_row:
  assumes "length xs = rows * d" "k < rows"
  shows "encode_list (le_bytes 2) (row_at xs d k) = take (2 * d) (drop (2 * (k * d)) (encode_list (le_bytes 2) (xs :: u16 list)))"
proof -
  have split: "encode_list (le_bytes 2) (ys @ zs :: u16 list) = encode_list (le_bytes 2) ys @ encode_list (le_bytes 2) zs" for ys zs
    by (simp add: encode_list_def)
  have "Suc k * d \<le> rows * d" using assms(2) by (intro mult_le_mono1) simp
  then have l: "length (take (k * d) xs) = k * d" "length (row_at xs d k) = d" using assms(1) by (simp_all add: row_at_def)
  have "xs = take (k * d) xs @ row_at xs d k @ drop (k * d + d) xs"
    by (metis append_take_drop_id row_at_def drop_drop add.commute)
  then have "encode_list (le_bytes 2) xs
      = encode_list (le_bytes 2) (take (k * d) xs) @ encode_list (le_bytes 2) (row_at xs d k) @ encode_list (le_bytes 2) (drop (k * d + d) xs)"
    using split by metis
  then show ?thesis using l by (simp add: le2.length_encode_list)
qed

text \<open>A row of a copy, written out, is the row it was copied from.\<close>

lemma backup_row_bytes:
  assumes "kv_shape st" "i < regions st" "(f + rows) * d * 2 \<le> region_size st i" "k < rows"
  shows "encode_list (le_bytes 2) (row_at (read_u16s st (region_off st i + f * d * 2) (rows * d)) d k)
    = map (\<lambda>x. region_byte st i ((f + k) * d * 2 + x)) [0..<2 * d]"
proof -
  have "Suc k * d \<le> rows * d" using assms(4) by (intro mult_le_mono1) simp
  moreover have "f * d * 2 + 2 * (rows * d) \<le> region_size st i" using assms(3) by (simp add: algebra_simps)
  ultimately show ?thesis
    using encode_row [of "read_u16s st (region_off st i + f * d * 2) (rows * d)" rows d k] assms(4)
      read_region [OF assms(1,2), of "f * d * 2" "2 * (rows * d)"]
    by (auto simp: encode_read algebra_simps intro!: nth_equalityI)
qed

section \<open>The rows that a position completes\<close>

text \<open>
  The regions from 4 on hold the rows of the planes: first the compressed ones, then the keys. A position
  completes a row of a plane when it is the last of its group.
\<close>

definition region_plane :: "kv_config \<Rightarrow> nat \<Rightarrow> nat" where
  "region_plane c i = (if i < 4 + length (owners c) then i - 4 else i - 4 - length (owners c))"

definition region_width :: "kv_config \<Rightarrow> nat \<Rightarrow> nat" where
  "region_width c i = 2 * (if i < 4 + length (owners c) then kc_latent_dim c else kc_index_dim c)"

definition completes :: "kv_config \<Rightarrow> nat \<Rightarrow> nat \<Rightarrow> nat \<Rightarrow> bool" where
  "completes c q i j \<longleftrightarrow>
     (let ratio = plane_ratio c (owners c ! region_plane c i); w = region_width c i in
      (q + 1) mod ratio = 0 \<and> q div ratio * w \<le> j \<and> j < q div ratio * w + w)"

definition written :: "kv_store \<Rightarrow> kv_store \<Rightarrow> bool" where
  "written st st' \<longleftrightarrow> (\<exists>ws. st' = fold (\<lambda>(a, bs). kv_write a bs) ws st)"

lemma written_refl [simp]: "written st st" unfolding written_def by (rule exI [of _ "[]"]) simp

lemma written_write [simp]: "written st st' \<Longrightarrow> written st (kv_write a bs st')"
  unfolding written_def by (elim exE, rule_tac x = "ws @ [(a, bs)]" in exI) simp

lemma written_trans: "written st st' \<Longrightarrow> written st' st'' \<Longrightarrow> written st st''"
  unfolding written_def by (elim exE, rule_tac x = "ws @ wsa" in exI) simp

lemma written_sel:
  assumes "written st st'"
  shows "ks_cfg st' = ks_cfg st" "ks_lay st' = ks_lay st" "ks_cap st' = ks_cap st" "ks_rows_hw st' = ks_rows_hw st" "ks_owners st' = ks_owners st"
    "ks_slot_pos st' = ks_slot_pos st" "ks_win_lo st' = ks_win_lo st" "kv_shape st' = kv_shape st" "kv_valid st' = kv_valid st" "kv_wf st' = kv_wf st"
proof -
  obtain ws where ws: "st' = fold (\<lambda>(a, bs). kv_write a bs) ws st" using assms by (auto simp: written_def)
  show "ks_cfg st' = ks_cfg st" "ks_lay st' = ks_lay st" "ks_cap st' = ks_cap st" "ks_rows_hw st' = ks_rows_hw st" "ks_owners st' = ks_owners st"
    "ks_slot_pos st' = ks_slot_pos st" "ks_win_lo st' = ks_win_lo st" "kv_shape st' = kv_shape st" "kv_valid st' = kv_valid st" "kv_wf st' = kv_wf st"
    unfolding ws by (induction ws arbitrary: st) (simp_all add: split_beta)
qed

lemma region_size_plane:
  assumes "4 \<le> i" "i < regions st"
  shows "region_plane (ks_cfg st) i < length (owners (ks_cfg st))"
    "region_size st i = rows_for (ks_cfg st) (owners (ks_cfg st) ! region_plane (ks_cfg st) i) (ks_cap st) * region_width (ks_cfg st) i"
    "live_len st i = ks_rows_hw st ! region_plane (ks_cfg st) i * region_width (ks_cfg st) i"
proof -
  let ?N = "length (owners (ks_cfg st))"
  show p: "region_plane (ks_cfg st) i < ?N" using assms by (auto simp: region_plane_def)
  show "region_size st i = rows_for (ks_cfg st) (owners (ks_cfg st) ! region_plane (ks_cfg st) i) (ks_cap st) * region_width (ks_cfg st) i"
    using assms plane_sizes(1) [of "i - 4" "owners (ks_cfg st)"] plane_sizes(2) [of "i - 4 - ?N" "owners (ks_cfg st)"] p
    by (auto simp: region_plane_def region_width_def mult.assoc mult.commute)
  show "live_len st i = ks_rows_hw st ! region_plane (ks_cfg st) i * region_width (ks_cfg st) i"
    using assms by (auto simp: live_len_def region_plane_def region_width_def Let_def)
qed

lemma group_end: "0 < ratio \<Longrightarrow> (q + 1) mod ratio = 0 \<Longrightarrow> (q + 1) div ratio = q div ratio + (1::nat)"
  by (simp add: div_Suc)

lemma restore_row_bytes:
  assumes "kv_shape st0" "kv_shape st" "ks_cfg st = ks_cfg st0" "kc_layers (ks_cfg st0) \<le> kNoPlane" "oi < length (owners (ks_cfg st0))"
    and q: "first \<le> q" "q < stop" "stop < 2 ^ 32"
    and rows: "plane_rows (ks_cfg st0) stop oi \<le> rows_for (ks_cfg st0) (owners (ks_cfg st0) ! oi) (ks_cap st0)"
      "plane_rows (ks_cfg st0) stop oi \<le> rows_for (ks_cfg st0) (owners (ks_cfg st0) ! oi) (ks_cap st)"
  shows "\<exists>st'. restore_row q (backup_plane_of st0 first stop oi) st = (Inr (), st') \<and> written st st'
    \<and> (\<forall>i j. 4 \<le> i \<longrightarrow> i < regions st \<longrightarrow> j < region_size st i \<longrightarrow> region_byte st' i j =
         (if region_plane (ks_cfg st0) i = oi \<and> completes (ks_cfg st0) q i j then region_byte st0 i j else region_byte st i j))"
proof -
  let ?c = "ks_cfg st0" and ?N = "length (owners (ks_cfg st0))"
  define ratio where "ratio = plane_ratio ?c (owners ?c ! oi)"
  define r where "r = q div ratio"
  have pos: "0 < ratio" by (simp add: ratio_def)
  have q1: "u32_of (q + 1) = q + 1" using q by (simp add: u32_of_def)
  have own: "ks_owners st0 = owners ?c" using assms(1) by (simp add: kv_shape_def kv_frame_def Let_def)
  let ?p = "backup_plane_of st0 first stop oi"
  have p: "bp_layer ?p = owners ?c ! oi" "bp_ratio ?p = ratio" "bp_first_row ?p = first div ratio"
    by (simp_all add: backup_plane_of_def Let_def own ratio_def)
  show ?thesis
  proof (cases "(q + 1) mod ratio = 0")
    case False
    then have "restore_row q ?p st = (Inr (), st)" unfolding restore_row_def p q1 by simp
    moreover have "\<not> (region_plane ?c i = oi \<and> completes ?c q i j)" for i j using False by (auto simp: completes_def ratio_def Let_def)
    ultimately show ?thesis by auto
  next
    case True
    note ge = group_end [OF pos True, folded r_def]
    have fr: "first div ratio \<le> r" using q(1) by (simp add: r_def div_le_mono)
    have er: "r < stop div ratio" using div_le_mono [of "q + 1" stop ratio] q(2) ge by simp
    have "stop div ratio < 2 ^ 32" using q(3) by (meson div_le_dividend le_less_trans)
    then have u: "u32_of ((q + 1) div ratio + 2 ^ 32 - 1) = r" "u32_of (stop div ratio) = stop div ratio" "r < 2 ^ 32"
      using er ge by (simp_all add: u32_of_def)
    have rows_p: "bp_rows ?p = stop div ratio - first div ratio" "bp_first_row ?p + bp_rows ?p = stop div ratio"
      using fr er by (simp_all add: backup_plane_of_def Let_def own ratio_def [symmetric])
    have oi: "owner_index st (owners ?c ! oi) = oi" using owner_index_owner [OF assms(2)] assms(3-5) by simp
    have "?N \<le> kc_layers ?c" unfolding owners_def by (metis diff_zero length_filter_le length_upt)
    then have np: "oi \<noteq> kNoPlane" using assms(4,5) by simp
    have offs: "ly_off_cmp (ks_lay st) ! oi = region_off st (4 + oi)" "ly_off_idx (ks_lay st) ! oi = region_off st (4 + ?N + oi)"
        "ly_off_cmp (ks_lay st0) ! oi = region_off st0 (4 + oi)" "ly_off_idx (ks_lay st0) ! oi = region_off st0 (4 + ?N + oi)"
      using plane_offs [OF shape_layout(2) [OF assms(2)]] plane_offs [OF shape_layout(2) [OF assms(1)]] assms(3,5) by simp_all
    have sz: "region_size st (4 + oi) = rows_for ?c (owners ?c ! oi) (ks_cap st) * kc_latent_dim ?c * 2"
        "region_size st (4 + ?N + oi) = rows_for ?c (owners ?c ! oi) (ks_cap st) * kc_index_dim ?c * 2"
        "region_size st0 (4 + oi) = rows_for ?c (owners ?c ! oi) (ks_cap st0) * kc_latent_dim ?c * 2"
        "region_size st0 (4 + ?N + oi) = rows_for ?c (owners ?c ! oi) (ks_cap st0) * kc_index_dim ?c * 2"
      using plane_sizes [OF assms(5)] assms(3) by simp_all
    have fit: "r * d * 2 + 2 * d \<le> rows_for ?c (owners ?c ! oi) (ks_cap st) * d * 2" for d
    proof -
      have "Suc r * d \<le> rows_for ?c (owners ?c ! oi) (ks_cap st) * d" using er rows(2) by (intro mult_le_mono1) (simp add: ratio_def)
      then show ?thesis by (simp add: algebra_simps)
    qed
    have fit0: "(first div ratio + (stop div ratio - first div ratio)) * d * 2 \<le> rows_for ?c (owners ?c ! oi) (ks_cap st0) * d * 2" for d
      using fr er rows(1) by (simp add: ratio_def mult_le_mono1)
    define bs0 bs1 where "bs0 = map (\<lambda>x. region_byte st0 (4 + oi) (r * kc_latent_dim ?c * 2 + x)) [0..<2 * kc_latent_dim ?c]"
      and "bs1 = map (\<lambda>x. region_byte st0 (4 + ?N + oi) (r * kc_index_dim ?c * 2 + x)) [0..<2 * kc_index_dim ?c]"
    have k: "r - first div ratio < stop div ratio - first div ratio" "first div ratio + (r - first div ratio) = r" using fr er by simp_all
    have b0: "encode_list (le_bytes 2) (row_at (bp_cmp ?p) (kc_latent_dim ?c) (r - first div ratio)) = bs0"
      using backup_row_bytes [OF assms(1) _ fit0 [of "kc_latent_dim ?c", folded sz(3)] k(1)] assms(5) rows_p(1)
      unfolding k(2) by (simp add: backup_plane_of_def Let_def own ratio_def [symmetric] offs bs0_def)
    have b1: "encode_list (le_bytes 2) (row_at (bp_key ?p) (kc_index_dim ?c) (r - first div ratio)) = bs1"
      using backup_row_bytes [OF assms(1) _ fit0 [of "kc_index_dim ?c", folded sz(4)] k(1)] assms(5) rows_p(1)
      unfolding k(2) by (simp add: backup_plane_of_def Let_def own ratio_def [symmetric] offs bs1_def)
    define st1 where "st1 = kv_write (region_off st (4 + oi) + r * kc_latent_dim ?c * 2) bs0 st"
    define st2 where "st2 = kv_write (region_off st1 (4 + ?N + oi) + r * kc_index_dim ?c * 2) bs1 st1"
    have l: "ks_lay st1 = ks_lay st" "ks_cfg st1 = ks_cfg st" "ks_cap st1 = ks_cap st" "kv_shape st1" using assms(2) by (simp_all add: st1_def)
    have "restore_row q ?p st = (Inr (), st2)"
      unfolding restore_row_def p q1 Let_def u oi st2_def st1_def
      using True fr er np b0 b1 rows_p(2) [unfolded p(3)] u(2) by (simp add: assms(3) offs)
    moreover have "written st st2" by (simp add: st1_def st2_def)
    moreover have "region_byte st2 i j = (if region_plane ?c i = oi \<and> completes ?c q i j then region_byte st0 i j else region_byte st i j)"
      if ij: "4 \<le> i" "i < regions st" "j < region_size st i" for i j
    proof -
      have "region_byte st2 i j = (if i = 4 + ?N + oi \<and> r * kc_index_dim ?c * 2 \<le> j \<and> j < r * kc_index_dim ?c * 2 + length bs1
          then bs1 ! (j - r * kc_index_dim ?c * 2) else region_byte st1 i j)"
        unfolding st2_def by (rule region_byte_write) (use l assms(3,5) ij fit [of "kc_index_dim ?c"] sz(2) in \<open>simp_all add: bs1_def\<close>)
      moreover have "region_byte st1 i j = (if i = 4 + oi \<and> r * kc_latent_dim ?c * 2 \<le> j \<and> j < r * kc_latent_dim ?c * 2 + length bs0
          then bs0 ! (j - r * kc_latent_dim ?c * 2) else region_byte st i j)"
        unfolding st1_def by (rule region_byte_write) (use assms(2,3,5) ij fit [of "kc_latent_dim ?c"] sz(1) in \<open>simp_all add: bs0_def\<close>)
      moreover have pl: "region_plane ?c i = oi \<longleftrightarrow> i = 4 + oi \<or> i = 4 + ?N + oi" using ij(1,2) assms(3,5) by (auto simp: region_plane_def)
      moreover have "completes ?c q i j \<longleftrightarrow> r * region_width ?c i \<le> j \<and> j < r * region_width ?c i + region_width ?c i" if "region_plane ?c i = oi"
        using True that by (simp add: completes_def ratio_def [symmetric] r_def [symmetric] Let_def)
      moreover have "region_width ?c (4 + oi) = 2 * kc_latent_dim ?c" "region_width ?c (4 + ?N + oi) = 2 * kc_index_dim ?c" using assms(5) by (simp_all add: region_width_def)
      moreover have "4 + oi \<noteq> 4 + ?N + oi" using assms(5) by auto
      ultimately show ?thesis by (auto simp: bs0_def bs1_def mult.assoc mult.commute)
    qed
    ultimately show ?thesis by blast
  qed
qed

text \<open>After the rows of all the planes were put back, the rows that the position completes are those of the copy.\<close>

lemma restore_planes_bytes:
  assumes "kv_shape st0" "kv_shape st" "ks_cfg st = ks_cfg st0" "kc_layers (ks_cfg st0) \<le> kNoPlane"
    and "first \<le> q" "q < stop" "stop < 2 ^ 32"
    and "\<And>oi. oi < length (owners (ks_cfg st0)) \<Longrightarrow> plane_rows (ks_cfg st0) stop oi \<le> rows_for (ks_cfg st0) (owners (ks_cfg st0) ! oi) (ks_cap st0)"
    and "\<And>oi. oi < length (owners (ks_cfg st0)) \<Longrightarrow> plane_rows (ks_cfg st0) stop oi \<le> rows_for (ks_cfg st0) (owners (ks_cfg st0) ! oi) (ks_cap st)"
    and "set ois \<subseteq> {..<length (owners (ks_cfg st0))}"
  shows "\<exists>st'. over_planes (restore_row q) (map (backup_plane_of st0 first stop) ois) st = (Inr (), st') \<and> written st st'
    \<and> (\<forall>i j. 4 \<le> i \<longrightarrow> i < regions st \<longrightarrow> j < region_size st i \<longrightarrow> region_byte st' i j =
         (if region_plane (ks_cfg st0) i \<in> set ois \<and> completes (ks_cfg st0) q i j then region_byte st0 i j else region_byte st i j))"
  using assms(2,3,9,10)
proof (induction ois arbitrary: st)
  case (Cons oi ois)
  have oi: "oi < length (owners (ks_cfg st0))" using Cons.prems(4) by simp
  obtain st1 where st1: "restore_row q (backup_plane_of st0 first stop oi) st = (Inr (), st1)" "written st st1"
    and b1: "\<forall>i j. 4 \<le> i \<longrightarrow> i < regions st \<longrightarrow> j < region_size st i \<longrightarrow> region_byte st1 i j =
         (if region_plane (ks_cfg st0) i = oi \<and> completes (ks_cfg st0) q i j then region_byte st0 i j else region_byte st i j)"
    using restore_row_bytes [OF assms(1) Cons.prems(1,2) assms(4) oi assms(5-7) assms(8) [OF oi] Cons.prems(3) [OF oi]] by blast
  note w = written_sel [OF st1(2)]
  obtain st2 where st2: "over_planes (restore_row q) (map (backup_plane_of st0 first stop) ois) st1 = (Inr (), st2)" "written st1 st2"
    and b2: "\<And>i j. 4 \<le> i \<Longrightarrow> i < regions st1 \<Longrightarrow> j < region_size st1 i \<Longrightarrow> region_byte st2 i j =
         (if region_plane (ks_cfg st0) i \<in> set ois \<and> completes (ks_cfg st0) q i j then region_byte st0 i j else region_byte st1 i j)"
    using Cons.IH [of st1] Cons.prems w by auto
  show ?case using st1 st2 written_trans [OF st1(2) st2(2)] b1 b2 w by (intro exI [of _ st2]) auto
qed auto

lemma restore_carry_bytes:
  assumes "kv_shape st0" "kv_shape st" "ks_cfg st = ks_cfg st0" "kc_layers (ks_cfg st0) \<le> kNoPlane" "set ois \<subseteq> {..<length (owners (ks_cfg st0))}"
  shows "\<exists>st'. over_planes restore_plane_carry (map (backup_plane_of st0 first stop) ois) st = (Inr (), st') \<and> written st st'
    \<and> (\<forall>i j. 3 < i \<longrightarrow> i < regions st \<longrightarrow> j < region_size st i \<longrightarrow> region_byte st' i j = region_byte st i j)
    \<and> (\<forall>k j. k < 2 * length (owners (ks_cfg st0)) \<longrightarrow> j < state_stride (ks_cfg st0) \<longrightarrow>
         region_byte st' 3 (k * state_stride (ks_cfg st0) + j) =
          (if k mod length (owners (ks_cfg st0)) \<in> set ois then region_byte st0 3 (k * state_stride (ks_cfg st0) + j)
           else region_byte st 3 (k * state_stride (ks_cfg st0) + j)))"
  using assms(2,3,5)
proof (induction ois arbitrary: st)
  case (Cons oi ois)
  let ?c = "ks_cfg st0" and ?N = "length (owners (ks_cfg st0))" and ?s = "state_stride (ks_cfg st0)"
  have oi: "oi < ?N" using Cons.prems(3) by simp
  have index: "owner_index st (owners ?c ! oi) = oi" using owner_index_owner [OF Cons.prems(1)] Cons.prems(2) assms(4) oi by simp
  have "?N \<le> kc_layers ?c" unfolding owners_def by (metis diff_zero length_filter_le length_upt)
  then have np: "oi \<noteq> kNoPlane" using assms(4) oi by simp
  have own: "ks_owners st0 = owners ?c" "ks_owners st = owners ?c"
    using assms(1) Cons.prems(1,2) by (simp_all add: kv_shape_def kv_frame_def Let_def)
  have sz: "region_size st 3 = 2 * ?N * ?s" "region_size st0 3 = 2 * ?N * ?s" using Cons.prems(2) by (simp_all add: state_stride_def)
  have fit: "k * ?s + ?s \<le> 2 * ?N * ?s" if "k < 2 * ?N" for k
    using mult_le_mono1 [of "Suc k" "2 * ?N" ?s] that by simp
  define blk where "blk k = map (\<lambda>x. region_byte st0 3 (k * ?s + x)) [0..<?s]" for k
  have base: "ly_off_state (ks_lay st) = region_off st 3" "score_base st + oi * ?s = region_off st 3 + (?N + oi) * ?s"
      "ly_off_state (ks_lay st0) = region_off st0 3" "score_base st0 + oi * ?s = region_off st0 3 + (?N + oi) * ?s"
    using own Cons.prems(2) by (simp_all add: score_base_def add_mult_distrib)
  have n: "4 * (kc_max_ratio ?c * kc_latent_dim ?c) = ?s" by (simp add: state_stride_def)
  have b: "encode_list (le_bytes 4) (bp_carry_kv (backup_plane_of st0 first stop oi)) = blk oi"
      "encode_list (le_bytes 4) (bp_carry_score (backup_plane_of st0 first stop oi)) = blk (?N + oi)"
    using read_region [OF assms(1), of 3 "oi * ?s" ?s] read_region [OF assms(1), of 3 "(?N + oi) * ?s" ?s] fit [of oi] fit [of "?N + oi"] oi
    unfolding sz(2) by (simp_all add: backup_plane_of_def Let_def encode_read n base blk_def del: region_off_simps)
  define st1 where "st1 = kv_write (region_off st 3 + oi * ?s) (blk oi) st"
  define st2 where "st2 = kv_write (region_off st1 3 + (?N + oi) * ?s) (blk (?N + oi)) st1"
  have l: "ks_lay st1 = ks_lay st" "ks_cfg st1 = ks_cfg st" "ks_cap st1 = ks_cap st" "kv_shape st1" using Cons.prems(1) by (simp_all add: st1_def)
  have fs: "oi * ?s + length (blk oi) \<le> region_size st 3" unfolding sz(1) using fit [of oi] oi by (simp add: blk_def)
  have fs1: "(?N + oi) * ?s + length (blk (?N + oi)) \<le> region_size st1 3" unfolding l sz(1) using fit [of "?N + oi"] oi by (simp add: blk_def)
  have r: "restore_plane_carry (backup_plane_of st0 first stop oi) st = (Inr (), st2)"
    using b np index own Cons.prems(2) base
    by (simp add: restore_plane_carry_def Let_def st2_def st1_def) (simp add: backup_plane_of_def Let_def)
  have wr: "written st st2" by (simp add: st1_def st2_def)
  note w = written_sel [OF wr]
  have byte: "region_byte st2 i j = (if i = 3 \<and> (?N + oi) * ?s \<le> j \<and> j < (?N + oi) * ?s + ?s then blk (?N + oi) ! (j - (?N + oi) * ?s)
      else if i = 3 \<and> oi * ?s \<le> j \<and> j < oi * ?s + ?s then blk oi ! (j - oi * ?s) else region_byte st i j)"
    if "i < regions st" "j < region_size st i" for i j
  proof -
    have x2: "region_byte st2 i j = (if i = 3 \<and> (?N + oi) * ?s \<le> j \<and> j < (?N + oi) * ?s + length (blk (?N + oi)) then blk (?N + oi) ! (j - (?N + oi) * ?s) else region_byte st1 i j)"
      unfolding st2_def by (rule region_byte_write [OF l(4) _ fs1]) (use l that in simp_all)
    have x1: "region_byte st1 i j = (if i = 3 \<and> oi * ?s \<le> j \<and> j < oi * ?s + length (blk oi) then blk oi ! (j - oi * ?s) else region_byte st i j)"
      unfolding st1_def by (rule region_byte_write [OF Cons.prems(1) _ fs]) (use that in simp_all)
    have len: "length (blk k) = ?s" for k by (simp add: blk_def)
    show ?thesis unfolding x2 [unfolded len] x1 [unfolded len] by (rule refl)
  qed
  have carry: "region_byte st2 3 (k * ?s + j) = (if k mod ?N = oi then region_byte st0 3 (k * ?s + j) else region_byte st 3 (k * ?s + j))"
    if "k < 2 * ?N" "j < ?s" for k j
  proof -
    have same: "m * ?s \<le> k * ?s + j \<and> k * ?s + j < m * ?s + ?s \<longleftrightarrow> m = k" for m
    proof -
      have "m < k \<Longrightarrow> m * ?s + ?s \<le> k * ?s" "k < m \<Longrightarrow> k * ?s + ?s \<le> m * ?s"
        using mult_le_mono1 [of "Suc m" k ?s] mult_le_mono1 [of "Suc k" m ?s] by simp_all
      then show ?thesis using that(2) by (cases m k rule: linorder_cases) auto
    qed
    have "k mod ?N = oi \<longleftrightarrow> k = oi \<or> k = ?N + oi"
      using that(1) oi by (cases "k < ?N") (auto simp: not_less le_mod_geq)
    moreover have inside: "k * ?s + j < region_size st 3" unfolding sz(1) using fit [OF that(1)] that(2) by linarith
    have "region_byte st2 3 (k * ?s + j) = (if ?N + oi = k then blk (?N + oi) ! (k * ?s + j - (?N + oi) * ?s)
        else if oi = k then blk oi ! (k * ?s + j - oi * ?s) else region_byte st 3 (k * ?s + j))"
      using byte [OF _ inside] unfolding same by simp
    moreover have "blk k ! (k * ?s + j - k * ?s) = region_byte st0 3 (k * ?s + j)" using that(2) by (simp add: blk_def)
    ultimately show ?thesis by (cases "?N + oi = k"; cases "oi = k") simp_all
  qed
  obtain st3 where st3: "over_planes restore_plane_carry (map (backup_plane_of st0 first stop) ois) st2 = (Inr (), st3)" "written st2 st3"
    and b3: "\<And>i j. 3 < i \<Longrightarrow> i < regions st2 \<Longrightarrow> j < region_size st2 i \<Longrightarrow> region_byte st3 i j = region_byte st2 i j"
    and c3: "\<And>k j. k < 2 * ?N \<Longrightarrow> j < ?s \<Longrightarrow> region_byte st3 3 (k * ?s + j) =
          (if k mod ?N \<in> set ois then region_byte st0 3 (k * ?s + j) else region_byte st2 3 (k * ?s + j))"
    using Cons.IH [of st2] Cons.prems w by auto
  show ?case using r st3 written_trans [OF wr st3(2)] b3 c3 byte carry w by (intro exI [of _ st3]) auto
qed auto

section \<open>What a decode step may change\<close>

text \<open>
  A step at a position writes the slot of the ring, the rows the position completes and the state that the
  compressors carry. Everything else that a context consists of stays: every other byte of the rows in use.
\<close>

definition step_frame :: "nat \<Rightarrow> kv_store \<Rightarrow> kv_store \<Rightarrow> bool" where
  "step_frame q st st' \<longleftrightarrow>
     kv_wf st' \<and> kv_valid st' \<and> ks_cfg st' = ks_cfg st \<and> ks_win_lo st' = ks_win_lo st
     \<and> ks_slot_pos st' = (ks_slot_pos st)[q mod kc_window (ks_cfg st) := int q]
     \<and> (\<forall>oi < length (owners (ks_cfg st)). ks_rows_hw st ! oi \<le> ks_rows_hw st' ! oi)
     \<and> (\<forall>i j. 4 \<le> i \<longrightarrow> i < regions st \<longrightarrow> j < live_len st i \<longrightarrow> \<not> completes (ks_cfg st) q i j \<longrightarrow> region_byte st' i j = region_byte st i j)"

text \<open>The token of a step in the history, as \<^verbatim>\<open>step_prologue\<close> records it.\<close>

definition step_history :: "u32 \<Rightarrow> nat \<Rightarrow> u32 list \<Rightarrow> u32 list" where
  "step_history t q h = (if length h \<le> q then h @ replicate (q + 1 - length h) 0 else h)[q := t]"

definition decode_step_ok :: "engine_ops \<Rightarrow> bool" where
  "decode_step_ok ops \<longleftrightarrow>
     (\<forall>t q e r e'. eo_step ops t q e = (Inr r, e') \<longrightarrow>
        en_history e' = step_history t q (en_history e)
        \<and> en_gpu_ready e' = en_gpu_ready e \<and> en_produce_ced e' = en_produce_ced e
        \<and> (kv_wf (en_kvs e) \<longrightarrow> kv_valid (en_kvs e) \<longrightarrow> step_frame q (en_kvs e) (en_kvs e')))"

definition same_rows :: "kv_store \<Rightarrow> kv_store \<Rightarrow> bool" where
  "same_rows st0 st \<longleftrightarrow>
     kv_wf st \<and> kv_valid st \<and> ks_cfg st = ks_cfg st0
     \<and> (\<forall>oi < length (owners (ks_cfg st0)). ks_rows_hw st0 ! oi \<le> ks_rows_hw st ! oi)
     \<and> (\<forall>i j. 4 \<le> i \<longrightarrow> i < regions st0 \<longrightarrow> j < live_len st0 i \<longrightarrow> region_byte st i j = region_byte st0 i j)"

lemma same_rows_live:
  assumes "same_rows st0 st" "4 \<le> i" "i < regions st0"
  shows "live_len st0 i \<le> live_len st i" "live_len st i \<le> region_size st i"
proof -
  have s: "ks_cfg st = ks_cfg st0" "kv_wf st" "kv_valid st" using assms(1) by (simp_all add: same_rows_def)
  have i: "i < regions st" using assms(3) s(1) by simp
  note p = region_size_plane [OF assms(2) i] and p0 = region_size_plane [OF assms(2,3)]
  show "live_len st0 i \<le> live_len st i" unfolding p(3) p0(3) using assms(1) p0(1) s(1) by (auto simp: same_rows_def intro!: mult_le_mono1)
  show "live_len st i \<le> region_size st i" unfolding p(2,3) using wf_rows(2) [OF s(2,3) p(1)] by (rule mult_le_mono1)
qed

lemma replayed_step:
  assumes "kv_wf st0" "kv_valid st0" "kc_layers (ks_cfg st0) \<le> kNoPlane" "backup_rows first stop st0 = Inr b"
    and "same_rows st0 st" "step_frame q st st1" "first \<le> q" "q < stop" "stop < 2 ^ 32"
  shows "\<exists>st2. restore_rows b q st1 = (Inr (), st2) \<and> same_rows st0 st2
    \<and> ks_slot_pos st2 = (ks_slot_pos st)[q mod kc_window (ks_cfg st0) := int q] \<and> ks_win_lo st2 = ks_win_lo st"
proof -
  let ?c = "ks_cfg st0" and ?N = "length (owners (ks_cfg st0))"
  have st: "ks_cfg st = ?c" "kv_wf st" "kv_valid st" using assms(5) by (simp_all add: same_rows_def)
  have f: "kv_wf st1" "kv_valid st1" "ks_cfg st1 = ?c" "ks_win_lo st1 = ks_win_lo st" "ks_slot_pos st1 = (ks_slot_pos st)[q mod kc_window ?c := int q]"
    and hw: "\<And>oi. oi < ?N \<Longrightarrow> ks_rows_hw st ! oi \<le> ks_rows_hw st1 ! oi"
    and by1: "\<And>i j. 4 \<le> i \<Longrightarrow> i < regions st0 \<Longrightarrow> j < live_len st i \<Longrightarrow> \<not> completes ?c q i j \<Longrightarrow> region_byte st1 i j = region_byte st i j"
    using assms(6) unfolding step_frame_def st(1) by auto
  have sh: "kv_shape st0" "kv_shape st1" using assms(1,2) f by (simp_all add: kv_wf_def)
  have own: "ks_owners st0 = owners ?c" using sh(1) by (simp add: kv_shape_def kv_frame_def Let_def)
  have b: "rb_planes b = map (backup_plane_of st0 first stop) [0..<?N]"
    and bk: "\<not> (\<exists>oi < ?N. bp_first_row (backup_plane_of st0 first stop oi) + bp_rows (backup_plane_of st0 first stop oi) > ks_rows_hw st0 ! oi)"
    using assms(4) own by (auto simp: backup_rows_def Let_def split: if_splits)
  have rows: "plane_rows ?c stop oi \<le> ks_rows_hw st0 ! oi" if "oi < ?N" for oi
  proof -
    have "bp_first_row (backup_plane_of st0 first stop oi) + bp_rows (backup_plane_of st0 first stop oi) \<le> ks_rows_hw st0 ! oi"
      using bk that by (meson not_less)
    then show ?thesis using own by (auto simp: backup_plane_of_def Let_def split: if_splits)
  qed
  have hw0: "ks_rows_hw st0 ! oi \<le> ks_rows_hw st1 ! oi" if "oi < ?N" for oi using assms(5) hw [OF that] that by (force simp: same_rows_def)
  have r0: "plane_rows ?c stop oi \<le> rows_for ?c (owners ?c ! oi) (ks_cap st0)" if "oi < ?N" for oi
    using rows [OF that] wf_rows(2) [OF assms(1,2) that] by simp
  have r1: "plane_rows ?c stop oi \<le> rows_for ?c (owners ?c ! oi) (ks_cap st1)" if "oi < ?N" for oi
    using rows [OF that] hw0 [OF that] wf_rows(2) [OF f(1,2)] that f(3) by fastforce
  have sub: "set [0..<?N] \<subseteq> {..<?N}" by auto
  obtain st2 where st2: "over_planes (restore_row q) (rb_planes b) st1 = (Inr (), st2)" "written st1 st2"
    and by2: "\<forall>i j. 4 \<le> i \<longrightarrow> i < regions st1 \<longrightarrow> j < region_size st1 i \<longrightarrow> region_byte st2 i j =
         (if region_plane ?c i \<in> set [0..<?N] \<and> completes ?c q i j then region_byte st0 i j else region_byte st1 i j)"
    using restore_planes_bytes [OF sh f(3) assms(3,7-9) r0 r1 sub] unfolding b by blast
  note w = written_sel [OF st2(2)]
  have rr: "restore_rows b q st1 = (Inr (), st2)" using st2(1) f(2) by (simp add: restore_rows_def)
  have byte: "region_byte st2 i j = region_byte st0 i j" if ij: "4 \<le> i" "i < regions st0" "j < live_len st0 i" for i j
  proof -
    have i1: "i < regions st1" using ij(2) f(3) by simp
    note p0 = region_size_plane [OF ij(1,2)] and p1 = region_size_plane [OF ij(1) i1, unfolded f(3)]
    have "ks_rows_hw st0 ! region_plane ?c i \<le> rows_for ?c (owners ?c ! region_plane ?c i) (ks_cap st1)"
      using hw0 [OF p0(1)] wf_rows(2) [OF f(1,2)] p0(1) f(3) by fastforce
    then have "live_len st0 i \<le> region_size st1 i" unfolding f(3) p0(3) p1(2) by (rule mult_le_mono1)
    then have "region_byte st2 i j = (if completes ?c q i j then region_byte st0 i j else region_byte st1 i j)"
      using by2 ij i1 p0(1) by simp
    moreover have "region_byte st1 i j = region_byte st0 i j" if "\<not> completes ?c q i j"
      using by1 [OF ij(1,2) _ that] ij same_rows_live(1) [OF assms(5) ij(1,2)] assms(5) by (simp add: same_rows_def)
    ultimately show ?thesis by simp
  qed
  have "same_rows st0 st2" unfolding same_rows_def using w f hw0 byte by simp
  then show ?thesis using rr w f by auto
qed

end
