(* ===== verification/Session_Context.thy ===== *)
theory Session_Context
  imports Session_Replay
begin

text \<open>
  Contexts through a replay: rolling back and parking keep every row, key and carried state, and leave the
  window that the next step reads in the ring.
\<close>

section \<open>Packing sees rows and carried state\<close>

definition same_carry :: "kv_store \<Rightarrow> kv_store \<Rightarrow> bool" where
  "same_carry st0 st \<longleftrightarrow>
     (\<forall>k j. k < 2 * length (owners (ks_cfg st0)) \<longrightarrow> j < state_stride (ks_cfg st0) \<longrightarrow>
        region_byte st 3 (k * state_stride (ks_cfg st0) + j) = region_byte st0 3 (k * state_stride (ks_cfg st0) + j))"

definition context_reads :: "kv_store \<Rightarrow> nat \<Rightarrow> nat \<Rightarrow> u8 list list" where
  "context_reads st n oi =
     (let c = ks_cfg st; ratio = plane_ratio c (owners c ! oi); rows = n div ratio; carry = 4 * (ratio * kc_latent_dim c) in
      [kv_read st (ly_off_cmp (ks_lay st) ! oi) (2 * (rows * kc_latent_dim c)), kv_read st (ly_off_idx (ks_lay st) ! oi) (2 * (rows * kc_index_dim c))]
      @ (if ratio > 1 then [kv_read st (ly_off_state (ks_lay st) + oi * state_stride c) carry, kv_read st (score_base st + oi * state_stride c) carry] else []))"

lemma pack_cong:
  assumes "kv_wf st" "kv_valid st" "kv_wf st'" "kv_valid st'" "ks_cfg st' = ks_cfg st" "kv_pack n st = Inr pk"
    and "\<And>oi. oi < length (owners (ks_cfg st)) \<Longrightarrow> context_reads st' n oi = context_reads st n oi"
    and "\<And>oi. oi < length (owners (ks_cfg st)) \<Longrightarrow> plane_rows (ks_cfg st) n oi \<le> ks_rows_hw st' ! oi"
  shows "kv_pack n st' = Inr pk"
proof -
  let ?c = "ks_cfg st" and ?N = "length (owners (ks_cfg st))"
  have own: "ks_owners st = owners ?c" "ks_owners st' = owners ?c" using assms(1-5) by (auto simp: kv_wf_def kv_shape_def kv_frame_def Let_def)
  have "pack_plane st' n oi = pack_plane st n oi" if "oi < ?N" for oi
    using assms(7) [OF that] own assms(5)
    by (simp add: pack_plane_def context_reads_def read_u16s_def read_f32s_def Let_def split: if_splits)
  moreover have "plane_rows ?c n oi \<le> rows_for ?c (owners ?c ! oi) (ks_cap st')" if "oi < ?N" for oi
    using assms(8) [OF that] wf_rows(2) [OF assms(3,4)] assms(5) that by fastforce
  ultimately show ?thesis
    using assms(2,4,6,8) own assms(5) by (auto simp: kv_pack_def Let_def not_less split: if_splits)
qed

lemma packed_rows:
  assumes "kv_wf st" "kv_pack n st = Inr pk" "oi < length (owners (ks_cfg st))"
  shows "plane_rows (ks_cfg st) n oi \<le> ks_rows_hw st ! oi"
proof -
  have v: "kv_valid st" using assms(2) by (auto simp: kv_pack_def split: if_splits)
  then have "ks_owners st = owners (ks_cfg st)" using assms(1) by (simp add: kv_wf_def kv_shape_def kv_frame_def Let_def)
  then have "\<not> (\<exists>oi < length (owners (ks_cfg st)). plane_rows (ks_cfg st) n oi > ks_rows_hw st ! oi)"
    using assms(2) by (auto simp: kv_pack_def Let_def split: if_splits)
  then show ?thesis using assms(3) by (meson not_less)
qed

lemma context_reads_same:
  assumes "kv_wf st0" "kv_valid st0" "same_rows st0 st" "same_carry st0 st" "oi < length (owners (ks_cfg st0))"
    and "plane_rows (ks_cfg st0) n oi \<le> ks_rows_hw st0 ! oi" "plane_ratio (ks_cfg st0) (owners (ks_cfg st0) ! oi) \<le> kc_max_ratio (ks_cfg st0)"
  shows "context_reads st n oi = context_reads st0 n oi"
proof -
  let ?c = "ks_cfg st0" and ?N = "length (owners (ks_cfg st0))" and ?s = "state_stride (ks_cfg st0)"
  have st: "ks_cfg st = ?c" "kv_wf st" "kv_valid st" using assms(3) by (simp_all add: same_rows_def)
  have sh: "kv_shape st0" "kv_shape st" using assms(1,2) st by (simp_all add: kv_wf_def)
  have own: "ks_owners st0 = owners ?c" "ks_owners st = owners ?c" using sh st(1) by (simp_all add: kv_shape_def kv_frame_def Let_def)
  have offs: "ly_off_cmp (ks_lay st) ! oi = region_off st (4 + oi)" "ly_off_idx (ks_lay st) ! oi = region_off st (4 + ?N + oi)"
      "ly_off_cmp (ks_lay st0) ! oi = region_off st0 (4 + oi)" "ly_off_idx (ks_lay st0) ! oi = region_off st0 (4 + ?N + oi)"
    using plane_offs [OF shape_layout(2) [OF sh(2)]] plane_offs [OF shape_layout(2) [OF sh(1)]] st(1) assms(5) by simp_all
  have rows: "kv_read st (region_off st i) m = kv_read st0 (region_off st0 i) m" if i: "4 \<le> i" "i < regions st0" "m \<le> live_len st0 i" for i m
  proof -
    have "live_len st0 i \<le> region_size st0 i"
      using region_size_plane [OF i(1,2)] wf_rows(2) [OF assms(1,2)] by (simp add: mult_le_mono1)
    moreover have "live_len st0 i \<le> region_size st i" using same_rows_live [OF assms(3) i(1,2)] by simp
    ultimately show ?thesis
      using read_region [OF sh(1) i(2), of 0 m] read_region [OF sh(2), of i 0 m] i st(1) assms(3) by (auto simp: same_rows_def)
  qed
  have "2 * (plane_rows ?c n oi * d) \<le> ks_rows_hw st0 ! oi * (2 * d)" for d using mult_le_mono1 [OF assms(6), of "2 * d"] by simp
  then have live: "2 * (plane_rows ?c n oi * kc_latent_dim ?c) \<le> live_len st0 (4 + oi)" "2 * (plane_rows ?c n oi * kc_index_dim ?c) \<le> live_len st0 (4 + ?N + oi)"
    using region_size_plane(3) [of "4 + oi" st0] region_size_plane(3) [of "4 + ?N + oi" st0] assms(5)
    by (simp_all add: region_plane_def region_width_def)
  have carry: "kv_read st (region_off st 3 + k * ?s) m = kv_read st0 (region_off st0 3 + k * ?s) m" if k: "k < 2 * ?N" "m \<le> ?s" for k m
  proof -
    have "Suc k * ?s \<le> 2 * ?N * ?s" using k(1) by (intro mult_le_mono1) simp
    then have "k * ?s + m \<le> 2 * ?N * ?s" using k(2) by simp
    moreover have "region_size st0 3 = 2 * ?N * ?s" "region_size st 3 = 2 * ?N * ?s" using st(1) by (simp_all add: state_stride_def)
    ultimately have fit: "k * ?s + m \<le> region_size st0 3" "k * ?s + m \<le> region_size st 3" by (simp_all only:)
    have "3 < regions st0" "3 < regions st" by simp_all
    then show ?thesis unfolding read_region [OF sh(1) \<open>3 < regions st0\<close> fit(1)] read_region [OF sh(2) \<open>3 < regions st\<close> fit(2)]
      using assms(4) k by (auto simp: same_carry_def)
  qed
  have m: "4 * (plane_ratio ?c (owners ?c ! oi) * kc_latent_dim ?c) \<le> ?s" using assms(7) by (simp add: state_stride_def mult_le_mono1)
  have sb: "score_base st + oi * ?s = region_off st 3 + (?N + oi) * ?s" "score_base st0 + oi * ?s = region_off st0 3 + (?N + oi) * ?s"
    using own st(1) by (simp_all add: score_base_def add_mult_distrib)
  show ?thesis
    using rows [of "4 + oi"] rows [of "4 + ?N + oi"] carry [of oi] carry [of "?N + oi"] live m assms(5) st(1)
    by (simp add: context_reads_def Let_def offs sb)
qed

section \<open>Running a replay\<close>

lemma replay_loop_keeps:
  assumes "decode_step_ok ops" "kv_wf st0" "kv_valid st0" "kc_layers (ks_cfg st0) \<le> kNoPlane" "backup_rows first stop st0 = Inr b" "stop < 2 ^ 32"
    and "same_rows st0 (en_kvs e)" "set qs \<subseteq> {first..<stop}" "stop \<le> length (en_history e)" "replay_loop ops (en_history e) b qs e = (Inr u, e')"
  shows "same_rows st0 (en_kvs e') \<and> en_history e' = en_history e \<and> en_gpu_ready e' = en_gpu_ready e \<and> ks_win_lo (en_kvs e') = ks_win_lo (en_kvs e)
    \<and> ks_slot_pos (en_kvs e') = fold (\<lambda>q xs. xs[q mod kc_window (ks_cfg st0) := int q]) qs (ks_slot_pos (en_kvs e))"
  using assms(7-10)
proof (induction qs arbitrary: e)
  case (Cons q qs)
  obtain r e1 where e1: "eo_step ops (en_history e ! q) q e = (Inr r, e1)" using Cons.prems(4) by (auto split: prod.splits sum.splits)
  have q: "first \<le> q" "q < stop" "q < length (en_history e)" using Cons.prems(2,3) by auto
  have wf: "kv_wf (en_kvs e)" "kv_valid (en_kvs e)" using Cons.prems(1) by (simp_all add: same_rows_def)
  have s: "en_history e1 = step_history (en_history e ! q) q (en_history e)" "en_gpu_ready e1 = en_gpu_ready e" "step_frame q (en_kvs e) (en_kvs e1)"
    using assms(1) e1 wf unfolding decode_step_ok_def by blast+
  have h: "en_history e1 = en_history e" using s(1) q(3) by (simp add: step_history_def)
  obtain st2 where st2: "restore_rows b q (en_kvs e1) = (Inr (), st2)" "same_rows st0 st2"
      "ks_slot_pos st2 = (ks_slot_pos (en_kvs e))[q mod kc_window (ks_cfg st0) := int q]" "ks_win_lo st2 = ks_win_lo (en_kvs e)"
    using replayed_step [OF assms(2-5) Cons.prems(1) s(3) q(1,2) assms(6)] by blast
  have "replay_loop ops (en_history e) b qs (e1\<lparr>en_kvs := st2\<rparr>) = (Inr u, e')" using Cons.prems(4) e1 st2(1) by simp
  then show ?case using Cons.IH [of "e1\<lparr>en_kvs := st2\<rparr>"] Cons.prems(2,3) h s(2) st2 by simp
qed simp

lemma run_replay_keeps:
  assumes "decode_step_ok ops" "kv_wf (en_kvs e)" "kv_valid (en_kvs e)" "kc_layers (ks_cfg (en_kvs e)) \<le> kNoPlane"
    and "rp_end plan \<le> length (en_history e)" "length (en_history e) < 2 ^ 32" "run_replay ops plan e = (Inr s, e')"
  shows "same_rows (en_kvs e) (en_kvs e') \<and> same_carry (en_kvs e) (en_kvs e') \<and> en_history e' = en_history e \<and> en_gpu_ready e' = en_gpu_ready e
    \<and> rt_plan s = plan \<and> ks_win_lo (en_kvs e') = (if plan_steps plan = 0 then ks_win_lo (en_kvs e) else rp_first plan)
    \<and> ks_slot_pos (en_kvs e') = fold (\<lambda>q xs. xs[q mod kc_window (ks_cfg (en_kvs e)) := int q]) [rp_first plan..<rp_end plan] (ks_slot_pos (en_kvs e))"
proof (cases "plan_steps plan = 0")
  case True
  then have "s = stats_of plan" "e' = e" "rp_end plan \<le> rp_first plan" using assms(7) by (auto simp: run_replay_def plan_steps_def split: if_splits)
  then show ?thesis using True assms(2,3) by (simp add: same_rows_def same_carry_def stats_of_def)
next
  case False
  let ?st = "en_kvs e" and ?N = "length (owners (ks_cfg (en_kvs e)))"
  obtain b e1 st3 where b: "backup_rows (rp_first plan) (rp_end plan) ?st = Inr b"
    and l: "replay_loop ops (en_history e) b [rp_first plan..<rp_end plan] (e\<lparr>en_kvs := set_window_floor (rp_first plan) ?st\<rparr>) = (Inr (), e1)"
    and c: "restore_carry b (en_kvs e1) = (Inr (), st3)" and s: "s = (stats_of plan)\<lparr>rt_backup_bytes := row_backup_bytes b\<rparr>" "e' = e1\<lparr>en_kvs := st3\<rparr>"
    using assms(7) False by (auto simp: run_replay_def split: sum.splits prod.splits)
  have "same_rows ?st (set_window_floor (rp_first plan) ?st)" using assms(2,3) by (simp add: same_rows_def set_window_floor_def)
  then have k: "same_rows ?st (en_kvs e1)" "en_history e1 = en_history e" "en_gpu_ready e1 = en_gpu_ready e" "ks_win_lo (en_kvs e1) = rp_first plan"
      "ks_slot_pos (en_kvs e1) = fold (\<lambda>q xs. xs[q mod kc_window (ks_cfg ?st) := int q]) [rp_first plan..<rp_end plan] (ks_slot_pos ?st)"
    using replay_loop_keeps [OF assms(1-4) b _ _ _ _, of "e\<lparr>en_kvs := set_window_floor (rp_first plan) ?st\<rparr>" "[rp_first plan..<rp_end plan]" "()" e1] l assms(5,6)
    by (simp_all add: set_window_floor_def)
  have e1: "kv_wf (en_kvs e1)" "kv_valid (en_kvs e1)" "ks_cfg (en_kvs e1) = ks_cfg ?st" using k(1) by (simp_all add: same_rows_def)
  have sh: "kv_shape ?st" "kv_shape (en_kvs e1)" using assms(2,3) e1 by (simp_all add: kv_wf_def)
  have own: "ks_owners ?st = owners (ks_cfg ?st)" using sh(1) by (simp add: kv_shape_def kv_frame_def Let_def)
  have pl: "rb_planes b = map (backup_plane_of ?st (rp_first plan) (rp_end plan)) [0..<?N]"
    using b own by (auto simp: backup_rows_def Let_def split: if_splits)
  have sub: "set [0..<?N] \<subseteq> {..<?N}" by auto
  obtain st4 where st4: "over_planes restore_plane_carry (rb_planes b) (en_kvs e1) = (Inr (), st4)" "written (en_kvs e1) st4"
    and rb: "\<forall>i j. 3 < i \<longrightarrow> i < regions (en_kvs e1) \<longrightarrow> j < region_size (en_kvs e1) i \<longrightarrow> region_byte st4 i j = region_byte (en_kvs e1) i j"
    and cb: "\<forall>k j. k < 2 * ?N \<longrightarrow> j < state_stride (ks_cfg ?st) \<longrightarrow>
         region_byte st4 3 (k * state_stride (ks_cfg ?st) + j) =
          (if k mod ?N \<in> set [0..<?N] then region_byte ?st 3 (k * state_stride (ks_cfg ?st) + j)
           else region_byte (en_kvs e1) 3 (k * state_stride (ks_cfg ?st) + j))"
    using restore_carry_bytes [OF sh e1(3) assms(4) sub, of "rp_first plan" "rp_end plan"] unfolding pl by blast
  have st3: "st3 = st4" using c st4(1) e1(2) by (simp add: restore_carry_def)
  note w = written_sel [OF st4(2)]
  have "region_byte st4 i j = region_byte ?st i j" if ij: "4 \<le> i" "i < regions ?st" "j < live_len ?st i" for i j
    using rb same_rows_live [OF k(1) ij(1,2)] ij e1(3) k(1) by (simp add: same_rows_def)
  then have "same_rows ?st st3" using k(1) w st3 by (simp add: same_rows_def)
  moreover have "same_carry ?st st3" unfolding same_carry_def
  proof (intro allI impI)
    fix k j assume k: "k < 2 * ?N" "j < state_stride (ks_cfg ?st)"
    then have "0 < ?N" by linarith
    then have "k mod ?N \<in> set [0..<?N]" by simp
    then show "region_byte st3 3 (k * state_stride (ks_cfg ?st) + j) = region_byte ?st 3 (k * state_stride (ks_cfg ?st) + j)" using cb k st3 by simp
  qed
  ultimately show ?thesis using False k w s st3 by (simp add: stats_of_def)
qed

section \<open>The window after a replay\<close>

lemma fold_slots:
  assumes "length xs = w" "0 < w" "\<And>q. a \<le> q \<Longrightarrow> q < b \<Longrightarrow> q \<noteq> x \<Longrightarrow> q mod w \<noteq> x mod w"
  shows "fold (\<lambda>q xs. xs[q mod w := int q]) [a..<b] xs ! (x mod w) = (if a \<le> x \<and> x < b then int x else xs ! (x mod w))"
  using assms(3)
proof (induction b)
  case (Suc b)
  show ?case
  proof (cases "a \<le> b")
    case True
    have len: "length (fold (\<lambda>q xs. xs[q mod w := int q]) [a..<b] xs) = w" using assms(1) by (simp add: length_fold_update)
    show ?thesis using True Suc.IH Suc.prems [of b] Suc.prems len assms(2) by (cases "b = x") (auto simp: nth_list_update)
  qed (use Suc in simp)
qed simp

lemma replayed_window:
  assumes "kv_wf st" "kv_valid st" "kv_valid st'" "kv_wf st'" "ks_cfg st' = ks_cfg st" "plan = plan_ring st k replay_max"
    and "ks_win_lo st' = (if plan_steps plan = 0 then ks_win_lo st else rp_first plan)"
    and "ks_slot_pos st' = fold (\<lambda>q xs. xs[q mod kc_window (ks_cfg st) := int q]) [rp_first plan..<rp_end plan] (ks_slot_pos st)"
    and x: "need_lo st k \<le> x" "x < k" "rp_first plan \<le> x"
  shows "ring_holds st' x"
proof -
  let ?w = "kc_window (ks_cfg st)"
  have w: "0 < ?w" "length (ks_slot_pos st) = ?w" "length (ks_slot_pos st') = ?w"
    using assms(1-5) by (simp_all add: kv_wf_def kv_config_ok_def kv_shape_def)
  note p = plan_ring_facts [OF w(1) assms(6)]
  show ?thesis
  proof (cases "plan_steps plan = 0")
    case True
    then have "rp_end plan \<le> rp_first plan" "ring_holds st x" using p x by (auto simp: plan_steps_def split: if_splits)
    then show ?thesis using assms(5,7,8) True by (simp add: ring_holds_def)
  next
    case False
    have "rp_end plan - rp_first plan \<le> ?w" using p by (simp add: plan_steps_def split: if_splits)
    then have apart: "q mod ?w \<noteq> x mod ?w" if "rp_first plan \<le> q" "q < rp_end plan" "q \<noteq> x" for q
    proof -
      have "need_lo st k \<le> rp_first plan + 1" using p False by blast
      moreover have "k \<le> need_lo st k + (?w - 1)" by (simp add: need_lo_def Let_def)
      ultimately have "x < q + ?w" "q < x + ?w" using that x \<open>rp_end plan - rp_first plan \<le> ?w\<close> w(1) by linarith+
      then show ?thesis using slot_apart [of q x ?w] that by simp
    qed
    have "ks_slot_pos st' ! (x mod ?w) = (if rp_first plan \<le> x \<and> x < rp_end plan then int x else ks_slot_pos st ! (x mod ?w))"
      unfolding assms(8) by (rule fold_slots [OF w(2,1) apart])
    moreover have "ks_slot_pos st ! (x mod ?w) = int x" if "\<not> x < rp_end plan" using p x that by (auto simp: ring_holds_def)
    moreover have "ks_slot_pos st' \<noteq> []" using w by auto
    ultimately show ?thesis using False assms(5,7) x by (auto simp: ring_holds_def)
  qed
qed

section \<open>Contexts\<close>

text \<open>The geometry under which a context can be packed and copied.\<close>

definition geometry_ok :: "kv_config \<Rightarrow> bool" where
  "geometry_ok c \<longleftrightarrow> kc_layers c \<le> kNoPlane \<and> 16 dvd kc_latent_dim c \<and> 32 dvd kc_index_dim c \<and> (\<forall>k \<in> set (owners c). plane_ratio c k \<le> kc_max_ratio c)"

lemma replay_keeps_packs:
  assumes "decode_step_ok ops" "kv_wf (en_kvs e)" "kv_valid (en_kvs e)" "geometry_ok (ks_cfg (en_kvs e))"
    and "rp_end plan \<le> length (en_history e)" "length (en_history e) < 2 ^ 32" "run_replay ops plan e = (Inr s, e')" "kv_pack n (en_kvs e) = Inr pk"
  shows "kv_pack n (en_kvs e') = Inr pk"
proof -
  let ?st = "en_kvs e"
  have "kc_layers (ks_cfg ?st) \<le> kNoPlane" using assms(4) by (simp add: geometry_ok_def)
  note k = run_replay_keeps [OF assms(1-3) this assms(5-7)]
  have e': "kv_wf (en_kvs e')" "kv_valid (en_kvs e')" "ks_cfg (en_kvs e') = ks_cfg ?st" using k by (simp_all add: same_rows_def)
  have rows: "plane_rows (ks_cfg ?st) n oi \<le> ks_rows_hw ?st ! oi" if "oi < length (owners (ks_cfg ?st))" for oi
    by (rule packed_rows [OF assms(2,8) that])
  show ?thesis
  proof (rule pack_cong [OF assms(2,3) e' assms(8)])
    fix oi assume oi: "oi < length (owners (ks_cfg ?st))"
    have "plane_ratio (ks_cfg ?st) (owners (ks_cfg ?st) ! oi) \<le> kc_max_ratio (ks_cfg ?st)" using assms(4) oi by (simp add: geometry_ok_def)
    then show "context_reads (en_kvs e') n oi = context_reads ?st n oi" using context_reads_same [OF assms(2,3) _ _ oi rows [OF oi]] k by blast
    have "ks_rows_hw ?st ! oi \<le> ks_rows_hw (en_kvs e') ! oi" using k oi by (simp add: same_rows_def)
    then show "plane_rows (ks_cfg ?st) n oi \<le> ks_rows_hw (en_kvs e') ! oi" using rows [OF oi] by simp
  qed
qed

lemma host_fields:
  "ks_cfg (resolve_ring n st) = ks_cfg st" "kv_pack m (resolve_ring n st) = kv_pack m st" "kv_valid (resolve_ring n st) = kv_valid st"
  "ks_cfg (truncate_prompt_ring n st) = ks_cfg st" "kv_pack m (truncate_prompt_ring n st) = kv_pack m st" "kv_valid (truncate_prompt_ring n st) = kv_valid st"
  "ring_holds (truncate_prompt_ring n st) = ring_holds st" "need_lo (truncate_prompt_ring n st) = need_lo st" "need_lo (resolve_ring n st) = need_lo st"
  by (simp_all add: resolve_ring_def truncate_prompt_ring_def kv_pack_def pack_plane_def read_u16s_def read_f32s_def kv_read_def score_base_def
      kv_valid_def ring_holds_def need_lo_def fun_eq_iff Let_def) blast+

lemma plan_ring_truncate: "plan_ring (truncate_prompt_ring n st) k m = plan_ring st k m"
  unfolding plan_ring_def missing_positions_def host_fields ..

lemma set_context_tokens_ok:
  assumes "set_context_tokens ts e = (Inr u, e')"
  shows "en_history e' = ts" "\<exists>n. en_kvs e' = truncate_prompt_ring n (en_kvs e)" "length ts \<le> kMaxIndexPositions"
  using assms by (auto simp: set_context_tokens_def max_context_def Let_def split: if_splits)

text \<open>The restoring of a window fails only with a step, or when the rows to copy are not there.\<close>

lemma replay_loop_runs:
  assumes "decode_step_ok ops" "\<And>t q e. \<exists>r e'. eo_step ops t q e = (Inr r, e')"
    and "kv_wf st0" "kv_valid st0" "kc_layers (ks_cfg st0) \<le> kNoPlane" "backup_rows first stop st0 = Inr b" "stop < 2 ^ 32"
    and "same_rows st0 (en_kvs e)" "set qs \<subseteq> {first..<stop}"
  shows "\<exists>e'. replay_loop ops hist b qs e = (Inr (), e') \<and> same_rows st0 (en_kvs e')"
  using assms(8,9)
proof (induction qs arbitrary: e)
  case (Cons q qs)
  obtain r e1 where e1: "eo_step ops (hist ! q) q e = (Inr r, e1)" using assms(2) by blast
  have "kv_wf (en_kvs e)" "kv_valid (en_kvs e)" using Cons.prems(1) by (simp_all add: same_rows_def)
  then have f: "step_frame q (en_kvs e) (en_kvs e1)" using assms(1) e1 unfolding decode_step_ok_def by blast
  have q: "first \<le> q" "q < stop" using Cons.prems(2) by auto
  obtain st2 where st2: "restore_rows b q (en_kvs e1) = (Inr (), st2)" "same_rows st0 st2"
    using replayed_step [OF assms(3-6) Cons.prems(1) f q assms(7)] by blast
  then show ?case using Cons.IH [of "e1\<lparr>en_kvs := st2\<rparr>"] Cons.prems(2) e1 by simp
qed simp

lemma run_replay_runs:
  assumes "decode_step_ok ops" "\<And>t q e. \<exists>r e'. eo_step ops t q e = (Inr r, e')"
    and "kv_wf (en_kvs e)" "kv_valid (en_kvs e)" "kc_layers (ks_cfg (en_kvs e)) \<le> kNoPlane" "rp_end plan < 2 ^ 32"
    and "backup_rows (rp_first plan) (rp_end plan) (en_kvs e) = Inr b"
  shows "\<exists>s e'. run_replay ops plan e = (Inr s, e')"
proof -
  let ?st = "en_kvs e" and ?e = "e\<lparr>en_kvs := set_window_floor (rp_first plan) (en_kvs e)\<rparr>"
  let ?N = "length (owners (ks_cfg ?st))"
  have "same_rows ?st (en_kvs ?e)" using assms(3,4) by (simp add: same_rows_def set_window_floor_def)
  then obtain e1 where l: "replay_loop ops (en_history e) b [rp_first plan..<rp_end plan] ?e = (Inr (), e1)" and e1: "same_rows ?st (en_kvs e1)"
    using replay_loop_runs [OF assms(1-5,7,6), of ?e "[rp_first plan..<rp_end plan]" "en_history e"] by auto
  have v: "kv_wf (en_kvs e1)" "kv_valid (en_kvs e1)" "ks_cfg (en_kvs e1) = ks_cfg ?st" using e1 by (simp_all add: same_rows_def)
  have sh: "kv_shape ?st" "kv_shape (en_kvs e1)" using assms(3,4) v by (simp_all add: kv_wf_def)
  have "ks_owners ?st = owners (ks_cfg ?st)" using sh(1) by (simp add: kv_shape_def kv_frame_def Let_def)
  then have pl: "rb_planes b = map (backup_plane_of ?st (rp_first plan) (rp_end plan)) [0..<?N]"
    using assms(7) by (auto simp: backup_rows_def Let_def split: if_splits)
  have sub: "set [0..<?N] \<subseteq> {..<?N}" by auto
  obtain st4 where "restore_carry b (en_kvs e1) = (Inr (), st4)"
    using restore_carry_bytes [OF sh v(3) assms(5) sub, of "rp_first plan" "rp_end plan"] v(2) unfolding pl restore_carry_def by auto
  then show ?thesis using l assms(7) by (auto simp: run_replay_def)
qed

text \<open>A small engine, and a step that writes nothing but its slot of the ring.\<close>

definition quiet_engine :: "kv_store \<Rightarrow> u32 list \<Rightarrow> engine" where
  "quiet_engine st h = \<lparr>en_gpu_ready = True, en_produce_ced = True, en_greedy = False, en_kvs = st, en_history = h, en_draft_hidden = [],
     en_draft_position = [], en_draft_mask = [], en_prompt_draft_hidden = [], en_prompt_draft_position = [], en_prompt_draft_mask = [],
     en_prompt_tokens = [], en_prompt_carry = \<lparr>rb_first_pos = 0, rb_end_pos = 0, rb_planes = []\<rparr>, en_prompt_first = None,
     en_prefill_loaded = False, en_sample_step = False\<rparr>"

definition mark_ops :: engine_ops where
  "mark_ops = \<lparr>eo_alloc = small_alloc, eo_step = (\<lambda>t q e. (Inr empty_result,
     e\<lparr>en_history := step_history t q (en_history e),
       en_kvs := (en_kvs e)\<lparr>ks_slot_pos := (ks_slot_pos (en_kvs e))[q mod kc_window (ks_cfg (en_kvs e)) := int q]\<rparr>\<rparr>))\<rparr>"

lemma region_byte_slots [simp]: "region_byte (st\<lparr>ks_slot_pos := ps\<rparr>) = region_byte st"
  by (simp add: region_byte_def kv_byte_def fun_eq_iff)

lemma mark_ops_ok: "decode_step_ok mark_ops" "\<exists>r e'. eo_step mark_ops t q e = (Inr r, e')"
  by (auto simp: decode_step_ok_def mark_ops_def step_frame_def)

lemma backup_rows_runs:
  assumes "kv_wf st" "kv_valid st" "first \<le> stop" "\<And>oi. oi < length (owners (ks_cfg st)) \<Longrightarrow> plane_rows (ks_cfg st) stop oi \<le> ks_rows_hw st ! oi"
  shows "\<exists>b. backup_rows first stop st = Inr b"
proof -
  have own: "ks_owners st = owners (ks_cfg st)" using assms(1,2) by (simp add: kv_wf_def kv_shape_def kv_frame_def Let_def)
  have "bp_first_row (backup_plane_of st first stop oi) + bp_rows (backup_plane_of st first stop oi) \<le> ks_rows_hw st ! oi" if "oi < length (owners (ks_cfg st))" for oi
    using assms(4) [OF that] div_le_mono [OF assms(3), of "plane_ratio (ks_cfg st) (owners (ks_cfg st) ! oi)"] own
    by (auto simp: backup_plane_of_def Let_def)
  then have "\<not> (\<exists>oi < length (ks_owners st). bp_first_row (backup_plane_of st first stop oi) + bp_rows (backup_plane_of st first stop oi) > ks_rows_hw st ! oi)"
    unfolding own by (meson not_less)
  then show ?thesis using assms(2) unfolding backup_rows_def Let_def by (auto simp: not_less)
qed

text \<open>
  C16. Rolling a context back. Beyond the history, or to an odd position, it is refused and nothing changes.
  When it succeeds, the history is its first \<open>keep\<close> tokens; every context that could be packed from the
  store before packs to the same bytes after it, so that no row, key or carried state was touched by the
  replay; and the ring holds the positions from the first replayed one on that a step at \<open>keep\<close> reads.
\<close>

theorem rollback_context_exact:
  assumes "decode_step_ok ops" "kv_reachable (en_kvs e)" "kv_valid (en_kvs e)" "geometry_ok (ks_cfg (en_kvs e))"
    and "rollback_context ops keep replay_max e = (r, e')"
  shows "(keep > context_length e \<or> odd keep \<longrightarrow> r = Inl InvalidArgument \<and> e' = e)
    \<and> (\<forall>s. r = Inr s \<longrightarrow>
        en_history e' = take keep (en_history e) \<and> rt_dropped s = context_length e - keep
        \<and> (\<forall>n pk. kv_pack n (en_kvs e) = Inr pk \<longrightarrow> kv_pack n (en_kvs e') = Inr pk)
        \<and> (keep < context_length e \<longrightarrow>
            (\<forall>x. need_lo (en_kvs e) keep \<le> x \<and> x < keep \<and> rp_first (rt_plan s) \<le> x \<longrightarrow> ring_holds (en_kvs e') x)))"
proof (cases "keep > context_length e \<or> odd keep \<or> keep = context_length e")
  case True
  then consider "keep > context_length e \<or> odd keep" | "keep = context_length e" "even keep" by blast
  then show ?thesis
  proof cases
    case 1
    then have "r = Inl InvalidArgument" "e' = e" using assms(5) by (auto simp: rollback_context_def Let_def split: if_splits)
    then show ?thesis by simp
  next
    case 2
    then have "r = Inr (stats_of (no_plan keep))" "e' = e" using assms(5) by (auto simp: rollback_context_def Let_def)
    then show ?thesis using 2 by (simp add: context_length_def stats_of_def)
  qed
next
  case False
  have wf: "kv_wf (en_kvs e)" by (rule kv_reachable_wf [OF assms(2)])
  define e1 where "e1 = e\<lparr>en_kvs := resolve_ring (context_length e) (en_kvs e)\<rparr>"
  have "en_history e' = take keep (en_history e) \<and> rt_dropped s = context_length e - keep
        \<and> (\<forall>n pk. kv_pack n (en_kvs e) = Inr pk \<longrightarrow> kv_pack n (en_kvs e') = Inr pk)
        \<and> (\<forall>x. need_lo (en_kvs e) keep \<le> x \<and> x < keep \<and> rp_first (rt_plan s) \<le> x \<longrightarrow> ring_holds (en_kvs e') x)" if s: "r = Inr s" for s
  proof -
    obtain e2 s2 where e2: "set_context_tokens (take keep (en_history e)) e1 = (Inr (), e2)"
      and rr: "run_replay ops (plan_ring (en_kvs e1) keep replay_max) e2 = (Inr s2, e')" and s2: "s = s2\<lparr>rt_dropped := context_length e - keep\<rparr>"
      using assms(5) False s unfolding rollback_context_def plan_rollback_def e1_def Let_def by (auto split: prod.splits sum.splits)
    note c = set_context_tokens_ok [OF e2]
    obtain n where n: "en_kvs e2 = truncate_prompt_ring n (en_kvs e1)" using c(2) by blast
    have st: "kv_wf (en_kvs e2)" "kv_valid (en_kvs e2)" "ks_cfg (en_kvs e2) = ks_cfg (en_kvs e)"
      using wf assms(3) n truncate_prompt_ring_wf resolve_ring_wf by (simp_all add: e1_def host_fields)
    have len: "length (en_history e2) = keep" "keep < 2 ^ 32" using c(1,3) False by (simp_all add: context_length_def kMaxIndexPositions_def)
    define plan where "plan = plan_ring (en_kvs e2) keep replay_max"
    have plan: "plan_ring (en_kvs e1) keep replay_max = plan" by (simp add: plan_def n plan_ring_truncate)
    have "0 < kc_window (ks_cfg (en_kvs e2))" using st(1) by (simp add: kv_wf_def kv_config_ok_def)
    note p = plan_ring_facts [OF this plan_def]
    have "kc_layers (ks_cfg (en_kvs e2)) \<le> kNoPlane" "rp_end plan \<le> length (en_history e2)" "length (en_history e2) < 2 ^ 32"
      using assms(4) st(3) p len by (simp_all add: geometry_ok_def)
    note k = run_replay_keeps [OF assms(1) st(1,2) this rr [unfolded plan]]
    have "kv_pack m (en_kvs e') = Inr pk" if "kv_pack m (en_kvs e) = Inr pk" for m pk
      using replay_keeps_packs [OF assms(1) st(1,2) _ _ _ rr [unfolded plan], of m pk] that assms(4) st(3) p len n by (simp add: e1_def host_fields)
    moreover have "ring_holds (en_kvs e') x" if "need_lo (en_kvs e) keep \<le> x" "x < keep" "rp_first (rt_plan s) \<le> x" for x
      using replayed_window [OF st(1,2) _ _ _ plan_def, of "en_kvs e'" x] k that s2 n by (simp add: same_rows_def e1_def host_fields)
    ultimately show ?thesis using k c(1) s2 by simp
  qed
  then show ?thesis using False by blast
qed

lemma one_row_engine:
  "kv_wf one_row_store" "kv_valid one_row_store" "ks_cfg one_row_store = small_config" "geometry_ok small_config" "kc_max_context small_config = 8"
  "plane_rows small_config 2 oi \<le> ks_rows_hw one_row_store ! oi \<or> oi \<ge> length (owners small_config)"
proof -
  note o = one_row_store_ok
  show w: "kv_wf one_row_store" "kv_valid one_row_store" "ks_cfg one_row_store = small_config" using o kv_reachable_wf by simp_all
  show "geometry_ok small_config" "kc_max_context small_config = 8"
    using small_config_owners(3) by (simp_all add: geometry_ok_def small_config_def kNoPlane_def plane_ratio_def per_source_def)
  obtain pk where "kv_pack 2 one_row_store = Inr pk" using o(4) by blast
  then show "plane_rows small_config 2 oi \<le> ks_rows_hw one_row_store ! oi \<or> oi \<ge> length (owners small_config)"
    using packed_rows [OF w(1), of 2 pk oi] w(3) by force
qed

theorem rollback_context_exact_witness:
  "\<exists>s e'. rollback_context mark_ops 2 128 (quiet_engine one_row_store [1, 2, 3]) = (Inr s, e') \<and> en_history e' = [1, 2] \<and> rt_dropped s = 1
     \<and> kv_pack 2 (en_kvs e') = kv_pack 2 one_row_store"
proof -
  note o = one_row_engine
  let ?e = "quiet_engine one_row_store [1, 2, 3]"
  define e1 where "e1 = ?e\<lparr>en_kvs := resolve_ring (context_length ?e) one_row_store\<rparr>"
  define e2 where "e2 = snd (set_context_tokens [1, 2] e1)"
  have f: "en_gpu_ready e1" "en_history e1 = [1, 2, 3]" "en_kvs e1 = resolve_ring (context_length ?e) one_row_store" "max_context e1 = 8"
    by (simp_all add: e1_def quiet_engine_def max_context_def host_fields o kMaxIndexPositions_def)
  have e2: "set_context_tokens [1, 2] e1 = (Inr (), e2)" using f by (simp add: e2_def set_context_tokens_def Let_def)
  obtain n where n: "en_kvs e2 = truncate_prompt_ring n (en_kvs e1)" using set_context_tokens_ok(2) [OF e2] by blast
  have st: "kv_wf (en_kvs e2)" "kv_valid (en_kvs e2)" "ks_cfg (en_kvs e2) = small_config" "ks_rows_hw (en_kvs e2) = ks_rows_hw one_row_store"
    using n f(3) o truncate_prompt_ring_wf resolve_ring_wf by (simp_all add: host_fields) (simp add: truncate_prompt_ring_def resolve_ring_def)
  define plan where "plan = plan_ring (en_kvs e2) 2 128"
  have "0 < kc_window (ks_cfg (en_kvs e2))" using st(1) by (simp add: kv_wf_def kv_config_ok_def)
  then have p: "rp_end plan \<le> 2" "rp_first plan \<le> rp_end plan" using plan_ring_facts [OF _ plan_def] by simp_all
  have "plane_rows small_config (rp_end plan) oi \<le> ks_rows_hw one_row_store ! oi" if "oi < length (owners small_config)" for oi
    using o(6) [of oi] div_le_mono [OF p(1), of "plane_ratio small_config (owners small_config ! oi)"] that by linarith
  then obtain b where b: "backup_rows (rp_first plan) (rp_end plan) (en_kvs e2) = Inr b"
    using backup_rows_runs [OF st(1,2) p(2)] st(3,4) by auto
  obtain s e' where rr: "run_replay mark_ops plan e2 = (Inr s, e')"
    using run_replay_runs [OF mark_ops_ok st(1,2) _ _ b] p(1) st(3) o(4) by (auto simp: geometry_ok_def)
  have "plan_ring (en_kvs e1) 2 128 = plan" by (simp add: plan_def n plan_ring_truncate)
  moreover have "context_length ?e = 3" "en_kvs ?e = one_row_store" "en_history ?e = [1, 2, 3]" by (simp_all add: context_length_def quiet_engine_def)
  ultimately have r: "rollback_context mark_ops 2 128 ?e = (Inr (s\<lparr>rt_dropped := 1\<rparr>), e')"
    using rr e2 unfolding rollback_context_def plan_rollback_def e1_def Let_def by simp
  have "kv_reachable (en_kvs ?e)" "kv_valid (en_kvs ?e)" "geometry_ok (ks_cfg (en_kvs ?e))" using o one_row_store_ok(1) by (simp_all add: quiet_engine_def)
  from rollback_context_exact [OF mark_ops_ok(1) this r] one_row_store_ok(4)
  show ?thesis using r by (auto simp: quiet_engine_def)
qed

lemma reads_of_context: "oi < length (owners c) \<Longrightarrow> ks_cfg st = c \<Longrightarrow> ks_cfg st' = c \<Longrightarrow>
    (let ratio = plane_ratio c (owners c ! oi); rows = n div ratio; carry = 4 * (ratio * kc_latent_dim c) in
      kv_read st' (ly_off_cmp (ks_lay st') ! oi) (2 * (rows * kc_latent_dim c)) = kv_read st (ly_off_cmp (ks_lay st) ! oi) (2 * (rows * kc_latent_dim c))
      \<and> kv_read st' (ly_off_idx (ks_lay st') ! oi) (2 * (rows * kc_index_dim c)) = kv_read st (ly_off_idx (ks_lay st) ! oi) (2 * (rows * kc_index_dim c))
      \<and> (ratio > 1 \<longrightarrow>
          kv_read st' (ly_off_state (ks_lay st') + oi * state_stride c) carry = kv_read st (ly_off_state (ks_lay st) + oi * state_stride c) carry
          \<and> kv_read st' (score_base st' + oi * state_stride c) carry = kv_read st (score_base st + oi * state_stride c) carry)
      \<and> rows \<le> hw) \<Longrightarrow> context_reads st' n oi = context_reads st n oi \<and> plane_rows c n oi \<le> hw"
  by (auto simp: context_reads_def Let_def)

text \<open>What was packed from one store and unpacked into another packs again to the same.\<close>

lemma unpack_pack:
  assumes "kv_reachable st" "kv_pack n st = Inr pk" "kv_reachable st2" "kv_valid st2" "ks_cfg st2 = ks_cfg st" "allocator_ok al"
    and "geometry_ok (ks_cfg st)" "kv_unpack al pk st2 = (Inr (), st3)"
  shows "kv_pack n st3 = Inr pk" "kv_wf st3" "kv_valid st3" "ks_cfg st3 = ks_cfg st"
proof -
  have g: "kc_layers (ks_cfg st) \<le> kNoPlane" "16 dvd kc_latent_dim (ks_cfg st)" "32 dvd kc_index_dim (ks_cfg st)"
      "\<forall>k \<in> set (owners (ks_cfg st)). plane_ratio (ks_cfg st) k \<le> kc_max_ratio (ks_cfg st)"
    using assms(7) by (simp_all add: geometry_ok_def)
  note u = unpacked_context [OF assms(1-6) assms(8) g]
  have pk: "packed_ok pk" using assms(2) by (auto simp: kv_pack_def packed_ok_def pack_plane_def Let_def split: if_splits)
  have wf: "kv_wf st" "kv_wf st2" using kv_reachable_wf assms(1,3) by blast+
  show w: "kv_wf st3" using kv_unpack_wf [OF wf(2) assms(6) pk] assms(8) by simp
  show v: "kv_valid st3" "ks_cfg st3 = ks_cfg st" using u by blast+
  have vs: "kv_valid st" using assms(2) by (auto simp: kv_pack_def split: if_splits)
  have r: "context_reads st3 n oi = context_reads st n oi \<and> plane_rows (ks_cfg st) n oi \<le> ks_rows_hw st3 ! oi" if "oi < length (owners (ks_cfg st))" for oi
    by (rule reads_of_context [OF that refl v(2)]) (use u that in \<open>simp add: Let_def\<close>)
  show "kv_pack n st3 = Inr pk" by (rule pack_cong [OF wf(1) vs w v assms(2)]) (use r in auto)
qed

lemma clear_sel: "ks_cfg (clear st) = ks_cfg st" "kv_valid (clear st) = kv_valid st"
  by (simp_all add: clear_def Let_def)

text \<open>
  C15. A conversation that was parked comes back. When a context parked from one engine is restored into
  another one of the same geometry, whatever that one held, and the restoring succeeds, then the history is
  the one that was parked, parking again gives the same context bit for bit, and the ring holds the
  positions from the first replayed one on that the next step reads.
\<close>

theorem park_restore_round_trip:
  assumes "decode_step_ok ops" "allocator_ok (eo_alloc ops)"
    and "kv_reachable (en_kvs e0)" "park_context e0 = Inr p" "en_history e0 \<noteq> []"
    and "kv_reachable (en_kvs e)" "kv_valid (en_kvs e)" "ks_cfg (en_kvs e) = ks_cfg (en_kvs e0)" "geometry_ok (ks_cfg (en_kvs e0))"
    and "restore_context ops p replay_max e = (Inr s, e')"
  shows "en_history e' = en_history e0 \<and> park_context e' = Inr p
    \<and> (\<forall>x. need_lo (en_kvs e') (context_length e') \<le> x \<and> x < context_length e' \<and> rp_first (rt_plan s) \<le> x \<longrightarrow> ring_holds (en_kvs e') x)"
proof -
  let ?n = "context_length e0"
  obtain pk where pk: "kv_pack ?n (en_kvs e0) = Inr pk" "p = \<lparr>pc_tokens = en_history e0, pc_kv = pk\<rparr>"
    using assms(4) by (auto simp: park_context_def split: sum.splits)
  define e1 where "e1 = reset_context e"
  have e1: "kv_reachable (en_kvs e1)" "kv_valid (en_kvs e1)" "ks_cfg (en_kvs e1) = ks_cfg (en_kvs e0)"
    using kv_reachable.step [OF assms(6,2), of KvClear] assms(7,8) by (simp_all add: e1_def reset_context_def clear_sel)
  obtain st2 e2 where st2: "kv_unpack (eo_alloc ops) pk (en_kvs e1) = (Inr (), st2)"
    and e2: "set_context_tokens (en_history e0) (e1\<lparr>en_kvs := st2\<rparr>) = (Inr (), e2)"
    and rr: "run_replay ops (plan_ring (en_kvs e2) (length (en_history e0)) replay_max) e2 = (Inr s, e')"
    using assms(5,10) unfolding restore_context_def e1_def [symmetric] Let_def by (auto simp: pk(2) split: if_splits prod.splits sum.splits)
  note u = unpack_pack [OF assms(3) pk(1) e1 assms(2,9) st2]
  note c = set_context_tokens_ok [OF e2]
  obtain m where m: "en_kvs e2 = truncate_prompt_ring m st2" using c(2) by auto
  have st: "kv_wf (en_kvs e2)" "kv_valid (en_kvs e2)" "ks_cfg (en_kvs e2) = ks_cfg (en_kvs e0)" "kv_pack ?n (en_kvs e2) = Inr pk"
    using u truncate_prompt_ring_wf by (simp_all add: m host_fields)
  define plan where "plan = plan_ring (en_kvs e2) (length (en_history e0)) replay_max"
  have "0 < kc_window (ks_cfg (en_kvs e2))" using st(1) by (simp add: kv_wf_def kv_config_ok_def)
  note pl = plan_ring_facts [OF this plan_def]
  have b: "rp_end plan \<le> length (en_history e2)" "length (en_history e2) < 2 ^ 32" "geometry_ok (ks_cfg (en_kvs e2))" "kc_layers (ks_cfg (en_kvs e2)) \<le> kNoPlane"
    using pl c(1,3) assms(9) st(3) by (simp_all add: kMaxIndexPositions_def geometry_ok_def)
  note k = run_replay_keeps [OF assms(1) st(1,2) b(4,1,2) rr [folded plan_def]]
  have h: "en_history e' = en_history e0" using k c(1) by simp
  have "kv_pack ?n (en_kvs e') = Inr pk" by (rule replay_keeps_packs [OF assms(1) st(1,2) b(3,1,2) rr [folded plan_def] st(4)])
  then have "park_context e' = Inr p" using h pk(2) by (simp add: park_context_def context_length_def)
  moreover have "need_lo (en_kvs e') = need_lo (en_kvs e2)" using k by (simp add: need_lo_def same_rows_def fun_eq_iff)
  then have "ring_holds (en_kvs e') x" if "need_lo (en_kvs e') (context_length e') \<le> x" "x < context_length e'" "rp_first (rt_plan s) \<le> x" for x
    using replayed_window [OF st(1,2) _ _ _ plan_def, of "en_kvs e'" x] k that h by (simp add: same_rows_def context_length_def)
  ultimately show ?thesis using h by blast
qed

theorem park_restore_round_trip_witness:
  "\<exists>p s e'. park_context (quiet_engine one_row_store [1, 2]) = Inr p \<and> restore_context mark_ops p 128 (quiet_engine small_store []) = (Inr s, e')
     \<and> en_history e' = [1, 2] \<and> park_context e' = Inr p"
proof -
  note o = one_row_engine
  let ?src = "quiet_engine one_row_store [1, 2]" and ?dst = "quiet_engine small_store []"
  obtain pk where pk: "kv_pack 2 one_row_store = Inr pk" using one_row_store_ok(4) by blast
  define p where "p = \<lparr>pc_tokens = [1, 2], pc_kv = pk\<rparr>"
  have park: "park_context ?src = Inr p" using pk by (simp add: park_context_def context_length_def quiet_engine_def p_def numeral_2_eq_2 [symmetric])
  define e1 where "e1 = reset_context ?dst"
  have "kv_reachable (clear small_store)" using kv_reachable.step [OF small_store_reachable small_alloc_ok, of KvClear] by simp
  then have e1: "en_kvs e1 = clear small_store" "kv_reachable (en_kvs e1)" "kv_valid (en_kvs e1)" "ks_cfg (en_kvs e1) = ks_cfg one_row_store" "en_gpu_ready e1" "en_history e1 = []"
    using small_store_valid o(3) by (simp_all add: e1_def reset_context_def quiet_engine_def clear_sel)
  have g: "kc_layers (ks_cfg one_row_store) \<le> kNoPlane" "16 dvd kc_latent_dim (ks_cfg one_row_store)" "32 dvd kc_index_dim (ks_cfg one_row_store)"
      "\<forall>k \<in> set (owners (ks_cfg one_row_store)). plane_ratio (ks_cfg one_row_store) k \<le> kc_max_ratio (ks_cfg one_row_store)"
    using o(3,4) by (simp_all add: geometry_ok_def)
  obtain r st2 where u: "kv_unpack small_alloc pk (en_kvs e1) = (r, st2)" by (cases "kv_unpack small_alloc pk (en_kvs e1)")
  note uc = unpacked_context [OF one_row_store_ok(1) pk e1(2-4) small_alloc_ok u g]
  have "ks_cap (clear small_store) = 2" using small_store_valid(3) by (simp add: clear_def Let_def)
  then have r: "r = Inr ()" using uc e1(1,3) by (simp add: reserve_def)
  note up = unpack_pack [OF one_row_store_ok(1) pk e1(2-4) small_alloc_ok _ u [unfolded r], unfolded o(3), OF o(4)]
  define e2 where "e2 = snd (set_context_tokens [1, 2] (e1\<lparr>en_kvs := st2\<rparr>))"
  have e2: "set_context_tokens [1, 2] (e1\<lparr>en_kvs := st2\<rparr>) = (Inr (), e2)"
    using e1(5) up(4) o(5) by (simp add: e2_def set_context_tokens_def max_context_def kMaxIndexPositions_def Let_def)
  obtain n where n: "en_kvs e2 = truncate_prompt_ring n st2" using set_context_tokens_ok(2) [OF e2] by auto
  have st: "kv_wf (en_kvs e2)" "kv_valid (en_kvs e2)" "ks_cfg (en_kvs e2) = small_config" "ks_rows_hw (en_kvs e2) = ks_rows_hw st2"
    using n up truncate_prompt_ring_wf by (simp_all add: host_fields) (simp add: truncate_prompt_ring_def)
  define plan where "plan = plan_ring (en_kvs e2) 2 128"
  have "0 < kc_window (ks_cfg (en_kvs e2))" using st(1) by (simp add: kv_wf_def kv_config_ok_def)
  then have pl: "rp_end plan \<le> 2" "rp_first plan \<le> rp_end plan" using plan_ring_facts [OF _ plan_def] by simp_all
  have "plane_rows small_config (rp_end plan) oi \<le> ks_rows_hw st2 ! oi" if "oi < length (owners small_config)" for oi
  proof -
    have "plane_rows small_config 2 oi \<le> ks_rows_hw st2 ! oi" using uc r that o(3) by (simp add: Let_def)
    then show ?thesis using div_le_mono [OF pl(1), of "plane_ratio small_config (owners small_config ! oi)"] by linarith
  qed
  then obtain b where b: "backup_rows (rp_first plan) (rp_end plan) (en_kvs e2) = Inr b"
    using backup_rows_runs [OF st(1,2) pl(2)] st(3,4) by auto
  obtain s e' where rr: "run_replay mark_ops plan e2 = (Inr s, e')"
    using run_replay_runs [OF mark_ops_ok st(1,2) _ _ b] pl(1) st(3) o(4) by (auto simp: geometry_ok_def)
  have "pk_positions pk = 2" using pk by (auto simp: kv_pack_def split: if_splits)
  then have rc: "restore_context mark_ops p 128 ?dst = (Inr s, e')"
    using u r e2 rr by (simp add: restore_context_def p_def e1_def [symmetric] plan_def numeral_2_eq_2 mark_ops_def [THEN arg_cong [where f = eo_alloc]] Let_def)
  have "allocator_ok (eo_alloc mark_ops)" using small_alloc_ok by (simp add: mark_ops_def)
  moreover have "kv_reachable (en_kvs ?src)" "en_history ?src = [1, 2]" "kv_reachable (en_kvs ?dst)" "kv_valid (en_kvs ?dst)" "ks_cfg (en_kvs ?dst) = ks_cfg (en_kvs ?src)" "geometry_ok (ks_cfg (en_kvs ?src))"
    using one_row_store_ok small_store_reachable small_store_valid o by (simp_all add: quiet_engine_def)
  ultimately have "en_history e' = en_history ?src \<and> park_context e' = Inr p"
    using park_restore_round_trip [OF mark_ops_ok(1) _ _ park _ _ _ _ _ rc] by auto
  then show ?thesis using park rc by (auto simp: quiet_engine_def)
qed

end
