(* ===== verification/Session_Turn.thy ===== *)
theory Session_Turn
  imports Session_Context Speculate Tokenizer
begin

text \<open>
  One turn of a conversation: \<^verbatim>\<open>turn_prepare\<close>, \<^verbatim>\<open>turn_emit\<close>, \<^verbatim>\<open>turn_account\<close>, \<^verbatim>\<open>turn_finish\<close> and
  \<^verbatim>\<open>Session::generate\<close> of \<^verbatim>\<open>runtime/session.cpp\<close>. The operations of the engine that run on the GPU or on the
  disk are parameters; the answers of the cancel callback are a function of how often it was asked before.
  Times are left out.
\<close>

section \<open>Requests, options and accounts\<close>

record generate_request =
  gr_prompt_ids :: "u32 list"
  gr_max_tokens :: nat
  gr_greedy :: bool
  gr_stop_ids :: "u32 list"
  gr_reuse :: bool
  gr_cancel :: "nat \<Rightarrow> bool"

record session_options =
  so_gpu_prefill_min :: nat
  so_gpu_prefill_speedup :: real
  so_replay :: nat
  so_progress_every :: nat
  so_rollback :: bool
  so_reheat :: bool

record generate_stats =
  gs_prompt_tokens :: nat
  gs_reused_tokens :: nat
  gs_prefilled_tokens :: nat
  gs_generated :: nat
  gs_prefill_mode :: string
  gs_finish :: string
  gs_rollback_dropped :: nat
  gs_replay_steps :: nat
  gs_prefill_counts :: "nat \<times> nat \<times> nat"
  gs_decode_counts :: "nat \<times> nat \<times> nat"
  gs_speculation :: spec_stats
  gs_decode_steps :: nat
  gs_sampled_steps :: nat
  gs_topk_fallbacks :: nat
  gs_topk_checked :: nat
  gs_topk_mismatches :: nat
  gs_nucleus_sum :: nat
  gs_context_after :: nat
  gs_reheat :: "nat \<times> nat \<times> nat"

definition new_stats :: generate_stats where
  "new_stats = \<lparr>gs_prompt_tokens = 0, gs_reused_tokens = 0, gs_prefilled_tokens = 0, gs_generated = 0, gs_prefill_mode = ''none'',
     gs_finish = ''length'', gs_rollback_dropped = 0, gs_replay_steps = 0, gs_prefill_counts = (0, 0, 0), gs_decode_counts = (0, 0, 0),
     gs_speculation = \<lparr>ss_cycles = 0, ss_tokens = 0, ss_accepted = 0, ss_verified = 0, ss_union_experts = 0, ss_miss_bytes = 0\<rparr>,
     gs_decode_steps = 0, gs_sampled_steps = 0, gs_topk_fallbacks = 0, gs_topk_checked = 0, gs_topk_mismatches = 0, gs_nucleus_sum = 0,
     gs_context_after = 0, gs_reheat = (0, 0, 0)\<rparr>"

record token_event =
  te_id :: u32
  te_text :: string
  te_nucleus :: nat
  te_fallback :: bool

record turn_state =
  tu_stats :: generate_stats
  tu_cur :: step_result
  tu_pending :: string
  tu_live :: bool
  tu_emitted_token :: u32
  tu_polls :: nat

text \<open>What else a turn asks of the engine.\<close>

record spec_step =
  sp_rows :: "step_result list"
  sp_cycle :: spec_cycle
  sp_counts :: "nat \<times> nat \<times> nat"

record turn_ops = engine_ops +
  eo_restore_baked :: "u32 list \<Rightarrow> engine \<Rightarrow> step_result option result \<times> engine"
  eo_gpu_prefill :: "u32 list \<Rightarrow> nat \<Rightarrow> engine \<Rightarrow> step_result result \<times> engine"
  eo_bake :: "step_result \<Rightarrow> engine \<Rightarrow> unit result \<times> engine"
  eo_speculative :: "u32 \<Rightarrow> nat \<Rightarrow> u32 list \<Rightarrow> engine \<Rightarrow> spec_step result \<times> engine"
  eo_reheat :: "engine \<Rightarrow> (nat \<times> nat \<times> nat) result \<times> engine"

abbreviation base_ops :: "turn_ops \<Rightarrow> engine_ops" where "base_ops ops \<equiv> engine_ops.truncate ops"

definition account_sample :: "step_result \<Rightarrow> generate_stats \<Rightarrow> generate_stats" where
  "account_sample r st =
     (if \<not> dr_sampled r then st
      else st\<lparr>gs_sampled_steps := gs_sampled_steps st + 1, gs_topk_fallbacks := gs_topk_fallbacks st + of_bool (dr_topk_fallback r),
              gs_topk_checked := gs_topk_checked st + of_bool (dr_topk_checked r),
              gs_topk_mismatches := gs_topk_mismatches st + of_bool (dr_topk_mismatch r),
              gs_nucleus_sum := gs_nucleus_sum st + dr_nucleus_size r\<rparr>)"

definition add_counts :: "nat \<times> nat \<times> nat \<Rightarrow> nat \<times> nat \<times> nat \<Rightarrow> nat \<times> nat \<times> nat" where
  "add_counts = (\<lambda>(a, b, c) (x, y, z). (a + x, b + y, c + z))"

section \<open>Preparing\<close>

text \<open>
  What to keep of the history when no snapshot of the prompt serves: to extend it, to roll it back to the
  common prefix, to forget it and run the whole prompt on the GPU, or to start over.
\<close>

datatype reuse_choice = GpuRecompute | Extend | Rollback nat | Reset | Cold

definition can_extend :: "generate_request \<Rightarrow> u32 list \<Rightarrow> bool" where
  "can_extend req hist \<longleftrightarrow>
     gr_reuse req \<and> hist \<noteq> [] \<and> common_context_prefix hist (gr_prompt_ids req) = length hist \<and> length hist < length (gr_prompt_ids req)"

definition rollback_point :: "generate_request \<Rightarrow> u32 list \<Rightarrow> nat" where
  "rollback_point req hist =
     (let m = min (common_context_prefix hist (gr_prompt_ids req)) (length (gr_prompt_ids req) - 1) in m - m mod 2)"

definition cold_wins :: "session_options \<Rightarrow> nat \<Rightarrow> nat \<Rightarrow> bool" where
  "cold_wins opt prompt cand \<longleftrightarrow>
     cand > 0 \<and> (so_gpu_prefill_min opt \<noteq> 0 \<and> prompt \<ge> so_gpu_prefill_min opt) \<and> so_gpu_prefill_speedup opt > 1
     \<and> real prompt / so_gpu_prefill_speedup opt < real (prompt - cand)"

definition choose_reuse :: "session_options \<Rightarrow> generate_request \<Rightarrow> engine \<Rightarrow> reuse_choice \<times> engine" where
  "choose_reuse opt req e =
     (let hist = en_history e; n = length (gr_prompt_ids req) in
      if can_extend req hist then (if cold_wins opt n (length hist) then GpuRecompute else Extend, e)
      else if hist = [] then (Cold, e)
      else let keep = rollback_point req hist in
        if \<not> (gr_reuse req \<and> so_rollback opt \<and> keep > 0) then (Reset, e)
        else case plan_rollback keep (so_replay opt) e of
          (plan, e) \<Rightarrow>
            if \<not> keep > plan_steps plan then (Reset, e)
            else (if cold_wins opt n keep then GpuRecompute else Rollback keep, e))"

text \<open>The choice carried out: how many tokens of the prompt are in the store, with the rollback's account.\<close>

definition apply_reuse :: "turn_ops \<Rightarrow> session_options \<Rightarrow> reuse_choice \<Rightarrow> engine \<Rightarrow> (nat \<times> nat \<times> nat) result \<times> engine" where
  "apply_reuse ops opt ch e =
     (case ch of
        GpuRecompute \<Rightarrow> (Inr (0, 0, 0), reset_context e)
      | Extend \<Rightarrow> (Inr (context_length e, 0, 0), e)
      | Rollback keep \<Rightarrow>
          (case rollback_context (base_ops ops) keep (so_replay opt) e of
             (Inl x, e) \<Rightarrow> (Inl x, e)
           | (Inr rb, e) \<Rightarrow> (Inr (keep, rt_dropped rb, plan_steps (rt_plan rb)), e))
      | Reset \<Rightarrow> (Inr (0, 0, 0), reset_context e)
      | Cold \<Rightarrow> (Inr (0, 0, 0), e))"

text \<open>The decode path of the prefill, a chunk at a time; \<open>None\<close> is a cancelled one.\<close>

function prefill_loop :: "engine_ops \<Rightarrow> (nat \<Rightarrow> bool) \<Rightarrow> nat \<Rightarrow> u32 list \<Rightarrow> nat \<Rightarrow> nat \<Rightarrow> nat \<times> nat \<times> nat \<Rightarrow> step_result \<Rightarrow> engine
    \<Rightarrow> step_result option result \<times> nat \<times> nat \<times> (nat \<times> nat \<times> nat) \<times> engine" where
  "prefill_loop ops cancel chunk ts done polls acc res e =
     (if ts = [] then (Inr (Some res), done, polls, acc, e)
      else if cancel polls then (Inr None, done, polls + 1, acc, e)
      else case feed ops (take (max 1 chunk) ts) e of
        (Inl x, cnt, e) \<Rightarrow> (Inl x, done, polls + 1, add_counts acc cnt, e)
      | (Inr r, cnt, e) \<Rightarrow>
          prefill_loop ops cancel chunk (drop (max 1 chunk) ts) (done + length (take (max 1 chunk) ts)) (polls + 1) (add_counts acc cnt) r e)"
  by pat_completeness auto
termination by (relation "measure (\<lambda>(ops, cancel, chunk, ts, _). length ts)") auto

declare prefill_loop.simps [simp del]

definition find_cached :: "turn_ops \<Rightarrow> session_options \<Rightarrow> generate_request \<Rightarrow> engine \<Rightarrow> step_result option result \<times> engine" where
  "find_cached ops opt req e =
     (if \<not> (gr_reuse req \<and> so_rollback opt) then (Inr None, e)
      else case reuse_prompt (gr_greedy req) (gr_prompt_ids req) e of
        (Inr None, e) \<Rightarrow>
          (case eo_restore_baked ops (gr_prompt_ids req) e of
             (Inr d, e) \<Rightarrow> (Inr d, e)
           | (Inl _, e) \<Rightarrow> (Inr None, reset_context e))
      | other \<Rightarrow> other)"

text \<open>The prefill of what is not in the store: the mode, and how many tokens were run.\<close>

definition run_prefill :: "turn_ops \<Rightarrow> session_options \<Rightarrow> generate_request \<Rightarrow> nat \<Rightarrow> step_result option \<Rightarrow> engine
    \<Rightarrow> step_result option result \<times> string \<times> nat \<times> nat \<times> (nat \<times> nat \<times> nat) \<times> engine" where
  "run_prefill ops opt req reuse cached e =
     (let suffix = drop reuse (gr_prompt_ids req);
          slow = (\<lambda>e. (case prefill_loop (base_ops ops) (gr_cancel req) (so_progress_every opt) suffix 0 0 (0, 0, 0) empty_result e of
                    (r, n, polls, acc, e) \<Rightarrow> (r, ''decode'', n, polls, acc, e)))
      in case cached of
        Some r \<Rightarrow> (Inr (Some r), ''snapshot'', length suffix, 0, (0, 0, 0), e)
      | None \<Rightarrow>
          if reuse = 0 \<and> so_gpu_prefill_min opt \<noteq> 0 \<and> length suffix \<ge> so_gpu_prefill_min opt
          then (case eo_gpu_prefill ops suffix (so_replay opt) e of
             (Inr r, e) \<Rightarrow> (Inr (Some r), ''gpu'', length suffix, 0, (0, 0, 0), e)
           | (Inl _, e) \<Rightarrow> slow (reset_context e))
          else slow e)"

definition prepare_reuse :: "turn_ops \<Rightarrow> session_options \<Rightarrow> generate_request \<Rightarrow> engine
    \<Rightarrow> (step_result option \<times> nat \<times> nat \<times> nat) result \<times> engine" where
  "prepare_reuse ops opt req e0 =
     (case find_cached ops opt req e0 of
        (Inl x, e) \<Rightarrow> (Inl x, e)
      | (Inr (Some r), e) \<Rightarrow>
          (let n = length (gr_prompt_ids req); before = context_length e0 in (Inr (Some r, n, if before > n then before - n else 0, 0), e))
      | (Inr None, e) \<Rightarrow>
          (case choose_reuse opt req e of (ch, e) \<Rightarrow>
            (case apply_reuse ops opt ch e of
               (Inl x, e) \<Rightarrow> (Inl x, e)
             | (Inr (n, dropped, steps), e) \<Rightarrow> (Inr (None, n, dropped, steps), e))))"

definition turn_prepare :: "turn_ops \<Rightarrow> tokenizer \<Rightarrow> session_options \<Rightarrow> generate_request \<Rightarrow> engine \<Rightarrow> turn_state result \<times> engine" where
  "turn_prepare ops tok opt req e0 =
     (let prompt = gr_prompt_ids req in
      if prompt = [] then (Inl InvalidArgument, e0)
      else if \<exists>d \<in> set prompt. unat d \<ge> tk_vocab_size tok then (Inl InvalidArgument, e0)
      else if length prompt \<ge> max_context e0 then (Inl ResourceExhausted, e0)
      else case prepare_reuse ops opt req e0 of
        (Inl x, e) \<Rightarrow> (Inl x, e)
      | (Inr (cached, reuse, dropped, steps), e) \<Rightarrow>
          (case run_prefill ops opt req reuse cached (e\<lparr>en_greedy := gr_greedy req\<rparr>) of
             (Inl x, mode, n, polls, acc, e) \<Rightarrow> (Inl x, e)
           | (Inr fst_step, mode, n, polls, acc, e) \<Rightarrow>
               let st = new_stats\<lparr>gs_prompt_tokens := length prompt, gs_reused_tokens := reuse, gs_rollback_dropped := dropped,
                          gs_replay_steps := steps, gs_prefill_mode := mode, gs_prefilled_tokens := n, gs_prefill_counts := acc\<rparr>
               in case fst_step of
                    None \<Rightarrow>
                      (Inr \<lparr>tu_stats = st\<lparr>gs_finish := ''cancel'', gs_context_after := context_length e\<rparr>, tu_cur = empty_result,
                            tu_pending = [], tu_live = False, tu_emitted_token = 0, tu_polls = polls\<rparr>, e)
                  | Some r \<Rightarrow>
                      let e = snd (retain_prompt_state (Some r) e);
                          e = (if cached = None then snd (eo_bake ops r e) else e)
                      in (Inr \<lparr>tu_stats = account_sample r st, tu_cur = r, tu_pending = [], tu_live = True, tu_emitted_token = 0,
                               tu_polls = polls\<rparr>, e)))"

section \<open>Generating\<close>

definition turn_emit :: "tokenizer \<Rightarrow> generate_request \<Rightarrow> bool \<Rightarrow> engine \<Rightarrow> turn_state \<Rightarrow> bool \<times> token_event \<times> turn_state" where
  "turn_emit tok req burst e ts =
     (let tok_id = dr_token (tu_cur ts); n = gs_generated (tu_stats ts) + 1;
          (text, pending) = stream_push tok True tok_id (tu_pending ts);
          stop = (tok_id \<in> set (gr_stop_ids req));
          (text, pending) = (if stop then case stream_flush pending of (tail, rest) \<Rightarrow> (text @ tail, rest) else (text, pending));
          ev = \<lparr>te_id = tok_id, te_text = text, te_nucleus = dr_nucleus_size (tu_cur ts), te_fallback = dr_topk_fallback (tu_cur ts)\<rparr>;
          ts = ts\<lparr>tu_stats := (tu_stats ts)\<lparr>gs_generated := n\<rparr>, tu_pending := pending, tu_emitted_token := tok_id\<rparr>;
          ended = (\<lambda>why ts. (False, ev, ts\<lparr>tu_stats := (tu_stats ts)\<lparr>gs_finish := why\<rparr>\<rparr>))
      in if stop then ended ''stop'' ts
         else if n \<ge> gr_max_tokens req then ended ''length'' ts
         else if \<not> burst \<and> context_length e + 1 \<ge> max_context e then ended ''context'' ts
         else if \<not> burst then
           let ts' = ts\<lparr>tu_polls := tu_polls ts + 1\<rparr> in
           if gr_cancel req (tu_polls ts) then ended ''cancel'' ts' else (True, ev, ts')
         else (True, ev, ts))"

definition turn_account :: "step_result \<Rightarrow> turn_state \<Rightarrow> turn_state" where
  "turn_account r ts =
     ts\<lparr>tu_cur := r, tu_stats := account_sample r ((tu_stats ts)\<lparr>gs_decode_counts :=
            add_counts (gs_decode_counts (tu_stats ts)) (dr_requests r, dr_hits r, dr_miss_bytes r),
          gs_decode_steps := gs_decode_steps (tu_stats ts) + 1\<rparr>)\<rparr>"

definition turn_finish :: "turn_ops \<Rightarrow> session_options \<Rightarrow> turn_state \<Rightarrow> engine \<Rightarrow> generate_stats \<times> engine" where
  "turn_finish ops opt ts e =
     (let st = (tu_stats ts)\<lparr>gs_context_after := context_length e\<rparr> in
      if so_reheat opt \<and> gs_generated st > 0
      then case eo_reheat ops e of (Inr h, e) \<Rightarrow> (st\<lparr>gs_reheat := h\<rparr>, e) | (Inl _, e) \<Rightarrow> (st, e)
      else (st, e))"

text \<open>The tokens of one verified batch, given out one after the other.\<close>

fun emit_rows :: "tokenizer \<Rightarrow> generate_request \<Rightarrow> engine \<Rightarrow> step_result list \<Rightarrow> turn_state \<Rightarrow> bool \<times> token_event list \<times> turn_state" where
  "emit_rows tok req e [] ts = (True, [], ts)"
| "emit_rows tok req e (r # rows) ts =
     (let ts = ts\<lparr>tu_cur := r, tu_stats := account_sample r ((tu_stats ts)\<lparr>gs_decode_steps := gs_decode_steps (tu_stats ts) + 1\<rparr>)\<rparr> in
      case turn_emit tok req (rows \<noteq> []) e ts of
        (False, ev, ts) \<Rightarrow> (False, [ev], ts)
      | (True, ev, ts) \<Rightarrow> (case emit_rows tok req e rows ts of (again, evs, ts) \<Rightarrow> (again, ev # evs, ts)))"

text \<open>
  The loop of \<^verbatim>\<open>generate\<close> with the steps it may still take; \<open>None\<close> when there were not enough. A result comes
  with the events that were given out.
\<close>

fun generate_loop :: "nat \<Rightarrow> turn_ops \<Rightarrow> tokenizer \<Rightarrow> generate_request \<Rightarrow> bool \<Rightarrow> bool \<Rightarrow> token_event list \<Rightarrow> turn_state \<Rightarrow> engine
    \<Rightarrow> (turn_state result \<times> token_event list \<times> engine) option" where
  "generate_loop fuel ops tok req spec False evs ts e = Some (Inr ts, evs, e)"
| "generate_loop 0 ops tok req spec True evs ts e = None"
| "generate_loop (Suc fuel) ops tok req spec True evs ts e =
     (if spec then
        (case eo_speculative ops (tu_emitted_token ts) (gr_max_tokens req - gs_generated (tu_stats ts)) (gr_stop_ids req) e of
           (Inl x, e) \<Rightarrow> Some (Inl x, evs, e)
         | (Inr sp, e) \<Rightarrow>
             let st = tu_stats ts;
                 ts = ts\<lparr>tu_stats := st\<lparr>gs_speculation := add_cycle (sp_cycle sp) (gs_speculation st),
                                       gs_decode_counts := add_counts (gs_decode_counts st) (sp_counts sp)\<rparr>\<rparr>
             in case emit_rows tok req e (sp_rows sp) ts of (again, new, ts) \<Rightarrow> generate_loop fuel ops tok req spec again (evs @ new) ts e)
      else
        (case feed (base_ops ops) [tu_emitted_token ts] e of
           (Inl x, _, e) \<Rightarrow> Some (Inl x, evs, e)
         | (Inr r, _, e) \<Rightarrow>
             (case turn_emit tok req False e (turn_account r ts) of
                (again, ev, ts) \<Rightarrow> generate_loop fuel ops tok req spec again (evs @ [ev]) ts e)))"

text \<open>\<open>policy\<close> is what the engine answered to the request's decode mode: whether to speculate, or an error.\<close>

definition generate :: "nat \<Rightarrow> turn_ops \<Rightarrow> tokenizer \<Rightarrow> session_options \<Rightarrow> generate_request \<Rightarrow> bool result \<Rightarrow> engine
    \<Rightarrow> (generate_stats result \<times> token_event list \<times> engine) option" where
  "generate fuel ops tok opt req policy e =
     (case policy of
        Inl x \<Rightarrow> Some (Inl x, [], e)
      | Inr spec \<Rightarrow>
          (case turn_prepare ops tok opt req e of
             (Inl x, e) \<Rightarrow> Some (Inl x, [], e)
           | (Inr ts, e) \<Rightarrow>
               if \<not> tu_live ts then Some (Inr (tu_stats ts), [], e)
               else case turn_emit tok req False e ts of
                 (again, ev, ts) \<Rightarrow>
                   (case generate_loop fuel ops tok req spec again [ev] ts e of
                      None \<Rightarrow> None
                    | Some (Inl x, evs, e) \<Rightarrow> Some (Inl x, evs, e)
                    | Some (Inr ts, evs, e) \<Rightarrow> (case turn_finish ops opt ts e of (st, e) \<Rightarrow> Some (Inr st, evs, e)))))"

end
