(* ===== verification/Session_Turn_Props.thy ===== *)
theory Session_Turn_Props
  imports Session_Turn "HOL-Library.Sublist"
begin

text \<open>
  What a turn leaves behind: the history is the prompt and every token given out but the last, whichever way
  the prompt got into the store; the reasons to stop; and that a turn ends.
\<close>

section \<open>What the engine's operations do to the history\<close>

definition turn_ops_ok :: "turn_ops \<Rightarrow> bool" where
  "turn_ops_ok ops \<longleftrightarrow>
     (\<forall>t q e r e'. eo_step ops t q e = (Inr r, e') \<longrightarrow> en_history e' = step_history t q (en_history e))
     \<and> (\<forall>ts e r e'. eo_restore_baked ops ts e = (Inr (Some r), e') \<longrightarrow> en_history e' = ts)
     \<and> (\<forall>ts e e'. eo_restore_baked ops ts e = (Inr None, e') \<longrightarrow> en_history e' = en_history e)
     \<and> (\<forall>ts m e r e'. eo_gpu_prefill ops ts m e = (Inr r, e') \<longrightarrow> en_history e' = ts)
     \<and> (\<forall>r e. en_history (snd (eo_bake ops r e)) = en_history e)
     \<and> (\<forall>lst n stops e sp e'. eo_speculative ops lst n stops e = (Inr sp, e') \<longrightarrow>
          sp_rows sp \<noteq> [] \<and> length (sp_rows sp) \<le> n \<and> (\<forall>r \<in> set (butlast (sp_rows sp)). dr_token r \<notin> set stops)
          \<and> en_history e' = en_history e @ lst # butlast (map dr_token (sp_rows sp)))
     \<and> (\<forall>e. en_history (snd (eo_reheat ops e)) = en_history e \<and> max_context (snd (eo_reheat ops e)) = max_context e)"

lemma turn_ops_okD:
  assumes "turn_ops_ok ops"
  shows "eo_step ops t q e = (Inr r, e') \<Longrightarrow> en_history e' = step_history t q (en_history e)"
    "eo_restore_baked ops ts e = (Inr (Some r), e') \<Longrightarrow> en_history e' = ts"
    "eo_restore_baked ops ts e = (Inr None, e') \<Longrightarrow> en_history e' = en_history e"
    "eo_gpu_prefill ops ts m e = (Inr r, e') \<Longrightarrow> en_history e' = ts"
    "en_history (snd (eo_bake ops r e)) = en_history e"
    "eo_speculative ops lst n stops e = (Inr sp, e') \<Longrightarrow> sp_rows sp \<noteq> [] \<and> length (sp_rows sp) \<le> n
       \<and> (\<forall>r \<in> set (butlast (sp_rows sp)). dr_token r \<notin> set stops) \<and> en_history e' = en_history e @ lst # butlast (map dr_token (sp_rows sp))"
    "en_history (snd (eo_reheat ops e)) = en_history e \<and> max_context (snd (eo_reheat ops e)) = max_context e"
  using assms by (simp_all add: turn_ops_ok_def)

lemma step_history_append: "step_history t (length h) h = h @ [t]"
  by (simp add: step_history_def)

lemma base_step [simp]: "eo_step (base_ops ops) = eo_step ops"
  by (simp add: engine_ops.truncate_def)

lemma feed_loop_history:
  assumes "\<And>t q e r e'. eo_step ops t q e = (Inr r, e') \<Longrightarrow> en_history e' = step_history t q (en_history e)"
    and "feed_loop ops ts (length (en_history e)) acc res e = (Inr r, cnt, e')"
  shows "en_history e' = en_history e @ ts"
  using assms(2)
proof (induction ts arbitrary: acc res e)
  case (Cons t ts)
  obtain a b c where acc: "acc = (a, b, c)" by (cases acc)
  obtain r1 e1 where s: "eo_step ops t (length (en_history e)) (e\<lparr>en_sample_step := (ts = [])\<rparr>) = (Inr r1, e1)"
    using Cons.prems by (auto simp: acc split: prod.splits sum.splits)
  have h: "en_history e1 = en_history e @ [t]" using assms(1) [OF s] by (simp add: step_history_append)
  show ?case using Cons.prems Cons.IH [of "e1\<lparr>en_sample_step := False\<rparr>"] s h by (simp add: acc)
qed simp

lemma feed_history:
  assumes "turn_ops_ok ops" "feed (base_ops ops) ts e = (Inr r, cnt, e')"
  shows "en_history e' = en_history e @ ts"
proof -
  have "feed_loop (base_ops ops) ts (length (en_history e)) (0, 0, 0) empty_result e = (Inr r, cnt, e')"
    using assms(2) by (auto simp: feed_def context_length_def split: if_splits)
  then show ?thesis by (rule feed_loop_history [rotated]) (use turn_ops_okD(1) [OF assms(1)] in simp)
qed

lemma prefill_loop_history:
  assumes "turn_ops_ok ops" "prefill_loop (base_ops ops) cancel chunk ts n polls acc res e = (Inr r, n', polls', acc', e')"
  shows "(r \<noteq> None \<longrightarrow> en_history e' = en_history e @ ts) \<and> (\<exists>k. en_history e' = en_history e @ take k ts)"
  using assms(2)
proof (induction "length ts" arbitrary: ts n polls acc res e rule: less_induct)
  case less
  show ?case
  proof (cases "ts = [] \<or> cancel polls")
    case True
    then have "e' = e" "ts = [] \<or> r = None" using less.prems by (auto simp: prefill_loop.simps [of _ _ _ ts] split: if_splits)
    then show ?thesis by (auto intro: exI [of _ 0])
  next
    case False
    let ?c = "max 1 chunk"
    obtain r1 cnt e1 where f: "feed (base_ops ops) (take ?c ts) e = (Inr r1, cnt, e1)"
      using less.prems False by (auto simp: prefill_loop.simps [of _ _ _ ts] split: prod.splits sum.splits)
    have h: "en_history e1 = en_history e @ take ?c ts" by (rule feed_history [OF assms(1) f])
    have "prefill_loop (base_ops ops) cancel chunk (drop ?c ts) (n + length (take ?c ts)) (polls + 1) (add_counts acc cnt) r1 e1 = (Inr r, n', polls', acc', e')"
      using less.prems False f by (simp add: prefill_loop.simps [of _ _ _ ts])
    from less.hyps [OF _ this] False
    have r: "r \<noteq> None \<longrightarrow> en_history e' = en_history e1 @ drop ?c ts" "\<exists>k. en_history e' = en_history e1 @ take k (drop ?c ts)" by auto
    then obtain k where "en_history e' = en_history e @ take (?c + k) ts" using h by (auto simp: take_add)
    then show ?thesis using r(1) h by auto
  qed
qed

text \<open>The cancel callback answers no to the first \<open>n\<close> questions; its first yes is among the first \<open>n\<close> answers.\<close>

definition unasked :: "generate_request \<Rightarrow> nat \<Rightarrow> bool" where
  "unasked req n \<longleftrightarrow> (\<forall>m < n. \<not> gr_cancel req m)"

definition first_yes :: "generate_request \<Rightarrow> nat \<Rightarrow> bool" where
  "first_yes req n \<longleftrightarrow> (\<exists>m < n. gr_cancel req m \<and> unasked req m)"

lemma unasked_0 [simp]: "unasked req 0"
  by (simp add: unasked_def)

lemma unasked_Suc: "unasked req (Suc n) \<longleftrightarrow> unasked req n \<and> \<not> gr_cancel req n"
  by (auto simp: unasked_def less_Suc_eq)

lemma prefill_loop_polls:
  assumes "prefill_loop ops (gr_cancel req) chunk ts n polls acc res e = (Inr r, n', polls', acc', e')" "unasked req polls"
    and "polls + length ts \<le> k"
  shows "if r = None then first_yes req k else unasked req polls' \<and> polls' \<le> k"
  using assms
proof (induction "length ts" arbitrary: ts n polls acc res e rule: less_induct)
  case less
  show ?case
  proof (cases "ts = [] \<or> gr_cancel req polls")
    case True
    have "ts \<noteq> [] \<Longrightarrow> polls < k" using less.prems(3) by (cases ts) simp_all
    with True show ?thesis using less.prems by (auto simp: prefill_loop.simps [of _ _ _ ts] first_yes_def split: if_splits)
  next
    case False
    let ?c = "max 1 chunk"
    obtain r1 cnt e1 where f: "feed ops (take ?c ts) e = (Inr r1, cnt, e1)"
      using less.prems False by (auto simp: prefill_loop.simps [of _ _ _ ts] split: prod.splits sum.splits)
    have next_chunk: "prefill_loop ops (gr_cancel req) chunk (drop ?c ts) (n + length (take ?c ts)) (polls + 1) (add_counts acc cnt) r1 e1 = (Inr r, n', polls', acc', e')"
      using less.prems False f by (simp add: prefill_loop.simps [of _ _ _ ts])
    have no: "unasked req (polls + 1)" using less.prems(2) False by (auto simp: unasked_def less_Suc_eq)
    have "length (drop ?c ts) < length ts" "polls + 1 + length (drop ?c ts) \<le> k" using False less.prems(3) by (cases ts; simp)+
    then show ?thesis by (intro less.hyps [OF _ next_chunk no])
  qed
qed

lemma run_prefill_polls:
  assumes "run_prefill ops opt req n cached e = (Inr r, mode, k, polls, acc, e')"
  shows "if r = None then first_yes req (length (gr_prompt_ids req)) else unasked req polls \<and> polls \<le> length (gr_prompt_ids req)"
  using assms
  by (auto simp: run_prefill_def Let_def dest: prefill_loop_polls [OF _ unasked_0, where k = "length (gr_prompt_ids req)"]
      split: option.splits if_splits prod.splits sum.splits)

section \<open>Preparing\<close>

lemma common_context_prefix_eq:
  "n \<le> common_context_prefix h p \<Longrightarrow> take n h = take n p" "common_context_prefix h p \<le> length h" "common_context_prefix h p \<le> length p"
proof -
  have "n \<le> common_context_prefix h p \<longrightarrow> take n h = take n p" "common_context_prefix h p \<le> length h \<and> common_context_prefix h p \<le> length p"
    by (induction h p arbitrary: n rule: list_induct2', auto simp: common_context_prefix_def take_Cons' split: if_splits)
  then show "n \<le> common_context_prefix h p \<Longrightarrow> take n h = take n p" "common_context_prefix h p \<le> length h" "common_context_prefix h p \<le> length p"
    by auto
qed

lemma plan_ring_end: "rp_end (plan_ring st k m) \<le> k"
proof (cases "missing_positions st k = []")
  case False
  then have "last (missing_positions st k) < k" using last_in_set missing_positions_range by blast
  then show ?thesis using False by (simp add: plan_ring_def no_plan_def Let_def)
qed (simp add: plan_ring_def no_plan_def Let_def)

lemma replay_loop_history:
  assumes "\<And>t q e r e'. eo_step ops t q e = (Inr r, e') \<Longrightarrow> en_history e' = step_history t q (en_history e)"
    and "\<forall>q \<in> set qs. q < length (en_history e)" "replay_loop ops (en_history e) b qs e = (Inr u, e')"
  shows "en_history e' = en_history e"
  using assms(2,3)
proof (induction qs arbitrary: e)
  case (Cons q qs)
  obtain r e1 st where s: "eo_step ops (en_history e ! q) q e = (Inr r, e1)" "restore_rows b q (en_kvs e1) = (Inr (), st)"
    using Cons.prems(2) by (auto split: prod.splits sum.splits)
  have h: "en_history e1 = en_history e" using assms(1) [OF s(1)] Cons.prems(1) by (simp add: step_history_def)
  have "replay_loop ops (en_history e) b qs (e1\<lparr>en_kvs := st\<rparr>) = (Inr u, e')" using Cons.prems(2) s by simp
  then show ?case using Cons.IH [of "e1\<lparr>en_kvs := st\<rparr>"] Cons.prems(1) h by simp
qed simp

lemma rollback_context_history:
  assumes "turn_ops_ok ops" "rollback_context (base_ops ops) keep m e = (Inr s, e')"
  shows "keep \<le> length (en_history e) \<and> en_history e' = take keep (en_history e)"
proof -
  have k: "keep \<le> context_length e" using assms(2) by (auto simp: rollback_context_def Let_def split: if_splits)
  show ?thesis
  proof (cases "keep = context_length e")
    case True
    then show ?thesis using assms(2) by (auto simp: rollback_context_def context_length_def Let_def split: if_splits)
  next
    case False
    define e1 where "e1 = e\<lparr>en_kvs := resolve_ring (context_length e) (en_kvs e)\<rparr>"
    obtain e2 s2 where e2: "set_context_tokens (take keep (en_history e)) e1 = (Inr (), e2)"
      and rr: "run_replay (base_ops ops) (plan_ring (en_kvs e1) keep m) e2 = (Inr s2, e')"
      using assms(2) False k unfolding rollback_context_def plan_rollback_def e1_def Let_def by (auto split: if_splits prod.splits sum.splits)
    have h: "en_history e2 = take keep (en_history e)" by (rule set_context_tokens_ok(1) [OF e2])
    have "en_history e' = en_history e2"
    proof (cases "plan_steps (plan_ring (en_kvs e1) keep m) = 0")
      case True
      then show ?thesis using rr by (simp add: run_replay_def)
    next
      case False
      define p where "p = plan_ring (en_kvs e1) keep m"
      define e3 where "e3 = e2\<lparr>en_kvs := set_window_floor (rp_first p) (en_kvs e2)\<rparr>"
      have e3: "en_history e3 = en_history e2" by (simp add: e3_def)
      obtain b e4 where l: "replay_loop (base_ops ops) (en_history e3) b [rp_first p..<rp_end p] e3 = (Inr (), e4)"
        and e4: "en_history e' = en_history e4"
        using rr False unfolding run_replay_def p_def [symmetric] e3 e3_def [symmetric] by (auto split: sum.splits prod.splits)
      have "rp_end p \<le> length (en_history e3)" using plan_ring_end [of "en_kvs e1" keep m] h k by (simp add: p_def e3 context_length_def)
      then have in_range: "\<forall>q \<in> set [rp_first p..<rp_end p]. q < length (en_history e3)" by auto
      have "en_history e4 = en_history e3"
        by (rule replay_loop_history [OF _ in_range l]) (use turn_ops_okD(1) [OF assms(1)] in simp)
      moreover note e3 e4
      ultimately show ?thesis by simp
    qed
    then show ?thesis using h k by (simp add: context_length_def)
  qed
qed

lemma choose_reuse_history:
  assumes "choose_reuse opt req e = (ch, e')"
  shows "en_history e' = en_history e" "ch = Extend \<Longrightarrow> en_history e = take (length (en_history e)) (gr_prompt_ids req)"
    "ch = Rollback keep \<Longrightarrow> take keep (en_history e) = take keep (gr_prompt_ids req)" "ch = Cold \<Longrightarrow> en_history e = []"
proof -
  let ?h = "en_history e" and ?p = "gr_prompt_ids req"
  show "en_history e' = ?h" using assms by (auto simp: choose_reuse_def plan_rollback_def Let_def split: if_splits)
  show "?h = take (length ?h) ?p" if "ch = Extend"
  proof -
    have "can_extend req ?h" using assms that by (auto simp: choose_reuse_def plan_rollback_def Let_def split: if_splits)
    then show ?thesis using common_context_prefix_eq(1) [of "length ?h" ?h ?p] by (simp add: can_extend_def)
  qed
  show "take keep ?h = take keep ?p" if "ch = Rollback keep"
  proof -
    have "keep = rollback_point req ?h" using assms that by (auto simp: choose_reuse_def plan_rollback_def Let_def split: if_splits)
    then have "keep \<le> min (common_context_prefix ?h ?p) (length ?p - 1)" unfolding rollback_point_def Let_def by (simp only: diff_le_self)
    then have "keep \<le> common_context_prefix ?h ?p" by simp
    then show ?thesis by (rule common_context_prefix_eq(1))
  qed
  show "?h = []" if "ch = Cold" using assms that by (auto simp: choose_reuse_def plan_rollback_def Let_def split: if_splits)
qed

lemma reuse_prompt_history:
  assumes "reuse_prompt greedy ts e = (Inr d, e')"
  shows "en_history e' = (if d = None then en_history e else ts)"
  using assms set_context_tokens_ok(1)
  by (auto simp: reuse_prompt_def Let_def split: option.splits if_splits prod.splits sum.splits)

lemma find_cached_history:
  assumes "turn_ops_ok ops" "find_cached ops opt req e = (Inr d, e')" "d \<noteq> None"
  shows "en_history e' = gr_prompt_ids req"
proof -
  obtain d1 e1 where r: "reuse_prompt (gr_greedy req) (gr_prompt_ids req) e = (Inr d1, e1)"
    using assms(2,3) by (auto simp: find_cached_def split: if_splits prod.splits sum.splits)
  show ?thesis
  proof (cases d1)
    case (Some x)
    then show ?thesis using assms(2,3) r reuse_prompt_history [OF r] by (auto simp: find_cached_def split: if_splits)
  next
    case None
    then have "eo_restore_baked ops (gr_prompt_ids req) e1 = (Inr d, e')"
      using assms(2,3) r by (auto simp: find_cached_def split: if_splits prod.splits sum.splits)
    then show ?thesis using turn_ops_okD(2) [OF assms(1)] assms(3) by auto
  qed
qed

lemma reset_context_history [simp]: "en_history (reset_context e) = []"
  by (simp add: reset_context_def)

lemma apply_reuse_history:
  assumes "turn_ops_ok ops" "choose_reuse opt req e = (ch, e1)" "apply_reuse ops opt ch e1 = (Inr (n, d, s), e')"
  shows "en_history e' = take n (gr_prompt_ids req)"
proof (cases ch)
  case Extend
  then show ?thesis using assms(3) choose_reuse_history [OF assms(2)] by (simp add: apply_reuse_def context_length_def)
next
  case (Rollback keep)
  then obtain rb where rb: "rollback_context (base_ops ops) keep (so_replay opt) e1 = (Inr rb, e')" "n = keep"
    using assms(3) by (auto simp: apply_reuse_def split: prod.splits sum.splits)
  then show ?thesis using rollback_context_history [OF assms(1) rb(1)] choose_reuse_history [OF assms(2)] Rollback by simp
next
  case Cold
  then show ?thesis using assms(3) choose_reuse_history [OF assms(2)] by (simp add: apply_reuse_def)
qed (use assms(3) in \<open>auto simp: apply_reuse_def\<close>)

lemma prepare_reuse_history:
  assumes "turn_ops_ok ops" "prepare_reuse ops opt req e = (Inr (cached, n, d, s), e')"
  shows "en_history e' = take n (gr_prompt_ids req)" "cached \<noteq> None \<Longrightarrow> n = length (gr_prompt_ids req)"
proof -
  obtain c e1 where f: "find_cached ops opt req e = (Inr c, e1)" using assms(2) by (auto simp: prepare_reuse_def split: prod.splits sum.splits)
  have "en_history e' = take n (gr_prompt_ids req) \<and> (cached \<noteq> None \<longrightarrow> n = length (gr_prompt_ids req))"
  proof (cases c)
    case None
    obtain ch e2 where ch: "choose_reuse opt req e1 = (ch, e2)" by (cases "choose_reuse opt req e1")
    have "apply_reuse ops opt ch e2 = (Inr (n, d, s), e')" "cached = None"
      using assms(2) f None ch by (auto simp: prepare_reuse_def split: prod.splits sum.splits)
    then show ?thesis using apply_reuse_history [OF assms(1) ch] by simp
  next
    case (Some r)
    then show ?thesis using assms(2) f find_cached_history [OF assms(1) f] by (auto simp: prepare_reuse_def Let_def)
  qed
  then show "en_history e' = take n (gr_prompt_ids req)" "cached \<noteq> None \<Longrightarrow> n = length (gr_prompt_ids req)" by auto
qed

lemma run_prefill_history:
  assumes "turn_ops_ok ops" "run_prefill ops opt req n cached e = (Inr r, mode, k, polls, acc, e')"
    and "en_history e = take n (gr_prompt_ids req)" "cached \<noteq> None \<Longrightarrow> n = length (gr_prompt_ids req)"
  shows "(r \<noteq> None \<longrightarrow> en_history e' = gr_prompt_ids req) \<and> prefix (en_history e') (gr_prompt_ids req)"
proof -
  let ?p = "gr_prompt_ids req"
  have slow: "(r \<noteq> None \<longrightarrow> en_history e' = ?p) \<and> prefix (en_history e') ?p"
    if l: "prefill_loop (base_ops ops) (gr_cancel req) (so_progress_every opt) (drop n ?p) 0 0 (0, 0, 0) empty_result e1 = (Inr r, k, polls, acc, e')"
      and h: "en_history e1 = take n ?p" for e1
  proof -
    note pl = prefill_loop_history [OF assms(1) l]
    obtain j where "en_history e' = take n ?p @ take j (drop n ?p)" using pl h by auto
    then have "en_history e' = take (n + j) ?p" by (simp add: take_add)
    then show ?thesis using pl h take_is_prefix by auto
  qed
  show ?thesis
  proof (cases cached)
    case (Some x)
    then show ?thesis using assms(2-4) by (auto simp: run_prefill_def take_is_prefix Let_def)
  next
    case None
    show ?thesis
    proof (cases "n = 0 \<and> so_gpu_prefill_min opt \<noteq> 0 \<and> length (drop n ?p) \<ge> so_gpu_prefill_min opt")
      case True
      obtain g e1 where g: "eo_gpu_prefill ops ?p (so_replay opt) e = (g, e1)" by (cases "eo_gpu_prefill ops ?p (so_replay opt) e")
      show ?thesis
      proof (cases g)
        case (Inr y)
        then show ?thesis using assms(2) None True g turn_ops_okD(4) [OF assms(1)] by (auto simp: run_prefill_def Let_def)
      next
        case (Inl x)
        then have "prefill_loop (base_ops ops) (gr_cancel req) (so_progress_every opt) (drop n ?p) 0 0 (0, 0, 0) empty_result (reset_context e1) = (Inr r, k, polls, acc, e')"
          using assms(2) None True g by (simp add: run_prefill_def Let_def split: prod.splits)
        then show ?thesis using slow True by simp
      qed
    next
      case False
      then have "prefill_loop (base_ops ops) (gr_cancel req) (so_progress_every opt) (drop n ?p) 0 0 (0, 0, 0) empty_result e = (Inr r, k, polls, acc, e')"
        using assms(2) None by (auto simp: run_prefill_def Let_def split: prod.splits)
      then show ?thesis using slow assms(3) by blast
    qed
  qed
qed

lemma retain_prompt_state_history: "en_history (snd (retain_prompt_state r e)) = en_history e"
  by (auto simp: retain_prompt_state_def Let_def split: option.splits sum.splits prod.splits)

lemma turn_prepare_history:
  assumes "turn_ops_ok ops" "turn_prepare ops tok opt req e = (Inr ts, e')"
  shows "gs_generated (tu_stats ts) = 0"
    "tu_live ts \<Longrightarrow> en_history e' = gr_prompt_ids req \<and> unasked req (tu_polls ts) \<and> tu_polls ts \<le> length (gr_prompt_ids req)"
    "\<not> tu_live ts \<Longrightarrow> prefix (en_history e') (gr_prompt_ids req) \<and> gs_finish (tu_stats ts) = ''cancel'' \<and> gs_context_after (tu_stats ts) = context_length e' \<and> first_yes req (length (gr_prompt_ids req))"
proof -
  obtain cached n d s e1 where p: "prepare_reuse ops opt req e = (Inr (cached, n, d, s), e1)"
    using assms(2) unfolding turn_prepare_def Let_def by (auto split: if_splits prod.splits sum.splits)
  obtain r mode k polls acc e2 where f: "run_prefill ops opt req n cached (e1\<lparr>en_greedy := gr_greedy req\<rparr>) = (Inr r, mode, k, polls, acc, e2)"
    using assms(2) p unfolding turn_prepare_def Let_def by (auto split: if_splits prod.splits sum.splits)
  note h = prepare_reuse_history [OF assms(1) p]
  have hf: "(r \<noteq> None \<longrightarrow> en_history e2 = gr_prompt_ids req) \<and> prefix (en_history e2) (gr_prompt_ids req)"
    by (rule run_prefill_history [OF assms(1) f]) (use h in simp_all)
  note pl = run_prefill_polls [OF f]
  have "gs_generated (tu_stats ts) = 0 \<and> (tu_live ts \<longrightarrow> en_history e' = gr_prompt_ids req \<and> unasked req (tu_polls ts) \<and> tu_polls ts \<le> length (gr_prompt_ids req))
     \<and> (\<not> tu_live ts \<longrightarrow> prefix (en_history e') (gr_prompt_ids req) \<and> gs_finish (tu_stats ts) = ''cancel'' \<and> gs_context_after (tu_stats ts) = context_length e' \<and> first_yes req (length (gr_prompt_ids req)))"
  proof (cases r)
    case None
    then show ?thesis using assms(2) p f hf pl by (auto simp: turn_prepare_def new_stats_def Let_def split: if_splits)
  next
    case (Some x)
    then show ?thesis using assms(2) p f hf pl retain_prompt_state_history turn_ops_okD(5) [OF assms(1)]
      by (auto simp: turn_prepare_def new_stats_def account_sample_def Let_def split: if_splits)
  qed
  then show "gs_generated (tu_stats ts) = 0" "tu_live ts \<Longrightarrow> en_history e' = gr_prompt_ids req \<and> unasked req (tu_polls ts) \<and> tu_polls ts \<le> length (gr_prompt_ids req)"
    "\<not> tu_live ts \<Longrightarrow> prefix (en_history e') (gr_prompt_ids req) \<and> gs_finish (tu_stats ts) = ''cancel'' \<and> gs_context_after (tu_stats ts) = context_length e' \<and> first_yes req (length (gr_prompt_ids req))"
    by auto
qed

section \<open>Generating\<close>

text \<open>Why a turn ended after its \<open>n\<close>-th token.\<close>

definition ended :: "generate_request \<Rightarrow> u32 \<Rightarrow> nat \<Rightarrow> engine \<Rightarrow> string \<Rightarrow> bool" where
  "ended req t n e why \<longleftrightarrow>
     (if t \<in> set (gr_stop_ids req) then why = ''stop''
      else if n \<ge> gr_max_tokens req then why = ''length''
      else if context_length e + 1 \<ge> max_context e then why = ''context''
      else why = ''cancel'' \<and> first_yes req (length (gr_prompt_ids req) + n))"

lemma turn_emit_facts:
  assumes "turn_emit tok req burst e ts = (again, ev, ts')" "unasked req (tu_polls ts)" "tu_polls ts \<le> length (gr_prompt_ids req) + gs_generated (tu_stats ts)"
  shows "te_id ev = dr_token (tu_cur ts)" "tu_emitted_token ts' = dr_token (tu_cur ts)" "gs_generated (tu_stats ts') = gs_generated (tu_stats ts) + 1"
    "again \<Longrightarrow> te_id ev \<notin> set (gr_stop_ids req) \<and> gs_generated (tu_stats ts') < gr_max_tokens req"
    "\<not> again \<Longrightarrow> ended req (te_id ev) (gs_generated (tu_stats ts')) e (gs_finish (tu_stats ts'))"
    "te_id ev \<notin> set (gr_stop_ids req) \<Longrightarrow> gs_generated (tu_stats ts') < gr_max_tokens req \<Longrightarrow> burst \<Longrightarrow> again"
    "again \<Longrightarrow> unasked req (tu_polls ts') \<and> tu_polls ts' \<le> length (gr_prompt_ids req) + gs_generated (tu_stats ts')"
    "again \<Longrightarrow> \<not> burst \<Longrightarrow> tu_polls ts' = tu_polls ts + 1"
proof -
  have "gr_cancel req (tu_polls ts) \<Longrightarrow> first_yes req (Suc (length (gr_prompt_ids req) + gs_generated (tu_stats ts)))"
    using assms(2,3) by (auto simp: first_yes_def less_Suc_eq_le)
  then show "te_id ev = dr_token (tu_cur ts)" "tu_emitted_token ts' = dr_token (tu_cur ts)" "gs_generated (tu_stats ts') = gs_generated (tu_stats ts) + 1"
    "again \<Longrightarrow> te_id ev \<notin> set (gr_stop_ids req) \<and> gs_generated (tu_stats ts') < gr_max_tokens req"
    "\<not> again \<Longrightarrow> ended req (te_id ev) (gs_generated (tu_stats ts')) e (gs_finish (tu_stats ts'))"
    "te_id ev \<notin> set (gr_stop_ids req) \<Longrightarrow> gs_generated (tu_stats ts') < gr_max_tokens req \<Longrightarrow> burst \<Longrightarrow> again"
    "again \<Longrightarrow> unasked req (tu_polls ts') \<and> tu_polls ts' \<le> length (gr_prompt_ids req) + gs_generated (tu_stats ts')"
    "again \<Longrightarrow> \<not> burst \<Longrightarrow> tu_polls ts' = tu_polls ts + 1"
    using assms by (auto simp: turn_emit_def ended_def unasked_Suc Let_def split: if_splits prod.splits)
qed

lemma account_sample_generated [simp]: "gs_generated (account_sample r st) = gs_generated st"
  by (simp add: account_sample_def)

lemma emit_rows_facts:
  assumes "emit_rows tok req e rows ts = (again, evs, ts')" "unasked req (tu_polls ts)" "rows \<noteq> []"
      "tu_polls ts \<le> length (gr_prompt_ids req) + gs_generated (tu_stats ts)" "gs_generated (tu_stats ts) + length rows \<le> gr_max_tokens req"
    and "\<forall>r \<in> set (butlast rows). dr_token r \<notin> set (gr_stop_ids req)"
  shows "map te_id evs = map dr_token rows \<and> tu_emitted_token ts' = last (map dr_token rows)
    \<and> gs_generated (tu_stats ts') = gs_generated (tu_stats ts) + length rows
    \<and> (again \<longrightarrow> last (map dr_token rows) \<notin> set (gr_stop_ids req) \<and> gs_generated (tu_stats ts') < gr_max_tokens req \<and> unasked req (tu_polls ts')
         \<and> tu_polls ts' \<le> length (gr_prompt_ids req) + gs_generated (tu_stats ts'))
    \<and> (\<not> again \<longrightarrow> ended req (last (map dr_token rows)) (gs_generated (tu_stats ts')) e (gs_finish (tu_stats ts')))"
  using assms
proof (induction rows arbitrary: ts again evs ts')
  case (Cons r rows)
  define ts1 where "ts1 = ts\<lparr>tu_cur := r, tu_stats := account_sample r ((tu_stats ts)\<lparr>gs_decode_steps := gs_decode_steps (tu_stats ts) + 1\<rparr>)\<rparr>"
  have g1: "gs_generated (tu_stats ts1) = gs_generated (tu_stats ts)" "dr_token (tu_cur ts1) = dr_token r" "tu_polls ts1 = tu_polls ts" by (simp_all add: ts1_def)
  obtain a ev ts2 where em: "turn_emit tok req (rows \<noteq> []) e ts1 = (a, ev, ts2)" by (cases "turn_emit tok req (rows \<noteq> []) e ts1")
  note f = turn_emit_facts [OF em, unfolded g1, OF Cons.prems(2,4)]
  note run = Cons.prems(1) [unfolded emit_rows.simps(2) Let_def, folded ts1_def, unfolded em, simplified]
  show ?case
  proof (cases "rows = []")
    case True
    then have "again = a" "evs = [ev]" "ts' = ts2"
      using run by (auto split: bool.splits)
    then show ?thesis using f True by auto
  next
    case False
    have "dr_token r \<notin> set (gr_stop_ids req)" using Cons.prems(6) False by simp
    moreover have "Suc (gs_generated (tu_stats ts)) < gr_max_tokens req" using False Cons.prems(5) by (cases rows) simp_all
    ultimately have a: a using f(1,3,6) False by simp
    obtain again1 evs1 ts3 where rec: "emit_rows tok req e rows ts2 = (again1, evs1, ts3)" by (cases "emit_rows tok req e rows ts2")
    have "again = again1" "evs = ev # evs1" "ts' = ts3"
      using run a rec by auto
    moreover have "\<forall>r \<in> set (butlast rows). dr_token r \<notin> set (gr_stop_ids req)" using Cons.prems(6) False by simp
    ultimately show ?thesis using Cons.IH [OF rec f(7) [OF a, THEN conjunct1] False f(7) [OF a, THEN conjunct2]] f(1,3) False Cons.prems(5) by auto
  qed
qed simp

text \<open>The state of the loop: the history is the prompt and every token given out but the last.\<close>

definition turn_inv :: "generate_request \<Rightarrow> bool \<Rightarrow> bool \<Rightarrow> token_event list \<Rightarrow> turn_state \<Rightarrow> engine \<Rightarrow> bool" where
  "turn_inv req spec again evs ts e \<longleftrightarrow>
     evs \<noteq> [] \<and> en_history e = gr_prompt_ids req @ butlast (map te_id evs) \<and> gs_generated (tu_stats ts) = length evs
     \<and> tu_emitted_token ts = te_id (last evs) \<and> length evs \<le> max 1 (gr_max_tokens req)
     \<and> (\<forall>ev \<in> set (butlast evs). te_id ev \<notin> set (gr_stop_ids req))
     \<and> (again \<longrightarrow> te_id (last evs) \<notin> set (gr_stop_ids req) \<and> length evs < gr_max_tokens req \<and> unasked req (tu_polls ts)
          \<and> tu_polls ts \<le> length (gr_prompt_ids req) + length evs \<and> (\<not> spec \<longrightarrow> length evs \<le> tu_polls ts))
     \<and> (\<not> spec \<longrightarrow> unasked req (length evs - 1))
     \<and> (\<not> again \<longrightarrow> ended req (te_id (last evs)) (length evs) e (gs_finish (tu_stats ts)))"

lemma unasked_le: "unasked req n \<Longrightarrow> m \<le> n \<Longrightarrow> unasked req m"
  by (simp add: unasked_def)

lemma turn_account_facts: "gs_generated (tu_stats (turn_account r ts)) = gs_generated (tu_stats ts)" "tu_cur (turn_account r ts) = r"
    "tu_polls (turn_account r ts) = tu_polls ts"
  by (simp_all add: turn_account_def)

text \<open>One round of the loop: it fails, or goes on with at least one more event.\<close>

lemma generate_step:
  assumes "turn_ops_ok ops" "turn_inv req spec True evs ts e"
  shows "(\<exists>x e1. generate_loop (Suc fuel) ops tok req spec True evs ts e = Some (Inl x, evs, e1))
    \<or> (\<exists>a evs1 ts1 e1. generate_loop (Suc fuel) ops tok req spec True evs ts e = generate_loop fuel ops tok req spec a evs1 ts1 e1
         \<and> turn_inv req spec a evs1 ts1 e1 \<and> length evs < length evs1)"
proof -
  have inv: "evs \<noteq> []" "en_history e = gr_prompt_ids req @ butlast (map te_id evs)" "gs_generated (tu_stats ts) = length evs"
      "tu_emitted_token ts = te_id (last evs)" "\<forall>ev \<in> set (butlast evs @ [last evs]). te_id ev \<notin> set (gr_stop_ids req)" "length evs < gr_max_tokens req"
      "unasked req (tu_polls ts)" "tu_polls ts \<le> length (gr_prompt_ids req) + length evs" "\<not> spec \<longrightarrow> length evs \<le> tu_polls ts"
    using assms(2) unfolding turn_inv_def by (simp_all del: append_butlast_last_id)
  then have stops: "\<forall>ev \<in> set evs. te_id ev \<notin> set (gr_stop_ids req)" by simp
  have ids: "butlast (map te_id evs) @ [tu_emitted_token ts] = map te_id evs"
    using inv(1,4) append_butlast_last_id [of "map te_id evs"] by (simp add: last_map)
  show ?thesis
  proof (cases spec)
    case True
    obtain o1 e1 where sp: "eo_speculative ops (tu_emitted_token ts) (gr_max_tokens req - gs_generated (tu_stats ts)) (gr_stop_ids req) e = (o1, e1)"
      by (cases "eo_speculative ops (tu_emitted_token ts) (gr_max_tokens req - gs_generated (tu_stats ts)) (gr_stop_ids req) e")
    show ?thesis
    proof (cases o1)
      case (Inl x)
      then show ?thesis using True sp by simp
    next
      case (Inr sp1)
      define ts1 where "ts1 = ts\<lparr>tu_stats := (tu_stats ts)\<lparr>gs_speculation := add_cycle (sp_cycle sp1) (gs_speculation (tu_stats ts)),
          gs_decode_counts := add_counts (gs_decode_counts (tu_stats ts)) (sp_counts sp1)\<rparr>\<rparr>"
      have g1: "gs_generated (tu_stats ts1) = length evs" "unasked req (tu_polls ts1)"
        "tu_polls ts1 \<le> length (gr_prompt_ids req) + gs_generated (tu_stats ts1)" using inv(3,7,8) by (simp_all add: ts1_def)
      obtain a new ts2 where em: "emit_rows tok req e1 (sp_rows sp1) ts1 = (a, new, ts2)" by (cases "emit_rows tok req e1 (sp_rows sp1) ts1")
      have l: "generate_loop (Suc fuel) ops tok req spec True evs ts e = generate_loop fuel ops tok req spec a (evs @ new) ts2 e1"
        using True sp Inr em by (simp add: ts1_def [symmetric])
      have o: "sp_rows sp1 \<noteq> []" "length (sp_rows sp1) \<le> gr_max_tokens req - length evs" "\<forall>r \<in> set (butlast (sp_rows sp1)). dr_token r \<notin> set (gr_stop_ids req)"
          "en_history e1 = en_history e @ tu_emitted_token ts # butlast (map dr_token (sp_rows sp1))"
        using turn_ops_okD(6) [OF assms(1) sp [unfolded Inr]] inv(3) by auto
      have "gs_generated (tu_stats ts1) + length (sp_rows sp1) \<le> gr_max_tokens req" using o(2) g1(1) inv(6) by linarith
      then have f: "map te_id new = map dr_token (sp_rows sp1)" "tu_emitted_token ts2 = last (map dr_token (sp_rows sp1))"
          "gs_generated (tu_stats ts2) = length evs + length (sp_rows sp1)"
          "a \<longrightarrow> last (map dr_token (sp_rows sp1)) \<notin> set (gr_stop_ids req) \<and> gs_generated (tu_stats ts2) < gr_max_tokens req \<and> unasked req (tu_polls ts2)
             \<and> tu_polls ts2 \<le> length (gr_prompt_ids req) + gs_generated (tu_stats ts2)"
          "\<not> a \<longrightarrow> ended req (last (map dr_token (sp_rows sp1))) (gs_generated (tu_stats ts2)) e1 (gs_finish (tu_stats ts2))"
        using emit_rows_facts [OF em g1(2) o(1) g1(3) _ o(3)] g1(1) by auto
      have ne: "new \<noteq> []" "length new = length (sp_rows sp1)" using f(1) o(1) by (auto dest: map_eq_imp_length_eq)
      have "en_history e1 = gr_prompt_ids req @ butlast (map te_id (evs @ new))"
        using o(1,4) inv(2) ids f(1) ne by (simp add: butlast_append)
      moreover have "te_id (last new) = last (map dr_token (sp_rows sp1))" using f(1) ne by (metis last_map)
      moreover have "\<forall>ev \<in> set (butlast new). te_id ev \<notin> set (gr_stop_ids req)"
      proof
        fix ev assume "ev \<in> set (butlast new)"
        then have "te_id ev \<in> set (butlast (map te_id new))" by (simp add: map_butlast [symmetric])
        then show "te_id ev \<notin> set (gr_stop_ids req)" using o(3) unfolding f(1) map_butlast [symmetric] by auto
      qed
      ultimately have "turn_inv req spec a (evs @ new) ts2 e1"
        using f ne inv(1,6) stops o(2) g1(1) True unfolding turn_inv_def by (auto simp: butlast_append last_map)
      moreover have "length evs < length (evs @ new)" using ne(1) by simp
      ultimately show ?thesis using l by blast
    qed
  next
    case False
    obtain o1 cnt e1 where fd: "feed (base_ops ops) [tu_emitted_token ts] e = (o1, cnt, e1)" by (cases "feed (base_ops ops) [tu_emitted_token ts] e")
    show ?thesis
    proof (cases o1)
      case (Inl x)
      then show ?thesis using False fd by simp
    next
      case (Inr r)
      obtain a ev ts2 where em: "turn_emit tok req False e1 (turn_account r ts) = (a, ev, ts2)" by (cases "turn_emit tok req False e1 (turn_account r ts)")
      have l: "generate_loop (Suc fuel) ops tok req spec True evs ts e = generate_loop fuel ops tok req spec a (evs @ [ev]) ts2 e1"
        using False fd Inr em by simp
      have "tu_polls ts \<le> length (gr_prompt_ids req) + gs_generated (tu_stats ts)" using inv(3,8) by simp
      note f = turn_emit_facts [OF em, unfolded turn_account_facts, OF inv(7) this]
      have "en_history e1 = gr_prompt_ids req @ butlast (map te_id (evs @ [ev]))"
        using feed_history [OF assms(1) fd [unfolded Inr]] inv(2) ids by simp
      then have "turn_inv req spec a (evs @ [ev]) ts2 e1"
        using f inv(1,3,6,9) unasked_le [OF inv(7), of "length evs"] stops False unfolding turn_inv_def by auto
      moreover have "length evs < length (evs @ [ev])" by simp
      ultimately show ?thesis using l by blast
    qed
  qed
qed

lemma generate_loop_inv:
  assumes "turn_ops_ok ops" "turn_inv req spec again evs ts e" "generate_loop fuel ops tok req spec again evs ts e = Some (Inr ts', evs', e')"
  shows "turn_inv req spec False evs' ts' e'"
  using assms(2,3)
proof (induction fuel arbitrary: again evs ts e)
  case 0
  then show ?case by (cases again) auto
next
  case (Suc fuel)
  show ?case
  proof (cases again)
    case True
    then have inv: "turn_inv req spec True evs ts e" and run: "generate_loop (Suc fuel) ops tok req spec True evs ts e = Some (Inr ts', evs', e')"
      using Suc.prems by simp_all
    from generate_step [OF assms(1) inv, of fuel tok] show ?thesis unfolding run using Suc.IH by auto
  qed (use Suc.prems in simp)
qed

lemma turn_start_inv:
  assumes "turn_ops_ok ops" "turn_prepare ops tok opt req e = (Inr ts, e1)" "tu_live ts" "turn_emit tok req False e1 ts = (again, ev, ts1)"
  shows "turn_inv req spec again [ev] ts1 e1"
proof -
  note p = turn_prepare_history [OF assms(1,2)]
  then have u: "unasked req (tu_polls ts)" "tu_polls ts \<le> length (gr_prompt_ids req) + gs_generated (tu_stats ts)" using assms(3) by auto
  note f = turn_emit_facts [OF assms(4) u]
  then show ?thesis using p(1,2) assms(3) unfolding turn_inv_def by auto
qed

section \<open>The loop ends\<close>

text \<open>A token is counted by every call of \<^verbatim>\<open>turn_emit\<close>, and the turn goes on only below the number asked for.\<close>

lemma turn_emit_counts:
  assumes "turn_emit tok req burst e ts = (again, ev, ts')"
  shows "gs_generated (tu_stats ts') = gs_generated (tu_stats ts) + 1" "again \<Longrightarrow> gs_generated (tu_stats ts') < gr_max_tokens req"
  using assms by (auto simp: turn_emit_def Let_def split: if_splits prod.splits)

lemma emit_rows_counts:
  assumes "emit_rows tok req e rows ts = (again, evs, ts')"
  shows "gs_generated (tu_stats ts) \<le> gs_generated (tu_stats ts')
    \<and> (rows \<noteq> [] \<longrightarrow> gs_generated (tu_stats ts) < gs_generated (tu_stats ts') \<and> (again \<longrightarrow> gs_generated (tu_stats ts') < gr_max_tokens req))"
  using assms
proof (induction rows arbitrary: ts again evs ts')
  case (Cons r rows)
  define ts1 where "ts1 = ts\<lparr>tu_cur := r, tu_stats := account_sample r ((tu_stats ts)\<lparr>gs_decode_steps := gs_decode_steps (tu_stats ts) + 1\<rparr>)\<rparr>"
  have g1: "gs_generated (tu_stats ts1) = gs_generated (tu_stats ts)" by (simp add: ts1_def)
  obtain a ev ts2 where em: "turn_emit tok req (rows \<noteq> []) e ts1 = (a, ev, ts2)" by (cases "turn_emit tok req (rows \<noteq> []) e ts1")
  note f = turn_emit_counts [OF em, unfolded g1]
  note run = Cons.prems [unfolded emit_rows.simps(2) Let_def, folded ts1_def, unfolded em, simplified]
  show ?case
  proof (cases a)
    case True
    obtain again1 evs1 ts3 where rec: "emit_rows tok req e rows ts2 = (again1, evs1, ts3)" by (cases "emit_rows tok req e rows ts2")
    have "again = again1" "ts' = ts3" using run True rec by auto
    moreover have "rows = [] \<Longrightarrow> ts3 = ts2" using rec by simp
    ultimately show ?thesis using Cons.IH [OF rec] f True by (cases "rows = []") auto
  qed (use run f in auto)
qed simp

definition drafts_some :: "turn_ops \<Rightarrow> bool" where
  "drafts_some ops \<longleftrightarrow> (\<forall>lst n stops e sp e'. eo_speculative ops lst n stops e = (Inr sp, e') \<longrightarrow> sp_rows sp \<noteq> [])"

lemma generate_loop_returns:
  assumes "drafts_some ops"
    and "again \<Longrightarrow> gs_generated (tu_stats ts) < gr_max_tokens req" "gr_max_tokens req - gs_generated (tu_stats ts) \<le> fuel"
  shows "\<exists>x. generate_loop fuel ops tok req spec again evs ts e = Some x"
  using assms(2,3)
proof (induction fuel arbitrary: again evs ts e)
  case 0
  then show ?case by (cases again) auto
next
  case (Suc fuel)
  have go: "\<exists>x. generate_loop fuel ops tok req spec a evs1 ts1 e1 = Some x"
    if "gs_generated (tu_stats ts) < gs_generated (tu_stats ts1)" "a \<longrightarrow> gs_generated (tu_stats ts1) < gr_max_tokens req" for a evs1 ts1 e1
    using that Suc.prems(2) by (intro Suc.IH) auto
  show ?case
  proof (cases again)
    case True
    show ?thesis
    proof (cases spec)
      case spec: True
      let ?call = "eo_speculative ops (tu_emitted_token ts) (gr_max_tokens req - gs_generated (tu_stats ts)) (gr_stop_ids req) e"
      obtain o1 e1 where sp: "?call = (o1, e1)" by (cases ?call)
      show ?thesis
      proof (cases o1)
        case (Inr sp1)
        define ts1 where "ts1 = ts\<lparr>tu_stats := (tu_stats ts)\<lparr>gs_speculation := add_cycle (sp_cycle sp1) (gs_speculation (tu_stats ts)),
            gs_decode_counts := add_counts (gs_decode_counts (tu_stats ts)) (sp_counts sp1)\<rparr>\<rparr>"
        obtain a new ts2 where em: "emit_rows tok req e1 (sp_rows sp1) ts1 = (a, new, ts2)" by (cases "emit_rows tok req e1 (sp_rows sp1) ts1")
        have "sp_rows sp1 \<noteq> []" using assms(1) sp [unfolded Inr] unfolding drafts_some_def by blast
        then have "gs_generated (tu_stats ts) < gs_generated (tu_stats ts2)" "a \<longrightarrow> gs_generated (tu_stats ts2) < gr_max_tokens req"
          using emit_rows_counts [OF em] by (simp_all add: ts1_def)
        then have "\<exists>x. generate_loop fuel ops tok req spec a (evs @ new) ts2 e1 = Some x" by (intro go)
        then show ?thesis using True spec sp Inr em by (simp add: ts1_def [symmetric])
      qed (use True spec sp in simp)
    next
      case False
      obtain o1 cnt e1 where fd: "feed (base_ops ops) [tu_emitted_token ts] e = (o1, cnt, e1)" by (cases "feed (base_ops ops) [tu_emitted_token ts] e")
      show ?thesis
      proof (cases o1)
        case (Inr r)
        obtain a ev ts2 where em: "turn_emit tok req False e1 (turn_account r ts) = (a, ev, ts2)" by (cases "turn_emit tok req False e1 (turn_account r ts)")
        note f = turn_emit_counts [OF em, unfolded turn_account_facts]
        then have "\<exists>x. generate_loop fuel ops tok req spec a (evs @ [ev]) ts2 e1 = Some x" by (intro go) simp_all
        then show ?thesis using True False fd Inr em by simp
      qed (use True False fd in simp)
    qed
  qed simp
qed

text \<open>An engine whose step answers with the next number, and a conversation with it.\<close>

definition count_ops :: turn_ops where
  "count_ops = \<lparr>eo_alloc = small_alloc,
     eo_step = (\<lambda>t q e. (Inr (empty_result\<lparr>dr_token := t + 1\<rparr>), e\<lparr>en_history := step_history t q (en_history e)\<rparr>)),
     eo_restore_baked = (\<lambda>ts e. (Inr None, e)), eo_gpu_prefill = (\<lambda>ts n e. (Inl Unavailable, e)), eo_bake = (\<lambda>r e. (Inr (), e)),
     eo_speculative = (\<lambda>t n stops e. (Inl Unavailable, e)), eo_reheat = (\<lambda>e. (Inl Unavailable, e))\<rparr>"

definition byte_tokenizer :: tokenizer where
  "byte_tokenizer = \<lparr>tk_vocab_size = 16, tk_str = replicate 16 ''x'', tk_bytes = replicate 16 ''x'', tk_flags = replicate 16 4,
     tk_vocab = (\<lambda>_. None), tk_added = (\<lambda>_. None), tk_merges = (\<lambda>_. None), tk_byte_id = (\<lambda>_. 0),
     tk_raw_trie = empty_trie, tk_norm_trie = empty_trie\<rparr>"

definition short_request :: generate_request where
  "short_request = \<lparr>gr_prompt_ids = [1, 2], gr_max_tokens = 3, gr_greedy = False, gr_stop_ids = [9], gr_reuse = True, gr_cancel = (\<lambda>_. False)\<rparr>"

definition plain_options :: session_options where
  "plain_options = \<lparr>so_gpu_prefill_min = 0, so_gpu_prefill_speedup = 6, so_replay = 128, so_progress_every = 16, so_rollback = False, so_reheat = False\<rparr>"

definition short_turn :: "(generate_stats result \<times> token_event list \<times> engine) option" where
  "short_turn = generate 3 count_ops byte_tokenizer plain_options short_request (Inr False) (quiet_engine new_kv_store [1])"

lemma talk_reuse: "prepare_reuse count_ops plain_options short_request (quiet_engine new_kv_store [1]) = (Inr (None, 1, 0, 0), quiet_engine new_kv_store [1])"
  by (simp add: prepare_reuse_def find_cached_def plain_options_def choose_reuse_def can_extend_def short_request_def quiet_engine_def common_context_prefix_def cold_wins_def apply_reuse_def context_length_def Let_def)

lemma prefill_Nil: "prefill_loop ops cancel chunk [] n polls acc res e = (Inr (Some res), n, polls, acc, e)"
  by (simp add: prefill_loop.simps)

lemma count_feed:
  assumes "en_gpu_ready e" "en_produce_ced e" "length (en_history e) < max_context e"
  shows "feed (base_ops count_ops) [t] e = (Inr (empty_result\<lparr>dr_token := t + 1\<rparr>), (0, 0, 0), e\<lparr>en_history := en_history e @ [t], en_sample_step := False\<rparr>)"
  using assms by (simp add: feed_def context_length_def count_ops_def engine_ops.truncate_def step_history_def empty_result_def)

lemma idle_max: "max_context (e\<lparr>en_history := h, en_sample_step := b\<rparr>) = max_context e" "max_context (e\<lparr>en_greedy := g\<rparr>) = max_context e" "max_context (e\<lparr>en_prompt_first := p\<rparr>) = max_context e"
    "max_context (quiet_engine new_kv_store h) = 1024"
  by (simp_all add: max_context_def quiet_engine_def new_kv_store_def default_kv_config_def kMaxIndexPositions_def)

definition talk_engine :: "u32 list \<Rightarrow> engine" where "talk_engine h = quiet_engine new_kv_store h"

lemma talk: "en_gpu_ready (talk_engine h)" "en_produce_ced (talk_engine h)" "en_history (talk_engine h) = h" "max_context (talk_engine h) = 1024"
   "(talk_engine h)\<lparr>en_history := h', en_sample_step := False\<rparr> = talk_engine h'" "(talk_engine h)\<lparr>en_greedy := False\<rparr> = talk_engine h"
   "retain_prompt_state r (talk_engine h) = (Inr (), talk_engine h)"
  by (simp_all add: talk_engine_def idle_max) (simp_all add: quiet_engine_def retain_prompt_state_def Let_def split: option.splits)

lemma talk_feed: "length h < 1024 \<Longrightarrow> feed (base_ops count_ops) [t] (talk_engine h) = (Inr (empty_result\<lparr>dr_token := t + 1\<rparr>), (0, 0, 0), talk_engine (h @ [t]))"
  by (simp add: count_feed talk)

lemma talk_push: "stream_push byte_tokenizer True t pending = ([], pending)"
  by (simp add: stream_push_def is_special_def byte_tokenizer_def)

lemma talk_fields:
  "gr_prompt_ids short_request = [1, 2]" "gr_greedy short_request = False" "tk_vocab_size byte_tokenizer = 16" "eo_bake count_ops = (\<lambda>r e. (Inr (), e))"
  by (simp_all add: short_request_def byte_tokenizer_def count_ops_def)

lemma talk_prepare: "\<exists>ts. turn_prepare count_ops byte_tokenizer plain_options short_request (talk_engine [1]) = (Inr ts, talk_engine [1, 2])
    \<and> tu_live ts \<and> dr_token (tu_cur ts) = 3 \<and> gs_generated (tu_stats ts) = 0 \<and> tu_pending ts = []"
proof -
  have r: "run_prefill count_ops plain_options short_request 1 None (talk_engine [1]) = (Inr (Some (empty_result\<lparr>dr_token := 3\<rparr>)), ''decode'', 1, 1, (0, 0, 0), talk_engine [1, 2])"
    by (simp add: run_prefill_def plain_options_def short_request_def prefill_loop.simps [of _ _ _ "[2]"] prefill_Nil talk_feed add_counts_def)
  show ?thesis
    using r talk_reuse
    by (simp add: turn_prepare_def talk_engine_def [symmetric] talk talk_fields new_stats_def account_sample_def empty_result_def Let_def)
qed

lemma talk_emit:
  assumes "t = dr_token (tu_cur ts)" "t \<noteq> 9" "length h < 1000"
  shows "\<exists>ev ts'. turn_emit byte_tokenizer short_request False (talk_engine h) ts = (gs_generated (tu_stats ts) < 2, ev, ts') \<and> te_id ev = t
     \<and> tu_emitted_token ts' = t \<and> gs_generated (tu_stats ts') = gs_generated (tu_stats ts) + 1"
  using assms by (simp add: turn_emit_def talk_push short_request_def talk context_length_def Let_def)

lemma short_turn_replies: "\<exists>st evs e'. short_turn = Some (Inr st, evs, e') \<and> map te_id evs = [3, 4, 5]"
proof -
  obtain ts where p: "turn_prepare count_ops byte_tokenizer plain_options short_request (talk_engine [1]) = (Inr ts, talk_engine [1, 2])"
    and ts: "tu_live ts" "dr_token (tu_cur ts) = 3" "gs_generated (tu_stats ts) = 0" using talk_prepare by blast
  obtain ev1 ts1 where e1: "turn_emit byte_tokenizer short_request False (talk_engine [1, 2]) ts = (True, ev1, ts1)" "te_id ev1 = 3" "tu_emitted_token ts1 = 3" "gs_generated (tu_stats ts1) = 1"
    using talk_emit [of 3 ts "[1, 2]"] ts by auto
  let ?r = "\<lambda>t. empty_result\<lparr>dr_token := t\<rparr>"
  obtain ev2 ts2 where e2: "turn_emit byte_tokenizer short_request False (talk_engine [1, 2, 3]) (turn_account (?r 4) ts1) = (True, ev2, ts2)" "te_id ev2 = 4" "tu_emitted_token ts2 = 4" "gs_generated (tu_stats ts2) = 2"
    using talk_emit [of 4 "turn_account (?r 4) ts1" "[1, 2, 3]"] e1 by (auto simp: turn_account_def account_sample_def empty_result_def)
  obtain ev3 ts3 where e3: "turn_emit byte_tokenizer short_request False (talk_engine [1, 2, 3, 4]) (turn_account (?r 5) ts2) = (False, ev3, ts3)" "te_id ev3 = 5"
    using talk_emit [of 5 "turn_account (?r 5) ts2" "[1, 2, 3, 4]"] e2 by (auto simp: turn_account_def account_sample_def empty_result_def)
  have "generate_loop (Suc (Suc (Suc 0))) count_ops byte_tokenizer short_request False True [ev1] ts1 (talk_engine [1, 2]) = Some (Inr ts3, [ev1, ev2, ev3], talk_engine [1, 2, 3, 4])"
    using talk_feed [of "[1, 2]" 3] talk_feed [of "[1, 2, 3]" 4] e1 e2 e3 by simp
  then show ?thesis using p ts(1) e1 e2 e3 by (simp add: short_turn_def generate_def talk_engine_def [symmetric] numeral_3_eq_3 turn_finish_def plain_options_def Let_def)
qed

lemma count_ops_ok: "turn_ops_ok count_ops"
  by (simp add: turn_ops_ok_def count_ops_def)

text \<open>
  C17. What a turn leaves, for an engine whose operations do to the history what they promise
  (\<open>turn_ops_ok\<close>: a step appends its token, a drafted step the token it was given and all it emits but
  the last, a prefill and a snapshot leave the prompt). When \<^verbatim>\<open>generate\<close> returns an account and gave out
  tokens, the history of the engine is the prompt and every one of them but the last, whether the prompt
  was extended, rolled back to, taken from a snapshot or run afresh; no token but the last is a stop
  token, and there are at most as many as asked for, at least one. The turn ended for the first of these
  reasons that applied at its last token: it is a stop token, it is the last one asked for, the context is
  full, the callback said yes. That yes is its first, and among as many answers as the prompt and the reply
  have tokens; without drafting, at least the first answers, one fewer than the reply has tokens, are all no.
  When the turn was cancelled before the first token, the history is a beginning of the prompt and the
  callback said yes among as many answers as the prompt has tokens.
\<close>

theorem turn_leaves_history:
  assumes "turn_ops_ok ops" "generate fuel ops tok opt req policy e = Some (Inr st, evs, e')"
  shows "gs_context_after st = length (en_history e') \<and>
    (if evs = [] then gs_finish st = ''cancel'' \<and> prefix (en_history e') (gr_prompt_ids req) \<and> first_yes req (length (gr_prompt_ids req))
     else en_history e' = gr_prompt_ids req @ butlast (map te_id evs) \<and> gs_generated st = length evs \<and> length evs \<le> max 1 (gr_max_tokens req)
       \<and> (\<forall>ev \<in> set (butlast evs). te_id ev \<notin> set (gr_stop_ids req))
       \<and> (if te_id (last evs) \<in> set (gr_stop_ids req) then gs_finish st = ''stop''
          else if gr_max_tokens req \<le> length evs then gs_finish st = ''length''
          else if max_context e' \<le> length (en_history e') + 1 then gs_finish st = ''context''
          else gs_finish st = ''cancel'' \<and> first_yes req (length (gr_prompt_ids req) + length evs))
       \<and> (policy = Inr False \<longrightarrow> unasked req (length evs - 1)))"
proof -
  obtain spec ts e1 where p: "policy = Inr spec" "turn_prepare ops tok opt req e = (Inr ts, e1)"
    using assms(2) by (auto simp: generate_def split: sum.splits prod.splits)
  show ?thesis
  proof (cases "tu_live ts")
    case False
    then have "st = tu_stats ts" "evs = []" "e' = e1" using assms(2) p by (auto simp: generate_def)
    then show ?thesis using turn_prepare_history(3) [OF assms(1) p(2) False] by (simp add: context_length_def)
  next
    case True
    obtain again ev ts1 where em: "turn_emit tok req False e1 ts = (again, ev, ts1)" by (cases "turn_emit tok req False e1 ts")
    obtain ts2 e2 where l: "generate_loop fuel ops tok req spec again [ev] ts1 e1 = Some (Inr ts2, evs, e2)" and tf: "turn_finish ops opt ts2 e2 = (st, e')"
      using assms(2) p True em by (auto simp: generate_def split: option.splits sum.splits prod.splits)
    have inv: "turn_inv req spec False evs ts2 e2" by (rule generate_loop_inv [OF assms(1) turn_start_inv [OF assms(1) p(2) True em] l])
    have "en_history e' = en_history e2" "max_context e' = max_context e2" "gs_finish st = gs_finish (tu_stats ts2)"
        "gs_generated st = gs_generated (tu_stats ts2)" "gs_context_after st = length (en_history e2)"
      using tf turn_ops_okD(7) [OF assms(1), of e2] by (auto simp: turn_finish_def context_length_def Let_def split: if_splits prod.splits sum.splits)
    then show ?thesis using inv unfolding turn_inv_def ended_def by (auto simp: context_length_def p(1) split: if_splits)
  qed
qed

theorem turn_leaves_history_witness:
  "\<exists>st evs e'. short_turn = Some (Inr st, evs, e') \<and> en_history e' = [1, 2, 3, 4] \<and> gs_finish st = ''length'' \<and> gs_context_after st = 4"
proof -
  obtain st evs e' where r: "short_turn = Some (Inr st, evs, e')" and ids: "map te_id evs = [3, 4, 5]"
    using short_turn_replies by (elim exE conjE)
  from ids have evs: "length evs = 3" "te_id (last evs) = 5" "evs \<noteq> []"
    using arg_cong [OF ids, of length] last_map [of evs te_id] by auto
  have "en_history e' = [1, 2, 3, 4]" "gs_finish st = ''length''" "gs_context_after st = 4"
    using turn_leaves_history [OF count_ops_ok r [unfolded short_turn_def]] evs ids by (simp_all add: short_request_def)
  with r show ?thesis by (intro exI conjI)
qed

text \<open>
  C18. A turn ends: whatever the engine answers, \<^verbatim>\<open>generate\<close> takes no more rounds than the tokens asked for,
  as long as a drafted step that succeeds gives out at least one token.
\<close>

theorem generate_returns:
  assumes "drafts_some ops" "gr_max_tokens req \<le> fuel"
  shows "\<exists>x. generate fuel ops tok opt req policy e = Some x"
proof (cases policy)
  case (Inr spec)
  obtain r e1 where p: "turn_prepare ops tok opt req e = (r, e1)" by (cases "turn_prepare ops tok opt req e")
  show ?thesis
  proof (cases "\<exists>ts. r = Inr ts \<and> tu_live ts")
    case False
    then show ?thesis using Inr p by (cases r) (auto simp: generate_def)
  next
    case True
    then obtain ts where ts: "r = Inr ts" "tu_live ts" by blast
    obtain again ev ts1 where em: "turn_emit tok req False e1 ts = (again, ev, ts1)" by (cases "turn_emit tok req False e1 ts")
    have "gr_max_tokens req - gs_generated (tu_stats ts1) \<le> fuel" using assms(2) by linarith
    from generate_loop_returns [OF assms(1) turn_emit_counts(2) [OF em] this]
    obtain o2 evs e2 where "generate_loop fuel ops tok req spec again [ev] ts1 e1 = Some (o2, evs, e2)" by (metis prod_cases3)
    then show ?thesis using Inr p ts em by (cases o2) (simp_all add: generate_def split: prod.splits)
  qed
qed (simp add: generate_def)

theorem generate_returns_witness: "\<exists>x. short_turn = Some x"
  unfolding short_turn_def by (rule generate_returns) (simp_all add: short_request_def drafts_some_def count_ops_def)

end
