(* ===== verification/Spec2Isabelle.thy ===== *)
theory Spec2Isabelle
  imports Stream_Handoff Manifest_Load Io_Failover Speculate_Props Cache_State Tokenizer_Spec Pretokenizer Session_Turn_Props
begin

text \<open>
  A verification of the core of cachedMoE, a runtime that decodes a mixture-of-experts model whose
  experts live on disk. The theories follow the sources; names are those of the code.

  \<^bold>\<open>The program.\<close> A checkpoint has a manifest (\<^verbatim>\<open>model/manifest\<close>) that says where every
  expert's weights lie in which file. The slab pool (\<^verbatim>\<open>store/slab\<close>) gives fixed-size slots in
  host or device memory, the expert store (\<^verbatim>\<open>store/expert_store\<close>) says which expert is in which
  slot and publishes their addresses in the pointer table the GPU reads, the planner
  (\<^verbatim>\<open>store/planner\<close>) turns the experts a layer routes to into hits and misses, evicts to make
  room and asks the read engine (\<^verbatim>\<open>storage/io_engine\<close>) for the misses. The read engine cuts a read
  into chunks, queues them by priority class, issues them to a backend from one dispatcher thread,
  and picks for each request one of several mirrored drives (\<^verbatim>\<open>storage/source_router\<close>). On
  top, speculative decoding (\<^verbatim>\<open>runtime/speculate\<close>) drafts a lattice of tokens, chooses a path
  through it (\<^verbatim>\<open>cpu/dspark_tree\<close>), verifies the path with the model and keeps the accepted
  prefix. At shutdown the resident expert ids are saved as hints for the next start
  (\<^verbatim>\<open>runtime/expert_cache_state\<close>). The KV store (\<^verbatim>\<open>runtime/kvstore\<close>) holds the context's keys and
  values, and the tokenizer (\<^verbatim>\<open>text/tokenizer\<close>) stands between text and tokens. A session
  (\<^verbatim>\<open>runtime/session\<close>) runs the turns of a conversation over all of it: it keeps as much of the
  context as the next prompt shares, parks contexts and brings them back.

  \<^bold>\<open>Foundations.\<close> Prelude: the machine integers, \<^verbatim>\<open>core/status.h\<close> with \<^verbatim>\<open>Result\<close> as a sum
  type (a failure keeps its code, the message is left out), shared list and fold lemmas.
  Core_Types and Align: \<^verbatim>\<open>core/types.h\<close>, the constants of \<^verbatim>\<open>model/layout.h\<close>, and the
  alignment arithmetic of \<^verbatim>\<open>core/align.h\<close> on 64-bit words with its wrap-around.

  \<^bold>\<open>Manifest.\<close> Json and Json_Props: the recursive-descent parser of \<^verbatim>\<open>core/json.cpp\<close> and the
  writers of \<^verbatim>\<open>core/json_write.h\<close>. The parser's calls are counted by fuel, two for each character and
  two more; json_parse_returns shows that this is always enough and that more changes nothing.
  Json_Props also shows which values some text denotes. Manifest: records, queries and
  \<^verbatim>\<open>validate\<close>. Manifest_Parse: \<^verbatim>\<open>Manifest::parse\<close>, and that rendering and parsing are inverse.
  Manifest_Load: a manifest that parses and validates never makes a fill fail by its own shape.

  \<^bold>\<open>Slots and experts.\<close> Slab_Pool: \<^verbatim>\<open>SlabPool\<close>, and that the addresses of different slots are
  disjoint. Expert_Store: the record store is \<^verbatim>\<open>ExpertStore\<close>'s members, each method one function of
  the store, atomic as under its mutex; store_op and run_op list the methods that change state,
  store_steps their interleavings, reachable what they lead to. Expert_Store_Inv: the
  invariant and that every operation keeps it. Expert_Store_Props: what callers rely on (the exact
  pointer table, snapshots that stay valid for the GPU, pinned and frozen experts, settled fills).
  Expert_Store_Spec: the abstract cache, the simulation, the LRU victim, where reads land.

  \<^bold>\<open>Planner.\<close> Planner: policies, streamed admission, fetches, \<^verbatim>\<open>plan_layer\<close>, backfill. The read
  engine is the parameter io_env there, what it answers to \<^verbatim>\<open>submit\<close>; waiting for it
  is a function from store to store. Planner_Props: every planner operation is a sequence of
  store operations, the locale eviction_policy with both policies as instances, that hits stay, that
  reclaiming frees what it can, and that backfill ends without evicting. Stream_Handoff: the locale
  stream_cache, a streaming selection of the newest keys, with the store under
  the engine's prefill sink (\<^verbatim>\<open>sink.reserve\<close> and \<^verbatim>\<open>sink.release\<close> in \<^verbatim>\<open>runtime/engine\<close>, one transfer at
  a time) as its instance.

  \<^bold>\<open>Read engine.\<close> Io_Config: chunk plans, tuning, queue depths. Source_Router: the router, the
  error budget of a mirror, the thermal gate. Io_Engine: the members of \<^verbatim>\<open>IoEngine\<close> as a record,
  each mutex-guarded section as one function; the backend's answers, the files and the clock are
  parameters. The issue loop has fuel for every chunk
  left to issue, which issue_ready_chunks_returns shows is enough. Io_Engine_Inv: the
  invariant. Io_Engine_Props: runs of callers and dispatcher in any interleaving, every request
  answered exactly once, exact counters, draining. Io_Engine_Sched: queue depths, strict priority,
  where a chunk lands, the end of the issue loop. Io_Sources: readmission, the primary,
  and two places where a routed request's charge is not given back. Io_Failover: what a pending request
  remembers of its caller's file is an invariant of every run, so that a failing mirror costs a second read
  of that file and not an error.

  \<^bold>\<open>Speculative decoding.\<close> Dspark_Tree: the lattice, three path objectives, three acceptance rules.
  Dspark_Props: both dynamic programs are optimal, exact sampling keeps the model's distribution.
  Speculate: the cycle over any \<^verbatim>\<open>SpecModel\<close>, a record of functions on an abstract model state.
  Speculate_Props: at temperature 0 a run emits what plain decoding emits, for every model that
  meets the contract of the interface; the runtime's top-K rule at one is the greedy rule.

  \<^bold>\<open>Restart hints.\<close> Cache_State: the file format, atomic writing, validating reading. A file is accepted exactly when the writer could
  have produced it, and what \<^verbatim>\<open>save_expert_cache\<close> saves of a store is exactly its resident, unpinned experts.

  \<^bold>\<open>Tokenizer.\<close> The parts of \<^verbatim>\<open>text/tokenizer\<close>. Utf8: \<^verbatim>\<open>utf8_next\<close>, \<^verbatim>\<open>utf8_lossy\<close> and the code points of a
  text. Bpe: the merge loop with its priority queue; three steps for each byte are enough for it, and
  bpe_merge_all shows that it ends and equals the merge of the leftmost pair of lowest rank.
  Tokenizer: the byte map, the trie of added tokens, the splits, the matchers, \<^verbatim>\<open>encode\<close>, \<^verbatim>\<open>decode\<close>,
  \<^verbatim>\<open>StreamDecoder\<close> and \<^verbatim>\<open>Tokenizer::load\<close> from the parsed document; the generated Unicode tables are the
  parameter unicode_tables. Tokenizer_Props: the trie, what a loaded tokenizer keeps, encoding and
  decoding. Tokenizer_Spec: the round trip, the merges, streaming and the longest match, with a
  document that loads. Pretokenizer: the patterns as a backtracking engine reads them, and that the
  matchers take the same.

  \<^bold>\<open>KV store.\<close> The memory of a context while it is decoded, \<^verbatim>\<open>runtime/kvstore\<close>. Codec: words as
  bytes, with the locale fixed_codec. Fp4: IEEE single precision on bit patterns with its rounding,
  the element formats of \<^verbatim>\<open>cpu/dequant\<close>, the activation quantiser, and rows of 4-bit values with their scales, which come
  back exactly. Kv_Store: geometry, layout in slabs, growth, seeding, the steps of a decode; Kv_Context: packing, copies
  of rows, ring snapshots, the prompt's window. The record kv_store is \<^verbatim>\<open>KvStore\<close>'s members, a buffer its
  bytes; the answers of the allocator are a parameter. Kv_Memory: the layout's regions are disjoint, and the
  locale byte_memory, a flat memory, with the slabs under a layout and the store as instances.
  Kv_Store_Inv, Kv_Store_Props, Kv_Context_Props: the shape of a store, that every operation
  keeps it, and that growing is invisible. Kv_Ring: the list of a step, rolling the ring back,
  the prompt's window. Kv_Pack: a parked context comes back byte for byte.

  \<^bold>\<open>Sessions.\<close> \<^verbatim>\<open>runtime/session\<close> and the stream operations of \<^verbatim>\<open>runtime/engine\<close> that it calls. Kv_Disk: the
  files of parked contexts, with the locale stream_codec, a writer and a reader that undo each other,
  and its instances up to a whole context; a file is accepted exactly when it begins with what the writer
  gives. Session_Stream: the record engine, the members of a stream that a conversation uses, the
  retained prompt, the plan of a replay, the replay, rollback, parking and restoring. Session_Replay:
  what a plan covers, and what a replayed step leaves; decode_step_ok is the contract of a decode step,
  which is GPU work and a parameter: it may write the slot of its position in the ring, the row its
  position completes and the carried state, and nothing else of the context. Session_Context: rolling
  back and restoring keep every row, key and carried state byte for byte. Session_Turn: preparing a turn,
  emitting, accounting and the loop of \<^verbatim>\<open>generate\<close>, with the GPU prefill, the speculative step, the
  baked prompts and the reheating as parameters; the loop has fuel, and generate_returns shows that the
  number of tokens asked for is enough when a drafted step gives out a token. Session_Turn_Props: turn_ops_ok
  is the contract of those parameters, what each does to the history, and under it the history after a turn
  is the prompt and the reply but its last token.

  \<^bold>\<open>Conventions.\<close> Offsets, addresses and packed keys are words with their width. Counters of
  events, stamps and timelines are natural numbers: the code keeps them in 64 bits, which no run
  exhausts. Floats and doubles of the router, the
  draft lattice and the JSON reader are reals, without rounding; those of the KV store are bit patterns. A hash map is a map, a vector a list. A
  section under a mutex is one atomic step, and threads are interleavings of such steps.

  \<^bold>\<open>Not modelled.\<close> The GPU side (\<^verbatim>\<open>gpu/vulkan\<close> and the shaders), since its results are not defined
  by the C++ sources; the rest of the engine, the decode layer and the bridge (\<^verbatim>\<open>runtime/engine\<close>,
  \<^verbatim>\<open>runtime/decode_layer\<close>, \<^verbatim>\<open>runtime/moe_bridge\<close>), which record GPU work and drive
  the components above; of \<^verbatim>\<open>runtime/session\<close> several turns at once, the pool of sessions with its writer
  thread, the printed account and all times; the draft model on the GPU (\<^verbatim>\<open>runtime/dspark_runtime\<close>) behind the interface
  that Speculate takes as a parameter; the engram tables, sampling of single tokens and
  the floating-point kernels of \<^verbatim>\<open>cpu\<close>; the platform backends of \<^verbatim>\<open>storage\<close>, pure operating-system I/O; the pinned-set
  loader and other thin wrappers of \<^verbatim>\<open>store\<close>; log, profiler and environment, the command line, benchmarks, tests and tools.
\<close>

end
